(* ===== verification/Prelude.thy ===== *)
theory Prelude imports Main "HOL-Library.Char_ord" "HOL-Library.Word" begin

text \<open>
  Shared vocabulary of the development: byte strings, the C size limits, the error codes of
  \<^verbatim>\<open>shelltype/include/shelltype.h\<close>, C-string views of byte buffers, and the
  collections the component theories add their rules to.

  A \<^verbatim>\<open>const char *\<close> with an explicit length is the list of the bytes it references
  (\<open>bytes\<close>); a HOL \<open>char\<close> is exactly one of the 256 byte values, and \<open>ord\<close>
  reads it as C's \<^verbatim>\<open>unsigned char\<close>. Pointers into a buffer are suffixes of its list.
  Memory allocation is taken to succeed throughout, so the \<^verbatim>\<open>ST_ERR_MEMORY\<close>
  branches of the code have no counterpart here.
\<close>

type_synonym bytes = "char list"

named_theorems codec_simps \<open>framing and encoding equations used by the round-trip proofs\<close>
named_theorems trie_simps \<open>rewrite rules of the policy trie's accessors and updates\<close>
named_theorems wf_intros \<open>introduction rules for the well-formedness predicates\<close>

section \<open>Error codes\<close>

datatype st_error =
  ST_OK | ST_ERR_INVALID | ST_ERR_MEMORY | ST_ERR_IO | ST_ERR_FAILED | ST_ERR_FORMAT | ST_ERR_LIMIT

fun st_error_string :: "st_error \<Rightarrow> bytes" where
  "st_error_string ST_OK = ''ok''"
| "st_error_string ST_ERR_INVALID = ''invalid''"
| "st_error_string ST_ERR_MEMORY = ''memory''"
| "st_error_string ST_ERR_IO = ''io''"
| "st_error_string ST_ERR_FAILED = ''failed''"
| "st_error_string ST_ERR_FORMAT = ''format''"
| "st_error_string ST_ERR_LIMIT = ''limit''"

section \<open>Limits\<close>

text \<open>\<^verbatim>\<open>size_t\<close> is 64 bits wide.\<close>

definition SIZE_MAX :: nat where
  "SIZE_MAX = 18446744073709551615"

definition ST_MAX_NETPATTERN_LEN :: nat where "ST_MAX_NETPATTERN_LEN = 4096"
definition ST_MAX_TOKEN_LEN :: nat where "ST_MAX_TOKEN_LEN = 256"
definition ST_MAX_CMD_TOKENS :: nat where "ST_MAX_CMD_TOKENS = 128"
definition ST_MAX_CPL_LEN :: nat where
  "ST_MAX_CPL_LEN = ST_MAX_NETPATTERN_LEN * 6 + ST_MAX_CMD_TOKENS * 3"
definition ST_MAX_POLICY_PATTERNS :: nat where "ST_MAX_POLICY_PATTERNS = 65535"

lemmas limit_defs = SIZE_MAX_def ST_MAX_NETPATTERN_LEN_def ST_MAX_TOKEN_LEN_def
  ST_MAX_CMD_TOKENS_def ST_MAX_CPL_LEN_def ST_MAX_POLICY_PATTERNS_def

section \<open>Bytes and C strings\<close>

abbreviation ord :: "char \<Rightarrow> nat" where
  "ord c \<equiv> of_char c"

text \<open>The NUL byte, and the C string a buffer holds: its bytes up to the first NUL.\<close>

abbreviation NUL :: char where
  "NUL \<equiv> CHR 0x00"

definition cstr :: "bytes \<Rightarrow> bytes" where
  "cstr s = takeWhile (\<lambda>c. c \<noteq> NUL) s"

lemma cstr_id [simp]: "NUL \<notin> set s \<Longrightarrow> cstr s = s"
  by (auto simp: cstr_def takeWhile_eq_all_conv)

lemma cstr_no_nul [simp]: "NUL \<notin> set (cstr s)"
  by (auto simp: cstr_def dest: set_takeWhileD)

lemma cstr_idem [simp]: "cstr (cstr s) = cstr s"
  by simp

lemma cstr_Nil [simp]: "cstr [] = []"
  by (simp add: cstr_def)

lemma length_cstr_le: "length (cstr s) \<le> length s"
  by (simp add: cstr_def length_takeWhile_le)

text \<open>\<^verbatim>\<open>memcmp\<close> followed by the length comparison: the order of byte strings the
  code sorts and compares by. Only the sign of the C result is ever used.\<close>

fun bytes_compare :: "bytes \<Rightarrow> bytes \<Rightarrow> int" where
  "bytes_compare [] [] = 0"
| "bytes_compare [] (_ # _) = -1"
| "bytes_compare (_ # _) [] = 1"
| "bytes_compare (x # xs) (y # ys) =
     (if ord x < ord y then -1 else if ord y < ord x then 1 else bytes_compare xs ys)"

lemma ord_inj [simp]: "ord x = ord y \<longleftrightarrow> x = y"
  by simp

lemma bytes_compare_eq_0 [simp]: "bytes_compare xs ys = 0 \<longleftrightarrow> xs = ys"
proof (induction xs ys rule: bytes_compare.induct)
  case (4 x xs y ys)
  then show ?case by (cases "ord x < ord y"; cases "ord y < ord x") (auto dest: less_not_sym)
qed auto

lemma bytes_compare_antisym: "bytes_compare ys xs = - bytes_compare xs ys"
  by (induction xs ys rule: bytes_compare.induct) auto

lemma bytes_compare_range: "bytes_compare xs ys \<in> {-1, 0, 1}"
  by (induction xs ys rule: bytes_compare.induct) auto

lemma bytes_compare_Cons_neg:
  "bytes_compare (x # xs) (y # ys) < 0 \<longleftrightarrow> ord x < ord y \<or> x = y \<and> bytes_compare xs ys < 0"
  using linorder_less_linear [of "ord x" "ord y"] by auto

lemma bytes_compare_trans:
  "bytes_compare xs ys < 0 \<Longrightarrow> bytes_compare ys zs < 0 \<Longrightarrow> bytes_compare xs zs < 0"
proof (induction xs ys arbitrary: zs rule: bytes_compare.induct)
  case (2 y ys)
  then show ?case by (cases zs) auto
next
  case (4 x xs y ys)
  show ?case
  proof (cases zs)
    case Nil
    with 4 show ?thesis by simp
  next
    case (Cons z zs')
    with 4 show ?thesis
      by (auto simp: bytes_compare_Cons_neg simp del: bytes_compare.simps dest: less_trans)
  qed
qed auto

section \<open>Results\<close>

text \<open>A fallible operation returns an error code or a value.\<close>

type_synonym 'a result = "st_error + 'a"

definition bind_result :: "'a result \<Rightarrow> ('a \<Rightarrow> 'b result) \<Rightarrow> 'b result" where
  "bind_result r f = (case r of Inl e \<Rightarrow> Inl e | Inr x \<Rightarrow> f x)"

lemma bind_result_simps [simp]:
  "bind_result (Inl e) f = Inl e"
  "bind_result (Inr x) f = f x"
  by (simp_all add: bind_result_def)

lemma bind_result_Inr [simp]:
  "bind_result r f = Inr y \<longleftrightarrow> (\<exists>x. r = Inr x \<and> f x = Inr y)"
  by (cases r) auto

text \<open>Applies a fallible function along a list; the first error ends it.\<close>

fun map_result :: "('a \<Rightarrow> 'b result) \<Rightarrow> 'a list \<Rightarrow> 'b list result" where
  "map_result f [] = Inr []"
| "map_result f (x # xs) =
     bind_result (f x) (\<lambda>y. bind_result (map_result f xs) (\<lambda>ys. Inr (y # ys)))"

lemma map_result_Inr_iff:
  "map_result f xs = Inr ys \<longleftrightarrow> list_all2 (\<lambda>x y. f x = Inr y) xs ys"
proof (induction xs arbitrary: ys)
  case Nil
  then show ?case by (cases ys) auto
next
  case (Cons x xs)
  then show ?case by (cases ys) auto
qed

section \<open>Lists\<close>

lemma list_all2_nthI:
  "length xs = length ys \<Longrightarrow> (\<And>i. i < length xs \<Longrightarrow> P (xs ! i) (ys ! i)) \<Longrightarrow> list_all2 P xs ys"
  by (simp add: list_all2_conv_all_nth)

lemma nth_all_list_update:
  "(\<And>x. x \<in> set xs \<Longrightarrow> P x) \<Longrightarrow> P y \<Longrightarrow> x \<in> set (xs[i := y]) \<Longrightarrow> P x"
  using set_update_subset_insert by fastforce

end
