(* ===== verification/Ascii.thy ===== *)
theory Ascii imports Prelude begin

text \<open>
  The fixed ASCII byte predicates of \<^verbatim>\<open>common/shell_ascii.h\<close>. They are written on
  the byte's value, as the C code compares \<^verbatim>\<open>unsigned char\<close>s; bytes of 128 and
  above are in none of the classes.
\<close>

definition shell_ascii_alpha :: "char \<Rightarrow> bool" where
  "shell_ascii_alpha c \<longleftrightarrow>
     (CHR ''A'' \<le> c \<and> c \<le> CHR ''Z'') \<or> (CHR ''a'' \<le> c \<and> c \<le> CHR ''z'')"

definition shell_ascii_digit :: "char \<Rightarrow> bool" where
  "shell_ascii_digit c \<longleftrightarrow> CHR ''0'' \<le> c \<and> c \<le> CHR ''9''"

definition shell_ascii_alnum :: "char \<Rightarrow> bool" where
  "shell_ascii_alnum c \<longleftrightarrow> shell_ascii_alpha c \<or> shell_ascii_digit c"

definition shell_ascii_xdigit :: "char \<Rightarrow> bool" where
  "shell_ascii_xdigit c \<longleftrightarrow>
     shell_ascii_digit c \<or> (CHR ''A'' \<le> c \<and> c \<le> CHR ''F'') \<or> (CHR ''a'' \<le> c \<and> c \<le> CHR ''f'')"

definition shell_ascii_lower :: "char \<Rightarrow> bool" where
  "shell_ascii_lower c \<longleftrightarrow> CHR ''a'' \<le> c \<and> c \<le> CHR ''z''"

definition shell_ascii_space :: "char \<Rightarrow> bool" where
  "shell_ascii_space c \<longleftrightarrow> c = CHR '' '' \<or> (CHR 0x09 \<le> c \<and> c \<le> CHR 0x0D)"

definition shell_ascii_print :: "char \<Rightarrow> bool" where
  "shell_ascii_print c \<longleftrightarrow> CHR 0x20 \<le> c \<and> c \<le> CHR 0x7E"

definition shell_ascii_fold :: "char \<Rightarrow> char" where
  "shell_ascii_fold c =
     (if CHR ''A'' \<le> c \<and> c \<le> CHR ''Z'' then char_of (ord c + (ord CHR ''a'' - ord CHR ''A'')) else c)"

fun shell_ascii_equal_ci :: "bytes \<Rightarrow> bytes \<Rightarrow> bool" where
  "shell_ascii_equal_ci [] [] = True"
| "shell_ascii_equal_ci (x # xs) (y # ys) =
     (shell_ascii_fold x = shell_ascii_fold y \<and> shell_ascii_equal_ci xs ys)"
| "shell_ascii_equal_ci _ _ = False"

lemmas ascii_defs = shell_ascii_alpha_def shell_ascii_digit_def shell_ascii_alnum_def
  shell_ascii_xdigit_def shell_ascii_lower_def shell_ascii_space_def shell_ascii_print_def

lemma equal_ci_refl [simp]: "shell_ascii_equal_ci xs xs"
  by (induction xs) auto

lemma equal_ci_iff: "shell_ascii_equal_ci xs ys \<longleftrightarrow> map shell_ascii_fold xs = map shell_ascii_fold ys"
  by (induction xs ys rule: shell_ascii_equal_ci.induct) auto

text \<open>The value of a digit byte: \<^verbatim>\<open>c - '0'\<close>.\<close>

definition digit_value :: "char \<Rightarrow> nat" where
  "digit_value c = ord c - ord CHR ''0''"

definition digit_char :: "nat \<Rightarrow> char" where
  "digit_char d = char_of (ord CHR ''0'' + d)"

lemma digit_iff: "shell_ascii_digit c \<longleftrightarrow> 48 \<le> ord c \<and> ord c \<le> 57"
  by (simp add: shell_ascii_digit_def less_eq_char_def)

lemma digit_value_lt [simp]: "shell_ascii_digit c \<Longrightarrow> digit_value c < 10"
  by (auto simp: digit_iff digit_value_def)

lemma digit_char_digit [simp]: "d < 10 \<Longrightarrow> shell_ascii_digit (digit_char d)"
  by (simp add: digit_iff digit_char_def)

lemma digit_value_char [simp]: "d < 10 \<Longrightarrow> digit_value (digit_char d) = d"
  by (simp add: digit_value_def digit_char_def)

lemma digit_char_value [simp]: "shell_ascii_digit c \<Longrightarrow> digit_char (digit_value c) = c"
  by (simp add: digit_iff digit_value_def digit_char_def)

lemma digit_char_0 [simp]: "digit_char 0 = CHR ''0''"
  by code_simp

lemma digit_value_zero [simp]: "digit_value CHR ''0'' = 0"
  by (simp add: digit_value_def)

lemma digit_char_eq_zero [simp]: "d < 10 \<Longrightarrow> digit_char d = CHR ''0'' \<longleftrightarrow> d = 0"
  by (metis digit_char_0 digit_value_char digit_value_zero)

lemma not_digit_colon [simp]: "\<not> shell_ascii_digit CHR '':''"
  by (simp add: shell_ascii_digit_def)

end
