(* ===== verification/Lattice.thy ===== *)
theory Lattice imports Prelude begin

unbundle bit_operations_syntax

text \<open>
  The token type lattice of \<^verbatim>\<open>shelltype\<close>: the type enumeration
  (\<^verbatim>\<open>shelltype.h\<close>), the display symbols, the generated join and compatibility
  tables (\<^verbatim>\<open>normalize.c\<close>) and the runtime match mask (\<^verbatim>\<open>policy.c\<close>),
  each transcribed entry by entry. The tables are related to the declarative lattice their
  comments describe: every type but the bottom \<open>ST_TYPE_LITERAL\<close> has a chain of
  supertypes (\<open>ancestors\<close>).
\<close>

section \<open>Token types\<close>

datatype st_token_type =
    ST_TYPE_LITERAL | ST_TYPE_HEXHASH | ST_TYPE_NUMBER | ST_TYPE_IPV4 | ST_TYPE_IPV6 |
    ST_TYPE_IPADDR | ST_TYPE_WORD | ST_TYPE_QUOTED | ST_TYPE_QUOTED_SPACE | ST_TYPE_FILENAME |
    ST_TYPE_REL_PATH | ST_TYPE_ABS_PATH | ST_TYPE_PATH | ST_TYPE_URL | ST_TYPE_VALUE |
    ST_TYPE_SHORTOPT | ST_TYPE_LONGOPT | ST_TYPE_OPT | ST_TYPE_UUID | ST_TYPE_EMAIL |
    ST_TYPE_HOSTNAME | ST_TYPE_PORT | ST_TYPE_SIZE | ST_TYPE_SEMVER | ST_TYPE_TIMESTAMP |
    ST_TYPE_HASH_ALGO | ST_TYPE_ENV_VAR | ST_TYPE_HYPHENATED | ST_TYPE_BRANCH | ST_TYPE_SHA |
    ST_TYPE_IMAGE | ST_TYPE_PKG | ST_TYPE_USER | ST_TYPE_FINGERPRINT | ST_TYPE_MAC |
    ST_TYPE_METHOD | ST_TYPE_CRON | ST_TYPE_DURATION | ST_TYPE_REGEX | ST_TYPE_GLOB |
    ST_TYPE_RANGE | ST_TYPE_SIGNAL | ST_TYPE_USER_GROUP | ST_TYPE_PERM_OCTAL | ST_TYPE_ANY

definition all_token_types :: "st_token_type list" where
  "all_token_types = [
     ST_TYPE_LITERAL, ST_TYPE_HEXHASH, ST_TYPE_NUMBER, ST_TYPE_IPV4, ST_TYPE_IPV6,
     ST_TYPE_IPADDR, ST_TYPE_WORD, ST_TYPE_QUOTED, ST_TYPE_QUOTED_SPACE, ST_TYPE_FILENAME,
     ST_TYPE_REL_PATH, ST_TYPE_ABS_PATH, ST_TYPE_PATH, ST_TYPE_URL, ST_TYPE_VALUE,
     ST_TYPE_SHORTOPT, ST_TYPE_LONGOPT, ST_TYPE_OPT, ST_TYPE_UUID, ST_TYPE_EMAIL,
     ST_TYPE_HOSTNAME, ST_TYPE_PORT, ST_TYPE_SIZE, ST_TYPE_SEMVER, ST_TYPE_TIMESTAMP,
     ST_TYPE_HASH_ALGO, ST_TYPE_ENV_VAR, ST_TYPE_HYPHENATED, ST_TYPE_BRANCH, ST_TYPE_SHA,
     ST_TYPE_IMAGE, ST_TYPE_PKG, ST_TYPE_USER, ST_TYPE_FINGERPRINT, ST_TYPE_MAC,
     ST_TYPE_METHOD, ST_TYPE_CRON, ST_TYPE_DURATION, ST_TYPE_REGEX, ST_TYPE_GLOB,
     ST_TYPE_RANGE, ST_TYPE_SIGNAL, ST_TYPE_USER_GROUP, ST_TYPE_PERM_OCTAL, ST_TYPE_ANY]"

text \<open>The enumerator's value in the C enumeration; \<^verbatim>\<open>ST_TYPE_COUNT\<close> is their number.\<close>

fun type_index :: "st_token_type \<Rightarrow> nat" where
  "type_index ST_TYPE_LITERAL = 0"
| "type_index ST_TYPE_HEXHASH = 1"
| "type_index ST_TYPE_NUMBER = 2"
| "type_index ST_TYPE_IPV4 = 3"
| "type_index ST_TYPE_IPV6 = 4"
| "type_index ST_TYPE_IPADDR = 5"
| "type_index ST_TYPE_WORD = 6"
| "type_index ST_TYPE_QUOTED = 7"
| "type_index ST_TYPE_QUOTED_SPACE = 8"
| "type_index ST_TYPE_FILENAME = 9"
| "type_index ST_TYPE_REL_PATH = 10"
| "type_index ST_TYPE_ABS_PATH = 11"
| "type_index ST_TYPE_PATH = 12"
| "type_index ST_TYPE_URL = 13"
| "type_index ST_TYPE_VALUE = 14"
| "type_index ST_TYPE_SHORTOPT = 15"
| "type_index ST_TYPE_LONGOPT = 16"
| "type_index ST_TYPE_OPT = 17"
| "type_index ST_TYPE_UUID = 18"
| "type_index ST_TYPE_EMAIL = 19"
| "type_index ST_TYPE_HOSTNAME = 20"
| "type_index ST_TYPE_PORT = 21"
| "type_index ST_TYPE_SIZE = 22"
| "type_index ST_TYPE_SEMVER = 23"
| "type_index ST_TYPE_TIMESTAMP = 24"
| "type_index ST_TYPE_HASH_ALGO = 25"
| "type_index ST_TYPE_ENV_VAR = 26"
| "type_index ST_TYPE_HYPHENATED = 27"
| "type_index ST_TYPE_BRANCH = 28"
| "type_index ST_TYPE_SHA = 29"
| "type_index ST_TYPE_IMAGE = 30"
| "type_index ST_TYPE_PKG = 31"
| "type_index ST_TYPE_USER = 32"
| "type_index ST_TYPE_FINGERPRINT = 33"
| "type_index ST_TYPE_MAC = 34"
| "type_index ST_TYPE_METHOD = 35"
| "type_index ST_TYPE_CRON = 36"
| "type_index ST_TYPE_DURATION = 37"
| "type_index ST_TYPE_REGEX = 38"
| "type_index ST_TYPE_GLOB = 39"
| "type_index ST_TYPE_RANGE = 40"
| "type_index ST_TYPE_SIGNAL = 41"
| "type_index ST_TYPE_USER_GROUP = 42"
| "type_index ST_TYPE_PERM_OCTAL = 43"
| "type_index ST_TYPE_ANY = 44"

definition ST_TYPE_COUNT :: nat where "ST_TYPE_COUNT = 45"

section \<open>Type symbols\<close>

fun st_type_symbol :: "st_token_type \<Rightarrow> bytes" where
  "st_type_symbol ST_TYPE_LITERAL = []"
| "st_type_symbol ST_TYPE_HEXHASH = ''#h''"
| "st_type_symbol ST_TYPE_NUMBER = ''#n''"
| "st_type_symbol ST_TYPE_IPV4 = ''#i''"
| "st_type_symbol ST_TYPE_IPV6 = ''#ipv6''"
| "st_type_symbol ST_TYPE_IPADDR = ''#ipaddr''"
| "st_type_symbol ST_TYPE_WORD = ''#w''"
| "st_type_symbol ST_TYPE_QUOTED = ''#q''"
| "st_type_symbol ST_TYPE_QUOTED_SPACE = ''#qs''"
| "st_type_symbol ST_TYPE_FILENAME = ''#f''"
| "st_type_symbol ST_TYPE_REL_PATH = ''#r''"
| "st_type_symbol ST_TYPE_ABS_PATH = ''#p''"
| "st_type_symbol ST_TYPE_PATH = ''#path''"
| "st_type_symbol ST_TYPE_URL = ''#u''"
| "st_type_symbol ST_TYPE_VALUE = ''#val''"
| "st_type_symbol ST_TYPE_SHORTOPT = ''#sopt''"
| "st_type_symbol ST_TYPE_LONGOPT = ''#lopt''"
| "st_type_symbol ST_TYPE_OPT = ''#opt''"
| "st_type_symbol ST_TYPE_UUID = ''#uuid''"
| "st_type_symbol ST_TYPE_EMAIL = ''#email''"
| "st_type_symbol ST_TYPE_HOSTNAME = ''#host''"
| "st_type_symbol ST_TYPE_PORT = ''#port''"
| "st_type_symbol ST_TYPE_SIZE = ''#size''"
| "st_type_symbol ST_TYPE_SEMVER = ''#semver''"
| "st_type_symbol ST_TYPE_TIMESTAMP = ''#ts''"
| "st_type_symbol ST_TYPE_HASH_ALGO = ''#hash''"
| "st_type_symbol ST_TYPE_ENV_VAR = ''#env''"
| "st_type_symbol ST_TYPE_HYPHENATED = ''#hyp''"
| "st_type_symbol ST_TYPE_BRANCH = ''#branch''"
| "st_type_symbol ST_TYPE_SHA = ''#sha''"
| "st_type_symbol ST_TYPE_IMAGE = ''#image''"
| "st_type_symbol ST_TYPE_PKG = ''#pkg''"
| "st_type_symbol ST_TYPE_USER = ''#user''"
| "st_type_symbol ST_TYPE_FINGERPRINT = ''#fp''"
| "st_type_symbol ST_TYPE_MAC = ''#mac''"
| "st_type_symbol ST_TYPE_METHOD = ''#method''"
| "st_type_symbol ST_TYPE_CRON = ''#cron''"
| "st_type_symbol ST_TYPE_DURATION = ''#duration''"
| "st_type_symbol ST_TYPE_REGEX = ''#regex''"
| "st_type_symbol ST_TYPE_GLOB = ''#glob''"
| "st_type_symbol ST_TYPE_RANGE = ''#range''"
| "st_type_symbol ST_TYPE_SIGNAL = ''#signal''"
| "st_type_symbol ST_TYPE_USER_GROUP = ''#user_group''"
| "st_type_symbol ST_TYPE_PERM_OCTAL = ''#perm''"
| "st_type_symbol ST_TYPE_ANY = ''*''"

section \<open>Join table\<close>

definition st_type_join_rows_0 :: "st_token_type list list" where
  "st_type_join_rows_0 = [
   \<comment> \<open>ST_TYPE_LITERAL\<close>
   [ST_TYPE_LITERAL, ST_TYPE_HEXHASH, ST_TYPE_NUMBER, ST_TYPE_IPV4, ST_TYPE_IPV6,
    ST_TYPE_IPADDR, ST_TYPE_WORD, ST_TYPE_QUOTED, ST_TYPE_QUOTED_SPACE, ST_TYPE_FILENAME,
    ST_TYPE_REL_PATH, ST_TYPE_ABS_PATH, ST_TYPE_PATH, ST_TYPE_URL, ST_TYPE_VALUE,
    ST_TYPE_SHORTOPT, ST_TYPE_LONGOPT, ST_TYPE_OPT, ST_TYPE_UUID, ST_TYPE_EMAIL,
    ST_TYPE_HOSTNAME, ST_TYPE_PORT, ST_TYPE_SIZE, ST_TYPE_SEMVER, ST_TYPE_TIMESTAMP,
    ST_TYPE_HASH_ALGO, ST_TYPE_ENV_VAR, ST_TYPE_HYPHENATED, ST_TYPE_BRANCH, ST_TYPE_SHA,
    ST_TYPE_IMAGE, ST_TYPE_PKG, ST_TYPE_USER, ST_TYPE_FINGERPRINT, ST_TYPE_MAC,
    ST_TYPE_METHOD, ST_TYPE_CRON, ST_TYPE_DURATION, ST_TYPE_REGEX, ST_TYPE_GLOB,
    ST_TYPE_RANGE, ST_TYPE_SIGNAL, ST_TYPE_USER_GROUP, ST_TYPE_PERM_OCTAL, ST_TYPE_ANY],
   \<comment> \<open>ST_TYPE_HEXHASH\<close>
   [ST_TYPE_HEXHASH, ST_TYPE_HEXHASH, ST_TYPE_VALUE, ST_TYPE_VALUE, ST_TYPE_VALUE,
    ST_TYPE_VALUE, ST_TYPE_VALUE, ST_TYPE_VALUE, ST_TYPE_VALUE, ST_TYPE_ANY, ST_TYPE_ANY,
    ST_TYPE_ANY, ST_TYPE_ANY, ST_TYPE_ANY, ST_TYPE_VALUE, ST_TYPE_VALUE, ST_TYPE_VALUE,
    ST_TYPE_VALUE, ST_TYPE_VALUE, ST_TYPE_VALUE, ST_TYPE_VALUE, ST_TYPE_VALUE,
    ST_TYPE_VALUE, ST_TYPE_VALUE, ST_TYPE_VALUE, ST_TYPE_VALUE, ST_TYPE_VALUE,
    ST_TYPE_VALUE, ST_TYPE_VALUE, ST_TYPE_HEXHASH, ST_TYPE_VALUE, ST_TYPE_VALUE,
    ST_TYPE_VALUE, ST_TYPE_VALUE, ST_TYPE_VALUE, ST_TYPE_VALUE, ST_TYPE_VALUE,
    ST_TYPE_VALUE, ST_TYPE_VALUE, ST_TYPE_VALUE, ST_TYPE_VALUE, ST_TYPE_VALUE,
    ST_TYPE_VALUE, ST_TYPE_VALUE, ST_TYPE_ANY],
   \<comment> \<open>ST_TYPE_NUMBER\<close>
   [ST_TYPE_NUMBER, ST_TYPE_VALUE, ST_TYPE_NUMBER, ST_TYPE_VALUE, ST_TYPE_VALUE,
    ST_TYPE_VALUE, ST_TYPE_VALUE, ST_TYPE_VALUE, ST_TYPE_VALUE, ST_TYPE_ANY, ST_TYPE_ANY,
    ST_TYPE_ANY, ST_TYPE_ANY, ST_TYPE_ANY, ST_TYPE_VALUE, ST_TYPE_VALUE, ST_TYPE_VALUE,
    ST_TYPE_VALUE, ST_TYPE_VALUE, ST_TYPE_VALUE, ST_TYPE_VALUE, ST_TYPE_NUMBER,
    ST_TYPE_VALUE, ST_TYPE_VALUE, ST_TYPE_VALUE, ST_TYPE_VALUE, ST_TYPE_VALUE,
    ST_TYPE_VALUE, ST_TYPE_VALUE, ST_TYPE_VALUE, ST_TYPE_VALUE, ST_TYPE_VALUE,
    ST_TYPE_VALUE, ST_TYPE_VALUE, ST_TYPE_VALUE, ST_TYPE_VALUE, ST_TYPE_VALUE,
    ST_TYPE_VALUE, ST_TYPE_VALUE, ST_TYPE_VALUE, ST_TYPE_VALUE, ST_TYPE_VALUE,
    ST_TYPE_VALUE, ST_TYPE_NUMBER, ST_TYPE_ANY],
   \<comment> \<open>ST_TYPE_IPV4\<close>
   [ST_TYPE_IPV4, ST_TYPE_VALUE, ST_TYPE_VALUE, ST_TYPE_IPV4, ST_TYPE_IPADDR,
    ST_TYPE_IPADDR, ST_TYPE_VALUE, ST_TYPE_VALUE, ST_TYPE_VALUE, ST_TYPE_ANY, ST_TYPE_ANY,
    ST_TYPE_ANY, ST_TYPE_ANY, ST_TYPE_ANY, ST_TYPE_VALUE, ST_TYPE_VALUE, ST_TYPE_VALUE,
    ST_TYPE_VALUE, ST_TYPE_VALUE, ST_TYPE_VALUE, ST_TYPE_VALUE, ST_TYPE_VALUE,
    ST_TYPE_VALUE, ST_TYPE_VALUE, ST_TYPE_VALUE, ST_TYPE_VALUE, ST_TYPE_VALUE,
    ST_TYPE_VALUE, ST_TYPE_VALUE, ST_TYPE_VALUE, ST_TYPE_VALUE, ST_TYPE_VALUE,
    ST_TYPE_VALUE, ST_TYPE_VALUE, ST_TYPE_VALUE, ST_TYPE_VALUE, ST_TYPE_VALUE,
    ST_TYPE_VALUE, ST_TYPE_VALUE, ST_TYPE_VALUE, ST_TYPE_VALUE, ST_TYPE_VALUE,
    ST_TYPE_VALUE, ST_TYPE_VALUE, ST_TYPE_ANY],
   \<comment> \<open>ST_TYPE_IPV6\<close>
   [ST_TYPE_IPV6, ST_TYPE_VALUE, ST_TYPE_VALUE, ST_TYPE_IPADDR, ST_TYPE_IPV6,
    ST_TYPE_IPADDR, ST_TYPE_VALUE, ST_TYPE_VALUE, ST_TYPE_VALUE, ST_TYPE_ANY, ST_TYPE_ANY,
    ST_TYPE_ANY, ST_TYPE_ANY, ST_TYPE_ANY, ST_TYPE_VALUE, ST_TYPE_VALUE, ST_TYPE_VALUE,
    ST_TYPE_VALUE, ST_TYPE_VALUE, ST_TYPE_VALUE, ST_TYPE_VALUE, ST_TYPE_VALUE,
    ST_TYPE_VALUE, ST_TYPE_VALUE, ST_TYPE_VALUE, ST_TYPE_VALUE, ST_TYPE_VALUE,
    ST_TYPE_VALUE, ST_TYPE_VALUE, ST_TYPE_VALUE, ST_TYPE_VALUE, ST_TYPE_VALUE,
    ST_TYPE_VALUE, ST_TYPE_VALUE, ST_TYPE_VALUE, ST_TYPE_VALUE, ST_TYPE_VALUE,
    ST_TYPE_VALUE, ST_TYPE_VALUE, ST_TYPE_VALUE, ST_TYPE_VALUE, ST_TYPE_VALUE,
    ST_TYPE_VALUE, ST_TYPE_VALUE, ST_TYPE_ANY],
   \<comment> \<open>ST_TYPE_IPADDR\<close>
   [ST_TYPE_IPADDR, ST_TYPE_VALUE, ST_TYPE_VALUE, ST_TYPE_IPADDR, ST_TYPE_IPADDR,
    ST_TYPE_IPADDR, ST_TYPE_VALUE, ST_TYPE_VALUE, ST_TYPE_VALUE, ST_TYPE_ANY, ST_TYPE_ANY,
    ST_TYPE_ANY, ST_TYPE_ANY, ST_TYPE_ANY, ST_TYPE_VALUE, ST_TYPE_VALUE, ST_TYPE_VALUE,
    ST_TYPE_VALUE, ST_TYPE_VALUE, ST_TYPE_VALUE, ST_TYPE_VALUE, ST_TYPE_VALUE,
    ST_TYPE_VALUE, ST_TYPE_VALUE, ST_TYPE_VALUE, ST_TYPE_VALUE, ST_TYPE_VALUE,
    ST_TYPE_VALUE, ST_TYPE_VALUE, ST_TYPE_VALUE, ST_TYPE_VALUE, ST_TYPE_VALUE,
    ST_TYPE_VALUE, ST_TYPE_VALUE, ST_TYPE_VALUE, ST_TYPE_VALUE, ST_TYPE_VALUE,
    ST_TYPE_VALUE, ST_TYPE_VALUE, ST_TYPE_VALUE, ST_TYPE_VALUE, ST_TYPE_VALUE,
    ST_TYPE_VALUE, ST_TYPE_VALUE, ST_TYPE_ANY],
   \<comment> \<open>ST_TYPE_WORD\<close>
   [ST_TYPE_WORD, ST_TYPE_VALUE, ST_TYPE_VALUE, ST_TYPE_VALUE, ST_TYPE_VALUE,
    ST_TYPE_VALUE, ST_TYPE_WORD, ST_TYPE_VALUE, ST_TYPE_VALUE, ST_TYPE_ANY, ST_TYPE_ANY,
    ST_TYPE_ANY, ST_TYPE_ANY, ST_TYPE_ANY, ST_TYPE_VALUE, ST_TYPE_VALUE, ST_TYPE_VALUE,
    ST_TYPE_VALUE, ST_TYPE_VALUE, ST_TYPE_VALUE, ST_TYPE_VALUE, ST_TYPE_VALUE,
    ST_TYPE_VALUE, ST_TYPE_VALUE, ST_TYPE_VALUE, ST_TYPE_WORD, ST_TYPE_VALUE, ST_TYPE_WORD,
    ST_TYPE_VALUE, ST_TYPE_VALUE, ST_TYPE_VALUE, ST_TYPE_VALUE, ST_TYPE_VALUE,
    ST_TYPE_VALUE, ST_TYPE_VALUE, ST_TYPE_WORD, ST_TYPE_VALUE, ST_TYPE_VALUE,
    ST_TYPE_VALUE, ST_TYPE_VALUE, ST_TYPE_VALUE, ST_TYPE_VALUE, ST_TYPE_VALUE,
    ST_TYPE_VALUE, ST_TYPE_ANY],
   \<comment> \<open>ST_TYPE_QUOTED\<close>
   [ST_TYPE_QUOTED, ST_TYPE_VALUE, ST_TYPE_VALUE, ST_TYPE_VALUE, ST_TYPE_VALUE,
    ST_TYPE_VALUE, ST_TYPE_VALUE, ST_TYPE_QUOTED, ST_TYPE_QUOTED_SPACE, ST_TYPE_ANY,
    ST_TYPE_ANY, ST_TYPE_ANY, ST_TYPE_ANY, ST_TYPE_ANY, ST_TYPE_VALUE, ST_TYPE_VALUE,
    ST_TYPE_VALUE, ST_TYPE_VALUE, ST_TYPE_VALUE, ST_TYPE_VALUE, ST_TYPE_VALUE,
    ST_TYPE_VALUE, ST_TYPE_VALUE, ST_TYPE_VALUE, ST_TYPE_VALUE, ST_TYPE_VALUE,
    ST_TYPE_VALUE, ST_TYPE_VALUE, ST_TYPE_VALUE, ST_TYPE_VALUE, ST_TYPE_VALUE,
    ST_TYPE_VALUE, ST_TYPE_VALUE, ST_TYPE_VALUE, ST_TYPE_VALUE, ST_TYPE_VALUE,
    ST_TYPE_VALUE, ST_TYPE_VALUE, ST_TYPE_VALUE, ST_TYPE_VALUE, ST_TYPE_VALUE,
    ST_TYPE_VALUE, ST_TYPE_VALUE, ST_TYPE_VALUE, ST_TYPE_ANY],
   \<comment> \<open>ST_TYPE_QUOTED_SPACE\<close>
   [ST_TYPE_QUOTED_SPACE, ST_TYPE_VALUE, ST_TYPE_VALUE, ST_TYPE_VALUE, ST_TYPE_VALUE,
    ST_TYPE_VALUE, ST_TYPE_VALUE, ST_TYPE_QUOTED_SPACE, ST_TYPE_QUOTED_SPACE, ST_TYPE_ANY,
    ST_TYPE_ANY, ST_TYPE_ANY, ST_TYPE_ANY, ST_TYPE_ANY, ST_TYPE_VALUE, ST_TYPE_VALUE,
    ST_TYPE_VALUE, ST_TYPE_VALUE, ST_TYPE_VALUE, ST_TYPE_VALUE, ST_TYPE_VALUE,
    ST_TYPE_VALUE, ST_TYPE_VALUE, ST_TYPE_VALUE, ST_TYPE_VALUE, ST_TYPE_VALUE,
    ST_TYPE_VALUE, ST_TYPE_VALUE, ST_TYPE_VALUE, ST_TYPE_VALUE, ST_TYPE_VALUE,
    ST_TYPE_VALUE, ST_TYPE_VALUE, ST_TYPE_VALUE, ST_TYPE_VALUE, ST_TYPE_VALUE,
    ST_TYPE_VALUE, ST_TYPE_VALUE, ST_TYPE_VALUE, ST_TYPE_VALUE, ST_TYPE_VALUE,
    ST_TYPE_VALUE, ST_TYPE_VALUE, ST_TYPE_VALUE, ST_TYPE_ANY],
   \<comment> \<open>ST_TYPE_FILENAME\<close>
   [ST_TYPE_FILENAME, ST_TYPE_ANY, ST_TYPE_ANY, ST_TYPE_ANY, ST_TYPE_ANY, ST_TYPE_ANY,
    ST_TYPE_ANY, ST_TYPE_ANY, ST_TYPE_ANY, ST_TYPE_FILENAME, ST_TYPE_REL_PATH,
    ST_TYPE_PATH, ST_TYPE_PATH, ST_TYPE_ANY, ST_TYPE_ANY, ST_TYPE_ANY, ST_TYPE_ANY,
    ST_TYPE_ANY, ST_TYPE_ANY, ST_TYPE_ANY, ST_TYPE_ANY, ST_TYPE_ANY, ST_TYPE_ANY,
    ST_TYPE_ANY, ST_TYPE_ANY, ST_TYPE_ANY, ST_TYPE_ANY, ST_TYPE_ANY, ST_TYPE_ANY,
    ST_TYPE_ANY, ST_TYPE_ANY, ST_TYPE_ANY, ST_TYPE_ANY, ST_TYPE_ANY, ST_TYPE_ANY,
    ST_TYPE_ANY, ST_TYPE_ANY, ST_TYPE_ANY, ST_TYPE_ANY, ST_TYPE_ANY, ST_TYPE_ANY,
    ST_TYPE_ANY, ST_TYPE_ANY, ST_TYPE_ANY, ST_TYPE_ANY],
   \<comment> \<open>ST_TYPE_REL_PATH\<close>
   [ST_TYPE_REL_PATH, ST_TYPE_ANY, ST_TYPE_ANY, ST_TYPE_ANY, ST_TYPE_ANY, ST_TYPE_ANY,
    ST_TYPE_ANY, ST_TYPE_ANY, ST_TYPE_ANY, ST_TYPE_REL_PATH, ST_TYPE_REL_PATH,
    ST_TYPE_PATH, ST_TYPE_PATH, ST_TYPE_ANY, ST_TYPE_ANY, ST_TYPE_ANY, ST_TYPE_ANY,
    ST_TYPE_ANY, ST_TYPE_ANY, ST_TYPE_ANY, ST_TYPE_ANY, ST_TYPE_ANY, ST_TYPE_ANY,
    ST_TYPE_ANY, ST_TYPE_ANY, ST_TYPE_ANY, ST_TYPE_ANY, ST_TYPE_ANY, ST_TYPE_ANY,
    ST_TYPE_ANY, ST_TYPE_ANY, ST_TYPE_ANY, ST_TYPE_ANY, ST_TYPE_ANY, ST_TYPE_ANY,
    ST_TYPE_ANY, ST_TYPE_ANY, ST_TYPE_ANY, ST_TYPE_ANY, ST_TYPE_ANY, ST_TYPE_ANY,
    ST_TYPE_ANY, ST_TYPE_ANY, ST_TYPE_ANY, ST_TYPE_ANY]]"

definition st_type_join_rows_1 :: "st_token_type list list" where
  "st_type_join_rows_1 = [
   \<comment> \<open>ST_TYPE_ABS_PATH\<close>
   [ST_TYPE_ABS_PATH, ST_TYPE_ANY, ST_TYPE_ANY, ST_TYPE_ANY, ST_TYPE_ANY, ST_TYPE_ANY,
    ST_TYPE_ANY, ST_TYPE_ANY, ST_TYPE_ANY, ST_TYPE_PATH, ST_TYPE_PATH, ST_TYPE_ABS_PATH,
    ST_TYPE_PATH, ST_TYPE_ANY, ST_TYPE_ANY, ST_TYPE_ANY, ST_TYPE_ANY, ST_TYPE_ANY,
    ST_TYPE_ANY, ST_TYPE_ANY, ST_TYPE_ANY, ST_TYPE_ANY, ST_TYPE_ANY, ST_TYPE_ANY,
    ST_TYPE_ANY, ST_TYPE_ANY, ST_TYPE_ANY, ST_TYPE_ANY, ST_TYPE_ANY, ST_TYPE_ANY,
    ST_TYPE_ANY, ST_TYPE_ANY, ST_TYPE_ANY, ST_TYPE_ANY, ST_TYPE_ANY, ST_TYPE_ANY,
    ST_TYPE_ANY, ST_TYPE_ANY, ST_TYPE_ANY, ST_TYPE_ANY, ST_TYPE_ANY, ST_TYPE_ANY,
    ST_TYPE_ANY, ST_TYPE_ANY, ST_TYPE_ANY],
   \<comment> \<open>ST_TYPE_PATH\<close>
   [ST_TYPE_PATH, ST_TYPE_ANY, ST_TYPE_ANY, ST_TYPE_ANY, ST_TYPE_ANY, ST_TYPE_ANY,
    ST_TYPE_ANY, ST_TYPE_ANY, ST_TYPE_ANY, ST_TYPE_PATH, ST_TYPE_PATH, ST_TYPE_PATH,
    ST_TYPE_PATH, ST_TYPE_ANY, ST_TYPE_ANY, ST_TYPE_ANY, ST_TYPE_ANY, ST_TYPE_ANY,
    ST_TYPE_ANY, ST_TYPE_ANY, ST_TYPE_ANY, ST_TYPE_ANY, ST_TYPE_ANY, ST_TYPE_ANY,
    ST_TYPE_ANY, ST_TYPE_ANY, ST_TYPE_ANY, ST_TYPE_ANY, ST_TYPE_ANY, ST_TYPE_ANY,
    ST_TYPE_ANY, ST_TYPE_ANY, ST_TYPE_ANY, ST_TYPE_ANY, ST_TYPE_ANY, ST_TYPE_ANY,
    ST_TYPE_ANY, ST_TYPE_ANY, ST_TYPE_ANY, ST_TYPE_ANY, ST_TYPE_ANY, ST_TYPE_ANY,
    ST_TYPE_ANY, ST_TYPE_ANY, ST_TYPE_ANY],
   \<comment> \<open>ST_TYPE_URL\<close>
   [ST_TYPE_URL, ST_TYPE_ANY, ST_TYPE_ANY, ST_TYPE_ANY, ST_TYPE_ANY, ST_TYPE_ANY,
    ST_TYPE_ANY, ST_TYPE_ANY, ST_TYPE_ANY, ST_TYPE_ANY, ST_TYPE_ANY, ST_TYPE_ANY,
    ST_TYPE_ANY, ST_TYPE_URL, ST_TYPE_ANY, ST_TYPE_ANY, ST_TYPE_ANY, ST_TYPE_ANY,
    ST_TYPE_ANY, ST_TYPE_ANY, ST_TYPE_ANY, ST_TYPE_ANY, ST_TYPE_ANY, ST_TYPE_ANY,
    ST_TYPE_ANY, ST_TYPE_ANY, ST_TYPE_ANY, ST_TYPE_ANY, ST_TYPE_ANY, ST_TYPE_ANY,
    ST_TYPE_ANY, ST_TYPE_ANY, ST_TYPE_ANY, ST_TYPE_ANY, ST_TYPE_ANY, ST_TYPE_ANY,
    ST_TYPE_ANY, ST_TYPE_ANY, ST_TYPE_ANY, ST_TYPE_ANY, ST_TYPE_ANY, ST_TYPE_ANY,
    ST_TYPE_ANY, ST_TYPE_ANY, ST_TYPE_ANY],
   \<comment> \<open>ST_TYPE_VALUE\<close>
   [ST_TYPE_VALUE, ST_TYPE_VALUE, ST_TYPE_VALUE, ST_TYPE_VALUE, ST_TYPE_VALUE,
    ST_TYPE_VALUE, ST_TYPE_VALUE, ST_TYPE_VALUE, ST_TYPE_VALUE, ST_TYPE_ANY, ST_TYPE_ANY,
    ST_TYPE_ANY, ST_TYPE_ANY, ST_TYPE_ANY, ST_TYPE_VALUE, ST_TYPE_VALUE, ST_TYPE_VALUE,
    ST_TYPE_VALUE, ST_TYPE_VALUE, ST_TYPE_VALUE, ST_TYPE_VALUE, ST_TYPE_VALUE,
    ST_TYPE_VALUE, ST_TYPE_VALUE, ST_TYPE_VALUE, ST_TYPE_VALUE, ST_TYPE_VALUE,
    ST_TYPE_VALUE, ST_TYPE_VALUE, ST_TYPE_VALUE, ST_TYPE_VALUE, ST_TYPE_VALUE,
    ST_TYPE_VALUE, ST_TYPE_VALUE, ST_TYPE_VALUE, ST_TYPE_VALUE, ST_TYPE_VALUE,
    ST_TYPE_VALUE, ST_TYPE_VALUE, ST_TYPE_VALUE, ST_TYPE_VALUE, ST_TYPE_VALUE,
    ST_TYPE_VALUE, ST_TYPE_VALUE, ST_TYPE_ANY],
   \<comment> \<open>ST_TYPE_SHORTOPT\<close>
   [ST_TYPE_SHORTOPT, ST_TYPE_VALUE, ST_TYPE_VALUE, ST_TYPE_VALUE, ST_TYPE_VALUE,
    ST_TYPE_VALUE, ST_TYPE_VALUE, ST_TYPE_VALUE, ST_TYPE_VALUE, ST_TYPE_ANY, ST_TYPE_ANY,
    ST_TYPE_ANY, ST_TYPE_ANY, ST_TYPE_ANY, ST_TYPE_VALUE, ST_TYPE_SHORTOPT, ST_TYPE_OPT,
    ST_TYPE_OPT, ST_TYPE_VALUE, ST_TYPE_VALUE, ST_TYPE_VALUE, ST_TYPE_VALUE, ST_TYPE_VALUE,
    ST_TYPE_VALUE, ST_TYPE_VALUE, ST_TYPE_VALUE, ST_TYPE_VALUE, ST_TYPE_VALUE,
    ST_TYPE_VALUE, ST_TYPE_VALUE, ST_TYPE_VALUE, ST_TYPE_VALUE, ST_TYPE_VALUE,
    ST_TYPE_VALUE, ST_TYPE_VALUE, ST_TYPE_VALUE, ST_TYPE_VALUE, ST_TYPE_VALUE,
    ST_TYPE_VALUE, ST_TYPE_VALUE, ST_TYPE_VALUE, ST_TYPE_VALUE, ST_TYPE_VALUE,
    ST_TYPE_VALUE, ST_TYPE_ANY],
   \<comment> \<open>ST_TYPE_LONGOPT\<close>
   [ST_TYPE_LONGOPT, ST_TYPE_VALUE, ST_TYPE_VALUE, ST_TYPE_VALUE, ST_TYPE_VALUE,
    ST_TYPE_VALUE, ST_TYPE_VALUE, ST_TYPE_VALUE, ST_TYPE_VALUE, ST_TYPE_ANY, ST_TYPE_ANY,
    ST_TYPE_ANY, ST_TYPE_ANY, ST_TYPE_ANY, ST_TYPE_VALUE, ST_TYPE_OPT, ST_TYPE_LONGOPT,
    ST_TYPE_OPT, ST_TYPE_VALUE, ST_TYPE_VALUE, ST_TYPE_VALUE, ST_TYPE_VALUE, ST_TYPE_VALUE,
    ST_TYPE_VALUE, ST_TYPE_VALUE, ST_TYPE_VALUE, ST_TYPE_VALUE, ST_TYPE_VALUE,
    ST_TYPE_VALUE, ST_TYPE_VALUE, ST_TYPE_VALUE, ST_TYPE_VALUE, ST_TYPE_VALUE,
    ST_TYPE_VALUE, ST_TYPE_VALUE, ST_TYPE_VALUE, ST_TYPE_VALUE, ST_TYPE_VALUE,
    ST_TYPE_VALUE, ST_TYPE_VALUE, ST_TYPE_VALUE, ST_TYPE_VALUE, ST_TYPE_VALUE,
    ST_TYPE_VALUE, ST_TYPE_ANY],
   \<comment> \<open>ST_TYPE_OPT\<close>
   [ST_TYPE_OPT, ST_TYPE_VALUE, ST_TYPE_VALUE, ST_TYPE_VALUE, ST_TYPE_VALUE, ST_TYPE_VALUE,
    ST_TYPE_VALUE, ST_TYPE_VALUE, ST_TYPE_VALUE, ST_TYPE_ANY, ST_TYPE_ANY, ST_TYPE_ANY,
    ST_TYPE_ANY, ST_TYPE_ANY, ST_TYPE_VALUE, ST_TYPE_OPT, ST_TYPE_OPT, ST_TYPE_OPT,
    ST_TYPE_VALUE, ST_TYPE_VALUE, ST_TYPE_VALUE, ST_TYPE_VALUE, ST_TYPE_VALUE,
    ST_TYPE_VALUE, ST_TYPE_VALUE, ST_TYPE_VALUE, ST_TYPE_VALUE, ST_TYPE_VALUE,
    ST_TYPE_VALUE, ST_TYPE_VALUE, ST_TYPE_VALUE, ST_TYPE_VALUE, ST_TYPE_VALUE,
    ST_TYPE_VALUE, ST_TYPE_VALUE, ST_TYPE_VALUE, ST_TYPE_VALUE, ST_TYPE_VALUE,
    ST_TYPE_VALUE, ST_TYPE_VALUE, ST_TYPE_VALUE, ST_TYPE_VALUE, ST_TYPE_VALUE,
    ST_TYPE_VALUE, ST_TYPE_ANY],
   \<comment> \<open>ST_TYPE_UUID\<close>
   [ST_TYPE_UUID, ST_TYPE_VALUE, ST_TYPE_VALUE, ST_TYPE_VALUE, ST_TYPE_VALUE,
    ST_TYPE_VALUE, ST_TYPE_VALUE, ST_TYPE_VALUE, ST_TYPE_VALUE, ST_TYPE_ANY, ST_TYPE_ANY,
    ST_TYPE_ANY, ST_TYPE_ANY, ST_TYPE_ANY, ST_TYPE_VALUE, ST_TYPE_VALUE, ST_TYPE_VALUE,
    ST_TYPE_VALUE, ST_TYPE_UUID, ST_TYPE_VALUE, ST_TYPE_VALUE, ST_TYPE_VALUE,
    ST_TYPE_VALUE, ST_TYPE_VALUE, ST_TYPE_VALUE, ST_TYPE_VALUE, ST_TYPE_VALUE,
    ST_TYPE_VALUE, ST_TYPE_VALUE, ST_TYPE_VALUE, ST_TYPE_VALUE, ST_TYPE_VALUE,
    ST_TYPE_VALUE, ST_TYPE_VALUE, ST_TYPE_VALUE, ST_TYPE_VALUE, ST_TYPE_VALUE,
    ST_TYPE_VALUE, ST_TYPE_VALUE, ST_TYPE_VALUE, ST_TYPE_VALUE, ST_TYPE_VALUE,
    ST_TYPE_VALUE, ST_TYPE_VALUE, ST_TYPE_ANY],
   \<comment> \<open>ST_TYPE_EMAIL\<close>
   [ST_TYPE_EMAIL, ST_TYPE_VALUE, ST_TYPE_VALUE, ST_TYPE_VALUE, ST_TYPE_VALUE,
    ST_TYPE_VALUE, ST_TYPE_VALUE, ST_TYPE_VALUE, ST_TYPE_VALUE, ST_TYPE_ANY, ST_TYPE_ANY,
    ST_TYPE_ANY, ST_TYPE_ANY, ST_TYPE_ANY, ST_TYPE_VALUE, ST_TYPE_VALUE, ST_TYPE_VALUE,
    ST_TYPE_VALUE, ST_TYPE_VALUE, ST_TYPE_EMAIL, ST_TYPE_VALUE, ST_TYPE_VALUE,
    ST_TYPE_VALUE, ST_TYPE_VALUE, ST_TYPE_VALUE, ST_TYPE_VALUE, ST_TYPE_VALUE,
    ST_TYPE_VALUE, ST_TYPE_VALUE, ST_TYPE_VALUE, ST_TYPE_VALUE, ST_TYPE_VALUE,
    ST_TYPE_VALUE, ST_TYPE_VALUE, ST_TYPE_VALUE, ST_TYPE_VALUE, ST_TYPE_VALUE,
    ST_TYPE_VALUE, ST_TYPE_VALUE, ST_TYPE_VALUE, ST_TYPE_VALUE, ST_TYPE_VALUE,
    ST_TYPE_VALUE, ST_TYPE_VALUE, ST_TYPE_ANY],
   \<comment> \<open>ST_TYPE_HOSTNAME\<close>
   [ST_TYPE_HOSTNAME, ST_TYPE_VALUE, ST_TYPE_VALUE, ST_TYPE_VALUE, ST_TYPE_VALUE,
    ST_TYPE_VALUE, ST_TYPE_VALUE, ST_TYPE_VALUE, ST_TYPE_VALUE, ST_TYPE_ANY, ST_TYPE_ANY,
    ST_TYPE_ANY, ST_TYPE_ANY, ST_TYPE_ANY, ST_TYPE_VALUE, ST_TYPE_VALUE, ST_TYPE_VALUE,
    ST_TYPE_VALUE, ST_TYPE_VALUE, ST_TYPE_VALUE, ST_TYPE_HOSTNAME, ST_TYPE_VALUE,
    ST_TYPE_VALUE, ST_TYPE_VALUE, ST_TYPE_VALUE, ST_TYPE_VALUE, ST_TYPE_VALUE,
    ST_TYPE_VALUE, ST_TYPE_VALUE, ST_TYPE_VALUE, ST_TYPE_VALUE, ST_TYPE_VALUE,
    ST_TYPE_VALUE, ST_TYPE_VALUE, ST_TYPE_VALUE, ST_TYPE_VALUE, ST_TYPE_VALUE,
    ST_TYPE_VALUE, ST_TYPE_VALUE, ST_TYPE_VALUE, ST_TYPE_VALUE, ST_TYPE_VALUE,
    ST_TYPE_VALUE, ST_TYPE_VALUE, ST_TYPE_ANY],
   \<comment> \<open>ST_TYPE_PORT\<close>
   [ST_TYPE_PORT, ST_TYPE_VALUE, ST_TYPE_NUMBER, ST_TYPE_VALUE, ST_TYPE_VALUE,
    ST_TYPE_VALUE, ST_TYPE_VALUE, ST_TYPE_VALUE, ST_TYPE_VALUE, ST_TYPE_ANY, ST_TYPE_ANY,
    ST_TYPE_ANY, ST_TYPE_ANY, ST_TYPE_ANY, ST_TYPE_VALUE, ST_TYPE_VALUE, ST_TYPE_VALUE,
    ST_TYPE_VALUE, ST_TYPE_VALUE, ST_TYPE_VALUE, ST_TYPE_VALUE, ST_TYPE_PORT,
    ST_TYPE_VALUE, ST_TYPE_VALUE, ST_TYPE_VALUE, ST_TYPE_VALUE, ST_TYPE_VALUE,
    ST_TYPE_VALUE, ST_TYPE_VALUE, ST_TYPE_VALUE, ST_TYPE_VALUE, ST_TYPE_VALUE,
    ST_TYPE_VALUE, ST_TYPE_VALUE, ST_TYPE_VALUE, ST_TYPE_VALUE, ST_TYPE_VALUE,
    ST_TYPE_VALUE, ST_TYPE_VALUE, ST_TYPE_VALUE, ST_TYPE_VALUE, ST_TYPE_VALUE,
    ST_TYPE_VALUE, ST_TYPE_NUMBER, ST_TYPE_ANY]]"

definition st_type_join_rows_2 :: "st_token_type list list" where
  "st_type_join_rows_2 = [
   \<comment> \<open>ST_TYPE_SIZE\<close>
   [ST_TYPE_SIZE, ST_TYPE_VALUE, ST_TYPE_VALUE, ST_TYPE_VALUE, ST_TYPE_VALUE,
    ST_TYPE_VALUE, ST_TYPE_VALUE, ST_TYPE_VALUE, ST_TYPE_VALUE, ST_TYPE_ANY, ST_TYPE_ANY,
    ST_TYPE_ANY, ST_TYPE_ANY, ST_TYPE_ANY, ST_TYPE_VALUE, ST_TYPE_VALUE, ST_TYPE_VALUE,
    ST_TYPE_VALUE, ST_TYPE_VALUE, ST_TYPE_VALUE, ST_TYPE_VALUE, ST_TYPE_VALUE,
    ST_TYPE_SIZE, ST_TYPE_VALUE, ST_TYPE_VALUE, ST_TYPE_VALUE, ST_TYPE_VALUE,
    ST_TYPE_VALUE, ST_TYPE_VALUE, ST_TYPE_VALUE, ST_TYPE_VALUE, ST_TYPE_VALUE,
    ST_TYPE_VALUE, ST_TYPE_VALUE, ST_TYPE_VALUE, ST_TYPE_VALUE, ST_TYPE_VALUE,
    ST_TYPE_VALUE, ST_TYPE_VALUE, ST_TYPE_VALUE, ST_TYPE_VALUE, ST_TYPE_VALUE,
    ST_TYPE_VALUE, ST_TYPE_VALUE, ST_TYPE_ANY],
   \<comment> \<open>ST_TYPE_SEMVER\<close>
   [ST_TYPE_SEMVER, ST_TYPE_VALUE, ST_TYPE_VALUE, ST_TYPE_VALUE, ST_TYPE_VALUE,
    ST_TYPE_VALUE, ST_TYPE_VALUE, ST_TYPE_VALUE, ST_TYPE_VALUE, ST_TYPE_ANY, ST_TYPE_ANY,
    ST_TYPE_ANY, ST_TYPE_ANY, ST_TYPE_ANY, ST_TYPE_VALUE, ST_TYPE_VALUE, ST_TYPE_VALUE,
    ST_TYPE_VALUE, ST_TYPE_VALUE, ST_TYPE_VALUE, ST_TYPE_VALUE, ST_TYPE_VALUE,
    ST_TYPE_VALUE, ST_TYPE_SEMVER, ST_TYPE_VALUE, ST_TYPE_VALUE, ST_TYPE_VALUE,
    ST_TYPE_VALUE, ST_TYPE_VALUE, ST_TYPE_VALUE, ST_TYPE_VALUE, ST_TYPE_VALUE,
    ST_TYPE_VALUE, ST_TYPE_VALUE, ST_TYPE_VALUE, ST_TYPE_VALUE, ST_TYPE_VALUE,
    ST_TYPE_VALUE, ST_TYPE_VALUE, ST_TYPE_VALUE, ST_TYPE_VALUE, ST_TYPE_VALUE,
    ST_TYPE_VALUE, ST_TYPE_VALUE, ST_TYPE_ANY],
   \<comment> \<open>ST_TYPE_TIMESTAMP\<close>
   [ST_TYPE_TIMESTAMP, ST_TYPE_VALUE, ST_TYPE_VALUE, ST_TYPE_VALUE, ST_TYPE_VALUE,
    ST_TYPE_VALUE, ST_TYPE_VALUE, ST_TYPE_VALUE, ST_TYPE_VALUE, ST_TYPE_ANY, ST_TYPE_ANY,
    ST_TYPE_ANY, ST_TYPE_ANY, ST_TYPE_ANY, ST_TYPE_VALUE, ST_TYPE_VALUE, ST_TYPE_VALUE,
    ST_TYPE_VALUE, ST_TYPE_VALUE, ST_TYPE_VALUE, ST_TYPE_VALUE, ST_TYPE_VALUE,
    ST_TYPE_VALUE, ST_TYPE_VALUE, ST_TYPE_TIMESTAMP, ST_TYPE_VALUE, ST_TYPE_VALUE,
    ST_TYPE_VALUE, ST_TYPE_VALUE, ST_TYPE_VALUE, ST_TYPE_VALUE, ST_TYPE_VALUE,
    ST_TYPE_VALUE, ST_TYPE_VALUE, ST_TYPE_VALUE, ST_TYPE_VALUE, ST_TYPE_VALUE,
    ST_TYPE_VALUE, ST_TYPE_VALUE, ST_TYPE_VALUE, ST_TYPE_VALUE, ST_TYPE_VALUE,
    ST_TYPE_VALUE, ST_TYPE_VALUE, ST_TYPE_ANY],
   \<comment> \<open>ST_TYPE_HASH_ALGO\<close>
   [ST_TYPE_HASH_ALGO, ST_TYPE_VALUE, ST_TYPE_VALUE, ST_TYPE_VALUE, ST_TYPE_VALUE,
    ST_TYPE_VALUE, ST_TYPE_WORD, ST_TYPE_VALUE, ST_TYPE_VALUE, ST_TYPE_ANY, ST_TYPE_ANY,
    ST_TYPE_ANY, ST_TYPE_ANY, ST_TYPE_ANY, ST_TYPE_VALUE, ST_TYPE_VALUE, ST_TYPE_VALUE,
    ST_TYPE_VALUE, ST_TYPE_VALUE, ST_TYPE_VALUE, ST_TYPE_VALUE, ST_TYPE_VALUE,
    ST_TYPE_VALUE, ST_TYPE_VALUE, ST_TYPE_VALUE, ST_TYPE_HASH_ALGO, ST_TYPE_VALUE,
    ST_TYPE_WORD, ST_TYPE_VALUE, ST_TYPE_VALUE, ST_TYPE_VALUE, ST_TYPE_VALUE,
    ST_TYPE_VALUE, ST_TYPE_VALUE, ST_TYPE_VALUE, ST_TYPE_WORD, ST_TYPE_VALUE,
    ST_TYPE_VALUE, ST_TYPE_VALUE, ST_TYPE_VALUE, ST_TYPE_VALUE, ST_TYPE_VALUE,
    ST_TYPE_VALUE, ST_TYPE_VALUE, ST_TYPE_ANY],
   \<comment> \<open>ST_TYPE_ENV_VAR\<close>
   [ST_TYPE_ENV_VAR, ST_TYPE_VALUE, ST_TYPE_VALUE, ST_TYPE_VALUE, ST_TYPE_VALUE,
    ST_TYPE_VALUE, ST_TYPE_VALUE, ST_TYPE_VALUE, ST_TYPE_VALUE, ST_TYPE_ANY, ST_TYPE_ANY,
    ST_TYPE_ANY, ST_TYPE_ANY, ST_TYPE_ANY, ST_TYPE_VALUE, ST_TYPE_VALUE, ST_TYPE_VALUE,
    ST_TYPE_VALUE, ST_TYPE_VALUE, ST_TYPE_VALUE, ST_TYPE_VALUE, ST_TYPE_VALUE,
    ST_TYPE_VALUE, ST_TYPE_VALUE, ST_TYPE_VALUE, ST_TYPE_VALUE, ST_TYPE_ENV_VAR,
    ST_TYPE_VALUE, ST_TYPE_VALUE, ST_TYPE_VALUE, ST_TYPE_VALUE, ST_TYPE_VALUE,
    ST_TYPE_VALUE, ST_TYPE_VALUE, ST_TYPE_VALUE, ST_TYPE_VALUE, ST_TYPE_VALUE,
    ST_TYPE_VALUE, ST_TYPE_VALUE, ST_TYPE_VALUE, ST_TYPE_VALUE, ST_TYPE_VALUE,
    ST_TYPE_VALUE, ST_TYPE_VALUE, ST_TYPE_ANY],
   \<comment> \<open>ST_TYPE_HYPHENATED\<close>
   [ST_TYPE_HYPHENATED, ST_TYPE_VALUE, ST_TYPE_VALUE, ST_TYPE_VALUE, ST_TYPE_VALUE,
    ST_TYPE_VALUE, ST_TYPE_WORD, ST_TYPE_VALUE, ST_TYPE_VALUE, ST_TYPE_ANY, ST_TYPE_ANY,
    ST_TYPE_ANY, ST_TYPE_ANY, ST_TYPE_ANY, ST_TYPE_VALUE, ST_TYPE_VALUE, ST_TYPE_VALUE,
    ST_TYPE_VALUE, ST_TYPE_VALUE, ST_TYPE_VALUE, ST_TYPE_VALUE, ST_TYPE_VALUE,
    ST_TYPE_VALUE, ST_TYPE_VALUE, ST_TYPE_VALUE, ST_TYPE_WORD, ST_TYPE_VALUE,
    ST_TYPE_HYPHENATED, ST_TYPE_VALUE, ST_TYPE_VALUE, ST_TYPE_VALUE, ST_TYPE_VALUE,
    ST_TYPE_VALUE, ST_TYPE_VALUE, ST_TYPE_VALUE, ST_TYPE_WORD, ST_TYPE_VALUE,
    ST_TYPE_VALUE, ST_TYPE_VALUE, ST_TYPE_VALUE, ST_TYPE_VALUE, ST_TYPE_VALUE,
    ST_TYPE_VALUE, ST_TYPE_VALUE, ST_TYPE_ANY],
   \<comment> \<open>ST_TYPE_BRANCH\<close>
   [ST_TYPE_BRANCH, ST_TYPE_VALUE, ST_TYPE_VALUE, ST_TYPE_VALUE, ST_TYPE_VALUE,
    ST_TYPE_VALUE, ST_TYPE_VALUE, ST_TYPE_VALUE, ST_TYPE_VALUE, ST_TYPE_ANY, ST_TYPE_ANY,
    ST_TYPE_ANY, ST_TYPE_ANY, ST_TYPE_ANY, ST_TYPE_VALUE, ST_TYPE_VALUE, ST_TYPE_VALUE,
    ST_TYPE_VALUE, ST_TYPE_VALUE, ST_TYPE_VALUE, ST_TYPE_VALUE, ST_TYPE_VALUE,
    ST_TYPE_VALUE, ST_TYPE_VALUE, ST_TYPE_VALUE, ST_TYPE_VALUE, ST_TYPE_VALUE,
    ST_TYPE_VALUE, ST_TYPE_BRANCH, ST_TYPE_VALUE, ST_TYPE_VALUE, ST_TYPE_VALUE,
    ST_TYPE_VALUE, ST_TYPE_VALUE, ST_TYPE_VALUE, ST_TYPE_VALUE, ST_TYPE_VALUE,
    ST_TYPE_VALUE, ST_TYPE_VALUE, ST_TYPE_VALUE, ST_TYPE_VALUE, ST_TYPE_VALUE,
    ST_TYPE_VALUE, ST_TYPE_VALUE, ST_TYPE_ANY],
   \<comment> \<open>ST_TYPE_SHA\<close>
   [ST_TYPE_SHA, ST_TYPE_HEXHASH, ST_TYPE_VALUE, ST_TYPE_VALUE, ST_TYPE_VALUE,
    ST_TYPE_VALUE, ST_TYPE_VALUE, ST_TYPE_VALUE, ST_TYPE_VALUE, ST_TYPE_ANY, ST_TYPE_ANY,
    ST_TYPE_ANY, ST_TYPE_ANY, ST_TYPE_ANY, ST_TYPE_VALUE, ST_TYPE_VALUE, ST_TYPE_VALUE,
    ST_TYPE_VALUE, ST_TYPE_VALUE, ST_TYPE_VALUE, ST_TYPE_VALUE, ST_TYPE_VALUE,
    ST_TYPE_VALUE, ST_TYPE_VALUE, ST_TYPE_VALUE, ST_TYPE_VALUE, ST_TYPE_VALUE,
    ST_TYPE_VALUE, ST_TYPE_VALUE, ST_TYPE_SHA, ST_TYPE_VALUE, ST_TYPE_VALUE, ST_TYPE_VALUE,
    ST_TYPE_VALUE, ST_TYPE_VALUE, ST_TYPE_VALUE, ST_TYPE_VALUE, ST_TYPE_VALUE,
    ST_TYPE_VALUE, ST_TYPE_VALUE, ST_TYPE_VALUE, ST_TYPE_VALUE, ST_TYPE_VALUE,
    ST_TYPE_VALUE, ST_TYPE_ANY],
   \<comment> \<open>ST_TYPE_IMAGE\<close>
   [ST_TYPE_IMAGE, ST_TYPE_VALUE, ST_TYPE_VALUE, ST_TYPE_VALUE, ST_TYPE_VALUE,
    ST_TYPE_VALUE, ST_TYPE_VALUE, ST_TYPE_VALUE, ST_TYPE_VALUE, ST_TYPE_ANY, ST_TYPE_ANY,
    ST_TYPE_ANY, ST_TYPE_ANY, ST_TYPE_ANY, ST_TYPE_VALUE, ST_TYPE_VALUE, ST_TYPE_VALUE,
    ST_TYPE_VALUE, ST_TYPE_VALUE, ST_TYPE_VALUE, ST_TYPE_VALUE, ST_TYPE_VALUE,
    ST_TYPE_VALUE, ST_TYPE_VALUE, ST_TYPE_VALUE, ST_TYPE_VALUE, ST_TYPE_VALUE,
    ST_TYPE_VALUE, ST_TYPE_VALUE, ST_TYPE_VALUE, ST_TYPE_IMAGE, ST_TYPE_VALUE,
    ST_TYPE_VALUE, ST_TYPE_VALUE, ST_TYPE_VALUE, ST_TYPE_VALUE, ST_TYPE_VALUE,
    ST_TYPE_VALUE, ST_TYPE_VALUE, ST_TYPE_VALUE, ST_TYPE_VALUE, ST_TYPE_VALUE,
    ST_TYPE_VALUE, ST_TYPE_VALUE, ST_TYPE_ANY],
   \<comment> \<open>ST_TYPE_PKG\<close>
   [ST_TYPE_PKG, ST_TYPE_VALUE, ST_TYPE_VALUE, ST_TYPE_VALUE, ST_TYPE_VALUE, ST_TYPE_VALUE,
    ST_TYPE_VALUE, ST_TYPE_VALUE, ST_TYPE_VALUE, ST_TYPE_ANY, ST_TYPE_ANY, ST_TYPE_ANY,
    ST_TYPE_ANY, ST_TYPE_ANY, ST_TYPE_VALUE, ST_TYPE_VALUE, ST_TYPE_VALUE, ST_TYPE_VALUE,
    ST_TYPE_VALUE, ST_TYPE_VALUE, ST_TYPE_VALUE, ST_TYPE_VALUE, ST_TYPE_VALUE,
    ST_TYPE_VALUE, ST_TYPE_VALUE, ST_TYPE_VALUE, ST_TYPE_VALUE, ST_TYPE_VALUE,
    ST_TYPE_VALUE, ST_TYPE_VALUE, ST_TYPE_VALUE, ST_TYPE_PKG, ST_TYPE_VALUE, ST_TYPE_VALUE,
    ST_TYPE_VALUE, ST_TYPE_VALUE, ST_TYPE_VALUE, ST_TYPE_VALUE, ST_TYPE_VALUE,
    ST_TYPE_VALUE, ST_TYPE_VALUE, ST_TYPE_VALUE, ST_TYPE_VALUE, ST_TYPE_VALUE, ST_TYPE_ANY],
   \<comment> \<open>ST_TYPE_USER\<close>
   [ST_TYPE_USER, ST_TYPE_VALUE, ST_TYPE_VALUE, ST_TYPE_VALUE, ST_TYPE_VALUE,
    ST_TYPE_VALUE, ST_TYPE_VALUE, ST_TYPE_VALUE, ST_TYPE_VALUE, ST_TYPE_ANY, ST_TYPE_ANY,
    ST_TYPE_ANY, ST_TYPE_ANY, ST_TYPE_ANY, ST_TYPE_VALUE, ST_TYPE_VALUE, ST_TYPE_VALUE,
    ST_TYPE_VALUE, ST_TYPE_VALUE, ST_TYPE_VALUE, ST_TYPE_VALUE, ST_TYPE_VALUE,
    ST_TYPE_VALUE, ST_TYPE_VALUE, ST_TYPE_VALUE, ST_TYPE_VALUE, ST_TYPE_VALUE,
    ST_TYPE_VALUE, ST_TYPE_VALUE, ST_TYPE_VALUE, ST_TYPE_VALUE, ST_TYPE_VALUE,
    ST_TYPE_USER, ST_TYPE_VALUE, ST_TYPE_VALUE, ST_TYPE_VALUE, ST_TYPE_VALUE,
    ST_TYPE_VALUE, ST_TYPE_VALUE, ST_TYPE_VALUE, ST_TYPE_VALUE, ST_TYPE_VALUE,
    ST_TYPE_VALUE, ST_TYPE_VALUE, ST_TYPE_ANY]]"

definition st_type_join_rows_3 :: "st_token_type list list" where
  "st_type_join_rows_3 = [
   \<comment> \<open>ST_TYPE_FINGERPRINT\<close>
   [ST_TYPE_FINGERPRINT, ST_TYPE_VALUE, ST_TYPE_VALUE, ST_TYPE_VALUE, ST_TYPE_VALUE,
    ST_TYPE_VALUE, ST_TYPE_VALUE, ST_TYPE_VALUE, ST_TYPE_VALUE, ST_TYPE_ANY, ST_TYPE_ANY,
    ST_TYPE_ANY, ST_TYPE_ANY, ST_TYPE_ANY, ST_TYPE_VALUE, ST_TYPE_VALUE, ST_TYPE_VALUE,
    ST_TYPE_VALUE, ST_TYPE_VALUE, ST_TYPE_VALUE, ST_TYPE_VALUE, ST_TYPE_VALUE,
    ST_TYPE_VALUE, ST_TYPE_VALUE, ST_TYPE_VALUE, ST_TYPE_VALUE, ST_TYPE_VALUE,
    ST_TYPE_VALUE, ST_TYPE_VALUE, ST_TYPE_VALUE, ST_TYPE_VALUE, ST_TYPE_VALUE,
    ST_TYPE_VALUE, ST_TYPE_FINGERPRINT, ST_TYPE_VALUE, ST_TYPE_VALUE, ST_TYPE_VALUE,
    ST_TYPE_VALUE, ST_TYPE_VALUE, ST_TYPE_VALUE, ST_TYPE_VALUE, ST_TYPE_VALUE,
    ST_TYPE_VALUE, ST_TYPE_VALUE, ST_TYPE_ANY],
   \<comment> \<open>ST_TYPE_MAC\<close>
   [ST_TYPE_MAC, ST_TYPE_VALUE, ST_TYPE_VALUE, ST_TYPE_VALUE, ST_TYPE_VALUE, ST_TYPE_VALUE,
    ST_TYPE_VALUE, ST_TYPE_VALUE, ST_TYPE_VALUE, ST_TYPE_ANY, ST_TYPE_ANY, ST_TYPE_ANY,
    ST_TYPE_ANY, ST_TYPE_ANY, ST_TYPE_VALUE, ST_TYPE_VALUE, ST_TYPE_VALUE, ST_TYPE_VALUE,
    ST_TYPE_VALUE, ST_TYPE_VALUE, ST_TYPE_VALUE, ST_TYPE_VALUE, ST_TYPE_VALUE,
    ST_TYPE_VALUE, ST_TYPE_VALUE, ST_TYPE_VALUE, ST_TYPE_VALUE, ST_TYPE_VALUE,
    ST_TYPE_VALUE, ST_TYPE_VALUE, ST_TYPE_VALUE, ST_TYPE_VALUE, ST_TYPE_VALUE,
    ST_TYPE_VALUE, ST_TYPE_MAC, ST_TYPE_VALUE, ST_TYPE_VALUE, ST_TYPE_VALUE, ST_TYPE_VALUE,
    ST_TYPE_VALUE, ST_TYPE_VALUE, ST_TYPE_VALUE, ST_TYPE_VALUE, ST_TYPE_VALUE, ST_TYPE_ANY],
   \<comment> \<open>ST_TYPE_METHOD\<close>
   [ST_TYPE_METHOD, ST_TYPE_VALUE, ST_TYPE_VALUE, ST_TYPE_VALUE, ST_TYPE_VALUE,
    ST_TYPE_VALUE, ST_TYPE_WORD, ST_TYPE_VALUE, ST_TYPE_VALUE, ST_TYPE_ANY, ST_TYPE_ANY,
    ST_TYPE_ANY, ST_TYPE_ANY, ST_TYPE_ANY, ST_TYPE_VALUE, ST_TYPE_VALUE, ST_TYPE_VALUE,
    ST_TYPE_VALUE, ST_TYPE_VALUE, ST_TYPE_VALUE, ST_TYPE_VALUE, ST_TYPE_VALUE,
    ST_TYPE_VALUE, ST_TYPE_VALUE, ST_TYPE_VALUE, ST_TYPE_WORD, ST_TYPE_VALUE, ST_TYPE_WORD,
    ST_TYPE_VALUE, ST_TYPE_VALUE, ST_TYPE_VALUE, ST_TYPE_VALUE, ST_TYPE_VALUE,
    ST_TYPE_VALUE, ST_TYPE_VALUE, ST_TYPE_METHOD, ST_TYPE_VALUE, ST_TYPE_VALUE,
    ST_TYPE_VALUE, ST_TYPE_VALUE, ST_TYPE_VALUE, ST_TYPE_VALUE, ST_TYPE_VALUE,
    ST_TYPE_VALUE, ST_TYPE_ANY],
   \<comment> \<open>ST_TYPE_CRON\<close>
   [ST_TYPE_CRON, ST_TYPE_VALUE, ST_TYPE_VALUE, ST_TYPE_VALUE, ST_TYPE_VALUE,
    ST_TYPE_VALUE, ST_TYPE_VALUE, ST_TYPE_VALUE, ST_TYPE_VALUE, ST_TYPE_ANY, ST_TYPE_ANY,
    ST_TYPE_ANY, ST_TYPE_ANY, ST_TYPE_ANY, ST_TYPE_VALUE, ST_TYPE_VALUE, ST_TYPE_VALUE,
    ST_TYPE_VALUE, ST_TYPE_VALUE, ST_TYPE_VALUE, ST_TYPE_VALUE, ST_TYPE_VALUE,
    ST_TYPE_VALUE, ST_TYPE_VALUE, ST_TYPE_VALUE, ST_TYPE_VALUE, ST_TYPE_VALUE,
    ST_TYPE_VALUE, ST_TYPE_VALUE, ST_TYPE_VALUE, ST_TYPE_VALUE, ST_TYPE_VALUE,
    ST_TYPE_VALUE, ST_TYPE_VALUE, ST_TYPE_VALUE, ST_TYPE_VALUE, ST_TYPE_CRON,
    ST_TYPE_VALUE, ST_TYPE_VALUE, ST_TYPE_VALUE, ST_TYPE_VALUE, ST_TYPE_VALUE,
    ST_TYPE_VALUE, ST_TYPE_VALUE, ST_TYPE_ANY],
   \<comment> \<open>ST_TYPE_DURATION\<close>
   [ST_TYPE_DURATION, ST_TYPE_VALUE, ST_TYPE_VALUE, ST_TYPE_VALUE, ST_TYPE_VALUE,
    ST_TYPE_VALUE, ST_TYPE_VALUE, ST_TYPE_VALUE, ST_TYPE_VALUE, ST_TYPE_ANY, ST_TYPE_ANY,
    ST_TYPE_ANY, ST_TYPE_ANY, ST_TYPE_ANY, ST_TYPE_VALUE, ST_TYPE_VALUE, ST_TYPE_VALUE,
    ST_TYPE_VALUE, ST_TYPE_VALUE, ST_TYPE_VALUE, ST_TYPE_VALUE, ST_TYPE_VALUE,
    ST_TYPE_VALUE, ST_TYPE_VALUE, ST_TYPE_VALUE, ST_TYPE_VALUE, ST_TYPE_VALUE,
    ST_TYPE_VALUE, ST_TYPE_VALUE, ST_TYPE_VALUE, ST_TYPE_VALUE, ST_TYPE_VALUE,
    ST_TYPE_VALUE, ST_TYPE_VALUE, ST_TYPE_VALUE, ST_TYPE_VALUE, ST_TYPE_VALUE,
    ST_TYPE_DURATION, ST_TYPE_VALUE, ST_TYPE_VALUE, ST_TYPE_VALUE, ST_TYPE_VALUE,
    ST_TYPE_VALUE, ST_TYPE_VALUE, ST_TYPE_ANY],
   \<comment> \<open>ST_TYPE_REGEX\<close>
   [ST_TYPE_REGEX, ST_TYPE_VALUE, ST_TYPE_VALUE, ST_TYPE_VALUE, ST_TYPE_VALUE,
    ST_TYPE_VALUE, ST_TYPE_VALUE, ST_TYPE_VALUE, ST_TYPE_VALUE, ST_TYPE_ANY, ST_TYPE_ANY,
    ST_TYPE_ANY, ST_TYPE_ANY, ST_TYPE_ANY, ST_TYPE_VALUE, ST_TYPE_VALUE, ST_TYPE_VALUE,
    ST_TYPE_VALUE, ST_TYPE_VALUE, ST_TYPE_VALUE, ST_TYPE_VALUE, ST_TYPE_VALUE,
    ST_TYPE_VALUE, ST_TYPE_VALUE, ST_TYPE_VALUE, ST_TYPE_VALUE, ST_TYPE_VALUE,
    ST_TYPE_VALUE, ST_TYPE_VALUE, ST_TYPE_VALUE, ST_TYPE_VALUE, ST_TYPE_VALUE,
    ST_TYPE_VALUE, ST_TYPE_VALUE, ST_TYPE_VALUE, ST_TYPE_VALUE, ST_TYPE_VALUE,
    ST_TYPE_VALUE, ST_TYPE_REGEX, ST_TYPE_VALUE, ST_TYPE_VALUE, ST_TYPE_VALUE,
    ST_TYPE_VALUE, ST_TYPE_VALUE, ST_TYPE_ANY],
   \<comment> \<open>ST_TYPE_GLOB\<close>
   [ST_TYPE_GLOB, ST_TYPE_VALUE, ST_TYPE_VALUE, ST_TYPE_VALUE, ST_TYPE_VALUE,
    ST_TYPE_VALUE, ST_TYPE_VALUE, ST_TYPE_VALUE, ST_TYPE_VALUE, ST_TYPE_ANY, ST_TYPE_ANY,
    ST_TYPE_ANY, ST_TYPE_ANY, ST_TYPE_ANY, ST_TYPE_VALUE, ST_TYPE_VALUE, ST_TYPE_VALUE,
    ST_TYPE_VALUE, ST_TYPE_VALUE, ST_TYPE_VALUE, ST_TYPE_VALUE, ST_TYPE_VALUE,
    ST_TYPE_VALUE, ST_TYPE_VALUE, ST_TYPE_VALUE, ST_TYPE_VALUE, ST_TYPE_VALUE,
    ST_TYPE_VALUE, ST_TYPE_VALUE, ST_TYPE_VALUE, ST_TYPE_VALUE, ST_TYPE_VALUE,
    ST_TYPE_VALUE, ST_TYPE_VALUE, ST_TYPE_VALUE, ST_TYPE_VALUE, ST_TYPE_VALUE,
    ST_TYPE_VALUE, ST_TYPE_VALUE, ST_TYPE_GLOB, ST_TYPE_VALUE, ST_TYPE_VALUE,
    ST_TYPE_VALUE, ST_TYPE_VALUE, ST_TYPE_ANY],
   \<comment> \<open>ST_TYPE_RANGE\<close>
   [ST_TYPE_RANGE, ST_TYPE_VALUE, ST_TYPE_VALUE, ST_TYPE_VALUE, ST_TYPE_VALUE,
    ST_TYPE_VALUE, ST_TYPE_VALUE, ST_TYPE_VALUE, ST_TYPE_VALUE, ST_TYPE_ANY, ST_TYPE_ANY,
    ST_TYPE_ANY, ST_TYPE_ANY, ST_TYPE_ANY, ST_TYPE_VALUE, ST_TYPE_VALUE, ST_TYPE_VALUE,
    ST_TYPE_VALUE, ST_TYPE_VALUE, ST_TYPE_VALUE, ST_TYPE_VALUE, ST_TYPE_VALUE,
    ST_TYPE_VALUE, ST_TYPE_VALUE, ST_TYPE_VALUE, ST_TYPE_VALUE, ST_TYPE_VALUE,
    ST_TYPE_VALUE, ST_TYPE_VALUE, ST_TYPE_VALUE, ST_TYPE_VALUE, ST_TYPE_VALUE,
    ST_TYPE_VALUE, ST_TYPE_VALUE, ST_TYPE_VALUE, ST_TYPE_VALUE, ST_TYPE_VALUE,
    ST_TYPE_VALUE, ST_TYPE_VALUE, ST_TYPE_VALUE, ST_TYPE_RANGE, ST_TYPE_VALUE,
    ST_TYPE_VALUE, ST_TYPE_VALUE, ST_TYPE_ANY],
   \<comment> \<open>ST_TYPE_SIGNAL\<close>
   [ST_TYPE_SIGNAL, ST_TYPE_VALUE, ST_TYPE_VALUE, ST_TYPE_VALUE, ST_TYPE_VALUE,
    ST_TYPE_VALUE, ST_TYPE_VALUE, ST_TYPE_VALUE, ST_TYPE_VALUE, ST_TYPE_ANY, ST_TYPE_ANY,
    ST_TYPE_ANY, ST_TYPE_ANY, ST_TYPE_ANY, ST_TYPE_VALUE, ST_TYPE_VALUE, ST_TYPE_VALUE,
    ST_TYPE_VALUE, ST_TYPE_VALUE, ST_TYPE_VALUE, ST_TYPE_VALUE, ST_TYPE_VALUE,
    ST_TYPE_VALUE, ST_TYPE_VALUE, ST_TYPE_VALUE, ST_TYPE_VALUE, ST_TYPE_VALUE,
    ST_TYPE_VALUE, ST_TYPE_VALUE, ST_TYPE_VALUE, ST_TYPE_VALUE, ST_TYPE_VALUE,
    ST_TYPE_VALUE, ST_TYPE_VALUE, ST_TYPE_VALUE, ST_TYPE_VALUE, ST_TYPE_VALUE,
    ST_TYPE_VALUE, ST_TYPE_VALUE, ST_TYPE_VALUE, ST_TYPE_VALUE, ST_TYPE_SIGNAL,
    ST_TYPE_VALUE, ST_TYPE_VALUE, ST_TYPE_ANY],
   \<comment> \<open>ST_TYPE_USER_GROUP\<close>
   [ST_TYPE_USER_GROUP, ST_TYPE_VALUE, ST_TYPE_VALUE, ST_TYPE_VALUE, ST_TYPE_VALUE,
    ST_TYPE_VALUE, ST_TYPE_VALUE, ST_TYPE_VALUE, ST_TYPE_VALUE, ST_TYPE_ANY, ST_TYPE_ANY,
    ST_TYPE_ANY, ST_TYPE_ANY, ST_TYPE_ANY, ST_TYPE_VALUE, ST_TYPE_VALUE, ST_TYPE_VALUE,
    ST_TYPE_VALUE, ST_TYPE_VALUE, ST_TYPE_VALUE, ST_TYPE_VALUE, ST_TYPE_VALUE,
    ST_TYPE_VALUE, ST_TYPE_VALUE, ST_TYPE_VALUE, ST_TYPE_VALUE, ST_TYPE_VALUE,
    ST_TYPE_VALUE, ST_TYPE_VALUE, ST_TYPE_VALUE, ST_TYPE_VALUE, ST_TYPE_VALUE,
    ST_TYPE_VALUE, ST_TYPE_VALUE, ST_TYPE_VALUE, ST_TYPE_VALUE, ST_TYPE_VALUE,
    ST_TYPE_VALUE, ST_TYPE_VALUE, ST_TYPE_VALUE, ST_TYPE_VALUE, ST_TYPE_VALUE,
    ST_TYPE_USER_GROUP, ST_TYPE_VALUE, ST_TYPE_ANY],
   \<comment> \<open>ST_TYPE_PERM_OCTAL\<close>
   [ST_TYPE_PERM_OCTAL, ST_TYPE_VALUE, ST_TYPE_NUMBER, ST_TYPE_VALUE, ST_TYPE_VALUE,
    ST_TYPE_VALUE, ST_TYPE_VALUE, ST_TYPE_VALUE, ST_TYPE_VALUE, ST_TYPE_ANY, ST_TYPE_ANY,
    ST_TYPE_ANY, ST_TYPE_ANY, ST_TYPE_ANY, ST_TYPE_VALUE, ST_TYPE_VALUE, ST_TYPE_VALUE,
    ST_TYPE_VALUE, ST_TYPE_VALUE, ST_TYPE_VALUE, ST_TYPE_VALUE, ST_TYPE_NUMBER,
    ST_TYPE_VALUE, ST_TYPE_VALUE, ST_TYPE_VALUE, ST_TYPE_VALUE, ST_TYPE_VALUE,
    ST_TYPE_VALUE, ST_TYPE_VALUE, ST_TYPE_VALUE, ST_TYPE_VALUE, ST_TYPE_VALUE,
    ST_TYPE_VALUE, ST_TYPE_VALUE, ST_TYPE_VALUE, ST_TYPE_VALUE, ST_TYPE_VALUE,
    ST_TYPE_VALUE, ST_TYPE_VALUE, ST_TYPE_VALUE, ST_TYPE_VALUE, ST_TYPE_VALUE,
    ST_TYPE_VALUE, ST_TYPE_PERM_OCTAL, ST_TYPE_ANY],
   \<comment> \<open>ST_TYPE_ANY\<close>
   [ST_TYPE_ANY, ST_TYPE_ANY, ST_TYPE_ANY, ST_TYPE_ANY, ST_TYPE_ANY, ST_TYPE_ANY,
    ST_TYPE_ANY, ST_TYPE_ANY, ST_TYPE_ANY, ST_TYPE_ANY, ST_TYPE_ANY, ST_TYPE_ANY,
    ST_TYPE_ANY, ST_TYPE_ANY, ST_TYPE_ANY, ST_TYPE_ANY, ST_TYPE_ANY, ST_TYPE_ANY,
    ST_TYPE_ANY, ST_TYPE_ANY, ST_TYPE_ANY, ST_TYPE_ANY, ST_TYPE_ANY, ST_TYPE_ANY,
    ST_TYPE_ANY, ST_TYPE_ANY, ST_TYPE_ANY, ST_TYPE_ANY, ST_TYPE_ANY, ST_TYPE_ANY,
    ST_TYPE_ANY, ST_TYPE_ANY, ST_TYPE_ANY, ST_TYPE_ANY, ST_TYPE_ANY, ST_TYPE_ANY,
    ST_TYPE_ANY, ST_TYPE_ANY, ST_TYPE_ANY, ST_TYPE_ANY, ST_TYPE_ANY, ST_TYPE_ANY,
    ST_TYPE_ANY, ST_TYPE_ANY, ST_TYPE_ANY]]"

definition st_type_join_table :: "st_token_type list list" where
  "st_type_join_table =
     st_type_join_rows_0 @ st_type_join_rows_1 @ st_type_join_rows_2 @ st_type_join_rows_3"

definition st_join :: "st_token_type \<Rightarrow> st_token_type \<Rightarrow> st_token_type" where
  "st_join a b = st_type_join_table ! type_index a ! type_index b"

section \<open>Compatibility table\<close>

text \<open>The C spellings of the two truth values, for the table below.\<close>

abbreviation (input) true :: bool where "true \<equiv> True"
abbreviation (input) false :: bool where "false \<equiv> False"

definition st_type_compatible_rows_0 :: "bool list list" where
  "st_type_compatible_rows_0 = [
   \<comment> \<open>ST_TYPE_LITERAL\<close>
   [true, true, true, true, true, true, true, true, true, true, true, true, true, true,
    true, true, true, true, true, true, true, true, true, true, true, true, true, true,
    true, true, true, true, true, true, true, true, true, true, true, true, true, true,
    true, true, true],
   \<comment> \<open>ST_TYPE_HEXHASH\<close>
   [false, true, false, false, false, false, false, false, false, false, false, false,
    false, false, true, false, false, false, false, false, false, false, false, false,
    false, false, false, false, false, false, false, false, false, false, false, false,
    false, false, false, false, false, false, false, false, true],
   \<comment> \<open>ST_TYPE_NUMBER\<close>
   [false, false, true, false, false, false, false, false, false, false, false, false,
    false, false, true, false, false, false, false, false, false, false, false, false,
    false, false, false, false, false, false, false, false, false, false, false, false,
    false, false, false, false, false, false, false, false, true],
   \<comment> \<open>ST_TYPE_IPV4\<close>
   [false, false, false, true, false, true, false, false, false, false, false, false,
    false, false, true, false, false, false, false, false, false, false, false, false,
    false, false, false, false, false, false, false, false, false, false, false, false,
    false, false, false, false, false, false, false, false, true],
   \<comment> \<open>ST_TYPE_IPV6\<close>
   [false, false, false, false, true, true, false, false, false, false, false, false,
    false, false, true, false, false, false, false, false, false, false, false, false,
    false, false, false, false, false, false, false, false, false, false, false, false,
    false, false, false, false, false, false, false, false, true],
   \<comment> \<open>ST_TYPE_IPADDR\<close>
   [false, false, false, false, false, true, false, false, false, false, false, false,
    false, false, true, false, false, false, false, false, false, false, false, false,
    false, false, false, false, false, false, false, false, false, false, false, false,
    false, false, false, false, false, false, false, false, true],
   \<comment> \<open>ST_TYPE_WORD\<close>
   [false, false, false, false, false, false, true, false, false, false, false, false,
    false, false, true, false, false, false, false, false, false, false, false, false,
    false, false, false, false, false, false, false, false, false, false, false, false,
    false, false, false, false, false, false, false, false, true],
   \<comment> \<open>ST_TYPE_QUOTED\<close>
   [false, false, false, false, false, false, false, true, true, false, false, false,
    false, false, true, false, false, false, false, false, false, false, false, false,
    false, false, false, false, false, false, false, false, false, false, false, false,
    false, false, false, false, false, false, false, false, true],
   \<comment> \<open>ST_TYPE_QUOTED_SPACE\<close>
   [false, false, false, false, false, false, false, false, true, false, false, false,
    false, false, true, false, false, false, false, false, false, false, false, false,
    false, false, false, false, false, false, false, false, false, false, false, false,
    false, false, false, false, false, false, false, false, true],
   \<comment> \<open>ST_TYPE_FILENAME\<close>
   [false, false, false, false, false, false, false, false, false, true, true, false, true,
    false, false, false, false, false, false, false, false, false, false, false, false,
    false, false, false, false, false, false, false, false, false, false, false, false,
    false, false, false, false, false, false, false, true],
   \<comment> \<open>ST_TYPE_REL_PATH\<close>
   [false, false, false, false, false, false, false, false, false, false, true, false,
    true, false, false, false, false, false, false, false, false, false, false, false,
    false, false, false, false, false, false, false, false, false, false, false, false,
    false, false, false, false, false, false, false, false, true],
   \<comment> \<open>ST_TYPE_ABS_PATH\<close>
   [false, false, false, false, false, false, false, false, false, false, false, true,
    true, false, false, false, false, false, false, false, false, false, false, false,
    false, false, false, false, false, false, false, false, false, false, false, false,
    false, false, false, false, false, false, false, false, true],
   \<comment> \<open>ST_TYPE_PATH\<close>
   [false, false, false, false, false, false, false, false, false, false, false, false,
    true, false, false, false, false, false, false, false, false, false, false, false,
    false, false, false, false, false, false, false, false, false, false, false, false,
    false, false, false, false, false, false, false, false, true],
   \<comment> \<open>ST_TYPE_URL\<close>
   [false, false, false, false, false, false, false, false, false, false, false, false,
    false, true, false, false, false, false, false, false, false, false, false, false,
    false, false, false, false, false, false, false, false, false, false, false, false,
    false, false, false, false, false, false, false, false, true],
   \<comment> \<open>ST_TYPE_VALUE\<close>
   [false, false, false, false, false, false, false, false, false, false, false, false,
    false, false, true, false, false, false, false, false, false, false, false, false,
    false, false, false, false, false, false, false, false, false, false, false, false,
    false, false, false, false, false, false, false, false, true],
   \<comment> \<open>ST_TYPE_SHORTOPT\<close>
   [false, false, false, false, false, false, false, false, false, false, false, false,
    false, false, true, true, false, true, false, false, false, false, false, false, false,
    false, false, false, false, false, false, false, false, false, false, false, false,
    false, false, false, false, false, false, false, true],
   \<comment> \<open>ST_TYPE_LONGOPT\<close>
   [false, false, false, false, false, false, false, false, false, false, false, false,
    false, false, true, false, true, true, false, false, false, false, false, false, false,
    false, false, false, false, false, false, false, false, false, false, false, false,
    false, false, false, false, false, false, false, true],
   \<comment> \<open>ST_TYPE_OPT\<close>
   [false, false, false, false, false, false, false, false, false, false, false, false,
    false, false, true, false, false, true, false, false, false, false, false, false,
    false, false, false, false, false, false, false, false, false, false, false, false,
    false, false, false, false, false, false, false, false, true],
   \<comment> \<open>ST_TYPE_UUID\<close>
   [false, false, false, false, false, false, false, false, false, false, false, false,
    false, false, true, false, false, false, true, false, false, false, false, false,
    false, false, false, false, false, false, false, false, false, false, false, false,
    false, false, false, false, false, false, false, false, true],
   \<comment> \<open>ST_TYPE_EMAIL\<close>
   [false, false, false, false, false, false, false, false, false, false, false, false,
    false, false, true, false, false, false, false, true, false, false, false, false,
    false, false, false, false, false, false, false, false, false, false, false, false,
    false, false, false, false, false, false, false, false, true],
   \<comment> \<open>ST_TYPE_HOSTNAME\<close>
   [false, false, false, false, false, false, false, false, false, false, false, false,
    false, false, true, false, false, false, false, false, true, false, false, false,
    false, false, false, false, false, false, false, false, false, false, false, false,
    false, false, false, false, false, false, false, false, true],
   \<comment> \<open>ST_TYPE_PORT\<close>
   [false, false, true, false, false, false, false, false, false, false, false, false,
    false, false, true, false, false, false, false, false, false, true, false, false,
    false, false, false, false, false, false, false, false, false, false, false, false,
    false, false, false, false, false, false, false, false, true],
   \<comment> \<open>ST_TYPE_SIZE\<close>
   [false, false, false, false, false, false, false, false, false, false, false, false,
    false, false, true, false, false, false, false, false, false, false, true, false,
    false, false, false, false, false, false, false, false, false, false, false, false,
    false, false, false, false, false, false, false, false, true]]"

definition st_type_compatible_rows_1 :: "bool list list" where
  "st_type_compatible_rows_1 = [
   \<comment> \<open>ST_TYPE_SEMVER\<close>
   [false, false, false, false, false, false, false, false, false, false, false, false,
    false, false, true, false, false, false, false, false, false, false, false, true,
    false, false, false, false, false, false, false, false, false, false, false, false,
    false, false, false, false, false, false, false, false, true],
   \<comment> \<open>ST_TYPE_TIMESTAMP\<close>
   [false, false, false, false, false, false, false, false, false, false, false, false,
    false, false, true, false, false, false, false, false, false, false, false, false,
    true, false, false, false, false, false, false, false, false, false, false, false,
    false, false, false, false, false, false, false, false, true],
   \<comment> \<open>ST_TYPE_HASH_ALGO\<close>
   [false, false, false, false, false, false, true, false, false, false, false, false,
    false, false, true, false, false, false, false, false, false, false, false, false,
    false, true, false, false, false, false, false, false, false, false, false, false,
    false, false, false, false, false, false, false, false, true],
   \<comment> \<open>ST_TYPE_ENV_VAR\<close>
   [false, false, false, false, false, false, false, false, false, false, false, false,
    false, false, true, false, false, false, false, false, false, false, false, false,
    false, false, true, false, false, false, false, false, false, false, false, false,
    false, false, false, false, false, false, false, false, true],
   \<comment> \<open>ST_TYPE_HYPHENATED\<close>
   [false, false, false, false, false, false, true, false, false, false, false, false,
    false, false, true, false, false, false, false, false, false, false, false, false,
    false, false, false, true, false, false, false, false, false, false, false, false,
    false, false, false, false, false, false, false, false, true],
   \<comment> \<open>ST_TYPE_BRANCH\<close>
   [false, false, false, false, false, false, false, false, false, false, false, false,
    false, false, true, false, false, false, false, false, false, false, false, false,
    false, false, false, false, true, false, false, false, false, false, false, false,
    false, false, false, false, false, false, false, false, true],
   \<comment> \<open>ST_TYPE_SHA\<close>
   [false, true, false, false, false, false, false, false, false, false, false, false,
    false, false, true, false, false, false, false, false, false, false, false, false,
    false, false, false, false, false, true, false, false, false, false, false, false,
    false, false, false, false, false, false, false, false, true],
   \<comment> \<open>ST_TYPE_IMAGE\<close>
   [false, false, false, false, false, false, false, false, false, false, false, false,
    false, false, true, false, false, false, false, false, false, false, false, false,
    false, false, false, false, false, false, true, false, false, false, false, false,
    false, false, false, false, false, false, false, false, true],
   \<comment> \<open>ST_TYPE_PKG\<close>
   [false, false, false, false, false, false, false, false, false, false, false, false,
    false, false, true, false, false, false, false, false, false, false, false, false,
    false, false, false, false, false, false, false, true, false, false, false, false,
    false, false, false, false, false, false, false, false, true],
   \<comment> \<open>ST_TYPE_USER\<close>
   [false, false, false, false, false, false, false, false, false, false, false, false,
    false, false, true, false, false, false, false, false, false, false, false, false,
    false, false, false, false, false, false, false, false, true, false, false, false,
    false, false, false, false, false, false, false, false, true],
   \<comment> \<open>ST_TYPE_FINGERPRINT\<close>
   [false, false, false, false, false, false, false, false, false, false, false, false,
    false, false, true, false, false, false, false, false, false, false, false, false,
    false, false, false, false, false, false, false, false, false, true, false, false,
    false, false, false, false, false, false, false, false, true],
   \<comment> \<open>ST_TYPE_MAC\<close>
   [false, false, false, false, false, false, false, false, false, false, false, false,
    false, false, true, false, false, false, false, false, false, false, false, false,
    false, false, false, false, false, false, false, false, false, false, true, false,
    false, false, false, false, false, false, false, false, true],
   \<comment> \<open>ST_TYPE_METHOD\<close>
   [false, false, false, false, false, false, true, false, false, false, false, false,
    false, false, true, false, false, false, false, false, false, false, false, false,
    false, false, false, false, false, false, false, false, false, false, false, true,
    false, false, false, false, false, false, false, false, true],
   \<comment> \<open>ST_TYPE_CRON\<close>
   [false, false, false, false, false, false, false, false, false, false, false, false,
    false, false, true, false, false, false, false, false, false, false, false, false,
    false, false, false, false, false, false, false, false, false, false, false, false,
    true, false, false, false, false, false, false, false, true],
   \<comment> \<open>ST_TYPE_DURATION\<close>
   [false, false, false, false, false, false, false, false, false, false, false, false,
    false, false, true, false, false, false, false, false, false, false, false, false,
    false, false, false, false, false, false, false, false, false, false, false, false,
    false, true, false, false, false, false, false, false, true],
   \<comment> \<open>ST_TYPE_REGEX\<close>
   [false, false, false, false, false, false, false, false, false, false, false, false,
    false, false, true, false, false, false, false, false, false, false, false, false,
    false, false, false, false, false, false, false, false, false, false, false, false,
    false, false, true, false, false, false, false, false, true],
   \<comment> \<open>ST_TYPE_GLOB\<close>
   [false, false, false, false, false, false, false, false, false, false, false, false,
    false, false, true, false, false, false, false, false, false, false, false, false,
    false, false, false, false, false, false, false, false, false, false, false, false,
    false, false, false, true, false, false, false, false, true],
   \<comment> \<open>ST_TYPE_RANGE\<close>
   [false, false, false, false, false, false, false, false, false, false, false, false,
    false, false, true, false, false, false, false, false, false, false, false, false,
    false, false, false, false, false, false, false, false, false, false, false, false,
    false, false, false, false, true, false, false, false, true],
   \<comment> \<open>ST_TYPE_SIGNAL\<close>
   [false, false, false, false, false, false, false, false, false, false, false, false,
    false, false, true, false, false, false, false, false, false, false, false, false,
    false, false, false, false, false, false, false, false, false, false, false, false,
    false, false, false, false, false, true, false, false, true],
   \<comment> \<open>ST_TYPE_USER_GROUP\<close>
   [false, false, false, false, false, false, false, false, false, false, false, false,
    false, false, true, false, false, false, false, false, false, false, false, false,
    false, false, false, false, false, false, false, false, false, false, false, false,
    false, false, false, false, false, false, true, false, true],
   \<comment> \<open>ST_TYPE_PERM_OCTAL\<close>
   [false, false, true, false, false, false, false, false, false, false, false, false,
    false, false, true, false, false, false, false, false, false, false, false, false,
    false, false, false, false, false, false, false, false, false, false, false, false,
    false, false, false, false, false, false, false, true, true],
   \<comment> \<open>ST_TYPE_ANY\<close>
   [false, false, false, false, false, false, false, false, false, false, false, false,
    false, false, false, false, false, false, false, false, false, false, false, false,
    false, false, false, false, false, false, false, false, false, false, false, false,
    false, false, false, false, false, false, false, false, true]]"

definition st_type_compatible_table :: "bool list list" where
  "st_type_compatible_table = st_type_compatible_rows_0 @ st_type_compatible_rows_1"

definition st_is_compatible :: "st_token_type \<Rightarrow> st_token_type \<Rightarrow> bool" where
  "st_is_compatible cmd_type policy_type =
     st_type_compatible_table ! type_index cmd_type ! type_index policy_type"

section \<open>Runtime match mask\<close>

text \<open>
  A set of types is a 64-bit mask with the bit \<^verbatim>\<open>1ULL << type\<close> of each member. The mask of
  a concrete type holds the wildcard types whose policy tokens accept it.
\<close>

type_synonym type_mask = "64 word"

definition type_bit :: "st_token_type \<Rightarrow> type_mask" where
  "type_bit t = push_bit (type_index t) 1"

fun st_runtime_match_mask :: "st_token_type \<Rightarrow> type_mask" where
  "st_runtime_match_mask ST_TYPE_LITERAL =
     type_bit ST_TYPE_LITERAL OR type_bit ST_TYPE_ANY"
| "st_runtime_match_mask ST_TYPE_HEXHASH =
     type_bit ST_TYPE_HEXHASH OR type_bit ST_TYPE_NUMBER OR type_bit ST_TYPE_VALUE OR type_bit ST_TYPE_ANY"
| "st_runtime_match_mask ST_TYPE_NUMBER =
     type_bit ST_TYPE_NUMBER OR type_bit ST_TYPE_VALUE OR type_bit ST_TYPE_ANY"
| "st_runtime_match_mask ST_TYPE_IPV4 =
     type_bit ST_TYPE_IPV4 OR type_bit ST_TYPE_IPADDR OR type_bit ST_TYPE_VALUE OR type_bit ST_TYPE_ANY"
| "st_runtime_match_mask ST_TYPE_IPV6 =
     type_bit ST_TYPE_IPV6 OR type_bit ST_TYPE_IPADDR OR type_bit ST_TYPE_VALUE OR type_bit ST_TYPE_ANY"
| "st_runtime_match_mask ST_TYPE_IPADDR =
     type_bit ST_TYPE_IPADDR OR type_bit ST_TYPE_IPV4 OR type_bit ST_TYPE_IPV6 OR type_bit ST_TYPE_VALUE OR type_bit ST_TYPE_ANY"
| "st_runtime_match_mask ST_TYPE_WORD =
     type_bit ST_TYPE_WORD OR type_bit ST_TYPE_VALUE OR type_bit ST_TYPE_ANY"
| "st_runtime_match_mask ST_TYPE_QUOTED =
     type_bit ST_TYPE_QUOTED OR type_bit ST_TYPE_QUOTED_SPACE OR type_bit ST_TYPE_VALUE OR type_bit ST_TYPE_ANY"
| "st_runtime_match_mask ST_TYPE_QUOTED_SPACE =
     type_bit ST_TYPE_QUOTED_SPACE OR type_bit ST_TYPE_VALUE OR type_bit ST_TYPE_ANY"
| "st_runtime_match_mask ST_TYPE_FILENAME =
     type_bit ST_TYPE_FILENAME OR type_bit ST_TYPE_REL_PATH OR type_bit ST_TYPE_PATH OR type_bit ST_TYPE_ANY"
| "st_runtime_match_mask ST_TYPE_REL_PATH =
     type_bit ST_TYPE_REL_PATH OR type_bit ST_TYPE_PATH OR type_bit ST_TYPE_ANY"
| "st_runtime_match_mask ST_TYPE_ABS_PATH =
     type_bit ST_TYPE_ABS_PATH OR type_bit ST_TYPE_PATH OR type_bit ST_TYPE_ANY"
| "st_runtime_match_mask ST_TYPE_PATH =
     type_bit ST_TYPE_PATH OR type_bit ST_TYPE_ANY"
| "st_runtime_match_mask ST_TYPE_URL =
     type_bit ST_TYPE_URL OR type_bit ST_TYPE_ANY"
| "st_runtime_match_mask ST_TYPE_VALUE =
     type_bit ST_TYPE_VALUE OR type_bit ST_TYPE_ANY"
| "st_runtime_match_mask ST_TYPE_SHORTOPT =
     type_bit ST_TYPE_SHORTOPT OR type_bit ST_TYPE_OPT OR type_bit ST_TYPE_VALUE OR type_bit ST_TYPE_ANY"
| "st_runtime_match_mask ST_TYPE_LONGOPT =
     type_bit ST_TYPE_LONGOPT OR type_bit ST_TYPE_OPT OR type_bit ST_TYPE_VALUE OR type_bit ST_TYPE_ANY"
| "st_runtime_match_mask ST_TYPE_OPT =
     type_bit ST_TYPE_OPT OR type_bit ST_TYPE_SHORTOPT OR type_bit ST_TYPE_LONGOPT OR type_bit ST_TYPE_VALUE OR type_bit ST_TYPE_ANY"
| "st_runtime_match_mask ST_TYPE_UUID =
     type_bit ST_TYPE_UUID OR type_bit ST_TYPE_VALUE OR type_bit ST_TYPE_ANY"
| "st_runtime_match_mask ST_TYPE_EMAIL =
     type_bit ST_TYPE_EMAIL OR type_bit ST_TYPE_VALUE OR type_bit ST_TYPE_ANY"
| "st_runtime_match_mask ST_TYPE_HOSTNAME =
     type_bit ST_TYPE_HOSTNAME OR type_bit ST_TYPE_VALUE OR type_bit ST_TYPE_ANY"
| "st_runtime_match_mask ST_TYPE_PORT =
     type_bit ST_TYPE_PORT OR type_bit ST_TYPE_NUMBER OR type_bit ST_TYPE_VALUE OR type_bit ST_TYPE_ANY"
| "st_runtime_match_mask ST_TYPE_SIZE =
     type_bit ST_TYPE_SIZE OR type_bit ST_TYPE_VALUE OR type_bit ST_TYPE_ANY"
| "st_runtime_match_mask ST_TYPE_SEMVER =
     type_bit ST_TYPE_SEMVER OR type_bit ST_TYPE_VALUE OR type_bit ST_TYPE_ANY"
| "st_runtime_match_mask ST_TYPE_TIMESTAMP =
     type_bit ST_TYPE_TIMESTAMP OR type_bit ST_TYPE_VALUE OR type_bit ST_TYPE_ANY"
| "st_runtime_match_mask ST_TYPE_HASH_ALGO =
     type_bit ST_TYPE_HASH_ALGO OR type_bit ST_TYPE_WORD OR type_bit ST_TYPE_VALUE OR type_bit ST_TYPE_ANY"
| "st_runtime_match_mask ST_TYPE_ENV_VAR =
     type_bit ST_TYPE_ENV_VAR OR type_bit ST_TYPE_VALUE OR type_bit ST_TYPE_ANY"
| "st_runtime_match_mask ST_TYPE_HYPHENATED =
     type_bit ST_TYPE_HYPHENATED OR type_bit ST_TYPE_WORD OR type_bit ST_TYPE_VALUE OR type_bit ST_TYPE_ANY"
| "st_runtime_match_mask ST_TYPE_BRANCH =
     type_bit ST_TYPE_BRANCH OR type_bit ST_TYPE_VALUE OR type_bit ST_TYPE_ANY"
| "st_runtime_match_mask ST_TYPE_SHA =
     type_bit ST_TYPE_SHA OR type_bit ST_TYPE_HEXHASH OR type_bit ST_TYPE_VALUE OR type_bit ST_TYPE_ANY"
| "st_runtime_match_mask ST_TYPE_IMAGE =
     type_bit ST_TYPE_IMAGE OR type_bit ST_TYPE_VALUE OR type_bit ST_TYPE_ANY"
| "st_runtime_match_mask ST_TYPE_PKG =
     type_bit ST_TYPE_PKG OR type_bit ST_TYPE_VALUE OR type_bit ST_TYPE_ANY"
| "st_runtime_match_mask ST_TYPE_USER =
     type_bit ST_TYPE_USER OR type_bit ST_TYPE_VALUE OR type_bit ST_TYPE_ANY"
| "st_runtime_match_mask ST_TYPE_FINGERPRINT =
     type_bit ST_TYPE_FINGERPRINT OR type_bit ST_TYPE_VALUE OR type_bit ST_TYPE_ANY"
| "st_runtime_match_mask ST_TYPE_MAC =
     type_bit ST_TYPE_MAC OR type_bit ST_TYPE_VALUE OR type_bit ST_TYPE_ANY"
| "st_runtime_match_mask ST_TYPE_METHOD =
     type_bit ST_TYPE_METHOD OR type_bit ST_TYPE_WORD OR type_bit ST_TYPE_VALUE OR type_bit ST_TYPE_ANY"
| "st_runtime_match_mask ST_TYPE_CRON =
     type_bit ST_TYPE_CRON OR type_bit ST_TYPE_VALUE OR type_bit ST_TYPE_ANY"
| "st_runtime_match_mask ST_TYPE_DURATION =
     type_bit ST_TYPE_DURATION OR type_bit ST_TYPE_VALUE OR type_bit ST_TYPE_ANY"
| "st_runtime_match_mask ST_TYPE_REGEX =
     type_bit ST_TYPE_REGEX OR type_bit ST_TYPE_VALUE OR type_bit ST_TYPE_ANY"
| "st_runtime_match_mask ST_TYPE_GLOB =
     type_bit ST_TYPE_GLOB OR type_bit ST_TYPE_VALUE OR type_bit ST_TYPE_ANY"
| "st_runtime_match_mask ST_TYPE_RANGE =
     type_bit ST_TYPE_RANGE OR type_bit ST_TYPE_VALUE OR type_bit ST_TYPE_ANY"
| "st_runtime_match_mask ST_TYPE_SIGNAL =
     type_bit ST_TYPE_SIGNAL OR type_bit ST_TYPE_VALUE OR type_bit ST_TYPE_ANY"
| "st_runtime_match_mask ST_TYPE_USER_GROUP =
     type_bit ST_TYPE_USER_GROUP OR type_bit ST_TYPE_VALUE OR type_bit ST_TYPE_ANY"
| "st_runtime_match_mask ST_TYPE_PERM_OCTAL =
     type_bit ST_TYPE_PERM_OCTAL OR type_bit ST_TYPE_NUMBER OR type_bit ST_TYPE_VALUE OR type_bit ST_TYPE_ANY"
| "st_runtime_match_mask ST_TYPE_ANY =
     type_bit ST_TYPE_ANY"

definition st_runtime_type_matches :: "st_token_type \<Rightarrow> st_token_type \<Rightarrow> bool" where
  "st_runtime_type_matches concrete wildcard \<longleftrightarrow>
     st_runtime_match_mask concrete AND type_bit wildcard \<noteq> 0"

section \<open>The declarative lattice\<close>

text \<open>
  The supertypes of a type other than the bottom, from the narrowest (the type itself) to the
  top: the chains of the table comments. They are the specification the tables are checked
  against, and form a tree, so joins are lowest common ancestors.
\<close>

fun ancestors :: "st_token_type \<Rightarrow> st_token_type list" where
  "ancestors ST_TYPE_LITERAL = [ST_TYPE_LITERAL]"
| "ancestors ST_TYPE_HEXHASH = [ST_TYPE_HEXHASH, ST_TYPE_VALUE, ST_TYPE_ANY]"
| "ancestors ST_TYPE_NUMBER = [ST_TYPE_NUMBER, ST_TYPE_VALUE, ST_TYPE_ANY]"
| "ancestors ST_TYPE_IPV4 = [ST_TYPE_IPV4, ST_TYPE_IPADDR, ST_TYPE_VALUE, ST_TYPE_ANY]"
| "ancestors ST_TYPE_IPV6 = [ST_TYPE_IPV6, ST_TYPE_IPADDR, ST_TYPE_VALUE, ST_TYPE_ANY]"
| "ancestors ST_TYPE_IPADDR = [ST_TYPE_IPADDR, ST_TYPE_VALUE, ST_TYPE_ANY]"
| "ancestors ST_TYPE_WORD = [ST_TYPE_WORD, ST_TYPE_VALUE, ST_TYPE_ANY]"
| "ancestors ST_TYPE_QUOTED = [ST_TYPE_QUOTED, ST_TYPE_QUOTED_SPACE, ST_TYPE_VALUE, ST_TYPE_ANY]"
| "ancestors ST_TYPE_QUOTED_SPACE = [ST_TYPE_QUOTED_SPACE, ST_TYPE_VALUE, ST_TYPE_ANY]"
| "ancestors ST_TYPE_FILENAME = [ST_TYPE_FILENAME, ST_TYPE_REL_PATH, ST_TYPE_PATH, ST_TYPE_ANY]"
| "ancestors ST_TYPE_REL_PATH = [ST_TYPE_REL_PATH, ST_TYPE_PATH, ST_TYPE_ANY]"
| "ancestors ST_TYPE_ABS_PATH = [ST_TYPE_ABS_PATH, ST_TYPE_PATH, ST_TYPE_ANY]"
| "ancestors ST_TYPE_PATH = [ST_TYPE_PATH, ST_TYPE_ANY]"
| "ancestors ST_TYPE_URL = [ST_TYPE_URL, ST_TYPE_ANY]"
| "ancestors ST_TYPE_VALUE = [ST_TYPE_VALUE, ST_TYPE_ANY]"
| "ancestors ST_TYPE_SHORTOPT = [ST_TYPE_SHORTOPT, ST_TYPE_OPT, ST_TYPE_VALUE, ST_TYPE_ANY]"
| "ancestors ST_TYPE_LONGOPT = [ST_TYPE_LONGOPT, ST_TYPE_OPT, ST_TYPE_VALUE, ST_TYPE_ANY]"
| "ancestors ST_TYPE_OPT = [ST_TYPE_OPT, ST_TYPE_VALUE, ST_TYPE_ANY]"
| "ancestors ST_TYPE_UUID = [ST_TYPE_UUID, ST_TYPE_VALUE, ST_TYPE_ANY]"
| "ancestors ST_TYPE_EMAIL = [ST_TYPE_EMAIL, ST_TYPE_VALUE, ST_TYPE_ANY]"
| "ancestors ST_TYPE_HOSTNAME = [ST_TYPE_HOSTNAME, ST_TYPE_VALUE, ST_TYPE_ANY]"
| "ancestors ST_TYPE_PORT = [ST_TYPE_PORT, ST_TYPE_NUMBER, ST_TYPE_VALUE, ST_TYPE_ANY]"
| "ancestors ST_TYPE_SIZE = [ST_TYPE_SIZE, ST_TYPE_VALUE, ST_TYPE_ANY]"
| "ancestors ST_TYPE_SEMVER = [ST_TYPE_SEMVER, ST_TYPE_VALUE, ST_TYPE_ANY]"
| "ancestors ST_TYPE_TIMESTAMP = [ST_TYPE_TIMESTAMP, ST_TYPE_VALUE, ST_TYPE_ANY]"
| "ancestors ST_TYPE_HASH_ALGO = [ST_TYPE_HASH_ALGO, ST_TYPE_WORD, ST_TYPE_VALUE, ST_TYPE_ANY]"
| "ancestors ST_TYPE_ENV_VAR = [ST_TYPE_ENV_VAR, ST_TYPE_VALUE, ST_TYPE_ANY]"
| "ancestors ST_TYPE_HYPHENATED = [ST_TYPE_HYPHENATED, ST_TYPE_WORD, ST_TYPE_VALUE, ST_TYPE_ANY]"
| "ancestors ST_TYPE_BRANCH = [ST_TYPE_BRANCH, ST_TYPE_VALUE, ST_TYPE_ANY]"
| "ancestors ST_TYPE_SHA = [ST_TYPE_SHA, ST_TYPE_HEXHASH, ST_TYPE_VALUE, ST_TYPE_ANY]"
| "ancestors ST_TYPE_IMAGE = [ST_TYPE_IMAGE, ST_TYPE_VALUE, ST_TYPE_ANY]"
| "ancestors ST_TYPE_PKG = [ST_TYPE_PKG, ST_TYPE_VALUE, ST_TYPE_ANY]"
| "ancestors ST_TYPE_USER = [ST_TYPE_USER, ST_TYPE_VALUE, ST_TYPE_ANY]"
| "ancestors ST_TYPE_FINGERPRINT = [ST_TYPE_FINGERPRINT, ST_TYPE_VALUE, ST_TYPE_ANY]"
| "ancestors ST_TYPE_MAC = [ST_TYPE_MAC, ST_TYPE_VALUE, ST_TYPE_ANY]"
| "ancestors ST_TYPE_METHOD = [ST_TYPE_METHOD, ST_TYPE_WORD, ST_TYPE_VALUE, ST_TYPE_ANY]"
| "ancestors ST_TYPE_CRON = [ST_TYPE_CRON, ST_TYPE_VALUE, ST_TYPE_ANY]"
| "ancestors ST_TYPE_DURATION = [ST_TYPE_DURATION, ST_TYPE_VALUE, ST_TYPE_ANY]"
| "ancestors ST_TYPE_REGEX = [ST_TYPE_REGEX, ST_TYPE_VALUE, ST_TYPE_ANY]"
| "ancestors ST_TYPE_GLOB = [ST_TYPE_GLOB, ST_TYPE_VALUE, ST_TYPE_ANY]"
| "ancestors ST_TYPE_RANGE = [ST_TYPE_RANGE, ST_TYPE_VALUE, ST_TYPE_ANY]"
| "ancestors ST_TYPE_SIGNAL = [ST_TYPE_SIGNAL, ST_TYPE_VALUE, ST_TYPE_ANY]"
| "ancestors ST_TYPE_USER_GROUP = [ST_TYPE_USER_GROUP, ST_TYPE_VALUE, ST_TYPE_ANY]"
| "ancestors ST_TYPE_PERM_OCTAL = [ST_TYPE_PERM_OCTAL, ST_TYPE_NUMBER, ST_TYPE_VALUE, ST_TYPE_ANY]"
| "ancestors ST_TYPE_ANY = [ST_TYPE_ANY]"

definition lattice_le :: "st_token_type \<Rightarrow> st_token_type \<Rightarrow> bool" where
  "lattice_le a b \<longleftrightarrow> a = ST_TYPE_LITERAL \<or> b \<in> set (ancestors a)"

definition lattice_join :: "st_token_type \<Rightarrow> st_token_type \<Rightarrow> st_token_type" where
  "lattice_join a b =
     (if a = ST_TYPE_LITERAL then b else if b = ST_TYPE_LITERAL then a
      else hd (filter (\<lambda>c. c \<in> set (ancestors b)) (ancestors a)))"

section \<open>Enumeration facts\<close>

lemma set_all_token_types [simp]: "a \<in> set all_token_types"
  by (cases a) (simp_all add: all_token_types_def)

lemma type_index_less [simp]: "type_index a < ST_TYPE_COUNT"
  by (cases a) (simp_all add: ST_TYPE_COUNT_def)

lemma all_token_types_index [simp]: "all_token_types ! type_index a = a"
  by (cases a) (simp_all add: all_token_types_def)

lemma type_index_inject [simp]: "type_index a = type_index b \<longleftrightarrow> a = b"
  by (metis all_token_types_index)

lemma length_all_token_types [simp]: "length all_token_types = ST_TYPE_COUNT"
  by (simp add: all_token_types_def ST_TYPE_COUNT_def)

text \<open>The enumeration order, by which the code sorts wildcard children.\<close>

instantiation st_token_type :: linorder
begin

definition less_eq_st_token_type :: "st_token_type \<Rightarrow> st_token_type \<Rightarrow> bool" where
  "less_eq_st_token_type a b \<longleftrightarrow> type_index a \<le> type_index b"

definition less_st_token_type :: "st_token_type \<Rightarrow> st_token_type \<Rightarrow> bool" where
  "less_st_token_type a b \<longleftrightarrow> type_index a < type_index b"

instance
  by standard (auto simp: less_eq_st_token_type_def less_st_token_type_def simp flip: type_index_inject)

end

lemma type_index_lt_64: "type_index t < 64"
  using type_index_less [of t] by (simp add: ST_TYPE_COUNT_def)

lemma bit_type_bit_nat: "bit (type_bit a) n \<longleftrightarrow> n = type_index a"
  using type_index_lt_64 [of a] by (auto simp: type_bit_def bit_exp_iff)

lemma bit_type_bit [simp]: "bit (type_bit a) (type_index b) \<longleftrightarrow> a = b"
  by (auto simp: bit_type_bit_nat)

lemma type_mask_mem [simp]: "w AND type_bit t \<noteq> 0 \<longleftrightarrow> bit w (type_index t)"
proof
  assume "w AND type_bit t \<noteq> 0"
  then obtain n where n: "bit w n" "bit (type_bit t) n"
    by (auto simp: bit_eq_iff bit_and_iff)
  then have "n = type_index t" by (simp add: bit_type_bit_nat)
  with n show "bit w (type_index t)" by simp
next
  assume "bit w (type_index t)"
  then have "bit (w AND type_bit t) (type_index t)"
    by (simp add: bit_and_iff)
  then show "w AND type_bit t \<noteq> 0" by auto
qed

lemma bit_type_or [simp]:
  "bit (v OR w :: type_mask) (type_index t) \<longleftrightarrow> bit v (type_index t) \<or> bit w (type_index t)"
  by (simp add: bit_or_iff)

section \<open>The tables are the lattice\<close>

lemma st_type_join_table_eq:
  "st_type_join_table = map (\<lambda>a. map (lattice_join a) all_token_types) all_token_types"
  by code_simp

lemma st_type_compatible_table_eq:
  "st_type_compatible_table = map (\<lambda>a. map (lattice_le a) all_token_types) all_token_types"
  by code_simp

lemma st_join_eq: "st_join a b = lattice_join a b"
  by (simp add: st_join_def st_type_join_table_eq)

lemma st_is_compatible_eq: "st_is_compatible a b \<longleftrightarrow> lattice_le a b"
  by (simp add: st_is_compatible_def st_type_compatible_table_eq)

lemma ancestors_self [simp]: "a \<in> set (ancestors a)"
  by (cases a) simp_all

lemma hd_ancestors [simp]: "hd (ancestors a) = a"
  by (cases a) simp_all

lemma ancestors_nonempty [simp]: "ancestors a \<noteq> []"
  by (cases a) simp_all

lemma distinct_ancestors [simp]: "distinct (ancestors a)"
  by (cases a) simp_all

lemma ancestors_any: "a \<noteq> ST_TYPE_LITERAL \<Longrightarrow> ST_TYPE_ANY \<in> set (ancestors a)"
  by (cases a) simp_all

lemma literal_not_ancestor:
  "a \<noteq> ST_TYPE_LITERAL \<Longrightarrow> ST_TYPE_LITERAL \<notin> set (ancestors a)"
  by (cases a) simp_all

text \<open>A supertype's chain is a suffix of the chain: the lattice above the bottom is a tree.\<close>

lemma ancestors_dropWhile:
  "b \<in> set (ancestors a) \<Longrightarrow> dropWhile (\<lambda>c. c \<noteq> b) (ancestors a) = ancestors b"
  by (cases a) auto

lemma ancestors_suffix: "b \<in> set (ancestors a) \<Longrightarrow> \<exists>pre. ancestors a = pre @ ancestors b"
  by (metis ancestors_dropWhile takeWhile_dropWhile_id)

lemma ancestors_split:
  assumes "ancestors a = pre @ b # post"
  shows "ancestors b = b # post"
proof -
  from assms have "b \<in> set (ancestors a)" by simp
  then obtain pre' where pre': "ancestors a = pre' @ ancestors b"
    using ancestors_suffix by blast
  obtain rest where rest: "ancestors b = b # rest"
    by (metis ancestors_nonempty hd_ancestors list.collapse)
  have "distinct (ancestors a)" by simp
  then have "b \<notin> set pre" "b \<notin> set post" "b \<notin> set pre'" "b \<notin> set rest"
    unfolding atomize_conj using assms pre' rest
    by (metis disjoint_insert(1) distinct.simps(2) distinct_append inf_commute list.simps(15))
  moreover have "pre @ b # post = pre' @ b # rest"
    using assms pre' rest by simp
  ultimately have "rest = post" by (simp add: append_Cons_eq_iff)
  with rest show ?thesis by simp
qed

lemma ancestors_trans:
  "b \<in> set (ancestors a) \<Longrightarrow> c \<in> set (ancestors b) \<Longrightarrow> c \<in> set (ancestors a)"
  using ancestors_suffix [of b a] by auto

lemma ancestors_antisym:
  assumes "b \<in> set (ancestors a)" "a \<in> set (ancestors b)"
  shows "a = b"
proof -
  from assms obtain xs ys where "ancestors a = xs @ ancestors b" "ancestors b = ys @ ancestors a"
    using ancestors_suffix by metis
  then have "ancestors a = ancestors b" by simp
  then show ?thesis by (metis hd_ancestors)
qed

lemma lattice_join_common:
  assumes "a \<noteq> ST_TYPE_LITERAL" "b \<noteq> ST_TYPE_LITERAL"
  obtains pre post where "ancestors a = pre @ lattice_join a b # post"
    "lattice_join a b \<in> set (ancestors b)" "set pre \<inter> set (ancestors b) = {}"
proof -
  have "\<exists>c\<in>set (ancestors a). c \<in> set (ancestors b)"
    using assms ancestors_any by blast
  then obtain pre c post where split: "ancestors a = pre @ c # post" "c \<in> set (ancestors b)"
    "\<forall>d\<in>set pre. d \<notin> set (ancestors b)"
    using split_list_first_prop [of "ancestors a" "\<lambda>c. c \<in> set (ancestors b)"] by blast
  then have "lattice_join a b = c"
    using assms by (simp add: lattice_join_def filter_empty_conv)
  with split that show ?thesis by blast
qed

lemma lattice_le_refl: "lattice_le a a"
  by (simp add: lattice_le_def)

lemma lattice_le_trans: "lattice_le a b \<Longrightarrow> lattice_le b c \<Longrightarrow> lattice_le a c"
  using literal_not_ancestor [of a] ancestors_trans [of b a c] by (auto simp: lattice_le_def)

lemma lattice_le_antisym: "lattice_le a b \<Longrightarrow> lattice_le b a \<Longrightarrow> a = b"
  using literal_not_ancestor [of a] literal_not_ancestor [of b] ancestors_antisym [of a b]
  by (auto simp: lattice_le_def)

lemma lattice_join_upper1: "lattice_le a (lattice_join a b)"
proof (cases "a = ST_TYPE_LITERAL \<or> b = ST_TYPE_LITERAL")
  case True
  then show ?thesis by (auto simp: lattice_join_def lattice_le_def)
next
  case False
  then obtain pre post where "ancestors a = pre @ lattice_join a b # post"
    by (metis lattice_join_common)
  then show ?thesis by (simp add: lattice_le_def)
qed

lemma lattice_join_upper2: "lattice_le b (lattice_join a b)"
proof (cases "a = ST_TYPE_LITERAL \<or> b = ST_TYPE_LITERAL")
  case True
  then show ?thesis by (auto simp: lattice_join_def lattice_le_def)
next
  case False
  then have "lattice_join a b \<in> set (ancestors b)"
    by (metis lattice_join_common)
  then show ?thesis by (simp add: lattice_le_def)
qed

lemma lattice_join_least:
  assumes "lattice_le a c" "lattice_le b c"
  shows "lattice_le (lattice_join a b) c"
proof (cases "a = ST_TYPE_LITERAL \<or> b = ST_TYPE_LITERAL")
  case True
  with assms show ?thesis by (auto simp: lattice_join_def lattice_le_def)
next
  case False
  then obtain pre post where join: "ancestors a = pre @ lattice_join a b # post"
    "set pre \<inter> set (ancestors b) = {}"
    by (metis lattice_join_common)
  from False assms have "c \<in> set (ancestors a)" "c \<in> set (ancestors b)"
    by (auto simp: lattice_le_def)
  with join have "c \<in> set (lattice_join a b # post)" by auto
  then show ?thesis
    using ancestors_split [OF join(1)] by (simp add: lattice_le_def)
qed

text \<open>Join and order as tabulated form a bounded join semilattice, the library's locale.\<close>

interpretation type_lattice: bounded_semilattice_sup_bot st_join st_is_compatible
  "\<lambda>a b. st_is_compatible a b \<and> \<not> st_is_compatible b a" ST_TYPE_LITERAL
proof
  show "st_is_compatible ST_TYPE_LITERAL a" for a
    by (simp add: st_is_compatible_eq lattice_le_def)
qed (auto simp: st_is_compatible_eq st_join_eq lattice_le_refl lattice_join_upper1
    lattice_join_upper2 lattice_join_least intro: lattice_le_trans lattice_le_antisym)

section \<open>Runtime acceptance against the lattice\<close>

lemma runtime_type_matches_bit:
  "st_runtime_type_matches t w \<longleftrightarrow> bit (st_runtime_match_mask t) (type_index w)"
  by (simp add: st_runtime_type_matches_def)

lemma runtime_accepts_any [simp]: "st_runtime_type_matches t ST_TYPE_ANY"
  by (cases t) (simp_all add: runtime_type_matches_bit del: type_index.simps)

lemma runtime_accepts_literal [simp]:
  "st_runtime_type_matches t ST_TYPE_LITERAL \<longleftrightarrow> t = ST_TYPE_LITERAL"
  by (cases t) (simp_all add: runtime_type_matches_bit del: type_index.simps)

lemma runtime_matches_mono_aux:
  "st_runtime_type_matches t b \<Longrightarrow> b \<noteq> ST_TYPE_LITERAL \<Longrightarrow>
   list_all (st_runtime_type_matches t) (ancestors b)"
  by (cases t) (auto simp: runtime_type_matches_bit simp del: type_index.simps)

lemma runtime_matches_mono:
  assumes "st_runtime_type_matches t b" "st_is_compatible b a" "b \<noteq> ST_TYPE_LITERAL"
  shows "st_runtime_type_matches t a"
  using runtime_matches_mono_aux [OF assms(1,3)] assms(2,3)
  by (auto simp: st_is_compatible_eq lattice_le_def list_all_iff)

section \<open>Properties\<close>

text \<open>C5: The join table gives least upper bounds of the order table: a type is above the join
  of two types exactly when it is above both.\<close>

theorem join_is_least_upper_bound:
  "st_is_compatible (st_join a b) c \<longleftrightarrow> st_is_compatible a c \<and> st_is_compatible b c"
  by (rule type_lattice.le_sup_iff)

text \<open>C8: Both 45 by 45 tables of \<^verbatim>\<open>normalize.c\<close> are the lattice of the documented
  supertype chains: the join is the nearest common ancestor and the order is ancestry.\<close>

theorem tables_are_the_lattice:
  "st_join a b = lattice_join a b \<and> (st_is_compatible a b \<longleftrightarrow> lattice_le a b)"
  by (simp add: st_join_eq st_is_compatible_eq)

text \<open>Runtime acceptance respects the lattice: a concrete type accepted by a wildcard is
  accepted by every wildcard above it.\<close>

theorem runtime_acceptance_widens:
  assumes "st_runtime_type_matches t b" "st_is_compatible b a" "b \<noteq> ST_TYPE_LITERAL"
  shows "st_runtime_type_matches t a"
  using assms by (rule runtime_matches_mono)

theorem runtime_acceptance_widens_witness:
  "st_runtime_type_matches ST_TYPE_IPV4 ST_TYPE_VALUE"
proof (rule runtime_acceptance_widens)
  show "st_runtime_type_matches ST_TYPE_IPV4 ST_TYPE_IPADDR"
    by (simp add: runtime_type_matches_bit del: type_index.simps)
  show "st_is_compatible ST_TYPE_IPADDR ST_TYPE_VALUE"
    by (simp add: st_is_compatible_eq lattice_le_def)
qed simp

end
