(* ===== verification/Metadata.thy ===== *)
theory Metadata imports Ascii Lattice begin

text \<open>
  The closed metadata vocabulary of parametrised wildcards, from
  \<^verbatim>\<open>shelltype/src/metadata.h\<close>: the identifiers, the table of spellings, the
  lookups, and the derivation of a value's identifier from its text. \<^verbatim>\<open>NULL\<close> results
  are \<open>None\<close>. Spans are byte lists; the C-string adapters go through \<open>cstr\<close>.
\<close>

datatype st_metadata_id =
  ST_META_NONE
| ST_META_SIZE_K | ST_META_SIZE_M | ST_META_SIZE_G | ST_META_SIZE_T
| ST_META_SIZE_KI | ST_META_SIZE_MI | ST_META_SIZE_GI | ST_META_SIZE_TI
| ST_META_SIZE_KB | ST_META_SIZE_MB | ST_META_SIZE_GB | ST_META_SIZE_TB
| ST_META_SIZE_B | ST_META_SIZE_BYTES
| ST_META_SIZE_KIB | ST_META_SIZE_MIB | ST_META_SIZE_GIB | ST_META_SIZE_TIB
| ST_META_UUID_V4 | ST_META_UUID_V5
| ST_META_SEMVER_MAJOR | ST_META_SEMVER_MINOR | ST_META_SEMVER_PATCH | ST_META_SEMVER_ANY
| ST_META_TIMESTAMP_DATE | ST_META_TIMESTAMP_TIME | ST_META_TIMESTAMP_DATETIME
| ST_META_SHA_SHORT | ST_META_SHA_40 | ST_META_SHA_64
| ST_META_FINGERPRINT_SHA256 | ST_META_FINGERPRINT_MD5
| ST_META_DURATION_NS | ST_META_DURATION_US | ST_META_DURATION_MS | ST_META_DURATION_S
| ST_META_DURATION_M | ST_META_DURATION_H | ST_META_DURATION_D | ST_META_DURATION_W
| ST_META_RANGE_STEP | ST_META_PERM_BITS

record st_metadata_entry =
  me_id :: st_metadata_id
  me_type :: st_token_type
  me_name :: bytes
  me_alias :: "bytes option"

definition meta_entry ::
    "st_metadata_id \<Rightarrow> st_token_type \<Rightarrow> bytes \<Rightarrow> bytes option \<Rightarrow> st_metadata_entry" where
  "meta_entry i t n a = \<lparr>me_id = i, me_type = t, me_name = n, me_alias = a\<rparr>"

definition st_metadata_entries :: "st_metadata_entry list" where
  "st_metadata_entries =
    [meta_entry ST_META_SIZE_K ST_TYPE_SIZE ''K'' None,
     meta_entry ST_META_SIZE_M ST_TYPE_SIZE ''M'' None,
     meta_entry ST_META_SIZE_G ST_TYPE_SIZE ''G'' None,
     meta_entry ST_META_SIZE_T ST_TYPE_SIZE ''T'' None,
     meta_entry ST_META_SIZE_KI ST_TYPE_SIZE ''Ki'' None,
     meta_entry ST_META_SIZE_MI ST_TYPE_SIZE ''Mi'' None,
     meta_entry ST_META_SIZE_GI ST_TYPE_SIZE ''Gi'' None,
     meta_entry ST_META_SIZE_TI ST_TYPE_SIZE ''Ti'' None,
     meta_entry ST_META_SIZE_KB ST_TYPE_SIZE ''KB'' None,
     meta_entry ST_META_SIZE_MB ST_TYPE_SIZE ''MB'' None,
     meta_entry ST_META_SIZE_GB ST_TYPE_SIZE ''GB'' None,
     meta_entry ST_META_SIZE_TB ST_TYPE_SIZE ''TB'' None,
     meta_entry ST_META_SIZE_B ST_TYPE_SIZE ''B'' (Some ''b''),
     meta_entry ST_META_SIZE_BYTES ST_TYPE_SIZE ''bytes'' None,
     meta_entry ST_META_SIZE_KIB ST_TYPE_SIZE ''KiB'' None,
     meta_entry ST_META_SIZE_MIB ST_TYPE_SIZE ''MiB'' None,
     meta_entry ST_META_SIZE_GIB ST_TYPE_SIZE ''GiB'' None,
     meta_entry ST_META_SIZE_TIB ST_TYPE_SIZE ''TiB'' None,
     meta_entry ST_META_UUID_V4 ST_TYPE_UUID ''v4'' (Some ''4''),
     meta_entry ST_META_UUID_V5 ST_TYPE_UUID ''v5'' (Some ''5''),
     meta_entry ST_META_SEMVER_MAJOR ST_TYPE_SEMVER ''major'' None,
     meta_entry ST_META_SEMVER_MINOR ST_TYPE_SEMVER ''minor'' None,
     meta_entry ST_META_SEMVER_PATCH ST_TYPE_SEMVER ''patch'' None,
     meta_entry ST_META_SEMVER_ANY ST_TYPE_SEMVER ''*'' None,
     meta_entry ST_META_TIMESTAMP_DATE ST_TYPE_TIMESTAMP ''date'' None,
     meta_entry ST_META_TIMESTAMP_TIME ST_TYPE_TIMESTAMP ''time'' None,
     meta_entry ST_META_TIMESTAMP_DATETIME ST_TYPE_TIMESTAMP ''datetime'' None,
     meta_entry ST_META_SHA_SHORT ST_TYPE_SHA ''short'' None,
     meta_entry ST_META_SHA_40 ST_TYPE_SHA ''40'' None,
     meta_entry ST_META_SHA_64 ST_TYPE_SHA ''64'' None,
     meta_entry ST_META_FINGERPRINT_SHA256 ST_TYPE_FINGERPRINT ''sha256'' None,
     meta_entry ST_META_FINGERPRINT_MD5 ST_TYPE_FINGERPRINT ''md5'' None,
     meta_entry ST_META_DURATION_NS ST_TYPE_DURATION ''ns'' None,
     meta_entry ST_META_DURATION_US ST_TYPE_DURATION ''us'' None,
     meta_entry ST_META_DURATION_MS ST_TYPE_DURATION ''ms'' None,
     meta_entry ST_META_DURATION_S ST_TYPE_DURATION ''s'' None,
     meta_entry ST_META_DURATION_M ST_TYPE_DURATION ''m'' None,
     meta_entry ST_META_DURATION_H ST_TYPE_DURATION ''h'' None,
     meta_entry ST_META_DURATION_D ST_TYPE_DURATION ''d'' None,
     meta_entry ST_META_DURATION_W ST_TYPE_DURATION ''w'' None,
     meta_entry ST_META_RANGE_STEP ST_TYPE_RANGE ''step'' None,
     meta_entry ST_META_PERM_BITS ST_TYPE_PERM_OCTAL ''bits'' None]"

definition st_metadata_requires_value :: "st_metadata_entry \<Rightarrow> bool" where
  "st_metadata_requires_value m \<longleftrightarrow>
     me_type m \<noteq> ST_TYPE_SEMVER \<and> me_type m \<noteq> ST_TYPE_RANGE \<and> me_type m \<noteq> ST_TYPE_PERM_OCTAL"

text \<open>The first entry of the type whose name or alias equals the span, case aside.\<close>

definition st_metadata_lookup_span :: "st_token_type \<Rightarrow> bytes \<Rightarrow> st_metadata_entry option" where
  "st_metadata_lookup_span t name =
     List.find (\<lambda>e. me_type e = t \<and>
       (shell_ascii_equal_ci name (me_name e) \<or>
        (case me_alias e of None \<Rightarrow> False | Some a \<Rightarrow> shell_ascii_equal_ci name a)))
       st_metadata_entries"

definition st_metadata_lookup :: "st_token_type \<Rightarrow> bytes \<Rightarrow> st_metadata_entry option" where
  "st_metadata_lookup t name = st_metadata_lookup_span t (cstr name)"

definition metadata_number_char :: "char \<Rightarrow> bool" where
  "metadata_number_char c \<longleftrightarrow> shell_ascii_digit c \<or> c = CHR ''.''"

fun st_metadata_value_id :: "st_token_type \<Rightarrow> bytes \<Rightarrow> st_metadata_id" where
  "st_metadata_value_id t text =
     (if NUL \<in> set text then ST_META_NONE
      else if t = ST_TYPE_SIZE \<or> t = ST_TYPE_DURATION then
        (let unsigned = (if text \<noteq> [] \<and> hd text = CHR ''-'' then tl text else text);
             suffix = dropWhile metadata_number_char unsigned in
         case st_metadata_lookup_span t suffix of
           None \<Rightarrow> ST_META_NONE | Some m \<Rightarrow> me_id m)
      else if t = ST_TYPE_UUID then
        (if text ! 14 = CHR ''4'' then ST_META_UUID_V4
         else if text ! 14 = CHR ''5'' then ST_META_UUID_V5 else ST_META_NONE)
      else if t = ST_TYPE_TIMESTAMP then
        (if length text = 10 then ST_META_TIMESTAMP_DATE
         else if length text = 8 then ST_META_TIMESTAMP_TIME else ST_META_TIMESTAMP_DATETIME)
      else if t = ST_TYPE_SHA then
        (if length text = 7 then ST_META_SHA_SHORT
         else if length text = 40 then ST_META_SHA_40
         else if length text = 64 then ST_META_SHA_64 else ST_META_NONE)
      else if t = ST_TYPE_FINGERPRINT then
        (if length text = 50 then ST_META_FINGERPRINT_SHA256 else ST_META_FINGERPRINT_MD5)
      else if t = ST_TYPE_RANGE then ST_META_RANGE_STEP
      else if t = ST_TYPE_PERM_OCTAL then ST_META_PERM_BITS
      else ST_META_NONE)"

declare st_metadata_value_id.simps [simp del]

definition st_type_supports_metadata :: "st_token_type \<Rightarrow> bool" where
  "st_type_supports_metadata t \<longleftrightarrow> list_ex (\<lambda>e. me_type e = t) st_metadata_entries"

text \<open>The text is a C string here: \<open>text ! n\<close> past its end is its terminator.\<close>

definition st_wildcard_metadata ::
    "bytes option \<Rightarrow> st_token_type \<Rightarrow> st_metadata_entry option" where
  "st_wildcard_metadata wild_text wild_type =
     (case wild_text of
        None \<Rightarrow> None
      | Some text \<Rightarrow>
          (if \<not> st_type_supports_metadata wild_type then None
           else let s = cstr text; symbol = st_type_symbol wild_type; n = length symbol in
             if take n s \<noteq> symbol \<or> drop n s = [] \<or> s ! n \<noteq> CHR ''.'' then None
             else st_metadata_lookup wild_type (drop (n + 1) s)))"

definition st_wildcard_metadata_span ::
    "bytes \<Rightarrow> st_token_type \<Rightarrow> st_metadata_entry option" where
  "st_wildcard_metadata_span text wild_type =
     (let n = length (st_type_symbol wild_type) in
      if length text = n then None
      else st_metadata_lookup_span wild_type (drop (n + 1) text))"

section \<open>The table and its lookups\<close>

lemma find_Some_mem: "List.find P xs = Some x \<Longrightarrow> x \<in> set xs \<and> P x"
  by (auto simp: find_Some_iff)

lemma lookup_span_entry:
  assumes "st_metadata_lookup_span t name = Some m"
  shows "m \<in> set st_metadata_entries" "me_type m = t"
  using find_Some_mem assms unfolding st_metadata_lookup_span_def by fastforce+

text \<open>The metadata id determines the entry, hence its type.\<close>

lemma metadata_ids_distinct: "distinct (map me_id st_metadata_entries)"
  by (simp add: st_metadata_entries_def meta_entry_def)

lemma metadata_entry_id_inject:
  "m \<in> set st_metadata_entries \<Longrightarrow> m' \<in> set st_metadata_entries \<Longrightarrow> me_id m = me_id m' \<Longrightarrow> m = m'"
  using metadata_ids_distinct by (auto simp: distinct_map inj_on_def)

lemma fold_upper: "shell_ascii_fold c = (if ord c \<ge> 65 \<and> ord c \<le> 90 then char_of (ord c + 32) else c)"
  by (simp add: shell_ascii_fold_def less_eq_char_def)

text \<open>Every entry is found again under its canonical name: no earlier entry of the same type
  shadows it, case aside.\<close>

lemma metadata_entries_found:
  "list_all (\<lambda>m. st_metadata_lookup_span (me_type m) (me_name m) = Some m) st_metadata_entries"
  by (simp add: st_metadata_entries_def meta_entry_def st_metadata_lookup_span_def fold_upper char_of_def)

lemma metadata_lookup_name:
  "m \<in> set st_metadata_entries \<Longrightarrow> st_metadata_lookup_span (me_type m) (me_name m) = Some m"
  using metadata_entries_found by (simp add: list_all_iff)

lemma metadata_names_plain:
  "list_all (\<lambda>m. NUL \<notin> set (me_name m) \<and> CHR ''.'' \<notin> set (me_name m) \<and> me_name m \<noteq> [] \<and>
     length (st_type_symbol (me_type m)) + length (me_name m) + 1 < ST_MAX_TOKEN_LEN)
     st_metadata_entries"
  by (simp add: st_metadata_entries_def meta_entry_def ST_MAX_TOKEN_LEN_def)

lemma metadata_name_plain:
  assumes "m \<in> set st_metadata_entries"
  shows "NUL \<notin> set (me_name m)" "me_name m \<noteq> []"
    "length (st_type_symbol (me_type m)) + length (me_name m) + 1 < ST_MAX_TOKEN_LEN"
  using metadata_names_plain assms by (auto simp: list_all_iff)

end
