(* ===== verification/Classify.thy ===== *)
theory Classify imports Metadata begin

text \<open>
  The token classifier of \<^verbatim>\<open>shelltype/src/normalize.c\<close>: one recogniser per concrete
  type, over the bytes of a token, and the priority chain that combines them. Each recogniser
  keeps the code's loop: indices that only move forward are recursion on the remaining bytes.
\<close>

section \<open>Span helpers\<close>

type_synonym st_text_span = bytes

definition span_eq :: "st_text_span \<Rightarrow> bytes \<Rightarrow> bool" where
  "span_eq text literal \<longleftrightarrow> text = literal"

definition span_eq_ci :: "st_text_span \<Rightarrow> bytes \<Rightarrow> bool" where
  "span_eq_ci text literal \<longleftrightarrow> shell_ascii_equal_ci text literal"

definition span_starts :: "st_text_span \<Rightarrow> bytes \<Rightarrow> bool" where
  "span_starts text literal \<longleftrightarrow>
     length text \<ge> length literal \<and> take (length literal) text = literal"

text \<open>\<^verbatim>\<open>memchr\<close>: the index of the first occurrence.\<close>

fun span_find :: "st_text_span \<Rightarrow> char \<Rightarrow> nat option" where
  "span_find [] needle = None"
| "span_find (c # s) needle = (if c = needle then Some 0 else map_option Suc (span_find s needle))"

definition span_has :: "st_text_span \<Rightarrow> char \<Rightarrow> bool" where
  "span_has text needle \<longleftrightarrow> span_find text needle \<noteq> None"

fun span_has_pair :: "st_text_span \<Rightarrow> char \<Rightarrow> char \<Rightarrow> bool" where
  "span_has_pair (x # y # s) a b = (x = a \<and> y = b \<or> span_has_pair (y # s) a b)"
| "span_has_pair _ a b = False"

definition span_all_ascii :: "st_text_span \<Rightarrow> (char \<Rightarrow> bool) \<Rightarrow> bool" where
  "span_all_ascii text predicate \<longleftrightarrow> list_all predicate text"

lemma span_has_iff [simp]: "span_has s c \<longleftrightarrow> c \<in> set s"
  by (induction s) (auto simp: span_has_def)

lemma span_find_None_iff [simp]: "span_find s c = None \<longleftrightarrow> c \<notin> set s"
  by (induction s) auto

lemma span_find_Some:
  "span_find s c = Some i \<Longrightarrow> i < length s \<and> s ! i = c \<and> c \<notin> set (take i s)"
  by (induction s arbitrary: i) (auto split: if_splits)

section \<open>Numbers, addresses and identifiers\<close>

definition span_is_decimal_number :: "st_text_span \<Rightarrow> bool" where
  "span_is_decimal_number token \<longleftrightarrow>
     (if token = [] then False
      else let digits = (if hd token = CHR ''-'' then tl token else token) in
        if digits = [] then False else list_all shell_ascii_digit digits)"

definition span_is_hex_number :: "st_text_span \<Rightarrow> bool" where
  "span_is_hex_number token \<longleftrightarrow>
     length token > 2 \<and> token ! 0 = CHR ''0'' \<and> (token ! 1 = CHR ''x'' \<or> token ! 1 = CHR ''X'') \<and>
     span_all_ascii (drop 2 token) shell_ascii_xdigit"

fun hex_hash_loop :: "bool \<Rightarrow> st_text_span \<Rightarrow> bool" where
  "hex_hash_loop has_alpha [] = has_alpha"
| "hex_hash_loop has_alpha (c # s) =
     (if \<not> shell_ascii_xdigit c then False else hex_hash_loop (has_alpha \<or> shell_ascii_alpha c) s)"

definition span_is_hex_hash :: "st_text_span \<Rightarrow> bool" where
  "span_is_hex_hash token \<longleftrightarrow> (if length token < 8 then False else hex_hash_loop False token)"

text \<open>The digits of one IPv4 segment: what follows them, unless there are more than three or
  the value exceeds 255.\<close>

fun ipv4_digits :: "nat \<Rightarrow> nat \<Rightarrow> st_text_span \<Rightarrow> st_text_span option" where
  "ipv4_digits value digits [] = Some []"
| "ipv4_digits value digits (c # s) =
     (if \<not> shell_ascii_digit c then Some (c # s)
      else let value' = value * 10 + digit_value c; digits' = digits + 1 in
        if digits' > 3 \<or> value' > 255 then None else ipv4_digits value' digits' s)"

fun ipv4_segments :: "nat \<Rightarrow> st_text_span \<Rightarrow> bool" where
  "ipv4_segments 0 s = (s = [])"
| "ipv4_segments (Suc left) s =
     (if s = [] \<or> \<not> shell_ascii_digit (hd s) then False
      else case ipv4_digits 0 0 s of
        None \<Rightarrow> False
      | Some r \<Rightarrow>
          (if left = 0 then ipv4_segments 0 r
           else if r = [] \<or> hd r \<noteq> CHR ''.'' then False else ipv4_segments left (tl r)))"

definition span_is_ipv4 :: "st_text_span \<Rightarrow> bool" where
  "span_is_ipv4 token = ipv4_segments 4 token"

fun mac_loop :: "nat \<Rightarrow> char \<Rightarrow> st_text_span \<Rightarrow> bool" where
  "mac_loop i separator [] = True"
| "mac_loop i separator (c # s) =
     (if i mod 3 \<noteq> 2 then (if \<not> shell_ascii_xdigit c then False else mac_loop (i + 1) separator s)
      else if separator = NUL then
        (if c \<noteq> CHR '':'' \<and> c \<noteq> CHR ''-'' then False else mac_loop (i + 1) c s)
      else if c \<noteq> separator then False else mac_loop (i + 1) separator s)"

definition span_is_mac :: "st_text_span \<Rightarrow> bool" where
  "span_is_mac token \<longleftrightarrow> (if length token \<noteq> 17 then False else mac_loop 0 NUL token)"

definition http_methods :: "bytes list" where
  "http_methods =
    [''GET'', ''POST'', ''PUT'', ''DELETE'', ''PATCH'', ''HEAD'',
     ''OPTIONS'', ''TRACE'', ''CONNECT'', ''COPY'', ''LOCK'', ''MKCOL'',
     ''MOVE'', ''PROPFIND'', ''PROPPATCH'', ''UNLOCK'', ''REPORT'', ''MKACTIVITY'',
     ''CHECKOUT'', ''MERGE'', ''M-SEARCH'', ''NOTIFY'', ''SUBSCRIBE'', ''UNSUBSCRIBE'',
     ''PURGE'']"

definition span_is_http_method :: "st_text_span \<Rightarrow> bool" where
  "span_is_http_method token \<longleftrightarrow> list_ex (span_eq token) http_methods"

fun cron_loop :: "bool \<Rightarrow> st_text_span \<Rightarrow> bool" where
  "cron_loop has_digit_or_star [] = has_digit_or_star"
| "cron_loop has_digit_or_star (c # s) =
     (if shell_ascii_digit c \<or> c = CHR ''*'' then cron_loop True s
      else if c \<noteq> CHR ''-'' \<and> c \<noteq> CHR '','' \<and> c \<noteq> CHR ''/'' then False
      else cron_loop has_digit_or_star s)"

definition span_is_cron_like :: "st_text_span \<Rightarrow> bool" where
  "span_is_cron_like token \<longleftrightarrow> (if token = [] then False else cron_loop False token)"

section \<open>Paths, options and URLs\<close>

definition span_is_absolute_path :: "st_text_span \<Rightarrow> bool" where
  "span_is_absolute_path token \<longleftrightarrow> length token > 1 \<and> token ! 0 = CHR ''/''"

definition span_is_relative_path :: "st_text_span \<Rightarrow> bool" where
  "span_is_relative_path token \<longleftrightarrow>
     token \<noteq> [] \<and> hd token \<noteq> CHR ''/'' \<and>
     (span_has_pair token CHR ''.'' CHR ''.'' \<or> span_has token CHR ''/'')"

definition span_is_filename :: "st_text_span \<Rightarrow> bool" where
  "span_is_filename token \<longleftrightarrow>
     \<not> span_has token CHR ''/'' \<and> span_has token CHR ''.'' \<and> \<not> span_has token CHR ''-''"

definition span_has_whitespace :: "st_text_span \<Rightarrow> bool" where
  "span_has_whitespace token \<longleftrightarrow> list_ex shell_ascii_space token"

definition span_is_short_option :: "st_text_span \<Rightarrow> bool" where
  "span_is_short_option token \<longleftrightarrow>
     (if length token < 2 \<or> token ! 0 \<noteq> CHR ''-'' \<or> token ! 1 = CHR ''-'' then False
      else span_all_ascii (drop 1 token) shell_ascii_alnum)"

definition span_is_long_option :: "st_text_span \<Rightarrow> bool" where
  "span_is_long_option token \<longleftrightarrow>
     (if length token < 3 \<or> token ! 0 \<noteq> CHR ''-'' \<or> token ! 1 \<noteq> CHR ''-'' then False
      else list_all (\<lambda>c. shell_ascii_alnum c \<or> c = CHR ''-'' \<or> c = CHR ''='') (drop 2 token))"

definition span_is_url :: "st_text_span \<Rightarrow> bool" where
  "span_is_url token \<longleftrightarrow>
     (case span_find token CHR '':'' of
        None \<Rightarrow> False
      | Some scheme_length \<Rightarrow>
          (if scheme_length = 0 \<or> scheme_length + 2 \<ge> length token \<or>
              token ! (scheme_length + 1) \<noteq> CHR ''/'' \<or> token ! (scheme_length + 2) \<noteq> CHR ''/'' \<or>
              \<not> shell_ascii_alpha (token ! 0)
           then False
           else list_all (\<lambda>c. shell_ascii_alnum c \<or> c = CHR ''+'' \<or> c = CHR ''-'' \<or> c = CHR ''.'')
             (drop 1 (take scheme_length token))))"

text \<open>The hyphen-separated hexadecimal groups of a UUID.\<close>

fun uuid_groups :: "nat list \<Rightarrow> st_text_span \<Rightarrow> bool" where
  "uuid_groups [] s = True"
| "uuid_groups (n # groups) s =
     (if \<not> list_all shell_ascii_xdigit (take n s) then False
      else if groups \<noteq> [] \<and> s ! n \<noteq> CHR ''-'' then False
      else uuid_groups groups (drop (n + 1) s))"

definition span_is_uuid :: "st_text_span \<Rightarrow> bool" where
  "span_is_uuid token \<longleftrightarrow>
     (if length token \<noteq> 36 then False else uuid_groups [8, 4, 4, 4, 12] token)"

definition email_local_char :: "char \<Rightarrow> bool" where
  "email_local_char c \<longleftrightarrow> shell_ascii_alnum c \<or>
     c = CHR ''.'' \<or> c = CHR ''_'' \<or> c = CHR ''-'' \<or> c = CHR ''+''"

definition email_domain_char :: "char \<Rightarrow> bool" where
  "email_domain_char c \<longleftrightarrow> shell_ascii_alnum c \<or> c = CHR ''.'' \<or> c = CHR ''-''"

definition span_is_email :: "st_text_span \<Rightarrow> bool" where
  "span_is_email token \<longleftrightarrow>
     (case span_find token CHR ''@'' of
        None \<Rightarrow> False
      | Some at_index \<Rightarrow>
          (if at_index = 0 \<or> at_index + 1 = length token then False
           else list_all email_local_char (take at_index token) \<and>
             list_all email_domain_char (drop (at_index + 1) token) \<and>
             list_ex (\<lambda>c. c = CHR ''.'') (drop (at_index + 1) token)))"

definition known_tlds :: "bytes list" where
  "known_tlds =
    [''com'', ''org'', ''net'', ''edu'', ''gov'', ''mil'', ''io'', ''co'',
     ''dev'', ''app'', ''cloud'', ''local'', ''int'', ''biz'', ''info'']"

text \<open>The scan of a hostname: the previous byte, whether a dot was seen, whether a hyphen stood
  before a dot, and the label after the last dot.\<close>

fun hostname_scan ::
    "char option \<Rightarrow> bool \<Rightarrow> bool \<Rightarrow> bytes \<Rightarrow> st_text_span \<Rightarrow> (bool \<times> bool \<times> bytes) option" where
  "hostname_scan prev has_dot hyphen_dot tld [] = Some (has_dot, hyphen_dot, tld)"
| "hostname_scan prev has_dot hyphen_dot tld (c # s) =
     (if c = CHR ''-'' then
        (let hyphen_dot' = hyphen_dot \<or> s \<noteq> [] \<and> hd s = CHR ''.'' in
         if prev = Some CHR ''-'' then None
         else hostname_scan (Some c) has_dot hyphen_dot' tld s)
      else if c = CHR ''.'' then
        (if prev = Some CHR ''.'' then None else hostname_scan (Some c) True hyphen_dot s s)
      else if \<not> shell_ascii_alnum c then None
      else hostname_scan (Some c) has_dot hyphen_dot tld s)"

definition span_is_hostname :: "st_text_span \<Rightarrow> bool" where
  "span_is_hostname token \<longleftrightarrow>
     (if token = [] \<or> hd token = CHR ''-'' \<or> last token = CHR ''-'' \<or>
         \<not> shell_ascii_alnum (hd token) \<or> \<not> shell_ascii_alnum (last token) then False
      else case hostname_scan None False False [] token of
        None \<Rightarrow> False
      | Some (has_dot, has_hyphen_before_dot, tld) \<Rightarrow>
          (if \<not> has_dot then False
           else if has_hyphen_before_dot then True
           else list_ex (span_eq_ci tld) known_tlds))"

section \<open>Quantities, versions and times\<close>

fun duration_number :: "bool \<Rightarrow> bool \<Rightarrow> st_text_span \<Rightarrow> (bool \<times> st_text_span) option" where
  "duration_number has_digit has_dot [] = Some (has_digit, [])"
| "duration_number has_digit has_dot (c # s) =
     (if c = CHR ''.'' then (if has_dot then None else duration_number has_digit True s)
      else if shell_ascii_digit c then duration_number True has_dot s
      else Some (has_digit, c # s))"

definition duration_suffixes :: "bytes list" where
  "duration_suffixes = [''ns'', ''us'', ''ms'', ''s'', ''m'', ''h'', ''d'', ''w'']"

definition span_is_duration :: "st_text_span \<Rightarrow> bool" where
  "span_is_duration token \<longleftrightarrow>
     (if length token < 2 then False
      else case duration_number False False (if hd token = CHR ''-'' then tl token else token) of
        None \<Rightarrow> False
      | Some (has_digit, suffix) \<Rightarrow>
          (if \<not> has_digit \<or> suffix = [] then False
           else list_ex (span_eq_ci suffix) duration_suffixes))"

fun size_number :: "bool \<Rightarrow> bool \<Rightarrow> st_text_span \<Rightarrow> (bool \<times> st_text_span) option" where
  "size_number has_dot has_digit [] = Some (has_digit, [])"
| "size_number has_dot has_digit (c # s) =
     (if c = CHR ''.'' then
        (if has_dot \<or> s = [] \<or> \<not> shell_ascii_digit (hd s) then None else size_number True has_digit s)
      else if shell_ascii_digit c then size_number has_dot True s
      else Some (has_digit, c # s))"

definition size_suffixes :: "bytes list" where
  "size_suffixes =
    [''Ki'', ''Mi'', ''Gi'', ''Ti'', ''K'', ''M'', ''G'', ''T'', ''KB'', ''MB'',
     ''GB'', ''TB'', ''bytes'', ''b'', ''KiB'', ''MiB'', ''GiB'', ''TiB'', ''B'']"

definition span_is_size :: "st_text_span \<Rightarrow> bool" where
  "span_is_size token \<longleftrightarrow>
     (if length token < 2 then False
      else case size_number False False token of
        None \<Rightarrow> False
      | Some (has_digit, suffix) \<Rightarrow>
          (if \<not> has_digit \<or> suffix = [] then False
           else list_ex (span_eq suffix) size_suffixes))"

text \<open>The position is returned as the bytes from it on.\<close>

definition span_parse_semver_number :: "st_text_span \<Rightarrow> st_text_span option" where
  "span_parse_semver_number s =
     (if s = [] \<or> \<not> shell_ascii_digit (hd s) then None
      else let rest = dropWhile shell_ascii_digit s in
        if hd s \<noteq> CHR ''0'' \<or> length s = length rest + 1 then Some rest else None)"

definition semver_id_char :: "char \<Rightarrow> bool" where
  "semver_id_char c \<longleftrightarrow> shell_ascii_alnum c \<or> c = CHR ''-''"

function span_parse_semver_identifiers :: "st_text_span \<Rightarrow> bool \<Rightarrow> st_text_span option" where
  "span_parse_semver_identifiers s reject_numeric_leading_zero =
     (let ident = takeWhile semver_id_char s; rest = dropWhile semver_id_char s;
          numeric = list_all shell_ascii_digit ident in
      if ident = [] \<or>
         reject_numeric_leading_zero \<and> numeric \<and> hd ident = CHR ''0'' \<and> length ident \<noteq> 1
      then None
      else if rest = [] \<or> hd rest \<noteq> CHR ''.'' then Some rest
      else span_parse_semver_identifiers (tl rest) reject_numeric_leading_zero)"
  by pat_completeness auto
termination
proof (relation "measure (\<lambda>(s, _). length s)", goal_cases)
  case (2 s b ident rest numeric)
  then have "length rest \<le> length s" "rest \<noteq> []" by (simp_all add: length_dropWhile_le)
  then show ?case by (cases rest) auto
qed simp

declare span_parse_semver_identifiers.simps [simp del]

definition semver_dot :: "st_text_span \<Rightarrow> st_text_span option" where
  "semver_dot s = (if s = [] \<or> hd s \<noteq> CHR ''.'' then None else Some (tl s))"

definition semver_optional :: "char \<Rightarrow> bool \<Rightarrow> st_text_span \<Rightarrow> st_text_span option" where
  "semver_optional mark reject s =
     (if s \<noteq> [] \<and> hd s = mark then span_parse_semver_identifiers (tl s) reject else Some s)"

definition span_is_semver :: "st_text_span \<Rightarrow> bool" where
  "span_is_semver token \<longleftrightarrow>
     (if length token < 3 then False
      else Option.bind (span_parse_semver_number token) (\<lambda>s.
           Option.bind (semver_dot s) (\<lambda>s.
           Option.bind (span_parse_semver_number s) (\<lambda>s.
           Option.bind (semver_dot s) (\<lambda>s.
           Option.bind (span_parse_semver_number s) (\<lambda>s.
           Option.bind (semver_optional CHR ''-'' True s) (\<lambda>s.
           semver_optional CHR ''+'' False s)))))) = Some [])"

definition span_parse_digits :: "st_text_span \<Rightarrow> nat \<Rightarrow> nat \<Rightarrow> nat option" where
  "span_parse_digits token position count =
     (if position > length token \<or> count > length token - position then None
      else let digits = take count (drop position token) in
        if \<not> list_all shell_ascii_digit digits then None
        else Some (foldl (\<lambda>v c. v * 10 + digit_value c) 0 digits))"

definition days_per_month :: "nat list" where
  "days_per_month = [31, 28, 31, 30, 31, 30, 31, 31, 30, 31, 30, 31]"

definition leap_year :: "nat \<Rightarrow> bool" where
  "leap_year year \<longleftrightarrow> (year mod 4 = 0 \<and> year mod 100 \<noteq> 0) \<or> year mod 400 = 0"

definition timestamp_date_ok :: "st_text_span \<Rightarrow> bool" where
  "timestamp_date_ok token \<longleftrightarrow>
     (case (span_parse_digits token 0 4, span_parse_digits token 5 2, span_parse_digits token 8 2) of
        (Some year, Some month, Some day) \<Rightarrow>
          (if year = 0 \<or> month < 1 \<or> month > 12 then False
           else let max_day = days_per_month ! (month - 1) +
                      (if month = 2 \<and> leap_year year then 1 else 0)
             in \<not> (day < 1 \<or> day > max_day))
      | _ \<Rightarrow> False)"

definition timestamp_clock_ok :: "st_text_span \<Rightarrow> nat \<Rightarrow> bool" where
  "timestamp_clock_ok token at =
     (case (span_parse_digits token at 2, span_parse_digits token (at + 3) 2,
            span_parse_digits token (at + 6) 2) of
        (Some hour, Some minute, Some second) \<Rightarrow> hour \<le> 23 \<and> minute \<le> 59 \<and> second \<le> 59
      | _ \<Rightarrow> False)"

definition timestamp_zone_ok :: "st_text_span \<Rightarrow> bool" where
  "timestamp_zone_ok token \<longleftrightarrow>
     (let zone_length = length token - 19 in
      if zone_length = 0 then True
      else if zone_length = 1 \<and> (token ! 19 = CHR ''Z'' \<or> token ! 19 = CHR ''z'') then True
      else if (token ! 19 \<noteq> CHR ''+'' \<and> token ! 19 \<noteq> CHR ''-'') \<or>
              (zone_length \<noteq> 5 \<and> zone_length \<noteq> 6) \<or>
              (zone_length = 6 \<and> token ! 22 \<noteq> CHR '':'') then False
      else case (span_parse_digits token 20 2,
                 span_parse_digits token (if zone_length = 6 then 23 else 22) 2) of
        (Some hour, Some minute) \<Rightarrow> hour \<le> 23 \<and> minute \<le> 59
      | _ \<Rightarrow> False)"

definition span_is_timestamp :: "st_text_span \<Rightarrow> bool" where
  "span_is_timestamp token \<longleftrightarrow>
     (if length token < 8 then False
      else let has_date = (length token \<ge> 10 \<and> token ! 4 = CHR ''-'' \<and> token ! 7 = CHR ''-'') in
        if has_date \<and> \<not> timestamp_date_ok token then False
        else if length token \<ge> 19 \<and> has_date \<and>
             (token ! 10 = CHR ''T'' \<or> token ! 10 = CHR ''t'' \<or> token ! 10 = CHR '' '') \<and>
             token ! 13 = CHR '':'' \<and> token ! 16 = CHR '':''
        then (if \<not> timestamp_clock_ok token 11 then False else timestamp_zone_ok token)
        else if length token = 10 \<and> has_date then True
        else if length token = 8 \<and> token ! 2 = CHR '':'' \<and> token ! 5 = CHR '':''
        then timestamp_clock_ok token 0
        else False)"


section \<open>IPv6\<close>

lemma tl_dropWhile_shorter: "s \<noteq> [] \<Longrightarrow> length (tl (dropWhile P s)) < length s"
  using length_dropWhile_le [of P s] by (cases s; cases "dropWhile P s") auto

text \<open>The groups of an address from the cursor on: the group count and whether a
  \<^verbatim>\<open>::\<close> was seen, or \<open>None\<close> for a malformed one. The embedded IPv4 form
  ends the scan.\<close>

function ipv6_groups :: "nat \<Rightarrow> bool \<Rightarrow> st_text_span \<Rightarrow> (nat \<times> bool) option" where
  "ipv6_groups groups compressed s =
     (if s = [] then Some (groups, compressed)
      else let digits = length (takeWhile shell_ascii_xdigit s); r = dropWhile shell_ascii_xdigit s in
        if r \<noteq> [] \<and> hd r = CHR ''.'' then
          (if \<not> span_is_ipv4 s \<or> groups > 6 then None else Some (groups + 2, compressed))
        else if digits = 0 \<or> digits > 4 \<or> groups = 8 then None
        else if r = [] then Some (groups + 1, compressed)
        else if hd r \<noteq> CHR '':'' then None
        else let r' = tl r in
          if r' \<noteq> [] \<and> hd r' = CHR '':'' then
            (if compressed then None
             else if tl r' = [] then Some (groups + 1, True)
             else ipv6_groups (groups + 1) True (tl r'))
          else if r' = [] then None
          else ipv6_groups (groups + 1) compressed r')"
  by pat_completeness auto

termination
proof (relation "measure (\<lambda>(_, _, s). length s)", goal_cases)
  case (2 groups compressed s digits r r')
  then show ?case
    using tl_dropWhile_shorter [of s shell_ascii_xdigit] by (cases r') auto
next
  case (3 groups compressed s digits r r')
  then show ?case using tl_dropWhile_shorter [of s shell_ascii_xdigit] by auto
qed simp

declare ipv6_groups.simps [simp del]

definition ipv6_zone_char :: "char \<Rightarrow> bool" where
  "ipv6_zone_char c \<longleftrightarrow> shell_ascii_alnum c \<or> c = CHR ''_'' \<or> c = CHR ''.'' \<or> c = CHR ''-''"

definition span_is_ipv6 :: "st_text_span \<Rightarrow> bool" where
  "span_is_ipv6 token \<longleftrightarrow>
     (let zone_ok = (case span_find token CHR ''%'' of
           None \<Rightarrow> True
         | Some end_pos \<Rightarrow>
             \<not> (end_pos = 0 \<or> end_pos + 1 = length token \<or>
                span_has (drop (end_pos + 1) token) CHR ''%'') \<and>
             list_all ipv6_zone_char (drop (end_pos + 1) token));
         address = (case span_find token CHR ''%'' of
           None \<Rightarrow> token | Some end_pos \<Rightarrow> take end_pos token) in
      if \<not> zone_ok then False
      else if length address < 2 then False
      else if address ! 0 = CHR '':'' \<and> address ! 1 \<noteq> CHR '':'' then False
      else case (if address ! 0 = CHR '':'' then ipv6_groups 0 True (drop 2 address)
                 else ipv6_groups 0 False address) of
        None \<Rightarrow> False
      | Some (groups, compressed) \<Rightarrow> if compressed then groups < 8 else groups = 8)"

section \<open>Names, references and packages\<close>

definition hash_algos :: "bytes list" where
  "hash_algos =
    [''md5'', ''sha1'', ''sha224'', ''sha256'', ''sha384'', ''sha512'', ''blake2b'', ''blake2s'',
     ''ripemd160'', ''whirlpool'']"

definition span_is_hash_algo :: "st_text_span \<Rightarrow> bool" where
  "span_is_hash_algo token \<longleftrightarrow> list_ex (span_eq token) hash_algos"

definition identifier_char :: "char \<Rightarrow> bool" where
  "identifier_char c \<longleftrightarrow> shell_ascii_alnum c \<or> c = CHR ''_''"

definition span_is_env_var :: "st_text_span \<Rightarrow> bool" where
  "span_is_env_var token \<longleftrightarrow>
     (if length token < 2 \<or> token ! 0 \<noteq> CHR ''$'' then False
      else if token ! 1 = CHR ''{'' \<and> (length token < 4 \<or> last token \<noteq> CHR ''}'') then False
      else let name = (if token ! 1 = CHR ''{'' then butlast (drop 2 token) else drop 1 token) in
        if \<not> shell_ascii_alpha (hd name) \<and> hd name \<noteq> CHR ''_'' then False
        else list_all identifier_char (tl name))"

definition span_is_hyphenated :: "st_text_span \<Rightarrow> bool" where
  "span_is_hyphenated token \<longleftrightarrow>
     (if token = [] \<or> (\<not> shell_ascii_alpha (hd token) \<and> hd token \<noteq> CHR ''_'') then False
      else list_all (\<lambda>c. c = CHR ''-'' \<or> identifier_char c) (tl token) \<and>
        list_ex (\<lambda>c. c = CHR ''-'') (tl token))"

definition branch_refs :: "bytes list" where
  "branch_refs =
    [''HEAD'', ''main'', ''master'', ''develop'', ''trunk'', ''mainline'', ''default'',
     ''gh-pages'', ''source'', ''sandbox'', ''staging'', ''production'', ''next'', ''feature'',
     ''release'', ''hotfix'', ''fix'', ''bugfix'', ''wip'', ''maint'']"

fun branch_loop :: "bool \<Rightarrow> bool \<Rightarrow> st_text_span \<Rightarrow> bool option" where
  "branch_loop first slash [] = Some slash"
| "branch_loop first slash (c # s) =
     (if c = CHR ''/'' then
        (if first \<or> s = [] \<or> hd s = CHR ''/'' then None else branch_loop False True s)
      else if c = CHR ''.'' \<or> (\<not> shell_ascii_alnum c \<and> c \<noteq> CHR ''-'' \<and> c \<noteq> CHR ''_'') then None
      else branch_loop False slash s)"

definition span_is_branch :: "st_text_span \<Rightarrow> bool" where
  "span_is_branch token \<longleftrightarrow>
     (if token = [] \<or> hd token = CHR ''-'' \<or> hd token = CHR ''/'' \<or> hd token = CHR ''.'' then False
      else if list_ex (span_eq token) branch_refs then True
      else case branch_loop True False token of
        None \<Rightarrow> False
      | Some slash \<Rightarrow> slash \<and> shell_ascii_alnum (last token))"

definition span_is_sha :: "st_text_span \<Rightarrow> bool" where
  "span_is_sha token \<longleftrightarrow>
     (if length token < 7 \<or> length token = 8 \<or> length token > 64 then False
      else list_all (\<lambda>c. (CHR ''0'' \<le> c \<and> c \<le> CHR ''9'') \<or> (CHR ''a'' \<le> c \<and> c \<le> CHR ''f'')) token)"

text \<open>The scan of an image reference; a digest ends it.\<close>

fun image_loop :: "bool \<Rightarrow> char \<Rightarrow> st_text_span \<Rightarrow> bool" where
  "image_loop colon first [] = (colon \<and> first \<noteq> CHR ''-'' \<and> first \<noteq> CHR ''.'')"
| "image_loop colon first (c # s) =
     (if c = CHR '':'' then image_loop True first s
      else if c = CHR ''@'' then
        (if length s \<noteq> 71 \<or> \<not> span_starts s ''sha256:'' then False
         else span_all_ascii (take 64 (drop 7 s)) shell_ascii_xdigit)
      else if \<not> shell_ascii_alnum c \<and> c \<noteq> CHR ''.'' \<and> c \<noteq> CHR ''-'' \<and> c \<noteq> CHR ''_'' \<and> c \<noteq> CHR ''/''
      then False
      else image_loop colon first s)"

definition span_is_image :: "st_text_span \<Rightarrow> bool" where
  "span_is_image token \<longleftrightarrow>
     (if length token < 2 then False
      else let name = takeWhile (\<lambda>c. c \<noteq> CHR ''/'' \<and> c \<noteq> CHR '':'' \<and> c \<noteq> CHR ''@'') token in
        if name \<noteq> [] \<and> CHR ''A'' \<le> hd token \<and> hd token \<le> CHR ''Z'' \<and>
           list_all shell_ascii_lower (tl name) then False
        else if span_has_pair token CHR '':'' CHR '':'' then False
        else image_loop False (hd token) token)"

definition pkg_scope_char :: "char \<Rightarrow> bool" where
  "pkg_scope_char c \<longleftrightarrow> shell_ascii_alnum c \<or> c = CHR ''-'' \<or> c = CHR ''_''"

definition pkg_name_char :: "char \<Rightarrow> bool" where
  "pkg_name_char c \<longleftrightarrow> shell_ascii_alnum c \<or> c = CHR ''.'' \<or> c = CHR ''-'' \<or> c = CHR ''_''"

definition pkg_version_char :: "char \<Rightarrow> bool" where
  "pkg_version_char c \<longleftrightarrow> shell_ascii_alnum c \<or> c = CHR ''.'' \<or> c = CHR ''-'' \<or>
     c = CHR ''^'' \<or> c = CHR ''~'' \<or> c = CHR ''<'' \<or> c = CHR ''>'' \<or> c = CHR ''=''"

definition pkg_version_ok :: "bool \<Rightarrow> st_text_span \<Rightarrow> bool" where
  "pkg_version_ok scoped version \<longleftrightarrow>
     list_all pkg_version_char version \<and>
     (scoped \<or> list_ex (\<lambda>c. shell_ascii_digit c \<or> c = CHR ''.'' \<or> c = CHR ''-'') version)"

definition span_is_pkg :: "st_text_span \<Rightarrow> bool" where
  "span_is_pkg token \<longleftrightarrow>
     (if token = [] \<or> hd token = CHR ''-'' then False
      else if hd token = CHR ''@'' then
        (let scope = takeWhile (\<lambda>c. c \<noteq> CHR ''/'') (tl token);
             after_scope = dropWhile (\<lambda>c. c \<noteq> CHR ''/'') (tl token);
             name = takeWhile (\<lambda>c. c \<noteq> CHR ''@'') (tl after_scope);
             after_name = dropWhile (\<lambda>c. c \<noteq> CHR ''@'') (tl after_scope) in
         if \<not> list_all pkg_scope_char scope then False
         else if scope = [] \<or> after_scope = [] \<or> tl after_scope = [] then False
         else if \<not> list_all pkg_name_char name then False
         else if after_name = [] then True
         else if tl after_name = [] then False
         else pkg_version_ok True (tl after_name))
      else
        (let name = takeWhile (\<lambda>c. c \<noteq> CHR ''@'') token;
             after_name = dropWhile (\<lambda>c. c \<noteq> CHR ''@'') token in
         if \<not> list_all pkg_name_char name then False
         else if name = [] \<or> after_name = [] \<or> tl after_name = [] then False
         else pkg_version_ok False (tl after_name)))"

definition fingerprint_pairs :: "st_text_span \<Rightarrow> bool" where
  "fingerprint_pairs token \<longleftrightarrow>
     list_all (\<lambda>i. let pos = i * 3 in
       shell_ascii_xdigit (token ! pos) \<and> shell_ascii_xdigit (token ! (pos + 1)) \<and>
       \<not> (i < 15 \<and> token ! (pos + 2) \<noteq> CHR '':''))
     [0..<16]"

definition span_is_fingerprint :: "st_text_span \<Rightarrow> bool" where
  "span_is_fingerprint token \<longleftrightarrow>
     (if span_starts token ''SHA256:'' then
        (if length token \<noteq> 50 then False
         else list_all (\<lambda>c. shell_ascii_alnum c \<or> c = CHR ''+'' \<or> c = CHR ''/'' \<or> c = CHR ''='')
           (drop 7 token))
      else if length token \<noteq> 47 then False
      else fingerprint_pairs token)"

definition system_users :: "bytes list" where
  "system_users =
    [''root'', ''nobody'', ''daemon'', ''bin'', ''sys'', ''adm'', ''tty'', ''disk'', ''lp'',
     ''mail'', ''news'', ''uucp'', ''man'', ''proxy'', ''www-data'', ''backup'', ''list'',
     ''irc'', ''gnats'', ''systemd'', ''systemd-network'', ''systemd-resolve'',
     ''systemd-timesync'', ''_apt'', ''messagebus'', ''systemd-coredump'', ''rpc'', ''rpcuser'',
     ''nfsnobody'', ''saslauth'', ''ldap'', ''postfix'', ''dovecot'', ''clamav'', ''amavis'',
     ''spamassassin'', ''tcpdump'', ''avahi'', ''bluetooth'', ''audio'', ''video'', ''games'',
     ''cdrom'', ''floppy'', ''tape'', ''dialout'', ''fax'', ''voice'', ''cdwriter'', ''scanner'',
     ''kmem'', ''wheel'', ''users'', ''input'', ''kvm'', ''render'', ''sgx'', ''dip'',
     ''wwwrun'', ''qemu'', ''libvirt'', ''svn'', ''ntp'', ''chrony'', ''polkitd'',
     ''cockpit-ws'', ''cockpit-wsinstance'', ''numad'', ''sssd'', ''unbound'', ''tss'', ''gdm'',
     ''snapd'', ''lxd'', ''rngd'', ''irqbalance'', ''oprofile'', ''oprofile-agent'']"

definition span_is_user :: "st_text_span \<Rightarrow> bool" where
  "span_is_user token \<longleftrightarrow>
     (if token = [] \<or> length token > 32 \<or> (\<not> shell_ascii_lower (hd token) \<and> hd token \<noteq> CHR ''_'')
      then False
      else if \<not> list_all (\<lambda>c. shell_ascii_lower c \<or> shell_ascii_digit c \<or> c = CHR ''_'' \<or> c = CHR ''-'')
             (tl token) then False
      else list_ex (span_eq token) system_users)"

section \<open>Patterns, ranges and signals\<close>

definition regex_contexts :: "bytes list" where
  "regex_contexts =
    [''sed'', ''awk'', ''perl'', ''grep'', ''egrep'', ''fgrep'', ''rg'', ''ag'', ''-e'', ''-E'',
     ''-P'', ''-pe'', ''-ne'', ''-pie'', ''-nle'', ''-F'']"

definition span_is_regex_context :: "st_text_span \<Rightarrow> bool" where
  "span_is_regex_context token \<longleftrightarrow> list_ex (span_eq token) regex_contexts"

text \<open>The metacharacter string \<^verbatim>\<open>[]*+?{}|\^$()\<close>.\<close>

definition regex_metacharacters :: bytes where
  "regex_metacharacters = ''[]*+?{}|'' @ [CHR 0x5C] @ ''^$()''"

definition span_has_regex_metachar :: "st_text_span \<Rightarrow> bool" where
  "span_has_regex_metachar token \<longleftrightarrow> list_ex (\<lambda>c. List.member regex_metacharacters c) token"

definition glob_operators :: bytes where
  "glob_operators = ''|&;<>()''"

fun glob_loop :: "bool \<Rightarrow> bool \<Rightarrow> st_text_span \<Rightarrow> bool" where
  "glob_loop wild bracket [] = (wild \<and> \<not> bracket)"
| "glob_loop wild bracket (c # s) =
     (if c = CHR ''*'' \<or> c = CHR ''?'' then glob_loop True bracket s
      else if c = CHR ''['' then glob_loop True True s
      else if c = CHR '']'' \<and> bracket then glob_loop wild False s
      else if List.member glob_operators c then False
      else glob_loop wild bracket s)"

definition span_is_glob_pattern :: "st_text_span \<Rightarrow> bool" where
  "span_is_glob_pattern token \<longleftrightarrow>
     (if token = [] \<or> hd token = CHR ''-'' \<or> hd token = CHR ''/'' then False
      else glob_loop False False token)"

fun range_loop :: "nat \<Rightarrow> st_text_span \<Rightarrow> bool" where
  "range_loop hyphens [] = (hyphens = 1)"
| "range_loop hyphens (c # s) =
     (if c = CHR ''-'' then range_loop (hyphens + 1) s
      else if \<not> shell_ascii_digit c then False else range_loop hyphens s)"

definition span_is_range :: "st_text_span \<Rightarrow> bool" where
  "span_is_range token \<longleftrightarrow> (if length token < 2 then False else range_loop 0 token)"

definition signal_names :: "bytes list" where
  "signal_names =
    [''HUP'', ''INT'', ''QUIT'', ''ILL'', ''TRAP'', ''ABRT'', ''BUS'', ''FPE'', ''KILL'',
     ''USR1'', ''SEGV'', ''USR2'', ''PIPE'', ''ALRM'', ''TERM'', ''STKFLT'', ''CHLD'', ''CONT'',
     ''STOP'', ''TSTP'', ''TTIN'', ''TTOU'', ''URG'', ''XCPU'', ''XFSZ'', ''VTALRM'', ''PROF'',
     ''WINCH'', ''POLL'', ''PWR'', ''SYS'']"

definition span_is_signal :: "st_text_span \<Rightarrow> bool" where
  "span_is_signal token \<longleftrightarrow>
     list_ex (\<lambda>sig. span_eq token sig \<or>
       (length token = length sig + 3 \<and> span_starts token ''SIG'' \<and> drop 3 token = sig))
     signal_names"

definition common_users :: "bytes list" where
  "common_users =
    [''postgres'', ''mysql'', ''redis'', ''apache'', ''vagrant'', ''guest'', ''ubuntu'',
     ''deploy'', ''jenkins'', ''builder'', ''runner'', ''alice'', ''bob'', ''charlie'', ''dave'',
     ''eve'', ''frank'']"

definition user_group_char :: "char \<Rightarrow> bool" where
  "user_group_char c \<longleftrightarrow> shell_ascii_alnum c \<or> c = CHR ''_'' \<or> c = CHR ''-''"

definition span_is_user_group :: "st_text_span \<Rightarrow> bool" where
  "span_is_user_group token \<longleftrightarrow>
     (case span_find token CHR '':'' of
        None \<Rightarrow> False
      | Some user_length \<Rightarrow>
          (let user = take user_length token; group = drop (user_length + 1) token;
               hyphen = span_has token CHR ''-'' in
           if user_length = 0 \<or> user_length + 1 = length token \<or> span_has group CHR '':'' \<or>
              span_has token CHR ''.'' \<or> span_has token CHR ''/'' \<or>
              (\<not> shell_ascii_lower (hd token) \<and> hd token \<noteq> CHR ''_'') then False
           else if \<not> hyphen \<and> \<not> span_is_user user \<and> \<not> list_ex (span_eq user) common_users then False
           else if \<not> list_all user_group_char user \<or> \<not> list_all user_group_char group then False
           else list_ex shell_ascii_lower user \<and> list_ex shell_ascii_lower group))"

definition span_is_perm_octal :: "st_text_span \<Rightarrow> bool" where
  "span_is_perm_octal token \<longleftrightarrow>
     (if length token \<noteq> 3 \<and> length token \<noteq> 4 then False
      else if length token = 3 \<and> token ! 1 < CHR ''4'' then False
      else if length token = 4 \<and> (token ! 0 = CHR ''1'' \<or> token ! 0 = CHR ''2'') \<and> token ! 1 < CHR ''4''
      then False
      else list_all (\<lambda>c. CHR ''0'' \<le> c \<and> c \<le> CHR ''7'') token)"

section \<open>The priority chain\<close>

definition st_token_classify_span :: "st_text_span \<Rightarrow> st_token_type" where
  "st_token_classify_span token =
     (if token = [] then ST_TYPE_LITERAL
      else if span_is_absolute_path token then ST_TYPE_ABS_PATH
      else if span_is_url token then ST_TYPE_URL
      else if span_is_ipv4 token then ST_TYPE_IPV4
      else if span_is_ipv6 token then ST_TYPE_IPV6
      else if span_is_mac token then ST_TYPE_MAC
      else if span_is_hex_number token then ST_TYPE_NUMBER
      else if span_is_uuid token then ST_TYPE_UUID
      else if span_is_pkg token then ST_TYPE_PKG
      else if span_is_email token then ST_TYPE_EMAIL
      else if span_is_hostname token then ST_TYPE_HOSTNAME
      else if span_is_size token then ST_TYPE_SIZE
      else if span_is_semver token then ST_TYPE_SEMVER
      else if span_is_perm_octal token then ST_TYPE_PERM_OCTAL
      else if span_is_signal token then ST_TYPE_SIGNAL
      else if span_is_decimal_number token then ST_TYPE_NUMBER
      else if span_is_timestamp token then ST_TYPE_TIMESTAMP
      else if span_is_duration token then ST_TYPE_DURATION
      else if span_is_hash_algo token then ST_TYPE_HASH_ALGO
      else if span_is_fingerprint token then ST_TYPE_FINGERPRINT
      else if span_is_env_var token then ST_TYPE_ENV_VAR
      else if span_is_user token then ST_TYPE_USER
      else if span_is_range token then ST_TYPE_RANGE
      else if span_is_cron_like token then ST_TYPE_CRON
      else if span_is_hyphenated token then ST_TYPE_HYPHENATED
      else if span_is_branch token then ST_TYPE_BRANCH
      else if span_is_http_method token then ST_TYPE_METHOD
      else if span_is_short_option token then ST_TYPE_SHORTOPT
      else if span_is_long_option token then ST_TYPE_LONGOPT
      else if span_is_sha token then ST_TYPE_SHA
      else if span_is_hex_hash token then ST_TYPE_HEXHASH
      else if span_is_user_group token then ST_TYPE_USER_GROUP
      else if span_is_image token then ST_TYPE_IMAGE
      else if span_is_glob_pattern token then ST_TYPE_GLOB
      else if span_is_relative_path token then ST_TYPE_REL_PATH
      else if span_is_filename token then ST_TYPE_FILENAME
      else if span_has_whitespace token then ST_TYPE_QUOTED_SPACE
      else ST_TYPE_LITERAL)"

definition st_token_classify :: "bytes \<Rightarrow> st_token_type" where
  "st_token_classify text = st_token_classify_span text"

end
