(* ===== verification/Netstring.thy ===== *)
theory Netstring imports Ascii begin

text \<open>
  Canonical netstrings, from \<^verbatim>\<open>shellsplit/src/shell_netstring.c\<close>: the
  iterator over a concatenation of records, the validator, the encoder writing into a
  caller-supplied buffer, and the bounded stream reader. \<open>netstring\<close> is the
  specification of one record. The locale \<open>codec\<close> is the framing contract the policy
  formats rely on: a decoder that inverts an encoder and accepts nothing else.
\<close>

section \<open>Statuses and views\<close>

datatype shell_netstring_status =
  SHELL_NETSTRING_OK | SHELL_NETSTRING_DONE | SHELL_NETSTRING_EINPUT | SHELL_NETSTRING_EFORMAT
| SHELL_NETSTRING_EOVERFLOW | SHELL_NETSTRING_EIO | SHELL_NETSTRING_ENOMEM

text \<open>The two spans of a record: the bytes they reference in the input.\<close>

record shell_netstring_view =
  ns_record :: bytes
  ns_payload :: bytes

record shell_netstring_iter =
  ns_data :: bytes
  ns_offset :: nat

definition ns_empty_view :: shell_netstring_view where
  "ns_empty_view = \<lparr>ns_record = [], ns_payload = []\<rparr>"

section \<open>The iterator\<close>

text \<open>A \<^verbatim>\<open>NULL\<close> pointer is \<open>None\<close>.\<close>

definition shell_netstring_iter_init ::
    "bytes option \<Rightarrow> nat \<Rightarrow> shell_netstring_status + shell_netstring_iter" where
  "shell_netstring_iter_init data len =
     (case data of
        None \<Rightarrow> (if len \<noteq> 0 then Inl SHELL_NETSTRING_EINPUT
                 else Inr \<lparr>ns_data = [], ns_offset = 0\<rparr>)
      | Some bs \<Rightarrow> Inr \<lparr>ns_data = take len bs, ns_offset = 0\<rparr>)"

text \<open>The digit loop: the value read so far and the bytes from the cursor on. The overflow
  test precedes the update, digit by digit.\<close>

fun ns_read_digits :: "nat \<Rightarrow> bytes \<Rightarrow> shell_netstring_status + (nat \<times> bytes)" where
  "ns_read_digits acc [] = Inr (acc, [])"
| "ns_read_digits acc (c # s) =
     (if \<not> shell_ascii_digit c then Inr (acc, c # s)
      else if acc > (SIZE_MAX - digit_value c) div 10 then Inl SHELL_NETSTRING_EOVERFLOW
      else ns_read_digits (acc * 10 + digit_value c) s)"

text \<open>One record at the front of the bytes from the cursor on: its payload and what follows
  it, or the status the code returns.\<close>

definition ns_parse :: "bytes \<Rightarrow> shell_netstring_status + (bytes \<times> bytes)" where
  "ns_parse s =
     (if s = [] then Inl SHELL_NETSTRING_DONE
      else if \<not> shell_ascii_digit (hd s) then Inl SHELL_NETSTRING_EFORMAT
      else if hd s = CHR ''0'' \<and> tl s \<noteq> [] \<and> shell_ascii_digit (hd (tl s))
        then Inl SHELL_NETSTRING_EFORMAT
      else case ns_read_digits 0 s of
        Inl e \<Rightarrow> Inl e
      | Inr (payload_length, r) \<Rightarrow>
          (if r = [] \<or> hd r \<noteq> CHR '':'' then Inl SHELL_NETSTRING_EFORMAT
           else let body = tl r in
             if body = [] \<or> payload_length \<ge> length body then Inl SHELL_NETSTRING_EFORMAT
             else if body ! payload_length \<noteq> CHR '','' then Inl SHELL_NETSTRING_EFORMAT
             else Inr (take payload_length body, drop (payload_length + 1) body)))"

definition shell_netstring_iter_next ::
    "shell_netstring_iter \<Rightarrow>
      shell_netstring_status \<times> shell_netstring_view \<times> shell_netstring_iter" where
  "shell_netstring_iter_next it =
     (let s = drop (ns_offset it) (ns_data it) in
      case ns_parse s of
        Inl e \<Rightarrow> (e, ns_empty_view, it)
      | Inr (payload, rest) \<Rightarrow>
          (let record_length = length s - length rest in
           (SHELL_NETSTRING_OK,
            \<lparr>ns_record = take record_length s, ns_payload = payload\<rparr>,
            it\<lparr>ns_offset := ns_offset it + record_length\<rparr>)))"

lemma ns_read_digits_shorter:
  "ns_read_digits acc s = Inr (n, r) \<Longrightarrow> length r \<le> length s"
  by (induction acc s rule: ns_read_digits.induct) (auto split: if_splits)

lemma ns_parse_shorter: "ns_parse s = Inr (p, r) \<Longrightarrow> length r < length s"
proof -
  assume "ns_parse s = Inr (p, r)"
  then obtain n t where "ns_read_digits 0 s = Inr (n, t)" "t \<noteq> []" "r = drop (n + 1) (tl t)"
    by (auto simp: ns_parse_def Let_def split: if_splits sum.splits)
  then show ?thesis
    using ns_read_digits_shorter [of 0 s n t] by (cases t) auto
qed

text \<open>The validator's loop over the remaining bytes, and the count it reports.\<close>

function ns_count_loop :: "nat \<Rightarrow> bytes \<Rightarrow> shell_netstring_status \<times> nat" where
  "ns_count_loop count s =
     (case ns_parse s of
        Inl e \<Rightarrow> (e, count)
      | Inr (_, rest) \<Rightarrow> ns_count_loop (count + 1) rest)"
  by pat_completeness auto
termination
  by (relation "measure (\<lambda>(_, s). length s)") (auto dest: ns_parse_shorter)

declare ns_count_loop.simps [simp del]

definition shell_netstring_validate ::
    "bytes option \<Rightarrow> nat \<Rightarrow> shell_netstring_status \<times> nat" where
  "shell_netstring_validate data len =
     (case shell_netstring_iter_init data len of
        Inl e \<Rightarrow> (e, 0)
      | Inr it \<Rightarrow>
          (case ns_count_loop 0 (ns_data it) of
             (status, count) \<Rightarrow>
               if status \<noteq> SHELL_NETSTRING_DONE then (status, 0)
               else (SHELL_NETSTRING_OK, count)))"

section \<open>The encoder\<close>

fun decimal_digits :: "nat \<Rightarrow> nat" where
  "decimal_digits v = (if v \<ge> 10 then decimal_digits (v div 10) + 1 else 1)"

declare decimal_digits.simps [simp del]

definition shell_netstring_encoded_length :: "nat \<Rightarrow> shell_netstring_status + nat" where
  "shell_netstring_encoded_length payload_length =
     (let framing = decimal_digits payload_length + 2 in
      if payload_length > SIZE_MAX - framing then Inl SHELL_NETSTRING_EOVERFLOW
      else Inr (payload_length + framing))"

text \<open>The loop that stores the digits from the last one down.\<close>

fun ns_fill_digits :: "nat \<Rightarrow> nat \<Rightarrow> bytes \<Rightarrow> bytes" where
  "ns_fill_digits 0 v out = out"
| "ns_fill_digits (Suc i) v out =
     ns_fill_digits i (v div 10) (out[i := digit_char (v mod 10)])"

text \<open>The output span is a byte list of the caller's capacity, returned updated.\<close>

definition shell_netstring_write_prefix ::
    "bytes \<Rightarrow> nat \<Rightarrow> shell_netstring_status + (bytes \<times> nat)" where
  "shell_netstring_write_prefix out payload_length =
     (let len = decimal_digits payload_length + 1; digits = len - 1 in
      if length out < len then Inl SHELL_NETSTRING_EOVERFLOW
      else Inr ((ns_fill_digits digits payload_length out)[digits := CHR '':''], len))"

text \<open>\<^verbatim>\<open>memcpy(out + at, src, n)\<close>.\<close>

definition store_bytes :: "nat \<Rightarrow> bytes \<Rightarrow> bytes \<Rightarrow> bytes" where
  "store_bytes at src out = take at out @ src @ drop (at + length src) out"

definition shell_netstring_write ::
    "bytes \<Rightarrow> bytes option \<Rightarrow> nat \<Rightarrow> shell_netstring_status + (bytes \<times> nat)" where
  "shell_netstring_write out payload payload_length =
     (if payload = None \<and> payload_length \<noteq> 0 then Inl SHELL_NETSTRING_EINPUT
      else case shell_netstring_encoded_length payload_length of
        Inl e \<Rightarrow> Inl e
      | Inr needed \<Rightarrow>
          (if length out < needed then Inl SHELL_NETSTRING_EOVERFLOW
           else case shell_netstring_write_prefix out payload_length of
             Inl e \<Rightarrow> Inl e
           | Inr (out1, prefix) \<Rightarrow>
               (let out2 = (if payload_length \<noteq> 0
                            then store_bytes prefix (take payload_length (the payload)) out1
                            else out1)
                in Inr (out2[needed - 1 := CHR '',''], needed))))"

section \<open>The stream reader\<close>

text \<open>A \<^verbatim>\<open>FILE *\<close>: the bytes still to come, and whether the end of them is a read
  error. \<^verbatim>\<open>fgetc\<close> yields \<open>None\<close> for \<^verbatim>\<open>EOF\<close>; \<^verbatim>\<open>ferror\<close>
  is then the flag.\<close>

record c_stream =
  st_bytes :: bytes
  st_ferror :: bool

definition fgetc :: "c_stream \<Rightarrow> char option \<times> c_stream" where
  "fgetc f = (case st_bytes f of [] \<Rightarrow> (None, f) | c # r \<Rightarrow> (Some c, f\<lparr>st_bytes := r\<rparr>))"

definition ns_eof_status :: "char option \<Rightarrow> c_stream \<Rightarrow> shell_netstring_status" where
  "ns_eof_status ch f = (if ch = None \<and> st_ferror f then SHELL_NETSTRING_EIO else SHELL_NETSTRING_EFORMAT)"

text \<open>The reader's digit loop. \<open>ch\<close> is the digit just read.\<close>

function ns_stream_digits :: "bool \<Rightarrow> nat \<Rightarrow> char \<Rightarrow> c_stream \<Rightarrow>
    (shell_netstring_status + (nat \<times> char option)) \<times> c_stream" where
  "ns_stream_digits leading_zero acc ch f =
     (if acc > (SIZE_MAX - digit_value ch) div 10 then (Inl SHELL_NETSTRING_EOVERFLOW, f)
      else let acc' = acc * 10 + digit_value ch; f' = snd (fgetc f) in
        case fst (fgetc f) of
          None \<Rightarrow> (Inr (acc', None), f')
        | Some ch' \<Rightarrow>
            (if leading_zero \<and> shell_ascii_digit ch' then (Inl SHELL_NETSTRING_EFORMAT, f')
             else if shell_ascii_digit ch' then ns_stream_digits leading_zero acc' ch' f'
             else (Inr (acc', Some ch'), f')))"
  by pat_completeness auto
termination
  by (relation "measure (\<lambda>(_, _, _, f). length (st_bytes f))")
     (auto simp: fgetc_def split: list.splits)

declare ns_stream_digits.simps [simp del]

text \<open>The reader after the colon: the size checks, the allocation with its prefix, and the
  payload and the closing comma.\<close>

definition ns_stream_record ::
    "nat \<Rightarrow> nat \<Rightarrow> c_stream \<Rightarrow> (shell_netstring_status + bytes) \<times> c_stream" where
  "ns_stream_record payload_length max_record_length f =
     (case shell_netstring_encoded_length payload_length of
        Inl _ \<Rightarrow> (Inl SHELL_NETSTRING_EOVERFLOW, f)
      | Inr total_len \<Rightarrow>
          (if total_len = SIZE_MAX \<or> max_record_length \<noteq> 0 \<and> total_len > max_record_length
           then (Inl SHELL_NETSTRING_EOVERFLOW, f)
           else let
             empty = replicate total_len NUL;
             (out, prefix) =
               (case shell_netstring_write_prefix empty payload_length of
                  Inl _ \<Rightarrow> (empty, 0) | Inr r \<Rightarrow> r);
             got = take payload_length (st_bytes f);
             f = f\<lparr>st_bytes := drop payload_length (st_bytes f)\<rparr> in
             if payload_length \<noteq> 0 \<and> length got \<noteq> payload_length
             then (Inl (if st_ferror f then SHELL_NETSTRING_EIO else SHELL_NETSTRING_EFORMAT), f)
             else case fgetc f of
               (ch, f) \<Rightarrow>
                 (if ch \<noteq> Some CHR '','' then (Inl (ns_eof_status ch f), f)
                  else (Inr ((store_bytes prefix got out)[total_len - 1 := CHR '','']), f))))"

definition shell_netstring_read_stream ::
    "c_stream \<Rightarrow> nat \<Rightarrow> (shell_netstring_status + bytes) \<times> c_stream" where
  "shell_netstring_read_stream f max_record_length =
     (case fgetc f of
        (None, f) \<Rightarrow>
          (Inl (if st_ferror f then SHELL_NETSTRING_EIO else SHELL_NETSTRING_DONE), f)
      | (Some ch, f) \<Rightarrow>
          (if \<not> shell_ascii_digit ch then (Inl SHELL_NETSTRING_EFORMAT, f)
           else case ns_stream_digits (ch = CHR ''0'') 0 ch f of
             (Inl e, f) \<Rightarrow> (Inl e, f)
           | (Inr (payload_length, ch), f) \<Rightarrow>
               (if ch \<noteq> Some CHR '':'' then (Inl (ns_eof_status ch f), f)
                else ns_stream_record payload_length max_record_length f)))"

section \<open>Specification: one record\<close>

text \<open>Canonical decimal: no leading zero, \<open>0\<close> for zero.\<close>

fun decimal :: "nat \<Rightarrow> bytes" where
  "decimal v = (if v < 10 then [digit_char v] else decimal (v div 10) @ [digit_char (v mod 10)])"

declare decimal.simps [simp del]

definition netstring :: "bytes \<Rightarrow> bytes" where
  "netstring p = decimal (length p) @ CHR '':'' # p @ [CHR '','']"

lemma decimal_small [simp]: "v < 10 \<Longrightarrow> decimal v = [digit_char v]"
  by (simp add: decimal.simps)

lemma decimal_step: "v \<ge> 10 \<Longrightarrow> decimal v = decimal (v div 10) @ [digit_char (v mod 10)]"
  by (subst decimal.simps) simp

lemma decimal_nonempty [simp]: "decimal v \<noteq> []"
  by (subst decimal.simps) simp

lemma decimal_all_digits: "c \<in> set (decimal v) \<Longrightarrow> shell_ascii_digit c"
  by (induction v rule: decimal.induct) (subst (asm) decimal.simps, auto split: if_splits)

lemma length_decimal: "length (decimal v) = decimal_digits v"
  by (induction v rule: decimal.induct)
     (subst decimal.simps, subst decimal_digits.simps, simp)

lemma decimal_no_leading_zero: "v \<noteq> 0 \<Longrightarrow> hd (decimal v) \<noteq> CHR ''0''"
proof (induction v rule: decimal.induct)
  case (1 v)
  show ?case
  proof (cases "v < 10")
    case True
    then show ?thesis using 1 by simp
  next
    case False
    then show ?thesis using 1 by (simp add: decimal_step)
  qed
qed

text \<open>The value of a digit string, most significant digit first.\<close>

definition decimal_value :: "nat \<Rightarrow> bytes \<Rightarrow> nat" where
  "decimal_value acc s = foldl (\<lambda>a c. a * 10 + digit_value c) acc s"

lemma decimal_value_simps [simp]:
  "decimal_value acc [] = acc"
  "decimal_value acc (c # s) = decimal_value (acc * 10 + digit_value c) s"
  "decimal_value acc (s @ [c]) = decimal_value acc s * 10 + digit_value c"
  by (simp_all add: decimal_value_def)

lemma decimal_value_mono: "acc \<le> decimal_value acc s"
proof (induction s arbitrary: acc)
  case (Cons c s)
  have "acc \<le> acc * 10 + digit_value c" by simp
  also have "\<dots> \<le> decimal_value (acc * 10 + digit_value c) s" by (rule Cons)
  finally show ?case by simp
qed simp

lemma decimal_value_decimal [simp]: "decimal_value 0 (decimal v) = v"
  by (induction v rule: decimal.induct) (subst decimal.simps, auto)

lemma decimal_of_value:
  assumes "s \<noteq> []" "\<forall>c\<in>set s. shell_ascii_digit c"
    and "hd s = CHR ''0'' \<Longrightarrow> length s = 1"
  shows "decimal (decimal_value 0 s) = s"
  using assms
proof (induction s rule: rev_induct)
  case (snoc c s)
  show ?case
  proof (cases "s = []")
    case True
    then show ?thesis using snoc by simp
  next
    case False
    have lead: "hd s \<noteq> CHR ''0''" using snoc.prems False by auto
    have IH: "decimal (decimal_value 0 s) = s" using snoc False lead by auto
    have "decimal_value 0 s \<noteq> 0"
    proof
      assume "decimal_value 0 s = 0"
      with IH have "s = [digit_char 0]" by simp
      then show False using lead by simp
    qed
    moreover have "digit_value c < 10" using snoc.prems by simp
    ultimately show ?thesis
      using IH snoc.prems by (simp add: decimal_step)
  qed
qed simp

lemma decimal_inject [simp]: "decimal a = decimal b \<longleftrightarrow> a = b"
  by (metis decimal_value_decimal)

section \<open>The digit loop reads decimals\<close>

lemma overflow_guard:
  assumes "d < 10"
  shows "a > (SIZE_MAX - d) div 10 \<longleftrightarrow> a * 10 + d > SIZE_MAX"
  using assms by (auto simp: SIZE_MAX_def)

lemma ns_read_digits_append:
  assumes "\<forall>c\<in>set ds. shell_ascii_digit c" "decimal_value acc ds \<le> SIZE_MAX"
    and "r = [] \<or> \<not> shell_ascii_digit (hd r)"
  shows "ns_read_digits acc (ds @ r) = Inr (decimal_value acc ds, r)"
  using assms
proof (induction ds arbitrary: acc)
  case Nil
  then show ?case by (cases r) auto
next
  case (Cons d ds)
  have "acc * 10 + digit_value d \<le> SIZE_MAX"
    using Cons.prems decimal_value_mono [of "acc * 10 + digit_value d" ds] by simp
  then show ?case
    using Cons overflow_guard [of "digit_value d" acc] by (simp add: not_less)
qed

lemma ns_read_digits_Inr:
  assumes "ns_read_digits acc s = Inr (n, r)" "acc \<le> SIZE_MAX"
  shows "\<exists>ds. s = ds @ r \<and> (\<forall>c\<in>set ds. shell_ascii_digit c) \<and> n = decimal_value acc ds
    \<and> n \<le> SIZE_MAX \<and> (r = [] \<or> \<not> shell_ascii_digit (hd r))"
  using assms
proof (induction acc s rule: ns_read_digits.induct)
  case (2 acc c s)
  show ?case
  proof (cases "shell_ascii_digit c")
    case False
    then show ?thesis using 2 by (auto intro!: exI [of _ "[]"])
  next
    case True
    with 2 have le: "acc * 10 + digit_value c \<le> SIZE_MAX"
      and rec: "ns_read_digits (acc * 10 + digit_value c) s = Inr (n, r)"
      using overflow_guard [of "digit_value c" acc] by (auto split: if_splits)
    have "\<not> acc > (SIZE_MAX - digit_value c) div 10"
      using le True overflow_guard [of "digit_value c" acc] by simp
    from 2(1) [OF _ this rec le] True obtain ds where
      "s = ds @ r" "\<forall>c\<in>set ds. shell_ascii_digit c"
      "n = decimal_value (acc * 10 + digit_value c) ds" "n \<le> SIZE_MAX"
      "r = [] \<or> \<not> shell_ascii_digit (hd r)"
      by auto
    with True show ?thesis by (intro exI [of _ "c # ds"]) auto
  qed
qed auto

section \<open>Parsing is the inverse of encoding\<close>

lemma netstring_nonempty [simp]: "netstring p \<noteq> []"
  by (simp add: netstring_def)

lemma length_netstring: "length (netstring p) = decimal_digits (length p) + length p + 2"
  by (simp add: netstring_def length_decimal)

lemma hd_decimal_digit [simp]: "shell_ascii_digit (hd (decimal v))"
  by (meson decimal_all_digits decimal_nonempty hd_in_set)

lemma decimal_second_digit:
  assumes "hd (decimal v) = CHR ''0''"
  shows "decimal v = [CHR ''0'']"
proof -
  have "v = 0" using assms decimal_no_leading_zero by blast
  then show ?thesis by simp
qed

lemma ns_parse_netstring [codec_simps]:
  assumes "length p \<le> SIZE_MAX"
  shows "ns_parse (netstring p @ r) = Inr (p, r)"
proof -
  let ?s = "decimal (length p) @ CHR '':'' # p @ CHR '','' # r"
  have lead: "\<not> (hd ?s = CHR ''0'' \<and> tl ?s \<noteq> [] \<and> shell_ascii_digit (hd (tl ?s)))"
  proof
    assume zero: "hd ?s = CHR ''0'' \<and> tl ?s \<noteq> [] \<and> shell_ascii_digit (hd (tl ?s))"
    then have "decimal (length p) = [CHR ''0'']" by (intro decimal_second_digit) simp
    with zero show False by simp
  qed
  have digits: "ns_read_digits 0 ?s = Inr (length p, CHR '':'' # p @ CHR '','' # r)"
    using ns_read_digits_append [of "decimal (length p)" 0 "CHR '':'' # p @ CHR '','' # r"] assms
    by (auto dest: decimal_all_digits)
  show ?thesis
    using lead digits by (simp add: ns_parse_def netstring_def Let_def nth_append)
qed

lemma ns_parse_Inr:
  assumes "ns_parse s = Inr (p, r)"
  shows "s = netstring p @ r \<and> length p \<le> SIZE_MAX"
proof -
  from assms have nonempty: "s \<noteq> []" and first: "shell_ascii_digit (hd s)"
    and zero: "\<not> (hd s = CHR ''0'' \<and> tl s \<noteq> [] \<and> shell_ascii_digit (hd (tl s)))"
    by (auto simp: ns_parse_def split: if_splits)
  from assms obtain n t where read: "ns_read_digits 0 s = Inr (n, t)"
    by (auto simp: ns_parse_def Let_def split: if_splits sum.splits)
  from ns_read_digits_Inr [OF this] obtain ds where
    ds: "s = ds @ t" "\<forall>c\<in>set ds. shell_ascii_digit c" "n = decimal_value 0 ds" "n \<le> SIZE_MAX"
      "t = [] \<or> \<not> shell_ascii_digit (hd t)"
    by auto
  from assms nonempty first zero read have colon: "t \<noteq> []" "hd t = CHR '':''"
    and body: "n < length (tl t)" "tl t ! n = CHR '',''"
    and result: "p = take n (tl t)" "r = drop (n + 1) (tl t)"
    by (auto simp: ns_parse_def Let_def split: if_splits)
  have "ds \<noteq> []" using ds first colon by auto
  moreover have "hd ds = CHR ''0'' \<Longrightarrow> length ds = 1"
  proof (rule ccontr)
    assume "hd ds = CHR ''0''" "length ds \<noteq> 1"
    then obtain d ds' where "ds = CHR ''0'' # d # ds'"
      using \<open>ds \<noteq> []\<close> by (cases ds; cases "tl ds") auto
    with ds zero show False by auto
  qed
  ultimately have "ds = decimal n" using decimal_of_value [of ds] ds by simp
  moreover have "length p = n" using body result by simp
  moreover have "tl t = p @ CHR '','' # r"
    using body result by (metis id_take_nth_drop Suc_eq_plus1)
  ultimately show ?thesis
    using ds colon by (cases t) (simp_all add: netstring_def)
qed

lemma ns_parse_Inr_iff:
  "ns_parse s = Inr (p, r) \<longleftrightarrow> s = netstring p @ r \<and> length p \<le> SIZE_MAX"
  using ns_parse_Inr ns_parse_netstring by blast


section \<open>The framing contract\<close>

text \<open>What a self-delimiting code promises its clients: decoding inverts encoding whatever
  follows the record, and only encodings decode.\<close>

locale codec =
  fixes enc :: "'a \<Rightarrow> bytes"
    and dec :: "bytes \<Rightarrow> ('a \<times> bytes) option"
    and valid :: "'a \<Rightarrow> bool"
  assumes dec_enc: "valid x \<Longrightarrow> dec (enc x @ r) = Some (x, r)"
    and enc_dec: "dec s = Some (x, r) \<Longrightarrow> s = enc x @ r \<and> valid x"
    and enc_nonempty: "enc x \<noteq> []"
begin

lemma dec_iff: "dec s = Some (x, r) \<longleftrightarrow> s = enc x @ r \<and> valid x"
  using dec_enc enc_dec by blast

lemma prefix_free:
  assumes "valid x" "valid y" "enc x @ r = enc y @ r'"
  shows "x = y \<and> r = r'"
  using assms by (metis dec_enc option.inject prod.inject)

lemma enc_inject: "valid x \<Longrightarrow> valid y \<Longrightarrow> enc x = enc y \<longleftrightarrow> x = y"
  using prefix_free [of x y "[]" "[]"] by auto

lemma concat_inject:
  assumes "\<forall>x\<in>set xs. valid x" "\<forall>y\<in>set ys. valid y"
    and "concat (map enc xs) = concat (map enc ys)"
  shows "xs = ys"
  using assms
proof (induction xs arbitrary: ys)
  case Nil
  then show ?case using enc_nonempty by (cases ys) auto
next
  case (Cons x xs)
  have "ys \<noteq> []" using Cons.prems(3) enc_nonempty [of x] by auto
  then obtain y ys' where ys: "ys = y # ys'" by (cases ys) auto
  have eq: "enc x @ concat (map enc xs) = enc y @ concat (map enc ys')"
    using Cons.prems(3) ys by simp
  have "x = y \<and> concat (map enc xs) = concat (map enc ys')"
    by (rule prefix_free [OF _ _ eq]) (use Cons.prems(1,2) ys in auto)
  moreover have "\<forall>x\<in>set xs. valid x" "\<forall>y\<in>set ys'. valid y"
    using Cons.prems ys by auto
  ultimately show ?case using Cons.IH ys by blast
qed

end

definition ns_decode :: "bytes \<Rightarrow> (bytes \<times> bytes) option" where
  "ns_decode s = (case ns_parse s of Inl _ \<Rightarrow> None | Inr r \<Rightarrow> Some r)"

definition ns_valid :: "bytes \<Rightarrow> bool" where
  "ns_valid p \<longleftrightarrow> length p \<le> SIZE_MAX"

interpretation ns: codec netstring ns_decode ns_valid
  by unfold_locales
     (auto simp: ns_decode_def ns_valid_def ns_parse_netstring ns_parse_Inr_iff split: sum.splits)

section \<open>The validator\<close>

lemma ns_parse_Nil [simp]: "ns_parse [] = Inl SHELL_NETSTRING_DONE"
  by (simp add: ns_parse_def)

lemma ns_read_digits_Inl: "ns_read_digits acc s = Inl e \<Longrightarrow> e = SHELL_NETSTRING_EOVERFLOW"
  by (induction acc s rule: ns_read_digits.induct) (auto split: if_splits)

lemma ns_parse_done: "ns_parse s = Inl SHELL_NETSTRING_DONE \<longleftrightarrow> s = []"
  by (auto simp: ns_parse_def Let_def split: if_splits sum.splits dest: ns_read_digits_Inl)

lemma ns_parse_not_ok: "ns_parse s \<noteq> Inl SHELL_NETSTRING_OK"
  by (auto simp: ns_parse_def Let_def split: if_splits sum.splits dest: ns_read_digits_Inl)

lemma ns_count_loop_done:
  "ns_count_loop k s = (SHELL_NETSTRING_DONE, n) \<longleftrightarrow>
     (\<exists>ps. s = concat (map netstring ps) \<and> (\<forall>p\<in>set ps. length p \<le> SIZE_MAX) \<and> n = k + length ps)"
proof (induction k s rule: ns_count_loop.induct)
  case (1 k s)
  show ?case
  proof (cases "ns_parse s")
    case (Inl e)
    then have "s = concat (map netstring ps) \<Longrightarrow> \<forall>p\<in>set ps. length p \<le> SIZE_MAX \<Longrightarrow> ps = []" for ps
      by (cases ps) (auto simp: ns_parse_netstring)
    then show ?thesis
      using Inl ns_parse_done [of s] by (subst ns_count_loop.simps) fastforce
  next
    case (Inr pr)
    obtain p r where pr: "pr = (p, r)" by (cases pr)
    then have s: "s = netstring p @ r" "length p \<le> SIZE_MAX"
      using Inr by (auto simp: ns_parse_Inr_iff)
    have IH: "ns_count_loop (k + 1) r = (SHELL_NETSTRING_DONE, n) \<longleftrightarrow>
      (\<exists>ps. r = concat (map netstring ps) \<and> (\<forall>p\<in>set ps. length p \<le> SIZE_MAX) \<and> n = k + 1 + length ps)"
      using 1 Inr pr by simp
    have "(\<exists>ps. s = concat (map netstring ps) \<and> (\<forall>p\<in>set ps. length p \<le> SIZE_MAX) \<and> n = k + length ps)
      \<longleftrightarrow> (\<exists>ps. r = concat (map netstring ps) \<and> (\<forall>p\<in>set ps. length p \<le> SIZE_MAX) \<and> n = k + 1 + length ps)"
      (is "?L \<longleftrightarrow> ?R")
    proof
      assume ?L
      then obtain ps where ps: "s = concat (map netstring ps)" "\<forall>p\<in>set ps. length p \<le> SIZE_MAX"
        "n = k + length ps" by blast
      then obtain q qs where q: "ps = q # qs" using s by (cases ps) auto
      then have "p = q \<and> r = concat (map netstring qs)"
        using ps s by (intro ns.prefix_free) (auto simp: ns_valid_def)
      then show ?R using ps q by auto
    next
      assume ?R
      then obtain ps where "r = concat (map netstring ps)" "\<forall>p\<in>set ps. length p \<le> SIZE_MAX"
        "n = k + 1 + length ps" by blast
      then show ?L using s by (intro exI [of _ "p # ps"]) auto
    qed
    then show ?thesis using IH Inr pr by (subst ns_count_loop.simps) simp
  qed
qed

lemma ns_validate_ok:
  "shell_netstring_validate (Some s) (length s) = (SHELL_NETSTRING_OK, n) \<longleftrightarrow>
     (\<exists>ps. s = concat (map netstring ps) \<and> (\<forall>p\<in>set ps. length p \<le> SIZE_MAX) \<and> n = length ps)"
proof -
  have "fst (ns_count_loop k s) \<noteq> SHELL_NETSTRING_OK" for k
  proof (induction k s rule: ns_count_loop.induct)
    case (1 k s)
    then show ?case
      using ns_parse_not_ok [of s] by (subst ns_count_loop.simps) (auto split: sum.splits)
  qed
  then have "fst (ns_count_loop 0 s) \<noteq> SHELL_NETSTRING_OK" .
  then show ?thesis
    using ns_count_loop_done [of 0 s n]
    by (auto simp: shell_netstring_validate_def shell_netstring_iter_init_def split: prod.splits)
qed

section \<open>The encoder writes the specified record\<close>

lemma length_fill_digits [simp]: "length (ns_fill_digits i v out) = length out"
  by (induction i v out rule: ns_fill_digits.induct) auto

lemma ns_fill_digits_decimal:
  "decimal_digits v \<le> length out \<Longrightarrow>
   ns_fill_digits (decimal_digits v) v out = decimal v @ drop (decimal_digits v) out"
proof (induction v arbitrary: out rule: decimal.induct)
  case (1 v)
  show ?case
  proof (cases "v < 10")
    case True
    then have "decimal_digits v = 1" by (simp add: decimal_digits.simps)
    then show ?thesis using True 1 by (cases out) auto
  next
    case False
    then have digits: "decimal_digits v = Suc (decimal_digits (v div 10))"
      by (subst decimal_digits.simps) simp
    let ?n = "decimal_digits (v div 10)"
    let ?out = "out[?n := digit_char (v mod 10)]"
    have "ns_fill_digits ?n (v div 10) ?out = decimal (v div 10) @ drop ?n ?out"
      using 1 False digits by simp
    moreover have "drop ?n ?out = digit_char (v mod 10) # drop (Suc ?n) out"
      using 1 digits by (simp add: Cons_nth_drop_Suc [symmetric])
    ultimately show ?thesis using False digits by (simp add: decimal_step)
  qed
qed

lemma write_prefix_eq:
  "shell_netstring_write_prefix out n =
     (if length out < decimal_digits n + 1 then Inl SHELL_NETSTRING_EOVERFLOW
      else Inr (decimal n @ CHR '':'' # drop (decimal_digits n + 1) out, decimal_digits n + 1))"
proof (cases "length out < decimal_digits n + 1")
  case False
  let ?d = "decimal_digits n"
  have "(ns_fill_digits ?d n out)[?d := CHR '':''] = decimal n @ (drop ?d out)[0 := CHR '':'']"
    using False by (simp add: ns_fill_digits_decimal list_update_append length_decimal)
  also have "drop ?d out = out ! ?d # drop (?d + 1) out"
    using False by (simp add: Cons_nth_drop_Suc)
  finally show ?thesis using False by (simp add: shell_netstring_write_prefix_def Let_def)
qed (simp add: shell_netstring_write_prefix_def)

lemma encoded_length_eq:
  "shell_netstring_encoded_length n =
     (if decimal_digits n + n + 2 > SIZE_MAX then Inl SHELL_NETSTRING_EOVERFLOW
      else Inr (decimal_digits n + n + 2))"
proof (cases "n = 0")
  case True
  then show ?thesis
    by (simp add: shell_netstring_encoded_length_def decimal_digits.simps SIZE_MAX_def)
qed (auto simp: shell_netstring_encoded_length_def Let_def)

lemma store_record:
  assumes "length p = n" "decimal_digits n + n + 2 \<le> length out"
  shows "(store_bytes (decimal_digits n + 1) p (decimal n @ CHR '':'' # drop (decimal_digits n + 1) out))
           [decimal_digits n + n + 2 - 1 := CHR '',''] =
         netstring p @ drop (decimal_digits n + n + 2) out"
proof -
  let ?d = "decimal_digits n"
  have "store_bytes (?d + 1) p (decimal n @ CHR '':'' # drop (?d + 1) out) =
    decimal n @ CHR '':'' # p @ drop (?d + n + 1) out"
    using assms by (simp add: store_bytes_def length_decimal add.commute add.left_commute)
  moreover have "drop (?d + n + 1) out = out ! (?d + n + 1) # drop (?d + n + 2) out"
    using assms by (simp add: Cons_nth_drop_Suc [symmetric])
  ultimately show ?thesis
    using assms by (simp add: netstring_def list_update_append length_decimal)
qed

lemma ns_write_ok:
  "shell_netstring_write out (Some p) (length p) =
     (if length (netstring p) > SIZE_MAX \<or> length out < length (netstring p)
      then Inl SHELL_NETSTRING_EOVERFLOW
      else Inr (netstring p @ drop (length (netstring p)) out, length (netstring p)))"
proof (cases "p = []")
  case True
  then show ?thesis
    by (auto simp: shell_netstring_write_def write_prefix_eq encoded_length_eq length_netstring
        decimal_digits.simps netstring_def Let_def list_update_append
        Cons_nth_drop_Suc [symmetric] numeral_3_eq_3 numeral_2_eq_2)
next
  case False
  then show ?thesis
    using store_record [of p "length p" out]
    by (auto simp: shell_netstring_write_def write_prefix_eq encoded_length_eq length_netstring Let_def)
qed


section \<open>The stream reader accepts the same records\<close>

lemma ns_stream_digits_eq:
  assumes "shell_ascii_digit ch" "acc \<le> SIZE_MAX"
  shows "ns_stream_digits lz acc ch f =
    (if lz \<and> st_bytes f \<noteq> [] \<and> shell_ascii_digit (hd (st_bytes f)) \<and>
        acc * 10 + digit_value ch \<le> SIZE_MAX
     then (Inl SHELL_NETSTRING_EFORMAT, f\<lparr>st_bytes := tl (st_bytes f)\<rparr>)
     else ns_stream_digits False acc ch f)"
  using overflow_guard [of "digit_value ch" acc] assms
  by (subst (1 2) ns_stream_digits.simps) (auto simp: Let_def fgetc_def split: list.splits)

lemma c_stream_eq_iff:
  "(f' :: c_stream) = f\<lparr>st_bytes := b\<rparr> \<longleftrightarrow> st_bytes f' = b \<and> st_ferror f' = st_ferror f"
  by (cases f; cases f') auto

lemma ns_stream_digits_Inr_iff:
  assumes "shell_ascii_digit ch" "acc \<le> SIZE_MAX"
  shows "ns_stream_digits False acc ch f = (Inr (n, Some c), f') \<longleftrightarrow>
    ns_read_digits acc (ch # st_bytes f) = Inr (n, c # st_bytes f') \<and> st_ferror f' = st_ferror f"
  using assms
proof (induction "st_bytes f" arbitrary: acc ch f)
  case Nil
  then show ?case
    by (subst ns_stream_digits.simps) (auto simp: fgetc_def Let_def)
next
  case (Cons d s)
  show ?case
  proof (cases "acc > (SIZE_MAX - digit_value ch) div 10")
    case True
    then show ?thesis using Cons by (subst ns_stream_digits.simps) auto
  next
    case False
    have le: "acc * 10 + digit_value ch \<le> SIZE_MAX"
      using False Cons.prems overflow_guard [of "digit_value ch" acc] by simp
    show ?thesis
    proof (cases "shell_ascii_digit d")
      case True
      have "ns_stream_digits False acc ch f =
        ns_stream_digits False (acc * 10 + digit_value ch) d (f\<lparr>st_bytes := s\<rparr>)"
        using False True Cons.hyps(2)
        by (subst ns_stream_digits.simps) (simp add: fgetc_def Let_def flip: Cons.hyps(2))
      then show ?thesis
        using Cons.hyps(1) [of "f\<lparr>st_bytes := s\<rparr>" d "acc * 10 + digit_value ch"] True le False
          Cons.prems by (simp flip: Cons.hyps(2))
    next
      case False
      then show ?thesis
        using le Cons.prems overflow_guard [of "digit_value ch" acc]
        by (subst ns_stream_digits.simps)
           (auto simp: fgetc_def Let_def eq_commute [of _ f'] c_stream_eq_iff simp flip: Cons.hyps(2))
    qed
  qed
qed


text \<open>The digit stage of the reader: it succeeds exactly on a canonical decimal.\<close>

lemma ns_stream_digits_decimal:
  assumes "st_bytes f = ch # s" "shell_ascii_digit ch"
  shows "ns_stream_digits (ch = CHR ''0'') 0 ch (f\<lparr>st_bytes := s\<rparr>) = (Inr (n, Some CHR '':''), f') \<longleftrightarrow>
    n \<le> SIZE_MAX \<and> st_bytes f = decimal n @ CHR '':'' # st_bytes f' \<and> st_ferror f' = st_ferror f"
    (is "?L \<longleftrightarrow> ?R")
proof -
  have le: "digit_value ch \<le> SIZE_MAX"
    using digit_value_lt [OF assms(2)] by (simp add: SIZE_MAX_def)
  let ?two = "ch = CHR ''0'' \<and> s \<noteq> [] \<and> shell_ascii_digit (hd s)"
  have L: "?L \<longleftrightarrow> \<not> ?two \<and> ns_read_digits 0 (ch # s) = Inr (n, CHR '':'' # st_bytes f') \<and>
      st_ferror f' = st_ferror f"
    using ns_stream_digits_Inr_iff [of ch 0 "f\<lparr>st_bytes := s\<rparr>" n "CHR '':''" f'] assms le
      ns_stream_digits_eq [of ch 0 "ch = CHR ''0''" "f\<lparr>st_bytes := s\<rparr>"]
    by (auto intro: c_stream.equality)
  show ?thesis
  proof
    assume ?L
    with L have two: "\<not> ?two" and read: "ns_read_digits 0 (ch # s) = Inr (n, CHR '':'' # st_bytes f')"
      and err: "st_ferror f' = st_ferror f" by auto
    from ns_read_digits_Inr [OF read] obtain ds where ds: "ch # s = ds @ CHR '':'' # st_bytes f'"
      "\<forall>c\<in>set ds. shell_ascii_digit c" "n = decimal_value 0 ds" "n \<le> SIZE_MAX" by auto
    have "ds \<noteq> []" using ds assms by auto
    moreover have "hd ds = CHR ''0'' \<Longrightarrow> length ds = 1"
      using ds two \<open>ds \<noteq> []\<close> by (cases ds; cases "tl ds") auto
    ultimately have "decimal n = ds" using decimal_of_value ds by blast
    then show ?R using ds err assms by simp
  next
    assume R: ?R
    then have s: "ch # s = decimal n @ CHR '':'' # st_bytes f'" using assms by simp
    then have "ns_read_digits 0 (ch # s) = Inr (n, CHR '':'' # st_bytes f')"
      using R ns_read_digits_append [of "decimal n" 0 "CHR '':'' # st_bytes f'"]
      by (auto dest: decimal_all_digits)
    moreover have "\<not> ?two"
    proof
      assume two: "?two"
      have "hd (decimal n) = ch" using s by (cases "decimal n") auto
      then have "decimal n = [CHR ''0'']" using two by (intro decimal_second_digit) simp
      then show False using s two by auto
    qed
    ultimately show ?L using L R by simp
  qed
qed

lemma ns_stream_record_Inr_iff:
  "ns_stream_record n m f = (Inr rec, f') \<longleftrightarrow>
     decimal_digits n + n + 2 < SIZE_MAX \<and> (m = 0 \<or> decimal_digits n + n + 2 \<le> m) \<and>
     (\<exists>p. length p = n \<and> st_bytes f = p @ CHR '','' # st_bytes f' \<and> rec = netstring p) \<and>
     st_ferror f' = st_ferror f"
    (is "?L \<longleftrightarrow> ?fits \<and> ?small \<and> ?body \<and> ?err")
proof (cases "?fits \<and> ?small")
  case False
  then show ?thesis
    by (auto simp: ns_stream_record_def encoded_length_eq split: if_splits)
next
  case True
  let ?total = "decimal_digits n + n + 2"
  have prefix: "shell_netstring_write_prefix (replicate ?total NUL) n =
    Inr (decimal n @ CHR '':'' # drop (decimal_digits n + 1) (replicate ?total NUL), decimal_digits n + 1)"
    by (simp add: write_prefix_eq)
  show ?thesis
  proof (cases "length (take n (st_bytes f)) = n \<and> drop n (st_bytes f) \<noteq> [] \<and>
      hd (drop n (st_bytes f)) = CHR '',''")
    case False
    then have "\<not> ?body" by auto
    moreover have "\<not> ?L"
      using False True prefix
      by (cases "drop n (st_bytes f)")
         (auto simp: ns_stream_record_def encoded_length_eq fgetc_def Let_def split: if_splits)
    ultimately show ?thesis by simp
  next
    case ok: True
    then obtain r where r: "drop n (st_bytes f) = CHR '','' # r"
      by (metis list.collapse)
    have "ns_stream_record n m f = (Inr (netstring (take n (st_bytes f))), f\<lparr>st_bytes := r\<rparr>)"
      using True ok prefix r store_record [of "take n (st_bytes f)" n "replicate ?total NUL"]
      by (auto simp: ns_stream_record_def encoded_length_eq fgetc_def Let_def)
    moreover have "?body \<longleftrightarrow> rec = netstring (take n (st_bytes f)) \<and> st_bytes f' = r"
      using ok r append_take_drop_id [of n "st_bytes f"]
      by (auto simp del: append_take_drop_id intro!: exI [of _ "take n (st_bytes f)"])
    ultimately show ?thesis
      using True by (auto simp: eq_commute [of _ f'] c_stream_eq_iff)
  qed
qed

lemma ns_read_stream_iff:
  "shell_netstring_read_stream f m = (Inr rec, f') \<longleftrightarrow>
     (\<exists>p. st_bytes f = netstring p @ st_bytes f' \<and> rec = netstring p) \<and>
     st_ferror f' = st_ferror f \<and> length rec < SIZE_MAX \<and> (m = 0 \<or> length rec \<le> m)"
proof (cases "st_bytes f")
  case Nil
  then show ?thesis by (auto simp: shell_netstring_read_stream_def fgetc_def)
next
  case (Cons ch s)
  show ?thesis
  proof (cases "shell_ascii_digit ch")
    case False
    have "st_bytes f \<noteq> netstring p @ r" for p r
    proof
      assume "st_bytes f = netstring p @ r"
      then have "ch = hd (decimal (length p))"
        using Cons by (cases "decimal (length p)") (auto simp: netstring_def)
      then show False using False by simp
    qed
    then show ?thesis using Cons False by (auto simp: shell_netstring_read_stream_def fgetc_def)
  next
    case True
    let ?digits = "ns_stream_digits (ch = CHR ''0'') 0 ch (f\<lparr>st_bytes := s\<rparr>)"
    have "shell_netstring_read_stream f m = (Inr rec, f') \<longleftrightarrow>
      (\<exists>n g. ?digits = (Inr (n, Some CHR '':''), g) \<and> ns_stream_record n m g = (Inr rec, f'))"
      using Cons True
      by (auto simp: shell_netstring_read_stream_def fgetc_def split: prod.splits sum.splits if_splits)
    also have "\<dots> \<longleftrightarrow> (\<exists>n g. n \<le> SIZE_MAX \<and> st_bytes f = decimal n @ CHR '':'' # st_bytes g \<and>
      st_ferror g = st_ferror f \<and> ns_stream_record n m g = (Inr rec, f'))"
      using ns_stream_digits_decimal [OF Cons True] by simp
    also have "\<dots> \<longleftrightarrow> (\<exists>p. st_bytes f = netstring p @ st_bytes f' \<and> rec = netstring p) \<and>
      st_ferror f' = st_ferror f \<and> length rec < SIZE_MAX \<and> (m = 0 \<or> length rec \<le> m)" (is "?L \<longleftrightarrow> ?R")
    proof
      assume ?L
      then show ?R by (auto simp: ns_stream_record_Inr_iff netstring_def length_decimal)
    next
      assume ?R
      then obtain p where p: "st_bytes f = netstring p @ st_bytes f'" "rec = netstring p" by blast
      let ?g = "f\<lparr>st_bytes := p @ CHR '','' # st_bytes f'\<rparr>"
      have "ns_stream_record (length p) m ?g = (Inr rec, f')"
        using \<open>?R\<close> p by (simp add: ns_stream_record_Inr_iff length_netstring)
      moreover have "length p \<le> SIZE_MAX" using \<open>?R\<close> p by (simp add: length_netstring)
      ultimately show ?L
        using p by (intro exI [of _ "length p"] exI [of _ ?g]) (simp add: netstring_def)
    qed
    finally show ?thesis .
  qed
qed


section \<open>Whole sequences\<close>

text \<open>The payloads of the leading records and the status that ends them: what every loop
  over an iterator sees.\<close>

function ns_payloads :: "bytes \<Rightarrow> bytes list \<times> shell_netstring_status" where
  "ns_payloads s =
     (case ns_parse s of
        Inl e \<Rightarrow> ([], e)
      | Inr (p, rest) \<Rightarrow> (case ns_payloads rest of (ps, e) \<Rightarrow> (p # ps, e)))"
  by pat_completeness auto
termination
  by (relation "measure length") (auto dest: ns_parse_shorter)

declare ns_payloads.simps [simp del]

lemma ns_payloads_Inl: "ns_parse s = Inl e \<Longrightarrow> ns_payloads s = ([], e)"
  by (subst ns_payloads.simps) simp

lemma ns_payloads_Inr:
  "ns_parse s = Inr (p, r) \<Longrightarrow> ns_payloads s = (p # fst (ns_payloads r), snd (ns_payloads r))"
  by (subst ns_payloads.simps) (simp split: prod.splits)

lemma ns_payloads_not_ok: "snd (ns_payloads s) \<noteq> SHELL_NETSTRING_OK"
proof (induction s rule: ns_payloads.induct)
  case (1 s)
  then show ?case
    using ns_parse_not_ok [of s]
    by (cases "ns_parse s") (auto simp: ns_payloads_Inl ns_payloads_Inr)
qed

lemma ns_payloads_concat:
  "\<forall>p\<in>set ps. length p \<le> SIZE_MAX \<Longrightarrow>
   ns_payloads (concat (map netstring ps)) = (ps, SHELL_NETSTRING_DONE)"
  by (induction ps) (simp_all add: ns_payloads_Inl ns_payloads_Inr ns_parse_netstring)

lemma ns_payloads_DONE:
  "ns_payloads s = (ps, SHELL_NETSTRING_DONE) \<Longrightarrow>
   s = concat (map netstring ps) \<and> (\<forall>p\<in>set ps. length p \<le> SIZE_MAX)"
proof (induction s arbitrary: ps rule: ns_payloads.induct)
  case (1 s)
  show ?case
  proof (cases "ns_parse s")
    case (Inl e)
    then show ?thesis using 1 ns_parse_done [of s] by (auto simp: ns_payloads_Inl)
  next
    case (Inr pr)
    obtain p r where pr: "pr = (p, r)" by (cases pr)
    obtain qs where qs: "ns_payloads r = (qs, SHELL_NETSTRING_DONE)" "ps = p # qs"
      using 1 Inr pr by (cases "ns_payloads r") (auto simp: ns_payloads_Inr)
    then show ?thesis using 1(1) [OF Inr pr [symmetric] qs(1)] Inr pr by (auto simp: ns_parse_Inr_iff)
  qed
qed

lemma ns_payloads_DONE_iff:
  "ns_payloads s = (ps, SHELL_NETSTRING_DONE) \<longleftrightarrow>
   s = concat (map netstring ps) \<and> (\<forall>p\<in>set ps. length p \<le> SIZE_MAX)"
  using ns_payloads_DONE ns_payloads_concat by blast

lemma ns_read_digits_overflows:
  assumes "acc \<le> SIZE_MAX"
  shows "ns_read_digits acc s = Inl SHELL_NETSTRING_EOVERFLOW \<longleftrightarrow>
    decimal_value acc (takeWhile shell_ascii_digit s) > SIZE_MAX"
  using assms
proof (induction acc s rule: ns_read_digits.induct)
  case (2 acc c s)
  show ?case
  proof (cases "shell_ascii_digit c")
    case True
    note guard = overflow_guard [of "digit_value c" acc]
    show ?thesis
    proof (cases "acc * 10 + digit_value c > SIZE_MAX")
      case over: True
      moreover have "acc * 10 + digit_value c \<le> decimal_value (acc * 10 + digit_value c) (takeWhile shell_ascii_digit s)"
        by (rule decimal_value_mono)
      ultimately show ?thesis using True guard by simp
    next
      case False
      then have "\<not> acc > (SIZE_MAX - digit_value c) div 10" using True guard by simp
      note IH = "2.IH" [OF _ this]
      show ?thesis using IH True False guard by simp
    qed
  qed (use 2 in simp)
qed simp

text \<open>Why no record can be read.\<close>

lemma ns_parse_error:
  assumes "ns_parse s = Inl e"
  shows "e = (if s = [] then SHELL_NETSTRING_DONE
    else if hd s = CHR ''0'' \<or> decimal_value 0 (takeWhile shell_ascii_digit s) \<le> SIZE_MAX then SHELL_NETSTRING_EFORMAT
    else SHELL_NETSTRING_EOVERFLOW)"
proof -
  let ?ds = "takeWhile shell_ascii_digit s"
  have over: "ns_read_digits 0 s = Inl SHELL_NETSTRING_EOVERFLOW \<longleftrightarrow> decimal_value 0 ?ds > SIZE_MAX"
    by (rule ns_read_digits_overflows) simp
  have zero: "decimal_value 0 ?ds \<le> SIZE_MAX" if "s \<noteq> []" "\<not> shell_ascii_digit (hd s)"
    using that by (cases s) simp_all
  have lead: "decimal_value 0 ?ds = 0"
    if "s \<noteq> []" "hd s = CHR ''0''" "\<not> (tl s \<noteq> [] \<and> shell_ascii_digit (hd (tl s)))"
    using that by (cases s; cases "tl s") (auto simp: shell_ascii_digit_def digit_value_def)
  show ?thesis
    using assms over zero lead ns_read_digits_Inl [of 0 s]
    by (auto simp: ns_parse_def Let_def not_le split: if_splits sum.splits)
qed

section \<open>Properties\<close>

text \<open>C6: One step of the iterator, on every input. If a canonical netstring stands at the cursor, the
  step returns that record and its payload and moves past it. Otherwise it returns an empty view, does
  not move, and reports why: the input is used up, the length of a record that starts with a digit
  other than zero exceeds the size type, or the bytes are not a record.\<close>

theorem iter_next_reads_one_netstring:
  "shell_netstring_iter_next it = (status, v, it') \<longleftrightarrow>
     (let s = drop (ns_offset it) (ns_data it); digits = takeWhile shell_ascii_digit s in
      if \<exists>p r. s = netstring p @ r \<and> length p \<le> SIZE_MAX
      then status = SHELL_NETSTRING_OK \<and>
        (\<exists>p r. s = netstring p @ r \<and> length p \<le> SIZE_MAX \<and>
           v = \<lparr>ns_record = netstring p, ns_payload = p\<rparr> \<and>
           it' = it\<lparr>ns_offset := ns_offset it + length (netstring p)\<rparr>)
      else status = (if s = [] then SHELL_NETSTRING_DONE
          else if hd s \<noteq> CHR ''0'' \<and> SIZE_MAX < decimal_value 0 digits then SHELL_NETSTRING_EOVERFLOW
          else SHELL_NETSTRING_EFORMAT) \<and>
        v = ns_empty_view \<and> it' = it)"
proof (cases "ns_parse (drop (ns_offset it) (ns_data it))")
  case (Inl e)
  then have no: "\<not> (\<exists>p r. drop (ns_offset it) (ns_data it) = netstring p @ r \<and> length p \<le> SIZE_MAX)"
    by (auto simp: ns_parse_netstring)
  show ?thesis
    unfolding Let_def if_not_P [OF no] using Inl ns_parse_error [OF Inl]
    by (auto simp: shell_netstring_iter_next_def not_less split: if_splits)
next
  case (Inr pr)
  obtain q t where q: "pr = (q, t)" by (cases pr)
  have s: "drop (ns_offset it) (ns_data it) = netstring q @ t" "length q \<le> SIZE_MAX"
    using Inr q by (simp_all add: ns_parse_Inr_iff)
  then have yes: "\<exists>p r. drop (ns_offset it) (ns_data it) = netstring p @ r \<and> length p \<le> SIZE_MAX" by blast
  have unique: "drop (ns_offset it) (ns_data it) = netstring p @ r \<and> length p \<le> SIZE_MAX \<longleftrightarrow>
      p = q \<and> r = t" for p r
    using ns.prefix_free [of q p t r] s by (auto simp: ns_valid_def)
  have "shell_netstring_iter_next it = (SHELL_NETSTRING_OK, \<lparr>ns_record = netstring q, ns_payload = q\<rparr>,
      it\<lparr>ns_offset := ns_offset it + length (netstring q)\<rparr>)"
    using Inr q s by (simp add: shell_netstring_iter_next_def Let_def)
  then show ?thesis
    unfolding Let_def if_P [OF yes] using unique
    by (simp only: prod.inject simp_thms conj_assoc [symmetric]) blast
qed

text \<open>The encoder writes exactly the canonical record over the front of the buffer and
  leaves the rest, or reports overflow when the record exceeds the size type or the capacity.\<close>

theorem write_stores_netstring:
  "shell_netstring_write out (Some p) (length p) =
     (if length (netstring p) > SIZE_MAX \<or> length out < length (netstring p)
      then Inl SHELL_NETSTRING_EOVERFLOW
      else Inr (netstring p @ drop (length (netstring p)) out, length (netstring p)))"
  by (rule ns_write_ok)

text \<open>The validator accepts exactly the concatenations of canonical netstrings, and the
  count it reports is their number.\<close>

theorem validate_accepts_sequences:
  "shell_netstring_validate (Some s) (length s) = (SHELL_NETSTRING_OK, n) \<longleftrightarrow>
     (\<exists>ps. s = concat (map netstring ps) \<and> list_all (\<lambda>p. length p \<le> SIZE_MAX) ps \<and> n = length ps)"
  by (simp add: ns_validate_ok list_all_iff)

text \<open>The stream reader returns a record exactly when the stream starts with that
  canonical netstring and it is within the caller's bound; it leaves the bytes after it unread.
  It therefore agrees with the iterator on what a record is.\<close>

theorem read_stream_reads_one_netstring:
  "shell_netstring_read_stream f m = (Inr rec, f') \<longleftrightarrow>
     (\<exists>p. st_bytes f = netstring p @ st_bytes f' \<and> rec = netstring p) \<and>
     st_ferror f' = st_ferror f \<and> length rec < SIZE_MAX \<and> (m = 0 \<or> length rec \<le> m)"
  by (rule ns_read_stream_iff)

end
