(* ===== verification/Argv.thy ===== *)
theory Argv imports Classify Netstring begin

text \<open>
  Classified argument vectors, from the second half of
  \<^verbatim>\<open>shelltype/src/normalize.c\<close>: the context an argument leaves for its successor,
  classification under a context, and the three readers of a canonical netargv (the
  allocation-free scratch, the visitor and the owned array). All three classify the same
  decoded payloads; \<open>classify_args\<close> is that shared meaning.
\<close>

section \<open>Tokens and contexts\<close>

text \<open>\<^verbatim>\<open>st_token_t\<close> with explicit lengths: each field is the bytes its pointer
  and length span. Component fields are meaningful for compounds only.\<close>

record st_token =
  tk_text :: bytes
  tk_type :: st_token_type
  tk_compound :: bool
  tk_prefix :: bytes
  tk_capture :: bytes
  tk_suffix :: bytes
  tk_capture_type :: st_token_type

definition plain_token :: "bytes \<Rightarrow> st_token_type \<Rightarrow> st_token" where
  "plain_token text t =
     \<lparr>tk_text = text, tk_type = t, tk_compound = False, tk_prefix = [], tk_capture = [],
      tk_suffix = [], tk_capture_type = ST_TYPE_LITERAL\<rparr>"

definition st_token_edit_type :: "st_token \<Rightarrow> st_token_type" where
  "st_token_edit_type token = (if tk_compound token then tk_capture_type token else tk_type token)"

datatype st_arg_context =
  ST_ARG_CONTEXT_NONE | ST_ARG_CONTEXT_LONG_OPTION | ST_ARG_CONTEXT_SIGNAL | ST_ARG_CONTEXT_REGEX

definition all_contexts :: "st_arg_context list" where
  "all_contexts =
    [ST_ARG_CONTEXT_NONE, ST_ARG_CONTEXT_LONG_OPTION, ST_ARG_CONTEXT_SIGNAL, ST_ARG_CONTEXT_REGEX]"

text \<open>The saturating read of a signal number: it stops past 31.\<close>

fun signal_number :: "nat \<Rightarrow> bytes \<Rightarrow> nat" where
  "signal_number number [] = number"
| "signal_number number (c # s) =
     (if number \<le> 31 then signal_number (number * 10 + digit_value c) s else number)"

definition st_token_classify_context :: "bytes \<Rightarrow> st_arg_context \<Rightarrow> st_token_type" where
  "st_token_classify_context token context =
     (if token = [] then ST_TYPE_LITERAL
      else if context = ST_ARG_CONTEXT_LONG_OPTION then st_token_classify_span token
      else if context = ST_ARG_CONTEXT_SIGNAL \<and> hd token \<noteq> CHR ''-'' \<and>
              span_is_decimal_number token \<and>
              1 \<le> signal_number 0 token \<and> signal_number 0 token \<le> 31
      then ST_TYPE_SIGNAL
      else if context = ST_ARG_CONTEXT_REGEX \<and>
              (span_has_regex_metachar token \<or> span_has token CHR ''/'')
      then ST_TYPE_REGEX
      else if span_has token CHR ''='' then ST_TYPE_LITERAL
      else st_token_classify_span token)"

definition st_arg_context_after :: "bytes \<Rightarrow> st_arg_context" where
  "st_arg_context_after token =
     (if length token \<ge> 2 \<and> token ! 0 = CHR ''-'' \<and> token ! 1 = CHR ''-'' \<and>
         span_find (drop 2 token) CHR ''='' = None
      then ST_ARG_CONTEXT_LONG_OPTION
      else if span_eq token ''kill'' \<or> span_eq token ''-s'' then ST_ARG_CONTEXT_SIGNAL
      else if span_is_regex_context token then ST_ARG_CONTEXT_REGEX
      else ST_ARG_CONTEXT_NONE)"

text \<open>The types a literal of a pattern may have at run time, as a mask.\<close>

definition st_pattern_literal_types :: "st_token list \<Rightarrow> nat \<Rightarrow> type_mask" where
  "st_pattern_literal_types tokens pos =
     (let literal = tokens ! pos in
      if pos = 0 \<or> (\<not> tk_compound (tokens ! (pos - 1)) \<and> tk_type (tokens ! (pos - 1)) = ST_TYPE_LITERAL)
      then let context = (if pos = 0 then ST_ARG_CONTEXT_NONE
                          else st_arg_context_after (tk_text (tokens ! (pos - 1))))
           in type_bit (st_token_classify_context (tk_text literal) context)
      else foldl (\<lambda>types context. types OR type_bit (st_token_classify_context (tk_text literal) context))
             0 all_contexts)"

section \<open>Readers of a netargv\<close>

text \<open>\<open>None\<close> is a \<^verbatim>\<open>NULL\<close> data pointer.\<close>

record st_netargv_view =
  na_data :: "bytes option"
  na_length :: nat

function validate_loop :: "nat \<Rightarrow> bytes \<Rightarrow> nat result" where
  "validate_loop count s =
     (case ns_parse s of
        Inr (_, rest) \<Rightarrow>
          (if count = ST_MAX_CMD_TOKENS then Inl ST_ERR_LIMIT else validate_loop (count + 1) rest)
      | Inl status \<Rightarrow>
          (if status = SHELL_NETSTRING_EOVERFLOW then Inl ST_ERR_LIMIT
           else if status \<noteq> SHELL_NETSTRING_DONE then Inl ST_ERR_FORMAT
           else Inr count))"
  by pat_completeness auto
termination
  by (relation "measure (\<lambda>(_, s). length s)") (auto dest: ns_parse_shorter)

declare validate_loop.simps [simp del]

definition validate_netargv_view :: "st_netargv_view \<Rightarrow> nat result" where
  "validate_netargv_view netargv =
     (if na_data netargv = None \<and> na_length netargv \<noteq> 0 then Inl ST_ERR_FORMAT
      else case shell_netstring_iter_init (na_data netargv) (na_length netargv) of
        Inl _ \<Rightarrow> Inl ST_ERR_FORMAT
      | Inr iter \<Rightarrow> validate_loop 0 (ns_data iter))"

text \<open>The scratch reader's loop: the tokens written so far, in order.\<close>

function scratch_loop ::
    "nat \<Rightarrow> st_arg_context \<Rightarrow> st_token list \<Rightarrow> bytes \<Rightarrow> st_token list result" where
  "scratch_loop count context tokens s =
     (case ns_parse s of
        Inr (payload, rest) \<Rightarrow>
          (if count = ST_MAX_CMD_TOKENS then Inl ST_ERR_LIMIT
           else scratch_loop (count + 1) (st_arg_context_after payload)
             (tokens @ [plain_token payload (st_token_classify_context payload context)]) rest)
      | Inl status \<Rightarrow>
          (if status = SHELL_NETSTRING_EOVERFLOW then Inl ST_ERR_LIMIT
           else if status \<noteq> SHELL_NETSTRING_DONE then Inl ST_ERR_FORMAT
           else Inr tokens))"
  by pat_completeness auto
termination
  by (relation "measure (\<lambda>(_, _, _, s). length s)") (auto dest: ns_parse_shorter)

declare scratch_loop.simps [simp del]

definition st_netargv_classify_scratch_view :: "st_netargv_view \<Rightarrow> st_token list result" where
  "st_netargv_classify_scratch_view netargv =
     (case shell_netstring_iter_init (na_data netargv) (na_length netargv) of
        Inl _ \<Rightarrow> Inl ST_ERR_INVALID
      | Inr iter \<Rightarrow> scratch_loop 0 ST_ARG_CONTEXT_NONE [] (ns_data iter))"

text \<open>The visitor carries the caller's state and answers whether to go on.\<close>

fun visit_loop ::
    "(st_token \<Rightarrow> 's \<Rightarrow> bool \<times> 's) \<Rightarrow> nat \<Rightarrow> st_arg_context \<Rightarrow> nat \<Rightarrow> bytes \<Rightarrow> 's \<Rightarrow>
      st_error \<times> nat \<times> 's" where
  "visit_loop visitor 0 context visited s user = (ST_OK, visited, user)"
| "visit_loop visitor (Suc left) context visited s user =
     (case ns_parse s of
        Inl _ \<Rightarrow> (ST_ERR_FORMAT, visited, user)
      | Inr (payload, rest) \<Rightarrow>
          (let token = plain_token payload (st_token_classify_context payload context);
               (go, user') = visitor token user in
           if go then visit_loop visitor left (st_arg_context_after payload) (visited + 1) rest user'
           else (ST_OK, visited + 1, user')))"

definition st_netargv_visit_view ::
    "st_netargv_view \<Rightarrow> (st_token \<Rightarrow> 's \<Rightarrow> bool \<times> 's) \<Rightarrow> 's \<Rightarrow> st_error \<times> nat \<times> 's" where
  "st_netargv_visit_view netargv visitor user =
     (if na_data netargv = None \<and> na_length netargv \<noteq> 0 then (ST_ERR_INVALID, 0, user)
      else case validate_netargv_view netargv of
        Inl e \<Rightarrow> (e, 0, user)
      | Inr count \<Rightarrow>
          (case shell_netstring_iter_init (na_data netargv) (na_length netargv) of
             Inl _ \<Rightarrow> (ST_ERR_FORMAT, 0, user)
           | Inr iter \<Rightarrow> visit_loop visitor count ST_ARG_CONTEXT_NONE 0 (ns_data iter) user))"

fun classify_loop ::
    "nat \<Rightarrow> st_arg_context \<Rightarrow> st_token list \<Rightarrow> bytes \<Rightarrow> st_token list result" where
  "classify_loop 0 context tokens s = Inr tokens"
| "classify_loop (Suc left) context tokens s =
     (case ns_parse s of
        Inl _ \<Rightarrow> Inl ST_ERR_MEMORY
      | Inr (payload, rest) \<Rightarrow>
          classify_loop left (st_arg_context_after payload)
            (tokens @ [plain_token payload (st_token_classify_context payload context)]) rest)"

definition st_netargv_classify_view :: "st_netargv_view \<Rightarrow> st_token list result" where
  "st_netargv_classify_view netargv =
     (if na_data netargv = None \<and> na_length netargv \<noteq> 0 then Inl ST_ERR_INVALID
      else bind_result (validate_netargv_view netargv) (\<lambda>raw_count.
        if raw_count = 0 then Inr []
        else case shell_netstring_iter_init (na_data netargv) (na_length netargv) of
          Inl _ \<Rightarrow> Inl ST_ERR_MEMORY
        | Inr iter \<Rightarrow> classify_loop raw_count ST_ARG_CONTEXT_NONE [] (ns_data iter)))"

section \<open>The shared meaning\<close>

text \<open>Classifying a list of arguments from a context on.\<close>

fun classify_args :: "st_arg_context \<Rightarrow> bytes list \<Rightarrow> st_token list" where
  "classify_args context [] = []"
| "classify_args context (a # as) =
     plain_token a (st_token_classify_context a context) # classify_args (st_arg_context_after a) as"

definition classify_argv :: "bytes list \<Rightarrow> st_token list" where
  "classify_argv = classify_args ST_ARG_CONTEXT_NONE"

definition argv_view :: "bytes list \<Rightarrow> st_netargv_view" where
  "argv_view args =
     (let s = concat (map netstring args) in \<lparr>na_data = Some s, na_length = length s\<rparr>)"

lemma plain_token_simps [simp]:
  "tk_text (plain_token s t) = s" "tk_type (plain_token s t) = t"
  "\<not> tk_compound (plain_token s t)"
  by (simp_all add: plain_token_def)

lemma length_classify_args [simp]: "length (classify_args c as) = length as"
  by (induction c as rule: classify_args.induct) auto

lemma classify_args_text [simp]: "map tk_text (classify_args c as) = as"
  by (induction c as rule: classify_args.induct) auto

text \<open>What each loop answers for the payloads and the final status.\<close>

definition argv_status :: "nat \<Rightarrow> bytes list \<times> shell_netstring_status \<Rightarrow> bytes list result" where
  "argv_status count pe =
     (if count + length (fst pe) > ST_MAX_CMD_TOKENS then Inl ST_ERR_LIMIT
      else if snd pe = SHELL_NETSTRING_EOVERFLOW then Inl ST_ERR_LIMIT
      else if snd pe \<noteq> SHELL_NETSTRING_DONE then Inl ST_ERR_FORMAT
      else Inr (fst pe))"

lemma validate_loop_eq:
  "count \<le> ST_MAX_CMD_TOKENS \<Longrightarrow>
   validate_loop count s = map_sum id (\<lambda>ps. count + length ps) (argv_status count (ns_payloads s))"
proof (induction count s rule: validate_loop.induct)
  case (1 count s)
  then show ?case
    by (subst validate_loop.simps)
       (auto simp: argv_status_def ns_payloads_Inl ns_payloads_Inr split: sum.splits prod.splits)
qed

lemma scratch_loop_eq:
  "count \<le> ST_MAX_CMD_TOKENS \<Longrightarrow>
   scratch_loop count context tokens s =
     map_sum id (\<lambda>ps. tokens @ classify_args context ps) (argv_status count (ns_payloads s))"
proof (induction count "context" tokens s rule: scratch_loop.induct)
  case (1 count ctx tokens s)
  then show ?case
    by (subst scratch_loop.simps)
       (auto simp: argv_status_def ns_payloads_Inl ns_payloads_Inr split: sum.splits prod.splits)
qed

lemma classify_loop_eq:
  "length (fst (ns_payloads s)) \<ge> n \<Longrightarrow>
   classify_loop n context tokens s = Inr (tokens @ classify_args context (take n (fst (ns_payloads s))))"
proof (induction n "context" tokens s rule: classify_loop.induct)
  case (2 n ctx tokens s)
  then show ?case
    by (cases "ns_parse s") (auto simp: ns_payloads_Inl ns_payloads_Inr split: prod.splits)
qed simp

text \<open>A visitor run over a token list, stopping when it says so.\<close>

fun visit_tokens :: "(st_token \<Rightarrow> 's \<Rightarrow> bool \<times> 's) \<Rightarrow> nat \<Rightarrow> st_token list \<Rightarrow> 's \<Rightarrow> nat \<times> 's" where
  "visit_tokens visitor n [] user = (n, user)"
| "visit_tokens visitor n (t # ts) user =
     (case visitor t user of (go, user') \<Rightarrow>
        if go then visit_tokens visitor (n + 1) ts user' else (n + 1, user'))"

lemma visit_loop_eq:
  "length (fst (ns_payloads s)) \<ge> n \<Longrightarrow>
   visit_loop visitor n context visited s user =
     (ST_OK, visit_tokens visitor visited (classify_args context (take n (fst (ns_payloads s)))) user)"
proof (induction visitor n "context" visited s user rule: visit_loop.induct)
  case (2 visitor n ctx visited s user)
  then show ?case
    by (cases "ns_parse s") (auto simp: ns_payloads_Inl ns_payloads_Inr Let_def split: prod.splits)
qed simp

lemma iter_init_Some [simp]:
  "shell_netstring_iter_init (Some bs) n = Inr \<lparr>ns_data = take n bs, ns_offset = 0\<rparr>"
  by (simp add: shell_netstring_iter_init_def)

lemma scratch_view_eq:
  "st_netargv_classify_scratch_view \<lparr>na_data = Some bs, na_length = n\<rparr> =
     map_sum id classify_argv (argv_status 0 (ns_payloads (take n bs)))"
  by (simp add: st_netargv_classify_scratch_view_def scratch_loop_eq classify_argv_def)

lemma validate_view_eq:
  "validate_netargv_view \<lparr>na_data = Some bs, na_length = n\<rparr> =
     map_sum id length (argv_status 0 (ns_payloads (take n bs)))"
  by (simp add: validate_netargv_view_def validate_loop_eq)

lemma argv_status_Inr [simp]:
  "argv_status count (ps, SHELL_NETSTRING_DONE) =
     (if count + length ps > ST_MAX_CMD_TOKENS then Inl ST_ERR_LIMIT else Inr ps)"
  by (simp add: argv_status_def)

lemma argv_status_take:
  "argv_status 0 pe = Inr ps \<Longrightarrow> fst pe = ps"
  by (auto simp: argv_status_def split: if_splits)

lemma classify_view_eq:
  "st_netargv_classify_view \<lparr>na_data = Some bs, na_length = n\<rparr> =
     map_sum id classify_argv (argv_status 0 (ns_payloads (take n bs)))"
  by (cases "argv_status 0 (ns_payloads (take n bs))")
     (auto simp: st_netargv_classify_view_def validate_view_eq classify_loop_eq classify_argv_def
        dest!: argv_status_take)

lemma visit_view_eq:
  "st_netargv_visit_view \<lparr>na_data = Some bs, na_length = n\<rparr> visitor user =
     (case argv_status 0 (ns_payloads (take n bs)) of
        Inl e \<Rightarrow> (e, 0, user)
      | Inr args \<Rightarrow> (ST_OK, visit_tokens visitor 0 (classify_argv args) user))"
  by (cases "argv_status 0 (ns_payloads (take n bs))")
     (auto simp: st_netargv_visit_view_def validate_view_eq visit_loop_eq classify_argv_def
        dest!: argv_status_take)

text \<open>The bytes of a view, none for a missing pointer with a length, and what a reader makes of
  them.\<close>

definition netargv_bytes :: "st_netargv_view \<Rightarrow> bytes option" where
  "netargv_bytes v =
     (case na_data v of None \<Rightarrow> if na_length v = 0 then Some [] else None | Some s \<Rightarrow> Some (take (na_length v) s))"

definition netargv_meaning :: "st_netargv_view \<Rightarrow> st_token list result" where
  "netargv_meaning v =
     (case netargv_bytes v of
        None \<Rightarrow> Inl ST_ERR_INVALID
      | Some s \<Rightarrow> map_sum id classify_argv (argv_status 0 (ns_payloads s)))"

lemma readers_meaning:
  "st_netargv_classify_scratch_view v = netargv_meaning v"
  "st_netargv_classify_view v = netargv_meaning v"
  "st_netargv_visit_view v visitor user =
     (case netargv_meaning v of Inl e \<Rightarrow> (e, 0, user) | Inr tokens \<Rightarrow> (ST_OK, visit_tokens visitor 0 tokens user))"
proof -
  obtain d n where v: "v = \<lparr>na_data = d, na_length = n\<rparr>" by (cases v)
  have none: "ns_payloads [] = ([], SHELL_NETSTRING_DONE)" by (simp add: ns_payloads_Inl ns_parse_def)
  have count: "validate_loop 0 [] = Inr 0" "scratch_loop 0 ST_ARG_CONTEXT_NONE [] [] = Inr []"
    by (simp_all add: validate_loop_eq scratch_loop_eq none)
  show "st_netargv_classify_scratch_view v = netargv_meaning v"
    unfolding v by (cases d) (simp_all add: netargv_meaning_def netargv_bytes_def scratch_view_eq none count
        st_netargv_classify_scratch_view_def [of "\<lparr>na_data = None, na_length = n\<rparr>"] shell_netstring_iter_init_def classify_argv_def)
  show "st_netargv_classify_view v = netargv_meaning v"
    unfolding v by (cases d) (simp_all add: netargv_meaning_def netargv_bytes_def classify_view_eq none count validate_netargv_view_def
        st_netargv_classify_view_def [of "\<lparr>na_data = None, na_length = n\<rparr>"] shell_netstring_iter_init_def classify_argv_def)
  show "st_netargv_visit_view v visitor user =
     (case netargv_meaning v of Inl e \<Rightarrow> (e, 0, user) | Inr tokens \<Rightarrow> (ST_OK, visit_tokens visitor 0 tokens user))"
    unfolding v by (cases d) (auto simp: netargv_meaning_def netargv_bytes_def visit_view_eq none count validate_netargv_view_def
        st_netargv_visit_view_def [of "\<lparr>na_data = None, na_length = n\<rparr>"] shell_netstring_iter_init_def classify_argv_def split: sum.splits)
qed

section \<open>Properties\<close>

text \<open>C7: The three readers of a netargv agree with the classification of the decoded payloads, on every
  view. The scratch reader returns tokens exactly when the bytes are the canonical netstrings of at most
  128 arguments, and the tokens are then those arguments, each classified in the context its
  predecessor leaves; otherwise the error is that of a missing pointer, of the limits or of the format.
  The owned array is the same result, and the visitor is called on the same tokens.\<close>

theorem netargv_readers_agree:
  "(st_netargv_classify_scratch_view v = Inr tokens \<longleftrightarrow>
      (\<exists>args. netargv_bytes v = Some (concat (map netstring args)) \<and> list_all (\<lambda>a. length a \<le> SIZE_MAX) args \<and>
         length args \<le> ST_MAX_CMD_TOKENS \<and> tokens = classify_argv args)) \<and>
   (st_netargv_classify_scratch_view v = Inl e \<longleftrightarrow>
      (case netargv_bytes v of
         None \<Rightarrow> e = ST_ERR_INVALID
       | Some s \<Rightarrow>
           (case ns_payloads s of (args, status) \<Rightarrow>
              if length args > ST_MAX_CMD_TOKENS \<or> status = SHELL_NETSTRING_EOVERFLOW then e = ST_ERR_LIMIT
              else status \<noteq> SHELL_NETSTRING_DONE \<and> e = ST_ERR_FORMAT))) \<and>
   st_netargv_classify_view v = st_netargv_classify_scratch_view v \<and>
   st_netargv_visit_view v visitor user =
     (case st_netargv_classify_scratch_view v of
        Inl e \<Rightarrow> (e, 0, user)
      | Inr tokens \<Rightarrow> (ST_OK, visit_tokens visitor 0 tokens user))"
proof -
  have "netargv_meaning v = Inr tokens \<longleftrightarrow>
      (\<exists>args. netargv_bytes v = Some (concat (map netstring args)) \<and> list_all (\<lambda>a. length a \<le> SIZE_MAX) args \<and>
         length args \<le> ST_MAX_CMD_TOKENS \<and> tokens = classify_argv args)"
  proof
    assume L: "netargv_meaning v = Inr tokens"
    then obtain s args where s: "netargv_bytes v = Some s" "argv_status 0 (ns_payloads s) = Inr args" "tokens = classify_argv args"
      by (cases "netargv_bytes v"; cases "argv_status 0 (ns_payloads (the (netargv_bytes v)))") (auto simp: netargv_meaning_def)
    then have "ns_payloads s = (args, SHELL_NETSTRING_DONE)" "length args \<le> ST_MAX_CMD_TOKENS"
      by (cases "ns_payloads s"; auto simp: argv_status_def split: if_splits)+
    then show "\<exists>args. netargv_bytes v = Some (concat (map netstring args)) \<and> list_all (\<lambda>a. length a \<le> SIZE_MAX) args \<and>
         length args \<le> ST_MAX_CMD_TOKENS \<and> tokens = classify_argv args"
      using s by (intro exI [of _ args]) (auto simp: ns_payloads_DONE_iff list_all_iff)
  next
    assume "\<exists>args. netargv_bytes v = Some (concat (map netstring args)) \<and> list_all (\<lambda>a. length a \<le> SIZE_MAX) args \<and>
         length args \<le> ST_MAX_CMD_TOKENS \<and> tokens = classify_argv args"
    then show "netargv_meaning v = Inr tokens"
      by (auto simp: netargv_meaning_def ns_payloads_concat list_all_iff)
  qed
  moreover have "netargv_meaning v = Inl e \<longleftrightarrow>
      (case netargv_bytes v of
         None \<Rightarrow> e = ST_ERR_INVALID
       | Some s \<Rightarrow>
           (case ns_payloads s of (args, status) \<Rightarrow>
              if length args > ST_MAX_CMD_TOKENS \<or> status = SHELL_NETSTRING_EOVERFLOW then e = ST_ERR_LIMIT
              else status \<noteq> SHELL_NETSTRING_DONE \<and> e = ST_ERR_FORMAT))"
    by (auto simp: netargv_meaning_def argv_status_def split: option.splits prod.splits)
  ultimately show ?thesis by (simp add: readers_meaning)
qed

end
