(* ===== verification/Netpattern.thy ===== *)
theory Netpattern imports Argv begin

text \<open>
  The canonical binary form of a policy pattern, from
  \<^verbatim>\<open>shelltype/src/netpattern.c\<close>: wildcard spellings, tagged records
  (a netstring holding a one-byte tag and a value, each a netstring), the encoder, the decoder
  with its re-encoding check, and the order of canonical patterns.
\<close>

section \<open>Wildcard spellings\<close>

definition wildcard_spells :: "bytes \<Rightarrow> st_token_type \<Rightarrow> bool" where
  "wildcard_spells text t =
     (let symbol = st_type_symbol t; n = length symbol in
      text = symbol \<or>
      (symbol \<noteq> [] \<and> hd symbol = CHR ''#'' \<and> take n text = symbol \<and>
       drop n text \<noteq> [] \<and> text ! n = CHR ''.'' \<and>
       st_metadata_lookup t (drop (n + 1) text) \<noteq> None))"

text \<open>The argument is a C string.\<close>

definition wildcard_type :: "bytes \<Rightarrow> st_token_type" where
  "wildcard_type s =
     (let text = cstr s in
      if text = ''*'' then ST_TYPE_ANY
      else case List.find (wildcard_spells text) (tl all_token_types) of
        None \<Rightarrow> ST_TYPE_LITERAL
      | Some t \<Rightarrow> t)"

definition wildcard_spelling :: "bytes \<Rightarrow> bool" where
  "wildcard_spelling text \<longleftrightarrow> wildcard_type text \<noteq> ST_TYPE_LITERAL"

definition canonical_wildcard :: "bytes \<Rightarrow> (st_token_type \<times> bytes) option" where
  "canonical_wildcard s =
     (let text = cstr s; t = wildcard_type text in
      if t = ST_TYPE_LITERAL then None
      else let symbol = st_type_symbol t; n = length symbol in
        if drop n text = [] \<or> text ! n \<noteq> CHR ''.'' then Some (t, symbol)
        else case st_metadata_lookup t (drop (n + 1) text) of
          None \<Rightarrow> None
        | Some metadata \<Rightarrow>
            (let written = symbol @ CHR ''.'' # me_name metadata in
             if length written < ST_MAX_TOKEN_LEN then Some (t, written) else None))"

definition canonical_wildcard_view :: "bytes \<Rightarrow> (st_token_type \<times> bytes) option" where
  "canonical_wildcard_view text =
     (if length text \<ge> ST_MAX_TOKEN_LEN \<or> NUL \<in> set text then None else canonical_wildcard text)"

section \<open>Encoding\<close>

definition encode_tagged_record :: "char \<Rightarrow> bytes \<Rightarrow> bytes result" where
  "encode_tagged_record tag value =
     (case (shell_netstring_encoded_length 1, shell_netstring_encoded_length (length value)) of
        (Inr tag_length, Inr value_record_length) \<Rightarrow>
          (if tag_length > SIZE_MAX - value_record_length then Inl ST_ERR_LIMIT
           else let payload_length = tag_length + value_record_length in
             case shell_netstring_encoded_length payload_length of
               Inl _ \<Rightarrow> Inl ST_ERR_LIMIT
             | Inr total_len \<Rightarrow>
                 (case shell_netstring_write_prefix (replicate total_len NUL) payload_length of
                    Inl _ \<Rightarrow> Inl ST_ERR_LIMIT
                  | Inr (record0, used0) \<Rightarrow>
                      (case shell_netstring_write (drop used0 record0) (Some [tag]) 1 of
                         Inl _ \<Rightarrow> Inl ST_ERR_LIMIT
                       | Inr (record1, used1) \<Rightarrow>
                           (case shell_netstring_write (drop used1 record1) (Some value) (length value) of
                              Inl _ \<Rightarrow> Inl ST_ERR_LIMIT
                            | Inr (record2, used2) \<Rightarrow>
                                Inr (take used0 record0 @ take used1 record1 @ take used2 record2 @
                                     [CHR '',''])))))
      | _ \<Rightarrow> Inl ST_ERR_LIMIT)"

text \<open>A token as a caller passes it: nullable pointers with lengths, zero selecting
  \<^verbatim>\<open>strlen\<close> for a nonempty C string.\<close>

record st_token_arg =
  arg_text :: "bytes option"
  arg_text_length :: nat
  arg_type :: st_token_type
  arg_compound :: bool
  arg_prefix :: "bytes option"
  arg_prefix_length :: nat
  arg_capture :: "bytes option"
  arg_capture_length :: nat
  arg_suffix :: "bytes option"
  arg_suffix_length :: nat
  arg_capture_type :: st_token_type

definition component_length :: "bytes option \<Rightarrow> nat \<Rightarrow> nat" where
  "component_length text explicit_length =
     (case text of
        None \<Rightarrow> 0
      | Some s \<Rightarrow> if explicit_length \<noteq> 0 \<or> cstr s = [] then explicit_length else length (cstr s))"

definition component_bytes :: "bytes option \<Rightarrow> nat \<Rightarrow> bytes" where
  "component_bytes text explicit_length =
     (case text of None \<Rightarrow> [] | Some s \<Rightarrow> take (component_length text explicit_length) s)"

text \<open>Concatenation with the size check of each step.\<close>

fun join_records :: "nat \<Rightarrow> bytes list \<Rightarrow> bytes result" where
  "join_records total_len [] = Inr []"
| "join_records total_len (r # rs) =
     (if total_len > SIZE_MAX - length r then Inl ST_ERR_LIMIT
      else bind_result (join_records (total_len + length r) rs) (\<lambda>tail. Inr (r @ tail)))"

definition encode_compound :: "bytes \<Rightarrow> bytes \<Rightarrow> bytes \<Rightarrow> bytes result" where
  "encode_compound prefix wild suffix =
     bind_result (if prefix \<noteq> [] then map_result (encode_tagged_record CHR ''L'') [prefix] else Inr [])
       (\<lambda>ps. bind_result (encode_tagged_record CHR ''T'' wild)
       (\<lambda>t. bind_result (if suffix \<noteq> [] then map_result (encode_tagged_record CHR ''L'') [suffix] else Inr [])
       (\<lambda>ss. bind_result (join_records 0 (ps @ [t] @ ss))
       (\<lambda>nested. encode_tagged_record CHR ''C'' nested))))"

text \<open>The canonical wildcard of a token that is not a literal.\<close>

definition typed_wildcard :: "st_token_type \<Rightarrow> bytes \<Rightarrow> (st_token_type \<times> bytes) option" where
  "typed_wildcard t s = (if t = ST_TYPE_LITERAL then None else canonical_wildcard_view s)"

definition encode_token :: "st_token_arg \<Rightarrow> bytes result" where
  "encode_token tok =
     (if arg_compound tok then
        (let prefix = component_bytes (arg_prefix tok) (arg_prefix_length tok);
             capture = component_bytes (arg_capture tok) (arg_capture_length tok);
             suffix = component_bytes (arg_suffix tok) (arg_suffix_length tok) in
         if arg_prefix tok = None \<or> arg_capture tok = None \<or> arg_suffix tok = None \<or>
            arg_capture_type tok = ST_TYPE_LITERAL \<or> (prefix = [] \<and> suffix = [])
         then Inl ST_ERR_INVALID
         else if length prefix \<ge> ST_MAX_TOKEN_LEN \<or> length capture \<ge> ST_MAX_TOKEN_LEN \<or>
                 length suffix \<ge> ST_MAX_TOKEN_LEN
         then Inl ST_ERR_LIMIT
         else case canonical_wildcard_view capture of
           None \<Rightarrow> Inl ST_ERR_FORMAT
         | Some (t, wild) \<Rightarrow>
             (if t \<noteq> arg_capture_type tok then Inl ST_ERR_FORMAT
              else encode_compound prefix wild suffix))
      else case arg_text tok of
        None \<Rightarrow> Inl ST_ERR_INVALID
      | Some _ \<Rightarrow>
          (let text = component_bytes (arg_text tok) (arg_text_length tok) in
           if length text \<ge> ST_MAX_TOKEN_LEN then Inl ST_ERR_LIMIT
           else case typed_wildcard (arg_type tok) text of
             None \<Rightarrow> encode_tagged_record CHR ''L'' text
           | Some (t, wild) \<Rightarrow>
               (if t \<noteq> arg_type tok then Inl ST_ERR_FORMAT
                else encode_tagged_record CHR ''T'' wild)))"

definition st_netpattern_encode_owned :: "st_token_arg list option \<Rightarrow> bytes result" where
  "st_netpattern_encode_owned tokens =
     (case tokens of
        None \<Rightarrow> Inl ST_ERR_INVALID
      | Some toks \<Rightarrow>
          (if toks = [] \<or> length toks > ST_MAX_CMD_TOKENS then Inl ST_ERR_INVALID
           else bind_result (map_result encode_token toks) (\<lambda>records.
                bind_result (join_records 0 records) (\<lambda>encoded.
                if length encoded \<ge> ST_MAX_NETPATTERN_LEN then Inl ST_ERR_LIMIT
                else Inr encoded))))"

section \<open>Decoding\<close>

text \<open>The tag and value of a record's payload.\<close>

definition decode_tagged :: "bytes \<Rightarrow> (char \<times> bytes) option" where
  "decode_tagged payload =
     (case ns_parse payload of
        Inl _ \<Rightarrow> None
      | Inr (tag, r) \<Rightarrow>
          (case ns_parse r of
             Inl _ \<Rightarrow> None
           | Inr (value, r') \<Rightarrow> if r' \<noteq> [] \<or> length tag \<noteq> 1 then None else Some (hd tag, value)))"

text \<open>At most \<open>n\<close> further parts of a compound, and the bytes after them. \<open>seen\<close> tells
  whether a typed part came before.\<close>

fun decode_parts :: "nat \<Rightarrow> bool \<Rightarrow> bytes \<Rightarrow> ((char \<times> bytes) list \<times> bytes) option" where
  "decode_parts 0 seen s = Some ([], s)"
| "decode_parts (Suc n) seen s =
     (if s = [] then Some ([], [])
      else case ns_parse s of
        Inl _ \<Rightarrow> None
      | Inr (payload, rest) \<Rightarrow>
          (case decode_tagged payload of
             None \<Rightarrow> None
           | Some (tag, value) \<Rightarrow>
               (if (tag \<noteq> CHR ''L'' \<and> tag \<noteq> CHR ''T'') \<or> length value \<ge> ST_MAX_TOKEN_LEN then None
                else if tag = CHR ''T'' \<and> seen then None
                else case decode_parts n (seen \<or> tag = CHR ''T'') rest of
                  None \<Rightarrow> None
                | Some (parts, r) \<Rightarrow> Some ((tag, value) # parts, r))))"

definition compound_display :: "bytes \<Rightarrow> bytes \<Rightarrow> bytes \<Rightarrow> bytes" where
  "compound_display prefix capture suffix = prefix @ CHR ''{'' # capture @ CHR ''}'' # suffix"

definition compound_token :: "bytes \<Rightarrow> bytes \<Rightarrow> bytes \<Rightarrow> st_token_type \<Rightarrow> st_token" where
  "compound_token prefix capture suffix capture_type =
     \<lparr>tk_text = compound_display prefix capture suffix, tk_type = ST_TYPE_LITERAL, tk_compound = True,
      tk_prefix = prefix, tk_capture = capture, tk_suffix = suffix, tk_capture_type = capture_type\<rparr>"

text \<open>The canonical part orders are literal-typed, typed-literal and literal-typed-literal.\<close>

definition compound_parts :: "(char \<times> bytes) list \<Rightarrow> (bytes \<times> bytes \<times> bytes) option" where
  "compound_parts parts =
     (case parts of
        [(a, x), (b, y)] \<Rightarrow>
          (if a = CHR ''L'' \<and> b = CHR ''T'' then Some (x, y, [])
           else if a = CHR ''T'' \<and> b = CHR ''L'' then Some ([], x, y) else None)
      | [(a, x), (b, y), (c, z)] \<Rightarrow>
          (if a = CHR ''L'' \<and> b = CHR ''T'' \<and> c = CHR ''L'' then Some (x, y, z) else None)
      | _ \<Rightarrow> None)"

definition decode_compound :: "bytes \<Rightarrow> st_token result" where
  "decode_compound value =
     (case decode_parts 3 False value of
        None \<Rightarrow> Inl ST_ERR_FORMAT
      | Some (parts, rest) \<Rightarrow>
          (if rest \<noteq> [] then Inl ST_ERR_FORMAT
           else case compound_parts parts of
             None \<Rightarrow> Inl ST_ERR_FORMAT
           | Some (prefix, typed, suffix) \<Rightarrow>
               (let capture_type = wildcard_type typed in
                if capture_type = ST_TYPE_LITERAL then Inl ST_ERR_FORMAT
                else if prefix = [] \<and> suffix = [] then Inl ST_ERR_FORMAT
                else Inr (compound_token prefix typed suffix capture_type))))"

definition decode_record :: "bytes \<Rightarrow> st_token result" where
  "decode_record payload =
     (case decode_tagged payload of
        None \<Rightarrow> Inl ST_ERR_FORMAT
      | Some (tag, value) \<Rightarrow>
          (if (tag \<noteq> CHR ''L'' \<and> tag \<noteq> CHR ''T'' \<and> tag \<noteq> CHR ''C'') \<or>
              length value \<ge> ST_MAX_NETPATTERN_LEN then Inl ST_ERR_FORMAT
           else if tag = CHR ''C'' then decode_compound value
           else if length value \<ge> ST_MAX_TOKEN_LEN then Inl ST_ERR_FORMAT
           else if tag = CHR ''T'' then
             (if \<not> wildcard_spelling value then Inl ST_ERR_FORMAT
              else Inr (plain_token value (wildcard_type value)))
           else Inr (plain_token value ST_TYPE_LITERAL)))"

function decode_loop :: "nat \<Rightarrow> bytes \<Rightarrow> st_token list result" where
  "decode_loop count s =
     (if s = [] then Inr []
      else if count = ST_MAX_CMD_TOKENS then Inl ST_ERR_LIMIT
      else case ns_parse s of
        Inl status \<Rightarrow> Inl (if status = SHELL_NETSTRING_EOVERFLOW then ST_ERR_LIMIT else ST_ERR_FORMAT)
      | Inr (payload, rest) \<Rightarrow>
          (case decode_record payload of
             Inl e \<Rightarrow> Inl e
           | Inr token \<Rightarrow>
               (case decode_loop (count + 1) rest of
                  Inl e \<Rightarrow> Inl e
                | Inr tokens \<Rightarrow> Inr (token # tokens))))"
  by pat_completeness auto
termination
  by (relation "measure (\<lambda>(_, s). length s)") (auto dest: ns_parse_shorter)

declare decode_loop.simps [simp del]

definition token_arg :: "st_token \<Rightarrow> st_token_arg" where
  "token_arg t =
     \<lparr>arg_text = Some (tk_text t), arg_text_length = length (tk_text t), arg_type = tk_type t,
      arg_compound = tk_compound t,
      arg_prefix = Some (tk_prefix t), arg_prefix_length = length (tk_prefix t),
      arg_capture = Some (tk_capture t), arg_capture_length = length (tk_capture t),
      arg_suffix = Some (tk_suffix t), arg_suffix_length = length (tk_suffix t),
      arg_capture_type = tk_capture_type t\<rparr>"

record st_netpattern_view =
  np_data :: "bytes option"
  np_length :: nat

definition np_view :: "bytes \<Rightarrow> st_netpattern_view" where
  "np_view s = \<lparr>np_data = Some s, np_length = length s\<rparr>"

definition st_netpattern_decode_view :: "st_netpattern_view \<Rightarrow> st_token list result" where
  "st_netpattern_decode_view netpattern =
     (if np_data netpattern = None \<and> np_length netpattern \<noteq> 0 then Inl ST_ERR_INVALID
      else if np_length netpattern = 0 \<or> np_length netpattern \<ge> ST_MAX_NETPATTERN_LEN
      then Inl ST_ERR_FORMAT
      else let encoded = take (np_length netpattern) (the (np_data netpattern)) in
        bind_result (decode_loop 0 encoded) (\<lambda>tokens.
          if tokens = [] then Inl ST_ERR_FORMAT
          else case st_netpattern_encode_owned (Some (map token_arg tokens)) of
            Inl e \<Rightarrow> Inl (if e = ST_ERR_MEMORY then ST_ERR_MEMORY
                          else if e = ST_ERR_LIMIT then ST_ERR_LIMIT else ST_ERR_FORMAT)
          | Inr canonical \<Rightarrow>
              (if canonical \<noteq> encoded then Inl ST_ERR_FORMAT else Inr tokens)))"

section \<open>Order of canonical patterns\<close>

text \<open>The sign of the C result. Malformed records fall back to the order of the whole
  spellings, which the loop carries along.\<close>

function compare_loop :: "bytes \<Rightarrow> bytes \<Rightarrow> bytes \<Rightarrow> bytes \<Rightarrow> int" where
  "compare_loop left right l r =
     (if l = [] \<or> r = [] then
        (if l = [] \<and> r = [] then 0 else if l = [] then -1 else 1)
      else case (ns_parse l, ns_parse r) of
        (Inr (lr, lrest), Inr (rr, rrest)) \<Rightarrow>
          (case (decode_tagged lr, decode_tagged rr) of
             (Some (lt, lv), Some (rt, rv)) \<Rightarrow>
               (let value_order = bytes_compare lv rv in
                if value_order \<noteq> 0 then value_order
                else if lt \<noteq> rt then (if ord lt < ord rt then -1 else 1)
                else compare_loop left right lrest rrest)
           | _ \<Rightarrow> bytes_compare left right)
      | _ \<Rightarrow> bytes_compare left right)"
  by pat_completeness auto
termination
  by (relation "measure (\<lambda>(_, _, l, _). length l)") (auto dest: ns_parse_shorter [OF sym])

declare compare_loop.simps [simp del]

definition st_netpattern_compare_view :: "st_netpattern_view \<Rightarrow> st_netpattern_view \<Rightarrow> int" where
  "st_netpattern_compare_view left right =
     (case (np_data left, np_data right) of
        (Some l, Some r) \<Rightarrow>
          (let l = take (np_length left) l; r = take (np_length right) r in compare_loop l r l r)
      | (Some _, None) \<Rightarrow> 1
      | (None, Some _) \<Rightarrow> -1
      | (None, None) \<Rightarrow> 0)"


section \<open>Wildcard spellings are canonicalised once\<close>

lemma type_symbols_plain: "CHR ''.'' \<notin> set (st_type_symbol t)" "NUL \<notin> set (st_type_symbol t)"
  "length (st_type_symbol t) \<le> 11"
  by (cases t; simp)+

lemma type_symbol_inject: "st_type_symbol a = st_type_symbol b \<longleftrightarrow> a = b"
proof -
  have "distinct (map st_type_symbol all_token_types)"
    by (simp add: all_token_types_def)
  then show ?thesis by (auto simp: distinct_map inj_on_def)
qed

lemma type_symbol_hash:
  "t \<noteq> ST_TYPE_LITERAL \<Longrightarrow> t \<noteq> ST_TYPE_ANY \<Longrightarrow> st_type_symbol t \<noteq> [] \<and> hd (st_type_symbol t) = CHR ''#''"
  by (cases t) simp_all

lemma type_symbol_nonempty: "st_type_symbol t = [] \<longleftrightarrow> t = ST_TYPE_LITERAL"
  by (cases t) simp_all

lemma wildcard_spells_base:
  assumes "wildcard_spells text t"
  shows "takeWhile (\<lambda>c. c \<noteq> CHR ''.'') text = st_type_symbol t"
proof -
  let ?n = "length (st_type_symbol t)"
  have plain: "takeWhile (\<lambda>c. c \<noteq> CHR ''.'') (st_type_symbol t @ r) =
    st_type_symbol t @ takeWhile (\<lambda>c. c \<noteq> CHR ''.'') r" for r
    using type_symbols_plain(1) [of t] by (auto intro!: takeWhile_append2)
  from assms consider "text = st_type_symbol t"
    | "take ?n text = st_type_symbol t" "drop ?n text \<noteq> []" "text ! ?n = CHR ''.''"
    by (auto simp: wildcard_spells_def Let_def)
  then show ?thesis
  proof cases
    case 1
    then show ?thesis using plain [of "[]"] by simp
  next
    case 2
    have "drop ?n text = text ! ?n # drop (Suc ?n) text"
      using Cons_nth_drop_Suc [of ?n "text"] 2 by (simp add: not_le)
    then have "text = st_type_symbol t @ CHR ''.'' # drop (Suc ?n) text"
      using append_take_drop_id [of ?n "text"] 2 by metis
    then have "takeWhile (\<lambda>c. c \<noteq> CHR ''.'') text =
        takeWhile (\<lambda>c. c \<noteq> CHR ''.'') (st_type_symbol t @ CHR ''.'' # drop (Suc ?n) text)"
      by (rule arg_cong)
    then show ?thesis by (simp add: plain)
  qed
qed

lemma wildcard_spells_unique:
  "wildcard_spells text a \<Longrightarrow> wildcard_spells text b \<Longrightarrow> a = b"
  using wildcard_spells_base type_symbol_inject by metis

lemma set_tl_types: "t \<in> set (tl all_token_types) \<longleftrightarrow> t \<noteq> ST_TYPE_LITERAL"
  by (cases t) (simp_all add: all_token_types_def)

lemma wildcard_type_eq:
  assumes "wildcard_spells (cstr s) t" "t \<noteq> ST_TYPE_LITERAL"
  shows "wildcard_type s = t"
proof (cases "cstr s = ''*''")
  case True
  have "wildcard_spells ''*'' ST_TYPE_ANY" by (simp add: wildcard_spells_def)
  then have "t = ST_TYPE_ANY" using assms True wildcard_spells_unique by metis
  then show ?thesis using True by (simp add: wildcard_type_def)
next
  case False
  have "List.find (wildcard_spells (cstr s)) (tl all_token_types) \<noteq> None"
    using assms set_tl_types by (auto simp: find_None_iff)
  then obtain u where u: "List.find (wildcard_spells (cstr s)) (tl all_token_types) = Some u"
    by blast
  then have "wildcard_spells (cstr s) u" by (auto simp: find_Some_iff)
  then have "u = t" using assms wildcard_spells_unique by blast
  then show ?thesis using u False by (simp add: wildcard_type_def)
qed

lemma wildcard_type_spells:
  assumes "wildcard_type s \<noteq> ST_TYPE_LITERAL"
  shows "wildcard_spells (cstr s) (wildcard_type s)"
proof (cases "cstr s = ''*''")
  case True
  then show ?thesis by (simp add: wildcard_type_def wildcard_spells_def)
next
  case False
  then obtain u where "List.find (wildcard_spells (cstr s)) (tl all_token_types) = Some u"
    using assms by (auto simp: wildcard_type_def split: option.splits)
  then show ?thesis using False find_Some_mem by (fastforce simp: wildcard_type_def)
qed

lemma wildcard_type_cstr [simp]: "wildcard_type (cstr s) = wildcard_type s"
  by (simp add: wildcard_type_def)

text \<open>The canonical spellings: a symbol alone, or with the canonical name of one of its
  parameters.\<close>

definition canonical_spelling :: "st_token_type \<Rightarrow> bytes \<Rightarrow> bool" where
  "canonical_spelling t w \<longleftrightarrow> t \<noteq> ST_TYPE_LITERAL \<and>
     (w = st_type_symbol t \<or>
      (\<exists>m\<in>set st_metadata_entries. me_type m = t \<and> w = st_type_symbol t @ CHR ''.'' # me_name m))"

lemma metadata_type_not_any: "m \<in> set st_metadata_entries \<Longrightarrow> me_type m \<noteq> ST_TYPE_ANY \<and> me_type m \<noteq> ST_TYPE_LITERAL"
proof -
  have "list_all (\<lambda>m. me_type m \<noteq> ST_TYPE_ANY \<and> me_type m \<noteq> ST_TYPE_LITERAL) st_metadata_entries"
    by (simp add: st_metadata_entries_def meta_entry_def)
  then show "m \<in> set st_metadata_entries \<Longrightarrow> ?thesis" by (auto simp: list_all_iff)
qed

lemma metadata_lookup_canonical:
  "m \<in> set st_metadata_entries \<Longrightarrow> st_metadata_lookup (me_type m) (me_name m) = Some m"
  using metadata_lookup_name metadata_name_plain(1) by (simp add: st_metadata_lookup_def)

lemma canonical_spelling_props:
  assumes "canonical_spelling t w"
  shows "NUL \<notin> set w" "length w < ST_MAX_TOKEN_LEN" "w \<noteq> []" "wildcard_spells w t"
proof -
  from assms have lit: "t \<noteq> ST_TYPE_LITERAL" by (simp add: canonical_spelling_def)
  from assms consider (sym) "w = st_type_symbol t"
    | (meta) m where "m \<in> set st_metadata_entries" "me_type m = t"
        "w = st_type_symbol t @ CHR ''.'' # me_name m"
    by (auto simp: canonical_spelling_def)
  then have "NUL \<notin> set w \<and> length w < ST_MAX_TOKEN_LEN \<and> w \<noteq> [] \<and> wildcard_spells w t"
  proof cases
    case sym
    then show ?thesis
      using type_symbols_plain [of t] type_symbol_nonempty [of t] lit
      by (simp add: wildcard_spells_def ST_MAX_TOKEN_LEN_def)
  next
    case meta
    then show ?thesis
      using type_symbols_plain [of t] metadata_name_plain [of m] type_symbol_hash [OF lit]
        metadata_type_not_any [of m] metadata_lookup_canonical [of m]
      by (auto simp: wildcard_spells_def nth_append)
  qed
  then show "NUL \<notin> set w" "length w < ST_MAX_TOKEN_LEN" "w \<noteq> []" "wildcard_spells w t" by auto
qed

lemma canonical_wildcard_canonical:
  assumes "canonical_wildcard s = Some (t, w)"
  shows "canonical_spelling t w"
proof -
  let ?n = "length (st_type_symbol t)"
  from assms have t: "wildcard_type s = t" "t \<noteq> ST_TYPE_LITERAL"
    by (auto simp: canonical_wildcard_def Let_def split: if_splits option.splits)
  show ?thesis
  proof (cases "drop ?n (cstr s) = [] \<or> cstr s ! ?n \<noteq> CHR ''.''")
    case True
    then have "w = st_type_symbol t" using assms t by (simp add: canonical_wildcard_def)
    then show ?thesis using t by (simp add: canonical_spelling_def)
  next
    case False
    then obtain m where m: "st_metadata_lookup t (drop (?n + 1) (cstr s)) = Some m"
      and w: "w = st_type_symbol t @ CHR ''.'' # me_name m"
      using assms t by (auto simp: canonical_wildcard_def Let_def split: option.splits if_splits)
    from lookup_span_entry [OF m [unfolded st_metadata_lookup_def]]
    show ?thesis using t w unfolding canonical_spelling_def by blast
  qed
qed

lemma canonical_wildcard_fixed:
  assumes "canonical_spelling t w"
  shows "canonical_wildcard_view w = Some (t, w)" "wildcard_type w = t"
proof -
  note props = canonical_spelling_props [OF assms]
  from assms have lit: "t \<noteq> ST_TYPE_LITERAL" by (simp add: canonical_spelling_def)
  show t: "wildcard_type w = t" using wildcard_type_eq [of w t] props lit by simp
  from assms consider (sym) "w = st_type_symbol t"
    | (meta) m where "m \<in> set st_metadata_entries" "me_type m = t"
        "w = st_type_symbol t @ CHR ''.'' # me_name m"
    by (auto simp: canonical_spelling_def)
  then show "canonical_wildcard_view w = Some (t, w)"
  proof cases
    case sym
    then show ?thesis using t props lit
      by (simp add: canonical_wildcard_view_def canonical_wildcard_def)
  next
    case meta
    then show ?thesis using t props lit metadata_lookup_canonical [of m]
      by (simp add: canonical_wildcard_view_def canonical_wildcard_def nth_append)
  qed
qed

lemma canonical_wildcard_view_canonical:
  "canonical_wildcard_view s = Some (t, w) \<Longrightarrow> canonical_spelling t w"
  using canonical_wildcard_canonical by (simp add: canonical_wildcard_view_def split: if_splits)

lemma canonical_wildcard_view_iff:
  "canonical_wildcard_view w = Some (t, w) \<longleftrightarrow> canonical_spelling t w"
  using canonical_wildcard_fixed(1) canonical_wildcard_view_canonical by blast


section \<open>Tagged records\<close>

definition tagged_payload :: "char \<Rightarrow> bytes \<Rightarrow> bytes" where
  "tagged_payload tag v = netstring [tag] @ netstring v"

definition tagged :: "char \<Rightarrow> bytes \<Rightarrow> bytes" where
  "tagged tag v = netstring (tagged_payload tag v)"

lemma decimal_digits_1 [simp]: "decimal_digits (Suc 0) = 1" "decimal_digits 0 = 1"
  by (simp_all add: decimal_digits.simps)

lemma decimal_digits_small: "n < 1000 \<Longrightarrow> decimal_digits n \<le> 3"
  by (subst decimal_digits.simps, subst decimal_digits.simps, subst decimal_digits.simps) simp

lemma length_tagged_payload: "length (tagged_payload tag v) = decimal_digits (length v) + length v + 6"
  by (simp add: tagged_payload_def length_netstring)

lemma length_tagged:
  "length (tagged tag v) =
     decimal_digits (length (tagged_payload tag v)) + length (tagged_payload tag v) + 2"
  by (simp add: tagged_def length_netstring)

lemma length_tagged_small: "length v < 900 \<Longrightarrow> length (tagged tag v) \<le> length v + 14"
  using decimal_digits_small [of "length v"] decimal_digits_small [of "length (tagged_payload tag v)"]
  by (simp add: length_tagged length_tagged_payload)

lemma drop_append_length: "n = length xs \<Longrightarrow> drop n (xs @ ys) = ys"
  by simp

lemma encode_tagged_record_eq [codec_simps]:
  "encode_tagged_record tag v =
     (if length (tagged tag v) > SIZE_MAX then Inl ST_ERR_LIMIT else Inr (tagged tag v))"
proof -
  let ?v = "length (netstring v)"
  have tag: "shell_netstring_encoded_length 1 = Inr 4"
    by (simp add: encoded_length_eq SIZE_MAX_def)
  have val: "shell_netstring_encoded_length (length v) =
      (if ?v > SIZE_MAX then Inl SHELL_NETSTRING_EOVERFLOW else Inr ?v)"
    by (simp add: encoded_length_eq length_netstring)
  have pl: "length (tagged_payload tag v) = 4 + ?v"
    by (simp add: length_tagged_payload length_netstring)
  have total: "shell_netstring_encoded_length (4 + ?v) =
      (if length (tagged tag v) > SIZE_MAX then Inl SHELL_NETSTRING_EOVERFLOW else Inr (length (tagged tag v)))"
    by (simp add: encoded_length_eq length_tagged pl)
  show ?thesis
  proof (cases "length (tagged tag v) > SIZE_MAX")
    case True
    then show ?thesis using total by (simp add: encode_tagged_record_def tag [simplified] val)
  next
    case False
    let ?t = "length (tagged tag v)" and ?p = "decimal_digits (4 + ?v) + 1"
    have t: "?t = ?p + 4 + ?v + 1" by (simp add: length_tagged pl)
    have small: "\<not> ?v > SIZE_MAX" "\<not> 4 > SIZE_MAX - ?v"
      using False t by (auto simp: SIZE_MAX_def)
    let ?r0 = "decimal (4 + ?v) @ CHR '':'' # drop ?p (replicate ?t NUL)"
    have prefix: "shell_netstring_write_prefix (replicate ?t NUL) (4 + ?v) = Inr (?r0, ?p)"
      using t by (simp add: write_prefix_eq)
    have d0: "drop ?p ?r0 = replicate (4 + ?v + 1) NUL"
      using t by (simp add: length_decimal)
    have w1: "shell_netstring_write (replicate (4 + ?v + 1) NUL) (Some [tag]) 1 =
        Inr (netstring [tag] @ replicate (?v + 1) NUL, 4)"
      using ns_write_ok [of "replicate (4 + ?v + 1) NUL" "[tag]"]
      by (simp add: length_netstring SIZE_MAX_def drop_replicate del: replicate.simps)
    have d1: "drop 4 (netstring [tag] @ replicate (?v + 1) NUL) = replicate (?v + 1) NUL"
      by (simp add: drop_append_length length_netstring del: replicate.simps)
    have w2: "shell_netstring_write (replicate (?v + 1) NUL) (Some v) (length v) =
        Inr (netstring v @ replicate 1 NUL, ?v)"
      using ns_write_ok [of "replicate (?v + 1) NUL" v] small
      by (simp add: drop_replicate del: replicate.simps)
    have "encode_tagged_record tag v =
      Inr (take ?p ?r0 @ take 4 (netstring [tag] @ replicate (?v + 1) NUL) @
           take ?v (netstring v @ replicate 1 NUL) @ [CHR '',''])"
      using small False
      by (simp only: encode_tagged_record_def tag val total prefix d0 w1 d1 w2 Let_def
          sum.case prod.case if_False if_True)
    also have "take ?p ?r0 = decimal (4 + ?v) @ [CHR '':'']"
      by (simp add: length_decimal)
    also have "take 4 (netstring [tag] @ replicate (?v + 1) NUL) = netstring [tag]"
      by (simp add: length_netstring del: replicate.simps)
    also have "take ?v (netstring v @ replicate 1 NUL) = netstring v" by simp
    finally show ?thesis
      using False by (simp add: tagged_def netstring_def [of "tagged_payload tag v"] pl)
        (simp add: tagged_payload_def)
  qed
qed

lemma decode_tagged_payload:
  "decode_tagged (tagged_payload tag v) = Some (tag, v)" if "length v \<le> SIZE_MAX"
  using that ns_parse_netstring [of "[tag]" "netstring v"] ns_parse_netstring [of v "[]"]
  by (simp add: decode_tagged_def tagged_payload_def SIZE_MAX_def)

lemma decode_tagged_Some:
  assumes "decode_tagged s = Some (tag, v)"
  shows "s = tagged_payload tag v \<and> length v \<le> SIZE_MAX"
proof -
  from assms obtain a r where a: "ns_parse s = Inr (a, r)" "ns_parse r = Inr (v, [])"
    "length a = 1" "tag = hd a"
    by (auto simp: decode_tagged_def split: sum.splits if_splits)
  have "a = [tag]" using a(3,4) by (cases a) auto
  with a(1) have "ns_parse s = Inr ([tag], r)" by simp
  with a(2) show ?thesis by (simp add: ns_parse_Inr_iff tagged_payload_def)
qed

text \<open>Tagged records are a self-delimiting code as well.\<close>

definition tagged_enc :: "char \<times> bytes \<Rightarrow> bytes" where
  "tagged_enc tv = tagged (fst tv) (snd tv)"

definition tagged_dec :: "bytes \<Rightarrow> ((char \<times> bytes) \<times> bytes) option" where
  "tagged_dec s =
     (case ns_parse s of
        Inl _ \<Rightarrow> None
      | Inr (payload, r) \<Rightarrow> map_option (\<lambda>tv. (tv, r)) (decode_tagged payload))"

definition tagged_valid :: "char \<times> bytes \<Rightarrow> bool" where
  "tagged_valid tv \<longleftrightarrow> length (tagged_payload (fst tv) (snd tv)) \<le> SIZE_MAX"

lemma tagged_dec_iff:
  "tagged_dec s = Some (x, r) \<longleftrightarrow> s = tagged_enc x @ r \<and> tagged_valid x"
proof
  assume "tagged_dec s = Some (x, r)"
  then obtain p where p: "ns_parse s = Inr (p, r)" "decode_tagged p = Some x"
    by (auto simp: tagged_dec_def split: sum.splits)
  obtain tag v where x: "x = (tag, v)" by (cases x)
  have "p = tagged_payload tag v" using p(2) x decode_tagged_Some by blast
  then show "s = tagged_enc x @ r \<and> tagged_valid x"
    using p(1) x by (simp add: ns_parse_Inr_iff tagged_enc_def tagged_def tagged_valid_def)
next
  assume s: "s = tagged_enc x @ r \<and> tagged_valid x"
  obtain tag v where x: "x = (tag, v)" by (cases x)
  have "ns_parse s = Inr (tagged_payload tag v, r)"
    using s x by (simp add: tagged_enc_def tagged_def tagged_valid_def ns_parse_netstring)
  moreover have "length v \<le> SIZE_MAX" using s x by (simp add: tagged_valid_def length_tagged_payload)
  ultimately show "tagged_dec s = Some (x, r)"
    using x by (simp add: tagged_dec_def decode_tagged_payload)
qed

interpretation tr: codec tagged_enc tagged_dec tagged_valid
proof
  show "tagged_enc x \<noteq> []" for x by (simp add: tagged_enc_def tagged_def)
qed (simp_all add: tagged_dec_iff)


section \<open>Well-formed tokens and their records\<close>

definition wf_token :: "st_token \<Rightarrow> bool" where
  "wf_token t \<longleftrightarrow>
     (if tk_compound t then
        t = compound_token (tk_prefix t) (tk_capture t) (tk_suffix t) (tk_capture_type t) \<and>
        canonical_spelling (tk_capture_type t) (tk_capture t) \<and>
        length (tk_prefix t) < ST_MAX_TOKEN_LEN \<and> length (tk_suffix t) < ST_MAX_TOKEN_LEN \<and>
        (tk_prefix t \<noteq> [] \<or> tk_suffix t \<noteq> [])
      else t = plain_token (tk_text t) (tk_type t) \<and> length (tk_text t) < ST_MAX_TOKEN_LEN \<and>
        (tk_type t = ST_TYPE_LITERAL \<or> canonical_spelling (tk_type t) (tk_text t)))"

definition nested_parts :: "bytes \<Rightarrow> bytes \<Rightarrow> bytes \<Rightarrow> bytes" where
  "nested_parts p c s =
     (if p \<noteq> [] then tagged CHR ''L'' p else []) @ tagged CHR ''T'' c @
     (if s \<noteq> [] then tagged CHR ''L'' s else [])"

definition record_tag_value :: "st_token \<Rightarrow> char \<times> bytes" where
  "record_tag_value t =
     (if tk_compound t then (CHR ''C'', nested_parts (tk_prefix t) (tk_capture t) (tk_suffix t))
      else if tk_type t = ST_TYPE_LITERAL then (CHR ''L'', tk_text t)
      else (CHR ''T'', tk_text t))"

definition record_of :: "st_token \<Rightarrow> bytes" where
  "record_of t = tagged_enc (record_tag_value t)"

definition canon_arg :: "st_token_arg \<Rightarrow> st_token" where
  "canon_arg a =
     (if arg_compound a then
        compound_token (component_bytes (arg_prefix a) (arg_prefix_length a))
          (snd (the (canonical_wildcard_view (component_bytes (arg_capture a) (arg_capture_length a)))))
          (component_bytes (arg_suffix a) (arg_suffix_length a)) (arg_capture_type a)
      else let s = component_bytes (arg_text a) (arg_text_length a) in
        case typed_wildcard (arg_type a) s of
          None \<Rightarrow> plain_token s ST_TYPE_LITERAL
        | Some (t, w) \<Rightarrow> plain_token w t)"

lemma compound_token_simps [simp]:
  "tk_compound (compound_token p c s t)" "tk_prefix (compound_token p c s t) = p"
  "tk_capture (compound_token p c s t) = c" "tk_suffix (compound_token p c s t) = s"
  "tk_capture_type (compound_token p c s t) = t"
  by (simp_all add: compound_token_def)

lemma tagged_limit: "length v < 900 \<Longrightarrow> length (tagged tag v) \<le> SIZE_MAX \<and> length (tagged_payload tag v) \<le> SIZE_MAX"
  using length_tagged_small [of v tag] length_tagged [of tag v] by (simp add: SIZE_MAX_def)

lemma encode_tagged_small: "length v < 900 \<Longrightarrow> encode_tagged_record tag v = Inr (tagged tag v)"
  using tagged_limit [of v tag] by (simp add: encode_tagged_record_eq)

lemma join_records_eq:
  "total_len + length (concat rs) \<le> SIZE_MAX \<Longrightarrow> join_records total_len rs = Inr (concat rs)"
  by (induction rs arbitrary: total_len) auto

lemma join_records_Inr: "join_records total_len rs = Inr s \<Longrightarrow> s = concat rs"
  by (induction rs arbitrary: total_len s) (auto split: if_splits)

lemma length_nested:
  assumes "length p < ST_MAX_TOKEN_LEN" "length c < ST_MAX_TOKEN_LEN" "length s < ST_MAX_TOKEN_LEN"
  shows "length (nested_parts p c s) < 850"
  using assms length_tagged_small [of p "CHR ''L''"] length_tagged_small [of c "CHR ''T''"]
    length_tagged_small [of s "CHR ''L''"]
  by (auto simp: nested_parts_def ST_MAX_TOKEN_LEN_def)

lemma encode_compound_eq:
  assumes "length p < ST_MAX_TOKEN_LEN" "length c < ST_MAX_TOKEN_LEN" "length s < ST_MAX_TOKEN_LEN"
  shows "encode_compound p c s = Inr (tagged CHR ''C'' (nested_parts p c s))"
proof -
  let ?ps = "if p \<noteq> [] then [tagged CHR ''L'' p] else []"
  let ?ss = "if s \<noteq> [] then [tagged CHR ''L'' s] else []"
  have enc: "encode_tagged_record tag v = Inr (tagged tag v)" if "length v < ST_MAX_TOKEN_LEN" for tag v
    using that by (simp add: encode_tagged_small ST_MAX_TOKEN_LEN_def)
  have nested: "concat (?ps @ [tagged CHR ''T'' c] @ ?ss) = nested_parts p c s"
    by (simp add: nested_parts_def)
  have join: "join_records 0 (?ps @ [tagged CHR ''T'' c] @ ?ss) = Inr (nested_parts p c s)"
    using join_records_eq [of 0 "?ps @ [tagged CHR ''T'' c] @ ?ss"] length_nested [OF assms]
    unfolding nested by (simp add: SIZE_MAX_def)
  have P: "(if p \<noteq> [] then map_result (encode_tagged_record CHR ''L'') [p] else Inr []) = Inr ?ps"
    and S: "(if s \<noteq> [] then map_result (encode_tagged_record CHR ''L'') [s] else Inr []) = Inr ?ss"
    by (auto simp: enc assms)
  show ?thesis
    unfolding encode_compound_def P S bind_result_simps enc [OF assms(2)] join
    using length_nested [OF assms] by (simp add: encode_tagged_small)
qed

lemma record_value_small:
  assumes "wf_token t"
  shows "length (snd (record_tag_value t)) < 850"
proof (cases "tk_compound t")
  case True
  then show ?thesis
    using assms length_nested [of "tk_prefix t" "tk_capture t" "tk_suffix t"]
      canonical_spelling_props(2) [of "tk_capture_type t" "tk_capture t"]
    by (simp add: wf_token_def record_tag_value_def)
next
  case False
  then show ?thesis using assms by (simp add: wf_token_def record_tag_value_def ST_MAX_TOKEN_LEN_def)
qed

lemma record_valid: "wf_token t \<Longrightarrow> tagged_valid (record_tag_value t)"
  using record_value_small [of t] tagged_limit [of "snd (record_tag_value t)"]
  by (simp add: tagged_valid_def)

lemma encode_token_arg:
  assumes "encode_token a = Inr r"
  shows "wf_token (canon_arg a) \<and> r = record_of (canon_arg a)"
proof (cases "arg_compound a")
  case True
  let ?p = "component_bytes (arg_prefix a) (arg_prefix_length a)"
  let ?c = "component_bytes (arg_capture a) (arg_capture_length a)"
  let ?s = "component_bytes (arg_suffix a) (arg_suffix_length a)"
  from assms True have parts: "?p \<noteq> [] \<or> ?s \<noteq> []" "length ?p < ST_MAX_TOKEN_LEN"
    "length ?s < ST_MAX_TOKEN_LEN"
    by (auto simp: encode_token_def Let_def split: if_splits)
  from assms True obtain w where w: "canonical_wildcard_view ?c = Some (arg_capture_type a, w)"
    and r: "encode_compound ?p w ?s = Inr r"
    by (auto simp: encode_token_def Let_def split: if_splits option.splits)
  note sp = canonical_wildcard_view_canonical [OF w]
  then have "length w < ST_MAX_TOKEN_LEN" by (rule canonical_spelling_props)
  then show ?thesis
    using True parts w r sp encode_compound_eq [of ?p w ?s]
    by (simp add: canon_arg_def wf_token_def record_of_def record_tag_value_def tagged_enc_def)
next
  case False
  let ?t = "component_bytes (arg_text a) (arg_text_length a)"
  from assms False have small: "length ?t < ST_MAX_TOKEN_LEN"
    by (auto simp: encode_token_def Let_def split: if_splits option.splits)
  then have enc: "encode_tagged_record CHR ''L'' ?t = Inr (tagged CHR ''L'' ?t)"
    by (simp add: encode_tagged_small ST_MAX_TOKEN_LEN_def)
  obtain x where x: "arg_text a = Some x"
    using assms False by (auto simp: encode_token_def split: option.splits)
  show ?thesis
  proof (cases "typed_wildcard (arg_type a) ?t")
    case None
    then show ?thesis
      using assms False small enc x
      by (auto simp: encode_token_def canon_arg_def wf_token_def record_of_def record_tag_value_def
          tagged_enc_def Let_def split: option.splits)
  next
    case (Some tw)
    obtain t w where tw: "tw = (t, w)" by (cases tw)
    have sp: "canonical_spelling t w"
      using Some tw canonical_wildcard_view_canonical by (auto simp: typed_wildcard_def split: if_splits)
    then have lit: "t \<noteq> ST_TYPE_LITERAL" by (simp add: canonical_spelling_def)
    have "length w < ST_MAX_TOKEN_LEN" using sp by (rule canonical_spelling_props)
    then have "encode_tagged_record CHR ''T'' w = Inr (tagged CHR ''T'' w)"
      by (simp add: encode_tagged_small ST_MAX_TOKEN_LEN_def)
    moreover have "encode_token a = (if t \<noteq> arg_type a then Inl ST_ERR_FORMAT else encode_tagged_record CHR ''T'' w)"
      using assms False small Some tw x
      by (auto simp: encode_token_def Let_def split: option.splits if_splits)
    moreover have "canon_arg a = plain_token w t"
      using False Some tw by (auto simp: canon_arg_def Let_def)
    ultimately show ?thesis
      using assms sp lit \<open>length w < ST_MAX_TOKEN_LEN\<close>
      by (auto simp: wf_token_def record_of_def record_tag_value_def tagged_enc_def split: if_splits)
  qed
qed

lemma component_bytes_explicit [simp]: "component_bytes (Some s) (length s) = s"
  by (cases s) (auto simp: component_bytes_def component_length_def)

lemma not_canonical_literal [simp]: "\<not> canonical_spelling ST_TYPE_LITERAL w"
  by (simp add: canonical_spelling_def)

lemma canon_token_arg: "wf_token t \<Longrightarrow> canon_arg (token_arg t) = t"
  using canonical_wildcard_fixed(1) [of "tk_capture_type t" "tk_capture t"]
    canonical_wildcard_fixed(1) [of "tk_type t" "tk_text t"] not_canonical_literal
  by (auto simp: canon_arg_def token_arg_def typed_wildcard_def wf_token_def Let_def split: if_splits)

lemma encode_token_wf:
  assumes "wf_token t"
  shows "encode_token (token_arg t) = Inr (record_of t)"
proof (cases "tk_compound t")
  case True
  then have sp: "canonical_spelling (tk_capture_type t) (tk_capture t)"
    using assms by (simp add: wf_token_def)
  note canonical_wildcard_fixed(1) [OF sp] canonical_spelling_props(2) [OF sp]
  moreover from sp have "tk_capture_type t \<noteq> ST_TYPE_LITERAL" by (simp add: canonical_spelling_def)
  ultimately show ?thesis
    using True assms encode_compound_eq [of "tk_prefix t" "tk_capture t" "tk_suffix t"]
    by (auto simp: encode_token_def typed_wildcard_def token_arg_def wf_token_def record_of_def record_tag_value_def tagged_enc_def)
next
  case False
  then show ?thesis
    using assms canonical_wildcard_fixed(1) [of "tk_type t" "tk_text t"]
    by (auto simp: encode_token_def typed_wildcard_def token_arg_def wf_token_def record_of_def record_tag_value_def
        tagged_enc_def encode_tagged_small ST_MAX_TOKEN_LEN_def)
qed

section \<open>Decoding inverts encoding\<close>

lemma ns_parse_tagged [codec_simps]:
  assumes "length v < 900"
  shows "ns_parse (tagged tag v @ r) = Inr (tagged_payload tag v, r)"
  using tagged_limit [OF assms] by (simp add: tagged_def ns_parse_netstring)

lemma decode_tagged_small [codec_simps]:
  "length v < 900 \<Longrightarrow> decode_tagged (tagged_payload tag v) = Some (tag, v)"
  by (simp add: decode_tagged_payload SIZE_MAX_def)

lemma tagged_nonempty [simp]: "tagged tag v \<noteq> []"
  by (simp add: tagged_def)

lemma decode_parts_step:
  assumes "length v < ST_MAX_TOKEN_LEN" "tag = CHR ''L'' \<or> tag = CHR ''T'' \<and> \<not> seen"
  shows "decode_parts (Suc n) seen (tagged tag v @ r) =
    (case decode_parts n (seen \<or> tag = CHR ''T'') r of
       None \<Rightarrow> None | Some (parts, r') \<Rightarrow> Some ((tag, v) # parts, r'))"
  using assms ns_parse_tagged [of v tag r] decode_tagged_small [of v tag]
  by (auto simp: ST_MAX_TOKEN_LEN_def)

lemma decode_parts_Nil [simp]: "decode_parts n seen [] = Some ([], [])"
  by (cases n) auto

lemma decode_compound_nested:
  assumes "length p < ST_MAX_TOKEN_LEN" "length s < ST_MAX_TOKEN_LEN"
    and sp: "canonical_spelling t c" and "p \<noteq> [] \<or> s \<noteq> []"
  shows "decode_compound (nested_parts p c s) = Inr (compound_token p c s t)"
proof -
  note c = canonical_spelling_props(2) [OF sp] canonical_wildcard_fixed(2) [OF sp]
  from sp have lit: "t \<noteq> ST_TYPE_LITERAL" by (simp add: canonical_spelling_def)
  have three: "decode_parts 3 = decode_parts (Suc (Suc (Suc 0)))" by (simp add: numeral_3_eq_3)
  have T: "decode_parts (Suc n) False (tagged CHR ''T'' c @ r) =
    (case decode_parts n True r of None \<Rightarrow> None | Some (parts, r') \<Rightarrow> Some ((CHR ''T'', c) # parts, r'))" for n r
    using decode_parts_step [OF c(1), of "CHR ''T''" False n r] by simp
  have L: "decode_parts (Suc n) seen (tagged CHR ''L'' v @ r) =
    (case decode_parts n seen r of None \<Rightarrow> None | Some (parts, r') \<Rightarrow> Some ((CHR ''L'', v) # parts, r'))"
    if "length v < ST_MAX_TOKEN_LEN" for n seen v r
    using decode_parts_step [OF that, of "CHR ''L''" seen n r] by simp
  show ?thesis
    using T [of _ "[]"] L [OF assms(2), of _ _ "[]"] assms c lit
    by (auto simp: decode_compound_def nested_parts_def three T L compound_parts_def
        simp del: decode_parts.simps(2))
qed

lemma decode_record_wf:
  assumes "wf_token t"
  shows "decode_record (tagged_payload (fst (record_tag_value t)) (snd (record_tag_value t))) = Inr t"
proof (cases "tk_compound t")
  case True
  then have "decode_compound (nested_parts (tk_prefix t) (tk_capture t) (tk_suffix t)) = Inr t"
    using assms decode_compound_nested [of "tk_prefix t" "tk_suffix t" "tk_capture_type t" "tk_capture t"]
    by (simp add: wf_token_def)
  then show ?thesis
    using True record_value_small [OF assms] decode_tagged_small
    by (simp add: decode_record_def record_tag_value_def ST_MAX_NETPATTERN_LEN_def)
next
  case False
  then show ?thesis
    using assms record_value_small [OF assms] decode_tagged_small
      canonical_wildcard_fixed(2) [of "tk_type t" "tk_text t"]
    by (auto simp: decode_record_def record_tag_value_def wf_token_def wildcard_spelling_def
        ST_MAX_NETPATTERN_LEN_def split: if_splits)
qed

lemma decode_loop_records:
  "list_all wf_token ts \<Longrightarrow> count + length ts \<le> ST_MAX_CMD_TOKENS \<Longrightarrow>
   decode_loop count (concat (map record_of ts)) = Inr ts"
proof (induction ts arbitrary: count)
  case Nil
  then show ?case by (simp add: decode_loop.simps)
next
  case (Cons t ts)
  have parse: "ns_parse (record_of t @ concat (map record_of ts)) =
      Inr (tagged_payload (fst (record_tag_value t)) (snd (record_tag_value t)), concat (map record_of ts))"
    using record_value_small [of t] Cons.prems
    by (simp add: record_of_def tagged_enc_def ns_parse_tagged)
  have "record_of t \<noteq> []" by (simp add: record_of_def tagged_enc_def)
  then show ?case
    using Cons parse decode_record_wf [of t] by (subst decode_loop.simps) simp
qed

lemma decode_loop_length:
  "decode_loop count s = Inr ts \<Longrightarrow> count \<le> ST_MAX_CMD_TOKENS \<Longrightarrow> count + length ts \<le> ST_MAX_CMD_TOKENS"
proof (induction count s arbitrary: ts rule: decode_loop.induct)
  case (1 count s)
  show ?case
  proof (cases "s = []")
    case True
    then show ?thesis using "1.prems" by (simp add: decode_loop.simps)
  next
    case False
    then have room: "count \<noteq> ST_MAX_CMD_TOKENS"
      using "1.prems" by (subst (asm) decode_loop.simps) auto
    obtain p r tok tail where steps: "ns_parse s = Inr (p, r)" "decode_record p = Inr tok"
        "decode_loop (count + 1) r = Inr tail" "ts = tok # tail"
      using "1.prems" False room
      by (subst (asm) decode_loop.simps) (auto split: sum.splits)
    then show ?thesis
      using "1.IH" [of "(p, r)" p r tok tail] False room "1.prems" by auto
  qed
qed


lemma map_result_wf:
  assumes "map_result encode_token args = Inr records"
  shows "records = map (record_of \<circ> canon_arg) args \<and> list_all wf_token (map canon_arg args)"
  using assms
proof (induction args arbitrary: records)
  case (Cons a args)
  then show ?case using encode_token_arg [of a] by auto
qed simp

lemma encode_owned_Inr:
  assumes "st_netpattern_encode_owned (Some args) = Inr s"
  shows "args \<noteq> []" "length args \<le> ST_MAX_CMD_TOKENS" "length s < ST_MAX_NETPATTERN_LEN"
    "s = concat (map record_of (map canon_arg args))" "list_all wf_token (map canon_arg args)"
  using assms map_result_wf [of args] join_records_Inr
  by (fastforce simp: st_netpattern_encode_owned_def split: if_splits)+

lemma encode_owned_wf:
  assumes "ts \<noteq> []" "length ts \<le> ST_MAX_CMD_TOKENS" "list_all wf_token ts"
    and "length (concat (map record_of ts)) < ST_MAX_NETPATTERN_LEN"
  shows "st_netpattern_encode_owned (Some (map token_arg ts)) = Inr (concat (map record_of ts))"
proof -
  have "map_result encode_token (map token_arg ts) = Inr (map record_of ts)"
    using assms(3) by (induction ts) (auto simp: encode_token_wf)
  moreover have "join_records 0 (map record_of ts) = Inr (concat (map record_of ts))"
    using assms(4) by (intro join_records_eq) (simp add: ST_MAX_NETPATTERN_LEN_def SIZE_MAX_def)
  ultimately show ?thesis using assms by (simp add: st_netpattern_encode_owned_def)
qed

text \<open>Exactly the concatenations of records of well-formed tokens decode.\<close>

lemma decode_view_Inr_iff:
  "st_netpattern_decode_view (np_view s) = Inr ts \<longleftrightarrow>
     ts \<noteq> [] \<and> length ts \<le> ST_MAX_CMD_TOKENS \<and> list_all wf_token ts \<and>
     s = concat (map record_of ts) \<and> length s < ST_MAX_NETPATTERN_LEN"
proof
  assume dec: "st_netpattern_decode_view (np_view s) = Inr ts"
  then have loop: "decode_loop 0 s = Inr ts" and small: "length s < ST_MAX_NETPATTERN_LEN"
    by (auto simp: st_netpattern_decode_view_def np_view_def Let_def split: if_splits sum.splits)
  from dec have enc: "st_netpattern_encode_owned (Some (map token_arg ts)) = Inr s"
    by (auto simp: st_netpattern_decode_view_def np_view_def Let_def split: if_splits sum.splits)
  let ?cs = "map canon_arg (map token_arg ts)"
  note e = encode_owned_Inr [OF enc]
  have "length ?cs \<le> ST_MAX_CMD_TOKENS" using decode_loop_length [OF loop] by simp
  then have "decode_loop 0 (concat (map record_of ?cs)) = Inr ?cs"
    using e(5) by (intro decode_loop_records) auto
  then have cs: "?cs = ts" using loop e(4) by simp
  show "ts \<noteq> [] \<and> length ts \<le> ST_MAX_CMD_TOKENS \<and> list_all wf_token ts \<and>
     s = concat (map record_of ts) \<and> length s < ST_MAX_NETPATTERN_LEN"
    using e small unfolding cs by simp
next
  assume R: "ts \<noteq> [] \<and> length ts \<le> ST_MAX_CMD_TOKENS \<and> list_all wf_token ts \<and>
     s = concat (map record_of ts) \<and> length s < ST_MAX_NETPATTERN_LEN"
  then have "s \<noteq> []" by (cases ts) (auto simp: record_of_def tagged_enc_def)
  moreover have "decode_loop 0 s = Inr ts" using R decode_loop_records [of ts 0] by simp
  moreover have "st_netpattern_encode_owned (Some (map token_arg ts)) = Inr s"
    using R encode_owned_wf [of ts] by auto
  ultimately show "st_netpattern_decode_view (np_view s) = Inr ts"
    using R by (auto simp: st_netpattern_decode_view_def np_view_def)
qed

lemma encode_decode:
  assumes "st_netpattern_encode_owned (Some args) = Inr s"
  shows "st_netpattern_decode_view (np_view s) = Inr (map canon_arg args)"
  using encode_owned_Inr [OF assms] by (simp add: decode_view_Inr_iff)

section \<open>The order of canonical patterns\<close>

definition token_key :: "st_token \<Rightarrow> bytes \<times> char" where
  "token_key t = (snd (record_tag_value t), fst (record_tag_value t))"

fun compare_keys :: "(bytes \<times> char) list \<Rightarrow> (bytes \<times> char) list \<Rightarrow> int" where
  "compare_keys [] [] = 0"
| "compare_keys [] (_ # _) = -1"
| "compare_keys (_ # _) [] = 1"
| "compare_keys ((v, a) # xs) ((w, b) # ys) =
     (if bytes_compare v w \<noteq> 0 then bytes_compare v w
      else if a \<noteq> b then (if ord a < ord b then -1 else 1)
      else compare_keys xs ys)"

lemma compare_keys_zero: "compare_keys xs ys = 0 \<longleftrightarrow> xs = ys"
  by (induction xs ys rule: compare_keys.induct) auto

lemma compare_keys_antisym: "compare_keys ys xs = - compare_keys xs ys"
proof (induction xs ys rule: compare_keys.induct)
  case (4 v a xs w b ys)
  then show ?case
    using linorder_less_linear [of "ord a" "ord b"]
    by (simp add: bytes_compare_antisym [of w v])
qed auto

lemma wf_token_key_inject:
  assumes "wf_token t" "wf_token u" "token_key t = token_key u"
  shows "t = u"
proof -
  have "record_tag_value t = record_tag_value u"
    using assms(3) by (simp add: token_key_def prod_eq_iff)
  then show ?thesis
    using decode_record_wf [OF assms(1)] decode_record_wf [OF assms(2)] by (metis sum.inject(2))
qed

lemma map_token_key_inject:
  "list_all wf_token ts \<Longrightarrow> list_all wf_token us \<Longrightarrow> map token_key ts = map token_key us \<longleftrightarrow> ts = us"
proof (induction ts arbitrary: us)
  case (Cons t ts)
  then show ?case using wf_token_key_inject by (cases us) auto
qed auto

lemma compare_loop_records:
  "list_all wf_token ts \<Longrightarrow> list_all wf_token us \<Longrightarrow>
   compare_loop l r (concat (map record_of ts)) (concat (map record_of us)) =
     compare_keys (map token_key ts) (map token_key us)"
proof (induction ts arbitrary: us)
  case Nil
  have "record_of u \<noteq> []" for u by (simp add: record_of_def tagged_enc_def)
  then show ?case by (cases us) (auto simp: compare_loop.simps)
next
  case (Cons t ts)
  have ne: "record_of u \<noteq> []" for u by (simp add: record_of_def tagged_enc_def)
  have parse: "ns_parse (record_of u @ s) =
      Inr (tagged_payload (fst (record_tag_value u)) (snd (record_tag_value u)), s)"
    and dec: "decode_tagged (tagged_payload (fst (record_tag_value u)) (snd (record_tag_value u))) =
      Some (record_tag_value u)" if "wf_token u" for u s
    using record_value_small [OF that] by (auto simp: record_of_def tagged_enc_def ns_parse_tagged
        decode_tagged_small)
  show ?case
  proof (cases us)
    case Nil
    then show ?thesis using ne by (auto simp: compare_loop.simps)
  next
    case (Cons u us')
    then show ?thesis
      using Cons.IH [of us'] Cons.prems ne parse [of t] parse [of u] dec [of t] dec [of u]
        token_key_def [of t] token_key_def [of u]
      by (subst compare_loop.simps)
         (simp, cases "record_tag_value t"; cases "record_tag_value u"; simp add: Let_def)
  qed
qed

lemma compare_view_canonical:
  assumes "st_netpattern_decode_view (np_view a) = Inr ts" "st_netpattern_decode_view (np_view b) = Inr us"
  shows "st_netpattern_compare_view (np_view a) (np_view b) =
    compare_keys (map token_key ts) (map token_key us)"
proof -
  from assms have "list_all wf_token ts" "a = concat (map record_of ts)"
    "list_all wf_token us" "b = concat (map record_of us)"
    by (simp_all add: decode_view_Inr_iff)
  then show ?thesis
    by (simp add: st_netpattern_compare_view_def np_view_def compare_loop_records)
qed

section \<open>Properties\<close>

text \<open>C2: Round trip: what the encoder produces decodes to the canonicalised tokens it was
  given.\<close>

theorem encode_then_decode:
  assumes "st_netpattern_encode_owned (Some args) = Inr s"
  shows "st_netpattern_decode_view (np_view s) = Inr (map canon_arg args)"
  using assms by (rule encode_decode)

theorem encode_then_decode_witness:
  "st_netpattern_decode_view (np_view (concat (map record_of [plain_token ''ls'' ST_TYPE_LITERAL]))) =
     Inr (map canon_arg (map token_arg [plain_token ''ls'' ST_TYPE_LITERAL]))"
proof (rule encode_then_decode)
  have "wf_token (plain_token ''ls'' ST_TYPE_LITERAL)"
    by (simp add: wf_token_def ST_MAX_TOKEN_LEN_def)
  moreover have "length (record_of (plain_token ''ls'' ST_TYPE_LITERAL)) \<le> 16"
    using length_tagged_small [of "''ls''" "CHR ''L''"]
    by (simp add: record_of_def record_tag_value_def tagged_enc_def)
  ultimately show "st_netpattern_encode_owned (Some (map token_arg [plain_token ''ls'' ST_TYPE_LITERAL])) =
      Inr (concat (map record_of [plain_token ''ls'' ST_TYPE_LITERAL]))"
    by (intro encode_owned_wf) (simp_all add: ST_MAX_CMD_TOKENS_def ST_MAX_NETPATTERN_LEN_def)
qed

text \<open>C3: Canonicity: the decoder accepts exactly the concatenations of the records of 1 to 128
  well-formed tokens within the size limit, so a token list has one encoding and a byte string
  at most one meaning.\<close>

theorem decode_accepts_exactly_canonical:
  "st_netpattern_decode_view (np_view s) = Inr ts \<longleftrightarrow>
     ts \<noteq> [] \<and> length ts \<le> ST_MAX_CMD_TOKENS \<and> list_all wf_token ts \<and>
     s = concat (map record_of ts) \<and> length s < ST_MAX_NETPATTERN_LEN"
  by (rule decode_view_Inr_iff)

text \<open>On canonical patterns the comparison is antisymmetric and is zero only for equal
  encodings.\<close>

theorem compare_is_antisymmetric:
  assumes "st_netpattern_decode_view (np_view a) = Inr ts" "st_netpattern_decode_view (np_view b) = Inr us"
  shows "st_netpattern_compare_view (np_view b) (np_view a) =
      - st_netpattern_compare_view (np_view a) (np_view b) \<and>
    (st_netpattern_compare_view (np_view a) (np_view b) = 0 \<longleftrightarrow> a = b)"
proof -
  have wf: "list_all wf_token ts" "list_all wf_token us" "a = concat (map record_of ts)"
    "b = concat (map record_of us)"
    using assms unfolding decode_view_Inr_iff by blast+
  have "a = b \<longleftrightarrow> ts = us" using wf(3,4) assms by (metis sum.inject(2))
  then show ?thesis
    using compare_view_canonical [OF assms] compare_view_canonical [OF assms(2,1)]
      compare_keys_antisym [of "map token_key us" "map token_key ts"]
      map_token_key_inject [OF wf(1,2)]
    by (simp add: compare_keys_zero)
qed

theorem compare_is_antisymmetric_witness:
  "let a = record_of (plain_token ''a'' ST_TYPE_LITERAL); b = record_of (plain_token ''b'' ST_TYPE_LITERAL) in
   st_netpattern_compare_view (np_view b) (np_view a) = - st_netpattern_compare_view (np_view a) (np_view b) \<and>
   (st_netpattern_compare_view (np_view a) (np_view b) = 0 \<longleftrightarrow> a = b)"
proof -
  have dec: "st_netpattern_decode_view (np_view (record_of (plain_token [c] ST_TYPE_LITERAL))) =
      Inr [plain_token [c] ST_TYPE_LITERAL]" for c
    using length_tagged_small [of "[c]" "CHR ''L''"]
    by (simp add: decode_view_Inr_iff wf_token_def limit_defs record_of_def record_tag_value_def tagged_enc_def)
  show ?thesis unfolding Let_def by (rule compare_is_antisymmetric [OF dec dec])
qed

end
