(* ===== verification/Subsume.thy ===== *)
theory Subsume imports Netpattern begin

text \<open>
  Matching of one argument against one pattern token, and subsumption between patterns, from
  \<^verbatim>\<open>shelltype/src/policy.c\<close> and \<^verbatim>\<open>pattern_internal.h\<close>. The results:
  subsumption is sound for the language of classified commands, contexts included, and it is a
  partial order on canonical patterns.
\<close>

section \<open>Closed metadata\<close>

text \<open>\<^verbatim>\<open>wildcard_param\<close> points at the dot after the symbol.\<close>

definition wildcard_param :: "bytes option \<Rightarrow> st_token_type \<Rightarrow> bytes option" where
  "wildcard_param wild_text wild_type =
     (case st_wildcard_metadata wild_text wild_type of
        None \<Rightarrow> None
      | Some _ \<Rightarrow> Some (drop (length (st_type_symbol wild_type)) (cstr (the wild_text))))"

definition closed_metadata_matches ::
    "bytes \<Rightarrow> st_token_type \<Rightarrow> st_token_type \<Rightarrow> st_metadata_entry option \<Rightarrow> bool" where
  "closed_metadata_matches cmd_text cmd_type wild_type metadata =
     (case metadata of
        None \<Rightarrow> True
      | Some m \<Rightarrow>
          (if \<not> st_metadata_requires_value m then cmd_type = wild_type
           else cmd_type = wild_type \<and> st_metadata_value_id cmd_type cmd_text = me_id m))"

definition param_matches :: "bytes \<Rightarrow> st_token_type \<Rightarrow> bytes option \<Rightarrow> st_token_type \<Rightarrow> bool" where
  "param_matches cmd_text cmd_type wild_text wild_type =
     closed_metadata_matches cmd_text cmd_type wild_type (st_wildcard_metadata wild_text wild_type)"

definition st_pattern_wildcard_matches ::
    "bytes \<Rightarrow> st_token_type \<Rightarrow> bytes \<Rightarrow> st_token_type \<Rightarrow> bool" where
  "st_pattern_wildcard_matches text t wildcard wild_type =
     (if \<not> st_runtime_type_matches t wild_type then False
      else closed_metadata_matches text t wild_type
             (st_wildcard_metadata_span wildcard wild_type))"

text \<open>The capture between two literal affixes.\<close>

definition st_pattern_capture_span :: "bytes \<Rightarrow> bytes \<Rightarrow> bytes \<Rightarrow> bytes option" where
  "st_pattern_capture_span text prefix suffix =
     (if length prefix > length text \<or> length suffix > length text - length prefix \<or>
         take (length prefix) text \<noteq> prefix \<or> drop (length text - length suffix) text \<noteq> suffix
      then None
      else Some (take (length text - length prefix - length suffix) (drop (length prefix) text)))"

section \<open>Explicit wildcards\<close>

definition is_explicit_wildcard :: "bytes option \<Rightarrow> st_token_type \<Rightarrow> bool" where
  "is_explicit_wildcard text t =
     (if t = ST_TYPE_LITERAL then False
      else if t = ST_TYPE_ANY then True
      else case text of
        None \<Rightarrow> False
      | Some s \<Rightarrow>
          (let s = cstr s; sym = st_type_symbol t; n = length sym in
           s = sym \<or> (take n s = sym \<and> drop n s \<noteq> [] \<and> s ! n = CHR ''.'')))"

definition token_is_wild :: "st_token \<Rightarrow> bool" where
  "token_is_wild t = is_explicit_wildcard (Some (tk_text t)) (tk_type t)"

definition pattern_has_explicit_wildcard :: "st_token list \<Rightarrow> bool" where
  "pattern_has_explicit_wildcard tokens = list_ex token_is_wild tokens"

definition pattern_is_plain_literal :: "st_token list \<Rightarrow> bool" where
  "pattern_is_plain_literal tokens = list_all (\<lambda>t. \<not> (tk_compound t \<or> token_is_wild t)) tokens"

section \<open>Subsumption\<close>

definition params_compatible :: "bytes option \<Rightarrow> bytes option \<Rightarrow> bool" where
  "params_compatible a_param b_param =
     (case (a_param, b_param) of
        (Some x, Some y) \<Rightarrow> x = y
      | (Some _, None) \<Rightarrow> False
      | (None, _) \<Rightarrow> True)"

text \<open>One iteration of the loop of \<^verbatim>\<open>pattern_subsumes\<close>; the iterations are
  independent.\<close>

definition subsumes_at :: "st_token list \<Rightarrow> st_token list \<Rightarrow> nat \<Rightarrow> bool" where
  "subsumes_at a b i =
     (let x = a ! i; y = b ! i in
      if tk_compound x \<or> tk_compound y then
        (if tk_compound x \<and> tk_compound y then
           tk_prefix x = tk_prefix y \<and> tk_suffix x = tk_suffix y \<and>
           st_is_compatible (tk_capture_type y) (tk_capture_type x) \<and>
           params_compatible (wildcard_param (Some (tk_capture x)) (tk_capture_type x))
             (wildcard_param (Some (tk_capture y)) (tk_capture_type y))
         else \<not> tk_compound x \<and> token_is_wild x \<and> tk_type x = ST_TYPE_ANY)
      else if \<not> token_is_wild x \<and> \<not> token_is_wild y then tk_text x = tk_text y
      else if token_is_wild x \<and> token_is_wild y then
        st_is_compatible (tk_type y) (tk_type x) \<and>
        params_compatible (wildcard_param (Some (tk_text x)) (tk_type x))
          (wildcard_param (Some (tk_text y)) (tk_type y))
      else if \<not> token_is_wild x then False
      else list_all (\<lambda>t. st_pattern_literal_types b i AND type_bit t = 0 \<or>
             (st_runtime_match_mask t AND type_bit (tk_type x) \<noteq> 0 \<and>
              param_matches (tk_text y) t (Some (tk_text x)) (tk_type x)))
           all_token_types)"

definition pattern_subsumes :: "st_token list \<Rightarrow> st_token list \<Rightarrow> bool" where
  "pattern_subsumes a b =
     (length a = length b \<and> list_all (subsumes_at a b) [0..<length a])"

section \<open>What a token accepts\<close>

text \<open>The argument's bytes and its type in context. Captures are classified on their own.\<close>

definition token_accepts :: "st_token \<Rightarrow> bytes \<Rightarrow> st_token_type \<Rightarrow> bool" where
  "token_accepts t s ty =
     (if tk_compound t then
        (case st_pattern_capture_span s (tk_prefix t) (tk_suffix t) of
           None \<Rightarrow> False
         | Some capture \<Rightarrow>
             st_pattern_wildcard_matches capture (st_token_classify capture)
               (tk_capture t) (tk_capture_type t))
      else if tk_type t = ST_TYPE_LITERAL then s = tk_text t
      else st_runtime_type_matches ty (tk_type t) \<and> param_matches s ty (Some (tk_text t)) (tk_type t))"

definition pattern_accepts :: "st_token list \<Rightarrow> bytes list \<Rightarrow> bool" where
  "pattern_accepts pat args \<longleftrightarrow>
     list_all2 (\<lambda>t c. token_accepts t (tk_text c) (tk_type c)) pat (classify_argv args)"

section \<open>Canonical wildcards carry their metadata\<close>

lemma supports_metadata_iff:
  "st_type_supports_metadata t \<longleftrightarrow> (\<exists>m\<in>set st_metadata_entries. me_type m = t)"
  by (simp add: st_type_supports_metadata_def list_ex_iff)

text \<open>The metadata a canonical spelling selects.\<close>

lemma canonical_metadata_cases:
  assumes "canonical_spelling t w"
  obtains (plain) "w = st_type_symbol t" "st_wildcard_metadata (Some w) t = None"
      "st_wildcard_metadata_span w t = None" "wildcard_param (Some w) t = None"
    | (param) m where "m \<in> set st_metadata_entries" "me_type m = t"
      "w = st_type_symbol t @ CHR ''.'' # me_name m" "st_wildcard_metadata (Some w) t = Some m"
      "st_wildcard_metadata_span w t = Some m" "wildcard_param (Some w) t = Some (CHR ''.'' # me_name m)"
proof -
  have nul: "NUL \<notin> set w" using assms by (rule canonical_spelling_props)
  from assms consider "w = st_type_symbol t"
    | m where "m \<in> set st_metadata_entries" "me_type m = t" "w = st_type_symbol t @ CHR ''.'' # me_name m"
    by (auto simp: canonical_spelling_def)
  then show thesis
  proof cases
    case 1
    then show thesis using nul
      by (intro plain) (auto simp: st_wildcard_metadata_def st_wildcard_metadata_span_def
          wildcard_param_def Let_def)
  next
    case 2
    then have "st_wildcard_metadata (Some w) t = Some m"
      using nul metadata_lookup_canonical [of m] supports_metadata_iff [of t]
      by (auto simp: st_wildcard_metadata_def Let_def nth_append)
    moreover have "st_wildcard_metadata_span w t = Some m"
      using 2 metadata_lookup_name [of m] by (auto simp: st_wildcard_metadata_span_def Let_def)
    ultimately show thesis
      using 2 nul by (intro param) (auto simp: wildcard_param_def)
  qed
qed

lemma metadata_entry_name_inject:
  "m \<in> set st_metadata_entries \<Longrightarrow> n \<in> set st_metadata_entries \<Longrightarrow>
   me_type m = me_type n \<Longrightarrow> me_name m = me_name n \<Longrightarrow> m = n"
  by (metis metadata_lookup_name option.inject)

text \<open>Types with metadata have no proper subtype but the bottom.\<close>

definition metadata_types :: "st_token_type list" where
  "metadata_types = [ST_TYPE_SIZE, ST_TYPE_UUID, ST_TYPE_SEMVER, ST_TYPE_TIMESTAMP, ST_TYPE_SHA,
     ST_TYPE_FINGERPRINT, ST_TYPE_DURATION, ST_TYPE_RANGE, ST_TYPE_PERM_OCTAL]"

lemma metadata_entries_types: "list_all (\<lambda>m. me_type m \<in> set metadata_types) st_metadata_entries"
  by (simp add: st_metadata_entries_def meta_entry_def metadata_types_def)

lemma metadata_types_not_proper: "a \<in> set (tl (ancestors b)) \<Longrightarrow> a \<notin> set metadata_types"
  by (cases b) (auto simp: metadata_types_def)

lemma metadata_types_minimal:
  assumes "m \<in> set st_metadata_entries" "st_is_compatible b (me_type m)" "b \<noteq> ST_TYPE_LITERAL"
  shows "b = me_type m"
proof (rule ccontr)
  assume "b \<noteq> me_type m"
  moreover have "me_type m \<in> set (ancestors b)"
    using assms(2,3) by (simp add: st_is_compatible_eq lattice_le_def)
  ultimately have "me_type m \<in> set (tl (ancestors b))"
    using hd_ancestors [of b] by (cases "ancestors b") auto
  then have "me_type m \<notin> set metadata_types" by (rule metadata_types_not_proper)
  then show False using metadata_entries_types assms(1) by (auto simp: list_all_iff)
qed

lemma wf_compound_eq:
  "wf_token t \<Longrightarrow> tk_compound t \<Longrightarrow>
   t = compound_token (tk_prefix t) (tk_capture t) (tk_suffix t) (tk_capture_type t)"
  by (simp add: wf_token_def)

lemma wf_compound_literal:
  assumes "wf_token t" "tk_compound t"
  shows "tk_type t = ST_TYPE_LITERAL"
proof -
  have "tk_type t = tk_type (compound_token (tk_prefix t) (tk_capture t) (tk_suffix t) (tk_capture_type t))"
    using wf_compound_eq [OF assms] by (rule arg_cong)
  then show ?thesis by (simp add: compound_token_def)
qed

lemma wf_wild_canonical:
  "wf_token t \<Longrightarrow> tk_type t \<noteq> ST_TYPE_LITERAL \<Longrightarrow> canonical_spelling (tk_type t) (tk_text t)"
  using wf_compound_literal [of t] unfolding wf_token_def by metis

lemma wf_token_wild:
  assumes "wf_token t"
  shows "token_is_wild t \<longleftrightarrow> tk_type t \<noteq> ST_TYPE_LITERAL"
proof (cases "tk_type t = ST_TYPE_LITERAL")
  case True
  then show ?thesis by (simp add: token_is_wild_def is_explicit_wildcard_def)
next
  case False
  then show ?thesis
    using canonical_spelling_props [OF wf_wild_canonical [OF assms False]]
    by (auto simp: token_is_wild_def is_explicit_wildcard_def wildcard_spells_def Let_def)
qed

lemma wf_compound_canonical:
  "wf_token t \<Longrightarrow> tk_compound t \<Longrightarrow> canonical_spelling (tk_capture_type t) (tk_capture t)"
  by (simp add: wf_token_def)

section \<open>Widening a wildcard\<close>

text \<open>The shared core of the wildcard and compound cases: a canonical wildcard whose type is
  above another's, with compatible parameters, accepts at least the same classified values.\<close>

definition wild_accepts :: "bytes \<Rightarrow> st_token_type \<Rightarrow> bytes \<Rightarrow> st_token_type \<Rightarrow> bool" where
  "wild_accepts s ty w t \<longleftrightarrow>
     st_runtime_type_matches ty t \<and> closed_metadata_matches s ty t (st_wildcard_metadata (Some w) t)"

lemma span_metadata_eq:
  "canonical_spelling t w \<Longrightarrow> st_wildcard_metadata_span w t = st_wildcard_metadata (Some w) t"
  by (erule canonical_metadata_cases) auto

lemma wildcard_matches_eq:
  "canonical_spelling t w \<Longrightarrow> st_pattern_wildcard_matches s ty w t = wild_accepts s ty w t"
  by (simp add: st_pattern_wildcard_matches_def wild_accepts_def span_metadata_eq)

definition wild_le :: "st_token_type \<Rightarrow> bytes \<Rightarrow> st_token_type \<Rightarrow> bytes \<Rightarrow> bool" where
  "wild_le t w u v \<longleftrightarrow> st_is_compatible t u \<and>
     params_compatible (wildcard_param (Some v) u) (wildcard_param (Some w) t)"

lemma wild_le_cases:
  assumes "canonical_spelling t w" "canonical_spelling u v" "wild_le t w u v"
  shows "st_wildcard_metadata (Some v) u = None \<or> t = u \<and> v = w"
  using assms(2)
proof (cases rule: canonical_metadata_cases)
  case (param m)
  have t: "t = u"
    using assms(1,3) param metadata_types_minimal [of m t]
    by (auto simp: wild_le_def canonical_spelling_def)
  have "w = v"
    using assms(1)
  proof (cases rule: canonical_metadata_cases)
    case plain
    then show ?thesis using assms(3) param by (simp add: wild_le_def params_compatible_def)
  next
    case (param n)
    then show ?thesis
      using assms(3) \<open>wildcard_param (Some v) u = Some (CHR ''.'' # me_name m)\<close>
        \<open>v = st_type_symbol u @ CHR ''.'' # me_name m\<close> t
      by (simp add: wild_le_def params_compatible_def)
  qed
  with t show ?thesis by simp
qed simp

lemma wild_le_accepts:
  assumes "canonical_spelling t w" "canonical_spelling u v" "wild_le t w u v" "wild_accepts s ty w t"
  shows "wild_accepts s ty v u"
proof -
  have "t \<noteq> ST_TYPE_LITERAL" using assms(1) by (simp add: canonical_spelling_def)
  then have "st_runtime_type_matches ty u"
    using assms(3,4) runtime_matches_mono [of ty t u] by (simp add: wild_le_def wild_accepts_def)
  then show ?thesis
    using wild_le_cases [OF assms(1-3)] assms(4)
    by (auto simp: wild_accepts_def closed_metadata_matches_def [of _ _ _ None])
qed

lemma wild_le_refl: "wild_le t w t w"
  by (simp add: wild_le_def params_compatible_def st_is_compatible_eq lattice_le_refl split: option.splits)

lemma wild_le_trans:
  "canonical_spelling u v \<Longrightarrow> canonical_spelling x y \<Longrightarrow> wild_le t w u v \<Longrightarrow> wild_le u v x y \<Longrightarrow> wild_le t w x y"
  using lattice_le_trans [of t u x]
  by (auto simp: wild_le_def params_compatible_def st_is_compatible_eq split: option.splits)

lemma metadata_None_symbol:
  "canonical_spelling t w \<Longrightarrow> st_wildcard_metadata (Some w) t = None \<Longrightarrow> w = st_type_symbol t"
  by (erule canonical_metadata_cases) auto

lemma wild_le_antisym:
  assumes "canonical_spelling t w" "canonical_spelling u v" "wild_le t w u v" "wild_le u v t w"
  shows "t = u \<and> w = v"
proof -
  have t: "t = u" using assms(3,4) lattice_le_antisym by (simp add: wild_le_def st_is_compatible_eq)
  show ?thesis
  proof (cases "v = w")
    case False
    then have "st_wildcard_metadata (Some v) u = None" "st_wildcard_metadata (Some w) t = None"
      using wild_le_cases [OF assms(1-3)] wild_le_cases [OF assms(2,1,4)] by auto
    then have "w = st_type_symbol t" and "v = st_type_symbol u"
      using metadata_None_symbol assms(1,2) by blast+
    then show ?thesis using t by simp
  qed (use t in simp)
qed


section \<open>Subsumption is sound\<close>

text \<open>The contexts a literal may be read in.\<close>

definition literal_contexts :: "st_token list \<Rightarrow> nat \<Rightarrow> st_arg_context list" where
  "literal_contexts b i =
     (if i = 0 then [ST_ARG_CONTEXT_NONE]
      else if \<not> tk_compound (b ! (i - 1)) \<and> tk_type (b ! (i - 1)) = ST_TYPE_LITERAL
      then [st_arg_context_after (tk_text (b ! (i - 1)))]
      else all_contexts)"

lemma set_all_contexts [simp]: "set all_contexts = UNIV"
  by (auto simp: all_contexts_def) (metis st_arg_context.exhaust)

lemma bit_type_bit_nth [simp]: "bit (type_bit a) (type_index b) \<longleftrightarrow> a = b"
  by simp

lemma bit_foldl_or:
  "bit (foldl (\<lambda>types c. types OR type_bit (f c)) w cs) (type_index t) \<longleftrightarrow>
     bit w (type_index t) \<or> (\<exists>c\<in>set cs. f c = t)"
  by (induction cs arbitrary: w) auto

lemma literal_types_mem:
  "bit (st_pattern_literal_types b i) (type_index t) \<longleftrightarrow>
     (\<exists>c\<in>set (literal_contexts b i). st_token_classify_context (tk_text (b ! i)) c = t)"
  by (auto simp: st_pattern_literal_types_def literal_contexts_def Let_def bit_foldl_or)

lemma st_pattern_wild_accepts:
  "canonical_spelling t w \<Longrightarrow>
   st_runtime_type_matches ty t \<and> param_matches s ty (Some w) t \<longleftrightarrow> wild_accepts s ty w t"
  by (simp add: wild_accepts_def param_matches_def)

lemma wild_accepts_bit:
  "wild_accepts s ty w t \<longleftrightarrow>
     bit (st_runtime_match_mask ty) (type_index t) \<and> param_matches s ty (Some w) t"
  by (simp add: wild_accepts_def param_matches_def runtime_type_matches_bit)

lemma token_accepts_eq:
  assumes "wf_token t"
  shows "token_accepts t s ty \<longleftrightarrow>
    (if tk_compound t then
       (case st_pattern_capture_span s (tk_prefix t) (tk_suffix t) of
          None \<Rightarrow> False
        | Some c \<Rightarrow> wild_accepts c (st_token_classify c) (tk_capture t) (tk_capture_type t))
     else if tk_type t = ST_TYPE_LITERAL then s = tk_text t
     else wild_accepts s ty (tk_text t) (tk_type t))"
  using wildcard_matches_eq [OF wf_compound_canonical [OF assms]] wf_wild_canonical [OF assms]
  by (auto simp: token_accepts_def st_pattern_wild_accepts split: option.splits)

lemma any_accepts:
  assumes "wf_token t" "tk_type t = ST_TYPE_ANY"
  shows "token_accepts t s ty"
proof -
  have sp: "canonical_spelling ST_TYPE_ANY (tk_text t)"
    using wf_wild_canonical [OF assms(1)] assms(2) by simp
  have "st_wildcard_metadata (Some (tk_text t)) ST_TYPE_ANY = None"
    using sp metadata_type_not_any by (cases rule: canonical_metadata_cases) auto
  moreover have "\<not> tk_compound t" using assms wf_compound_literal by force
  ultimately show ?thesis
    using assms by (simp add: token_accepts_eq wild_accepts_def closed_metadata_matches_def)
qed

text \<open>The loop body on canonical patterns, with the wildcard order in place of the table
  lookups.\<close>

lemma subsumes_at_eq:
  assumes "wf_token (a ! i)" "wf_token (b ! i)"
  shows "subsumes_at a b i \<longleftrightarrow>
    (let x = a ! i; y = b ! i in
     if tk_compound y then
       (if tk_compound x then
          tk_prefix x = tk_prefix y \<and> tk_suffix x = tk_suffix y \<and>
          wild_le (tk_capture_type y) (tk_capture y) (tk_capture_type x) (tk_capture x)
        else tk_type x = ST_TYPE_ANY)
     else if tk_compound x then False
     else if tk_type x = ST_TYPE_LITERAL then tk_type y = ST_TYPE_LITERAL \<and> tk_text x = tk_text y
     else if tk_type y \<noteq> ST_TYPE_LITERAL then wild_le (tk_type y) (tk_text y) (tk_type x) (tk_text x)
     else \<forall>c\<in>set (literal_contexts b i).
       wild_accepts (tk_text y) (st_token_classify_context (tk_text y) c) (tk_text x) (tk_type x))"
proof -
  note wild = wf_token_wild [OF assms(1)] wf_token_wild [OF assms(2)]
  have x: "tk_type (a ! i) \<noteq> ST_TYPE_LITERAL \<Longrightarrow> canonical_spelling (tk_type (a ! i)) (tk_text (a ! i))"
    using wf_wild_canonical [OF assms(1)] .
  have lit: "list_all (\<lambda>t. st_pattern_literal_types b i AND type_bit t = 0 \<or> P t) all_token_types \<longleftrightarrow>
      (\<forall>c\<in>set (literal_contexts b i). P (st_token_classify_context (tk_text (b ! i)) c))" for P
  proof -
    have "st_pattern_literal_types b i AND type_bit t = 0 \<longleftrightarrow>
        \<not> (\<exists>c\<in>set (literal_contexts b i). st_token_classify_context (tk_text (b ! i)) c = t)" for t
      using type_mask_mem [of "st_pattern_literal_types b i" t] literal_types_mem [of b i t] by blast
    then show ?thesis by (auto simp: list_all_iff)
  qed
  show ?thesis
    using wf_compound_literal [OF assms(1)] wf_compound_literal [OF assms(2)] x
    unfolding subsumes_at_def Let_def lit
    by (auto simp: wild wild_le_def wild_accepts_bit)
qed

lemmas subsumes_at_iff = subsumes_at_eq [unfolded Let_def]

lemma classify_args_nth:
  "i < length args \<Longrightarrow>
   classify_args c args ! i =
     plain_token (args ! i) (st_token_classify_context (args ! i)
       (if i = 0 then c else st_arg_context_after (args ! (i - 1))))"
proof (induction c args arbitrary: i rule: classify_args.induct)
  case (2 c a as)
  then show ?case by (cases i; cases "i - 1") auto
qed simp

lemma pattern_accepts_nth:
  "pattern_accepts pat args \<longleftrightarrow> length pat = length args \<and>
     (\<forall>i<length args. token_accepts (pat ! i) (args ! i)
        (st_token_classify_context (args ! i)
          (if i = 0 then ST_ARG_CONTEXT_NONE else st_arg_context_after (args ! (i - 1)))))"
  by (simp add: pattern_accepts_def list_all2_conv_all_nth classify_argv_def classify_args_nth
      cong: conj_cong)

lemma subsumes_sound:
  assumes "list_all wf_token a" "list_all wf_token b" "pattern_subsumes a b" "pattern_accepts b args"
  shows "pattern_accepts a args"
  unfolding pattern_accepts_nth
proof (intro conjI allI impI)
  from assms(3) have len: "length a = length b" by (simp add: pattern_subsumes_def)
  from assms(4) have lenb: "length b = length args" by (simp add: pattern_accepts_nth)
  show "length a = length args" using len lenb by simp
  fix i
  assume i: "i < length args"
  let ?c = "if i = 0 then ST_ARG_CONTEXT_NONE else st_arg_context_after (args ! (i - 1))"
  let ?ty = "st_token_classify_context (args ! i) ?c"
  let ?x = "a ! i" and ?y = "b ! i"
  have wf: "wf_token ?x" "wf_token ?y" using assms(1,2) i len lenb by (auto simp: list_all_length)
  have at: "subsumes_at a b i"
    using assms(3) i len lenb by (simp add: pattern_subsumes_def list_all_iff)
  have acc: "token_accepts (b ! j) (args ! j)
      (st_token_classify_context (args ! j)
        (if j = 0 then ST_ARG_CONTEXT_NONE else st_arg_context_after (args ! (j - 1))))"
    if "j < length args" for j
    using assms(4) that by (simp add: pattern_accepts_nth)
  note acc_i = acc [OF i]
  show "token_accepts ?x (args ! i) ?ty"
  proof (cases "tk_compound ?y")
    case True
    show ?thesis
    proof (cases "tk_compound ?x")
      case comp: True
      with True at wf have "tk_prefix ?x = tk_prefix ?y" "tk_suffix ?x = tk_suffix ?y"
        and le: "wild_le (tk_capture_type ?y) (tk_capture ?y) (tk_capture_type ?x) (tk_capture ?x)"
        by (auto simp: subsumes_at_iff)
      then show ?thesis
        using acc_i wild_le_accepts [OF wf_compound_canonical [OF wf(2) True]
            wf_compound_canonical [OF wf(1) comp] le] True comp wf
        by (auto simp: token_accepts_eq split: option.splits)
    next
      case False
      with True at wf have "tk_type ?x = ST_TYPE_ANY" by (simp add: subsumes_at_iff)
      then show ?thesis using any_accepts wf by simp
    qed
  next
    case noncomp: False
    then have xn: "\<not> tk_compound ?x" using at wf by (auto simp: subsumes_at_iff split: if_splits)
    show ?thesis
    proof (cases "tk_type ?x = ST_TYPE_LITERAL")
      case True
      then show ?thesis using at wf noncomp xn acc_i by (simp add: subsumes_at_iff token_accepts_eq)
    next
      case False
      note xs = wf_wild_canonical [OF wf(1) False]
      show ?thesis
      proof (cases "tk_type ?y = ST_TYPE_LITERAL")
        case ylit: True
        have argtext: "args ! i = tk_text ?y"
          using acc_i wf noncomp ylit by (simp add: token_accepts_eq)
        have "?c \<in> set (literal_contexts b i)"
        proof (cases "i = 0")
          case i0: False
          then have prev: "i - 1 < length args" using i by simp
          have "wf_token (b ! (i - 1))" using assms(2) prev lenb by (simp add: list_all_length)
          then show ?thesis
            using acc [OF prev] i0 by (auto simp: literal_contexts_def token_accepts_eq)
        qed (simp add: literal_contexts_def)
        then show ?thesis
          using at wf noncomp xn False ylit argtext by (simp add: subsumes_at_iff token_accepts_eq)
      next
        case ywild: False
        then have le: "wild_le (tk_type ?y) (tk_text ?y) (tk_type ?x) (tk_text ?x)"
          using at wf noncomp xn False by (simp add: subsumes_at_iff)
        then show ?thesis
          using wild_le_accepts [OF wf_wild_canonical [OF wf(2) ywild] xs le] acc_i wf noncomp xn False ywild
          by (simp add: token_accepts_eq)
      qed
    qed
  qed
qed


section \<open>Subsumption is a partial order\<close>

lemma subsumes_refl: "list_all wf_token a \<Longrightarrow> pattern_subsumes a a"
  using wf_compound_literal
  by (auto simp: pattern_subsumes_def list_all_iff subsumes_at_iff wild_le_refl)

lemma wf_plain_eq: "wf_token t \<Longrightarrow> \<not> tk_compound t \<Longrightarrow> t = plain_token (tk_text t) (tk_type t)"
  by (simp add: wf_token_def)

lemma subsumes_at_antisym:
  assumes "wf_token (a ! i)" "wf_token (b ! i)" "subsumes_at a b i" "subsumes_at b a i"
  shows "a ! i = b ! i"
proof (cases "tk_compound (b ! i)")
  case True
  then have x: "tk_compound (a ! i)"
    using assms by (auto simp: subsumes_at_iff split: if_splits)
  have "tk_prefix (a ! i) = tk_prefix (b ! i)" "tk_suffix (a ! i) = tk_suffix (b ! i)"
    "tk_capture_type (b ! i) = tk_capture_type (a ! i) \<and> tk_capture (b ! i) = tk_capture (a ! i)"
    using assms True x wild_le_antisym [OF wf_compound_canonical [OF assms(2) True]
        wf_compound_canonical [OF assms(1) x]]
    by (simp_all add: subsumes_at_iff)
  then show ?thesis
    using wf_compound_eq [OF assms(1) x] wf_compound_eq [OF assms(2) True] by metis
next
  case False
  then have x: "\<not> tk_compound (a ! i)"
    using assms by (auto simp: subsumes_at_iff split: if_splits)
  have "tk_type (a ! i) = tk_type (b ! i) \<and> tk_text (a ! i) = tk_text (b ! i)"
  proof (cases "tk_type (a ! i) = ST_TYPE_LITERAL \<or> tk_type (b ! i) = ST_TYPE_LITERAL")
    case True
    then show ?thesis using assms False x by (auto simp: subsumes_at_iff)
  next
    case wild: False
    then show ?thesis
      using assms False x wild_le_antisym [OF wf_wild_canonical [OF assms(2)] wf_wild_canonical [OF assms(1)]]
      by (simp add: subsumes_at_iff)
  qed
  then show ?thesis
    using wf_plain_eq [OF assms(1) x] wf_plain_eq [OF assms(2) False] by metis
qed

lemma subsumes_antisym:
  assumes "list_all wf_token a" "list_all wf_token b" "pattern_subsumes a b" "pattern_subsumes b a"
  shows "a = b"
  using assms subsumes_at_antisym
  by (auto simp: pattern_subsumes_def list_all_iff list_all_length intro!: nth_equalityI)

lemma contexts_widen:
  assumes "0 < i" "wf_token (a ! (i - 1))" "wf_token (b ! (i - 1))" "subsumes_at a b (i - 1)"
  shows "set (literal_contexts b i) \<subseteq> set (literal_contexts a i)"
proof (cases "\<not> tk_compound (a ! (i - 1)) \<and> tk_type (a ! (i - 1)) = ST_TYPE_LITERAL")
  case True
  then have "\<not> tk_compound (b ! (i - 1)) \<and> tk_type (b ! (i - 1)) = ST_TYPE_LITERAL \<and>
      tk_text (a ! (i - 1)) = tk_text (b ! (i - 1))"
    using assms(4) [unfolded subsumes_at_iff [OF assms(2,3)]] by (auto split: if_splits)
  then show ?thesis using True by (simp add: literal_contexts_def)
next
  case False
  then show ?thesis using assms(1) by (auto simp: literal_contexts_def)
qed

lemma subsumes_at_trans:
  assumes wf: "wf_token (a ! i)" "wf_token (b ! i)" "wf_token (c ! i)"
    and ab: "subsumes_at a b i" and bc: "subsumes_at b c i"
    and ctx: "set (literal_contexts c i) \<subseteq> set (literal_contexts b i)"
  shows "subsumes_at a c i"
proof -
  note ab = ab [unfolded subsumes_at_iff [OF wf(1,2)]]
  note bc = bc [unfolded subsumes_at_iff [OF wf(2,3)]]
  have any_up: "tk_type (a ! i) = ST_TYPE_ANY"
    if "tk_type (b ! i) = ST_TYPE_ANY" "\<not> tk_compound (b ! i)"
    using ab that type_lattice.le_bot lattice_le_antisym [of "tk_type (a ! i)" ST_TYPE_ANY]
    by (cases "tk_type (a ! i)") (auto simp: wild_le_def st_is_compatible_eq lattice_le_def split: if_splits)
  show ?thesis
  proof (cases "tk_compound (c ! i)")
    case True
    show ?thesis
    proof (cases "tk_compound (b ! i)")
      case b: True
      show ?thesis
      proof (cases "tk_compound (a ! i)")
        case x: True
        then show ?thesis
          using ab bc True b wild_le_trans [OF wf_compound_canonical [OF wf(2) b] wf_compound_canonical [OF wf(1) x]]
          by (simp add: subsumes_at_iff wf)
      next
        case False
        then show ?thesis using ab bc True b by (simp add: subsumes_at_iff wf)
      qed
    next
      case b: False
      then have "\<not> tk_compound (a ! i)" using ab by (auto split: if_splits)
      then show ?thesis using any_up bc True b by (simp add: subsumes_at_iff wf)
    qed
  next
    case c: False
    then have b: "\<not> tk_compound (b ! i)" using bc by (auto split: if_splits)
    then have x: "\<not> tk_compound (a ! i)" using ab by (auto split: if_splits)
    show ?thesis
    proof (cases "tk_type (a ! i) = ST_TYPE_LITERAL")
      case True
      then show ?thesis using ab bc b c x by (simp add: subsumes_at_iff wf)
    next
      case xw: False
      show ?thesis
      proof (cases "tk_type (b ! i) = ST_TYPE_LITERAL")
        case True
        then show ?thesis using ab bc b c x xw ctx by (auto simp: subsumes_at_iff wf)
      next
        case bw: False
        have le: "wild_le (tk_type (b ! i)) (tk_text (b ! i)) (tk_type (a ! i)) (tk_text (a ! i))"
          using ab b x xw bw by simp
        note sp = wf_wild_canonical [OF wf(2) bw] wf_wild_canonical [OF wf(1) xw]
        show ?thesis
          using bc b c x xw bw le wild_le_trans [OF sp _ le] wild_le_accepts [OF sp le]
          by (auto simp: subsumes_at_iff wf)
      qed
    qed
  qed
qed

lemma subsumes_trans:
  assumes "list_all wf_token a" "list_all wf_token b" "list_all wf_token c"
    and "pattern_subsumes a b" "pattern_subsumes b c"
  shows "pattern_subsumes a c"
proof -
  have len: "length a = length b" "length b = length c"
    using assms(4,5) by (simp_all add: pattern_subsumes_def)
  have "subsumes_at a c i" if i: "i < length a" for i
  proof (rule subsumes_at_trans)
    show "wf_token (a ! i)" "wf_token (b ! i)" "wf_token (c ! i)"
      using assms(1-3) i len by (auto simp: list_all_length)
    show "subsumes_at a b i" "subsumes_at b c i"
      using assms(4,5) i len by (auto simp: pattern_subsumes_def list_all_iff)
    show "set (literal_contexts c i) \<subseteq> set (literal_contexts b i)"
    proof (cases "i = 0")
      case False
      then have "i - 1 < length b" using i len by simp
      then show ?thesis
        using assms(2,3,5) False len
        by (intro contexts_widen) (auto simp: list_all_length pattern_subsumes_def list_all_iff)
    qed (simp add: literal_contexts_def)
  qed
  then show ?thesis using len by (simp add: pattern_subsumes_def list_all_iff)
qed

section \<open>Properties\<close>

text \<open>C1: Subsumption is sound: when one canonical pattern subsumes another, every command the
  second accepts is accepted by the first, each argument being classified in the context the
  command gives it.\<close>

theorem subsumption_sound:
  assumes "list_all wf_token a" "list_all wf_token b" "pattern_subsumes a b" "pattern_accepts b args"
  shows "pattern_accepts a args"
  using assms by (rule subsumes_sound)

theorem subsumption_sound_witness:
  "pattern_accepts [plain_token ''ls'' ST_TYPE_LITERAL, plain_token ''*'' ST_TYPE_ANY] [''ls'', ''-a'']"
proof (rule subsumption_sound)
  let ?b = "[plain_token ''ls'' ST_TYPE_LITERAL, plain_token ''-a'' ST_TYPE_LITERAL]"
  show wf: "list_all wf_token [plain_token ''ls'' ST_TYPE_LITERAL, plain_token ''*'' ST_TYPE_ANY]"
    "list_all wf_token ?b"
    by (simp_all add: wf_token_def ST_MAX_TOKEN_LEN_def canonical_spelling_def)
  have none: "st_wildcard_metadata (Some ''*'') ST_TYPE_ANY = None"
    by (simp add: st_wildcard_metadata_def)
  show "pattern_subsumes [plain_token ''ls'' ST_TYPE_LITERAL, plain_token ''*'' ST_TYPE_ANY] ?b"
    using wf by (simp add: pattern_subsumes_def subsumes_at_iff wild_accepts_def none
        closed_metadata_matches_def)
  show "pattern_accepts ?b [''ls'', ''-a'']"
    by (simp add: pattern_accepts_def classify_argv_def token_accepts_def)
qed

text \<open>C4: Subsumption is a partial order on canonical patterns: reflexive, antisymmetric up to
  equality of the patterns, and transitive, with the context-dependent literal case included.\<close>

theorem subsumption_partial_order:
  assumes "list_all wf_token a" "list_all wf_token b" "list_all wf_token c"
  shows "pattern_subsumes a a \<and>
    (pattern_subsumes a b \<longrightarrow> pattern_subsumes b a \<longrightarrow> a = b) \<and>
    (pattern_subsumes a b \<longrightarrow> pattern_subsumes b c \<longrightarrow> pattern_subsumes a c)"
  using assms by (auto intro: subsumes_refl subsumes_trans subsumes_antisym)

theorem subsumption_partial_order_witness:
  "pattern_subsumes [plain_token ''ls'' ST_TYPE_LITERAL] [plain_token ''ls'' ST_TYPE_LITERAL]"
  by (rule conjunct1, rule subsumption_partial_order [of _ "[]" "[]"])
     (simp_all add: wf_token_def ST_MAX_TOKEN_LEN_def)

end
