(* ===== verification/Recognisers.thy ===== *)
theory Recognisers imports Subsume begin

text \<open>
  What the recognisers of \<^verbatim>\<open>normalize.c\<close> accept, against independent
  specifications: dotted quads, calendar dates, the reach of the e-mail and size classes, the
  types classification never returns, and the metadata every quantity carries.
\<close>

section \<open>IPv4\<close>

definition octet :: "bytes \<Rightarrow> bool" where
  "octet a \<longleftrightarrow> a \<noteq> [] \<and> length a \<le> 3 \<and> (\<forall>c\<in>set a. shell_ascii_digit c) \<and> decimal_value 0 a \<le> 255"

lemma ipv4_digits_Some:
  "ipv4_digits v n s = Some r \<Longrightarrow> v \<le> 255 \<Longrightarrow> n \<le> 3 \<Longrightarrow>
   \<exists>a. s = a @ r \<and> n + length a \<le> 3 \<and> (\<forall>c\<in>set a. shell_ascii_digit c) \<and>
     decimal_value v a \<le> 255 \<and> (r = [] \<or> \<not> shell_ascii_digit (hd r))"
proof (induction v n s rule: ipv4_digits.induct)
  case (2 v n c s)
  show ?case
  proof (cases "shell_ascii_digit c")
    case True
    with 2 have ok: "n + 1 \<le> 3" "v * 10 + digit_value c \<le> 255"
      "ipv4_digits (v * 10 + digit_value c) (n + 1) s = Some r"
      by (auto simp: Let_def split: if_splits)
    from 2(1) [OF _ refl refl] True ok obtain a where
      "s = a @ r" "n + 1 + length a \<le> 3" "\<forall>c\<in>set a. shell_ascii_digit c"
      "decimal_value (v * 10 + digit_value c) a \<le> 255" "r = [] \<or> \<not> shell_ascii_digit (hd r)"
      by auto
    then show ?thesis using True by (intro exI [of _ "c # a"]) auto
  next
    case False
    then show ?thesis using 2 by (intro exI [of _ "[]"]) auto
  qed
qed auto

lemma ipv4_digits_append:
  "\<forall>c\<in>set a. shell_ascii_digit c \<Longrightarrow> n + length a \<le> 3 \<Longrightarrow> decimal_value v a \<le> 255 \<Longrightarrow>
   r = [] \<or> \<not> shell_ascii_digit (hd r) \<Longrightarrow> ipv4_digits v n (a @ r) = Some r"
proof (induction a arbitrary: v n)
  case Nil
  then show ?case by (cases r) auto
next
  case (Cons c a)
  then have "v * 10 + digit_value c \<le> 255"
    using decimal_value_mono [of "v * 10 + digit_value c" a] by simp
  then show ?case using Cons by (simp add: Let_def)
qed

lemma ipv4_segments_Suc:
  "ipv4_segments (Suc k) s \<longleftrightarrow>
     (\<exists>a r. s = a @ r \<and> octet a \<and> (r = [] \<or> \<not> shell_ascii_digit (hd r)) \<and>
        (if k = 0 then r = [] else \<exists>t. r = CHR ''.'' # t \<and> ipv4_segments k t))"
proof
  assume L: "ipv4_segments (Suc k) s"
  then obtain r where r: "ipv4_digits 0 0 s = Some r" "s \<noteq> []" "shell_ascii_digit (hd s)"
    by (auto split: if_splits option.splits)
  from ipv4_digits_Some [OF r(1)] obtain a where a: "s = a @ r" "length a \<le> 3"
    "\<forall>c\<in>set a. shell_ascii_digit c" "decimal_value 0 a \<le> 255" "r = [] \<or> \<not> shell_ascii_digit (hd r)"
    by auto
  then have "octet a" using r by (auto simp: octet_def)
  moreover have "if k = 0 then r = [] else \<exists>t. r = CHR ''.'' # t \<and> ipv4_segments k t"
    using L r by (cases r) (auto split: if_splits)
  ultimately show "\<exists>a r. s = a @ r \<and> octet a \<and> (r = [] \<or> \<not> shell_ascii_digit (hd r)) \<and>
        (if k = 0 then r = [] else \<exists>t. r = CHR ''.'' # t \<and> ipv4_segments k t)"
    using a by blast
next
  assume "\<exists>a r. s = a @ r \<and> octet a \<and> (r = [] \<or> \<not> shell_ascii_digit (hd r)) \<and>
        (if k = 0 then r = [] else \<exists>t. r = CHR ''.'' # t \<and> ipv4_segments k t)"
  then obtain a r where a: "s = a @ r" "octet a" "r = [] \<or> \<not> shell_ascii_digit (hd r)"
    "if k = 0 then r = [] else \<exists>t. r = CHR ''.'' # t \<and> ipv4_segments k t" by blast
  have "ipv4_digits 0 0 s = Some r"
    using a by (simp add: octet_def ipv4_digits_append)
  moreover have "s \<noteq> []" "shell_ascii_digit (hd s)" using a by (auto simp: octet_def)
  ultimately show "ipv4_segments (Suc k) s" using a(4) by (auto split: if_splits)
qed

lemma not_digit_dot [simp]: "\<not> shell_ascii_digit CHR ''.''"
  by (simp add: shell_ascii_digit_def)

lemma ipv4_segments_last: "ipv4_segments (Suc 0) s \<longleftrightarrow> octet s"
  unfolding ipv4_segments_Suc by auto

lemma ipv4_segments_more:
  "ipv4_segments (Suc (Suc k)) s \<longleftrightarrow> (\<exists>a t. s = a @ CHR ''.'' # t \<and> octet a \<and> ipv4_segments (Suc k) t)"
  unfolding ipv4_segments_Suc [of "Suc k"] by (fastforce simp del: ipv4_segments.simps)

lemma ipv4_quads:
  "span_is_ipv4 s \<longleftrightarrow>
     (\<exists>a b c d. s = a @ ''.'' @ b @ ''.'' @ c @ ''.'' @ d \<and> octet a \<and> octet b \<and> octet c \<and> octet d)"
proof -
  have "span_is_ipv4 s \<longleftrightarrow> ipv4_segments (Suc (Suc (Suc (Suc 0)))) s"
    by (simp add: span_is_ipv4_def numeral_eq_Suc del: ipv4_segments.simps)
  also have "\<dots> \<longleftrightarrow> (\<exists>a t. s = a @ CHR ''.'' # t \<and> octet a \<and>
      (\<exists>b u. t = b @ CHR ''.'' # u \<and> octet b \<and> (\<exists>c v. u = c @ CHR ''.'' # v \<and> octet c \<and> octet v)))"
    unfolding ipv4_segments_more ipv4_segments_last ..
  also have "\<dots> \<longleftrightarrow> (\<exists>a b c d. s = a @ ''.'' @ b @ ''.'' @ c @ ''.'' @ d \<and>
      octet a \<and> octet b \<and> octet c \<and> octet d)"
    unfolding append_Cons append_Nil by blast
  finally show ?thesis .
qed

section \<open>What classification returns\<close>

lemma classify_span_cases:
  "st_token_classify_span s = ST_TYPE_SIZE \<Longrightarrow> span_is_size s"
  "st_token_classify_span s = ST_TYPE_DURATION \<Longrightarrow> span_is_duration s"
  "st_token_classify_span s = ST_TYPE_EMAIL \<Longrightarrow> span_is_email s \<and> \<not> span_is_pkg s"
  "st_token_classify_span s = ST_TYPE_TIMESTAMP \<Longrightarrow> span_is_timestamp s"
  unfolding st_token_classify_span_def by (auto split: if_splits)

definition unreturned_types :: "st_token_type list" where
  "unreturned_types = [ST_TYPE_WORD, ST_TYPE_QUOTED, ST_TYPE_IPADDR, ST_TYPE_PATH, ST_TYPE_VALUE,
     ST_TYPE_OPT, ST_TYPE_PORT, ST_TYPE_ANY]"

lemma classify_span_range: "st_token_classify_span s \<notin> set unreturned_types"
  unfolding st_token_classify_span_def unreturned_types_def by (simp split: if_split)

lemma classify_context_range: "st_token_classify_context s c \<notin> set unreturned_types"
  using classify_span_range [of s]
  by (auto simp: st_token_classify_context_def unreturned_types_def)

lemma port_mask: "st_runtime_type_matches t ST_TYPE_PORT \<Longrightarrow> t = ST_TYPE_PORT"
  by (cases t) (simp_all add: runtime_type_matches_bit del: type_index.simps)

section \<open>E-mail addresses\<close>

lemma email_local_pkg: "email_local_char c \<Longrightarrow> c \<noteq> CHR ''+'' \<Longrightarrow> pkg_name_char c"
  by (auto simp: email_local_char_def pkg_name_char_def)

lemma email_domain_version: "email_domain_char c \<Longrightarrow> pkg_version_char c"
  by (auto simp: email_domain_char_def pkg_version_char_def)

lemma span_find_split:
  "span_find s c = Some i \<Longrightarrow>
   takeWhile (\<lambda>x. x \<noteq> c) s = take i s \<and> dropWhile (\<lambda>x. x \<noteq> c) s = c # drop (i + 1) s"
proof (induction s arbitrary: i)
  case (Cons x s)
  show ?case
  proof (cases "x = c")
    case False
    then obtain j where "span_find s c = Some j" "i = Suc j" using Cons by auto
    then show ?thesis using Cons.IH [of j] False by simp
  qed (use Cons in auto)
qed simp

lemma email_without_plus_is_pkg:
  assumes "span_is_email s" "hd s \<noteq> CHR ''-''" "CHR ''+'' \<notin> set (takeWhile (\<lambda>c. c \<noteq> CHR ''@'') s)"
  shows "span_is_pkg s"
proof -
  obtain i where i: "span_find s CHR ''@'' = Some i" "i \<noteq> 0" "i + 1 \<noteq> length s"
    "list_all email_local_char (take i s)" "list_all email_domain_char (drop (i + 1) s)"
    "list_ex (\<lambda>c. c = CHR ''.'') (drop (i + 1) s)"
    using assms(1) by (auto simp: span_is_email_def split: option.splits if_splits)
  note split = span_find_split [OF i(1)]
  have len: "i < length s" using span_find_Some [OF i(1)] by simp
  then have ne: "s \<noteq> []" "take i s \<noteq> []" using i by auto
  then have first: "hd s \<noteq> CHR ''@''"
    using i(2) span_find_Some [OF i(1)] by (cases s) (auto simp: take_Cons')
  have name: "list_all pkg_name_char (take i s)"
  proof -
    have "CHR ''+'' \<notin> set (take i s)" using assms(3) split by metis
    then show ?thesis using i(4) email_local_pkg unfolding list_all_iff by metis
  qed
  have version: "pkg_version_ok False (drop (i + 1) s)"
    using i(5,6) email_domain_version unfolding pkg_version_ok_def list_all_iff list_ex_iff by blast
  have "drop (i + 1) s \<noteq> []" using i(3) len by simp
  then show ?thesis
    using ne first assms(2) name version unfolding span_is_pkg_def Let_def conjunct1 [OF split] conjunct2 [OF split]
    by simp
qed


section \<open>Quantities carry metadata\<close>

lemma size_number_drop:
  "size_number a b s = Some (d, r) \<Longrightarrow> dropWhile metadata_number_char s = r \<and>
     set s \<subseteq> {c. metadata_number_char c} \<union> set r \<and> (d \<longrightarrow> b \<or> (s \<noteq> [] \<and> metadata_number_char (hd s)))"
  by (induction a b s rule: size_number.induct)
     (auto simp: metadata_number_char_def split: if_splits)

lemma duration_number_drop:
  "duration_number a b s = Some (d, r) \<Longrightarrow> dropWhile metadata_number_char s = r \<and>
     set s \<subseteq> {c. metadata_number_char c} \<union> set r"
  by (induction a b s rule: duration_number.induct)
     (auto simp: metadata_number_char_def split: if_splits)

lemma size_suffix_lookup:
  "list_all (\<lambda>x. NUL \<notin> set x \<and> st_metadata_lookup_span ST_TYPE_SIZE x \<noteq> None) size_suffixes"
  by (simp add: size_suffixes_def st_metadata_entries_def meta_entry_def
      st_metadata_lookup_span_def fold_upper char_of_def)

lemma duration_suffix_lookup:
  "list_all (\<lambda>x. NUL \<notin> set x \<and> st_metadata_lookup_span ST_TYPE_DURATION x \<noteq> None) duration_suffixes"
  by (simp add: duration_suffixes_def st_metadata_entries_def meta_entry_def
      st_metadata_lookup_span_def fold_upper char_of_def)

lemma lookup_span_ci:
  "map shell_ascii_fold x = map shell_ascii_fold y \<Longrightarrow>
   st_metadata_lookup_span t x = st_metadata_lookup_span t y"
proof -
  assume "map shell_ascii_fold x = map shell_ascii_fold y"
  then have "shell_ascii_equal_ci x = shell_ascii_equal_ci y" by (simp add: fun_eq_iff equal_ci_iff)
  then show ?thesis by (simp add: st_metadata_lookup_span_def cong: option.case_cong)
qed

lemma not_metadata_number_nul [simp]: "\<not> metadata_number_char NUL"
  by (simp add: metadata_number_char_def shell_ascii_digit_def less_eq_char_def)

lemma not_metadata_number_minus [simp]: "\<not> metadata_number_char CHR ''-''"
  by (simp add: metadata_number_char_def shell_ascii_digit_def less_eq_char_def)

lemma fold_nul: "shell_ascii_fold c = NUL \<longleftrightarrow> c = NUL"
proof
  assume "shell_ascii_fold c = NUL"
  moreover have "ord c \<ge> 65 \<Longrightarrow> ord c \<le> 90 \<Longrightarrow> char_of (ord c + 32) \<noteq> NUL"
  proof
    assume "ord c \<ge> 65" "ord c \<le> 90" "char_of (ord c + 32) = NUL"
    then have "ord (char_of (ord c + 32)) = ord NUL" by simp
    then show False using \<open>ord c \<ge> 65\<close> \<open>ord c \<le> 90\<close> by (simp add: of_char_of)
  qed
  ultimately show "c = NUL" by (auto simp: fold_upper split: if_splits)
qed (simp add: fold_upper)

lemma fold_nul_mem: "map shell_ascii_fold x = map shell_ascii_fold y \<Longrightarrow> NUL \<in> set x \<longleftrightarrow> NUL \<in> set y"
proof -
  assume eq: "map shell_ascii_fold x = map shell_ascii_fold y"
  have "NUL \<in> set z \<longleftrightarrow> NUL \<in> set (map shell_ascii_fold z)" for z
    by (induction z) (auto simp: fold_nul eq_commute [of NUL])
  then show ?thesis using eq by metis
qed

lemma quantity_value_id:
  assumes "t = ST_TYPE_SIZE \<or> t = ST_TYPE_DURATION" "NUL \<notin> set s"
    and "st_metadata_lookup_span t (dropWhile metadata_number_char
           (if s \<noteq> [] \<and> hd s = CHR ''-'' then tl s else s)) = Some m"
  shows "st_metadata_value_id t s = me_id m"
  using assms by (auto simp: st_metadata_value_id.simps Let_def)

lemma size_has_metadata:
  assumes "span_is_size s"
  shows "\<exists>m\<in>set st_metadata_entries. me_type m = ST_TYPE_SIZE \<and>
    st_metadata_value_id ST_TYPE_SIZE s = me_id m"
proof -
  obtain suf where suf: "size_number False False s = Some (True, suf)" "suf \<in> set size_suffixes"
    using assms by (auto simp: span_is_size_def span_eq_def list_ex_iff split: if_splits option.splits)
  note drop = size_number_drop [OF suf(1)]
  obtain m where m: "st_metadata_lookup_span ST_TYPE_SIZE suf = Some m" "NUL \<notin> set suf"
    using size_suffix_lookup suf(2) by (auto simp: list_all_iff)
  have "NUL \<notin> set s" using drop m(2) by auto
  moreover have "hd s \<noteq> CHR ''-''" using drop by auto
  ultimately have "st_metadata_value_id ST_TYPE_SIZE s = me_id m"
    using m(1) drop by (intro quantity_value_id) auto
  then show ?thesis using lookup_span_entry [OF m(1)] by blast
qed

lemma duration_has_metadata:
  assumes "span_is_duration s"
  shows "\<exists>m\<in>set st_metadata_entries. me_type m = ST_TYPE_DURATION \<and>
    st_metadata_value_id ST_TYPE_DURATION s = me_id m"
proof -
  let ?u = "if hd s = CHR ''-'' then tl s else s"
  have ne: "s \<noteq> []" using assms by (auto simp: span_is_duration_def)
  obtain suf x where suf: "duration_number False False ?u = Some (True, suf)"
    "x \<in> set duration_suffixes" "shell_ascii_equal_ci suf x"
    using assms by (auto simp: span_is_duration_def span_eq_ci_def list_ex_iff split: if_splits option.splits)
  note drop = duration_number_drop [OF suf(1)]
  have ci: "map shell_ascii_fold suf = map shell_ascii_fold x" using suf(3) by (simp add: equal_ci_iff)
  obtain m where "st_metadata_lookup_span ST_TYPE_DURATION x = Some m" "NUL \<notin> set x"
    using duration_suffix_lookup suf(2) by (auto simp: list_all_iff)
  then have m: "st_metadata_lookup_span ST_TYPE_DURATION suf = Some m" "NUL \<notin> set suf"
    using lookup_span_ci [OF ci] fold_nul_mem [OF ci] by auto
  have "NUL \<notin> set ?u" using drop m(2) by auto
  then have "NUL \<notin> set s" using ne by (cases s) (auto split: if_splits)
  then have "st_metadata_value_id ST_TYPE_DURATION s = me_id m"
    using m(1) drop ne by (intro quantity_value_id) auto
  then show ?thesis using lookup_span_entry [OF m(1)] by blast
qed

section \<open>Calendar dates\<close>

definition pad2 :: "nat \<Rightarrow> bytes" where
  "pad2 n = [digit_char (n div 10 mod 10), digit_char (n mod 10)]"

definition pad4 :: "nat \<Rightarrow> bytes" where
  "pad4 n = [digit_char (n div 1000 mod 10), digit_char (n div 100 mod 10),
     digit_char (n div 10 mod 10), digit_char (n mod 10)]"

definition iso_date :: "nat \<Rightarrow> nat \<Rightarrow> nat \<Rightarrow> bytes" where
  "iso_date y m d = pad4 y @ ''-'' @ pad2 m @ ''-'' @ pad2 d"

text \<open>The Gregorian calendar.\<close>

definition month_length :: "nat \<Rightarrow> nat \<Rightarrow> nat" where
  "month_length y m =
     (if m \<in> {4, 6, 9, 11} then 30
      else if m = 2 then (if 4 dvd y \<and> (100 dvd y \<longrightarrow> 400 dvd y) then 29 else 28)
      else 31)"

definition gregorian_date :: "nat \<Rightarrow> nat \<Rightarrow> nat \<Rightarrow> bool" where
  "gregorian_date y m d \<longleftrightarrow> 1 \<le> y \<and> 1 \<le> m \<and> m \<le> 12 \<and> 1 \<le> d \<and> d \<le> month_length y m"

lemma days_per_month_eq:
  "1 \<le> m \<Longrightarrow> m \<le> 12 \<Longrightarrow>
   days_per_month ! (m - 1) + (if m = 2 \<and> leap_year y then 1 else 0) = month_length y m"
proof -
  assume "1 \<le> m" "m \<le> 12"
  then have "m = 1 \<or> m = 2 \<or> m = 3 \<or> m = 4 \<or> m = 5 \<or> m = 6 \<or> m = 7 \<or> m = 8 \<or>
      m = 9 \<or> m = 10 \<or> m = 11 \<or> m = 12" by arith
  moreover have "leap_year y \<longleftrightarrow> 4 dvd y \<and> (100 dvd y \<longrightarrow> 400 dvd y)"
    unfolding leap_year_def by presburger
  ultimately show ?thesis
    by (elim disjE) (simp_all add: days_per_month_def month_length_def)
qed

lemma pad2_value: "n < 100 \<Longrightarrow> foldl (\<lambda>v c. v * 10 + digit_value c) 0 (pad2 n) = n"
  by (simp add: pad2_def)

lemma pad4_value: "n < 10000 \<Longrightarrow> foldl (\<lambda>v c. v * 10 + digit_value c) 0 (pad4 n) = n"
proof -
  assume n: "n < 10000"
  have a: "n = n div 10 * 10 + n mod 10" by simp
  have b: "n div 10 = n div 100 * 10 + n div 10 mod 10"
    using div_mult_mod_eq [of "n div 10" 10] by (simp add: div_mult2_eq [symmetric])
  have c: "n div 100 = n div 1000 * 10 + n div 100 mod 10"
    using div_mult_mod_eq [of "n div 100" 10] by (simp add: div_mult2_eq [symmetric])
  have d: "n div 1000 mod 10 = n div 1000" using n by simp
  have "foldl (\<lambda>v c. v * 10 + digit_value c) 0 (pad4 n) =
      ((n div 1000 mod 10 * 10 + n div 100 mod 10) * 10 + n div 10 mod 10) * 10 + n mod 10"
    by (simp add: pad4_def)
  then show ?thesis unfolding d using a b c by presburger
qed

lemma iso_date_parts:
  "length (iso_date y m d) = 10" "iso_date y m d ! 4 = CHR ''-''" "iso_date y m d ! 7 = CHR ''-''"
  "take 4 (iso_date y m d) = pad4 y" "take 2 (drop 5 (iso_date y m d)) = pad2 m"
  "take 2 (drop 8 (iso_date y m d)) = pad2 d"
  by (simp_all add: iso_date_def pad2_def pad4_def)

lemma pad_digits: "list_all shell_ascii_digit (pad2 n)" "list_all shell_ascii_digit (pad4 n)"
  by (simp_all add: pad2_def pad4_def)

lemma iso_date_digits:
  assumes "y < 10000" "m < 100" "d < 100"
  shows "span_parse_digits (iso_date y m d) 0 4 = Some y"
    "span_parse_digits (iso_date y m d) 5 2 = Some m"
    "span_parse_digits (iso_date y m d) 8 2 = Some d"
  by (simp_all add: span_parse_digits_def iso_date_parts pad_digits Let_def
      pad4_value [OF assms(1)] pad2_value [OF assms(2)] pad2_value [OF assms(3)])

lemma iso_date_timestamp:
  assumes "y < 10000" "m < 100" "d < 100"
  shows "span_is_timestamp (iso_date y m d) \<longleftrightarrow> gregorian_date y m d"
proof -
  have "timestamp_date_ok (iso_date y m d) \<longleftrightarrow> gregorian_date y m d"
    using days_per_month_eq [of m y]
    by (auto simp: timestamp_date_ok_def iso_date_digits [OF assms] gregorian_date_def Let_def not_le not_less)
  then show ?thesis by (simp add: span_is_timestamp_def iso_date_parts)
qed

section \<open>Properties\<close>

text \<open>The IPv4 recogniser accepts exactly the dotted quads of one to three digits, each of
  value at most 255.\<close>

theorem ipv4_is_dotted_quad:
  "span_is_ipv4 s \<longleftrightarrow>
     (\<exists>a b c d. s = a @ ''.'' @ b @ ''.'' @ c @ ''.'' @ d \<and> octet a \<and> octet b \<and> octet c \<and> octet d)"
  by (rule ipv4_quads)

text \<open>A ten-byte date is recognised exactly when it is a date of the Gregorian calendar.\<close>

theorem timestamp_date_is_gregorian:
  assumes "y < 10000" "m < 100" "d < 100"
  shows "span_is_timestamp (iso_date y m d) \<longleftrightarrow> gregorian_date y m d"
  using assms by (rule iso_date_timestamp)

theorem timestamp_date_is_gregorian_witness:
  "span_is_timestamp (iso_date 2024 2 29) \<longleftrightarrow> gregorian_date 2024 2 29"
  by (rule timestamp_date_is_gregorian) simp_all

text \<open>Every token classified as a size or a duration has parameter metadata: its value
  identifier is that of a table entry of its own type, so some parametrised rule can select
  it.\<close>

theorem quantities_have_metadata:
  assumes "st_token_classify_span s = t" "t = ST_TYPE_SIZE \<or> t = ST_TYPE_DURATION"
  shows "\<exists>m\<in>set st_metadata_entries. me_type m = t \<and> st_metadata_value_id t s = me_id m"
  using assms(2)
proof
  assume t: "t = ST_TYPE_SIZE"
  then show ?thesis using assms(1) classify_span_cases(1) size_has_metadata by simp
next
  assume t: "t = ST_TYPE_DURATION"
  then show ?thesis using assms(1) classify_span_cases(2) duration_has_metadata by simp
qed

theorem quantities_have_metadata_witness:
  "\<exists>m\<in>set st_metadata_entries. me_type m = ST_TYPE_DURATION \<and>
     st_metadata_value_id ST_TYPE_DURATION ''5ms'' = me_id m"
  by (rule quantities_have_metadata) (code_simp, simp)

text \<open>Classification never returns the union types or the port type, so a port wildcard,
  documented as accepting port numbers, accepts no argument of any command.\<close>

theorem port_wildcard_accepts_nothing:
  "\<not> token_accepts (plain_token ''#port'' ST_TYPE_PORT) s (st_token_classify_context s c)"
  using classify_context_range [of s c] port_mask [of "st_token_classify_context s c"]
  by (auto simp: token_accepts_def unreturned_types_def)

text \<open>A token is classified as an e-mail address only when its local part holds a plus sign
  or it starts with a hyphen; every other address is taken by the package recogniser first.\<close>

theorem email_class_needs_plus:
  assumes "st_token_classify_span s = ST_TYPE_EMAIL"
  shows "hd s = CHR ''-'' \<or> CHR ''+'' \<in> set (takeWhile (\<lambda>c. c \<noteq> CHR ''@'') s)"
  using assms classify_span_cases(3) email_without_plus_is_pkg by blast

theorem email_class_needs_plus_witness:
  "hd ''a+b@c.org'' = CHR ''-'' \<or> CHR ''+'' \<in> set (takeWhile (\<lambda>c. c \<noteq> CHR ''@'') ''a+b@c.org'')"
  by (rule email_class_needs_plus) code_simp

end
