(* ===== verification/Paths.thy ===== *)
theory Paths imports Prelude begin

text \<open>
  Paths through a trie whose nodes lie in a list and whose edges hold indices into it. The locale
  \<open>edge_map\<close> is the contract between a node and the trie: a finite map from keys to
  indices with lookup, insertion and removal. Its lemmas say how the two structural steps of an
  update, a new leaf and the removal of a dead end, change the paths.
\<close>

section \<open>Paths and trees\<close>

fun path :: "('n \<Rightarrow> 'k \<Rightarrow> nat option) \<Rightarrow> 'n list \<Rightarrow> nat \<Rightarrow> 'k list \<Rightarrow> nat option" where
  "path edges st q [] = Some q"
| "path edges st q (k # ks) =
     (case edges (st ! q) k of None \<Rightarrow> None | Some r \<Rightarrow> path edges st r ks)"

text \<open>Every edge leads to a node other than the root, and no node has two incoming edges.\<close>

definition tree :: "('n \<Rightarrow> 'k \<Rightarrow> nat option) \<Rightarrow> 'n list \<Rightarrow> bool" where
  "tree edges st \<longleftrightarrow> st \<noteq> [] \<and>
     (\<forall>q k r. q < length st \<longrightarrow> edges (st ! q) k = Some r \<longrightarrow> 0 < r \<and> r < length st) \<and>
     (\<forall>q q' k k' r. q < length st \<longrightarrow> q' < length st \<longrightarrow>
        edges (st ! q) k = Some r \<longrightarrow> edges (st ! q') k' = Some r \<longrightarrow> q = q' \<and> k = k')"

lemma tree_edge:
  "tree edges st \<Longrightarrow> q < length st \<Longrightarrow> edges (st ! q) k = Some r \<Longrightarrow> 0 < r \<and> r < length st"
  unfolding tree_def by blast

lemma tree_unique:
  "tree edges st \<Longrightarrow> q < length st \<Longrightarrow> q' < length st \<Longrightarrow> edges (st ! q) k = Some r \<Longrightarrow>
   edges (st ! q') k' = Some r \<Longrightarrow> q = q' \<and> k = k'"
  unfolding tree_def by blast

lemma tree_nonempty: "tree edges st \<Longrightarrow> 0 < length st"
  by (simp add: tree_def)

lemma path_append:
  "path edges st q (xs @ ys) = Option.bind (path edges st q xs) (\<lambda>r. path edges st r ys)"
  by (induction xs arbitrary: q) (auto split: option.splits)

lemma path_snoc:
  "path edges st q (ks @ [k]) = Option.bind (path edges st q ks) (\<lambda>r. edges (st ! r) k)"
  by (simp add: path_append cong: option.case_cong) (cases "path edges st q ks"; simp split: option.splits)

lemma path_last:
  assumes "ks \<noteq> [] \<and> last ks = k \<and> path edges st q (butlast ks) = Some p"
  shows "path edges st q ks = edges (st ! p) k"
proof -
  have "ks = butlast ks @ [k]" using assms by (metis append_butlast_last_id)
  then have "path edges st q ks = path edges st q (butlast ks @ [k])" by (rule arg_cong)
  then show ?thesis using assms by (simp add: path_snoc)
qed

lemma path_bound:
  "tree edges st \<Longrightarrow> q < length st \<Longrightarrow> path edges st q ks = Some r \<Longrightarrow> r < length st"
  by (induction ks arbitrary: q) (auto split: option.splits dest: tree_edge)

lemma path_root:
  assumes "tree edges st" "path edges st 0 ks = Some 0"
  shows "ks = []"
proof (cases ks rule: rev_cases)
  case (snoc ls l)
  then obtain r where r: "path edges st 0 ls = Some r" "edges (st ! r) l = Some 0"
    using assms(2) by (auto simp: path_snoc bind_eq_Some_conv)
  have "r < length st" using path_bound [OF assms(1) tree_nonempty [OF assms(1)] r(1)] .
  then show ?thesis using tree_edge [OF assms(1) _ r(2)] by simp
qed simp

text \<open>In a tree a node is reached by one path only.\<close>

lemma path_unique:
  assumes "tree edges st"
  shows "path edges st 0 ks = Some r \<Longrightarrow> path edges st 0 ls = Some r \<Longrightarrow> ks = ls"
proof (induction ks arbitrary: ls r rule: rev_induct)
  case Nil
  then show ?case using path_root [OF assms, of ls] by simp
next
  case (snoc k ks)
  then obtain p where p: "path edges st 0 ks = Some p" "edges (st ! p) k = Some r"
    by (auto simp: path_snoc bind_eq_Some_conv)
  have pl: "p < length st" using path_bound [OF assms tree_nonempty [OF assms] p(1)] .
  show ?case
  proof (cases ls rule: rev_cases)
    case Nil
    then show ?thesis using snoc.prems(2) tree_edge [OF assms pl p(2)] by simp
  next
    case l: (snoc ls' l)
    then obtain p' where p': "path edges st 0 ls' = Some p'" "edges (st ! p') l = Some r"
      using snoc.prems(2) by (auto simp: path_snoc bind_eq_Some_conv)
    have "p' < length st" using path_bound [OF assms tree_nonempty [OF assms] p'(1)] .
    then have "p = p' \<and> k = l" using tree_unique [OF assms pl _ p(2) p'(2)] by blast
    then show ?thesis using snoc.IH [OF p(1)] p'(1) l by simp
  qed
qed

lemma path_cong_edges:
  assumes "length st' = length st" "\<And>q. q < length st \<Longrightarrow> edges (st' ! q) = edges (st ! q)"
    and "tree edges st" "q < length st"
  shows "path edges st' q ks = path edges st q ks"
  using assms(4)
proof (induction ks arbitrary: q)
  case (Cons k ks)
  then show ?case
    using assms(2) [OF Cons.prems] tree_edge [OF assms(3) Cons.prems, of k]
    by (auto split: option.splits)
qed simp

lemma tree_cong_edges:
  assumes "length st' = length st" "\<And>q. q < length st \<Longrightarrow> edges (st' ! q) = edges (st ! q)" "tree edges st"
  shows "tree edges st'"
proof -
  have "st' \<noteq> []" using assms(1,3) by (auto simp: tree_def)
  then show ?thesis using assms unfolding tree_def by metis
qed

text \<open>A new leaf at the end, and node \<open>p\<close> replaced.\<close>

definition grow :: "'n \<Rightarrow> 'n list \<Rightarrow> nat \<Rightarrow> 'n \<Rightarrow> 'n list" where
  "grow leaf st p n = (st @ [leaf])[p := n]"

lemma length_grow [simp]: "length (grow leaf st p n) = Suc (length st)"
  by (simp add: grow_def)

section \<open>The contract of a node\<close>

locale edge_map =
  fixes node_ok :: "'n \<Rightarrow> bool" and key_ok :: "'k \<Rightarrow> bool"
    and edges :: "'n \<Rightarrow> 'k \<Rightarrow> nat option" and leaf :: 'n
    and lookup :: "'n \<Rightarrow> 'k \<Rightarrow> nat option"
    and ins :: "'n \<Rightarrow> 'k \<Rightarrow> nat \<Rightarrow> 'n option" and del :: "'n \<Rightarrow> 'k \<Rightarrow> 'n option"
  assumes leaf_ok: "node_ok leaf" and leaf_edges: "edges leaf k = None"
    and lookup_edges: "node_ok n \<Longrightarrow> key_ok k \<Longrightarrow> lookup n k = edges n k"
    and edges_key: "node_ok n \<Longrightarrow> edges n k = Some r \<Longrightarrow> key_ok k"
    and ins_law: "node_ok n \<Longrightarrow> key_ok k \<Longrightarrow> edges n k = None \<Longrightarrow> ins n k r = Some n' \<Longrightarrow>
        node_ok n' \<and> edges n' = (edges n)(k \<mapsto> r)"
    and del_law: "node_ok n \<Longrightarrow> key_ok k \<Longrightarrow> del n k = Some n' \<Longrightarrow>
        node_ok n' \<and> edges n' = (edges n)(k := None)"
    and del_None: "node_ok n \<Longrightarrow> key_ok k \<Longrightarrow> del n k = None \<longleftrightarrow> edges n k = None"
begin

text \<open>Looking the keys up one by one follows the path.\<close>

lemma lookup_path:
  assumes "list_all node_ok st" "tree edges st" "list_all key_ok ks" "q < length st"
  shows "path lookup st q ks = path edges st q ks"
  using assms(3,4)
proof (induction ks arbitrary: q)
  case (Cons k ks)
  then have "lookup (st ! q) k = edges (st ! q) k"
    using assms(1) by (intro lookup_edges) (auto simp: list_all_length)
  then show ?case
    using Cons tree_edge [OF assms(2) Cons.prems(2), of k] by (auto split: option.splits)
qed simp

lemma path_keys:
  assumes "list_all node_ok st" "tree edges st" "q < length st" "path edges st q ks = Some r"
  shows "list_all key_ok ks"
  using assms(3,4)
proof (induction ks arbitrary: q)
  case (Cons k ks)
  then obtain p where p: "edges (st ! q) k = Some p" "path edges st p ks = Some r"
    by (auto split: option.splits)
  have "key_ok k" using edges_key [OF _ p(1)] assms(1) Cons.prems(1) by (simp add: list_all_length)
  then show ?case using Cons.IH [OF _ p(2)] tree_edge [OF assms(2) Cons.prems(1) p(1)] by simp
qed simp

section \<open>A new leaf\<close>

lemma grow_nth:
  "p < length st \<Longrightarrow> q < length st \<Longrightarrow> grow leaf st p n ! q = (if q = p then n else st ! q)"
  "p < length st \<Longrightarrow> grow leaf st p n ! length st = leaf"
  by (auto simp: grow_def nth_append nth_list_update)

lemma grow_ok:
  assumes "list_all node_ok st" "p < length st" "node_ok n"
  shows "list_all node_ok (grow leaf st p n)"
  unfolding list_all_length
proof (intro allI impI)
  fix q assume "q < length (grow leaf st p n)"
  then show "node_ok (grow leaf st p n ! q)"
    using assms leaf_ok by (cases "q = length st") (auto simp: grow_nth list_all_length)
qed

lemma grow_edges:
  assumes "p < length st" "edges n = (edges (st ! p))(k \<mapsto> length st)" "q < Suc (length st)"
  shows "edges (grow leaf st p n ! q) j =
    (if q = length st then None else if q = p \<and> j = k then Some (length st) else edges (st ! q) j)"
  using assms by (auto simp: grow_nth leaf_edges less_Suc_eq)

lemma grow_tree:
  assumes "tree edges st" "p < length st" "edges (st ! p) k = None" "edges n = (edges (st ! p))(k \<mapsto> length st)"
  shows "tree edges (grow leaf st p n)"
  unfolding tree_def
proof (intro conjI allI impI)
  note E = grow_edges [OF assms(2,4)]
  have old: "0 < r \<and> r < length st" if "q < length st" "edges (st ! q) j = Some r" for q j r
    using tree_edge [OF assms(1) that] .
  show "grow leaf st p n \<noteq> []" by (simp flip: length_greater_0_conv)
  fix q q' j j' r
  assume q: "q < length (grow leaf st p n)" "edges (grow leaf st p n ! q) j = Some r"
  then show "0 < r" "r < length (grow leaf st p n)"
    using old [of q j r] tree_nonempty [OF assms(1)] by (auto simp: E split: if_splits)
  assume q': "q' < length (grow leaf st p n)" "edges (grow leaf st p n ! q') j' = Some r"
  have "q = q' \<and> j = j'"
    using q q' old [of q j r] old [of q' j' r] tree_unique [OF assms(1), of q q' j r j'] assms(2)
    by (auto simp: E split: if_splits)
  then show "q = q'" "j = j'" by simp_all
qed

lemma grow_path:
  assumes "tree edges st" "p < length st" "edges (st ! p) k = None"
    "edges n = (edges (st ! p))(k \<mapsto> length st)" "q < length st"
  shows "path edges (grow leaf st p n) q ks =
    (if ks \<noteq> [] \<and> last ks = k \<and> path edges st q (butlast ks) = Some p then Some (length st)
     else path edges st q ks)"
proof (induction ks rule: rev_induct)
  case (snoc l ks)
  have bound: "r < length st" if "path edges st q ks = Some r" for r
    using path_bound [OF assms(1,5) that] .
  show ?case
  proof (cases "ks \<noteq> [] \<and> last ks = k \<and> path edges st q (butlast ks) = Some p")
    case True
    then have "path edges st q ks = None" using assms(3) by (simp add: path_last)
    then show ?thesis using snoc True assms(2) grow_nth(2) by (simp add: path_snoc leaf_edges)
  next
    case False
    then show ?thesis
      using snoc bound grow_edges [OF assms(2,4)] assms(3)
      by (cases "path edges st q ks") (auto simp: path_snoc less_SucI)
  qed
qed simp

section \<open>Removal of a dead end\<close>

lemma cut_nth:
  assumes "p < length st" "edges n = (edges (st ! p))(k := None)"
  shows "edges (st[p := n] ! q) j = (if q = p \<and> j = k then None else edges (st ! q) j)"
  using assms by (auto simp: nth_list_update)

lemma cut_tree:
  assumes "tree edges st" "p < length st" "edges n = (edges (st ! p))(k := None)"
  shows "tree edges (st[p := n])"
  using assms(1) unfolding tree_def cut_nth [OF assms(2,3)]
  by (auto split: if_splits)

lemma cut_path:
  assumes "tree edges st" "p < length st" "edges (st ! p) k = Some d"
    "edges n = (edges (st ! p))(k := None)" "edges (st ! d) = Map.empty"
  shows "path edges (st[p := n]) q ks =
    (if ks \<noteq> [] \<and> last ks = k \<and> path edges st q (butlast ks) = Some p then None
     else path edges st q ks)"
proof (induction ks rule: rev_induct)
  case (snoc l ks)
  show ?case
  proof (cases "ks \<noteq> [] \<and> last ks = k \<and> path edges st q (butlast ks) = Some p")
    case True
    then have "path edges st q ks = Some d" using assms(3) by (simp add: path_last)
    then show ?thesis using snoc True assms(3,5) by (auto simp: path_snoc)
  next
    case False
    then show ?thesis
      using snoc cut_nth [OF assms(2,4)] by (cases "path edges st q ks") (auto simp: path_snoc)
  qed
qed simp

end

end
