(* ===== verification/Trie.thy ===== *)
theory Trie imports Subsume Paths begin

text \<open>
  Nodes of the policy trie of \<^verbatim>\<open>shelltype/src/policy.c\<close>: child entries, lookup,
  insertion and removal of a child. A node's block of the children arena is the two lists of its
  literal and its wildcard children; \<open>None\<close> stands for \<^verbatim>\<open>UINT16_MAX\<close> and for
  \<^verbatim>\<open>NULL\<close>. The locale \<open>edge_map\<close> is the contract of a node, a map from tokens
  to target states; paths through a trie are treated in it once.
\<close>

section \<open>Child entries\<close>

record child_entry =
  ce_text :: "bytes option"
  ce_target :: nat
  ce_type :: st_token_type
  ce_compound :: bool
  ce_text_length :: nat
  ce_prefix_length :: nat
  ce_capture_length :: nat
  ce_capture_type :: st_token_type

text \<open>Conversion to a 16-bit field.\<close>

definition u16 :: "nat \<Rightarrow> nat" where "u16 n = n mod 65536"

definition child_text :: "child_entry \<Rightarrow> bytes" where
  "child_text c = take (ce_text_length c) (case ce_text c of None \<Rightarrow> [] | Some s \<Rightarrow> s)"

definition child_matches_literal_token :: "child_entry \<Rightarrow> st_token \<Rightarrow> bool" where
  "child_matches_literal_token child token =
     (if ce_compound child \<noteq> tk_compound token \<or> tk_text token \<noteq> child_text child then False
      else if \<not> tk_compound token then True
      else ce_prefix_length child = length (tk_prefix token) \<and>
           ce_capture_length child = length (tk_capture token) \<and>
           ce_capture_type child = tk_capture_type token)"

definition child_compare_literal_token :: "child_entry \<Rightarrow> st_token \<Rightarrow> int" where
  "child_compare_literal_token child token =
     (let order = bytes_compare (child_text child) (tk_text token) in
      if order \<noteq> 0 then order
      else if ce_compound child \<noteq> tk_compound token then (if ce_compound child then 1 else -1)
      else if \<not> tk_compound token then 0
      else if ce_prefix_length child \<noteq> length (tk_prefix token)
        then (if ce_prefix_length child < length (tk_prefix token) then -1 else 1)
      else if ce_capture_length child \<noteq> length (tk_capture token)
        then (if ce_capture_length child < length (tk_capture token) then -1 else 1)
      else if ce_capture_type child < tk_capture_type token then -1
      else if ce_capture_type child > tk_capture_type token then 1 else 0)"

section \<open>Nodes\<close>

record policy_state =
  ps_literals :: "child_entry list"
  ps_wildcards :: "child_entry list"
  ps_pattern_id :: "nat option"
  ps_wildcard_mask :: type_mask
  ps_children_alloc :: nat

definition empty_state :: policy_state where
  "empty_state = \<lparr>ps_literals = [], ps_wildcards = [], ps_pattern_id = None,
     ps_wildcard_mask = 0, ps_children_alloc = 0\<rparr>"

definition find_literal_child :: "policy_state \<Rightarrow> st_token \<Rightarrow> child_entry option" where
  "find_literal_child node token =
     find (\<lambda>child. child_matches_literal_token child token) (ps_literals node)"

definition exact_wildcard :: "st_token_type \<Rightarrow> bytes \<Rightarrow> child_entry \<Rightarrow> bool" where
  "exact_wildcard t text child =
     (ce_type child = t \<and>
      (case ce_text child of
         None \<Rightarrow> wildcard_param (Some text) t = None
       | Some existing \<Rightarrow> cstr text = cstr existing))"

definition find_exact_wildcard_child ::
    "policy_state \<Rightarrow> st_token_type \<Rightarrow> bytes \<Rightarrow> child_entry option" where
  "find_exact_wildcard_child node t text = find (exact_wildcard t text) (ps_wildcards node)"

text \<open>The two lookups as every path walk combines them.\<close>

definition find_child :: "policy_state \<Rightarrow> st_token \<Rightarrow> child_entry option" where
  "find_child node token =
     (if token_is_wild token then find_exact_wildcard_child node (tk_type token) (tk_text token)
      else find_literal_child node token)"

section \<open>Insertion of a child\<close>

definition literal_position :: "child_entry list \<Rightarrow> st_token \<Rightarrow> nat" where
  "literal_position children token =
     length (takeWhile (\<lambda>c. \<not> child_compare_literal_token c token > 0) children)"

definition wildcard_position :: "child_entry list \<Rightarrow> st_token_type \<Rightarrow> nat" where
  "wildcard_position children t = length (takeWhile (\<lambda>c. \<not> t < ce_type c) children)"

definition is_literal_child :: "st_token \<Rightarrow> bool" where
  "is_literal_child token \<longleftrightarrow> tk_compound token \<or> \<not> token_is_wild token"

definition new_child :: "st_token \<Rightarrow> nat \<Rightarrow> child_entry" where
  "new_child token target =
     \<lparr>ce_text = (if is_literal_child token \<or> CHR ''.'' \<in> set (cstr (tk_text token))
                 then Some (tk_text token) else None),
      ce_target = target, ce_type = tk_type token, ce_compound = tk_compound token,
      ce_text_length = u16 (length (tk_text token)),
      ce_prefix_length = u16 (length (tk_prefix token)),
      ce_capture_length = u16 (length (tk_capture token)),
      ce_capture_type = tk_capture_type token\<rparr>"

text \<open>The duplicate tests: among all literals, and at the insertion point for a wildcard.\<close>

definition duplicate_child :: "policy_state \<Rightarrow> st_token \<Rightarrow> bool" where
  "duplicate_child node token =
     (if is_literal_child token
      then list_ex (\<lambda>c. child_matches_literal_token c token) (ps_literals node)
      else let wild = ps_wildcards node; pos = wildcard_position wild (tk_type token) in
        pos < length wild \<and> ce_type (wild ! pos) = tk_type token \<and>
        (CHR ''.'' \<notin> set (cstr (tk_text token)) \<or>
         (case ce_text (wild ! pos) of
            None \<Rightarrow> False
          | Some existing \<Rightarrow> cstr existing = cstr (tk_text token))))"

text \<open>The slots of a node's block once it has room for one more child, or \<open>None\<close> past the
  16-bit limit.\<close>

definition children_slots :: "policy_state \<Rightarrow> nat option" where
  "children_slots node =
     (if length (ps_literals node) + length (ps_wildcards node) + 1 > ps_children_alloc node then
        (if ps_children_alloc node > 65535 div 2 then None
         else Some (if ps_children_alloc node = 0 then 4 else ps_children_alloc node * 2))
      else Some (ps_children_alloc node))"

definition insert_at :: "nat \<Rightarrow> 'a \<Rightarrow> 'a list \<Rightarrow> 'a list" where
  "insert_at i x xs = take i xs @ x # drop i xs"

definition insert_node_child :: "policy_state \<Rightarrow> st_token \<Rightarrow> nat \<Rightarrow> policy_state option" where
  "insert_node_child node token target =
     (if duplicate_child node token then None
      else case children_slots node of
        None \<Rightarrow> None
      | Some slots \<Rightarrow> Some
          (if is_literal_child token then
             node\<lparr>ps_literals := insert_at (literal_position (ps_literals node) token)
                                   (new_child token target) (ps_literals node),
                  ps_children_alloc := slots\<rparr>
           else
             node\<lparr>ps_wildcards := insert_at (wildcard_position (ps_wildcards node) (tk_type token))
                                   (new_child token target) (ps_wildcards node),
                  ps_wildcard_mask := ps_wildcard_mask node OR type_bit (tk_type token),
                  ps_children_alloc := slots\<rparr>))"

section \<open>Removal of a child\<close>

definition remove_at :: "nat \<Rightarrow> 'a list \<Rightarrow> 'a list" where
  "remove_at i xs = take i xs @ drop (i + 1) xs"

definition remove_child_from_node :: "policy_state \<Rightarrow> nat \<Rightarrow> bool \<Rightarrow> policy_state" where
  "remove_child_from_node node child_idx is_literal =
     (if is_literal then node\<lparr>ps_literals := remove_at child_idx (ps_literals node)\<rparr>
      else let wild = remove_at child_idx (ps_wildcards node) in
        node\<lparr>ps_wildcards := wild,
             ps_wildcard_mask := foldl (\<lambda>mask c. mask OR type_bit (ce_type c)) 0 wild\<rparr>)"

text \<open>The first index of a list at which a test holds.\<close>

fun find_index :: "('a \<Rightarrow> bool) \<Rightarrow> 'a list \<Rightarrow> nat option" where
  "find_index P [] = None"
| "find_index P (x # xs) = (if P x then Some 0 else map_option Suc (find_index P xs))"

text \<open>The comparison with which pruning finds a wildcard child again.\<close>

definition prunable_wildcard :: "st_token \<Rightarrow> child_entry \<Rightarrow> bool" where
  "prunable_wildcard token child =
     (ce_type child = tk_type token \<and>
      (case ce_text child of
         Some existing \<Rightarrow> cstr (tk_text token) = cstr existing
       | None \<Rightarrow> cstr (tk_text token) = st_type_symbol (tk_type token)))"

text \<open>The path records whether the step's child is a literal, by \<^verbatim>\<open>is_explicit_wildcard\<close>
  alone.\<close>

definition prune_index :: "policy_state \<Rightarrow> st_token \<Rightarrow> nat option" where
  "prune_index node token =
     (if \<not> token_is_wild token
      then find_index (\<lambda>c. child_matches_literal_token c token) (ps_literals node)
      else find_index (prunable_wildcard token) (ps_wildcards node))"

definition remove_node_child :: "policy_state \<Rightarrow> st_token \<Rightarrow> policy_state option" where
  "remove_node_child node token =
     map_option (\<lambda>i. remove_child_from_node node i (\<not> token_is_wild token)) (prune_index node token)"

section \<open>Nodes as maps from tokens to targets\<close>

text \<open>The token a child stands for.\<close>

definition child_token :: "child_entry \<Rightarrow> st_token" where
  "child_token c =
     (if ce_compound c then
        (let s = child_text c; p = ce_prefix_length c; n = ce_capture_length c in
         compound_token (take p s) (take n (drop (p + 1) s)) (drop (p + n + 2) s) (ce_capture_type c))
      else plain_token (case ce_text c of Some s \<Rightarrow> s | None \<Rightarrow> st_type_symbol (ce_type c)) (ce_type c))"

lemma wf_text_length:
  assumes "wf_token t"
  shows "length (tk_text t) < 65536 \<and> length (tk_prefix t) < 65536 \<and> length (tk_capture t) < 65536"
proof (cases "tk_compound t")
  case True
  have "tk_text t = compound_display (tk_prefix t) (tk_capture t) (tk_suffix t)"
    using wf_compound_eq [OF assms True] by (metis compound_token_def st_token.select_convs(1))
  moreover have "length (tk_capture t) < ST_MAX_TOKEN_LEN"
    using canonical_spelling_props [OF wf_compound_canonical [OF assms True]] by simp
  ultimately show ?thesis
    using assms True by (simp add: wf_token_def ST_MAX_TOKEN_LEN_def compound_display_def)
next
  case False
  then have "tk_prefix t = []" "tk_capture t = []"
    using wf_plain_eq [OF assms False] by (metis plain_token_def st_token.select_convs(4,5))+
  then show ?thesis using assms False by (simp add: wf_token_def ST_MAX_TOKEN_LEN_def)
qed

lemma u16_wf [simp]:
  "wf_token t \<Longrightarrow> u16 (length (tk_text t)) = length (tk_text t)"
  "wf_token t \<Longrightarrow> u16 (length (tk_prefix t)) = length (tk_prefix t)"
  "wf_token t \<Longrightarrow> u16 (length (tk_capture t)) = length (tk_capture t)"
  by (simp_all add: u16_def wf_text_length)

lemma canonical_dot:
  assumes "canonical_spelling t w"
  shows "CHR ''.'' \<in> set w \<longleftrightarrow> w \<noteq> st_type_symbol t"
  using assms type_symbols_plain(1) [of t] by (auto simp: canonical_spelling_def)

lemma canonical_cstr: "canonical_spelling t w \<Longrightarrow> cstr w = w"
  using canonical_spelling_props by (simp add: cstr_id)

lemma new_child_simps [simp]:
  "ce_target (new_child t q) = q" "ce_type (new_child t q) = tk_type t"
  "ce_compound (new_child t q) = tk_compound t" "ce_capture_type (new_child t q) = tk_capture_type t"
  "wf_token t \<Longrightarrow> ce_prefix_length (new_child t q) = length (tk_prefix t)"
  "wf_token t \<Longrightarrow> ce_capture_length (new_child t q) = length (tk_capture t)"
  by (simp_all add: new_child_def)

lemma child_text_new_child:
  "wf_token t \<Longrightarrow> is_literal_child t \<Longrightarrow> child_text (new_child t q) = tk_text t"
  by (simp add: child_text_def new_child_def)

lemma child_token_new_child:
  assumes "wf_token t"
  shows "child_token (new_child t q) = t"
proof (cases "tk_compound t")
  case True
  then have lit: "is_literal_child t" by (simp add: is_literal_child_def)
  have "tk_text t = compound_display (tk_prefix t) (tk_capture t) (tk_suffix t)"
    using wf_compound_eq [OF assms True] by (metis compound_token_def st_token.select_convs(1))
  then have "child_token (new_child t q) =
      compound_token (tk_prefix t) (tk_capture t) (tk_suffix t) (tk_capture_type t)"
    using True assms child_text_new_child [OF assms lit, of q]
    by (simp add: child_token_def Let_def compound_display_def)
  then show ?thesis using wf_compound_eq [OF assms True] by simp
next
  case False
  have "(case ce_text (new_child t q) of Some s \<Rightarrow> s | None \<Rightarrow> st_type_symbol (ce_type (new_child t q))) = tk_text t"
  proof (cases "token_is_wild t")
    case True
    then have "canonical_spelling (tk_type t) (tk_text t)"
      using assms wf_token_wild wf_wild_canonical by blast
    then show ?thesis
      using canonical_dot canonical_cstr by (auto simp: new_child_def is_literal_child_def True False)
  qed (simp add: new_child_def is_literal_child_def)
  then have "child_token (new_child t q) = plain_token (tk_text t) (tk_type t)"
    using False by (simp add: child_token_def)
  then show ?thesis using wf_plain_eq [OF assms False] by simp
qed

text \<open>The three tests for a stored child decide equality of tokens.\<close>

lemma compound_token_eqI:
  assumes "wf_token t" "wf_token u" "tk_compound t" "tk_compound u" "tk_text t = tk_text u"
    "length (tk_prefix t) = length (tk_prefix u)" "length (tk_capture t) = length (tk_capture u)"
    "tk_capture_type t = tk_capture_type u"
  shows "t = u"
proof -
  have display: "tk_text x = compound_display (tk_prefix x) (tk_capture x) (tk_suffix x)"
    if "wf_token x" "tk_compound x" for x
    using wf_compound_eq [OF that] by (metis compound_token_def st_token.select_convs(1))
  have "tk_prefix t = tk_prefix u \<and> tk_capture t = tk_capture u \<and> tk_suffix t = tk_suffix u"
    using display [OF assms(1,3)] display [OF assms(2,4)] assms(5-7) by (auto simp: compound_display_def)
  then show ?thesis using wf_compound_eq assms(1-4,8) by metis
qed

lemma wf_text_type_eqI:
  "wf_token t \<Longrightarrow> wf_token u \<Longrightarrow> \<not> tk_compound t \<Longrightarrow> \<not> tk_compound u \<Longrightarrow> tk_text t = tk_text u \<Longrightarrow>
   tk_type t = tk_type u \<Longrightarrow> t = u"
  using wf_plain_eq by metis

lemma wf_wild_plain: "wf_token t \<Longrightarrow> token_is_wild t \<Longrightarrow> \<not> tk_compound t"
  using wf_compound_literal wf_token_wild by blast

lemma is_literal_child_wf: "wf_token t \<Longrightarrow> is_literal_child t \<longleftrightarrow> \<not> token_is_wild t"
  using wf_wild_plain by (auto simp: is_literal_child_def)

lemma matches_literal_iff:
  assumes "wf_token u" "wf_token t" "\<not> token_is_wild u" "\<not> token_is_wild t"
  shows "child_matches_literal_token (new_child u q) t \<longleftrightarrow> u = t"
proof
  assume m: "child_matches_literal_token (new_child u q) t"
  have lits: "tk_type u = ST_TYPE_LITERAL" "tk_type t = ST_TYPE_LITERAL"
    using assms wf_token_wild by blast+
  show "u = t"
  proof (cases "tk_compound t")
    case True
    then show ?thesis
      using m assms by (intro compound_token_eqI)
        (auto simp: child_matches_literal_token_def child_text_new_child is_literal_child_wf split: if_splits)
  next
    case False
    then show ?thesis
      using m assms lits by (intro wf_text_type_eqI)
        (auto simp: child_matches_literal_token_def child_text_new_child is_literal_child_wf split: if_splits)
  qed
next
  assume "u = t"
  then show "child_matches_literal_token (new_child u q) t"
    using assms by (simp add: child_matches_literal_token_def child_text_new_child is_literal_child_wf)
qed

lemma wf_wild_cases:
  assumes "wf_token t" "token_is_wild t"
  obtains (plain) "tk_text t = st_type_symbol (tk_type t)" "wildcard_param (Some (tk_text t)) (tk_type t) = None"
      "\<And>q. ce_text (new_child t q) = None"
    | (param) "tk_text t \<noteq> st_type_symbol (tk_type t)" "wildcard_param (Some (tk_text t)) (tk_type t) \<noteq> None"
      "\<And>q. ce_text (new_child t q) = Some (tk_text t)"
proof -
  have sp: "canonical_spelling (tk_type t) (tk_text t)"
    using assms wf_token_wild wf_wild_canonical by blast
  have stored: "ce_text (new_child t q) = (if tk_text t = st_type_symbol (tk_type t) then None else Some (tk_text t))" for q
    using canonical_dot [OF sp] canonical_cstr [OF sp] assms is_literal_child_wf by (simp add: new_child_def)
  from sp show thesis
  proof (cases rule: canonical_metadata_cases)
    case plain
    then show thesis using that(1) stored by simp
  next
    case (param m)
    then show thesis using that(2) stored by simp
  qed
qed

lemma exact_wildcard_iff:
  assumes "wf_token u" "wf_token t" "token_is_wild u" "token_is_wild t"
  shows "exact_wildcard (tk_type t) (tk_text t) (new_child u q) \<longleftrightarrow> u = t"
    and "prunable_wildcard t (new_child u q) \<longleftrightarrow> u = t"
proof -
  have c: "cstr (tk_text x) = tk_text x" if "wf_token x" "token_is_wild x" for x
    using that canonical_cstr wf_token_wild wf_wild_canonical by blast
  have sym: "cstr (st_type_symbol x) = st_type_symbol x" for x
    using type_symbols_plain(2) by (simp add: cstr_id)
  note eqI = wf_text_type_eqI [OF assms(1,2) wf_wild_plain [OF assms(1,3)] wf_wild_plain [OF assms(2,4)]]
  have "(exact_wildcard (tk_type t) (tk_text t) (new_child u q) \<longleftrightarrow> u = t) \<and>
      prunable_wildcard t (new_child u q) = (u = t)"
    using assms(1,3)
  proof (cases rule: wf_wild_cases)
    case plain
    from assms(2,4) this show ?thesis
      by (cases rule: wf_wild_cases)
         (auto simp: exact_wildcard_def prunable_wildcard_def c [OF assms(2,4)] sym intro: eqI)
  next
    case param
    from assms(2,4) this show ?thesis
      by (cases rule: wf_wild_cases)
         (auto simp: exact_wildcard_def prunable_wildcard_def c [OF assms(2,4)] c [OF assms(1,3)] sym intro: eqI)
  qed
  then show "exact_wildcard (tk_type t) (tk_text t) (new_child u q) \<longleftrightarrow> u = t"
    "prunable_wildcard t (new_child u q) \<longleftrightarrow> u = t" by blast+
qed

section \<open>The invariant of a node\<close>

definition stored_child :: "bool \<Rightarrow> child_entry \<Rightarrow> bool" where
  "stored_child wild c \<longleftrightarrow> wf_token (child_token c) \<and> token_is_wild (child_token c) = wild \<and>
     c = new_child (child_token c) (ce_target c)"

definition node_children :: "policy_state \<Rightarrow> child_entry list" where
  "node_children node = ps_literals node @ ps_wildcards node"

text \<open>Every child is stored in its class under its own token, the wildcard mask is the set of
  the types of the wildcard children, and the children fit the block.\<close>

definition node_inv :: "policy_state \<Rightarrow> bool" where
  "node_inv node \<longleftrightarrow>
     list_all (stored_child False) (ps_literals node) \<and>
     list_all (stored_child True) (ps_wildcards node) \<and>
     distinct (map child_token (node_children node)) \<and>
     (\<forall>t. bit (ps_wildcard_mask node) (type_index t) \<longleftrightarrow> t \<in> ce_type ` set (ps_wildcards node)) \<and>
     length (node_children node) \<le> ps_children_alloc node \<and> ps_children_alloc node < 65536"

definition edge :: "policy_state \<Rightarrow> st_token \<Rightarrow> nat option" where
  "edge node = map_of (map (\<lambda>c. (child_token c, ce_target c)) (node_children node))"

lemma node_inv_empty [simp]: "node_inv empty_state"
  by (simp add: node_inv_def empty_state_def node_children_def)

lemma edge_empty [simp]: "edge empty_state = Map.empty"
  by (simp add: edge_def empty_state_def node_children_def)

lemma edge_Some_iff:
  "node_inv node \<Longrightarrow> edge node k = Some r \<longleftrightarrow>
     (\<exists>c\<in>set (node_children node). child_token c = k \<and> ce_target c = r)"
  by (simp add: edge_def node_inv_def map_of_eq_Some_iff o_def) force

lemma edge_None_iff: "edge node k = None \<longleftrightarrow> k \<notin> child_token ` set (node_children node)"
  by (simp add: edge_def map_of_eq_None_iff image_image)

lemma stored_in_node:
  assumes "node_inv node" "c \<in> set (node_children node)"
  shows "stored_child (token_is_wild (child_token c)) c"
  using assms by (auto simp: node_inv_def node_children_def list_all_iff stored_child_def)

lemma edge_wf: "node_inv node \<Longrightarrow> edge node k = Some r \<Longrightarrow> wf_token k"
  using stored_in_node by (auto simp: edge_Some_iff stored_child_def)

lemma stored_literal_iff:
  assumes "stored_child False c" "wf_token t" "\<not> token_is_wild t"
  shows "child_matches_literal_token c t \<longleftrightarrow> child_token c = t"
  using assms matches_literal_iff [of "child_token c" t "ce_target c"]
  unfolding stored_child_def by (metis (full_types))

lemma stored_wildcard_iff:
  assumes "stored_child True c" "wf_token t" "token_is_wild t"
  shows "exact_wildcard (tk_type t) (tk_text t) c \<longleftrightarrow> child_token c = t"
    and "prunable_wildcard t c \<longleftrightarrow> child_token c = t"
  using assms exact_wildcard_iff [of "child_token c" t "ce_target c"]
  unfolding stored_child_def by (metis (full_types))+

lemma find_key_iff:
  "distinct (map f xs) \<Longrightarrow> find (\<lambda>c. f c = k) xs = Some c \<longleftrightarrow> c \<in> set xs \<and> f c = k"
  by (induction xs) auto

lemma find_child_iff:
  assumes "node_inv node" "wf_token t"
  shows "find_child node t = Some c \<longleftrightarrow> c \<in> set (node_children node) \<and> child_token c = t"
proof (cases "token_is_wild t")
  case True
  have eq: "find (exact_wildcard (tk_type t) (tk_text t)) (ps_wildcards node) =
      find (\<lambda>c. child_token c = t) (ps_wildcards node)"
    using assms stored_wildcard_iff(1) [OF _ assms(2) True]
    by (intro find_cong) (auto simp: node_inv_def list_all_iff)
  show ?thesis
    using assms True
    by (auto simp: find_child_def find_exact_wildcard_child_def eq find_key_iff node_inv_def node_children_def
        list_all_iff stored_child_def)
next
  case False
  have eq: "find (\<lambda>c. child_matches_literal_token c t) (ps_literals node) =
      find (\<lambda>c. child_token c = t) (ps_literals node)"
    using assms stored_literal_iff [OF _ assms(2) False]
    by (intro find_cong) (auto simp: node_inv_def list_all_iff)
  show ?thesis
    using assms False
    by (auto simp: find_child_def find_literal_child_def eq find_key_iff node_inv_def node_children_def
        list_all_iff stored_child_def)
qed

lemma find_child_edge:
  assumes "node_inv node" "wf_token t"
  shows "map_option ce_target (find_child node t) = edge node t"
proof (cases "find_child node t")
  case None
  then have "edge node t = None"
    using find_child_iff [OF assms] by (auto simp: edge_None_iff)
  then show ?thesis using None by simp
next
  case (Some c)
  then have "edge node t = Some (ce_target c)"
    using assms by (auto simp: find_child_iff edge_Some_iff)
  then show ?thesis using Some by simp
qed

section \<open>Insertion and removal update the map\<close>

lemma set_insert_at [simp]: "set (insert_at i x xs) = insert x (set xs)"
proof -
  have "set (insert_at i x xs) = insert x (set (take i xs @ drop i xs))"
    by (simp only: insert_at_def set_append list.set) blast
  then show ?thesis by simp
qed

lemma length_insert_at [simp]: "length (insert_at i x xs) = Suc (length xs)"
  by (simp add: insert_at_def)

lemma distinct_insert_at:
  "distinct (map f (insert_at i x xs)) \<longleftrightarrow> distinct (map f xs) \<and> f x \<notin> f ` set xs"
proof -
  have "distinct (map f (insert_at i x xs)) \<longleftrightarrow> distinct (f x # map f (take i xs @ drop i xs))"
    unfolding insert_at_def by (simp only: map_append list.map distinct_append distinct.simps set_append list.set) auto
  then show ?thesis by auto
qed

lemma map_eqI_Some: "(\<And>k r. m k = Some r \<longleftrightarrow> m' k = Some r) \<Longrightarrow> m = m'"
  by (rule ext) (metis not_Some_eq)

lemma edge_update:
  assumes "node_inv n" "node_inv n'" "set (node_children n') = insert (new_child t q) (set (node_children n))"
    "wf_token t" "edge n t = None"
  shows "edge n' = (edge n)(t \<mapsto> q)"
proof (rule map_eqI_Some)
  fix k r
  show "edge n' k = Some r \<longleftrightarrow> ((edge n)(t \<mapsto> q)) k = Some r"
    using assms(3,5) edge_Some_iff [OF assms(1), of k r] edge_Some_iff [OF assms(2), of k r]
    by (auto simp: child_token_new_child [OF assms(4)] edge_None_iff)
qed

lemma stored_new_child: "wf_token t \<Longrightarrow> stored_child wild (new_child t q) \<longleftrightarrow> token_is_wild t = wild"
  by (simp add: stored_child_def child_token_new_child)

lemma children_slots_room:
  assumes "node_inv n" "children_slots n = Some slots"
  shows "length (node_children n) < slots \<and> slots < 65536"
  using assms by (auto simp: children_slots_def node_inv_def node_children_def split: if_splits)

lemma no_duplicate:
  assumes "node_inv n" "wf_token t" "edge n t = None"
  shows "\<not> duplicate_child n t"
proof (cases "token_is_wild t")
  case True
  then have nolit: "\<not> is_literal_child t" using assms(2) is_literal_child_wf by blast
  let ?w = "ps_wildcards n"
  have "ce_type (?w ! wildcard_position ?w (tk_type t)) \<noteq> tk_type t"
    if "wildcard_position ?w (tk_type t) < length ?w"
    using that nth_length_takeWhile [of "\<lambda>c. \<not> tk_type t < ce_type c" ?w]
    by (auto simp: wildcard_position_def)
  then show ?thesis by (auto simp: duplicate_child_def nolit Let_def)
next
  case False
  have "\<not> child_matches_literal_token c t" if "c \<in> set (ps_literals n)" for c
  proof -
    have "stored_child False c" using that assms(1) by (auto simp: node_inv_def list_all_iff)
    moreover have "child_token c \<noteq> t" using that assms(3) by (auto simp: edge_None_iff node_children_def)
    ultimately show ?thesis using stored_literal_iff [OF _ assms(2) False] by blast
  qed
  then show ?thesis using assms(2) False by (simp add: duplicate_child_def is_literal_child_wf list_ex_iff)
qed

lemma insert_node_child_eq:
  assumes "node_inv n" "wf_token t" "edge n t = None"
  shows "insert_node_child n t q = map_option (\<lambda>slots.
      if token_is_wild t
      then n\<lparr>ps_wildcards := insert_at (wildcard_position (ps_wildcards n) (tk_type t)) (new_child t q) (ps_wildcards n),
             ps_wildcard_mask := ps_wildcard_mask n OR type_bit (tk_type t), ps_children_alloc := slots\<rparr>
      else n\<lparr>ps_literals := insert_at (literal_position (ps_literals n) t) (new_child t q) (ps_literals n),
             ps_children_alloc := slots\<rparr>) (children_slots n)"
  using no_duplicate [OF assms] is_literal_child_wf [OF assms(2)]
  by (auto simp: insert_node_child_def split: option.splits)

lemma insert_node_child_law:
  assumes "node_inv n" "wf_token t" "edge n t = None" "insert_node_child n t q = Some n'"
  shows "node_inv n' \<and> edge n' = (edge n)(t \<mapsto> q) \<and> ps_pattern_id n' = ps_pattern_id n"
proof -
  obtain slots where slots: "children_slots n = Some slots"
    using assms(4) unfolding insert_node_child_eq [OF assms(1-3)] by auto
  note room = children_slots_room [OF assms(1) slots]
  have fresh: "t \<notin> child_token ` set (ps_literals n @ ps_wildcards n)"
    using assms(3) by (simp add: edge_None_iff node_children_def)
  have n': "n' = (if token_is_wild t
      then n\<lparr>ps_wildcards := insert_at (wildcard_position (ps_wildcards n) (tk_type t)) (new_child t q) (ps_wildcards n),
             ps_wildcard_mask := ps_wildcard_mask n OR type_bit (tk_type t), ps_children_alloc := slots\<rparr>
      else n\<lparr>ps_literals := insert_at (literal_position (ps_literals n) t) (new_child t q) (ps_literals n),
             ps_children_alloc := slots\<rparr>)"
    using assms(4) slots unfolding insert_node_child_eq [OF assms(1-3)] by simp
  have children: "set (node_children n') = insert (new_child t q) (set (node_children n))"
    by (simp add: n' node_children_def)
  have dist: "distinct (map child_token (node_children n'))"
    using assms(1) fresh
    by (auto simp: n' node_children_def node_inv_def distinct_insert_at child_token_new_child [OF assms(2)])
  have inv: "node_inv n'"
    using assms(1) room dist stored_new_child [OF assms(2)]
    by (auto simp: node_inv_def n' node_children_def list_all_iff bit_or_iff split: if_splits)
  show ?thesis
    using edge_update [OF assms(1) inv children assms(2,3)] inv by (simp add: n')
qed

lemma find_index_Some: "find_index P xs = Some i \<Longrightarrow> i < length xs \<and> P (xs ! i)"
  by (induction xs arbitrary: i) (auto split: if_splits)

lemma find_index_None: "find_index P xs = None \<longleftrightarrow> list_all (\<lambda>x. \<not> P x) xs"
  by (induction xs) auto

lemma remove_at_split:
  "i < length xs \<Longrightarrow> \<exists>as bs. xs = as @ xs ! i # bs \<and> remove_at i xs = as @ bs"
  by (metis Suc_eq_plus1 id_take_nth_drop remove_at_def)

lemma set_remove_at:
  assumes "distinct (map f xs)" "i < length xs"
  shows "set (remove_at i xs) = {x \<in> set xs. f x \<noteq> f (xs ! i)}"
proof -
  obtain as bs where s: "xs = as @ xs ! i # bs" "remove_at i xs = as @ bs"
    using remove_at_split [OF assms(2)] by blast
  have "distinct (map f (as @ xs ! i # bs))" using assms(1) s(1) by metis
  then have "f (xs ! i) \<notin> f ` set as" "f (xs ! i) \<notin> f ` set bs" by auto
  moreover have "set xs = insert (xs ! i) (set as \<union> set bs)" by (subst s(1)) auto
  ultimately show ?thesis by (auto simp: s(2) image_iff)
qed

lemma distinct_remove_at: "distinct (map f xs) \<Longrightarrow> distinct (map f (remove_at i xs))"
proof (cases "i < length xs")
  case True
  obtain as bs where s: "xs = as @ xs ! i # bs" "remove_at i xs = as @ bs"
    using remove_at_split [OF True] by blast
  assume "distinct (map f xs)"
  then have "distinct (map f (as @ xs ! i # bs))" using s(1) by metis
  then show ?thesis by (simp add: s(2))
qed (simp add: remove_at_def)

lemma length_remove_at_le: "length (remove_at i xs) \<le> length xs"
  by (simp add: remove_at_def)

lemma prune_index_None:
  assumes "node_inv n" "wf_token t"
  shows "prune_index n t = None \<longleftrightarrow> edge n t = None"
proof -
  have "prune_index n t = None \<longleftrightarrow> find_child n t = None"
    using assms stored_literal_iff [OF _ assms(2)] stored_wildcard_iff [OF _ assms(2)]
    by (auto simp: prune_index_def find_child_def find_literal_child_def find_exact_wildcard_child_def
        find_index_None find_None_iff list_all_iff node_inv_def)
  then show ?thesis using find_child_edge [OF assms] by (metis map_option_is_None)
qed

lemma remove_node_child_law:
  assumes "node_inv n" "wf_token t" "remove_node_child n t = Some n'"
  shows "node_inv n' \<and> edge n' = (edge n)(t := None) \<and> ps_pattern_id n' = ps_pattern_id n"
proof -
  obtain i where i: "prune_index n t = Some i" "n' = remove_child_from_node n i (\<not> token_is_wild t)"
    using assms(3) by (auto simp: remove_node_child_def)
  have dist: "distinct (map child_token (ps_literals n))" "distinct (map child_token (ps_wildcards n))"
    using assms(1) by (auto simp: node_inv_def node_children_def)
  have other: "child_token c \<noteq> t" if "c \<in> set (if token_is_wild t then ps_literals n else ps_wildcards n)" for c
    using that assms(1) by (auto simp: node_inv_def stored_child_def list_all_iff split: if_splits)
  have children: "set (node_children n') = {c \<in> set (node_children n). child_token c \<noteq> t}"
  proof (cases "token_is_wild t")
    case True
    then have ix: "find_index (prunable_wildcard t) (ps_wildcards n) = Some i" using i by (simp add: prune_index_def)
    note find_index_Some [OF ix]
    moreover from this have "child_token (ps_wildcards n ! i) = t"
      using assms(1) stored_wildcard_iff(2) [OF _ assms(2) True] by (auto simp: node_inv_def list_all_length)
    ultimately show ?thesis
      using True other set_remove_at [OF dist(2), of i]
      by (auto simp: i(2) node_children_def remove_child_from_node_def Let_def)
  next
    case False
    then have ix: "find_index (\<lambda>c. child_matches_literal_token c t) (ps_literals n) = Some i"
      using i by (simp add: prune_index_def)
    note find_index_Some [OF ix]
    moreover from this have "child_token (ps_literals n ! i) = t"
      using assms(1) stored_literal_iff [OF _ assms(2) False] by (auto simp: node_inv_def list_all_length)
    ultimately show ?thesis
      using False other set_remove_at [OF dist(1), of i]
      by (auto simp: i(2) node_children_def remove_child_from_node_def Let_def)
  qed
  have sub: "set (ps_literals n') \<subseteq> set (ps_literals n)" "set (ps_wildcards n') \<subseteq> set (ps_wildcards n)"
    by (auto simp: i(2) remove_child_from_node_def Let_def remove_at_def dest: in_set_takeD in_set_dropD)
  have "child_token ` set (ps_literals n) \<inter> child_token ` set (ps_wildcards n) = {}"
    using assms(1) by (auto simp: node_inv_def node_children_def)
  then have disj: "child_token ` set (ps_literals n') \<inter> child_token ` set (ps_wildcards n') = {}"
    using image_mono [OF sub(1), of child_token] image_mono [OF sub(2), of child_token] by blast
  have "distinct (map child_token (ps_literals n'))" "distinct (map child_token (ps_wildcards n'))"
    using dist distinct_remove_at [OF dist(1), of i] distinct_remove_at [OF dist(2), of i]
    by (auto simp: i(2) remove_child_from_node_def Let_def)
  then have distn: "distinct (map child_token (node_children n'))"
    using disj by (simp add: node_children_def)
  have mask: "bit (ps_wildcard_mask n') (type_index ty) \<longleftrightarrow> ty \<in> ce_type ` set (ps_wildcards n')" for ty
    using assms(1) by (auto simp: i(2) remove_child_from_node_def Let_def bit_foldl_or node_inv_def)
  have len: "length (node_children n') \<le> length (node_children n)" "ps_children_alloc n' = ps_children_alloc n"
    using length_remove_at_le [of i "ps_literals n"] length_remove_at_le [of i "ps_wildcards n"]
    by (auto simp: i(2) remove_child_from_node_def Let_def node_children_def)
  have inv: "node_inv n'"
    using assms(1) sub distn mask len by (auto simp: node_inv_def list_all_iff)
  have "edge n' = (edge n)(t := None)"
  proof (rule map_eqI_Some)
    fix k r
    show "edge n' k = Some r \<longleftrightarrow> ((edge n)(t := None)) k = Some r"
      using edge_Some_iff [OF assms(1), of k r] edge_Some_iff [OF inv, of k r] children by auto
  qed
  then show ?thesis using inv by (simp add: i(2) remove_child_from_node_def Let_def)
qed

section \<open>Nodes fulfil the contract\<close>

definition child_target :: "policy_state \<Rightarrow> st_token \<Rightarrow> nat option" where
  "child_target node token = map_option ce_target (find_child node token)"

interpretation node: edge_map node_inv wf_token edge empty_state child_target
    insert_node_child remove_node_child
proof unfold_locales
  show "child_target n k = edge n k" if "node_inv n" "wf_token k" for n k
    using find_child_edge [OF that] by (simp add: child_target_def)
  show "remove_node_child n k = None \<longleftrightarrow> edge n k = None" if "node_inv n" "wf_token k" for n k
    using prune_index_None [OF that] by (simp add: remove_node_child_def)
qed (auto dest: edge_wf insert_node_child_law remove_node_child_law)

text \<open>Only the 16-bit limit of a block stops an insertion.\<close>

lemma insert_node_child_None:
  "node_inv n \<Longrightarrow> wf_token t \<Longrightarrow> edge n t = None \<Longrightarrow>
   insert_node_child n t q = None \<longleftrightarrow> children_slots n = None"
  by (simp add: insert_node_child_eq)

lemma edge_cong:
  "ps_literals n' = ps_literals n \<Longrightarrow> ps_wildcards n' = ps_wildcards n \<Longrightarrow> edge n' = edge n"
  by (simp add: edge_def node_children_def)

lemma edge_pattern_id [simp]: "edge (n\<lparr>ps_pattern_id := x\<rparr>) = edge n"
  by (rule edge_cong) simp_all

lemma node_inv_pattern_id [simp]: "node_inv (n\<lparr>ps_pattern_id := x\<rparr>) = node_inv n"
  by (simp add: node_inv_def node_children_def)

end
