(* ===== verification/Policy.thy ===== *)
theory Policy imports Trie begin

text \<open>
  The policy object of \<^verbatim>\<open>shelltype/src/policy.c\<close>: pattern registry, length buckets,
  per-position filters, and the operations that change it. Allocations succeed; the membership
  filter, a library outside the repository, is a record of operations handed to every definition
  that calls it. An operation returns its status and the policy it leaves, on every path.
\<close>

section \<open>Membership filters\<close>

record 'f filter_ops =
  vf_create :: "nat \<Rightarrow> 'f option"
  vf_insert :: "'f \<Rightarrow> 64 word \<Rightarrow> 'f option"
  vf_lookup :: "'f \<Rightarrow> 64 word \<Rightarrow> bool"
  vf_count :: "'f \<Rightarrow> nat"

text \<open>The documented behaviour the code relies on: an element that was inserted is found, and
  stays found.\<close>

definition no_false_negatives :: "'f filter_ops \<Rightarrow> bool" where
  "no_false_negatives F \<longleftrightarrow>
     (\<forall>f h f'. vf_insert F f h = Some f' \<longrightarrow>
        vf_lookup F f' h \<and> (\<forall>g. vf_lookup F f g \<longrightarrow> vf_lookup F f' g))"

definition FNV_OFFSET_BASIS :: "64 word" where "FNV_OFFSET_BASIS = 14695981039346656037"
definition FNV_PRIME :: "64 word" where "FNV_PRIME = 1099511628211"

definition filter_hash_fnv1a :: "bytes \<Rightarrow> 64 word" where
  "filter_hash_fnv1a s = foldl (\<lambda>hash c. (hash XOR of_nat (ord c)) * FNV_PRIME) FNV_OFFSET_BASIS s"

definition FILTER_POS_LEVELS :: nat where "FILTER_POS_LEVELS = 8"

section \<open>Registry, buckets and the policy\<close>

text \<open>A deactivated entry has lost its pattern and its tokens.\<close>

record pattern_entry =
  pe_pattern :: "bytes option"
  pe_tokens :: "st_token list option"
  pe_active :: bool

record len_bucket =
  lb_indices :: "nat list"
  lb_explicit :: nat

record policy_stats =
  eval_count :: "64 word"
  filter_reject_count :: "64 word"
  trie_walk_count :: "64 word"
  suggestion_count :: "64 word"
  filter_rebuild_count :: "64 word"

record 'f st_policy =
  p_states :: "policy_state list"
  p_entries :: "pattern_entry list"
  p_epoch :: "64 word"
  p_filters :: "'f option list"
  p_masks :: "type_mask list"
  p_compound :: "bool list"
  p_built :: "64 word list"
  p_buckets :: "len_bucket list"
  p_pattern_count :: nat
  p_children_count :: nat
  p_stats :: policy_stats

definition empty_bucket :: len_bucket where
  "empty_bucket = \<lparr>lb_indices = [], lb_explicit = 0\<rparr>"

definition st_policy_new :: "'f st_policy" where
  "st_policy_new =
     \<lparr>p_states = [empty_state], p_entries = [], p_epoch = 1,
      p_filters = replicate FILTER_POS_LEVELS None, p_masks = replicate FILTER_POS_LEVELS 0,
      p_compound = replicate FILTER_POS_LEVELS False, p_built = replicate FILTER_POS_LEVELS 0,
      p_buckets = replicate (ST_MAX_CMD_TOKENS + 1) empty_bucket,
      p_pattern_count = 0, p_children_count = 0,
      p_stats = \<lparr>eval_count = 0, filter_reject_count = 0, trie_walk_count = 0,
        suggestion_count = 0, filter_rebuild_count = 0\<rparr>\<rparr>"

definition pattern_reg_reserve :: "pattern_entry list \<Rightarrow> bool" where
  "pattern_reg_reserve entries \<longleftrightarrow>
     list_ex (\<lambda>e. \<not> pe_active e) entries \<or> length entries < ST_MAX_POLICY_PATTERNS"

text \<open>The first inactive slot, or a new one at the end.\<close>

definition pattern_reg_commit ::
    "pattern_entry list \<Rightarrow> pattern_entry \<Rightarrow> (nat \<times> pattern_entry list) option" where
  "pattern_reg_commit entries prepared =
     (case find_index (\<lambda>e. \<not> pe_active e) entries of
        Some slot \<Rightarrow> Some (slot, entries[slot := prepared])
      | None \<Rightarrow>
          (if length entries \<ge> ST_MAX_POLICY_PATTERNS then None
           else Some (length entries, entries @ [prepared])))"

definition pattern_reg_deactivate :: "pattern_entry list \<Rightarrow> nat \<Rightarrow> pattern_entry list" where
  "pattern_reg_deactivate entries pid =
     (if pid \<ge> length entries then entries
      else entries[pid := \<lparr>pe_pattern = None, pe_tokens = None, pe_active = False\<rparr>])"

text \<open>The last index takes the place of the removed one.\<close>

definition len_bucket_remove :: "len_bucket \<Rightarrow> nat \<Rightarrow> len_bucket" where
  "len_bucket_remove b pid =
     (case find_index (\<lambda>x. x = pid) (lb_indices b) of
        None \<Rightarrow> b
      | Some i \<Rightarrow> b\<lparr>lb_indices := butlast ((lb_indices b)[i := last (lb_indices b)])\<rparr>)"

text \<open>A pattern may not start with a compound token or with the universal wildcard.\<close>

definition st_pattern_token_type_allowed :: "st_token \<Rightarrow> nat \<Rightarrow> st_token_type \<Rightarrow> bool" where
  "st_pattern_token_type_allowed token pos t \<longleftrightarrow> pos \<noteq> 0 \<or> (\<not> tk_compound token \<and> t \<noteq> ST_TYPE_ANY)"

definition st_netpattern_validate_view :: "st_netpattern_view \<Rightarrow> st_token list result" where
  "st_netpattern_validate_view pattern =
     bind_result (st_netpattern_decode_view pattern) (\<lambda>tokens.
       if \<not> st_pattern_token_type_allowed (tokens ! 0) 0 (tk_type (tokens ! 0)) then Inl ST_ERR_INVALID
       else Inr tokens)"

section \<open>Insertion of a child with its filter note\<close>

text \<open>The note a new child leaves at its depth, and whether the filters need a rebuild.\<close>

definition note_child :: "'f filter_ops \<Rightarrow> nat \<Rightarrow> st_token \<Rightarrow> 'f st_policy \<Rightarrow> 'f st_policy \<times> bool" where
  "note_child F depth token p =
     (if depth \<ge> FILTER_POS_LEVELS then (p, False)
      else if tk_compound token then (p\<lparr>p_compound := (p_compound p)[depth := True]\<rparr>, True)
      else if tk_type token = ST_TYPE_LITERAL then
        (case p_filters p ! depth of
           None \<Rightarrow> (p, True)
         | Some f \<Rightarrow>
             (case vf_insert F f (filter_hash_fnv1a (tk_text token)) of
                None \<Rightarrow> (p\<lparr>p_filters := (p_filters p)[depth := None]\<rparr>, True)
              | Some f' \<Rightarrow> (p\<lparr>p_filters := (p_filters p)[depth := Some f']\<rparr>, False)))
      else (p\<lparr>p_masks := (p_masks p)[depth := p_masks p ! depth OR type_bit (tk_type token)]\<rparr>, False))"

definition insert_child ::
    "'f filter_ops \<Rightarrow> nat \<Rightarrow> 'f st_policy \<Rightarrow> st_token \<Rightarrow> nat \<Rightarrow> nat \<Rightarrow> ('f st_policy \<times> bool) option" where
  "insert_child F q p token target depth =
     (let node = p_states p ! q in
      case insert_node_child node token target of
        None \<Rightarrow> None
      | Some node' \<Rightarrow> Some (note_child F depth token
          (p\<lparr>p_states := (p_states p)[q := node'],
             p_children_count := p_children_count p +
               (ps_children_alloc node' - ps_children_alloc node) + 1\<rparr>)))"

section \<open>Removal of a pattern\<close>

text \<open>The steps of the path of a pattern, and its end.\<close>

fun remove_path :: "policy_state list \<Rightarrow> nat \<Rightarrow> st_token list \<Rightarrow> ((nat \<times> st_token) list \<times> nat) option" where
  "remove_path states current [] = Some ([], current)"
| "remove_path states current (t # ts) =
     (case find_child (states ! current) t of
        None \<Rightarrow> None
      | Some child \<Rightarrow>
          map_option (\<lambda>(steps, final). ((current, t) # steps, final)) (remove_path states (ce_target child) ts))"

definition dead_end :: "policy_state \<Rightarrow> bool" where
  "dead_end s \<longleftrightarrow> ps_pattern_id s = None \<and> ps_literals s = [] \<and> ps_wildcards s = []"

text \<open>Pruning, over the steps from the leaf to the root.\<close>

fun prune_path :: "policy_state list \<Rightarrow> (nat \<times> st_token) list \<Rightarrow> policy_state list" where
  "prune_path states [] = states"
| "prune_path states ((q, t) # steps) =
     (case prune_index (states ! q) t of
        None \<Rightarrow> states
      | Some i \<Rightarrow>
          (let is_literal = \<not> token_is_wild t;
               children = (if is_literal then ps_literals (states ! q) else ps_wildcards (states ! q)) in
           if dead_end (states ! ce_target (children ! i))
           then prune_path (states[q := remove_child_from_node (states ! q) i is_literal]) steps
           else prune_path states steps))"

definition remove_pattern_by_id_locked :: "'f st_policy \<Rightarrow> nat \<Rightarrow> st_error \<times> 'f st_policy" where
  "remove_pattern_by_id_locked p pid =
     (if pid \<ge> length (p_entries p) then (ST_ERR_INVALID, p)
      else if \<not> pe_active (p_entries p ! pid) then (ST_OK, p)
      else let tokens = the (pe_tokens (p_entries p ! pid)) in
        case remove_path (p_states p) 0 tokens of
          None \<Rightarrow> (ST_OK, p)
        | Some (steps, final) \<Rightarrow>
            (if ps_pattern_id (p_states p ! final) \<noteq> Some pid then (ST_OK, p)
             else let unset = (p_states p)[final := (p_states p ! final)\<lparr>ps_pattern_id := None\<rparr>];
                      n = length tokens; b = p_buckets p ! n;
                      b' = (if pattern_has_explicit_wildcard tokens
                            then b\<lparr>lb_explicit := lb_explicit b - 1\<rparr> else b) in
               (ST_OK,
                p\<lparr>p_states := prune_path unset (rev steps),
                  p_buckets := (if n < length (p_buckets p)
                                then (p_buckets p)[n := len_bucket_remove b' pid] else p_buckets p),
                  p_entries := pattern_reg_deactivate (p_entries p) pid,
                  p_pattern_count := p_pattern_count p - 1\<rparr>)))"

section \<open>Adding a pattern\<close>

text \<open>The node the trie already leads to, and the tokens without an edge.\<close>

fun probe_path :: "policy_state list \<Rightarrow> nat \<Rightarrow> st_token list \<Rightarrow> nat \<times> st_token list" where
  "probe_path states probe [] = (probe, [])"
| "probe_path states probe (t # ts) =
     (case find_child (states ! probe) t of
        None \<Rightarrow> (probe, t # ts)
      | Some child \<Rightarrow> probe_path states (ce_target child) ts)"

text \<open>Tokens of an entry that takes part in the subsumption scans.\<close>

definition entry_tokens :: "'f st_policy \<Rightarrow> nat \<Rightarrow> st_token list option" where
  "entry_tokens p eid =
     (let entry = p_entries p ! eid in if pe_active entry then pe_tokens entry else None)"

definition entry_subsumes :: "'f st_policy \<Rightarrow> st_token list \<Rightarrow> nat \<Rightarrow> bool" where
  "entry_subsumes p tokens eid =
     (case entry_tokens p eid of None \<Rightarrow> False | Some ts \<Rightarrow> pattern_subsumes ts tokens)"

definition entry_subsumed :: "'f st_policy \<Rightarrow> st_token list \<Rightarrow> nat \<Rightarrow> bool" where
  "entry_subsumed p tokens eid =
     (case entry_tokens p eid of None \<Rightarrow> False | Some ts \<Rightarrow> pattern_subsumes tokens ts)"

text \<open>Insertion along the path: the end node and whether a rebuild is needed, or \<open>None\<close> when a
  child could not be inserted; the policy as far as the loop came.\<close>

fun insert_path ::
    "'f filter_ops \<Rightarrow> 'f st_policy \<Rightarrow> nat \<Rightarrow> nat \<Rightarrow> st_token list \<Rightarrow> (nat \<times> bool) option \<times> 'f st_policy" where
  "insert_path F p current i [] = (Some (current, False), p)"
| "insert_path F p current i (t # ts) =
     (case find_child (p_states p ! current) t of
        Some child \<Rightarrow> insert_path F p (ce_target child) (i + 1) ts
      | None \<Rightarrow>
          (let new_state = length (p_states p); p1 = p\<lparr>p_states := p_states p @ [empty_state]\<rparr> in
           case insert_child F current p1 t new_state i of
             None \<Rightarrow> (None, p1)
           | Some (p2, rebuild) \<Rightarrow>
               (case insert_path F p2 new_state (i + 1) ts of
                  (None, p3) \<Rightarrow> (None, p3)
                | (Some (final, rebuild'), p3) \<Rightarrow> (Some (final, rebuild \<or> rebuild'), p3))))"

definition remove_all :: "nat list \<Rightarrow> 'f st_policy \<Rightarrow> 'f st_policy" where
  "remove_all pids p = foldl (\<lambda>p pid. snd (remove_pattern_by_id_locked p pid)) p pids"

text \<open>Entry of a new pattern in registry, trie and bucket.\<close>

definition publish :: "'f st_policy \<Rightarrow> nat \<Rightarrow> st_token list \<Rightarrow> bytes \<Rightarrow> 'f st_policy option" where
  "publish p final tokens stored =
     (case pattern_reg_commit (p_entries p)
             \<lparr>pe_pattern = Some stored, pe_tokens = Some tokens, pe_active = True\<rparr> of
        None \<Rightarrow> None
      | Some (pid, entries) \<Rightarrow>
          (let n = length tokens; b = p_buckets p ! n in
           Some (p\<lparr>p_entries := entries,
             p_states := (p_states p)[final := (p_states p ! final)\<lparr>ps_pattern_id := Some pid\<rparr>],
             p_pattern_count := p_pattern_count p + 1,
             p_buckets := (p_buckets p)[n :=
               \<lparr>lb_indices = lb_indices b @ [pid],
                lb_explicit = (if pattern_has_explicit_wildcard tokens then lb_explicit b + 1
                               else lb_explicit b)\<rparr>]\<rparr>)))"

text \<open>From the end of the inserted path on: publication unless the end carries a pattern, then
  removal of what the new pattern subsumes.\<close>

definition finish_add ::
    "'f st_policy \<Rightarrow> nat \<Rightarrow> bool \<Rightarrow> st_token list \<Rightarrow> nat list \<Rightarrow> bool \<Rightarrow> st_error \<times> 'f st_policy" where
  "finish_add p final rebuild tokens to_remove reuse =
     (let finish = (\<lambda>p pids. let p' = remove_all pids p in
            (ST_OK, if rebuild then p'\<lparr>p_epoch := p_epoch p' + 1\<rparr> else p')) in
      if ps_pattern_id (p_states p ! final) = None then
        (case st_netpattern_encode_owned (Some (map token_arg tokens)) of
           Inl e \<Rightarrow> (e, p)
         | Inr stored \<Rightarrow>
             (let p1 = (if reuse then remove_all to_remove p else p) in
              case publish p1 final tokens stored of
                None \<Rightarrow> (ST_ERR_LIMIT, p1)
              | Some p2 \<Rightarrow> finish p2 (if reuse then [] else to_remove)))
      else finish p to_remove)"

definition add_tokens :: "'f filter_ops \<Rightarrow> 'f st_policy \<Rightarrow> st_token list \<Rightarrow> st_error \<times> 'f st_policy" where
  "add_tokens F p tokens =
     (let bucket = p_buckets p ! length tokens;
          (probe, missing) = probe_path (p_states p) 0 tokens;
          needs_scan = (\<not> pattern_is_plain_literal tokens \<or> lb_explicit bucket \<noteq> 0) in
      if \<not> needs_scan \<and> missing = [] \<and> ps_pattern_id (p_states p ! probe) \<noteq> None then (ST_OK, p)
      else if needs_scan \<and> list_ex (entry_subsumes p tokens) (lb_indices bucket) then (ST_OK, p)
      else let to_remove = (if needs_scan then filter (entry_subsumed p tokens) (lb_indices bucket) else []);
               reuse = (length (p_entries p) \<ge> ST_MAX_POLICY_PATTERNS \<and> to_remove \<noteq> []) in
        if p_pattern_count p \<ge> ST_MAX_POLICY_PATTERNS \<and> to_remove = [] then (ST_ERR_LIMIT, p)
        else if missing \<noteq> [] \<and> children_slots (p_states p ! probe) = None then (ST_ERR_LIMIT, p)
        else if \<not> reuse \<and> \<not> pattern_reg_reserve (p_entries p) then (ST_ERR_MEMORY, p)
        else case insert_path F p 0 0 tokens of
          (None, p') \<Rightarrow> (ST_ERR_MEMORY, p')
        | (Some (final, rebuild), p') \<Rightarrow> finish_add p' final rebuild tokens to_remove reuse)"

definition st_policy_add_locked_view ::
    "'f filter_ops \<Rightarrow> 'f st_policy \<Rightarrow> st_netpattern_view \<Rightarrow> st_error \<times> 'f st_policy" where
  "st_policy_add_locked_view F p pattern =
     (if np_data pattern = None \<or> np_length pattern = 0 then (ST_ERR_INVALID, p)
      else case st_netpattern_decode_view pattern of
        Inl e \<Rightarrow> (e, p)
      | Inr tokens \<Rightarrow>
          (if \<not> st_pattern_token_type_allowed (tokens ! 0) 0 (tk_type (tokens ! 0)) then (ST_ERR_INVALID, p)
           else add_tokens F p tokens))"

definition st_policy_add_netpattern_view ::
    "'f filter_ops \<Rightarrow> 'f st_policy \<Rightarrow> st_netpattern_view \<Rightarrow> st_error \<times> 'f st_policy" where
  "st_policy_add_netpattern_view F p pattern =
     (if np_data pattern = None \<or> np_length pattern = 0 then (ST_ERR_INVALID, p)
      else st_policy_add_locked_view F p pattern)"

section \<open>Removing, batches, merging and clearing\<close>

definition entry_is_pattern :: "bytes \<Rightarrow> pattern_entry \<Rightarrow> bool" where
  "entry_is_pattern s entry \<longleftrightarrow> pe_active entry \<and> pe_pattern entry = Some s"

definition st_policy_remove_netpattern_view ::
    "'f st_policy \<Rightarrow> st_netpattern_view \<Rightarrow> st_error \<times> 'f st_policy" where
  "st_policy_remove_netpattern_view p pattern =
     (if np_data pattern = None \<or> np_length pattern = 0 then (ST_ERR_INVALID, p)
      else case st_netpattern_decode_view pattern of
        Inl e \<Rightarrow> (e, p)
      | Inr tokens \<Rightarrow>
          (if tokens = [] then (ST_ERR_INVALID, p)
           else case st_netpattern_encode_owned (Some (map token_arg tokens)) of
             Inl e \<Rightarrow> (e, p)
           | Inr canonical \<Rightarrow>
               (case find_index (entry_is_pattern canonical) (p_entries p) of
                  None \<Rightarrow> (ST_OK, p)
                | Some i \<Rightarrow>
                    (case remove_pattern_by_id_locked p i of
                       (e, p') \<Rightarrow> (e, if e = ST_OK then p'\<lparr>p_epoch := p_epoch p' + 1\<rparr> else p')))))"

text \<open>Patterns added one after the other, up to the first error.\<close>

fun add_views ::
    "'f filter_ops \<Rightarrow> 'f st_policy \<Rightarrow> st_netpattern_view list \<Rightarrow> st_error \<times> 'f st_policy" where
  "add_views F p [] = (ST_OK, p)"
| "add_views F p (v # vs) =
     (case st_policy_add_locked_view F p v of
        (e, p') \<Rightarrow> if e = ST_OK then add_views F p' vs else (e, p'))"

definition active_views :: "'f st_policy \<Rightarrow> st_netpattern_view list" where
  "active_views p = map (\<lambda>e. np_view (the (pe_pattern e))) (filter pe_active (p_entries p))"

text \<open>A complete replacement is built from the live patterns and the batch, and swapped in when
  every insertion succeeded.\<close>

definition policy_batch_add_views ::
    "'f filter_ops \<Rightarrow> 'f st_policy \<Rightarrow> st_netpattern_view list \<Rightarrow> st_error \<times> 'f st_policy" where
  "policy_batch_add_views F p patterns =
     (case add_views F st_policy_new (active_views p @ patterns) of
        (e, staged) \<Rightarrow>
          if e \<noteq> ST_OK then (e, p)
          else (ST_OK,
            p\<lparr>p_states := p_states staged, p_entries := p_entries staged, p_buckets := p_buckets staged,
              p_pattern_count := p_pattern_count staged, p_children_count := p_children_count staged,
              p_filters := p_filters staged, p_masks := p_masks staged, p_built := p_built staged,
              p_epoch := p_epoch p + 1\<rparr>))"

definition st_policy_batch_add_netpattern_views ::
    "'f filter_ops \<Rightarrow> 'f st_policy \<Rightarrow> st_netpattern_view list option \<Rightarrow> st_error \<times> 'f st_policy" where
  "st_policy_batch_add_netpattern_views F p patterns =
     (case patterns of
        None \<Rightarrow> (ST_ERR_INVALID, p)
      | Some vs \<Rightarrow>
          (if vs = [] then (ST_ERR_INVALID, p)
           else if list_ex (\<lambda>v. np_data v = None \<or> np_length v = 0) vs then (ST_ERR_INVALID, p)
           else policy_batch_add_views F p vs))"

text \<open>\<open>same\<close> tells whether both arguments are one object.\<close>

definition st_policy_merge ::
    "'f filter_ops \<Rightarrow> bool \<Rightarrow> 'f st_policy \<Rightarrow> 'f st_policy \<Rightarrow> st_error \<times> 'f st_policy" where
  "st_policy_merge F same dst src =
     (if same then (ST_OK, dst)
      else if p_pattern_count src = 0 then (ST_OK, dst)
      else let views = active_views src in
        if views = [] then (ST_OK, dst)
        else st_policy_batch_add_netpattern_views F dst (Some views))"

definition st_policy_clear :: "'f st_policy \<Rightarrow> st_error \<times> 'f st_policy" where
  "st_policy_clear p =
     (ST_OK,
      p\<lparr>p_filters := replicate FILTER_POS_LEVELS None, p_masks := replicate FILTER_POS_LEVELS 0,
        p_compound := replicate FILTER_POS_LEVELS False, p_built := replicate FILTER_POS_LEVELS 0,
        p_states := [empty_state], p_entries := [],
        p_buckets := map (\<lambda>b. b\<lparr>lb_indices := []\<rparr>) (p_buckets p),
        p_pattern_count := 0, p_children_count := 0, p_epoch := p_epoch p + 1\<rparr>)"

definition st_policy_rule_count :: "'f st_policy \<Rightarrow> nat" where
  "st_policy_rule_count p = p_pattern_count p"

end
