(* ===== verification/Eval.thy ===== *)
theory Eval imports Complex_Main Policy "HOL-Library.Multiset" begin

text \<open>
  Evaluation of a command against a policy, from \<^verbatim>\<open>shelltype/src/policy.c\<close>: the filters
  rebuilt on demand, the filter check, the breadth-first walk, the preferred pattern, the
  suggestions for a command that no pattern accepts, and the enumeration of all matching patterns.
  An evaluation is one step of the model; queues and result arrays are lists.
\<close>

section \<open>Children a classified argument leads to\<close>

definition compound_child_matches :: "child_entry \<Rightarrow> bytes \<Rightarrow> bool" where
  "compound_child_matches child text =
     (if \<not> ce_compound child then False
      else let stored = child_text child; prefix_length = ce_prefix_length child;
               symbol_length = ce_capture_length child; opening = prefix_length;
               closing = opening + 1 + symbol_length; suffix_offset = closing + 1 in
        case st_pattern_capture_span text (take prefix_length stored) (drop suffix_offset stored) of
          None \<Rightarrow> False
        | Some capture \<Rightarrow>
            st_pattern_wildcard_matches capture (st_token_classify capture)
              (take symbol_length (drop (opening + 1) stored)) (ce_capture_type child))"

definition literal_follows :: "st_token \<Rightarrow> child_entry \<Rightarrow> bool" where
  "literal_follows token child \<longleftrightarrow>
     (\<not> ce_compound child \<and> tk_text token = child_text child) \<or>
     compound_child_matches child (tk_text token)"

definition wildcard_follows :: "st_token \<Rightarrow> child_entry \<Rightarrow> bool" where
  "wildcard_follows token child \<longleftrightarrow>
     st_runtime_match_mask (tk_type token) AND type_bit (ce_type child) \<noteq> 0 \<and>
     param_matches (tk_text token) (tk_type token) (ce_text child) (ce_type child)"

text \<open>The queue entries an entry adds: a state and the number of tokens consumed.\<close>

definition walk_next :: "'f st_policy \<Rightarrow> st_token list \<Rightarrow> nat \<times> nat \<Rightarrow> (nat \<times> nat) list" where
  "walk_next p cmd = (\<lambda>(q, i).
     if i \<ge> length cmd then []
     else map (\<lambda>c. (ce_target c, i + 1))
       (filter (literal_follows (cmd ! i)) (ps_literals (p_states p ! q)) @
        filter (wildcard_follows (cmd ! i)) (ps_wildcards (p_states p ! q))))"

text \<open>The entry of the registry a fully consumed entry of the queue names.\<close>

definition state_entry :: "'f st_policy \<Rightarrow> nat \<Rightarrow> pattern_entry option" where
  "state_entry p q =
     (case ps_pattern_id (p_states p ! q) of
        None \<Rightarrow> None
      | Some pid \<Rightarrow> if pid < length (p_entries p) then Some (p_entries p ! pid) else None)"

section \<open>The preferred pattern\<close>

text \<open>The narrower one; otherwise the first in the order of canonical patterns.\<close>

definition pattern_entry_preferred :: "pattern_entry \<Rightarrow> pattern_entry \<Rightarrow> bool" where
  "pattern_entry_preferred candidate current =
     (let current_covers = pattern_subsumes (the (pe_tokens current)) (the (pe_tokens candidate));
          candidate_covers = pattern_subsumes (the (pe_tokens candidate)) (the (pe_tokens current)) in
      if current_covers \<noteq> candidate_covers then current_covers
      else st_netpattern_compare_view (np_view (the (pe_pattern candidate)))
             (np_view (the (pe_pattern current))) < 0)"

section \<open>The matching walk\<close>

record match_walk =
  mw_depth :: nat
  mw_frontier :: "nat list"
  mw_best :: "pattern_entry option"

definition walk_visit :: "'f st_policy \<Rightarrow> st_token list \<Rightarrow> match_walk \<Rightarrow> nat \<times> nat \<Rightarrow> match_walk" where
  "walk_visit p cmd w = (\<lambda>(q, i).
     let w1 = (if i > mw_depth w then w\<lparr>mw_depth := i, mw_frontier := []\<rparr> else w);
         w2 = (if i = mw_depth w1 then w1\<lparr>mw_frontier := mw_frontier w1 @ [q]\<rparr> else w1) in
     if i = length cmd then
       (case state_entry p q of
          None \<Rightarrow> w2
        | Some candidate \<Rightarrow>
            (case mw_best w2 of
               None \<Rightarrow> w2\<lparr>mw_best := Some candidate\<rparr>
             | Some best \<Rightarrow>
                 (if pattern_entry_preferred candidate best then w2\<lparr>mw_best := Some candidate\<rparr>
                  else w2)))
     else w2)"

text \<open>Every entry is replaced by entries with one token less to consume.\<close>

definition left_over :: "st_token list \<Rightarrow> (nat \<times> nat) list \<Rightarrow> nat multiset" where
  "left_over cmd queue = image_mset (\<lambda>e. length cmd - snd e) (mset queue)"

lemma left_over_step:
  "(left_over cmd (queue @ walk_next p cmd e), left_over cmd (e # queue)) \<in> mult less_than"
proof -
  let ?J = "{#length cmd - snd e#}" and ?K = "left_over cmd (walk_next p cmd e)"
  have "\<forall>k\<in>#?K. k < length cmd - snd e"
    by (auto simp: left_over_def walk_next_def split: prod.splits if_splits)
  then have "(left_over cmd queue + ?K, left_over cmd queue + ?J) \<in> mult less_than"
    by (intro one_step_implies_mult) auto
  then show ?thesis by (simp add: left_over_def ac_simps)
qed

function walk_loop :: "'f st_policy \<Rightarrow> st_token list \<Rightarrow> (nat \<times> nat) list \<Rightarrow> match_walk \<Rightarrow> match_walk" where
  "walk_loop p cmd [] w = w"
| "walk_loop p cmd (e # queue) w = walk_loop p cmd (queue @ walk_next p cmd e) (walk_visit p cmd w e)"
  by pat_completeness auto
termination
  by (relation "inv_image (mult less_than) (\<lambda>(p, cmd, queue, w). left_over cmd queue)")
     (simp_all add: wf_mult left_over_step)

definition matching_walk_locked :: "'f st_policy \<Rightarrow> st_token list \<Rightarrow> match_walk" where
  "matching_walk_locked p cmd =
     walk_loop p cmd [(0, 0)] \<lparr>mw_depth = 0, mw_frontier = [], mw_best = None\<rparr>"

section \<open>The nearest pattern below the frontier\<close>

text \<open>The number of states bounds the depth of the descent. \<open>None\<close> stands for no pattern at
  \<^verbatim>\<open>SIZE_MAX\<close>.\<close>

fun nearest_pattern_visit ::
    "nat \<Rightarrow> 'f st_policy \<Rightarrow> nat \<Rightarrow> nat \<Rightarrow> (nat \<times> pattern_entry) option \<Rightarrow> (nat \<times> pattern_entry) option" where
  "nearest_pattern_visit 0 p q depth best = best"
| "nearest_pattern_visit (Suc fuel) p q depth best =
     (if (case best of None \<Rightarrow> False | Some (best_depth, _) \<Rightarrow> depth > best_depth) then best
      else case state_entry p q of
        Some candidate \<Rightarrow>
          (case best of
             None \<Rightarrow> Some (depth, candidate)
           | Some (best_depth, entry) \<Rightarrow>
               (if depth < best_depth \<or> depth = best_depth \<and> pattern_entry_preferred candidate entry
                then Some (depth, candidate) else best))
      | None \<Rightarrow>
          foldl (\<lambda>best c. nearest_pattern_visit fuel p (ce_target c) (depth + 1) best) best
            (ps_literals (p_states p ! q) @ ps_wildcards (p_states p ! q)))"

definition st_find_based_on :: "'f st_policy \<Rightarrow> nat list \<Rightarrow> bytes option" where
  "st_find_based_on p frontier =
     (case foldl (\<lambda>best q. nearest_pattern_visit (length (p_states p)) p q 0 best) None frontier of
        None \<Rightarrow> None
      | Some (_, entry) \<Rightarrow> pe_pattern entry)"

section \<open>Rebuilding the filters\<close>

record 'f levels =
  lv_filters :: "'f option list"
  lv_masks :: "type_mask list"
  lv_compound :: "bool list"

definition rebuild_note :: "'f filter_ops \<Rightarrow> nat \<Rightarrow> child_entry \<Rightarrow> 'f levels \<Rightarrow> 'f levels" where
  "rebuild_note F d c lv =
     (if ce_compound c then lv\<lparr>lv_compound := (lv_compound lv)[d := True]\<rparr>
      else if ce_type c = ST_TYPE_LITERAL then
        (case lv_filters lv ! d of
           None \<Rightarrow> lv
         | Some f \<Rightarrow> lv\<lparr>lv_filters := (lv_filters lv)[d := vf_insert F f (filter_hash_fnv1a (child_text c))]\<rparr>)
      else lv\<lparr>lv_masks := (lv_masks lv)[d := lv_masks lv ! d OR type_bit (ce_type c)]\<rparr>)"

text \<open>The children of one state: whether the queue had room, its new end, the entries added.\<close>

fun rebuild_children ::
    "'f filter_ops \<Rightarrow> nat \<Rightarrow> nat \<Rightarrow> child_entry list \<Rightarrow> nat \<Rightarrow> 'f levels \<Rightarrow>
     bool \<times> nat \<times> (nat \<times> nat) list \<times> 'f levels" where
  "rebuild_children F room d [] tail lv = (True, tail, [], lv)"
| "rebuild_children F room d (c # cs) tail lv =
     (if ce_type c = ST_TYPE_LITERAL \<and> ce_text c = None then rebuild_children F room d cs tail lv
      else let lv1 = rebuild_note F d c lv in
        if tail \<ge> room then (False, tail, [], lv1)
        else case rebuild_children F room d cs (tail + 1) lv1 of
          (whole, tail', added, lv2) \<Rightarrow> (whole, tail', (ce_target c, d + 1) # added, lv2))"

lemma rebuild_children_room:
  "rebuild_children F room d cs tail lv = (True, tail', added, lv') \<Longrightarrow>
   tail' = tail + length added \<and> (added = [] \<or> tail' \<le> room)"
proof (induction cs arbitrary: tail lv added)
  case (Cons c cs)
  show ?case
  proof (cases "ce_type c = ST_TYPE_LITERAL \<and> ce_text c = None")
    case True
    then show ?thesis using Cons.IH [of tail lv added] Cons.prems by auto
  next
    case False
    then have room: "tail < room" using Cons.prems by (auto simp: Let_def split: if_splits)
    obtain b t es lv2 where rec: "rebuild_children F room d cs (tail + 1) (rebuild_note F d c lv) = (b, t, es, lv2)"
      by (metis prod_cases4)
    then have "b" "t = tail'" "added = (ce_target c, d + 1) # es" "lv2 = lv'"
      using Cons.prems False room by (auto simp: Let_def split: if_splits)
    then show ?thesis using Cons.IH [of "tail + 1" "rebuild_note F d c lv" es] rec room by auto
  qed
qed simp

text \<open>Each turn takes one entry from the queue; its total length is bounded by the number of
  states, past which the rebuild gives up.\<close>

function rebuild_loop ::
    "'f filter_ops \<Rightarrow> policy_state list \<Rightarrow> (nat \<times> nat) list \<Rightarrow> nat \<Rightarrow> 'f levels \<Rightarrow> bool \<times> 'f levels" where
  "rebuild_loop F states [] tail lv = (True, lv)"
| "rebuild_loop F states ((q, d) # queue) tail lv =
     (if d \<ge> FILTER_POS_LEVELS then rebuild_loop F states queue tail lv
      else case rebuild_children F (length states) d (ps_literals (states ! q) @ ps_wildcards (states ! q)) tail lv of
        (whole, tail', added, lv') \<Rightarrow>
          if whole then rebuild_loop F states (queue @ added) tail' lv' else (False, lv'))"
  by pat_completeness auto
termination
  by (relation "measure (\<lambda>(F, states, queue, tail, lv). 2 * (length states - tail) + length queue)")
     (auto dest!: sym [of _ "rebuild_children _ _ _ _ _ _"] rebuild_children_room)

definition policy_rebuild_filters :: "'f filter_ops \<Rightarrow> 'f st_policy \<Rightarrow> 'f st_policy" where
  "policy_rebuild_filters F p =
     (let states = p_states p; n = length states; cap = max 64 (n + n div 4);
          (whole, lv) = rebuild_loop F states [(0, 0)] 1
            \<lparr>lv_filters = replicate FILTER_POS_LEVELS (vf_create F cap),
             lv_masks = replicate FILTER_POS_LEVELS 0, lv_compound = replicate FILTER_POS_LEVELS False\<rparr> in
      p\<lparr>p_filters := (if whole then lv_filters lv else replicate FILTER_POS_LEVELS None),
        p_masks := (if whole then lv_masks lv else replicate FILTER_POS_LEVELS 0),
        p_compound := (if whole then lv_compound lv else replicate FILTER_POS_LEVELS True),
        p_built := replicate FILTER_POS_LEVELS (p_epoch p),
        p_stats := (p_stats p)\<lparr>filter_rebuild_count := filter_rebuild_count (p_stats p) + 1\<rparr>\<rparr>)"

section \<open>Suggestions\<close>

record st_expand_suggestion =
  sg_pattern :: bytes
  sg_based_on :: "bytes option"
  sg_confidence :: rat

text \<open>The first error of the suggestions, with the suggestions counted by the list.\<close>

record st_eval_result =
  er_matches :: bool
  er_matching_pattern :: "bytes option"
  er_suggestions :: "st_expand_suggestion list"
  er_suggestion_error :: st_error

definition st_build_pattern :: "nat \<Rightarrow> st_token list \<Rightarrow> bytes result" where
  "st_build_pattern buf_size tokens =
     bind_result (st_netpattern_encode_owned (Some (map token_arg tokens))) (\<lambda>encoded.
       if length encoded \<ge> buf_size then Inl ST_ERR_LIMIT else Inr encoded)"

definition display_token :: "st_token \<Rightarrow> st_token" where
  "display_token t =
     (if tk_type t \<noteq> ST_TYPE_LITERAL then t\<lparr>tk_text := st_type_symbol (tk_type t)\<rparr> else t)"

definition st_build_command_pattern :: "nat \<Rightarrow> st_token list \<Rightarrow> bytes result" where
  "st_build_command_pattern buf_size tokens = st_build_pattern buf_size (map display_token tokens)"

text \<open>The flag tells whether to go on.\<close>

definition offer_command_suggestion ::
    "st_eval_result \<Rightarrow> st_token list \<Rightarrow> bytes option \<Rightarrow> rat \<Rightarrow> bool \<times> st_eval_result" where
  "offer_command_suggestion r tokens based_on confidence =
     (case st_build_command_pattern ST_MAX_NETPATTERN_LEN tokens of
        Inl e \<Rightarrow>
          (if e = ST_ERR_MEMORY then (False, r\<lparr>er_suggestions := [], er_suggestion_error := e\<rparr>)
           else (True, if er_suggestion_error r = ST_OK then r\<lparr>er_suggestion_error := e\<rparr> else r))
      | Inr pattern \<Rightarrow>
          (if er_suggestions r \<noteq> [] \<and> sg_pattern (hd (er_suggestions r)) = pattern then (True, r)
           else (True, r\<lparr>er_suggestions := er_suggestions r @
                  [\<lparr>sg_pattern = pattern, sg_based_on = based_on, sg_confidence = confidence\<rparr>]\<rparr>)))"

text \<open>The narrowest join of the argument's type with a wildcard the frontier offers.\<close>

definition widened_type :: "st_token_type \<Rightarrow> type_mask \<Rightarrow> st_token_type" where
  "widened_type div_type wm =
     (let compat = st_runtime_match_mask div_type AND wm in
      foldl (\<lambda>best wt.
          let joined = st_join wt div_type in
          if best = ST_TYPE_ANY \<or> st_is_compatible joined best then joined else best)
        ST_TYPE_ANY (filter (\<lambda>wt. compat AND type_bit wt \<noteq> 0) all_token_types))"

definition suggestion_tokens :: "st_token list \<Rightarrow> nat \<Rightarrow> st_token list" where
  "suggestion_tokens cmd depth =
     map (\<lambda>t. plain_token (tk_text t) (tk_type t)) (take depth cmd) @
     map (\<lambda>t. plain_token (tk_text t) ST_TYPE_LITERAL) (drop depth cmd)"

definition generate_suggestions ::
    "'f st_policy \<Rightarrow> st_token list \<Rightarrow> match_walk \<Rightarrow> st_eval_result \<Rightarrow> st_eval_result" where
  "generate_suggestions p cmd w r =
     (let depth = mw_depth w; confidence = of_nat depth / of_nat (length cmd);
          based_on = (if depth = 0 then None else st_find_based_on p (mw_frontier w));
          wm = (if depth < length cmd
                then foldl (\<lambda>m q. m OR ps_wildcard_mask (p_states p ! q)) 0 (mw_frontier w) else 0);
          tokens = suggestion_tokens cmd depth;
          (go, r1) = offer_command_suggestion r tokens based_on confidence in
      if \<not> go then r1
      else let (go, r2) =
        (if depth < length cmd then
           let div_type = tk_type (cmd ! depth) in
           if wm \<noteq> 0 \<and> st_runtime_match_mask div_type AND wm \<noteq> 0 then
             let best_wild = widened_type div_type wm in
             if best_wild \<noteq> ST_TYPE_ANY then
               offer_command_suggestion r1
                 (tokens[depth := plain_token (st_type_symbol best_wild) best_wild]) based_on confidence
             else (True, r1)
           else (True, r1)
         else (True, r1)) in
      if \<not> go then r2
      else if length (er_suggestions r2) < 2
        then snd (offer_command_suggestion r2 cmd None confidence)
        else r2)"

section \<open>Evaluation\<close>

definition add_stat :: "(policy_stats \<Rightarrow> policy_stats) \<Rightarrow> 'f st_policy \<Rightarrow> 'f st_policy" where
  "add_stat f p = p\<lparr>p_stats := f (p_stats p)\<rparr>"

text \<open>Whether the filter of a level rules the argument out.\<close>

definition position_rejects :: "'f filter_ops \<Rightarrow> 'f st_policy \<Rightarrow> st_token list \<Rightarrow> nat \<Rightarrow> bool" where
  "position_rejects F p cmd i =
     (if p_compound p ! i then False
      else if p_masks p ! i AND st_runtime_match_mask (tk_type (cmd ! i)) \<noteq> 0 then False
      else case p_filters p ! i of
        None \<Rightarrow> False
      | Some f \<Rightarrow> vf_count F f \<noteq> 0 \<and> \<not> vf_lookup F f (filter_hash_fnv1a (tk_text (cmd ! i))))"

definition empty_result :: st_eval_result where
  "empty_result = \<lparr>er_matches = False, er_matching_pattern = None, er_suggestions = [],
     er_suggestion_error = ST_OK\<rparr>"

text \<open>The status, the policy, the answer and, when one is wanted, the filled result.\<close>

definition policy_eval ::
    "'f filter_ops \<Rightarrow> 'f st_policy \<Rightarrow> st_netargv_view \<Rightarrow> bool \<Rightarrow>
     st_error \<times> 'f st_policy \<times> bool \<times> st_eval_result" where
  "policy_eval F p netargv wanted =
     (if na_data netargv = None \<and> na_length netargv \<noteq> 0 then (ST_ERR_INVALID, p, False, empty_result)
      else let p1 = add_stat (\<lambda>s. s\<lparr>eval_count := eval_count s + 1\<rparr>) p in
        case st_netargv_classify_scratch_view netargv of
          Inl e \<Rightarrow> (e, p1, False, empty_result)
        | Inr cmd \<Rightarrow>
          (if cmd = [] \<or> length cmd > ST_MAX_CMD_TOKENS then (ST_OK, p1, False, empty_result)
           else let check = [0..<min (length cmd) FILTER_POS_LEVELS];
                    p2 = (if list_ex (\<lambda>i. p_built p1 ! i \<noteq> p_epoch p1) check
                          then policy_rebuild_filters F p1 else p1);
                    filter_rejected = list_ex (position_rejects F p2 cmd) check in
             if filter_rejected \<and> \<not> wanted then
               (ST_OK, add_stat (\<lambda>s. s\<lparr>filter_reject_count := filter_reject_count s + 1\<rparr>) p2, False, empty_result)
             else let p3 = add_stat (\<lambda>s. s\<lparr>trie_walk_count := trie_walk_count s + 1\<rparr>) p2;
                      w = matching_walk_locked p3 cmd in
               case mw_best w of
                 Some best \<Rightarrow>
                   (ST_OK, p3, True,
                    if wanted then empty_result\<lparr>er_matches := True, er_matching_pattern := pe_pattern best\<rparr>
                    else empty_result)
               | None \<Rightarrow>
                   (if \<not> wanted then (ST_OK, p3, False, empty_result)
                    else let r = generate_suggestions p3 cmd w empty_result in
                      (ST_OK,
                       add_stat (\<lambda>s. s\<lparr>suggestion_count := suggestion_count s + of_nat (length (er_suggestions r))\<rparr>) p3,
                       False, r))))"

definition st_policy_eval_view ::
    "'f filter_ops \<Rightarrow> 'f st_policy \<Rightarrow> st_netargv_view \<Rightarrow> st_error \<times> 'f st_policy \<times> st_eval_result" where
  "st_policy_eval_view F p netargv =
     (case policy_eval F p netargv True of (e, p', _, r) \<Rightarrow> (e, p', r))"

definition st_policy_match_view ::
    "'f filter_ops \<Rightarrow> 'f st_policy \<Rightarrow> st_netargv_view \<Rightarrow> st_error \<times> 'f st_policy \<times> bool" where
  "st_policy_match_view F p netargv =
     (case policy_eval F p netargv False of (e, p', matches, _) \<Rightarrow> (e, p', matches))"

section \<open>Enumeration of all matching patterns\<close>

text \<open>The visitor says whether to go on.\<close>

function visit_matches_loop ::
    "'f st_policy \<Rightarrow> st_token list \<Rightarrow> (st_netpattern_view \<Rightarrow> 's \<Rightarrow> bool \<times> 's) \<Rightarrow> (nat \<times> nat) list \<Rightarrow>
     nat \<Rightarrow> 's \<Rightarrow> nat \<times> 's" where
  "visit_matches_loop p cmd visitor [] visited user = (visited, user)"
| "visit_matches_loop p cmd visitor (e # queue) visited user =
     (case (if snd e = length cmd then state_entry p (fst e) else None) of
        Some matched \<Rightarrow>
          (case visitor (np_view (the (pe_pattern matched))) user of
             (go, user') \<Rightarrow>
               if go then visit_matches_loop p cmd visitor (queue @ walk_next p cmd e) (visited + 1) user'
               else (visited + 1, user'))
      | None \<Rightarrow> visit_matches_loop p cmd visitor (queue @ walk_next p cmd e) visited user)"
  by pat_completeness auto
termination
  by (relation "inv_image (mult less_than) (\<lambda>(p, cmd, visitor, queue, visited, user). left_over cmd queue)")
     (simp_all add: wf_mult left_over_step)

definition st_policy_visit_matches_view ::
    "'f st_policy \<Rightarrow> st_netargv_view \<Rightarrow> (st_netpattern_view \<Rightarrow> 's \<Rightarrow> bool \<times> 's) \<Rightarrow> 's \<Rightarrow>
     st_error \<times> nat \<times> 's" where
  "st_policy_visit_matches_view p netargv visitor user =
     (if na_data netargv = None \<and> na_length netargv \<noteq> 0 then (ST_ERR_INVALID, 0, user)
      else case st_netargv_classify_scratch_view netargv of
        Inl e \<Rightarrow> (e, 0, user)
      | Inr cmd \<Rightarrow>
          (if cmd = [] \<or> length cmd > ST_MAX_CMD_TOKENS then (ST_OK, 0, user)
           else (ST_OK, visit_matches_loop p cmd visitor [(0, 0)] 0 user)))"

definition collect_policy_match ::
    "st_netpattern_view \<Rightarrow> st_netpattern_view list \<Rightarrow> bool \<times> st_netpattern_view list" where
  "collect_policy_match pattern items = (True, items @ [pattern])"

definition st_policy_verify_all_view ::
    "'f st_policy \<Rightarrow> st_netargv_view \<Rightarrow> st_netpattern_view list result" where
  "st_policy_verify_all_view p netargv =
     (case st_policy_visit_matches_view p netargv collect_policy_match [] of
        (e, visited, items) \<Rightarrow>
          if e \<noteq> ST_OK \<or> visited \<noteq> length items then Inl (if e = ST_OK then ST_ERR_MEMORY else e)
          else Inr items)"

end
