(* ===== verification/Queues.thy ===== *)
theory Queues imports Prelude "HOL-Library.Multiset" begin

text \<open>
  Breadth-first loops. A loop takes the first entry from its queue and appends the entries that
  follow it; a rank that falls from an entry to those that follow bounds it. The order in which
  the entries are taken visits exactly the entries reachable from the queue, and visits none twice
  when no entry follows two entries.
\<close>

definition follows :: "('e \<Rightarrow> 'e list) \<Rightarrow> ('e \<times> 'e) set" where
  "follows nxt = {(a, b). b \<in> set (nxt a)}"

lemma reach_step:
  "{x. (e, x) \<in> (follows nxt)\<^sup>*} = insert e {x. \<exists>y\<in>set (nxt e). (y, x) \<in> (follows nxt)\<^sup>*}"
  by (auto simp: follows_def elim: converse_rtranclE intro: converse_rtrancl_into_rtrancl)

locale queue_order =
  fixes nxt :: "'e \<Rightarrow> 'e list" and rank :: "'e \<Rightarrow> nat" and taken :: "'e list \<Rightarrow> 'e list"
  assumes rank_falls: "b \<in> set (nxt a) \<Longrightarrow> rank b < rank a"
    and taken_Nil: "taken [] = []"
    and taken_Cons: "taken (e # es) = e # taken (es @ nxt e)"
begin

lemma rank_multiset_step:
  "(image_mset rank (mset (es @ nxt e)), image_mset rank (mset (e # es))) \<in> mult less_than"
proof -
  have "(image_mset rank (mset es) + image_mset rank (mset (nxt e)), image_mset rank (mset es) + {#rank e#})
      \<in> mult less_than"
    using rank_falls by (intro one_step_implies_mult) auto
  then show ?thesis by (simp add: ac_simps)
qed

lemma queue_induct [case_names Nil Cons]:
  assumes "P []" "\<And>e es. P (es @ nxt e) \<Longrightarrow> P (e # es)"
  shows "P es"
proof (induction es rule: wf_induct [OF wf_inv_image [OF wf_mult [OF wf_less_than], of "\<lambda>es. image_mset rank (mset es)"]])
  case (1 es)
  then show ?case using assms rank_multiset_step by (cases es) simp_all
qed

lemma set_taken: "set (taken es) = {x. \<exists>e\<in>set es. (e, x) \<in> (follows nxt)\<^sup>*}"
proof (induction es rule: queue_induct)
  case (Cons e es)
  have "{x. (e, x) \<in> (follows nxt)\<^sup>*} = insert e {x. \<exists>y\<in>set (nxt e). (y, x) \<in> (follows nxt)\<^sup>*}"
    by (rule reach_step)
  then show ?case using Cons by (auto simp: taken_Cons)
qed (simp add: taken_Nil)

lemma length_taken: "length es \<le> length (taken es)"
  by (induction es rule: queue_induct) (simp_all add: taken_Nil taken_Cons)

text \<open>Here \<open>ok\<close> bounds the entries the loop can meet.\<close>

lemma distinct_taken:
  assumes "ok r" "\<And>a b. ok a \<Longrightarrow> b \<in> set (nxt a) \<Longrightarrow> ok b"
    and "\<And>a b x. ok a \<Longrightarrow> ok b \<Longrightarrow> x \<in> set (nxt a) \<Longrightarrow> x \<in> set (nxt b) \<Longrightarrow> a = b"
    and "\<And>a. ok a \<Longrightarrow> distinct (nxt a)" "\<And>a. ok a \<Longrightarrow> r \<notin> set (nxt a)"
  shows "distinct (taken [r])"
proof -
  have "distinct (done @ es) \<Longrightarrow> \<forall>x\<in>set (done @ es). ok x \<and> (x = r \<or> (\<exists>d\<in>set done. x \<in> set (nxt d))) \<Longrightarrow>
      distinct (done @ taken es)" for "done" es
  proof (induction es arbitrary: "done" rule: queue_induct)
    case (Cons e es)
    have e: "ok e" using Cons.prems(2) by simp
    have new: "x \<notin> set (done @ e # es)" if x: "x \<in> set (nxt e)" for x
    proof
      assume "x \<in> set (done @ e # es)"
      then obtain d where "d \<in> set done" "x \<in> set (nxt d)" "ok d" using Cons.prems(2) assms(5) [OF e] x by force
      then show False using assms(3) [OF e _ x] Cons.prems(1) by force
    qed
    have "distinct ((done @ [e]) @ taken (es @ nxt e))"
    proof (rule Cons.IH)
      show "distinct ((done @ [e]) @ es @ nxt e)" using Cons.prems(1) new assms(4) [OF e] by auto
      show "\<forall>x\<in>set ((done @ [e]) @ es @ nxt e). ok x \<and> (x = r \<or> (\<exists>d\<in>set (done @ [e]). x \<in> set (nxt d)))"
        using Cons.prems(2) assms(2) [OF e] by auto
    qed
    then show ?case by (simp add: taken_Cons)
  qed (simp add: taken_Nil)
  from this [of "[]" "[r]"] show ?thesis using assms(1) by simp
qed

end

end
