(* ===== verification/Trie_Updates.thy ===== *)
theory Trie_Updates imports Policy begin

text \<open>
  How the trie operations of the policy change the paths of the trie: pruning keeps every path to
  a pattern, insertion adds one path and moves none, and every level of the membership filters
  keeps knowing all keys at its depth.
\<close>

section \<open>Trie operations as operations on paths\<close>

definition trie_inv :: "policy_state list \<Rightarrow> bool" where
  "trie_inv st \<longleftrightarrow> list_all node_inv st \<and> tree edge st"

lemma trie_inv_new: "trie_inv [empty_state]"
  by (simp add: trie_inv_def tree_def)

lemma trie_node: "trie_inv st \<Longrightarrow> q < length st \<Longrightarrow> node_inv (st ! q)"
  by (simp add: trie_inv_def list_all_length)

lemma trie_tree: "trie_inv st \<Longrightarrow> tree edge st"
  by (simp add: trie_inv_def)

lemma trie_root: "trie_inv st \<Longrightarrow> 0 < length st"
  by (auto simp: trie_inv_def tree_def)

lemmas trie_path_bound = path_bound [OF trie_tree]

lemma trie_inv_update:
  "trie_inv st \<Longrightarrow> node_inv n \<Longrightarrow> tree edge (st[q := n]) \<Longrightarrow> trie_inv (st[q := n])"
  using set_update_subset_insert [of st q n] by (auto simp: trie_inv_def list_all_iff)

text \<open>The lookup of a child, its target and the edge of the node.\<close>

lemma find_child_cases:
  assumes "trie_inv st" "q < length st" "wf_token t"
  obtains (none) "find_child (st ! q) t = None" "edge (st ! q) t = None"
    | (child) c where "find_child (st ! q) t = Some c" "edge (st ! q) t = Some (ce_target c)"
        "ce_target c < length st"
proof (cases "find_child (st ! q) t")
  case None
  then show thesis
    using none find_child_edge [OF trie_node [OF assms(1,2)] assms(3)] by simp
next
  case (Some c)
  then have "edge (st ! q) t = Some (ce_target c)"
    using find_child_edge [OF trie_node [OF assms(1,2)] assms(3)] by simp
  then show thesis using child Some tree_edge [OF trie_tree [OF assms(1)] assms(2)] by blast
qed

lemma probe_path_eq:
  assumes "trie_inv st" "q < length st" "list_all wf_token ts"
  shows "\<exists>us. ts = us @ snd (probe_path st q ts) \<and> path edge st q us = Some (fst (probe_path st q ts)) \<and>
    (snd (probe_path st q ts) \<noteq> [] \<longrightarrow> edge (st ! fst (probe_path st q ts)) (hd (snd (probe_path st q ts))) = None)"
  using assms(2,3)
proof (induction ts arbitrary: q)
  case (Cons t ts)
  then have wf: "wf_token t" by simp
  show ?case
    using assms(1) Cons.prems(1) wf
  proof (cases rule: find_child_cases)
    case none
    then show ?thesis by (intro exI [of _ "[]"]) simp
  next
    case (child c)
    then obtain us where us: "ts = us @ snd (probe_path st (ce_target c) ts)"
        "path edge st (ce_target c) us = Some (fst (probe_path st (ce_target c) ts))"
        "snd (probe_path st (ce_target c) ts) \<noteq> [] \<longrightarrow>
          edge (st ! fst (probe_path st (ce_target c) ts)) (hd (snd (probe_path st (ce_target c) ts))) = None"
      using Cons.IH [OF child(3)] Cons.prems(2) by auto
    then show ?thesis using child by (intro exI [of _ "t # us"]) simp
  qed
qed simp

lemma remove_path_eq:
  assumes "trie_inv st" "q < length st" "list_all wf_token ts"
  shows "map_option snd (remove_path st q ts) = path edge st q ts"
  using assms(2,3)
proof (induction ts arbitrary: q)
  case (Cons t ts)
  then have wf: "wf_token t" by simp
  show ?case
    using assms(1) Cons.prems(1) wf
  proof (cases rule: find_child_cases)
    case (child c)
    then show ?thesis using Cons.IH [OF child(3)] Cons.prems(2)
      by (simp flip: Cons.IH [OF child(3)] add: option.map_comp o_def case_prod_beta)
  qed simp
qed simp

lemma remove_path_steps:
  assumes "trie_inv st" "q < length st" "list_all wf_token ts" "remove_path st q ts = Some (steps, final)"
  shows "list_all (\<lambda>(p, t). p < length st \<and> wf_token t) steps"
  using assms(2-4)
proof (induction ts arbitrary: q steps)
  case (Cons t ts)
  then have wf: "wf_token t" by simp
  show ?case
    using assms(1) Cons.prems(1) wf
  proof (cases rule: find_child_cases)
    case none
    then show ?thesis using Cons.prems(3) by simp
  next
    case (child c)
    then show ?thesis using Cons.IH [OF child(3)] Cons.prems wf by auto
  qed
qed simp

text \<open>Each step lies on the path.\<close>

lemma remove_path_prefix:
  assumes "trie_inv st" "q < length st" "list_all wf_token ts" "remove_path st q ts = Some (steps, final)"
    "(p, t) \<in> set steps"
  shows "\<exists>pre post. ts = pre @ t # post \<and> path edge st q pre = Some p"
  using assms(2-5)
proof (induction ts arbitrary: q steps)
  case (Cons u us)
  then have wf: "wf_token u" by simp
  show ?case
    using assms(1) Cons.prems(1) wf
  proof (cases rule: find_child_cases)
    case none
    then show ?thesis using Cons.prems(3) by simp
  next
    case (child c)
    then obtain steps' where steps: "remove_path st (ce_target c) us = Some (steps', final)" "steps = (q, u) # steps'"
      using Cons.prems(3) by auto
    show ?thesis
    proof (cases "(p, t) = (q, u)")
      case True
      then show ?thesis by (intro exI [of _ "[]"] exI [of _ us]) simp
    next
      case False
      then obtain pre post where "us = pre @ t # post" "path edge st (ce_target c) pre = Some p"
        using Cons.IH [OF child(3) _ steps(1)] Cons.prems(2,4) steps(2) by auto
      then show ?thesis using child by (intro exI [of _ "u # pre"] exI [of _ post]) simp
    qed
  qed
qed simp

section \<open>Pruning\<close>

lemma dead_end_edge: "dead_end s \<Longrightarrow> edge s = Map.empty"
  by (simp add: dead_end_def edge_def node_children_def)

text \<open>What pruning leaves: the trie invariant, the pattern identifiers, every path to a node
  that carries one, and every path that does not end with one of the given steps.\<close>

definition pruned :: "(nat \<times> st_token) set \<Rightarrow> policy_state list \<Rightarrow> policy_state list \<Rightarrow> bool" where
  "pruned S st st' \<longleftrightarrow> trie_inv st' \<and> map ps_pattern_id st' = map ps_pattern_id st \<and>
     (\<forall>ls q. path edge st' 0 ls = Some q \<longrightarrow> path edge st 0 ls = Some q) \<and>
     (\<forall>ls q. path edge st 0 ls = Some q \<longrightarrow> ps_pattern_id (st ! q) \<noteq> None \<longrightarrow> path edge st' 0 ls = Some q) \<and>
     (\<forall>ls q. path edge st 0 ls = Some q \<longrightarrow> path edge st' 0 ls = Some q \<or>
        ls \<noteq> [] \<and> (\<exists>p. path edge st 0 (butlast ls) = Some p \<and> (p, last ls) \<in> S))"

lemma pruned_refl: "trie_inv st \<Longrightarrow> pruned S st st"
  by (simp add: pruned_def)

lemma prunedD:
  assumes "pruned S st st'"
  shows "trie_inv st'" "map ps_pattern_id st' = map ps_pattern_id st"
    "path edge st' 0 ls = Some q \<Longrightarrow> path edge st 0 ls = Some q"
    "path edge st 0 ls = Some q \<Longrightarrow> ps_pattern_id (st ! q) \<noteq> None \<Longrightarrow> path edge st' 0 ls = Some q"
    "path edge st 0 ls = Some q \<Longrightarrow> path edge st' 0 ls \<noteq> Some q \<Longrightarrow>
       ls \<noteq> [] \<and> (\<exists>p. path edge st 0 (butlast ls) = Some p \<and> (p, last ls) \<in> S)"
  using assms unfolding pruned_def by (elim conjE; assumption | blast)+

lemma pruned_length: "pruned S st st' \<Longrightarrow> length st' = length st"
  using prunedD(2) by (metis length_map)

lemma pruned_id: "pruned S st st' \<Longrightarrow> q < length st \<Longrightarrow> ps_pattern_id (st' ! q) = ps_pattern_id (st ! q)"
  using pruned_length [of S st st'] prunedD(2) [of S st st'] by (metis nth_map)

lemma pruned_trans:
  assumes "trie_inv st" "pruned S st st'" "pruned S st' st''"
  shows "pruned S st st''"
  unfolding pruned_def
proof (intro conjI allI impI)
  show "trie_inv st''" by (rule prunedD(1) [OF assms(3)])
  show "map ps_pattern_id st'' = map ps_pattern_id st"
    by (rule trans [OF prunedD(2) [OF assms(3)] prunedD(2) [OF assms(2)]])
  fix ls q
  show "path edge st'' 0 ls = Some q \<Longrightarrow> path edge st 0 ls = Some q"
    by (rule prunedD(3) [OF assms(2) prunedD(3) [OF assms(3)]])
  assume p: "path edge st 0 ls = Some q"
  {
    assume id: "ps_pattern_id (st ! q) \<noteq> None"
    have "q < length st" using trie_path_bound [OF assms(1) trie_root [OF assms(1)] p] .
    then have "ps_pattern_id (st' ! q) \<noteq> None" using pruned_id [OF assms(2)] id by simp
    then show "path edge st'' 0 ls = Some q"
      by (rule prunedD(4) [OF assms(3) prunedD(4) [OF assms(2) p id]])
  next
    show "path edge st'' 0 ls = Some q \<or>
        ls \<noteq> [] \<and> (\<exists>p. path edge st 0 (butlast ls) = Some p \<and> (p, last ls) \<in> S)"
    proof (cases "path edge st' 0 ls = Some q")
      case True
      then show ?thesis
        using prunedD(5) [OF assms(3) True] prunedD(3) [OF assms(2), of "butlast ls"] by blast
    next
      case False
      then show ?thesis using prunedD(5) [OF assms(2) p] by blast
    qed
  }
qed

lemma prune_step:
  assumes "trie_inv st" "q < length st" "wf_token t" "prune_index (st ! q) t = Some i" "(q, t) \<in> S"
    and dead: "dead_end (st ! ce_target ((if \<not> token_is_wild t then ps_literals (st ! q) else ps_wildcards (st ! q)) ! i))"
  shows "pruned S st (st[q := remove_child_from_node (st ! q) i (\<not> token_is_wild t)])"
proof -
  let ?n = "st ! q" and ?n' = "remove_child_from_node (st ! q) i (\<not> token_is_wild t)"
  let ?c = "(if \<not> token_is_wild t then ps_literals ?n else ps_wildcards ?n) ! i"
  note inv = trie_node [OF assms(1,2)]
  have rm: "remove_node_child ?n t = Some ?n'" using assms(4) by (simp add: remove_node_child_def)
  note law = remove_node_child_law [OF inv assms(3) rm]
  have target: "edge ?n t = Some (ce_target ?c)"
  proof (cases "token_is_wild t")
    case True
    then have ix: "find_index (prunable_wildcard t) (ps_wildcards ?n) = Some i"
      using assms(4) by (simp add: prune_index_def)
    have "stored_child True ?c" using find_index_Some [OF ix] inv True by (simp add: node_inv_def list_all_length)
    then have "child_token ?c = t"
      using find_index_Some [OF ix] stored_wildcard_iff(2) [OF _ assms(3) True] True by simp
    then show ?thesis
      using find_index_Some [OF ix] True by (auto simp: edge_Some_iff [OF inv] node_children_def)
  next
    case False
    then have ix: "find_index (\<lambda>c. child_matches_literal_token c t) (ps_literals ?n) = Some i"
      using assms(4) by (simp add: prune_index_def)
    have "stored_child False ?c" using find_index_Some [OF ix] inv False by (simp add: node_inv_def list_all_length)
    then have "child_token ?c = t"
      using find_index_Some [OF ix] stored_literal_iff [OF _ assms(3) False] False by simp
    then show ?thesis
      using find_index_Some [OF ix] False by (auto simp: edge_Some_iff [OF inv] node_children_def)
  qed
  have upd: "edge ?n' = (edge ?n)(t := None)" and ok: "node_inv ?n'" and pid: "ps_pattern_id ?n' = ps_pattern_id ?n"
    using law by simp_all
  note cut = node.cut_path [OF trie_tree [OF assms(1)] assms(2) target upd dead_end_edge [OF dead]]
  show ?thesis
    unfolding pruned_def
  proof (intro conjI allI impI)
    show "trie_inv (st[q := ?n'])"
      using assms(1) ok node.cut_tree [OF trie_tree [OF assms(1)] assms(2) upd] by (rule trie_inv_update)
    show "map ps_pattern_id (st[q := ?n']) = map ps_pattern_id st"
      using pid assms(2) by (simp add: map_update) (metis list_update_id nth_map)
    fix ls r
    show "path edge (st[q := ?n']) 0 ls = Some r \<Longrightarrow> path edge st 0 ls = Some r"
      by (simp add: cut split: if_splits)
    assume p: "path edge st 0 ls = Some r" "ps_pattern_id (st ! r) \<noteq> None"
    have "\<not> (ls \<noteq> [] \<and> last ls = t \<and> path edge st 0 (butlast ls) = Some q)"
    proof
      assume l: "ls \<noteq> [] \<and> last ls = t \<and> path edge st 0 (butlast ls) = Some q"
      then have "r = ce_target ?c" using path_last [OF l] target p(1) by simp
      then show False using dead p(2) by (simp add: dead_end_def)
    qed
    then show "path edge (st[q := ?n']) 0 ls = Some r" using p(1) by (simp add: cut)
  next
    fix ls r
    assume "path edge st 0 ls = Some r"
    then show "path edge (st[q := ?n']) 0 ls = Some r \<or>
        ls \<noteq> [] \<and> (\<exists>p. path edge st 0 (butlast ls) = Some p \<and> (p, last ls) \<in> S)"
      using assms(5) by (auto simp: cut)
  qed
qed

lemma prune_path_pruned:
  "trie_inv st \<Longrightarrow> list_all (\<lambda>(p, t). p < length st \<and> wf_token t) steps \<Longrightarrow> set steps \<subseteq> S \<Longrightarrow>
   pruned S st (prune_path st steps)"
proof (induction st steps rule: prune_path.induct)
  case (2 st q t steps)
  show ?case
  proof (cases "prune_index (st ! q) t")
    case None
    then show ?thesis using 2(3) by (simp add: pruned_refl)
  next
    case (Some i)
    let ?lit = "\<not> token_is_wild t"
    let ?children = "if ?lit then ps_literals (st ! q) else ps_wildcards (st ! q)"
    show ?thesis
    proof (cases "dead_end (st ! ce_target (?children ! i))")
      case True
      let ?st = "st[q := remove_child_from_node (st ! q) i ?lit]"
      have step: "pruned S st ?st" using prune_step [of st q t i S] 2(3-5) Some True by simp
      then have "trie_inv ?st" by (simp add: pruned_def)
      then have "pruned S ?st (prune_path ?st steps)"
        using 2(1) [OF Some refl refl True] 2(4,5) by simp
      then show ?thesis
        using pruned_trans [OF 2(3) step] Some True by (simp add: Let_def)
    next
      case False
      then show ?thesis using 2(2) [OF Some refl refl False 2(3)] 2(4,5) Some by (simp add: Let_def)
    qed
  qed
qed (simp add: pruned_refl)

section \<open>Pattern identifiers\<close>

text \<open>Setting an identifier moves no edge.\<close>

lemma set_id_nth:
  "edge (st[q := (st ! q)\<lparr>ps_pattern_id := x\<rparr>] ! r) = edge (st ! r)"
  by (cases "q < length st"; cases "r = q") (simp_all add: list_update_beyond)

lemma set_id_trie:
  assumes "trie_inv st"
  shows "trie_inv (st[q := (st ! q)\<lparr>ps_pattern_id := x\<rparr>])"
proof (cases "q < length st")
  case True
  then show ?thesis
    using trie_node [OF assms True] tree_cong_edges [OF _ set_id_nth trie_tree [OF assms]]
    by (intro trie_inv_update [OF assms]) simp_all
qed (use assms in \<open>simp add: list_update_beyond\<close>)

lemma set_id_path:
  assumes "trie_inv st" "r < length st"
  shows "path edge (st[q := (st ! q)\<lparr>ps_pattern_id := x\<rparr>]) r ls = path edge st r ls"
  by (rule path_cong_edges [OF _ set_id_nth trie_tree [OF assms(1)] assms(2)]) simp

text \<open>A node carries an identifier exactly when the pattern so named ends there.\<close>

definition names_ok :: "policy_state list \<Rightarrow> (nat \<Rightarrow> st_token list option) \<Rightarrow> bool" where
  "names_ok st ids \<longleftrightarrow>
     (\<forall>q pid. q < length st \<longrightarrow> (ps_pattern_id (st ! q) = Some pid \<longleftrightarrow>
        (\<exists>ts. ids pid = Some ts \<and> path edge st 0 ts = Some q))) \<and>
     (\<forall>pid ts. ids pid = Some ts \<longrightarrow> path edge st 0 ts \<noteq> None)"

lemma names_iff:
  "names_ok st ids \<Longrightarrow> q < length st \<Longrightarrow> ps_pattern_id (st ! q) = Some pid \<longleftrightarrow>
     (\<exists>ts. ids pid = Some ts \<and> path edge st 0 ts = Some q)"
  unfolding names_ok_def by blast

lemma names_path: "names_ok st ids \<Longrightarrow> ids pid = Some ts \<Longrightarrow> \<exists>q. path edge st 0 ts = Some q"
  unfolding names_ok_def by blast

lemma names_wf:
  assumes "trie_inv st" "names_ok st ids" "ids pid = Some ts"
  shows "list_all wf_token ts"
proof -
  obtain q where "path edge st 0 ts = Some q" using names_path [OF assms(2,3)] by blast
  then show ?thesis
    using node.path_keys [of st 0 ts q] assms(1) trie_root [OF assms(1)] by (simp add: trie_inv_def)
qed

lemma names_final:
  assumes "trie_inv st" "names_ok st ids" "ids pid = Some ts" "path edge st 0 ts = Some q"
  shows "ps_pattern_id (st ! q) = Some pid"
  using names_iff [OF assms(2) trie_path_bound [OF assms(1) trie_root [OF assms(1)] assms(4)]] assms(3,4) by blast

lemma names_inject:
  assumes "trie_inv st" "names_ok st ids" "ids pid = Some ts" "ids pid' = Some ts"
  shows "pid = pid'"
proof -
  obtain q where "path edge st 0 ts = Some q" using names_path [OF assms(2,3)] by blast
  then show ?thesis using names_final [OF assms(1,2)] assms(3,4) by (metis option.inject)
qed

lemma names_remove:
  assumes inv: "trie_inv st" and names: "names_ok st ids" and ids: "ids pid = Some ts"
    and final: "path edge st 0 ts = Some f"
    and pr: "pruned S (st[f := (st ! f)\<lparr>ps_pattern_id := None\<rparr>]) st'"
  shows "names_ok st' (ids(pid := None))"
proof -
  let ?st = "st[f := (st ! f)\<lparr>ps_pattern_id := None\<rparr>]"
  have len: "length st' = length st" using pruned_length [OF pr] by simp
  have root: "0 < length st" using trie_root [OF inv] .
  have f: "f < length st" using trie_path_bound [OF inv root final] .
  have id: "ps_pattern_id (st' ! q) = (if q = f then None else ps_pattern_id (st ! q))" if "q < length st" for q
    using pruned_id [OF pr, of q] that f by (simp add: nth_list_update)
  have down: "path edge st 0 us = Some q" if "path edge st' 0 us = Some q" for us q
    using prunedD(3) [OF pr that] by (simp add: set_id_path [OF inv root])
  have up: "path edge st' 0 us = Some q"
    if u: "ids p = Some us" "path edge st 0 us = Some q" and ne: "p \<noteq> pid" for p us q
  proof -
    have q: "q < length st" using trie_path_bound [OF inv root u(2)] .
    have "q \<noteq> f" using names_final [OF inv names u] names_final [OF inv names ids final] ne by auto
    then have "ps_pattern_id (?st ! q) \<noteq> None" using names_final [OF inv names u] by simp
    then show ?thesis
      using prunedD(4) [OF pr, of us q] u(2) by (simp add: set_id_path [OF inv root])
  qed
  show ?thesis
    unfolding names_ok_def
  proof (intro conjI allI impI)
    fix q p
    assume "q < length st'"
    then have q: "q < length st" using len by simp
    show "ps_pattern_id (st' ! q) = Some p \<longleftrightarrow> (\<exists>us. (ids(pid := None)) p = Some us \<and> path edge st' 0 us = Some q)"
    proof
      assume "ps_pattern_id (st' ! q) = Some p"
      then have qf: "q \<noteq> f" and "ps_pattern_id (st ! q) = Some p" using id [OF q] by (auto split: if_splits)
      then obtain us where us: "ids p = Some us" "path edge st 0 us = Some q" using names_iff [OF names q] by blast
      have "p \<noteq> pid" using us ids final qf by auto
      then show "\<exists>us. (ids(pid := None)) p = Some us \<and> path edge st' 0 us = Some q" using us up by auto
    next
      assume "\<exists>us. (ids(pid := None)) p = Some us \<and> path edge st' 0 us = Some q"
      then obtain us where us: "p \<noteq> pid" "ids p = Some us" "path edge st' 0 us = Some q" by (auto split: if_splits)
      have p: "ps_pattern_id (st ! q) = Some p" using names_final [OF inv names us(2) down [OF us(3)]] .
      then have "q \<noteq> f" using names_final [OF inv names ids final] us(1) by auto
      then show "ps_pattern_id (st' ! q) = Some p" using id [OF q] p by simp
    qed
  next
    fix p us
    assume "(ids(pid := None)) p = Some us"
    then have "p \<noteq> pid" "ids p = Some us" by (auto split: if_splits)
    then show "path edge st' 0 us \<noteq> None" using names_path [OF names] up by fastforce
  qed
qed

section \<open>Insertion along a path\<close>

text \<open>New nodes carry no identifier, old paths stay, and no new path leads to an old node.\<close>

definition extended :: "policy_state list \<Rightarrow> policy_state list \<Rightarrow> bool" where
  "extended st st' \<longleftrightarrow> trie_inv st' \<and> length st \<le> length st' \<and>
     (\<forall>q<length st'. ps_pattern_id (st' ! q) = (if q < length st then ps_pattern_id (st ! q) else None)) \<and>
     (\<forall>ls q. path edge st 0 ls = Some q \<longrightarrow> path edge st' 0 ls = Some q) \<and>
     (\<forall>ls q. path edge st' 0 ls = Some q \<longrightarrow> q < length st \<longrightarrow> path edge st 0 ls = Some q)"

lemma extendedD:
  assumes "extended st st'"
  shows "trie_inv st'" "length st \<le> length st'"
    "q < length st' \<Longrightarrow> ps_pattern_id (st' ! q) = (if q < length st then ps_pattern_id (st ! q) else None)"
    "path edge st 0 ls = Some q \<Longrightarrow> path edge st' 0 ls = Some q"
    "path edge st' 0 ls = Some q \<Longrightarrow> q < length st \<Longrightarrow> path edge st 0 ls = Some q"
  using assms unfolding extended_def by blast+

lemma extended_refl: "trie_inv st \<Longrightarrow> extended st st"
  by (simp add: extended_def)

lemma extended_trans:
  assumes "extended st st'" "extended st' st''"
  shows "extended st st''"
  unfolding extended_def
proof (intro conjI allI impI)
  show "trie_inv st''" "length st \<le> length st''"
    using extendedD(1,2) [OF assms(1)] extendedD(1,2) [OF assms(2)] by simp_all
  fix q ls
  show "q < length st'' \<Longrightarrow> ps_pattern_id (st'' ! q) = (if q < length st then ps_pattern_id (st ! q) else None)"
    using extendedD(2,3) [OF assms(1)] extendedD(3) [OF assms(2)] by auto
  show "path edge st 0 ls = Some q \<Longrightarrow> path edge st'' 0 ls = Some q"
    using extendedD(4) [OF assms(1)] extendedD(4) [OF assms(2)] by blast
  show "path edge st'' 0 ls = Some q \<Longrightarrow> q < length st \<Longrightarrow> path edge st 0 ls = Some q"
    using extendedD(2,5) [OF assms(1)] extendedD(5) [OF assms(2)] by simp
qed

lemma names_extended:
  assumes "trie_inv st" "names_ok st ids" "extended st st'"
  shows "names_ok st' ids"
  unfolding names_ok_def
proof (intro conjI allI impI)
  note E = extendedD [OF assms(3)]
  fix q pid
  assume q: "q < length st'"
  show "ps_pattern_id (st' ! q) = Some pid \<longleftrightarrow> (\<exists>ts. ids pid = Some ts \<and> path edge st' 0 ts = Some q)"
  proof
    assume "ps_pattern_id (st' ! q) = Some pid"
    then have "q < length st" "ps_pattern_id (st ! q) = Some pid" using E(3) [OF q] by (auto split: if_splits)
    then show "\<exists>ts. ids pid = Some ts \<and> path edge st' 0 ts = Some q" using names_iff [OF assms(2)] E(4) by blast
  next
    assume "\<exists>ts. ids pid = Some ts \<and> path edge st' 0 ts = Some q"
    then obtain ts where ts: "ids pid = Some ts" "path edge st' 0 ts = Some q" by blast
    then obtain r where r: "path edge st 0 ts = Some r" using names_path [OF assms(2)] by blast
    then have "r = q" using E(4) ts(2) by fastforce
    then show "ps_pattern_id (st' ! q) = Some pid"
      using names_final [OF assms(1,2) ts(1) r] trie_path_bound [OF assms(1) trie_root [OF assms(1)] r] E(3) [OF q]
      by simp
  qed
next
  fix pid ts
  assume "ids pid = Some ts"
  then show "path edge st' 0 ts \<noteq> None" using names_path [OF assms(2)] extendedD(4) [OF assms(3)] by fastforce
qed

lemma empty_state_id: "ps_pattern_id empty_state = None"
  by (simp add: empty_state_def)

lemma grow_state:
  "q < length st \<Longrightarrow> (st @ [empty_state])[q := n] = grow empty_state st q n"
  by (simp add: grow_def)

lemma insert_step:
  assumes "trie_inv st" "q < length st" "wf_token t" "edge (st ! q) t = None"
    and ins: "insert_node_child (st ! q) t (length st) = Some n"
  shows "extended st (grow empty_state st q n)"
    and "edge n t = Some (length st)"
    and "path edge st 0 pre = Some q \<Longrightarrow> path edge (grow empty_state st q n) 0 (ls @ [k]) = Some r \<Longrightarrow>
      path edge st 0 (ls @ [k]) = Some r \<or> k = t \<and> ls = pre"
proof -
  let ?st = "grow empty_state st q n"
  have upd: "edge n = (edge (st ! q))(t \<mapsto> length st)" and ok: "node_inv n" and pid: "ps_pattern_id n = ps_pattern_id (st ! q)"
    using insert_node_child_law [OF trie_node [OF assms(1,2)] assms(3,4) ins] by simp_all
  show "edge n t = Some (length st)" using upd by simp
  note gp = node.grow_path [OF trie_tree [OF assms(1)] assms(2,4) upd trie_root [OF assms(1)]]
  show "path edge ?st 0 (ls @ [k]) = Some r \<Longrightarrow> path edge st 0 pre = Some q \<Longrightarrow>
      path edge st 0 (ls @ [k]) = Some r \<or> k = t \<and> ls = pre"
    using path_unique [OF trie_tree [OF assms(1)], of ls q pre] by (auto simp: gp split: if_splits)
  show "extended st ?st"
    unfolding extended_def
  proof (intro conjI allI impI)
    show "trie_inv ?st"
      using node.grow_ok [OF _ assms(2) ok] node.grow_tree [OF trie_tree [OF assms(1)] assms(2,4) upd] assms(1)
      by (simp add: trie_inv_def)
    fix r ls
    show "r < length ?st \<Longrightarrow> ps_pattern_id (?st ! r) = (if r < length st then ps_pattern_id (st ! r) else None)"
      using pid assms(2)
      by (auto simp: node.grow_nth(1) [OF assms(2)] node.grow_nth(2) [OF assms(2)] less_Suc_eq empty_state_id)
    show "path edge st 0 ls = Some r \<Longrightarrow> path edge ?st 0 ls = Some r"
      using path_last [of ls t edge st 0 q] assms(4) by (auto simp: gp)
    show "path edge ?st 0 ls = Some r \<Longrightarrow> r < length st \<Longrightarrow> path edge st 0 ls = Some r"
      by (auto simp: gp split: if_splits)
  qed simp
qed

section \<open>Filters know every key of the trie\<close>

definition keys_at :: "policy_state list \<Rightarrow> nat \<Rightarrow> st_token set" where
  "keys_at st d = {k. \<exists>ls r. length ls = d \<and> path edge st 0 (ls @ [k]) = Some r}"

text \<open>A level is disabled, or its filter and its mask know every key.\<close>

definition level_ok :: "'f filter_ops \<Rightarrow> bool \<Rightarrow> 'f option \<Rightarrow> type_mask \<Rightarrow> st_token set \<Rightarrow> bool" where
  "level_ok F compound flt wild K \<longleftrightarrow> compound \<or>
     (case flt of None \<Rightarrow> True
      | Some f \<Rightarrow> (\<forall>k\<in>K. \<not> tk_compound k \<and>
          (if tk_type k = ST_TYPE_LITERAL then vf_lookup F f (filter_hash_fnv1a (tk_text k))
           else bit wild (type_index (tk_type k)))))"

definition levels_ok :: "'f filter_ops \<Rightarrow> 'f st_policy \<Rightarrow> (nat \<Rightarrow> st_token set) \<Rightarrow> bool" where
  "levels_ok F p K \<longleftrightarrow>
     length (p_filters p) = FILTER_POS_LEVELS \<and> length (p_masks p) = FILTER_POS_LEVELS \<and>
     length (p_compound p) = FILTER_POS_LEVELS \<and> length (p_built p) = FILTER_POS_LEVELS \<and>
     (\<forall>d<FILTER_POS_LEVELS. level_ok F (p_compound p ! d) (p_filters p ! d) (p_masks p ! d) (K d))"

lemma level_ok_mono: "level_ok F c f m K \<Longrightarrow> K' \<subseteq> K \<Longrightarrow> level_ok F c f m K'"
  by (auto simp: level_ok_def split: option.splits)

lemma levels_ok_mono: "levels_ok F p K \<Longrightarrow> (\<And>d. K' d \<subseteq> K d) \<Longrightarrow> levels_ok F p K'"
  by (auto simp: levels_ok_def intro: level_ok_mono)

lemma levels_ok_cong:
  "p_filters p' = p_filters p \<Longrightarrow> p_masks p' = p_masks p \<Longrightarrow> p_compound p' = p_compound p \<Longrightarrow>
   p_built p' = p_built p \<Longrightarrow> levels_ok F p' K = levels_ok F p K"
  by (simp add: levels_ok_def)

lemma level_ok_insert_literal:
  assumes "no_false_negatives F" "level_ok F c (Some f) m K" "\<not> tk_compound t" "tk_type t = ST_TYPE_LITERAL"
    "vf_insert F f (filter_hash_fnv1a (tk_text t)) = Some f'"
  shows "level_ok F c (Some f') m (insert t K)"
  using assms by (auto simp: level_ok_def no_false_negatives_def)

lemma level_ok_insert_wildcard:
  "level_ok F c f m K \<Longrightarrow> \<not> tk_compound t \<Longrightarrow> tk_type t \<noteq> ST_TYPE_LITERAL \<Longrightarrow>
   level_ok F c f (m OR type_bit (tk_type t)) (insert t K)"
  by (auto simp: level_ok_def bit_or_iff split: option.splits)

lemma note_child_levels:
  assumes "no_false_negatives F" "levels_ok F p K"
  shows "levels_ok F (fst (note_child F i t p)) (K(i := insert t (K i)))"
proof (cases "i < FILTER_POS_LEVELS")
  case True
  then have lvl: "level_ok F (p_compound p ! i) (p_filters p ! i) (p_masks p ! i) (K i)"
    using assms(2) by (simp add: levels_ok_def)
  show ?thesis
  proof (cases "tk_compound t \<or> tk_type t \<noteq> ST_TYPE_LITERAL")
    case other: True
    then show ?thesis
      using assms(2) True level_ok_insert_wildcard [OF lvl, of t]
      by (auto simp: note_child_def levels_ok_def nth_list_update level_ok_def [of _ True])
  next
    case False
    then show ?thesis
      using assms(2) True lvl level_ok_insert_literal [OF assms(1), of "p_compound p ! i" _ "p_masks p ! i" "K i" t]
      by (auto simp: note_child_def levels_ok_def nth_list_update level_ok_def [of _ _ None] split: option.splits)
  qed
next
  case False
  then show ?thesis using assms(2) by (auto simp: note_child_def levels_ok_def)
qed

lemma note_child_fields [simp]:
  "p_states (fst (note_child F i t p)) = p_states p" "p_entries (fst (note_child F i t p)) = p_entries p"
  "p_buckets (fst (note_child F i t p)) = p_buckets p"
  "p_pattern_count (fst (note_child F i t p)) = p_pattern_count p"
  "p_epoch (fst (note_child F i t p)) = p_epoch p" "p_built (fst (note_child F i t p)) = p_built p"
  "p_stats (fst (note_child F i t p)) = p_stats p"
  by (simp_all add: note_child_def split: option.splits)

section \<open>The insertion loop\<close>

lemma insert_child_cases:
  assumes "trie_inv (p_states p)" "q < length (p_states p)" "wf_token t" "edge (p_states p ! q) t = None"
    "find_child (p_states p ! q) t = None"
  obtains (full) "insert_node_child (p_states p ! q) t (length (p_states p)) = None"
      "insert_path F p q i (t # ts) = (None, p\<lparr>p_states := p_states p @ [empty_state]\<rparr>)"
    | (step) n p2 rb where "insert_node_child (p_states p ! q) t (length (p_states p)) = Some n"
      "(p2, rb) = note_child F i t (p\<lparr>p_states := grow empty_state (p_states p) q n,
          p_children_count := p_children_count p + (ps_children_alloc n - ps_children_alloc (p_states p ! q)) + 1\<rparr>)"
      "insert_path F p q i (t # ts) =
        (case insert_path F p2 (length (p_states p)) (i + 1) ts of
           (None, p3) \<Rightarrow> (None, p3)
         | (Some (final, rb'), p3) \<Rightarrow> (Some (final, rb \<or> rb'), p3))"
      "p_states p2 = grow empty_state (p_states p) q n"
proof (cases "insert_node_child (p_states p ! q) t (length (p_states p))")
  case None
  then show thesis using assms(2,5) by (intro full) (simp_all add: insert_child_def nth_append)
next
  case (Some n)
  let ?p1 = "p\<lparr>p_states := grow empty_state (p_states p) q n,
      p_children_count := p_children_count p + (ps_children_alloc n - ps_children_alloc (p_states p ! q)) + 1\<rparr>"
  obtain p2 rb where nc: "note_child F i t ?p1 = (p2, rb)" by fastforce
  have "insert_child F q (p\<lparr>p_states := p_states p @ [empty_state]\<rparr>) t (length (p_states p)) i = Some (p2, rb)"
    using Some assms(2) nc by (simp add: insert_child_def nth_append grow_state)
  then show thesis
    using Some assms(5) nc note_child_fields(1) [of F i t ?p1]
    by (intro step [of n p2 rb]) (simp_all add: Let_def)
qed

text \<open>The fields the loop leaves alone.\<close>

definition same_registry :: "'f st_policy \<Rightarrow> 'f st_policy \<Rightarrow> bool" where
  "same_registry p p' \<longleftrightarrow> p_entries p' = p_entries p \<and> p_buckets p' = p_buckets p \<and>
     p_pattern_count p' = p_pattern_count p \<and> p_epoch p' = p_epoch p \<and> p_built p' = p_built p \<and>
     p_stats p' = p_stats p"

lemma keys_at_grow:
  assumes "trie_inv st" "q < length st" "wf_token t" "edge (st ! q) t = None"
    "insert_node_child (st ! q) t (length st) = Some n" "path edge st 0 pre = Some q"
  shows "keys_at (grow empty_state st q n) d \<subseteq> ((keys_at st)(length pre := insert t (keys_at st (length pre)))) d"
proof
  fix k
  assume "k \<in> keys_at (grow empty_state st q n) d"
  then obtain ls r where ls: "length ls = d" "path edge (grow empty_state st q n) 0 (ls @ [k]) = Some r"
    by (auto simp: keys_at_def)
  from insert_step(3) [OF assms ls(2)]
  show "k \<in> ((keys_at st)(length pre := insert t (keys_at st (length pre)))) d"
    using ls(1) by (auto simp: keys_at_def)
qed

lemma insert_path_extends:
  assumes "no_false_negatives F" "trie_inv (p_states p)" "levels_ok F p (keys_at (p_states p))"
    "path edge (p_states p) 0 pre = Some q" "list_all wf_token ts"
    "insert_path F p q (length pre) ts = (res, p')" "res \<noteq> None"
  shows "extended (p_states p) (p_states p') \<and> levels_ok F p' (keys_at (p_states p')) \<and> same_registry p p' \<and>
    path edge (p_states p') 0 (pre @ ts) = Some (fst (the res))"
  using assms(2-7)
proof (induction ts arbitrary: p q pre res p')
  case Nil
  then show ?case by (auto simp: extended_refl same_registry_def)
next
  case (Cons t ts)
  let ?st = "p_states p"
  have wf: "wf_token t" using Cons.prems(4) by simp
  have q: "q < length ?st" using trie_path_bound [OF Cons.prems(1) trie_root [OF Cons.prems(1)] Cons.prems(3)] .
  from Cons.prems(1) q wf show ?case
  proof (cases rule: find_child_cases)
    case (child c)
    then have "path edge ?st 0 (pre @ [t]) = Some (ce_target c)" using Cons.prems(3) by (simp add: path_snoc)
    then show ?thesis
      using Cons.IH [OF Cons.prems(1,2), of "pre @ [t]" "ce_target c" res p'] Cons.prems(4-6) child by simp
  next
    case none
    from Cons.prems(1) q wf none(2,1) show ?thesis
    proof (cases rule: insert_child_cases [where F = F and i = "length pre" and ts = ts])
      case full
      then show ?thesis using Cons.prems(5,6) by simp
    next
      case (step n p2 rb)
      let ?st2 = "grow empty_state ?st q n"
      let ?p1 = "p\<lparr>p_states := ?st2, p_children_count := p_children_count p +
          (ps_children_alloc n - ps_children_alloc (p_states p ! q)) + 1\<rparr>"
      have p2: "p2 = fst (note_child F (length pre) t ?p1)" using step(2) by (metis fst_conv)
      have st2: "p_states p2 = ?st2" by (simp add: p2)
      note ins = insert_step [OF Cons.prems(1) q wf none(2) step(1)]
      have "levels_ok F ?p1 (keys_at ?st)" using Cons.prems(2) by (simp cong: levels_ok_cong)
      then have "levels_ok F p2 ((keys_at ?st)(length pre := insert t (keys_at ?st (length pre))))"
        unfolding p2 by (rule note_child_levels [OF assms(1)])
      then have lv: "levels_ok F p2 (keys_at (p_states p2))"
        unfolding st2 using keys_at_grow [OF Cons.prems(1) q wf none(2) step(1) Cons.prems(3)] by (rule levels_ok_mono)
      have path2: "path edge (p_states p2) 0 (pre @ [t]) = Some (length ?st)"
        using extendedD(4) [OF ins(1) Cons.prems(3)] node.grow_nth(1) [OF q q, of n] ins(2) st2 by (simp add: path_snoc)
      obtain res3 p3 where r3: "insert_path F p2 (length ?st) (Suc (length pre)) ts = (res3, p3)" by fastforce
      then have res: "res = map_option (\<lambda>(final, rb'). (final, rb \<or> rb')) res3" "p' = p3"
        using step(3) Cons.prems(5) by (auto split: option.splits)
      then have "res3 \<noteq> None" using Cons.prems(6) by auto
      then have IH: "extended (p_states p2) (p_states p3) \<and> levels_ok F p3 (keys_at (p_states p3)) \<and>
          same_registry p2 p3 \<and> path edge (p_states p3) 0 ((pre @ [t]) @ ts) = Some (fst (the res3))"
        using Cons.IH [of p2 "pre @ [t]" "length ?st" res3 p3] extendedD(1) [OF ins(1)] lv path2 Cons.prems(4) r3 st2
        by simp
      then have "extended ?st (p_states p')" using extended_trans [OF ins(1)] st2 res(2) by simp
      moreover have "same_registry p p'" using IH res(2) by (simp add: same_registry_def p2)
      moreover have "fst (the res) = fst (the res3)" using \<open>res3 \<noteq> None\<close> res(1) by auto
      ultimately show ?thesis using IH res(2) by simp
    qed
  qed
qed

lemma find_child_empty [simp]: "find_child empty_state t = None"
  by (simp add: find_child_def find_literal_child_def find_exact_wildcard_child_def empty_state_def)

lemma children_slots_empty [simp]: "children_slots empty_state = Some 4"
  by (simp add: children_slots_def empty_state_def)

text \<open>Below a new node the insertion cannot fail.\<close>

lemma insert_path_fresh:
  assumes "trie_inv (p_states p)" "q < length (p_states p)" "p_states p ! q = empty_state" "list_all wf_token ts"
  shows "fst (insert_path F p q i ts) \<noteq> None"
  using assms
proof (induction ts arbitrary: p q i)
  case (Cons t ts)
  let ?st = "p_states p"
  have wf: "wf_token t" using Cons.prems(4) by simp
  have none: "edge (?st ! q) t = None" "find_child (?st ! q) t = None" using Cons.prems(3) by simp_all
  from Cons.prems(1,2) wf none show ?case
  proof (cases rule: insert_child_cases [where F = F and i = i and ts = ts])
    case full
    then show ?thesis
      using insert_node_child_None [OF trie_node [OF Cons.prems(1,2)] wf none(1)] Cons.prems(3)
        children_slots_empty by (metis option.distinct(1))
  next
    case (step n p2 rb)
    note st2 = step(4)
    have "trie_inv (p_states p2)"
      using extendedD(1) [OF insert_step(1) [OF Cons.prems(1,2) wf none(1) step(1)]] st2 by simp
    then have "fst (insert_path F p2 (length ?st) (i + 1) ts) \<noteq> None"
      using Cons.IH [of p2 "length ?st" "i + 1"] Cons.prems(4) st2 node.grow_nth(2) [OF Cons.prems(2)] by simp
    then show ?thesis unfolding step(3) by (auto split: option.splits prod.splits)
  qed
qed simp

lemma insert_path_succeeds:
  assumes "trie_inv (p_states p)" "q < length (p_states p)" "list_all wf_token ts"
    "probe_path (p_states p) q ts = (probe, missing)" "missing \<noteq> [] \<longrightarrow> children_slots (p_states p ! probe) \<noteq> None"
  shows "fst (insert_path F p q i ts) \<noteq> None"
  using assms(2-5)
proof (induction ts arbitrary: q i)
  case (Cons t ts)
  let ?st = "p_states p"
  have wf: "wf_token t" using Cons.prems(2) by simp
  from assms(1) Cons.prems(1) wf show ?case
  proof (cases rule: find_child_cases)
    case (child c)
    then show ?thesis using Cons.IH [OF child(3)] Cons.prems by simp
  next
    case none
    from assms(1) Cons.prems(1) wf none(2,1) show ?thesis
    proof (cases rule: insert_child_cases [where F = F and i = i and ts = ts])
      case full
      then show ?thesis
        using insert_node_child_None [OF trie_node [OF assms(1) Cons.prems(1)] wf none(2)] Cons.prems(3,4) none(1)
        by auto
    next
      case (step n p2 rb)
      note st2 = step(4)
      have "trie_inv (p_states p2)"
        using extendedD(1) [OF insert_step(1) [OF assms(1) Cons.prems(1) wf none(2) step(1)]] st2 by simp
      then have "fst (insert_path F p2 (length ?st) (i + 1) ts) \<noteq> None"
        using Cons.prems(2) st2 node.grow_nth(2) [OF Cons.prems(1)] by (intro insert_path_fresh) simp_all
      then show ?thesis unfolding step(3) by (auto split: option.splits prod.splits)
    qed
  qed
qed simp

end
