(* ===== verification/Registry.thy ===== *)
theory Registry imports Trie_Updates "HOL-Library.Multiset" begin

text \<open>
  The invariant of the policy object: trie, registry, length buckets and filters agree, and no
  pattern subsumes another. Every operation preserves it, has the promised effect on the set of
  patterns, and changes nothing when it fails.
\<close>

section \<open>The invariant\<close>

definition policy_ids :: "'f st_policy \<Rightarrow> nat \<Rightarrow> st_token list option" where
  "policy_ids p pid = (if pid < length (p_entries p) then entry_tokens p pid else None)"

definition policy_patterns :: "'f st_policy \<Rightarrow> st_token list set" where
  "policy_patterns p = {ts. \<exists>pid. policy_ids p pid = Some ts}"

definition pattern_code :: "st_token list \<Rightarrow> bytes" where
  "pattern_code ts = concat (map record_of ts)"

definition pattern_ok :: "st_token list \<Rightarrow> bool" where
  "pattern_ok ts \<longleftrightarrow> ts \<noteq> [] \<and> length ts \<le> ST_MAX_CMD_TOKENS \<and> list_all wf_token ts \<and>
     length (pattern_code ts) < ST_MAX_NETPATTERN_LEN \<and>
     st_pattern_token_type_allowed (ts ! 0) 0 (tk_type (ts ! 0))"

definition entry_ok :: "pattern_entry \<Rightarrow> bool" where
  "entry_ok e \<longleftrightarrow>
     (if pe_active e
      then \<exists>ts. pe_tokens e = Some ts \<and> pattern_ok ts \<and> pe_pattern e = Some (pattern_code ts)
      else pe_tokens e = None \<and> pe_pattern e = None)"

text \<open>The bucket of length \<open>n\<close>: the active patterns of that length, once each, and at least as
  many explicit wildcard patterns counted as there are.\<close>

definition bucket_ok :: "(nat \<Rightarrow> st_token list option) \<Rightarrow> nat \<Rightarrow> len_bucket \<Rightarrow> bool" where
  "bucket_ok ids n b \<longleftrightarrow> distinct (lb_indices b) \<and>
     (\<forall>pid. pid \<in> set (lb_indices b) \<longleftrightarrow> (\<exists>ts. ids pid = Some ts \<and> length ts = n)) \<and>
     length (filter (\<lambda>pid. pattern_has_explicit_wildcard (the (ids pid))) (lb_indices b)) \<le> lb_explicit b"

definition buckets_ok :: "(nat \<Rightarrow> st_token list option) \<Rightarrow> len_bucket list \<Rightarrow> bool" where
  "buckets_ok ids bs \<longleftrightarrow> length bs = ST_MAX_CMD_TOKENS + 1 \<and> (\<forall>n<length bs. bucket_ok ids n (bs ! n))"

definition core_inv :: "'f filter_ops \<Rightarrow> 'f st_policy \<Rightarrow> bool" where
  "core_inv F p \<longleftrightarrow> trie_inv (p_states p) \<and> names_ok (p_states p) (policy_ids p) \<and>
     list_all entry_ok (p_entries p) \<and> length (p_entries p) \<le> ST_MAX_POLICY_PATTERNS \<and>
     p_pattern_count p = length (filter pe_active (p_entries p)) \<and>
     buckets_ok (policy_ids p) (p_buckets p) \<and> levels_ok F p (keys_at (p_states p))"

definition antichain :: "(nat \<Rightarrow> st_token list option) \<Rightarrow> bool" where
  "antichain ids \<longleftrightarrow>
     (\<forall>i j ts us. ids i = Some ts \<longrightarrow> ids j = Some us \<longrightarrow> pattern_subsumes ts us \<longrightarrow> i = j)"

definition policy_inv :: "'f filter_ops \<Rightarrow> 'f st_policy \<Rightarrow> bool" where
  "policy_inv F p \<longleftrightarrow> core_inv F p \<and> antichain (policy_ids p)"

lemma core_invD:
  assumes "core_inv F p"
  shows "trie_inv (p_states p)" "names_ok (p_states p) (policy_ids p)" "list_all entry_ok (p_entries p)"
    "length (p_entries p) \<le> ST_MAX_POLICY_PATTERNS"
    "p_pattern_count p = length (filter pe_active (p_entries p))"
    "buckets_ok (policy_ids p) (p_buckets p)" "levels_ok F p (keys_at (p_states p))"
  using assms unfolding core_inv_def by blast+

lemma policy_ids_cong: "p_entries p' = p_entries p \<Longrightarrow> policy_ids p' = policy_ids p"
  by (simp add: policy_ids_def entry_tokens_def fun_eq_iff)

lemma policy_ids_entry:
  assumes "list_all entry_ok (p_entries p)" "policy_ids p pid = Some ts"
  shows "pid < length (p_entries p) \<and> pe_active (p_entries p ! pid) \<and> pe_tokens (p_entries p ! pid) = Some ts \<and>
    pattern_ok ts \<and> pe_pattern (p_entries p ! pid) = Some (pattern_code ts)"
  using assms by (auto simp: policy_ids_def entry_tokens_def Let_def list_all_length entry_ok_def split: if_splits)

lemma policy_ids_None:
  assumes "list_all entry_ok (p_entries p)"
  shows "policy_ids p pid = None \<longleftrightarrow> pid \<ge> length (p_entries p) \<or> \<not> pe_active (p_entries p ! pid)"
proof (cases "pid < length (p_entries p)")
  case True
  then have "entry_ok (p_entries p ! pid)" using assms by (simp add: list_all_length)
  then show ?thesis
    using True by (auto simp: policy_ids_def entry_tokens_def Let_def entry_ok_def split: if_splits)
qed (simp add: policy_ids_def)

lemma antichain_mono: "antichain ids \<Longrightarrow> (\<And>pid ts. ids' pid = Some ts \<Longrightarrow> ids pid = Some ts) \<Longrightarrow> antichain ids'"
  unfolding antichain_def by meson

section \<open>The empty policy\<close>

lemma keys_at_new: "keys_at [empty_state] d = {}"
proof -
  have "path edge [empty_state] 0 (ls @ [k]) \<noteq> Some r" for ls k r
    by (cases ls) simp_all
  then show ?thesis by (auto simp: keys_at_def)
qed

lemma levels_disabled:
  "length (p_masks p) = FILTER_POS_LEVELS \<Longrightarrow> length (p_compound p) = FILTER_POS_LEVELS \<Longrightarrow>
   length (p_built p) = FILTER_POS_LEVELS \<Longrightarrow> p_filters p = replicate FILTER_POS_LEVELS None \<Longrightarrow> levels_ok F p K"
  by (simp add: levels_ok_def level_ok_def)

lemma names_new: "names_ok [empty_state] (\<lambda>_. None)"
  by (simp add: names_ok_def empty_state_id)

lemma core_inv_fresh:
  assumes "p_states p = [empty_state]" "p_entries p = []" "p_pattern_count p = 0"
    "p_filters p = replicate FILTER_POS_LEVELS None" "length (p_masks p) = FILTER_POS_LEVELS"
    "length (p_compound p) = FILTER_POS_LEVELS" "length (p_built p) = FILTER_POS_LEVELS"
    "length (p_buckets p) = ST_MAX_CMD_TOKENS + 1" "\<forall>b\<in>set (p_buckets p). lb_indices b = []"
  shows "policy_inv F p"
proof -
  have ids: "policy_ids p = (\<lambda>_. None)" using assms(2) by (simp add: policy_ids_def fun_eq_iff)
  have "buckets_ok (\<lambda>_. None) (p_buckets p)"
    using assms(8,9) by (auto simp: buckets_ok_def bucket_ok_def)
  then show ?thesis
    using assms levels_disabled [of p F] names_new trie_inv_new
    by (simp add: policy_inv_def core_inv_def antichain_def ids)
qed

lemma policy_inv_new: "policy_inv F st_policy_new"
  by (rule core_inv_fresh) (simp_all add: st_policy_new_def empty_bucket_def)

lemma policy_inv_clear: "policy_inv F p \<Longrightarrow> policy_inv F (snd (st_policy_clear p))"
  by (rule core_inv_fresh) (auto simp: st_policy_clear_def policy_inv_def core_inv_def buckets_ok_def)

section \<open>Removal\<close>

lemma find_index_first: "find_index P xs = Some i \<Longrightarrow> j < i \<Longrightarrow> \<not> P (xs ! j)"
proof (induction xs arbitrary: i j)
  case (Cons x xs)
  then show ?case by (cases j) (auto split: if_splits)
qed simp

lemma mset_last_swap:
  assumes "i < length xs"
  shows "mset xs = add_mset (xs ! i) (mset (butlast (xs[i := last xs])))"
proof (cases xs rule: rev_cases)
  case (snoc ys y)
  show ?thesis
  proof (cases "i = length ys")
    case True
    then show ?thesis using snoc by simp
  next
    case False
    then have "i < length ys" using assms snoc by simp
    then show ?thesis using snoc mset_update [of i ys y] nth_mem_mset [of i ys]
      by (simp add: list_update_append nth_append)
  qed
qed (use assms in simp)

lemma len_bucket_remove_mset:
  assumes "distinct (lb_indices b)" "pid \<in> set (lb_indices b)"
  shows "mset (lb_indices b) = add_mset pid (mset (lb_indices (len_bucket_remove b pid)))"
    and "lb_explicit (len_bucket_remove b pid) = lb_explicit b"
proof -
  obtain i where i: "find_index (\<lambda>x. x = pid) (lb_indices b) = Some i"
    using assms(2) by (cases "find_index (\<lambda>x. x = pid) (lb_indices b)") (auto simp: find_index_None list_all_iff)
  note find_index_Some [OF i]
  then show "mset (lb_indices b) = add_mset pid (mset (lb_indices (len_bucket_remove b pid)))"
    using mset_last_swap [of i "lb_indices b"] by (simp add: len_bucket_remove_def i)
  show "lb_explicit (len_bucket_remove b pid) = lb_explicit b"
    by (simp add: len_bucket_remove_def i)
qed

lemma length_filter_mset: "length (filter P xs) = size (filter_mset P (mset xs))"
  by (simp flip: mset_filter)

lemma bucket_remove_ok:
  assumes "bucket_ok ids n b" "ids pid = Some ts" "length ts = n"
  shows "bucket_ok (ids(pid := None)) n (len_bucket_remove
    (if pattern_has_explicit_wildcard ts then b\<lparr>lb_explicit := lb_explicit b - 1\<rparr> else b) pid)"
proof -
  let ?b = "if pattern_has_explicit_wildcard ts then b\<lparr>lb_explicit := lb_explicit b - 1\<rparr> else b"
  let ?b' = "len_bucket_remove ?b pid"
  let ?wild = "\<lambda>ids pid. pattern_has_explicit_wildcard (the (ids pid))"
  have b: "lb_indices ?b = lb_indices b" by simp
  have dist: "distinct (lb_indices b)" and mem: "pid \<in> set (lb_indices b)"
    using assms by (auto simp: bucket_ok_def)
  have m: "mset (lb_indices b) = add_mset pid (mset (lb_indices ?b'))"
    using len_bucket_remove_mset(1) [of ?b pid] dist mem unfolding b by simp
  have expl: "lb_explicit ?b' = lb_explicit ?b" using len_bucket_remove_mset(2) [of ?b pid] dist mem by simp
  have d': "distinct (pid # lb_indices ?b')" using dist mset_eq_imp_distinct_iff [of "pid # lb_indices ?b'" "lb_indices b"] m by simp
  have set': "set (lb_indices b) = insert pid (set (lb_indices ?b'))"
    using arg_cong [OF m, of set_mset] by simp
  have "length (filter (?wild ids) (lb_indices b)) =
      (if pattern_has_explicit_wildcard ts then 1 else 0) + length (filter (?wild ids) (lb_indices ?b'))"
    using assms(2) unfolding length_filter_mset m by simp
  moreover have "filter (?wild (ids(pid := None))) (lb_indices ?b') = filter (?wild ids) (lb_indices ?b')"
    using d' by (intro filter_cong) auto
  moreover have "length (filter (?wild ids) (lb_indices b)) \<le> lb_explicit b" using assms(1) by (simp add: bucket_ok_def)
  ultimately have "length (filter (?wild (ids(pid := None))) (lb_indices ?b')) \<le> lb_explicit ?b'"
    unfolding expl by auto
  moreover have "p \<in> set (lb_indices ?b') \<longleftrightarrow> (\<exists>us. (ids(pid := None)) p = Some us \<and> length us = n)" for p
  proof (cases "p = pid")
    case False
    then have "p \<in> set (lb_indices ?b') \<longleftrightarrow> p \<in> set (lb_indices b)" using set' by auto
    then show ?thesis using False assms(1) unfolding bucket_ok_def by simp
  qed (use d' in simp)
  ultimately show ?thesis using d' by (simp add: bucket_ok_def)
qed

lemma bucket_other_ok:
  assumes "bucket_ok ids n b" "ids pid = None \<or> length (the (ids pid)) \<noteq> n" "x = None \<or> length (the x) \<noteq> n"
  shows "bucket_ok (ids(pid := x)) n b"
proof -
  have notin: "pid \<notin> set (lb_indices b)" using assms(1,2) by (auto simp: bucket_ok_def)
  then have "filter (\<lambda>q. pattern_has_explicit_wildcard (the ((ids(pid := x)) q))) (lb_indices b) =
      filter (\<lambda>q. pattern_has_explicit_wildcard (the (ids q))) (lb_indices b)"
    by (intro filter_cong) auto
  then show ?thesis using assms notin by (auto simp: bucket_ok_def)
qed

lemma bucket_add_ok:
  assumes "bucket_ok ids n b" "ids pid = None" "length ts = n"
  shows "bucket_ok (ids(pid \<mapsto> ts)) n
    \<lparr>lb_indices = lb_indices b @ [pid],
     lb_explicit = (if pattern_has_explicit_wildcard ts then lb_explicit b + 1 else lb_explicit b)\<rparr>"
proof -
  have notin: "pid \<notin> set (lb_indices b)" using assms(1,2) by (auto simp: bucket_ok_def)
  then have "filter (\<lambda>q. pattern_has_explicit_wildcard (the ((ids(pid \<mapsto> ts)) q))) (lb_indices b) =
      filter (\<lambda>q. pattern_has_explicit_wildcard (the (ids q))) (lb_indices b)"
    by (intro filter_cong) auto
  then show ?thesis using assms notin by (auto simp: bucket_ok_def)
qed

lemma keys_at_sub:
  "(\<And>ls q. path edge st' 0 ls = Some q \<Longrightarrow> path edge st 0 ls = Some q) \<Longrightarrow> keys_at st' d \<subseteq> keys_at st d"
  by (auto simp: keys_at_def)

lemma filter_active_update:
  "i < length es \<Longrightarrow> pe_active (es ! i) \<Longrightarrow> \<not> pe_active e \<Longrightarrow>
   length (filter pe_active es) = Suc (length (filter pe_active (es[i := e])))"
proof (induction es arbitrary: i)
  case (Cons x xs)
  then show ?case by (cases i) auto
qed simp

lemma entry_ok_update: "list_all entry_ok es \<Longrightarrow> entry_ok e \<Longrightarrow> list_all entry_ok (es[i := e])"
  using set_update_subset_insert [of es i e] by (auto simp: list_all_iff)

lemma removal_form:
  assumes core: "core_inv F p" and ids: "policy_ids p pid = Some ts"
  obtains f st steps where "path edge (p_states p) 0 ts = Some f"
    "pruned (set steps) ((p_states p)[f := (p_states p ! f)\<lparr>ps_pattern_id := None\<rparr>]) st"
    "remove_path (p_states p) 0 ts = Some (steps, f)"
    "remove_pattern_by_id_locked p pid = (ST_OK,
       p\<lparr>p_states := st,
         p_buckets := (p_buckets p)[length ts := len_bucket_remove
           (if pattern_has_explicit_wildcard ts
            then (p_buckets p ! length ts)\<lparr>lb_explicit := lb_explicit (p_buckets p ! length ts) - 1\<rparr>
            else p_buckets p ! length ts) pid],
         p_entries := (p_entries p)[pid := \<lparr>pe_pattern = None, pe_tokens = None, pe_active = False\<rparr>],
         p_pattern_count := p_pattern_count p - 1\<rparr>)"
proof -
  note inv = core_invD [OF core]
  note E = policy_ids_entry [OF inv(3) ids]
  let ?st = "p_states p"
  obtain f where f: "path edge ?st 0 ts = Some f" using names_path [OF inv(2) ids] by blast
  have wf: "list_all wf_token ts" using E by (simp add: pattern_ok_def)
  obtain steps where steps: "remove_path ?st 0 ts = Some (steps, f)"
    using remove_path_eq [OF inv(1) trie_root [OF inv(1)] wf] f
    by (cases "remove_path ?st 0 ts") auto
  have final: "ps_pattern_id (?st ! f) = Some pid" using names_final [OF inv(1,2) ids f] .
  let ?unset = "?st[f := (?st ! f)\<lparr>ps_pattern_id := None\<rparr>]"
  have "list_all (\<lambda>(q, t). q < length ?unset \<and> wf_token t) (rev steps)"
    using remove_path_steps [OF inv(1) trie_root [OF inv(1)] wf steps] by (auto simp: list_all_iff)
  then have "pruned (set steps) ?unset (prune_path ?unset (rev steps))"
    using prune_path_pruned [OF set_id_trie [OF inv(1)]] by simp
  moreover have "length ts < length (p_buckets p)"
    using E inv(6) by (simp add: pattern_ok_def buckets_ok_def)
  ultimately show thesis
    using E f steps final
    by (intro that [of f steps "prune_path ?unset (rev steps)"])
       (simp_all add: remove_pattern_by_id_locked_def pattern_reg_deactivate_def Let_def)
qed

lemma policy_ids_deactivate:
  "policy_ids (p\<lparr>p_entries := (p_entries p)[pid := \<lparr>pe_pattern = None, pe_tokens = None, pe_active = False\<rparr>]\<rparr>) =
   (policy_ids p)(pid := None)"
  by (auto simp: policy_ids_def entry_tokens_def fun_eq_iff nth_list_update)

lemma removal_effect:
  assumes core: "core_inv F p" and ids: "policy_ids p pid = Some ts"
    and "remove_pattern_by_id_locked p pid = (e, p')"
  shows "e = ST_OK \<and> core_inv F p' \<and> policy_ids p' = (policy_ids p)(pid := None) \<and>
    length (p_entries p') = length (p_entries p) \<and> p_epoch p' = p_epoch p"
proof -
  note inv = core_invD [OF core]
  note E = policy_ids_entry [OF inv(3) ids]
  let ?st = "p_states p"
  obtain f st steps where f: "path edge ?st 0 ts = Some f"
    and pr: "pruned (set steps) (?st[f := (?st ! f)\<lparr>ps_pattern_id := None\<rparr>]) st"
    and steps: "remove_path ?st 0 ts = Some (steps, f)"
    and form: "remove_pattern_by_id_locked p pid = (ST_OK,
       p\<lparr>p_states := st,
         p_buckets := (p_buckets p)[length ts := len_bucket_remove
           (if pattern_has_explicit_wildcard ts
            then (p_buckets p ! length ts)\<lparr>lb_explicit := lb_explicit (p_buckets p ! length ts) - 1\<rparr>
            else p_buckets p ! length ts) pid],
         p_entries := (p_entries p)[pid := \<lparr>pe_pattern = None, pe_tokens = None, pe_active = False\<rparr>],
         p_pattern_count := p_pattern_count p - 1\<rparr>)"
    using removal_form [OF core ids] by blast
  have ids': "policy_ids p' = (policy_ids p)(pid := None)"
  proof -
    have "p_entries p' = p_entries (p\<lparr>p_entries := (p_entries p)[pid := \<lparr>pe_pattern = None, pe_tokens = None, pe_active = False\<rparr>]\<rparr>)"
      using assms(3) form by auto
    from policy_ids_cong [OF this] show ?thesis by (simp add: policy_ids_deactivate)
  qed
  have down: "path edge ?st 0 ls = Some q" if "path edge st 0 ls = Some q" for ls q
    using prunedD(3) [OF pr that] by (simp add: set_id_path [OF inv(1) trie_root [OF inv(1)]])
  have "names_ok st (policy_ids p')" unfolding ids' using names_remove [OF inv(1,2) ids f pr] .
  moreover have "levels_ok F p (keys_at st)" using inv(7) keys_at_sub [OF down] by (rule levels_ok_mono)
  moreover have "buckets_ok (policy_ids p') (p_buckets p')"
    unfolding buckets_ok_def
  proof (intro conjI allI impI)
    show len: "length (p_buckets p') = ST_MAX_CMD_TOKENS + 1"
      using inv(6) assms(3) form by (auto simp: buckets_ok_def)
    fix n
    assume "n < length (p_buckets p')"
    then have n: "n < length (p_buckets p)" using inv(6) len by (simp add: buckets_ok_def)
    then have b: "bucket_ok (policy_ids p) n (p_buckets p ! n)" using inv(6) by (simp add: buckets_ok_def)
    show "bucket_ok (policy_ids p') n (p_buckets p' ! n)"
    proof (cases "n = length ts")
      case True
      then show ?thesis
        using bucket_remove_ok [OF b ids] n assms(3) form unfolding ids' by auto
    next
      case False
      then show ?thesis
        using bucket_other_ok [OF b, of pid None] ids n assms(3) form unfolding ids' by auto
    qed
  qed
  moreover have "length (filter pe_active (p_entries p)) = Suc (length (filter pe_active (p_entries p')))"
    using filter_active_update [of pid "p_entries p"] E assms(3) form by auto
  moreover have "list_all entry_ok (p_entries p')"
    using entry_ok_update [OF inv(3)] assms(3) form by (auto simp: entry_ok_def)
  moreover have fields: "e = ST_OK" "p_states p' = st" "p_pattern_count p' = p_pattern_count p - 1"
      "length (p_entries p') = length (p_entries p)" "p_epoch p' = p_epoch p" "p_filters p' = p_filters p"
      "p_masks p' = p_masks p" "p_compound p' = p_compound p" "p_built p' = p_built p"
    using assms(3) form by auto
  moreover have "trie_inv st" by (rule prunedD(1) [OF pr])
  ultimately show ?thesis
    using inv(4,5) ids' levels_ok_cong [OF fields(6-9)] by (simp add: core_inv_def)
qed

lemma remove_all_effect:
  assumes "core_inv F p" "distinct pids" "\<forall>pid\<in>set pids. policy_ids p pid \<noteq> None"
  shows "core_inv F (remove_all pids p) \<and>
    policy_ids (remove_all pids p) = (\<lambda>pid. if pid \<in> set pids then None else policy_ids p pid) \<and>
    length (p_entries (remove_all pids p)) = length (p_entries p) \<and>
    p_epoch (remove_all pids p) = p_epoch p"
  using assms
proof (induction pids arbitrary: p)
  case (Cons pid pids)
  then obtain ts where ids: "policy_ids p pid = Some ts" by auto
  let ?p' = "snd (remove_pattern_by_id_locked p pid)"
  have step: "core_inv F ?p' \<and> policy_ids ?p' = (policy_ids p)(pid := None) \<and>
      length (p_entries ?p') = length (p_entries p) \<and> p_epoch ?p' = p_epoch p"
    using removal_effect [OF Cons.prems(1) ids] by (metis prod.collapse)
  have "remove_all (pid # pids) p = remove_all pids ?p'" by (simp add: remove_all_def)
  moreover have "\<forall>q\<in>set pids. policy_ids ?p' q \<noteq> None" using step Cons.prems(2,3) by auto
  ultimately show ?case
    using Cons.IH [of ?p'] step Cons.prems(2) by (auto simp: fun_eq_iff)
qed (simp add: remove_all_def)

text \<open>A path of the same length as the removed pattern's survives.\<close>

lemma removal_keeps:
  assumes core: "core_inv F p" and ids: "policy_ids p pid = Some ts"
    and us: "path edge (p_states p) 0 us = Some q" "length us = length ts" "us \<noteq> ts"
    and free: "ps_pattern_id (p_states p ! q) = None"
  shows "path edge (p_states (snd (remove_pattern_by_id_locked p pid))) 0 us = Some q \<and>
    ps_pattern_id (p_states (snd (remove_pattern_by_id_locked p pid)) ! q) = None"
proof -
  note inv = core_invD [OF core]
  let ?st = "p_states p"
  have wf: "list_all wf_token ts" using policy_ids_entry [OF inv(3) ids] by (simp add: pattern_ok_def)
  obtain f st steps where f: "path edge ?st 0 ts = Some f"
    and pr: "pruned (set steps) (?st[f := (?st ! f)\<lparr>ps_pattern_id := None\<rparr>]) st"
    and steps: "remove_path ?st 0 ts = Some (steps, f)"
    and st: "p_states (snd (remove_pattern_by_id_locked p pid)) = st"
    by (rule removal_form [OF core ids]) (rule that, assumption+, simp)
  note same = set_id_path [OF inv(1) trie_root [OF inv(1)]]
  have "path edge st 0 us = Some q"
  proof (rule ccontr)
    assume "path edge st 0 us \<noteq> Some q"
    then obtain r where r: "us \<noteq> []" "path edge ?st 0 (butlast us) = Some r" "(r, last us) \<in> set steps"
      using prunedD(5) [OF pr, of us q] us(1) by (auto simp: same)
    obtain pre post where pre: "ts = pre @ last us # post" "path edge ?st 0 pre = Some r"
      using remove_path_prefix [OF inv(1) trie_root [OF inv(1)] wf steps r(3)] by blast
    have "pre = butlast us" using path_unique [OF trie_tree [OF inv(1)] pre(2) r(2)] .
    then have "ts = us @ post" using pre(1) r(1) by (metis append.assoc append_Cons append_Nil append_butlast_last_id)
    then show False using us(2,3) by simp
  qed
  moreover have "ps_pattern_id (st ! q) = None"
    using pruned_id [OF pr, of q] trie_path_bound [OF inv(1) trie_root [OF inv(1)] us(1)] free
    by (cases "q = f") auto
  ultimately show ?thesis by (simp add: st)
qed

lemma remove_all_Cons: "remove_all (pid # pids) p = remove_all pids (snd (remove_pattern_by_id_locked p pid))"
  by (simp add: remove_all_def)

lemma remove_all_keeps:
  assumes "core_inv F p" "distinct pids"
    and "\<forall>pid\<in>set pids. \<exists>ts. policy_ids p pid = Some ts \<and> length us = length ts \<and> us \<noteq> ts"
    and "path edge (p_states p) 0 us = Some q" "ps_pattern_id (p_states p ! q) = None"
  shows "path edge (p_states (remove_all pids p)) 0 us = Some q \<and>
    ps_pattern_id (p_states (remove_all pids p) ! q) = None"
  using assms
proof (induction pids arbitrary: p)
  case (Cons pid pids)
  then obtain ts where ids: "policy_ids p pid = Some ts" "length us = length ts" "us \<noteq> ts" by auto
  let ?p' = "snd (remove_pattern_by_id_locked p pid)"
  have step: "core_inv F ?p' \<and> policy_ids ?p' = (policy_ids p)(pid := None)"
    using removal_effect [OF Cons.prems(1) ids(1)] by (metis prod.collapse)
  have "\<forall>i\<in>set pids. \<exists>ts. policy_ids ?p' i = Some ts \<and> length us = length ts \<and> us \<noteq> ts"
    using step Cons.prems(2,3) by auto
  then show ?case
    using Cons.IH [of ?p'] step Cons.prems(2) removal_keeps [OF Cons.prems(1) ids(1) Cons.prems(4) ids(2,3) Cons.prems(5)]
    by (simp add: remove_all_Cons)
qed (simp add: remove_all_def)

section \<open>Publication\<close>

lemma pattern_reg_commit_cases:
  assumes "list_all entry_ok es" "pattern_reg_commit es e = Some (pid, es')" "entry_ok e" "pe_active e"
    "length es \<le> ST_MAX_POLICY_PATTERNS"
  shows "pid \<le> length es \<and> (pid < length es \<longrightarrow> \<not> pe_active (es ! pid)) \<and> pid < length es' \<and> es' ! pid = e \<and>
    length es' \<le> ST_MAX_POLICY_PATTERNS \<and> length es \<le> length es' \<and>
    (\<forall>i<length es'. i \<noteq> pid \<longrightarrow> i < length es \<and> es' ! i = es ! i) \<and> list_all entry_ok es' \<and>
    length (filter pe_active es') = Suc (length (filter pe_active es))"
proof (cases "find_index (\<lambda>e. \<not> pe_active e) es")
  case None
  then have "pid = length es" "es' = es @ [e]" "length es < ST_MAX_POLICY_PATTERNS"
    using assms(2) by (auto simp: pattern_reg_commit_def split: if_splits)
  then show ?thesis using assms by (auto simp: nth_append less_Suc_eq)
next
  case (Some slot)
  then have eq: "pid = slot" "es' = es[slot := e]" using assms(2) by (auto simp: pattern_reg_commit_def)
  note ix = find_index_Some [OF Some]
  have "length (filter pe_active (es[slot := e])) = Suc (length (filter pe_active ((es[slot := e])[slot := es ! slot])))"
    using ix assms(4) by (intro filter_active_update) simp_all
  then show ?thesis using eq ix assms entry_ok_update [OF assms(1,3), of slot] by simp
qed

lemma publish_effect:
  assumes core: "core_inv F p" and ok: "pattern_ok ts"
    and final: "path edge (p_states p) 0 ts = Some f" and free: "ps_pattern_id (p_states p ! f) = None"
    and pub: "publish p f ts (pattern_code ts) = Some p'"
  shows "core_inv F p' \<and> p_epoch p' = p_epoch p \<and>
    (\<exists>pid. policy_ids p pid = None \<and> policy_ids p' = (policy_ids p)(pid \<mapsto> ts))"
proof -
  note inv = core_invD [OF core]
  let ?st = "p_states p" and ?e = "\<lparr>pe_pattern = Some (pattern_code ts), pe_tokens = Some ts, pe_active = True\<rparr>"
  let ?n = "length ts"
  have eok: "entry_ok ?e" using ok by (simp add: entry_ok_def)
  obtain pid es where commit: "pattern_reg_commit (p_entries p) ?e = Some (pid, es)"
    and p': "p' = p\<lparr>p_entries := es,
        p_states := ?st[f := (?st ! f)\<lparr>ps_pattern_id := Some pid\<rparr>],
        p_pattern_count := p_pattern_count p + 1,
        p_buckets := (p_buckets p)[?n :=
          \<lparr>lb_indices = lb_indices (p_buckets p ! ?n) @ [pid],
           lb_explicit = (if pattern_has_explicit_wildcard ts then lb_explicit (p_buckets p ! ?n) + 1
                          else lb_explicit (p_buckets p ! ?n))\<rparr>]\<rparr>"
    using pub by (auto simp: publish_def Let_def split: option.splits)
  note C = pattern_reg_commit_cases [OF inv(3) commit eok _ inv(4)]
  have None: "policy_ids p pid = None" using C policy_ids_None [OF inv(3)] by force
  have ids': "policy_ids p' = (policy_ids p)(pid \<mapsto> ts)"
  proof
    fix i
    show "policy_ids p' i = ((policy_ids p)(pid \<mapsto> ts)) i"
    proof (cases "i = pid")
      case False
      then show ?thesis using C by (auto simp: policy_ids_def entry_tokens_def p')
    qed (use C in \<open>auto simp: policy_ids_def entry_tokens_def p'\<close>)
  qed
  have fl: "f < length ?st" using trie_path_bound [OF inv(1) trie_root [OF inv(1)] final] .
  have paths: "path edge (p_states p') 0 ls = path edge ?st 0 ls" for ls
    using set_id_path [OF inv(1) trie_root [OF inv(1)]] by (simp add: p')
  have "names_ok (p_states p') (policy_ids p')"
    unfolding names_ok_def
  proof (intro conjI allI impI)
    fix q i
    assume q: "q < length (p_states p')"
    show "ps_pattern_id (p_states p' ! q) = Some i \<longleftrightarrow>
        (\<exists>us. policy_ids p' i = Some us \<and> path edge (p_states p') 0 us = Some q)"
    proof (cases "q = f")
      case True
      have "policy_ids p j = Some us \<Longrightarrow> path edge ?st 0 us \<noteq> Some f" for j us
        using names_final [OF inv(1,2)] free by fastforce
      then show ?thesis using True fl final by (auto simp: paths ids') (auto simp: p')
    next
      case False
      then have "ps_pattern_id (p_states p' ! q) = ps_pattern_id (?st ! q)" by (simp add: p')
      then show ?thesis
        using names_iff [OF inv(2), of q i] q False final None by (auto simp: paths ids') (auto simp: p')
    qed
  next
    fix i us
    assume "policy_ids p' i = Some us"
    then show "path edge (p_states p') 0 us \<noteq> None"
      using final names_path [OF inv(2), of i us] by (auto simp: paths ids' split: if_splits)
  qed
  moreover have "buckets_ok (policy_ids p') (p_buckets p')"
    unfolding buckets_ok_def
  proof (intro conjI allI impI)
    show "length (p_buckets p') = ST_MAX_CMD_TOKENS + 1" using inv(6) by (simp add: buckets_ok_def p')
    fix n
    assume "n < length (p_buckets p')"
    then have n: "n < length (p_buckets p)" by (simp add: p')
    then have b: "bucket_ok (policy_ids p) n (p_buckets p ! n)" using inv(6) by (simp add: buckets_ok_def)
    show "bucket_ok (policy_ids p') n (p_buckets p' ! n)"
    proof (cases "n = ?n")
      case True
      have "p_buckets p' ! n = \<lparr>lb_indices = lb_indices (p_buckets p ! n) @ [pid],
          lb_explicit = (if pattern_has_explicit_wildcard ts then lb_explicit (p_buckets p ! n) + 1
                         else lb_explicit (p_buckets p ! n))\<rparr>"
        using True n by (simp add: p')
      then show ?thesis using bucket_add_ok [OF b None] True unfolding ids' by metis
    next
      case False
      then show ?thesis using bucket_other_ok [OF b, of pid "Some ts"] None n unfolding ids' by (simp add: p')
    qed
  qed
  moreover have "keys_at (p_states p') = keys_at ?st" by (simp add: fun_eq_iff keys_at_def paths)
  then have "levels_ok F p' (keys_at (p_states p'))"
    using inv(7) by (simp add: p' levels_ok_def)
  ultimately show ?thesis
    using inv C set_id_trie [OF inv(1)] ids' None by (auto simp: core_inv_def p')
qed

end
