(* ===== verification/Policy_Updates.thy ===== *)
theory Policy_Updates imports Registry begin

text \<open>
  Effect of the public updates of a policy: adding, removing, batches, merging and clearing. Each
  preserves the invariant, changes the language of the policy exactly as promised, and leaves the
  policy as it was when it fails.
\<close>

section \<open>Literal patterns are subsumed only by wildcards\<close>

lemma plain_token:
  "wf_token t \<Longrightarrow> \<not> tk_compound t \<Longrightarrow> \<not> token_is_wild t \<Longrightarrow> tk_type t = ST_TYPE_LITERAL"
  using wf_token_wild by blast

lemma subsumes_plain_at:
  assumes "wf_token (a ! i)" "wf_token (b ! i)" "subsumes_at a b i"
    and "\<not> tk_compound (b ! i)" "\<not> token_is_wild (b ! i)" "\<not> token_is_wild (a ! i)"
  shows "a ! i = b ! i"
proof -
  have types: "tk_type (a ! i) = ST_TYPE_LITERAL" "tk_type (b ! i) = ST_TYPE_LITERAL"
    using assms wf_token_wild by blast+
  then have "\<not> tk_compound (a ! i)" "tk_text (a ! i) = tk_text (b ! i)"
    using assms(3,4) unfolding subsumes_at_iff [OF assms(1,2)] by (auto split: if_splits)
  then show ?thesis using wf_text_type_eqI [OF assms(1,2) _ assms(4)] types by simp
qed

lemma plain_is_subsumed_by_equal:
  assumes "list_all wf_token us" "list_all wf_token ts" "pattern_is_plain_literal ts"
    "\<not> pattern_has_explicit_wildcard us" "pattern_subsumes us ts"
  shows "us = ts"
proof (rule nth_equalityI)
  show len: "length us = length ts" using assms(5) by (simp add: pattern_subsumes_def)
  fix i
  assume i: "i < length us"
  show "us ! i = ts ! i"
    using assms i len
    by (intro subsumes_plain_at)
       (auto simp: list_all_length pattern_is_plain_literal_def pattern_has_explicit_wildcard_def list_ex_length
          pattern_subsumes_def list_all_iff)
qed

lemma plain_subsumes_only_equal:
  assumes "list_all wf_token us" "list_all wf_token ts" "pattern_is_plain_literal ts" "pattern_subsumes ts us"
  shows "us = ts"
proof (rule nth_equalityI)
  show len: "length us = length ts" using assms(4) by (simp add: pattern_subsumes_def)
  fix i
  assume i: "i < length us"
  have wf: "wf_token (ts ! i)" "wf_token (us ! i)" using assms(1,2) i len by (auto simp: list_all_length)
  have plain: "\<not> tk_compound (ts ! i)" "\<not> token_is_wild (ts ! i)"
    using assms(3) i len by (auto simp: pattern_is_plain_literal_def list_all_length)
  have at: "subsumes_at ts us i" using assms(4) i len by (simp add: pattern_subsumes_def list_all_iff)
  have type: "tk_type (ts ! i) = ST_TYPE_LITERAL" using plain_token [OF wf(1) plain] .
  then have "\<not> tk_compound (us ! i)" "tk_type (us ! i) = ST_TYPE_LITERAL" "tk_text (ts ! i) = tk_text (us ! i)"
    using at plain(1) unfolding subsumes_at_iff [OF wf] by (auto split: if_splits)
  then show "us ! i = ts ! i" using wf_text_type_eqI [OF wf(2,1)] plain(1) type by simp
qed

section \<open>Scanning the bucket\<close>

lemma bucket_scan:
  assumes "core_inv F p" "pattern_ok ts"
  shows "eid \<in> set (lb_indices (p_buckets p ! length ts)) \<longleftrightarrow>
      (\<exists>us. policy_ids p eid = Some us \<and> length us = length ts)"
    and "distinct (lb_indices (p_buckets p ! length ts))"
    and "eid \<in> set (lb_indices (p_buckets p ! length ts)) \<Longrightarrow> entry_tokens p eid = policy_ids p eid"
    and "lb_explicit (p_buckets p ! length ts) = 0 \<Longrightarrow> policy_ids p eid = Some us \<Longrightarrow> length us = length ts \<Longrightarrow>
      \<not> pattern_has_explicit_wildcard us"
proof -
  note inv = core_invD [OF assms(1)]
  have "length ts < length (p_buckets p)" using inv(6) assms(2) by (simp add: buckets_ok_def pattern_ok_def)
  then have b: "bucket_ok (policy_ids p) (length ts) (p_buckets p ! length ts)"
    using inv(6) by (simp add: buckets_ok_def)
  show mem: "eid \<in> set (lb_indices (p_buckets p ! length ts)) \<longleftrightarrow>
      (\<exists>us. policy_ids p eid = Some us \<and> length us = length ts)" for eid
    using b by (auto simp: bucket_ok_def)
  show "distinct (lb_indices (p_buckets p ! length ts))" using b by (simp add: bucket_ok_def)
  show "eid \<in> set (lb_indices (p_buckets p ! length ts)) \<Longrightarrow> entry_tokens p eid = policy_ids p eid"
    using mem by (auto simp: policy_ids_def split: if_splits)
  assume E: "lb_explicit (p_buckets p ! length ts) = 0" "policy_ids p eid = Some us" "length us = length ts"
  then have "eid \<in> set (lb_indices (p_buckets p ! length ts))" using mem by blast
  moreover have "\<forall>x\<in>set (lb_indices (p_buckets p ! length ts)). \<not> pattern_has_explicit_wildcard (the (policy_ids p x))"
    using b E(1) unfolding bucket_ok_def by (simp only: le_zero_eq length_0_conv filter_empty_conv) blast
  ultimately have "\<not> pattern_has_explicit_wildcard (the (policy_ids p eid))" by blast
  then show "\<not> pattern_has_explicit_wildcard us" by (simp add: E(2))
qed

lemma subsumes_length: "pattern_subsumes a b \<Longrightarrow> length a = length b"
  by (simp add: pattern_subsumes_def)

lemma scan_subsumed:
  assumes "core_inv F p" "pattern_ok ts"
  shows "list_ex (entry_subsumes p ts) (lb_indices (p_buckets p ! length ts)) \<longleftrightarrow>
      (\<exists>us\<in>policy_patterns p. pattern_subsumes us ts)"
    and "set (filter (entry_subsumed p ts) (lb_indices (p_buckets p ! length ts))) =
      {eid. \<exists>us. policy_ids p eid = Some us \<and> pattern_subsumes ts us}"
  using bucket_scan [OF assms] subsumes_length
  by (fastforce simp: list_ex_iff entry_subsumes_def entry_subsumed_def policy_patterns_def split: option.splits)+

section \<open>Adding a pattern\<close>

lemma path_of_pattern:
  assumes "core_inv F p" "list_all wf_token ts" "probe_path (p_states p) 0 ts = (probe, missing)"
  shows "missing = [] \<and> ps_pattern_id (p_states p ! probe) \<noteq> None \<longleftrightarrow> ts \<in> policy_patterns p"
proof -
  note inv = core_invD [OF assms(1)]
  let ?st = "p_states p"
  note root = trie_root [OF inv(1)]
  obtain us where us: "ts = us @ missing" "path edge ?st 0 us = Some probe"
    "missing \<noteq> [] \<longrightarrow> edge (?st ! probe) (hd missing) = None"
    using probe_path_eq [OF inv(1) root assms(2)] assms(3) by auto
  have probe: "probe < length ?st" using trie_path_bound [OF inv(1) root us(2)] .
  show ?thesis
  proof
    assume A: "missing = [] \<and> ps_pattern_id (?st ! probe) \<noteq> None"
    then obtain pid vs where "policy_ids p pid = Some vs" "path edge ?st 0 vs = Some probe"
      using names_iff [OF inv(2) probe] by auto
    moreover from this have "vs = ts" using path_unique [OF trie_tree [OF inv(1)]] us(1,2) A by fastforce
    ultimately show "ts \<in> policy_patterns p" by (auto simp: policy_patterns_def)
  next
    assume "ts \<in> policy_patterns p"
    then obtain pid where pid: "policy_ids p pid = Some ts" by (auto simp: policy_patterns_def)
    then obtain q where q: "path edge ?st 0 ts = Some q" using names_path [OF inv(2)] by blast
    have "missing = []"
    proof (cases missing)
      case (Cons k ks)
      then show ?thesis using us q by (simp add: path_append)
    qed
    then show "missing = [] \<and> ps_pattern_id (?st ! probe) \<noteq> None"
      using names_final [OF inv(1,2) pid] us by auto
  qed
qed

lemma encode_pattern:
  assumes "pattern_ok ts"
  shows "st_netpattern_encode_owned (Some (map token_arg ts)) = Inr (pattern_code ts)"
  using assms encode_owned_wf [of ts] by (simp add: pattern_ok_def pattern_code_def)

lemma core_same_registry:
  assumes "core_inv F p" "extended (p_states p) (p_states p')" "levels_ok F p' (keys_at (p_states p'))"
    "same_registry p p'"
  shows "core_inv F p' \<and> policy_ids p' = policy_ids p"
proof -
  have ids: "policy_ids p' = policy_ids p" using assms(4) by (intro policy_ids_cong) (simp add: same_registry_def)
  note inv = core_invD [OF assms(1)]
  show ?thesis
    using inv(3-6) assms(3,4) names_extended [OF inv(1,2) assms(2)] extendedD(1) [OF assms(2)]
    by (simp add: core_inv_def ids same_registry_def)
qed

text \<open>The slot a publication needs.\<close>

lemma publish_exists:
  assumes "list_ex (\<lambda>e. \<not> pe_active e) (p_entries p) \<or> length (p_entries p) < ST_MAX_POLICY_PATTERNS"
  shows "publish p f ts code \<noteq> None"
proof -
  have "find_index (\<lambda>e. \<not> pe_active e) (p_entries p) = None \<Longrightarrow> length (p_entries p) < ST_MAX_POLICY_PATTERNS"
    using assms by (auto simp: find_index_None list_ex_iff list_all_iff)
  then show ?thesis
    by (auto simp: publish_def pattern_reg_commit_def Let_def split: option.splits)
qed

lemma antichain_ids_iff:
  assumes "trie_inv st" "names_ok st ids"
  shows "antichain ids \<longleftrightarrow>
    (\<forall>ts us. (\<exists>i. ids i = Some ts) \<longrightarrow> (\<exists>j. ids j = Some us) \<longrightarrow> pattern_subsumes ts us \<longrightarrow> ts = us)"
  (is "_ = ?R")
proof
  assume L: "antichain ids"
  show ?R
  proof (intro allI impI)
    fix ts us
    assume "\<exists>i. ids i = Some ts" "\<exists>j. ids j = Some us" "pattern_subsumes ts us"
    then obtain i j where "ids i = Some ts" "ids j = Some us" "i = j" using L unfolding antichain_def by blast
    then show "ts = us" by simp
  qed
next
  assume ?R
  then show "antichain ids" unfolding antichain_def using names_inject [OF assms] by blast
qed

lemma epoch_irrelevant [simp]:
  "policy_ids (q\<lparr>p_epoch := x\<rparr>) = policy_ids q" "core_inv F (q\<lparr>p_epoch := x\<rparr>) = core_inv F q"
proof -
  show ids: "policy_ids (q\<lparr>p_epoch := x\<rparr>) = policy_ids q" by (rule policy_ids_cong) simp
  show "core_inv F (q\<lparr>p_epoch := x\<rparr>) = core_inv F q" by (simp add: core_inv_def levels_ok_def ids)
qed

lemma patterns_replace:
  assumes ids: "ids' = (\<lambda>i. if i \<in> S then None else ids i)(pid \<mapsto> ts)"
    and S: "\<And>i. i \<in> S \<longleftrightarrow> (\<exists>us. ids i = Some us \<and> pattern_subsumes ts us)"
    and free: "pid \<in> S \<or> ids pid = None"
  shows "{us. \<exists>i. ids' i = Some us} = insert ts {us. (\<exists>i. ids i = Some us) \<and> \<not> pattern_subsumes ts us}"
proof -
  have "ids' i = Some us \<longleftrightarrow> i = pid \<and> us = ts \<or> ids i = Some us \<and> \<not> pattern_subsumes ts us" for i us
  proof (cases "i = pid")
    case True
    then show ?thesis using ids S [of i] free by auto
  next
    case False
    then show ?thesis using ids S [of i] by auto
  qed
  then show ?thesis by auto
qed

lemma policy_patterns_eq: "policy_patterns p = {us. \<exists>i. policy_ids p i = Some us}"
  by (simp add: policy_patterns_def)

text \<open>Publication before removal, and removal before publication when the slots are all taken,
  end in the same set of patterns.\<close>

lemma finish_add_effect:
  assumes core: "core_inv F p" and ok: "pattern_ok ts"
    and final: "path edge (p_states p) 0 ts = Some f" and free: "ps_pattern_id (p_states p ! f) = None"
    and fresh: "\<And>pid. policy_ids p pid \<noteq> Some ts"
    and rem: "distinct pids" "\<And>pid. pid \<in> set pids \<longleftrightarrow> (\<exists>us. policy_ids p pid = Some us \<and> pattern_subsumes ts us)"
    and room: "reuse \<and> pids \<noteq> [] \<or> pattern_reg_reserve (p_entries p)"
    and run: "finish_add p f rebuild ts pids reuse = (e, p')"
  shows "e = ST_OK \<and> core_inv F p' \<and>
    policy_patterns p' = insert ts {us \<in> policy_patterns p. \<not> pattern_subsumes ts us}"
proof -
  have pids: "\<forall>pid\<in>set pids. policy_ids p pid \<noteq> None" using rem(2) by auto
  show ?thesis
  proof (cases reuse)
    case True
    let ?p1 = "remove_all pids p"
    have R: "core_inv F ?p1" "policy_ids ?p1 = (\<lambda>pid. if pid \<in> set pids then None else policy_ids p pid)"
      "length (p_entries ?p1) = length (p_entries p)"
      using remove_all_effect [OF core rem(1) pids] by blast+
    have "\<forall>pid\<in>set pids. \<exists>us. policy_ids p pid = Some us \<and> length ts = length us \<and> ts \<noteq> us"
      using rem(2) fresh subsumes_length by metis
    then have K: "path edge (p_states ?p1) 0 ts = Some f" "ps_pattern_id (p_states ?p1 ! f) = None"
      using remove_all_keeps [OF core rem(1) _ final free] by blast+
    have "list_ex (\<lambda>e. \<not> pe_active e) (p_entries ?p1) \<or> length (p_entries ?p1) < ST_MAX_POLICY_PATTERNS"
    proof (cases "pids = []")
      case True
      then show ?thesis using room by (simp add: remove_all_def pattern_reg_reserve_def)
    next
      case False
      then obtain pid where pid: "pid \<in> set pids" by (cases pids) auto
      then have "pid < length (p_entries ?p1)" using pids R(3) by (auto simp: policy_ids_def split: if_splits)
      moreover from this have "\<not> pe_active (p_entries ?p1 ! pid)"
        using policy_ids_None [OF core_invD(3) [OF R(1)], of pid] R(2) pid by simp
      ultimately show ?thesis by (auto simp: list_ex_length)
    qed
    then obtain p2 where p2: "publish ?p1 f ts (pattern_code ts) = Some p2" using publish_exists by blast
    obtain pid where P: "core_inv F p2" "policy_ids ?p1 pid = None" "policy_ids p2 = (policy_ids ?p1)(pid \<mapsto> ts)"
      using publish_effect [OF R(1) ok K p2] by blast
    have run': "e = ST_OK" "core_inv F p' = core_inv F p2" "policy_ids p' = policy_ids p2"
      using run free p2 True by (auto simp: finish_add_def encode_pattern [OF ok] Let_def remove_all_def split: if_splits)
    have "policy_patterns p' = insert ts {us \<in> policy_patterns p. \<not> pattern_subsumes ts us}"
      unfolding policy_patterns_eq mem_Collect_eq
    proof (rule patterns_replace [where S = "set pids" and pid = pid])
      show "policy_ids p' = (\<lambda>i. if i \<in> set pids then None else policy_ids p i)(pid \<mapsto> ts)"
        using P(3) R(2) run'(3) by simp
      show "pid \<in> set pids \<or> policy_ids p pid = None" using P(2) R(2) by (simp split: if_splits)
    qed (rule rem(2))
    then show ?thesis using run' P(1) by simp
  next
    case False
    obtain p2 where p2: "publish p f ts (pattern_code ts) = Some p2"
      using publish_exists [of p f ts "pattern_code ts"] room False by (auto simp: pattern_reg_reserve_def)
    obtain pid where P: "core_inv F p2" "policy_ids p pid = None" "policy_ids p2 = (policy_ids p)(pid \<mapsto> ts)"
      using publish_effect [OF core ok final free p2] by blast
    have notin: "pid \<notin> set pids" using pids P(2) by auto
    let ?p3 = "remove_all pids p2"
    have R: "core_inv F ?p3" "policy_ids ?p3 = (\<lambda>i. if i \<in> set pids then None else policy_ids p2 i)"
      using remove_all_effect [OF P(1) rem(1)] pids P(3) notin by auto
    have run': "e = ST_OK" "core_inv F p' = core_inv F ?p3" "policy_ids p' = policy_ids ?p3"
      using run free p2 False by (auto simp: finish_add_def encode_pattern [OF ok] Let_def split: if_splits)
    have "policy_patterns p' = insert ts {us \<in> policy_patterns p. \<not> pattern_subsumes ts us}"
      unfolding policy_patterns_eq mem_Collect_eq
    proof (rule patterns_replace [where S = "set pids" and pid = pid])
      show "policy_ids p' = (\<lambda>i. if i \<in> set pids then None else policy_ids p i)(pid \<mapsto> ts)"
        using P(3) R(2) run'(3) notin by (simp add: fun_eq_iff)
      show "pid \<in> set pids \<or> policy_ids p pid = None" using P(2) by simp
    qed (rule rem(2))
    then show ?thesis using run' R(1) by simp
  qed
qed

text \<open>The probe of the trie and the scan of the bucket find the patterns that matter.\<close>

lemma add_scan:
  assumes core: "core_inv F p" and ok: "pattern_ok ts"
    and probe: "probe_path (p_states p) 0 ts = (probe, missing)"
  defines "b \<equiv> p_buckets p ! length ts"
    and "scan \<equiv> \<not> pattern_is_plain_literal ts \<or> lb_explicit (p_buckets p ! length ts) \<noteq> 0"
  shows "(if scan then list_ex (entry_subsumes p ts) (lb_indices b)
          else missing = [] \<and> ps_pattern_id (p_states p ! probe) \<noteq> None) \<longleftrightarrow>
      (\<exists>us\<in>policy_patterns p. pattern_subsumes us ts)"
    and "\<not> (\<exists>us\<in>policy_patterns p. pattern_subsumes us ts) \<Longrightarrow>
      set (if scan then filter (entry_subsumed p ts) (lb_indices b) else []) =
        {eid. \<exists>us. policy_ids p eid = Some us \<and> pattern_subsumes ts us}"
proof -
  have wf: "list_all wf_token ts" using ok by (simp add: pattern_ok_def)
  note member = path_of_pattern [OF core wf probe]
  have entry: "list_all wf_token us" if "policy_ids p pid = Some us" for pid us
    using policy_ids_entry [OF core_invD(3) [OF core] that] by (simp add: pattern_ok_def)
  show "(if scan then list_ex (entry_subsumes p ts) (lb_indices b)
          else missing = [] \<and> ps_pattern_id (p_states p ! probe) \<noteq> None) \<longleftrightarrow>
      (\<exists>us\<in>policy_patterns p. pattern_subsumes us ts)"
  proof (cases scan)
    case True
    then show ?thesis using scan_subsumed(1) [OF core ok] by (simp add: b_def)
  next
    case False
    then have plain: "pattern_is_plain_literal ts" "lb_explicit (p_buckets p ! length ts) = 0"
      by (simp_all add: scan_def)
    have "us = ts" if us: "us \<in> policy_patterns p" "pattern_subsumes us ts" for us
    proof -
      obtain pid where pid: "policy_ids p pid = Some us" using us(1) by (auto simp: policy_patterns_def)
      show ?thesis
        using plain_is_subsumed_by_equal [OF entry [OF pid] wf plain(1) _ us(2)]
          bucket_scan(4) [OF core ok plain(2) pid subsumes_length [OF us(2)]] by blast
    qed
    then show ?thesis using False member subsumes_refl [OF wf] by auto
  qed
  assume none: "\<not> (\<exists>us\<in>policy_patterns p. pattern_subsumes us ts)"
  show "set (if scan then filter (entry_subsumed p ts) (lb_indices b) else []) =
        {eid. \<exists>us. policy_ids p eid = Some us \<and> pattern_subsumes ts us}"
  proof (cases scan)
    case True
    then show ?thesis using scan_subsumed(2) [OF core ok] by (simp add: b_def)
  next
    case False
    have "\<not> pattern_subsumes ts us" if "policy_ids p pid = Some us" for pid us
    proof
      assume "pattern_subsumes ts us"
      then have "us = ts" using plain_subsumes_only_equal [OF entry [OF that] wf] False by (simp add: scan_def)
      then show False using none that subsumes_refl [OF wf] by (auto simp: policy_patterns_def)
    qed
    then show ?thesis using False by auto
  qed
qed

lemma fresh_end:
  assumes "core_inv F p" "\<And>pid. policy_ids p pid \<noteq> Some ts" "path edge (p_states p) 0 ts = Some f"
  shows "ps_pattern_id (p_states p ! f) = None"
proof (cases "ps_pattern_id (p_states p ! f)")
  case (Some pid)
  note inv = core_invD [OF assms(1)]
  have "f < length (p_states p)" using trie_path_bound [OF inv(1) trie_root [OF inv(1)] assms(3)] .
  then obtain us where "policy_ids p pid = Some us" "path edge (p_states p) 0 us = Some f"
    using names_iff [OF inv(2)] Some by blast
  then show ?thesis using path_unique [OF trie_tree [OF inv(1)] _ assms(3)] assms(2) by blast
qed

definition added :: "st_token list set \<Rightarrow> st_token list \<Rightarrow> st_token list set" where
  "added S ts = (if \<exists>us\<in>S. pattern_subsumes us ts then S else insert ts {us \<in> S. \<not> pattern_subsumes ts us})"

lemma policy_inv_iff:
  "policy_inv F p \<longleftrightarrow> core_inv F p \<and>
    (\<forall>ts\<in>policy_patterns p. \<forall>us\<in>policy_patterns p. pattern_subsumes ts us \<longrightarrow> ts = us)"
proof (cases "core_inv F p")
  case True
  then show ?thesis using antichain_ids_iff [OF core_invD(1,2) [OF True]]
    by (auto simp: policy_inv_def policy_patterns_def)
qed (simp add: policy_inv_def)

text \<open>A policy below the limits on patterns and on the children of a node.\<close>

definition has_room :: "'f st_policy \<Rightarrow> bool" where
  "has_room p \<longleftrightarrow> p_pattern_count p < ST_MAX_POLICY_PATTERNS \<and>
     list_all (\<lambda>s. children_slots s \<noteq> None) (p_states p)"

lemma probe_bound:
  assumes "trie_inv st" "list_all wf_token ts" "probe_path st 0 ts = (probe, missing)"
  shows "probe < length st"
  using probe_path_eq [OF assms(1) trie_root [OF assms(1)] assms(2)] assms(3)
    trie_path_bound [OF assms(1) trie_root [OF assms(1)]] by auto

lemma add_tokens_effect:
  assumes F: "no_false_negatives F" and inv: "policy_inv F p" and ok: "pattern_ok ts"
    and run: "add_tokens F p ts = (e, p')"
  shows "policy_inv F p' \<and> (e = ST_OK \<and> policy_patterns p' = added (policy_patterns p) ts \<or>
    e = ST_ERR_LIMIT \<and> p' = p \<and> \<not> has_room p)"
proof -
  have core: "core_inv F p" using inv by (simp add: policy_inv_def)
  note I = core_invD [OF core]
  obtain probe missing where probe: "probe_path (p_states p) 0 ts = (probe, missing)" by fastforce
  define scan where "scan \<longleftrightarrow> \<not> pattern_is_plain_literal ts \<or> lb_explicit (p_buckets p ! length ts) \<noteq> 0"
  define hit where "hit \<longleftrightarrow> (\<exists>us\<in>policy_patterns p. pattern_subsumes us ts)"
  define pids where "pids = (if scan then filter (entry_subsumed p ts) (lb_indices (p_buckets p ! length ts)) else [])"
  define reuse where "reuse \<longleftrightarrow> length (p_entries p) \<ge> ST_MAX_POLICY_PATTERNS \<and> pids \<noteq> []"
  define limit where "limit \<longleftrightarrow> p_pattern_count p \<ge> ST_MAX_POLICY_PATTERNS \<and> pids = [] \<or>
      missing \<noteq> [] \<and> children_slots (p_states p ! probe) = None"
  have form: "add_tokens F p ts =
      (if hit then (ST_OK, p) else if limit then (ST_ERR_LIMIT, p)
       else if \<not> reuse \<and> \<not> pattern_reg_reserve (p_entries p) then (ST_ERR_MEMORY, p)
       else case insert_path F p 0 0 ts of
          (None, p') \<Rightarrow> (ST_ERR_MEMORY, p')
        | (Some (final, rebuild), p') \<Rightarrow> finish_add p' final rebuild ts pids reuse)"
    using add_scan(1) [OF core ok probe, folded scan_def hit_def]
    unfolding add_tokens_def Let_def probe prod.case scan_def [symmetric] pids_def [symmetric]
      reuse_def [symmetric]
    by (cases scan) (simp_all add: limit_def)
  have ad: "added (policy_patterns p) ts = (if hit then policy_patterns p
      else insert ts {us \<in> policy_patterns p. \<not> pattern_subsumes ts us})"
    unfolding added_def hit_def ..
  have room: "reuse \<and> pids \<noteq> [] \<or> pattern_reg_reserve (p_entries p)" if "\<not> limit"
    using that I(5) by (auto simp: limit_def reuse_def pattern_reg_reserve_def list_ex_iff)
  show ?thesis
  proof (cases "hit \<or> limit")
    case True
    moreover have "\<not> has_room p" if limit
      using that probe_bound [OF I(1) _ probe] ok
      by (auto simp: limit_def has_room_def pattern_ok_def list_all_length)
    ultimately show ?thesis using run inv unfolding form ad by (cases hit) auto
  next
    case False
    have wf: "list_all wf_token ts" using ok by (simp add: pattern_ok_def)
    have miss: "missing \<noteq> [] \<longrightarrow> children_slots (p_states p ! probe) \<noteq> None" using False by (auto simp: limit_def)
    obtain res p1 where ins: "insert_path F p 0 0 ts = (res, p1)" by fastforce
    then obtain final rebuild where res: "res = Some (final, rebuild)"
      using insert_path_succeeds [OF I(1) trie_root [OF I(1)] wf probe miss, of F 0] by auto
    have ext: "extended (p_states p) (p_states p1)" "levels_ok F p1 (keys_at (p_states p1))" "same_registry p p1"
      "path edge (p_states p1) 0 ts = Some final"
      using insert_path_extends [OF F I(1,7), of "[]" 0 ts res p1] wf ins res by simp_all
    have core1: "core_inv F p1" "policy_ids p1 = policy_ids p" using core_same_registry [OF core ext(1-3)] by blast+
    then have pat1: "policy_patterns p1 = policy_patterns p" by (simp add: policy_patterns_def)
    have fresh: "policy_ids p1 pid \<noteq> Some ts" for pid
      using False subsumes_refl [OF wf] core1(2) by (auto simp: hit_def policy_patterns_def)
    have "pid \<in> set pids \<longleftrightarrow> (\<exists>us. policy_ids p1 pid = Some us \<and> pattern_subsumes ts us)" for pid
      using add_scan(2) [OF core ok probe, folded scan_def] False core1(2) unfolding pids_def hit_def by auto
    moreover have "distinct pids" using bucket_scan(2) [OF core ok] by (simp add: pids_def)
    moreover have "finish_add p1 final rebuild ts pids reuse = (e, p')"
      using run False room ins res by (auto simp: form)
    moreover have "reuse \<and> pids \<noteq> [] \<or> pattern_reg_reserve (p_entries p1)"
      using room False ext(3) by (simp add: same_registry_def)
    ultimately have fin: "e = ST_OK \<and> core_inv F p' \<and>
        policy_patterns p' = insert ts {us \<in> policy_patterns p. \<not> pattern_subsumes ts us}"
      using finish_add_effect [OF core1(1) ok ext(4) fresh_end [OF core1(1) fresh ext(4)] fresh, of pids reuse rebuild e p']
      by (simp add: pat1)
    then show ?thesis
      using False inv unfolding ad policy_inv_iff by (auto simp: hit_def)
  qed
qed

section \<open>Decoded views\<close>

lemma decode_loop_Nil: "decode_loop n [] = Inr []"
  by (simp add: decode_loop.simps)

lemma decode_view_pattern:
  assumes "st_netpattern_decode_view v = Inr ts"
  shows "ts \<noteq> [] \<and> length ts \<le> ST_MAX_CMD_TOKENS \<and> list_all wf_token ts \<and>
    length (pattern_code ts) < ST_MAX_NETPATTERN_LEN"
proof -
  let ?s = "take (np_length v) (the (np_data v))"
  have loop: "decode_loop 0 ?s = Inr ts" "ts \<noteq> []"
    and small: "length ?s < ST_MAX_NETPATTERN_LEN"
    and enc: "st_netpattern_encode_owned (Some (map token_arg ts)) = Inr ?s"
    using assms by (auto simp: st_netpattern_decode_view_def Let_def split: if_splits sum.splits)
  have "?s \<noteq> []"
  proof
    assume "?s = []"
    then show False using loop by (simp only: decode_loop_Nil) simp
  qed
  moreover obtain s where s: "?s = s" by blast
  ultimately have "st_netpattern_decode_view (np_view s) = Inr ts"
    using loop small enc unfolding s by (simp add: st_netpattern_decode_view_def np_view_def)
  then show ?thesis by (auto simp add: decode_view_Inr_iff pattern_code_def)
qed

lemma decode_view_data: "st_netpattern_decode_view v = Inr ts \<Longrightarrow> np_data v \<noteq> None \<and> np_length v \<noteq> 0"
  by (auto simp: st_netpattern_decode_view_def split: if_splits)

lemma decode_pattern_code: "pattern_ok ts \<Longrightarrow> st_netpattern_decode_view (np_view (pattern_code ts)) = Inr ts"
  by (simp add: decode_view_Inr_iff pattern_ok_def pattern_code_def)

lemma pattern_code_inject: "pattern_ok ts \<Longrightarrow> pattern_ok us \<Longrightarrow> pattern_code ts = pattern_code us \<Longrightarrow> ts = us"
  by (metis decode_pattern_code sum.inject(2))

lemma decode_compound_error: "decode_compound r = Inl e \<Longrightarrow> e = ST_ERR_FORMAT"
  by (cases "decode_parts 3 False r"; cases "compound_parts (fst (the (decode_parts 3 False r)))")
     (simp_all add: decode_compound_def Let_def split: prod.splits if_splits)

lemma decode_record_error: "decode_record r = Inl e \<Longrightarrow> e = ST_ERR_FORMAT"
  unfolding decode_record_def by (auto dest: decode_compound_error split: option.splits if_splits prod.splits)

lemma decode_loop_error: "decode_loop n s = Inl e \<Longrightarrow> e = ST_ERR_LIMIT \<or> e = ST_ERR_FORMAT"
proof (induction n s rule: decode_loop.induct)
  case (1 n s)
  show ?case
  proof (cases "s = [] \<or> n = ST_MAX_CMD_TOKENS")
    case True
    then show ?thesis using "1.prems" by (auto simp: decode_loop.simps [of n s] split: if_splits)
  next
    case False
    show ?thesis
    proof (cases "ns_parse s")
      case (Inl a)
      then show ?thesis using "1.prems" False by (auto simp: decode_loop.simps [of n s] split: if_splits)
    next
      case (Inr b)
      obtain payload rest where b: "b = (payload, rest)" by fastforce
      show ?thesis
      proof (cases "decode_record payload")
        case (Inl a)
        then show ?thesis using "1.prems" False Inr b decode_record_error [of payload a]
          by (simp add: decode_loop.simps [of n s])
      next
        case (Inr t)
        then have "decode_loop (n + 1) rest = Inl e"
          using "1.prems" False \<open>ns_parse s = Inr b\<close> b
          by (simp add: decode_loop.simps [of n s] split: sum.splits)
        then show ?thesis using "1.IH" [OF _ _ \<open>ns_parse s = Inr b\<close> b [symmetric] Inr] False by blast
      qed
    qed
  qed
qed

lemma decode_view_error:
  assumes "st_netpattern_decode_view v = Inl e"
  shows "e \<in> {ST_ERR_INVALID, ST_ERR_FORMAT, ST_ERR_LIMIT, ST_ERR_MEMORY}"
proof (cases "decode_loop 0 (take (np_length v) (the (np_data v)))")
  case (Inl x)
  then show ?thesis using assms decode_loop_error [OF Inl]
    by (auto simp: st_netpattern_decode_view_def Let_def split: if_splits)
next
  case (Inr ts)
  then show ?thesis using assms
    by (cases "st_netpattern_encode_owned (Some (map token_arg ts))")
       (simp_all add: st_netpattern_decode_view_def Let_def split: if_splits)
qed

lemma add_locked_view_effect:
  assumes "no_false_negatives F" "policy_inv F p" "st_policy_add_locked_view F p v = (e, p')"
  shows "policy_inv F p' \<and> (if e = ST_OK
      then \<exists>ts. st_netpattern_decode_view v = Inr ts \<and> pattern_ok ts \<and> policy_patterns p' = added (policy_patterns p) ts
      else p' = p) \<and> (has_room p \<longrightarrow> (\<exists>ts. st_netpattern_decode_view v = Inr ts \<and> pattern_ok ts) \<longrightarrow> e = ST_OK)"
proof (cases "(np_data v = None \<or> np_length v = 0)")
  case False
  show ?thesis
  proof (cases "st_netpattern_decode_view v")
    case (Inl x)
    then show ?thesis using assms(2,3) False decode_view_error [of v x] by (auto simp: st_policy_add_locked_view_def)
  next
    case (Inr ts)
    show ?thesis
    proof (cases "st_pattern_token_type_allowed (ts ! 0) 0 (tk_type (ts ! 0))")
      case True
      then have "pattern_ok ts" using decode_view_pattern [OF Inr] by (simp add: pattern_ok_def)
      then show ?thesis
        using add_tokens_effect [OF assms(1,2), of ts e p'] assms(3) True False Inr
        by (auto simp: st_policy_add_locked_view_def)
    qed (use assms(2,3) False Inr in \<open>auto simp: st_policy_add_locked_view_def pattern_ok_def\<close>)
  qed
next
  case True
  then show ?thesis using assms decode_view_data [of v] by (auto simp: st_policy_add_locked_view_def)
qed

text \<open>Sequences of additions.\<close>

lemma add_views_effect:
  assumes F: "no_false_negatives F"
  shows "policy_inv F p \<Longrightarrow> add_views F p vs = (e, p') \<Longrightarrow> policy_inv F p' \<and> (e = ST_OK \<longrightarrow>
    (\<exists>tss. map st_netpattern_decode_view vs = map Inr tss \<and> list_all pattern_ok tss \<and>
      policy_patterns p' = foldl added (policy_patterns p) tss))"
proof (induction vs arbitrary: p)
  case (Cons v vs)
  obtain e1 p1 where step: "st_policy_add_locked_view F p v = (e1, p1)" by fastforce
  note S = add_locked_view_effect [OF F Cons.prems(1) step]
  show ?case
  proof (cases "e1 = ST_OK")
    case True
    then obtain ts where ts: "st_netpattern_decode_view v = Inr ts" "pattern_ok ts"
      "policy_patterns p1 = added (policy_patterns p) ts" using S by auto
    have IH: "policy_inv F p' \<and> (e = ST_OK \<longrightarrow>
        (\<exists>tss. map st_netpattern_decode_view vs = map Inr tss \<and> list_all pattern_ok tss \<and>
          policy_patterns p' = foldl added (policy_patterns p1) tss))"
      using Cons.IH [of p1] S Cons.prems(2) step True by simp
    then show ?thesis
    proof (intro conjI impI)
      assume "e = ST_OK"
      then obtain tss where "map st_netpattern_decode_view vs = map Inr tss" "list_all pattern_ok tss"
        "policy_patterns p' = foldl added (policy_patterns p1) tss" using IH by blast
      then show "\<exists>tss. map st_netpattern_decode_view (v # vs) = map Inr tss \<and> list_all pattern_ok tss \<and>
          policy_patterns p' = foldl added (policy_patterns p) tss"
        using ts by (intro exI [of _ "ts # tss"]) simp
    qed simp
  next
    case False
    then show ?thesis using S Cons.prems step by simp
  qed
qed simp

lemma foldl_added_antichain:
  assumes "\<forall>a\<in>S \<union> set xs. \<forall>b\<in>S \<union> set xs. pattern_subsumes a b \<longrightarrow> a = b" "\<forall>a\<in>set xs. pattern_subsumes a a"
  shows "foldl added S xs = S \<union> set xs"
  using assms
proof (induction xs arbitrary: S)
  case (Cons x xs)
  have "added S x = insert x S"
  proof (cases "x \<in> S")
    case True
    then have "\<exists>us\<in>S. pattern_subsumes us x" using Cons.prems(2) by auto
    then show ?thesis using True by (auto simp: added_def)
  next
    case False
    then have "\<not> pattern_subsumes us x \<and> \<not> pattern_subsumes x us" if "us \<in> S" for us using Cons.prems(1) that by auto
    then show ?thesis by (auto simp: added_def)
  qed
  then show ?case using Cons.IH [of "insert x S"] Cons.prems by simp
qed simp

definition active_tokens :: "'f st_policy \<Rightarrow> st_token list list" where
  "active_tokens p = map (\<lambda>e. the (pe_tokens e)) (filter pe_active (p_entries p))"

lemma filter_nth: "filter P xs = map (nth xs) (filter (\<lambda>i. P (xs ! i)) [0..<length xs])"
proof -
  have "filter P xs = filter P (map (nth xs) [0..<length xs])" by (simp add: map_nth)
  then show ?thesis by (simp add: filter_map o_def)
qed

lemma active_tokens_facts:
  assumes core: "core_inv F p"
  shows "set (active_tokens p) = policy_patterns p" "distinct (active_tokens p)"
    "list_all pattern_ok (active_tokens p)" "active_views p = map (\<lambda>ts. np_view (pattern_code ts)) (active_tokens p)"
    "length (active_tokens p) = p_pattern_count p"
proof -
  note inv = core_invD [OF core]
  let ?ix = "filter (\<lambda>i. pe_active (p_entries p ! i)) [0..<length (p_entries p)]"
  have ids: "policy_ids p i = Some (the (pe_tokens (p_entries p ! i)))" if "i \<in> set ?ix" for i
  proof -
    have "policy_ids p i \<noteq> None" using that policy_ids_None [OF inv(3), of i] by auto
    then show ?thesis using policy_ids_entry [OF inv(3), of i] by auto
  qed
  have ix: "active_tokens p = map (\<lambda>i. the (pe_tokens (p_entries p ! i))) ?ix"
    unfolding active_tokens_def by (subst filter_nth) simp
  show sets: "set (active_tokens p) = policy_patterns p"
  proof (intro set_eqI iffI)
    fix ts
    assume "ts \<in> set (active_tokens p)"
    then obtain i where "i \<in> set ?ix" "ts = the (pe_tokens (p_entries p ! i))" unfolding ix set_map by blast
    then show "ts \<in> policy_patterns p" using ids unfolding policy_patterns_def by blast
  next
    fix ts
    assume "ts \<in> policy_patterns p"
    then obtain i where i: "policy_ids p i = Some ts" unfolding policy_patterns_def by blast
    then have "i \<in> set ?ix" "the (pe_tokens (p_entries p ! i)) = ts" using policy_ids_entry [OF inv(3) i] by simp_all
    then show "ts \<in> set (active_tokens p)" unfolding ix set_map by blast
  qed
  have "inj_on (\<lambda>i. the (pe_tokens (p_entries p ! i))) (set ?ix)"
  proof (rule inj_onI)
    fix i j
    assume ij: "i \<in> set ?ix" "j \<in> set ?ix"
      "the (pe_tokens (p_entries p ! i)) = the (pe_tokens (p_entries p ! j))"
    have "policy_ids p j = Some (the (pe_tokens (p_entries p ! i)))" unfolding ij(3) by (rule ids [OF ij(2)])
    then show "i = j" by (rule names_inject [OF inv(1,2) ids [OF ij(1)]])
  qed
  then show "distinct (active_tokens p)" unfolding ix by (simp add: distinct_map)
  show ok: "list_all pattern_ok (active_tokens p)"
    unfolding list_all_iff sets policy_patterns_def using policy_ids_entry [OF inv(3)] by auto
  show "active_views p = map (\<lambda>ts. np_view (pattern_code ts)) (active_tokens p)"
  proof -
    have "the (pe_pattern x) = pattern_code (the (pe_tokens x))" if "x \<in> set (p_entries p)" "pe_active x" for x
    proof -
      have "entry_ok x" using inv(3) that(1) by (simp add: list_all_iff)
      then show ?thesis using that(2) by (auto simp: entry_ok_def)
    qed
    then show ?thesis by (simp add: active_views_def active_tokens_def)
  qed
  show "length (active_tokens p) = p_pattern_count p" using inv(5) by (simp add: active_tokens_def)
qed

section \<open>Acceptance\<close>

definition policy_accepts :: "'f st_policy \<Rightarrow> bytes list \<Rightarrow> bool" where
  "policy_accepts p args \<longleftrightarrow> (\<exists>ts\<in>policy_patterns p. pattern_accepts ts args)"

lemma core_patterns_ok: "core_inv F p \<Longrightarrow> ts \<in> policy_patterns p \<Longrightarrow> pattern_ok ts"
  using policy_ids_entry [OF core_invD(3)] by (auto simp: policy_patterns_def)

lemma pattern_ok_wf: "pattern_ok ts \<Longrightarrow> list_all wf_token ts"
  by (simp add: pattern_ok_def)

lemma added_accepts:
  assumes "\<forall>us\<in>S. pattern_ok us" "pattern_ok ts"
  shows "(\<exists>us\<in>added S ts. pattern_accepts us args) \<longleftrightarrow> (\<exists>us\<in>S. pattern_accepts us args) \<or> pattern_accepts ts args"
proof (cases "\<exists>us\<in>S. pattern_subsumes us ts")
  case True
  then show ?thesis using assms subsumes_sound pattern_ok_wf unfolding added_def by meson
next
  case False
  have "us \<in> S \<Longrightarrow> pattern_subsumes ts us \<Longrightarrow> pattern_accepts us args \<Longrightarrow> pattern_accepts ts args" for us
    using assms subsumes_sound pattern_ok_wf by meson
  then show ?thesis using False by (auto simp: added_def)
qed

lemma added_ok: "\<forall>us\<in>S. pattern_ok us \<Longrightarrow> pattern_ok ts \<Longrightarrow> \<forall>us\<in>added S ts. pattern_ok us"
  by (auto simp: added_def)

lemma foldl_added_accepts:
  assumes "\<forall>us\<in>S. pattern_ok us" "list_all pattern_ok tss"
  shows "(\<exists>us\<in>foldl added S tss. pattern_accepts us args) \<longleftrightarrow>
    (\<exists>us\<in>S \<union> set tss. pattern_accepts us args)"
  using assms
proof (induction tss arbitrary: S)
  case (Cons ts tss)
  then have "(\<exists>us\<in>foldl added (added S ts) tss. pattern_accepts us args) \<longleftrightarrow>
      (\<exists>us\<in>added S ts \<union> set tss. pattern_accepts us args)"
    using added_ok [of S ts] by simp
  then show ?case using added_accepts [of S ts args] Cons.prems by auto
qed simp

section \<open>Staged replacement\<close>

text \<open>A policy whose filters were never built.\<close>

definition no_filters :: "'f st_policy \<Rightarrow> bool" where
  "no_filters p \<longleftrightarrow> p_filters p = replicate FILTER_POS_LEVELS None"

lemma note_child_no_filters: "no_filters p \<Longrightarrow> no_filters (fst (note_child F d t p))"
  by (auto simp: no_filters_def note_child_def)

lemma insert_child_no_filters:
  assumes "no_filters p" "insert_child F q p t r i = Some (p2, rb)"
  shows "no_filters p2"
proof (cases "insert_node_child (p_states p ! q) t r")
  case (Some n)
  let ?p1 = "p\<lparr>p_states := (p_states p)[q := n], p_children_count := p_children_count p +
      (ps_children_alloc n - ps_children_alloc (p_states p ! q)) + 1\<rparr>"
  have "note_child F i t ?p1 = (p2, rb)" using assms(2) Some by (simp add: insert_child_def)
  moreover have "no_filters ?p1" using assms(1) by (simp add: no_filters_def)
  ultimately show ?thesis using note_child_no_filters by (metis fst_conv)
qed (use assms in \<open>simp add: insert_child_def\<close>)

lemma insert_path_no_filters: "no_filters p \<Longrightarrow> no_filters (snd (insert_path F p q i ts))"
proof (induction F p q i ts rule: insert_path.induct)
  case (2 F p current i t ts)
  show ?case
  proof (cases "find_child (p_states p ! current) t")
    case None
    let ?p1 = "p\<lparr>p_states := p_states p @ [empty_state]\<rparr>"
    show ?thesis
    proof (cases "insert_child F current ?p1 t (length (p_states p)) i")
      case None
      then show ?thesis using "2.prems" \<open>find_child _ _ = None\<close> by (simp add: no_filters_def)
    next
      case (Some r)
      obtain p2 rb where r: "r = (p2, rb)" by fastforce
      have "no_filters p2" using Some r "2.prems" insert_child_no_filters [of ?p1 F current t _ i]
        by (simp add: no_filters_def)
      then have "no_filters (snd (insert_path F p2 (length (p_states p)) (i + 1) ts))"
        using "2.IH"(1) [OF None refl refl Some r [symmetric]] by simp
      then show ?thesis using Some r None by (auto split: option.splits prod.splits)
    qed
  qed (use 2 in simp)
qed simp

lemma removal_no_filters: "no_filters p \<Longrightarrow> no_filters (snd (remove_pattern_by_id_locked p pid))"
  by (auto simp: remove_pattern_by_id_locked_def no_filters_def Let_def split: option.splits)

lemma remove_all_no_filters: "no_filters p \<Longrightarrow> no_filters (remove_all pids p)"
  by (induction pids arbitrary: p) (simp_all add: remove_all_Cons removal_no_filters, simp add: remove_all_def)

lemma finish_add_no_filters: "no_filters p \<Longrightarrow> no_filters (snd (finish_add p f rb ts pids reuse))"
  using remove_all_no_filters
  by (fastforce simp: finish_add_def publish_def no_filters_def Let_def split: option.splits sum.splits prod.splits)

lemma add_tokens_no_filters: "no_filters p \<Longrightarrow> no_filters (snd (add_tokens F p ts))"
proof -
  assume A: "no_filters p"
  obtain probe missing where probe: "probe_path (p_states p) 0 ts = (probe, missing)" by fastforce
  obtain res p1 where ins: "insert_path F p 0 0 ts = (res, p1)" by fastforce
  have "no_filters p1" using insert_path_no_filters [OF A, of F 0 0 ts] ins by simp
  then show ?thesis
    using A unfolding add_tokens_def Let_def probe ins prod.case
    by (simp add: finish_add_no_filters split: option.splits prod.splits)
qed

lemma add_views_no_filters: "no_filters p \<Longrightarrow> no_filters (snd (add_views F p vs))"
proof (induction vs arbitrary: p)
  case (Cons v vs)
  have "no_filters (snd (st_policy_add_locked_view F p v))"
    using Cons.prems by (auto simp: st_policy_add_locked_view_def add_tokens_no_filters split: sum.splits)
  then show ?case using Cons.IH by (cases "st_policy_add_locked_view F p v") simp
qed simp

lemma batch_effect:
  assumes F: "no_false_negatives F" and inv: "policy_inv F p"
    and run: "policy_batch_add_views F p vs = (e, p')"
  shows "policy_inv F p' \<and> (if e = ST_OK
      then \<exists>tss. map st_netpattern_decode_view vs = map Inr tss \<and> list_all pattern_ok tss \<and>
        policy_patterns p' = foldl added (policy_patterns p) tss
      else p' = p)"
proof -
  obtain e1 st where add: "add_views F st_policy_new (active_views p @ vs) = (e1, st)" by fastforce
  show ?thesis
  proof (cases "e1 = ST_OK")
    case False
    then show ?thesis using run add inv by (auto simp: policy_batch_add_views_def)
  next
    case True
    have core: "core_inv F p" using inv by (simp add: policy_inv_def)
    note A = active_tokens_facts [OF core]
    have staged: "policy_inv F st" "no_filters st"
      using add_views_effect [OF F policy_inv_new add] add_views_no_filters [of st_policy_new F "active_views p @ vs"] add
      by (simp_all add: no_filters_def st_policy_new_def)
    obtain all where all: "map st_netpattern_decode_view (active_views p @ vs) = map Inr all"
      "list_all pattern_ok all" "policy_patterns st = foldl added (policy_patterns (st_policy_new :: 'a st_policy)) all"
      using add_views_effect [OF F policy_inv_new add] True by blast
    define tss where "tss = drop (length (active_tokens p)) all"
    have "map Inr (take (length (active_tokens p)) all) = map st_netpattern_decode_view (active_views p)"
      using arg_cong [OF all(1), of "take (length (active_tokens p))"] A(4) by (simp add: take_map)
    also have "\<dots> = map Inr (active_tokens p)"
      using A(3) unfolding A(4) by (simp add: decode_pattern_code list_all_iff)
    finally have "take (length (active_tokens p)) all = active_tokens p" by (simp add: inj_map_eq_map)
    then have split: "all = active_tokens p @ tss" unfolding tss_def by (metis append_take_drop_id)
    have dec: "map st_netpattern_decode_view vs = map Inr tss"
      using arg_cong [OF all(1), of "drop (length (active_tokens p))"] A(4) by (simp add: drop_map tss_def)
    have new: "policy_patterns (st_policy_new :: 'a st_policy) = {}"
      by (simp add: policy_patterns_def policy_ids_def st_policy_new_def)
    have "foldl added {} (active_tokens p) = {} \<union> set (active_tokens p)"
    proof (rule foldl_added_antichain)
      show "\<forall>a\<in>{} \<union> set (active_tokens p). \<forall>b\<in>{} \<union> set (active_tokens p). pattern_subsumes a b \<longrightarrow> a = b"
        using inv unfolding policy_inv_iff A(1) by simp
      show "\<forall>a\<in>set (active_tokens p). pattern_subsumes a a"
        using A(3) subsumes_refl [OF pattern_ok_wf] unfolding list_all_iff by blast
    qed
    then have pats: "policy_patterns st = foldl added (policy_patterns p) tss"
      unfolding all(3) new split foldl_append A(1) by simp
    have p': "e = ST_OK" "p_entries p' = p_entries st" "p_states p' = p_states st" "p_buckets p' = p_buckets st"
      "p_pattern_count p' = p_pattern_count st" "p_filters p' = p_filters st" "p_masks p' = p_masks st"
      "p_built p' = p_built st" "p_compound p' = p_compound p"
      using run add True by (auto simp: policy_batch_add_views_def)
    have ids: "policy_ids p' = policy_ids st" using p'(2) by (rule policy_ids_cong)
    have "core_inv F st" using staged(1) by (simp add: policy_inv_def)
    note S = core_invD [OF this]
    have "levels_ok F p' (keys_at (p_states p'))"
      using S(7) core_invD(7) [OF core] staged(2) p' by (intro levels_disabled) (simp_all add: levels_ok_def no_filters_def)
    then have "core_inv F p'" using S p' ids by (simp add: core_inv_def)
    moreover have "policy_patterns p' = policy_patterns st" by (simp add: policy_patterns_def ids)
    ultimately show ?thesis using staged(1) pats dec all(2) p'(1) by (auto simp: policy_inv_iff split)
  qed
qed

section \<open>Removal of a pattern by its spelling\<close>

lemma find_entry:
  assumes core: "core_inv F p" and ok: "pattern_ok ts"
  shows "find_index (entry_is_pattern (pattern_code ts)) (p_entries p) = Some i \<Longrightarrow> policy_ids p i = Some ts"
    and "find_index (entry_is_pattern (pattern_code ts)) (p_entries p) = None \<Longrightarrow> ts \<notin> policy_patterns p"
proof -
  note inv = core_invD [OF core]
  assume "find_index (entry_is_pattern (pattern_code ts)) (p_entries p) = Some i"
  note i = find_index_Some [OF this]
  then have "policy_ids p i \<noteq> None" using policy_ids_None [OF inv(3), of i] by (auto simp: entry_is_pattern_def)
  then obtain us where us: "policy_ids p i = Some us" by auto
  note E = policy_ids_entry [OF inv(3) us]
  then have "pattern_code us = pattern_code ts" using i by (simp add: entry_is_pattern_def)
  then have "us = ts" using pattern_code_inject [OF _ ok, of us] E by simp
  then show "policy_ids p i = Some ts" using us by simp
next
  note inv = core_invD [OF core]
  assume none: "find_index (entry_is_pattern (pattern_code ts)) (p_entries p) = None"
  show "ts \<notin> policy_patterns p"
  proof
    assume "ts \<in> policy_patterns p"
    then obtain i where i: "policy_ids p i = Some ts" by (auto simp: policy_patterns_def)
    then show False
      using none policy_ids_entry [OF inv(3) i] by (auto simp: find_index_None list_all_length entry_is_pattern_def)
  qed
qed

lemma patterns_remove:
  assumes "ids i = Some ts" "\<And>j. ids j = Some ts \<Longrightarrow> j = i"
  shows "{us. \<exists>j. (ids(i := None)) j = Some us} = {us. \<exists>j. ids j = Some us} - {ts}"
proof (intro set_eqI iffI)
  fix us
  assume "us \<in> {us. \<exists>j. (ids(i := None)) j = Some us}"
  then obtain j where "j \<noteq> i" "ids j = Some us" by (auto split: if_splits)
  then show "us \<in> {us. \<exists>j. ids j = Some us} - {ts}" using assms(2) by auto
next
  fix us
  assume "us \<in> {us. \<exists>j. ids j = Some us} - {ts}"
  then obtain j where "ids j = Some us" "us \<noteq> ts" by auto
  then have "(ids(i := None)) j = Some us" using assms(1) by auto
  then show "us \<in> {us. \<exists>j. (ids(i := None)) j = Some us}" by blast
qed

lemma remove_effect:
  assumes inv: "policy_inv F p" and run: "st_policy_remove_netpattern_view p v = (e, p')"
  shows "policy_inv F p' \<and> (if e = ST_OK
      then \<exists>ts. st_netpattern_decode_view v = Inr ts \<and> policy_patterns p' = policy_patterns p - {ts}
      else p' = p)"
proof (cases "(np_data v = None \<or> np_length v = 0)")
  case False
  have core: "core_inv F p" using inv by (simp add: policy_inv_def)
  show ?thesis
  proof (cases "st_netpattern_decode_view v")
    case (Inl x)
    then show ?thesis using inv run False decode_view_error [of v x] by (auto simp: st_policy_remove_netpattern_view_def)
  next
    case (Inr ts)
    note D = decode_view_pattern [OF Inr]
    have enc: "st_netpattern_encode_owned (Some (map token_arg ts)) = Inr (pattern_code ts)"
      using encode_owned_wf [of ts] D by (simp add: pattern_code_def)
    show ?thesis
    proof (cases "find_index (entry_is_pattern (pattern_code ts)) (p_entries p)")
      case None
      have "ts \<notin> policy_patterns p"
      proof
        assume "ts \<in> policy_patterns p"
        with find_entry(2) [OF core core_patterns_ok [OF core this] None] show False by blast
      qed
      then show ?thesis
        using inv run False Inr enc None D by (auto simp: st_policy_remove_netpattern_view_def)
    next
      case (Some i)
      have active: "pe_active (p_entries p ! i)" "i < length (p_entries p)" "pe_pattern (p_entries p ! i) = Some (pattern_code ts)"
        using find_index_Some [OF Some] by (simp_all add: entry_is_pattern_def)
      obtain us where us: "policy_ids p i = Some us" using policy_ids_None [OF core_invD(3) [OF core], of i] active by auto
      note E = policy_ids_entry [OF core_invD(3) [OF core] us]
      then have "pattern_code us = pattern_code ts" using active by simp
      then have "us = ts" using decode_pattern_code [of us] E D
        by (simp add: decode_view_Inr_iff pattern_code_def) (metis decode_view_Inr_iff pattern_code_def sum.inject(2))
      then have ids: "policy_ids p i = Some ts" using us by simp
      obtain e1 p1 where rm: "remove_pattern_by_id_locked p i = (e1, p1)" by fastforce
      note R = removal_effect [OF core ids rm]
      have p': "e = ST_OK" "p' = p1\<lparr>p_epoch := p_epoch p1 + 1\<rparr>"
        using run False Inr enc Some rm R D by (simp_all add: st_policy_remove_netpattern_view_def)
      have ids': "policy_ids p' = (policy_ids p)(i := None)" using R p'(2) by simp
      have "core_inv F p'" using R p'(2) by simp
      moreover have "antichain (policy_ids p')"
        unfolding ids' using inv unfolding policy_inv_def by (elim conjE antichain_mono) (simp split: if_splits)
      moreover have "policy_patterns p' = policy_patterns p - {ts}"
        unfolding policy_patterns_def ids' using ids
      proof (rule patterns_remove)
        show "j = i" if "policy_ids p j = Some ts" for j
          using names_inject [OF core_invD(1,2) [OF core] ids that] by simp
      qed
      ultimately show ?thesis using Inr p'(1) by (simp add: policy_inv_def)
    qed
  qed
qed (use inv run in \<open>simp add: st_policy_remove_netpattern_view_def\<close>)

lemma remove_total:
  assumes inv: "policy_inv F p" and dec: "st_netpattern_decode_view v = Inr ts"
  shows "fst (st_policy_remove_netpattern_view p v) = ST_OK"
proof -
  note D = decode_view_pattern [OF dec]
  have core: "core_inv F p" using inv by (simp add: policy_inv_def)
  have enc: "st_netpattern_encode_owned (Some (map token_arg ts)) = Inr (pattern_code ts)"
    using encode_owned_wf [of ts] D by (simp add: pattern_code_def)
  have "fst (remove_pattern_by_id_locked p i) = ST_OK" if i: "find_index (entry_is_pattern (pattern_code ts)) (p_entries p) = Some i" for i
    using find_index_Some [OF i] by (simp add: remove_pattern_by_id_locked_def Let_def split: option.splits)
  then show ?thesis
    using dec D enc decode_view_data [OF dec]
    by (auto simp: st_policy_remove_netpattern_view_def split: option.splits prod.splits)
qed

end
