(* ===== verification/Matching.thy ===== *)
theory Matching imports Eval Queues Policy_Updates begin

text \<open>
  Evaluation finds exactly the patterns that accept a command. Children of a node are matched as
  the tokens they stand for; the walk reaches the nodes whose path accepts a prefix of the command;
  the filters never reject a command that some pattern accepts; and the pattern reported is the
  first of the accepting ones in the order of canonical patterns.
\<close>

section \<open>Children and the tokens they stand for\<close>

definition follows_token :: "st_token \<Rightarrow> st_token \<Rightarrow> bool" where
  "follows_token k c \<longleftrightarrow> token_accepts k (tk_text c) (tk_type c)"

lemma literal_follows_iff:
  assumes "stored_child False c"
  shows "literal_follows t c \<longleftrightarrow> follows_token (child_token c) t"
proof -
  let ?k = "child_token c"
  have k: "wf_token ?k" "\<not> token_is_wild ?k" and c: "c = new_child ?k (ce_target c)"
    using assms unfolding stored_child_def by blast+
  have lit: "is_literal_child ?k" using is_literal_child_wf [OF k(1)] k(2) by simp
  have shown: "child_text c = tk_text ?k"
    using child_text_new_child [OF k(1) lit, of "ce_target c"] c by simp
  have fields: "ce_compound c = tk_compound ?k" "ce_type c = tk_type ?k" "ce_capture_type c = tk_capture_type ?k"
    "ce_prefix_length c = length (tk_prefix ?k)" "ce_capture_length c = length (tk_capture ?k)"
    using c new_child_simps(2-4) [of ?k "ce_target c"] new_child_simps(5,6) [OF k(1), of "ce_target c"] by metis+
  show ?thesis
  proof (cases "tk_compound ?k")
    case True
    have "tk_text ?k = compound_display (tk_prefix ?k) (tk_capture ?k) (tk_suffix ?k)"
      using wf_compound_eq [OF k(1) True] by (metis compound_token_def st_token.select_convs(1))
    then show ?thesis
      using True by (simp add: literal_follows_def compound_child_matches_def follows_token_def token_accepts_def
          fields shown compound_display_def Let_def split: option.splits)
  next
    case False
    then have "tk_type ?k = ST_TYPE_LITERAL" using wf_token_wild [OF k(1)] k(2) by blast
    then show ?thesis
      using False by (simp add: literal_follows_def compound_child_matches_def follows_token_def token_accepts_def
          fields shown)
  qed
qed

lemma wildcard_follows_iff:
  assumes "stored_child True c"
  shows "wildcard_follows t c \<longleftrightarrow> follows_token (child_token c) t"
proof -
  let ?k = "child_token c"
  have k: "wf_token ?k" "token_is_wild ?k" and c: "c = new_child ?k (ce_target c)"
    using assms unfolding stored_child_def by blast+
  have type: "ce_type c = tk_type ?k" using c new_child_simps(2) by metis
  have plain: "\<not> tk_compound ?k" "tk_type ?k \<noteq> ST_TYPE_LITERAL"
    using wf_wild_plain [OF k] wf_token_wild [OF k(1)] k(2) by blast+
  have can: "canonical_spelling (tk_type ?k) (tk_text ?k)" using wf_wild_canonical [OF k(1)] plain by blast
  have stored: "ce_text c = (if CHR ''.'' \<in> set (tk_text ?k) then Some (tk_text ?k) else None)"
  proof -
    have "ce_text c = ce_text (new_child ?k (ce_target c))" by (rule arg_cong [OF c])
    then show ?thesis
      using canonical_cstr [OF can] is_literal_child_wf [OF k(1)] k(2) by (simp add: new_child_def)
  qed
  from can have "st_wildcard_metadata (ce_text c) (tk_type ?k) = st_wildcard_metadata (Some (tk_text ?k)) (tk_type ?k)"
  proof (cases rule: canonical_metadata_cases)
    case plain
    then show ?thesis using stored canonical_dot [OF can] by (simp add: st_wildcard_metadata_def)
  next
    case (param m)
    then show ?thesis using stored by simp
  qed
  then show ?thesis
    using plain by (simp add: wildcard_follows_def follows_token_def token_accepts_def type
        runtime_type_matches_bit param_matches_def)
qed

lemma stored_follows:
  assumes "node_inv node"
  shows "filter (literal_follows t) (ps_literals node) @ filter (wildcard_follows t) (ps_wildcards node) =
    filter (\<lambda>c. follows_token (child_token c) t) (node_children node)"
proof -
  have "filter (literal_follows t) (ps_literals node) = filter (\<lambda>c. follows_token (child_token c) t) (ps_literals node)"
    using assms literal_follows_iff by (intro filter_cong) (auto simp: node_inv_def list_all_iff)
  moreover have "filter (wildcard_follows t) (ps_wildcards node) =
      filter (\<lambda>c. follows_token (child_token c) t) (ps_wildcards node)"
    using assms wildcard_follows_iff by (intro filter_cong) (auto simp: node_inv_def list_all_iff)
  ultimately show ?thesis by (simp add: node_children_def)
qed

section \<open>The walk\<close>

lemma walk_next_iff:
  assumes "trie_inv (p_states p)" "q < length (p_states p)"
  shows "(r, j) \<in> set (walk_next p cmd (q, i)) \<longleftrightarrow>
    i < length cmd \<and> j = i + 1 \<and> (\<exists>k. edge (p_states p ! q) k = Some r \<and> follows_token k (cmd ! i))"
proof -
  note node = trie_node [OF assms]
  show ?thesis
    using stored_follows [OF node, of "cmd ! i"]
    by (auto simp: walk_next_def edge_Some_iff [OF node])
qed

text \<open>The entries in the order in which the loop takes them.\<close>

function walk_order :: "'f st_policy \<Rightarrow> st_token list \<Rightarrow> (nat \<times> nat) list \<Rightarrow> (nat \<times> nat) list" where
  "walk_order p cmd [] = []"
| "walk_order p cmd (e # queue) = e # walk_order p cmd (queue @ walk_next p cmd e)"
  by pat_completeness auto
termination
  by (relation "inv_image (mult less_than) (\<lambda>(p, cmd, queue). left_over cmd queue)")
     (simp_all add: wf_mult left_over_step)

interpretation walk: queue_order "walk_next p cmd" "\<lambda>e. length cmd - snd e" "walk_order p cmd" for p cmd
  by unfold_locales (auto simp: walk_next_def split: prod.splits if_splits)

lemma walk_loop_order: "walk_loop p cmd queue w = foldl (walk_visit p cmd) w (walk_order p cmd queue)"
  by (induction p cmd queue w rule: walk_loop.induct) simp_all

text \<open>The tokens of a path accept the first arguments of the command.\<close>

definition path_accepts :: "st_token list \<Rightarrow> st_token list \<Rightarrow> bool" where
  "path_accepts us cmd \<longleftrightarrow> length us \<le> length cmd \<and> list_all2 follows_token us (take (length us) cmd)"

lemma path_accepts_snoc:
  "path_accepts (us @ [k]) cmd \<longleftrightarrow>
    path_accepts us cmd \<and> length us < length cmd \<and> follows_token k (cmd ! length us)"
proof (cases "length us < length cmd")
  case True
  then show ?thesis by (auto simp: path_accepts_def take_Suc_conv_app_nth list_all2_append)
qed (simp add: path_accepts_def)

lemma walk_reach:
  assumes inv: "trie_inv (p_states p)"
  shows "((0, 0), (q, i)) \<in> (follows (walk_next p cmd))\<^sup>* \<longleftrightarrow>
    (\<exists>us. path edge (p_states p) 0 us = Some q \<and> length us = i \<and> path_accepts us cmd)"
proof
  assume "((0, 0), (q, i)) \<in> (follows (walk_next p cmd))\<^sup>*"
  then show "\<exists>us. path edge (p_states p) 0 us = Some q \<and> length us = i \<and> path_accepts us cmd"
  proof (induction "(q, i)" arbitrary: q i rule: rtrancl_induct)
    case base
    show ?case by (intro exI [of _ "[]"]) (simp add: path_accepts_def)
  next
    case (step e)
    obtain r j where e: "e = (r, j)" by fastforce
    then obtain us where us: "path edge (p_states p) 0 us = Some r" "length us = j" "path_accepts us cmd"
      using step.hyps(3) by blast
    have "r < length (p_states p)" using trie_path_bound [OF inv trie_root [OF inv] us(1)] .
    then obtain k where "j < length cmd" "i = j + 1" "edge (p_states p ! r) k = Some q" "follows_token k (cmd ! j)"
      using step.hyps(2) walk_next_iff [OF inv] by (auto simp: follows_def e)
    then show ?case using us by (intro exI [of _ "us @ [k]"]) (simp add: path_snoc path_accepts_snoc)
  qed
next
  assume "\<exists>us. path edge (p_states p) 0 us = Some q \<and> length us = i \<and> path_accepts us cmd"
  then obtain us where "path edge (p_states p) 0 us = Some q" "length us = i" "path_accepts us cmd" by blast
  then show "((0, 0), (q, i)) \<in> (follows (walk_next p cmd))\<^sup>*"
  proof (induction us arbitrary: q i rule: rev_induct)
    case (snoc k us)
    from snoc.prems(1) obtain r where r: "path edge (p_states p) 0 us = Some r" "edge (p_states p ! r) k = Some q"
      by (auto simp: path_snoc split: bind_splits)
    have "r < length (p_states p)" using trie_path_bound [OF inv trie_root [OF inv] r(1)] .
    then have "(q, i) \<in> set (walk_next p cmd (r, length us))"
      using r(2) snoc.prems(2,3) walk_next_iff [OF inv] by (auto simp: path_accepts_snoc)
    moreover have "((0, 0), (r, length us)) \<in> (follows (walk_next p cmd))\<^sup>*"
      using snoc.IH [OF r(1) refl] snoc.prems(3) by (simp add: path_accepts_snoc)
    ultimately show ?case by (auto simp: follows_def intro: rtrancl_into_rtrancl)
  qed simp
qed

section \<open>The preferred candidate\<close>

definition candidate :: "'f st_policy \<Rightarrow> st_token list \<Rightarrow> nat \<times> nat \<Rightarrow> pattern_entry option" where
  "candidate p cmd e = (if snd e = length cmd then state_entry p (fst e) else None)"

definition candidates :: "'f st_policy \<Rightarrow> st_token list \<Rightarrow> pattern_entry list" where
  "candidates p cmd = List.map_filter (candidate p cmd) (walk_order p cmd [(0, 0)])"

definition pick :: "('a \<Rightarrow> 'a \<Rightarrow> bool) \<Rightarrow> 'a option \<Rightarrow> 'a \<Rightarrow> 'a option" where
  "pick lt best c = (case best of None \<Rightarrow> Some c | Some b \<Rightarrow> if lt c b then Some c else Some b)"

lemma pick_simps [simp]:
  "pick lt None c = Some c" "pick lt (Some b) c = (if lt c b then Some c else Some b)"
  by (simp_all add: pick_def)

lemma walk_visit_best:
  "mw_best (walk_visit p cmd w e) =
     (case candidate p cmd e of None \<Rightarrow> mw_best w | Some c \<Rightarrow> pick pattern_entry_preferred (mw_best w) c)"
  by (auto simp: walk_visit_def candidate_def pick_def Let_def split: prod.splits option.splits)

lemma walk_visits_best:
  "mw_best (foldl (walk_visit p cmd) w es) =
     foldl (pick pattern_entry_preferred) (mw_best w) (List.map_filter (candidate p cmd) es)"
  by (induction es arbitrary: w) (auto simp: walk_visit_best map_filter_simps split: option.splits)

lemma matching_walk_best: "mw_best (matching_walk_locked p cmd) = foldl (pick pattern_entry_preferred) None (candidates p cmd)"
  by (simp add: matching_walk_locked_def walk_loop_order walk_visits_best candidates_def del: walk_order.simps)

lemma foldl_pick_Some:
  assumes "\<And>a b. a \<in> S \<Longrightarrow> b \<in> S \<Longrightarrow> a = b \<or> lt a b \<or> lt b a"
    and "\<And>a b c. a \<in> S \<Longrightarrow> b \<in> S \<Longrightarrow> c \<in> S \<Longrightarrow> lt a b \<Longrightarrow> lt b c \<Longrightarrow> lt a c"
  shows "b0 \<in> S \<Longrightarrow> set xs \<subseteq> S \<Longrightarrow> \<exists>b. foldl (pick lt) (Some b0) xs = Some b \<and> b \<in> insert b0 (set xs) \<and>
    (\<forall>x\<in>insert b0 (set xs). x = b \<or> lt b x)"
proof (induction xs arbitrary: b0)
  case (Cons x xs)
  define b1 where "b1 = (if lt x b0 then x else b0)"
  have b1: "b1 \<in> S" "b1 \<in> {b0, x}" using Cons.prems by (auto simp: b1_def)
  have small: "b0 = b1 \<or> lt b1 b0" "x = b1 \<or> lt b1 x"
    using assms(1) [of x b0] Cons.prems by (auto simp: b1_def)
  obtain b where b: "foldl (pick lt) (Some b1) xs = Some b" "b \<in> insert b1 (set xs)"
    "\<forall>y\<in>insert b1 (set xs). y = b \<or> lt b y"
    using Cons.IH [OF b1(1)] Cons.prems(2) by auto
  have "b \<in> S" using b(2) b1(1) Cons.prems(2) by auto
  then have "y = b \<or> lt b y" if "y = b0 \<or> y = x" for y
    using small b(3) that assms(2) [of b b1 y] b1(1) Cons.prems by auto
  then show ?case using b b1(2) by (intro exI [of _ b]) (auto simp: b1_def split: if_splits)
qed simp

lemma foldl_pick_None:
  assumes "\<And>a b. a \<in> set xs \<Longrightarrow> b \<in> set xs \<Longrightarrow> a = b \<or> lt a b \<or> lt b a"
    and "\<And>a b c. a \<in> set xs \<Longrightarrow> b \<in> set xs \<Longrightarrow> c \<in> set xs \<Longrightarrow> lt a b \<Longrightarrow> lt b c \<Longrightarrow> lt a c"
  shows "case foldl (pick lt) None xs of
      None \<Rightarrow> xs = []
    | Some b \<Rightarrow> b \<in> set xs \<and> (\<forall>x\<in>set xs. x = b \<or> lt b x)"
proof (cases xs)
  case (Cons x ys)
  have "\<exists>b. foldl (pick lt) (Some x) ys = Some b \<and> b \<in> insert x (set ys) \<and> (\<forall>y\<in>insert x (set ys). y = b \<or> lt b y)"
  proof (rule foldl_pick_Some [of "set xs"])
    show "a = b \<or> lt a b \<or> lt b a" if "a \<in> set xs" "b \<in> set xs" for a b using assms(1) that .
    show "lt a c" if "a \<in> set xs" "b \<in> set xs" "c \<in> set xs" "lt a b" "lt b c" for a b c using assms(2) that .
  qed (auto simp: Cons)
  then show ?thesis by (auto simp: Cons)
qed simp

section \<open>The order of canonical patterns is total\<close>

lemma bytes_compare_self [simp]: "bytes_compare v v = 0"
  by simp

lemma compare_keys_Cons_neg:
  "compare_keys ((v, a) # xs) ((w, b) # ys) < 0 \<longleftrightarrow>
     bytes_compare v w < 0 \<or> v = w \<and> (ord a < ord b \<or> a = b \<and> compare_keys xs ys < 0)"
  by auto

lemma compare_keys_trans: "compare_keys xs ys < 0 \<Longrightarrow> compare_keys ys zs < 0 \<Longrightarrow> compare_keys xs zs < 0"
proof (induction xs ys arbitrary: zs rule: compare_keys.induct)
  case (2 y ys)
  then show ?case by (cases zs) auto
next
  case (4 v a xs w b ys)
  show ?case
  proof (cases zs)
    case (Cons z zs')
    obtain u c where z: "z = (u, c)" by fastforce
    have "v = w \<Longrightarrow> a = b \<Longrightarrow> compare_keys xs ys < 0 \<Longrightarrow> compare_keys ys zs' < 0 \<Longrightarrow> compare_keys xs zs' < 0"
      using "4.IH" by simp
    then show ?thesis
      using "4.prems" bytes_compare_trans [of v w u] less_trans [of "ord a" "ord b" "ord c"]
      unfolding Cons z compare_keys_Cons_neg by blast
  qed (use 4 in simp)
qed auto

definition pattern_before :: "st_token list \<Rightarrow> st_token list \<Rightarrow> bool" where
  "pattern_before ts us \<longleftrightarrow> st_netpattern_compare_view (np_view (pattern_code ts)) (np_view (pattern_code us)) < 0"

lemma pattern_before_keys:
  assumes "pattern_ok ts" "pattern_ok us"
  shows "pattern_before ts us \<longleftrightarrow> compare_keys (map token_key ts) (map token_key us) < 0"
  using compare_view_canonical [OF decode_pattern_code [OF assms(1)] decode_pattern_code [OF assms(2)]]
  by (simp add: pattern_before_def)

lemma pattern_before_total:
  assumes "pattern_ok ts" "pattern_ok us"
  shows "ts = us \<or> pattern_before ts us \<or> pattern_before us ts"
  using map_token_key_inject [OF pattern_ok_wf [OF assms(1)] pattern_ok_wf [OF assms(2)]]
    compare_keys_zero [of "map token_key ts" "map token_key us"]
    compare_keys_antisym [of "map token_key ts" "map token_key us"]
  by (auto simp: pattern_before_keys assms)

lemma pattern_before_trans:
  "pattern_ok a \<Longrightarrow> pattern_ok b \<Longrightarrow> pattern_ok c \<Longrightarrow> pattern_before a b \<Longrightarrow> pattern_before b c \<Longrightarrow> pattern_before a c"
  using compare_keys_trans by (auto simp: pattern_before_keys)

section \<open>The candidates are the accepting patterns\<close>

lemma set_map_filter: "set (List.map_filter f xs) = {y. \<exists>x\<in>set xs. f x = Some y}"
  by (induction xs) (auto simp: map_filter_simps split: option.splits)

lemma pattern_accepts_path:
  "pattern_accepts us args \<longleftrightarrow> length us = length args \<and> path_accepts us (classify_argv args)"
proof -
  have len: "length (classify_argv args) = length args" by (simp add: classify_argv_def)
  have rel: "(\<lambda>t c. token_accepts t (tk_text c) (tk_type c)) = follows_token"
    by (simp add: fun_eq_iff follows_token_def)
  show ?thesis
    unfolding pattern_accepts_def path_accepts_def rel
    using len list_all2_lengthD [of follows_token us "classify_argv args"] by auto
qed

lemma state_entry_iff:
  assumes core: "core_inv F p" and q: "q < length (p_states p)"
  shows "state_entry p q = Some e \<longleftrightarrow>
    (\<exists>pid us. policy_ids p pid = Some us \<and> path edge (p_states p) 0 us = Some q \<and> e = p_entries p ! pid)"
proof -
  note inv = core_invD [OF core]
  show ?thesis
  proof
    assume "state_entry p q = Some e"
    then obtain pid where "ps_pattern_id (p_states p ! q) = Some pid" "e = p_entries p ! pid"
      by (auto simp: state_entry_def split: option.splits if_splits)
    then show "\<exists>pid us. policy_ids p pid = Some us \<and> path edge (p_states p) 0 us = Some q \<and> e = p_entries p ! pid"
      using names_iff [OF inv(2) q] by blast
  next
    assume "\<exists>pid us. policy_ids p pid = Some us \<and> path edge (p_states p) 0 us = Some q \<and> e = p_entries p ! pid"
    then obtain pid us where pid: "policy_ids p pid = Some us" "path edge (p_states p) 0 us = Some q"
      "e = p_entries p ! pid" by blast
    then have "ps_pattern_id (p_states p ! q) = Some pid" using names_iff [OF inv(2) q] by blast
    then show "state_entry p q = Some e" using policy_ids_entry [OF inv(3) pid(1)] pid(3) by (simp add: state_entry_def)
  qed
qed

lemma set_candidates:
  assumes core: "core_inv F p"
  shows "e \<in> set (candidates p (classify_argv args)) \<longleftrightarrow>
    (\<exists>pid us. policy_ids p pid = Some us \<and> pattern_accepts us args \<and> e = p_entries p ! pid)"
proof -
  note inv = core_invD [OF core]
  let ?cmd = "classify_argv args"
  have len: "length ?cmd = length args" by (simp add: classify_argv_def)
  have "e \<in> set (candidates p ?cmd) \<longleftrightarrow> (\<exists>q us. path edge (p_states p) 0 us = Some q \<and> path_accepts us ?cmd \<and>
      length us = length args \<and> state_entry p q = Some e)"
    unfolding candidates_def set_map_filter walk.set_taken using walk_reach [OF inv(1)]
    by (auto simp: candidate_def len split: if_splits)
  also have "\<dots> \<longleftrightarrow> (\<exists>pid us. policy_ids p pid = Some us \<and> pattern_accepts us args \<and> e = p_entries p ! pid)"
    (is "?L \<longleftrightarrow> ?R")
  proof
    assume ?L
    then obtain q us where us: "path edge (p_states p) 0 us = Some q" "path_accepts us ?cmd"
      "length us = length args" "state_entry p q = Some e" by blast
    have q: "q < length (p_states p)" using trie_path_bound [OF inv(1) trie_root [OF inv(1)] us(1)] .
    obtain pid vs where "policy_ids p pid = Some vs" "path edge (p_states p) 0 vs = Some q" "e = p_entries p ! pid"
      using state_entry_iff [OF core q] us(4) by blast
    moreover from this have "vs = us" using path_unique [OF trie_tree [OF inv(1)] _ us(1)] by blast
    ultimately show ?R using us(2,3) pattern_accepts_path by blast
  next
    assume ?R
    then obtain pid us where us: "policy_ids p pid = Some us" "pattern_accepts us args" "e = p_entries p ! pid"
      by blast
    then obtain q where q: "path edge (p_states p) 0 us = Some q" using names_path [OF inv(2)] by blast
    then have "q < length (p_states p)" using trie_path_bound [OF inv(1) trie_root [OF inv(1)]] by blast
    then show ?L using state_entry_iff [OF core] us q pattern_accepts_path by blast
  qed
  finally show ?thesis .
qed

lemma preferred_before:
  assumes inv: "policy_inv F p" and ids: "policy_ids p i = Some ts" "policy_ids p j = Some us"
  shows "pattern_entry_preferred (p_entries p ! i) (p_entries p ! j) \<longleftrightarrow> pattern_before ts us"
proof -
  have core: "core_inv F p" using inv by (simp add: policy_inv_def)
  note E = policy_ids_entry [OF core_invD(3) [OF core]]
  have "pattern_subsumes ts us = pattern_subsumes us ts"
    using inv ids by (auto simp: policy_inv_iff policy_patterns_def)
  then show ?thesis
    using E [OF ids(1)] E [OF ids(2)] by (simp add: pattern_entry_preferred_def pattern_before_def)
qed

text \<open>The first of a set of patterns.\<close>

definition first_of :: "st_token list set \<Rightarrow> st_token list \<Rightarrow> bool" where
  "first_of S ts \<longleftrightarrow> ts \<in> S \<and> (\<forall>us\<in>S. us = ts \<or> pattern_before ts us)"

text \<open>Picking among the entries of the patterns with a property finds the first of them.\<close>

lemma first_candidate:
  assumes inv: "policy_inv F p"
    and cand: "\<And>e. e \<in> set cs \<longleftrightarrow> (\<exists>pid us. policy_ids p pid = Some us \<and> Q us \<and> e = p_entries p ! pid)"
  shows "case foldl (pick pattern_entry_preferred) None cs of
      None \<Rightarrow> {ts \<in> policy_patterns p. Q ts} = {}
    | Some e \<Rightarrow> \<exists>ts. pe_pattern e = Some (pattern_code ts) \<and> first_of {ts \<in> policy_patterns p. Q ts} ts"
proof -
  have core: "core_inv F p" using inv by (simp add: policy_inv_def)
  note I = core_invD [OF core]
  have ok: "policy_ids p pid = Some us \<Longrightarrow> pattern_ok us" for pid us using policy_ids_entry [OF I(3)] by blast
  have folded: "case foldl (pick pattern_entry_preferred) None cs of
      None \<Rightarrow> cs = []
    | Some b \<Rightarrow> b \<in> set cs \<and> (\<forall>x\<in>set cs. x = b \<or> pattern_entry_preferred b x)"
  proof (rule foldl_pick_None)
    fix a b
    assume "a \<in> set cs" "b \<in> set cs"
    then obtain i j ts us where e: "policy_ids p i = Some ts" "a = p_entries p ! i" "policy_ids p j = Some us" "b = p_entries p ! j"
      unfolding cand by blast
    then have "ts = us \<or> pattern_before ts us \<or> pattern_before us ts" using pattern_before_total ok by blast
    then show "a = b \<or> pattern_entry_preferred a b \<or> pattern_entry_preferred b a"
      using names_inject [OF I(1,2) e(1), of j] e preferred_before [OF inv] by blast
  next
    fix a b c
    assume "a \<in> set cs" "b \<in> set cs" "c \<in> set cs" and lt: "pattern_entry_preferred a b" "pattern_entry_preferred b c"
    then obtain i j k ts us vs where e: "policy_ids p i = Some ts" "a = p_entries p ! i" "policy_ids p j = Some us"
      "b = p_entries p ! j" "policy_ids p k = Some vs" "c = p_entries p ! k"
      unfolding cand by blast
    then show "pattern_entry_preferred a c"
      using lt pattern_before_trans [OF ok ok ok, OF e(1,3,5)] preferred_before [OF inv] by blast
  qed
  show ?thesis
  proof (cases "foldl (pick pattern_entry_preferred) None cs")
    case None
    then have "cs = []" using folded by simp
    then have "{ts \<in> policy_patterns p. Q ts} = {}" using cand by (auto simp: policy_patterns_def)
    then show ?thesis using None by simp
  next
    case (Some b)
    then have b: "b \<in> set cs" "\<And>x. x \<in> set cs \<Longrightarrow> x = b \<or> pattern_entry_preferred b x" using folded by simp_all
    obtain i ts where ts: "policy_ids p i = Some ts" "Q ts" "b = p_entries p ! i"
      using b(1) unfolding cand by blast
    have "us = ts \<or> pattern_before ts us" if us: "policy_ids p j = Some us" "Q us" for j us
    proof -
      have "p_entries p ! j = b \<or> pattern_entry_preferred b (p_entries p ! j)" using b(2) us cand by blast
      moreover have "us = ts" if "p_entries p ! j = b"
        using that policy_ids_entry [OF I(3) us(1)] policy_ids_entry [OF I(3) ts(1)] ts(3) by simp
      ultimately show ?thesis using preferred_before [OF inv ts(1) us(1)] ts(3) by blast
    qed
    then have "first_of {ts \<in> policy_patterns p. Q ts} ts"
      using ts by (auto simp: first_of_def policy_patterns_def)
    then show ?thesis using Some policy_ids_entry [OF I(3) ts(1)] ts(3) by auto
  qed
qed

lemma best_is_first:
  assumes inv: "policy_inv F p"
  shows "case mw_best (matching_walk_locked p (classify_argv args)) of
      None \<Rightarrow> \<not> policy_accepts p args
    | Some e \<Rightarrow> \<exists>ts. pe_pattern e = Some (pattern_code ts) \<and>
        first_of {ts \<in> policy_patterns p. pattern_accepts ts args} ts"
proof -
  have "core_inv F p" using inv by (simp add: policy_inv_def)
  from first_candidate [OF inv set_candidates [OF this], of args] show ?thesis
    unfolding matching_walk_best policy_accepts_def
    by (cases "foldl (pick pattern_entry_preferred) None (candidates p (classify_argv args))") auto
qed

end
