(* ===== verification/Filters.thy ===== *)
theory Filters imports Matching begin

text \<open>
  The filters of a policy. Their rebuild visits every state of the first eight levels once, so its
  bounded queue never overflows; afterwards each level knows every key of the trie at its depth,
  and no level rejects an argument that a pattern of the policy accepts there.
\<close>

section \<open>The order of the rebuild\<close>

definition rebuild_next :: "policy_state list \<Rightarrow> nat \<times> nat \<Rightarrow> (nat \<times> nat) list" where
  "rebuild_next states = (\<lambda>(q, d).
     if d \<ge> FILTER_POS_LEVELS then [] else map (\<lambda>c. (ce_target c, d + 1)) (node_children (states ! q)))"

definition rebuild_left :: "(nat \<times> nat) list \<Rightarrow> nat multiset" where
  "rebuild_left queue = image_mset (\<lambda>e. FILTER_POS_LEVELS - snd e) (mset queue)"

lemma rebuild_left_step: "(rebuild_left (queue @ rebuild_next states e), rebuild_left (e # queue)) \<in> mult less_than"
proof -
  have "(rebuild_left queue + rebuild_left (rebuild_next states e), rebuild_left queue + {#FILTER_POS_LEVELS - snd e#})
      \<in> mult less_than"
    by (intro one_step_implies_mult) (auto simp: rebuild_left_def rebuild_next_def split: prod.splits if_splits)
  then show ?thesis by (simp add: rebuild_left_def ac_simps)
qed

function rebuild_order :: "policy_state list \<Rightarrow> (nat \<times> nat) list \<Rightarrow> (nat \<times> nat) list" where
  "rebuild_order states [] = []"
| "rebuild_order states (e # queue) = e # rebuild_order states (queue @ rebuild_next states e)"
  by pat_completeness auto
termination
  by (relation "inv_image (mult less_than) (\<lambda>(states, queue). rebuild_left queue)")
     (simp_all add: wf_mult rebuild_left_step)

interpretation rebuild: queue_order "rebuild_next states" "\<lambda>e. FILTER_POS_LEVELS - snd e" "rebuild_order states" for states
  by unfold_locales (auto simp: rebuild_next_def split: prod.splits if_splits)

text \<open>An entry of the queue names the end of a path of the length it carries.\<close>

definition at_depth :: "policy_state list \<Rightarrow> nat \<times> nat \<Rightarrow> bool" where
  "at_depth st e \<longleftrightarrow> (\<exists>us. length us = snd e \<and> path edge st 0 us = Some (fst e))"

lemma at_depth_bound: "trie_inv st \<Longrightarrow> at_depth st e \<Longrightarrow> fst e < length st"
  using trie_path_bound trie_root unfolding at_depth_def by blast

lemma rebuild_next_edge:
  assumes "trie_inv st" "at_depth st e" "x \<in> set (rebuild_next st e)"
  shows "\<exists>k. edge (st ! fst e) k = Some (fst x) \<and> snd x = snd e + 1 \<and> snd e < FILTER_POS_LEVELS"
proof -
  obtain c where "c \<in> set (node_children (st ! fst e))" "x = (ce_target c, snd e + 1)" "snd e < FILTER_POS_LEVELS"
    using assms(3) by (auto simp: rebuild_next_def split: prod.splits if_splits)
  then show ?thesis
    using edge_Some_iff [OF trie_node [OF assms(1) at_depth_bound [OF assms(1,2)]], of "child_token c" "fst x"] by auto
qed

lemma at_depth_next:
  assumes "trie_inv st" "at_depth st e" "x \<in> set (rebuild_next st e)"
  shows "at_depth st x"
proof -
  obtain us where us: "length us = snd e" "path edge st 0 us = Some (fst e)"
    using assms(2) by (auto simp: at_depth_def)
  obtain k where "edge (st ! fst e) k = Some (fst x)" "snd x = snd e + 1" using rebuild_next_edge [OF assms] by blast
  then show ?thesis using us unfolding at_depth_def by (intro exI [of _ "us @ [k]"]) (simp add: path_snoc)
qed

lemma at_depth_unique:
  assumes "trie_inv st" "at_depth st a" "at_depth st b" "fst a = fst b"
  shows "a = b"
proof -
  obtain us vs where "length us = snd a" "path edge st 0 us = Some (fst a)"
    "length vs = snd b" "path edge st 0 vs = Some (fst a)"
    using assms(2-4) by (auto simp: at_depth_def)
  then have "snd a = snd b" using path_unique [OF trie_tree [OF assms(1)]] by metis
  with assms(4) show ?thesis by (rule prod_eqI)
qed

lemma distinct_targets:
  assumes "trie_inv st" "q < length st"
  shows "distinct (map ce_target (node_children (st ! q)))"
proof -
  note node = trie_node [OF assms]
  have "inj_on ce_target (set (node_children (st ! q)))"
  proof (rule inj_onI)
    fix c d
    assume cd: "c \<in> set (node_children (st ! q))" "d \<in> set (node_children (st ! q))" "ce_target c = ce_target d"
    then have "edge (st ! q) (child_token c) = Some (ce_target c)" "edge (st ! q) (child_token d) = Some (ce_target c)"
      using edge_Some_iff [OF node] by auto
    then have "child_token c = child_token d"
      using tree_unique [OF trie_tree [OF assms(1)] assms(2) assms(2)] by blast
    then show "c = d" using node cd by (auto simp: node_inv_def distinct_map inj_on_def)
  qed
  moreover have "distinct (node_children (st ! q))" using node by (auto simp: node_inv_def distinct_map)
  ultimately show ?thesis by (simp add: distinct_map)
qed

lemma order_at_depth:
  assumes inv: "trie_inv st" and e: "e \<in> set (rebuild_order st [(0, 0)])"
  shows "at_depth st e"
proof -
  have root: "at_depth st (0, 0)" by (auto simp: at_depth_def)
  have "((0, 0), e) \<in> (follows (rebuild_next st))\<^sup>*" using e unfolding rebuild.set_taken by simp
  then show ?thesis
    by (induction rule: rtrancl_induct) (auto simp: follows_def root dest: at_depth_next [OF inv])
qed

lemma rebuild_order_bound:
  assumes inv: "trie_inv st"
  shows "length (rebuild_order st [(0, 0)]) \<le> length st"
proof -
  let ?os = "rebuild_order st [(0, 0)]"
  have root: "at_depth st (0, 0)" by (auto simp: at_depth_def)
  have "distinct ?os"
  proof (rule rebuild.distinct_taken [where ok = "at_depth st"])
    show "at_depth st b" if "at_depth st a" "b \<in> set (rebuild_next st a)" for a b
      using at_depth_next [OF inv that] .
    show "a = b" if "at_depth st a" "at_depth st b" "x \<in> set (rebuild_next st a)" "x \<in> set (rebuild_next st b)" for a b x
    proof -
      have "fst a = fst b"
        using rebuild_next_edge [OF inv that(1,3)] rebuild_next_edge [OF inv that(2,4)]
          tree_unique [OF trie_tree [OF inv] at_depth_bound [OF inv that(1)] at_depth_bound [OF inv that(2)]] by blast
      then show ?thesis using at_depth_unique [OF inv that(1,2)] by blast
    qed
    show "distinct (rebuild_next st a)" if a: "at_depth st a" for a
      using distinct_targets [OF inv at_depth_bound [OF inv a]]
      by (auto simp: rebuild_next_def distinct_map inj_on_def split: prod.splits)
    show "(0, 0) \<notin> set (rebuild_next st a)" for a by (auto simp: rebuild_next_def split: prod.splits)
  qed (rule root)
  moreover have at: "at_depth st e" if "e \<in> set ?os" for e using order_at_depth [OF inv that] .
  then have "inj_on fst (set ?os)" using at_depth_unique [OF inv] by (intro inj_onI) blast
  ultimately have "length ?os = card (fst ` set ?os)" by (simp add: card_image distinct_card)
  also have "\<dots> \<le> card {..<length st}"
  proof (rule card_mono)
    show "fst ` set ?os \<subseteq> {..<length st}" using at_depth_bound [OF inv at] by blast
  qed simp
  finally show ?thesis by simp
qed

section \<open>The rebuild is whole\<close>

definition rebuild_visit :: "'f filter_ops \<Rightarrow> policy_state list \<Rightarrow> 'f levels \<Rightarrow> nat \<times> nat \<Rightarrow> 'f levels" where
  "rebuild_visit F st lv e =
     (if snd e \<ge> FILTER_POS_LEVELS then lv
      else foldl (\<lambda>lv c. rebuild_note F (snd e) c lv) lv (node_children (st ! fst e)))"

lemma rebuild_children_whole:
  assumes "\<forall>c\<in>set cs. \<not> (ce_type c = ST_TYPE_LITERAL \<and> ce_text c = None)" "tail + length cs \<le> room"
  shows "rebuild_children F room d cs tail lv =
    (True, tail + length cs, map (\<lambda>c. (ce_target c, d + 1)) cs, foldl (\<lambda>lv c. rebuild_note F d c lv) lv cs)"
  using assms by (induction cs arbitrary: tail lv) (auto simp: Let_def)

lemma stored_text: "stored_child wild c \<Longrightarrow> \<not> (ce_type c = ST_TYPE_LITERAL \<and> ce_text c = None)"
proof
  assume A: "stored_child wild c" "ce_type c = ST_TYPE_LITERAL \<and> ce_text c = None"
  then have k: "wf_token (child_token c)" and c: "c = new_child (child_token c) (ce_target c)"
    unfolding stored_child_def by blast+
  have "tk_type (child_token c) = ST_TYPE_LITERAL" using A(2) c new_child_simps(2) by metis
  then have "is_literal_child (child_token c)" using is_literal_child_wf [OF k] wf_token_wild [OF k] by blast
  moreover have "ce_text c = ce_text (new_child (child_token c) (ce_target c))" by (rule arg_cong [OF c])
  ultimately show False using A(2) by (simp add: new_child_def)
qed

lemma rebuild_loop_whole:
  assumes inv: "trie_inv st"
  shows "\<forall>e\<in>set queue. at_depth st e \<Longrightarrow> tail + length (rebuild_order st queue) \<le> length st + length queue \<Longrightarrow>
    rebuild_loop F st queue tail lv = (True, foldl (rebuild_visit F st) lv (rebuild_order st queue))"
proof (induction queue arbitrary: tail lv rule: rebuild.queue_induct [where states = st])
  case (Cons e queue)
  obtain q d where e: "e = (q, d)" by fastforce
  let ?cs = "node_children (st ! q)"
  have q: "q < length st" using at_depth_bound [OF inv, of e] Cons.prems(1) e by simp
  show ?case
  proof (cases "d \<ge> FILTER_POS_LEVELS")
    case True
    then have "rebuild_next st e = []" by (simp add: rebuild_next_def e)
    then show ?thesis
      using Cons.IH [of tail lv] Cons.prems True by (simp add: e rebuild_visit_def)
  next
    case False
    have step: "rebuild_next st e = map (\<lambda>c. (ce_target c, d + 1)) ?cs" using False by (simp add: rebuild_next_def e)
    have len: "length queue + length ?cs \<le> length (rebuild_order st (queue @ rebuild_next st e))"
      using rebuild.length_taken [of "queue @ rebuild_next st e" st] by (simp add: step)
    then have room: "tail + length ?cs \<le> length st" using Cons.prems(2) by simp
    have texts: "\<forall>c\<in>set ?cs. \<not> (ce_type c = ST_TYPE_LITERAL \<and> ce_text c = None)"
      using stored_text [OF stored_in_node [OF trie_node [OF inv q]]] by blast
    have "rebuild_loop F st (e # queue) tail lv =
        rebuild_loop F st (queue @ rebuild_next st e) (tail + length ?cs) (rebuild_visit F st lv e)"
      using rebuild_children_whole [OF texts room, of F d lv] False
      by (simp add: e node_children_def [symmetric] step [unfolded e] rebuild_visit_def)
    also have "\<dots> = (True, foldl (rebuild_visit F st) (rebuild_visit F st lv e)
        (rebuild_order st (queue @ rebuild_next st e)))"
    proof (rule Cons.IH)
      show "\<forall>x\<in>set (queue @ rebuild_next st e). at_depth st x"
        using Cons.prems(1) at_depth_next [OF inv, of e] by auto
      show "tail + length ?cs + length (rebuild_order st (queue @ rebuild_next st e)) \<le>
          length st + length (queue @ rebuild_next st e)"
        using Cons.prems(2) by (simp add: step)
    qed
    finally show ?thesis by simp
  qed
qed simp

section \<open>What the levels know\<close>

definition knows :: "'f filter_ops \<Rightarrow> 'f levels \<Rightarrow> nat \<Rightarrow> st_token \<Rightarrow> bool" where
  "knows F lv d k \<longleftrightarrow> level_ok F (lv_compound lv ! d) (lv_filters lv ! d) (lv_masks lv ! d) {k}"

definition sized :: "'f levels \<Rightarrow> bool" where
  "sized lv \<longleftrightarrow> length (lv_compound lv) = FILTER_POS_LEVELS \<and> length (lv_filters lv) = FILTER_POS_LEVELS \<and>
     length (lv_masks lv) = FILTER_POS_LEVELS"

lemma rebuild_note_sized [simp]: "sized (rebuild_note F d c lv) = sized lv"
  by (auto simp: sized_def rebuild_note_def split: option.splits)

lemma rebuild_note_mono:
  assumes F: "no_false_negatives F" and "sized lv" "d < FILTER_POS_LEVELS" and k: "knows F lv i k"
  shows "knows F (rebuild_note F d c lv) i k"
proof (cases "ce_compound c \<or> ce_type c \<noteq> ST_TYPE_LITERAL")
  case True
  then show ?thesis using assms
    by (cases "i = d") (auto simp: knows_def level_ok_def rebuild_note_def sized_def bit_or_iff split: option.splits)
next
  case False
  then show ?thesis
  proof (cases "i = d")
    case True
    show ?thesis
    proof (cases "lv_filters lv ! d")
      case (Some f)
      then show ?thesis
        using False True assms F
        by (cases "vf_insert F f (filter_hash_fnv1a (child_text c))")
           (auto simp: knows_def level_ok_def rebuild_note_def sized_def no_false_negatives_def)
    qed (use False True k in \<open>simp add: rebuild_note_def\<close>)
  qed (use k in \<open>auto simp: knows_def rebuild_note_def split: option.splits\<close>)
qed

lemma rebuild_note_knows:
  assumes F: "no_false_negatives F" and "sized lv" "d < FILTER_POS_LEVELS" and c: "stored_child wild c"
  shows "knows F (rebuild_note F d c lv) d (child_token c)"
proof -
  let ?k = "child_token c"
  have k: "wf_token ?k" and new: "c = new_child ?k (ce_target c)" using c unfolding stored_child_def by blast+
  have fields: "ce_compound c = tk_compound ?k" "ce_type c = tk_type ?k"
    using new new_child_simps(2,3) by metis+
  show ?thesis
  proof (cases "tk_compound ?k \<or> tk_type ?k \<noteq> ST_TYPE_LITERAL")
    case True
    then show ?thesis using assms(2,3)
      by (auto simp: knows_def level_ok_def rebuild_note_def sized_def fields bit_or_iff split: option.splits)
  next
    case False
    then have "is_literal_child ?k" using is_literal_child_wf [OF k] wf_token_wild [OF k] by blast
    then have "child_text c = tk_text ?k" using child_text_new_child [OF k] new by metis
    then show ?thesis using assms(2,3) False F
      by (auto simp: knows_def level_ok_def rebuild_note_def sized_def fields no_false_negatives_def split: option.splits)
  qed
qed

lemma rebuild_notes:
  assumes F: "no_false_negatives F" and "d < FILTER_POS_LEVELS"
  shows "sized lv \<Longrightarrow> \<forall>c\<in>set cs. \<exists>wild. stored_child wild c \<Longrightarrow>
    sized (foldl (\<lambda>lv c. rebuild_note F d c lv) lv cs) \<and>
    (\<forall>i k. knows F lv i k \<longrightarrow> knows F (foldl (\<lambda>lv c. rebuild_note F d c lv) lv cs) i k) \<and>
    (\<forall>c\<in>set cs. knows F (foldl (\<lambda>lv c. rebuild_note F d c lv) lv cs) d (child_token c))"
proof (induction cs arbitrary: lv)
  case (Cons c cs)
  then obtain wild where "stored_child wild c" by auto
  then show ?case
    using Cons.IH [of "rebuild_note F d c lv"] Cons.prems rebuild_note_mono [OF F _ assms(2)]
      rebuild_note_knows [OF F _ assms(2)] by simp
qed simp

lemma rebuild_visits:
  assumes F: "no_false_negatives F" and inv: "trie_inv st"
  shows "sized lv \<Longrightarrow> \<forall>e\<in>set es. fst e < length st \<Longrightarrow>
    sized (foldl (rebuild_visit F st) lv es) \<and>
    (\<forall>i k. knows F lv i k \<longrightarrow> knows F (foldl (rebuild_visit F st) lv es) i k) \<and>
    (\<forall>e\<in>set es. snd e < FILTER_POS_LEVELS \<longrightarrow>
       (\<forall>c\<in>set (node_children (st ! fst e)). knows F (foldl (rebuild_visit F st) lv es) (snd e) (child_token c)))"
proof (induction es arbitrary: lv)
  case (Cons e es)
  have "\<forall>c\<in>set (node_children (st ! fst e)). \<exists>wild. stored_child wild c"
    using stored_in_node [OF trie_node [OF inv]] Cons.prems(2) by auto
  then have V: "sized (rebuild_visit F st lv e) \<and> (\<forall>i k. knows F lv i k \<longrightarrow> knows F (rebuild_visit F st lv e) i k) \<and>
      (snd e < FILTER_POS_LEVELS \<longrightarrow>
        (\<forall>c\<in>set (node_children (st ! fst e)). knows F (rebuild_visit F st lv e) (snd e) (child_token c)))"
    using rebuild_notes [OF F, of "snd e" lv "node_children (st ! fst e)"] Cons.prems(1)
    by (cases "snd e < FILTER_POS_LEVELS") (simp_all add: rebuild_visit_def)
  then show ?case
    using Cons.IH [of "rebuild_visit F st lv e"] Cons.prems(2) by (simp add: all_conj_distrib)
qed simp

section \<open>The rebuild of a policy\<close>

definition fresh_levels :: "'f filter_ops \<Rightarrow> 'f st_policy \<Rightarrow> 'f levels" where
  "fresh_levels F p =
     \<lparr>lv_filters = replicate FILTER_POS_LEVELS
        (vf_create F (max 64 (length (p_states p) + length (p_states p) div 4))),
      lv_masks = replicate FILTER_POS_LEVELS 0, lv_compound = replicate FILTER_POS_LEVELS False\<rparr>"

definition rebuilt_levels :: "'f filter_ops \<Rightarrow> 'f st_policy \<Rightarrow> 'f levels" where
  "rebuilt_levels F p =
     foldl (rebuild_visit F (p_states p)) (fresh_levels F p) (rebuild_order (p_states p) [(0, 0)])"

lemma rebuild_whole:
  assumes "trie_inv (p_states p)"
  shows "rebuild_loop F (p_states p) [(0, 0)] 1 (fresh_levels F p) = (True, rebuilt_levels F p)"
  unfolding rebuilt_levels_def
proof (rule rebuild_loop_whole [OF assms])
  show "\<forall>e\<in>set [(0, 0)]. at_depth (p_states p) e" by (auto simp: at_depth_def)
  show "1 + length (rebuild_order (p_states p) [(0, 0)]) \<le> length (p_states p) + length [(0::nat, 0::nat)]"
    using rebuild_order_bound [OF assms] by simp
qed

lemma rebuild_filters_eq:
  assumes "trie_inv (p_states p)"
  shows "policy_rebuild_filters F p =
    p\<lparr>p_filters := lv_filters (rebuilt_levels F p), p_masks := lv_masks (rebuilt_levels F p),
      p_compound := lv_compound (rebuilt_levels F p), p_built := replicate FILTER_POS_LEVELS (p_epoch p),
      p_stats := (p_stats p)\<lparr>filter_rebuild_count := filter_rebuild_count (p_stats p) + 1\<rparr>\<rparr>"
  using rebuild_whole [OF assms, of F] by (simp add: policy_rebuild_filters_def Let_def fresh_levels_def)

lemma rebuilt_levels_know:
  assumes F: "no_false_negatives F" and inv: "trie_inv (p_states p)"
  shows "sized (rebuilt_levels F p)"
    and "d < FILTER_POS_LEVELS \<Longrightarrow> k \<in> keys_at (p_states p) d \<Longrightarrow> knows F (rebuilt_levels F p) d k"
proof -
  let ?st = "p_states p" and ?es = "rebuild_order (p_states p) [(0, 0)]"
  have at: "at_depth ?st e" if "e \<in> set ?es" for e using order_at_depth [OF inv that] .
  have sized: "sized (fresh_levels F p)" by (simp add: sized_def fresh_levels_def)
  have bound: "\<forall>e\<in>set ?es. fst e < length ?st" using at_depth_bound [OF inv at] by blast
  note V = rebuild_visits [OF F inv sized bound, folded rebuilt_levels_def]
  show "sized (rebuilt_levels F p)" using V by blast
  assume d: "d < FILTER_POS_LEVELS" and k: "k \<in> keys_at ?st d"
  obtain ls r where ls: "length ls = d" "path edge ?st 0 (ls @ [k]) = Some r" using k by (auto simp: keys_at_def)
  then obtain q where q: "path edge ?st 0 ls = Some q" "edge (?st ! q) k = Some r"
    by (auto simp: path_snoc split: bind_splits)
  have "((0, 0), (q, length ls)) \<in> (follows (rebuild_next ?st))\<^sup>*"
    using q(1) d ls(1)
  proof (induction ls arbitrary: q d rule: rev_induct)
    case (snoc t us)
    from snoc.prems(1) obtain s where s: "path edge ?st 0 us = Some s" "edge (?st ! s) t = Some q"
      by (auto simp: path_snoc split: bind_splits)
    have "s < length ?st" using trie_path_bound [OF inv trie_root [OF inv] s(1)] .
    then have "(q, length us + 1) \<in> set (rebuild_next ?st (s, length us))"
      using s(2) snoc.prems(2,3) edge_Some_iff [OF trie_node [OF inv]] by (auto simp: rebuild_next_def)
    moreover have "((0, 0), (s, length us)) \<in> (follows (rebuild_next ?st))\<^sup>*"
      using snoc.IH [OF s(1), of "length us"] snoc.prems(2,3) by simp
    ultimately show ?case by (auto simp: follows_def intro: rtrancl_into_rtrancl)
  qed simp
  then have mem: "(q, d) \<in> set ?es" unfolding rebuild.set_taken using ls(1) by auto
  have "q < length ?st" using trie_path_bound [OF inv trie_root [OF inv] q(1)] .
  then obtain c where "c \<in> set (node_children (?st ! q))" "child_token c = k"
    using edge_Some_iff [OF trie_node [OF inv]] q(2) by blast
  then show "knows F (rebuilt_levels F p) d k" using V mem d by fastforce
qed

lemma level_ok_knows: "(\<forall>k\<in>K. level_ok F c f m {k}) \<Longrightarrow> level_ok F c f m K"
  by (auto simp: level_ok_def split: option.splits)

lemma stats_irrelevant [simp]:
  "policy_ids (q\<lparr>p_stats := x\<rparr>) = policy_ids q" "policy_inv F (q\<lparr>p_stats := x\<rparr>) = policy_inv F q"
  "policy_patterns (q\<lparr>p_stats := x\<rparr>) = policy_patterns q"
proof -
  show ids: "policy_ids (q\<lparr>p_stats := x\<rparr>) = policy_ids q" by (rule policy_ids_cong) simp
  show "policy_inv F (q\<lparr>p_stats := x\<rparr>) = policy_inv F q"
    by (simp add: policy_inv_def core_inv_def levels_ok_def ids)
  show "policy_patterns (q\<lparr>p_stats := x\<rparr>) = policy_patterns q" by (simp add: policy_patterns_def ids)
qed

lemma rebuild_keeps:
  assumes F: "no_false_negatives F" and inv: "policy_inv F p"
  shows "policy_inv F (policy_rebuild_filters F p)"
    and "policy_patterns (policy_rebuild_filters F p) = policy_patterns p"
proof -
  let ?p = "policy_rebuild_filters F p" and ?lv = "rebuilt_levels F p"
  have core: "core_inv F p" using inv by (simp add: policy_inv_def)
  note I = core_invD [OF core]
  note eq = rebuild_filters_eq [OF I(1), of F]
  have ids: "policy_ids ?p = policy_ids p" by (rule policy_ids_cong) (simp add: eq)
  have "level_ok F (lv_compound ?lv ! d) (lv_filters ?lv ! d) (lv_masks ?lv ! d) (keys_at (p_states p) d)"
    if "d < FILTER_POS_LEVELS" for d
    using rebuilt_levels_know(2) [OF F I(1) that] by (intro level_ok_knows) (simp add: knows_def)
  then have "levels_ok F ?p (keys_at (p_states ?p))"
    using rebuilt_levels_know(1) [OF F I(1)] by (simp add: eq levels_ok_def sized_def)
  then show "policy_inv F ?p" using inv I ids by (simp add: policy_inv_def core_inv_def eq)
  show "policy_patterns ?p = policy_patterns p" by (simp add: policy_patterns_def ids)
qed

section \<open>No false rejection\<close>

lemma mask_overlap: "bit (a :: type_mask) n \<Longrightarrow> bit b n \<Longrightarrow> a AND b \<noteq> 0"
  by (metis bit_0_eq bit_and_iff bot_apply bot_bool_def)

lemma accepted_not_rejected:
  assumes inv: "policy_inv F p" and ts: "ts \<in> policy_patterns p" "pattern_accepts ts args"
    and i: "i < length args" "i < FILTER_POS_LEVELS"
  shows "\<not> position_rejects F p (classify_argv args) i"
proof -
  have core: "core_inv F p" using inv by (simp add: policy_inv_def)
  note I = core_invD [OF core]
  let ?c = "classify_argv args ! i"
  obtain pid where pid: "policy_ids p pid = Some ts" using ts(1) by (auto simp: policy_patterns_def)
  obtain q where q: "path edge (p_states p) 0 ts = Some q" using names_path [OF I(2) pid] by blast
  have len: "length ts = length args" and acc: "path_accepts ts (classify_argv args)"
    using ts(2) pattern_accepts_path by blast+
  have split: "ts = take i ts @ ts ! i # drop (Suc i) ts" using i len by (simp add: id_take_nth_drop)
  have "\<exists>r. path edge (p_states p) 0 (take i ts @ [ts ! i]) = Some r"
    using q path_append [of edge "p_states p" 0 "take i ts @ [ts ! i]" "drop (Suc i) ts"] split
    by (auto split: bind_splits)
  then have key: "ts ! i \<in> keys_at (p_states p) i" using i len by (auto simp: keys_at_def intro!: exI [of _ "take i ts"])
  have foll: "follows_token (ts ! i) ?c"
    using acc i len by (auto simp: path_accepts_def list_all2_conv_all_nth)
  have lvl: "level_ok F (p_compound p ! i) (p_filters p ! i) (p_masks p ! i) (keys_at (p_states p) i)"
    using I(7) i by (simp add: levels_ok_def)
  show ?thesis
  proof (cases "p_compound p ! i \<or> p_filters p ! i = None")
    case False
    then obtain f where f: "p_filters p ! i = Some f" by auto
    then have K: "\<not> tk_compound (ts ! i)" "if tk_type (ts ! i) = ST_TYPE_LITERAL
        then vf_lookup F f (filter_hash_fnv1a (tk_text (ts ! i)))
        else bit (p_masks p ! i) (type_index (tk_type (ts ! i)))"
      using lvl key False by (auto simp: level_ok_def)
    show ?thesis
    proof (cases "tk_type (ts ! i) = ST_TYPE_LITERAL")
      case True
      then show ?thesis using K foll f by (simp add: position_rejects_def follows_token_def token_accepts_def)
    next
      case False
      then have "bit (st_runtime_match_mask (tk_type ?c)) (type_index (tk_type (ts ! i)))"
        using K(1) foll by (simp add: follows_token_def token_accepts_def runtime_type_matches_bit)
      then show ?thesis using mask_overlap K(2) False by (simp add: position_rejects_def)
    qed
  qed (auto simp: position_rejects_def)
qed

end
