(* ===== verification/Suggestions.thy ===== *)
theory Suggestions imports Filters Recognisers begin

text \<open>
  The suggestions for a command that no pattern accepts: each is a canonical pattern that accepts
  the command, there are at most two of them, and the pattern they are based on is one of the policy.
\<close>

section \<open>Tokens that cover an argument\<close>

lemma runtime_reflexive [simp]: "st_runtime_type_matches t t"
  by (cases t) (simp_all add: runtime_type_matches_bit del: type_index.simps)

definition covers :: "st_token \<Rightarrow> st_token \<Rightarrow> bool" where
  "covers t c \<longleftrightarrow> \<not> tk_compound t \<and> tk_type t \<noteq> ST_TYPE_ANY \<and>
     (if tk_type t = ST_TYPE_LITERAL then tk_text t = tk_text c
      else st_runtime_type_matches (tk_type c) (tk_type t))"

lemma symbol_canonical: "t \<noteq> ST_TYPE_LITERAL \<Longrightarrow> canonical_spelling t (st_type_symbol t)"
  by (simp add: canonical_spelling_def)

lemma display_canon:
  assumes "covers t c"
  shows "canon_arg (token_arg (display_token t)) =
    plain_token (if tk_type t = ST_TYPE_LITERAL then tk_text t else st_type_symbol (tk_type t)) (tk_type t)"
proof (cases "tk_type t = ST_TYPE_LITERAL")
  case True
  then show ?thesis
    using assms by (simp add: display_token_def canon_arg_def token_arg_def typed_wildcard_def covers_def)
next
  case False
  then show ?thesis
    using assms canonical_wildcard_fixed(1) [OF symbol_canonical [OF False]]
    by (simp add: display_token_def canon_arg_def token_arg_def typed_wildcard_def covers_def Let_def)
qed

lemma display_follows:
  assumes "covers t c"
  shows "follows_token (canon_arg (token_arg (display_token t))) c"
proof (cases "tk_type t = ST_TYPE_LITERAL")
  case True
  then show ?thesis using assms display_canon [OF assms] by (simp add: follows_token_def token_accepts_def covers_def)
next
  case False
  have "st_wildcard_metadata (Some (st_type_symbol (tk_type t))) (tk_type t) = None"
    using symbol_canonical [OF False] type_symbols_plain(1) [of "tk_type t"] by (cases rule: canonical_metadata_cases) auto
  then show ?thesis
    using assms False display_canon [OF assms]
    by (simp add: follows_token_def token_accepts_def covers_def param_matches_def closed_metadata_matches_def)
qed

text \<open>A pattern the policy would take and that accepts the arguments.\<close>

definition pattern_of :: "bytes \<Rightarrow> bytes list \<Rightarrow> bool" where
  "pattern_of code args \<longleftrightarrow>
     (\<exists>ts. st_netpattern_decode_view (np_view code) = Inr ts \<and> pattern_ok ts \<and> pattern_accepts ts args)"

lemma build_covers:
  assumes "list_all2 covers tokens (classify_argv args)" "st_build_command_pattern n tokens = Inr code"
  shows "pattern_of code args"
proof -
  let ?ts = "map (\<lambda>t. canon_arg (token_arg (display_token t))) tokens"
  have "st_netpattern_encode_owned (Some (map token_arg (map display_token tokens))) = Inr code"
    using assms(2) by (auto simp: st_build_command_pattern_def st_build_pattern_def split: if_splits)
  from encode_decode [OF this]
  have dec: "st_netpattern_decode_view (np_view code) = Inr ?ts" by (simp add: o_def)
  have len: "length (classify_argv args) = length args" by (simp add: classify_argv_def)
  have "list_all2 follows_token ?ts (classify_argv args)"
    using assms(1) display_follows by (simp add: list_all2_conv_all_nth)
  then have acc: "pattern_accepts ?ts args"
    using list_all2_lengthD [OF assms(1)] len by (simp add: pattern_accepts_path path_accepts_def)
  note D = decode_view_pattern [OF dec]
  then obtain t us where "tokens = t # us" by (cases tokens) auto
  moreover from this obtain c where c: "covers t c" using assms(1) by (auto simp: list_all2_Cons1)
  ultimately have "st_pattern_token_type_allowed (?ts ! 0) 0 (tk_type (?ts ! 0))"
    using display_canon [OF c] c by (simp add: st_pattern_token_type_allowed_def covers_def)
  then show ?thesis using dec D acc by (auto simp: pattern_of_def pattern_ok_def)
qed

section \<open>The offered suggestions\<close>

definition offers_ok :: "(bytes option \<Rightarrow> bool) \<Rightarrow> bytes list \<Rightarrow> st_eval_result \<Rightarrow> bool" where
  "offers_ok based args r \<longleftrightarrow> list_all (\<lambda>s. pattern_of (sg_pattern s) args \<and> based (sg_based_on s) \<and>
     0 \<le> sg_confidence s \<and> sg_confidence s \<le> 1) (er_suggestions r)"

lemma offer_ok:
  assumes "offers_ok based args r" "list_all2 covers tokens (classify_argv args)" "based b" "0 \<le> x" "x \<le> 1"
    "offer_command_suggestion r tokens b x = (go, r')"
  shows "offers_ok based args r' \<and> length (er_suggestions r') \<le> Suc (length (er_suggestions r)) \<and>
    er_matches r' = er_matches r \<and> er_matching_pattern r' = er_matching_pattern r"
  using assms build_covers [OF assms(2)]
  by (auto simp: offer_command_suggestion_def offers_ok_def split: sum.splits if_splits)

section \<open>The frontier of the walk\<close>

lemma walk_visit_frontier:
  "i \<le> n \<Longrightarrow> mw_depth w \<le> n \<Longrightarrow> mw_depth (walk_visit p cmd w (q, i)) \<le> n"
  "set (mw_frontier (walk_visit p cmd w (q, i))) \<subseteq> insert q (set (mw_frontier w))"
  by (auto simp: walk_visit_def Let_def split: option.splits)

lemma walk_visits_frontier:
  "\<forall>e\<in>set es. snd e \<le> n \<and> fst e \<in> S \<Longrightarrow> mw_depth w \<le> n \<Longrightarrow> set (mw_frontier w) \<subseteq> S \<Longrightarrow>
   mw_depth (foldl (walk_visit p cmd) w es) \<le> n \<and> set (mw_frontier (foldl (walk_visit p cmd) w es)) \<subseteq> S"
proof (induction es arbitrary: w)
  case (Cons e es)
  obtain q i where e: "e = (q, i)" by fastforce
  have "mw_depth (walk_visit p cmd w e) \<le> n" "set (mw_frontier (walk_visit p cmd w e)) \<subseteq> S"
    using Cons.prems walk_visit_frontier(1) [of i n w p cmd q] walk_visit_frontier(2) [of p cmd w q i] e by auto
  then show ?case using Cons.IH [of "walk_visit p cmd w e"] Cons.prems(1) by simp
qed simp

lemma matching_walk_frontier:
  assumes inv: "trie_inv (p_states p)"
  shows "mw_depth (matching_walk_locked p cmd) \<le> length cmd"
    and "q \<in> set (mw_frontier (matching_walk_locked p cmd)) \<Longrightarrow> q < length (p_states p)"
proof -
  have "snd e \<le> length cmd \<and> fst e \<in> {..<length (p_states p)}" if "e \<in> set (walk_order p cmd [(0, 0)])" for e
  proof -
    obtain q i where e: "e = (q, i)" by fastforce
    then have "((0, 0), (q, i)) \<in> (follows (walk_next p cmd))\<^sup>*" using that unfolding walk.set_taken by simp
    then obtain us where "path edge (p_states p) 0 us = Some q" "length us = i" "path_accepts us cmd"
      using walk_reach [OF inv] by blast
    then show ?thesis using trie_path_bound [OF inv trie_root [OF inv]] by (auto simp: e path_accepts_def)
  qed
  then have "mw_depth (matching_walk_locked p cmd) \<le> length cmd \<and>
      set (mw_frontier (matching_walk_locked p cmd)) \<subseteq> {..<length (p_states p)}"
    unfolding matching_walk_locked_def walk_loop_order by (intro walk_visits_frontier) auto
  then show "mw_depth (matching_walk_locked p cmd) \<le> length cmd"
    "q \<in> set (mw_frontier (matching_walk_locked p cmd)) \<Longrightarrow> q < length (p_states p)" by auto
qed

section \<open>The widened type accepts the argument\<close>

lemma bit_foldl_masks:
  "bit (foldl (\<lambda>m q. m OR f q) (m0 :: type_mask) qs) n \<longleftrightarrow> bit m0 n \<or> (\<exists>q\<in>set qs. bit (f q) n)"
  by (induction qs arbitrary: m0) (auto simp: bit_or_iff)

lemma frontier_mask_wild:
  assumes inv: "trie_inv (p_states p)" and "\<forall>q\<in>set qs. q < length (p_states p)"
    and "bit (foldl (\<lambda>m q. m OR ps_wildcard_mask (p_states p ! q)) 0 qs) (type_index t)"
  shows "t \<noteq> ST_TYPE_LITERAL"
proof -
  obtain q where q: "q < length (p_states p)" "bit (ps_wildcard_mask (p_states p ! q)) (type_index t)"
    using assms(2,3) unfolding bit_foldl_masks by auto
  note node = trie_node [OF inv q(1)]
  then obtain c where c: "c \<in> set (ps_wildcards (p_states p ! q))" "t = ce_type c"
    using q(2) by (auto simp: node_inv_def)
  then have "stored_child True c" using node by (simp add: node_inv_def list_all_iff)
  then have k: "wf_token (child_token c)" "token_is_wild (child_token c)" "c = new_child (child_token c) (ce_target c)"
    unfolding stored_child_def by blast+
  then show ?thesis using c(2) new_child_simps(2) wf_token_wild wf_wild_plain by metis
qed

lemma any_not_literal: "ST_TYPE_ANY \<noteq> ST_TYPE_LITERAL"
  by simp

lemma widened_accepts:
  assumes "\<And>t. bit wm (type_index t) \<Longrightarrow> t \<noteq> ST_TYPE_LITERAL"
  shows "widened_type ty wm \<noteq> ST_TYPE_LITERAL \<and> st_runtime_type_matches ty (widened_type ty wm)"
proof -
  let ?step = "\<lambda>best wt. let joined = st_join wt ty in
      if best = ST_TYPE_ANY \<or> st_is_compatible joined best then joined else best"
  have ok: "joined \<noteq> ST_TYPE_LITERAL \<and> st_runtime_type_matches ty joined"
    if "st_runtime_type_matches ty wt" "wt \<noteq> ST_TYPE_LITERAL" "joined = st_join wt ty" for wt joined
  proof -
    have up: "st_is_compatible wt joined"
      using that(3) type_lattice.le_sup_iff [of wt ty joined] lattice_le_refl st_is_compatible_eq by auto
    then have "joined \<noteq> ST_TYPE_LITERAL" using that(2) literal_not_ancestor [of wt]
      by (auto simp: st_is_compatible_eq lattice_le_def)
    then show ?thesis using runtime_matches_mono [OF that(1) up that(2)] by blast
  qed
  have "b \<noteq> ST_TYPE_LITERAL \<and> st_runtime_type_matches ty b \<Longrightarrow>
      \<forall>wt\<in>set wts. st_runtime_type_matches ty wt \<and> wt \<noteq> ST_TYPE_LITERAL \<Longrightarrow>
      foldl ?step b wts \<noteq> ST_TYPE_LITERAL \<and> st_runtime_type_matches ty (foldl ?step b wts)" for b wts
  proof (induction wts arbitrary: b)
    case (Cons wt wts)
    have "?step b wt \<noteq> ST_TYPE_LITERAL \<and> st_runtime_type_matches ty (?step b wt)"
      using Cons.prems ok [of wt "st_join wt ty"] by (simp add: Let_def)
    then show ?case using Cons.IH [of "?step b wt"] Cons.prems(2) by simp
  qed simp
  moreover have "\<forall>wt\<in>set (filter (\<lambda>wt. (st_runtime_match_mask ty AND wm) AND type_bit wt \<noteq> 0) all_token_types).
      st_runtime_type_matches ty wt \<and> wt \<noteq> ST_TYPE_LITERAL"
    using assms by (auto simp: bit_and_iff runtime_type_matches_bit)
  ultimately show ?thesis unfolding widened_type_def Let_def by (metis (no_types, lifting) runtime_accepts_any any_not_literal)
qed

section \<open>The pattern a suggestion is based on\<close>

definition live_entry :: "'f st_policy \<Rightarrow> pattern_entry \<Rightarrow> bool" where
  "live_entry p e \<longleftrightarrow> (\<exists>ts\<in>policy_patterns p. pe_pattern e = Some (pattern_code ts))"

lemma state_entry_live:
  assumes "core_inv F p" "q < length (p_states p)" "state_entry p q = Some e"
  shows "live_entry p e"
proof -
  obtain pid us where us: "policy_ids p pid = Some us" "e = p_entries p ! pid"
    using state_entry_iff [OF assms(1,2)] assms(3) by blast
  then show ?thesis
    using policy_ids_entry [OF core_invD(3) [OF assms(1)] us(1)] by (auto simp: live_entry_def policy_patterns_def)
qed

definition live_best :: "'f st_policy \<Rightarrow> (nat \<times> pattern_entry) option \<Rightarrow> bool" where
  "live_best p best \<longleftrightarrow> (case best of None \<Rightarrow> True | Some (_, e) \<Rightarrow> live_entry p e)"

lemma nearest_live:
  assumes core: "core_inv F p"
  shows "q < length (p_states p) \<Longrightarrow> live_best p best \<Longrightarrow>
    live_best p (nearest_pattern_visit fuel p q depth best)"
proof (induction fuel arbitrary: q depth best)
  case (Suc fuel)
  let ?cs = "ps_literals (p_states p ! q) @ ps_wildcards (p_states p ! q)"
  note inv = core_invD(1) [OF core]
  have bound: "ce_target c < length (p_states p)" if "c \<in> set ?cs" for c
    using that edge_Some_iff [OF trie_node [OF inv Suc.prems(1)], of "child_token c" "ce_target c"]
      tree_edge [OF trie_tree [OF inv] Suc.prems(1)] by (auto simp: node_children_def)
  have "live_best p b \<Longrightarrow> set cs \<subseteq> set ?cs \<Longrightarrow>
      live_best p
        (foldl (\<lambda>best c. nearest_pattern_visit fuel p (ce_target c) (depth + 1) best) b cs)" for b cs
  proof (induction cs arbitrary: b)
    case (Cons c cs)
    have "c \<in> set ?cs" using Cons.prems(2) by auto
    from Suc.IH [OF bound [OF this] Cons.prems(1)] show ?case using Cons.IH Cons.prems(2) by simp
  qed simp
  note below = this [OF Suc.prems(2) subset_refl]
  show ?case
  proof (cases "state_entry p q")
    case None
    then show ?thesis using below Suc.prems(2) by (simp del: foldl_append)
  next
    case (Some e)
    then show ?thesis
      using Suc.prems(2) state_entry_live [OF core Suc.prems(1)]
      by (auto simp: live_best_def split: option.splits prod.splits if_splits)
  qed
qed simp

lemma based_on_live:
  assumes core: "core_inv F p" and "\<forall>q\<in>set qs. q < length (p_states p)"
  shows "case st_find_based_on p qs of None \<Rightarrow> True | Some s \<Rightarrow> \<exists>ts\<in>policy_patterns p. s = pattern_code ts"
proof -
  have "live_best p b \<Longrightarrow> \<forall>q\<in>set xs. q < length (p_states p) \<Longrightarrow>
      live_best p
        (foldl (\<lambda>best q. nearest_pattern_visit (length (p_states p)) p q 0 best) b xs)" for b xs
    by (induction xs arbitrary: b) (simp_all add: nearest_live [OF core])
  from this [of None qs] show ?thesis
    using assms(2) by (auto simp: live_best_def st_find_based_on_def live_entry_def split: option.splits prod.splits)
qed

section \<open>All suggestions\<close>

definition based_in :: "st_token list set \<Rightarrow> bytes option \<Rightarrow> bool" where
  "based_in S b \<longleftrightarrow> (case b of None \<Rightarrow> True | Some s \<Rightarrow> \<exists>ts\<in>S. s = pattern_code ts)"

lemma classify_plain:
  "c \<in> set (classify_argv args) \<Longrightarrow> \<not> tk_compound c \<and> tk_type c \<noteq> ST_TYPE_ANY"
proof -
  have "list_all (\<lambda>c. \<not> tk_compound c \<and> tk_type c \<noteq> ST_TYPE_ANY) (classify_args x as)" for x as
  proof (induction x as rule: classify_args.induct)
    case (2 x a as)
    then show ?case using classify_context_range [of a x] by (auto simp: unreturned_types_def)
  qed simp
  then show "c \<in> set (classify_argv args) \<Longrightarrow> ?thesis" by (auto simp: classify_argv_def list_all_iff)
qed

lemma suggestion_tokens_cover:
  assumes "\<And>c. c \<in> set cmd \<Longrightarrow> tk_type c \<noteq> ST_TYPE_ANY"
  shows "list_all2 covers (suggestion_tokens cmd depth) cmd"
proof -
  have "list_all2 covers (map (\<lambda>t. plain_token (tk_text t) (tk_type t)) (take depth cmd)) (take depth cmd)"
    using assms by (simp add: list_all2_conv_all_nth covers_def)
  moreover have "list_all2 covers (map (\<lambda>t. plain_token (tk_text t) ST_TYPE_LITERAL) (drop depth cmd)) (drop depth cmd)"
    by (simp add: list_all2_conv_all_nth covers_def)
  ultimately have "list_all2 covers (suggestion_tokens cmd depth) (take depth cmd @ drop depth cmd)"
    unfolding suggestion_tokens_def by (rule list_all2_appendI)
  then show ?thesis by simp
qed

lemma generate_ok:
  assumes core: "core_inv F p" and w: "w = matching_walk_locked p (classify_argv args)" and ne: "args \<noteq> []"
    and r: "er_suggestions r = []" "er_matches r = False" "er_matching_pattern r = None"
  shows "offers_ok (based_in (policy_patterns p)) args (generate_suggestions p (classify_argv args) w r) \<and>
    length (er_suggestions (generate_suggestions p (classify_argv args) w r)) \<le> 2 \<and>
    er_matches (generate_suggestions p (classify_argv args) w r) = False \<and>
    er_matching_pattern (generate_suggestions p (classify_argv args) w r) = None"
proof -
  let ?cmd = "classify_argv args" and ?depth = "mw_depth w"
  note inv = core_invD(1) [OF core]
  have len: "length ?cmd = length args" by (simp add: classify_argv_def)
  have depth: "?depth \<le> length ?cmd" and front: "\<forall>q\<in>set (mw_frontier w). q < length (p_states p)"
    using matching_walk_frontier [OF inv] w by auto
  define x :: rat where "x = of_nat ?depth / of_nat (length ?cmd)"
  have x: "0 \<le> x" "x \<le> 1" using depth ne len by (simp_all add: x_def divide_le_eq_1)
  define b where "b = (if ?depth = 0 then None else st_find_based_on p (mw_frontier w))"
  have b: "based_in (policy_patterns p) b" "based_in (policy_patterns p) None" using based_on_live [OF core front] by (auto simp: b_def based_in_def)
  define wm where "wm = (if ?depth < length ?cmd
      then foldl (\<lambda>m q. m OR ps_wildcard_mask (p_states p ! q)) 0 (mw_frontier w) else 0)"
  have wild: "bit wm (type_index t) \<Longrightarrow> t \<noteq> ST_TYPE_LITERAL" for t
    using frontier_mask_wild [OF inv front, of t] by (auto simp: wm_def split: if_splits)
  define tokens where "tokens = suggestion_tokens ?cmd ?depth"
  have cover: "list_all2 covers tokens ?cmd" unfolding tokens_def by (rule suggestion_tokens_cover) (simp add: classify_plain)
  define best where "best = widened_type (tk_type (?cmd ! ?depth)) wm"
  have cover_wild: "list_all2 covers (tokens[?depth := plain_token (st_type_symbol best) best]) ?cmd"
    if "?depth < length ?cmd" "best \<noteq> ST_TYPE_ANY"
  proof -
    have "covers (plain_token (st_type_symbol best) best) (?cmd ! ?depth)"
      using widened_accepts [OF wild, where ty = "tk_type (?cmd ! ?depth)"] that(2)
      by (simp add: covers_def best_def)
    then have "list_all2 covers (tokens[?depth := plain_token (st_type_symbol best) best]) (?cmd[?depth := ?cmd ! ?depth])"
      by (intro list_all2_update_cong [OF cover])
    then show ?thesis by simp
  qed
  have cover_cmd: "list_all2 covers ?cmd ?cmd"
    using classify_plain [OF nth_mem] by (auto simp: list_all2_conv_all_nth covers_def)
  obtain go r1 where r1: "offer_command_suggestion r tokens b x = (go, r1)" by fastforce
  have ok0: "offers_ok (based_in (policy_patterns p)) args r" using r(1) by (simp add: offers_ok_def)
  note O1 = offer_ok [OF ok0 cover b(1) x r1]
  define second where "second = (if ?depth < length ?cmd then
      if wm \<noteq> 0 \<and> st_runtime_match_mask (tk_type (?cmd ! ?depth)) AND wm \<noteq> 0 then
        if best \<noteq> ST_TYPE_ANY then
          offer_command_suggestion r1 (tokens[?depth := plain_token (st_type_symbol best) best]) b x
        else (True, r1)
      else (True, r1)
    else (True, r1))"
  obtain go2 r2 where r2: "second = (go2, r2)" by fastforce
  have O2: "offers_ok (based_in (policy_patterns p)) args r2 \<and> length (er_suggestions r2) \<le> 2 \<and>
      er_matches r2 = er_matches r1 \<and> er_matching_pattern r2 = er_matching_pattern r1"
  proof -
    have "?thesis" if "?depth < length ?cmd" "best \<noteq> ST_TYPE_ANY"
      "offer_command_suggestion r1 (tokens[?depth := plain_token (st_type_symbol best) best]) b x = (go2, r2)"
      using offer_ok [OF conjunct1 [OF O1] cover_wild [OF that(1,2)] b(1) x that(3)] O1 r(1) by simp
    then show ?thesis using r2 O1 r(1) by (auto simp: second_def split: if_splits)
  qed
  obtain go3 r3 where r3: "offer_command_suggestion r2 ?cmd None x = (go3, r3)" by fastforce
  have O3: "offers_ok (based_in (policy_patterns p)) args r3 \<and> length (er_suggestions r3) \<le> Suc (length (er_suggestions r2)) \<and>
      er_matches r3 = er_matches r2 \<and> er_matching_pattern r3 = er_matching_pattern r2"
    using offer_ok [OF conjunct1 [OF O2] cover_cmd b(2) x r3] by blast
  have eq: "generate_suggestions p ?cmd w r =
      (if \<not> go then r1 else if \<not> go2 then r2 else if length (er_suggestions r2) < 2 then r3 else r2)"
    unfolding generate_suggestions_def Let_def x_def [symmetric] b_def [symmetric] wm_def [symmetric]
      tokens_def [symmetric] best_def [symmetric] r1 prod.case second_def [symmetric] r2 r3
    by simp
  show ?thesis unfolding eq using O1 O2 O3 r by auto
qed

end
