(* ===== verification/Policy_Spec.thy ===== *)
theory Policy_Spec imports Policy_Updates begin

text \<open>
  What the policy object promises: its abstract state is the set of its patterns, none of which
  subsumes another, and each operation acts on that set and on the accepted commands as stated here.
\<close>

section \<open>A filter and patterns for the examples\<close>

definition list_filters :: "64 word list filter_ops" where
  "list_filters = \<lparr>vf_create = (\<lambda>_. Some []), vf_insert = (\<lambda>f h. Some (h # f)),
     vf_lookup = (\<lambda>f h. h \<in> set f), vf_count = length\<rparr>"

lemma list_filters_ok: "no_false_negatives list_filters"
  by (simp add: no_false_negatives_def list_filters_def)

definition ls_pattern :: "st_token list" where "ls_pattern = [plain_token ''ls'' ST_TYPE_LITERAL]"

lemma ls_pattern_ok: "pattern_ok ls_pattern"
proof -
  have "length (pattern_code ls_pattern) < ST_MAX_NETPATTERN_LEN"
    using length_tagged_small [of "''ls''" "CHR ''L''"]
    by (simp add: pattern_code_def ls_pattern_def record_of_def record_tag_value_def tagged_enc_def
        ST_MAX_NETPATTERN_LEN_def)
  then show ?thesis
    by (simp add: pattern_ok_def ls_pattern_def wf_token_def st_pattern_token_type_allowed_def
        ST_MAX_CMD_TOKENS_def ST_MAX_TOKEN_LEN_def)
qed

lemma ls_accepts: "pattern_accepts ls_pattern [''ls'']"
  by (simp add: ls_pattern_def pattern_accepts_def classify_argv_def token_accepts_def)

definition ls_view :: st_netpattern_view where "ls_view = np_view (pattern_code ls_pattern)"

lemma decode_ls_view: "st_netpattern_decode_view ls_view = Inr ls_pattern"
  unfolding ls_view_def by (rule decode_pattern_code [OF ls_pattern_ok])

lemma new_has_room: "has_room st_policy_new"
  by (simp add: has_room_def st_policy_new_def ST_MAX_POLICY_PATTERNS_def)

lemma new_patterns [simp]: "policy_patterns st_policy_new = {}"
  by (simp add: policy_patterns_def policy_ids_def st_policy_new_def)

section \<open>Additions\<close>

lemma added_effect_accepts:
  assumes "policy_inv F p" "pattern_ok ts" "policy_patterns p' = added (policy_patterns p) ts"
  shows "policy_accepts p' args \<longleftrightarrow> policy_accepts p args \<or> pattern_accepts ts args"
proof -
  have "\<forall>us\<in>policy_patterns p. pattern_ok us" using assms(1) core_patterns_ok by (auto simp: policy_inv_def)
  then show ?thesis unfolding policy_accepts_def assms(3) using added_accepts [OF _ assms(2)] by blast
qed

text \<open>C9: Adding a pattern keeps the policy's invariant. On success the policy holds the new
  pattern, or one that subsumes it, in place of every pattern the new one subsumes, and accepts the
  commands it accepted before and those of the new pattern. On every error it is unchanged; a
  well-formed pattern is refused only when the policy is at one of its limits.\<close>

theorem add_netpattern_effect:
  assumes "no_false_negatives F" "policy_inv F p" "st_policy_add_netpattern_view F p v = (e, p')"
  shows "policy_inv F p' \<and>
    (if e = ST_OK
     then \<exists>ts. st_netpattern_decode_view v = Inr ts \<and> policy_patterns p' = added (policy_patterns p) ts \<and>
       (\<forall>args. policy_accepts p' args \<longleftrightarrow> policy_accepts p args \<or> pattern_accepts ts args)
     else p' = p) \<and>
    (has_room p \<longrightarrow> (\<exists>ts. st_netpattern_decode_view v = Inr ts \<and> pattern_ok ts) \<longrightarrow> e = ST_OK)"
proof -
  have "st_policy_add_locked_view F p v = (e, p')"
    using assms(3) by (auto simp: st_policy_add_netpattern_view_def st_policy_add_locked_view_def split: if_splits)
  from add_locked_view_effect [OF assms(1,2) this] show ?thesis
    using added_effect_accepts [OF assms(2)] by (cases "e = ST_OK") auto
qed

theorem add_netpattern_effect_witness:
  "policy_inv list_filters (snd (st_policy_add_netpattern_view list_filters st_policy_new ls_view)) \<and>
   policy_accepts (snd (st_policy_add_netpattern_view list_filters st_policy_new ls_view)) [''ls'']"
proof -
  have run: "st_policy_add_netpattern_view list_filters st_policy_new ls_view =
      (fst (st_policy_add_netpattern_view list_filters st_policy_new ls_view),
       snd (st_policy_add_netpattern_view list_filters st_policy_new ls_view))" by simp
  note E = add_netpattern_effect [OF list_filters_ok policy_inv_new run]
  then have "fst (st_policy_add_netpattern_view list_filters st_policy_new ls_view) = ST_OK"
    using new_has_room decode_ls_view ls_pattern_ok by blast
  then show ?thesis using E decode_ls_view ls_accepts by auto
qed

section \<open>Removal\<close>

text \<open>C10: Removing a pattern keeps the invariant and takes exactly that pattern out; a pattern
  that is not there is no error, and an undecodable one changes nothing.\<close>

theorem remove_netpattern_effect:
  assumes "policy_inv F p" "st_policy_remove_netpattern_view p v = (e, p')"
  shows "policy_inv F p' \<and>
    (case st_netpattern_decode_view v of
       Inl _ \<Rightarrow> e \<noteq> ST_OK \<and> p' = p
     | Inr ts \<Rightarrow> e = ST_OK \<and> policy_patterns p' = policy_patterns p - {ts})"
proof (cases "st_netpattern_decode_view v")
  case (Inl x)
  then show ?thesis using remove_effect [OF assms] by (cases "e = ST_OK") auto
next
  case (Inr ts)
  have "e = ST_OK"
    using remove_total [OF assms(1) Inr] assms(2) by simp
  then show ?thesis using remove_effect [OF assms] Inr by auto
qed

theorem remove_netpattern_effect_witness:
  "policy_patterns (snd (st_policy_remove_netpattern_view
     (snd (st_policy_add_netpattern_view list_filters st_policy_new ls_view)) ls_view)) = {}"
proof -
  let ?p = "snd (st_policy_add_netpattern_view list_filters st_policy_new ls_view)"
  let ?r = "st_policy_remove_netpattern_view ?p ls_view"
  have eff: "policy_inv list_filters ?p \<and> policy_patterns ?p = added {} ls_pattern"
    using add_locked_view_effect [OF list_filters_ok policy_inv_new, of ls_view "fst (st_policy_add_netpattern_view
        list_filters st_policy_new ls_view)" ?p] decode_view_data [OF decode_ls_view] new_has_room decode_ls_view ls_pattern_ok
    by (auto simp: st_policy_add_netpattern_view_def)
  have "policy_patterns (snd ?r) = policy_patterns ?p - {ls_pattern}"
    using remove_netpattern_effect [OF conjunct1 [OF eff], of ls_view "fst ?r" "snd ?r"] decode_ls_view by simp
  then show ?thesis using eff by (simp add: added_def)
qed

section \<open>Batches, merging, clearing and counting\<close>

text \<open>The effect of a batch, with what the policy accepts after it.\<close>

lemma batch_add_effect:
  assumes "no_false_negatives F" "policy_inv F p"
    "st_policy_batch_add_netpattern_views F p (Some vs) = (e, p')"
  shows "policy_inv F p' \<and>
    (if e = ST_OK
     then \<exists>tss. map st_netpattern_decode_view vs = map Inr tss \<and>
       policy_patterns p' = foldl added (policy_patterns p) tss \<and>
       (\<forall>args. policy_accepts p' args \<longleftrightarrow> policy_accepts p args \<or> (\<exists>ts\<in>set tss. pattern_accepts ts args))
     else p' = p)"
proof (cases "vs = [] \<or> list_ex (\<lambda>v. np_data v = None \<or> np_length v = 0) vs")
  case False
  then have "policy_batch_add_views F p vs = (e, p')"
    using assms(3) by (simp add: st_policy_batch_add_netpattern_views_def split: if_splits)
  note B = batch_effect [OF assms(1,2) this]
  have ok: "\<forall>us\<in>policy_patterns p. pattern_ok us" using assms(2) core_patterns_ok by (auto simp: policy_inv_def)
  show ?thesis
  proof (cases "e = ST_OK")
    case True
    then obtain tss where "map st_netpattern_decode_view vs = map Inr tss" "list_all pattern_ok tss"
      "policy_patterns p' = foldl added (policy_patterns p) tss" using B by auto
    moreover from this have "policy_accepts p' args \<longleftrightarrow>
        policy_accepts p args \<or> (\<exists>ts\<in>set tss. pattern_accepts ts args)" for args
      unfolding policy_accepts_def using foldl_added_accepts [OF ok] by auto
    ultimately show ?thesis using B True by auto
  qed (use B in auto)
qed (use assms in \<open>auto simp: st_policy_batch_add_netpattern_views_def split: if_splits\<close>)

text \<open>C11: A batch is atomic: it either changes nothing, or it has the effect of adding its
  patterns one after the other, and then the policy accepts what it accepted before and what any
  pattern of the batch accepts. The replacement built on the side satisfies the invariant.\<close>

theorem batch_add_atomic:
  assumes "no_false_negatives F" "policy_inv F p"
    "st_policy_batch_add_netpattern_views F p (Some vs) = (e, p')"
  shows "policy_inv F p' \<and>
    (if e = ST_OK
     then \<exists>tss. map st_netpattern_decode_view vs = map Inr tss \<and>
       policy_patterns p' = foldl added (policy_patterns p) tss \<and>
       (\<forall>args. policy_accepts p' args \<longleftrightarrow> policy_accepts p args \<or> (\<exists>ts\<in>set tss. pattern_accepts ts args))
     else p' = p)"
  by (rule batch_add_effect [OF assms])

theorem batch_add_atomic_witness:
  "policy_inv list_filters (snd (st_policy_batch_add_netpattern_views list_filters st_policy_new (Some [ls_view])))"
  using batch_add_atomic [OF list_filters_ok policy_inv_new, of "[ls_view]"] by (metis prod.collapse)

text \<open>C12: Merging keeps the invariant of the destination. On success the destination accepts
  exactly the commands that either policy accepted; on every error it is unchanged.\<close>

theorem merge_union:
  assumes "no_false_negatives F" "policy_inv F dst" "policy_inv F src"
    "st_policy_merge F same dst src = (e, dst')" "same \<longrightarrow> src = dst"
  shows "policy_inv F dst' \<and>
    (if e = ST_OK then \<forall>args. policy_accepts dst' args \<longleftrightarrow> policy_accepts dst args \<or> policy_accepts src args
     else dst' = dst)"
proof (cases "same \<or> active_views src = []")
  case True
  have core: "core_inv F src" using assms(3) by (simp add: policy_inv_def)
  note A = active_tokens_facts [OF core]
  have "same \<or> policy_patterns src = {}" using True A(1,4) by auto
  moreover have "e = ST_OK \<and> dst' = dst" using True assms(4) by (auto simp: st_policy_merge_def split: if_splits)
  ultimately show ?thesis using assms(2,5) by (auto simp: policy_accepts_def)
next
  case False
  have core: "core_inv F src" using assms(3) by (simp add: policy_inv_def)
  note A = active_tokens_facts [OF core]
  have "active_tokens src \<noteq> []" using A(4) False by auto
  then have "p_pattern_count src \<noteq> 0" using A(5) by (metis length_0_conv)
  then have run: "st_policy_batch_add_netpattern_views F dst (Some (active_views src)) = (e, dst')"
    using False assms(4) by (simp add: st_policy_merge_def)
  note B = batch_add_effect [OF assms(1,2) run]
  show ?thesis
  proof (cases "e = ST_OK")
    case True
    then obtain tss where tss: "map st_netpattern_decode_view (active_views src) = map Inr tss"
      "\<forall>args. policy_accepts dst' args \<longleftrightarrow> policy_accepts dst args \<or> (\<exists>ts\<in>set tss. pattern_accepts ts args)"
      using B by auto
    have "map st_netpattern_decode_view (active_views src) = map Inr (active_tokens src)"
      using A(3) unfolding A(4) by (simp add: decode_pattern_code list_all_iff)
    then have "set tss = policy_patterns src" using tss(1) A(1) by (simp add: inj_map_eq_map)
    then show ?thesis using B True tss(2) by (simp add: policy_accepts_def)
  qed (use B in auto)
qed

theorem merge_union_witness:
  "policy_inv list_filters (snd (st_policy_merge list_filters False st_policy_new
     (snd (st_policy_add_netpattern_view list_filters st_policy_new ls_view))))"
proof -
  let ?p = "snd (st_policy_add_netpattern_view list_filters st_policy_new ls_view)"
  have "policy_inv list_filters ?p"
    using add_locked_view_effect [OF list_filters_ok policy_inv_new, of ls_view "fst (st_policy_add_netpattern_view
        list_filters st_policy_new ls_view)" ?p] decode_view_data [OF decode_ls_view]
    by (auto simp: st_policy_add_netpattern_view_def)
  from merge_union [OF list_filters_ok policy_inv_new this, of False] show ?thesis by (metis prod.collapse)
qed

text \<open>The rule count is the number of patterns of the policy, which are pairwise different.\<close>

theorem rule_count_patterns:
  assumes "policy_inv F p"
  shows "st_policy_rule_count p = card (policy_patterns p)"
proof -
  have "core_inv F p" using assms by (simp add: policy_inv_def)
  note A = active_tokens_facts [OF this]
  show ?thesis using distinct_card [OF A(2)] A(1,5) by (simp add: st_policy_rule_count_def)
qed

theorem rule_count_patterns_witness: "st_policy_rule_count (st_policy_new :: 64 word list st_policy) = 0"
  using rule_count_patterns [OF policy_inv_new [of list_filters]] by simp

end
