(* ===== verification/Eval_Spec.thy ===== *)
theory Eval_Spec imports Suggestions Policy_Spec begin

text \<open>
  What evaluation promises: the decision is acceptance by some pattern, the reported pattern is the
  first of the accepting ones, every suggestion accepts the command, the enumeration lists the
  accepting patterns once each, and any history of calls behaves as the set of patterns it left.
\<close>

section \<open>Classified commands\<close>

lemma scratch_command:
  assumes "st_netargv_classify_scratch_view netargv = Inr cmd"
  shows "classify_argv (map tk_text cmd) = cmd \<and> length cmd \<le> ST_MAX_CMD_TOKENS"
proof -
  obtain iter where "shell_netstring_iter_init (na_data netargv) (na_length netargv) = Inr iter"
    "scratch_loop 0 ST_ARG_CONTEXT_NONE [] (ns_data iter) = Inr cmd"
    using assms by (auto simp: st_netargv_classify_scratch_view_def split: sum.splits)
  then obtain args where args: "argv_status 0 (ns_payloads (ns_data iter)) = Inr args" "cmd = classify_argv args"
    by (cases "argv_status 0 (ns_payloads (ns_data iter))") (auto simp: scratch_loop_eq classify_argv_def)
  then have "map tk_text cmd = args" by (simp add: classify_argv_def)
  moreover have "length args \<le> ST_MAX_CMD_TOKENS"
    using args(1) by (auto simp: argv_status_def split: if_splits)
  ultimately show ?thesis using args(2) by (simp add: classify_argv_def)
qed

lemma scratch_invalid:
  "na_data netargv = None \<Longrightarrow> na_length netargv \<noteq> 0 \<Longrightarrow>
   st_netargv_classify_scratch_view netargv = Inl ST_ERR_INVALID"
  by (simp add: st_netargv_classify_scratch_view_def shell_netstring_iter_init_def)

lemma scratch_not_ok: "st_netargv_classify_scratch_view netargv = Inl e \<Longrightarrow> e \<noteq> ST_OK"
  by (auto simp: st_netargv_classify_scratch_view_def scratch_loop_eq argv_status_def map_sum_def
      split: sum.splits if_splits)

lemma no_empty_command: "core_inv F p \<Longrightarrow> \<not> policy_accepts p []"
  using core_patterns_ok by (fastforce simp: policy_accepts_def pattern_accepts_path pattern_ok_def)

lemma add_stat_keeps [simp]:
  "policy_inv F (add_stat f p) = policy_inv F p" "policy_patterns (add_stat f p) = policy_patterns p"
  by (simp_all add: add_stat_def)

section \<open>The evaluation\<close>

text \<open>A command no filter rejects falls through to the walk; one that a filter rejects has no
  accepting pattern.\<close>

lemma rejected_not_accepted:
  assumes "policy_inv F p" "list_ex (position_rejects F p (classify_argv args)) [0..<min (length args) FILTER_POS_LEVELS]"
  shows "\<not> policy_accepts p args"
  using assms accepted_not_rejected [OF assms(1)] by (auto simp: policy_accepts_def list_ex_iff)

text \<open>The report on a command, over the set of patterns.\<close>

definition result_ok :: "st_token list set \<Rightarrow> bytes list \<Rightarrow> st_eval_result \<Rightarrow> bool" where
  "result_ok S args r \<longleftrightarrow>
     (if \<exists>ts\<in>S. pattern_accepts ts args
      then er_matches r \<and> er_suggestions r = [] \<and>
        (\<exists>ts. er_matching_pattern r = Some (pattern_code ts) \<and> first_of {us \<in> S. pattern_accepts us args} ts)
      else \<not> er_matches r \<and> er_matching_pattern r = None \<and> length (er_suggestions r) \<le> 2 \<and>
        offers_ok (based_in S) args r)"

lemma policy_eval_correct:
  assumes F: "no_false_negatives F" and inv: "policy_inv F p"
    and run: "policy_eval F p netargv wanted = (e, p', m, r)"
  shows "policy_inv F p' \<and> policy_patterns p' = policy_patterns p \<and>
    (case st_netargv_classify_scratch_view netargv of
       Inl e' \<Rightarrow> e = e' \<and> \<not> m \<and> r = empty_result
     | Inr cmd \<Rightarrow> e = ST_OK \<and> (m \<longleftrightarrow> policy_accepts p (map tk_text cmd)) \<and>
         (wanted \<longrightarrow> result_ok (policy_patterns p) (map tk_text cmd) r))"
proof (cases "st_netargv_classify_scratch_view netargv")
  case (Inl e')
  then show ?thesis
    using run inv scratch_invalid [of netargv] by (auto simp: policy_eval_def add_stat_def Let_def split: if_splits)
next
  case (Inr cmd)
  then have data: "\<not> (na_data netargv = None \<and> na_length netargv \<noteq> 0)" using scratch_invalid [of netargv] by auto
  have core: "core_inv F p" using inv by (simp add: policy_inv_def)
  define args where "args = map tk_text cmd"
  have cmd: "cmd = classify_argv args" "length cmd \<le> ST_MAX_CMD_TOKENS" "length cmd = length args"
    using scratch_command [OF Inr] by (simp_all add: args_def)
  have ne: "args \<noteq> []" if "cmd \<noteq> []" using that by (simp add: args_def)
  show ?thesis
  proof (cases "cmd = []")
    case True
    then show ?thesis
      using run inv data Inr no_empty_command [OF core, unfolded policy_accepts_def]
      by (auto simp: policy_eval_def Let_def policy_accepts_def result_ok_def empty_result_def offers_ok_def)
  next
    case False
    note ne = ne [OF False]
    define p1 where "p1 = add_stat (\<lambda>s. s\<lparr>eval_count := eval_count s + 1\<rparr>) p"
    let ?check = "[0..<min (length cmd) FILTER_POS_LEVELS]"
    define p2 where "p2 = (if list_ex (\<lambda>i. p_built p1 ! i \<noteq> p_epoch p1) ?check
        then policy_rebuild_filters F p1 else p1)"
    define p3 where "p3 = add_stat (\<lambda>s. s\<lparr>trie_walk_count := trie_walk_count s + 1\<rparr>) p2"
    have p1: "policy_inv F p1" "policy_patterns p1 = policy_patterns p" using inv by (simp_all add: p1_def add_stat_def)
    then have p2: "policy_inv F p2" "policy_patterns p2 = policy_patterns p"
      using rebuild_keeps [OF F p1(1)] by (simp_all add: p2_def)
    then have p3: "policy_inv F p3" "policy_patterns p3 = policy_patterns p" by (simp_all add: p3_def add_stat_def)
    have acc: "policy_accepts q a = policy_accepts p a" if "policy_patterns q = policy_patterns p"
      for q :: "'a st_policy" and a using that by (simp add: policy_accepts_def)
    define rejected where "rejected \<longleftrightarrow> list_ex (position_rejects F p2 cmd) ?check"
    have rej: "rejected \<Longrightarrow> \<not> policy_accepts p args"
      using rejected_not_accepted [OF p2(1), of args] acc [OF p2(2)] cmd by (simp add: rejected_def)
    define w where "w = matching_walk_locked p3 cmd"
    have best: "case mw_best w of None \<Rightarrow> \<not> policy_accepts p args
      | Some b \<Rightarrow> \<exists>ts. pe_pattern b = Some (pattern_code ts) \<and> first_of {us \<in> policy_patterns p. pattern_accepts us args} ts"
      using best_is_first [OF p3(1), of args] unfolding p3(2) acc [OF p3(2)] w_def cmd(1) .
    have some: "\<not> (cmd = [] \<or> length cmd > ST_MAX_CMD_TOKENS)" using False cmd(2) by simp
    have eq: "policy_eval F p netargv wanted =
        (if rejected \<and> \<not> wanted then
           (ST_OK, add_stat (\<lambda>s. s\<lparr>filter_reject_count := filter_reject_count s + 1\<rparr>) p2, False, empty_result)
         else case mw_best w of
           Some b \<Rightarrow> (ST_OK, p3, True,
             if wanted then empty_result\<lparr>er_matches := True, er_matching_pattern := pe_pattern b\<rparr> else empty_result)
         | None \<Rightarrow> (if \<not> wanted then (ST_OK, p3, False, empty_result)
             else (ST_OK, add_stat (\<lambda>s. s\<lparr>suggestion_count := suggestion_count s +
                     of_nat (length (er_suggestions (generate_suggestions p3 cmd w empty_result)))\<rparr>) p3,
                   False, generate_suggestions p3 cmd w empty_result)))"
      unfolding policy_eval_def Inr sum.case if_not_P [OF data] if_not_P [OF some] Let_def
        p1_def [symmetric] p2_def [symmetric] p3_def [symmetric] rejected_def [symmetric] w_def [symmetric] ..
    show ?thesis
    proof (cases "rejected \<and> \<not> wanted")
      case True
      have "e = ST_OK" "p' = add_stat (\<lambda>s. s\<lparr>filter_reject_count := filter_reject_count s + 1\<rparr>) p2" "\<not> m"
        using run unfolding eq if_P [OF True] by auto
      then show ?thesis using rej True p2 Inr by (simp add: add_stat_def args_def [symmetric])
    next
      case no_reject: False
      show ?thesis
      proof (cases "mw_best w")
        case None
        define g where "g = generate_suggestions p3 cmd w empty_result"
        have gen: "offers_ok (based_in (policy_patterns p)) args g \<and> length (er_suggestions g) \<le> 2 \<and>
            er_matches g = False \<and> er_matching_pattern g = None"
          using generate_ok [of F p3 w args empty_result] p3 ne
          by (simp add: policy_inv_def w_def g_def empty_result_def cmd(1) [symmetric])
        have no: "\<not> policy_accepts p args" using best None by simp
        have "e = ST_OK \<and> \<not> m \<and> policy_inv F p' \<and> policy_patterns p' = policy_patterns p \<and> (wanted \<longrightarrow> r = g)"
        proof (cases wanted)
          case True
          then have "\<not> \<not> wanted" by simp
          note result = run [unfolded eq if_not_P [OF no_reject] None option.case g_def [symmetric] if_not_P [OF this]]
          show ?thesis using result [symmetric] p3 by simp
        next
          case False
          then have "(e, p', m, r) = (ST_OK, p3, False, empty_result)"
            using run unfolding eq if_not_P [OF no_reject] None option.case by simp
          then show ?thesis using p3 False by simp
        qed
        moreover have "result_ok (policy_patterns p) args g" using gen no by (simp add: result_ok_def policy_accepts_def)
        ultimately show ?thesis using no Inr by (simp add: args_def [symmetric])
      next
        case (Some b)
        then have "policy_accepts p args" using best by (auto simp: policy_accepts_def first_of_def)
        moreover have "\<exists>ts. pe_pattern b = Some (pattern_code ts) \<and>
            first_of {us \<in> policy_patterns p. pattern_accepts us args} ts" using best Some by simp
        ultimately have "result_ok (policy_patterns p) args
            (empty_result\<lparr>er_matches := True, er_matching_pattern := pe_pattern b\<rparr>)"
          by (simp add: result_ok_def empty_result_def policy_accepts_def)
        then show ?thesis
          using run p3 Inr \<open>policy_accepts p args\<close> unfolding eq if_not_P [OF no_reject] Some option.case
          by (cases wanted) (auto simp: args_def [symmetric])
      qed
    qed
  qed
qed

section \<open>The enumeration\<close>

lemma visit_collect:
  "visit_matches_loop p cmd collect_policy_match queue n items =
    (n + length (List.map_filter (candidate p cmd) (walk_order p cmd queue)),
     items @ map (\<lambda>e. np_view (the (pe_pattern e))) (List.map_filter (candidate p cmd) (walk_order p cmd queue)))"
proof (induction p cmd "collect_policy_match" queue n items rule: visit_matches_loop.induct)
  case (2 p cmd e queue n items)
  show ?case
  proof (cases "candidate p cmd e")
    case None
    then have none: "(if snd e = length cmd then state_entry p (fst e) else None) = None"
      by (simp add: candidate_def)
    show ?thesis using "2.hyps"(1) [OF none] none None by (simp add: map_filter_simps)
  next
    case (Some m)
    then show ?thesis
      using "2.hyps"(2) [of m True "items @ [np_view (the (pe_pattern m))]"]
      by (simp add: candidate_def [symmetric] map_filter_simps collect_policy_match_def)
  qed
qed (simp add: map_filter_simps)

lemma distinct_map_filter:
  "distinct xs \<Longrightarrow> (\<And>x y z. x \<in> set xs \<Longrightarrow> y \<in> set xs \<Longrightarrow> f x = Some z \<Longrightarrow> f y = Some z \<Longrightarrow> x = y) \<Longrightarrow>
   distinct (List.map_filter f xs)"
proof (induction xs)
  case (Cons x xs)
  have "distinct (List.map_filter f xs)" using Cons by simp
  moreover have "y \<notin> set (List.map_filter f xs)" if "f x = Some y" for y
    using Cons.prems that by (auto simp: set_map_filter)
  ultimately show ?case by (auto simp: map_filter_simps split: option.splits)
qed (simp add: map_filter_simps)

lemma walk_next_edge:
  assumes "trie_inv (p_states p)" "at_depth (p_states p) e" "x \<in> set (walk_next p cmd e)"
  shows "\<exists>k. edge (p_states p ! fst e) k = Some (fst x) \<and> snd x = snd e + 1"
  using assms(3) walk_next_iff [OF assms(1) at_depth_bound [OF assms(1,2)], of "fst x" "snd x" cmd "snd e"] by auto

lemma at_depth_walk:
  assumes "trie_inv (p_states p)" "at_depth (p_states p) e" "x \<in> set (walk_next p cmd e)"
  shows "at_depth (p_states p) x"
proof -
  obtain us where us: "length us = snd e" "path edge (p_states p) 0 us = Some (fst e)"
    using assms(2) by (auto simp: at_depth_def)
  obtain k where "edge (p_states p ! fst e) k = Some (fst x)" "snd x = snd e + 1" using walk_next_edge [OF assms] by blast
  then show ?thesis using us unfolding at_depth_def by (intro exI [of _ "us @ [k]"]) (simp add: path_snoc)
qed

lemma walk_order_distinct:
  assumes inv: "trie_inv (p_states p)"
  shows "distinct (walk_order p cmd [(0, 0)]) \<and> (\<forall>e\<in>set (walk_order p cmd [(0, 0)]). at_depth (p_states p) e)"
proof
  have root: "at_depth (p_states p) (0, 0)" by (auto simp: at_depth_def)
  show "distinct (walk_order p cmd [(0, 0)])"
  proof (rule walk.distinct_taken [where ok = "at_depth (p_states p)"])
    show "at_depth (p_states p) b" if "at_depth (p_states p) a" "b \<in> set (walk_next p cmd a)" for a b
      using at_depth_walk [OF inv that] .
    show "a = b" if "at_depth (p_states p) a" "at_depth (p_states p) b" "x \<in> set (walk_next p cmd a)"
      "x \<in> set (walk_next p cmd b)" for a b x
    proof -
      have "fst a = fst b"
        using walk_next_edge [OF inv that(1,3)] walk_next_edge [OF inv that(2,4)]
          tree_unique [OF trie_tree [OF inv] at_depth_bound [OF inv that(1)] at_depth_bound [OF inv that(2)]] by blast
      then show ?thesis using at_depth_unique [OF inv that(1,2)] by blast
    qed
    show "distinct (walk_next p cmd a)" if a: "at_depth (p_states p) a" for a
    proof -
      obtain q i where qi: "a = (q, i)" by fastforce
      have "q < length (p_states p)" using at_depth_bound [OF inv a] qi by simp
      note node = trie_node [OF inv this] and targets = distinct_targets [OF inv this]
      have "distinct (map (\<lambda>c. (ce_target c, i + 1)) (filter P (node_children (p_states p ! q))))" for P
        using targets by (auto simp: distinct_map inj_on_def)
      then show ?thesis by (simp add: walk_next_def qi stored_follows [OF node])
    qed
    show "(0, 0) \<notin> set (walk_next p cmd a)" for a by (auto simp: walk_next_def split: prod.splits)
  qed (rule root)
  show "\<forall>e\<in>set (walk_order p cmd [(0, 0)]). at_depth (p_states p) e"
  proof
    fix e
    assume "e \<in> set (walk_order p cmd [(0, 0)])"
    then have "((0, 0), e) \<in> (follows (walk_next p cmd))\<^sup>*" unfolding walk.set_taken by simp
    then show "at_depth (p_states p) e"
      by (induction rule: rtrancl_induct) (auto simp: follows_def root dest: at_depth_walk [OF inv])
  qed
qed

lemma candidates_distinct:
  assumes core: "core_inv F p"
  shows "distinct (candidates p (classify_argv args))"
  unfolding candidates_def
proof (rule distinct_map_filter)
  note I = core_invD [OF core]
  note W = walk_order_distinct [OF I(1), of "classify_argv args"]
  show "distinct (walk_order p (classify_argv args) [(0, 0)])" using W by blast
  fix x y z
  assume xy: "x \<in> set (walk_order p (classify_argv args) [(0, 0)])" "y \<in> set (walk_order p (classify_argv args) [(0, 0)])"
    and z: "candidate p (classify_argv args) x = Some z" "candidate p (classify_argv args) y = Some z"
  have at: "at_depth (p_states p) x" "at_depth (p_states p) y" using W xy by blast+
  have e: "state_entry p (fst x) = Some z" "state_entry p (fst y) = Some z"
    using z by (auto simp: candidate_def split: if_splits)
  obtain i ts where i: "policy_ids p i = Some ts" "path edge (p_states p) 0 ts = Some (fst x)" "z = p_entries p ! i"
    using state_entry_iff [OF core at_depth_bound [OF I(1) at(1)]] e(1) by blast
  obtain j us where j: "policy_ids p j = Some us" "path edge (p_states p) 0 us = Some (fst y)" "z = p_entries p ! j"
    using state_entry_iff [OF core at_depth_bound [OF I(1) at(2)]] e(2) by blast
  have "ts = us" using policy_ids_entry [OF I(3) i(1)] policy_ids_entry [OF I(3) j(1)] i(3) j(3) by simp
  then have "fst x = fst y" using i(2) j(2) by simp
  then show "x = y" using at_depth_unique [OF I(1) at] by blast
qed

text \<open>The views the enumeration lists: the accepting patterns, once each.\<close>

lemma candidate_views:
  fixes args :: "bytes list"
  assumes core: "core_inv F p"
  defines "cs \<equiv> map (\<lambda>e. np_view (the (pe_pattern e))) (candidates p (classify_argv args))"
  shows "distinct cs \<and> set cs = (\<lambda>ts. np_view (pattern_code ts)) ` {ts \<in> policy_patterns p. pattern_accepts ts args}"
proof
  note I = core_invD [OF core]
  note cand = set_candidates [OF core, of _ args]
  have entry: "\<exists>ts. ts \<in> policy_patterns p \<and> pattern_accepts ts args \<and> pe_pattern e = Some (pattern_code ts) \<and>
      pattern_ok ts \<and> pe_tokens e = Some ts \<and> (\<exists>pid. policy_ids p pid = Some ts \<and> e = p_entries p ! pid)"
    if e: "e \<in> set (candidates p (classify_argv args))" for e
    using e policy_ids_entry [OF I(3)] unfolding cand policy_patterns_def by blast
  show "set cs = (\<lambda>ts. np_view (pattern_code ts)) ` {ts \<in> policy_patterns p. pattern_accepts ts args}"
  proof (intro set_eqI iffI)
    fix v
    assume "v \<in> set cs"
    then obtain e where "e \<in> set (candidates p (classify_argv args))" "v = np_view (the (pe_pattern e))"
      by (auto simp: cs_def)
    then show "v \<in> (\<lambda>ts. np_view (pattern_code ts)) ` {ts \<in> policy_patterns p. pattern_accepts ts args}"
      using entry by fastforce
  next
    fix v
    assume "v \<in> (\<lambda>ts. np_view (pattern_code ts)) ` {ts \<in> policy_patterns p. pattern_accepts ts args}"
    then obtain ts i where ts: "v = np_view (pattern_code ts)" "pattern_accepts ts args" "policy_ids p i = Some ts"
      by (auto simp: policy_patterns_def)
    then have "p_entries p ! i \<in> set (candidates p (classify_argv args))" using cand by blast
    then show "v \<in> set cs" using policy_ids_entry [OF I(3) ts(3)] ts(1) by (force simp: cs_def)
  qed
  have "inj_on (\<lambda>e. np_view (the (pe_pattern e))) (set (candidates p (classify_argv args)))"
  proof (rule inj_onI)
    fix a b
    assume ab: "a \<in> set (candidates p (classify_argv args))" "b \<in> set (candidates p (classify_argv args))"
      and eq: "np_view (the (pe_pattern a)) = np_view (the (pe_pattern b))"
    obtain ts i where ts: "pe_pattern a = Some (pattern_code ts)" "pattern_ok ts" "policy_ids p i = Some ts" "a = p_entries p ! i"
      using entry [OF ab(1)] by blast
    obtain us j where us: "pe_pattern b = Some (pattern_code us)" "pattern_ok us" "policy_ids p j = Some us" "b = p_entries p ! j"
      using entry [OF ab(2)] by blast
    have "pattern_code ts = pattern_code us" using eq ts(1) us(1) by (simp add: np_view_def)
    then have "ts = us" using pattern_code_inject ts(2) us(2) by blast
    then show "a = b" using names_inject [OF I(1,2) ts(3), of j] us(3,4) ts(4) by simp
  qed
  then show "distinct cs" using candidates_distinct [OF core] by (simp add: cs_def distinct_map)
qed

end
