(* ===== verification/Decisions.thy ===== *)
theory Decisions imports Eval_Spec begin

text \<open>
  The decisions of a policy: what matching answers, what evaluation reports, that a suggestion can
  be taken, that the filters neither overflow nor reject wrongly, and what the enumeration lists.
\<close>

section \<open>A policy of one pattern for the examples\<close>

definition ls_policy :: "64 word list st_policy" where
  "ls_policy = snd (st_policy_add_netpattern_view list_filters st_policy_new ls_view)"

lemma ls_policy_ok: "policy_inv list_filters ls_policy \<and> policy_patterns ls_policy = {ls_pattern}"
proof -
  obtain e p where run: "st_policy_add_locked_view list_filters st_policy_new ls_view = (e, p)" by fastforce
  then have "ls_policy = p"
    using decode_view_data [OF decode_ls_view] by (auto simp: ls_policy_def st_policy_add_netpattern_view_def)
  then show ?thesis
    using add_locked_view_effect [OF list_filters_ok policy_inv_new run] new_has_room decode_ls_view ls_pattern_ok
    by (auto simp: added_def)
qed

lemma classify_argv_view:
  assumes "\<forall>a\<in>set args. length a \<le> SIZE_MAX" "length args \<le> ST_MAX_CMD_TOKENS"
  shows "st_netargv_classify_scratch_view (argv_view args) = Inr (classify_argv args)"
  using assms by (simp add: argv_view_def Let_def scratch_view_eq ns_payloads_concat)

lemma ls_command: "st_netargv_classify_scratch_view (argv_view [''ls'']) = Inr (classify_argv [''ls''])"
  by (rule classify_argv_view) (simp_all add: SIZE_MAX_def ST_MAX_CMD_TOKENS_def)

lemma ls_policy_accepts: "policy_accepts ls_policy args \<longleftrightarrow> args = [''ls'']"
proof -
  have "policy_accepts ls_policy args \<longleftrightarrow> pattern_accepts ls_pattern args"
    using ls_policy_ok by (simp add: policy_accepts_def)
  also have "\<dots> \<longleftrightarrow> args = [''ls'']"
  proof (cases args)
    case (Cons a as)
    then show ?thesis
      by (cases as) (auto simp: ls_pattern_def pattern_accepts_def classify_argv_def token_accepts_def)
  qed (simp add: ls_pattern_def pattern_accepts_def classify_argv_def)
  finally show ?thesis .
qed

lemma classified_text [simp]: "map tk_text (classify_argv args) = args"
  by (simp add: classify_argv_def)

section \<open>Matching and evaluation\<close>

text \<open>C13: Matching answers with acceptance: a readable command is matched exactly when some
  pattern of the policy accepts its arguments, an unreadable one gives the reader's error, and the
  policy keeps its invariant and its patterns, whatever the filters answer.\<close>

theorem match_decides:
  assumes "no_false_negatives F" "policy_inv F p" "st_policy_match_view F p netargv = (e, p', m)"
  shows "policy_inv F p' \<and> policy_patterns p' = policy_patterns p \<and>
    (case st_netargv_classify_scratch_view netargv of
       Inl e' \<Rightarrow> e = e' \<and> \<not> m
     | Inr cmd \<Rightarrow> e = ST_OK \<and> (m \<longleftrightarrow> policy_accepts p (map tk_text cmd)))"
proof -
  obtain r where run: "policy_eval F p netargv False = (e, p', m, r)"
    using assms(3) by (auto simp: st_policy_match_view_def split: prod.splits)
  show ?thesis using policy_eval_correct [OF assms(1,2) run] by (simp split: sum.splits)
qed

theorem match_decides_witness:
  "snd (snd (st_policy_match_view list_filters ls_policy (argv_view [''ls''])))"
proof -
  obtain e p m where run: "st_policy_match_view list_filters ls_policy (argv_view [''ls'']) = (e, p, m)"
    by (metis prod_cases3)
  show ?thesis
    using match_decides [OF list_filters_ok conjunct1 [OF ls_policy_ok] run] ls_command
    by (simp add: run ls_policy_accepts)
qed

text \<open>C14: Evaluation reports the accepting pattern that comes first in the order of canonical
  patterns, and no suggestion, for an accepted command; for any other readable command it reports
  no match and at most two suggestions, each a pattern the policy would take that accepts the
  command, with a confidence between zero and one and based on a pattern of the policy, if any.\<close>

theorem eval_reports:
  assumes "no_false_negatives F" "policy_inv F p" "st_policy_eval_view F p netargv = (e, p', r)"
  shows "policy_inv F p' \<and> policy_patterns p' = policy_patterns p \<and>
    (case st_netargv_classify_scratch_view netargv of
       Inl e' \<Rightarrow> e = e' \<and> r = empty_result
     | Inr cmd \<Rightarrow> e = ST_OK \<and> result_ok (policy_patterns p) (map tk_text cmd) r)"
proof -
  obtain m where run: "policy_eval F p netargv True = (e, p', m, r)"
    using assms(3) by (auto simp: st_policy_eval_view_def split: prod.splits)
  show ?thesis using policy_eval_correct [OF assms(1,2) run] by (simp split: sum.splits)
qed

theorem eval_reports_witness:
  "er_matching_pattern (snd (snd (st_policy_eval_view list_filters ls_policy (argv_view [''ls''])))) =
     Some (pattern_code ls_pattern)"
proof -
  obtain e p r where run: "st_policy_eval_view list_filters ls_policy (argv_view [''ls'']) = (e, p, r)"
    by (metis prod_cases3)
  have "result_ok (policy_patterns ls_policy) [''ls''] r"
    using eval_reports [OF list_filters_ok conjunct1 [OF ls_policy_ok] run] ls_command by simp
  then show ?thesis using ls_policy_ok ls_accepts by (auto simp: run result_ok_def first_of_def)
qed

section \<open>Taking a suggestion\<close>

lemma eval_keeps_room: "has_room (fst (snd (policy_eval F p netargv wanted))) = has_room p"
  by (simp add: policy_eval_def policy_rebuild_filters_def add_stat_def has_room_def Let_def
      split: sum.splits option.splits prod.splits)

text \<open>C15: A suggestion can be taken: adding any suggestion of an evaluation to a policy that has
  room succeeds, the command is accepted from then on, and so is every command accepted before.\<close>

theorem suggestion_taken:
  assumes F: "no_false_negatives F" and inv: "policy_inv F p" and room: "has_room p"
    and run: "st_policy_eval_view F p netargv = (e, p1, r)" and s: "s \<in> set (er_suggestions r)"
    and add: "st_policy_add_netpattern_view F p1 (np_view (sg_pattern s)) = (e', p2)"
  shows "e' = ST_OK \<and> policy_inv F p2 \<and> snd (snd (st_policy_match_view F p2 netargv)) \<and>
    (policy_accepts p args \<longrightarrow> policy_accepts p2 args)"
proof -
  obtain m where ev: "policy_eval F p netargv True = (e, p1, m, r)"
    using run by (auto simp: st_policy_eval_view_def split: prod.splits)
  note E = policy_eval_correct [OF F inv ev]
  have "er_suggestions empty_result = []" by (simp add: empty_result_def)
  then obtain cmd where cmd: "st_netargv_classify_scratch_view netargv = Inr cmd" "result_ok (policy_patterns p) (map tk_text cmd) r"
    using E s by (auto split: sum.splits)
  define args' where "args' = map tk_text cmd"
  obtain ts where ts: "st_netpattern_decode_view (np_view (sg_pattern s)) = Inr ts" "pattern_ok ts" "pattern_accepts ts args'"
    using cmd(2) s unfolding args'_def [symmetric]
    by (auto simp: result_ok_def offers_ok_def list_all_iff pattern_of_def split: if_splits)
  have room1: "has_room p1" using eval_keeps_room [of F p netargv True] room ev by simp
  have "st_policy_add_locked_view F p1 (np_view (sg_pattern s)) = (e', p2)"
    using add decode_view_data [OF ts(1)] by (simp add: st_policy_add_netpattern_view_def)
  note A = add_locked_view_effect [OF F _ this]
  have p1: "policy_inv F p1" "policy_patterns p1 = policy_patterns p" using E by blast+
  have e': "e' = ST_OK" and p2: "policy_inv F p2" "policy_patterns p2 = added (policy_patterns p) ts"
    using A [OF p1(1)] room1 ts(1,2) p1(2) by auto
  note acc = added_effect_accepts [OF inv ts(2) p2(2)]
  obtain e3 p3 m3 r3 where match: "policy_eval F p2 netargv False = (e3, p3, m3, r3)" by (metis prod_cases4)
  have "m3 \<longleftrightarrow> policy_accepts p2 args'"
    using policy_eval_correct [OF F p2(1) match] cmd(1) by (simp add: args'_def)
  then show ?thesis using e' p2 acc ts(3) match by (simp add: st_policy_match_view_def)
qed

lemma ls_class: "classify_argv [''ls''] = ls_pattern"
proof -
  have "st_token_classify_context ''ls'' ST_ARG_CONTEXT_NONE = ST_TYPE_LITERAL" by code_simp
  then show ?thesis by (simp add: classify_argv_def ls_pattern_def)
qed

lemma ls_build: "st_build_command_pattern ST_MAX_NETPATTERN_LEN ls_pattern = Inr (pattern_code ls_pattern)"
proof -
  have "map display_token ls_pattern = ls_pattern" by (simp add: ls_pattern_def display_token_def)
  moreover have "st_netpattern_encode_owned (Some (map token_arg ls_pattern)) = Inr (pattern_code ls_pattern)"
    using encode_owned_wf [of ls_pattern] ls_pattern_ok by (simp add: pattern_ok_def pattern_code_def)
  ultimately show ?thesis
    using ls_pattern_ok by (simp add: st_build_command_pattern_def st_build_pattern_def pattern_ok_def)
qed

lemma new_walk:
  assumes "p_states p = [empty_state]"
  shows "matching_walk_locked p ls_pattern = \<lparr>mw_depth = 0, mw_frontier = [0], mw_best = None\<rparr>"
  using assms
  by (simp add: matching_walk_locked_def walk_next_def walk_visit_def ls_pattern_def empty_state_def)

lemma new_suggestion:
  assumes "p_states p = [empty_state]"
  shows "generate_suggestions p ls_pattern \<lparr>mw_depth = 0, mw_frontier = [0], mw_best = None\<rparr> empty_result =
    empty_result\<lparr>er_suggestions :=
      [\<lparr>sg_pattern = pattern_code ls_pattern, sg_based_on = None, sg_confidence = 0\<rparr>]\<rparr>"
proof -
  have "suggestion_tokens ls_pattern 0 = ls_pattern" by (simp add: suggestion_tokens_def ls_pattern_def)
  moreover have "length ls_pattern = 1" by (simp add: ls_pattern_def)
  ultimately show ?thesis
    using assms by (simp add: generate_suggestions_def Let_def offer_command_suggestion_def ls_build empty_result_def
        empty_state_def)
qed

lemma new_eval:
  "\<exists>e p. st_policy_eval_view list_filters st_policy_new (argv_view [''ls'']) = (e, p,
     empty_result\<lparr>er_suggestions :=
      [\<lparr>sg_pattern = pattern_code ls_pattern, sg_based_on = None, sg_confidence = 0\<rparr>]\<rparr>)"
proof -
  have states: "p_states (policy_rebuild_filters F q) = p_states q" "p_states (add_stat f q) = p_states q"
    for F :: "'a filter_ops" and f q
    by (simp_all add: policy_rebuild_filters_def add_stat_def Let_def split: prod.splits)
  have new: "p_states st_policy_new = [empty_state]" by (simp add: st_policy_new_def)
  have "ls_pattern \<noteq> []" "length ls_pattern \<le> ST_MAX_CMD_TOKENS" using ls_pattern_ok by (simp_all add: pattern_ok_def)
  moreover obtain d where "na_data (argv_view [''ls'']) = Some d" by (simp add: argv_view_def Let_def)
  ultimately show ?thesis
    using ls_command
    by (simp add: st_policy_eval_view_def policy_eval_def ls_class Let_def new_walk new_suggestion states new
        if_distrib [of p_states] cong: if_cong split del: if_split)
qed

theorem suggestion_taken_witness:
  "\<exists>e p1 r s. st_policy_eval_view list_filters st_policy_new (argv_view [''ls'']) = (e, p1, r) \<and>
     s \<in> set (er_suggestions r) \<and>
     snd (snd (st_policy_match_view list_filters
       (snd (st_policy_add_netpattern_view list_filters p1 (np_view (sg_pattern s)))) (argv_view [''ls''])))"
proof -
  let ?s = "\<lparr>sg_pattern = pattern_code ls_pattern, sg_based_on = None, sg_confidence = 0\<rparr>"
  obtain e p1 where run: "st_policy_eval_view list_filters st_policy_new (argv_view [''ls'']) =
      (e, p1, empty_result\<lparr>er_suggestions := [?s]\<rparr>)"
    using new_eval by blast
  have mem: "?s \<in> set (er_suggestions (empty_result\<lparr>er_suggestions := [?s]\<rparr>))" by simp
  obtain e' p2 where add: "st_policy_add_netpattern_view list_filters p1 (np_view (sg_pattern ?s)) = (e', p2)"
    by fastforce
  have "snd (snd (st_policy_match_view list_filters p2 (argv_view [''ls''])))"
    using suggestion_taken [OF list_filters_ok policy_inv_new new_has_room run mem add] by blast
  then show ?thesis using run mem add by (metis snd_conv)
qed

section \<open>Filters\<close>

text \<open>C16: Rebuilding the filters never gives up: the queue of as many entries as the trie has
  states holds every state of the first eight levels, and all levels are current afterwards.\<close>

theorem rebuild_never_overflows:
  assumes "policy_inv F p"
  shows "\<exists>lv. rebuild_loop F (p_states p) [(0, 0)] 1
      \<lparr>lv_filters = replicate FILTER_POS_LEVELS (vf_create F (max 64 (length (p_states p) + length (p_states p) div 4))),
       lv_masks = replicate FILTER_POS_LEVELS 0, lv_compound = replicate FILTER_POS_LEVELS False\<rparr> = (True, lv) \<and>
    p_filters (policy_rebuild_filters F p) = lv_filters lv \<and>
    p_masks (policy_rebuild_filters F p) = lv_masks lv \<and>
    p_compound (policy_rebuild_filters F p) = lv_compound lv \<and>
    p_built (policy_rebuild_filters F p) = replicate FILTER_POS_LEVELS (p_epoch p)"
proof -
  have "trie_inv (p_states p)" using assms core_invD(1) by (auto simp: policy_inv_def)
  from rebuild_whole [OF this, of F] rebuild_filters_eq [OF this, of F] show ?thesis
    by (simp add: fresh_levels_def Let_def)
qed

theorem rebuild_never_overflows_witness:
  "p_built (policy_rebuild_filters list_filters ls_policy) = replicate FILTER_POS_LEVELS (p_epoch ls_policy)"
  using rebuild_never_overflows [OF conjunct1 [OF ls_policy_ok]] by blast

text \<open>C17: No false rejection: the filter of no level rules out an argument of a command that the
  policy accepts.\<close>

theorem no_false_rejection:
  assumes "policy_inv F p" "policy_accepts p args" "i < min (length args) FILTER_POS_LEVELS"
  shows "\<not> position_rejects F p (classify_argv args) i"
  using assms accepted_not_rejected [OF assms(1)] by (auto simp: policy_accepts_def)

theorem no_false_rejection_witness:
  "\<not> position_rejects list_filters ls_policy (classify_argv [''ls'']) 0"
  using no_false_rejection [OF conjunct1 [OF ls_policy_ok], of "[''ls'']" 0]
  by (simp add: ls_policy_accepts FILTER_POS_LEVELS_def)

section \<open>Listing all matching patterns\<close>

lemma verify_all_correct:
  assumes "policy_inv F p"
  shows "case st_netargv_classify_scratch_view netargv of
      Inl e \<Rightarrow> st_policy_verify_all_view p netargv = Inl e
    | Inr cmd \<Rightarrow> \<exists>vs. st_policy_verify_all_view p netargv = Inr vs \<and> distinct vs \<and>
        set vs = (\<lambda>ts. np_view (pattern_code ts)) ` {ts \<in> policy_patterns p. pattern_accepts ts (map tk_text cmd)}"
proof (cases "st_netargv_classify_scratch_view netargv")
  case (Inl e)
  then show ?thesis
    using scratch_invalid [of netargv] scratch_not_ok [OF Inl]
    by (auto simp: st_policy_verify_all_view_def st_policy_visit_matches_view_def)
next
  case (Inr cmd)
  have core: "core_inv F p" using assms by (simp add: policy_inv_def)
  define args where "args = map tk_text cmd"
  have cmd: "cmd = classify_argv args" "length cmd \<le> ST_MAX_CMD_TOKENS"
    using scratch_command [OF Inr] by (simp_all add: args_def)
  have data: "\<not> (na_data netargv = None \<and> na_length netargv \<noteq> 0)" using Inr scratch_invalid [of netargv] by auto
  show ?thesis
  proof (cases "cmd = []")
    case True
    have "\<not> pattern_accepts ts []" if "ts \<in> policy_patterns p" for ts
      using no_empty_command [OF core] that by (auto simp: policy_accepts_def)
    then show ?thesis
      using True Inr data by (auto simp: st_policy_verify_all_view_def st_policy_visit_matches_view_def)
  next
    case False
    let ?vs = "map (\<lambda>e. np_view (the (pe_pattern e))) (candidates p (classify_argv args))"
    have "st_policy_verify_all_view p netargv = Inr ?vs"
      using False Inr data cmd(2)
      by (simp add: st_policy_verify_all_view_def st_policy_visit_matches_view_def visit_collect
          candidates_def [symmetric] cmd(1) [symmetric] del: visit_matches_loop.simps walk_order.simps)
    then show ?thesis
      using Inr candidate_views [OF core, of args] by (auto simp: args_def [symmetric])
  qed
qed

text \<open>C18: The enumeration lists exactly the patterns that accept the command, each once, and
  counts what it lists; an unreadable command gives the reader's error.\<close>

theorem verify_all_lists:
  assumes "policy_inv F p"
  shows "case st_netargv_classify_scratch_view netargv of
      Inl e \<Rightarrow> st_policy_verify_all_view p netargv = Inl e
    | Inr cmd \<Rightarrow> \<exists>vs. st_policy_verify_all_view p netargv = Inr vs \<and> distinct vs \<and>
        set vs = (\<lambda>ts. np_view (pattern_code ts)) ` {ts \<in> policy_patterns p. pattern_accepts ts (map tk_text cmd)}"
  by (rule verify_all_correct [OF assms])

theorem verify_all_lists_witness:
  "st_policy_verify_all_view ls_policy (argv_view [''ls'']) = Inr [ls_view]"
proof -
  obtain vs where vs: "st_policy_verify_all_view ls_policy (argv_view [''ls'']) = Inr vs" "distinct vs"
    "set vs = (\<lambda>ts. np_view (pattern_code ts)) ` {ts \<in> policy_patterns ls_policy. pattern_accepts ts [''ls'']}"
    using verify_all_lists [OF conjunct1 [OF ls_policy_ok], of "argv_view [''ls'']"] ls_command by auto
  then have "set vs = {ls_view}" using ls_policy_ok ls_accepts by (auto simp: ls_view_def)
  then have "vs = [ls_view]" using vs(2) by (metis distinct.simps(2) distinct_length_2_or_more empty_iff
        empty_set insert_iff list.exhaust list.set_intros(1) list.set_intros(2) singletonD)
  then show ?thesis using vs(1) by simp
qed

section \<open>The descent to the nearest pattern\<close>

lemma reach_bound:
  assumes inv: "trie_inv st" and us: "path edge st 0 us = Some r"
  shows "length us < length st"
proof -
  define f where "f i = the (path edge st 0 (take i us))" for i
  have f: "path edge st 0 (take i us) = Some (f i)" for i
  proof -
    have "path edge st 0 (take i us @ drop i us) = Some r" using us by simp
    then show ?thesis unfolding f_def by (auto simp: path_append split: bind_splits simp del: append_take_drop_id)
  qed
  have "inj_on f {..length us}"
  proof (rule inj_onI)
    fix i j
    assume ij: "i \<in> {..length us}" "j \<in> {..length us}" "f i = f j"
    then have "take i us = take j us" using path_unique [OF trie_tree [OF inv] f [of i], of "take j us"] f [of j] by simp
    then have "length (take i us) = length (take j us)" by simp
    then show "i = j" using ij by simp
  qed
  moreover have "f ` {..length us} \<subseteq> {..<length st}"
    using trie_path_bound [OF inv trie_root [OF inv] f] by auto
  ultimately have "card {..length us} \<le> card {..<length st}" by (intro card_inj_on_le) auto
  then show ?thesis by simp
qed

lemma frontier_reached:
  assumes inv: "trie_inv (p_states p)" and q: "q \<in> set (mw_frontier (matching_walk_locked p cmd))"
  shows "\<exists>us. path edge (p_states p) 0 us = Some q"
proof -
  let ?S = "{q. \<exists>us. path edge (p_states p) 0 us = Some q}"
  have "at_depth (p_states p) e" if "e \<in> set (walk_order p cmd [(0, 0)])" for e
    using walk_order_distinct [OF inv] that by blast
  moreover have "snd e \<le> length cmd" if "e \<in> set (walk_order p cmd [(0, 0)])" for e
  proof -
    have "((0, 0), (fst e, snd e)) \<in> (follows (walk_next p cmd))\<^sup>*" using that unfolding walk.set_taken by simp
    then show ?thesis unfolding walk_reach [OF inv] by (auto simp: path_accepts_def)
  qed
  ultimately have "\<forall>e\<in>set (walk_order p cmd [(0, 0)]). snd e \<le> length cmd \<and> fst e \<in> ?S"
    by (fastforce simp: at_depth_def)
  from walk_visits_frontier [OF this, of "\<lparr>mw_depth = 0, mw_frontier = [], mw_best = None\<rparr>" p cmd] q show ?thesis
    by (auto simp: matching_walk_locked_def walk_loop_order simp del: walk_order.simps)
qed

lemma nearest_enough:
  assumes inv: "trie_inv (p_states p)"
  shows "q < length (p_states p) \<Longrightarrow> \<forall>us r. path edge (p_states p) q us = Some r \<longrightarrow> length us < fuel \<Longrightarrow>
    nearest_pattern_visit (fuel + extra) p q depth best = nearest_pattern_visit fuel p q depth best"
proof (induction fuel arbitrary: q depth best)
  case 0
  then show ?case using path.simps(1) by fastforce
next
  case (Suc fuel)
  let ?cs = "ps_literals (p_states p ! q) @ ps_wildcards (p_states p ! q)"
  have child: "ce_target c < length (p_states p) \<and>
      (\<forall>us r. path edge (p_states p) (ce_target c) us = Some r \<longrightarrow> length us < fuel)" if c: "c \<in> set ?cs" for c
  proof -
    have e: "edge (p_states p ! q) (child_token c) = Some (ce_target c)"
      using c edge_Some_iff [OF trie_node [OF inv Suc.prems(1)]] by (auto simp: node_children_def)
    have "length us < fuel" if "path edge (p_states p) (ce_target c) us = Some r" for us r
      using Suc.prems(2) [rule_format, of "child_token c # us" r] e that by simp
    then show ?thesis using tree_edge [OF trie_tree [OF inv] Suc.prems(1) e] by blast
  qed
  have "nearest_pattern_visit (fuel + extra) p (ce_target c) (depth + 1) b =
      nearest_pattern_visit fuel p (ce_target c) (depth + 1) b" if "c \<in> set ?cs" for c b
    using Suc.IH child [OF that] by blast
  then have "foldl (\<lambda>b c. nearest_pattern_visit (fuel + extra) p (ce_target c) (depth + 1) b) best ?cs =
      foldl (\<lambda>b c. nearest_pattern_visit fuel p (ce_target c) (depth + 1) b) best ?cs"
    by (intro foldl_cong) simp_all
  then show ?case by (cases "state_entry p q") (simp_all del: foldl_append)
qed

text \<open>The descent to the nearest pattern below the frontier ends within the depth the number of
  states allows: more fuel changes nothing, so the recursion of the code returns.\<close>

theorem nearest_descent_ends:
  assumes "policy_inv F p" "q \<in> set (mw_frontier (matching_walk_locked p cmd))" "length (p_states p) \<le> fuel"
  shows "nearest_pattern_visit fuel p q depth best = nearest_pattern_visit (length (p_states p)) p q depth best"
proof -
  have inv: "trie_inv (p_states p)" using assms(1) core_invD(1) by (auto simp: policy_inv_def)
  obtain us where us: "path edge (p_states p) 0 us = Some q" using frontier_reached [OF inv assms(2)] by blast
  have "length vs < length (p_states p)" if "path edge (p_states p) q vs = Some r" for vs r
    using reach_bound [OF inv, of "us @ vs" r] us that by (simp add: path_append)
  then show ?thesis
    using nearest_enough [OF inv trie_path_bound [OF inv trie_root [OF inv] us],
        of "length (p_states p)" "fuel - length (p_states p)"] assms(3) by simp
qed

definition new_policy :: "64 word list st_policy" where "new_policy = st_policy_new"

theorem nearest_descent_ends_witness:
  "nearest_pattern_visit 9 new_policy 0 0 None = nearest_pattern_visit (length (p_states new_policy)) new_policy 0 0 None"
proof (rule nearest_descent_ends [OF policy_inv_new [of list_filters, folded new_policy_def]])
  have new: "p_states new_policy = [empty_state]" by (simp add: new_policy_def st_policy_new_def)
  then show "0 \<in> set (mw_frontier (matching_walk_locked new_policy ls_pattern))"
    using new_walk by fastforce
  show "length (p_states new_policy) \<le> 9" by (simp add: new)
qed

end
