(* ===== verification/Simulation.thy ===== *)
theory Simulation imports Prelude begin

text \<open>
  Histories of calls. A component performs calls one after the other; when every single call meets
  its specification over the abstract state, so does every history.
\<close>

fun perform_all :: "('c \<Rightarrow> 's \<Rightarrow> 'r \<times> 's) \<Rightarrow> 'c list \<Rightarrow> 's \<Rightarrow> 'r list \<times> 's" where
  "perform_all perform [] s = ([], s)"
| "perform_all perform (c # cs) s =
     (case perform c s of (r, s1) \<Rightarrow> case perform_all perform cs s1 of (rs, s2) \<Rightarrow> (r # rs, s2))"

fun spec_run :: "('a \<Rightarrow> 'c \<Rightarrow> 'r \<Rightarrow> 'a \<Rightarrow> bool) \<Rightarrow> 'a \<Rightarrow> 'c list \<Rightarrow> 'r list \<Rightarrow> 'a \<Rightarrow> bool" where
  "spec_run spec a [] [] b \<longleftrightarrow> a = b"
| "spec_run spec a (c # cs) (r # rs) b \<longleftrightarrow> (\<exists>a1. spec a c r a1 \<and> spec_run spec a1 cs rs b)"
| "spec_run spec a _ _ b \<longleftrightarrow> False"

locale simulation =
  fixes inv :: "'s \<Rightarrow> bool" and abs :: "'s \<Rightarrow> 'a" and perform :: "'c \<Rightarrow> 's \<Rightarrow> 'r \<times> 's"
    and spec :: "'a \<Rightarrow> 'c \<Rightarrow> 'r \<Rightarrow> 'a \<Rightarrow> bool"
  assumes step: "inv s \<Longrightarrow> perform c s = (r, s') \<Longrightarrow> inv s' \<and> spec (abs s) c r (abs s')"
begin

lemma history:
  "inv s \<Longrightarrow> perform_all perform cs s = (rs, s') \<Longrightarrow> inv s' \<and> spec_run spec (abs s) cs rs (abs s')"
proof (induction cs arbitrary: s rs)
  case (Cons c cs)
  obtain r s1 where one: "perform c s = (r, s1)" by fastforce
  obtain rs' s2 where rest: "perform_all perform cs s1 = (rs', s2)" by fastforce
  have "rs = r # rs'" "s' = s2" using Cons.prems(2) one rest by simp_all
  then show ?case using step [OF Cons.prems(1) one] Cons.IH [of s1 rs'] rest by auto
qed simp

end

end
