(* ===== verification/Histories.thy ===== *)
theory Histories imports Decisions Simulation begin

text \<open>
  Compaction, and the policy object as a whole: over any history of calls it behaves as the set of
  its patterns.
\<close>

section \<open>Compaction\<close>

text \<open>A policy has its context for itself when it holds the one reference besides the owner's.\<close>

definition st_policy_ctx_is_exclusive :: "nat \<Rightarrow> bool" where
  "st_policy_ctx_is_exclusive refcount \<longleftrightarrow> refcount = 2"

fun stage_views ::
    "'f filter_ops \<Rightarrow> 'f st_policy \<Rightarrow> st_netpattern_view list \<Rightarrow> st_error \<times> 'f st_policy" where
  "stage_views F staged [] = (ST_OK, staged)"
| "stage_views F staged (v # vs) =
     (case st_policy_add_netpattern_view F staged v of
        (e, staged') \<Rightarrow> if e = ST_OK then stage_views F staged' vs else (e, staged'))"

definition st_policy_compact :: "'f filter_ops \<Rightarrow> nat \<Rightarrow> 'f st_policy \<Rightarrow> st_error \<times> 'f st_policy" where
  "st_policy_compact F refcount p =
     (if p_pattern_count p = 0 then (ST_OK, p)
      else if \<not> st_policy_ctx_is_exclusive refcount then (ST_ERR_INVALID, p)
      else let active = active_views p in
        if active = [] then (ST_OK, p)
        else case stage_views F st_policy_new active of
          (e, staged) \<Rightarrow>
            if e \<noteq> ST_OK then (e, p)
            else (ST_OK,
              p\<lparr>p_states := p_states staged, p_entries := p_entries staged, p_buckets := p_buckets staged,
                p_pattern_count := p_pattern_count staged, p_children_count := p_children_count staged,
                p_filters := p_filters staged, p_masks := p_masks staged,
                p_compound := p_compound staged, p_built := p_built staged,
                p_epoch := p_epoch p + 1\<rparr>))"

lemma stage_views_eq: "stage_views F p vs = add_views F p vs"
proof (induction vs arbitrary: p)
  case (Cons v vs)
  have "st_policy_add_netpattern_view F p v = st_policy_add_locked_view F p v"
    by (simp add: st_policy_add_netpattern_view_def st_policy_add_locked_view_def)
  then show ?case using Cons by (simp split: prod.split)
qed simp

lemma staged_patterns:
  assumes F: "no_false_negatives F" and inv: "policy_inv F p"
    and run: "add_views F st_policy_new (active_views p) = (ST_OK, staged)"
  shows "policy_inv F staged \<and> policy_patterns staged = policy_patterns p"
proof -
  have core: "core_inv F p" using inv by (simp add: policy_inv_def)
  note A = active_tokens_facts [OF core]
  obtain tss where tss: "policy_inv F staged" "map st_netpattern_decode_view (active_views p) = map Inr tss"
    "policy_patterns staged = foldl added (policy_patterns (st_policy_new :: 'a st_policy)) tss"
    using add_views_effect [OF F policy_inv_new run] by blast
  have "map st_netpattern_decode_view (active_views p) = map Inr (active_tokens p)"
    using A(3) unfolding A(4) by (simp add: decode_pattern_code list_all_iff)
  then have "tss = active_tokens p" using tss(2) by (simp add: inj_map_eq_map)
  moreover have "foldl added {} (active_tokens p) = {} \<union> set (active_tokens p)"
  proof (rule foldl_added_antichain)
    show "\<forall>a\<in>{} \<union> set (active_tokens p). \<forall>b\<in>{} \<union> set (active_tokens p). pattern_subsumes a b \<longrightarrow> a = b"
      using inv unfolding policy_inv_iff A(1) by simp
    show "\<forall>a\<in>set (active_tokens p). pattern_subsumes a a"
      using A(3) subsumes_refl [OF pattern_ok_wf] unfolding list_all_iff by blast
  qed
  ultimately show ?thesis using tss(1,3) A(1) by simp
qed

lemma compact_effect:
  assumes F: "no_false_negatives F" and inv: "policy_inv F p" and run: "st_policy_compact F refs p = (e, p')"
  shows "policy_inv F p' \<and> policy_patterns p' = policy_patterns p \<and> (e \<noteq> ST_OK \<longrightarrow> p' = p)"
proof (cases "p_pattern_count p = 0 \<or> \<not> st_policy_ctx_is_exclusive refs \<or> active_views p = []")
  case True
  then show ?thesis using inv run by (auto simp: st_policy_compact_def Let_def split: if_splits)
next
  case False
  obtain e1 st where add: "add_views F st_policy_new (active_views p) = (e1, st)" by fastforce
  show ?thesis
  proof (cases "e1 = ST_OK")
    case True
    note S = staged_patterns [OF F inv add [unfolded True]]
    have p': "e = ST_OK" "p_states p' = p_states st" "p_entries p' = p_entries st" "p_buckets p' = p_buckets st"
      "p_pattern_count p' = p_pattern_count st" "p_filters p' = p_filters st" "p_masks p' = p_masks st"
      "p_compound p' = p_compound st" "p_built p' = p_built st"
      using run False add True by (auto simp: st_policy_compact_def stage_views_eq)
    have ids: "policy_ids p' = policy_ids st" using p'(3) by (rule policy_ids_cong)
    have "levels_ok F p' = levels_ok F st" using p' by (intro ext) (simp add: levels_ok_def)
    then have "policy_inv F p'" using S p' ids by (simp add: policy_inv_def core_inv_def)
    moreover have "policy_patterns p' = policy_patterns st" by (simp add: policy_patterns_def ids)
    ultimately show ?thesis using S p'(1) by simp
  next
    case e1: False
    then show ?thesis using run False add inv by (auto simp: st_policy_compact_def stage_views_eq)
  qed
qed

text \<open>C19: Compaction leaves the patterns, the accepted commands and the invariant as they are. It
  is refused without effect when the context is shared, and fails without effect otherwise.\<close>

theorem compact_keeps_patterns:
  assumes "no_false_negatives F" "policy_inv F p" "st_policy_compact F refcount p = (e, p')"
  shows "policy_inv F p' \<and> policy_patterns p' = policy_patterns p \<and>
    (\<forall>args. policy_accepts p' args = policy_accepts p args) \<and> (e \<noteq> ST_OK \<longrightarrow> p' = p) \<and>
    (refcount \<noteq> 2 \<longrightarrow> policy_patterns p \<noteq> {} \<longrightarrow> e = ST_ERR_INVALID)"
proof -
  have core: "core_inv F p" using assms(2) by (simp add: policy_inv_def)
  note A = active_tokens_facts [OF core]
  have "e = ST_ERR_INVALID" if "refcount \<noteq> 2" "policy_patterns p \<noteq> {}"
  proof -
    have "p_pattern_count p \<noteq> 0" using A(1,5) that(2) by (metis length_0_conv list.set(1))
    then show ?thesis using assms(3) that(1) by (simp add: st_policy_compact_def st_policy_ctx_is_exclusive_def)
  qed
  then show ?thesis using compact_effect [OF assms] by (auto simp: policy_accepts_def)
qed

theorem compact_keeps_patterns_witness:
  "policy_accepts (snd (st_policy_compact list_filters 2 ls_policy)) [''ls'']"
proof -
  obtain e p where "st_policy_compact list_filters 2 ls_policy = (e, p)" by fastforce
  with compact_keeps_patterns [OF list_filters_ok conjunct1 [OF ls_policy_ok] this] show ?thesis
    by (simp add: ls_policy_accepts)
qed

section \<open>The policy object over histories of calls\<close>

datatype policy_call =
    Add st_netpattern_view
  | Remove st_netpattern_view
  | Batch "st_netpattern_view list option"
  | Clear
  | Compact nat
  | Match st_netargv_view
  | Evaluate st_netargv_view
  | List_matches st_netargv_view
  | Count

datatype policy_answer =
    Status st_error
  | Matched st_error bool
  | Reported st_error st_eval_result
  | Listed "st_netpattern_view list result"
  | Counted nat

fun policy_perform :: "'f filter_ops \<Rightarrow> policy_call \<Rightarrow> 'f st_policy \<Rightarrow> policy_answer \<times> 'f st_policy" where
  "policy_perform F (Add v) p = (case st_policy_add_netpattern_view F p v of (e, p') \<Rightarrow> (Status e, p'))"
| "policy_perform F (Remove v) p = (case st_policy_remove_netpattern_view p v of (e, p') \<Rightarrow> (Status e, p'))"
| "policy_perform F (Batch vs) p = (case st_policy_batch_add_netpattern_views F p vs of (e, p') \<Rightarrow> (Status e, p'))"
| "policy_perform F Clear p = (case st_policy_clear p of (e, p') \<Rightarrow> (Status e, p'))"
| "policy_perform F (Compact refs) p = (case st_policy_compact F refs p of (e, p') \<Rightarrow> (Status e, p'))"
| "policy_perform F (Match v) p = (case st_policy_match_view F p v of (e, p', m) \<Rightarrow> (Matched e m, p'))"
| "policy_perform F (Evaluate v) p = (case st_policy_eval_view F p v of (e, p', r) \<Rightarrow> (Reported e r, p'))"
| "policy_perform F (List_matches v) p = (Listed (st_policy_verify_all_view p v), p)"
| "policy_perform F Count p = (Counted (st_policy_rule_count p), p)"

text \<open>The abstract object: a set of patterns. A failing update leaves it as it is; a query answers
  from the set alone.\<close>

fun updates :: "policy_call \<Rightarrow> bool" where
  "updates (Add v) = True"
| "updates (Remove v) = True"
| "updates (Batch vs) = True"
| "updates (Compact refs) = True"
| "updates _ = False"

inductive policy_step ::
    "st_token list set \<Rightarrow> policy_call \<Rightarrow> policy_answer \<Rightarrow> st_token list set \<Rightarrow> bool" where
  step_failed: "updates c \<Longrightarrow> e \<noteq> ST_OK \<Longrightarrow> policy_step S c (Status e) S"
| step_add: "st_netpattern_decode_view v = Inr ts \<Longrightarrow> pattern_ok ts \<Longrightarrow>
    policy_step S (Add v) (Status ST_OK) (added S ts)"
| step_remove: "st_netpattern_decode_view v = Inr ts \<Longrightarrow> policy_step S (Remove v) (Status ST_OK) (S - {ts})"
| step_batch: "map st_netpattern_decode_view vs = map Inr tss \<Longrightarrow>
    policy_step S (Batch (Some vs)) (Status ST_OK) (foldl added S tss)"
| step_clear: "policy_step S Clear (Status ST_OK) {}"
| step_compact: "policy_step S (Compact refs) (Status ST_OK) S"
| step_match: "st_netargv_classify_scratch_view v = Inr cmd \<Longrightarrow>
    policy_step S (Match v) (Matched ST_OK (\<exists>ts\<in>S. pattern_accepts ts (map tk_text cmd))) S"
| step_match_error: "st_netargv_classify_scratch_view v = Inl e \<Longrightarrow> policy_step S (Match v) (Matched e False) S"
| step_evaluate: "st_netargv_classify_scratch_view v = Inr cmd \<Longrightarrow> result_ok S (map tk_text cmd) r \<Longrightarrow>
    policy_step S (Evaluate v) (Reported ST_OK r) S"
| step_evaluate_error: "st_netargv_classify_scratch_view v = Inl e \<Longrightarrow>
    policy_step S (Evaluate v) (Reported e empty_result) S"
| step_list: "st_netargv_classify_scratch_view v = Inr cmd \<Longrightarrow> distinct vs \<Longrightarrow>
    set vs = (\<lambda>ts. np_view (pattern_code ts)) ` {ts \<in> S. pattern_accepts ts (map tk_text cmd)} \<Longrightarrow>
    policy_step S (List_matches v) (Listed (Inr vs)) S"
| step_list_error: "st_netargv_classify_scratch_view v = Inl e \<Longrightarrow> policy_step S (List_matches v) (Listed (Inl e)) S"
| step_count: "policy_step S Count (Counted (card S)) S"

lemma clear_patterns: "policy_patterns (snd (st_policy_clear p)) = {}"
  by (simp add: policy_patterns_def policy_ids_def st_policy_clear_def)

lemma query_steps:
  assumes F: "no_false_negatives F" and inv: "policy_inv F p"
  shows "st_policy_match_view F p v = (e, p', m) \<Longrightarrow>
      policy_inv F p' \<and> policy_step (policy_patterns p) (Match v) (Matched e m) (policy_patterns p')"
    and "st_policy_eval_view F p v = (e, p', r) \<Longrightarrow>
      policy_inv F p' \<and> policy_step (policy_patterns p) (Evaluate v) (Reported e r) (policy_patterns p')"
proof -
  assume "st_policy_match_view F p v = (e, p', m)"
  then obtain r where run: "policy_eval F p v False = (e, p', m, r)"
    by (auto simp: st_policy_match_view_def split: prod.splits)
  show "policy_inv F p' \<and> policy_step (policy_patterns p) (Match v) (Matched e m) (policy_patterns p')"
  proof (cases "st_netargv_classify_scratch_view v")
    case (Inl x)
    then show ?thesis using policy_eval_correct [OF F inv run] step_match_error by simp
  next
    case (Inr cmd)
    then have "m = (\<exists>ts\<in>policy_patterns p. pattern_accepts ts (map tk_text cmd))" "e = ST_OK"
      using policy_eval_correct [OF F inv run] by (simp_all add: policy_accepts_def)
    then show ?thesis using step_match [OF Inr] policy_eval_correct [OF F inv run] by simp
  qed
next
  assume "st_policy_eval_view F p v = (e, p', r)"
  then obtain m where run: "policy_eval F p v True = (e, p', m, r)"
    by (auto simp: st_policy_eval_view_def split: prod.splits)
  show "policy_inv F p' \<and> policy_step (policy_patterns p) (Evaluate v) (Reported e r) (policy_patterns p')"
    using policy_eval_correct [OF F inv run] step_evaluate step_evaluate_error
    by (cases "st_netargv_classify_scratch_view v") simp_all
qed

lemma list_step:
  assumes inv: "policy_inv F p"
  shows "policy_step (policy_patterns p) (List_matches v) (Listed (st_policy_verify_all_view p v)) (policy_patterns p)"
  using verify_all_correct [OF inv, of v] step_list step_list_error
  by (cases "st_netargv_classify_scratch_view v") auto

lemma count_patterns:
  assumes "policy_inv F p"
  shows "st_policy_rule_count p = card (policy_patterns p)"
proof -
  have "core_inv F p" using assms by (simp add: policy_inv_def)
  note A = active_tokens_facts [OF this]
  show ?thesis using distinct_card [OF A(2)] A(1,5) by (simp add: st_policy_rule_count_def)
qed

lemma update_steps:
  assumes F: "no_false_negatives F" and inv: "policy_inv F p"
  shows "st_policy_add_netpattern_view F p v = (e, p') \<Longrightarrow>
      policy_inv F p' \<and> policy_step (policy_patterns p) (Add v) (Status e) (policy_patterns p')"
    and "st_policy_remove_netpattern_view p v = (e, p') \<Longrightarrow>
      policy_inv F p' \<and> policy_step (policy_patterns p) (Remove v) (Status e) (policy_patterns p')"
    and "st_policy_batch_add_netpattern_views F p vs = (e, p') \<Longrightarrow>
      policy_inv F p' \<and> policy_step (policy_patterns p) (Batch vs) (Status e) (policy_patterns p')"
    and "st_policy_clear p = (e, p') \<Longrightarrow>
      policy_inv F p' \<and> policy_step (policy_patterns p) Clear (Status e) (policy_patterns p')"
    and "st_policy_compact F refs p = (e, p') \<Longrightarrow>
      policy_inv F p' \<and> policy_step (policy_patterns p) (Compact refs) (Status e) (policy_patterns p')"
proof -
  assume "st_policy_add_netpattern_view F p v = (e, p')"
  then have "st_policy_add_locked_view F p v = (e, p')"
    by (auto simp: st_policy_add_netpattern_view_def st_policy_add_locked_view_def split: if_splits)
  from add_locked_view_effect [OF F inv this]
  show "policy_inv F p' \<and> policy_step (policy_patterns p) (Add v) (Status e) (policy_patterns p')"
    using step_add step_failed [of "Add v"] by (cases "e = ST_OK") auto
next
  assume "st_policy_remove_netpattern_view p v = (e, p')"
  from remove_effect [OF inv this]
  show "policy_inv F p' \<and> policy_step (policy_patterns p) (Remove v) (Status e) (policy_patterns p')"
    using step_remove step_failed [of "Remove v"] by (cases "e = ST_OK") auto
next
  assume run: "st_policy_batch_add_netpattern_views F p vs = (e, p')"
  show "policy_inv F p' \<and> policy_step (policy_patterns p) (Batch vs) (Status e) (policy_patterns p')"
  proof (cases "e = ST_OK")
    case True
    then obtain ws where ws: "vs = Some ws" "policy_batch_add_views F p ws = (ST_OK, p')"
      using run by (auto simp: st_policy_batch_add_netpattern_views_def split: option.splits if_splits)
    then show ?thesis using batch_effect [OF F inv ws(2)] step_batch True by auto
  next
    case False
    then have "\<forall>ws. policy_batch_add_views F p ws = (e, p') \<longrightarrow> p' = p" using batch_effect [OF F inv] by fastforce
    then have "p' = p"
      using run by (auto simp: st_policy_batch_add_netpattern_views_def split: option.splits if_splits)
    then show ?thesis using step_failed [of "Batch vs"] False inv by simp
  qed
next
  assume "st_policy_clear p = (e, p')"
  then have "e = ST_OK" "p' = snd (st_policy_clear p)" by (simp_all add: st_policy_clear_def)
  then show "policy_inv F p' \<and> policy_step (policy_patterns p) Clear (Status e) (policy_patterns p')"
    using policy_inv_clear [OF inv] step_clear by (simp add: clear_patterns)
next
  assume "st_policy_compact F refs p = (e, p')"
  from compact_effect [OF F inv this]
  show "policy_inv F p' \<and> policy_step (policy_patterns p) (Compact refs) (Status e) (policy_patterns p')"
    using step_compact step_failed [of "Compact refs"] by (cases "e = ST_OK") auto
qed

interpretation policy: simulation "\<lambda>p. no_false_negatives F \<and> policy_inv F p" policy_patterns "policy_perform F" policy_step
  for F
proof
  fix p p' :: "'a st_policy" and c r
  assume inv: "no_false_negatives F \<and> policy_inv F p" and run: "policy_perform F c p = (r, p')"
  note F = conjunct1 [OF inv] and inv = conjunct2 [OF inv]
  have "policy_inv F p' \<and> policy_step (policy_patterns p) c r (policy_patterns p')"
  proof (cases c)
    case (List_matches v)
    then show ?thesis using run inv list_step by auto
  next
    case Count
    then show ?thesis using run inv step_count [of "policy_patterns p"] count_patterns [OF inv] by auto
  qed (use run update_steps [OF F inv] query_steps [OF F inv] in \<open>auto split: prod.splits\<close>)
  then show "(no_false_negatives F \<and> policy_inv F p') \<and> policy_step (policy_patterns p) c r (policy_patterns p')"
    using F by blast
qed

text \<open>C20: The policy object refines a set of patterns: whatever calls are made on it, in whatever
  order, every answer is one that the set of patterns left by the calls before allows, and the
  invariant holds throughout.\<close>

theorem policy_refines_patterns:
  assumes "no_false_negatives F" "perform_all (policy_perform F) calls st_policy_new = (answers, p)"
  shows "policy_inv F p \<and> spec_run policy_step {} calls answers (policy_patterns p)"
  using policy.history [of F st_policy_new calls answers p] assms policy_inv_new [of F] by simp

theorem policy_refines_patterns_witness:
  "\<exists>S. spec_run policy_step {} [Add ls_view, Match (argv_view [''ls'']), Clear]
     (fst (perform_all (policy_perform list_filters) [Add ls_view, Match (argv_view [''ls'']), Clear] st_policy_new)) S"
proof -
  obtain rs p where "perform_all (policy_perform list_filters) [Add ls_view, Match (argv_view [''ls'']), Clear] st_policy_new =
      (rs, p)" by fastforce
  with policy_refines_patterns [OF list_filters_ok this] show ?thesis by auto
qed

end
