(* ===== verification/Cpl.thy ===== *)
theory Cpl imports Netpattern begin

text \<open>
  The textual pattern language of \<^verbatim>\<open>shelltype/src/netpattern.c\<close>: words separated by
  spaces, quoted literals with JSON-like escapes and byte escapes, compounds with one unquoted
  capture in braces; the parser, the conversion to a canonical pattern, and the printer. A position
  in the text is the list of bytes from there on; the scratch buffer is the list of bytes written.
\<close>

section \<open>Bytes and escapes\<close>

definition append_cpl_byte :: "bytes \<Rightarrow> nat \<Rightarrow> char \<Rightarrow> bytes option" where
  "append_cpl_byte out component_start value =
     (if length out - component_start = ST_MAX_TOKEN_LEN - 1 then None else Some (out @ [value]))"

definition utf8_width :: "nat \<Rightarrow> nat" where
  "utf8_width value = (if value \<le> 0x7f then 1 else if value \<le> 0x7ff then 2 else if value \<le> 0xffff then 3 else 4)"

definition utf8_bytes :: "nat \<Rightarrow> bytes" where
  "utf8_bytes value =
     (if value \<le> 0x7f then [char_of value]
      else if value \<le> 0x7ff then [char_of (0xc0 + value div 64), char_of (0x80 + value mod 64)]
      else if value \<le> 0xffff then
        [char_of (0xe0 + value div 4096), char_of (0x80 + value div 64 mod 64), char_of (0x80 + value mod 64)]
      else
        [char_of (0xf0 + value div 262144), char_of (0x80 + value div 4096 mod 64),
         char_of (0x80 + value div 64 mod 64), char_of (0x80 + value mod 64)])"

definition append_utf8 :: "bytes \<Rightarrow> nat \<Rightarrow> nat \<Rightarrow> bytes option" where
  "append_utf8 out component_start value =
     (if value = 0 \<or> value > 0x10ffff \<or> (value \<ge> 0xd800 \<and> value \<le> 0xdfff) then None
      else if utf8_width value > ST_MAX_TOKEN_LEN - 1 - (length out - component_start) then None
      else Some (out @ utf8_bytes value))"

definition hex_digit :: "char \<Rightarrow> nat option" where
  "hex_digit c =
     (if CHR ''0'' \<le> c \<and> c \<le> CHR ''9'' then Some (ord c - ord CHR ''0'')
      else if CHR ''a'' \<le> c \<and> c \<le> CHR ''f'' then Some (ord c - ord CHR ''a'' + 10)
      else if CHR ''A'' \<le> c \<and> c \<le> CHR ''F'' then Some (ord c - ord CHR ''A'' + 10)
      else None)"

fun hex_value :: "nat \<Rightarrow> bytes \<Rightarrow> nat option" where
  "hex_value v [] = Some v"
| "hex_value v (c # s) = (case hex_digit c of None \<Rightarrow> None | Some d \<Rightarrow> hex_value (v * 16 + d) s)"

definition hex4 :: "bytes \<Rightarrow> nat option" where
  "hex4 s = hex_value 0 (take 4 s)"

text \<open>A unicode escape, after its letter: the code point and the text behind it.\<close>

definition cpl_unicode :: "bytes \<Rightarrow> (nat \<times> bytes) option" where
  "cpl_unicode s =
     (if length s < 4 then None
      else case hex4 s of
        None \<Rightarrow> None
      | Some value \<Rightarrow>
          (let r = drop 4 s in
           if 0xd800 \<le> value \<and> value \<le> 0xdbff then
             (if length r < 6 \<or> r ! 0 \<noteq> CHR 0x5C \<or> r ! 1 \<noteq> CHR ''u'' then None
              else case hex4 (drop 2 r) of
                None \<Rightarrow> None
              | Some low \<Rightarrow>
                  (if low < 0xdc00 \<or> low > 0xdfff then None
                   else Some (0x10000 + (value - 0xd800) * 1024 + (low - 0xdc00), drop 6 r)))
           else Some (value, r)))"

definition cpl_byte_escape :: "bytes \<Rightarrow> (char \<times> bytes) option" where
  "cpl_byte_escape s =
     (if length s < 2 then None
      else case (hex_digit (s ! 0), hex_digit (s ! 1)) of
        (Some high, Some low) \<Rightarrow> Some (char_of (high * 16 + low), drop 2 s)
      | _ \<Rightarrow> None)"

definition simple_escape :: "char \<Rightarrow> char option" where
  "simple_escape e =
     (if e = CHR 0x22 then Some (CHR 0x22)
      else if e = CHR 0x5C then Some (CHR 0x5C)
      else if e = CHR ''b'' then Some (CHR 0x08)
      else if e = CHR ''f'' then Some (CHR 0x0C)
      else if e = CHR ''n'' then Some (CHR 0x0A)
      else if e = CHR ''r'' then Some (CHR 0x0D)
      else if e = CHR ''t'' then Some (CHR 0x09)
      else None)"

text \<open>One escape, from behind the backslash: the scratch buffer and the text behind the escape.\<close>

definition cpl_escape :: "bytes \<Rightarrow> nat \<Rightarrow> bytes \<Rightarrow> (bytes \<times> bytes) option" where
  "cpl_escape word start s =
     (case s of
        [] \<Rightarrow> None
      | e # r \<Rightarrow>
          (if e = CHR ''u'' then
             (case cpl_unicode r of
                None \<Rightarrow> None
              | Some (value, r') \<Rightarrow> map_option (\<lambda>w. (w, r')) (append_utf8 word start value))
           else if e = CHR ''x'' then
             (case cpl_byte_escape r of
                None \<Rightarrow> None
              | Some (c, r') \<Rightarrow> map_option (\<lambda>w. (w, r')) (append_cpl_byte word start c))
           else case simple_escape e of
             None \<Rightarrow> None
           | Some c \<Rightarrow> map_option (\<lambda>w. (w, r)) (append_cpl_byte word start c)))"

lemma cpl_escape_shorter: "cpl_escape word start s = Some (w, r) \<Longrightarrow> length r < length s"
  by (auto simp: cpl_escape_def cpl_unicode_def cpl_byte_escape_def Let_def
      split: list.splits if_splits option.splits)

text \<open>The quoted part, from behind its opening quote.\<close>

function cpl_quoted :: "bytes \<Rightarrow> nat \<Rightarrow> bytes \<Rightarrow> (bytes \<times> bytes) option" where
  "cpl_quoted word start [] = None"
| "cpl_quoted word start (c # s) =
     (if c = CHR 0x22 then Some (word, s)
      else if ord c < 0x20 then None
      else if c \<noteq> CHR 0x5C then
        (case append_cpl_byte word start c of None \<Rightarrow> None | Some w \<Rightarrow> cpl_quoted w start s)
      else case cpl_escape word start s of None \<Rightarrow> None | Some (w, r) \<Rightarrow> cpl_quoted w start r)"
  by pat_completeness auto
termination
  by (relation "measure (\<lambda>(_, _, s). length s)") (auto dest: cpl_escape_shorter)

lemma cpl_quoted_shorter: "cpl_quoted word start s = Some (w, r) \<Longrightarrow> length r < length s"
proof (induction word start s rule: cpl_quoted.induct)
  case (2 word start c s)
  then show ?case by (fastforce dest: cpl_escape_shorter split: if_splits option.splits)
qed simp

section \<open>Words\<close>

record cpl_word =
  cw_text :: bytes
  cw_literal :: bool
  cw_compound :: bool
  cw_capture_offset :: nat
  cw_capture_length :: nat

text \<open>What the parser has seen of the current word.\<close>

record cpl_scan =
  cs_word :: bytes
  cs_start :: nat
  cs_quoted :: bool
  cs_unquoted :: bool
  cs_compound :: bool
  cs_open :: bool
  cs_capture_offset :: nat
  cs_capture_length :: nat

definition cpl_scan_new :: cpl_scan where
  "cpl_scan_new = \<lparr>cs_word = [], cs_start = 0, cs_quoted = False, cs_unquoted = False, cs_compound = False,
     cs_open = False, cs_capture_offset = 0, cs_capture_length = 0\<rparr>"

definition cpl_unquoted :: "cpl_scan \<Rightarrow> char \<Rightarrow> cpl_scan option" where
  "cpl_unquoted z c =
     (if ord c < 0x20 \<or> ord c = 0x7f \<or> c = CHR 0x5C then None
      else let z1 = z\<lparr>cs_unquoted := True\<rparr>; used = length (cs_word z) in
        if c = CHR ''{'' then
          (if cs_compound z \<or> cs_open z then None
           else Some (z1\<lparr>cs_open := True, cs_word := cs_word z @ [CHR ''{''], cs_capture_offset := used + 1,
                  cs_start := used + 1\<rparr>))
        else if c = CHR ''}'' then
          (if \<not> cs_open z then None
           else Some (z1\<lparr>cs_open := False, cs_compound := True, cs_capture_length := used - cs_capture_offset z,
                  cs_word := cs_word z @ [CHR ''}''], cs_start := used + 1\<rparr>))
        else map_option (\<lambda>w. z1\<lparr>cs_word := w\<rparr>) (append_cpl_byte (cs_word z) (cs_start z) c))"

text \<open>The rest of a word, up to a space or the end of the text.\<close>

function cpl_scan_word :: "cpl_scan \<Rightarrow> bytes \<Rightarrow> (cpl_scan \<times> bytes) option" where
  "cpl_scan_word z [] = Some (z, [])"
| "cpl_scan_word z (c # s) =
     (if c = CHR '' '' then Some (z, c # s)
      else if c \<noteq> CHR 0x22 then
        (case cpl_unquoted z c of None \<Rightarrow> None | Some z' \<Rightarrow> cpl_scan_word z' s)
      else if cs_open z then None
      else case cpl_quoted (cs_word z) (cs_start z) s of
        None \<Rightarrow> None
      | Some (w, r) \<Rightarrow> cpl_scan_word (z\<lparr>cs_quoted := True, cs_word := w\<rparr>) r)"
  by pat_completeness auto
termination
  by (relation "measure (\<lambda>(_, s). length s)") (auto dest: cpl_quoted_shorter)

lemma cpl_scan_word_shorter: "cpl_scan_word z s = Some (z', r) \<Longrightarrow> length r \<le> length s"
proof (induction z s rule: cpl_scan_word.induct)
  case (2 z c s)
  then show ?case by (fastforce dest: cpl_quoted_shorter split: if_splits option.splits)
qed simp

definition cpl_word_of :: "cpl_scan \<Rightarrow> cpl_word option" where
  "cpl_word_of z =
     (if (cs_word z = [] \<and> \<not> cs_quoted z) \<or> cs_open z \<or> (cs_quoted z \<and> cs_unquoted z \<and> \<not> cs_compound z)
      then None
      else Some \<lparr>cw_text = cs_word z, cw_literal = \<not> cs_unquoted z, cw_compound = cs_compound z,
        cw_capture_offset = cs_capture_offset z, cw_capture_length = cs_capture_length z\<rparr>)"

definition skip_spaces :: "bytes \<Rightarrow> bytes" where
  "skip_spaces = dropWhile (\<lambda>c. c = CHR '' '')"

lemma scan_first_shorter:
  "skip_spaces s = c # t \<Longrightarrow> cpl_scan_word z (c # t) = Some (z', r) \<Longrightarrow> length r < length s"
proof -
  assume skip: "skip_spaces s = c # t" and scan: "cpl_scan_word z (c # t) = Some (z', r)"
  have "c \<noteq> CHR '' ''" using skip by (auto simp: skip_spaces_def dropWhile_eq_Cons_conv)
  then have "length r < length (c # t)"
    using scan by (fastforce dest: cpl_scan_word_shorter cpl_quoted_shorter split: if_splits option.splits)
  also have "\<dots> \<le> length s" using length_dropWhile_le skip unfolding skip_spaces_def by metis
  finally show ?thesis .
qed

function cpl_words :: "nat \<Rightarrow> bytes \<Rightarrow> cpl_word list option" where
  "cpl_words count s =
     (case skip_spaces s of
        [] \<Rightarrow> Some []
      | c # t \<Rightarrow>
          (if count = ST_MAX_CMD_TOKENS then None
           else case cpl_scan_word cpl_scan_new (c # t) of
             None \<Rightarrow> None
           | Some (z, r) \<Rightarrow>
               (case cpl_word_of z of
                  None \<Rightarrow> None
                | Some w \<Rightarrow> map_option (\<lambda>ws. w # ws) (cpl_words (count + 1) r))))"
  by pat_completeness auto
termination
  by (relation "measure (\<lambda>(_, s). length s)") (auto dest: scan_first_shorter)

declare cpl_words.simps [simp del]

definition parse_cpl :: "bytes \<Rightarrow> cpl_word list result" where
  "parse_cpl s =
     (let cpl = cstr s in
      if cpl = [] \<or> length cpl \<ge> ST_MAX_CPL_LEN then Inl ST_ERR_INVALID
      else case cpl_words 0 cpl of
        None \<Rightarrow> Inl ST_ERR_INVALID
      | Some words \<Rightarrow> if words = [] then Inl ST_ERR_INVALID else Inr words)"

section \<open>From text to a canonical pattern\<close>

definition cpl_token :: "cpl_word \<Rightarrow> st_token_arg result" where
  "cpl_token w =
     (if cw_compound w then
        (let prefix = take (cw_capture_offset w - 1) (cw_text w);
             suffix = drop (cw_capture_offset w + cw_capture_length w + 1) (cw_text w);
             capture = take (cw_capture_length w) (drop (cw_capture_offset w) (cw_text w));
             capture_type = wildcard_type capture in
         if capture_type = ST_TYPE_LITERAL \<or> (prefix = [] \<and> suffix = []) then Inl ST_ERR_INVALID
         else Inr \<lparr>arg_text = None, arg_text_length = 0, arg_type = ST_TYPE_LITERAL, arg_compound = True,
           arg_prefix = Some prefix, arg_prefix_length = length prefix,
           arg_capture = Some capture, arg_capture_length = cw_capture_length w,
           arg_suffix = Some suffix, arg_suffix_length = length suffix, arg_capture_type = capture_type\<rparr>)
      else
        (let typed = \<not> cw_literal w \<and> wildcard_spelling (cw_text w) in
         if \<not> cw_literal w \<and> cw_text w \<noteq> [] \<and> hd (cw_text w) = CHR ''#'' \<and> \<not> typed then Inl ST_ERR_INVALID
         else Inr \<lparr>arg_text = Some (cw_text w), arg_text_length = length (cw_text w),
           arg_type = (if typed then wildcard_type (cw_text w) else ST_TYPE_LITERAL), arg_compound = False,
           arg_prefix = None, arg_prefix_length = 0, arg_capture = None, arg_capture_length = 0,
           arg_suffix = None, arg_suffix_length = 0, arg_capture_type = ST_TYPE_LITERAL\<rparr>))"

definition st_netpattern_from_cpl_owned :: "bytes \<Rightarrow> bytes result" where
  "st_netpattern_from_cpl_owned cpl =
     bind_result (parse_cpl cpl) (\<lambda>words.
     bind_result (map_result cpl_token words) (\<lambda>tokens.
     st_netpattern_encode_owned (Some tokens)))"

section \<open>Printing\<close>

datatype cpl_byte_class = CPL_BYTE_PLAIN | CPL_BYTE_ESCAPED | CPL_BYTE_NAMED | CPL_BYTE_HEX

text \<open>The length of the printable UTF-8 sequence at the head of the text, or zero.\<close>

definition cpl_utf8_sequence :: "bytes \<Rightarrow> nat" where
  "cpl_utf8_sequence s =
     (let lead = ord (s ! 0);
          size = (if lead \<ge> 0xf0 then 4 else if lead \<ge> 0xe0 then 3 else 2) in
      if lead < 0xc2 \<or> lead > 0xf4 \<or> length s < size then 0
      else let
          low = (if lead = 0xe0 then 0xa0 else if lead = 0xed then 0x80 else if lead = 0xf0 then 0x90
                 else if lead = 0xf4 then 0x80 else if lead = 0xc2 then 0xa0 else 0x80);
          high = (if lead = 0xe0 then 0xbf else if lead = 0xed then 0x9f else if lead = 0xf0 then 0xbf
                  else if lead = 0xf4 then 0x8f else 0xbf);
          second = ord (s ! 1) in
        if second < low \<or> second > high then 0
        else if list_all (\<lambda>c. 0x80 \<le> ord c \<and> ord c < 0xc0) (take (size - 2) (drop 2 s)) then size else 0)"

definition cpl_unit :: "bytes \<Rightarrow> cpl_byte_class \<times> nat" where
  "cpl_unit s =
     (let c = s ! 0; sequence = (if ord c \<ge> 0x80 then cpl_utf8_sequence s else 0) in
      if sequence \<noteq> 0 then (CPL_BYTE_PLAIN, sequence)
      else if c = CHR 0x22 \<or> c = CHR 0x5C then (CPL_BYTE_ESCAPED, 1)
      else if c = CHR 0x08 \<or> c = CHR 0x0C \<or> c = CHR 0x0A \<or> c = CHR 0x0D \<or> c = CHR 0x09 then (CPL_BYTE_NAMED, 1)
      else if ord c < 0x20 \<or> ord c > 0x7e then (CPL_BYTE_HEX, 1)
      else (CPL_BYTE_PLAIN, 1))"

lemma cpl_unit_progress [simp]: "0 < snd (cpl_unit s)"
  by (auto simp: cpl_unit_def Let_def)

text \<open>The units of a text.\<close>

function cpl_units :: "bytes \<Rightarrow> (cpl_byte_class \<times> bytes) list" where
  "cpl_units [] = []"
| "cpl_units (c # s) =
     (let (kind, n) = cpl_unit (c # s) in (kind, take n (c # s)) # cpl_units (drop n (c # s)))"
  by pat_completeness auto
termination
  by (relation "measure length") (auto dest!: sym [of _ "cpl_unit _"] simp: less_Suc_eq_le,
      metis cpl_unit_progress diff_Suc_less diff_less_mono2 diff_zero le_simps(2) snd_conv less_Suc_eq_le zero_less_Suc)

definition literal_needs_quotes :: "bytes \<Rightarrow> bool" where
  "literal_needs_quotes text \<longleftrightarrow>
     text = [] \<or> hd text = CHR ''#'' \<or> text = ''*'' \<or>
     list_ex (\<lambda>(kind, u). kind \<noteq> CPL_BYTE_PLAIN \<or> shell_ascii_space (hd u) \<or> hd u = CHR ''{'' \<or> hd u = CHR ''}'')
       (cpl_units text)"

definition cpl_literal_length :: "bytes \<Rightarrow> bool \<Rightarrow> nat" where
  "cpl_literal_length text quote =
     (if \<not> quote then length text
      else foldl (\<lambda>result (kind, u). case kind of
          CPL_BYTE_ESCAPED \<Rightarrow> result + 2 | CPL_BYTE_NAMED \<Rightarrow> result + 2
        | CPL_BYTE_HEX \<Rightarrow> result + 4 | CPL_BYTE_PLAIN \<Rightarrow> result + length u) 2 (cpl_units text))"

definition hex_char :: "nat \<Rightarrow> char" where
  "hex_char d = ''0123456789abcdef'' ! d"

definition escape_name :: "char \<Rightarrow> char" where
  "escape_name c = (if c = CHR 0x08 then CHR ''b'' else if c = CHR 0x0C then CHR ''f''
     else if c = CHR 0x0A then CHR ''n'' else if c = CHR 0x0D then CHR ''r'' else CHR ''t'')"

definition cpl_unit_text :: "cpl_byte_class \<Rightarrow> bytes \<Rightarrow> bytes" where
  "cpl_unit_text kind u =
     (case kind of
        CPL_BYTE_PLAIN \<Rightarrow> u
      | CPL_BYTE_ESCAPED \<Rightarrow> [CHR 0x5C, hd u]
      | CPL_BYTE_NAMED \<Rightarrow> [CHR 0x5C, escape_name (hd u)]
      | CPL_BYTE_HEX \<Rightarrow> [CHR 0x5C, CHR ''x'', hex_char (ord (hd u) div 16), hex_char (ord (hd u) mod 16)])"

definition append_cpl_literal :: "bytes \<Rightarrow> bool \<Rightarrow> bytes" where
  "append_cpl_literal text quote =
     (if \<not> quote then text
      else CHR 0x22 # concat (map (\<lambda>(kind, u). cpl_unit_text kind u) (cpl_units text)) @ [CHR 0x22])"

text \<open>The length and the text of one token. A part of a compound is written when it is not empty.\<close>

definition cpl_part_length :: "bytes \<Rightarrow> nat" where
  "cpl_part_length part = cpl_literal_length part (part \<noteq> [] \<and> literal_needs_quotes part)"

definition cpl_part_text :: "bytes \<Rightarrow> bytes" where
  "cpl_part_text part = (if part \<noteq> [] then append_cpl_literal part (literal_needs_quotes part) else [])"

definition cpl_token_length :: "st_token \<Rightarrow> nat" where
  "cpl_token_length t =
     (if tk_compound t then cpl_part_length (tk_prefix t) + length (tk_capture t) + cpl_part_length (tk_suffix t) + 2
      else if tk_type t = ST_TYPE_LITERAL then cpl_literal_length (tk_text t) (literal_needs_quotes (tk_text t))
      else length (tk_text t))"

definition cpl_token_text :: "st_token \<Rightarrow> bytes" where
  "cpl_token_text t =
     (if tk_compound t then cpl_part_text (tk_prefix t) @ CHR ''{'' # tk_capture t @ CHR ''}'' # cpl_part_text (tk_suffix t)
      else if tk_type t \<noteq> ST_TYPE_LITERAL then tk_text t
      else append_cpl_literal (tk_text t) (literal_needs_quotes (tk_text t)))"

definition cpl_token_fits :: "st_token \<Rightarrow> bool" where
  "cpl_token_fits t \<longleftrightarrow>
     (if tk_compound t
      then \<not> (cpl_part_length (tk_prefix t) > SIZE_MAX - length (tk_capture t) - 2 \<or>
              cpl_part_length (tk_suffix t) > SIZE_MAX - cpl_part_length (tk_prefix t) - length (tk_capture t) - 2)
      else True)"

text \<open>The size of the text, checked at every token.\<close>

fun cpl_required :: "nat \<Rightarrow> st_token list \<Rightarrow> nat result" where
  "cpl_required required [] = Inr required"
| "cpl_required required (t # ts) =
     (if \<not> cpl_token_fits t then Inl ST_ERR_LIMIT
      else if cpl_token_length t > SIZE_MAX - required \<or> required + cpl_token_length t \<ge> ST_MAX_CPL_LEN then Inl ST_ERR_LIMIT
      else cpl_required (required + cpl_token_length t) ts)"

definition cpl_render :: "bytes \<Rightarrow> st_token \<Rightarrow> bytes" where
  "cpl_render cpl t = (if cpl \<noteq> [] then cpl @ [CHR '' ''] else cpl) @ cpl_token_text t"

definition st_netpattern_to_cpl_view :: "st_netpattern_view \<Rightarrow> bytes result" where
  "st_netpattern_to_cpl_view netpattern =
     (if np_data netpattern = None \<and> np_length netpattern \<noteq> 0 then Inl ST_ERR_INVALID
      else bind_result (st_netpattern_decode_view netpattern) (\<lambda>tokens.
      bind_result (cpl_required (length tokens - 1) tokens) (\<lambda>required.
      Inr (foldl cpl_render [] tokens))))"

end
