(* ===== verification/Cpl_Roundtrip.thy ===== *)
theory Cpl_Roundtrip imports Cpl begin

text \<open>
  Printing a canonical pattern and parsing the text gives the pattern back. The printer cuts a
  literal into units; every unit is read back as its bytes inside quotes, and a literal that needs
  no quotes is read back as it stands.
\<close>

section \<open>Units\<close>

text \<open>Bytes a quoted text may hold as they are, and bytes an unquoted word may.\<close>

definition quoted_byte :: "char \<Rightarrow> bool" where
  "quoted_byte c \<longleftrightarrow> 0x20 \<le> ord c \<and> ord c \<noteq> 0x7f \<and> c \<noteq> CHR 0x22 \<and> c \<noteq> CHR 0x5C"

definition word_byte :: "char \<Rightarrow> bool" where
  "word_byte c \<longleftrightarrow> quoted_byte c \<and> c \<noteq> CHR '' '' \<and> c \<noteq> CHR ''{'' \<and> c \<noteq> CHR ''}''"

lemma word_bytes_no_nul: "list_all word_byte w \<Longrightarrow> NUL \<notin> set w"
proof
  assume "list_all word_byte w" "NUL \<in> set w"
  then have "word_byte NUL" by (simp add: list_all_iff)
  then show False by (simp add: word_byte_def quoted_byte_def)
qed

lemma high_byte: "0x80 \<le> ord c \<Longrightarrow> word_byte c"
  by (auto simp: word_byte_def quoted_byte_def)

definition unit_ok :: "cpl_byte_class \<Rightarrow> bytes \<Rightarrow> bool" where
  "unit_ok kind u \<longleftrightarrow>
     (case kind of
        CPL_BYTE_PLAIN \<Rightarrow> u \<noteq> [] \<and> list_all quoted_byte u \<and> (length u = 1 \<or> list_all word_byte u)
      | CPL_BYTE_ESCAPED \<Rightarrow> u = [CHR 0x22] \<or> u = [CHR 0x5C]
      | CPL_BYTE_NAMED \<Rightarrow> u = [CHR 0x08] \<or> u = [CHR 0x0C] \<or> u = [CHR 0x0A] \<or> u = [CHR 0x0D] \<or> u = [CHR 0x09]
      | CPL_BYTE_HEX \<Rightarrow> length u = 1)"

lemma utf8_sequence_high:
  assumes "cpl_utf8_sequence s \<noteq> 0" "0x80 \<le> ord (s ! 0)"
  shows "2 \<le> cpl_utf8_sequence s \<and> cpl_utf8_sequence s \<le> length s \<and>
    (\<forall>c\<in>set (take (cpl_utf8_sequence s) s). 0x80 \<le> ord c)"
proof -
  define size :: nat where "size = (if ord (s ! 0) \<ge> 0xf0 then 4 else if ord (s ! 0) \<ge> 0xe0 then 3 else 2)"
  have n: "cpl_utf8_sequence s = size" "size \<le> length s" "0x80 \<le> ord (s ! 1)"
    "list_all (\<lambda>c. 0x80 \<le> ord c \<and> ord c < 0xc0) (take (size - 2) (drop 2 s))"
    using assms(1) unfolding cpl_utf8_sequence_def Let_def size_def [symmetric]
    by (auto split: if_splits)
  have two: "2 \<le> size" by (simp add: size_def)
  obtain a b t where s: "s = a # b # t"
    using n(2) two by (cases s; cases "tl s") auto
  have "take size s = a # b # take (size - 2) t" using two by (simp add: s take_Cons' numeral_2_eq_2)
  then show ?thesis using n two assms(2) by (auto simp: s list_all_iff)
qed

lemma cpl_unit_ok:
  assumes "cpl_unit (c # s) = (kind, n)"
  shows "unit_ok kind (take n (c # s))"
proof (cases "ord c \<ge> 0x80 \<and> cpl_utf8_sequence (c # s) \<noteq> 0")
  case True
  then have "kind = CPL_BYTE_PLAIN" "n = cpl_utf8_sequence (c # s)" using assms by (simp_all add: cpl_unit_def Let_def)
  moreover have "list_all word_byte (take (cpl_utf8_sequence (c # s)) (c # s))"
    using utf8_sequence_high [of "c # s"] True high_byte by (auto simp: list_all_iff)
  ultimately show ?thesis
    using utf8_sequence_high [of "c # s"] True by (auto simp: unit_ok_def list_all_iff word_byte_def)
next
  case False
  then have "n = 1" using assms by (auto simp: cpl_unit_def Let_def split: if_splits)
  then have one: "take n (c # s) = [c]" by simp
  show ?thesis
    unfolding one using assms False
    by (auto simp: cpl_unit_def Let_def unit_ok_def quoted_byte_def word_byte_def split: if_splits)
qed

lemma cpl_units_ok: "list_all (\<lambda>(kind, u). unit_ok kind u) (cpl_units s)"
proof (induction s rule: cpl_units.induct)
  case (2 c s)
  obtain kind n where u: "cpl_unit (c # s) = (kind, n)" by fastforce
  then show ?case using 2 cpl_unit_ok [OF u] by simp
qed simp

lemma cpl_units_concat: "concat (map snd (cpl_units s)) = s"
proof (induction s rule: cpl_units.induct)
  case (2 c s)
  obtain kind n where u: "cpl_unit (c # s) = (kind, n)" by fastforce
  show ?case using 2 [OF u [symmetric] refl] u append_take_drop_id [of n "c # s"] by simp
qed simp

section \<open>Reading units back\<close>

lemma hex_char_digit: "d < 16 \<Longrightarrow> hex_digit (hex_char d) = Some d"
proof -
  assume "d < 16"
  then have "d \<in> set [0..<16]" by simp
  moreover have "list_all (\<lambda>d. hex_digit (hex_char d) = Some d) [0..<16]" by code_simp
  ultimately show ?thesis unfolding list_all_iff by blast
qed

lemma char_split: "char_of (ord c div 16 * 16 + ord c mod 16) = c"
  by (simp add: div_mult_mod_eq del: of_char_mod_256)

definition room_for :: "bytes \<Rightarrow> nat \<Rightarrow> nat \<Rightarrow> bool" where
  "room_for word start n \<longleftrightarrow> start \<le> length word \<and> length word - start + n < ST_MAX_TOKEN_LEN"

lemma append_room: "room_for word start 1 \<Longrightarrow> append_cpl_byte word start c = Some (word @ [c])"
  by (auto simp: append_cpl_byte_def room_for_def)

lemma room_append: "room_for word start (length u + n) \<Longrightarrow> room_for (word @ u) start n"
  by (auto simp: room_for_def)

lemma room_less: "room_for word start n \<Longrightarrow> m \<le> n \<Longrightarrow> room_for word start m"
  by (auto simp: room_for_def)

lemma quoted_plain:
  "list_all quoted_byte u \<Longrightarrow> room_for word start (length u) \<Longrightarrow>
   cpl_quoted word start (u @ r) = cpl_quoted (word @ u) start r"
proof (induction u arbitrary: word)
  case (Cons c u)
  have "append_cpl_byte word start c = Some (word @ [c])"
    using append_room room_less [OF Cons.prems(2), of 1] by simp
  moreover have "room_for (word @ [c]) start (length u)" using room_append [of word start "[c]"] Cons.prems(2) by simp
  ultimately show ?case using Cons by (auto simp: quoted_byte_def)
qed simp

lemma byte_escape: "cpl_byte_escape (hex_char (ord c div 16) # hex_char (ord c mod 16) # r) = Some (c, r)"
proof -
  have "ord c div 16 < 16" using nat_of_char_less_256 [of c] by (simp add: div_less_iff_less_mult)
  moreover have "ord c mod 16 < 16" by simp
  ultimately show ?thesis using char_split [of c] by (simp add: cpl_byte_escape_def hex_char_digit)
qed

lemma quoted_unit:
  assumes "unit_ok kind u" "room_for word start (length u)"
  shows "cpl_quoted word start (cpl_unit_text kind u @ r) = cpl_quoted (word @ u) start r"
proof (cases kind)
  case CPL_BYTE_PLAIN
  then show ?thesis using assms quoted_plain by (simp add: unit_ok_def cpl_unit_text_def)
next
  case CPL_BYTE_ESCAPED
  then show ?thesis
    using assms append_room [of word start]
    by (auto simp: unit_ok_def cpl_unit_text_def cpl_escape_def simple_escape_def)
next
  case CPL_BYTE_NAMED
  then show ?thesis
    using assms append_room [of word start]
    by (auto simp: unit_ok_def cpl_unit_text_def cpl_escape_def simple_escape_def escape_name_def)
next
  case CPL_BYTE_HEX
  then obtain c where "u = [c]" using assms(1) by (auto simp: unit_ok_def length_Suc_conv)
  then show ?thesis
    using assms append_room [of word start] CPL_BYTE_HEX
    by (simp add: cpl_unit_text_def cpl_escape_def byte_escape)
qed

lemma quoted_units:
  "list_all (\<lambda>(kind, u). unit_ok kind u) us \<Longrightarrow> room_for word start (length (concat (map snd us))) \<Longrightarrow>
   cpl_quoted word start (concat (map (\<lambda>(kind, u). cpl_unit_text kind u) us) @ r) =
     cpl_quoted (word @ concat (map snd us)) start r"
proof (induction us arbitrary: word)
  case (Cons ku us)
  obtain kind u where ku: "ku = (kind, u)" by fastforce
  have "room_for word start (length u)" using room_less [OF Cons.prems(2)] ku by simp
  then have "cpl_quoted word start (cpl_unit_text kind u @ rest) = cpl_quoted (word @ u) start rest" for rest
    using quoted_unit Cons.prems(1) ku by simp
  moreover have "room_for (word @ u) start (length (concat (map snd us)))"
    using room_append Cons.prems(2) ku by simp
  ultimately show ?case using Cons ku by simp
qed simp

lemma quoted_literal:
  assumes "room_for word start (length text)"
  shows "cpl_quoted word start (concat (map (\<lambda>(kind, u). cpl_unit_text kind u) (cpl_units text)) @ CHR 0x22 # r) =
    Some (word @ text, r)"
  using quoted_units [OF cpl_units_ok, of word start "text"] assms by (simp add: cpl_units_concat)

lemma unquoted_bytes:
  assumes "\<not> literal_needs_quotes text"
  shows "list_all word_byte text"
proof -
  have units: "list_all (\<lambda>(kind, u). kind = CPL_BYTE_PLAIN \<and> \<not> shell_ascii_space (hd u) \<and> hd u \<noteq> CHR ''{'' \<and>
      hd u \<noteq> CHR ''}'') (cpl_units text)"
    using assms by (auto simp: literal_needs_quotes_def list_ex_iff list_all_iff)
  have "list_all word_byte u" if ku: "(kind, u) \<in> set (cpl_units text)" for kind u
  proof -
    have "unit_ok kind u" using cpl_units_ok ku unfolding list_all_iff by blast
    moreover have "kind = CPL_BYTE_PLAIN" "\<not> shell_ascii_space (hd u)" "hd u \<noteq> CHR ''{''" "hd u \<noteq> CHR ''}''"
      using units ku unfolding list_all_iff by blast+
    ultimately have u: "list_all quoted_byte u" "length u = 1 \<or> list_all word_byte u" "\<not> shell_ascii_space (hd u)"
      "hd u \<noteq> CHR ''{''" "hd u \<noteq> CHR ''}''"
      by (simp_all add: unit_ok_def)
    show ?thesis
    proof (cases "length u = 1")
      case True
      then obtain c where "u = [c]" by (auto simp: length_Suc_conv)
      then show ?thesis using u by (auto simp: word_byte_def shell_ascii_space_def)
    qed (use u in blast)
  qed
  then have "list_all word_byte (concat (map snd (cpl_units text)))" by (fastforce simp: list_all_iff)
  then show ?thesis by (simp add: cpl_units_concat)
qed

section \<open>Reading words back\<close>

lemma scan_bytes:
  "list_all word_byte u \<Longrightarrow> room_for (cs_word z) (cs_start z) (length u) \<Longrightarrow>
   cpl_scan_word z (u @ r) =
     cpl_scan_word (z\<lparr>cs_word := cs_word z @ u, cs_unquoted := cs_unquoted z \<or> u \<noteq> []\<rparr>) r"
proof (induction u arbitrary: z)
  case (Cons c u)
  let ?z = "z\<lparr>cs_unquoted := True, cs_word := cs_word z @ [c]\<rparr>"
  have c: "c \<noteq> CHR '' ''" "c \<noteq> CHR 0x22" "c \<noteq> CHR ''{''" "c \<noteq> CHR ''}''" "c \<noteq> CHR 0x5C" "0x20 \<le> ord c" "ord c \<noteq> 0x7f"
    using Cons.prems(1) by (auto simp: word_byte_def quoted_byte_def)
  have "append_cpl_byte (cs_word z) (cs_start z) c = Some (cs_word z @ [c])"
    using append_room room_less [OF Cons.prems(2), of 1] by simp
  then have "cpl_unquoted z c = Some ?z" using c by (simp add: cpl_unquoted_def Let_def)
  moreover have "room_for (cs_word ?z) (cs_start ?z) (length u)"
    using room_append [of "cs_word z" "cs_start z" "[c]"] Cons.prems(2) by simp
  ultimately show ?case using Cons.IH [of ?z] Cons.prems(1) c(1,2) by simp
qed simp

lemma scan_literal:
  assumes "room_for (cs_word z) (cs_start z) (length text)" "\<not> cs_open z"
  shows "cpl_scan_word z (append_cpl_literal text (literal_needs_quotes text) @ r) =
    cpl_scan_word (z\<lparr>cs_word := cs_word z @ text, cs_quoted := cs_quoted z \<or> literal_needs_quotes text,
      cs_unquoted := cs_unquoted z \<or> \<not> literal_needs_quotes text\<rparr>) r"
proof (cases "literal_needs_quotes text")
  case True
  then show ?thesis using assms quoted_literal [of "cs_word z" "cs_start z" "text" r]
    by (cases z) (simp add: append_cpl_literal_def)
next
  case False
  then have "text \<noteq> []" by (simp add: literal_needs_quotes_def)
  then show ?thesis
    using scan_bytes [OF unquoted_bytes [OF False] assms(1)] False by (simp add: append_cpl_literal_def)
qed

lemma scan_part:
  assumes "room_for (cs_word z) (cs_start z) (length part)" "\<not> cs_open z"
  shows "\<exists>q u. (cs_unquoted z \<longrightarrow> u) \<and> (\<forall>r. cpl_scan_word z (cpl_part_text part @ r) =
    cpl_scan_word (z\<lparr>cs_word := cs_word z @ part, cs_quoted := q, cs_unquoted := u\<rparr>) r)"
proof (cases "part = []")
  case True
  then show ?thesis by (intro exI [of _ "cs_quoted z"] exI [of _ "cs_unquoted z"]) (simp add: cpl_part_text_def)
next
  case False
  then show ?thesis
    using scan_literal [OF assms]
    by (intro exI [of _ "cs_quoted z \<or> literal_needs_quotes part"] exI [of _ "cs_unquoted z \<or> \<not> literal_needs_quotes part"])
       (simp add: cpl_part_text_def)
qed

lemma canonical_bytes:
  assumes "canonical_spelling t w"
  shows "list_all word_byte w \<and> w \<noteq> []"
proof -
  have "list_all word_byte (st_type_symbol t)"
  proof -
    have "list_all (\<lambda>t. list_all word_byte (st_type_symbol t)) all_token_types" by code_simp
    then show ?thesis using set_all_token_types [of t] unfolding list_all_iff by blast
  qed
  moreover have "list_all word_byte (me_name m)" if "m \<in> set st_metadata_entries" for m
  proof -
    have "list_all (\<lambda>m. list_all word_byte (me_name m)) st_metadata_entries" by code_simp
    then show ?thesis using that unfolding list_all_iff by blast
  qed
  moreover have "word_byte CHR ''.''" by (simp add: word_byte_def quoted_byte_def)
  ultimately show ?thesis using assms type_symbol_nonempty by (auto simp: canonical_spelling_def)
qed

text \<open>The word a token's text is read as.\<close>

definition word_of :: "st_token \<Rightarrow> cpl_word" where
  "word_of t =
     (if tk_compound t
      then \<lparr>cw_text = compound_display (tk_prefix t) (tk_capture t) (tk_suffix t), cw_literal = False,
        cw_compound = True, cw_capture_offset = length (tk_prefix t) + 1, cw_capture_length = length (tk_capture t)\<rparr>
      else \<lparr>cw_text = tk_text t, cw_literal = (tk_type t = ST_TYPE_LITERAL \<and> literal_needs_quotes (tk_text t)),
        cw_compound = False, cw_capture_offset = 0, cw_capture_length = 0\<rparr>)"

text \<open>A text behind a word: empty or a space first.\<close>

definition word_end :: "bytes \<Rightarrow> bool" where
  "word_end r \<longleftrightarrow> r = [] \<or> hd r = CHR '' ''"

lemma scan_end: "word_end r \<Longrightarrow> cpl_scan_word z r = Some (z, r)"
  by (cases r) (auto simp: word_end_def)

lemma scan_token:
  assumes wf: "wf_token t" and r: "word_end r"
  shows "\<exists>z. cpl_scan_word cpl_scan_new (cpl_token_text t @ r) = Some (z, r) \<and> cpl_word_of z = Some (word_of t)"
proof (cases "tk_compound t")
  case True
  have t: "canonical_spelling (tk_capture_type t) (tk_capture t)" "length (tk_prefix t) < ST_MAX_TOKEN_LEN"
    "length (tk_suffix t) < ST_MAX_TOKEN_LEN"
    using wf True by (simp_all add: wf_token_def)
  have cap: "length (tk_capture t) < ST_MAX_TOKEN_LEN" "list_all word_byte (tk_capture t)"
    using canonical_spelling_props [OF t(1)] canonical_bytes [OF t(1)] by (simp_all add: ST_MAX_TOKEN_LEN_def)
  let ?p = "tk_prefix t" and ?c = "tk_capture t" and ?s = "tk_suffix t"
  have new: "cs_word cpl_scan_new = []" "cs_start cpl_scan_new = 0" "\<not> cs_open cpl_scan_new" "\<not> cs_compound cpl_scan_new"
    "cs_capture_offset cpl_scan_new = 0"
    by (simp_all add: cpl_scan_new_def)
  obtain q u where p: "\<forall>rest. cpl_scan_word cpl_scan_new (cpl_part_text ?p @ rest) =
      cpl_scan_word (cpl_scan_new\<lparr>cs_word := ?p, cs_quoted := q, cs_unquoted := u\<rparr>) rest"
    using scan_part [of cpl_scan_new ?p] t(2) new by (auto simp: room_for_def)
  let ?z1 = "cpl_scan_new\<lparr>cs_word := ?p, cs_quoted := q, cs_unquoted := u\<rparr>"
  let ?z2 = "?z1\<lparr>cs_unquoted := True, cs_open := True, cs_word := ?p @ ''{'', cs_capture_offset := length ?p + 1,
      cs_start := length ?p + 1\<rparr>"
  have open_brace: "cpl_scan_word ?z1 (CHR ''{'' # rest) = cpl_scan_word ?z2 rest" for rest
    by (simp add: cpl_unquoted_def Let_def cpl_scan_new_def)
  let ?z3 = "?z2\<lparr>cs_word := ?p @ ''{'' @ ?c\<rparr>"
  have capture: "cpl_scan_word ?z2 (?c @ rest) = cpl_scan_word ?z3 rest" for rest
    using scan_bytes [of ?c ?z2 rest] cap by (simp add: room_for_def cpl_scan_new_def)
  let ?z4 = "?z3\<lparr>cs_open := False, cs_compound := True, cs_capture_length := length ?c,
      cs_word := ?p @ ''{'' @ ?c @ ''}'', cs_start := length ?p + length ?c + 2\<rparr>"
  have close_brace: "cpl_scan_word ?z3 (CHR ''}'' # rest) = cpl_scan_word ?z4 rest" for rest
    by (simp add: cpl_unquoted_def Let_def cpl_scan_new_def)
  have "room_for (cs_word ?z4) (cs_start ?z4) (length ?s)" "\<not> cs_open ?z4" using t(3) by (simp_all add: room_for_def)
  from scan_part [OF this] obtain q' u' where u': "cs_unquoted ?z4 \<longrightarrow> u'" and s: "\<forall>rest.
      cpl_scan_word ?z4 (cpl_part_text ?s @ rest) =
      cpl_scan_word (?z4\<lparr>cs_word := cs_word ?z4 @ ?s, cs_quoted := q', cs_unquoted := u'\<rparr>) rest"
    by blast
  have "cpl_token_text t @ r = cpl_part_text ?p @ CHR ''{'' # ?c @ CHR ''}'' # cpl_part_text ?s @ r"
    using True by (simp add: cpl_token_text_def)
  then have "cpl_scan_word cpl_scan_new (cpl_token_text t @ r) =
      Some (?z4\<lparr>cs_word := cs_word ?z4 @ ?s, cs_quoted := q', cs_unquoted := u'\<rparr>, r)"
    using p open_brace capture close_brace s scan_end [OF r] by simp
  moreover have "cpl_word_of (?z4\<lparr>cs_word := cs_word ?z4 @ ?s, cs_quoted := q', cs_unquoted := u'\<rparr>) = Some (word_of t)"
    using True u' by (simp add: cpl_word_of_def word_of_def compound_display_def)
  ultimately show ?thesis by blast
next
  case False
  have size: "length (tk_text t) < ST_MAX_TOKEN_LEN" using wf False by (simp add: wf_token_def)
  show ?thesis
  proof (cases "tk_type t = ST_TYPE_LITERAL")
    case True
    let ?q = "literal_needs_quotes (tk_text t)"
    let ?z = "cpl_scan_new\<lparr>cs_word := tk_text t, cs_quoted := ?q, cs_unquoted := \<not> ?q\<rparr>"
    have "cpl_scan_word cpl_scan_new (cpl_token_text t @ r) = Some (?z, r)"
      using scan_literal [of cpl_scan_new "tk_text t" r] size scan_end [OF r] True False
      by (simp add: cpl_token_text_def room_for_def cpl_scan_new_def)
    moreover have "literal_needs_quotes []" by (simp add: literal_needs_quotes_def)
    then have "cpl_word_of ?z = Some (word_of t)"
      using True False by (auto simp: cpl_word_of_def word_of_def cpl_scan_new_def)
    ultimately show ?thesis by blast
  next
    case typed: False
    let ?z = "cpl_scan_new\<lparr>cs_word := tk_text t, cs_unquoted := True\<rparr>"
    have bytes: "list_all word_byte (tk_text t)" "tk_text t \<noteq> []"
      using canonical_bytes [of "tk_type t" "tk_text t"] wf False typed by (simp_all add: wf_token_def)
    then have "cpl_scan_word cpl_scan_new (cpl_token_text t @ r) = Some (?z, r)"
      using scan_bytes [of "tk_text t" cpl_scan_new r] size scan_end [OF r] typed False
      by (simp add: cpl_token_text_def room_for_def cpl_scan_new_def)
    moreover have "cpl_word_of ?z = Some (word_of t)"
      using bytes False typed by (simp add: cpl_word_of_def word_of_def cpl_scan_new_def)
    ultimately show ?thesis by blast
  qed
qed

section \<open>Reading the whole text back\<close>

lemma token_text_head:
  assumes "wf_token t"
  shows "cpl_token_text t \<noteq> [] \<and> hd (cpl_token_text t) \<noteq> CHR '' ''"
proof -
  have lit: "append_cpl_literal s (literal_needs_quotes s) \<noteq> [] \<and>
      hd (append_cpl_literal s (literal_needs_quotes s)) \<noteq> CHR '' ''" for s
  proof (cases "literal_needs_quotes s")
    case False
    then have "s \<noteq> []" "list_all word_byte s" using unquoted_bytes by (auto simp: literal_needs_quotes_def)
    then show ?thesis using False by (cases s) (auto simp: append_cpl_literal_def word_byte_def)
  qed (simp add: append_cpl_literal_def)
  show ?thesis
  proof (cases "tk_compound t \<or> tk_type t = ST_TYPE_LITERAL")
    case True
    then show ?thesis using lit by (auto simp: cpl_token_text_def cpl_part_text_def hd_append)
  next
    case False
    then have "canonical_spelling (tk_type t) (tk_text t)" using assms by (simp add: wf_token_def)
    from canonical_bytes [OF this] False show ?thesis
      by (cases "tk_text t") (auto simp: cpl_token_text_def word_byte_def)
  qed
qed

lemma words_space: "cpl_words n (CHR '' '' # s) = cpl_words n s"
  by (simp add: cpl_words.simps [of n "CHR '' '' # s"] cpl_words.simps [of n s] skip_spaces_def)

lemma words_token:
  assumes "wf_token t" "word_end r" "n < ST_MAX_CMD_TOKENS"
  shows "cpl_words n (cpl_token_text t @ r) = map_option (\<lambda>ws. word_of t # ws) (cpl_words (n + 1) r)"
proof -
  obtain c u where cu: "cpl_token_text t = c # u" "c \<noteq> CHR '' ''"
    using token_text_head [OF assms(1)] by (cases "cpl_token_text t") auto
  then have "skip_spaces (cpl_token_text t @ r) = c # u @ r" by (simp add: skip_spaces_def)
  moreover obtain z where "cpl_scan_word cpl_scan_new (c # u @ r) = Some (z, r)" "cpl_word_of z = Some (word_of t)"
    using scan_token [OF assms(1,2)] cu by auto
  ultimately show ?thesis using assms(3) by (simp add: cpl_words.simps [of n "cpl_token_text t @ r"])
qed

lemma words_tokens:
  "list_all wf_token ts \<Longrightarrow> n + length ts \<le> ST_MAX_CMD_TOKENS \<Longrightarrow>
   cpl_words n (concat (map (\<lambda>t. CHR '' '' # cpl_token_text t) ts)) = Some (map word_of ts)"
proof (induction ts arbitrary: n)
  case Nil
  then show ?case by (simp add: cpl_words.simps [of n "[]"] skip_spaces_def)
next
  case (Cons t ts)
  have "word_end (concat (map (\<lambda>t. CHR '' '' # cpl_token_text t) ts))" by (cases ts) (simp_all add: word_end_def)
  then show ?case using Cons words_token [of t _ n] by (simp add: words_space)
qed

lemma render_tokens: "cpl \<noteq> [] \<Longrightarrow> foldl cpl_render cpl ts = cpl @ concat (map (\<lambda>t. CHR '' '' # cpl_token_text t) ts)"
  by (induction ts arbitrary: cpl) (simp_all add: cpl_render_def)

lemma words_render:
  assumes "list_all wf_token ts" "length ts \<le> ST_MAX_CMD_TOKENS"
  shows "cpl_words 0 (foldl cpl_render [] ts) = Some (map word_of ts)"
proof (cases ts)
  case Nil
  then show ?thesis by (simp add: cpl_words.simps [of 0 "[]"] skip_spaces_def)
next
  case (Cons t us)
  have "word_end (concat (map (\<lambda>t. CHR '' '' # cpl_token_text t) us))" by (cases us) (simp_all add: word_end_def)
  moreover have "cpl_token_text t \<noteq> []" using token_text_head assms(1) Cons by simp
  ultimately show ?thesis
    using words_token [of t _ 0] words_tokens [of us 1] assms Cons by (simp add: render_tokens cpl_render_def)
qed

section \<open>Tokens\<close>

lemma literal_not_wild:
  assumes "\<not> literal_needs_quotes s"
  shows "wildcard_type s = ST_TYPE_LITERAL"
proof (rule ccontr)
  assume w: "wildcard_type s \<noteq> ST_TYPE_LITERAL"
  have s: "s \<noteq> []" "hd s \<noteq> CHR ''#''" "s \<noteq> ''*''" using assms by (simp_all add: literal_needs_quotes_def)
  have "NUL \<notin> set s" using word_bytes_no_nul unquoted_bytes [OF assms] by blast
  then have spells: "wildcard_spells s (wildcard_type s)" using wildcard_type_spells [OF w] by simp
  show False
  proof (cases "wildcard_type s = ST_TYPE_ANY")
    case True
    then show ?thesis using spells s by (auto simp: wildcard_spells_def Let_def)
  next
    case False
    have sym: "st_type_symbol (wildcard_type s) \<noteq> []" "hd (st_type_symbol (wildcard_type s)) = CHR ''#''"
      using type_symbol_hash [OF w False] by blast+
    then obtain x where "st_type_symbol (wildcard_type s) = CHR ''#'' # x" by (cases "st_type_symbol (wildcard_type s)") auto
    then show ?thesis using spells s(1,2) by (cases s) (auto simp: wildcard_spells_def Let_def)
  qed
qed

lemma canonical_type: "canonical_spelling t w \<Longrightarrow> wildcard_type w = t"
  using canonical_spelling_props [of t w] wildcard_type_eq [of w t] by (auto simp: canonical_spelling_def)

lemma token_of_word:
  assumes "wf_token t"
  shows "\<exists>a. cpl_token (word_of t) = Inr a \<and> encode_token a = encode_token (token_arg t)"
proof (cases "tk_compound t")
  case True
  have can: "canonical_spelling (tk_capture_type t) (tk_capture t)" and ne: "tk_prefix t \<noteq> [] \<or> tk_suffix t \<noteq> []"
    using assms True by (simp_all add: wf_token_def)
  have "tk_capture_type t \<noteq> ST_TYPE_LITERAL" using can by (auto simp: canonical_spelling_def)
  then show ?thesis
    using True ne canonical_type [OF can]
    by (auto simp: cpl_token_def word_of_def compound_display_def encode_token_def token_arg_def Let_def
        cong: option.case_cong)
next
  case False
  show ?thesis
  proof (cases "tk_type t = ST_TYPE_LITERAL")
    case True
    have "\<not> literal_needs_quotes (tk_text t) \<Longrightarrow> hd (tk_text t) \<noteq> CHR ''#''" by (simp add: literal_needs_quotes_def)
    then show ?thesis
      using True False literal_not_wild [of "tk_text t"]
      by (cases "literal_needs_quotes (tk_text t)")
         (simp_all add: cpl_token_def word_of_def encode_token_def token_arg_def wildcard_spelling_def Let_def
          cong: option.case_cong)
  next
    case typed: False
    have can: "canonical_spelling (tk_type t) (tk_text t)" using assms False typed by (simp add: wf_token_def)
    then show ?thesis
      using typed False canonical_type [OF can]
      by (simp add: cpl_token_def word_of_def encode_token_def token_arg_def wildcard_spelling_def Let_def
          cong: option.case_cong)
  qed
qed

lemma tokens_of_words:
  assumes "list_all wf_token ts"
  shows "\<exists>as. map_result cpl_token (map word_of ts) = Inr as \<and> length as = length ts \<and>
    map_result encode_token as = map_result encode_token (map token_arg ts)"
  using assms
proof (induction ts)
  case (Cons t ts)
  obtain a where "cpl_token (word_of t) = Inr a" "encode_token a = encode_token (token_arg t)"
    using token_of_word Cons.prems by auto
  moreover obtain as where "map_result cpl_token (map word_of ts) = Inr as" "length as = length ts"
    "map_result encode_token as = map_result encode_token (map token_arg ts)"
    using Cons by auto
  ultimately show ?case by (intro exI [of _ "a # as"]) simp
qed simp

section \<open>The size of the text\<close>

lemma literal_length: "length (append_cpl_literal s q) = cpl_literal_length s q"
proof -
  let ?size = "\<lambda>(kind, u). case kind of CPL_BYTE_ESCAPED \<Rightarrow> 2 | CPL_BYTE_NAMED \<Rightarrow> 2 | CPL_BYTE_HEX \<Rightarrow> 4
      | CPL_BYTE_PLAIN \<Rightarrow> length (u :: bytes)"
  have "foldl (\<lambda>result (kind, u). case kind of CPL_BYTE_ESCAPED \<Rightarrow> result + 2 | CPL_BYTE_NAMED \<Rightarrow> result + 2
      | CPL_BYTE_HEX \<Rightarrow> result + 4 | CPL_BYTE_PLAIN \<Rightarrow> result + length u) n us =
      n + length (concat (map (\<lambda>(kind, u). cpl_unit_text kind u) us))" for n and us :: "(cpl_byte_class \<times> bytes) list"
    by (induction us arbitrary: n) (auto simp: cpl_unit_text_def split: cpl_byte_class.split)
  then show ?thesis by (simp add: append_cpl_literal_def cpl_literal_length_def)
qed

lemma part_length: "length (cpl_part_text s) = cpl_part_length s"
  by (simp add: cpl_part_text_def cpl_part_length_def literal_length) (simp add: cpl_literal_length_def)

lemma token_length: "length (cpl_token_text t) = cpl_token_length t"
  by (simp add: cpl_token_text_def cpl_token_length_def part_length literal_length)

lemma required_sum:
  "cpl_required r ts = Inr n \<Longrightarrow> n = r + sum_list (map cpl_token_length ts) \<and> (ts \<noteq> [] \<longrightarrow> n < ST_MAX_CPL_LEN)"
  by (induction ts arbitrary: r) (fastforce split: if_splits)+

lemma render_length:
  assumes "list_all wf_token ts" "ts \<noteq> []"
  shows "length (foldl cpl_render [] ts) = length ts - 1 + sum_list (map cpl_token_length ts)"
proof -
  obtain t us where ts: "ts = t # us" using assms(2) by (cases ts) auto
  have "cpl_token_text t \<noteq> []" using token_text_head assms(1) ts by simp
  moreover have "length (concat (map (\<lambda>t. CHR '' '' # cpl_token_text t) us)) = length us + sum_list (map cpl_token_length us)"
    by (induction us) (simp_all add: token_length)
  ultimately show ?thesis by (simp add: ts cpl_render_def render_tokens token_length)
qed

lemma text_no_nul:
  assumes "wf_token t"
  shows "NUL \<notin> set (cpl_token_text t)"
proof -
  note words = word_bytes_no_nul
  have unit: "NUL \<notin> set (cpl_unit_text kind u)" if "unit_ok kind u" for kind u
  proof (cases kind)
    case CPL_BYTE_PLAIN
    have "\<not> quoted_byte NUL" by (simp add: quoted_byte_def)
    then show ?thesis using that CPL_BYTE_PLAIN by (auto simp: unit_ok_def cpl_unit_text_def list_all_iff)
  next
    case CPL_BYTE_HEX
    have "hex_char d \<noteq> NUL" if "d < 16" for d
    proof
      assume "hex_char d = NUL"
      then show False using hex_char_digit [OF that] by (simp add: hex_digit_def less_eq_char_def)
    qed
    moreover have "ord (hd u) div 16 < 16" using nat_of_char_less_256 [of "hd u"] by (simp add: div_less_iff_less_mult)
    ultimately have "hex_char (ord (hd u) div 16) \<noteq> NUL" "hex_char (ord (hd u) mod 16) \<noteq> NUL" by simp_all
    then show ?thesis using CPL_BYTE_HEX by (auto simp: cpl_unit_text_def)
  qed (use that in \<open>auto simp: unit_ok_def cpl_unit_text_def escape_name_def\<close>)
  have lit: "NUL \<notin> set (append_cpl_literal s (literal_needs_quotes s))" for s
  proof (cases "literal_needs_quotes s")
    case True
    have "NUL \<notin> set (cpl_unit_text kind u)" if "(kind, u) \<in> set (cpl_units s)" for kind u
      using cpl_units_ok that unit unfolding list_all_iff by blast
    then show ?thesis using True by (auto simp: append_cpl_literal_def)
  qed (use words unquoted_bytes in \<open>simp add: append_cpl_literal_def\<close>)
  have can: "NUL \<notin> set w" if "canonical_spelling x w" for x w using canonical_spelling_props(1) that by blast
  show ?thesis
    using assms lit can by (auto simp: cpl_token_text_def cpl_part_text_def wf_token_def split: if_splits)
qed

lemma render_no_nul:
  assumes "list_all wf_token ts"
  shows "NUL \<notin> set (foldl cpl_render [] ts)"
proof (cases ts)
  case (Cons t us)
  have "NUL \<notin> set (cpl_token_text u)" if "u \<in> set ts" for u
    using text_no_nul assms that by (auto simp: list_all_iff)
  then show ?thesis
    using Cons token_text_head [of t] assms by (auto simp: render_tokens cpl_render_def)
qed simp

section \<open>Properties\<close>

lemma to_cpl_cases:
  assumes "st_netpattern_to_cpl_view (np_view s) = Inr cpl"
  obtains ts where "st_netpattern_decode_view (np_view s) = Inr ts" "cpl = foldl cpl_render [] ts"
    "cpl_required (length ts - 1) ts = Inr (length cpl)" "ts \<noteq> []" "length ts \<le> ST_MAX_CMD_TOKENS" "list_all wf_token ts"
    "length cpl < ST_MAX_CPL_LEN"
proof -
  obtain ts n where ts: "st_netpattern_decode_view (np_view s) = Inr ts" "cpl_required (length ts - 1) ts = Inr n"
    "cpl = foldl cpl_render [] ts"
    using assms by (auto simp: st_netpattern_to_cpl_view_def split: if_splits)
  then have wf: "ts \<noteq> []" "length ts \<le> ST_MAX_CMD_TOKENS" "list_all wf_token ts" by (simp_all add: decode_view_Inr_iff)
  then show ?thesis using ts required_sum [OF ts(2)] render_length that by simp
qed

lemma print_parse:
  assumes "st_netpattern_to_cpl_view (np_view s) = Inr cpl"
  shows "st_netpattern_from_cpl_owned cpl = Inr s"
proof -
  obtain ts where ts: "st_netpattern_decode_view (np_view s) = Inr ts" "cpl = foldl cpl_render [] ts" "ts \<noteq> []"
    "length ts \<le> ST_MAX_CMD_TOKENS" "list_all wf_token ts" "length cpl < ST_MAX_CPL_LEN"
    using to_cpl_cases [OF assms] by metis
  have "cpl_words 0 cpl = Some (map word_of ts)" using words_render ts(2,4,5) by simp
  moreover have "cpl \<noteq> []"
  proof
    assume "cpl = []"
    then show False using calculation ts(3) by (simp add: cpl_words.simps [of 0 "[]"] skip_spaces_def)
  qed
  ultimately have "parse_cpl cpl = Inr (map word_of ts)"
    using ts(2,3,6) render_no_nul [OF ts(5)] by (simp add: parse_cpl_def)
  moreover obtain as where as: "map_result cpl_token (map word_of ts) = Inr as" "length as = length ts"
    "map_result encode_token as = map_result encode_token (map token_arg ts)"
    using tokens_of_words [OF ts(5)] by blast
  moreover have "as \<noteq> []" using as(2) ts(3) by auto
  moreover have "st_netpattern_encode_owned (Some (map token_arg ts)) = Inr s"
    using ts(1) encode_owned_wf [of ts] by (auto simp: decode_view_Inr_iff)
  ultimately show ?thesis
    using ts(3,4) by (simp add: st_netpattern_from_cpl_owned_def st_netpattern_encode_owned_def)
qed

text \<open>C21: Printing a canonical pattern and parsing the text gives the same pattern, whatever bytes
  its literals hold.\<close>

theorem cpl_print_then_parse:
  assumes "st_netpattern_to_cpl_view (np_view s) = Inr cpl"
  shows "st_netpattern_from_cpl_owned cpl = Inr s"
  by (rule print_parse [OF assms])

text \<open>A pattern with a literal that must be quoted, for the examples.\<close>

definition space_pattern :: "st_token list" where
  "space_pattern = [plain_token ''ls'' ST_TYPE_LITERAL, plain_token ''a b'' ST_TYPE_LITERAL]"

lemma decode_space_pattern:
  "st_netpattern_decode_view (np_view (concat (map record_of space_pattern))) = Inr space_pattern"
proof -
  have "length (concat (map record_of space_pattern)) < ST_MAX_NETPATTERN_LEN"
    using length_tagged_small [of "''ls''" "CHR ''L''"] length_tagged_small [of "''a b''" "CHR ''L''"]
    by (simp add: space_pattern_def record_of_def record_tag_value_def tagged_enc_def ST_MAX_NETPATTERN_LEN_def)
  then show ?thesis
    by (simp add: decode_view_Inr_iff space_pattern_def wf_token_def ST_MAX_CMD_TOKENS_def ST_MAX_TOKEN_LEN_def)
qed

definition space_text :: bytes where
  "space_text = ''ls '' @ [CHR 0x22] @ ''a b'' @ [CHR 0x22]"

lemma print_space_pattern:
  "st_netpattern_to_cpl_view (np_view (concat (map record_of space_pattern))) = Inr space_text"
proof -
  have len: "cpl_token_length (plain_token ''ls'' ST_TYPE_LITERAL) = 2" "cpl_token_length (plain_token ''a b'' ST_TYPE_LITERAL) = 5"
    by code_simp+
  have "cpl_required 1 space_pattern = Inr 8"
    by (simp add: space_pattern_def cpl_token_fits_def len limit_defs)
  moreover have "foldl cpl_render [] space_pattern = space_text" by code_simp
  moreover have "length space_pattern - 1 = 1" by (simp add: space_pattern_def)
  ultimately show ?thesis
    using decode_space_pattern by (simp add: st_netpattern_to_cpl_view_def) (simp add: np_view_def)
qed

theorem cpl_print_then_parse_witness:
  "st_netpattern_from_cpl_owned space_text = Inr (concat (map record_of space_pattern))"
  by (rule cpl_print_then_parse [OF print_space_pattern])

text \<open>The printed text has exactly the size computed before the buffer is allocated, which is
  below the limit of the language, and holds no NUL, so the C string is the whole text.\<close>

theorem cpl_text_fits:
  assumes "st_netpattern_decode_view (np_view s) = Inr ts" "st_netpattern_to_cpl_view (np_view s) = Inr cpl"
  shows "cpl_required (length ts - 1) ts = Inr (length cpl) \<and> length cpl < ST_MAX_CPL_LEN \<and> cstr cpl = cpl"
proof -
  obtain us where us: "st_netpattern_decode_view (np_view s) = Inr us" "cpl = foldl cpl_render [] us"
    "cpl_required (length us - 1) us = Inr (length cpl)" "list_all wf_token us" "length cpl < ST_MAX_CPL_LEN"
    using to_cpl_cases [OF assms(2)] by metis
  then have "us = ts" using assms(1) by simp
  then show ?thesis using us render_no_nul [OF us(4)] by simp
qed

theorem cpl_text_fits_witness:
  "cpl_required 1 space_pattern = Inr (length space_text)"
proof -
  have "length space_pattern - 1 = 1" by (simp add: space_pattern_def)
  then show ?thesis using cpl_text_fits [OF decode_space_pattern print_space_pattern] by simp
qed

section \<open>The scratch buffer\<close>

text \<open>The components of a word: prefix, capture and suffix, each below the token limit.\<close>

definition scan_ok :: "cpl_scan \<Rightarrow> bool" where
  "scan_ok z \<longleftrightarrow> cs_start z \<le> length (cs_word z) \<and> length (cs_word z) - cs_start z \<le> ST_MAX_TOKEN_LEN - 1 \<and>
     cs_start z \<le> (if cs_compound z then 2 * ST_MAX_TOKEN_LEN else if cs_open z then ST_MAX_TOKEN_LEN else 0) \<and>
     \<not> (cs_open z \<and> cs_compound z)"

lemma append_byte_size:
  "append_cpl_byte word start c = Some w \<Longrightarrow> start \<le> length word \<Longrightarrow> length word - start \<le> ST_MAX_TOKEN_LEN - 1 \<Longrightarrow>
   start \<le> length w \<and> length w - start \<le> ST_MAX_TOKEN_LEN - 1"
  by (auto simp: append_cpl_byte_def split: if_splits)

lemma length_utf8: "length (utf8_bytes v) = utf8_width v"
  by (simp add: utf8_bytes_def utf8_width_def)

lemma append_utf8_size:
  "append_utf8 word start v = Some w \<Longrightarrow> start \<le> length word \<Longrightarrow> length word - start \<le> ST_MAX_TOKEN_LEN - 1 \<Longrightarrow>
   start \<le> length w \<and> length w - start \<le> ST_MAX_TOKEN_LEN - 1"
  by (auto simp: append_utf8_def length_utf8 split: if_splits)

lemma escape_size:
  "cpl_escape word start s = Some (w, r) \<Longrightarrow> start \<le> length word \<Longrightarrow> length word - start \<le> ST_MAX_TOKEN_LEN - 1 \<Longrightarrow>
   start \<le> length w \<and> length w - start \<le> ST_MAX_TOKEN_LEN - 1"
  by (auto simp: cpl_escape_def dest: append_byte_size append_utf8_size split: list.splits option.splits if_splits)

lemma quoted_size:
  "cpl_quoted word start s = Some (w, r) \<Longrightarrow> start \<le> length word \<Longrightarrow> length word - start \<le> ST_MAX_TOKEN_LEN - 1 \<Longrightarrow>
   start \<le> length w \<and> length w - start \<le> ST_MAX_TOKEN_LEN - 1"
proof (induction word start s rule: cpl_quoted.induct)
  case (2 word start c s)
  show ?case
  proof (cases "c = CHR 0x22 \<or> ord c < 0x20")
    case True
    then show ?thesis using "2.prems" by (auto split: if_splits)
  next
    case False
    show ?thesis
    proof (cases "c = CHR 0x5C")
      case True
      then obtain w' r' where e: "cpl_escape word start s = Some (w', r')" "cpl_quoted w' start r' = Some (w, r)"
        using False "2.prems"(1) by (auto split: option.splits)
      then show ?thesis using "2.IH"(2) [OF _ _ _ e(1) refl e(2)] False True escape_size [OF e(1) "2.prems"(2,3)] by auto
    next
      case c: False
      then obtain w' where e: "append_cpl_byte word start c = Some w'" "cpl_quoted w' start s = Some (w, r)"
        using False "2.prems"(1) by (auto split: option.splits)
      then show ?thesis using "2.IH"(1) [OF _ _ c e(1) e(2)] False append_byte_size [OF e(1) "2.prems"(2,3)] by auto
    qed
  qed
qed simp

lemma unquoted_ok: "scan_ok z \<Longrightarrow> cpl_unquoted z c = Some z' \<Longrightarrow> scan_ok z'"
  by (auto simp: scan_ok_def cpl_unquoted_def Let_def ST_MAX_TOKEN_LEN_def dest!: append_byte_size split: if_splits)

lemma scan_word_ok: "cpl_scan_word z s = Some (z', r) \<Longrightarrow> scan_ok z \<Longrightarrow> scan_ok z'"
proof (induction z s rule: cpl_scan_word.induct)
  case (2 z c s)
  show ?case
  proof (cases "c = CHR '' ''")
    case True
    then show ?thesis using "2.prems" by simp
  next
    case False
    show ?thesis
    proof (cases "c = CHR 0x22")
      case True
      then obtain w r' where q: "cpl_quoted (cs_word z) (cs_start z) s = Some (w, r')" "\<not> cs_open z"
        "cpl_scan_word (z\<lparr>cs_quoted := True, cs_word := w\<rparr>) r' = Some (z', r)"
        using "2.prems"(1) by (auto split: option.splits if_splits)
      have "scan_ok (z\<lparr>cs_quoted := True, cs_word := w\<rparr>)"
        using "2.prems"(2) quoted_size [OF q(1)] by (auto simp: scan_ok_def)
      then show ?thesis using "2.IH"(2) [OF False _ q(2,1) refl q(3)] True by simp
    next
      case c: False
      then obtain z1 where "cpl_unquoted z c = Some z1" "cpl_scan_word z1 s = Some (z', r)"
        using "2.prems"(1) False by (auto split: option.splits)
      then show ?thesis using "2.IH"(1) [OF False c] unquoted_ok "2.prems"(2) by blast
    qed
  qed
qed simp

text \<open>C23: The scratch buffer of the parser, three components with two braces and a terminator, is
  never overrun: the bounds on its components hold at the start of a word and after every step,
  and they keep the word and its terminator within the buffer.\<close>

theorem cpl_scratch_bounded:
  assumes "scan_ok z"
  shows "length (cs_word z) + 1 \<le> 3 * (ST_MAX_TOKEN_LEN - 1) + 3 \<and> scan_ok cpl_scan_new \<and>
    (\<forall>c z'. cpl_unquoted z c = Some z' \<longrightarrow> scan_ok z') \<and>
    (\<forall>s w r. cpl_quoted (cs_word z) (cs_start z) s = Some (w, r) \<longrightarrow> scan_ok (z\<lparr>cs_quoted := True, cs_word := w\<rparr>)) \<and>
    (\<forall>s z' r. cpl_scan_word z s = Some (z', r) \<longrightarrow> scan_ok z')"
proof (intro conjI allI impI)
  show "length (cs_word z) + 1 \<le> 3 * (ST_MAX_TOKEN_LEN - 1) + 3"
    using assms by (auto simp: scan_ok_def ST_MAX_TOKEN_LEN_def split: if_splits)
  show "scan_ok cpl_scan_new" by (simp add: scan_ok_def cpl_scan_new_def)
  show "scan_ok z'" if "cpl_unquoted z c = Some z'" for c z' using unquoted_ok [OF assms that] .
  show "scan_ok (z\<lparr>cs_quoted := True, cs_word := w\<rparr>)" if "cpl_quoted (cs_word z) (cs_start z) s = Some (w, r)" for s w r
    using assms quoted_size [OF that] by (auto simp: scan_ok_def)
  show "scan_ok z'" if "cpl_scan_word z s = Some (z', r)" for s z' r using scan_word_ok [OF that assms] .
qed

theorem cpl_scratch_bounded_witness: "scan_ok cpl_scan_new"
  using cpl_scratch_bounded [of cpl_scan_new] by (simp add: scan_ok_def cpl_scan_new_def)

end
