(* ===== verification/Cpl_Grammar.thy ===== *)
theory Cpl_Grammar imports Cpl_Roundtrip begin

text \<open>
  What the parser of patterns accepts, and what it reads, as a grammar that does not mention the
  parser: hexadecimal digits, UTF-8 and UTF-16 from their definitions, escapes, quoted parts, words
  and lines.
\<close>

section \<open>Escapes\<close>

text \<open>Hexadecimal digits in either case, most significant first.\<close>

definition hex_spelling :: "char \<Rightarrow> nat \<Rightarrow> bool" where
  "hex_spelling c d \<longleftrightarrow> d < 16 \<and> (c = ''0123456789abcdef'' ! d \<or> c = ''0123456789ABCDEF'' ! d)"

definition hex_number :: "bytes \<Rightarrow> nat \<Rightarrow> bool" where
  "hex_number s v \<longleftrightarrow> (\<exists>ds. list_all2 hex_spelling s ds \<and> v = foldl (\<lambda>v d. 16 * v + d) 0 ds)"

text \<open>The bytes of a code point in UTF-8: the range, the lead byte, and six bits in each byte behind it.\<close>

definition utf8_of :: "nat \<Rightarrow> bytes \<Rightarrow> bool" where
  "utf8_of cp s \<longleftrightarrow>
     (if cp < 0x80 then s = [char_of cp]
      else if cp < 0x800 then
        \<exists>x y. y < 64 \<and> cp = 64 * x + y \<and> s = [char_of (0xC0 + x), char_of (0x80 + y)]
      else if cp < 0x10000 then
        \<exists>x y z. y < 64 \<and> z < 64 \<and> cp = 64 * (64 * x + y) + z \<and>
          s = [char_of (0xE0 + x), char_of (0x80 + y), char_of (0x80 + z)]
      else cp < 0x110000 \<and>
        (\<exists>x y z u. y < 64 \<and> z < 64 \<and> u < 64 \<and> cp = 64 * (64 * (64 * x + y) + z) + u \<and>
          s = [char_of (0xF0 + x), char_of (0x80 + y), char_of (0x80 + z), char_of (0x80 + u)]))"

text \<open>A character other than the null character, as the text behind a backslash.\<close>

inductive escape_of :: "bytes \<Rightarrow> bytes \<Rightarrow> bool" where
  quote: "escape_of [CHR 0x22] [CHR 0x22]"
| backslash: "escape_of [CHR 0x5C] [CHR 0x5C]"
| backspace: "escape_of ''b'' [CHR 0x08]"
| form_feed: "escape_of ''f'' [CHR 0x0C]"
| newline: "escape_of ''n'' [CHR 0x0A]"
| carriage_return: "escape_of ''r'' [CHR 0x0D]"
| tab: "escape_of ''t'' [CHR 0x09]"
| byte: "length h = 2 \<Longrightarrow> hex_number h (ord c) \<Longrightarrow> escape_of (CHR ''x'' # h) [c]"
| scalar: "length h = 4 \<Longrightarrow> hex_number h cp \<Longrightarrow> cp \<noteq> 0 \<Longrightarrow> cp < 0xD800 \<or> 0xE000 \<le> cp \<Longrightarrow> utf8_of cp u \<Longrightarrow>
    escape_of (CHR ''u'' # h) u"
| surrogates: "length h = 4 \<Longrightarrow> length l = 4 \<Longrightarrow> 0x10000 \<le> cp \<Longrightarrow>
    hex_number h (0xD800 + (cp - 0x10000) div 1024) \<Longrightarrow> hex_number l (0xDC00 + (cp - 0x10000) mod 1024) \<Longrightarrow> utf8_of cp u \<Longrightarrow>
    escape_of (CHR ''u'' # h @ CHR 0x5C # CHR ''u'' # l) u"

section \<open>Quoted parts, words and lines\<close>

text \<open>The text between two quotes, and the bytes it stands for.\<close>

inductive quoted_of :: "bytes \<Rightarrow> bytes \<Rightarrow> bool" where
  quoted_end: "quoted_of [] []"
| quoted_byte: "0x20 \<le> ord c \<Longrightarrow> c \<noteq> CHR 0x22 \<Longrightarrow> c \<noteq> CHR 0x5C \<Longrightarrow> quoted_of s m \<Longrightarrow> quoted_of (c # s) (c # m)"
| quoted_escape: "escape_of e u \<Longrightarrow> quoted_of s m \<Longrightarrow> quoted_of (CHR 0x5C # e @ s) (u @ m)"

text \<open>A sequence of bare bytes and quoted parts: the bytes it stands for, whether it has quoted parts
  and whether it has bare bytes.\<close>

inductive part_of :: "bytes \<Rightarrow> bytes \<Rightarrow> bool \<Rightarrow> bool \<Rightarrow> bool" where
  part_end: "part_of [] [] False False"
| part_bare: "word_byte c \<Longrightarrow> part_of s m q b \<Longrightarrow> part_of (c # s) (c # m) q True"
| part_quoted: "quoted_of qs qm \<Longrightarrow> part_of s m q b \<Longrightarrow> part_of (CHR 0x22 # qs @ CHR 0x22 # s) (qm @ m) True b"

text \<open>A word is all quoted or all bare, or a compound around one bare capture in braces.\<close>

inductive word_spelling :: "bytes \<Rightarrow> cpl_word \<Rightarrow> bool" where
  simple: "part_of s m q b \<Longrightarrow> s \<noteq> [] \<Longrightarrow> \<not> (q \<and> b) \<Longrightarrow> length m < ST_MAX_TOKEN_LEN \<Longrightarrow>
    word_spelling s \<lparr>cw_text = m, cw_literal = q, cw_compound = False, cw_capture_offset = 0, cw_capture_length = 0\<rparr>"
| compound: "part_of s m q b \<Longrightarrow> list_all word_byte capture \<Longrightarrow> part_of s' m' q' b' \<Longrightarrow>
    length m < ST_MAX_TOKEN_LEN \<Longrightarrow> length capture < ST_MAX_TOKEN_LEN \<Longrightarrow> length m' < ST_MAX_TOKEN_LEN \<Longrightarrow>
    word_spelling (s @ CHR ''{'' # capture @ CHR ''}'' # s')
      \<lparr>cw_text = m @ CHR ''{'' # capture @ CHR ''}'' # m', cw_literal = False, cw_compound = True,
       cw_capture_offset = length m + 1, cw_capture_length = length capture\<rparr>"

text \<open>Words with spaces before, between and behind them.\<close>

inductive line_of :: "bytes \<Rightarrow> cpl_word list \<Rightarrow> bool" where
  line_end: "list_all (\<lambda>c. c = CHR '' '') s \<Longrightarrow> line_of s []"
| line_word: "list_all (\<lambda>c. c = CHR '' '') blanks \<Longrightarrow> word_spelling s w \<Longrightarrow> word_end r \<Longrightarrow> line_of r ws \<Longrightarrow>
    line_of (blanks @ s @ r) (w # ws)"

section \<open>Escapes are read as the grammar says\<close>

lemma hex_digit_iff: "hex_digit c = Some d \<longleftrightarrow> hex_spelling c d"
proof -
  have "list_all (\<lambda>c. list_all (\<lambda>d. (hex_digit c = Some d) = hex_spelling c d) [0..<16] \<and>
      (case hex_digit c of None \<Rightarrow> True | Some d \<Rightarrow> d < 16)) (map char_of [0..<256::nat])" by code_simp
  moreover have "c \<in> set (map char_of [0..<256::nat])"
    using nat_of_char_less_256 [of c] by (auto intro!: image_eqI [of _ _ "ord c"])
  ultimately have "list_all (\<lambda>d. (hex_digit c = Some d) = hex_spelling c d) [0..<16] \<and>
      (case hex_digit c of None \<Rightarrow> True | Some d \<Rightarrow> d < 16)" unfolding list_all_iff by blast
  then have "d < 16 \<Longrightarrow> (hex_digit c = Some d) = hex_spelling c d" "hex_digit c = Some d \<Longrightarrow> d < 16"
    by (auto simp: list_all_iff)
  then show ?thesis by (auto simp: hex_spelling_def)
qed

lemma hex_spelling_unique: "hex_spelling c d \<Longrightarrow> hex_spelling c d' \<Longrightarrow> d = d'"
  by (simp flip: hex_digit_iff)

lemma hex_value_iff: "hex_value v s = Some w \<longleftrightarrow> (\<exists>ds. list_all2 hex_spelling s ds \<and> w = foldl (\<lambda>v d. 16 * v + d) v ds)"
proof (induction s arbitrary: v)
  case (Cons c s)
  show ?case
    by (auto simp: list_all2_Cons1 Cons.IH mult.commute hex_digit_iff [symmetric] split: option.splits)
qed auto

lemma hex4_iff: "hex4 s = Some v \<longleftrightarrow> hex_number (take 4 s) v"
  by (simp add: hex4_def hex_value_iff hex_number_def)

lemma hex_number_bound: "hex_number s v \<Longrightarrow> v < 16 ^ length s"
proof -
  assume "hex_number s v"
  then obtain ds where ds: "list_all2 hex_spelling s ds" "v = foldl (\<lambda>v d. 16 * v + d) 0 ds" by (auto simp: hex_number_def)
  have "list_all2 hex_spelling s ds \<Longrightarrow> foldl (\<lambda>v d. 16 * v + d) a ds < (a + 1) * 16 ^ length s" for a
  proof (induction arbitrary: a rule: list_all2_induct)
    case (Cons c s d ds)
    have "foldl (\<lambda>v d. 16 * v + d) (16 * a + d) ds < (16 * a + d + 1) * 16 ^ length s" by (rule Cons.IH)
    also have "\<dots> \<le> (16 * (a + 1)) * 16 ^ length s" using Cons.hyps(1) by (intro mult_le_mono1) (simp add: hex_spelling_def)
    finally show ?case by (simp add: algebra_simps)
  qed simp
  from this [OF ds(1), of 0] show ?thesis using ds(2) by simp
qed

lemma ord_iff: "ord c = n \<longleftrightarrow> n < 256 \<and> c = char_of n"
  using nat_of_char_less_256 [of c] by auto

lemma utf8_iff: "utf8_of cp s \<longleftrightarrow> cp < 0x110000 \<and> s = utf8_bytes cp"
proof -
  have d: "cp div 4096 = cp div 64 div 64" "cp div 262144 = cp div 64 div 64 div 64"
    using div_mult2_eq [of cp 64 64] div_mult2_eq [of cp 64 4096] div_mult2_eq [of "cp div 64" 64 64] by simp_all
  have unique: "n = 64 * a + b \<and> b < 64 \<longleftrightarrow> a = n div 64 \<and> b = n mod 64" for n a b :: nat by auto
  have two: "(\<exists>x y. y < 64 \<and> cp = 64 * x + y \<and> P x y) \<longleftrightarrow> P (cp div 64) (cp mod 64)" for P
    using unique [of cp] by metis
  have three: "(\<exists>x y z. y < 64 \<and> z < 64 \<and> cp = 64 * (64 * x + y) + z \<and> P x y z) \<longleftrightarrow>
      P (cp div 64 div 64) (cp div 64 mod 64) (cp mod 64)" for P
    using unique by metis
  have four: "(\<exists>x y z u. y < 64 \<and> z < 64 \<and> u < 64 \<and> cp = 64 * (64 * (64 * x + y) + z) + u \<and> P x y z u) \<longleftrightarrow>
      P (cp div 64 div 64 div 64) (cp div 64 div 64 mod 64) (cp div 64 mod 64) (cp mod 64)" for P
    using unique by metis
  show ?thesis
    unfolding utf8_of_def two three four utf8_bytes_def d by auto
qed

lemma utf8_bound: "utf8_of cp s \<Longrightarrow> cp < 0x110000"
  by (simp add: utf8_iff)

lemma append_scalar:
  "append_utf8 word start v = Some w \<longleftrightarrow>
     v \<noteq> 0 \<and> v < 0x110000 \<and> (v < 0xD800 \<or> 0xE000 \<le> v) \<and> w = word @ utf8_bytes v \<and>
     length (utf8_bytes v) \<le> ST_MAX_TOKEN_LEN - 1 - (length word - start)"
  by (auto simp: append_utf8_def length_utf8 not_less)

lemma append_byte: "room_for word start 0 \<Longrightarrow>
    append_cpl_byte word start c = Some w \<longleftrightarrow> w = word @ [c] \<and> room_for word start 1"
  by (auto simp: append_cpl_byte_def room_for_def ST_MAX_TOKEN_LEN_def)

lemma escape_read:
  assumes "escape_of e u" "room_for word start (length u)"
  shows "cpl_escape word start (e @ r) = Some (word @ u, r)"
  using assms
proof cases
  case (byte h c)
  obtain a b where h: "h = [a, b]" using byte(3) by (auto simp: numeral_2_eq_2 length_Suc_conv)
  obtain x y where "hex_digit a = Some x" "hex_digit b = Some y" "c = char_of (x * 16 + y)"
    using byte(4) h by (auto simp: ord_iff hex_number_def hex_digit_iff list_all2_Cons1 mult.commute)
  then show ?thesis using byte(1,2) h append_room [of word start c] assms(2)
    by (auto simp: cpl_escape_def cpl_byte_escape_def)
next
  case (scalar h cp)
  have bound: "cp < 0x10000" using hex_number_bound [OF scalar(3)] scalar(2) by simp
  have hex: "hex4 (h @ r) = Some cp" using scalar(2,3) by (simp add: hex4_iff)
  have "\<not> (0xd800 \<le> cp \<and> cp \<le> 0xdbff)" using scalar(5) by auto
  then have "cpl_unicode (h @ r) = Some (cp, r)" using scalar(2) unfolding cpl_unicode_def hex by (auto simp: Let_def)
  then show ?thesis using scalar assms(2) bound
    by (auto simp: cpl_escape_def append_scalar utf8_iff room_for_def)
next
  case (surrogates h l cp)
  have bound: "cp < 0x110000" using utf8_bound [OF surrogates(7)] .
  define hi lo where "hi = 0xD800 + (cp - 0x10000) div 1024" and "lo = 0xDC00 + (cp - 0x10000) mod 1024"
  have "(cp - 0x10000) div 1024 < 1024" using bound surrogates(4) by (simp add: div_less_iff_less_mult)
  then have hi: "0xd800 \<le> hi" "hi \<le> 0xdbff" and lo: "0xdc00 \<le> lo" "lo \<le> 0xdfff"
    unfolding hi_def lo_def using mod_less_divisor [of 1024 "cp - 0x10000"] by linarith+
  have pair: "0x10000 + (hi - 0xd800) * 1024 + (lo - 0xdc00) = cp"
    using surrogates(4) by (simp add: hi_def lo_def)
  have hex: "hex4 (h @ x) = Some hi" "hex4 (l @ x) = Some lo" for x
    using surrogates(2,3,5,6) by (simp_all add: hex4_iff hi_def lo_def)
  show ?thesis
    using surrogates(1-4) hi lo bound assms(2) surrogates(7) utf8_iff
    by (auto simp: cpl_escape_def cpl_unicode_def hex Let_def pair append_scalar room_for_def)
qed (use assms(2) append_room in \<open>simp_all add: cpl_escape_def simple_escape_def\<close>)

lemma escape_only:
  assumes run: "cpl_escape word start s = Some (w, r)" and room: "room_for word start 0"
  shows "\<exists>e u. s = e @ r \<and> escape_of e u \<and> w = word @ u \<and> room_for word start (length u)"
proof -
  obtain c t where s: "s = c # t" using run by (cases s) (auto simp: cpl_escape_def)
  consider (u) "c = CHR ''u''" | (x) "c = CHR ''x''" | (simple) "c \<noteq> CHR ''u''" "c \<noteq> CHR ''x''" by blast
  then show ?thesis
  proof cases
    case u
    obtain v where v: "cpl_unicode t = Some (v, r)" "append_utf8 word start v = Some w"
      using run by (auto simp: cpl_escape_def s u split: option.splits)
    have A: "v \<noteq> 0" "v < 0xD800 \<or> 0xE000 \<le> v" "w = word @ utf8_bytes v" "utf8_of v (utf8_bytes v)"
      "room_for word start (length (utf8_bytes v))"
      using v(2) room by (auto simp: append_scalar utf8_iff room_for_def ST_MAX_TOKEN_LEN_def)
    define h where "h = take 4 t"
    obtain n where n: "hex4 t = Some n" "4 \<le> length t" using v(1) by (auto simp: cpl_unicode_def split: if_splits option.splits)
    then have h: "length h = 4" "hex_number h n" "t = h @ drop 4 t" by (simp_all add: h_def hex4_iff)
    show ?thesis
    proof (cases "0xd800 \<le> n \<and> n \<le> 0xdbff")
      case False
      then have "v = n" "r = drop 4 t" using v(1) n by (auto simp: cpl_unicode_def Let_def)
      then have "escape_of (CHR ''u'' # h) (utf8_bytes v)" "s = (CHR ''u'' # h) @ r"
        using A h s u by (auto intro: scalar)
      then show ?thesis using A by blast
    next
      case True
      define rest where "rest = drop 4 t"
      obtain lo where lo: "6 \<le> length rest" "rest ! 0 = CHR 0x5C" "rest ! 1 = CHR ''u''" "hex4 (drop 2 rest) = Some lo"
        "0xdc00 \<le> lo" "lo \<le> 0xdfff" "v = 0x10000 + (n - 0xd800) * 1024 + (lo - 0xdc00)" "r = drop 6 rest"
        using v(1) n True by (auto simp: cpl_unicode_def Let_def rest_def split: if_splits option.splits)
      define l where "l = take 4 (drop 2 rest)"
      have l: "length l = 4" "hex_number l lo" using lo(1,4) by (simp_all add: l_def hex4_iff)
      have "rest = CHR 0x5C # CHR ''u'' # drop 2 rest"
        using lo(1-3) by (cases rest; cases "tl rest") auto
      moreover have "drop 2 rest = l @ r" unfolding l_def lo(8) using append_take_drop_id [of 4 "drop 2 rest"] by (simp add: drop_drop)
      ultimately have t: "t = h @ CHR 0x5C # CHR ''u'' # l @ r" using h(3) rest_def by metis
      have "lo - 0xdc00 < 1024" using lo(5,6) by linarith
      then have "(v - 0x10000) div 1024 = n - 0xd800" "(v - 0x10000) mod 1024 = lo - 0xdc00" using lo(7) by simp_all
      then have "0xD800 + (v - 0x10000) div 1024 = n" "0xDC00 + (v - 0x10000) mod 1024 = lo" "0x10000 \<le> v"
        using True lo(5,7) by simp_all
      then have "escape_of (CHR ''u'' # h @ CHR 0x5C # CHR ''u'' # l) (utf8_bytes v)"
        using A(4) h(1,2) l by (intro surrogates) simp_all
      then show ?thesis using A t s u by (intro exI [of _ "CHR ''u'' # h @ CHR 0x5C # CHR ''u'' # l"] exI) auto
    qed
  next
    case x
    obtain b where b: "cpl_byte_escape t = Some (b, r)" "w = word @ [b]" "room_for word start 1"
      using run append_byte [OF room] by (auto simp: cpl_escape_def s x split: option.splits)
    obtain c1 c2 t' where t: "t = c1 # c2 # t'" using b(1) by (cases t; cases "tl t") (auto simp: cpl_byte_escape_def)
    obtain d1 d2 where d: "hex_digit c1 = Some d1" "hex_digit c2 = Some d2" "b = char_of (d1 * 16 + d2)" "r = t'"
      using b(1) by (auto simp: cpl_byte_escape_def t split: option.splits)
    have "hex_number [c1, c2] (ord b)"
      unfolding hex_number_def
      using d by (intro exI [of _ "[d1, d2]"]) (auto simp: hex_digit_iff ord_iff hex_spelling_def mult.commute)
    then have "escape_of (CHR ''x'' # [c1, c2]) [b]" by (intro byte) simp_all
    then show ?thesis using b d s x t by (intro exI [of _ "[CHR ''x'', c1, c2]"] exI [of _ "[b]"]) simp
  next
    case simple
    obtain b where b: "simple_escape c = Some b" "w = word @ [b]" "room_for word start 1" "r = t"
      using run append_byte [OF room] simple by (auto simp: cpl_escape_def s split: option.splits)
    have "escape_of [c] [b]"
      using b(1) by (auto simp: simple_escape_def intro: escape_of.intros split: if_splits)
    then show ?thesis using b s by (intro exI [of _ "[c]"] exI [of _ "[b]"]) simp
  qed
qed

section \<open>Quoted parts\<close>

lemma quoted_read:
  "quoted_of s m \<Longrightarrow> room_for word start (length m) \<Longrightarrow> cpl_quoted word start (s @ CHR 0x22 # r) = Some (word @ m, r)"
proof (induction arbitrary: word rule: quoted_of.induct)
  case (quoted_byte c s m)
  have "append_cpl_byte word start c = Some (word @ [c])"
    using append_room room_less [OF quoted_byte.prems, of 1] by simp
  moreover have "room_for (word @ [c]) start (length m)" using room_append [of word start "[c]"] quoted_byte.prems by simp
  ultimately show ?case using quoted_byte by simp
next
  case (quoted_escape e u s m)
  have "cpl_escape word start (e @ (s @ CHR 0x22 # r)) = Some (word @ u, s @ CHR 0x22 # r)"
    using escape_read [OF quoted_escape.hyps(1)] room_less [OF quoted_escape.prems, of "length u"] by simp
  moreover have "room_for (word @ u) start (length m)" using room_append quoted_escape.prems by simp
  ultimately show ?case using quoted_escape.IH by simp
qed simp

lemma room_none: "room_for word start n \<Longrightarrow> room_for word start 0"
  by (rule room_less) simp_all

lemma room_grow: "room_for word start 0 \<Longrightarrow> room_for word start (length u) \<Longrightarrow> room_for (word @ u) start 0"
  by (auto simp: room_for_def)

lemma room_join: "room_for word start (length u) \<Longrightarrow> room_for (word @ u) start (length v) \<Longrightarrow> room_for word start (length (u @ v))"
  by (auto simp: room_for_def)

lemma quoted_only:
  "cpl_quoted word start s = Some (w, r) \<Longrightarrow> room_for word start 0 \<Longrightarrow>
   \<exists>t m. s = t @ CHR 0x22 # r \<and> quoted_of t m \<and> w = word @ m \<and> room_for word start (length m)"
proof (induction word start s rule: cpl_quoted.induct)
  case (2 word start c s)
  consider (fin) "c = CHR 0x22" | (plain) "c \<noteq> CHR 0x22" "0x20 \<le> ord c" "c \<noteq> CHR 0x5C" | (esc) "c = CHR 0x5C"
    using "2.prems"(1) by (auto split: if_splits)
  then show ?case
  proof cases
    case fin
    then show ?thesis using "2.prems" quoted_end by (intro exI [of _ "[]"]) auto
  next
    case plain
    then obtain w1 where w1: "append_cpl_byte word start c = Some w1" "cpl_quoted w1 start s = Some (w, r)"
      using "2.prems"(1) by (auto split: option.splits)
    then have one: "w1 = word @ [c]" "room_for word start (length [c])" using append_byte [OF "2.prems"(2)] by simp_all
    have "\<not> ord c < 0x20" using plain by simp
    from "2.IH"(1) [OF plain(1) this plain(3) w1] one room_grow [OF "2.prems"(2) one(2)] obtain t m where
      "s = t @ CHR 0x22 # r" "quoted_of t m" "w = w1 @ m" "room_for w1 start (length m)" by auto
    then show ?thesis using plain one room_join [OF one(2), of m]
      by (intro exI [of _ "c # t"] exI [of _ "c # m"]) (auto intro: quoted_of.quoted_byte)
  next
    case esc
    then obtain w1 r1 where w1: "cpl_escape word start s = Some (w1, r1)" "cpl_quoted w1 start r1 = Some (w, r)"
      using "2.prems"(1) by (auto split: option.splits)
    obtain e u where e: "s = e @ r1" "escape_of e u" "w1 = word @ u" "room_for word start (length u)"
      using escape_only [OF w1(1) "2.prems"(2)] by blast
    have "c \<noteq> CHR 0x22" "\<not> ord c < 0x20" "\<not> c \<noteq> CHR 0x5C" using esc by simp_all
    from "2.IH"(2) [OF this w1(1) refl w1(2)] e(3) room_grow [OF "2.prems"(2) e(4)] obtain t m where
      "r1 = t @ CHR 0x22 # r" "quoted_of t m" "w = w1 @ m" "room_for w1 start (length m)" by auto
    then show ?thesis using esc e room_join [OF e(4), of m]
      by (intro exI [of _ "CHR 0x5C # e @ t"] exI [of _ "u @ m"]) (auto intro: quoted_escape)
  qed
qed simp

section \<open>Words\<close>

lemma part_flags: "part_of s m q b \<Longrightarrow> (s = []) = (\<not> q \<and> \<not> b)"
  by (induction rule: part_of.induct) auto

lemma part_bare_only: "part_of s m q b \<Longrightarrow> \<not> q \<Longrightarrow> s = m \<and> list_all word_byte m"
  by (induction rule: part_of.induct) auto

lemma bare_part: "list_all word_byte m \<Longrightarrow> part_of m m False (m \<noteq> [])"
proof (induction m)
  case (Cons c m)
  then show ?case using part_bare [of c m m False] by simp
qed (simp add: part_end)

text \<open>The scanner behind a part.\<close>

definition scan_behind :: "cpl_scan \<Rightarrow> bytes \<Rightarrow> bool \<Rightarrow> bool \<Rightarrow> cpl_scan" where
  "scan_behind z m q b = z\<lparr>cs_word := cs_word z @ m, cs_quoted := cs_quoted z \<or> q, cs_unquoted := cs_unquoted z \<or> b\<rparr>"

lemma scan_behind_again: "scan_behind (scan_behind z m q b) m' q' b' = scan_behind z (m @ m') (q \<or> q') (b \<or> b')"
  by (simp add: scan_behind_def disj_assoc)

lemma scan_behind_nothing [simp]: "scan_behind z [] False False = z"
  by (simp add: scan_behind_def)

lemma scan_behind_fields [simp]:
  "cs_word (scan_behind z m q b) = cs_word z @ m" "cs_start (scan_behind z m q b) = cs_start z"
  "cs_open (scan_behind z m q b) = cs_open z" "cs_compound (scan_behind z m q b) = cs_compound z"
  "cs_quoted (scan_behind z m q b) \<longleftrightarrow> cs_quoted z \<or> q" "cs_unquoted (scan_behind z m q b) \<longleftrightarrow> cs_unquoted z \<or> b"
  "cs_capture_offset (scan_behind z m q b) = cs_capture_offset z"
  "cs_capture_length (scan_behind z m q b) = cs_capture_length z"
  by (simp_all add: scan_behind_def)

lemma scan_behind_quoted: "z\<lparr>cs_quoted := True, cs_word := cs_word z @ m\<rparr> = scan_behind z m True False"
  by (simp add: scan_behind_def)

lemma unquoted_word_byte:
  assumes "c \<noteq> CHR '' ''" "c \<noteq> CHR 0x22" "c \<noteq> CHR ''{''" "c \<noteq> CHR ''}''" "room_for (cs_word z) (cs_start z) 0"
  shows "cpl_unquoted z c = Some z' \<longleftrightarrow>
    word_byte c \<and> room_for (cs_word z) (cs_start z) 1 \<and> z' = scan_behind z [c] False True"
proof -
  have "append_cpl_byte (cs_word z) (cs_start z) c = Some w \<longleftrightarrow> w = cs_word z @ [c] \<and> room_for (cs_word z) (cs_start z) 1" for w
    by (rule append_byte [OF assms(5)])
  then show ?thesis using assms
    by (auto simp: cpl_unquoted_def Let_def word_byte_def quoted_byte_def scan_behind_def not_less)
qed

lemma scan_part_of:
  "part_of s m q b \<Longrightarrow> \<not> (cs_open z \<and> q) \<Longrightarrow> room_for (cs_word z) (cs_start z) (length m) \<Longrightarrow>
   cpl_scan_word z (s @ r) = cpl_scan_word (scan_behind z m q b) r"
proof (induction arbitrary: z rule: part_of.induct)
  case (part_bare c s m q b)
  have c: "c \<noteq> CHR '' ''" "c \<noteq> CHR 0x22" "c \<noteq> CHR ''{''" "c \<noteq> CHR ''}''"
    using part_bare.hyps(1) by (auto simp: word_byte_def quoted_byte_def)
  have room: "room_for (cs_word z) (cs_start z) 0" "room_for (cs_word z) (cs_start z) 1"
    "room_for (cs_word z @ [c]) (cs_start z) (length m)"
    using room_less [OF part_bare.prems(2)] room_append [of "cs_word z" "cs_start z" "[c]"] part_bare.prems(2) by simp_all
  have "cpl_unquoted z c = Some (scan_behind z [c] False True)"
    using unquoted_word_byte [OF c room(1)] part_bare.hyps(1) room(2) by simp
  then show ?case using part_bare.IH [of "scan_behind z [c] False True"] part_bare.prems(1) room(3) c
    by (simp add: scan_behind_again)
next
  case (part_quoted qs qm s m q b)
  have room: "room_for (cs_word z) (cs_start z) (length qm)" "room_for (cs_word z @ qm) (cs_start z) (length m)"
    using room_less [OF part_quoted.prems(2)] room_append [of "cs_word z" "cs_start z" qm] part_quoted.prems(2) by simp_all
  have "cpl_quoted (cs_word z) (cs_start z) (qs @ CHR 0x22 # s @ r) = Some (cs_word z @ qm, s @ r)"
    by (rule quoted_read [OF part_quoted.hyps(1) room(1)])
  then show ?case using part_quoted.IH [of "scan_behind z qm True False"] part_quoted.prems(1) room(2)
    by (simp add: scan_behind_again scan_behind_quoted)
qed simp

text \<open>What stops a part: the end of the word or a brace.\<close>

definition part_stop :: "bytes \<Rightarrow> bool" where
  "part_stop r \<longleftrightarrow> word_end r \<or> hd r = CHR ''{'' \<or> hd r = CHR ''}''"

lemma scan_part_only:
  "cpl_scan_word z s = Some (z', r) \<Longrightarrow> room_for (cs_word z) (cs_start z) 0 \<Longrightarrow>
   \<exists>t m q b k. s = t @ k \<and> part_of t m q b \<and> \<not> (cs_open z \<and> q) \<and> room_for (cs_word z) (cs_start z) (length m) \<and>
     part_stop k \<and> cpl_scan_word (scan_behind z m q b) k = Some (z', r)"
proof (induction z s rule: cpl_scan_word.induct)
  case (1 z)
  then show ?case using part_end by (intro exI [of _ "[]"] exI [of _ False]) (simp add: part_stop_def word_end_def)
next
  case (2 z c s)
  consider (stop) "part_stop (c # s)" | (quote) "c = CHR 0x22"
    | (bare) "c \<noteq> CHR '' ''" "c \<noteq> CHR 0x22" "c \<noteq> CHR ''{''" "c \<noteq> CHR ''}''"
    by (auto simp: part_stop_def word_end_def)
  then show ?case
  proof cases
    case stop
    then show ?thesis using "2.prems" part_end by (intro exI [of _ "[]"] exI [of _ False] exI [of _ "c # s"]) simp
  next
    case bare
    then obtain z1 where z1: "cpl_unquoted z c = Some z1" "cpl_scan_word z1 s = Some (z', r)"
      using "2.prems"(1) by (auto split: option.splits)
    then have one: "word_byte c" "room_for (cs_word z) (cs_start z) (length [c])" "z1 = scan_behind z [c] False True"
      using unquoted_word_byte [OF bare "2.prems"(2)] by simp_all
    from "2.IH"(1) [OF bare(1,2) z1] room_grow [OF "2.prems"(2) one(2)] one(3) obtain t m q b k where
      "s = t @ k" "part_of t m q b" "\<not> (cs_open z \<and> q)" "room_for (cs_word z @ [c]) (cs_start z) (length m)"
      "part_stop k" "cpl_scan_word (scan_behind z1 m q b) k = Some (z', r)" by auto
    then show ?thesis using one room_join [OF one(2), of m]
      by (intro exI [of _ "c # t"] exI [of _ "c # m"] exI [of _ q] exI [of _ True] exI [of _ k])
        (auto simp: scan_behind_again intro: part_of.part_bare)
  next
    case quote
    then obtain w r1 where w: "\<not> cs_open z" "cpl_quoted (cs_word z) (cs_start z) s = Some (w, r1)"
      "cpl_scan_word (z\<lparr>cs_quoted := True, cs_word := w\<rparr>) r1 = Some (z', r)"
      using "2.prems"(1) by (auto split: option.splits if_splits)
    obtain u qm where u: "s = u @ CHR 0x22 # r1" "quoted_of u qm" "w = cs_word z @ qm" "room_for (cs_word z) (cs_start z) (length qm)"
      using quoted_only [OF w(2) "2.prems"(2)] by blast
    have next_z: "z\<lparr>cs_quoted := True, cs_word := w\<rparr> = scan_behind z qm True False"
      by (simp add: scan_behind_quoted u(3))
    have "c \<noteq> CHR '' ''" "\<not> c \<noteq> CHR 0x22" using quote by simp_all
    from "2.IH"(2) [OF this w(1,2) refl w(3)] room_grow [OF "2.prems"(2) u(4)] next_z obtain t m q b k where
      "r1 = t @ k" "part_of t m q b" "room_for (cs_word z @ qm) (cs_start z) (length m)"
      "part_stop k" "cpl_scan_word (scan_behind (scan_behind z qm True False) m q b) k = Some (z', r)" by auto
    then show ?thesis using quote u w(1) room_join [OF u(4), of m]
      by (intro exI [of _ "CHR 0x22 # u @ CHR 0x22 # t"] exI [of _ "qm @ m"] exI [of _ True] exI [of _ b] exI [of _ k])
        (auto simp: scan_behind_again intro: part_of.part_quoted)
  qed
qed

text \<open>The scanner behind an opening and behind a closing brace.\<close>

definition scan_opened :: "cpl_scan \<Rightarrow> cpl_scan" where
  "scan_opened z = z\<lparr>cs_unquoted := True, cs_open := True, cs_word := cs_word z @ [CHR ''{''],
     cs_capture_offset := length (cs_word z) + 1, cs_start := length (cs_word z) + 1\<rparr>"

definition scan_closed :: "cpl_scan \<Rightarrow> cpl_scan" where
  "scan_closed z = z\<lparr>cs_unquoted := True, cs_open := False, cs_compound := True,
     cs_capture_length := length (cs_word z) - cs_capture_offset z, cs_word := cs_word z @ [CHR ''}''],
     cs_start := length (cs_word z) + 1\<rparr>"

lemma scan_brace:
  "cpl_scan_word z (CHR ''{'' # s) = (if cs_compound z \<or> cs_open z then None else cpl_scan_word (scan_opened z) s)"
  "cpl_scan_word z (CHR ''}'' # s) = (if cs_open z then cpl_scan_word (scan_closed z) s else None)"
  by (simp_all add: cpl_unquoted_def Let_def scan_opened_def scan_closed_def)

lemma scan_opened_fields [simp]:
  "cs_word (scan_opened z) = cs_word z @ [CHR ''{'']" "cs_start (scan_opened z) = length (cs_word z) + 1"
  "cs_open (scan_opened z)" "cs_compound (scan_opened z) = cs_compound z" "cs_quoted (scan_opened z) = cs_quoted z"
  "cs_unquoted (scan_opened z)" "cs_capture_offset (scan_opened z) = length (cs_word z) + 1"
  by (simp_all add: scan_opened_def)

lemma scan_closed_fields [simp]:
  "cs_word (scan_closed z) = cs_word z @ [CHR ''}'']" "cs_start (scan_closed z) = length (cs_word z) + 1"
  "\<not> cs_open (scan_closed z)" "cs_compound (scan_closed z)" "cs_quoted (scan_closed z) = cs_quoted z"
  "cs_unquoted (scan_closed z)" "cs_capture_offset (scan_closed z) = cs_capture_offset z"
  "cs_capture_length (scan_closed z) = length (cs_word z) - cs_capture_offset z"
  by (simp_all add: scan_closed_def)

lemma new_fields [simp]:
  "cs_word cpl_scan_new = []" "cs_start cpl_scan_new = 0" "\<not> cs_open cpl_scan_new" "\<not> cs_compound cpl_scan_new"
  "\<not> cs_quoted cpl_scan_new" "\<not> cs_unquoted cpl_scan_new" "cs_capture_offset cpl_scan_new = 0"
  "cs_capture_length cpl_scan_new = 0"
  by (simp_all add: cpl_scan_new_def)

lemma room_start [simp]: "room_for w (length w) n \<longleftrightarrow> n < ST_MAX_TOKEN_LEN"
  "room_for (w @ [c]) (Suc (length w)) n \<longleftrightarrow> n < ST_MAX_TOKEN_LEN" "room_for [] 0 n \<longleftrightarrow> n < ST_MAX_TOKEN_LEN"
  by (simp_all add: room_for_def)

lemma room_some [simp]: "0 < ST_MAX_TOKEN_LEN"
  by (simp add: ST_MAX_TOKEN_LEN_def)

text \<open>A compound leaves the scanner behind its suffix, its capture marked.\<close>

definition scan_compound :: "bytes \<Rightarrow> bool \<Rightarrow> bool \<Rightarrow> bytes \<Rightarrow> bool \<Rightarrow> bytes \<Rightarrow> bool \<Rightarrow> bool \<Rightarrow> cpl_scan" where
  "scan_compound m q b capture k m' q' b' =
     scan_behind (scan_closed (scan_behind (scan_opened (scan_behind cpl_scan_new m q b)) capture False k)) m' q' b'"

lemma word_of_compound:
  "cpl_word_of (scan_compound m q b capture k m' q' b') =
     Some \<lparr>cw_text = m @ CHR ''{'' # capture @ CHR ''}'' # m', cw_literal = False, cw_compound = True,
       cw_capture_offset = length m + 1, cw_capture_length = length capture\<rparr>"
  by (simp add: cpl_word_of_def scan_compound_def)

lemma word_read:
  assumes "word_spelling s w" "word_end r"
  shows "\<exists>z. cpl_scan_word cpl_scan_new (s @ r) = Some (z, r) \<and> cpl_word_of z = Some w"
  using assms(1)
proof cases
  case (simple m q b)
  have "cpl_scan_word cpl_scan_new (s @ r) = Some (scan_behind cpl_scan_new m q b, r)"
    using scan_part_of [OF simple(2), of cpl_scan_new r] simple(5) scan_end [OF assms(2)] by simp
  moreover have "cpl_word_of (scan_behind cpl_scan_new m q b) = Some w"
    using simple part_flags [OF simple(2)] part_bare_only [OF simple(2)] by (auto simp: cpl_word_of_def)
  ultimately show ?thesis by blast
next
  case (compound u m q b capture u' m' q' b')
  let ?k = "capture \<noteq> []"
  have "cpl_scan_word cpl_scan_new (s @ r) = cpl_scan_word (scan_behind cpl_scan_new m q b) (CHR ''{'' # capture @ CHR ''}'' # u' @ r)"
    using scan_part_of [OF compound(3), of cpl_scan_new] compound(1,6) by simp
  also have "\<dots> = cpl_scan_word (scan_opened (scan_behind cpl_scan_new m q b)) (capture @ CHR ''}'' # u' @ r)"
    by (simp only: scan_brace) simp
  also have "\<dots> = cpl_scan_word (scan_behind (scan_opened (scan_behind cpl_scan_new m q b)) capture False ?k) (CHR ''}'' # u' @ r)"
    using scan_part_of [OF bare_part [OF compound(4)]] compound(7) by simp
  also have "\<dots> = cpl_scan_word (scan_closed (scan_behind (scan_opened (scan_behind cpl_scan_new m q b)) capture False ?k)) (u' @ r)"
    by (simp only: scan_brace) simp
  also have "\<dots> = cpl_scan_word (scan_compound m q b capture ?k m' q' b') r"
    using scan_part_of [OF compound(5)] compound(8) room_start(2) [of "m @ CHR ''{'' # capture"] by (simp add: scan_compound_def)
  also have "\<dots> = Some (scan_compound m q b capture ?k m' q' b', r)" by (rule scan_end [OF assms(2)])
  finally show ?thesis using word_of_compound compound(2) by blast
qed

lemma word_only:
  assumes scan: "cpl_scan_word cpl_scan_new s = Some (z, r)" and word: "cpl_word_of z = Some w"
  shows "\<exists>t. s = t @ r \<and> word_spelling t w \<and> word_end r"
proof -
  obtain t m q b k where t: "s = t @ k" "part_of t m q b" "length m < ST_MAX_TOKEN_LEN" "part_stop k"
    "cpl_scan_word (scan_behind cpl_scan_new m q b) k = Some (z, r)"
    using scan_part_only [OF scan] by auto
  consider (fin) "word_end k" | (brace) k' where "k = CHR ''{'' # k'" | (bad) k' where "k = CHR ''}'' # k'"
    using t(4) by (cases k) (auto simp: part_stop_def word_end_def)
  then show ?thesis
  proof cases
    case fin
    then have z: "z = scan_behind cpl_scan_new m q b" "r = k" using t(5) by (simp_all add: scan_end)
    then have "t \<noteq> []" "\<not> (q \<and> b)" "w = \<lparr>cw_text = m, cw_literal = q, cw_compound = False, cw_capture_offset = 0, cw_capture_length = 0\<rparr>"
      using word part_flags [OF t(2)] part_bare_only [OF t(2)] by (auto simp: cpl_word_of_def split: if_splits)
    then show ?thesis using simple [OF t(2)] t(1,3) fin z(2) by blast
  next
    case bad
    then show ?thesis using t(5) by (simp add: scan_brace del: cpl_scan_word.simps)
  next
    case brace
    let ?z1 = "scan_opened (scan_behind cpl_scan_new m q b)"
    have z1: "cpl_scan_word ?z1 k' = Some (z, r)" using t(5) brace by (simp add: scan_brace del: cpl_scan_word.simps)
    obtain capture m1 q1 b1 k1 where c: "k' = capture @ k1" "part_of capture m1 q1 b1" "\<not> q1" "length m1 < ST_MAX_TOKEN_LEN"
      "part_stop k1" "cpl_scan_word (scan_behind ?z1 m1 q1 b1) k1 = Some (z, r)"
      using scan_part_only [OF z1] by auto
    have bare: "capture = m1" "list_all word_byte capture" using part_bare_only [OF c(2,3)] by simp_all
    have "\<not> word_end k1"
    proof
      assume "word_end k1"
      then have "z = scan_behind ?z1 m1 q1 b1" using c(6) by (simp add: scan_end)
      then show False using word by (simp add: cpl_word_of_def)
    qed
    moreover have "k1 \<noteq> CHR ''{'' # k2" for k2 using c(6) by (auto simp: scan_brace simp del: cpl_scan_word.simps)
    ultimately obtain k2 where k2: "k1 = CHR ''}'' # k2" using c(5) by (cases k1) (auto simp: part_stop_def word_end_def)
    let ?z2 = "scan_closed (scan_behind ?z1 m1 q1 b1)"
    have z2: "cpl_scan_word ?z2 k2 = Some (z, r)" using c(6) k2 by (simp add: scan_brace del: cpl_scan_word.simps)
    obtain u m2 q2 b2 k3 where u: "k2 = u @ k3" "part_of u m2 q2 b2" "length m2 < ST_MAX_TOKEN_LEN" "part_stop k3"
      "cpl_scan_word (scan_behind ?z2 m2 q2 b2) k3 = Some (z, r)"
      using scan_part_only [OF z2] room_start(2) [of "m @ CHR ''{'' # m1"] by auto
    have "k3 \<noteq> CHR ''{'' # k4" "k3 \<noteq> CHR ''}'' # k4" for k4
      using u(5) by (auto simp: scan_brace simp del: cpl_scan_word.simps)
    then have fin: "word_end k3" using u(4) by (cases k3) (auto simp: part_stop_def word_end_def)
    then have "z = scan_behind ?z2 m2 q2 b2" "r = k3" using u(5) by (simp_all add: scan_end)
    then have z: "z = scan_compound m q b m1 b1 m2 q2 b2" "r = k3" using c(3) by (simp_all add: scan_compound_def)
    show ?thesis
    proof (intro exI conjI)
      show "s = (t @ CHR ''{'' # capture @ CHR ''}'' # u) @ r" using t(1) brace c(1) k2 u(1) z(2) by simp
      show "word_spelling (t @ CHR ''{'' # capture @ CHR ''}'' # u) w"
        using compound [OF t(2) bare(2) u(2) t(3) _ u(3)] c(4) bare(1) word z(1) word_of_compound by simp
    qed (use fin z(2) in simp)
  qed
qed

section \<open>Lines\<close>

lemma part_head: "part_of s m q b \<Longrightarrow> s = c # t \<Longrightarrow> c \<noteq> CHR '' ''"
  by (induction rule: part_of.induct) (auto simp: word_byte_def)

lemma spelling_head:
  assumes "word_spelling s w"
  obtains c t where "s = c # t" "c \<noteq> CHR '' ''"
proof -
  have "s \<noteq> []" "s = c # t \<Longrightarrow> c \<noteq> CHR '' ''" for c t
    using assms by (cases; auto simp: append_eq_Cons_conv dest: part_head)+
  then show ?thesis using that by (cases s) auto
qed

lemma skip_blanks: "list_all (\<lambda>c. c = CHR '' '') blanks \<Longrightarrow> skip_spaces (blanks @ s) = skip_spaces s"
  by (induction blanks) (auto simp: skip_spaces_def)

lemma skipped: "\<exists>blanks. s = blanks @ skip_spaces s \<and> list_all (\<lambda>c. c = CHR '' '') blanks"
proof (intro exI conjI)
  show "s = takeWhile (\<lambda>c. c = CHR '' '') s @ skip_spaces s" by (simp add: skip_spaces_def)
  show "list_all (\<lambda>c. c = CHR '' '') (takeWhile (\<lambda>c. c = CHR '' '') s)" by (auto simp: list_all_iff dest: set_takeWhileD)
qed

lemma words_read: "line_of s ws \<Longrightarrow> n + length ws \<le> ST_MAX_CMD_TOKENS \<Longrightarrow> cpl_words n s = Some ws"
proof (induction arbitrary: n rule: line_of.induct)
  case (line_end s)
  have "skip_spaces s = []" using skip_blanks [OF line_end.hyps, of "[]"] by (simp add: skip_spaces_def)
  then show ?case by (simp add: cpl_words.simps)
next
  case (line_word blanks s w r ws)
  obtain c t where s: "s = c # t" "c \<noteq> CHR '' ''" using spelling_head [OF line_word.hyps(2)] .
  obtain z where z: "cpl_scan_word cpl_scan_new (s @ r) = Some (z, r)" "cpl_word_of z = Some w"
    using word_read [OF line_word.hyps(2,3)] by blast
  have "skip_spaces (blanks @ s @ r) = c # t @ r" unfolding skip_blanks [OF line_word.hyps(1)] by (simp add: s skip_spaces_def)
  moreover have "cpl_words (n + 1) r = Some ws" using line_word.IH line_word.prems by simp
  ultimately show ?case using z s(1) line_word.prems by (simp add: cpl_words.simps [of n])
qed

lemma words_only: "cpl_words n s = Some ws \<Longrightarrow> n \<le> ST_MAX_CMD_TOKENS \<Longrightarrow> line_of s ws \<and> n + length ws \<le> ST_MAX_CMD_TOKENS"
proof (induction ws arbitrary: n s)
  case Nil
  then have "skip_spaces s = []" unfolding cpl_words.simps [of n s] by (auto split: list.splits if_splits option.splits)
  then show ?case using skipped [of s] Nil.prems(2) by (auto intro: line_end)
next
  case (Cons w ws)
  obtain blanks where blanks: "s = blanks @ skip_spaces s" "list_all (\<lambda>c. c = CHR '' '') blanks" using skipped by blast
  obtain z r where z: "n \<noteq> ST_MAX_CMD_TOKENS" "cpl_scan_word cpl_scan_new (skip_spaces s) = Some (z, r)"
    "cpl_word_of z = Some w" "cpl_words (n + 1) r = Some ws"
    using Cons.prems(1) unfolding cpl_words.simps [of n s] by (auto split: list.splits if_splits option.splits)
  obtain t where t: "skip_spaces s = t @ r" "word_spelling t w" "word_end r" using word_only [OF z(2,3)] by blast
  have "line_of r ws \<and> n + 1 + length ws \<le> ST_MAX_CMD_TOKENS" using Cons.IH [OF z(4)] Cons.prems(2) z(1) by simp
  then show ?case using line_word [OF blanks(2) t(2,3)] blanks(1) t(1) by simp
qed

section \<open>The parser\<close>

lemma parse_cpl_iff:
  "parse_cpl text = Inr words \<longleftrightarrow> line_of (cstr text) words \<and> words \<noteq> [] \<and>
     length words \<le> ST_MAX_CMD_TOKENS \<and> length (cstr text) < ST_MAX_CPL_LEN"
proof -
  have "cpl_words 0 (cstr text) = Some words \<longleftrightarrow> line_of (cstr text) words \<and> length words \<le> ST_MAX_CMD_TOKENS"
    using words_read [of _ words 0] words_only [of 0 _ words] by auto
  moreover have "cpl_words 0 [] = Some []" by (simp add: cpl_words.simps skip_spaces_def)
  ultimately show ?thesis
    by (auto simp: parse_cpl_def Let_def not_le split: option.splits)
qed

lemma parse_cpl_error: "parse_cpl text = Inl e \<Longrightarrow> e = ST_ERR_INVALID"
  by (auto simp: parse_cpl_def Let_def split: if_splits option.splits)

text \<open>C22: The parser of patterns reads a text exactly as the grammar of the language says, on every
  input: it succeeds with a list of words if and only if the text, cut at its terminator, spells
  these words (spaces around words; a word bare, quoted or a compound around one capture; escapes
  with their bytes, hexadecimal digits, and code points in UTF-8, those beyond the first plane as
  surrogate pairs), there is a word at all, and the limits on words, tokens and text are kept. On
  every other text it reports that the text is invalid.\<close>

theorem cpl_parser_reads_the_grammar:
  "(parse_cpl text = Inr words \<longleftrightarrow> line_of (cstr text) words \<and> words \<noteq> [] \<and>
      length words \<le> ST_MAX_CMD_TOKENS \<and> length (cstr text) < ST_MAX_CPL_LEN) \<and>
   (parse_cpl text = Inl ST_ERR_INVALID \<longleftrightarrow> \<not> (\<exists>words. line_of (cstr text) words \<and> words \<noteq> [] \<and>
      length words \<le> ST_MAX_CMD_TOKENS \<and> length (cstr text) < ST_MAX_CPL_LEN))"
proof (intro conjI)
  show "parse_cpl text = Inl ST_ERR_INVALID \<longleftrightarrow> \<not> (\<exists>words. line_of (cstr text) words \<and> words \<noteq> [] \<and>
      length words \<le> ST_MAX_CMD_TOKENS \<and> length (cstr text) < ST_MAX_CPL_LEN)"
    unfolding parse_cpl_iff [symmetric] by (cases "parse_cpl text") (auto dest: parse_cpl_error)
qed (rule parse_cpl_iff)

text \<open>A surrogate pair in quotes with a byte escape behind it: the four bytes of one code point and a letter.\<close>

definition emoji_text :: bytes where
  "emoji_text = CHR 0x22 # CHR 0x5C # ''uD83D'' @ CHR 0x5C # ''uDe00'' @ CHR 0x5C # ''x41'' @ [CHR 0x22]"

definition emoji_word :: cpl_word where
  "emoji_word = \<lparr>cw_text = [CHR 0xF0, CHR 0x9F, CHR 0x98, CHR 0x80, CHR ''A''], cw_literal = True,
     cw_compound = False, cw_capture_offset = 0, cw_capture_length = 0\<rparr>"

lemma emoji_line: "line_of emoji_text [emoji_word]"
proof -
  have hex: "hex_number ''D83D'' 0xD83D" "hex_number ''De00'' 0xDE00" "hex_number ''41'' (ord CHR ''A'')"
    unfolding hex_number_def hex_spelling_def
    by (rule exI [of _ "[13, 8, 3, 13]"], simp, rule exI [of _ "[13, 14, 0, 0]"], simp, rule exI [of _ "[4, 1]"], simp)
  have bytes: "CHR 0xF0 = char_of (240::nat)" "CHR 0x9F = char_of (159::nat)" "CHR 0x98 = char_of (152::nat)"
    "CHR 0x80 = char_of (128::nat)" by code_simp+
  have "escape_of (CHR ''u'' # ''D83D'' @ CHR 0x5C # CHR ''u'' # ''De00'') [CHR 0xF0, CHR 0x9F, CHR 0x98, CHR 0x80]"
    using hex by (intro surrogates [where cp = "0x1F600"]) (simp_all add: utf8_iff utf8_bytes_def bytes)
  moreover have "escape_of (CHR ''x'' # ''41'') [CHR ''A'']" using hex by (intro byte) simp_all
  ultimately have "quoted_of (CHR 0x5C # ''uD83D'' @ CHR 0x5C # ''uDe00'' @ CHR 0x5C # ''x41'') (cw_text emoji_word)"
    using quoted_escape [OF _ quoted_escape [OF _ quoted_end]] by (fastforce simp: emoji_word_def)
  from part_quoted [OF this part_end] have "part_of emoji_text (cw_text emoji_word) True False"
    by (simp add: emoji_text_def)
  from simple [OF this] have "word_spelling emoji_text emoji_word"
    by (simp add: emoji_text_def emoji_word_def ST_MAX_TOKEN_LEN_def)
  from line_word [of "[]", OF _ this, of "[]"] line_end [of "[]"] show ?thesis by (simp add: word_end_def)
qed

theorem cpl_parser_reads_the_grammar_witness: "parse_cpl emoji_text = Inr [emoji_word]"
proof -
  have "cstr emoji_text = emoji_text" "length emoji_text < ST_MAX_CPL_LEN"
    by (simp_all add: cstr_def emoji_text_def ST_MAX_CPL_LEN_def ST_MAX_NETPATTERN_LEN_def)
  then show ?thesis
    using cpl_parser_reads_the_grammar [of emoji_text "[emoji_word]"] emoji_line by (simp add: ST_MAX_CMD_TOKENS_def)
qed

end
