(* ===== verification/Arena.thy ===== *)
theory Arena imports Prelude begin

text \<open>
  The bump allocator of \<^verbatim>\<open>shelltype/src/arena.c\<close>. A block of memory is a list of
  cells; a cell that was never written is \<open>None\<close>. Whether the allocator of the system
  serves a request is an argument of the operation. Sizes are natural numbers, and each test
  against \<^verbatim>\<open>SIZE_MAX\<close> in the code is a test here.
\<close>

section \<open>Cells\<close>

type_synonym cells = "char option list"

text \<open>Memory as \<^verbatim>\<open>malloc\<close> and \<^verbatim>\<open>realloc\<close> return it.\<close>

definition fresh_cells :: "nat \<Rightarrow> cells" where
  "fresh_cells n = replicate n None"

definition realloc_cells :: "nat \<Rightarrow> cells \<Rightarrow> cells" where
  "realloc_cells n block = take n block @ fresh_cells (n - length block)"

definition write_cells :: "nat \<Rightarrow> bytes \<Rightarrow> cells \<Rightarrow> cells" where
  "write_cells off s block = take off block @ map Some s @ drop (off + length s) block"

definition cells_at :: "nat \<Rightarrow> nat \<Rightarrow> cells \<Rightarrow> cells" where
  "cells_at off n block = take n (drop off block)"

lemma length_fresh_cells [simp]: "length (fresh_cells n) = n"
  by (simp add: fresh_cells_def)

lemma length_realloc_cells [simp]: "length (realloc_cells n block) = n"
  by (simp add: realloc_cells_def)

lemma length_write_cells [simp]:
  "off + length s \<le> length block \<Longrightarrow> length (write_cells off s block) = length block"
  by (simp add: write_cells_def)

lemma cells_at_realloc:
  "off + n \<le> length block \<Longrightarrow> length block \<le> m \<Longrightarrow> cells_at off n (realloc_cells m block) = cells_at off n block"
  by (simp add: cells_at_def realloc_cells_def)

lemma cells_at_written:
  "off + length s \<le> length block \<Longrightarrow> cells_at off (length s) (write_cells off s block) = map Some s"
  by (simp add: cells_at_def write_cells_def)

lemma cells_at_before:
  "p + n \<le> off \<Longrightarrow> off + length s \<le> length block \<Longrightarrow> cells_at p n (write_cells off s block) = cells_at p n block"
  by (simp add: cells_at_def write_cells_def take_drop min_def)

lemma cells_at_after:
  "off + length s \<le> p \<Longrightarrow> p + n \<le> length block \<Longrightarrow> cells_at p n (write_cells off s block) = cells_at p n block"
  by (simp add: cells_at_def write_cells_def add.commute [of _ p])

section \<open>The arena\<close>

record arena =
  ar_base :: "cells option"
  ar_size :: nat
  ar_used :: nat

definition arena_init :: "bool \<Rightarrow> nat \<Rightarrow> arena option" where
  "arena_init served room =
     (if served then Some \<lparr>ar_base = Some (fresh_cells room), ar_size = room, ar_used = 0\<rparr> else None)"

definition arena_free :: "arena \<Rightarrow> arena" where
  "arena_free a = \<lparr>ar_base = None, ar_size = 0, ar_used = 0\<rparr>"

text \<open>Rounding up to a multiple of eight.\<close>

definition arena_round :: "nat \<Rightarrow> nat" where
  "arena_round n = (n + 7) div 8 * 8"

definition arena_grown_size :: "nat \<Rightarrow> nat \<Rightarrow> nat" where
  "arena_grown_size room required =
     (if room * 2 < required then if required > SIZE_MAX - 1024 then required else required + 1024
      else room * 2)"

definition arena_regrow :: "bool \<Rightarrow> arena \<Rightarrow> nat \<Rightarrow> arena option" where
  "arena_regrow served a new_size =
     (if served then Some (a\<lparr>ar_base := map_option (realloc_cells new_size) (ar_base a), ar_size := new_size\<rparr>)
      else None)"

text \<open>The offset of the block, and the arena behind it.\<close>

definition arena_alloc :: "bool \<Rightarrow> arena \<Rightarrow> nat \<Rightarrow> nat option \<times> arena" where
  "arena_alloc served a n =
     (if n > SIZE_MAX - 7 then (None, a)
      else let n = arena_round n in
        if ar_used a > ar_size a \<or> n > SIZE_MAX - ar_used a then (None, a)
        else let required = ar_used a + n in
          if required > ar_size a
          then if ar_size a > SIZE_MAX div 2 then (None, a)
               else (case arena_regrow served a (arena_grown_size (ar_size a) required) of
                   None \<Rightarrow> (None, a)
                 | Some b \<Rightarrow> (Some (ar_used b), b\<lparr>ar_used := ar_used b + n\<rparr>))
          else (Some (ar_used a), a\<lparr>ar_used := ar_used a + n\<rparr>))"

text \<open>The doubling loop of the reservation, which does not end when it starts from zero.\<close>

partial_function (option) arena_doubled :: "nat \<Rightarrow> nat \<Rightarrow> nat option" where
  "arena_doubled new_size required =
     (if new_size < required
      then if new_size > SIZE_MAX div 2 then Some required else arena_doubled (new_size * 2) required
      else Some new_size)"

definition arena_reserve :: "bool \<Rightarrow> arena \<Rightarrow> nat \<Rightarrow> (bool \<times> arena) option" where
  "arena_reserve served a additional =
     (if additional > SIZE_MAX - ar_used a then Some (False, a)
      else let required = ar_used a + additional in
        if required \<le> ar_size a then Some (True, a)
        else map_option (\<lambda>new_size. case arena_regrow served a new_size of
              None \<Rightarrow> (False, a) | Some b \<Rightarrow> (True, b))
            (arena_doubled (ar_size a) required))"

definition arena_used :: "arena \<Rightarrow> nat" where
  "arena_used a = ar_used a"

section \<open>Histories of allocations\<close>

definition arena_ok :: "arena \<Rightarrow> bool" where
  "arena_ok a \<longleftrightarrow> (\<exists>block. ar_base a = Some block \<and> length block = ar_size a) \<and>
     ar_used a \<le> ar_size a \<and> 0 < ar_size a \<and> ar_size a \<le> SIZE_MAX \<and> 8 dvd ar_used a"

text \<open>A client call: an allocation, a reservation, or storing bytes in one of the blocks handed out, named
  by its number and an offset in the block. A client keeps to its blocks: a store that does not fit is
  not made.\<close>

datatype arena_call = Alloc bool nat | Reserve bool nat | Store nat nat bytes

type_synonym arena_client = "(nat \<times> nat) list \<times> arena"

definition arena_store :: "arena \<Rightarrow> nat \<Rightarrow> bytes \<Rightarrow> arena" where
  "arena_store a off s = a\<lparr>ar_base := map_option (write_cells off s) (ar_base a)\<rparr>"

text \<open>The blocks handed out so far, as offsets and sizes, and the arena; \<open>None\<close> is a call that does not
  return.\<close>

fun arena_step :: "arena_call \<Rightarrow> arena_client \<Rightarrow> arena_client option" where
  "arena_step (Alloc served n) (blocks, a) =
     (case arena_alloc served a n of
        (None, b) \<Rightarrow> Some (blocks, b)
      | (Some off, b) \<Rightarrow> Some (blocks @ [(off, n)], b))"
| "arena_step (Reserve served n) (blocks, a) = map_option (\<lambda>(_, b). (blocks, b)) (arena_reserve served a n)"
| "arena_step (Store i d s) (blocks, a) =
     Some (blocks, if i < length blocks \<and> d + length s \<le> snd (blocks ! i)
       then arena_store a (fst (blocks ! i) + d) s else a)"

fun arena_run :: "arena_call list \<Rightarrow> arena_client \<Rightarrow> arena_client option" where
  "arena_run [] st = Some st"
| "arena_run (c # cs) st = Option.bind (arena_step c st) (arena_run cs)"

text \<open>What the client of one block sees: its own stores and nothing else.\<close>

fun block_store :: "nat \<Rightarrow> arena_call \<Rightarrow> cells \<Rightarrow> cells" where
  "block_store i (Store j d s) block = (if j = i \<and> d + length s \<le> length block then write_cells d s block else block)"
| "block_store i c block = block"

definition block_after :: "nat \<Rightarrow> arena_call list \<Rightarrow> cells \<Rightarrow> cells" where
  "block_after i cs block = foldl (\<lambda>block c. block_store i c block) block cs"

lemma arena_init_ok: "arena_init served room = Some a \<Longrightarrow> 0 < room \<Longrightarrow> room \<le> SIZE_MAX \<Longrightarrow> arena_ok a"
  by (auto simp: arena_init_def arena_ok_def split: if_splits)

lemma arena_round_bounds: "n \<le> arena_round n" "8 dvd arena_round n"
  by (simp_all add: arena_round_def)

lemma arena_regrow_ok:
  assumes "arena_ok a" "arena_regrow served a m = Some b" "ar_size a \<le> m" "m \<le> SIZE_MAX"
  shows "arena_ok b \<and> ar_used b = ar_used a \<and> ar_size b = m \<and>
    (\<forall>off n. off + n \<le> ar_size a \<longrightarrow> cells_at off n (the (ar_base b)) = cells_at off n (the (ar_base a)))"
  using assms by (auto simp: arena_regrow_def arena_ok_def cells_at_realloc split: if_splits)

lemma arena_doubled_ends:
  "0 < new_size \<Longrightarrow> \<exists>m. arena_doubled new_size required = Some m \<and> required \<le> m \<and> new_size \<le> m \<and>
     (new_size \<le> SIZE_MAX \<longrightarrow> required \<le> SIZE_MAX \<longrightarrow> m \<le> SIZE_MAX)"
proof (induction "required - new_size" arbitrary: new_size rule: less_induct)
  case less
  show ?case
  proof (cases "new_size < required \<and> new_size \<le> SIZE_MAX div 2")
    case True
    then have "required - new_size * 2 < required - new_size" using less.prems by linarith
    then obtain m where "arena_doubled (new_size * 2) required = Some m" "required \<le> m" "new_size * 2 \<le> m"
      "new_size * 2 \<le> SIZE_MAX \<longrightarrow> required \<le> SIZE_MAX \<longrightarrow> m \<le> SIZE_MAX"
      using less.hyps [of "new_size * 2"] less.prems by auto
    then show ?thesis using True by (subst arena_doubled.simps) auto
  next
    case False
    then show ?thesis by (subst arena_doubled.simps) auto
  qed
qed

lemma arena_grown_size_bounds:
  assumes "room \<le> SIZE_MAX div 2" "required \<le> SIZE_MAX"
  shows "required \<le> arena_grown_size room required" "room \<le> arena_grown_size room required"
    "arena_grown_size room required \<le> SIZE_MAX"
  using assms by (auto simp: arena_grown_size_def SIZE_MAX_def)

text \<open>What every allocation and every reservation keeps: the bytes below the mark.\<close>

definition arena_extends :: "arena \<Rightarrow> arena \<Rightarrow> bool" where
  "arena_extends a b \<longleftrightarrow> arena_ok b \<and> ar_used a \<le> ar_used b \<and>
     (\<forall>off n. off + n \<le> ar_used a \<longrightarrow> cells_at off n (the (ar_base b)) = cells_at off n (the (ar_base a)))"

lemma arena_extends_refl: "arena_ok a \<Longrightarrow> arena_extends a a"
  by (simp add: arena_extends_def)

lemma arena_extends_trans: "arena_extends a b \<Longrightarrow> arena_extends b c \<Longrightarrow> arena_extends a c"
  by (auto simp: arena_extends_def)

lemma arena_regrow_extends:
  assumes "arena_ok a" "arena_regrow served a m = Some b" "ar_size a \<le> m" "m \<le> SIZE_MAX"
  shows "arena_extends a b" "ar_used b = ar_used a" "ar_size b = m"
  using arena_regrow_ok [OF assms] assms(1) by (auto simp: arena_extends_def arena_ok_def)

lemma arena_take_extends:
  assumes "arena_ok a" "8 dvd n" "ar_used a + n \<le> ar_size a"
  shows "arena_extends a (a\<lparr>ar_used := ar_used a + n\<rparr>)"
  using assms by (auto simp: arena_extends_def arena_ok_def)

lemma arena_alloc_extends:
  assumes ok: "arena_ok a" and run: "arena_alloc served a n = (off, b)"
  shows "arena_extends a b \<and>
    (\<forall>p. off = Some p \<longrightarrow> p = ar_used a \<and> 8 dvd p \<and> p + n \<le> ar_used b)"
proof -
  have used: "ar_used a \<le> ar_size a" "ar_size a \<le> SIZE_MAX" using ok by (auto simp: arena_ok_def)
  consider (fail) "off = None" "b = a"
    | (grown) c where "arena_regrow served a (arena_grown_size (ar_size a) (ar_used a + arena_round n)) = Some c"
      "ar_used a + arena_round n \<le> SIZE_MAX" "ar_size a \<le> SIZE_MAX div 2"
      "off = Some (ar_used c)" "b = c\<lparr>ar_used := ar_used c + arena_round n\<rparr>"
    | (fits) "ar_used a + arena_round n \<le> ar_size a"
      "off = Some (ar_used a)" "b = a\<lparr>ar_used := ar_used a + arena_round n\<rparr>"
  proof (cases "n > SIZE_MAX - 7 \<or> ar_used a > ar_size a \<or> arena_round n > SIZE_MAX - ar_used a \<or>
      (ar_used a + arena_round n > ar_size a \<and> ar_size a > SIZE_MAX div 2)")
    case True
    then show thesis using run by (intro that(1)) (auto simp: arena_alloc_def Let_def split: if_splits)
  next
    case False
    then have bound: "ar_used a + arena_round n \<le> SIZE_MAX" using used by linarith
    show thesis
    proof (cases "ar_used a + arena_round n > ar_size a")
      case True
      show thesis
      proof (cases "arena_regrow served a (arena_grown_size (ar_size a) (ar_used a + arena_round n))")
        case None
        then show thesis using run False True by (intro that(1)) (auto simp: arena_alloc_def Let_def)
      next
        case (Some c)
        show thesis
          using run False True Some bound by (intro that(2) [OF Some bound]) (auto simp: arena_alloc_def Let_def)
      qed
    next
      case fits: False
      show thesis using run False fits by (intro that(3)) (auto simp: arena_alloc_def Let_def)
    qed
  qed
  then show ?thesis
  proof cases
    case fail
    then show ?thesis using ok by (simp add: arena_extends_refl)
  next
    case grown
    note G = arena_grown_size_bounds [OF grown(3,2)]
    note R = arena_regrow_extends [OF ok grown(1) G(2,3)]
    have ok_c: "arena_ok c" using R(1) by (simp add: arena_extends_def)
    have "arena_extends c b"
      using arena_take_extends [OF ok_c arena_round_bounds(2)] G(1) R grown(5) by simp
    then show ?thesis
      using arena_extends_trans [OF R(1)] R(2) grown(4,5) ok arena_round_bounds(1) [of n] by (simp add: arena_ok_def)
  next
    case fits
    then show ?thesis
      using arena_take_extends [OF ok arena_round_bounds(2)] ok arena_round_bounds(1) [of n] by (simp add: arena_ok_def)
  qed
qed

lemma arena_reserve_extends:
  assumes ok: "arena_ok a"
  shows "\<exists>r b. arena_reserve served a n = Some (r, b) \<and> arena_extends a b \<and> ar_used b = ar_used a \<and>
    (r \<longrightarrow> ar_used a + n \<le> ar_size b) \<and> (\<not> r \<longrightarrow> b = a)"
proof (cases "n > SIZE_MAX - ar_used a \<or> ar_used a + n \<le> ar_size a")
  case True
  then show ?thesis using ok by (auto simp: arena_reserve_def arena_extends_refl)
next
  case False
  have room: "0 < ar_size a" "ar_size a \<le> SIZE_MAX" "ar_used a \<le> SIZE_MAX" using ok by (auto simp: arena_ok_def)
  obtain m where m: "arena_doubled (ar_size a) (ar_used a + n) = Some m" "ar_used a + n \<le> m" "ar_size a \<le> m"
    "m \<le> SIZE_MAX"
    using arena_doubled_ends [OF room(1), of "ar_used a + n"] room False by auto
  have run: "arena_reserve served a n = Some (case arena_regrow served a m of None \<Rightarrow> (False, a) | Some b \<Rightarrow> (True, b))"
    using False m(1) by (simp add: arena_reserve_def)
  show ?thesis
  proof (cases "arena_regrow served a m")
    case None
    then show ?thesis using run ok by (intro exI [of _ False] exI [of _ a]) (simp add: arena_extends_refl)
  next
    case (Some b)
    show ?thesis using run Some arena_regrow_extends [OF ok Some m(3,4)] m(2)
      by (intro exI [of _ True] exI [of _ b]) simp
  qed
qed

text \<open>The blocks of a client are aligned, disjoint and below the mark.\<close>

definition client_ok :: "arena_client \<Rightarrow> bool" where
  "client_ok st \<longleftrightarrow> arena_ok (snd st) \<and>
     list_all (\<lambda>(p, n). 8 dvd p \<and> p + n \<le> ar_used (snd st)) (fst st) \<and>
     sorted_wrt (\<lambda>(p, n) (q, m). p + n \<le> q) (fst st)"

definition block_cells :: "arena_client \<Rightarrow> nat \<Rightarrow> cells" where
  "block_cells st i = cells_at (fst (fst st ! i)) (snd (fst st ! i)) (the (ar_base (snd st)))"

lemma cells_at_within:
  assumes "p + n \<le> length block" "d + length s \<le> n"
  shows "cells_at p n (write_cells (p + d) s block) = write_cells d s (cells_at p n block)"
proof -
  let ?B = "take n (drop p block)"
  have B: "length ?B = n" using assms by simp
  show ?thesis
  proof (rule nth_equalityI)
    show "length (cells_at p n (write_cells (p + d) s block)) = length (write_cells d s (cells_at p n block))"
      using assms by (simp add: cells_at_def write_cells_def)
    fix i
    assume "i < length (cells_at p n (write_cells (p + d) s block))"
    then have i: "i < n" by (simp add: cells_at_def)
    have "drop (d + length s) ?B ! (i - (d + length s)) = block ! (p + i)" if "d + length s \<le> i"
      using that i assms B by (subst nth_drop) simp_all
    then show "cells_at p n (write_cells (p + d) s block) ! i = write_cells d s (cells_at p n block) ! i"
      using i assms by (auto simp: cells_at_def write_cells_def nth_append)
  qed
qed

lemma block_bounds:
  assumes "client_ok (blocks, a)" "i < length blocks"
  shows "8 dvd fst (blocks ! i)" "fst (blocks ! i) + snd (blocks ! i) \<le> ar_used a"
    "fst (blocks ! i) + snd (blocks ! i) \<le> length (the (ar_base a))"
proof -
  obtain p n where "blocks ! i = (p, n)" by fastforce
  then show "8 dvd fst (blocks ! i)" "fst (blocks ! i) + snd (blocks ! i) \<le> ar_used a"
    "fst (blocks ! i) + snd (blocks ! i) \<le> length (the (ar_base a))"
    using assms by (auto simp: client_ok_def list_all_length arena_ok_def split_beta dest!: spec [of _ i])
qed

lemma blocks_apart:
  assumes "client_ok (blocks, a)" "i < length blocks" "j < length blocks" "i \<noteq> j"
  shows "fst (blocks ! i) + snd (blocks ! i) \<le> fst (blocks ! j) \<or> fst (blocks ! j) + snd (blocks ! j) \<le> fst (blocks ! i)"
  using assms sorted_wrt_nth_less [of "\<lambda>(p, n) (q, m). p + n \<le> q" blocks i j]
    sorted_wrt_nth_less [of "\<lambda>(p, n) (q, m). p + n \<le> q" blocks j i]
  by (cases "i < j") (auto simp: client_ok_def split_beta)

lemma client_extends:
  assumes ok: "client_ok (blocks, a)" and ext: "arena_extends a b"
  shows "client_ok (blocks, b)" "i < length blocks \<Longrightarrow> block_cells (blocks, b) i = block_cells (blocks, a) i"
  using assms block_bounds(2) [OF ok]
  by (auto simp: client_ok_def arena_extends_def block_cells_def list_all_iff)

lemma arena_store_ok: "arena_ok a \<Longrightarrow> off + length s \<le> ar_size a \<Longrightarrow> arena_ok (arena_store a off s)"
  by (auto simp: arena_ok_def arena_store_def)

lemma arena_step_blocks:
  assumes ok: "client_ok (blocks, a)"
  shows "\<exists>new b. arena_step c (blocks, a) = Some (blocks @ new, b) \<and> client_ok (blocks @ new, b) \<and>
    (\<forall>i<length blocks. block_cells (blocks @ new, b) i = block_store i c (block_cells (blocks, a) i))"
proof (cases c)
  case (Alloc served n)
  have arena: "arena_ok a" using ok by (simp add: client_ok_def)
  obtain off b where one: "arena_alloc served a n = (off, b)" by fastforce
  note E = arena_alloc_extends [OF arena one]
  note C = client_extends [OF ok conjunct1 [OF E]]
  show ?thesis
  proof (cases off)
    case None
    then show ?thesis using Alloc one C by (intro exI [of _ "[]"] exI [of _ b]) simp
  next
    case (Some p)
    then have "client_ok (blocks @ [(p, n)], b)"
      using C(1) E ok by (fastforce simp: client_ok_def sorted_wrt_append list_all_iff)
    moreover have "block_cells (blocks @ [(p, n)], b) i = block_cells (blocks, b) i" if "i < length blocks" for i
      using that by (simp add: block_cells_def nth_append)
    ultimately show ?thesis using Alloc one Some C(2) by (intro exI [of _ "[(p, n)]"] exI [of _ b]) simp
  qed
next
  case (Reserve served n)
  have "arena_ok a" using ok by (simp add: client_ok_def)
  then obtain r b where "arena_reserve served a n = Some (r, b)" "arena_extends a b"
    using arena_reserve_extends by blast
  then show ?thesis using Reserve client_extends [OF ok] by (intro exI [of _ "[]"] exI [of _ b]) simp
next
  case (Store j d s)
  show ?thesis
  proof (cases "j < length blocks \<and> d + length s \<le> snd (blocks ! j)")
    case False
    have "snd (blocks ! i) = length (block_cells (blocks, a) i)" if "i < length blocks" for i
      using block_bounds(3) [OF ok that] by (simp add: block_cells_def cells_at_def)
    then show ?thesis using Store False ok by (intro exI [of _ "[]"] exI [of _ a]) auto
  next
    case fits: True
    let ?p = "fst (blocks ! j)"
    let ?b = "arena_store a (?p + d) s"
    note J = block_bounds [OF ok conjunct1 [OF fits]]
    obtain base where base: "ar_base a = Some base" "length base = ar_size a" "arena_ok a"
      using ok by (auto simp: client_ok_def arena_ok_def)
    have room: "?p + d + length s \<le> length base" using J(3) fits base by simp
    have "client_ok (blocks, ?b)"
      using ok arena_store_ok [OF base(3), of "?p + d" s] room base(2) by (simp add: client_ok_def arena_store_def)
    moreover have "block_cells (blocks, ?b) i = block_store i c (block_cells (blocks, a) i)" if i: "i < length blocks" for i
    proof -
      note I = block_bounds [OF ok i]
      have len: "length (block_cells (blocks, a) i) = snd (blocks ! i)"
        using I(3) by (simp add: block_cells_def cells_at_def)
      show ?thesis
      proof (cases "i = j")
        case True
        then show ?thesis using cells_at_within [of ?p "snd (blocks ! j)" base d s] I(3) fits base len Store
          by (simp add: block_cells_def arena_store_def)
      next
        case False
        then have "fst (blocks ! i) + snd (blocks ! i) \<le> ?p + d \<or> ?p + d + length s \<le> fst (blocks ! i)"
          using blocks_apart [OF ok i conjunct1 [OF fits]] fits by linarith
        then show ?thesis
          using False Store I(3) base room cells_at_before [of "fst (blocks ! i)" "snd (blocks ! i)" "?p + d" s base]
            cells_at_after [of "?p + d" s "fst (blocks ! i)" "snd (blocks ! i)" base]
          by (auto simp: block_cells_def arena_store_def)
      qed
    qed
    ultimately show ?thesis using Store fits by (intro exI [of _ "[]"] exI [of _ ?b]) simp
  qed
qed

lemma arena_run_blocks:
  "client_ok (blocks, a) \<Longrightarrow> \<exists>new b. arena_run cs (blocks, a) = Some (blocks @ new, b) \<and> client_ok (blocks @ new, b) \<and>
     (\<forall>i<length blocks. block_cells (blocks @ new, b) i = block_after i cs (block_cells (blocks, a) i))"
proof (induction cs arbitrary: blocks a)
  case Nil
  then show ?case by (intro exI [of _ "[]"] exI [of _ a]) (simp add: block_after_def)
next
  case (Cons c cs)
  obtain new b where one: "arena_step c (blocks, a) = Some (blocks @ new, b)" "client_ok (blocks @ new, b)"
    "\<forall>i<length blocks. block_cells (blocks @ new, b) i = block_store i c (block_cells (blocks, a) i)"
    using arena_step_blocks [OF Cons.prems] by blast
  obtain new' d where "arena_run cs (blocks @ new, b) = Some ((blocks @ new) @ new', d)" "client_ok ((blocks @ new) @ new', d)"
    "\<forall>i<length (blocks @ new). block_cells ((blocks @ new) @ new', d) i = block_after i cs (block_cells (blocks @ new, b) i)"
    using Cons.IH [OF one(2)] by blast
  then show ?case using one by (intro exI [of _ "new @ new'"] exI [of _ d]) (simp add: block_after_def)
qed

text \<open>Blocks of the given sizes fit behind a reservation of their sizes with seven bytes for the
  alignment of each, and are handed out without asking the system again.\<close>

lemma arena_reserved_run:
  "arena_ok a \<Longrightarrow> ar_used a + sum_list (map (\<lambda>n. n + 7) ns) \<le> ar_size a \<Longrightarrow>
     \<exists>new b. arena_run (map (Alloc False) ns) (blocks, a) = Some (blocks @ new, b) \<and> map snd new = ns \<and>
       ar_size b = ar_size a \<and> ar_base b = ar_base a"
proof (induction ns arbitrary: blocks a)
  case (Cons n ns)
  have room: "ar_size a \<le> SIZE_MAX" using Cons.prems(1) by (simp add: arena_ok_def)
  have round: "arena_round n \<le> n + 7" by (simp add: arena_round_def)
  let ?b = "a\<lparr>ar_used := ar_used a + arena_round n\<rparr>"
  have one: "arena_alloc False a n = (Some (ar_used a), ?b)"
  proof -
    have "n \<le> SIZE_MAX - 7" "arena_round n \<le> SIZE_MAX - ar_used a" "ar_used a + arena_round n \<le> ar_size a"
      using Cons.prems(2) room round by simp_all
    then show ?thesis by (simp add: arena_alloc_def Let_def)
  qed
  have "arena_ok ?b"
    using arena_take_extends [OF Cons.prems(1) arena_round_bounds(2)] Cons.prems(2) round
    by (simp add: arena_extends_def)
  moreover have "ar_used ?b + sum_list (map (\<lambda>n. n + 7) ns) \<le> ar_size ?b" using Cons.prems(2) round by simp
  ultimately obtain new c where "arena_run (map (Alloc False) ns) (blocks @ [(ar_used a, n)], ?b) =
      Some ((blocks @ [(ar_used a, n)]) @ new, c)" "map snd new = ns"
    "ar_size c = ar_size ?b" "ar_base c = ar_base ?b" using Cons.IH [of ?b "blocks @ [(ar_used a, n)]"] by blast
  then show ?case using one by (intro exI [of _ "(ar_used a, n) # new"] exI [of _ c]) simp
qed simp

text \<open>C27: Over any history of allocations, reservations and stores of the clients, whichever requests the
  system refuses, the operations return; the blocks handed out are aligned, disjoint and within the
  arena; and every block holds what its own client stored in it last, whatever the other clients store
  and however often the arena moves.\<close>

theorem arena_blocks_disjoint:
  assumes "arena_init True room = Some a" "0 < room" "room \<le> SIZE_MAX"
  shows "\<exists>earlier b later c. arena_run before ([], a) = Some (earlier, b) \<and> arena_run after (earlier, b) = Some (earlier @ later, c) \<and>
    list_all (\<lambda>(p, n). 8 dvd p \<and> p + n \<le> ar_used c \<and> ar_used c \<le> ar_size c) (earlier @ later) \<and>
    sorted_wrt (\<lambda>(p, n) (q, m). p + n \<le> q) (earlier @ later) \<and>
    (\<forall>i<length earlier. case earlier ! i of (p, n) \<Rightarrow>
       cells_at p n (the (ar_base c)) = block_after i after (cells_at p n (the (ar_base b))))"
proof -
  have "client_ok ([], a)" using arena_init_ok [OF assms] by (simp add: client_ok_def)
  then obtain earlier b where E: "arena_run before ([], a) = Some (earlier, b)" "client_ok (earlier, b)"
    using arena_run_blocks [of "[]" a before] by auto
  obtain later c where L: "arena_run after (earlier, b) = Some (earlier @ later, c)" "client_ok (earlier @ later, c)"
    "\<forall>i<length earlier. block_cells (earlier @ later, c) i = block_after i after (block_cells (earlier, b) i)"
    using arena_run_blocks [OF E(2)] by blast
  have "ar_used c \<le> ar_size c" using L(2) by (simp add: client_ok_def arena_ok_def)
  moreover have "\<forall>i<length earlier. case earlier ! i of (p, n) \<Rightarrow>
       cells_at p n (the (ar_base c)) = block_after i after (cells_at p n (the (ar_base b)))"
    using L(3) by (simp add: block_cells_def nth_append split_beta)
  ultimately show ?thesis
    using E(1) L(1,2) by (intro exI [of _ earlier] exI [of _ b] exI [of _ later] exI [of _ c])
      (auto simp: client_ok_def list_all_iff)
qed

text \<open>Two blocks are written, the arena grows and moves, and the first is written again.\<close>

theorem arena_blocks_disjoint_witness:
  "\<exists>b later c.
    arena_run [Alloc True 4, Alloc True 8, Store 0 0 ''abcd'', Store 1 2 ''xyz'']
      ([], \<lparr>ar_base = Some (fresh_cells 16), ar_size = 16, ar_used = 0\<rparr>) = Some ([(0, 4), (8, 8)], b) \<and>
    arena_run [Reserve True 50, Alloc True 200, Store 0 1 ''Z''] ([(0, 4), (8, 8)], b) = Some ([(0, 4), (8, 8)] @ later, c) \<and>
    cells_at 0 4 (the (ar_base c)) = map Some ''aZcd'' \<and>
    cells_at 8 8 (the (ar_base c)) = [None, None] @ map Some ''xyz'' @ [None, None, None]"
proof -
  let ?a = "\<lparr>ar_base = Some (fresh_cells 16), ar_size = 16, ar_used = 0\<rparr>"
  let ?before = "[Alloc True 4, Alloc True 8, Store 0 0 ''abcd'', Store 1 2 ''xyz'']"
  let ?after = "[Reserve True 50, Alloc True 200, Store 0 1 ''Z'']"
  have fresh: "fresh_cells 16 = [None, None, None, None, None, None, None, None, None, None, None, None, None, None, None, None]"
    by (simp add: fresh_cells_def numeral_eq_Suc)
  obtain b where b: "arena_run ?before ([], ?a) = Some ([(0, 4), (8, 8)], b)"
    "cells_at 0 4 (the (ar_base b)) = map Some ''abcd''"
    "cells_at 8 8 (the (ar_base b)) = [None, None] @ map Some ''xyz'' @ [None, None, None]"
    by (simp add: arena_alloc_def arena_round_def arena_store_def write_cells_def fresh cells_at_def
        SIZE_MAX_def Let_def)
  obtain later c where L: "arena_run ?after ([(0, 4), (8, 8)], b) = Some ([(0, 4), (8, 8)] @ later, c)"
    "\<forall>i<length [(0, 4), (8, 8 :: nat)]. case [(0, 4), (8, 8)] ! i of (p, n) \<Rightarrow>
       cells_at p n (the (ar_base c)) = block_after i ?after (cells_at p n (the (ar_base b)))"
    using arena_blocks_disjoint [of 16 ?a ?before ?after] b(1) by (auto simp: arena_init_def SIZE_MAX_def)
  have "cells_at 0 4 (the (ar_base c)) = block_after 0 ?after (cells_at 0 4 (the (ar_base b)))"
    "cells_at 8 8 (the (ar_base c)) = block_after 1 ?after (cells_at 8 8 (the (ar_base b)))"
    using spec [OF L(2), of 0] spec [OF L(2), of 1] by simp_all
  then show ?thesis
    using b L(1) by (intro exI [of _ b] exI [of _ later] exI [of _ c]) (simp add: block_after_def write_cells_def)
qed

text \<open>After a successful reservation of the sizes to come, with seven bytes for each alignment,
  every allocation succeeds without growing the arena, so an update that reserves first cannot
  fail half way.\<close>

theorem arena_reserve_suffices:
  assumes "arena_ok a" "arena_reserve served a (sum_list (map (\<lambda>n. n + 7) ns)) = Some (True, b)"
  shows "\<exists>blocks c. arena_run (map (Alloc False) ns) ([], b) = Some (blocks, c) \<and> map snd blocks = ns \<and>
    ar_size c = ar_size b \<and> ar_base c = ar_base b"
proof -
  have "arena_ok b" "ar_used b + sum_list (map (\<lambda>n. n + 7) ns) \<le> ar_size b"
    using arena_reserve_extends [OF assms(1), of served "sum_list (map (\<lambda>n. n + 7) ns)"] assms(2)
    by (auto simp: arena_extends_def)
  from arena_reserved_run [OF this, of "[]"] show ?thesis by simp
qed

end
