(* ===== verification/Interning.thy ===== *)
theory Interning imports Arena begin

unbundle bit_operations_syntax

text \<open>
  The shared policy context of \<^verbatim>\<open>shelltype/src/policy_ctx.c\<close>: strings are copied
  into chunks that never move and found again through a hash table with linear probing; the
  context is reference counted. Whether the system serves the requests of a call is the argument
  \<open>serves\<close>, one answer for each place in the code that asks. A pointer into a chunk is the
  number of chunks behind it in the list, which never changes, and an offset. An operation that
  probes returns an option; \<open>None\<close> means that its loop does not end.
\<close>

section \<open>State\<close>

datatype str_ptr = Empty_literal | Chunk_ptr nat nat

record str_chunk =
  ck_used :: nat
  ck_capacity :: nat
  ck_data :: cells

record str_pool =
  sp_slots :: "str_ptr option list"
  sp_hashes :: "64 word list"
  sp_lengths :: "nat list"
  sp_count :: nat
  sp_capacity :: nat

record st_policy_ctx =
  cx_pool :: str_pool
  cx_chunks :: "str_chunk list"
  cx_chunk_size :: nat
  cx_refcount :: "32 word"

definition DEFAULT_ARENA_SIZE :: nat where "DEFAULT_ARENA_SIZE = 262144"
definition STR_POOL_INIT_CAP :: nat where "STR_POOL_INIT_CAP = 1024"
definition HASH_EMPTY :: "64 word" where "HASH_EMPTY = 0"
definition STR_CHUNK_HEADER :: nat where "STR_CHUNK_HEADER = 24"

definition chunk_at :: "str_chunk list \<Rightarrow> nat \<Rightarrow> str_chunk" where
  "chunk_at chunks k = chunks ! (length chunks - 1 - k)"

text \<open>The memory a pointer leads to.\<close>

fun ptr_cells :: "str_chunk list \<Rightarrow> str_ptr \<Rightarrow> nat \<Rightarrow> cells" where
  "ptr_cells chunks Empty_literal n = take n [Some NUL]"
| "ptr_cells chunks (Chunk_ptr k off) n = cells_at off n (ck_data (chunk_at chunks k))"

section \<open>The string pool\<close>

definition empty_pool :: "nat \<Rightarrow> str_pool" where
  "empty_pool capacity =
     \<lparr>sp_slots = replicate capacity None, sp_hashes = replicate capacity HASH_EMPTY,
       sp_lengths = replicate capacity 0, sp_count = 0, sp_capacity = capacity\<rparr>"

definition str_pool_init :: "(nat \<Rightarrow> bool) \<Rightarrow> str_pool option" where
  "str_pool_init serves =
     (if serves 0 \<and> serves 1 \<and> serves 2 then Some (empty_pool STR_POOL_INIT_CAP) else None)"

text \<open>The first position from \<open>pos\<close> on, around the table, at which the loop stops.\<close>

partial_function (option) probe :: "(nat \<Rightarrow> bool) \<Rightarrow> nat \<Rightarrow> nat \<Rightarrow> nat option" where
  "probe stop capacity pos = (if stop pos then Some pos else probe stop capacity ((pos + 1) mod capacity))"

definition pool_vacant :: "str_pool \<Rightarrow> nat \<Rightarrow> bool" where
  "pool_vacant pool pos \<longleftrightarrow> sp_hashes pool ! pos = HASH_EMPTY"

definition pool_put :: "str_pool \<Rightarrow> nat \<Rightarrow> str_ptr option \<Rightarrow> 64 word \<Rightarrow> nat \<Rightarrow> str_pool" where
  "pool_put pool pos slot h len =
     pool\<lparr>sp_slots := (sp_slots pool)[pos := slot], sp_hashes := (sp_hashes pool)[pos := h],
       sp_lengths := (sp_lengths pool)[pos := len]\<rparr>"

fun pool_rehash :: "str_pool \<Rightarrow> (str_ptr option \<times> 64 word \<times> nat) list \<Rightarrow> str_pool option" where
  "pool_rehash new [] = Some new"
| "pool_rehash new ((slot, h, len) # rest) =
     (if h = HASH_EMPTY then pool_rehash new rest
      else case probe (pool_vacant new) (sp_capacity new) (unat h mod sp_capacity new) of
        None \<Rightarrow> None
      | Some pos \<Rightarrow> pool_rehash (pool_put new pos slot h len) rest)"

definition str_pool_grow :: "(nat \<Rightarrow> bool) \<Rightarrow> str_pool \<Rightarrow> (bool \<times> str_pool) option" where
  "str_pool_grow serves pool =
     (let new_cap = sp_capacity pool * 2 mod 2 ^ 64 in
      if new_cap \<le> sp_capacity pool \<or> \<not> serves 0 \<or> \<not> serves 1 \<or> \<not> serves 2 then Some (False, pool)
      else map_option (\<lambda>new. (True, new\<lparr>sp_count := sp_count pool\<rparr>))
        (pool_rehash (empty_pool new_cap)
          (zip (sp_slots pool) (zip (sp_hashes pool) (sp_lengths pool)))))"

definition str_pool_hash :: "bytes \<Rightarrow> 64 word" where
  "str_pool_hash s = foldl (\<lambda>h c. (h XOR of_nat (ord c)) * 1099511628211) 14695981039346656037 s"

section \<open>Chunks\<close>

definition str_chunk_new :: "bool \<Rightarrow> nat \<Rightarrow> str_chunk option" where
  "str_chunk_new served capacity =
     (let capacity = (if capacity = 0 then 1 else capacity) in
      if capacity > SIZE_MAX - STR_CHUNK_HEADER \<or> \<not> served then None
      else Some \<lparr>ck_used = 0, ck_capacity = capacity, ck_data = fresh_cells capacity\<rparr>)"

definition str_chunks_alloc :: "bool \<Rightarrow> st_policy_ctx \<Rightarrow> nat \<Rightarrow> str_ptr option \<times> st_policy_ctx" where
  "str_chunks_alloc served ctx n =
     (let chunk = hd (cx_chunks ctx) in
      if n > ck_capacity chunk - ck_used chunk
      then (case str_chunk_new served (max (cx_chunk_size ctx) n) of
          None \<Rightarrow> (None, ctx)
        | Some new \<Rightarrow> (Some (Chunk_ptr (length (cx_chunks ctx)) (ck_used new)),
            ctx\<lparr>cx_chunks := new\<lparr>ck_used := ck_used new + n\<rparr> # cx_chunks ctx\<rparr>))
      else (Some (Chunk_ptr (length (cx_chunks ctx) - 1) (ck_used chunk)),
        ctx\<lparr>cx_chunks := chunk\<lparr>ck_used := ck_used chunk + n\<rparr> # tl (cx_chunks ctx)\<rparr>))"

text \<open>Copying a string and its terminator to a pointer.\<close>

fun store_string :: "st_policy_ctx \<Rightarrow> str_ptr \<Rightarrow> bytes \<Rightarrow> st_policy_ctx" where
  "store_string ctx Empty_literal s = ctx"
| "store_string ctx (Chunk_ptr k off) s =
     ctx\<lparr>cx_chunks := (cx_chunks ctx)[length (cx_chunks ctx) - 1 - k :=
       (chunk_at (cx_chunks ctx) k)\<lparr>ck_data :=
         write_cells off (s @ [NUL]) (ck_data (chunk_at (cx_chunks ctx) k))\<rparr>]\<rparr>"

section \<open>Interning\<close>

definition pool_holds :: "st_policy_ctx \<Rightarrow> 64 word \<Rightarrow> bytes \<Rightarrow> nat \<Rightarrow> bool" where
  "pool_holds ctx h s pos \<longleftrightarrow>
     sp_hashes (cx_pool ctx) ! pos = h \<and> sp_lengths (cx_pool ctx) ! pos = length s \<and>
     (case sp_slots (cx_pool ctx) ! pos of
        None \<Rightarrow> False
      | Some p \<Rightarrow> ptr_cells (cx_chunks ctx) p (length s) = map Some s)"

definition intern_at ::
    "(nat \<Rightarrow> bool) \<Rightarrow> st_policy_ctx \<Rightarrow> bytes \<Rightarrow> 64 word \<Rightarrow> nat \<Rightarrow> str_ptr option \<times> st_policy_ctx" where
  "intern_at serves ctx s h pos =
     (case str_chunks_alloc (serves 3) ctx (length s + 1) of
        (None, ctx') \<Rightarrow> (None, ctx')
      | (Some p, ctx') \<Rightarrow>
          (let stored = store_string ctx' p s;
               pool = pool_put (cx_pool stored) pos (Some p) h (length s) in
           (Some p, stored\<lparr>cx_pool := pool\<lparr>sp_count := sp_count pool + 1\<rparr>\<rparr>)))"

definition st_policy_ctx_intern_view ::
    "(nat \<Rightarrow> bool) \<Rightarrow> st_policy_ctx \<Rightarrow> bytes \<Rightarrow> (str_ptr option \<times> st_policy_ctx) option" where
  "st_policy_ctx_intern_view serves ctx s =
     (if s = [] then Some (Some Empty_literal, ctx)
      else let h = str_pool_hash s; pool = cx_pool ctx in
        case probe (\<lambda>pos. pool_vacant pool pos \<or> pool_holds ctx h s pos) (sp_capacity pool)
            (unat h mod sp_capacity pool) of
          None \<Rightarrow> None
        | Some pos \<Rightarrow>
            if \<not> pool_vacant pool pos then Some (sp_slots pool ! pos, ctx)
            else if sp_count pool \<ge> sp_capacity pool * 3 mod 2 ^ 64 div 4
            then (case str_pool_grow serves pool of
                None \<Rightarrow> None
              | Some (grown, pool') \<Rightarrow>
                  if \<not> grown then Some (None, ctx)
                  else case probe (pool_vacant pool') (sp_capacity pool') (unat h mod sp_capacity pool') of
                    None \<Rightarrow> None
                  | Some pos' \<Rightarrow> Some (intern_at serves (ctx\<lparr>cx_pool := pool'\<rparr>) s h pos'))
            else Some (intern_at serves ctx s h pos))"

section \<open>Life of a context\<close>

definition context_storage_init :: "(nat \<Rightarrow> bool) \<Rightarrow> 32 word \<Rightarrow> nat \<Rightarrow> st_policy_ctx option" where
  "context_storage_init serves refcount chunk_size =
     (let chunk_size = (if chunk_size \<noteq> 0 then chunk_size else 1) in
      case str_chunk_new (serves 3) chunk_size of
        None \<Rightarrow> None
      | Some chunk \<Rightarrow> map_option (\<lambda>pool.
          \<lparr>cx_pool = pool, cx_chunks = [chunk], cx_chunk_size = chunk_size, cx_refcount = refcount\<rparr>)
          (str_pool_init serves))"

text \<open>A new context; the last two answers are those for the structure itself and its mutex.\<close>

definition st_policy_ctx_new_with_arena :: "(nat \<Rightarrow> bool) \<Rightarrow> nat \<Rightarrow> st_policy_ctx option" where
  "st_policy_ctx_new_with_arena serves arena_size =
     (if \<not> serves 4 \<or> \<not> serves 5 then None else context_storage_init serves 1 arena_size)"

definition st_policy_ctx_new :: "(nat \<Rightarrow> bool) \<Rightarrow> st_policy_ctx option" where
  "st_policy_ctx_new serves = st_policy_ctx_new_with_arena serves DEFAULT_ARENA_SIZE"

definition st_policy_ctx_retain :: "st_policy_ctx \<Rightarrow> st_policy_ctx" where
  "st_policy_ctx_retain ctx = ctx\<lparr>cx_refcount := cx_refcount ctx + 1\<rparr>"

text \<open>\<open>None\<close> is the context that has been destroyed.\<close>

definition st_policy_ctx_release :: "st_policy_ctx \<Rightarrow> st_policy_ctx option" where
  "st_policy_ctx_release ctx =
     (if cx_refcount ctx = 1 then None else Some (ctx\<lparr>cx_refcount := cx_refcount ctx - 1\<rparr>))"

definition context_reset_with_refcount ::
    "(nat \<Rightarrow> bool) \<Rightarrow> st_policy_ctx \<Rightarrow> 32 word \<Rightarrow> st_error \<times> st_policy_ctx" where
  "context_reset_with_refcount serves ctx expected =
     (case context_storage_init serves (cx_refcount ctx) DEFAULT_ARENA_SIZE of
        None \<Rightarrow> (ST_ERR_MEMORY, ctx)
      | Some replacement \<Rightarrow>
          if cx_refcount ctx \<noteq> expected then (ST_ERR_INVALID, ctx)
          else (ST_OK, ctx\<lparr>cx_pool := cx_pool replacement, cx_chunks := cx_chunks replacement,
            cx_chunk_size := cx_chunk_size replacement\<rparr>))"

definition st_policy_ctx_reset :: "(nat \<Rightarrow> bool) \<Rightarrow> st_policy_ctx \<Rightarrow> st_error \<times> st_policy_ctx" where
  "st_policy_ctx_reset serves ctx = context_reset_with_refcount serves ctx 1"

definition st_policy_ctx_swap_storage ::
    "st_policy_ctx \<Rightarrow> st_policy_ctx \<Rightarrow> st_error \<times> st_policy_ctx \<times> st_policy_ctx" where
  "st_policy_ctx_swap_storage destination replacement =
     (if cx_refcount destination \<noteq> 2 \<or> cx_refcount replacement \<noteq> 2
      then (ST_ERR_INVALID, destination, replacement)
      else (ST_OK,
        destination\<lparr>cx_pool := cx_pool replacement, cx_chunks := cx_chunks replacement,
          cx_chunk_size := cx_chunk_size replacement\<rparr>,
        replacement\<lparr>cx_pool := cx_pool destination, cx_chunks := cx_chunks destination,
          cx_chunk_size := cx_chunk_size destination\<rparr>))"

end
