(* ===== verification/Interning_Spec.thy ===== *)
theory Interning_Spec imports Interning "HOL-Library.Multiset" begin

text \<open>
  Correctness of interning: the loops end because the table always has a vacant position, a string
  is found again from its home position, and pointers stay valid while a policy holds the context.
\<close>

section \<open>Probing\<close>

lemma probe_steps:
  "pos < n \<Longrightarrow> (\<forall>e<d. \<not> stop ((pos + e) mod n)) \<Longrightarrow> stop ((pos + d) mod n) \<Longrightarrow>
     probe stop n pos = Some ((pos + d) mod n)"
proof (induction d arbitrary: pos)
  case 0
  then show ?case by (subst probe.simps) simp
next
  case (Suc d)
  have here: "\<not> stop pos" using Suc.prems(1,2) by force
  let ?next = "Suc pos mod n"
  have shift: "(?next + e) mod n = (pos + Suc e) mod n" for e
    using mod_add_left_eq [of "Suc pos" n e] by simp
  have "probe stop n ?next = Some ((?next + d) mod n)"
  proof (rule Suc.IH)
    show "?next < n" using Suc.prems(1) by simp
    show "\<forall>e<d. \<not> stop ((?next + e) mod n)" "stop ((?next + d) mod n)"
      unfolding shift using Suc.prems(2,3) by auto
  qed
  then show ?case using here shift [of d] by (subst probe.simps) simp
qed

text \<open>The loop ends at the first position at which it stops.\<close>

lemma probe_ends:
  assumes "pos < n" "j < n" "stop j"
  obtains d where "d < n" "probe stop n pos = Some ((pos + d) mod n)" "stop ((pos + d) mod n)"
    "\<forall>e<d. \<not> stop ((pos + e) mod n)"
proof -
  let ?P = "\<lambda>d. stop ((pos + d) mod n)"
  have "(pos + (j + n - pos)) mod n = j" using assms(1,2) by simp
  then have "?P ((j + n - pos) mod n)" using assms(3) by (simp add: mod_add_right_eq)
  then have P: "?P (LEAST d. ?P d)" and le: "(LEAST d. ?P d) \<le> (j + n - pos) mod n"
    by (rule LeastI, rule Least_le)
  have "(j + n - pos) mod n < n" using assms(1) by simp
  then have "(LEAST d. ?P d) < n" using le by (rule le_less_trans [rotated])
  moreover have "\<forall>e < (LEAST d. ?P d). \<not> ?P e" using not_less_Least by blast
  ultimately show thesis using that P probe_steps [OF assms(1)] by blast
qed

section \<open>The table\<close>

text \<open>Every occupied position is reached from the home position of its hash over occupied ones.\<close>

definition table_ok :: "64 word list \<Rightarrow> bool" where
  "table_ok hs \<longleftrightarrow> (\<forall>i<length hs. hs ! i \<noteq> HASH_EMPTY \<longrightarrow>
     (\<exists>d. i = (unat (hs ! i) mod length hs + d) mod length hs \<and>
       (\<forall>e<d. hs ! ((unat (hs ! i) mod length hs + e) mod length hs) \<noteq> HASH_EMPTY)))"

lemma table_okD:
  assumes "table_ok hs" "i < length hs" "hs ! i \<noteq> HASH_EMPTY"
  obtains d where "i = (unat (hs ! i) mod length hs + d) mod length hs"
    "\<forall>e<d. hs ! ((unat (hs ! i) mod length hs + e) mod length hs) \<noteq> HASH_EMPTY"
  using assms unfolding table_ok_def by blast

lemma table_ok_put:
  assumes ok: "table_ok hs" and vacant: "hs ! pos = HASH_EMPTY" and n: "0 < length hs"
    and pos: "pos = (unat h mod length hs + d) mod length hs"
    and way: "\<forall>e<d. hs ! ((unat h mod length hs + e) mod length hs) \<noteq> HASH_EMPTY"
  shows "table_ok (hs[pos := h])"
  unfolding table_ok_def
proof (intro allI impI)
  fix i
  assume i: "i < length (hs[pos := h])" and occupied: "hs[pos := h] ! i \<noteq> HASH_EMPTY"
  have still: "hs ! q \<noteq> HASH_EMPTY \<Longrightarrow> hs[pos := h] ! q \<noteq> HASH_EMPTY" for q
    using vacant by (metis nth_list_update_neq)
  show "\<exists>d. i = (unat (hs[pos := h] ! i) mod length (hs[pos := h]) + d) mod length (hs[pos := h]) \<and>
      (\<forall>e<d. hs[pos := h] ! ((unat (hs[pos := h] ! i) mod length (hs[pos := h]) + e) mod length (hs[pos := h]))
        \<noteq> HASH_EMPTY)"
  proof (cases "i = pos")
    case True
    have "hs[pos := h] ! i = h" using True i by simp
    then show ?thesis using True pos way still by (intro exI [of _ d]) auto
  next
    case False
    then have same: "hs[pos := h] ! i = hs ! i" by simp
    have "i < length hs" "hs ! i \<noteq> HASH_EMPTY" using i occupied same by simp_all
    from table_okD [OF ok this] obtain d' where "i = (unat (hs ! i) mod length hs + d') mod length hs"
      "\<forall>e<d'. hs ! ((unat (hs ! i) mod length hs + e) mod length hs) \<noteq> HASH_EMPTY" .
    then show ?thesis using still unfolding same by (intro exI [of _ d']) simp
  qed
qed

type_synonym pool_entry = "str_ptr option \<times> 64 word \<times> nat"

definition occupied :: "pool_entry \<Rightarrow> bool" where
  "occupied e \<longleftrightarrow> fst (snd e) \<noteq> HASH_EMPTY"

definition pool_list :: "str_pool \<Rightarrow> pool_entry list" where
  "pool_list pool = zip (sp_slots pool) (zip (sp_hashes pool) (sp_lengths pool))"

definition pool_entries :: "str_pool \<Rightarrow> pool_entry multiset" where
  "pool_entries pool = filter_mset occupied (mset (pool_list pool))"

text \<open>The arrays have the capacity as length, and the probing invariant holds.\<close>

definition pool_shape :: "str_pool \<Rightarrow> bool" where
  "pool_shape pool \<longleftrightarrow> length (sp_slots pool) = sp_capacity pool \<and> length (sp_hashes pool) = sp_capacity pool \<and>
     length (sp_lengths pool) = sp_capacity pool \<and> 0 < sp_capacity pool \<and> table_ok (sp_hashes pool)"

lemma length_pool_list: "pool_shape pool \<Longrightarrow> length (pool_list pool) = sp_capacity pool"
  by (simp add: pool_shape_def pool_list_def)

lemma pool_list_nth:
  "pool_shape pool \<Longrightarrow> i < sp_capacity pool \<Longrightarrow>
     pool_list pool ! i = (sp_slots pool ! i, sp_hashes pool ! i, sp_lengths pool ! i)"
  by (simp add: pool_shape_def pool_list_def)

lemma pool_entries_index:
  assumes "pool_shape pool"
  shows "e \<in># pool_entries pool \<longleftrightarrow> (\<exists>i < sp_capacity pool. \<not> pool_vacant pool i \<and>
    e = (sp_slots pool ! i, sp_hashes pool ! i, sp_lengths pool ! i))"
  using assms pool_list_nth [OF assms]
  by (auto simp: pool_entries_def in_set_conv_nth length_pool_list occupied_def pool_vacant_def)

lemma filter_mset_lt:
  "\<forall>x \<in># M. P x \<Longrightarrow> filter_mset P M = M"
  by (simp add: filter_mset_eq_conv)

lemma pool_has_vacant:
  assumes shape: "pool_shape pool" and less: "size (pool_entries pool) < sp_capacity pool"
  shows "\<exists>i < sp_capacity pool. pool_vacant pool i"
proof (rule ccontr)
  assume "\<not> ?thesis"
  then have "\<forall>e \<in> set (pool_list pool). occupied e"
    using pool_list_nth [OF shape] by (auto simp: in_set_conv_nth length_pool_list [OF shape] occupied_def pool_vacant_def)
  then have "pool_entries pool = mset (pool_list pool)" unfolding pool_entries_def by (intro filter_mset_lt) simp
  then show False using less length_pool_list [OF shape] by simp
qed

lemma empty_pool_shape: "0 < n \<Longrightarrow> pool_shape (empty_pool n)"
  by (simp add: pool_shape_def empty_pool_def table_ok_def)

lemma empty_pool_capacity [simp]: "sp_capacity (empty_pool n) = n"
  by (simp add: empty_pool_def)

lemma empty_pool_entries [simp]: "pool_entries (empty_pool n) = {#}"
  by (simp add: pool_entries_def pool_list_def empty_pool_def occupied_def zip_replicate)

lemma pool_put_entries:
  assumes shape: "pool_shape pool" and vacant: "pool_vacant pool pos" and pos: "pos < sp_capacity pool"
  shows "pool_entries (pool_put pool pos slot h len) =
    (if h = HASH_EMPTY then pool_entries pool else add_mset (slot, h, len) (pool_entries pool))"
proof -
  let ?e = "(slot, h, len)"
  have put: "pool_list (pool_put pool pos slot h len) = (pool_list pool)[pos := ?e]"
    by (simp add: pool_list_def pool_put_def update_zip)
  have old: "\<not> occupied (pool_list pool ! pos)"
    using vacant pool_list_nth [OF shape pos] by (simp add: occupied_def pool_vacant_def)
  have "mset ((pool_list pool)[pos := ?e]) = add_mset ?e (mset (pool_list pool) - {#pool_list pool ! pos#})"
    using pos length_pool_list [OF shape] by (simp add: mset_update)
  then show ?thesis using old unfolding pool_entries_def put by (auto simp: occupied_def)
qed

lemma pool_put_shape:
  assumes shape: "pool_shape pool" and vacant: "pool_vacant pool pos"
    and pos: "pos = (unat h mod sp_capacity pool + d) mod sp_capacity pool"
    and way: "\<forall>e<d. \<not> pool_vacant pool ((unat h mod sp_capacity pool + e) mod sp_capacity pool)"
  shows "pool_shape (pool_put pool pos slot h len)"
proof -
  have "table_ok ((sp_hashes pool)[pos := h])"
    using shape vacant pos way by (intro table_ok_put [of _ _ _ d]) (simp_all add: pool_shape_def pool_vacant_def)
  then show ?thesis using shape by (simp add: pool_shape_def pool_put_def)
qed

text \<open>A vacant position is found for a hash, and filling it keeps the table.\<close>

lemma pool_vacant_found:
  assumes shape: "pool_shape pool" and less: "size (pool_entries pool) < sp_capacity pool"
  obtains pos where "probe (pool_vacant pool) (sp_capacity pool) (unat h mod sp_capacity pool) = Some pos"
    "pos < sp_capacity pool" "pool_vacant pool pos" "pool_shape (pool_put pool pos slot h len)"
proof -
  have n: "unat h mod sp_capacity pool < sp_capacity pool" using shape by (simp add: pool_shape_def)
  obtain j where "j < sp_capacity pool" "pool_vacant pool j" using pool_has_vacant [OF shape less] by blast
  from probe_ends [where stop = "pool_vacant pool", OF n this] obtain d where
    "probe (pool_vacant pool) (sp_capacity pool) (unat h mod sp_capacity pool) =
      Some ((unat h mod sp_capacity pool + d) mod sp_capacity pool)"
    "pool_vacant pool ((unat h mod sp_capacity pool + d) mod sp_capacity pool)"
    "\<forall>e<d. \<not> pool_vacant pool ((unat h mod sp_capacity pool + e) mod sp_capacity pool)" .
  then show thesis using that pool_put_shape [OF shape] shape by (auto simp: pool_shape_def)
qed

lemma pool_put_capacity [simp]: "sp_capacity (pool_put pool pos slot h len) = sp_capacity pool"
  "sp_count (pool_put pool pos slot h len) = sp_count pool"
  by (simp_all add: pool_put_def)

lemma pool_rehash_entries:
  "pool_shape new \<Longrightarrow> size (pool_entries new) + length (filter occupied es) < sp_capacity new \<Longrightarrow>
     \<exists>pool. pool_rehash new es = Some pool \<and> pool_shape pool \<and> sp_capacity pool = sp_capacity new \<and>
       pool_entries pool = pool_entries new + filter_mset occupied (mset es)"
proof (induction es arbitrary: new)
  case (Cons e es)
  obtain slot h len where e: "e = (slot, h, len)" by (cases e)
  show ?case
  proof (cases "h = HASH_EMPTY")
    case True
    then show ?thesis using Cons e by (simp add: occupied_def)
  next
    case False
    then have occ: "occupied e" by (simp add: e occupied_def)
    have "size (pool_entries new) < sp_capacity new" using Cons.prems(2) by linarith
    from pool_vacant_found [OF Cons.prems(1) this, of h slot len] obtain pos where
      run: "probe (pool_vacant new) (sp_capacity new) (unat h mod sp_capacity new) = Some pos"
      and pos: "pos < sp_capacity new" "pool_vacant new pos" and shape: "pool_shape (pool_put new pos slot h len)" .
    have entries: "pool_entries (pool_put new pos slot h len) = add_mset e (pool_entries new)"
      using pool_put_entries [OF Cons.prems(1) pos(2,1)] False e by simp
    then obtain pool where "pool_rehash (pool_put new pos slot h len) es = Some pool" "pool_shape pool"
      "sp_capacity pool = sp_capacity new"
      "pool_entries pool = add_mset e (pool_entries new) + filter_mset occupied (mset es)"
      using Cons.IH [OF shape] Cons.prems(2) occ by auto
    then show ?thesis using False run e occ by simp
  qed
qed simp

definition pool_ok :: "str_pool \<Rightarrow> bool" where
  "pool_ok pool \<longleftrightarrow> pool_shape pool \<and> 4 \<le> sp_capacity pool \<and> sp_capacity pool < 2 ^ 64 \<and>
     4 * sp_count pool \<le> 3 * sp_capacity pool \<and> size (pool_entries pool) \<le> sp_count pool"

lemma pool_ok_room: "pool_ok pool \<Longrightarrow> size (pool_entries pool) < sp_capacity pool"
  by (auto simp: pool_ok_def)

lemma str_pool_init_ok: "str_pool_init serves = Some pool \<Longrightarrow> pool_ok pool \<and> pool_entries pool = {#}"
  by (auto simp: str_pool_init_def pool_ok_def empty_pool_shape STR_POOL_INIT_CAP_def split: if_splits)
    (simp_all add: empty_pool_def)

lemma str_pool_grow_ok:
  assumes ok: "pool_ok pool"
  shows "\<exists>grown pool'. str_pool_grow serves pool = Some (grown, pool') \<and>
    (if grown then pool_ok pool' \<and> pool_entries pool' = pool_entries pool \<and> sp_count pool' = sp_count pool \<and>
        sp_capacity pool' = 2 * sp_capacity pool
     else pool' = pool)"
proof (cases "sp_capacity pool * 2 mod 2 ^ 64 \<le> sp_capacity pool \<or> \<not> serves 0 \<or> \<not> serves 1 \<or> \<not> serves 2")
  case True
  then show ?thesis by (auto simp: str_pool_grow_def Let_def)
next
  case False
  let ?n = "sp_capacity pool"
  have n: "4 \<le> ?n" "?n < 2 ^ 64" "4 * sp_count pool \<le> 3 * ?n" "pool_shape pool" "size (pool_entries pool) \<le> sp_count pool"
    using ok by (simp_all add: pool_ok_def)
  have fits: "?n * 2 < 2 ^ 64"
  proof (rule ccontr)
    assume "\<not> ?thesis"
    then have "?n * 2 mod 2 ^ 64 = ?n * 2 - 2 ^ 64" using n(2) by (simp add: mod_if)
    then show False using False n(2) by linarith
  qed
  then have cap: "?n * 2 mod 2 ^ 64 = 2 * ?n" by simp
  have "length (filter occupied (pool_list pool)) = size (pool_entries pool)"
    by (metis mset_filter pool_entries_def size_mset)
  then have "size (pool_entries (empty_pool (2 * ?n))) + length (filter occupied (pool_list pool))
      < sp_capacity (empty_pool (2 * ?n))"
    using n by simp
  then obtain pool' where "pool_rehash (empty_pool (2 * ?n)) (pool_list pool) = Some pool'" "pool_shape pool'"
    "sp_capacity pool' = 2 * ?n" "pool_entries pool' = pool_entries pool"
    using pool_rehash_entries [OF empty_pool_shape, of "2 * ?n" "pool_list pool"] n(1)
    by (auto simp: pool_entries_def [of pool])
  note rehashed = this
  have "str_pool_grow serves pool = Some (True, pool'\<lparr>sp_count := sp_count pool\<rparr>)"
    using False rehashed(1) unfolding str_pool_grow_def Let_def cap pool_list_def by simp
  moreover have "pool_ok (pool'\<lparr>sp_count := sp_count pool\<rparr>) \<and>
      pool_entries (pool'\<lparr>sp_count := sp_count pool\<rparr>) = pool_entries pool"
    using rehashed(2-4) n fits by (simp add: pool_ok_def pool_shape_def pool_entries_def pool_list_def)
  ultimately show ?thesis using rehashed(3)
    by (intro exI [of _ True] exI [of _ "pool'\<lparr>sp_count := sp_count pool\<rparr>"]) simp
qed

section \<open>Chunks\<close>

definition chunk_ok :: "str_chunk \<Rightarrow> bool" where
  "chunk_ok c \<longleftrightarrow> ck_used c \<le> ck_capacity c \<and> length (ck_data c) = ck_capacity c"

text \<open>A pointer to a terminated string in the part of a chunk that is in use.\<close>

definition holds_string :: "str_chunk list \<Rightarrow> str_ptr \<Rightarrow> bytes \<Rightarrow> bool" where
  "holds_string chunks p s \<longleftrightarrow> (\<exists>k off. p = Chunk_ptr k off \<and> k < length chunks \<and>
     off + (length s + 1) \<le> ck_used (chunk_at chunks k) \<and>
     cells_at off (length s + 1) (ck_data (chunk_at chunks k)) = map Some (s @ [NUL]))"

lemma holds_string_cells:
  assumes "holds_string chunks p s"
  shows "ptr_cells chunks p (length s + 1) = map Some (s @ [NUL])" "ptr_cells chunks p (length s) = map Some s"
proof -
  obtain k off where p: "p = Chunk_ptr k off"
    "cells_at off (length s + 1) (ck_data (chunk_at chunks k)) = map Some (s @ [NUL])"
    using assms by (auto simp: holds_string_def)
  show "ptr_cells chunks p (length s + 1) = map Some (s @ [NUL])" using p by simp
  have "cells_at off (length s) (ck_data (chunk_at chunks k)) =
      take (length s) (cells_at off (length s + 1) (ck_data (chunk_at chunks k)))"
    by (simp add: cells_at_def)
  then show "ptr_cells chunks p (length s) = map Some s" using p by simp
qed

lemma chunk_at_Cons [simp]: "k < length chunks \<Longrightarrow> chunk_at (c # chunks) k = chunk_at chunks k"
  by (simp add: chunk_at_def nth_Cons')

lemma chunk_at_head [simp]: "chunk_at (c # chunks) (length chunks) = c"
  by (simp add: chunk_at_def)

lemma chunk_at_second [simp]: "chunk_at (c # d # cs) (Suc (length cs)) = c"
  by (simp add: chunk_at_def)

lemma chunk_at_in: "k < length chunks \<Longrightarrow> chunk_at chunks k \<in> set chunks"
  by (simp add: chunk_at_def)

text \<open>Storing a new string: the pointer is new, the string is there, the other strings stay.\<close>

lemma store_new_string:
  assumes ok: "list_all chunk_ok (cx_chunks ctx)" "cx_chunks ctx \<noteq> []"
    and alloc: "str_chunks_alloc served ctx (length s + 1) = (Some p, ctx')"
  shows "list_all chunk_ok (cx_chunks (store_string ctx' p s)) \<and> cx_chunks (store_string ctx' p s) \<noteq> [] \<and>
    holds_string (cx_chunks (store_string ctx' p s)) p s \<and>
    (\<forall>q t. holds_string (cx_chunks ctx) q t \<longrightarrow> holds_string (cx_chunks (store_string ctx' p s)) q t \<and> q \<noteq> p) \<and>
    cx_pool (store_string ctx' p s) = cx_pool ctx \<and> cx_refcount (store_string ctx' p s) = cx_refcount ctx"
proof -
  obtain c cs where chunks: "cx_chunks ctx = c # cs" using ok(2) by (cases "cx_chunks ctx") auto
  let ?n = "length s + 1"
  show ?thesis
  proof (cases "?n > ck_capacity c - ck_used c")
    case True
    then obtain new where new: "str_chunk_new served (max (cx_chunk_size ctx) ?n) = Some new"
      "p = Chunk_ptr (length (c # cs)) (ck_used new)"
      "ctx' = ctx\<lparr>cx_chunks := new\<lparr>ck_used := ck_used new + ?n\<rparr> # c # cs\<rparr>"
      using alloc by (auto simp: str_chunks_alloc_def chunks split: option.splits)
    have N: "ck_used new = 0" "ck_capacity new = length (ck_data new)" "?n \<le> ck_capacity new"
      using new(1) by (auto simp: str_chunk_new_def Let_def split: if_splits)
    let ?new = "new\<lparr>ck_used := ?n, ck_data := write_cells 0 (s @ [NUL]) (ck_data new)\<rparr>"
    have stored: "store_string ctx' p s = ctx\<lparr>cx_chunks := ?new # c # cs\<rparr>"
      using N(1) by (simp add: new(2,3))
    have "chunk_ok ?new" using N by (simp add: chunk_ok_def)
    moreover have "holds_string (?new # c # cs) p s"
      using N cells_at_written [of 0 "s @ [NUL]" "ck_data new"]
      by (simp add: holds_string_def new(2))
    moreover have "holds_string (c # cs) q t \<Longrightarrow> holds_string (?new # c # cs) q t \<and> q \<noteq> p" for q t
      using chunk_at_Cons [of _ "c # cs" ?new] by (auto simp: holds_string_def new(2) simp del: chunk_at_Cons)
    ultimately show ?thesis using ok unfolding stored by (simp add: chunks)
  next
    case False
    then have new: "p = Chunk_ptr (length cs) (ck_used c)"
      "ctx' = ctx\<lparr>cx_chunks := c\<lparr>ck_used := ck_used c + ?n\<rparr> # cs\<rparr>"
      using alloc by (auto simp: str_chunks_alloc_def chunks)
    have C: "chunk_ok c" using ok(1) by (simp add: chunks)
    let ?c = "c\<lparr>ck_used := ck_used c + ?n, ck_data := write_cells (ck_used c) (s @ [NUL]) (ck_data c)\<rparr>"
    have stored: "store_string ctx' p s = ctx\<lparr>cx_chunks := ?c # cs\<rparr>" by (simp add: new)
    have fits: "ck_used c + length (s @ [NUL]) \<le> length (ck_data c)" using False C by (simp add: chunk_ok_def)
    have "chunk_ok ?c" using C fits by (simp add: chunk_ok_def)
    moreover have "holds_string (?c # cs) p s"
      using cells_at_written [OF fits] by (simp add: holds_string_def new(1))
    moreover have "holds_string (?c # cs) q t \<and> q \<noteq> p" if was: "holds_string (c # cs) q t" for q t
    proof -
      obtain k off where q: "q = Chunk_ptr k off" "k \<le> length cs" "off + (length t + 1) \<le> ck_used (chunk_at (c # cs) k)"
        "cells_at off (length t + 1) (ck_data (chunk_at (c # cs) k)) = map Some (t @ [NUL])"
        using was unfolding holds_string_def by (auto simp: less_Suc_eq_le)
      show ?thesis
      proof (cases "k = length cs")
        case True
        then show ?thesis using q cells_at_before [OF _ fits, of off "length t + 1"] by (simp add: holds_string_def new(1))
      next
        case False
        then show ?thesis using q by (simp add: holds_string_def new(1))
      qed
    qed
    ultimately show ?thesis using ok unfolding stored by (simp add: chunks)
  qed
qed


section \<open>Interning\<close>

text \<open>An entry for a string.\<close>

definition stores :: "str_chunk list \<Rightarrow> bytes \<Rightarrow> pool_entry \<Rightarrow> bool" where
  "stores chunks s e \<longleftrightarrow> (\<exists>p. e = (Some p, str_pool_hash s, length s) \<and> holds_string chunks p s)"

definition ctx_ok :: "st_policy_ctx \<Rightarrow> bool" where
  "ctx_ok ctx \<longleftrightarrow> pool_ok (cx_pool ctx) \<and> list_all chunk_ok (cx_chunks ctx) \<and> cx_chunks ctx \<noteq> [] \<and>
     (\<forall>e. e \<in># pool_entries (cx_pool ctx) \<longrightarrow> (\<exists>s. stores (cx_chunks ctx) s e)) \<and>
     (\<forall>s. size (filter_mset (stores (cx_chunks ctx) s) (pool_entries (cx_pool ctx))) \<le> 1)"

text \<open>The pointer the context has for a string.\<close>

definition interned :: "st_policy_ctx \<Rightarrow> bytes \<Rightarrow> str_ptr \<Rightarrow> bool" where
  "interned ctx s p \<longleftrightarrow> (Some p, str_pool_hash s, length s) \<in># pool_entries (cx_pool ctx) \<and>
     holds_string (cx_chunks ctx) p s"

lemma holds_string_unique:
  assumes "holds_string chunks p s" "holds_string chunks p t" "length s = length t"
  shows "s = t"
proof -
  have "map Some s = ptr_cells chunks p (length s)" by (rule holds_string_cells(2) [OF assms(1), symmetric])
  also have "\<dots> = ptr_cells chunks p (length t)" by (simp only: assms(3))
  also have "\<dots> = map Some t" by (rule holds_string_cells(2) [OF assms(2)])
  finally have "map Some s = map Some t" .
  then show ?thesis by (simp add: inj_map_eq_map)
qed

lemma interned_stores: "interned ctx s p \<longleftrightarrow>
    (\<exists>e. e \<in># filter_mset (stores (cx_chunks ctx) s) (pool_entries (cx_pool ctx)) \<and> fst e = Some p)"
  by (auto simp: interned_def stores_def)

lemma interned_unique:
  assumes ok: "ctx_ok ctx" and p: "interned ctx s p" and q: "interned ctx s q"
  shows "p = q"
proof -
  let ?M = "filter_mset (stores (cx_chunks ctx) s) (pool_entries (cx_pool ctx))"
  obtain e f where E: "e \<in># ?M" "fst e = Some p" and F: "f \<in># ?M" "fst f = Some q"
    using p q unfolding interned_stores by blast
  have "size ?M \<le> 1" using ok by (simp add: ctx_ok_def)
  moreover obtain N where N: "?M = add_mset e N" using E(1) by (metis mset_add)
  ultimately have "N = {#}" by simp
  then have "f = e" using F(1) N by simp
  then show ?thesis using E F by simp
qed

lemma interned_hash: "ctx_ok ctx \<Longrightarrow> interned ctx s p \<Longrightarrow> str_pool_hash s \<noteq> HASH_EMPTY"
  by (auto simp: interned_def pool_entries_def occupied_def)

lemma entry_interned:
  assumes ok: "ctx_ok ctx" and entry: "(Some p, str_pool_hash s, length s) \<in># pool_entries (cx_pool ctx)"
    and cells: "ptr_cells (cx_chunks ctx) p (length s) = map Some s"
  shows "interned ctx s p"
proof -
  obtain t where t: "stores (cx_chunks ctx) t (Some p, str_pool_hash s, length s)"
    using ok entry unfolding ctx_ok_def by blast
  then have hold: "holds_string (cx_chunks ctx) p t" "length t = length s"
    by (simp_all only: stores_def prod.inject option.inject) auto
  have "map Some t = ptr_cells (cx_chunks ctx) p (length t)" by (rule holds_string_cells(2) [OF hold(1), symmetric])
  also have "\<dots> = map Some s" by (simp only: hold(2) cells)
  finally have "t = s" by (simp add: inj_map_eq_map)
  then show ?thesis using entry hold by (simp add: interned_def)
qed

text \<open>The search ends at the entry of the string, or at a vacant position when there is none.\<close>

lemma intern_search:
  assumes ok: "ctx_ok ctx"
  shows "\<exists>pos. probe (\<lambda>pos. pool_vacant (cx_pool ctx) pos \<or> pool_holds ctx (str_pool_hash s) s pos)
      (sp_capacity (cx_pool ctx)) (unat (str_pool_hash s) mod sp_capacity (cx_pool ctx)) = Some pos \<and>
    pos < sp_capacity (cx_pool ctx) \<and>
    (if pool_vacant (cx_pool ctx) pos
     then (\<nexists>p. interned ctx s p) \<and>
       (\<forall>slot len. pool_shape (pool_put (cx_pool ctx) pos slot (str_pool_hash s) len))
     else \<exists>p. sp_slots (cx_pool ctx) ! pos = Some p \<and> interned ctx s p)"
proof -
  let ?pool = "cx_pool ctx" and ?h = "str_pool_hash s"
  let ?n = "sp_capacity ?pool"
  let ?stop = "\<lambda>pos. pool_vacant ?pool pos \<or> pool_holds ctx ?h s pos"
  have pool: "pool_ok ?pool" using ok by (simp add: ctx_ok_def)
  then have shape: "pool_shape ?pool" by (simp add: pool_ok_def)
  then have n: "unat ?h mod ?n < ?n" by (simp add: pool_shape_def)
  obtain j where j: "j < ?n" "pool_vacant ?pool j" using pool_has_vacant [OF shape pool_ok_room [OF pool]] by blast
  then have "?stop j" by simp
  from probe_ends [where stop = ?stop, OF n j(1) this] obtain d where
    d: "probe ?stop ?n (unat ?h mod ?n) = Some ((unat ?h mod ?n + d) mod ?n)" "?stop ((unat ?h mod ?n + d) mod ?n)"
      "\<forall>e<d. \<not> ?stop ((unat ?h mod ?n + e) mod ?n)" .
  let ?pos = "(unat ?h mod ?n + d) mod ?n"
  have pos: "?pos < ?n" using n by (metis mod_less_divisor not_gr_zero not_less_zero)
  have miss: "\<nexists>p. interned ctx s p" if vacant: "pool_vacant ?pool ?pos"
  proof
    assume "\<exists>p. interned ctx s p"
    then obtain p where p: "interned ctx s p" ..
    then obtain i where i: "i < ?n" "\<not> pool_vacant ?pool i"
      "(Some p, ?h, length s) = (sp_slots ?pool ! i, sp_hashes ?pool ! i, sp_lengths ?pool ! i)"
      using pool_entries_index [OF shape] by (auto simp: interned_def)
    have holds: "pool_holds ctx ?h s i"
    proof -
      have "sp_slots ?pool ! i = Some p" "sp_hashes ?pool ! i = ?h" "sp_lengths ?pool ! i = length s"
        using i(3) by simp_all
      then show ?thesis using p holds_string_cells(2) [of "cx_chunks ctx" p s] by (simp add: pool_holds_def interned_def)
    qed
    have facts: "table_ok (sp_hashes ?pool)" "i < length (sp_hashes ?pool)" "sp_hashes ?pool ! i \<noteq> HASH_EMPTY"
      "length (sp_hashes ?pool) = ?n" "sp_hashes ?pool ! i = ?h"
      using shape i by (simp_all add: pool_shape_def pool_vacant_def)
    from table_okD [OF facts(1-3)] obtain d' where d': "i = (unat ?h mod ?n + d') mod ?n"
      "\<forall>e<d'. \<not> pool_vacant ?pool ((unat ?h mod ?n + e) mod ?n)"
      unfolding facts(4,5) pool_vacant_def .
    consider "d' < d" | "d' = d" | "d < d'" by linarith
    then show False
    proof cases
      case 1
      then show ?thesis using d(3) holds d'(1) by blast
    next
      case 2
      then show ?thesis using vacant i(2) d'(1) by simp
    next
      case 3
      then show ?thesis using d'(2) vacant by blast
    qed
  qed
  have put: "pool_shape (pool_put ?pool ?pos slot ?h len)" if "pool_vacant ?pool ?pos" for slot len
    by (rule pool_put_shape [OF shape that refl]) (use d(3) in blast)
  have hit: "\<exists>p. sp_slots ?pool ! ?pos = Some p \<and> interned ctx s p" if filled: "\<not> pool_vacant ?pool ?pos"
  proof -
    have "pool_holds ctx ?h s ?pos" using d(2) filled by blast
    then obtain p where p: "sp_slots ?pool ! ?pos = Some p" "sp_hashes ?pool ! ?pos = ?h"
      "sp_lengths ?pool ! ?pos = length s" "ptr_cells (cx_chunks ctx) p (length s) = map Some s"
      by (auto simp: pool_holds_def split: option.splits)
    have "(Some p, ?h, length s) \<in># pool_entries ?pool"
      unfolding pool_entries_index [OF shape] using pos filled p by force
    then show ?thesis using entry_interned [OF ok _ p(4)] p(1) by blast
  qed
  show ?thesis using d(1) pos miss put hit by (intro exI [of _ ?pos]) simp
qed


lemma stores_extend:
  assumes kept: "\<And>q t. holds_string chunks q t \<Longrightarrow> holds_string chunks' q t"
    and e: "stores chunks t e"
  shows "stores chunks' s e \<longleftrightarrow> stores chunks s e"
proof
  obtain p where p: "e = (Some p, str_pool_hash t, length t)" "holds_string chunks p t" using e by (auto simp: stores_def)
  show "stores chunks s e" if "stores chunks' s e"
  proof -
    have "holds_string chunks' p s" "length s = length t" using that p(1) by (auto simp: stores_def)
    then have "s = t" using holds_string_unique kept [OF p(2)] by blast
    then show ?thesis using e by simp
  qed
  show "stores chunks' s e" if "stores chunks s e"
    using that kept by (auto simp: stores_def)
qed

text \<open>What interning does to a context: strings stay where they are, the string is found again unless
  its hash is the mark of a vacant position, and a new copy has a pointer of its own.\<close>

definition intern_post :: "st_policy_ctx \<Rightarrow> bytes \<Rightarrow> str_ptr option \<Rightarrow> st_policy_ctx \<Rightarrow> bool" where
  "intern_post ctx s r ctx' \<longleftrightarrow> ctx_ok ctx' \<and> cx_refcount ctx' = cx_refcount ctx \<and>
     (\<forall>q t. holds_string (cx_chunks ctx) q t \<longrightarrow> holds_string (cx_chunks ctx') q t) \<and>
     (\<forall>t q. interned ctx t q \<longrightarrow> interned ctx' t q) \<and>
     (case r of
        None \<Rightarrow> (\<nexists>q. interned ctx s q)
      | Some p \<Rightarrow> holds_string (cx_chunks ctx') p s \<and>
          (interned ctx s p \<and> ctx' = ctx \<or>
           (\<nexists>q. interned ctx s q) \<and> (\<forall>t. \<not> holds_string (cx_chunks ctx) p t) \<and>
             (str_pool_hash s \<noteq> HASH_EMPTY \<longrightarrow> interned ctx' s p)))"

lemma intern_at_post:
  assumes ok: "ctx_ok ctx" and pool: "pool_ok pool" "pool_entries pool = pool_entries (cx_pool ctx)"
    and new: "\<nexists>p. interned ctx s p"
    and pos: "pos < sp_capacity pool" "pool_vacant pool pos"
    and shape: "\<And>slot len. pool_shape (pool_put pool pos slot (str_pool_hash s) len)"
    and room: "4 * (sp_count pool + 1) \<le> 3 * sp_capacity pool"
    and run: "intern_at serves (ctx\<lparr>cx_pool := pool\<rparr>) s (str_pool_hash s) pos = (r, ctx')"
  shows "intern_post ctx s r ctx'"
proof -
  let ?ctx = "ctx\<lparr>cx_pool := pool\<rparr>" and ?h = "str_pool_hash s"
  have chunks: "list_all chunk_ok (cx_chunks ?ctx)" "cx_chunks ?ctx \<noteq> []" using ok by (simp_all add: ctx_ok_def)
  have known: "\<exists>t. stores (cx_chunks ctx) t e" if "e \<in># pool_entries (cx_pool ctx)" for e
    using ok that unfolding ctx_ok_def by blast
  have once: "size (filter_mset (stores (cx_chunks ctx) t) (pool_entries (cx_pool ctx))) \<le> 1" for t
    using ok unfolding ctx_ok_def by blast
  obtain a ctx1 where alloc: "str_chunks_alloc (serves 3) ?ctx (length s + 1) = (a, ctx1)" by fastforce
  show ?thesis
  proof (cases a)
    case None
    then have "ctx1 = ?ctx" using alloc by (auto simp: str_chunks_alloc_def Let_def split: if_splits option.splits)
    then have "r = None" "ctx' = ?ctx" using run alloc None by (simp_all add: intern_at_def)
    then show ?thesis using ok pool new by (simp add: intern_post_def ctx_ok_def interned_def)
  next
    case (Some p)
    note S = store_new_string [OF chunks alloc [unfolded Some]]
    let ?pool = "pool_put pool pos (Some p) ?h (length s)"
    have result: "r = Some p"
      "ctx' = (store_string ctx1 p s)\<lparr>cx_pool := ?pool\<lparr>sp_count := sp_count pool + 1\<rparr>\<rparr>"
    proof -
      have "intern_at serves ?ctx s ?h pos =
          (Some p, (store_string ctx1 p s)\<lparr>cx_pool := ?pool\<lparr>sp_count := sp_count pool + 1\<rparr>\<rparr>)"
        using alloc Some S by (simp add: intern_at_def Let_def)
      then show "r = Some p" "ctx' = (store_string ctx1 p s)\<lparr>cx_pool := ?pool\<lparr>sp_count := sp_count pool + 1\<rparr>\<rparr>"
        using run by simp_all
    qed
    let ?old = "cx_chunks ctx" and ?new = "cx_chunks ctx'"
    have now: "list_all chunk_ok ?new" "?new \<noteq> []" "holds_string ?new p s" "cx_refcount ctx' = cx_refcount ctx"
      and kept: "\<And>q t. holds_string ?old q t \<Longrightarrow> holds_string ?new q t"
      and fresh: "\<And>t. \<not> holds_string ?old p t"
      using S result by auto
    have entries: "pool_entries (cx_pool ctx') =
        (if ?h = HASH_EMPTY then pool_entries (cx_pool ctx)
         else add_mset (Some p, ?h, length s) (pool_entries (cx_pool ctx)))"
      using pool_put_entries [OF _ pos(2,1)] pool result(2)
      by (simp add: pool_entries_def pool_list_def pool_ok_def)
    have "pool_ok (cx_pool ctx')"
      using pool room shape [of "Some p" "length s"] entries result(2)
      by (auto simp: pool_ok_def pool_shape_def)
    moreover have "\<exists>t. stores ?new t e" if "e \<in># pool_entries (cx_pool ctx')" for e
    proof (cases "e \<in># pool_entries (cx_pool ctx)")
      case True
      then show ?thesis using known stores_extend [OF kept] by blast
    next
      case False
      then have "e = (Some p, ?h, length s)" using that entries by (auto split: if_splits)
      then show ?thesis using now(3) by (auto simp: stores_def)
    qed
    moreover have "size (filter_mset (stores ?new t) (pool_entries (cx_pool ctx'))) \<le> 1" for t
    proof -
      have same: "filter_mset (stores ?new t) (pool_entries (cx_pool ctx)) =
          filter_mset (stores ?old t) (pool_entries (cx_pool ctx))"
      proof (rule filter_mset_cong [OF refl])
        fix e
        assume "e \<in># pool_entries (cx_pool ctx)"
        then obtain u where "stores ?old u e" using known by blast
        then show "stores ?new t e = stores ?old t e" using stores_extend [OF kept] by blast
      qed
      have "filter_mset (stores ?old t) (pool_entries (cx_pool ctx)) = {#}" if "stores ?new t (Some p, ?h, length s)"
      proof -
        have "t = s" using that now(3) holds_string_unique by (auto simp: stores_def)
        moreover have "filter_mset (stores ?old s) (pool_entries (cx_pool ctx)) = {#}"
          using new unfolding interned_stores by (auto simp: stores_def filter_mset_eq_conv)
        ultimately show ?thesis by simp
      qed
      then show ?thesis using once [of t] unfolding entries by (auto simp: same)
    qed
    ultimately have "ctx_ok ctx'" using now(1,2) by (simp add: ctx_ok_def)
    moreover have "interned ctx' t q" if "interned ctx t q" for t q
      using that kept entries by (auto simp: interned_def)
    moreover have "?h \<noteq> HASH_EMPTY \<longrightarrow> interned ctx' s p"
      using now(3) entries by (simp add: interned_def)
    ultimately show ?thesis using now(3,4) kept fresh new result(1) by (simp add: intern_post_def)
  qed
qed


lemma intern_effect:
  assumes ok: "ctx_ok ctx" and s: "s \<noteq> []"
  shows "\<exists>r ctx'. st_policy_ctx_intern_view serves ctx s = Some (r, ctx') \<and> intern_post ctx s r ctx'"
proof -
  let ?pool = "cx_pool ctx" and ?h = "str_pool_hash s"
  have pool: "pool_ok ?pool" using ok by (simp add: ctx_ok_def)
  obtain pos where pos: "probe (\<lambda>pos. pool_vacant ?pool pos \<or> pool_holds ctx ?h s pos) (sp_capacity ?pool)
      (unat ?h mod sp_capacity ?pool) = Some pos" "pos < sp_capacity ?pool"
    "if pool_vacant ?pool pos
     then (\<nexists>p. interned ctx s p) \<and> (\<forall>slot len. pool_shape (pool_put ?pool pos slot ?h len))
     else \<exists>p. sp_slots ?pool ! pos = Some p \<and> interned ctx s p"
    using intern_search [OF ok, of s] by blast
  note def = st_policy_ctx_intern_view_def [of serves ctx s] and at = intern_at_post [OF ok]
  show ?thesis
  proof (cases "pool_vacant ?pool pos")
    case False
    then obtain p where p: "sp_slots ?pool ! pos = Some p" "interned ctx s p" using pos(3) by auto
    have "st_policy_ctx_intern_view serves ctx s = Some (Some p, ctx)"
      using s pos(1) False p(1) by (simp add: def Let_def)
    moreover have "intern_post ctx s (Some p) ctx" using ok p(2) by (simp add: intern_post_def interned_def)
    ultimately show ?thesis by blast
  next
    case vacant: True
    then have new: "\<nexists>p. interned ctx s p" and shape: "\<And>slot len. pool_shape (pool_put ?pool pos slot ?h len)"
      using pos(3) by simp_all
    show ?thesis
    proof (cases "sp_count ?pool \<ge> sp_capacity ?pool * 3 mod 2 ^ 64 div 4")
      case False
      have "sp_capacity ?pool * 3 mod 2 ^ 64 div 4 \<le> sp_capacity ?pool * 3 div 4"
        by (intro div_le_mono) simp
      then have "sp_count ?pool + 1 \<le> sp_capacity ?pool * 3 div 4" using False by linarith
      then have "4 * (sp_count ?pool + 1) \<le> 4 * (sp_capacity ?pool * 3 div 4)" by (rule mult_le_mono2)
      also have "\<dots> \<le> sp_capacity ?pool * 3" by (rule times_div_less_eq_dividend)
      finally have room: "4 * (sp_count ?pool + 1) \<le> 3 * sp_capacity ?pool" by (simp only: mult.commute)
      obtain r ctx' where run: "intern_at serves ctx s ?h pos = (r, ctx')" by fastforce
      have "st_policy_ctx_intern_view serves ctx s = Some (r, ctx')"
        using s pos(1) vacant False run by (simp add: def Let_def)
      moreover have "intern_post ctx s r ctx'"
        using at [OF pool refl new pos(2) vacant shape room] run by simp
      ultimately show ?thesis by blast
    next
      case full: True
      obtain grown pool' where grow: "str_pool_grow serves ?pool = Some (grown, pool')"
        "if grown then pool_ok pool' \<and> pool_entries pool' = pool_entries ?pool \<and> sp_count pool' = sp_count ?pool \<and>
            sp_capacity pool' = 2 * sp_capacity ?pool else pool' = ?pool"
        using str_pool_grow_ok [OF pool, of serves] by blast
      show ?thesis
      proof (cases grown)
        case False
        then have "st_policy_ctx_intern_view serves ctx s = Some (None, ctx)"
          using s pos(1) vacant full grow(1) by (simp add: def Let_def)
        moreover have "intern_post ctx s None ctx" using ok new by (simp add: intern_post_def)
        ultimately show ?thesis by blast
      next
        case True
        then have pool': "pool_ok pool'" "pool_entries pool' = pool_entries ?pool" "sp_count pool' = sp_count ?pool"
          "sp_capacity pool' = 2 * sp_capacity ?pool" using grow(2) by simp_all
        have shape': "pool_shape pool'" using pool'(1) by (simp add: pool_ok_def)
        have free: "\<exists>pos'. probe (pool_vacant pool') (sp_capacity pool') (unat ?h mod sp_capacity pool') = Some pos' \<and>
            pos' < sp_capacity pool' \<and> pool_vacant pool' pos' \<and>
            (\<forall>slot len. pool_shape (pool_put pool' pos' slot ?h len))"
        proof -
          obtain pos' where one: "probe (pool_vacant pool') (sp_capacity pool') (unat ?h mod sp_capacity pool') = Some pos'"
            "pos' < sp_capacity pool'" "pool_vacant pool' pos'"
            by (rule pool_vacant_found [OF shape' pool_ok_room [OF pool'(1)], of ?h])
          have "pool_shape (pool_put pool' pos' slot ?h len)" for slot len
            by (rule pool_vacant_found [OF shape' pool_ok_room [OF pool'(1)], of ?h slot len]) (use one(1) in simp)
          then show ?thesis using one by blast
        qed
        then obtain pos' where pos': "probe (pool_vacant pool') (sp_capacity pool') (unat ?h mod sp_capacity pool') = Some pos'"
          "pos' < sp_capacity pool'" "pool_vacant pool' pos'" "\<And>slot len. pool_shape (pool_put pool' pos' slot ?h len)"
          by blast
        have room: "4 * (sp_count pool' + 1) \<le> 3 * sp_capacity pool'"
          using pool pool'(3,4) by (simp add: pool_ok_def)
        obtain r ctx' where run: "intern_at serves (ctx\<lparr>cx_pool := pool'\<rparr>) s ?h pos' = (r, ctx')" by fastforce
        have "st_policy_ctx_intern_view serves ctx s = Some (r, ctx')"
          using s pos(1) vacant full grow(1) True pos'(1) run by (simp add: def Let_def)
        moreover have "intern_post ctx s r ctx'" by (rule at [OF pool'(1,2) new pos'(2-4) room run])
        ultimately show ?thesis by blast
      qed
    qed
  qed
qed

section \<open>Histories\<close>

datatype ctx_call =
  Ctx_retain | Ctx_release | Ctx_intern "nat \<Rightarrow> bool" bytes | Ctx_reset "nat \<Rightarrow> bool"

text \<open>One call on a context that lives on.\<close>

inductive ctx_step :: "st_policy_ctx \<Rightarrow> ctx_call \<Rightarrow> st_policy_ctx \<Rightarrow> bool" where
  retain: "ctx_step c Ctx_retain (st_policy_ctx_retain c)"
| release: "st_policy_ctx_release c = Some c' \<Longrightarrow> ctx_step c Ctx_release c'"
| intern: "st_policy_ctx_intern_view serves c s = Some (r, c') \<Longrightarrow> ctx_step c (Ctx_intern serves s) c'"
| reset: "st_policy_ctx_reset serves c = (e, c') \<Longrightarrow> ctx_step c (Ctx_reset serves) c'"

text \<open>The contexts of a process, in the order of their creation; one that was destroyed is \<open>None\<close>.\<close>

type_synonym ctx_world = "st_policy_ctx option list"

datatype world_call =
  New_ctx "nat \<Rightarrow> bool" nat | On nat ctx_call | Last_release nat | Swap_storage nat nat

inductive world_step :: "ctx_world \<Rightarrow> world_call \<Rightarrow> ctx_world \<Rightarrow> bool" where
  create: "st_policy_ctx_new_with_arena serves n = Some c \<Longrightarrow> world_step w (New_ctx serves n) (w @ [Some c])"
| call: "i < length w \<Longrightarrow> w ! i = Some c \<Longrightarrow> ctx_step c a c' \<Longrightarrow> world_step w (On i a) (w[i := Some c'])"
| destroy: "i < length w \<Longrightarrow> w ! i = Some c \<Longrightarrow> st_policy_ctx_release c = None \<Longrightarrow>
    world_step w (Last_release i) (w[i := None])"
| swap: "i < length w \<Longrightarrow> j < length w \<Longrightarrow> i \<noteq> j \<Longrightarrow> w ! i = Some c \<Longrightarrow> w ! j = Some d \<Longrightarrow>
    st_policy_ctx_swap_storage c d = (e, c', d') \<Longrightarrow> world_step w (Swap_storage i j) (w[i := Some c', j := Some d'])"

inductive world_run :: "ctx_world \<Rightarrow> world_call list \<Rightarrow> ctx_world \<Rightarrow> bool" where
  run_nil: "world_run w [] w"
| run_step: "world_step w a w' \<Longrightarrow> world_run w' as w'' \<Longrightarrow> world_run w (a # as) w''"

text \<open>Where the strings of a context are after a call: an exchange of storage moves them.\<close>

fun moved :: "ctx_world \<Rightarrow> world_call \<Rightarrow> nat \<Rightarrow> nat" where
  "moved w (Swap_storage i j) k =
     (if fst (st_policy_ctx_swap_storage (the (w ! i)) (the (w ! j))) = ST_OK
      then if k = i then j else if k = j then i else k else k)"
| "moved w a k = k"

text \<open>A run during which the context that has the strings is never down to one reference: some
  policy holds it.\<close>

inductive held_run :: "nat \<Rightarrow> ctx_world \<Rightarrow> world_call list \<Rightarrow> nat \<Rightarrow> ctx_world \<Rightarrow> bool" where
  held_nil: "held_run k w [] k w"
| held_step: "w ! k = Some c \<Longrightarrow> cx_refcount c \<noteq> 1 \<Longrightarrow> world_step w a w' \<Longrightarrow>
    held_run (moved w a k) w' as k' w'' \<Longrightarrow> held_run k w (a # as) k' w''"

lemma ctx_ok_storage:
  assumes "ctx_ok c" "cx_pool c' = cx_pool c" "cx_chunks c' = cx_chunks c"
  shows "ctx_ok c'"
  using assms by (simp add: ctx_ok_def)

lemma context_storage_init_ok:
  assumes "context_storage_init serves refs n = Some c"
  shows "ctx_ok c"
proof -
  obtain chunk pool where "str_chunk_new (serves 3) (if n \<noteq> 0 then n else 1) = Some chunk"
    "str_pool_init serves = Some pool" "cx_pool c = pool" "cx_chunks c = [chunk]"
    using assms by (auto simp: context_storage_init_def Let_def split: option.splits)
  moreover have "chunk_ok chunk"
    using calculation(1) by (auto simp: str_chunk_new_def Let_def chunk_ok_def split: if_splits)
  ultimately show ?thesis using str_pool_init_ok by (simp add: ctx_ok_def)
qed

lemma ctx_reset_cases:
  assumes "st_policy_ctx_reset serves c = (e, c')" "ctx_ok c"
  shows "ctx_ok c' \<and> (cx_refcount c \<noteq> 1 \<longrightarrow> c' = c)"
proof (cases "context_storage_init serves (cx_refcount c) DEFAULT_ARENA_SIZE")
  case None
  then show ?thesis using assms by (simp add: st_policy_ctx_reset_def context_reset_with_refcount_def)
next
  case (Some new)
  then show ?thesis using assms ctx_ok_storage [OF context_storage_init_ok [OF Some]]
    by (auto simp: st_policy_ctx_reset_def context_reset_with_refcount_def split: if_splits)
qed

lemma ctx_intern_step:
  assumes "st_policy_ctx_intern_view serves c s = Some (r, c')" "ctx_ok c"
  shows "if s = [] then r = Some Empty_literal \<and> c' = c else intern_post c s r c'"
proof (cases "s = []")
  case True
  then show ?thesis using assms(1) by (simp add: st_policy_ctx_intern_view_def)
next
  case False
  then show ?thesis using assms(1) intern_effect [OF assms(2) False, of serves] by auto
qed

lemma ctx_step_ok: "ctx_step c call c' \<Longrightarrow> ctx_ok c \<Longrightarrow> ctx_ok c'"
proof (induction rule: ctx_step.induct)
  case (retain c)
  then show ?case by (rule ctx_ok_storage) (simp_all add: st_policy_ctx_retain_def)
next
  case (release c c')
  show ?case using release(2) by (rule ctx_ok_storage)
    (use release(1) in \<open>auto simp: st_policy_ctx_release_def split: if_splits\<close>)
next
  case (intern serves c s r c')
  then show ?case using ctx_intern_step [OF intern] by (simp add: intern_post_def split: if_splits)
next
  case (reset serves c e c')
  then show ?case using ctx_reset_cases by blast
qed

definition world_ok :: "ctx_world \<Rightarrow> bool" where
  "world_ok w \<longleftrightarrow> (\<forall>c. Some c \<in> set w \<longrightarrow> ctx_ok c)"

lemma world_okD: "world_ok w \<Longrightarrow> i < length w \<Longrightarrow> w ! i = Some c \<Longrightarrow> ctx_ok c"
  by (metis nth_mem world_ok_def)

lemma world_ok_update: "world_ok w \<Longrightarrow> (\<And>c. x = Some c \<Longrightarrow> ctx_ok c) \<Longrightarrow> world_ok (w[i := x])"
  using set_update_subset_insert [of w i x] by (auto simp: world_ok_def)

lemma ctx_swap_cases:
  assumes "st_policy_ctx_swap_storage c d = (e, c', d')"
  shows "if e = ST_OK then cx_pool c' = cx_pool d \<and> cx_chunks c' = cx_chunks d \<and> cx_pool d' = cx_pool c \<and> cx_chunks d' = cx_chunks c
    else c' = c \<and> d' = d"
  using assms by (auto simp: st_policy_ctx_swap_storage_def split: if_splits)

lemma world_step_ok: "world_step w a w' \<Longrightarrow> world_ok w \<Longrightarrow> world_ok w'"
proof (induction rule: world_step.induct)
  case (create serves n c w)
  then have "ctx_ok c" using context_storage_init_ok by (auto simp: st_policy_ctx_new_with_arena_def split: if_splits)
  then show ?case using create by (auto simp: world_ok_def)
next
  case (call i w c a c')
  then show ?case using ctx_step_ok world_okD by (auto intro!: world_ok_update)
next
  case (swap i w j c d e c' d')
  then have "ctx_ok c" "ctx_ok d" using world_okD by blast+
  then have "ctx_ok c'" "ctx_ok d'"
    using ctx_swap_cases [OF swap(6)] ctx_ok_storage [of c d'] ctx_ok_storage [of d c'] by (auto split: if_splits)
  then show ?case using swap by (auto intro!: world_ok_update)
qed (auto intro!: world_ok_update)

lemma world_run_ok: "world_run w calls w' \<Longrightarrow> world_ok w \<Longrightarrow> world_ok w'"
  by (induction rule: world_run.induct) (auto dest: world_step_ok)

text \<open>While a policy is alive, strings stay where they are and stay interned.\<close>

lemma held_step_keeps:
  assumes "ctx_step c call c'" "ctx_ok c" "cx_refcount c \<noteq> 1"
  shows "(holds_string (cx_chunks c) p s \<longrightarrow> holds_string (cx_chunks c') p s) \<and> (interned c s p \<longrightarrow> interned c' s p)"
  using assms(1)
proof (cases rule: ctx_step.cases)
  case retain
  then show ?thesis by (simp add: st_policy_ctx_retain_def interned_def)
next
  case release
  then show ?thesis by (auto simp: st_policy_ctx_release_def interned_def split: if_splits)
next
  case (intern serves t r)
  then show ?thesis using ctx_intern_step [OF intern(2) assms(2)] by (auto simp: intern_post_def split: if_splits)
next
  case (reset serves e)
  then show ?thesis using ctx_reset_cases [OF reset(2) assms(2)] assms(3) by simp
qed

definition carries :: "st_policy_ctx \<Rightarrow> st_policy_ctx \<Rightarrow> bool" where
  "carries c c' \<longleftrightarrow> (\<forall>p s. (holds_string (cx_chunks c) p s \<longrightarrow> holds_string (cx_chunks c') p s) \<and>
     (interned c s p \<longrightarrow> interned c' s p))"

lemma carries_storage: "cx_pool c' = cx_pool c \<Longrightarrow> cx_chunks c' = cx_chunks c \<Longrightarrow> carries c c'"
  by (simp add: carries_def interned_def)

lemma carries_trans: "carries c c' \<Longrightarrow> carries c' c'' \<Longrightarrow> carries c c''"
  by (simp add: carries_def)

lemma world_step_carries:
  assumes "world_step w a w'" "world_ok w" "k < length w" "w ! k = Some c" "cx_refcount c \<noteq> 1"
  shows "\<exists>c'. moved w a k < length w' \<and> w' ! moved w a k = Some c' \<and> carries c c'"
  using assms(1)
proof (cases rule: world_step.cases)
  case (create serves n d)
  then show ?thesis using assms(3,4) by (auto simp: nth_append carries_storage)
next
  case (call i d b d')
  show ?thesis
  proof (cases "i = k")
    case True
    then have "carries c d'" using held_step_keeps [OF call(5)] world_okD [OF assms(2,3,4)] call(4) assms(4,5)
      by (simp add: carries_def)
    then show ?thesis using call True assms(3) by simp
  qed (use call assms in \<open>simp add: carries_storage\<close>)
next
  case (destroy i d)
  then have "i \<noteq> k" using assms(4,5) by (auto simp: st_policy_ctx_release_def split: if_splits)
  then show ?thesis using destroy assms(3,4) by (simp add: carries_storage)
next
  case (swap i j c0 d0 e c' d')
  then show ?thesis using assms(3,4) ctx_swap_cases [OF swap(8)]
    by (cases "k = i"; cases "k = j") (auto simp: carries_storage split: if_splits)
qed

lemma held_run_carries:
  "held_run k w calls k' w' \<Longrightarrow> world_ok w \<Longrightarrow> k < length w \<Longrightarrow> w ! k = Some c \<Longrightarrow>
     \<exists>c'. k' < length w' \<and> w' ! k' = Some c' \<and> ctx_ok c' \<and> carries c c'"
proof (induction arbitrary: c rule: held_run.induct)
  case (held_nil k w)
  then show ?case using world_okD by (auto simp: carries_storage)
next
  case (held_step w k d a w' as k' w'')
  have "cx_refcount c \<noteq> 1" using held_step.hyps(1,2) held_step.prems(3) by simp
  then obtain c1 where c1: "moved w a k < length w'" "w' ! moved w a k = Some c1" "carries c c1"
    using world_step_carries [OF held_step.hyps(3) held_step.prems] by blast
  obtain c2 where "k' < length w''" "w'' ! k' = Some c2" "ctx_ok c2" "carries c1 c2"
    using held_step.IH [OF world_step_ok [OF held_step.hyps(3) held_step.prems(1)] c1(1,2)] by blast
  then show ?case using carries_trans [OF c1(3)] by blast
qed

text \<open>C28: A pointer that a context hands out leads to the string and its terminator as long as a policy
  holds the context that has the string, whatever is interned, retained, released, reset, destroyed or
  created meanwhile in any context, whichever requests the system refuses, and also when the storage is
  exchanged with that of another context, where the pointer then belongs. Interning always returns, and
  the same string gives the same pointer again exactly when it is empty or its hash is not the mark of
  a vacant position; then nothing is stored.\<close>

theorem interned_strings_stay:
  assumes "world_run [] before w" "i < length w" "w ! i = Some c"
    and "st_policy_ctx_intern_view answers c s = Some (Some p, c1)" "held_run i (w[i := Some c1]) calls k w2"
  shows "\<exists>c2. k < length w2 \<and> w2 ! k = Some c2 \<and>
    ptr_cells (cx_chunks c2) p (length s + 1) = map Some (s @ [NUL]) \<and>
    (\<exists>q c3. st_policy_ctx_intern_view answers' c2 s = Some (q, c3) \<and>
      (if s = [] \<or> str_pool_hash s \<noteq> HASH_EMPTY then q = Some p \<and> c3 = c2 else q \<noteq> Some p))"
proof -
  have w: "world_ok w" using world_run_ok [OF assms(1)] by (simp add: world_ok_def)
  then have ok: "ctx_ok c" using world_okD assms(2,3) by blast
  have step: "world_step w (On i (Ctx_intern answers s)) (w[i := Some c1])"
    using assms(2,3) intern [OF assms(4)] by (rule call)
  obtain c2 where c2: "k < length w2" "w2 ! k = Some c2" "ctx_ok c2" "carries c1 c2"
    using held_run_carries [OF assms(5) world_step_ok [OF step w]] assms(2) by auto
  show ?thesis
  proof (cases "s = []")
    case True
    then have "p = Empty_literal" using ctx_intern_step [OF assms(4) ok] by simp
    then show ?thesis using True c2 by (simp add: st_policy_ctx_intern_view_def)
  next
    case False
    then have post: "intern_post c s (Some p) c1" using ctx_intern_step [OF assms(4) ok] by simp
    then have here: "holds_string (cx_chunks c2) p s"
      and known: "str_pool_hash s \<noteq> HASH_EMPTY \<Longrightarrow> interned c2 s p"
      using c2(4) by (auto simp: intern_post_def carries_def)
    obtain q c3 where again: "st_policy_ctx_intern_view answers' c2 s = Some (q, c3)" "intern_post c2 s q c3"
      using intern_effect [OF c2(3) False, of answers'] by blast
    have "q = Some p \<and> c3 = c2" if "str_pool_hash s \<noteq> HASH_EMPTY"
      using known [OF that] again(2) interned_unique [of c2 s] c2(3)
      by (cases q) (auto simp: intern_post_def)
    moreover have "q \<noteq> Some p" if "str_pool_hash s = HASH_EMPTY"
    proof
      assume q: "q = Some p"
      have "\<not> interned c2 s p" using interned_hash [OF c2(3)] that by blast
      then have "\<not> holds_string (cx_chunks c2) p s" using again(2) q by (simp add: intern_post_def)
      then show False using here by simp
    qed
    ultimately show ?thesis using again(1) c2(1,2) holds_string_cells(1) [OF here] False by auto
  qed
qed

text \<open>A context with chunks of sixteen bytes, for the examples.\<close>

definition sample_ctx :: st_policy_ctx where
  "sample_ctx = \<lparr>cx_pool = empty_pool 1024,
     cx_chunks = [\<lparr>ck_used = 0, ck_capacity = 16, ck_data = fresh_cells 16\<rparr>], cx_chunk_size = 16,
     cx_refcount = 1\<rparr>"

lemma sample_ctx_new: "st_policy_ctx_new_with_arena (\<lambda>_. True) 16 = Some sample_ctx"
  by (simp add: st_policy_ctx_new_with_arena_def context_storage_init_def str_chunk_new_def str_pool_init_def
      SIZE_MAX_def STR_CHUNK_HEADER_def STR_POOL_INIT_CAP_def sample_ctx_def)

lemmas intern_run = st_policy_ctx_intern_view_def Let_def sample_ctx_def empty_pool_def pool_vacant_def
  HASH_EMPTY_def intern_at_def str_chunks_alloc_def probe.simps

text \<open>Two contexts held by one policy each exchange their storage; and a string with the hash zero is
  copied again.\<close>

theorem interned_strings_stay_witness:
  "(\<exists>c1 w2 c2. st_policy_ctx_intern_view (\<lambda>_. True) (st_policy_ctx_retain sample_ctx) ''ab'' = Some (Some (Chunk_ptr 0 0), c1) \<and>
      held_run 0 [Some c1, Some (st_policy_ctx_retain sample_ctx)] [Swap_storage 0 1] 1 w2 \<and> w2 ! 1 = Some c2 \<and>
      ptr_cells (cx_chunks c2) (Chunk_ptr 0 0) (length ''ab'' + 1) = map Some (''ab'' @ [NUL])) \<and>
   (\<exists>s c1 q c3. s \<noteq> [] \<and> st_policy_ctx_intern_view (\<lambda>_. True) sample_ctx s = Some (Some (Chunk_ptr 0 0), c1) \<and>
      st_policy_ctx_intern_view (\<lambda>_. True) c1 s = Some (q, c3) \<and> q \<noteq> Some (Chunk_ptr 0 0))"
proof (intro conjI)
  let ?c = "st_policy_ctx_retain sample_ctx"
  have one: "world_run [] [New_ctx (\<lambda>_. True) 16] [Some sample_ctx]"
    using run_step [OF create [OF sample_ctx_new, of "[]"] run_nil] by simp
  have two: "world_run [] [New_ctx (\<lambda>_. True) 16, New_ctx (\<lambda>_. True) 16, On 0 Ctx_retain, On 1 Ctx_retain] [Some ?c, Some ?c]"
  proof -
    have "world_step [Some sample_ctx, Some sample_ctx] (On 0 Ctx_retain) [Some ?c, Some sample_ctx]"
      using call [of 0 "[Some sample_ctx, Some sample_ctx]" sample_ctx, OF _ _ retain] by simp
    moreover have "world_step [Some ?c, Some sample_ctx] (On 1 Ctx_retain) [Some ?c, Some ?c]"
      using call [of 1 "[Some ?c, Some sample_ctx]" sample_ctx, OF _ _ retain] by simp
    moreover have "world_step [] (New_ctx (\<lambda>_. True) 16) [Some sample_ctx]"
      "world_step [Some sample_ctx] (New_ctx (\<lambda>_. True) 16) [Some sample_ctx, Some sample_ctx]"
      using create [OF sample_ctx_new, of "[]"] create [OF sample_ctx_new, of "[Some sample_ctx]"] by simp_all
    ultimately show ?thesis by (blast intro: world_run.intros)
  qed
  have hash: "str_pool_hash ''ab'' = 0x089c4407b545986a" by (simp add: str_pool_hash_def)
  obtain c1 where c1: "st_policy_ctx_intern_view (\<lambda>_. True) ?c ''ab'' = Some (Some (Chunk_ptr 0 0), c1)"
      "cx_refcount c1 = 2"
    by (simp add: intern_run hash st_policy_ctx_retain_def)
  let ?w = "[Some c1, Some ?c]"
  have "cx_refcount ?c = 2" by (simp add: st_policy_ctx_retain_def sample_ctx_def)
  then obtain c' d' where sw: "st_policy_ctx_swap_storage c1 ?c = (ST_OK, c', d')"
    using c1(2) by (simp add: st_policy_ctx_swap_storage_def)
  have st: "world_step ?w (Swap_storage 0 1) (?w[0 := Some c', 1 := Some d'])"
    by (rule swap [OF _ _ _ _ _ sw]) simp_all
  have held: "held_run 0 ?w [Swap_storage 0 1] 1 (?w[0 := Some c', 1 := Some d'])"
    using held_step [OF _ _ st, of 0 c1 "[]" 1] held_nil [of 1] c1(2) sw by simp
  show "\<exists>c1 w2 c2. st_policy_ctx_intern_view (\<lambda>_. True) ?c ''ab'' = Some (Some (Chunk_ptr 0 0), c1) \<and>
      held_run 0 [Some c1, Some ?c] [Swap_storage 0 1] 1 w2 \<and> w2 ! 1 = Some c2 \<and>
      ptr_cells (cx_chunks c2) (Chunk_ptr 0 0) (length ''ab'' + 1) = map Some (''ab'' @ [NUL])"
    using interned_strings_stay [OF two _ _ c1(1), of 0 "[Swap_storage 0 1]" 1] held c1(1) by fastforce
  let ?s = "map char_of [0xd5, 0x6b, 0xb9, 0x53, 0x42, 0x87, 0x08, 0x36::nat]"
  have zero: "str_pool_hash ?s = HASH_EMPTY" by (simp add: str_pool_hash_def HASH_EMPTY_def)
  have zero': "str_pool_hash ?s = 0" using zero by (simp only: HASH_EMPTY_def)
  obtain d1 where d1: "st_policy_ctx_intern_view (\<lambda>_. True) sample_ctx ?s = Some (Some (Chunk_ptr 0 0), d1)"
    by (simp add: intern_run zero' [simplified] str_chunk_new_def pool_put_def chunk_at_def)
  have "\<exists>q c3. st_policy_ctx_intern_view (\<lambda>_. True) d1 ?s = Some (q, c3) \<and> q \<noteq> Some (Chunk_ptr 0 0)"
    using interned_strings_stay [OF one _ _ d1, of 0 "[]" 0 "[Some d1]" "\<lambda>_. True"] held_nil zero by auto
  then show "\<exists>s c1 q c3. s \<noteq> [] \<and> st_policy_ctx_intern_view (\<lambda>_. True) sample_ctx s = Some (Some (Chunk_ptr 0 0), c1) \<and>
      st_policy_ctx_intern_view (\<lambda>_. True) c1 s = Some (q, c3) \<and> q \<noteq> Some (Chunk_ptr 0 0)"
    using d1 by blast
qed

end
