(* ===== verification/Files.thy ===== *)
theory Files imports Netstring begin

text \<open>
  What the persistence code of \<^verbatim>\<open>shelltype\<close> is built from: the checksum of
  \<^verbatim>\<open>crc32.c\<close>, the line reader of \<^verbatim>\<open>read_line.h\<close>, the C library's
  number parsing, and the atomic replacement of a file of \<^verbatim>\<open>io.h\<close> and
  \<^verbatim>\<open>shell_file_internal.h\<close> over a directory tree given as a map from path names.
  Every request to the operating system succeeds or fails as an argument says.
\<close>

unbundle bit_operations_syntax

section \<open>Checksum\<close>

definition crc_bit :: "32 word \<Rightarrow> 32 word" where
  "crc_bit crc = drop_bit 1 crc XOR (0xedb88320 AND (0 - (crc AND 1)))"

definition crc_byte :: "32 word \<Rightarrow> char \<Rightarrow> 32 word" where
  "crc_byte crc c = (crc_bit ^^ 8) (crc XOR of_nat (ord c))"

definition st_crc32_update :: "bytes \<Rightarrow> 32 word \<Rightarrow> 32 word" where
  "st_crc32_update data previous = foldl crc_byte (previous XOR 0xffffffff) data XOR 0xffffffff"

section \<open>Lines\<close>

datatype st_line_status = ST_LINE_OK | ST_LINE_EOF | ST_LINE_IO | ST_LINE_NUL | ST_LINE_TOO_LONG

text \<open>The loop, with the bytes read so far.\<close>

function read_line_loop :: "bytes \<Rightarrow> nat \<Rightarrow> c_stream \<Rightarrow> st_line_status \<times> bytes \<times> c_stream" where
  "read_line_loop line capacity f =
     (case fgetc f of
        (None, f') \<Rightarrow>
          (if st_ferror f' then (ST_LINE_IO, line, f')
           else if line = [] then (ST_LINE_EOF, line, f') else (ST_LINE_OK, line, f'))
      | (Some ch, f') \<Rightarrow>
          (if ch = NUL then (ST_LINE_NUL, line, f')
           else if length line + 1 \<ge> capacity then (ST_LINE_TOO_LONG, line, f')
           else if ch = CHR 0x0A then (ST_LINE_OK, line @ [ch], f')
           else read_line_loop (line @ [ch]) capacity f'))"
  by pat_completeness auto
termination
  by (relation "measure (\<lambda>(_, _, f). length (st_bytes f))") (auto simp: fgetc_def split: list.splits)

declare read_line_loop.simps [simp del]

definition st_read_line :: "c_stream \<Rightarrow> nat \<Rightarrow> st_line_status \<times> bytes \<times> c_stream" where
  "st_read_line f capacity = read_line_loop [] capacity f"

text \<open>A line without the line feeds and carriage returns at its end.\<close>

definition strip_line :: "bytes \<Rightarrow> bytes" where
  "strip_line line = rev (dropWhile (\<lambda>c. c = CHR 0x0A \<or> c = CHR 0x0D) (rev line))"

section \<open>Numbers\<close>

text \<open>\<^verbatim>\<open>strtoul\<close> and \<^verbatim>\<open>strtoull\<close>, both 64 bits wide, in the C
  locale: the value and the text behind the number, which is the whole text when there is none.\<close>

definition c_space :: "char \<Rightarrow> bool" where
  "c_space c \<longleftrightarrow> c = CHR '' '' \<or> (0x09 \<le> ord c \<and> ord c \<le> 0x0d)"

definition c_digit :: "nat \<Rightarrow> char \<Rightarrow> nat option" where
  "c_digit base c =
     (let v = (if CHR ''0'' \<le> c \<and> c \<le> CHR ''9'' then ord c - 48
               else if CHR ''a'' \<le> c \<and> c \<le> CHR ''z'' then ord c - 87
               else if CHR ''A'' \<le> c \<and> c \<le> CHR ''Z'' then ord c - 55 else base) in
      if v < base then Some v else None)"

fun c_digits :: "nat \<Rightarrow> nat \<Rightarrow> bytes \<Rightarrow> nat \<times> bytes" where
  "c_digits base v [] = (v, [])"
| "c_digits base v (c # s) =
     (case c_digit base c of None \<Rightarrow> (v, c # s) | Some d \<Rightarrow> c_digits base (v * base + d) s)"

definition c_hex_prefix :: "nat \<Rightarrow> bytes \<Rightarrow> bytes" where
  "c_hex_prefix base s =
     (if base = 16 \<and> length s \<ge> 3 \<and> s ! 0 = CHR ''0'' \<and> (s ! 1 = CHR ''x'' \<or> s ! 1 = CHR ''X'') \<and>
         c_digit 16 (s ! 2) \<noteq> None then drop 2 s else s)"

definition strtoul :: "nat \<Rightarrow> bytes \<Rightarrow> nat \<times> bytes" where
  "strtoul base text =
     (let s = dropWhile c_space text;
          negative = (s \<noteq> [] \<and> hd s = CHR ''-'');
          s = (if s \<noteq> [] \<and> (hd s = CHR ''-'' \<or> hd s = CHR ''+'') then tl s else s);
          s = c_hex_prefix base s in
      if s = [] \<or> c_digit base (hd s) = None then (0, text)
      else case c_digits base 0 s of
        (v, r) \<Rightarrow> (if v > SIZE_MAX then SIZE_MAX else if negative \<and> v \<noteq> 0 then SIZE_MAX + 1 - v else v, r))"

text \<open>Printing: eight hexadecimal digits.\<close>

definition hex_digit_char :: "nat \<Rightarrow> char" where
  "hex_digit_char d = ''0123456789abcdef'' ! d"

definition print_hex8 :: "32 word \<Rightarrow> bytes" where
  "print_hex8 w = map (\<lambda>i. hex_digit_char (unat (drop_bit (4 * i) w AND 15))) (rev [0..<8])"

section \<open>Files\<close>

datatype file_entry = Regular bytes nat | Symlink | Other_entry

type_synonym disk = "bytes \<rightharpoonup> file_entry"

datatype sys_call =
    Alloc_directory | Open_directory | Stat_entry | Open_temp nat | Open_stream | Write_stream nat
  | Flush_stream | Change_mode | Sync_file | Close_stream | Rename_file | Sync_directory
  | Close_directory | Remove_temp

text \<open>Which requests succeed, and the bytes the system's random device gives.\<close>

record sys =
  sys_ok :: "sys_call \<Rightarrow> bool"
  sys_random :: "bytes option"

definition PATH_MAX :: nat where "PATH_MAX = 4096"

text \<open>The directory prefix of a path, up to and with its last slash.\<close>

definition shell_file_path_prefix :: "bytes \<Rightarrow> nat option" where
  "shell_file_path_prefix path =
     (if length path \<ge> PATH_MAX then None
      else Some (length (dropWhile (\<lambda>c. c \<noteq> CHR ''/'') (rev path))))"

definition temp_alphabet :: bytes where
  "temp_alphabet = ''abcdefghijklmnopqrstuvwxyzABCDEFGHIJKLMNOPQRSTUVWXYZ0123456789_-''"

definition temp_name :: "bytes \<Rightarrow> nat \<Rightarrow> bytes" where
  "temp_name random attempt =
     ''.scl-'' @ map (\<lambda>i. temp_alphabet ! (ord (random ! (attempt * 6 + i)) mod 64)) [0..<6]"

text \<open>The candidates, one after the other: the name of the file created, and the disk with it.\<close>

function create_temp_from :: "sys \<Rightarrow> disk \<Rightarrow> bytes \<Rightarrow> bytes \<Rightarrow> bytes \<Rightarrow> nat \<Rightarrow> (bytes \<times> disk) option" where
  "create_temp_from sys disk directory destination random attempt =
     (if attempt \<ge> 32 then None
      else let name = temp_name random attempt in
        if name = destination \<or> disk (directory @ name) \<noteq> None
        then create_temp_from sys disk directory destination random (attempt + 1)
        else if sys_ok sys (Open_temp attempt) then Some (name, disk(directory @ name \<mapsto> Regular [] 384))
        else None)"
  by pat_completeness auto
termination
  by (relation "measure (\<lambda>(_, _, _, _, _, attempt). 32 - attempt)") auto

declare create_temp_from.simps [simp del]

definition shell_file_create_temp_at :: "sys \<Rightarrow> disk \<Rightarrow> bytes \<Rightarrow> bytes \<Rightarrow> (bytes \<times> disk) option" where
  "shell_file_create_temp_at sys disk directory destination =
     (case sys_random sys of
        None \<Rightarrow> None
      | Some random \<Rightarrow> create_temp_from sys disk directory destination random 0)"

text \<open>The bytes a stream has taken and the number of writes to it. What a failed write leaves is
  of no consequence, since the stream is then thrown away.\<close>

record out_stream =
  out_bytes :: bytes
  out_writes :: nat

record atomic_output =
  ao_stream :: out_stream
  ao_directory :: bytes
  ao_destination :: bytes
  ao_temporary :: bytes
  ao_mode :: "nat option"

datatype atomic_output_result = ST_ATOMIC_OUTPUT_OK | ST_ATOMIC_OUTPUT_MEMORY | ST_ATOMIC_OUTPUT_IO

definition put_stream :: "sys \<Rightarrow> bytes \<Rightarrow> out_stream \<Rightarrow> bool \<times> out_stream" where
  "put_stream sys s f =
     (if sys_ok sys (Write_stream (out_writes f))
      then (True, f\<lparr>out_bytes := out_bytes f @ s, out_writes := out_writes f + 1\<rparr>)
      else (False, f\<lparr>out_writes := out_writes f + 1\<rparr>))"

text \<open>Writes one after the other, up to the first that fails.\<close>

fun put_all :: "sys \<Rightarrow> bytes list \<Rightarrow> out_stream \<Rightarrow> bool \<times> out_stream" where
  "put_all sys [] f = (True, f)"
| "put_all sys (s # ss) f =
     (case put_stream sys s f of (ok, f') \<Rightarrow> if ok then put_all sys ss f' else (False, f'))"

text \<open>The entry at the destination: whether it may be replaced, and the mode to keep.\<close>

definition destination_mode :: "sys \<Rightarrow> disk \<Rightarrow> bytes \<Rightarrow> bytes \<Rightarrow> nat option option" where
  "destination_mode sys disk directory destination =
     (if directory \<noteq> [] \<and> destination = [] then None
      else if \<not> sys_ok sys Stat_entry then None
      else case disk (directory @ destination) of
        None \<Rightarrow> Some None
      | Some (Regular _ mode) \<Rightarrow> Some (Some (mode mod 4096))
      | Some Symlink \<Rightarrow> Some None
      | Some Other_entry \<Rightarrow> None)"

definition remove_temp :: "sys \<Rightarrow> disk \<Rightarrow> bytes \<Rightarrow> disk" where
  "remove_temp sys disk name = (if sys_ok sys Remove_temp then disk(name := None) else disk)"

definition st_atomic_output_begin ::
    "sys \<Rightarrow> disk \<Rightarrow> bytes \<Rightarrow> atomic_output_result \<times> atomic_output option \<times> disk" where
  "st_atomic_output_begin sys disk path =
     (case shell_file_path_prefix path of
        None \<Rightarrow> (ST_ATOMIC_OUTPUT_IO, None, disk)
      | Some prefix_length \<Rightarrow>
          (let directory = take prefix_length path; destination = drop prefix_length path in
           if \<not> sys_ok sys Alloc_directory then (ST_ATOMIC_OUTPUT_MEMORY, None, disk)
           else if \<not> sys_ok sys Open_directory then (ST_ATOMIC_OUTPUT_IO, None, disk)
           else case destination_mode sys disk directory destination of
             None \<Rightarrow> (ST_ATOMIC_OUTPUT_IO, None, disk)
           | Some mode \<Rightarrow>
               (case shell_file_create_temp_at sys disk directory destination of
                  None \<Rightarrow> (ST_ATOMIC_OUTPUT_IO, None, disk)
                | Some (name, disk') \<Rightarrow>
                    (if \<not> sys_ok sys Open_stream
                     then (ST_ATOMIC_OUTPUT_IO, None, remove_temp sys disk' (directory @ name))
                     else (ST_ATOMIC_OUTPUT_OK,
                       Some \<lparr>ao_stream = \<lparr>out_bytes = [], out_writes = 0\<rparr>, ao_directory = directory,
                         ao_destination = destination, ao_temporary = name, ao_mode = mode\<rparr>, disk')))))"

definition st_atomic_output_discard :: "sys \<Rightarrow> disk \<Rightarrow> atomic_output \<Rightarrow> disk" where
  "st_atomic_output_discard sys disk output = remove_temp sys disk (ao_directory output @ ao_temporary output)"

text \<open>Flushing, setting the mode, synchronizing, closing; then the replacement.\<close>

definition st_atomic_output_commit :: "sys \<Rightarrow> disk \<Rightarrow> atomic_output \<Rightarrow> bool \<times> disk" where
  "st_atomic_output_commit sys disk output =
     (let temp = ao_directory output @ ao_temporary output;
          destination = ao_directory output @ ao_destination output;
          flushed = sys_ok sys Flush_stream;
          contents = (if flushed then out_bytes (ao_stream output) else []);
          result = (flushed \<and> (ao_mode output = None \<or> sys_ok sys Change_mode) \<and> sys_ok sys Sync_file \<and>
            sys_ok sys Close_stream);
          mode = (case ao_mode output of None \<Rightarrow> 384 | Some m \<Rightarrow> m);
          disk = disk(temp \<mapsto> Regular contents mode) in
      if result then
        if ao_destination output = [] \<or> \<not> sys_ok sys Rename_file
        then (False, remove_temp sys disk temp)
        else (sys_ok sys Sync_directory \<and> sys_ok sys Close_directory,
          disk(destination := disk temp, temp := None))
      else (False, remove_temp sys disk temp))"

end
