(* ===== verification/Persistence.thy ===== *)
theory Persistence imports Policy_Updates Files begin

text \<open>
  Saving and loading of a policy in \<^verbatim>\<open>shelltype/src/policy.c\<close>: the depth-first walk
  that writes one framed record per pattern, the replacement of the destination, the reader that
  validates a whole file, and the staged replacement of the live policy by what it read.
  The recursion of the walk gets the number of states as fuel. Allocations succeed.
\<close>

section \<open>Saving\<close>

record policy_save =
  sv_stream :: out_stream
  sv_error :: st_error
  sv_crc :: "32 word"
  sv_count :: nat

definition save_entry :: "sys \<Rightarrow> pattern_entry \<Rightarrow> policy_save \<Rightarrow> policy_save" where
  "save_entry sys entry ctx =
     (let pat = (case pe_pattern entry of None \<Rightarrow> [] | Some s \<Rightarrow> s) in
      case shell_netstring_write_prefix (replicate 31 NUL) (length pat) of
        Inl _ \<Rightarrow> ctx\<lparr>sv_error := ST_ERR_IO\<rparr>
      | Inr (prefix, prefix_len) \<Rightarrow>
          (case put_all sys [take prefix_len prefix, pat, [CHR '','', CHR 0x0A]] (sv_stream ctx) of
             (ok, f) \<Rightarrow>
               (if \<not> ok then ctx\<lparr>sv_stream := f, sv_error := ST_ERR_IO\<rparr>
                else ctx\<lparr>sv_stream := f, sv_count := sv_count ctx + 1,
                  sv_crc := st_crc32_update [CHR '','', CHR 0x0A] (st_crc32_update pat
                    (st_crc32_update (take prefix_len prefix) (sv_crc ctx)))\<rparr>)))"

definition save_node :: "sys \<Rightarrow> 'f st_policy \<Rightarrow> nat \<Rightarrow> policy_save \<Rightarrow> policy_save" where
  "save_node sys p q ctx =
     (case ps_pattern_id (p_states p ! q) of
        None \<Rightarrow> ctx
      | Some pid \<Rightarrow> if pid < length (p_entries p) then save_entry sys (p_entries p ! pid) ctx else ctx)"

fun dfs_save :: "nat \<Rightarrow> sys \<Rightarrow> 'f st_policy \<Rightarrow> nat \<Rightarrow> policy_save \<Rightarrow> policy_save" where
  "dfs_save 0 sys p q ctx = ctx"
| "dfs_save (Suc fuel) sys p q ctx =
     (if sv_error ctx \<noteq> ST_OK then ctx
      else let ctx' = save_node sys p q ctx in
        if sv_error ctx' \<noteq> ST_OK then ctx'
        else foldl (\<lambda>ctx c. dfs_save fuel sys p (ce_target c) ctx) ctx'
          (ps_literals (p_states p ! q) @ ps_wildcards (p_states p ! q)))"

definition save_header :: bytes where "save_header = ''# shelltype-policy v3''"
definition count_prefix :: bytes where "count_prefix = ''# patterns:''"
definition crc_prefix :: bytes where "crc_prefix = ''# CRC32: ''"

definition st_policy_save :: "sys \<Rightarrow> disk \<Rightarrow> 'f st_policy \<Rightarrow> bytes \<Rightarrow> st_error \<times> disk" where
  "st_policy_save sys disk p file_path =
     (case st_atomic_output_begin sys disk file_path of
        (begun, None, disk) \<Rightarrow> (if begun = ST_ATOMIC_OUTPUT_MEMORY then ST_ERR_MEMORY else ST_ERR_IO, disk)
      | (_, Some output, disk) \<Rightarrow>
          (case put_all sys [save_header @ [CHR 0x0A],
                  count_prefix @ CHR '' '' # decimal (p_pattern_count p) @ [CHR 0x0A]] (ao_stream output) of
             (False, f) \<Rightarrow> (ST_ERR_IO, st_atomic_output_discard sys disk output)
           | (True, f) \<Rightarrow>
               (let ctx = dfs_save (length (p_states p)) sys p 0
                      \<lparr>sv_stream = f, sv_error = ST_OK, sv_crc = 0, sv_count = 0\<rparr>;
                    (closed, f) = (if sv_error ctx = ST_OK
                      then put_stream sys (crc_prefix @ print_hex8 (sv_crc ctx) @ [CHR 0x0A]) (sv_stream ctx)
                      else (False, sv_stream ctx));
                    error = (if sv_error ctx = ST_OK \<and> \<not> closed then ST_ERR_IO else sv_error ctx) in
                if error = ST_OK
                then (case st_atomic_output_commit sys disk (output\<lparr>ao_stream := f\<rparr>) of
                        (ok, disk) \<Rightarrow> (if ok then ST_OK else ST_ERR_IO, disk))
                else (error, st_atomic_output_discard sys disk output))))"

section \<open>Reading a file\<close>

definition line_error :: "st_line_status \<Rightarrow> st_error" where
  "line_error status = (if status = ST_LINE_IO then ST_ERR_IO else ST_ERR_FORMAT)"

text \<open>One record: the payload, the bytes the checksum covers, and what is left to read.\<close>

definition load_record :: "c_stream \<Rightarrow> (bytes \<times> bytes \<times> c_stream) result" where
  "load_record f =
     (case shell_netstring_read_stream f (ST_MAX_NETPATTERN_LEN + 32) of
        (Inl status, f) \<Rightarrow> Inl
          (if status = SHELL_NETSTRING_ENOMEM then ST_ERR_MEMORY
           else if status = SHELL_NETSTRING_EIO then ST_ERR_IO
           else if status = SHELL_NETSTRING_EOVERFLOW then ST_ERR_LIMIT else ST_ERR_FORMAT)
      | (Inr record, f) \<Rightarrow>
          (case ns_parse record of
             Inl _ \<Rightarrow> Inl ST_ERR_FORMAT
           | Inr (payload, rest) \<Rightarrow>
               (if rest \<noteq> [] \<or> payload = [] \<or> length payload \<ge> ST_MAX_NETPATTERN_LEN then Inl ST_ERR_FORMAT
                else case fgetc f of
                  (newline, f) \<Rightarrow>
                    (if newline \<noteq> Some (CHR 0x0A)
                     then Inl (if newline = None \<and> st_ferror f then ST_ERR_IO else ST_ERR_FORMAT)
                     else case st_netpattern_decode_view (np_view payload) of
                       Inl e \<Rightarrow> Inl (if e = ST_ERR_MEMORY then ST_ERR_MEMORY else ST_ERR_FORMAT)
                     | Inr _ \<Rightarrow> Inr (payload, record, f)))))"

fun load_records :: "nat \<Rightarrow> 32 word \<Rightarrow> c_stream \<Rightarrow> (bytes list \<times> 32 word \<times> c_stream) result" where
  "load_records 0 crc f = Inr ([], crc, f)"
| "load_records (Suc n) crc f =
     bind_result (load_record f) (\<lambda>(payload, record, f).
       bind_result (load_records n (st_crc32_update [CHR 0x0A] (st_crc32_update record crc)) f)
         (\<lambda>(payloads, crc, f). Inr (payload # payloads, crc, f)))"

definition load_line :: "c_stream \<Rightarrow> (bytes \<times> c_stream) result" where
  "load_line f =
     (case st_read_line f 4096 of (status, line, f) \<Rightarrow>
        if status \<noteq> ST_LINE_OK then Inl (line_error status) else Inr (strip_line line, f))"

definition load_footer :: "c_stream \<Rightarrow> (32 word \<times> c_stream) result" where
  "load_footer f =
     bind_result (load_line f) (\<lambda>(line, f).
       if take 9 line \<noteq> crc_prefix \<or> length line \<noteq> 17 then Inl ST_ERR_FORMAT
       else case strtoul 16 (drop 9 line) of
         (crc, end) \<Rightarrow>
           (if end \<noteq> [] \<or> crc > 4294967295 then Inl ST_ERR_FORMAT
            else case fgetc f of
              (trailing, f) \<Rightarrow>
                (if trailing \<noteq> None \<or> st_ferror f
                 then Inl (if trailing = None \<and> st_ferror f then ST_ERR_IO else ST_ERR_FORMAT)
                 else Inr (of_nat crc, f))))"

text \<open>The first pass over an opened file; \<open>fclosed\<close> is the result of \<^verbatim>\<open>fclose\<close>.\<close>

definition load_file :: "c_stream \<Rightarrow> bool \<Rightarrow> bytes list result" where
  "load_file f fclosed =
     bind_result (load_line f) (\<lambda>(line, f).
       if line \<noteq> save_header then Inl ST_ERR_FORMAT
       else bind_result (load_line f) (\<lambda>(line, f).
         if take 11 line \<noteq> count_prefix then Inl ST_ERR_FORMAT
         else case strtoul 10 (drop 11 line) of
           (declared, end) \<Rightarrow>
             (if end = drop 11 line \<or> end \<noteq> [] \<or> declared > ST_MAX_POLICY_PATTERNS then Inl ST_ERR_FORMAT
              else bind_result (load_records declared 0 f) (\<lambda>(payloads, computed, f).
                bind_result (load_footer f) (\<lambda>(expected, f).
                  if \<not> fclosed then Inl ST_ERR_IO
                  else if length payloads \<noteq> declared \<or> computed \<noteq> expected then Inl ST_ERR_FORMAT
                  else Inr payloads)))))"

section \<open>Loading\<close>

text \<open>The staged policy takes the place of the live one; \<^verbatim>\<open>pos_has_compound\<close> is not
  among the fields that are carried over.\<close>

definition install_staged :: "'f st_policy \<Rightarrow> 'f st_policy \<Rightarrow> 'f st_policy" where
  "install_staged p staged =
     p\<lparr>p_states := p_states staged, p_entries := p_entries staged, p_buckets := p_buckets staged,
       p_pattern_count := p_pattern_count staged, p_children_count := p_children_count staged,
       p_filters := p_filters staged, p_masks := p_masks staged, p_built := p_built staged,
       p_epoch := p_epoch p + 1\<rparr>"

definition st_policy_load ::
    "'f filter_ops \<Rightarrow> 'f st_policy \<Rightarrow> c_stream option \<Rightarrow> bool \<Rightarrow> bool \<Rightarrow> st_error \<times> 'f st_policy" where
  "st_policy_load F p opened fclosed clear_first =
     (case opened of
        None \<Rightarrow> (ST_ERR_IO, p)
      | Some f \<Rightarrow>
          (case load_file f fclosed of
             Inl e \<Rightarrow> (e, p)
           | Inr payloads \<Rightarrow>
               (case (if clear_first then (ST_OK, st_policy_new) else st_policy_merge F False st_policy_new p) of
                  (merged, staged) \<Rightarrow>
                    (if merged \<noteq> ST_OK then (ST_ERR_MEMORY, p)
                     else case add_views F staged (map np_view payloads) of
                       (e, staged) \<Rightarrow> (if e \<noteq> ST_OK then (e, p) else (ST_OK, install_staged p staged))))))"

end
