(* ===== verification/Files_Spec.thy ===== *)
theory Files_Spec imports Files begin

text \<open>
  Laws of the file primitives: the checksum of a concatenation and its response to a changed byte,
  numbers read back as printed, lines read back as written, and what the replacement of a file
  leaves behind under every combination of failing requests.
\<close>

unbundle bit_operations_syntax

section \<open>Checksum\<close>

lemma crc_append: "st_crc32_update b (st_crc32_update a crc) = st_crc32_update (a @ b) crc"
  by (simp add: st_crc32_update_def xor.assoc)

lemma crc_nil [simp]: "st_crc32_update [] crc = crc"
  by (simp add: st_crc32_update_def xor.assoc)

lemma crc_bit_alt: "crc_bit crc = drop_bit 1 crc XOR (if bit crc 0 then 0xedb88320 else 0)"
proof -
  have "crc AND 1 = (if bit crc 0 then 1 else 0)"
    by (rule bit_eqI) (auto simp: bit_simps intro: gr0I)
  then show ?thesis by (simp add: crc_bit_def)
qed

lemma xor_inject [simp]: "(a :: 32 word) XOR c = b XOR c \<longleftrightarrow> a = b"
proof
  assume "a XOR c = b XOR c"
  then have "(a XOR c) XOR c = (b XOR c) XOR c" by simp
  then show "a = b" by (simp add: xor.assoc)
qed simp

text \<open>The top bit of the result is the bit shifted out, so the step can be undone.\<close>

lemma crc_bit_inject: "crc_bit a = crc_bit b \<longleftrightarrow> a = b"
proof
  assume eq: "crc_bit a = crc_bit b"
  have top: "bit (crc_bit x) 31 = bit x 0" for x :: "32 word"
    by (auto simp: crc_bit_alt bit_simps dest: bit_imp_le_length)
  have low: "bit a 0 = bit b 0" using top [of a] top [of b] eq by simp
  then have "drop_bit 1 a = drop_bit 1 b" using eq by (cases "bit a 0") (simp_all add: crc_bit_alt)
  then have "bit a (Suc n) = bit b (Suc n)" for n by (metis bit_drop_bit_eq comp_apply plus_1_eq_Suc)
  then have "bit a n = bit b n" for n using low by (cases n) simp_all
  then show "a = b" by (simp add: bit_eq_iff)
qed simp

lemma funpow_inject:
  fixes f :: "'a \<Rightarrow> 'a"
  assumes "\<And>a b. f a = f b \<longleftrightarrow> a = b"
  shows "(f ^^ n) a = (f ^^ n) b \<longleftrightarrow> a = b"
  by (induction n) (simp_all add: assms)

lemma crc_byte_inject: "crc_byte a c = crc_byte b c \<longleftrightarrow> a = b"
  by (simp add: crc_byte_def funpow_inject [OF crc_bit_inject])

lemma ord_word_inject: "(of_nat (ord c) :: 32 word) = of_nat (ord d) \<longleftrightarrow> c = d"
proof -
  have "unat (of_nat (ord x) :: 32 word) = ord x" for x
    using order.strict_trans [OF nat_of_char_less_256 [of x], of 4294967296]
    by (simp add: unsigned_of_nat take_bit_nat_eq_self_iff)
  then show ?thesis by (metis of_char_eq_iff)
qed

lemma crc_byte_char_inject: "crc_byte a c = crc_byte a d \<longleftrightarrow> c = d"
  by (simp add: crc_byte_def funpow_inject [OF crc_bit_inject] xor.commute [of a] ord_word_inject)

lemma foldl_crc_inject: "foldl crc_byte a s = foldl crc_byte b s \<longleftrightarrow> a = b"
  by (induction s arbitrary: a b) (simp_all add: crc_byte_inject)

section \<open>Numbers\<close>

lemma c_digits_all:
  "list_all (\<lambda>c. c_digit base c \<noteq> None) s \<Longrightarrow>
   c_digits base v s = (foldl (\<lambda>v c. v * base + the (c_digit base c)) v s, [])"
  by (induction s arbitrary: v) auto

lemma digit_c_digit: "shell_ascii_digit c \<Longrightarrow> c_digit 10 c = Some (digit_value c)"
  by (simp add: c_digit_def digit_iff less_eq_char_def digit_value_def Let_def) arith

lemma hex_digit_char_digit: "d < 16 \<Longrightarrow> c_digit 16 (hex_digit_char d) = Some d"
proof -
  have "list_all (\<lambda>d. c_digit 16 (hex_digit_char d) = Some d) [0..<16]" by code_simp
  then show "d < 16 \<Longrightarrow> c_digit 16 (hex_digit_char d) = Some d" by (simp add: list_all_iff)
qed

lemma hex_digit_char_plain:
  "d < 16 \<Longrightarrow> \<not> c_space (hex_digit_char d) \<and> hex_digit_char d \<notin> set ''-+xX'' \<and> hex_digit_char d \<notin> set [NUL, CHR 0x0A, CHR 0x0D]"
proof -
  have "list_all (\<lambda>d. \<not> c_space (hex_digit_char d) \<and> hex_digit_char d \<notin> set ''-+xX'' \<and>
      hex_digit_char d \<notin> set [NUL, CHR 0x0A, CHR 0x0D]) [0..<16]" by code_simp
  then show "d < 16 \<Longrightarrow> ?thesis" by (simp add: list_all_iff)
qed

lemma digit_plain: "shell_ascii_digit c \<Longrightarrow> \<not> c_space c \<and> c \<notin> set ''-+xX'' \<and> c \<notin> set [NUL, CHR 0x0A, CHR 0x0D]"
  by (auto simp: digit_iff c_space_def)

text \<open>A number as printed in decimal, behind spaces.\<close>

lemma strtoul_decimal: "n \<le> SIZE_MAX \<Longrightarrow> strtoul 10 (CHR '' '' # decimal n) = (n, [])"
proof -
  assume n: "n \<le> SIZE_MAX"
  have all: "list_all shell_ascii_digit (decimal n)" using decimal_all_digits by (simp add: list_all_iff)
  obtain c s where c: "decimal n = c # s" by (cases "decimal n") auto
  then have "shell_ascii_digit c" using all by simp
  note P = digit_plain [OF this] digit_c_digit [OF this]
  have "list_all (\<lambda>c. c_digit 10 c \<noteq> None) (decimal n)"
    using all digit_c_digit by (auto simp: list_all_iff)
  moreover have "foldl (\<lambda>v c. v * 10 + the (c_digit 10 c)) 0 (decimal n) = decimal_value 0 (decimal n)"
    unfolding decimal_value_def using all digit_c_digit by (intro foldl_cong) (auto simp: list_all_iff)
  ultimately have "c_digits 10 0 (decimal n) = (n, [])" by (simp add: c_digits_all)
  moreover have "c_space (CHR '' '')" by (simp add: c_space_def)
  ultimately show ?thesis
    using P n by (simp add: strtoul_def c c_hex_prefix_def Let_def)
qed

text \<open>A number as printed in eight hexadecimal digits.\<close>

lemma hex_value:
  "foldl (\<lambda>v i. v * 16 + n div 16 ^ i mod 16) a (rev [0..<k]) = a * 16 ^ k + n mod 16 ^ k" for n :: nat
proof (induction k arbitrary: a)
  case (Suc k)
  have "n mod 16 ^ Suc k = 16 ^ k * (n div 16 ^ k mod 16) + n mod 16 ^ k"
    by (metis mod_mult2_eq mult.commute power_Suc)
  then show ?case using Suc by (simp add: algebra_simps)
qed simp

lemma nibble: "unat (drop_bit (4 * i) w AND (15 :: 32 word)) = unat w div 16 ^ i mod 16"
proof -
  have "(15 :: 32 word) = mask 4" by (simp add: mask_eq_exp_minus_1)
  then have "drop_bit (4 * i) w AND (15 :: 32 word) = take_bit 4 (drop_bit (4 * i) w)"
    by (simp add: take_bit_eq_mask)
  moreover have "take_bit 32 (unat w) = unat w"
    using unsigned_less [of w] by (simp add: take_bit_nat_eq_self_iff)
  ultimately have "unat (drop_bit (4 * i) w AND (15 :: 32 word)) = take_bit 4 (drop_bit (4 * i) (unat w))"
    by (simp only: unsigned_take_bit_eq unsigned_drop_bit_eq) simp
  then show ?thesis by (simp add: take_bit_eq_mod drop_bit_eq_div power_mult)
qed

lemma print_hex8_digits: "c \<in> set (print_hex8 w) \<Longrightarrow> \<exists>d<16. c = hex_digit_char d"
  by (force simp: print_hex8_def nibble)

lemma length_print_hex8 [simp]: "length (print_hex8 w) = 8"
  by (simp add: print_hex8_def)

lemma strtoul_hex8: "strtoul 16 (print_hex8 w) = (unat w, [])"
proof -
  let ?s = "print_hex8 w"
  have "list_all (\<lambda>c. c_digit 16 c \<noteq> None) ?s"
    using print_hex8_digits [of _ w] hex_digit_char_digit by (fastforce simp: list_all_iff)
  moreover have "foldl (\<lambda>v c. v * 16 + the (c_digit 16 c)) 0 ?s =
      foldl (\<lambda>v i. v * 16 + unat w div 16 ^ i mod 16) 0 (rev [0..<8])"
    unfolding print_hex8_def foldl_map by (intro foldl_cong) (simp_all add: nibble hex_digit_char_digit)
  moreover have "unat w < 16 ^ 8" using unsigned_less [of w] by simp
  ultimately have digits: "c_digits 16 0 ?s = (unat w, [])"
    using hex_value [of "unat w" 0 8] by (simp add: c_digits_all)
  obtain a b r where s: "?s = a # b # r" using length_print_hex8 [of w]
    by (metis (no_types) Suc_length_conv numeral_eq_Suc pred_numeral_simps(2) pred_numeral_simps(3))
  have "a \<in> set ?s" "b \<in> set ?s" by (simp_all add: s)
  then obtain d d' where "d < 16" "a = hex_digit_char d" "d' < 16" "b = hex_digit_char d'"
    using print_hex8_digits by metis
  note P = hex_digit_char_plain [OF this(1), folded this(2)] hex_digit_char_digit [OF this(1), folded this(2)]
    hex_digit_char_plain [OF this(3), folded this(4)]
  have "unat w < 2 ^ 32" using unsigned_less [of w] by simp
  then have "unat w \<le> SIZE_MAX" by (simp add: SIZE_MAX_def)
  then show ?thesis
    using P digits by (simp add: strtoul_def s c_hex_prefix_def Let_def)
qed

section \<open>Lines\<close>

lemma read_line_step:
  "st_bytes f = c # s \<Longrightarrow> read_line_loop line capacity f =
     (let f' = f\<lparr>st_bytes := s\<rparr> in
      if c = NUL then (ST_LINE_NUL, line, f')
      else if length line + 1 \<ge> capacity then (ST_LINE_TOO_LONG, line, f')
      else if c = CHR 0x0A then (ST_LINE_OK, line @ [c], f')
      else read_line_loop (line @ [c]) capacity f')"
  by (subst read_line_loop.simps) (simp add: fgetc_def Let_def)

lemma read_line_end:
  "st_bytes f = [] \<Longrightarrow> read_line_loop line capacity f =
     (if st_ferror f then (ST_LINE_IO, line, f)
      else if line = [] then (ST_LINE_EOF, line, f) else (ST_LINE_OK, line, f))"
  by (subst read_line_loop.simps) (simp add: fgetc_def)

definition line_text :: "bytes \<Rightarrow> bool" where
  "line_text s \<longleftrightarrow> set s \<inter> {NUL, CHR 0x0A, CHR 0x0D} = {}"

lemma read_line_text:
  "line_text s \<Longrightarrow> length line + length s + 1 < capacity \<Longrightarrow> st_bytes f = s @ CHR 0x0A # r \<Longrightarrow>
   read_line_loop line capacity f = (ST_LINE_OK, line @ s @ [CHR 0x0A], f\<lparr>st_bytes := r\<rparr>)"
proof (induction s arbitrary: line f)
  case Nil
  then show ?case by (simp add: read_line_step)
next
  case (Cons c s)
  then have c: "c \<noteq> NUL" "c \<noteq> CHR 0x0A" "line_text s" by (auto simp: line_text_def)
  have "read_line_loop line capacity f = read_line_loop (line @ [c]) capacity (f\<lparr>st_bytes := s @ CHR 0x0A # r\<rparr>)"
    using Cons.prems c by (simp add: read_line_step Let_def)
  then show ?case
    using Cons.IH [of "line @ [c]" "f\<lparr>st_bytes := s @ CHR 0x0A # r\<rparr>"] Cons.prems c by simp
qed

lemma strip_line_text: "line_text s \<Longrightarrow> strip_line (s @ [CHR 0x0A]) = s"
proof -
  assume "line_text s"
  then have "\<not> (c = CHR 0x0A \<or> c = CHR 0x0D)" if "c \<in> set (rev s)" for c using that by (auto simp: line_text_def)
  then have "dropWhile (\<lambda>c. c = CHR 0x0A \<or> c = CHR 0x0D) (rev s) = rev s"
    by (cases "rev s") auto
  then show ?thesis by (simp add: strip_line_def)
qed

lemma line_text_append [simp]: "line_text (s @ t) \<longleftrightarrow> line_text s \<and> line_text t"
  by (auto simp: line_text_def)

lemma line_text_Cons [simp]: "line_text (c # s) \<longleftrightarrow> c \<notin> {NUL, CHR 0x0A, CHR 0x0D} \<and> line_text s"
  by (auto simp: line_text_def)

lemma line_text_decimal [simp]: "line_text (decimal n)"
  using digit_plain [OF decimal_all_digits, of _ n] unfolding line_text_def by fastforce

lemma line_text_hex8 [simp]: "line_text (print_hex8 w)"
  using print_hex8_digits [of _ w] hex_digit_char_plain unfolding line_text_def by fastforce

section \<open>Writes\<close>

lemma put_all_ok: "put_all sys ss f = (True, f') \<Longrightarrow> out_bytes f' = out_bytes f @ concat ss"
  by (induction ss arbitrary: f) (auto simp: put_stream_def split: if_splits)

lemma decimal_digits_le: "n < 10 ^ k \<Longrightarrow> 0 < k \<Longrightarrow> decimal_digits n \<le> k"
proof (induction n arbitrary: k rule: decimal_digits.induct)
  case (1 n)
  show ?case
  proof (cases "n < 10")
    case False
    then obtain j where j: "k = Suc j" "0 < j" using "1.prems" by (cases k; cases "k - 1") auto
    then have "n div 10 < 10 ^ j" using "1.prems" by (simp add: less_mult_imp_div_less mult.commute)
    then show ?thesis using "1.IH" False j by (simp add: decimal_digits.simps [of n])
  qed (use "1.prems" in \<open>simp add: decimal_digits.simps [of n]\<close>)
qed

section \<open>Replacing a file\<close>

text \<open>Apart from the destination, every entry is as before, but for one name that was free.\<close>

definition confined :: "disk \<Rightarrow> bytes \<Rightarrow> disk \<Rightarrow> bool" where
  "confined disk destination disk' \<longleftrightarrow>
     (\<exists>temp. \<forall>name. name \<noteq> destination \<longrightarrow> name \<noteq> temp \<or> disk name \<noteq> None \<longrightarrow> disk' name = disk name)"

lemma confined_refl [simp]: "confined disk destination disk"
  by (simp add: confined_def)

lemma confined_remove: "disk temp = None \<Longrightarrow>
   confined disk destination (remove_temp sys (disk(temp \<mapsto> entry)) temp)"
  by (auto simp: confined_def remove_temp_def intro: exI [of _ temp])

definition kept_mode :: "disk \<Rightarrow> bytes \<Rightarrow> nat" where
  "kept_mode disk destination =
     (case disk destination of Some (Regular _ mode) \<Rightarrow> mode mod 4096 | _ \<Rightarrow> 384)"

lemma create_temp_Some:
  "create_temp_from sys disk directory destination random attempt = Some (name, disk') \<Longrightarrow>
   name \<noteq> destination \<and> disk (directory @ name) = None \<and> disk' = disk(directory @ name \<mapsto> Regular [] 384)"
proof (induction sys disk directory destination random attempt rule: create_temp_from.induct)
  case (1 sys disk directory destination random attempt)
  let ?name = "temp_name random attempt"
  show ?case
  proof (cases "attempt \<ge> 32 \<or> \<not> (?name = destination \<or> disk (directory @ ?name) \<noteq> None)")
    case True
    then show ?thesis using "1.prems" by (subst (asm) create_temp_from.simps) (auto simp: Let_def split: if_splits)
  next
    case False
    then have "create_temp_from sys disk directory destination random (attempt + 1) = Some (name, disk')"
      using "1.prems" by (subst (asm) create_temp_from.simps) (auto simp: Let_def)
    then show ?thesis using "1.IH" [OF _ refl] False by blast
  qed
qed

lemma output_begin_Some:
  assumes "st_atomic_output_begin sys disk file_path = (r, Some output, disk')"
  shows "r = ST_ATOMIC_OUTPUT_OK \<and> ao_directory output @ ao_destination output = file_path \<and>
    ao_temporary output \<noteq> ao_destination output \<and> disk (ao_directory output @ ao_temporary output) = None \<and>
    disk' = disk(ao_directory output @ ao_temporary output \<mapsto> Regular [] 384) \<and>
    (case ao_mode output of None \<Rightarrow> 384 | Some m \<Rightarrow> m) = kept_mode disk file_path \<and>
    out_bytes (ao_stream output) = []"
proof -
  obtain n mode name where n: "destination_mode sys disk (take n file_path) (drop n file_path) = Some mode"
    "shell_file_create_temp_at sys disk (take n file_path) (drop n file_path) = Some (name, disk')"
    "r = ST_ATOMIC_OUTPUT_OK"
    "output = \<lparr>ao_stream = \<lparr>out_bytes = [], out_writes = 0\<rparr>, ao_directory = take n file_path,
       ao_destination = drop n file_path, ao_temporary = name, ao_mode = mode\<rparr>"
    using assms by (auto simp: st_atomic_output_begin_def Let_def split: option.splits if_splits prod.splits)
  have "(case mode of None \<Rightarrow> 384 | Some m \<Rightarrow> m) = kept_mode disk file_path"
    using n(1) by (auto simp: destination_mode_def kept_mode_def split: if_splits option.splits file_entry.splits)
  then show ?thesis
    using n create_temp_Some by (fastforce simp: shell_file_create_temp_at_def split: option.splits)
qed

lemma output_begin_None:
  assumes "st_atomic_output_begin sys disk file_path = (r, None, disk')"
  shows "r \<noteq> ST_ATOMIC_OUTPUT_OK \<and> confined disk file_path disk' \<and> disk' file_path = disk file_path"
proof (cases "disk' = disk")
  case True
  then show ?thesis
    using assms by (auto simp: st_atomic_output_begin_def Let_def split: option.splits if_splits prod.splits)
next
  case False
  then obtain n name disk1 where n:
    "shell_file_create_temp_at sys disk (take n file_path) (drop n file_path) = Some (name, disk1)"
    "r = ST_ATOMIC_OUTPUT_IO" "disk' = remove_temp sys disk1 (take n file_path @ name)"
    using assms by (auto simp: st_atomic_output_begin_def Let_def split: option.splits if_splits prod.splits)
  then have temp: "name \<noteq> drop n file_path" "disk (take n file_path @ name) = None"
    "disk1 = disk(take n file_path @ name \<mapsto> Regular [] 384)"
    using create_temp_Some by (fastforce simp: shell_file_create_temp_at_def split: option.splits)+
  then have "take n file_path @ name \<noteq> file_path" by (metis append_take_drop_id same_append_eq)
  then show ?thesis using n(2,3) confined_remove [of disk "take n file_path @ name" file_path sys] temp(2,3) by (simp add: remove_temp_def)
qed

text \<open>Discarding, and the commit: only a complete file ever takes the destination's place.\<close>

lemma output_discard:
  assumes "st_atomic_output_begin sys disk file_path = (r, Some output, disk1)"
  shows "confined disk file_path (st_atomic_output_discard sys disk1 output) \<and>
    st_atomic_output_discard sys disk1 output file_path = disk file_path"
proof -
  note B = output_begin_Some [OF assms]
  then have "ao_directory output @ ao_temporary output \<noteq> file_path" by (metis same_append_eq)
  then show ?thesis
    using B confined_remove [of disk "ao_directory output @ ao_temporary output" file_path sys]
    by (auto simp: st_atomic_output_discard_def remove_temp_def)
qed

lemma output_commit:
  assumes "st_atomic_output_begin sys disk file_path = (r, Some output, disk1)"
    and "st_atomic_output_commit sys disk1 (output\<lparr>ao_stream := f\<rparr>) = (ok, disk')"
  shows "confined disk file_path disk' \<and>
    (disk' file_path = disk file_path \<and> \<not> ok \<or>
     disk' = disk(file_path \<mapsto> Regular (out_bytes f) (kept_mode disk file_path)))"
proof -
  note B = output_begin_Some [OF assms(1)]
  define temp where "temp = ao_directory output @ ao_temporary output"
  have path: "ao_directory output @ ao_destination output = file_path" using B by simp
  have temp: "temp \<noteq> file_path" "disk temp = None" "disk1 = disk(temp \<mapsto> Regular [] 384)"
    using B by (auto simp: temp_def)
  have mode: "(case ao_mode output of None \<Rightarrow> 384 | Some m \<Rightarrow> m) = kept_mode disk file_path" using B by simp
  consider (kept) contents where "\<not> ok" "disk' = remove_temp sys (disk(temp \<mapsto> contents)) temp"
    | (replaced) "disk' = (disk1(temp \<mapsto> Regular (out_bytes f) (kept_mode disk file_path)))
          (file_path \<mapsto> Regular (out_bytes f) (kept_mode disk file_path), temp := None)"
    using assms(2) temp(3)
    by (auto simp: st_atomic_output_commit_def Let_def path mode simp flip: temp_def split: if_splits)
  then show ?thesis
  proof cases
    case kept
    then show ?thesis using temp confined_remove [of disk temp file_path sys contents] by (auto simp: remove_temp_def)
  next
    case replaced
    then have "disk' = disk(file_path \<mapsto> Regular (out_bytes f) (kept_mode disk file_path))"
      using temp by (auto simp: fun_eq_iff)
    moreover from this have "confined disk file_path disk'" by (simp add: confined_def)
    ultimately show ?thesis by blast
  qed
qed

section \<open>When nothing fails\<close>

lemma put_all_succeeds: "(\<And>c. sys_ok sys c) \<Longrightarrow> fst (put_all sys ss f)"
  by (induction ss arbitrary: f) (simp_all add: put_stream_def)

lemma output_begin_succeeds:
  assumes sys: "\<And>c. sys_ok sys c" and random: "sys_random sys = Some random"
    and path: "directory @ destination = file_path" "length file_path < PATH_MAX" "CHR ''/'' \<notin> set destination"
      "directory = [] \<or> last directory = CHR ''/''" "destination \<noteq> []"
    and free: "temp_name random 0 \<noteq> destination" "disk (directory @ temp_name random 0) = None"
    and entry: "disk file_path \<noteq> Some Other_entry"
  obtains out disk1 where "st_atomic_output_begin sys disk file_path = (ST_ATOMIC_OUTPUT_OK, Some out, disk1)"
    "ao_destination out = destination"
proof -
  have "shell_file_path_prefix file_path = Some (length directory)"
  proof -
    have "dropWhile (\<lambda>c. c \<noteq> CHR ''/'') (rev destination @ rev directory) = dropWhile (\<lambda>c. c \<noteq> CHR ''/'') (rev directory)"
      using path(3) by (intro dropWhile_append2) auto
    also have "\<dots> = rev directory" using path(4) by (cases directory rule: rev_cases) auto
    finally show ?thesis using path(1,2) by (auto simp: shell_file_path_prefix_def)
  qed
  moreover have "take (length directory) file_path = directory" "drop (length directory) file_path = destination"
    using path(1) by auto
  moreover have "destination_mode sys disk directory destination \<noteq> None"
    using sys path entry by (auto simp: destination_mode_def split: option.splits file_entry.splits)
  then obtain mode where "destination_mode sys disk directory destination = Some mode" by blast
  moreover have "shell_file_create_temp_at sys disk directory destination =
      Some (temp_name random 0, disk(directory @ temp_name random 0 \<mapsto> Regular [] 384))"
    using random free sys by (simp add: shell_file_create_temp_at_def create_temp_from.simps [of sys disk directory destination random 0] Let_def)
  ultimately show thesis
    using that sys by (simp add: st_atomic_output_begin_def Let_def)
qed

lemma output_commit_succeeds:
  assumes "\<And>c. sys_ok sys c" "ao_destination out \<noteq> []"
  shows "\<exists>disk'. st_atomic_output_commit sys disk (out\<lparr>ao_stream := f\<rparr>) = (True, disk')"
  using assms by (simp add: st_atomic_output_commit_def Let_def)

text \<open>A system that serves every request.\<close>

definition good_sys :: sys where
  "good_sys = \<lparr>sys_ok = (\<lambda>_. True), sys_random = Some (replicate 192 NUL)\<rparr>"

lemma good_name: "temp_name (replicate 192 NUL) 0 = ''.scl-aaaaaa''"
  by (simp add: temp_name_def temp_alphabet_def upt_rec)

end
