(* ===== verification/Persistence_Spec.thy ===== *)
theory Persistence_Spec imports Persistence Files_Spec Decisions begin

text \<open>
  What saving writes and what loading makes of it. A saved file holds the canonical spelling of
  every pattern once, under a matching checksum; saving replaces the destination completely or
  not at all; loading a saved file gives back the patterns, and a file that fails any check
  leaves the live policy as it was.
\<close>

section \<open>The walk over the trie\<close>

fun trie_nodes :: "nat \<Rightarrow> policy_state list \<Rightarrow> nat \<Rightarrow> nat list" where
  "trie_nodes 0 st q = []"
| "trie_nodes (Suc fuel) st q =
     q # concat (map (\<lambda>c. trie_nodes fuel st (ce_target c)) (node_children (st ! q)))"

definition save_step :: "sys \<Rightarrow> 'f st_policy \<Rightarrow> policy_save \<Rightarrow> nat \<Rightarrow> policy_save" where
  "save_step sys p ctx q = (if sv_error ctx \<noteq> ST_OK then ctx else save_node sys p q ctx)"

lemma save_step_simps [simp]:
  "sv_error ctx = ST_OK \<Longrightarrow> save_step sys p ctx q = save_node sys p q ctx"
  "sv_error ctx \<noteq> ST_OK \<Longrightarrow> save_step sys p ctx q = ctx"
  by (simp_all add: save_step_def)

lemma save_steps_stop: "sv_error ctx \<noteq> ST_OK \<Longrightarrow> foldl (save_step sys p) ctx qs = ctx"
  by (induction qs) simp_all

lemma foldl_concat: "foldl f a (concat xss) = foldl (\<lambda>a xs. foldl f a xs) a xss"
  by (induction xss arbitrary: a) simp_all

lemma dfs_save_steps: "dfs_save fuel sys p q ctx = foldl (save_step sys p) ctx (trie_nodes fuel (p_states p) q)"
proof (induction fuel arbitrary: q ctx)
  case (Suc fuel)
  have kids: "foldl (\<lambda>ctx c. dfs_save fuel sys p (ce_target c) ctx) ctx cs =
      foldl (save_step sys p) ctx (concat (map (\<lambda>c. trie_nodes fuel (p_states p) (ce_target c)) cs))" for ctx cs
    by (simp add: Suc foldl_concat foldl_map)
  show ?case
    by (cases "sv_error ctx = ST_OK"; cases "sv_error (save_node sys p q ctx) = ST_OK")
       (simp_all add: kids save_steps_stop node_children_def Let_def del: foldl_append)
qed simp

text \<open>In a trie the walk meets every node that a path from its start leads to, and none twice.\<close>

lemma trie_nodes_path:
  assumes inv: "trie_inv st"
  shows "q < length st \<Longrightarrow> r \<in> set (trie_nodes fuel st q) \<Longrightarrow> \<exists>ls. path edge st q ls = Some r"
proof (induction fuel arbitrary: q)
  case (Suc fuel)
  then consider "r = q" | c where "c \<in> set (node_children (st ! q))" "r \<in> set (trie_nodes fuel st (ce_target c))"
    by auto
  then show ?case
  proof cases
    case 1
    then show ?thesis by (intro exI [of _ "[]"]) simp
  next
    case 2
    then have e: "edge (st ! q) (child_token c) = Some (ce_target c)"
      using edge_Some_iff [OF trie_node [OF inv Suc.prems(1)]] by blast
    then obtain ls where "path edge st (ce_target c) ls = Some r"
      using Suc.IH [OF _ 2(2)] tree_edge [OF trie_tree [OF inv] Suc.prems(1) e] by blast
    then show ?thesis using e by (intro exI [of _ "child_token c # ls"]) simp
  qed
qed simp

lemma trie_nodes_complete:
  assumes inv: "trie_inv st"
  shows "q < length st \<Longrightarrow> path edge st q ls = Some r \<Longrightarrow> length ls < fuel \<Longrightarrow> r \<in> set (trie_nodes fuel st q)"
proof (induction fuel arbitrary: q ls)
  case (Suc fuel)
  show ?case
  proof (cases ls)
    case (Cons k ks)
    then obtain m where m: "edge (st ! q) k = Some m" "path edge st m ks = Some r"
      using Suc.prems(2) by (auto split: option.splits)
    then obtain c where c: "c \<in> set (node_children (st ! q))" "ce_target c = m"
      using edge_Some_iff [OF trie_node [OF inv Suc.prems(1)]] by blast
    have "r \<in> set (trie_nodes fuel st m)"
      using Suc.IH [OF _ m(2)] Suc.prems(3) Cons tree_edge [OF trie_tree [OF inv] Suc.prems(1) m(1)] by simp
    then show ?thesis using c by auto
  qed (use Suc.prems in simp)
qed simp

lemma trie_nodes_distinct:
  assumes inv: "trie_inv st"
  shows "path edge st 0 pre = Some q \<Longrightarrow> distinct (trie_nodes fuel st q)"
proof (induction fuel arbitrary: q pre)
  case (Suc fuel)
  have q: "q < length st" using trie_path_bound [OF inv trie_root [OF inv] Suc.prems] .
  note node = trie_node [OF inv q]
  let ?kids = "node_children (st ! q)"
  have child: "edge (st ! q) (child_token c) = Some (ce_target c)" "ce_target c < length st"
      "path edge st 0 (pre @ [child_token c]) = Some (ce_target c)" if c: "c \<in> set ?kids" for c
  proof -
    show e: "edge (st ! q) (child_token c) = Some (ce_target c)" using c edge_Some_iff [OF node] by blast
    then show "ce_target c < length st" using tree_edge [OF trie_tree [OF inv] q] by blast
    show "path edge st 0 (pre @ [child_token c]) = Some (ce_target c)" using e Suc.prems by (simp add: path_snoc)
  qed
  have reach: "\<exists>ls. path edge st 0 (pre @ child_token c # ls) = Some r"
    if "c \<in> set ?kids" "r \<in> set (trie_nodes fuel st (ce_target c))" for c r
    using trie_nodes_path [OF inv child(2) [OF that(1)] that(2)] child(1) [OF that(1)] Suc.prems
    by (auto simp: path_append)
  have toks: "distinct (map child_token ?kids)" using node by (simp add: node_inv_def)
  have "distinct (concat (map (\<lambda>c. trie_nodes fuel st (ce_target c)) cs))"
    if "set cs \<subseteq> set ?kids" "distinct (map child_token cs)" for cs
    using that
  proof (induction cs)
    case (Cons c cs)
    have "set (trie_nodes fuel st (ce_target c)) \<inter> set (trie_nodes fuel st (ce_target d)) = {}" if d: "d \<in> set cs" for d
    proof (rule ccontr)
      assume "\<not> ?thesis"
      then obtain r where r: "r \<in> set (trie_nodes fuel st (ce_target c))" "r \<in> set (trie_nodes fuel st (ce_target d))"
        by blast
      have "c \<in> set ?kids" "d \<in> set ?kids" using Cons.prems(1) d by auto
      with reach r obtain ls ms where "path edge st 0 (pre @ child_token c # ls) = Some r"
        "path edge st 0 (pre @ child_token d # ms) = Some r" by blast
      then have "pre @ child_token c # ls = pre @ child_token d # ms" by (rule path_unique [OF trie_tree [OF inv]])
      then show False using Cons.prems(2) d by auto
    qed
    moreover have "distinct (trie_nodes fuel st (ce_target c))"
      using Suc.IH [OF child(3)] Cons.prems(1) by simp
    ultimately show ?case using Cons by auto
  qed simp
  then have "distinct (concat (map (\<lambda>c. trie_nodes fuel st (ce_target c)) ?kids))" using toks by blast
  moreover have "q \<notin> set (trie_nodes fuel st (ce_target c))" if c: "c \<in> set ?kids" for c
  proof
    assume "q \<in> set (trie_nodes fuel st (ce_target c))"
    with reach [OF c] obtain ls where "path edge st 0 (pre @ child_token c # ls) = Some q" by blast
    then show False using path_unique [OF trie_tree [OF inv] _ Suc.prems, of "pre @ child_token c # ls"] by simp
  qed
  ultimately show ?case by auto
qed simp

section \<open>The saved records\<close>

definition node_tokens :: "'f st_policy \<Rightarrow> nat \<Rightarrow> st_token list option" where
  "node_tokens p q = Option.bind (ps_pattern_id (p_states p ! q)) (policy_ids p)"

definition saved_tokens :: "'f st_policy \<Rightarrow> st_token list list" where
  "saved_tokens p = List.map_filter (node_tokens p) (trie_nodes (length (p_states p)) (p_states p) 0)"

lemma node_tokens_path:
  assumes "core_inv F p" "q < length (p_states p)"
  shows "node_tokens p q = Some ts \<longleftrightarrow> ts \<in> policy_patterns p \<and> path edge (p_states p) 0 ts = Some q"
proof
  note inv = core_invD [OF assms(1)]
  assume "node_tokens p q = Some ts"
  then obtain pid where pid: "ps_pattern_id (p_states p ! q) = Some pid" "policy_ids p pid = Some ts"
    by (auto simp: node_tokens_def bind_eq_Some_conv)
  then obtain us where "policy_ids p pid = Some us" "path edge (p_states p) 0 us = Some q"
    using names_iff [OF inv(2) assms(2)] by blast
  then show "ts \<in> policy_patterns p \<and> path edge (p_states p) 0 ts = Some q"
    using pid by (auto simp: policy_patterns_def)
next
  note inv = core_invD [OF assms(1)]
  assume R: "ts \<in> policy_patterns p \<and> path edge (p_states p) 0 ts = Some q"
  then obtain pid where pid: "policy_ids p pid = Some ts" by (auto simp: policy_patterns_def)
  then show "node_tokens p q = Some ts"
    using names_final [OF inv(1,2) pid] R by (simp add: node_tokens_def)
qed

lemma saved_tokens_set:
  assumes "core_inv F p"
  shows "set (saved_tokens p) = policy_patterns p"
proof (intro set_eqI iffI)
  note inv = core_invD [OF assms]
  let ?nodes = "trie_nodes (length (p_states p)) (p_states p) 0"
  fix ts
  {
    assume "ts \<in> set (saved_tokens p)"
    then obtain q where q: "q \<in> set ?nodes" "node_tokens p q = Some ts"
      by (auto simp: saved_tokens_def List.map_filter_def)
    then have "q < length (p_states p)"
      using trie_nodes_path [OF inv(1) trie_root [OF inv(1)]] trie_path_bound [OF inv(1) trie_root [OF inv(1)]] by blast
    then show "ts \<in> policy_patterns p" using node_tokens_path [OF assms] q(2) by blast
  }
  assume ts: "ts \<in> policy_patterns p"
  then obtain q where q: "path edge (p_states p) 0 ts = Some q"
    using names_path [OF inv(2)] by (auto simp: policy_patterns_def)
  have "q \<in> set ?nodes"
    using trie_nodes_complete [OF inv(1) trie_root [OF inv(1)] q reach_bound [OF inv(1) q]] .
  moreover have "node_tokens p q = Some ts"
    using node_tokens_path [OF assms trie_path_bound [OF inv(1) trie_root [OF inv(1)] q]] ts q by blast
  ultimately show "ts \<in> set (saved_tokens p)"
    by (force simp: saved_tokens_def List.map_filter_def)
qed

lemma saved_tokens_distinct:
  assumes "core_inv F p"
  shows "distinct (saved_tokens p)"
proof -
  note inv = core_invD [OF assms]
  let ?nodes = "trie_nodes (length (p_states p)) (p_states p) 0"
  have bound: "q < length (p_states p)" if "q \<in> set ?nodes" for q
    using trie_nodes_path [OF inv(1) trie_root [OF inv(1)] that] trie_path_bound [OF inv(1) trie_root [OF inv(1)]] by blast
  have "inj_on (the \<circ> node_tokens p) (set (filter (\<lambda>q. node_tokens p q \<noteq> None) ?nodes))"
  proof (rule inj_onI)
    fix q r
    assume "q \<in> set (filter (\<lambda>q. node_tokens p q \<noteq> None) ?nodes)" "r \<in> set (filter (\<lambda>q. node_tokens p q \<noteq> None) ?nodes)"
      "(the \<circ> node_tokens p) q = (the \<circ> node_tokens p) r"
    then obtain ts where "node_tokens p q = Some ts" "node_tokens p r = Some ts" "q \<in> set ?nodes" "r \<in> set ?nodes" by auto
    then have "path edge (p_states p) 0 ts = Some q" "path edge (p_states p) 0 ts = Some r"
      using node_tokens_path [OF assms] bound by blast+
    then show "q = r" by simp
  qed
  moreover have "distinct ?nodes" using trie_nodes_distinct [OF inv(1), of "[]" 0] by simp
  ultimately show ?thesis by (simp add: saved_tokens_def List.map_filter_def distinct_map)
qed

lemma saved_tokens_count: "core_inv F p \<Longrightarrow> length (saved_tokens p) = p_pattern_count p"
  using distinct_card [OF saved_tokens_distinct] distinct_card [OF active_tokens_facts(2)]
    saved_tokens_set active_tokens_facts(1,5) by metis

section \<open>What a save writes\<close>

definition frame :: "st_token list \<Rightarrow> bytes" where
  "frame ts = netstring (pattern_code ts) @ [CHR 0x0A]"

definition saved_records :: "st_token list list \<Rightarrow> bytes" where
  "saved_records tss = concat (map frame tss)"

text \<open>The file of a list of patterns.\<close>

definition policy_file :: "st_token list list \<Rightarrow> bytes" where
  "policy_file tss =
     save_header @ CHR 0x0A # count_prefix @ CHR '' '' # decimal (length tss) @ CHR 0x0A # saved_records tss @
     crc_prefix @ print_hex8 (st_crc32_update (saved_records tss) 0) @ [CHR 0x0A]"

lemma save_entry_effect:
  assumes "pe_pattern entry = Some s" "length s < ST_MAX_NETPATTERN_LEN" "sv_error ctx = ST_OK"
  shows "sv_error (save_entry sys entry ctx) = ST_ERR_IO \<or>
    sv_error (save_entry sys entry ctx) = ST_OK \<and>
    out_bytes (sv_stream (save_entry sys entry ctx)) = out_bytes (sv_stream ctx) @ netstring s @ [CHR 0x0A] \<and>
    sv_crc (save_entry sys entry ctx) = st_crc32_update (netstring s @ [CHR 0x0A]) (sv_crc ctx)"
proof -
  have d: "decimal_digits (length s) \<le> 20"
    using assms(2) by (intro decimal_digits_le) (simp_all add: ST_MAX_NETPATTERN_LEN_def)
  then have "shell_netstring_write_prefix (replicate 31 NUL) (length s) =
      Inr (decimal (length s) @ CHR '':'' # replicate (30 - decimal_digits (length s)) NUL, decimal_digits (length s) + 1)"
    by (simp add: write_prefix_eq)
  moreover obtain ok f where
    f: "put_all sys [decimal (length s) @ [CHR '':''], s, [CHR '','', CHR 0x0A]] (sv_stream ctx) = (ok, f)" by fastforce
  moreover have "netstring s @ [CHR 0x0A] = (decimal (length s) @ [CHR '':'']) @ s @ [CHR '','', CHR 0x0A]"
    by (simp add: netstring_def)
  ultimately show ?thesis
    using assms(1,3) put_all_ok [of sys _ "sv_stream ctx" f]
    by (cases ok) (simp_all add: save_entry_def Let_def length_decimal [symmetric] crc_append del: put_all.simps)
qed

lemma save_node_effect:
  assumes core: "core_inv F p" and q: "q < length (p_states p)" and ok: "sv_error ctx = ST_OK"
  shows "sv_error (save_node sys p q ctx) = ST_ERR_IO \<or>
    (let recs = (case node_tokens p q of None \<Rightarrow> [] | Some ts \<Rightarrow> frame ts); ctx' = save_node sys p q ctx in
     sv_error ctx' = ST_OK \<and> out_bytes (sv_stream ctx') = out_bytes (sv_stream ctx) @ recs \<and>
     sv_crc ctx' = st_crc32_update recs (sv_crc ctx))"
proof (cases "ps_pattern_id (p_states p ! q)")
  case None
  then show ?thesis using ok by (simp add: save_node_def node_tokens_def)
next
  case (Some pid)
  note inv = core_invD [OF core]
  obtain ts where ts: "policy_ids p pid = Some ts" using names_iff [OF inv(2) q] Some by blast
  note E = policy_ids_entry [OF inv(3) ts]
  have "length (pattern_code ts) < ST_MAX_NETPATTERN_LEN" using E by (simp add: pattern_ok_def)
  from save_entry_effect [OF _ this ok, of "p_entries p ! pid" sys] show ?thesis
    using E Some ts by (simp add: save_node_def node_tokens_def frame_def Let_def)
qed

lemma save_steps_effect:
  assumes core: "core_inv F p"
  shows "\<forall>q\<in>set qs. q < length (p_states p) \<Longrightarrow> sv_error ctx = ST_OK \<Longrightarrow>
    sv_error (foldl (save_step sys p) ctx qs) = ST_ERR_IO \<or>
    (let recs = saved_records (List.map_filter (node_tokens p) qs); ctx' = foldl (save_step sys p) ctx qs in
     sv_error ctx' = ST_OK \<and> out_bytes (sv_stream ctx') = out_bytes (sv_stream ctx) @ recs \<and>
     sv_crc ctx' = st_crc32_update recs (sv_crc ctx))"
proof (induction qs arbitrary: ctx)
  case Nil
  then show ?case by (simp add: saved_records_def List.map_filter_def)
next
  case (Cons q qs)
  let ?c = "save_node sys p q ctx"
  consider (io) "sv_error ?c = ST_ERR_IO" | (ok) "sv_error ?c = ST_OK"
    using save_node_effect [OF core _ Cons.prems(2), of q sys] Cons.prems(1) by (auto simp: Let_def)
  then show ?case
  proof cases
    case io
    then show ?thesis using Cons.prems(2) by (simp add: save_steps_stop)
  next
    case ok
    then have N: "out_bytes (sv_stream ?c) = out_bytes (sv_stream ctx) @ (case node_tokens p q of None \<Rightarrow> [] | Some ts \<Rightarrow> frame ts)"
      "sv_crc ?c = st_crc32_update (case node_tokens p q of None \<Rightarrow> [] | Some ts \<Rightarrow> frame ts) (sv_crc ctx)"
      using save_node_effect [OF core _ Cons.prems(2), of q sys] Cons.prems(1) by (auto simp: Let_def)
    have "saved_records (List.map_filter (node_tokens p) (q # qs)) =
        (case node_tokens p q of None \<Rightarrow> [] | Some ts \<Rightarrow> frame ts) @ saved_records (List.map_filter (node_tokens p) qs)"
      by (simp add: saved_records_def List.map_filter_def split: option.splits)
    then show ?thesis
      using Cons.IH [OF _ ok] Cons.prems N by (simp add: Let_def crc_append)
  qed
qed

lemma save_walk_effect:
  assumes core: "core_inv F p"
    and ctx: "ctx = dfs_save (length (p_states p)) sys p 0 \<lparr>sv_stream = f, sv_error = ST_OK, sv_crc = 0, sv_count = 0\<rparr>"
  shows "sv_error ctx = ST_ERR_IO \<or> sv_error ctx = ST_OK \<and>
    out_bytes (sv_stream ctx) = out_bytes f @ saved_records (saved_tokens p) \<and>
    sv_crc ctx = st_crc32_update (saved_records (saved_tokens p)) 0"
proof -
  note inv = core_invD [OF core]
  have "\<forall>q\<in>set (trie_nodes (length (p_states p)) (p_states p) 0). q < length (p_states p)"
    using trie_nodes_path [OF inv(1) trie_root [OF inv(1)]] trie_path_bound [OF inv(1) trie_root [OF inv(1)]] by blast
  from save_steps_effect [OF core this, of "\<lparr>sv_stream = f, sv_error = ST_OK, sv_crc = 0, sv_count = 0\<rparr>" sys]
  show ?thesis unfolding ctx dfs_save_steps saved_tokens_def by (simp add: Let_def)
qed

text \<open>The destination is replaced by the complete file of the policy, or it stays.\<close>

lemma save_effect:
  assumes core: "core_inv F p" and save: "st_policy_save sys disk p file_path = (e, disk')"
  shows "confined disk file_path disk' \<and>
    (e \<noteq> ST_OK \<and> disk' file_path = disk file_path \<or>
     disk' = disk(file_path \<mapsto> Regular (policy_file (saved_tokens p)) (kept_mode disk file_path)))"
proof -
  obtain r begun disk1 where start: "st_atomic_output_begin sys disk file_path = (r, begun, disk1)" by (metis prod_cases3)
  show ?thesis
  proof (cases begun)
    case None
    then show ?thesis
      using save start output_begin_None [of sys disk file_path r disk1]
      by (auto simp: st_policy_save_def split: if_splits)
  next
    case (Some out)
    note B = start [unfolded Some]
    obtain wrote f where f: "put_all sys [save_header @ [CHR 0x0A],
        count_prefix @ CHR '' '' # decimal (p_pattern_count p) @ [CHR 0x0A]] (ao_stream out) = (wrote, f)" by fastforce
    define ctx where "ctx = dfs_save (length (p_states p)) sys p 0 \<lparr>sv_stream = f, sv_error = ST_OK, sv_crc = 0, sv_count = 0\<rparr>"
    obtain closed g where g: "put_stream sys (crc_prefix @ print_hex8 (sv_crc ctx) @ [CHR 0x0A]) (sv_stream ctx) = (closed, g)"
      by fastforce
    obtain ok disk2 where commit: "st_atomic_output_commit sys disk1 (out\<lparr>ao_stream := g\<rparr>) = (ok, disk2)" by fastforce
    have form: "st_policy_save sys disk p file_path =
        (if wrote \<and> sv_error ctx = ST_OK \<and> closed then (if ok then ST_OK else ST_ERR_IO, disk2)
         else (if wrote \<and> sv_error ctx \<noteq> ST_OK then sv_error ctx else ST_ERR_IO, st_atomic_output_discard sys disk1 out))"
      unfolding st_policy_save_def B prod.case option.case f
      using g commit by (simp add: ctx_def [symmetric] Let_def del: put_all.simps split: bool.splits)
    show ?thesis
    proof (cases "wrote \<and> sv_error ctx = ST_OK \<and> closed")
      case False
      then show ?thesis using save output_discard [OF B] unfolding form by (auto split: if_splits)
    next
      case True
      have "out_bytes f = save_header @ CHR 0x0A # count_prefix @ CHR '' '' # decimal (p_pattern_count p) @ [CHR 0x0A]"
        using put_all_ok [OF f [unfolded conjunct1 [OF True, THEN eqTrueI]]] output_begin_Some [OF B] by simp
      moreover have "out_bytes g = out_bytes (sv_stream ctx) @ crc_prefix @ print_hex8 (sv_crc ctx) @ [CHR 0x0A]"
        using g True by (auto simp: put_stream_def split: if_splits)
      ultimately have "out_bytes g = policy_file (saved_tokens p)"
        using save_walk_effect [OF core ctx_def] True by (simp add: policy_file_def saved_tokens_count [OF core])
      then show ?thesis
        using output_commit [OF B commit] save True unfolding form by auto
    qed
  qed
qed

section \<open>What a load reads back\<close>

lemma c_stream_update [simp]: "(f :: c_stream)\<lparr>st_bytes := st_bytes f\<rparr> = f"
  by simp

lemma load_record_frame:
  assumes ok: "pattern_ok ts" and bytes: "st_bytes f = frame ts @ r"
  shows "load_record f = Inr (pattern_code ts, netstring (pattern_code ts), f\<lparr>st_bytes := r\<rparr>)"
proof -
  let ?s = "pattern_code ts" and ?f = "f\<lparr>st_bytes := CHR 0x0A # r\<rparr>"
  have small: "length ?s < ST_MAX_NETPATTERN_LEN" using ok by (simp add: pattern_ok_def)
  then have "decimal_digits (length ?s) \<le> 20"
    by (intro decimal_digits_le) (simp_all add: ST_MAX_NETPATTERN_LEN_def)
  then have len: "length (netstring ?s) \<le> ST_MAX_NETPATTERN_LEN + 32" "length (netstring ?s) < SIZE_MAX" "length ?s \<le> SIZE_MAX"
    using small by (simp_all add: length_netstring ST_MAX_NETPATTERN_LEN_def SIZE_MAX_def)
  have "shell_netstring_read_stream f (ST_MAX_NETPATTERN_LEN + 32) = (Inr (netstring ?s), ?f)"
    unfolding ns_read_stream_iff using bytes len by (auto simp: frame_def)
  moreover have "ns_parse (netstring ?s) = Inr (?s, [])"
    using ns_parse_netstring [of ?s "[]"] len by simp
  moreover have "?s \<noteq> []"
    using decode_pattern_code [OF ok] decode_view_data by (fastforce simp: np_view_def)
  ultimately show ?thesis
    using small decode_pattern_code [OF ok] by (simp add: load_record_def fgetc_def)
qed

lemma load_records_frames:
  "list_all pattern_ok tss \<Longrightarrow> st_bytes f = saved_records tss @ r \<Longrightarrow>
   load_records (length tss) crc f =
     Inr (map pattern_code tss, st_crc32_update (saved_records tss) crc, f\<lparr>st_bytes := r\<rparr>)"
proof (induction tss arbitrary: f crc)
  case Nil
  then show ?case by (simp add: saved_records_def)
next
  case (Cons ts tss)
  have "st_bytes f = frame ts @ saved_records tss @ r" using Cons.prems(2) by (simp add: saved_records_def)
  note R = load_record_frame [OF _ this]
  show ?case
    using Cons R by (simp add: bind_result_def crc_append saved_records_def frame_def)
qed

lemma load_line_text:
  "line_text s \<Longrightarrow> length s < 4095 \<Longrightarrow> st_bytes f = s @ CHR 0x0A # r \<Longrightarrow>
   load_line f = Inr (s, f\<lparr>st_bytes := r\<rparr>)"
  using read_line_text [of s "[]" 4096 f r] by (simp add: load_line_def st_read_line_def strip_line_text)

lemma line_text_constants [simp]: "line_text save_header" "line_text count_prefix" "line_text crc_prefix"
  by (simp_all add: line_text_def save_header_def count_prefix_def crc_prefix_def)

lemma load_saved_file:
  assumes ok: "list_all pattern_ok tss" and n: "length tss \<le> ST_MAX_POLICY_PATTERNS"
  shows "load_file \<lparr>st_bytes = policy_file tss, st_ferror = False\<rparr> True = Inr (map pattern_code tss)"
proof -
  let ?recs = "saved_records tss" and ?n = "length tss"
  let ?crc = "st_crc32_update ?recs 0"
  define footer where "footer = crc_prefix @ print_hex8 ?crc @ [CHR 0x0A]"
  define body where "body = ?recs @ footer"
  define count_line where "count_line = count_prefix @ CHR '' '' # decimal ?n"
  let ?f = "\<lambda>s. \<lparr>st_bytes = s, st_ferror = False\<rparr>"
  have sizes: "?n \<le> SIZE_MAX" "decimal_digits ?n \<le> 10"
    using n by (simp_all add: ST_MAX_POLICY_PATTERNS_def SIZE_MAX_def decimal_digits_le)
  have header: "load_line (?f (policy_file tss)) = Inr (save_header, ?f (count_line @ CHR 0x0A # body))"
    by (subst load_line_text [of save_header]) (simp_all add: policy_file_def count_line_def body_def footer_def, simp add: save_header_def)
  have count: "load_line (?f (count_line @ CHR 0x0A # body)) = Inr (count_line, ?f body)"
    using sizes by (subst load_line_text [of count_line])
      (simp_all add: count_line_def length_decimal, simp add: count_prefix_def)
  have prefix: "take 11 count_line = count_prefix" "drop 11 count_line = CHR '' '' # decimal ?n"
    by (simp_all add: count_line_def count_prefix_def)
  have recs: "load_records ?n 0 (?f body) = Inr (map pattern_code tss, ?crc, ?f footer)"
    using load_records_frames [OF ok, of "?f body" footer 0] by (simp add: body_def)
  have line: "load_line (?f footer) = Inr (crc_prefix @ print_hex8 ?crc, ?f [])"
    by (subst load_line_text [of "crc_prefix @ print_hex8 ?crc"]) (simp_all add: footer_def, simp add: crc_prefix_def)
  have "unat ?crc < 2 ^ 32" using unsigned_less [of ?crc] by simp
  then have footer: "load_footer (?f footer) = Inr (?crc, ?f [])"
    using strtoul_hex8 [of ?crc] by (simp add: load_footer_def line bind_result_def fgetc_def crc_prefix_def not_less)
  show ?thesis
    using n unfolding load_file_def header bind_result_def
    by (simp add: count prefix strtoul_decimal [OF sizes(1)] recs footer)
qed

section \<open>Loading as an update of the patterns\<close>

lemma merge_into_new:
  assumes F: "no_false_negatives F" and inv: "policy_inv F p"
    and run: "st_policy_merge F False st_policy_new p = (ST_OK, st)"
  shows "policy_inv F st \<and> no_filters st \<and> policy_patterns st = policy_patterns p"
proof -
  have core: "core_inv F p" using inv by (simp add: policy_inv_def)
  note A = active_tokens_facts [OF core]
  let ?new = "st_policy_new :: 'a st_policy"
  have new: "policy_patterns ?new = {}" "no_filters ?new"
    by (simp_all add: policy_patterns_def policy_ids_def st_policy_new_def no_filters_def)
  show ?thesis
  proof (cases "active_views p = []")
    case True
    then have "policy_patterns p = {}" using A(1,4) by simp
    then show ?thesis using run True new policy_inv_new by (auto simp: st_policy_merge_def split: if_splits)
  next
    case False
    then have "p_pattern_count p \<noteq> 0" using A(4,5) by (metis length_0_conv list.simps(8))
    moreover have "\<not> list_ex (\<lambda>v. np_data v = None \<or> np_length v = 0) (active_views p)"
      using A(3,4) decode_pattern_code decode_view_data by (fastforce simp: list_ex_iff list_all_iff)
    ultimately have batch: "policy_batch_add_views F ?new (active_views p) = (ST_OK, st)"
      using run False by (simp add: st_policy_merge_def st_policy_batch_add_netpattern_views_def Let_def)
    obtain tss where tss: "map st_netpattern_decode_view (active_views p) = map Inr tss" "policy_inv F st"
      "policy_patterns st = foldl added {} tss"
      using batch_effect [OF F policy_inv_new batch] new by auto
    have "map st_netpattern_decode_view (active_views p) = map Inr (active_tokens p)"
      using A(3) unfolding A(4) by (simp add: decode_pattern_code list_all_iff)
    then have "tss = active_tokens p" using tss(1) by (simp add: inj_map_eq_map)
    moreover have "foldl added {} (active_tokens p) = {} \<union> set (active_tokens p)"
    proof (rule foldl_added_antichain)
      show "\<forall>a\<in>{} \<union> set (active_tokens p). \<forall>b\<in>{} \<union> set (active_tokens p). pattern_subsumes a b \<longrightarrow> a = b"
        using inv unfolding policy_inv_iff A(1) by simp
      show "\<forall>a\<in>set (active_tokens p). pattern_subsumes a a"
        using A(3) subsumes_refl [OF pattern_ok_wf] unfolding list_all_iff by blast
    qed
    moreover have "no_filters st"
      using batch add_views_no_filters [of ?new F "active_views ?new @ active_views p"] new(2)
      by (auto simp: policy_batch_add_views_def no_filters_def split: prod.splits if_splits)
    ultimately show ?thesis using tss A(1) by simp
  qed
qed

lemma install_effect:
  assumes core: "core_inv F p" and staged: "policy_inv F st" "no_filters st"
  shows "policy_inv F (install_staged p st) \<and> policy_patterns (install_staged p st) = policy_patterns st"
proof -
  let ?p = "install_staged p st"
  have "core_inv F st" using staged(1) by (simp add: policy_inv_def)
  note S = core_invD [OF this]
  have ids: "policy_ids ?p = policy_ids st" by (rule policy_ids_cong) (simp add: install_staged_def)
  have "levels_ok F ?p (keys_at (p_states ?p))"
    using S(7) core_invD(7) [OF core] staged(2)
    by (intro levels_disabled) (simp_all add: levels_ok_def no_filters_def install_staged_def)
  then have "core_inv F ?p" using S ids by (simp add: core_inv_def install_staged_def)
  moreover have "policy_patterns ?p = policy_patterns st" by (simp add: policy_patterns_def ids)
  ultimately show ?thesis using staged(1) by (simp add: policy_inv_def ids)
qed

lemma load_line_error: "load_line f = Inl e \<Longrightarrow> e \<noteq> ST_OK"
  by (auto simp: load_line_def line_error_def split: prod.splits if_splits)

lemma load_record_error: "load_record f = Inl e \<Longrightarrow> e \<noteq> ST_OK"
  by (auto simp: load_record_def split: prod.splits sum.splits if_splits)

lemma load_records_error: "load_records n crc f = Inl e \<Longrightarrow> e \<noteq> ST_OK"
proof (induction n arbitrary: crc f e)
  case (Suc n)
  show ?case
  proof (cases "load_record f")
    case (Inl a)
    then show ?thesis using Suc.prems load_record_error by (auto simp: bind_result_def)
  next
    case (Inr b)
    then show ?thesis
      using Suc.prems Suc.IH by (cases b) (auto simp: bind_result_def split: sum.splits prod.splits)
  qed
qed simp

lemma load_footer_error: "load_footer f = Inl e \<Longrightarrow> e \<noteq> ST_OK"
  by (auto simp: load_footer_def bind_result_def dest: load_line_error split: sum.splits prod.splits if_splits)

lemma load_file_error: "load_file f c = Inl e \<Longrightarrow> e \<noteq> ST_OK"
  by (auto simp: load_file_def bind_result_def dest: load_line_error load_records_error load_footer_error
      split: sum.splits prod.splits if_splits)

lemma load_effect:
  assumes F: "no_false_negatives F" and inv: "policy_inv F p"
    and run: "st_policy_load F p opened fclosed clear_first = (e, p')"
  shows "policy_inv F p' \<and> (if e = ST_OK
      then \<exists>f payloads tss. opened = Some f \<and> load_file f fclosed = Inr payloads \<and>
        map (st_netpattern_decode_view \<circ> np_view) payloads = map Inr tss \<and> list_all pattern_ok tss \<and>
        policy_patterns p' = foldl added (if clear_first then {} else policy_patterns p) tss \<and>
        p_epoch p' = p_epoch p + 1
      else p' = p)"
proof (cases "e = ST_OK")
  case False
  then show ?thesis
    using inv run by (auto simp: st_policy_load_def split: option.splits sum.splits prod.splits if_splits)
next
  case True
  obtain f payloads staged staged' where f: "opened = Some f" "load_file f fclosed = Inr payloads"
    "(if clear_first then (ST_OK, st_policy_new) else st_policy_merge F False st_policy_new p) = (ST_OK, staged)"
    "add_views F staged (map np_view payloads) = (ST_OK, staged')" "p' = install_staged p staged'"
    using run True load_file_error
    by (auto simp: st_policy_load_def split: option.splits sum.splits prod.splits if_splits)
  have "policy_inv F staged \<and> no_filters staged \<and> policy_patterns staged = (if clear_first then {} else policy_patterns p)"
  proof (cases clear_first)
    case True
    then show ?thesis
      using f(3) policy_inv_new by (auto simp: no_filters_def st_policy_new_def policy_patterns_def policy_ids_def)
  next
    case False
    then show ?thesis using f(3) merge_into_new [OF F inv] by simp
  qed
  note st = this
  have "policy_inv F staged'" "no_filters staged'"
    using add_views_effect [OF F _ f(4)] add_views_no_filters [of staged F "map np_view payloads"] st f(4) by simp_all
  note I = install_effect [OF _ this, of p, folded f(5)]
  have "core_inv F p" using inv by (simp add: policy_inv_def)
  with I have "policy_inv F p' \<and> policy_patterns p' = policy_patterns staged'" by blast
  then show ?thesis
    using add_views_effect [OF F _ f(4)] st f True by (auto simp: install_staged_def)
qed

end
