(* ===== verification/Reload.thy ===== *)
theory Reload imports Persistence_Spec begin

text \<open>
  A saved policy can be loaded again: adding a pattern gives no node more than one new child, so a
  policy built from few enough patterns never reaches the limit on children. Then the properties
  of saving and loading.
\<close>

section \<open>Children of a node\<close>

definition fanout_le :: "nat \<Rightarrow> policy_state list \<Rightarrow> bool" where
  "fanout_le k st \<longleftrightarrow> list_all (\<lambda>n. length (node_children n) \<le> k) st"

lemma fanout_update: "fanout_le k st \<Longrightarrow> length (node_children n) \<le> k \<Longrightarrow> fanout_le k (st[q := n])"
  using set_update_subset_insert [of st q n] by (auto simp: fanout_le_def list_all_iff)

lemma fanout_nth: "fanout_le k st \<Longrightarrow> q < length st \<Longrightarrow> length (node_children (st ! q)) \<le> k"
  by (simp add: fanout_le_def list_all_length)

lemma fanout_mono: "fanout_le k st \<Longrightarrow> k \<le> l \<Longrightarrow> fanout_le l st"
  by (auto simp: fanout_le_def list_all_iff)

lemma node_children_empty [simp]: "node_children empty_state = []"
  by (simp add: node_children_def empty_state_def)

lemma node_children_id [simp]: "node_children (n\<lparr>ps_pattern_id := x\<rparr>) = node_children n"
  by (simp add: node_children_def)

lemma insert_node_child_length:
  "insert_node_child n t r = Some n' \<Longrightarrow> length (node_children n') = Suc (length (node_children n))"
  by (auto simp: insert_node_child_def node_children_def split: if_splits option.splits)

lemma insert_child_states:
  assumes "insert_child F q p t r d = Some (p', rebuild)"
  obtains n' where "p_states p' = (p_states p)[q := n']"
    "length (node_children n') = Suc (length (node_children (p_states p ! q)))"
proof -
  obtain n' where n': "insert_node_child (p_states p ! q) t r = Some n'"
    using assms by (auto simp: insert_child_def Let_def split: option.splits)
  have "p' = fst (note_child F d t (p\<lparr>p_states := (p_states p)[q := n'],
      p_children_count := p_children_count p + (ps_children_alloc n' - ps_children_alloc (p_states p ! q)) + 1\<rparr>))"
    using assms n' by (simp add: insert_child_def Let_def)
  then show thesis using that [of n'] insert_node_child_length [OF n'] by simp
qed

text \<open>Below a new node every node gets at most one child.\<close>

lemma insert_fresh_fanout:
  "q < length (p_states p) \<Longrightarrow> p_states p ! q = empty_state \<Longrightarrow> fanout_le (Suc k) (p_states p) \<Longrightarrow>
   fanout_le (Suc k) (p_states (snd (insert_path F p q d ts)))"
proof (induction ts arbitrary: p q d)
  case (Cons t ts)
  let ?p1 = "p\<lparr>p_states := p_states p @ [empty_state]\<rparr>"
  have f1: "fanout_le (Suc k) (p_states ?p1)" using Cons.prems(3) by (simp add: fanout_le_def)
  show ?case
  proof (cases "insert_child F q ?p1 t (length (p_states p)) d")
    case None
    then show ?thesis using Cons.prems f1 by (simp add: Let_def)
  next
    case (Some r)
    obtain p2 rb where r: "r = (p2, rb)" by fastforce
    obtain n' where n': "p_states p2 = (p_states ?p1)[q := n']"
      "length (node_children n') = Suc (length (node_children (p_states ?p1 ! q)))"
      using insert_child_states [OF Some [unfolded r]] by blast
    have "p_states ?p1 ! q = empty_state" using Cons.prems(1,2) by (simp add: nth_append)
    then have "length (node_children n') \<le> Suc k" using n'(2) by simp
    then have "fanout_le (Suc k) (p_states p2)" unfolding n'(1) by (rule fanout_update [OF f1])
    moreover have "length (p_states p) < length (p_states p2)" "p_states p2 ! length (p_states p) = empty_state"
      using n'(1) Cons.prems(1) by simp_all
    ultimately have "fanout_le (Suc k) (p_states (snd (insert_path F p2 (length (p_states p)) (d + 1) ts)))"
      by (intro Cons.IH)
    then show ?thesis
      using Some r Cons.prems(2) by (auto simp: Let_def split: option.splits prod.splits)
  qed
qed simp

lemma insert_path_fanout:
  assumes inv: "trie_inv (p_states p)" and k: "fanout_le k (p_states p)"
  shows "q < length (p_states p) \<Longrightarrow> list_all wf_token ts \<Longrightarrow>
    fanout_le (Suc k) (p_states (snd (insert_path F p q d ts)))"
proof (induction ts arbitrary: q d)
  case Nil
  then show ?case using fanout_mono [OF k] by simp
next
  case (Cons t ts)
  then have wf: "wf_token t" "list_all wf_token ts" by simp_all
  from inv Cons.prems(1) wf(1) show ?case
  proof (cases rule: find_child_cases)
    case (child c)
    then show ?thesis using Cons.IH [OF child(3) wf(2)] by simp
  next
    case none
    let ?p1 = "p\<lparr>p_states := p_states p @ [empty_state]\<rparr>"
    have f1: "fanout_le (Suc k) (p_states ?p1)" using fanout_mono [OF k, of "Suc k"] by (simp add: fanout_le_def)
    show ?thesis
    proof (cases "insert_child F q ?p1 t (length (p_states p)) d")
      case None
      then show ?thesis using none f1 by (simp add: Let_def)
    next
      case (Some r)
      obtain p2 rb where r: "r = (p2, rb)" by fastforce
      obtain n' where n': "p_states p2 = (p_states ?p1)[q := n']"
        "length (node_children n') = Suc (length (node_children (p_states ?p1 ! q)))"
        using insert_child_states [OF Some [unfolded r]] by blast
      have "length (node_children n') \<le> Suc k"
        using n'(2) fanout_nth [OF k Cons.prems(1)] Cons.prems(1) by (simp add: nth_append)
      then have "fanout_le (Suc k) (p_states p2)" unfolding n'(1) by (rule fanout_update [OF f1])
      moreover have "length (p_states p) < length (p_states p2)" "p_states p2 ! length (p_states p) = empty_state"
        using n'(1) Cons.prems(1) by simp_all
      ultimately have "fanout_le (Suc k) (p_states (snd (insert_path F p2 (length (p_states p)) (d + 1) ts)))"
        by (intro insert_fresh_fanout)
      then show ?thesis using Some r none(1) by (auto simp: Let_def split: option.splits prod.splits)
    qed
  qed
qed

section \<open>Removal and publication give no node a child\<close>

lemma remove_child_fanout: "length (node_children (remove_child_from_node n i l)) \<le> length (node_children n)"
  using length_remove_at_le [of i "ps_literals n"] length_remove_at_le [of i "ps_wildcards n"]
  by (simp add: remove_child_from_node_def node_children_def Let_def)

lemma prune_path_fanout: "fanout_le k st \<Longrightarrow> fanout_le k (prune_path st steps)"
proof (induction st steps rule: prune_path.induct)
  case (2 st q t steps)
  show ?case
  proof (cases "prune_index (st ! q) t")
    case (Some i)
    have "fanout_le k (st[q := remove_child_from_node (st ! q) i l])" for l
    proof (cases "q < length st")
      case True
      then show ?thesis
        using fanout_update [OF "2.prems"] order_trans [OF remove_child_fanout fanout_nth [OF "2.prems" True]] by blast
    qed (use "2.prems" in \<open>simp add: not_less list_update_beyond\<close>)
    then show ?thesis using 2 Some by (simp add: Let_def)
  qed (use 2 in simp)
qed simp

lemma set_id_fanout: "fanout_le k st \<Longrightarrow> fanout_le k (st[q := (st ! q)\<lparr>ps_pattern_id := x\<rparr>])"
proof (cases "q < length st")
  case True
  assume "fanout_le k st"
  then show ?thesis using fanout_update fanout_nth [OF _ True] by simp
qed (simp add: not_less list_update_beyond)

lemma removal_fanout: "fanout_le k (p_states p) \<Longrightarrow> fanout_le k (p_states (snd (remove_pattern_by_id_locked p pid)))"
  by (auto simp: remove_pattern_by_id_locked_def Let_def intro!: prune_path_fanout set_id_fanout split: option.splits)

lemma remove_all_fanout: "fanout_le k (p_states p) \<Longrightarrow> fanout_le k (p_states (remove_all pids p))"
  by (induction pids arbitrary: p) (simp_all add: remove_all_Cons removal_fanout, simp add: remove_all_def)

lemma publish_fanout:
  "fanout_le k (p_states p) \<Longrightarrow> publish p f ts s = Some p' \<Longrightarrow> fanout_le k (p_states p')"
  by (auto simp: publish_def Let_def set_id_fanout split: option.splits prod.splits)

lemma finish_add_fanout: "fanout_le k (p_states p) \<Longrightarrow> fanout_le k (p_states (snd (finish_add p f rb ts pids reuse)))"
  by (auto simp: finish_add_def Let_def intro!: remove_all_fanout elim: publish_fanout [rotated]
      intro: publish_fanout [OF remove_all_fanout] split: option.splits sum.splits)

lemma add_tokens_fanout:
  assumes "trie_inv (p_states p)" "fanout_le k (p_states p)" "list_all wf_token ts"
  shows "fanout_le (Suc k) (p_states (snd (add_tokens F p ts)))"
proof -
  obtain probe missing where probe: "probe_path (p_states p) 0 ts = (probe, missing)" by fastforce
  obtain res p1 where ins: "insert_path F p 0 0 ts = (res, p1)" by fastforce
  have "fanout_le (Suc k) (p_states p1)"
    using insert_path_fanout [OF assms(1,2) trie_root [OF assms(1)] assms(3), of F 0] ins by simp
  then show ?thesis
    using fanout_mono [OF assms(2), of "Suc k"] unfolding add_tokens_def Let_def probe ins prod.case
    by (simp add: finish_add_fanout split: option.splits prod.splits)
qed

section \<open>Enough room\<close>

lemma pattern_count_card: "policy_inv F p \<Longrightarrow> p_pattern_count p = card (policy_patterns p)"
  using active_tokens_facts [of F p] distinct_card by (force simp: policy_inv_def)

lemma added_card: "finite S \<Longrightarrow> finite (added S ts) \<and> card (added S ts) \<le> Suc (card S)"
proof -
  assume "finite S"
  moreover have "added S ts \<subseteq> insert ts S" by (auto simp: added_def)
  ultimately show ?thesis using card_mono [of "insert ts S" "added S ts"] card_insert_le_m1 finite_subset
    by (metis card_insert_if finite_insert le_SucI le_trans order_refl)
qed

lemma finite_patterns: "core_inv F p \<Longrightarrow> finite (policy_patterns p)"
  using active_tokens_facts(1) by (metis finite_set)

lemma room_for: "policy_inv F p \<Longrightarrow> p_pattern_count p < ST_MAX_POLICY_PATTERNS \<Longrightarrow> fanout_le 32767 (p_states p) \<Longrightarrow> has_room p"
  by (auto simp: has_room_def fanout_le_def list_all_iff children_slots_def node_children_def)

lemma add_view_grows:
  assumes F: "no_false_negatives F" and inv: "policy_inv F p" and ok: "pattern_ok ts"
    and k: "fanout_le k (p_states p)" "k < 32768" and n: "p_pattern_count p < ST_MAX_POLICY_PATTERNS"
    and run: "st_policy_add_locked_view F p (np_view (pattern_code ts)) = (e, p')"
  shows "e = ST_OK \<and> policy_inv F p' \<and> p_pattern_count p' \<le> Suc (p_pattern_count p) \<and> fanout_le (Suc k) (p_states p')"
proof -
  note dec = decode_pattern_code [OF ok]
  have core: "core_inv F p" using inv by (simp add: policy_inv_def)
  have room: "has_room p" using room_for [OF inv n] fanout_mono [OF k(1), of 32767] k(2) by simp
  note E = add_locked_view_effect [OF F inv run]
  have e: "e = ST_OK" "policy_inv F p'" "policy_patterns p' = added (policy_patterns p) ts"
    using E room dec ok by auto
  then have "p_pattern_count p' \<le> Suc (p_pattern_count p)"
    using pattern_count_card [OF inv] pattern_count_card [OF e(2)] added_card [OF finite_patterns [OF core]] by simp
  moreover have "p' = snd (add_tokens F p ts)"
    using run e(1) dec decode_view_data [OF dec] by (auto simp: st_policy_add_locked_view_def split: if_splits)
  then have "fanout_le (Suc k) (p_states p')"
    using add_tokens_fanout [OF core_invD(1) [OF core] k(1) pattern_ok_wf [OF ok]] by simp
  ultimately show ?thesis using e by simp
qed

lemma add_views_succeed:
  assumes F: "no_false_negatives F"
  shows "policy_inv F p \<Longrightarrow> list_all pattern_ok tss \<Longrightarrow> fanout_le k (p_states p) \<Longrightarrow> k + length tss \<le> 32768 \<Longrightarrow>
    p_pattern_count p + length tss \<le> ST_MAX_POLICY_PATTERNS \<Longrightarrow>
    fst (add_views F p (map (\<lambda>ts. np_view (pattern_code ts)) tss)) = ST_OK"
proof (induction tss arbitrary: p k)
  case (Cons ts tss)
  obtain e p' where step: "st_policy_add_locked_view F p (np_view (pattern_code ts)) = (e, p')" by fastforce
  have "e = ST_OK \<and> policy_inv F p' \<and> p_pattern_count p' \<le> Suc (p_pattern_count p) \<and> fanout_le (Suc k) (p_states p')"
    using Cons.prems by (intro add_view_grows [OF F _ _ _ _ _ step]) simp_all
  then show ?case using Cons.IH [of p' "Suc k"] Cons.prems step by simp
qed simp

lemma decode_codes: "list_all pattern_ok tss \<Longrightarrow>
   map (st_netpattern_decode_view \<circ> np_view) (map pattern_code tss) = map Inr tss"
  by (simp add: decode_pattern_code list_all_iff)

lemma load_policy_file:
  assumes F: "no_false_negatives F" and q: "policy_inv F q" and ok: "list_all pattern_ok tss"
    and n: "length tss \<le> 32768"
    and anti: "\<forall>a\<in>set tss. \<forall>b\<in>set tss. pattern_subsumes a b \<longrightarrow> a = b"
  shows "\<exists>q'. st_policy_load F q (Some \<lparr>st_bytes = policy_file tss, st_ferror = False\<rparr>) True True = (ST_OK, q') \<and>
    policy_inv F q' \<and> policy_patterns q' = set tss"
proof -
  let ?f = "\<lparr>st_bytes = policy_file tss, st_ferror = False\<rparr>"
  have read: "load_file ?f True = Inr (map pattern_code tss)"
    using load_saved_file [OF ok] n by (simp add: ST_MAX_POLICY_PATTERNS_def)
  have new: "fanout_le 0 (p_states (st_policy_new :: 'a st_policy))" "p_pattern_count (st_policy_new :: 'a st_policy) = 0"
    by (simp_all add: fanout_le_def st_policy_new_def)
  have "fst (add_views F st_policy_new (map (\<lambda>ts. np_view (pattern_code ts)) tss)) = ST_OK"
    using n new(2) by (intro add_views_succeed [OF F policy_inv_new ok new(1)]) (simp_all add: ST_MAX_POLICY_PATTERNS_def)
  then obtain q' where load: "st_policy_load F q (Some ?f) True True = (ST_OK, q')"
    using read by (cases "add_views F st_policy_new (map (\<lambda>ts. np_view (pattern_code ts)) tss)")
      (simp add: st_policy_load_def comp_def)
  note L = load_effect [OF F q load]
  then obtain us where us: "map (st_netpattern_decode_view \<circ> np_view) (map pattern_code tss) = map Inr us"
    "policy_patterns q' = foldl added {} us" using read by auto
  then have "us = tss" unfolding decode_codes [OF ok] by (simp add: inj_map_eq_map)
  moreover have "foldl added {} tss = {} \<union> set tss"
    using anti ok subsumes_refl [OF pattern_ok_wf] by (intro foldl_added_antichain) (auto simp: list_all_iff)
  ultimately show ?thesis using load L us(2) by simp
qed

section \<open>A save when nothing fails\<close>

lemma save_entry_succeeds:
  assumes "\<And>c. sys_ok sys c" "pe_pattern entry = Some s" "length s < ST_MAX_NETPATTERN_LEN" "sv_error ctx = ST_OK"
  shows "sv_error (save_entry sys entry ctx) = ST_OK"
proof -
  have "decimal_digits (length s) \<le> 20"
    using assms(3) by (intro decimal_digits_le) (simp_all add: ST_MAX_NETPATTERN_LEN_def)
  moreover have "fst (put_all sys ss f)" for ss f using put_all_succeeds [OF assms(1)] .
  ultimately show ?thesis
    using assms(2,4) by (auto simp: save_entry_def write_prefix_eq Let_def simp del: put_all.simps split: prod.splits)
      (metis fst_conv)
qed

lemma save_walk_succeeds:
  assumes core: "core_inv F p" and sys: "\<And>c. sys_ok sys c"
  shows "\<forall>q\<in>set qs. q < length (p_states p) \<Longrightarrow> sv_error ctx = ST_OK \<Longrightarrow>
    sv_error (foldl (save_step sys p) ctx qs) = ST_OK"
proof (induction qs arbitrary: ctx)
  case (Cons q qs)
  have "sv_error (save_node sys p q ctx) = ST_OK"
  proof (cases "ps_pattern_id (p_states p ! q)")
    case (Some pid)
    note inv = core_invD [OF core]
    obtain ts where ts: "policy_ids p pid = Some ts" using names_iff [OF inv(2)] Some Cons.prems(1) by auto
    note E = policy_ids_entry [OF inv(3) ts]
    have "sv_error (save_entry sys (p_entries p ! pid) ctx) = ST_OK"
      using E by (intro save_entry_succeeds [OF sys _ _ Cons.prems(2), of _ "pattern_code ts"]) (simp_all add: pattern_ok_def)
    then show ?thesis using Some E by (simp add: save_node_def)
  qed (use Cons.prems in \<open>simp add: save_node_def\<close>)
  then show ?case using Cons by simp
qed simp

lemma save_succeeds_form:
  assumes core: "core_inv F p" and sys: "\<And>c. sys_ok sys c" and random: "sys_random sys = Some random"
    and path: "directory @ destination = file_path" "length file_path < PATH_MAX" "CHR ''/'' \<notin> set destination"
      "directory = [] \<or> last directory = CHR ''/''" "destination \<noteq> []"
    and free: "temp_name random 0 \<noteq> destination" "disk (directory @ temp_name random 0) = None"
    and entry: "disk file_path \<noteq> Some Other_entry"
  shows "fst (st_policy_save sys disk p file_path) = ST_OK"
proof -
  obtain out disk1 where start: "st_atomic_output_begin sys disk file_path = (ST_ATOMIC_OUTPUT_OK, Some out, disk1)"
      "ao_destination out = destination"
    using output_begin_succeeds [OF sys random path free entry] .
  have walk: "sv_error (dfs_save (length (p_states p)) sys p 0 \<lparr>sv_stream = f, sv_error = ST_OK, sv_crc = 0, sv_count = 0\<rparr>) = ST_OK" for f
  proof -
    note inv = core_invD [OF core]
    have "\<forall>q\<in>set (trie_nodes (length (p_states p)) (p_states p) 0). q < length (p_states p)"
      using trie_nodes_path [OF inv(1) trie_root [OF inv(1)]] trie_path_bound [OF inv(1) trie_root [OF inv(1)]] by blast
    from save_walk_succeeds [OF core sys this] show ?thesis by (simp add: dfs_save_steps)
  qed
  obtain f where f: "put_all sys [save_header @ [CHR 0x0A],
      count_prefix @ CHR '' '' # decimal (p_pattern_count p) @ [CHR 0x0A]] (ao_stream out) = (True, f)"
    using put_all_succeeds [OF sys] by (metis (full_types) fst_conv prod.collapse)
  define ctx where "ctx = dfs_save (length (p_states p)) sys p 0 \<lparr>sv_stream = f, sv_error = ST_OK, sv_crc = 0, sv_count = 0\<rparr>"
  obtain g where g: "put_stream sys (crc_prefix @ print_hex8 (sv_crc ctx) @ [CHR 0x0A]) (sv_stream ctx) = (True, g)"
    using sys by (simp add: put_stream_def)
  obtain disk2 where "st_atomic_output_commit sys disk1 (out\<lparr>ao_stream := g\<rparr>) = (True, disk2)"
    using output_commit_succeeds [OF sys] path(5) start(2) by blast
  then show ?thesis
    using walk [of f, folded ctx_def] g unfolding st_policy_save_def start(1) prod.case option.case f
    by (simp add: ctx_def [symmetric] Let_def)
qed

section \<open>Properties\<close>

text \<open>C25: Saving a policy, whatever requests to the system fail, leaves at the destination either
  what was there or the complete file of the policy's patterns, and always the complete file when it
  reports success. No other existing entry changes, and at most one new one, the temporary file,
  can remain.\<close>

theorem save_is_atomic:
  assumes "policy_inv F p" "st_policy_save sys disk p file_path = (e, disk')"
  shows "(\<exists>temp. \<forall>name. name \<noteq> file_path \<and> (name \<noteq> temp \<or> disk name \<noteq> None) \<longrightarrow> disk' name = disk name) \<and>
    (e \<noteq> ST_OK \<and> disk' file_path = disk file_path \<or>
     disk' = disk(file_path \<mapsto> Regular (policy_file (saved_tokens p)) (kept_mode disk file_path))) \<and>
    set (saved_tokens p) = policy_patterns p \<and> distinct (saved_tokens p)"
proof -
  have core: "core_inv F p" using assms(1) by (simp add: policy_inv_def)
  show ?thesis
    using save_effect [OF core assms(2)] saved_tokens_set [OF core] saved_tokens_distinct [OF core]
    unfolding confined_def by blast
qed

text \<open>C24: A saved policy of at most 32768 patterns loads again: into any policy, as a replacement,
  the load succeeds, and the policy then has exactly the saved patterns.\<close>

theorem save_then_load:
  assumes "no_false_negatives F" "policy_inv F p" "p_pattern_count p \<le> 32768"
    "st_policy_save sys disk p file_path = (ST_OK, disk')" "policy_inv F q"
  shows "\<exists>contents mode q'. disk' file_path = Some (Regular contents mode) \<and>
    st_policy_load F q (Some \<lparr>st_bytes = contents, st_ferror = False\<rparr>) True True = (ST_OK, q') \<and>
    policy_inv F q' \<and> policy_patterns q' = policy_patterns p"
proof -
  have core: "core_inv F p" using assms(2) by (simp add: policy_inv_def)
  note S = saved_tokens_set [OF core]
  have saved: "disk' file_path = Some (Regular (policy_file (saved_tokens p)) (kept_mode disk file_path))"
    using save_effect [OF core assms(4)] by auto
  have "list_all pattern_ok (saved_tokens p)" using core_patterns_ok [OF core] S by (simp add: list_all_iff)
  moreover have "length (saved_tokens p) \<le> 32768" using assms(3) saved_tokens_count [OF core] by simp
  moreover have "\<forall>a\<in>set (saved_tokens p). \<forall>b\<in>set (saved_tokens p). pattern_subsumes a b \<longrightarrow> a = b"
    using assms(2) unfolding policy_inv_iff S by blast
  ultimately show ?thesis
    using load_policy_file [OF assms(1,5)] saved S by metis
qed

text \<open>C26: Loading any file keeps the invariant and is all or nothing: it changes nothing, or the file
  passed every check, the policy has the effect of adding the decoded records one after the other,
  to nothing or to the live patterns, and it accepts exactly what those accept.\<close>

theorem load_is_atomic:
  assumes "no_false_negatives F" "policy_inv F p" "st_policy_load F p opened fclosed clear_first = (e, p')"
  shows "policy_inv F p' \<and> (if e = ST_OK
    then \<exists>f payloads tss. opened = Some f \<and> load_file f fclosed = Inr payloads \<and>
      map (st_netpattern_decode_view \<circ> np_view) payloads = map Inr tss \<and>
      policy_patterns p' = foldl added (if clear_first then {} else policy_patterns p) tss \<and>
      (\<forall>args. policy_accepts p' args \<longleftrightarrow>
        \<not> clear_first \<and> policy_accepts p args \<or> (\<exists>ts\<in>set tss. pattern_accepts ts args))
    else p' = p)"
proof (cases "e = ST_OK")
  case True
  obtain f payloads tss where L: "opened = Some f" "load_file f fclosed = Inr payloads"
    "map (st_netpattern_decode_view \<circ> np_view) payloads = map Inr tss" "list_all pattern_ok tss"
    "policy_patterns p' = foldl added (if clear_first then {} else policy_patterns p) tss"
    using load_effect [OF assms] True by auto
  have "\<forall>us\<in>(if clear_first then {} else policy_patterns p). pattern_ok us"
    using assms(2) core_patterns_ok by (auto simp: policy_inv_def)
  from foldl_added_accepts [OF this L(4)]
  have "policy_accepts p' args \<longleftrightarrow>
      \<not> clear_first \<and> policy_accepts p args \<or> (\<exists>ts\<in>set tss. pattern_accepts ts args)" for args
    by (auto simp: policy_accepts_def L(5))
  then show ?thesis using load_effect [OF assms] True L by auto
qed (use load_effect [OF assms] in auto)

text \<open>The checksum of a file's records changes whenever a single byte of them does.\<close>

theorem checksum_detects_byte:
  "st_crc32_update (xs @ c # ys) previous = st_crc32_update (xs @ d # ys) previous \<longleftrightarrow> c = d"
  by (simp add: st_crc32_update_def foldl_crc_inject crc_byte_char_inject)

text \<open>A save succeeds when every request does and the first candidate for the temporary name is
  free.\<close>

theorem save_succeeds:
  assumes "policy_inv F p" "\<And>c. sys_ok sys c" "sys_random sys = Some random"
    "directory @ destination = file_path" "length file_path < PATH_MAX" "CHR ''/'' \<notin> set destination"
    "directory = [] \<or> last directory = CHR ''/''" "destination \<noteq> []"
    "temp_name random 0 \<noteq> destination" "disk (directory @ temp_name random 0) = None"
    "disk file_path \<noteq> Some Other_entry"
  shows "fst (st_policy_save sys disk p file_path) = ST_OK"
  using save_succeeds_form [of F] assms by (simp add: policy_inv_def)

section \<open>Witnesses\<close>

lemma good_save:
  assumes "policy_inv F p"
  shows "fst (st_policy_save good_sys Map.empty p ''etc/rules'') = ST_OK"
  using assms by (intro save_succeeds_form [of F p good_sys "replicate 192 NUL" "''etc/''" "''rules''"])
    (simp_all add: policy_inv_def good_sys_def PATH_MAX_def good_name)

theorem save_succeeds_witness: "fst (st_policy_save good_sys Map.empty new_policy ''rules'') = ST_OK"
  using save_succeeds [OF policy_inv_new [of list_filters, folded new_policy_def], of good_sys "replicate 192 NUL" "[]" "''rules''"]
  by (simp add: good_sys_def PATH_MAX_def good_name)

theorem save_is_atomic_witness:
  "set (saved_tokens new_policy) = policy_patterns new_policy"
proof -
  obtain e disk where run: "st_policy_save good_sys Map.empty new_policy ''etc/rules'' = (e, disk)" by fastforce
  show ?thesis using save_is_atomic [OF policy_inv_new [of list_filters, folded new_policy_def] run] by blast
qed

theorem save_then_load_witness:
  "\<exists>contents q'. st_policy_load list_filters st_policy_new (Some \<lparr>st_bytes = contents, st_ferror = False\<rparr>) True True = (ST_OK, q') \<and>
     policy_patterns q' = policy_patterns ls_policy"
proof -
  have ls: "policy_inv list_filters ls_policy" using ls_policy_ok by blast
  have few: "p_pattern_count ls_policy \<le> 32768"
    using pattern_count_card [OF ls] ls_policy_ok by simp
  obtain e disk where run: "st_policy_save good_sys Map.empty ls_policy ''etc/rules'' = (e, disk)" by fastforce
  then have "st_policy_save good_sys Map.empty ls_policy ''etc/rules'' = (ST_OK, disk)" using good_save [OF ls] by simp
  from save_then_load [OF list_filters_ok ls few this policy_inv_new] show ?thesis by blast
qed

theorem load_is_atomic_witness:
  "policy_inv list_filters (snd (st_policy_load list_filters st_policy_new
     (Some \<lparr>st_bytes = ''# shelltype-policy v2'', st_ferror = False\<rparr>) True False))"
proof -
  obtain e q where run: "st_policy_load list_filters st_policy_new
     (Some \<lparr>st_bytes = ''# shelltype-policy v2'', st_ferror = False\<rparr>) True False = (e, q)" by fastforce
  show ?thesis using load_is_atomic [OF list_filters_ok policy_inv_new run] run by simp
qed

end
