(* ===== verification/Learner.thy ===== *)
theory Learner imports Complex_Main Argv Metadata Netpattern begin

text \<open>
  The command learner of \<^verbatim>\<open>shelltype/src/trie.c\<close>: a counting trie over classified
  commands, the insertion with its rollback, configuration, statistics and the blacklist. A node is
  a datatype, its children a list in order of creation; the record \<open>node_fields\<close> has the
  other members of \<^verbatim>\<open>struct st_node\<close> but for the capacity of the children array.
  Whether the system serves the requests for memory of an insertion is an argument. Confidence is an
  exact rational.
\<close>

unbundle bit_operations_syntax

section \<open>Nodes\<close>

definition UINT32_MAX :: nat where "UINT32_MAX = 4294967295"

record node_fields =
  nf_token :: bytes
  nf_type :: st_token_type
  nf_count :: nat
  nf_observed :: type_mask
  nf_observations :: nat
  nf_common :: st_metadata_id
  nf_mixed :: bool

datatype st_node = Node (nd_fields: node_fields) (nd_children: "st_node list")

definition node_new :: "bytes \<Rightarrow> st_token_type \<Rightarrow> st_node" where
  "node_new token t = Node
     \<lparr>nf_token = token, nf_type = t, nf_count = 0, nf_observed = 0, nf_observations = 0,
      nf_common = ST_META_NONE, nf_mixed = False\<rparr> []"

definition node_answers :: "bytes \<Rightarrow> st_token_type \<Rightarrow> st_node \<Rightarrow> bool" where
  "node_answers token t child =
     (let f = nd_fields child in
      if nf_type f = ST_TYPE_LITERAL \<and> t = ST_TYPE_LITERAL then nf_token f = token else nf_type f = t)"

text \<open>The index of the child, for the pointer to it.\<close>

fun node_find_child :: "st_node list \<Rightarrow> bytes \<Rightarrow> st_token_type \<Rightarrow> nat option" where
  "node_find_child [] token t = None"
| "node_find_child (c # cs) token t =
     (if node_answers token t c then Some 0 else map_option Suc (node_find_child cs token t))"

section \<open>Insertion\<close>

text \<open>The first pass: no counter along the existing path may overflow.\<close>

fun counts_fit :: "nat \<Rightarrow> st_node list \<Rightarrow> st_token list \<Rightarrow> bool" where
  "counts_fit increment children [] = True"
| "counts_fit increment children (t # ts) =
     (case node_find_child children (tk_text t) (tk_type t) of
        None \<Rightarrow> True
      | Some k \<Rightarrow> increment \<le> UINT32_MAX - nf_count (nd_fields (children ! k)) \<and>
          counts_fit increment (nd_children (children ! k)) ts)"

text \<open>What a token leaves in the node of its position, whose count is raised already; \<open>None\<close>
  when the observations would overflow.\<close>

definition note_token :: "nat \<Rightarrow> st_token \<Rightarrow> node_fields \<Rightarrow> node_fields option" where
  "note_token increment t f =
     (if tk_type t = ST_TYPE_LITERAL then Some f
      else let observed = st_metadata_value_id (tk_type t) (tk_text t) in
        if increment > UINT32_MAX - nf_observations f then None
        else Some
          (let f = f\<lparr>nf_observed := nf_observed f OR type_bit (tk_type t)\<rparr>;
               f = (if nf_observations f = 0 \<and> observed \<noteq> ST_META_NONE then f\<lparr>nf_common := observed\<rparr>
                    else if observed = ST_META_NONE \<or> nf_common f \<noteq> observed then f\<lparr>nf_mixed := True\<rparr>
                    else f) in
           f\<lparr>nf_observations := nf_observations f + increment\<rparr>))"

definition count_up :: "nat \<Rightarrow> st_node \<Rightarrow> st_node" where
  "count_up increment n = Node ((nd_fields n)\<lparr>nf_count := nf_count (nd_fields n) + increment\<rparr>) (nd_children n)"

text \<open>The rollback of one node of the path: its count taken back and the four fields restored from
  the values kept on the way down.\<close>

definition roll_back :: "nat \<Rightarrow> node_fields \<Rightarrow> st_node \<Rightarrow> st_node" where
  "roll_back increment old n = Node
     ((nd_fields n)\<lparr>nf_count := nf_count (nd_fields n) - increment, nf_observed := nf_observed old,
       nf_observations := nf_observations old, nf_common := nf_common old, nf_mixed := nf_mixed old\<rparr>)
     (nd_children n)"

text \<open>The children of a node below which the rest of the command is inserted, \<open>depth\<close> steps
  from the root. Requests \<open>2 * depth\<close> and \<open>2 * depth + 1\<close> are for room among the
  children and for the new node. On an error the children are as the rollback leaves them: an
  existing child is restored and a created one removed.\<close>

fun insert_children ::
    "(nat \<Rightarrow> bool) \<Rightarrow> nat \<Rightarrow> nat \<Rightarrow> st_node list \<Rightarrow> st_token list \<Rightarrow> st_error \<times> st_node list" where
  "insert_children serves increment depth children [] = (ST_OK, children)"
| "insert_children serves increment depth children (t # ts) =
     (case node_find_child children (tk_text t) (tk_type t) of
        None \<Rightarrow>
          (if \<not> serves (2 * depth) \<or> \<not> serves (2 * depth + 1) then (ST_ERR_MEMORY, children)
           else let child = count_up increment (node_new
                  (if tk_type t = ST_TYPE_LITERAL then tk_text t else st_type_symbol (tk_type t)) (tk_type t)) in
             case note_token increment t (nd_fields child) of
               None \<Rightarrow> (ST_ERR_LIMIT, children)
             | Some f \<Rightarrow>
                 (case insert_children serves increment (depth + 1) [] ts of
                    (e, below) \<Rightarrow> if e = ST_OK then (ST_OK, children @ [Node f below]) else (e, children)))
      | Some k \<Rightarrow>
          (let old = nd_fields (children ! k); child = count_up increment (children ! k) in
           case note_token increment t (nd_fields child) of
             None \<Rightarrow> (ST_ERR_LIMIT, children[k := roll_back increment old child])
           | Some f \<Rightarrow>
               (case insert_children serves increment (depth + 1) (nd_children child) ts of
                  (e, below) \<Rightarrow>
                    if e = ST_OK then (ST_OK, children[k := Node f below])
                    else (e, children[k := roll_back increment old (Node f below)]))))"

definition trie_insert_with_count ::
    "(nat \<Rightarrow> bool) \<Rightarrow> st_node \<Rightarrow> st_token list \<Rightarrow> nat \<Rightarrow> st_error \<times> st_node" where
  "trie_insert_with_count serves trunk tokens increment =
     (if increment > UINT32_MAX - nf_count (nd_fields trunk) \<or> \<not> counts_fit increment (nd_children trunk) tokens
      then (ST_ERR_LIMIT, trunk)
      else case insert_children serves increment 0 (nd_children trunk) tokens of
        (e, children) \<Rightarrow>
          (let raised = Node (nd_fields (count_up increment trunk)) children in
           (e, if e = ST_OK then raised else
             Node ((nd_fields raised)\<lparr>nf_count := nf_count (nd_fields raised) - increment\<rparr>) children)))"

section \<open>The learner\<close>

record st_learner_config =
  cf_min_support :: nat
  cf_min_confidence :: rat
  cf_max_suggestions :: nat

record st_learner =
  ln_root :: st_node
  ln_total :: nat
  ln_config :: st_learner_config
  ln_blacklist :: "bytes list"

definition learner_insert_atomic ::
    "(nat \<Rightarrow> bool) \<Rightarrow> st_learner \<Rightarrow> st_token list \<Rightarrow> st_error \<times> st_learner" where
  "learner_insert_atomic serves l tokens =
     (if ln_total l = UINT32_MAX then (ST_ERR_LIMIT, l)
      else case trie_insert_with_count serves (ln_root l) tokens 1 of
        (e, trunk) \<Rightarrow>
          (e, l\<lparr>ln_root := trunk, ln_total := (if e = ST_OK then ln_total l + 1 else ln_total l)\<rparr>))"

text \<open>Types are valid by their HOL type; \<open>None\<close> is a null array.\<close>

definition learner_tokens_valid :: "st_token list option \<Rightarrow> bool" where
  "learner_tokens_valid tokens =
     (case tokens of
        None \<Rightarrow> False
      | Some ts \<Rightarrow> ts \<noteq> [] \<and> length ts \<le> ST_MAX_CMD_TOKENS \<and>
          list_all (\<lambda>t. length (tk_text t) < ST_MAX_TOKEN_LEN) ts)"

definition learner_config_valid :: "st_learner_config \<Rightarrow> bool" where
  "learner_config_valid config \<longleftrightarrow> 0 \<le> cf_min_confidence config \<and> cf_min_confidence config \<le> 1"

definition st_learner_config_default :: st_learner_config where
  "st_learner_config_default =
     \<lparr>cf_min_support = 5, cf_min_confidence = 5 / 100, cf_max_suggestions = 20\<rparr>"

definition st_learner_new :: "st_learner_config option \<Rightarrow> st_learner option" where
  "st_learner_new config =
     (let selected = (case config of None \<Rightarrow> st_learner_config_default | Some c \<Rightarrow> c) in
      if \<not> learner_config_valid selected then None
      else Some \<lparr>ln_root = node_new [] ST_TYPE_LITERAL, ln_total = 0, ln_config = selected, ln_blacklist = []\<rparr>)"

definition st_learner_get_config :: "st_learner \<Rightarrow> st_error \<times> st_learner_config" where
  "st_learner_get_config l = (ST_OK, ln_config l)"

definition st_learner_set_config :: "st_learner \<Rightarrow> st_learner_config \<Rightarrow> st_error \<times> st_learner" where
  "st_learner_set_config l config =
     (if \<not> learner_config_valid config then (ST_ERR_INVALID, l) else (ST_OK, l\<lparr>ln_config := config\<rparr>))"

record st_learner_stats =
  ls_command_count :: nat
  ls_blacklist_count :: nat

definition st_learner_get_stats :: "st_learner \<Rightarrow> st_learner_stats" where
  "st_learner_get_stats l =
     \<lparr>ls_command_count = ln_total l, ls_blacklist_count = length (ln_blacklist l)\<rparr>"

definition st_learner_feed_netargv_view ::
    "(nat \<Rightarrow> bool) \<Rightarrow> st_learner \<Rightarrow> st_netargv_view \<Rightarrow> st_error \<times> st_learner" where
  "st_learner_feed_netargv_view serves l netargv =
     (if na_data netargv = None \<and> na_length netargv \<noteq> 0 \<or> na_length netargv = 0 then (ST_ERR_INVALID, l)
      else case st_netargv_classify_scratch_view netargv of
        Inl e \<Rightarrow> (e, l)
      | Inr tokens \<Rightarrow>
          (if \<not> learner_tokens_valid (Some tokens) then (ST_ERR_INVALID, l)
           else learner_insert_atomic serves l tokens))"

definition st_learner_feed_tokens ::
    "(nat \<Rightarrow> bool) \<Rightarrow> st_learner \<Rightarrow> st_token list option \<Rightarrow> st_error \<times> st_learner" where
  "st_learner_feed_tokens serves l typed =
     (if \<not> learner_tokens_valid typed then (ST_ERR_INVALID, l)
      else learner_insert_atomic serves l (the typed))"

section \<open>The blacklist\<close>

definition st_learner_is_netpattern_blacklisted :: "st_learner \<Rightarrow> st_netpattern_view \<Rightarrow> bool" where
  "st_learner_is_netpattern_blacklisted l pattern =
     (case np_data pattern of
        None \<Rightarrow> False
      | Some s \<Rightarrow> np_length pattern \<noteq> 0 \<and> list_ex (\<lambda>b. b = take (np_length pattern) s) (ln_blacklist l))"

definition st_learner_blacklist_add_netpattern :: "st_learner \<Rightarrow> st_netpattern_view \<Rightarrow> st_error \<times> st_learner" where
  "st_learner_blacklist_add_netpattern l pattern =
     (if np_data pattern = None \<or> np_length pattern = 0 then (ST_ERR_INVALID, l)
      else case st_netpattern_decode_view pattern of
        Inl e \<Rightarrow> (e, l)
      | Inr _ \<Rightarrow>
          (if st_learner_is_netpattern_blacklisted l pattern then (ST_OK, l)
           else (ST_OK, l\<lparr>ln_blacklist := ln_blacklist l @ [take (np_length pattern) (the (np_data pattern))]\<rparr>)))"

end
