(* ===== verification/Qsort.thy ===== *)
theory Qsort imports Prelude begin

text \<open>
  \<^verbatim>\<open>qsort\<close> of the C library: the elements in an order in which every one compares at
  most equal to its successors. The standard leaves the order of equal elements open; here they keep
  theirs. A comparator is an interface of its own: a sort is correct for every total preorder on the
  elements it is given.
\<close>

fun insert_by :: "('a \<Rightarrow> 'a \<Rightarrow> int) \<Rightarrow> 'a \<Rightarrow> 'a list \<Rightarrow> 'a list" where
  "insert_by cmp x [] = [x]"
| "insert_by cmp x (y # ys) = (if cmp x y \<le> 0 then x # y # ys else y # insert_by cmp x ys)"

definition qsort_by :: "('a \<Rightarrow> 'a \<Rightarrow> int) \<Rightarrow> 'a list \<Rightarrow> 'a list" where
  "qsort_by cmp xs = foldr (insert_by cmp) xs []"

lemma qsort_by_simps [simp]:
  "qsort_by cmp [] = []" "qsort_by cmp (x # xs) = insert_by cmp x (qsort_by cmp xs)"
  by (simp_all add: qsort_by_def)

lemma insert_by_facts [simp]:
  "set (insert_by cmp x ys) = insert x (set ys)" "length (insert_by cmp x ys) = Suc (length ys)"
  "distinct (insert_by cmp x ys) \<longleftrightarrow> x \<notin> set ys \<and> distinct ys"
  by (induction ys) auto

lemma qsort_by_facts [simp]:
  "set (qsort_by cmp xs) = set xs" "length (qsort_by cmp xs) = length xs"
  "distinct (qsort_by cmp xs) \<longleftrightarrow> distinct xs"
  by (induction xs) auto

locale comparator =
  fixes cmp :: "'a \<Rightarrow> 'a \<Rightarrow> int" and ok :: "'a \<Rightarrow> bool"
  assumes total_order: "ok a \<Longrightarrow> ok b \<Longrightarrow> cmp a b \<le> 0 \<or> cmp b a \<le> 0"
    and transitive: "ok a \<Longrightarrow> ok b \<Longrightarrow> ok c \<Longrightarrow> cmp a b \<le> 0 \<Longrightarrow> cmp b c \<le> 0 \<Longrightarrow> cmp a c \<le> 0"
begin

lemma insert_sorted:
  "ok x \<Longrightarrow> \<forall>y\<in>set ys. ok y \<Longrightarrow> sorted_wrt (\<lambda>a b. cmp a b \<le> 0) ys \<Longrightarrow>
   sorted_wrt (\<lambda>a b. cmp a b \<le> 0) (insert_by cmp x ys)"
proof (induction ys)
  case (Cons y ys)
  show ?case
  proof (cases "cmp x y \<le> 0")
    case True
    then show ?thesis using Cons.prems transitive [of x y] by auto
  next
    case False
    then have "cmp y x \<le> 0" using total_order [of x y] Cons.prems by auto
    then show ?thesis using Cons False by auto
  qed
qed simp

lemma qsort_sorted: "\<forall>x\<in>set xs. ok x \<Longrightarrow> sorted_wrt (\<lambda>a b. cmp a b \<le> 0) (qsort_by cmp xs)"
  by (induction xs) (simp_all add: insert_sorted)

end

end
