(* ===== verification/Learner_Suggest.thy ===== *)
theory Learner_Suggest imports Learner Subsume Qsort begin

text \<open>
  The suggestions of the learner, from \<^verbatim>\<open>shelltype/src/trie.c\<close>: proposals are collected
  bottom-up from the counting trie, where children that share their continuation are generalised; the
  support of all proposals is then counted in one walk of the trie along an index of their prefixes;
  what remains is filtered, deduplicated, ranked and cut. Requests for memory are served here, so
  the growth of arrays and the release of memory have no part in the model; \<open>None\<close> is the
  result \<^verbatim>\<open>false\<close> of a step. Confidence is an exact rational, a pattern its bytes.
\<close>

unbundle bit_operations_syntax

section \<open>Candidates\<close>

record st_candidate =
  ca_pattern :: bytes
  ca_count :: nat
  ca_confidence :: rat
  ca_depth :: nat

record branch_candidate =
  bc_suffix :: st_candidate
  bc_child :: st_node

text \<open>\<^verbatim>\<open>snprintf\<close> into 32 bytes keeps 31 characters.\<close>

definition node_suggestion_token :: "st_node option \<Rightarrow> st_token_type \<Rightarrow> bytes" where
  "node_suggestion_token node t =
     (case node of
        None \<Rightarrow> take 31 (st_type_symbol t)
      | Some n \<Rightarrow>
          (let f = nd_fields n in
           if nf_observations f \<ge> 2 \<and> \<not> nf_mixed f \<and> nf_common f \<noteq> ST_META_NONE \<and>
              st_type_supports_metadata t \<and> t \<noteq> ST_TYPE_SEMVER
           then (case List.find (\<lambda>m. me_id m = nf_common f) st_metadata_entries of
                   None \<Rightarrow> take 31 (st_type_symbol t)
                 | Some common \<Rightarrow>
                     (if me_type common = t then take 31 (st_type_symbol t @ CHR ''.'' # me_name common)
                      else take 31 (st_type_symbol t)))
           else take 31 (st_type_symbol t)))"

definition node_terminal_count :: "st_node \<Rightarrow> nat" where
  "node_terminal_count node =
     nf_count (nd_fields node) - sum_list (map (\<lambda>c. nf_count (nd_fields c)) (nd_children node))"

definition compare_branch_candidates :: "branch_candidate \<Rightarrow> branch_candidate \<Rightarrow> int" where
  "compare_branch_candidates a b =
     (let suffix = st_netpattern_compare_view (np_view (ca_pattern (bc_suffix a))) (np_view (ca_pattern (bc_suffix b)));
          f = nd_fields (bc_child a); g = nd_fields (bc_child b) in
      if suffix \<noteq> 0 then suffix
      else if nf_type f \<noteq> nf_type g then (if type_index (nf_type f) < type_index (nf_type g) then -1 else 1)
      else bytes_compare (nf_token f) (nf_token g))"

text \<open>The record of one token before the continuation of a branch. A pattern that would be too
  long is left out.\<close>

definition append_encoded ::
    "st_candidate list \<Rightarrow> branch_candidate \<Rightarrow> st_token_arg \<Rightarrow> rat \<Rightarrow> nat \<Rightarrow> st_candidate list option" where
  "append_encoded candidates branch typed confidence depth =
     (case st_netpattern_encode_owned (Some [typed]) of
        Inl _ \<Rightarrow> None
      | Inr prefix \<Rightarrow>
          (let suffix = ca_pattern (bc_suffix branch) in
           if length prefix \<ge> ST_MAX_NETPATTERN_LEN \<or> length suffix \<ge> ST_MAX_NETPATTERN_LEN - length prefix
           then Some candidates
           else Some (candidates @
             [\<lparr>ca_pattern = prefix @ suffix, ca_count = ca_count (bc_suffix branch),
               ca_confidence = confidence, ca_depth = depth\<rparr>])))"

definition append_prefixed ::
    "st_candidate list \<Rightarrow> branch_candidate \<Rightarrow> bytes \<Rightarrow> st_token_type \<Rightarrow> rat \<Rightarrow> bool \<Rightarrow> st_candidate list option" where
  "append_prefixed candidates branch token t confidence local_confidence =
     append_encoded candidates branch
       \<lparr>arg_text = Some token, arg_text_length = length token, arg_type = t, arg_compound = False,
        arg_prefix = None, arg_prefix_length = 0, arg_capture = None, arg_capture_length = 0,
        arg_suffix = None, arg_suffix_length = 0, arg_capture_type = ST_TYPE_LITERAL\<rparr>
       confidence (if local_confidence then 0 else ca_depth (bc_suffix branch) + 1)"

definition append_compound_prefixed ::
    "st_candidate list \<Rightarrow> branch_candidate \<Rightarrow> bytes \<Rightarrow> st_token_type \<Rightarrow> rat \<Rightarrow> st_candidate list option" where
  "append_compound_prefixed candidates branch prefix capture_type confidence =
     append_encoded candidates branch
       \<lparr>arg_text = Some prefix, arg_text_length = 0, arg_type = ST_TYPE_LITERAL, arg_compound = True,
        arg_prefix = Some prefix, arg_prefix_length = length prefix,
        arg_capture = Some (st_type_symbol capture_type), arg_capture_length = 0,
        arg_suffix = Some [], arg_suffix_length = 0, arg_capture_type = capture_type\<rparr>
       confidence 0"

text \<open>The option name up to its \<^verbatim>\<open>=\<close>, and the type of the value after it.\<close>

definition option_capture :: "bytes \<Rightarrow> (bytes \<times> st_token_type) option" where
  "option_capture token =
     (if length token < 4 \<or> token ! 0 \<noteq> CHR ''-'' \<or> token ! 1 \<noteq> CHR ''-'' \<or> NUL \<in> set token then None
      else case span_find (drop 2 token) CHR ''='' of
        None \<Rightarrow> None
      | Some k \<Rightarrow>
          (if k = 0 \<or> k + 3 = length token then None
           else let t = st_token_classify (drop (k + 3) token) in
             if t = ST_TYPE_LITERAL then None else Some (take (k + 3) token, t)))"

section \<open>Collecting complete continuations\<close>

text \<open>The branches of one continuation: a run of the sorted branches.\<close>

definition same_suffix :: "branch_candidate \<Rightarrow> branch_candidate \<Rightarrow> bool" where
  "same_suffix a b \<longleftrightarrow>
     st_netpattern_compare_view (np_view (ca_pattern (bc_suffix a))) (np_view (ca_pattern (bc_suffix b))) = 0"

function suffix_groups :: "branch_candidate list \<Rightarrow> branch_candidate list list" where
  "suffix_groups [] = []"
| "suffix_groups (b # bs) = (b # takeWhile (same_suffix b) bs) # suffix_groups (dropWhile (same_suffix b) bs)"
  by pat_completeness auto
termination
  by (relation "measure length") (auto simp: le_imp_less_Suc length_dropWhile_le)

text \<open>The option name that all literals of a group share and the join of their value types;
  \<open>None\<close> as soon as one is no option or has another name.\<close>

fun compound_options :: "(bytes \<times> st_token_type) option \<Rightarrow> branch_candidate list \<Rightarrow> (bytes \<times> st_token_type) option" where
  "compound_options found [] = found"
| "compound_options found (b # bs) =
     (let f = nd_fields (bc_child b) in
      if nf_type f \<noteq> ST_TYPE_LITERAL then None
      else case option_capture (nf_token f) of
        None \<Rightarrow> None
      | Some (prefix, t) \<Rightarrow>
          (case found of
             None \<Rightarrow> compound_options (Some (prefix, t)) bs
           | Some (source, joined) \<Rightarrow>
               (if prefix \<noteq> source then None else compound_options (Some (source, st_join joined t)) bs)))"

definition dominant_branch :: "branch_candidate list \<Rightarrow> branch_candidate option" where
  "dominant_branch bs =
     foldl (\<lambda>dominant b. case dominant of
         None \<Rightarrow> Some b
       | Some d \<Rightarrow>
           (if ca_count (bc_suffix b) > ca_count (bc_suffix d) \<or>
               ca_count (bc_suffix b) = ca_count (bc_suffix d) \<and>
               type_index (nf_type (nd_fields (bc_child b))) < type_index (nf_type (nd_fields (bc_child d)))
            then Some b else Some d)) None bs"

definition joined_type :: "branch_candidate list \<Rightarrow> st_token_type option" where
  "joined_type bs =
     foldl (\<lambda>joined b. let t = nf_type (nd_fields (bc_child b)) in
         case joined of None \<Rightarrow> Some t | Some j \<Rightarrow> Some (st_join j t)) None bs"

definition is_literal_branch :: "branch_candidate \<Rightarrow> bool" where
  "is_literal_branch b \<longleftrightarrow> nf_type (nd_fields (bc_child b)) = ST_TYPE_LITERAL"

definition group_total :: "branch_candidate list \<Rightarrow> nat" where
  "group_total bs = sum_list (map (\<lambda>b. ca_count (bc_suffix b)) bs)"

text \<open>A branch with its own confidence, for a continuation of its own, or with the share of the
  commands at the node.\<close>

definition local_share :: "nat \<Rightarrow> branch_candidate \<Rightarrow> rat" where
  "local_share node_count b =
     (if ca_pattern (bc_suffix b) = [] then of_nat (ca_count (bc_suffix b)) / of_nat node_count
      else ca_confidence (bc_suffix b))"

text \<open>The aggregate of a group: its continuation with a count and a share of its own.\<close>

definition aggregate_branch :: "nat \<Rightarrow> branch_candidate list \<Rightarrow> nat \<Rightarrow> st_node \<Rightarrow> branch_candidate" where
  "aggregate_branch node_count bs support child =
     \<lparr>bc_suffix = \<lparr>ca_pattern = ca_pattern (bc_suffix (hd bs)), ca_count = support,
        ca_confidence = of_nat support / of_nat node_count, ca_depth = 0\<rparr>, bc_child = child\<rparr>"

fun append_literals :: "nat \<Rightarrow> st_candidate list \<Rightarrow> branch_candidate list \<Rightarrow> st_candidate list option" where
  "append_literals node_count candidates [] = Some candidates"
| "append_literals node_count candidates (b # bs) =
     (if \<not> is_literal_branch b then append_literals node_count candidates bs
      else case append_prefixed candidates b (nf_token (nd_fields (bc_child b))) ST_TYPE_LITERAL
             (local_share node_count b) (ca_pattern (bc_suffix b) = []) of
        None \<Rightarrow> None
      | Some candidates \<Rightarrow> append_literals node_count candidates bs)"

text \<open>The typed branches of a group: one alone, or their dominant type with at least seven tenths
  of the support, or the join of all.\<close>

definition append_typed :: "nat \<Rightarrow> st_candidate list \<Rightarrow> branch_candidate list \<Rightarrow> st_candidate list option" where
  "append_typed node_count candidates bs =
     (let typed = filter (\<lambda>b. \<not> is_literal_branch b) bs; typed_total = group_total typed in
      case dominant_branch typed of
        None \<Rightarrow> Some candidates
      | Some dominant \<Rightarrow>
          (let child = bc_child dominant; dominant_type = nf_type (nd_fields child) in
           if length typed = 1 then
             append_prefixed candidates dominant (node_suggestion_token (Some child) dominant_type) dominant_type
               (local_share node_count dominant) (ca_pattern (bc_suffix dominant) = [])
           else if typed_total \<le> UINT32_MAX then
             (let prevails = ca_count (bc_suffix dominant) * 10 \<ge> typed_total * 7;
                  selected = (if prevails then dominant_type else the (joined_type typed));
                  support = (if prevails then ca_count (bc_suffix dominant) else typed_total);
                  aggregate = aggregate_branch node_count bs support child in
              append_prefixed candidates aggregate
                (node_suggestion_token (if prevails then Some child else None) selected) selected
                (ca_confidence (bc_suffix aggregate)) True)
           else Some candidates))"

definition append_group ::
    "nat \<Rightarrow> bool \<Rightarrow> st_candidate list \<Rightarrow> branch_candidate list \<Rightarrow> st_candidate list option" where
  "append_group node_count command_position candidates bs =
     (let literals = filter is_literal_branch bs;
          generalise = length literals \<ge> 2 \<and> \<not> command_position;
          fits = group_total bs \<le> UINT32_MAX;
          compound = (if generalise \<and> length literals = length bs \<and> fits
                      then case compound_options None bs of
                             None \<Rightarrow> None
                           | Some (prefix, t) \<Rightarrow> if t = ST_TYPE_LITERAL then None else Some (prefix, t)
                      else None);
          aggregate = aggregate_branch node_count bs (group_total bs) (bc_child (hd bs));
          confidence = ca_confidence (bc_suffix aggregate);
          appended =
            (case compound of
               Some (prefix, t) \<Rightarrow> append_compound_prefixed candidates aggregate prefix t confidence
             | None \<Rightarrow>
                 (if generalise \<and> fits
                  then append_prefixed candidates aggregate ''*'' ST_TYPE_ANY confidence True
                  else append_literals node_count candidates bs)) in
      case appended of
        None \<Rightarrow> None
      | Some candidates \<Rightarrow> if generalise then Some candidates else append_typed node_count candidates bs)"

fun append_groups ::
    "nat \<Rightarrow> bool \<Rightarrow> st_candidate list \<Rightarrow> branch_candidate list list \<Rightarrow> st_candidate list option" where
  "append_groups node_count command_position candidates [] = Some candidates"
| "append_groups node_count command_position candidates (g # gs) =
     (case append_group node_count command_position candidates g of
        None \<Rightarrow> None
      | Some candidates \<Rightarrow> append_groups node_count command_position candidates gs)"

text \<open>The continuations after a node; the empty pattern stands for the commands that end there.\<close>

fun collect_complete_continuations :: "st_node \<Rightarrow> bool \<Rightarrow> st_candidate list option" where
  "collect_complete_continuations (Node f cs) command_position =
     (let ending = node_terminal_count (Node f cs);
          candidates = (if ending \<noteq> 0
            then [\<lparr>ca_pattern = [], ca_count = ending, ca_confidence = 1, ca_depth = 0\<rparr>] else []) in
      case those (map (\<lambda>child. map_option (map (\<lambda>s. \<lparr>bc_suffix = s, bc_child = child\<rparr>))
             (collect_complete_continuations child False)) cs) of
        None \<Rightarrow> None
      | Some branches \<Rightarrow>
          append_groups (nf_count f) command_position candidates
            (suffix_groups (qsort_by compare_branch_candidates (concat branches))))"

section \<open>Rules and the index of their prefixes\<close>

record support_rule =
  sr_candidate :: st_candidate
  sr_tokens :: "st_token list"
  sr_terminal :: nat
  sr_scope :: nat
  sr_original :: nat
  sr_fallback :: bool

text \<open>The first prefix is the empty one and has no token. The C code keeps the children of all
  prefixes in one array, of which a prefix has the segment at its offset; here \<open>support_slots\<close>
  gives the segment.\<close>

record support_prefix =
  sx_token :: "st_token option"
  sx_metadata :: "st_metadata_entry option"
  sx_literal_types :: type_mask
  sx_parent :: nat
  sx_literal_count :: nat
  sx_compound_count :: nat
  sx_child_count :: nat
  sx_support :: nat
  sx_scope :: nat
  sx_support_unknown :: bool
  sx_scope_unknown :: bool

datatype support_match = SUPPORT_NO | SUPPORT_YES | SUPPORT_UNKNOWN

definition support_token_equal :: "st_token \<Rightarrow> st_token \<Rightarrow> bool" where
  "support_token_equal a b \<longleftrightarrow>
     tk_type a = tk_type b \<and> tk_compound a = tk_compound b \<and> tk_text a = tk_text b \<and>
     (\<not> tk_compound a \<or>
      tk_capture_type a = tk_capture_type b \<and> tk_prefix a = tk_prefix b \<and>
      tk_capture a = tk_capture b \<and> tk_suffix a = tk_suffix b)"

definition support_rule_compare :: "support_rule \<Rightarrow> support_rule \<Rightarrow> int" where
  "support_rule_compare a b =
     st_netpattern_compare_view (np_view (ca_pattern (sr_candidate a))) (np_view (ca_pattern (sr_candidate b)))"

text \<open>The token without its parameter, where the parameter depends on the value.\<close>

definition support_plain :: "st_token \<Rightarrow> st_token" where
  "support_plain token =
     (let t = (if tk_compound token then tk_capture_type token else tk_type token);
          text = (if tk_compound token then tk_capture token else tk_text token) in
      if t = ST_TYPE_LITERAL then token
      else case st_wildcard_metadata_span text t of
        None \<Rightarrow> token
      | Some m \<Rightarrow>
          (if \<not> st_metadata_requires_value m then token
           else if tk_compound token then token\<lparr>tk_capture := st_type_symbol t\<rparr>
           else token\<lparr>tk_text := st_type_symbol t\<rparr>))"

definition support_parameterized :: "st_token \<Rightarrow> bool" where
  "support_parameterized token \<longleftrightarrow>
     (let t = (if tk_compound token then tk_capture_type token else tk_type token);
          text = (if tk_compound token then tk_capture token else tk_text token) in
      t \<noteq> ST_TYPE_LITERAL \<and>
      (case st_wildcard_metadata_span text t of None \<Rightarrow> False | Some m \<Rightarrow> st_metadata_requires_value m))"

text \<open>\<open>None\<close> is a failure, \<open>Some None\<close> an empty fallback.\<close>

definition support_fallback :: "st_token list \<Rightarrow> bytes option option" where
  "support_fallback tokens =
     (if \<not> list_ex support_parameterized tokens then Some None
      else case st_netpattern_encode_owned (Some (map token_arg (map support_plain tokens))) of
        Inl _ \<Rightarrow> None
      | Inr pattern \<Rightarrow> Some (Some pattern))"

definition support_prefix_match :: "support_prefix \<Rightarrow> st_node \<Rightarrow> support_match" where
  "support_prefix_match prefix node =
     (let f = nd_fields node; token = the (sx_token prefix) in
      if tk_compound token then
        (if nf_type f \<noteq> ST_TYPE_LITERAL then SUPPORT_UNKNOWN
         else let capture = drop (length (tk_prefix token)) (nf_token f) in
           if st_pattern_wildcard_matches capture (st_token_classify capture) (tk_capture token) (tk_capture_type token)
           then SUPPORT_YES else SUPPORT_NO)
      else if tk_type token = ST_TYPE_LITERAL then
        (if nf_type f \<noteq> ST_TYPE_LITERAL then
           (if sx_literal_types prefix AND type_bit (nf_type f) \<noteq> 0 then SUPPORT_UNKNOWN else SUPPORT_NO)
         else if nf_token f = tk_text token then SUPPORT_YES else SUPPORT_NO)
      else if \<not> st_runtime_type_matches (nf_type f) (tk_type token) then SUPPORT_NO
      else case sx_metadata prefix of
        None \<Rightarrow> SUPPORT_YES
      | Some m \<Rightarrow>
          (if nf_type f \<noteq> tk_type token then SUPPORT_NO
           else if \<not> st_metadata_requires_value m then SUPPORT_YES
           else if nf_mixed f then SUPPORT_UNKNOWN
           else if nf_common f = me_id m then SUPPORT_YES else SUPPORT_NO))"

text \<open>The binary search among the literal slots.\<close>

function support_literal_child ::
    "support_prefix list \<Rightarrow> nat list \<Rightarrow> st_node \<Rightarrow> nat \<Rightarrow> nat \<Rightarrow> nat option" where
  "support_literal_child prefixes slots node lo hi =
     (if lo < hi then
        (let mid = lo + (hi - lo) div 2;
             order = bytes_compare (nf_token (nd_fields node)) (tk_text (the (sx_token (prefixes ! (slots ! mid))))) in
         if order = 0 then Some (slots ! mid)
         else if order < 0 then support_literal_child prefixes slots node lo mid
         else support_literal_child prefixes slots node (mid + 1) hi)
      else None)"
  by pat_completeness auto
termination by (relation "measure (\<lambda>(_, _, _, lo, hi). hi - lo)") auto

declare support_literal_child.simps [simp del]

definition support_prefix_order :: "bytes \<Rightarrow> bytes \<Rightarrow> int" where
  "support_prefix_order left right = bytes_compare left right"

definition support_compound_compare :: "support_prefix list \<Rightarrow> nat \<Rightarrow> nat \<Rightarrow> int" where
  "support_compound_compare prefixes left right =
     support_prefix_order (tk_prefix (the (sx_token (prefixes ! left)))) (tk_prefix (the (sx_token (prefixes ! right))))"

text \<open>The first compound slot whose option name is not before the one of the node.\<close>

function support_compound_begin :: "support_prefix list \<Rightarrow> nat list \<Rightarrow> bytes \<Rightarrow> nat \<Rightarrow> nat \<Rightarrow> nat" where
  "support_compound_begin prefixes slots name lo hi =
     (if lo < hi then
        (let mid = lo + (hi - lo) div 2 in
         if support_prefix_order (tk_prefix (the (sx_token (prefixes ! (slots ! mid))))) name < 0
         then support_compound_begin prefixes slots name (mid + 1) hi
         else support_compound_begin prefixes slots name lo mid)
      else lo)"
  by pat_completeness auto
termination by (relation "measure (\<lambda>(_, _, _, lo, hi). hi - lo)") auto

declare support_compound_begin.simps [simp del]

section \<open>The walk\<close>

text \<open>The counters have 32 bits.\<close>

definition u32_add :: "nat \<Rightarrow> nat \<Rightarrow> nat" where
  "u32_add a b = (a + b) mod 4294967296"

definition support_tally :: "st_node \<Rightarrow> bool \<Rightarrow> support_prefix \<Rightarrow> support_prefix" where
  "support_tally node unknown prefix =
     (let number = nf_count (nd_fields node); ending = node_terminal_count node in
      prefix\<lparr>sx_scope := u32_add (sx_scope prefix) number, sx_support := u32_add (sx_support prefix) ending,
        sx_scope_unknown := sx_scope_unknown prefix \<or> unknown \<and> number \<noteq> 0,
        sx_support_unknown := sx_support_unknown prefix \<or> unknown \<and> ending \<noteq> 0\<rparr>)"

text \<open>The prefixes at which the walk goes on with a child, with the new \<open>unknown\<close>: the
  exact literal, the wildcards, and the compounds under the option name of the child.\<close>

definition support_onward :: "support_prefix list \<Rightarrow> st_node \<Rightarrow> bool \<Rightarrow> nat list \<Rightarrow> (nat \<times> bool) list" where
  "support_onward prefixes child unknown slots =
     concat (map (\<lambda>j. case support_prefix_match (prefixes ! j) child of
         SUPPORT_NO \<Rightarrow> [] | SUPPORT_YES \<Rightarrow> [(j, unknown)] | SUPPORT_UNKNOWN \<Rightarrow> [(j, True)]) slots)"

definition support_steps ::
    "support_prefix list \<Rightarrow> nat list \<Rightarrow> support_prefix \<Rightarrow> st_node \<Rightarrow> bool \<Rightarrow> (nat \<times> bool) list" where
  "support_steps prefixes slots prefix child unknown =
     (let token = nf_token (nd_fields child); literal = nf_type (nd_fields child) = ST_TYPE_LITERAL;
          exact = (if literal
            then case support_literal_child prefixes slots child 0 (sx_literal_count prefix) of
                   None \<Rightarrow> [] | Some j \<Rightarrow> [(j, unknown)]
            else []);
          compound_begin = sx_child_count prefix - sx_compound_count prefix;
          closed = drop (if literal then sx_literal_count prefix else 0) (take compound_begin slots);
          compounds = drop compound_begin slots;
          named =
            (if sx_compound_count prefix = 0 then []
             else if \<not> literal then compounds
             else case span_find token CHR ''='' of
               None \<Rightarrow> []
             | Some k \<Rightarrow>
                 (let name = take (k + 1) token in
                  takeWhile (\<lambda>j. support_prefix_order (tk_prefix (the (sx_token (prefixes ! j)))) name = 0)
                    (drop (support_compound_begin prefixes compounds name 0 (sx_compound_count prefix)) compounds))) in
      exact @ support_onward prefixes child unknown closed @ support_onward prefixes child unknown named)"

fun support_walk :: "(nat \<Rightarrow> nat list) \<Rightarrow> support_prefix list \<Rightarrow> st_node \<Rightarrow> nat \<Rightarrow> bool \<Rightarrow> support_prefix list" where
  "support_walk slots prefixes (Node f cs) current unknown =
     foldl (\<lambda>ps child.
         foldl (\<lambda>ps step. support_walk slots ps child (fst step) (snd step)) ps
           (support_steps ps (slots current) (ps ! current) child unknown))
       (prefixes[current := support_tally (Node f cs) unknown (prefixes ! current)]) cs"

section \<open>Accounting\<close>

text \<open>Empty proposals and those that begin with any token are dropped.\<close>

fun support_rules :: "nat \<Rightarrow> st_candidate list \<Rightarrow> support_rule list option" where
  "support_rules number [] = Some []"
| "support_rules number (c # cs) =
     (if ca_pattern c = [] then support_rules number cs
      else case st_netpattern_decode_view (np_view (ca_pattern c)) of
        Inl _ \<Rightarrow> None
      | Inr tokens \<Rightarrow>
          (if tk_type (tokens ! 0) = ST_TYPE_ANY then support_rules number cs
           else let rule = \<lparr>sr_candidate = c, sr_tokens = tokens, sr_terminal = 0, sr_scope = 0,
                      sr_original = number, sr_fallback = False\<rparr> in
             case support_fallback tokens of
               None \<Rightarrow> None
             | Some None \<Rightarrow> map_option ((#) rule) (support_rules (number + 1) cs)
             | Some (Some pattern) \<Rightarrow>
                 (case st_netpattern_decode_view (np_view pattern) of
                    Inl _ \<Rightarrow> None
                  | Inr plain \<Rightarrow>
                      (let fallback = \<lparr>sr_candidate = \<lparr>ca_pattern = pattern, ca_count = 0, ca_confidence = 0,
                             ca_depth = ca_depth c\<rparr>, sr_tokens = plain, sr_terminal = 0, sr_scope = 0,
                             sr_original = number, sr_fallback = True\<rparr> in
                       map_option (\<lambda>rs. rule # fallback # rs) (support_rules (number + 2) cs)))))"

fun common_tokens :: "st_token list \<Rightarrow> st_token list \<Rightarrow> nat" where
  "common_tokens (a # as) (b # bs) = (if support_token_equal a b then Suc (common_tokens as bs) else 0)"
| "common_tokens _ _ = 0"

definition is_literal_token :: "st_token \<Rightarrow> bool" where
  "is_literal_token token \<longleftrightarrow> \<not> tk_compound token \<and> tk_type token = ST_TYPE_LITERAL"

definition new_prefix :: "st_token list \<Rightarrow> nat \<Rightarrow> nat \<Rightarrow> support_prefix" where
  "new_prefix tokens pos parent =
     (let token = tokens ! pos in
      \<lparr>sx_token = Some token,
       sx_metadata = (if tk_compound token \<or> is_literal_token token then None
                      else st_wildcard_metadata_span (tk_text token) (tk_type token)),
       sx_literal_types = (if is_literal_token token then st_pattern_literal_types tokens pos else 0),
       sx_parent = parent, sx_literal_count = 0, sx_compound_count = 0, sx_child_count = 0,
       sx_support = 0, sx_scope = 0, sx_support_unknown = False, sx_scope_unknown = False\<rparr>)"

definition adopt :: "st_token \<Rightarrow> support_prefix \<Rightarrow> support_prefix" where
  "adopt token parent =
     parent\<lparr>sx_child_count := sx_child_count parent + 1,
       sx_compound_count := sx_compound_count parent + (if tk_compound token then 1 else 0),
       sx_literal_count := sx_literal_count parent + (if is_literal_token token then 1 else 0)\<rparr>"

definition add_prefix ::
    "st_token list \<Rightarrow> support_prefix list \<times> nat list \<Rightarrow> nat \<Rightarrow> support_prefix list \<times> nat list" where
  "add_prefix tokens acc pos =
     (let prefixes = fst acc; path = snd acc; parent = path ! pos in
      (prefixes[parent := adopt (tokens ! pos) (prefixes ! parent)] @ [new_prefix tokens pos parent],
       path[pos + 1 := length prefixes]))"

record support_index =
  sn_prefixes :: "support_prefix list"
  sn_path :: "nat list"
  sn_previous :: "st_token list"
  sn_rules :: "support_rule list"

text \<open>One rule of the sorted order; no previous rule has no tokens in common.\<close>

definition place_rule :: "support_index \<Rightarrow> nat \<Rightarrow> support_index" where
  "place_rule s i =
     (let rule = sn_rules s ! i; tokens = sr_tokens rule; shared = common_tokens (sn_previous s) tokens in
      case foldl (add_prefix tokens) (sn_prefixes s, sn_path s) [shared..<length tokens] of
        (prefixes, path) \<Rightarrow>
          \<lparr>sn_prefixes = prefixes, sn_path = path, sn_previous = tokens,
           sn_rules = (sn_rules s)[i := rule\<lparr>sr_terminal := path ! length tokens,
             sr_scope := path ! ca_depth (sr_candidate rule)\<rparr>]\<rparr>)"

definition empty_prefix :: support_prefix where
  "empty_prefix =
     \<lparr>sx_token = None, sx_metadata = None, sx_literal_types = 0, sx_parent = 0, sx_literal_count = 0,
      sx_compound_count = 0, sx_child_count = 0, sx_support = 0, sx_scope = 0,
      sx_support_unknown = False, sx_scope_unknown = False\<rparr>"

definition support_index_of :: "support_rule list \<Rightarrow> support_index" where
  "support_index_of rules =
     foldl place_rule
       \<lparr>sn_prefixes = [empty_prefix], sn_path = replicate (ST_MAX_CMD_TOKENS + 1) 0,
        sn_previous = [], sn_rules = rules\<rparr>
       (qsort_by (\<lambda>i j. support_rule_compare (rules ! i) (rules ! j)) [0..<length rules])"

text \<open>Exact literals, closed wildcards, then the compounds in the order of their names.\<close>

definition support_slots :: "support_prefix list \<Rightarrow> nat \<Rightarrow> nat list" where
  "support_slots prefixes parent =
     (let own = filter (\<lambda>j. sx_parent (prefixes ! j) = parent) [1..<length prefixes];
          token = (\<lambda>j. the (sx_token (prefixes ! j))) in
      filter (\<lambda>j. is_literal_token (token j)) own @
      filter (\<lambda>j. \<not> tk_compound (token j) \<and> tk_type (token j) \<noteq> ST_TYPE_LITERAL) own @
      qsort_by (support_compound_compare prefixes) (filter (\<lambda>j. tk_compound (token j)) own))"

definition publish_rule :: "support_prefix list \<Rightarrow> support_rule list \<Rightarrow> support_rule \<Rightarrow> st_candidate list" where
  "publish_rule prefixes rules rule =
     (let ending = prefixes ! sr_terminal rule; scope = prefixes ! sr_scope rule;
          original = rules ! sr_original rule;
          precise_unknown = sx_support_unknown (prefixes ! sr_terminal original) \<or>
            sx_scope_unknown (prefixes ! sr_scope original) in
      if sx_support_unknown ending \<or> sx_scope_unknown scope \<or> sx_scope scope = 0 \<or>
         sr_fallback rule \<and> \<not> precise_unknown
      then []
      else [(sr_candidate rule)\<lparr>ca_count := sx_support ending,
              ca_confidence := of_nat (sx_support ending) / of_nat (sx_scope scope)\<rparr>])"

definition account_candidate_support :: "st_node \<Rightarrow> st_candidate list \<Rightarrow> st_candidate list option" where
  "account_candidate_support trunk candidates =
     (if candidates = [] then Some []
      else case support_rules 0 candidates of
        None \<Rightarrow> None
      | Some rules \<Rightarrow>
          (let index = support_index_of rules;
               prefixes = support_walk (support_slots (sn_prefixes index)) (sn_prefixes index) trunk 0 False in
           Some (concat (map (publish_rule prefixes (sn_rules index)) (sn_rules index)))))"

section \<open>Suggestions\<close>

definition collect_suggestions :: "st_learner \<Rightarrow> st_candidate list option" where
  "collect_suggestions l =
     (case collect_complete_continuations (ln_root l) True of
        None \<Rightarrow> None
      | Some complete_ones \<Rightarrow>
          (case account_candidate_support (ln_root l) complete_ones of
             None \<Rightarrow> None
           | Some accounted \<Rightarrow>
               Some (filter (\<lambda>c. \<not> (ca_count c < cf_min_support (ln_config l) \<or>
                   ca_confidence c < cf_min_confidence (ln_config l) \<or>
                   st_learner_is_netpattern_blacklisted l (np_view (ca_pattern c)))) accounted)))"

definition compare_candidates :: "st_candidate \<Rightarrow> st_candidate \<Rightarrow> int" where
  "compare_candidates a b =
     (if ca_confidence a > ca_confidence b then -1
      else if ca_confidence a < ca_confidence b then 1
      else if ca_count a > ca_count b then -1
      else if ca_count a < ca_count b then 1
      else st_netpattern_compare_view (np_view (ca_pattern a)) (np_view (ca_pattern b)))"

definition compare_candidate_patterns :: "st_candidate \<Rightarrow> st_candidate \<Rightarrow> int" where
  "compare_candidate_patterns a b =
     (let pattern_order = st_netpattern_compare_view (np_view (ca_pattern a)) (np_view (ca_pattern b)) in
      if pattern_order \<noteq> 0 then pattern_order else compare_candidates a b)"

text \<open>\<open>last\<close> is the candidate at \<^verbatim>\<open>write - 1\<close>.\<close>

fun deduplicate_after :: "st_candidate \<Rightarrow> st_candidate list \<Rightarrow> st_candidate list" where
  "deduplicate_after kept [] = []"
| "deduplicate_after kept (c # cs) =
     (if st_netpattern_compare_view (np_view (ca_pattern c)) (np_view (ca_pattern kept)) \<noteq> 0
      then c # deduplicate_after c cs else deduplicate_after kept cs)"

definition deduplicate :: "st_candidate list \<Rightarrow> st_candidate list" where
  "deduplicate candidates = (case candidates of [] \<Rightarrow> [] | c # cs \<Rightarrow> c # deduplicate_after c cs)"

record st_learner_suggestion =
  lg_pattern :: bytes
  lg_count :: nat
  lg_confidence :: rat

text \<open>The empty list stands for the null pointer.\<close>

definition st_learner_suggest :: "st_learner \<Rightarrow> st_learner_suggestion list" where
  "st_learner_suggest l =
     (case collect_suggestions l of
        None \<Rightarrow> []
      | Some candidates \<Rightarrow>
          map (\<lambda>c. \<lparr>lg_pattern = ca_pattern c, lg_count = ca_count c, lg_confidence = ca_confidence c\<rparr>)
            (take (cf_max_suggestions (ln_config l))
              (qsort_by compare_candidates (deduplicate (qsort_by compare_candidate_patterns candidates)))))"

end
