(* ===== verification/Suggest_Index.thy ===== *)
theory Suggest_Index imports Learner_Suggest Matching begin

text \<open>
  The index of the proposals: it has exactly the prefixes of the rules, each once, every prefix knows
  its token and its place, and its children are sorted as the searches of the walk need them.
\<close>

section \<open>Tokens of proposals\<close>

text \<open>Compounds of proposals end their option name at its first \<^verbatim>\<open>=\<close> and have no suffix.\<close>

definition rule_token :: "st_token \<Rightarrow> bool" where
  "rule_token t \<longleftrightarrow> wf_token t \<and>
     (tk_compound t \<longrightarrow> tk_suffix t = [] \<and> (\<exists>s. tk_prefix t = s @ [CHR ''=''] \<and> CHR ''='' \<notin> set s))"

lemma support_token_equal_iff: "wf_token a \<Longrightarrow> wf_token b \<Longrightarrow> support_token_equal a b \<longleftrightarrow> a = b"
  using wf_plain_eq [of a] wf_plain_eq [of b] wf_compound_eq [of a] wf_compound_eq [of b]
  by (cases "tk_compound a") (auto simp: support_token_equal_def)

lemma common_tokens_facts:
  "list_all wf_token as \<Longrightarrow> list_all wf_token bs \<Longrightarrow>
   common_tokens as bs \<le> length as \<and> common_tokens as bs \<le> length bs \<and>
   take (common_tokens as bs) as = take (common_tokens as bs) bs \<and>
   (\<forall>k. k \<le> length as \<longrightarrow> k \<le> length bs \<longrightarrow> take k as = take k bs \<longrightarrow> k \<le> common_tokens as bs)"
proof (induction as bs rule: common_tokens.induct)
  case (1 a as b bs)
  then show ?case
  proof (cases "a = b")
    case True
    then have eq: "support_token_equal a b" using 1 support_token_equal_iff by simp
    have "k \<le> Suc (common_tokens as bs)" if "k \<le> Suc (length as)" "k \<le> Suc (length bs)" "take k (a # as) = take k (b # bs)" for k
      using 1 that eq by (cases k) auto
    then show ?thesis using 1 eq True by auto
  next
    case False
    then have ne: "\<not> support_token_equal a b" using 1 support_token_equal_iff by simp
    have "k = 0" if "take k (a # as) = take k (b # bs)" for k
      using that False by (cases k) auto
    then show ?thesis using ne by auto
  qed
qed auto

section \<open>The order of tokens and token lists\<close>

definition token_before :: "st_token \<Rightarrow> st_token \<Rightarrow> bool" where
  "token_before a b \<longleftrightarrow> compare_keys [token_key a] [token_key b] < 0"

lemma compare_keys_Cons:
  "compare_keys (x # xs) (y # ys) = (if x = y then compare_keys xs ys else compare_keys [x] [y])"
  by (cases x; cases y) simp

lemma compare_keys_le_trans:
  "compare_keys xs ys \<le> 0 \<Longrightarrow> compare_keys ys zs \<le> 0 \<Longrightarrow> compare_keys xs zs \<le> 0"
  using compare_keys_trans [of xs ys zs] compare_keys_zero [of xs ys] compare_keys_zero [of ys zs]
  by (cases "compare_keys xs ys = 0"; cases "compare_keys ys zs = 0") auto

lemma sandwiched:
  "compare_keys xs ys \<le> 0 \<Longrightarrow> compare_keys ys zs \<le> 0 \<Longrightarrow> take k xs = take k zs \<Longrightarrow> k \<le> length xs \<Longrightarrow>
   k \<le> length zs \<Longrightarrow> k \<le> length ys \<and> take k ys = take k xs"
proof (induction k arbitrary: xs ys zs)
  case (Suc k)
  obtain x xs' zs' where x: "xs = x # xs'" "zs = x # zs'" using Suc.prems by (cases xs; cases zs) auto
  obtain y ys' where y: "ys = y # ys'" using Suc.prems x by (cases ys) auto
  have "y = x"
  proof (rule ccontr)
    assume "y \<noteq> x"
    then have ne: "x \<noteq> y" "y \<noteq> x" by blast+
    have "compare_keys [x] [y] \<le> 0" "compare_keys [y] [x] \<le> 0"
      using Suc.prems(1,2)
      unfolding x y compare_keys_Cons [of x xs' y] compare_keys_Cons [of y ys' x] if_not_P [OF ne(1)] if_not_P [OF ne(2)] .
    then have "compare_keys [x] [y] = 0" using compare_keys_antisym [of "[x]" "[y]"] by linarith
    then have "[x] = [y]" unfolding compare_keys_zero .
    then show False using ne by blast
  qed
  then have y: "ys = x # ys'" using y by simp
  have "compare_keys xs' ys' \<le> 0" "compare_keys ys' zs' \<le> 0"
    using Suc.prems(1,2) unfolding x y compare_keys_Cons [of x xs' x] compare_keys_Cons [of x ys' x] if_P [OF refl] .
  then show ?case using Suc.IH [of xs' ys' zs'] Suc.prems(3-5) unfolding x y by simp
qed simp

lemma next_token_order:
  "compare_keys xs ys \<le> 0 \<Longrightarrow> take k xs = take k ys \<Longrightarrow> k < length xs \<Longrightarrow> k < length ys \<Longrightarrow>
   compare_keys [xs ! k] [ys ! k] \<le> 0"
proof (induction k arbitrary: xs ys)
  case 0
  then obtain x xs' y ys' where x: "xs = x # xs'" "ys = y # ys'" by (cases xs; cases ys) auto
  have "compare_keys [x] [x] = 0" using compare_keys_zero by blast
  then show ?case
    using 0 unfolding x compare_keys_Cons [of x xs'] by (simp split: if_splits del: compare_keys.simps(4))
next
  case (Suc k)
  obtain x xs' ys' where x: "xs = x # xs'" "ys = x # ys'" using Suc.prems by (cases xs; cases ys) auto
  then show ?case using Suc.IH [of xs' ys'] Suc.prems unfolding x compare_keys_Cons [of x xs'] by simp
qed

section \<open>The shape of the index\<close>

abbreviation prefix_token :: "support_prefix list \<Rightarrow> nat \<Rightarrow> st_token" where
  "prefix_token ps j \<equiv> the (sx_token (ps ! j))"

definition own_slots :: "support_prefix list \<Rightarrow> nat \<Rightarrow> nat list" where
  "own_slots ps i = filter (\<lambda>j. sx_parent (ps ! j) = i) [1..<length ps]"

definition describes :: "st_token list \<Rightarrow> support_prefix \<Rightarrow> bool" where
  "describes us p \<longleftrightarrow> us \<noteq> [] \<and> sx_token p = Some (last us) \<and>
     sx_metadata p = (if tk_compound (last us) \<or> is_literal_token (last us) then None
       else st_wildcard_metadata_span (tk_text (last us)) (tk_type (last us))) \<and>
     sx_literal_types p = (if is_literal_token (last us) then st_pattern_literal_types us (length us - 1) else 0)"

text \<open>\<open>qs\<close> are the token lists of the prefixes.\<close>

definition placed :: "support_prefix list \<Rightarrow> st_token list list \<Rightarrow> nat \<Rightarrow> bool" where
  "placed ps qs j \<longleftrightarrow> sx_parent (ps ! j) < j \<and> qs ! j = qs ! sx_parent (ps ! j) @ [prefix_token ps j] \<and>
     describes (qs ! j) (ps ! j) \<and> rule_token (prefix_token ps j)"

definition counted :: "support_prefix list \<Rightarrow> nat \<Rightarrow> bool" where
  "counted ps i \<longleftrightarrow> sx_child_count (ps ! i) = length (own_slots ps i) \<and>
     sx_literal_count (ps ! i) = length (filter (\<lambda>j. is_literal_token (prefix_token ps j)) (own_slots ps i)) \<and>
     sx_compound_count (ps ! i) = length (filter (\<lambda>j. tk_compound (prefix_token ps j)) (own_slots ps i)) \<and>
     sorted_wrt (\<lambda>j k. token_before (prefix_token ps j) (prefix_token ps k)) (own_slots ps i)"

definition indexed :: "support_prefix list \<Rightarrow> st_token list list \<Rightarrow> bool" where
  "indexed ps qs \<longleftrightarrow> length qs = length ps \<and> ps \<noteq> [] \<and> qs ! 0 = [] \<and> distinct qs \<and>
     (\<forall>j. 0 < j \<and> j < length ps \<longrightarrow> placed ps qs j) \<and> (\<forall>i<length ps. counted ps i)"

lemma indexed_empty: "indexed [empty_prefix] [[]]"
  by (simp add: indexed_def counted_def own_slots_def empty_prefix_def)

lemma adopt_simps [simp]:
  "sx_token (adopt t p) = sx_token p" "sx_parent (adopt t p) = sx_parent p"
  "sx_metadata (adopt t p) = sx_metadata p" "sx_literal_types (adopt t p) = sx_literal_types p"
  by (simp_all add: adopt_def)

lemma describes_adopt [simp]: "describes us (adopt t p) \<longleftrightarrow> describes us p"
  by (simp add: describes_def)

lemma literal_types_take:
  "i < k \<Longrightarrow> st_pattern_literal_types (take k ts) i = st_pattern_literal_types ts i"
  by (simp add: st_pattern_literal_types_def Let_def)

lemma describes_new:
  assumes "take (pos + 1) tokens = us @ [t]" "pos = length us"
  shows "describes (us @ [t]) (new_prefix tokens pos parent)"
proof -
  have t: "tokens ! length us = t"
    using assms by (metis less_add_one nth_append_length nth_take)
  have "st_pattern_literal_types (us @ [t]) (length us) = st_pattern_literal_types tokens (length us)"
    using literal_types_take [of "length us" "length us + 1" tokens] assms by simp
  then show ?thesis
    unfolding assms(2) describes_def new_prefix_def t Let_def by simp
qed

lemma indexed_snoc:
  assumes idx: "indexed ps qs" and par: "par < length ps" and us: "us = qs ! par"
    and fresh: "us @ [t] \<notin> set qs" and t: "rule_token t"
    and tokens: "take (pos + 1) tokens = us @ [t]" "pos = length us"
    and before: "\<And>j. j \<in> set (own_slots ps par) \<Longrightarrow> token_before (prefix_token ps j) t"
  shows "indexed (ps[par := adopt t (ps ! par)] @ [new_prefix tokens pos par]) (qs @ [us @ [t]])"
proof -
  let ?ps = "ps[par := adopt t (ps ! par)] @ [new_prefix tokens pos par]"
  let ?qs = "qs @ [us @ [t]]" and ?n = "length ps"
  have I: "length qs = ?n" "ps \<noteq> []" "qs ! 0 = []" "distinct qs"
    "\<And>j. 0 < j \<Longrightarrow> j < ?n \<Longrightarrow> placed ps qs j" "\<And>i. i < ?n \<Longrightarrow> counted ps i"
    using idx by (auto simp: indexed_def)
  have old: "sx_parent (?ps ! j) = sx_parent (ps ! j)" "prefix_token ?ps j = prefix_token ps j" if "j < ?n" for j
    using that par by (cases "j = par"; simp add: nth_append)+
  have len: "length ?ps = Suc ?n" by simp
  have last: "?ps ! ?n = new_prefix tokens pos par" by (simp add: nth_append)
  have t': "tokens ! pos = t" using tokens by (metis less_add_one nth_append_length nth_take)
  have new: "sx_parent (new_prefix tokens pos par) = par" "sx_token (new_prefix tokens pos par) = Some t"
    by (simp_all add: new_prefix_def t' Let_def)
  have tok: "prefix_token ?ps ?n = t" and parent: "sx_parent (?ps ! ?n) = par"
    unfolding last new by simp_all
  have own: "own_slots ?ps i = own_slots ps i @ (if i = par then [?n] else [])" for i
  proof -
    have "filter (\<lambda>j. sx_parent (?ps ! j) = i) [1..<?n] = filter (\<lambda>j. sx_parent (ps ! j) = i) [1..<?n]"
      by (rule filter_cong) (simp_all add: old)
    moreover have "[1..<length ?ps] = [1..<?n] @ [?n]" using I(2) by (simp add: Suc_leI)
    ultimately show ?thesis unfolding own_slots_def by (simp add: parent del: upt_Suc)
  qed
  have in_own: "j < ?n" if "j \<in> set (own_slots ps i)" for i j using that by (simp add: own_slots_def)
  have desc: "describes (us @ [t]) (new_prefix tokens pos par)" by (rule describes_new [OF tokens])
  have placed: "placed ?ps ?qs j" if j: "0 < j" "j < Suc ?n" for j
  proof (cases "j < ?n")
    case True
    note P = I(5) [OF j(1) True, unfolded placed_def]
    have D: "describes (qs ! j) (ps ! j)" using P by blast
    have "describes (qs ! j) (?ps ! j)" using D True par by (cases "j = par") (simp_all add: nth_append)
    moreover have "?qs ! j = qs ! j" "?qs ! sx_parent (ps ! j) = qs ! sx_parent (ps ! j)"
      using True P I(1) by (simp_all add: nth_append)
    ultimately show ?thesis using P unfolding placed_def old [OF True] by simp
  next
    case False
    then have "j = ?n" using j by simp
    moreover have "?qs ! par = us" "?qs ! ?n = us @ [t]" using par us I(1) by (simp_all add: nth_append)
    ultimately show ?thesis
      using par t desc new last unfolding placed_def by simp
  qed
  have count: "counted ?ps i" if i: "i < Suc ?n" for i
  proof -
    have filters: "filter (\<lambda>j. P (prefix_token ?ps j)) (own_slots ps i) = filter (\<lambda>j. P (prefix_token ps j)) (own_slots ps i)" for P
      by (rule filter_cong) (simp_all add: old in_own)
    have sorted: "sorted_wrt (\<lambda>j k. token_before (prefix_token ?ps j) (prefix_token ?ps k)) (own_slots ?ps i)"
      if i: "i < ?n"
    proof -
      have "sorted_wrt (\<lambda>j k. token_before (prefix_token ps j) (prefix_token ps k)) (own_slots ps i)"
        using I(6) [OF i] by (simp add: counted_def)
      then have "sorted_wrt (\<lambda>j k. token_before (prefix_token ?ps j) (prefix_token ?ps k)) (own_slots ps i)"
        by (rule sorted_wrt_mono_rel [rotated]) (simp add: old in_own)
      then show ?thesis unfolding own using before by (simp add: sorted_wrt_append tok old in_own)
    qed
    show ?thesis
    proof (cases "i < ?n")
      case True
      note C = I(6) [OF True, unfolded counted_def]
      have "sx_child_count (?ps ! i) = sx_child_count (ps ! i) + (if i = par then 1 else 0)"
        "sx_compound_count (?ps ! i) = sx_compound_count (ps ! i) + (if i = par \<and> tk_compound t then 1 else 0)"
        "sx_literal_count (?ps ! i) = sx_literal_count (ps ! i) + (if i = par \<and> is_literal_token t then 1 else 0)"
        using True par by (cases "i = par"; simp add: nth_append adopt_def)+
      then show ?thesis
        using C sorted [OF True] filters tok unfolding counted_def own by simp
    next
      case False
      then have i: "i = ?n" using i by simp
      have "sx_parent (ps ! j) \<noteq> i" if "0 < j" "j < ?n" for j
        using I(5) [OF that, unfolded placed_def, THEN conjunct1] that(2) i by linarith
      then have "own_slots ps i = []" by (simp add: own_slots_def filter_empty_conv)
      moreover have "sx_child_count (new_prefix tokens pos par) = 0" "sx_literal_count (new_prefix tokens pos par) = 0"
        "sx_compound_count (new_prefix tokens pos par) = 0"
        by (simp_all add: new_prefix_def Let_def)
      ultimately show ?thesis using i par last by (simp add: counted_def own)
    qed
  qed
  have "distinct ?qs" using I(4) fresh by simp
  then show ?thesis using I(1-3) placed count par by (simp add: indexed_def nth_append)
qed

section \<open>Placing the rules\<close>

text \<open>The rules placed so far are not after the next one.\<close>

definition in_order :: "st_token list list \<Rightarrow> bool" where
  "in_order tss \<longleftrightarrow> sorted_wrt (\<lambda>us ts. compare_keys (map token_key us) (map token_key ts) \<le> 0) tss \<and>
     list_all (list_all rule_token) tss"

definition prefixes_of :: "st_token list list \<Rightarrow> st_token list set" where
  "prefixes_of tss = insert [] {take k ts |k ts. ts \<in> set tss \<and> k \<le> length ts}"

definition leads :: "st_token list list \<Rightarrow> nat list \<Rightarrow> st_token list \<Rightarrow> nat \<Rightarrow> bool" where
  "leads qs trail ts n \<longleftrightarrow> (\<forall>k\<le>n. k < length trail \<and> trail ! k < length qs \<and> qs ! (trail ! k) = take k ts)"

lemma token_key_take_inject:
  "list_all rule_token us \<Longrightarrow> list_all rule_token ts \<Longrightarrow>
   take k (map token_key us) = take k (map token_key ts) \<longleftrightarrow> take k us = take k ts"
  using map_token_key_inject [of "take k us" "take k ts"]
  by (simp add: take_map list_all_iff rule_token_def) (metis in_set_takeD)

text \<open>What the order gives for the next rule: prefixes it does not share with its predecessor are
  new, and it comes after the siblings.\<close>

lemma next_rule_new:
  assumes ord: "in_order (tss @ [ts])" and k: "common_tokens (case tss of [] \<Rightarrow> [] | _ \<Rightarrow> last tss) ts < k" "k \<le> length ts"
  shows "take k ts \<notin> prefixes_of tss"
proof
  assume "take k ts \<in> prefixes_of tss"
  then obtain us j where us: "us \<in> set tss" "j \<le> length us" "take k ts = take j us"
    using k by (auto simp: prefixes_of_def)
  have j: "j = k" using arg_cong [OF us(3), of length] us(2) k by simp
  let ?p = "last tss"
  have ne: "tss \<noteq> []" using us by auto
  have wf: "list_all rule_token ts" "list_all rule_token us" "list_all rule_token ?p"
    using ord us(1) ne by (auto simp: in_order_def list_all_iff)
  have "compare_keys (map token_key ?p) (map token_key ts) \<le> 0"
    "compare_keys (map token_key us) (map token_key ?p) \<le> 0 \<or> us = ?p"
  proof -
    obtain fr where fr: "tss = fr @ [?p]" using ne by (metis append_butlast_last_id)
    then have "us \<in> set fr \<or> us = ?p" using us(1) by (metis UnE set_append set_ConsD empty_iff list.set(1))
    moreover have "sorted_wrt (\<lambda>us ts. compare_keys (map token_key us) (map token_key ts) \<le> 0) ((fr @ [?p]) @ [ts])"
      using ord fr by (simp add: in_order_def)
    ultimately show "compare_keys (map token_key ?p) (map token_key ts) \<le> 0"
      "compare_keys (map token_key us) (map token_key ?p) \<le> 0 \<or> us = ?p"
      by (auto simp: sorted_wrt_append)
  qed
  moreover have "take k (map token_key us) = take k (map token_key ts)" using us(3) j by (simp add: take_map)
  ultimately have "k \<le> length ?p \<and> take k (map token_key ?p) = take k (map token_key us)"
    using sandwiched [of "map token_key us" "map token_key ?p" "map token_key ts" k] us j k by auto
  then have "k \<le> length ?p" "take k ?p = take k ts"
    using token_key_take_inject [OF wf(3,2)] us(3) j by auto
  then have "k \<le> common_tokens ?p ts"
    using common_tokens_facts [of ?p ts] wf k by (simp add: list_all_iff rule_token_def)
  then show False using k ne by (simp split: list.splits)
qed

lemma next_rule_after:
  assumes ord: "in_order (tss @ [ts])" and k: "k < length ts"
    and us: "take k ts @ [u] \<in> prefixes_of tss" "u \<noteq> ts ! k"
  shows "token_before u (ts ! k)"
proof -
  obtain vs j where vs: "vs \<in> set tss" "j \<le> length vs" "take k ts @ [u] = take j vs"
    using us by (auto simp: prefixes_of_def)
  have j: "j = Suc k" using arg_cong [OF vs(3), of length] vs(2) k by simp
  have u: "u = vs ! k" "take k ts = take k vs"
    using vs(2,3) j by (simp_all add: take_Suc_conv_app_nth)
  have wf: "list_all rule_token ts" "list_all rule_token vs"
    using ord vs(1) by (auto simp: in_order_def list_all_iff)
  have "compare_keys (map token_key vs) (map token_key ts) \<le> 0"
    using ord vs(1) by (auto simp: in_order_def sorted_wrt_append)
  moreover have "take k (map token_key vs) = take k (map token_key ts)" using u(2) by (simp add: take_map)
  ultimately have "compare_keys [token_key u] [token_key (ts ! k)] \<le> 0"
    using next_token_order [of "map token_key vs" "map token_key ts" k] vs(2) j k u(1) by simp
  moreover have "[token_key u] \<noteq> [token_key (ts ! k)]"
    using wf_token_key_inject [of u "ts ! k"] us(2) wf vs(2) j k u(1) by (auto simp: list_all_length rule_token_def)
  ultimately show ?thesis
    using compare_keys_zero [of "[token_key u]" "[token_key (ts ! k)]"] unfolding token_before_def by linarith
qed

lemma empty_range: "{f k |k. n < k \<and> k \<le> (n :: nat)} = {}"
  by auto

lemma longer_than_take: "k \<le> m \<Longrightarrow> m < length ts \<Longrightarrow> take m ts @ [u] \<noteq> take k ts"
proof
  assume "k \<le> m" "m < length ts" "take m ts @ [u] = take k ts"
  then have "length (take m ts @ [u]) = length (take k ts)" by metis
  then show False using \<open>k \<le> m\<close> \<open>m < length ts\<close> by simp
qed

text \<open>The prefixes of one rule after the first \<open>shared\<close> ones.\<close>

lemma add_prefixes:
  assumes idx: "indexed ps qs" and set: "set qs = prefixes_of tss" and ord: "in_order (tss @ [ts])"
    and lead: "leads qs trail ts n" and len: "length ts < length trail"
    and n: "common_tokens (case tss of [] \<Rightarrow> [] | _ \<Rightarrow> last tss) ts \<le> n" "n \<le> m" "m \<le> length ts"
  shows "\<exists>ps' qs' trail'. foldl (add_prefix ts) (ps, trail) [n..<m] = (ps', trail') \<and> indexed ps' (qs @ qs') \<and>
    set (qs @ qs') = prefixes_of tss \<union> {take k ts |k. n < k \<and> k \<le> m} \<and> leads (qs @ qs') trail' ts m \<and>
    length trail' = length trail \<and> (\<forall>j\<le>n. trail' ! j = trail ! j)"
  using n(2,3)
proof (induction m)
  case 0
  then show ?case using assms by (intro exI [of _ ps] exI [of _ "[] :: st_token list list"] exI [of _ trail]) auto
next
  case (Suc m)
  show ?case
  proof (cases "n = Suc m")
    case True
    then show ?thesis
      using idx set lead
      by (intro exI [of _ ps] exI [of _ "[] :: st_token list list"] exI [of _ trail]) (simp add: True empty_range)
  next
    case False
    then have nm: "n \<le> m" "m < length ts" using Suc.prems by simp_all
    obtain ps1 qs1 t1 where IH: "foldl (add_prefix ts) (ps, trail) [n..<m] = (ps1, t1)" "indexed ps1 (qs @ qs1)"
      "set (qs @ qs1) = prefixes_of tss \<union> {take k ts |k. n < k \<and> k \<le> m}" "leads (qs @ qs1) t1 ts m"
      "length t1 = length trail" "\<forall>j\<le>n. t1 ! j = trail ! j"
      using Suc.IH nm by auto
    let ?qs = "qs @ qs1" and ?par = "t1 ! m" and ?t = "ts ! m"
    have L: "length ?qs = length ps1" "?par < length ?qs" "?qs ! ?par = take m ts" "m < length t1"
      using IH(2,4) by (simp_all add: indexed_def leads_def)
    have step: "take (Suc m) ts = take m ts @ [?t]" using nm by (simp add: take_Suc_conv_app_nth)
    have "take (Suc m) ts \<notin> prefixes_of tss"
      using next_rule_new [OF ord, of "Suc m"] n(1) nm by simp
    moreover have "take (Suc m) ts \<noteq> take k ts" if "k \<le> m" for k
      using longer_than_take [of k m ts ?t] that nm step by simp
    ultimately have fresh: "take m ts @ [?t] \<notin> set ?qs" unfolding IH(3) step [symmetric] by blast
    have rule: "rule_token ?t" using ord nm by (simp add: in_order_def list_all_iff)
    have before: "token_before (prefix_token ps1 j) ?t" if j: "j \<in> set (own_slots ps1 ?par)" for j
    proof -
      have j': "0 < j" "j < length ps1" "sx_parent (ps1 ! j) = ?par" using j by (auto simp: own_slots_def)
      then have "?qs ! j = take m ts @ [prefix_token ps1 j]"
        using IH(2) L(3) by (simp add: indexed_def placed_def)
      moreover have "?qs ! j \<in> set ?qs" using j' L(1) by (metis nth_mem)
      ultimately have mem: "take m ts @ [prefix_token ps1 j] \<in> set ?qs" by simp
      then have ne: "prefix_token ps1 j \<noteq> ?t" using fresh by metis
      have "take m ts @ [prefix_token ps1 j] \<noteq> take k ts" if "k \<le> m" for k
        by (rule longer_than_take [OF that nm(2)])
      then have "take m ts @ [prefix_token ps1 j] \<in> prefixes_of tss" using mem unfolding IH(3) by blast
      then show ?thesis using next_rule_after [OF ord nm(2)] ne by blast
    qed
    have new: "indexed (ps1[?par := adopt ?t (ps1 ! ?par)] @ [new_prefix ts m ?par]) (?qs @ [take m ts @ [?t]])"
      using L(2) nm
      by (intro indexed_snoc [OF IH(2) _ L(3) [symmetric] fresh rule]) (simp_all add: L(1) step before del: length_append)
    have leads: "leads (?qs @ [take m ts @ [?t]]) (t1[m + 1 := length ps1]) ts (Suc m)"
      unfolding leads_def
    proof (intro allI impI)
      fix k assume k: "k \<le> Suc m"
      show "k < length (t1[m + 1 := length ps1]) \<and> t1[m + 1 := length ps1] ! k < length (?qs @ [take m ts @ [?t]]) \<and>
          (?qs @ [take m ts @ [?t]]) ! (t1[m + 1 := length ps1] ! k) = take k ts"
      proof (cases "k = Suc m")
        case True
        have "(?qs @ [take m ts @ [?t]]) ! length ps1 = take m ts @ [?t]"
          by (subst L(1) [symmetric]) (rule nth_append_length)
        then show ?thesis using True IH(5) len nm L(1) step by simp
      next
        case False
        then have old: "k < length t1" "t1 ! k < length ?qs" "?qs ! (t1 ! k) = take k ts"
          using IH(4) k unfolding leads_def by (metis le_SucE)+
        have "(?qs @ [take m ts @ [?t]]) ! (t1 ! k) = take k ts"
          using old(3) unfolding nth_append [of ?qs] if_P [OF old(2)] .
        then show ?thesis using False old(1,2) by simp
      qed
    qed
    have "{take k ts |k. n < k \<and> k \<le> Suc m} = insert (take (Suc m) ts) {take k ts |k. n < k \<and> k \<le> m}"
      using nm by (auto simp: le_Suc_eq)
    then have set': "set (qs @ (qs1 @ [take m ts @ [?t]])) = prefixes_of tss \<union> {take k ts |k. n < k \<and> k \<le> Suc m}"
      using IH(3) step by auto
    have "foldl (add_prefix ts) (ps, trail) [n..<Suc m] = add_prefix ts (ps1, t1) m" using IH(1) nm by simp
    then have step_done: "foldl (add_prefix ts) (ps, trail) [n..<Suc m] =
        (ps1[?par := adopt ?t (ps1 ! ?par)] @ [new_prefix ts m ?par], t1[m + 1 := length ps1])"
      by (simp add: add_prefix_def Let_def del: upt_Suc)
    show ?thesis
      unfolding step_done using new leads set' IH(5,6) nm
      by (intro exI [of _ "ps1[?par := adopt ?t (ps1 ! ?par)] @ [new_prefix ts m ?par]"]
          exI [of _ "qs1 @ [take m ts @ [?t]]"] exI [of _ "t1[m + 1 := length ps1]"])
        simp
  qed
qed

text \<open>The index after the rules with the tokens \<open>tss\<close>.\<close>

definition index_state :: "support_index \<Rightarrow> st_token list list \<Rightarrow> st_token list list \<Rightarrow> bool" where
  "index_state s qs tss \<longleftrightarrow> indexed (sn_prefixes s) qs \<and> set qs = prefixes_of tss \<and>
     sn_previous s = (case tss of [] \<Rightarrow> [] | _ \<Rightarrow> last tss) \<and> leads qs (sn_path s) (sn_previous s) (length (sn_previous s)) \<and>
     length (sn_path s) = ST_MAX_CMD_TOKENS + 1"

text \<open>Where a rule ends in the index, and where its scope is.\<close>

definition settled :: "st_token list list \<Rightarrow> support_rule \<Rightarrow> bool" where
  "settled qs r \<longleftrightarrow> sr_terminal r < length qs \<and> qs ! sr_terminal r = sr_tokens r \<and>
     sr_scope r < length qs \<and> qs ! sr_scope r = take (ca_depth (sr_candidate r)) (sr_tokens r)"

definition same_rule :: "support_rule \<Rightarrow> support_rule \<Rightarrow> bool" where
  "same_rule r r' \<longleftrightarrow> sr_candidate r' = sr_candidate r \<and> sr_tokens r' = sr_tokens r \<and>
     sr_original r' = sr_original r \<and> sr_fallback r' = sr_fallback r"

lemma prefixes_of_snoc: "prefixes_of (tss @ [ts]) = prefixes_of tss \<union> {take k ts |k. k \<le> length ts}"
  by (auto simp: prefixes_of_def)

lemma settled_append: "settled qs r \<Longrightarrow> settled (qs @ qs') r"
  by (simp add: settled_def nth_append)

lemma place_rule_index:
  assumes st: "index_state s qs tss" and ord: "in_order (tss @ [ts])" and ts: "sr_tokens (sn_rules s ! i) = ts"
    and len: "length ts \<le> ST_MAX_CMD_TOKENS" and depth: "ca_depth (sr_candidate (sn_rules s ! i)) \<le> length ts"
    and i: "i < length (sn_rules s)"
  shows "\<exists>qs' r. index_state (place_rule s i) (qs @ qs') (tss @ [ts]) \<and>
    sn_rules (place_rule s i) = (sn_rules s)[i := r] \<and> same_rule (sn_rules s ! i) r \<and> settled (qs @ qs') r"
proof -
  let ?n = "common_tokens (sn_previous s) ts"
  have I: "indexed (sn_prefixes s) qs" "set qs = prefixes_of tss" "sn_previous s = (case tss of [] \<Rightarrow> [] | _ \<Rightarrow> last tss)"
    "leads qs (sn_path s) (sn_previous s) (length (sn_previous s))" "length (sn_path s) = ST_MAX_CMD_TOKENS + 1"
    using st by (auto simp: index_state_def)
  have wf: "list_all wf_token ts" "list_all wf_token (sn_previous s)"
    using ord I(3) by (auto simp: in_order_def list_all_iff rule_token_def split: list.splits)
  have common: "?n \<le> length (sn_previous s)" "?n \<le> length ts" "take ?n (sn_previous s) = take ?n ts"
    using common_tokens_facts [OF wf(2,1)] by simp_all
  have "leads qs (sn_path s) ts ?n"
    unfolding leads_def
  proof (intro allI impI)
    fix k assume k: "k \<le> ?n"
    then have "take k ts = take k (sn_previous s)" using common(3) by (metis min.absorb1 take_take)
    then show "k < length (sn_path s) \<and> sn_path s ! k < length qs \<and> qs ! (sn_path s ! k) = take k ts"
      using I(4) k common(1) by (simp add: leads_def)
  qed
  then obtain ps' qs' trail where new: "foldl (add_prefix ts) (sn_prefixes s, sn_path s) [?n..<length ts] = (ps', trail)"
    "indexed ps' (qs @ qs')" "set (qs @ qs') = prefixes_of tss \<union> {take k ts |k. ?n < k \<and> k \<le> length ts}"
    "leads (qs @ qs') trail ts (length ts)" "length trail = length (sn_path s)"
    using add_prefixes [OF I(1,2) ord, of "sn_path s" ?n "length ts"] I(3,5) len common(2) by (auto simp: less_Suc_eq_le)
  have "take k ts \<in> set qs" if "k \<le> ?n" for k
    using \<open>leads qs (sn_path s) ts ?n\<close> that unfolding leads_def by (metis nth_mem)
  then have "{take k ts |k. k \<le> length ts} \<subseteq> prefixes_of tss \<union> {take k ts |k. ?n < k \<and> k \<le> length ts}"
    using I(2) by (auto simp: not_le [symmetric])
  then have set': "set (qs @ qs') = prefixes_of (tss @ [ts])"
    unfolding new(3) prefixes_of_snoc by blast
  define r where "r = (sn_rules s ! i)\<lparr>sr_terminal := trail ! length ts, sr_scope := trail ! ca_depth (sr_candidate (sn_rules s ! i))\<rparr>"
  have place: "place_rule s i = \<lparr>sn_prefixes = ps', sn_path = trail, sn_previous = ts, sn_rules = (sn_rules s)[i := r]\<rparr>"
    using new(1) by (simp add: place_rule_def ts Let_def r_def)
  have "settled (qs @ qs') r"
    using new(4) depth ts by (simp add: settled_def leads_def r_def)
  moreover have "same_rule (sn_rules s ! i) r" by (simp add: same_rule_def r_def)
  moreover have "(case tss @ [ts] of [] \<Rightarrow> [] | _ \<Rightarrow> last (tss @ [ts])) = ts" by (cases tss) simp_all
  then have "index_state (place_rule s i) (qs @ qs') (tss @ [ts])"
    using new(2,4,5) set' I(5) by (simp add: index_state_def place)
  ultimately show ?thesis unfolding place by auto
qed

text \<open>All rules, in an order of their numbers.\<close>

definition rules_fit :: "support_rule list \<Rightarrow> bool" where
  "rules_fit rules \<longleftrightarrow> list_all (\<lambda>r. length (sr_tokens r) \<le> ST_MAX_CMD_TOKENS \<and>
     ca_depth (sr_candidate r) \<le> length (sr_tokens r)) rules"

lemma place_rules:
  assumes st: "index_state s qs []" and fit: "rules_fit (sn_rules s)" and ks: "distinct ks" "set ks \<subseteq> {..<length (sn_rules s)}"
    and ord: "in_order (map (\<lambda>i. sr_tokens (sn_rules s ! i)) ks)"
  shows "\<exists>qs'. index_state (foldl place_rule s ks) qs' (map (\<lambda>i. sr_tokens (sn_rules s ! i)) ks) \<and>
    length (sn_rules (foldl place_rule s ks)) = length (sn_rules s) \<and>
    (\<forall>i<length (sn_rules s). same_rule (sn_rules s ! i) (sn_rules (foldl place_rule s ks) ! i)) \<and>
    (\<forall>i\<in>set ks. settled qs' (sn_rules (foldl place_rule s ks) ! i))"
  using ks ord
proof (induction ks rule: rev_induct)
  case Nil
  then show ?case using st by (auto simp: same_rule_def intro: exI [of _ qs])
next
  case (snoc k ks)
  let ?s = "foldl place_rule s ks" and ?tss = "map (\<lambda>i. sr_tokens (sn_rules s ! i)) ks"
  have ord: "in_order (?tss @ [sr_tokens (sn_rules s ! k)])" using snoc.prems by simp
  then have "in_order ?tss" by (simp add: in_order_def sorted_wrt_append)
  then obtain qs1 where IH: "index_state ?s qs1 ?tss" "length (sn_rules ?s) = length (sn_rules s)"
    "\<forall>i<length (sn_rules s). same_rule (sn_rules s ! i) (sn_rules ?s ! i)" "\<forall>i\<in>set ks. settled qs1 (sn_rules ?s ! i)"
    using snoc.IH snoc.prems by auto
  have k: "k < length (sn_rules s)" "k \<notin> set ks" using snoc.prems by auto
  then have same: "same_rule (sn_rules s ! k) (sn_rules ?s ! k)" using IH(3) by blast
  then have fits: "length (sr_tokens (sn_rules s ! k)) \<le> ST_MAX_CMD_TOKENS"
    "ca_depth (sr_candidate (sn_rules ?s ! k)) \<le> length (sr_tokens (sn_rules s ! k))"
    "sr_tokens (sn_rules ?s ! k) = sr_tokens (sn_rules s ! k)"
    using fit k(1) by (simp_all add: rules_fit_def list_all_length same_rule_def)
  obtain qs' r where new: "index_state (place_rule ?s k) (qs1 @ qs') (?tss @ [sr_tokens (sn_rules s ! k)])"
    "sn_rules (place_rule ?s k) = (sn_rules ?s)[k := r]" "same_rule (sn_rules ?s ! k) r" "settled (qs1 @ qs') r"
    using place_rule_index [OF IH(1) ord fits(3,1,2)] k(1) IH(2) by auto
  have "same_rule (sn_rules s ! i) (sn_rules (place_rule ?s k) ! i)" if "i < length (sn_rules s)" for i
    using IH(3) that new(3) IH(2) unfolding new(2) by (cases "i = k") (auto simp: same_rule_def)
  moreover have "settled (qs1 @ qs') (sn_rules (place_rule ?s k) ! i)" if "i \<in> set (ks @ [k])" for i
    using that IH(2,4) k new(4) settled_append unfolding new(2) by (cases "i = k") auto
  ultimately show ?case using new(1,2) IH(2) by (intro exI [of _ "qs1 @ qs'"]) simp
qed

section \<open>The whole index\<close>

definition rule_decodes :: "support_rule \<Rightarrow> bool" where
  "rule_decodes r \<longleftrightarrow> st_netpattern_decode_view (np_view (ca_pattern (sr_candidate r))) = Inr (sr_tokens r) \<and>
     list_all rule_token (sr_tokens r) \<and> ca_depth (sr_candidate r) \<le> length (sr_tokens r)"

lemma rule_compare_keys:
  "rule_decodes a \<Longrightarrow> rule_decodes b \<Longrightarrow>
   support_rule_compare a b = compare_keys (map token_key (sr_tokens a)) (map token_key (sr_tokens b))"
  by (simp add: rule_decodes_def support_rule_compare_def compare_view_canonical)

interpretation rule_order: comparator support_rule_compare rule_decodes
proof
  fix a b c
  show "support_rule_compare a b \<le> 0 \<or> support_rule_compare b a \<le> 0" if "rule_decodes a" "rule_decodes b"
    using compare_keys_antisym [of "map token_key (sr_tokens a)" "map token_key (sr_tokens b)"] that
    by (simp add: rule_compare_keys) linarith
  show "support_rule_compare a c \<le> 0"
    if "rule_decodes a" "rule_decodes b" "rule_decodes c" "support_rule_compare a b \<le> 0" "support_rule_compare b c \<le> 0"
    using compare_keys_le_trans [of "map token_key (sr_tokens a)" "map token_key (sr_tokens b)" "map token_key (sr_tokens c)"] that
    by (simp add: rule_compare_keys)
qed

interpretation rule_number_order: comparator "\<lambda>i j. support_rule_compare (rules ! i) (rules ! j)" "\<lambda>i. rule_decodes (rules ! i)" for rules
  by unfold_locales (use rule_order.total_order rule_order.transitive in blast)+

lemma index_of_rules:
  assumes "list_all rule_decodes rules"
  shows "\<exists>qs. indexed (sn_prefixes (support_index_of rules)) qs \<and> length (sn_rules (support_index_of rules)) = length rules \<and>
    (\<forall>i<length rules. same_rule (rules ! i) (sn_rules (support_index_of rules) ! i) \<and>
      settled qs (sn_rules (support_index_of rules) ! i))"
proof -
  let ?ks = "qsort_by (\<lambda>i j. support_rule_compare (rules ! i) (rules ! j)) [0..<length rules]"
  let ?s = "\<lparr>sn_prefixes = [empty_prefix], sn_path = replicate (ST_MAX_CMD_TOKENS + 1) 0, sn_previous = [], sn_rules = rules\<rparr>"
  have dec: "rule_decodes (rules ! i)" if "i < length rules" for i using assms that by (simp add: list_all_length)
  have "index_state ?s [[]] []"
    by (simp add: index_state_def indexed_empty prefixes_of_def leads_def)
  moreover have "rules_fit (sn_rules ?s)"
    using assms by (auto simp: rules_fit_def rule_decodes_def decode_view_Inr_iff list_all_iff)
  moreover have "in_order (map (\<lambda>i. sr_tokens (rules ! i)) ?ks)"
  proof -
    have "sorted_wrt (\<lambda>i j. support_rule_compare (rules ! i) (rules ! j) \<le> 0) ?ks"
      by (rule rule_number_order.qsort_sorted) (simp add: dec)
    then have "sorted_wrt (\<lambda>i j. compare_keys (map token_key (sr_tokens (rules ! i))) (map token_key (sr_tokens (rules ! j))) \<le> 0) ?ks"
      by (rule sorted_wrt_mono_rel [rotated]) (simp add: dec rule_compare_keys)
    then show ?thesis using dec by (auto simp: in_order_def sorted_wrt_map list_all_iff rule_decodes_def)
  qed
  ultimately show ?thesis
    using place_rules [of ?s "[[]]" ?ks] by (auto simp: support_index_of_def index_state_def lessThan_atLeast0)
qed

end
