(* ===== verification/Suggest_Walk.thy ===== *)
theory Suggest_Walk imports Suggest_Index begin

text \<open>
  The walk of the trie along the index. The two binary searches leave out no prefix that can match, so
  that a child goes on at exactly the prefixes whose last token does not rule it out; and what the walk
  adds to a prefix is what a descent of the trie along the tokens of that prefix alone would add.
\<close>

section \<open>The searches\<close>

lemma bytes_compare_le: "bytes_compare a b \<le> 0 \<longleftrightarrow> bytes_compare a b < 0 \<or> a = b"
  using bytes_compare_eq_0 [of a b] by linarith

lemma bytes_compare_le_trans:
  "bytes_compare a b \<le> 0 \<Longrightarrow> bytes_compare b c \<le> 0 \<Longrightarrow> bytes_compare a c \<le> 0"
  using bytes_compare_trans [of a b c] unfolding bytes_compare_le by blast

lemma literal_search:
  assumes "\<forall>m m'. lo \<le> m \<and> m < m' \<and> m' < hi \<longrightarrow>
    bytes_compare (tk_text (prefix_token ps (slots ! m))) (tk_text (prefix_token ps (slots ! m'))) < 0"
  shows "case support_literal_child ps slots node lo hi of
      None \<Rightarrow> \<forall>m. lo \<le> m \<and> m < hi \<longrightarrow> tk_text (prefix_token ps (slots ! m)) \<noteq> nf_token (nd_fields node)
    | Some j \<Rightarrow> \<exists>m. lo \<le> m \<and> m < hi \<and> j = slots ! m \<and> tk_text (prefix_token ps (slots ! m)) = nf_token (nd_fields node)"
  using assms
proof (induction ps slots node lo hi rule: support_literal_child.induct)
  case (1 ps slots node lo hi)
  let ?T = "\<lambda>m. tk_text (prefix_token ps (slots ! m))" and ?s = "nf_token (nd_fields node)"
  let ?mid = "lo + (hi - lo) div 2"
  show ?case
  proof (cases "lo < hi")
    case False
    then show ?thesis by (subst support_literal_child.simps) auto
  next
    case True
    then have mid: "lo \<le> ?mid" "?mid < hi" by auto
    have before: "bytes_compare (?T m) (?T ?mid) < 0" if "lo \<le> m" "m < ?mid" for m using "1.prems" that mid by blast
    have after: "bytes_compare (?T ?mid) (?T m) < 0" if "?mid < m" "m < hi" for m using "1.prems" that mid by simp
    consider "bytes_compare ?s (?T ?mid) = 0" | "bytes_compare ?s (?T ?mid) < 0" | "bytes_compare ?s (?T ?mid) > 0" by linarith
    then show ?thesis
    proof cases
      case 1
      then show ?thesis
        using True mid by (subst support_literal_child.simps) (auto simp: Let_def intro!: exI [of _ ?mid])
    next
      case 2
      have upper: "?T m \<noteq> ?s" if "?mid \<le> m" "m < hi" for m
        using 2 after [of m] bytes_compare_trans [of ?s "?T ?mid" ?s] that bytes_compare_self [of ?s] by (cases "m = ?mid") force+
      have eq: "support_literal_child ps slots node lo hi = support_literal_child ps slots node lo ?mid"
        using True 2 by (subst support_literal_child.simps) (simp add: Let_def del: bytes_compare_eq_0)
      have R: "case support_literal_child ps slots node lo ?mid of
          None \<Rightarrow> \<forall>m. lo \<le> m \<and> m < ?mid \<longrightarrow> ?T m \<noteq> ?s
        | Some j \<Rightarrow> \<exists>m. lo \<le> m \<and> m < ?mid \<and> j = slots ! m \<and> ?T m = ?s"
        by (rule "1.IH"(1) [OF True refl refl]) (use 2 "1.prems" mid in auto)
      show ?thesis
      proof (cases "support_literal_child ps slots node lo ?mid")
        case None
        then have "?T m \<noteq> ?s" if "lo \<le> m" "m < hi" for m using R upper [of m] that by (cases "m < ?mid") simp_all
        then show ?thesis using None eq by simp
      next
        case (Some j)
        then show ?thesis using R eq mid(2) less_trans by fastforce
      qed
    next
      case 3
      then have less: "bytes_compare (?T ?mid) ?s < 0" using bytes_compare_antisym [of ?s "?T ?mid"] by simp
      have lower: "?T m \<noteq> ?s" if "lo \<le> m" "m \<le> ?mid" for m
        using less before [of m] bytes_compare_trans [of ?s "?T ?mid" ?s] that bytes_compare_self [of ?s] by (cases "m = ?mid") force+
      have eq: "support_literal_child ps slots node lo hi = support_literal_child ps slots node (?mid + 1) hi"
        using True 3 by (subst support_literal_child.simps) (simp add: Let_def del: bytes_compare_eq_0)
      have R: "case support_literal_child ps slots node (?mid + 1) hi of
          None \<Rightarrow> \<forall>m. ?mid + 1 \<le> m \<and> m < hi \<longrightarrow> ?T m \<noteq> ?s
        | Some j \<Rightarrow> \<exists>m. ?mid + 1 \<le> m \<and> m < hi \<and> j = slots ! m \<and> ?T m = ?s"
        by (rule "1.IH"(2) [OF True refl refl]) (use 3 "1.prems" mid in auto)
      show ?thesis
      proof (cases "support_literal_child ps slots node (?mid + 1) hi")
        case None
        then have "?T m \<noteq> ?s" if "lo \<le> m" "m < hi" for m using R lower [of m] that by (cases "m \<le> ?mid") simp_all
        then show ?thesis using None eq by simp
      next
        case (Some j)
        then obtain m where "?mid + 1 \<le> m" "m < hi" "j = slots ! m" "?T m = ?s" using R by auto
        then show ?thesis using Some eq by (auto intro!: exI [of _ m])
      qed
    qed
  qed
qed

lemma compound_search:
  assumes "\<forall>m m'. lo \<le> m \<and> m \<le> m' \<and> m' < hi \<longrightarrow>
    bytes_compare (tk_prefix (prefix_token ps (slots ! m))) (tk_prefix (prefix_token ps (slots ! m'))) \<le> 0" "lo \<le> hi"
  shows "lo \<le> support_compound_begin ps slots name lo hi \<and> support_compound_begin ps slots name lo hi \<le> hi \<and>
    (\<forall>m. lo \<le> m \<and> m < support_compound_begin ps slots name lo hi \<longrightarrow>
      bytes_compare (tk_prefix (prefix_token ps (slots ! m))) name < 0) \<and>
    (\<forall>m. support_compound_begin ps slots name lo hi \<le> m \<and> m < hi \<longrightarrow>
      \<not> bytes_compare (tk_prefix (prefix_token ps (slots ! m))) name < 0)"
  using assms
proof (induction ps slots name lo hi rule: support_compound_begin.induct)
  case (1 ps slots name lo hi)
  let ?N = "\<lambda>m. tk_prefix (prefix_token ps (slots ! m))" and ?mid = "lo + (hi - lo) div 2"
  show ?case
  proof (cases "lo < hi")
    case False
    then show ?thesis using "1.prems" by (subst (1 2 3 4) support_compound_begin.simps) simp
  next
    case True
    then have mid: "lo \<le> ?mid" "?mid < hi" by auto
    show ?thesis
    proof (cases "bytes_compare (?N ?mid) name < 0")
      case less: True
      have eq: "support_compound_begin ps slots name lo hi = support_compound_begin ps slots name (?mid + 1) hi"
        using True less by (subst support_compound_begin.simps) (simp add: Let_def support_prefix_order_def)
      have "bytes_compare (?N m) name < 0" if "lo \<le> m" "m \<le> ?mid" for m
      proof -
        have "bytes_compare (?N m) (?N ?mid) \<le> 0" using "1.prems"(1) that mid by blast
        then show ?thesis using less bytes_compare_trans [of "?N m" "?N ?mid" name] unfolding bytes_compare_le by auto
      qed
      then show ?thesis
        using "1.IH"(1) [OF True refl] less "1.prems" mid unfolding eq
        by (simp add: support_prefix_order_def) (metis Suc_leD not_less_eq_eq)
    next
      case more: False
      have eq: "support_compound_begin ps slots name lo hi = support_compound_begin ps slots name lo ?mid"
        using True more by (subst support_compound_begin.simps) (simp add: Let_def support_prefix_order_def)
      have "\<not> bytes_compare (?N m) name < 0" if "?mid \<le> m" "m < hi" for m
      proof
        assume "bytes_compare (?N m) name < 0"
        moreover have "bytes_compare (?N ?mid) (?N m) \<le> 0" using "1.prems"(1) that mid by blast
        ultimately show False using more bytes_compare_trans [of "?N ?mid" "?N m" name] unfolding bytes_compare_le by auto
      qed
      then show ?thesis
        using "1.IH"(2) [OF True refl] more "1.prems" mid unfolding eq
        by (simp add: support_prefix_order_def) (metis not_le_imp_less)
    qed
  qed
qed

lemma takeWhile_equal_sorted:
  "sorted_wrt (\<lambda>j k. bytes_compare (f j) (f k) \<le> 0) ks \<Longrightarrow> \<forall>k\<in>set ks. \<not> bytes_compare (f k) name < 0 \<Longrightarrow>
   takeWhile (\<lambda>j. bytes_compare (f j) name = 0) ks = filter (\<lambda>j. bytes_compare (f j) name = 0) ks"
proof (induction ks)
  case (Cons k ks)
  have "bytes_compare (f j) name \<noteq> 0" if "j \<in> set ks" "bytes_compare (f k) name \<noteq> 0" for j
  proof
    assume "bytes_compare (f j) name = 0"
    then have "bytes_compare (f k) name \<le> 0" using Cons.prems(1) that(1) by auto
    then show False using Cons.prems(2) that(2) by simp
  qed
  then show ?case using Cons by (auto simp: filter_empty_conv simp del: bytes_compare_eq_0)
qed simp

section \<open>The steps of the walk\<close>

definition outcome :: "support_match \<Rightarrow> bool \<Rightarrow> bool option" where
  "outcome m unknown = (case m of SUPPORT_NO \<Rightarrow> None | SUPPORT_YES \<Rightarrow> Some unknown | SUPPORT_UNKNOWN \<Rightarrow> Some True)"

text \<open>What the walk decides of a child and the last of the tokens \<open>us\<close>.\<close>

definition token_match :: "st_token list \<Rightarrow> st_node \<Rightarrow> support_match" where
  "token_match us child =
     (let s = nf_token (nd_fields child) in
      if tk_compound (last us) \<and> nf_type (nd_fields child) = ST_TYPE_LITERAL \<and>
         (case span_find s CHR ''='' of None \<Rightarrow> True | Some k \<Rightarrow> tk_prefix (last us) \<noteq> take (k + 1) s)
      then SUPPORT_NO
      else support_prefix_match (new_prefix us (length us - 1) 0) child)"

lemma describes_match:
  assumes "describes us p" "describes us q"
  shows "support_prefix_match p child = support_prefix_match q child"
proof -
  have "sx_token p = sx_token q" "sx_metadata p = sx_metadata q" "sx_literal_types p = sx_literal_types q"
    using assms by (simp_all add: describes_def)
  then show ?thesis by (simp only: support_prefix_match_def)
qed

lemma placed_match:
  assumes "placed ps qs j"
  shows "support_prefix_match (ps ! j) child = support_prefix_match (new_prefix (qs ! j) (length (qs ! j) - 1) 0) child"
proof (rule describes_match)
  show d: "describes (qs ! j) (ps ! j)" using assms unfolding placed_def by blast
  then have ne: "qs ! j \<noteq> []" by (simp add: describes_def)
  then have "qs ! j = butlast (qs ! j) @ [last (qs ! j)]" by simp
  then show "describes (qs ! j) (new_prefix (qs ! j) (length (qs ! j) - 1) 0)"
    using describes_new [of "length (qs ! j) - 1" "qs ! j" "butlast (qs ! j)" "last (qs ! j)" 0] ne by simp
qed

lemma placed_last: "placed ps qs j \<Longrightarrow> last (qs ! j) = prefix_token ps j"
  by (simp add: placed_def)

lemma onward_Cons:
  "support_onward ps child unknown (k # ks) =
     (case outcome (support_prefix_match (ps ! k) child) unknown of None \<Rightarrow> [] | Some u \<Rightarrow> [(k, u)]) @
     support_onward ps child unknown ks"
  by (cases "support_prefix_match (ps ! k) child") (simp_all add: support_onward_def outcome_def)

lemma onward_facts:
  "(j, u) \<in> set (support_onward ps child unknown ks) \<longleftrightarrow>
     j \<in> set ks \<and> outcome (support_prefix_match (ps ! j) child) unknown = Some u"
  "fst ` set (support_onward ps child unknown ks) \<subseteq> set ks"
proof -
  show "(j, u) \<in> set (support_onward ps child unknown ks) \<longleftrightarrow>
     j \<in> set ks \<and> outcome (support_prefix_match (ps ! j) child) unknown = Some u" for j u
    by (induction ks) (auto simp: onward_Cons support_onward_def [of _ _ _ "[]"] split: option.splits)
  then show "fst ` set (support_onward ps child unknown ks) \<subseteq> set ks" by auto
qed

lemma onward_distinct: "distinct ks \<Longrightarrow> distinct (map fst (support_onward ps child unknown ks))"
proof (induction ks)
  case (Cons k ks)
  then show ?case using onward_facts(2) [of ps child unknown ks] by (auto simp: onward_Cons split: option.splits)
qed (simp add: support_onward_def)

interpretation compound_order: comparator "support_compound_compare ps" "\<lambda>_. True" for ps
proof
  fix a b c
  let ?n = "\<lambda>j. tk_prefix (prefix_token ps j)"
  show "support_compound_compare ps a b \<le> 0 \<or> support_compound_compare ps b a \<le> 0"
    using bytes_compare_antisym [of "?n a" "?n b"]
    by (simp add: support_compound_compare_def support_prefix_order_def) linarith
  show "support_compound_compare ps a c \<le> 0" if "support_compound_compare ps a b \<le> 0" "support_compound_compare ps b c \<le> 0"
    using that bytes_compare_le_trans by (simp add: support_compound_compare_def support_prefix_order_def)
qed

text \<open>The three segments of the slots.\<close>

abbreviation literal_slots :: "support_prefix list \<Rightarrow> nat \<Rightarrow> nat list" where
  "literal_slots ps cur \<equiv> filter (\<lambda>j. is_literal_token (prefix_token ps j)) (own_slots ps cur)"

abbreviation closed_slots :: "support_prefix list \<Rightarrow> nat \<Rightarrow> nat list" where
  "closed_slots ps cur \<equiv> filter (\<lambda>j. \<not> tk_compound (prefix_token ps j) \<and> tk_type (prefix_token ps j) \<noteq> ST_TYPE_LITERAL) (own_slots ps cur)"

abbreviation compound_slots :: "support_prefix list \<Rightarrow> nat \<Rightarrow> nat list" where
  "compound_slots ps cur \<equiv> qsort_by (support_compound_compare ps) (filter (\<lambda>j. tk_compound (prefix_token ps j)) (own_slots ps cur))"

lemma slots_parts: "support_slots ps cur = literal_slots ps cur @ closed_slots ps cur @ compound_slots ps cur"
  by (simp add: support_slots_def own_slots_def Let_def)

lemma slot_kinds:
  "length ks = length (filter (\<lambda>j. is_literal_token (f j)) ks) +
     length (filter (\<lambda>j. \<not> tk_compound (f j) \<and> tk_type (f j) \<noteq> ST_TYPE_LITERAL) ks) +
     length (filter (\<lambda>j. tk_compound (f j)) ks)"
  by (induction ks) (auto simp: is_literal_token_def)

lemma distinct_own: "distinct (own_slots ps cur)"
  by (simp add: own_slots_def)

lemma own_placed: "indexed ps qs \<Longrightarrow> j \<in> set (own_slots ps cur) \<Longrightarrow> placed ps qs j"
  by (auto simp: indexed_def own_slots_def)

lemma slot_counts:
  assumes "indexed ps qs" "cur < length ps"
  shows "sx_literal_count (ps ! cur) = length (literal_slots ps cur)"
    "sx_compound_count (ps ! cur) = length (compound_slots ps cur)"
    "sx_child_count (ps ! cur) - sx_compound_count (ps ! cur) = length (literal_slots ps cur @ closed_slots ps cur)"
  using assms slot_kinds [of "own_slots ps cur" "prefix_token ps"] by (auto simp: indexed_def counted_def)

text \<open>Under the exact literal search.\<close>

lemma exact_literal:
  assumes idx: "indexed ps qs" and cur: "cur < length ps" and lit: "nf_type (nd_fields child) = ST_TYPE_LITERAL"
  shows "(case support_literal_child ps (support_slots ps cur) child 0 (sx_literal_count (ps ! cur)) of
      None \<Rightarrow> {} | Some j \<Rightarrow> {(j, unknown)}) =
    {(j, u). j \<in> set (literal_slots ps cur) \<and> outcome (token_match (qs ! j) child) unknown = Some u}"
    (is "?L = ?R")
proof -
  let ?ks = "literal_slots ps cur" and ?s = "nf_token (nd_fields child)"
  let ?T = "\<lambda>j. tk_text (prefix_token ps j)"
  have slots: "support_slots ps cur ! m = ?ks ! m" if "m < length ?ks" for m
    using that by (simp add: slots_parts nth_append)
  have "sorted_wrt (\<lambda>j k. token_before (prefix_token ps j) (prefix_token ps k)) ?ks"
    using idx cur by (simp add: indexed_def counted_def sorted_wrt_filter)
  then have "sorted_wrt (\<lambda>j k. bytes_compare (?T j) (?T k) < 0) ?ks"
    by (rule sorted_wrt_mono_rel [rotated])
      (auto simp: token_before_def token_key_def record_tag_value_def is_literal_token_def split: if_splits)
  then have sorted: "m < m' \<Longrightarrow> m' < length ?ks \<Longrightarrow> bytes_compare (?T (?ks ! m)) (?T (?ks ! m')) < 0" for m m'
    by (simp add: sorted_wrt_iff_nth_less)
  have search: "case support_literal_child ps (support_slots ps cur) child 0 (length ?ks) of
      None \<Rightarrow> \<forall>m<length ?ks. ?T (?ks ! m) \<noteq> ?s
    | Some j \<Rightarrow> \<exists>m<length ?ks. j = ?ks ! m \<and> ?T (?ks ! m) = ?s"
    using literal_search [of 0 "length ?ks" ps "support_slots ps cur" child] slots sorted
    by (auto split: option.splits)
  have unique: "j = k" if "j \<in> set ?ks" "k \<in> set ?ks" "?T j = ?T k" for j k
  proof -
    from that(1,2) obtain a b where "a < length ?ks" "b < length ?ks" "j = ?ks ! a" "k = ?ks ! b"
      by (metis in_set_conv_nth)
    then show ?thesis using sorted [of a b] sorted [of b a] that(3) by (cases a b rule: linorder_cases) auto
  qed
  have match: "outcome (token_match (qs ! j) child) unknown = Some u \<longleftrightarrow> ?T j = ?s \<and> u = unknown" if "j \<in> set ?ks" for j u
  proof -
    have p: "placed ps qs j" "is_literal_token (prefix_token ps j)" using that own_placed [OF idx] by auto
    have "token_match (qs ! j) child = support_prefix_match (ps ! j) child"
      using p placed_last [OF p(1)] placed_match [OF p(1)] by (simp add: token_match_def is_literal_token_def Let_def)
    then show ?thesis
      using p(2) lit by (auto simp: support_prefix_match_def is_literal_token_def outcome_def Let_def)
  qed
  show ?thesis
  proof (cases "support_literal_child ps (support_slots ps cur) child 0 (sx_literal_count (ps ! cur))")
    case None
    then have "\<forall>m<length ?ks. ?T (?ks ! m) \<noteq> ?s" using search slot_counts(1) [OF idx cur] by simp
    then have none: "?T j \<noteq> ?s" if "j \<in> set ?ks" for j
      using that unfolding in_set_conv_nth by blast
    have "\<not> (j \<in> set ?ks \<and> outcome (token_match (qs ! j) child) unknown = Some u)" for j u
      using match [of j u] none [of j] by metis
    then have "?R = {}" by blast
    then show ?thesis using None by simp
  next
    case (Some j)
    then have j: "j \<in> set ?ks" "?T j = ?s" using search slot_counts(1) [OF idx cur] by (auto simp del: set_filter)
    have same: "k \<in> set ?ks \<and> outcome (token_match (qs ! k) child) unknown = Some u \<longleftrightarrow> k = j \<and> u = unknown" for k u
      using match [of k u] match [of j u] unique [of k j] j by metis
    have "?R = {(j, unknown)}" unfolding same by auto
    then show ?thesis using Some by simp
  qed
qed

text \<open>Under the option name of a literal.\<close>

lemma named_compounds:
  assumes idx: "indexed ps qs" and cur: "cur < length ps"
  shows "takeWhile (\<lambda>j. support_prefix_order (tk_prefix (prefix_token ps j)) name = 0)
      (drop (support_compound_begin ps (compound_slots ps cur) name 0 (length (compound_slots ps cur))) (compound_slots ps cur)) =
    filter (\<lambda>j. tk_prefix (prefix_token ps j) = name) (compound_slots ps cur)"
proof -
  let ?ks = "compound_slots ps cur" and ?N = "\<lambda>j. tk_prefix (prefix_token ps j)"
  let ?b = "support_compound_begin ps ?ks name 0 (length ?ks)"
  have sorted: "sorted_wrt (\<lambda>j k. bytes_compare (?N j) (?N k) \<le> 0) ?ks"
    using compound_order.qsort_sorted [of "filter (\<lambda>j. tk_compound (prefix_token ps j)) (own_slots ps cur)" ps]
    by (simp add: support_compound_compare_def support_prefix_order_def)
  then have le: "\<forall>m m'. 0 \<le> m \<and> m \<le> m' \<and> m' < length ?ks \<longrightarrow> bytes_compare (?N (?ks ! m)) (?N (?ks ! m')) \<le> 0"
    by (auto simp: sorted_wrt_iff_nth_less le_less)
  note S = compound_search [OF le, of name]
  have low: "\<forall>j\<in>set (take ?b ?ks). ?N j \<noteq> name"
  proof
    fix j assume "j \<in> set (take ?b ?ks)"
    then obtain m where m: "m < ?b" "j = ?ks ! m" by (auto simp: in_set_conv_nth)
    then have "bytes_compare (?N j) name < 0" using S by simp
    then show "?N j \<noteq> name" using bytes_compare_self [of name] by auto
  qed
  have high: "\<forall>j\<in>set (drop ?b ?ks). \<not> bytes_compare (?N j) name < 0"
    using S by (auto simp: in_set_conv_nth)
  have "takeWhile (\<lambda>j. bytes_compare (?N j) name = 0) (drop ?b ?ks) = filter (\<lambda>j. bytes_compare (?N j) name = 0) (drop ?b ?ks)"
    using takeWhile_equal_sorted [OF _ high] sorted by (simp add: sorted_wrt_drop)
  also have "\<dots> = filter (\<lambda>j. ?N j = name) (drop ?b ?ks)" by simp
  also have "\<dots> = filter (\<lambda>j. ?N j = name) (take ?b ?ks @ drop ?b ?ks)"
    using low by (simp add: filter_empty_conv del: append_take_drop_id)
  finally show ?thesis by (simp add: support_prefix_order_def)
qed

lemma distinct_three:
  "distinct xs \<Longrightarrow> distinct ys \<Longrightarrow> distinct zs \<Longrightarrow> set xs \<subseteq> A \<Longrightarrow> set ys \<subseteq> B \<Longrightarrow> set zs \<subseteq> C \<Longrightarrow>
   A \<inter> B = {} \<Longrightarrow> A \<inter> C = {} \<Longrightarrow> B \<inter> C = {} \<Longrightarrow> distinct (xs @ ys @ zs)"
  by auto

lemma walk_steps:
  assumes idx: "indexed ps qs" and cur: "cur < length ps"
  shows "set (support_steps ps (support_slots ps cur) (ps ! cur) child unknown) =
      {(j, u). j \<in> set (own_slots ps cur) \<and> outcome (token_match (qs ! j) child) unknown = Some u}"
    and "distinct (map fst (support_steps ps (support_slots ps cur) (ps ! cur) child unknown))"
proof -
  let ?lits = "literal_slots ps cur" and ?closed = "closed_slots ps cur" and ?comps = "compound_slots ps cur"
  let ?lit = "nf_type (nd_fields child) = ST_TYPE_LITERAL" and ?s = "nf_token (nd_fields child)"
  let ?exact = "if ?lit then case support_literal_child ps (support_slots ps cur) child 0 (sx_literal_count (ps ! cur)) of
      None \<Rightarrow> [] | Some j \<Rightarrow> [(j, unknown)] else []"
  let ?shut = "if ?lit then ?closed else ?lits @ ?closed"
  let ?named = "if \<not> ?lit then ?comps else case span_find ?s CHR ''='' of None \<Rightarrow> []
      | Some k \<Rightarrow> filter (\<lambda>j. tk_prefix (prefix_token ps j) = take (k + 1) ?s) ?comps"
  note C = slot_counts [OF idx cur]
  have steps: "support_steps ps (support_slots ps cur) (ps ! cur) child unknown =
      ?exact @ support_onward ps child unknown ?shut @ support_onward ps child unknown ?named"
  proof -
    have "take (length (?lits @ ?closed)) (support_slots ps cur) = ?lits @ ?closed"
      "drop (length (?lits @ ?closed)) (support_slots ps cur) = ?comps"
      by (simp_all add: slots_parts)
    moreover have "(if sx_compound_count (ps ! cur) = 0 then []
        else if \<not> ?lit then ?comps
        else case span_find ?s CHR ''='' of None \<Rightarrow> []
          | Some k \<Rightarrow> takeWhile (\<lambda>j. support_prefix_order (tk_prefix (prefix_token ps j)) (take (k + 1) ?s) = 0)
              (drop (support_compound_begin ps ?comps (take (k + 1) ?s) 0 (sx_compound_count (ps ! cur))) ?comps)) = ?named"
      unfolding C(2) named_compounds [OF idx cur] by (cases "?comps = []") (simp_all split: option.splits)
    moreover have "drop (if ?lit then sx_literal_count (ps ! cur) else 0) (?lits @ ?closed) = ?shut" using C(1) by simp
    ultimately show ?thesis unfolding support_steps_def Let_def C(3) by (simp only:)
  qed
  have match: "token_match (qs ! j) child =
      (if tk_compound (prefix_token ps j) \<and> ?lit \<and> (case span_find ?s CHR ''='' of None \<Rightarrow> True | Some k \<Rightarrow> tk_prefix (prefix_token ps j) \<noteq> take (k + 1) ?s)
       then SUPPORT_NO else support_prefix_match (ps ! j) child)" if "j \<in> set (own_slots ps cur)" for j
    unfolding token_match_def Let_def placed_last [OF own_placed [OF idx that]]
      placed_match [OF own_placed [OF idx that]] by (rule refl)
  define out where "out j u \<longleftrightarrow> outcome (token_match (qs ! j) child) unknown = Some u" for j u
  have plain: "out j u \<longleftrightarrow> outcome (support_prefix_match (ps ! j) child) unknown = Some u"
    if "j \<in> set (own_slots ps cur)" "\<not> tk_compound (prefix_token ps j) \<or> \<not> ?lit" for j u
    using match [OF that(1)] that(2) by (auto simp: out_def)
  have E: "set ?exact = {(j, u). ?lit \<and> j \<in> set ?lits \<and> out j u}"
    using exact_literal [OF idx cur, of child unknown] by (cases ?lit) (auto simp: out_def split: option.splits)
  have S: "(j, u) \<in> set (support_onward ps child unknown ?shut) \<longleftrightarrow>
      (j \<in> set ?closed \<or> \<not> ?lit \<and> j \<in> set ?lits) \<and> out j u" for j u
    using plain [of j u] by (auto simp: onward_facts(1) is_literal_token_def)
  have named: "set ?named = {j \<in> set ?comps. \<not> ?lit \<or>
      (case span_find ?s CHR ''='' of None \<Rightarrow> False | Some k \<Rightarrow> tk_prefix (prefix_token ps j) = take (k + 1) ?s)}"
    by (cases "span_find ?s CHR ''=''") (auto simp del: span_find_None_iff)
  have N: "(j, u) \<in> set (support_onward ps child unknown ?named) \<longleftrightarrow> j \<in> set ?comps \<and> out j u" for j u
  proof (cases "j \<in> set ?comps")
    case True
    then have j: "j \<in> set (own_slots ps cur)" "tk_compound (prefix_token ps j)" by simp_all
    show ?thesis
      unfolding onward_facts(1) named out_def match [OF j(1)]
      using True j(2) by (cases "span_find ?s CHR ''=''") (auto simp: outcome_def simp del: span_find_None_iff)
  qed (use onward_facts(1) named in auto)
  have own: "j \<in> set (own_slots ps cur) \<longleftrightarrow> j \<in> set ?lits \<or> j \<in> set ?closed \<or> j \<in> set ?comps" for j
    by (auto simp: is_literal_token_def)
  show "set (support_steps ps (support_slots ps cur) (ps ! cur) child unknown) =
      {(j, u). j \<in> set (own_slots ps cur) \<and> outcome (token_match (qs ! j) child) unknown = Some u}"
    (is "?A = ?B")
  proof (rule set_eqI)
    fix x :: "nat \<times> bool"
    obtain j u where x: "x = (j, u)" by fastforce
    show "x \<in> ?A \<longleftrightarrow> x \<in> ?B"
      unfolding x steps set_append E out_def [symmetric] own Un_iff S N mem_Collect_eq prod.case by blast
  qed
  have "distinct (?lits @ ?closed)" "distinct ?closed" "distinct ?comps"
    using distinct_own [of ps cur] by (auto simp: is_literal_token_def)
  then have d: "distinct ?shut" "distinct ?named" by (simp_all split: option.splits)
  have parts: "set ?lits \<inter> set ?closed = {}" "set ?lits \<inter> set ?comps = {}" "set ?closed \<inter> set ?comps = {}"
    by (auto simp: is_literal_token_def)
  have named_in: "set ?named \<subseteq> set ?comps" unfolding named by blast
  show "distinct (map fst (support_steps ps (support_slots ps cur) (ps ! cur) child unknown))"
    unfolding steps map_append
  proof (rule distinct_three [of _ _ _ "if ?lit then set ?lits else {}" "set ?shut" "set ?comps"])
    show "distinct (map fst ?exact)" by (simp split: option.splits)
    show "set (map fst ?exact) \<subseteq> (if ?lit then set ?lits else {})" unfolding set_map E by auto
    show "set (map fst (support_onward ps child unknown ?shut)) \<subseteq> set ?shut"
      unfolding set_map by (rule onward_facts(2))
    show "set (map fst (support_onward ps child unknown ?named)) \<subseteq> set ?comps"
      using onward_facts(2) [of ps child unknown ?named] named_in unfolding set_map by (rule subset_trans)
    show "(if ?lit then set ?lits else {}) \<inter> set ?shut = {}" using parts(1) by (cases ?lit) simp_all
    show "(if ?lit then set ?lits else {}) \<inter> set ?comps = {}" using parts(2) by (cases ?lit) simp_all
    show "set ?shut \<inter> set ?comps = {}" using parts by (cases ?lit) (simp_all add: Int_Un_distrib2)
  qed (use onward_distinct [OF d(1)] onward_distinct [OF d(2)] in blast)+
qed

section \<open>What the walk adds\<close>

definition sx_static :: "support_prefix \<Rightarrow> support_prefix" where
  "sx_static p = p\<lparr>sx_support := 0, sx_scope := 0, sx_support_unknown := False, sx_scope_unknown := False\<rparr>"

lemma static_fields:
  assumes "sx_static p = sx_static q"
  shows "sx_token p = sx_token q" "sx_metadata p = sx_metadata q" "sx_literal_types p = sx_literal_types q"
    "sx_parent p = sx_parent q" "sx_literal_count p = sx_literal_count q"
    "sx_compound_count p = sx_compound_count q" "sx_child_count p = sx_child_count q"
  using assms by (cases p, cases q, simp add: sx_static_def)+

lemma static_tally [simp]: "sx_static (support_tally n u p) = sx_static p"
  by (simp add: sx_static_def support_tally_def Let_def)

lemma static_nth: "map sx_static ps = map sx_static ps' \<Longrightarrow> j < length ps \<Longrightarrow> sx_static (ps ! j) = sx_static (ps' ! j)"
  by (metis length_map nth_map)

lemma static_own:
  assumes "map sx_static ps = map sx_static ps'"
  shows "own_slots ps i = own_slots ps' i"
proof -
  have len: "length ps = length ps'" using assms by (metis length_map)
  show ?thesis
    unfolding own_slots_def len [symmetric]
    by (rule filter_cong) (use static_fields(4) [OF static_nth [OF assms]] in auto)
qed

lemma static_indexed:
  assumes st: "map sx_static ps = map sx_static ps'" and idx: "indexed ps qs"
  shows "indexed ps' qs"
proof -
  have len: "length ps' = length ps" using st by (metis length_map)
  note F = static_fields [OF static_nth [OF st]]
  have placed: "placed ps' qs j" if "placed ps qs j" "j < length ps" for j
    using that(1) unfolding placed_def describes_def F [OF that(2)] .
  have counted: "counted ps' i" if "counted ps i" "i < length ps" for i
  proof -
    have in_own: "j < length ps" if "j \<in> set (own_slots ps i)" for j using that by (simp add: own_slots_def)
    have filters: "filter (\<lambda>j. P (prefix_token ps' j)) (own_slots ps i) = filter (\<lambda>j. P (prefix_token ps j)) (own_slots ps i)" for P
      by (rule filter_cong) (simp_all add: F(1) in_own)
    have "sorted_wrt (\<lambda>j k. token_before (prefix_token ps' j) (prefix_token ps' k)) (own_slots ps i)"
      by (rule sorted_wrt_mono_rel [OF _ that(1) [unfolded counted_def, THEN conjunct2, THEN conjunct2, THEN conjunct2]])
        (simp add: F(1) in_own)
    then show ?thesis
      using that F(5-7) [OF that(2)] filters unfolding counted_def static_own [OF st, symmetric] by simp
  qed
  show ?thesis using idx placed counted len by (auto simp: indexed_def)
qed

lemma static_slots:
  assumes st: "map sx_static ps = map sx_static ps'"
  shows "support_slots ps i = support_slots ps' i"
proof -
  note F = static_fields [OF static_nth [OF st]]
  have in_own: "j < length ps" if "j \<in> set (own_slots ps i)" for j using that by (simp add: own_slots_def)
  have filters: "filter (\<lambda>j. P (prefix_token ps' j)) (own_slots ps i) = filter (\<lambda>j. P (prefix_token ps j)) (own_slots ps i)" for P
    by (rule filter_cong) (simp_all add: F(1) in_own)
  have "qsort_by (support_compound_compare ps) ks = qsort_by (support_compound_compare ps') ks"
    if "set ks \<subseteq> set (own_slots ps i)" for ks
    using that
  proof (induction ks)
    case (Cons k ks)
    have "insert_by (support_compound_compare ps) k js = insert_by (support_compound_compare ps') k js"
      if "set js \<subseteq> set (own_slots ps i)" for js
      using that Cons.prems by (induction js) (auto simp: support_compound_compare_def F(1) in_own)
    then show ?case using Cons by simp
  qed simp
  then show ?thesis
    unfolding slots_parts static_own [OF st, symmetric]
    by (simp add: filters filters [of "\<lambda>t. \<not> tk_compound t \<and> tk_type t \<noteq> ST_TYPE_LITERAL"])
qed

text \<open>One descent of the trie along the tokens \<open>us\<close>, of which \<open>i\<close> are behind.\<close>

fun visits :: "st_token list \<Rightarrow> nat \<Rightarrow> st_node \<Rightarrow> bool \<Rightarrow> (st_node \<times> bool) list" where
  "visits us i (Node f cs) unknown =
     (if length us \<le> i then [(Node f cs, unknown)]
      else concat (map (\<lambda>c. case outcome (token_match (take (i + 1) us) c) unknown of
          None \<Rightarrow> [] | Some u \<Rightarrow> visits us (i + 1) c u) cs))"

text \<open>The visits \<open>A j\<close> are added to every prefix \<open>j\<close>.\<close>

definition tallied :: "(nat \<Rightarrow> (st_node \<times> bool) list) \<Rightarrow> support_prefix list \<Rightarrow> support_prefix list \<Rightarrow> bool" where
  "tallied A ps ps' \<longleftrightarrow> map sx_static ps' = map sx_static ps \<and>
     (\<forall>j<length ps. ps' ! j = foldl (\<lambda>p v. support_tally (fst v) (snd v) p) (ps ! j) (A j))"

lemma tallied_none: "tallied (\<lambda>_. []) ps ps"
  by (simp add: tallied_def)

lemma tallied_then:
  assumes "tallied A ps ps'" "tallied B ps' ps''"
  shows "tallied (\<lambda>j. A j @ B j) ps ps''"
proof -
  have "length ps' = length ps" using assms(1) unfolding tallied_def by (metis length_map)
  then show ?thesis using assms by (simp add: tallied_def)
qed

lemma tallied_foldl:
  assumes "\<And>x ps. x \<in> set xs \<Longrightarrow> map sx_static ps = st \<Longrightarrow> tallied (A x) ps (F ps x)" "map sx_static ps = st"
  shows "tallied (\<lambda>j. concat (map (\<lambda>x. A x j) xs)) ps (foldl F ps xs)"
  using assms
proof (induction xs arbitrary: ps)
  case Nil
  then show ?case using tallied_none by simp
next
  case (Cons x xs)
  have first: "tallied (A x) ps (F ps x)" using Cons.prems by simp
  then have "map sx_static (F ps x) = st" using Cons.prems(2) by (simp add: tallied_def)
  then have "tallied (\<lambda>j. concat (map (\<lambda>x. A x j) xs)) (F ps x) (foldl F (F ps x) xs)"
    using Cons.IH Cons.prems(1) by simp
  then show ?case using tallied_then [OF first] by simp
qed

text \<open>At most one of the slots of a prefix is on the way to another prefix.\<close>

lemma concat_at_most_one:
  assumes "distinct (map fst xs)" "\<And>x. x \<in> set xs \<Longrightarrow> fst x \<noteq> k \<Longrightarrow> g x = []"
  shows "concat (map g xs) = (case map_of xs k of None \<Rightarrow> [] | Some u \<Rightarrow> g (k, u))"
  using assms
proof (induction xs)
  case (Cons x xs)
  obtain a u where x: "x = (a, u)" by fastforce
  show ?case
  proof (cases "a = k")
    case True
    have "g y = []" if "y \<in> set xs" for y using Cons.prems that x True by (metis image_eqI list.set_intros(2) distinct.simps(2) list.map(2) list.set_map fst_conv)
    then have "concat (map g xs) = []" by (simp add: concat_eq_Nil_conv)
    then show ?thesis by (simp add: x True)
  next
    case False
    then show ?thesis using Cons x by simp
  qed
qed simp

lemma tallied_cong: "tallied A ps ps' \<Longrightarrow> (\<And>j. j < length ps \<Longrightarrow> A j = B j) \<Longrightarrow> tallied B ps ps'"
  by (simp add: tallied_def)

lemma indexed_inject: "indexed ps qs \<Longrightarrow> j < length ps \<Longrightarrow> k < length ps \<Longrightarrow> qs ! j = qs ! k \<Longrightarrow> j = k"
  by (simp add: indexed_def nth_eq_iff_index_eq)

lemma own_child:
  assumes "indexed ps qs" "j \<in> set (own_slots ps cur)"
  shows "j < length ps" "qs ! j = qs ! cur @ [prefix_token ps j]"
  using own_placed [OF assms] assms(2) unfolding own_slots_def placed_def by auto

lemma indexed_prefix:
  assumes idx: "indexed ps qs"
  shows "j < length ps \<Longrightarrow> m \<le> length (qs ! j) \<Longrightarrow> \<exists>k<length ps. qs ! k = take m (qs ! j)"
proof (induction j rule: less_induct)
  case (less j)
  show ?case
  proof (cases "m = length (qs ! j)")
    case True
    then show ?thesis using less.prems by auto
  next
    case False
    have "j \<noteq> 0" using False less.prems idx by (intro notI) (simp add: indexed_def)
    then have p: "placed ps qs j" using idx less.prems by (simp add: indexed_def)
    let ?p = "sx_parent (ps ! j)"
    have P: "?p < j" "qs ! j = qs ! ?p @ [prefix_token ps j]" using p unfolding placed_def by blast+
    have "m \<le> length (qs ! ?p)" using False less.prems(2) arg_cong [OF P(2), of length] by simp
    moreover from this have "take m (qs ! j) = take m (qs ! ?p)" by (subst P(2)) simp
    ultimately show ?thesis using less.IH [OF P(1)] P(1) less.prems(1) by auto
  qed
qed

text \<open>The prefix on the way from one prefix to a longer one.\<close>

lemma next_on_way:
  assumes idx: "indexed ps qs" and cur: "cur < length ps" and j: "j < length ps"
    and pre: "take (length (qs ! cur)) (qs ! j) = qs ! cur" "length (qs ! cur) < length (qs ! j)"
  obtains k where "k \<in> set (own_slots ps cur)" "qs ! k = take (length (qs ! cur) + 1) (qs ! j)"
proof -
  let ?i = "length (qs ! cur)"
  obtain k where k: "k < length ps" "qs ! k = take (?i + 1) (qs ! j)"
    using indexed_prefix [OF idx j, of "?i + 1"] pre(2) by auto
  then have "k \<noteq> 0" using idx pre(2) by (intro notI) (auto simp: indexed_def)
  then have "placed ps qs k" using idx k(1) by (simp add: indexed_def)
  then have P: "sx_parent (ps ! k) < k" "qs ! k = qs ! sx_parent (ps ! k) @ [prefix_token ps k]"
    unfolding placed_def by blast+
  have "qs ! k = qs ! cur @ [qs ! j ! ?i]" using k(2) pre by (simp add: take_Suc_conv_app_nth)
  then have "qs ! sx_parent (ps ! k) = qs ! cur" using P(2) by (metis butlast_snoc)
  then have "sx_parent (ps ! k) = cur" using indexed_inject [OF idx _ cur] P(1) k(1) by simp
  then have "k \<in> set (own_slots ps cur)" using k(1) \<open>k \<noteq> 0\<close> by (simp add: own_slots_def)
  then show ?thesis using that k(2) by blast
qed

definition walk_visits :: "st_token list list \<Rightarrow> nat \<Rightarrow> st_node \<Rightarrow> bool \<Rightarrow> nat \<Rightarrow> (st_node \<times> bool) list" where
  "walk_visits qs cur n unknown j =
     (if take (length (qs ! cur)) (qs ! j) = qs ! cur then visits (qs ! j) (length (qs ! cur)) n unknown else [])"

text \<open>The visits of one child.\<close>

definition child_visits :: "st_token list list \<Rightarrow> nat \<Rightarrow> bool \<Rightarrow> st_node \<Rightarrow> nat \<Rightarrow> (st_node \<times> bool) list" where
  "child_visits qs cur unknown c j =
     (if take (length (qs ! cur)) (qs ! j) = qs ! cur \<and> length (qs ! cur) < length (qs ! j)
      then case outcome (token_match (take (length (qs ! cur) + 1) (qs ! j)) c) unknown of
             None \<Rightarrow> [] | Some u \<Rightarrow> visits (qs ! j) (length (qs ! cur) + 1) c u
      else [])"

lemma child_steps:
  assumes idx: "indexed ps qs" and cur: "cur < length ps" and j: "j < length ps"
  shows "concat (map (\<lambda>s. walk_visits qs (fst s) c (snd s) j) (support_steps ps (support_slots ps cur) (ps ! cur) c unknown)) =
    child_visits qs cur unknown c j"
proof -
  let ?S = "support_steps ps (support_slots ps cur) (ps ! cur) c unknown" and ?i = "length (qs ! cur)"
  have S: "set ?S = {(k, u). k \<in> set (own_slots ps cur) \<and> outcome (token_match (qs ! k) c) unknown = Some u}"
    and D: "distinct (map fst ?S)"
    by (rule walk_steps [OF idx cur])+
  have own: "qs ! k = qs ! cur @ [prefix_token ps k]" "k < length ps" if "(k, u) \<in> set ?S" for k u
    using that own_child [OF idx] unfolding S by auto
  show ?thesis
  proof (cases "take ?i (qs ! j) = qs ! cur \<and> ?i < length (qs ! j)")
    case True
    then obtain k where k: "k \<in> set (own_slots ps cur)" "qs ! k = take (?i + 1) (qs ! j)"
      using next_on_way [OF idx cur j] by blast
    have "walk_visits qs (fst s) c (snd s) j = []" if s: "s \<in> set ?S" "fst s \<noteq> k" for s
    proof -
      obtain a u where a: "s = (a, u)" by fastforce
      have "take (length (qs ! a)) (qs ! j) \<noteq> qs ! a"
      proof
        assume "take (length (qs ! a)) (qs ! j) = qs ! a"
        moreover have "length (qs ! a) = ?i + 1" using own(1) [of a u] s(1) a by simp
        ultimately have "qs ! a = qs ! k" using k(2) by simp
        then show False using indexed_inject [OF idx own(2)] own_child(1) [OF idx k(1)] s a by auto
      qed
      then show ?thesis by (simp add: walk_visits_def a)
    qed
    then have eq: "concat (map (\<lambda>s. walk_visits qs (fst s) c (snd s) j) ?S) =
        (case map_of ?S k of None \<Rightarrow> [] | Some u \<Rightarrow> walk_visits qs k c u j)"
      using concat_at_most_one [OF D, of k "\<lambda>s. walk_visits qs (fst s) c (snd s) j"]
      by (simp split: option.splits)
    have "map_of ?S k = outcome (token_match (qs ! k) c) unknown"
    proof (cases "outcome (token_match (qs ! k) c) unknown")
      case None
      then have "k \<notin> fst ` set ?S" unfolding S by auto
      then show ?thesis using None by (simp add: map_of_eq_None_iff)
    next
      case (Some u)
      then have "(k, u) \<in> set ?S" unfolding S using k(1) by simp
      then show ?thesis using Some D by simp
    qed
    moreover have "length (qs ! k) = ?i + 1" using own_child(2) [OF idx k(1)] by simp
    ultimately show ?thesis
      unfolding eq using True k(2) by (simp add: child_visits_def walk_visits_def split: option.splits)
  next
    case False
    have "walk_visits qs (fst s) c (snd s) j = []" if s: "s \<in> set ?S" for s
    proof -
      obtain a u where a: "s = (a, u)" by fastforce
      have qa: "qs ! a = qs ! cur @ [prefix_token ps a]" using own(1) s a by blast
      have "take (length (qs ! a)) (qs ! j) \<noteq> qs ! a"
      proof
        assume eq: "take (length (qs ! a)) (qs ! j) = qs ! a"
        have "length (take (Suc ?i) (qs ! j)) = Suc ?i" using eq unfolding qa by simp
        then have "?i < length (qs ! j)" by (simp add: min_def split: if_splits)
        moreover have "take ?i (take (length (qs ! a)) (qs ! j)) = take ?i (qs ! j)" by (simp add: qa)
        then have "take ?i (qs ! j) = take ?i (qs ! a)" unfolding eq by simp
        ultimately show False using False qa by simp
      qed
      then show ?thesis by (simp add: walk_visits_def a)
    qed
    then have "concat (map (\<lambda>s. walk_visits qs (fst s) c (snd s) j) ?S) = []" by simp
    then show ?thesis unfolding child_visits_def if_not_P [OF False] .
  qed
qed

lemma walk_adds:
  assumes idx: "indexed ps0 qs"
  shows "map sx_static ps = map sx_static ps0 \<Longrightarrow> cur < length ps0 \<Longrightarrow>
    tallied (walk_visits qs cur n unknown) ps (support_walk (support_slots ps0) ps n cur unknown)"
proof (induction n arbitrary: ps cur unknown)
  case (Node f cs)
  let ?st = "map sx_static ps0" and ?slots = "support_slots ps0"
  let ?own = "\<lambda>j. if j = cur then [(Node f cs, unknown)] else []"
  have len: "length ps' = length ps0" if "map sx_static ps' = ?st" for ps' using that by (metis length_map)
  have here: "tallied ?own ps (ps[cur := support_tally (Node f cs) unknown (ps ! cur)])"
    using Node.prems len [OF Node.prems(1)] static_nth [OF Node.prems(1)] unfolding tallied_def
    by (auto simp: map_update nth_list_update list_update_same_conv)
  let ?F = "\<lambda>ps c. foldl (\<lambda>ps step. support_walk ?slots ps c (fst step) (snd step)) ps
      (support_steps ps (?slots cur) (ps ! cur) c unknown)"
  have child: "tallied (child_visits qs cur unknown c) ps' (?F ps' c)" if c: "c \<in> set cs" and st: "map sx_static ps' = ?st" for c ps'
  proof -
    have idx': "indexed ps' qs" by (rule static_indexed [OF st [symmetric] idx])
    have cur: "cur < length ps'" using Node.prems(2) len [OF st] by simp
    have slots: "?slots cur = support_slots ps' cur" by (rule static_slots [OF st [symmetric]])
    have "tallied (\<lambda>j. concat (map (\<lambda>s. walk_visits qs (fst s) c (snd s) j) (support_steps ps' (?slots cur) (ps' ! cur) c unknown)))
        ps' (?F ps' c)"
    proof (rule tallied_foldl [OF _ st])
      fix s ps1 assume s: "s \<in> set (support_steps ps' (?slots cur) (ps' ! cur) c unknown)" and st1: "map sx_static ps1 = ?st"
      have "fst s \<in> set (own_slots ps' cur)" using s unfolding slots walk_steps(1) [OF idx' cur] by auto
      then have "fst s < length ps0" using own_child(1) [OF idx'] len [OF st] by simp
      then show "tallied (walk_visits qs (fst s) c (snd s)) ps1 (support_walk ?slots ps1 c (fst s) (snd s))"
        using Node.IH [OF c st1] by blast
    qed
    then show ?thesis
      by (rule tallied_cong) (simp add: slots child_steps [OF idx' cur])
  qed
  have "tallied (\<lambda>j. concat (map (\<lambda>c. child_visits qs cur unknown c j) cs))
      (ps[cur := support_tally (Node f cs) unknown (ps ! cur)]) (foldl ?F (ps[cur := support_tally (Node f cs) unknown (ps ! cur)]) cs)"
    using here Node.prems(1) by (intro tallied_foldl [where st = ?st] child) (auto simp: tallied_def)
  then have "tallied (\<lambda>j. ?own j @ concat (map (\<lambda>c. child_visits qs cur unknown c j) cs)) ps
      (support_walk ?slots ps (Node f cs) cur unknown)"
    using tallied_then [OF here] by simp
  then show ?case
  proof (rule tallied_cong)
    fix j assume "j < length ps"
    then have j: "j < length ps0" using len [OF Node.prems(1)] by simp
    let ?i = "length (qs ! cur)"
    show "?own j @ concat (map (\<lambda>c. child_visits qs cur unknown c j) cs) = walk_visits qs cur (Node f cs) unknown j"
    proof (cases "take ?i (qs ! j) = qs ! cur")
      case True
      show ?thesis
      proof (cases "?i < length (qs ! j)")
        case longer: True
        then have "j \<noteq> cur" by auto
        then show ?thesis using True longer by (simp add: walk_visits_def child_visits_def)
      next
        case False
        then have "qs ! j = qs ! cur" using True by simp
        then have "j = cur" using indexed_inject [OF idx j Node.prems(2)] by blast
        then show ?thesis by (simp add: walk_visits_def child_visits_def)
      qed
    next
      case False
      then have "j \<noteq> cur" by auto
      then show ?thesis using False by (simp add: walk_visits_def child_visits_def)
    qed
  qed
qed

text \<open>So after the walk from the top, a prefix has what the descent along its tokens alone gives it.\<close>

lemma walk_result:
  assumes idx: "indexed ps qs" and j: "j < length ps"
  shows "support_walk (support_slots ps) ps n 0 False ! j =
    foldl (\<lambda>p v. support_tally (fst v) (snd v) p) (ps ! j) (visits (qs ! j) 0 n False)"
proof -
  have "0 < length ps" "qs ! 0 = []" using idx by (auto simp: indexed_def)
  then show ?thesis
    using walk_adds [OF idx refl, of 0 n False] j by (simp add: tallied_def walk_visits_def)
qed

end
