(* ===== verification/Learner_Files.thy ===== *)
theory Learner_Files imports Learner Files begin

text \<open>
  Saving and loading of the learner in \<^verbatim>\<open>shelltype/src/trie.c\<close>: the depth-first walk
  that writes one framed record of eight fields per node, and the reader that rebuilds and validates
  a whole trie before it takes the place of the live one. The array of node pointers is a list of
  paths of child indices, and the array of depths their lengths. Allocations succeed.
\<close>

section \<open>Saving\<close>

record learner_save_ctx =
  lw_stream :: out_stream
  lw_error :: st_error
  lw_next_id :: nat
  lw_crc :: "32 word"

definition append_netstring_field :: "bytes \<Rightarrow> nat \<Rightarrow> bytes \<Rightarrow> (bytes \<times> nat) option" where
  "append_netstring_field rec used field =
     (if used > length rec then None
      else case shell_netstring_write (drop used rec) (Some field) (length field) of
        Inl _ \<Rightarrow> None
      | Inr (tail, written) \<Rightarrow> Some (take used rec @ tail, used + written))"

fun append_netstring_fields :: "bytes list \<Rightarrow> bytes \<Rightarrow> nat \<Rightarrow> (bytes \<times> nat) option" where
  "append_netstring_fields [] rec used = Some (rec, used)"
| "append_netstring_fields (v # vs) rec used =
     (case append_netstring_field rec used v of
        None \<Rightarrow> None | Some (rec, used) \<Rightarrow> append_netstring_fields vs rec used)"

definition metadata_by_id :: "st_metadata_id \<Rightarrow> st_metadata_entry option" where
  "metadata_by_id i = List.find (\<lambda>e. me_id e = i) st_metadata_entries"

text \<open>The spelling of a node's metadata; \<open>None\<close> when the table does not have it for the type.\<close>

definition saved_metadata :: "node_fields \<Rightarrow> bytes option" where
  "saved_metadata f =
     (if nf_mixed f then Some ''!''
      else if nf_common f \<noteq> ST_META_NONE then
        (case metadata_by_id (nf_common f) of
           None \<Rightarrow> None
         | Some entry \<Rightarrow> if me_type entry \<noteq> nf_type f then None else Some (me_name entry))
      else Some ''-'')"

definition saved_fields :: "nat \<Rightarrow> nat \<Rightarrow> node_fields \<Rightarrow> bytes \<Rightarrow> bytes list" where
  "saved_fields i parent_id f metadata =
     [decimal i, decimal parent_id, (if nf_type f = ST_TYPE_LITERAL then ''L'' else ''T''),
      decimal (type_index (nf_type f)), decimal (nf_count f), metadata, decimal (nf_observations f),
      (if nf_type f = ST_TYPE_LITERAL then nf_token f else [])]"

definition save_node_record :: "sys \<Rightarrow> nat \<Rightarrow> nat \<Rightarrow> node_fields \<Rightarrow> learner_save_ctx \<Rightarrow> learner_save_ctx" where
  "save_node_record sys i parent_id f ctx =
     (case saved_metadata f of
        None \<Rightarrow> ctx\<lparr>lw_error := ST_ERR_FORMAT\<rparr>
      | Some metadata \<Rightarrow>
          (case append_netstring_fields (saved_fields i parent_id f metadata)
                  (replicate (ST_MAX_TOKEN_LEN + 256) NUL) 0 of
             None \<Rightarrow> ctx\<lparr>lw_error := ST_ERR_LIMIT\<rparr>
           | Some (rec, used) \<Rightarrow>
               (case shell_netstring_write_prefix (replicate 31 NUL) used of
                  Inl _ \<Rightarrow> ctx\<lparr>lw_error := ST_ERR_LIMIT\<rparr>
                | Inr (prefix, prefix_length) \<Rightarrow>
                    (case put_all sys [take prefix_length prefix, take used rec, [CHR '','', CHR 0x0A]]
                            (lw_stream ctx) of
                       (ok, stream) \<Rightarrow>
                         (if \<not> ok then ctx\<lparr>lw_stream := stream, lw_error := ST_ERR_IO\<rparr>
                          else ctx\<lparr>lw_stream := stream,
                            lw_crc := st_crc32_update [CHR '','', CHR 0x0A] (st_crc32_update (take used rec)
                              (st_crc32_update (take prefix_length prefix) (lw_crc ctx)))\<rparr>)))))"

fun dfs_save_v4 :: "sys \<Rightarrow> nat \<Rightarrow> nat \<Rightarrow> st_node \<Rightarrow> learner_save_ctx \<Rightarrow> learner_save_ctx" where
  "dfs_save_v4 sys parent_id depth (Node f cs) ctx =
     (if lw_error ctx \<noteq> ST_OK then ctx
      else if depth > ST_MAX_CMD_TOKENS \<or> lw_next_id ctx = UINT32_MAX then ctx\<lparr>lw_error := ST_ERR_LIMIT\<rparr>
      else let i = lw_next_id ctx; ctx = save_node_record sys i parent_id f (ctx\<lparr>lw_next_id := i + 1\<rparr>) in
        if lw_error ctx \<noteq> ST_OK then ctx
        else foldl (\<lambda>ctx c. dfs_save_v4 sys i (depth + 1) c ctx) ctx cs)"

text \<open>The number of nodes, and the overflow flag.\<close>

fun count_saved_nodes :: "st_node \<Rightarrow> bool \<Rightarrow> nat \<times> bool" where
  "count_saved_nodes (Node f cs) overflow =
     (if overflow then (0, overflow)
      else case foldl (\<lambda>acc c. case count_saved_nodes c (snd acc) of
             (n, overflow) \<Rightarrow> (fst acc + n, overflow)) (1, overflow) cs of
        (nodes, overflow) \<Rightarrow> if nodes > UINT32_MAX then (0, True) else (nodes, overflow))"

definition learner_header :: bytes where "learner_header = ''# shelltype-learner v5''"
definition total_prefix :: bytes where "total_prefix = ''# total-commands: ''"
definition nodes_prefix :: bytes where "nodes_prefix = ''# nodes: ''"
definition learner_crc_prefix :: bytes where "learner_crc_prefix = ''# CRC32: ''"

definition st_learner_save :: "sys \<Rightarrow> disk \<Rightarrow> st_learner \<Rightarrow> bytes \<Rightarrow> st_error \<times> disk" where
  "st_learner_save sys disk l file_path =
     (case st_atomic_output_begin sys disk file_path of
        (begun, None, disk) \<Rightarrow> (if begun = ST_ATOMIC_OUTPUT_MEMORY then ST_ERR_MEMORY else ST_ERR_IO, disk)
      | (_, Some output, disk) \<Rightarrow>
          (case foldl (\<lambda>acc c. case count_saved_nodes c (snd acc) of
                  (n, overflow) \<Rightarrow> (fst acc + n, overflow)) (0, False) (nd_children (ln_root l)) of
             (node_total, overflow) \<Rightarrow>
               (if overflow \<or> node_total > UINT32_MAX then (ST_ERR_LIMIT, st_atomic_output_discard sys disk output)
                else case put_stream sys (learner_header @ CHR 0x0A # total_prefix @ decimal (ln_total l) @
                       CHR 0x0A # nodes_prefix @ decimal node_total @ [CHR 0x0A]) (ao_stream output) of
                  (False, f) \<Rightarrow> (ST_ERR_IO, st_atomic_output_discard sys disk output)
                | (True, f) \<Rightarrow>
                    (let ctx = foldl (\<lambda>ctx c. dfs_save_v4 sys 0 1 c ctx)
                           \<lparr>lw_stream = f, lw_error = ST_OK, lw_next_id = 1, lw_crc = 0\<rparr> (nd_children (ln_root l));
                         ctx = (if lw_error ctx = ST_OK \<and> lw_next_id ctx - 1 \<noteq> node_total
                           then ctx\<lparr>lw_error := ST_ERR_FORMAT\<rparr> else ctx);
                         (closed, f) = (if lw_error ctx = ST_OK
                           then put_stream sys (learner_crc_prefix @ print_hex8 (lw_crc ctx) @ [CHR 0x0A]) (lw_stream ctx)
                           else (True, lw_stream ctx));
                         error = (if closed then lw_error ctx else ST_ERR_IO) in
                     if error = ST_OK
                     then (case st_atomic_output_commit sys disk (output\<lparr>ao_stream := f\<rparr>) of
                             (ok, disk) \<Rightarrow> (if ok then ST_OK else ST_ERR_IO, disk))
                     else (error, st_atomic_output_discard sys disk output)))))"

section \<open>Reading lines and fields\<close>

definition parse_u32_field :: "bytes \<Rightarrow> (nat \<times> bytes) option" where
  "parse_u32_field text =
     (if text = [] \<or> \<not> shell_ascii_digit (hd text) then None
      else case strtoul 10 text of
        (v, end) \<Rightarrow> if v > UINT32_MAX then None else Some (v, end))"

definition line_ends_here :: "bytes \<Rightarrow> bool" where
  "line_ends_here text \<longleftrightarrow> text = [] \<or> text = [CHR 0x0A] \<or> text = [CHR 0x0D, CHR 0x0A]"

definition line_equals :: "bytes \<Rightarrow> bytes \<Rightarrow> bool" where
  "line_equals line expected \<longleftrightarrow>
     take (length expected) line = expected \<and> line_ends_here (drop (length expected) line)"

definition take_netstring_field :: "bytes \<Rightarrow> nat \<Rightarrow> (bytes \<times> nat) option" where
  "take_netstring_field rec offset =
     (if offset > length rec then None
      else case ns_parse (drop offset rec) of
        Inl _ \<Rightarrow> None
      | Inr (payload, rest) \<Rightarrow> Some (payload, length rec - length rest))"

text \<open>The first \<open>n\<close> fields, when they are the whole record.\<close>

fun take_netstring_fields :: "nat \<Rightarrow> bytes \<Rightarrow> nat \<Rightarrow> bytes list option" where
  "take_netstring_fields 0 rec offset = (if offset \<noteq> length rec then None else Some [])"
| "take_netstring_fields (Suc n) rec offset =
     (case take_netstring_field rec offset of
        None \<Rightarrow> None
      | Some (field, offset) \<Rightarrow> map_option ((#) field) (take_netstring_fields n rec offset))"

definition parse_u32_view :: "bytes \<Rightarrow> nat option" where
  "parse_u32_view field =
     (if field = [] \<or> length field \<ge> 16 then None
      else foldl (\<lambda>parsed c. case parsed of
             None \<Rightarrow> None
           | Some v \<Rightarrow>
               (if \<not> shell_ascii_digit c then None
                else if v > (UINT32_MAX - digit_value c) div 10 then None
                else Some (v * 10 + digit_value c)))
           (Some 0) field)"

definition footer_digit :: "char \<Rightarrow> nat option" where
  "footer_digit c =
     (if CHR ''0'' \<le> c \<and> c \<le> CHR ''9'' then Some (ord c - 48)
      else if CHR ''a'' \<le> c \<and> c \<le> CHR ''f'' then Some (ord c - 87) else None)"

definition parse_crc_footer :: "bytes \<Rightarrow> 32 word option" where
  "parse_crc_footer line =
     (let n = length (takeWhile (\<lambda>c. c \<noteq> CHR 0x0D \<and> c \<noteq> CHR 0x0A) line) in
      if n \<noteq> 17 \<or> take 9 line \<noteq> learner_crc_prefix \<or> \<not> line_ends_here (drop n line) then None
      else foldl (\<lambda>crc c. case crc of
             None \<Rightarrow> None
           | Some v \<Rightarrow> map_option (\<lambda>digit. v * 16 + of_nat digit) (footer_digit c))
           (Some 0) (take 8 (drop 9 line)))"

text \<open>One framed record: its payload and the checksum with it.\<close>

definition read_outer_record :: "c_stream \<Rightarrow> 32 word \<Rightarrow> (bytes \<times> 32 word \<times> c_stream) result" where
  "read_outer_record f crc =
     (case shell_netstring_read_stream f (ST_MAX_TOKEN_LEN + 288) of
        (Inl status, f) \<Rightarrow> Inl
          (if status = SHELL_NETSTRING_ENOMEM then ST_ERR_MEMORY
           else if status = SHELL_NETSTRING_EIO then ST_ERR_IO
           else if status = SHELL_NETSTRING_EOVERFLOW then ST_ERR_LIMIT else ST_ERR_FORMAT)
      | (Inr rec, f) \<Rightarrow>
          (case ns_parse rec of
             Inl _ \<Rightarrow> Inl ST_ERR_FORMAT
           | Inr (payload, rest) \<Rightarrow>
               (if rest \<noteq> [] \<or> payload = [] \<or> length payload \<ge> ST_MAX_TOKEN_LEN + 256 then Inl ST_ERR_FORMAT
                else case fgetc f of
                  (newline, f) \<Rightarrow>
                    (if newline \<noteq> Some (CHR 0x0A)
                     then Inl (if newline = None \<and> st_ferror f then ST_ERR_IO else ST_ERR_FORMAT)
                     else Inr (payload,
                       st_crc32_update [CHR '','', CHR 0x0A] (st_crc32_update payload
                         (st_crc32_update (take (length rec - length payload - 1) rec) crc)), f)))))"

section \<open>Rebuilding the trie\<close>

fun node_at :: "nat list \<Rightarrow> st_node \<Rightarrow> st_node" where
  "node_at [] n = n"
| "node_at (k # ks) n = node_at ks (nd_children n ! k)"

fun add_child_at :: "nat list \<Rightarrow> st_node \<Rightarrow> st_node \<Rightarrow> st_node" where
  "add_child_at [] c n = Node (nd_fields n) (nd_children n @ [c])"
| "add_child_at (k # ks) c n =
     Node (nd_fields n) ((nd_children n)[k := add_child_at ks c (nd_children n ! k)])"

text \<open>The fields of a record, once it is known where its node goes: the common metadata of the
  third result is \<open>None\<close> for a spelling that stands for no entry.\<close>

definition loaded_fields :: "bytes list \<Rightarrow> nat \<Rightarrow> nat \<Rightarrow> nat \<Rightarrow> node_fields option" where
  "loaded_fields fs type_value cnt observations =
     (if fs ! 2 \<noteq> ''L'' \<and> fs ! 2 \<noteq> ''T'' \<or> type_value \<ge> length all_token_types \<or> cnt = 0 then None
      else let t = all_token_types ! type_value; literal = (fs ! 2 = ''L'') in
        if literal \<noteq> (t = ST_TYPE_LITERAL) \<or>
           (if literal then length (fs ! 7) \<ge> ST_MAX_TOKEN_LEN else fs ! 7 \<noteq> []) then None
        else let mixed = (fs ! 5 = ''!''); named = (fs ! 5 \<noteq> ''-'' \<and> \<not> mixed) in
          if named \<and> length (fs ! 5) \<ge> ST_MAX_TOKEN_LEN then None
          else let common = (if named then st_metadata_lookup t (fs ! 5) else None) in
            if named \<and> (case common of None \<Rightarrow> True | Some m \<Rightarrow> fs ! 5 \<noteq> me_name m) \<or>
               literal \<and> (observations \<noteq> 0 \<or> mixed \<or> common \<noteq> None) \<or>
               \<not> literal \<and> (observations \<noteq> cnt \<or> mixed = (common \<noteq> None)) \<or>
               (case common of None \<Rightarrow> False | Some m \<Rightarrow> me_type m \<noteq> t \<or> t = ST_TYPE_SEMVER)
            then None
            else Some
              \<lparr>nf_token = (if literal then fs ! 7 else st_type_symbol t), nf_type = t, nf_count = cnt,
               nf_observed = (if literal then 0 else type_bit t), nf_observations = observations,
               nf_common = (case common of None \<Rightarrow> ST_META_NONE | Some m \<Rightarrow> me_id m), nf_mixed = mixed\<rparr>)"

definition load_node ::
    "nat \<Rightarrow> bytes list \<Rightarrow> st_node \<Rightarrow> nat list list \<Rightarrow> (st_node \<times> nat list list) option" where
  "load_node expected_id fs trunk paths =
     (case (parse_u32_view (fs ! 0), parse_u32_view (fs ! 1), parse_u32_view (fs ! 3),
            parse_u32_view (fs ! 4), parse_u32_view (fs ! 6)) of
        (Some i, Some parent_id, Some type_value, Some cnt, Some observations) \<Rightarrow>
          (if i \<noteq> expected_id \<or> parent_id \<ge> i \<or> length (paths ! parent_id) \<ge> ST_MAX_CMD_TOKENS then None
           else case loaded_fields fs type_value cnt observations of
             None \<Rightarrow> None
           | Some f \<Rightarrow>
               (let p = paths ! parent_id; siblings = nd_children (node_at p trunk) in
                if node_find_child siblings (nf_token f) (nf_type f) \<noteq> None then None
                else Some (add_child_at p (Node f []) trunk, paths @ [p @ [length siblings]])))
      | _ \<Rightarrow> None)"

fun load_nodes ::
    "nat \<Rightarrow> nat \<Rightarrow> 32 word \<Rightarrow> st_node \<Rightarrow> nat list list \<Rightarrow> c_stream \<Rightarrow> (st_node \<times> 32 word \<times> c_stream) result" where
  "load_nodes 0 expected_id crc trunk paths f = Inr (trunk, crc, f)"
| "load_nodes (Suc n) expected_id crc trunk paths f =
     bind_result (read_outer_record f crc) (\<lambda>(rec, crc, f).
       case take_netstring_fields 8 rec 0 of
         None \<Rightarrow> Inl ST_ERR_FORMAT
       | Some fs \<Rightarrow>
           (case load_node expected_id fs trunk paths of
              None \<Rightarrow> Inl ST_ERR_FORMAT
            | Some (trunk, paths) \<Rightarrow> load_nodes n (expected_id + 1) crc trunk paths f))"

fun node_counts_valid :: "st_node \<Rightarrow> bool" where
  "node_counts_valid (Node f cs) \<longleftrightarrow>
     list_all (\<lambda>c. nf_count (nd_fields c) \<noteq> 0 \<and> nf_count (nd_fields c) \<le> nf_count f \<and> node_counts_valid c) cs \<and>
     sum_list (map (\<lambda>c. nf_count (nd_fields c)) cs) \<le> nf_count f"

text \<open>A line that passes \<open>check\<close>.\<close>

definition load_checked_line :: "(bytes \<Rightarrow> 'a option) \<Rightarrow> c_stream \<Rightarrow> ('a \<times> c_stream) result" where
  "load_checked_line check f =
     (case st_read_line f 128 of
        (status, line, f) \<Rightarrow>
          (if status \<noteq> ST_LINE_OK then Inl (if status = ST_LINE_IO then ST_ERR_IO else ST_ERR_FORMAT)
           else case check line of None \<Rightarrow> Inl ST_ERR_FORMAT | Some x \<Rightarrow> Inr (x, f)))"

definition number_line :: "bytes \<Rightarrow> bytes \<Rightarrow> nat option" where
  "number_line prefix line =
     (if take (length prefix) line \<noteq> prefix then None
      else case parse_u32_field (drop (length prefix) line) of
        None \<Rightarrow> None
      | Some (v, end) \<Rightarrow> if line_ends_here end then Some v else None)"

definition read_learner :: "c_stream \<Rightarrow> (st_node \<times> nat) result" where
  "read_learner f =
     bind_result (load_checked_line (\<lambda>line. if line_equals line learner_header then Some () else None) f) (\<lambda>(_, f).
     bind_result (load_checked_line (number_line total_prefix) f) (\<lambda>(saved_total, f).
     bind_result (load_checked_line (number_line nodes_prefix) f) (\<lambda>(node_count, f).
       if node_count = UINT32_MAX then Inl ST_ERR_FORMAT
       else bind_result (load_nodes node_count 1 0 (node_new [] ST_TYPE_LITERAL) [[]] f) (\<lambda>(trunk, computed, f).
       bind_result (load_checked_line parse_crc_footer f) (\<lambda>(expected, f).
         if expected \<noteq> computed then Inl ST_ERR_FORMAT
         else case st_read_line f 128 of
           (status, _, f) \<Rightarrow>
             (if status \<noteq> ST_LINE_EOF then Inl (if status = ST_LINE_IO then ST_ERR_IO else ST_ERR_FORMAT)
              else let trunk = Node ((nd_fields trunk)\<lparr>nf_count := saved_total\<rparr>) (nd_children trunk) in
                if \<not> node_counts_valid trunk \<or>
                   sum_list (map (\<lambda>c. nf_count (nd_fields c)) (nd_children trunk)) \<noteq> saved_total
                then Inl ST_ERR_FORMAT
                else Inr (trunk, saved_total)))))))"

text \<open>\<open>None\<close> for a file that cannot be opened; \<open>fclosed\<close> is the result of
  \<^verbatim>\<open>fclose\<close>.\<close>

definition st_learner_load :: "st_learner \<Rightarrow> c_stream option \<Rightarrow> bool \<Rightarrow> st_error \<times> st_learner" where
  "st_learner_load l opened fclosed =
     (case opened of
        None \<Rightarrow> (ST_ERR_IO, l)
      | Some f \<Rightarrow>
          (case read_learner f of
             Inl e \<Rightarrow> (if \<not> fclosed \<and> e = ST_ERR_FORMAT then ST_ERR_IO else e, l)
           | Inr (trunk, commands) \<Rightarrow>
               (if \<not> fclosed then (ST_ERR_IO, l) else (ST_OK, l\<lparr>ln_root := trunk, ln_total := commands\<rparr>))))"

end
