(* ===== verification/Learner_Spec.thy ===== *)
theory Learner_Spec imports Learner begin

text \<open>
  What the counting trie of the learner holds: after any history of calls it is determined by the
  list of the commands that were fed. Every node counts the commands that lead to it, and keeps the
  common metadata of their tokens. A call that fails changes nothing, wherever it fails.
\<close>

unbundle bit_operations_syntax

section \<open>A failed insertion is undone\<close>

lemma count_up_simps [simp]:
  "nd_children (count_up i n) = nd_children n"
  "nf_count (nd_fields (count_up i n)) = nf_count (nd_fields n) + i"
  by (simp_all add: count_up_def)

lemma note_token_kept:
  "note_token i t f = Some f' \<Longrightarrow> nf_token f' = nf_token f \<and> nf_type f' = nf_type f \<and> nf_count f' = nf_count f"
  by (auto simp: note_token_def Let_def split: if_splits)

lemma roll_back_noted:
  assumes "note_token i t (nd_fields (count_up i n)) = Some f"
  shows "roll_back i (nd_fields n) (Node f (nd_children n)) = n"
proof -
  have "nf_token f = nf_token (nd_fields n)" "nf_type f = nf_type (nd_fields n)" "nf_count f = nf_count (nd_fields n) + i"
    using note_token_kept [OF assms] by (simp_all add: count_up_def)
  then show ?thesis by (cases n) (simp add: roll_back_def)
qed

lemma roll_back_counted: "roll_back i (nd_fields n) (count_up i n) = n"
  by (cases n) (simp add: roll_back_def count_up_def)

lemma node_find_child_Some:
  "node_find_child cs token t = Some k \<Longrightarrow> k < length cs \<and> node_answers token t (cs ! k)"
proof (induction cs arbitrary: k)
  case (Cons c cs)
  then show ?case by (cases k) (auto split: if_splits)
qed simp

lemma node_find_child_None: "node_find_child cs token t = None \<longleftrightarrow> (\<forall>c\<in>set cs. \<not> node_answers token t c)"
  by (induction cs) auto

lemma insert_failed:
  "insert_children serves i d cs ts = (e, cs') \<Longrightarrow> e \<noteq> ST_OK \<Longrightarrow> cs' = cs"
proof (induction serves i d cs ts arbitrary: e cs' rule: insert_children.induct)
  case (2 serves i d cs t ts)
  show ?case
  proof (cases "node_find_child cs (tk_text t) (tk_type t)")
    case None
    then show ?thesis
      using "2.prems" by (auto simp: Let_def split: if_splits option.splits prod.splits)
  next
    case (Some k)
    note k = node_find_child_Some [OF Some]
    show ?thesis
    proof (cases "note_token i t (nd_fields (count_up i (cs ! k)))")
      case None
      then have "cs' = cs[k := roll_back i (nd_fields (cs ! k)) (count_up i (cs ! k))]"
        using "2.prems" Some by (simp add: Let_def)
      then show ?thesis by (simp add: roll_back_counted)
    next
      case (Some f)
      obtain e2 below where below: "insert_children serves i (d + 1) (nd_children (cs ! k)) ts = (e2, below)" by fastforce
      have fail: "e2 \<noteq> ST_OK" "e = e2" "cs' = cs[k := roll_back i (nd_fields (cs ! k)) (Node f below)]"
        using "2.prems" Some below \<open>node_find_child cs _ _ = Some k\<close> by (auto simp: Let_def split: if_splits)
      then have "below = nd_children (cs ! k)"
        using "2.IH"(2) [OF \<open>node_find_child cs _ _ = Some k\<close> refl refl Some, of e2 below] below by simp
      then show ?thesis using fail(3) roll_back_noted [OF Some] by simp
    qed
  qed
qed simp

lemma insert_trie_failed:
  assumes "trie_insert_with_count serves n ts i = (e, n')" "e \<noteq> ST_OK"
  shows "n' = n"
proof -
  obtain e2 cs where ins: "insert_children serves i 0 (nd_children n) ts = (e2, cs)" by fastforce
  show ?thesis
    using assms insert_failed [OF ins] ins
    by (cases n) (auto simp: trie_insert_with_count_def count_up_def Let_def split: if_splits)
qed

section \<open>The trie of a list of commands\<close>

definition tok_key :: "st_token \<Rightarrow> st_token_type \<times> bytes" where
  "tok_key t = (tk_type t, if tk_type t = ST_TYPE_LITERAL then tk_text t else [])"

definition node_key :: "st_node \<Rightarrow> st_token_type \<times> bytes" where
  "node_key n = (nf_type (nd_fields n),
     if nf_type (nd_fields n) = ST_TYPE_LITERAL then nf_token (nd_fields n) else [])"

lemma node_answers_key: "node_answers (tk_text t) (tk_type t) c \<longleftrightarrow> node_key c = tok_key t"
  by (auto simp: node_answers_def node_key_def tok_key_def Let_def)

text \<open>The commands that go on with a key: their first tokens and their rests.\<close>

definition heads :: "st_token list list \<Rightarrow> st_token_type \<times> bytes \<Rightarrow> st_token list" where
  "heads H k = map hd (filter (\<lambda>h. h \<noteq> [] \<and> tok_key (hd h) = k) H)"

definition below :: "st_token list list \<Rightarrow> st_token_type \<times> bytes \<Rightarrow> st_token list list" where
  "below H k = map tl (filter (\<lambda>h. h \<noteq> [] \<and> tok_key (hd h) = k) H)"

lemma below_simps [simp]:
  "below [] k = []" "heads [] k = []"
  "below (H @ [[]]) k = below H k" "heads (H @ [[]]) k = heads H k"
  "below (H @ [t # ts]) k = below H k @ (if tok_key t = k then [ts] else [])"
  "heads (H @ [t # ts]) k = heads H k @ (if tok_key t = k then [t] else [])"
  by (simp_all add: below_def heads_def)

lemma length_heads: "length (heads H k) = length (below H k)" "length (below H k) \<le> length H"
  by (simp_all add: heads_def below_def)

abbreviation token_metadata :: "st_token \<Rightarrow> st_metadata_id" where
  "token_metadata t \<equiv> st_metadata_value_id (tk_type t) (tk_text t)"

text \<open>All values of a position have one metadata name.\<close>

definition uniform :: "st_token list \<Rightarrow> bool" where
  "uniform ts \<longleftrightarrow> list_all (\<lambda>t. token_metadata t \<noteq> ST_META_NONE \<and> token_metadata t = token_metadata (hd ts)) ts"

definition noted :: "node_fields \<Rightarrow> st_token list \<Rightarrow> bool" where
  "noted f ts \<longleftrightarrow> ts \<noteq> [] \<and> nf_count f = length ts \<and>
     (if nf_type f = ST_TYPE_LITERAL
      then nf_observed f = 0 \<and> nf_observations f = 0 \<and> nf_common f = ST_META_NONE \<and> \<not> nf_mixed f
      else nf_token f = st_type_symbol (nf_type f) \<and> nf_observed f = type_bit (nf_type f) \<and>
        nf_observations f = length ts \<and> nf_mixed f = (\<not> uniform ts) \<and>
        (uniform ts \<longrightarrow> nf_common f = token_metadata (hd ts)))"

lemma uniform_single [simp]: "uniform [t] \<longleftrightarrow> token_metadata t \<noteq> ST_META_NONE"
  by (simp add: uniform_def)

lemma uniform_snoc: "ts \<noteq> [] \<Longrightarrow>
  uniform (ts @ [t]) \<longleftrightarrow> uniform ts \<and> token_metadata t \<noteq> ST_META_NONE \<and> token_metadata t = token_metadata (hd ts)"
  by (simp add: uniform_def)

lemma size_children: "c \<in> set cs \<Longrightarrow> size_list size (nd_children c) < size_list size cs"
proof -
  assume "c \<in> set cs"
  moreover have "size_list size (nd_children c) < size c" by (cases c) simp
  ultimately show ?thesis by (rule size_list_estimation)
qed

function children_represent :: "st_node list \<Rightarrow> st_token list list \<Rightarrow> bool" where
  "children_represent cs H \<longleftrightarrow> distinct (map node_key cs) \<and>
     (\<forall>h\<in>set H. h \<noteq> [] \<longrightarrow> tok_key (hd h) \<in> set (map node_key cs)) \<and>
     (\<forall>c\<in>set cs. noted (nd_fields c) (heads H (node_key c)) \<and>
        children_represent (nd_children c) (below H (node_key c)))"
  by pat_completeness auto
termination
  by (relation "measure (\<lambda>(cs, H). size_list size cs)") (auto simp: size_children)

declare children_represent.simps [simp del]

text \<open>The root counts all commands.\<close>

definition represents :: "st_node \<Rightarrow> st_token list list \<Rightarrow> bool" where
  "represents n H \<longleftrightarrow> nd_fields n = (nd_fields (node_new [] ST_TYPE_LITERAL))\<lparr>nf_count := length H\<rparr> \<and>
     children_represent (nd_children n) H"

section \<open>Insertion adds one command\<close>

lemma note_token_again:
  assumes "noted f ts" "nf_type f = tk_type t" "length ts < UINT32_MAX"
  shows "\<exists>f'. note_token 1 t (f\<lparr>nf_count := nf_count f + 1\<rparr>) = Some f' \<and> noted f' (ts @ [t])"
proof (cases "tk_type t = ST_TYPE_LITERAL")
  case True
  then show ?thesis using assms by (auto simp: note_token_def noted_def)
next
  case False
  have old: "nf_observations f = length ts" "ts \<noteq> []" "nf_observed f = type_bit (tk_type t)"
    "nf_mixed f = (\<not> uniform ts)" "uniform ts \<longrightarrow> nf_common f = token_metadata (hd ts)"
    "nf_count f = length ts" "nf_token f = st_type_symbol (tk_type t)"
    using assms(1) [unfolded noted_def assms(2) if_not_P [OF False]] by blast+
  define f' where "f' = the (note_token 1 t (f\<lparr>nf_count := nf_count f + 1\<rparr>))"
  have kept: "note_token 1 t (f\<lparr>nf_count := nf_count f + 1\<rparr>) = Some f'"
    using False old(1) assms(3) by (simp add: f'_def note_token_def Let_def)
  have f': "nf_type f' = tk_type t" "nf_count f' = length ts + 1" "nf_observations f' = length ts + 1"
    "nf_observed f' = type_bit (tk_type t)" "nf_common f' = nf_common f" "nf_token f' = st_type_symbol (tk_type t)"
    "nf_mixed f' \<longleftrightarrow> nf_mixed f \<or> token_metadata t = ST_META_NONE \<or> nf_common f \<noteq> token_metadata t"
    using False old(1-3,6,7) assms(2,3) by (auto simp: f'_def note_token_def Let_def)
  have "noted f' (ts @ [t])"
    using f' old(2,4,5) False by (cases "uniform ts") (auto simp: noted_def uniform_snoc)
  then show ?thesis using kept by blast
qed

lemma note_token_first:
  assumes "n = node_new (if tk_type t = ST_TYPE_LITERAL then tk_text t else st_type_symbol (tk_type t)) (tk_type t)"
  shows "\<exists>f. note_token 1 t (nd_fields (count_up 1 n)) = Some f \<and> noted f [t] \<and> (\<forall>cs. node_key (Node f cs) = tok_key t)"
  using assms
  by (auto simp: note_token_def noted_def node_new_def count_up_def Let_def UINT32_MAX_def node_key_def tok_key_def)

lemma children_representD:
  assumes "children_represent cs H" "c \<in> set cs"
  shows "noted (nd_fields c) (heads H (node_key c))" "children_represent (nd_children c) (below H (node_key c))"
  using assms by (simp_all add: children_represent.simps [of cs H])

lemma children_represent_Nil [simp]: "children_represent [] []"
  by (simp add: children_represent.simps [of "[]"])

lemma children_represent_done: "children_represent cs H \<Longrightarrow> children_represent cs (H @ [[]])"
  by (simp add: children_represent.simps [of cs H] children_represent.simps [of cs "H @ [[]]"])

lemma node_index: "distinct (map node_key cs) \<Longrightarrow> k < length cs \<Longrightarrow> c \<in> set cs \<Longrightarrow> node_key c = node_key (cs ! k) \<Longrightarrow> c = cs ! k"
  by (auto simp: distinct_map inj_on_def)

lemma children_represent_update:
  assumes rep: "children_represent cs H" and k: "k < length cs" "node_key (cs ! k) = tok_key t"
    and f: "node_key (Node f below') = tok_key t" "noted f (heads H (tok_key t) @ [t])"
    and b: "children_represent below' (below H (tok_key t) @ [ts])"
  shows "children_represent (cs[k := Node f below']) (H @ [t # ts])"
proof -
  let ?cs = "cs[k := Node f below']"
  have keys: "map node_key ?cs = map node_key cs" using k f(1) by (simp add: map_update list_update_same_conv)
  have dist: "distinct (map node_key cs)" using rep by (simp add: children_represent.simps [of cs H])
  have cases: "c = Node f below' \<or> c \<in> set cs \<and> node_key c \<noteq> tok_key t" if c: "c \<in> set ?cs" for c
  proof -
    obtain j where j: "j < length cs" "c = ?cs ! j" using c by (auto simp: in_set_conv_nth)
    show ?thesis
    proof (cases "j = k")
      case False
      then have "node_key (cs ! j) \<noteq> node_key (cs ! k)"
        using dist j(1) k(1) by (metis distinct_conv_nth length_map nth_map)
      then show ?thesis using j k False by simp
    qed (use j k in simp)
  qed
  have "\<forall>h\<in>set (H @ [t # ts]). h \<noteq> [] \<longrightarrow> tok_key (hd h) \<in> set (map node_key ?cs)"
    unfolding keys using rep k by (auto simp: children_represent.simps [of cs H]) (metis image_eqI nth_mem)
  moreover have "noted (nd_fields c) (heads (H @ [t # ts]) (node_key c)) \<and>
      children_represent (nd_children c) (below (H @ [t # ts]) (node_key c))" if "c \<in> set ?cs" for c
    using cases [OF that]
  proof
    assume "c = Node f below'"
    then show ?thesis using f b by simp
  next
    assume c: "c \<in> set cs \<and> node_key c \<noteq> tok_key t"
    then have "tok_key t \<noteq> node_key c" by auto
    then show ?thesis using children_representD [OF rep, of c] c by simp
  qed
  ultimately show ?thesis
    using dist unfolding children_represent.simps [of ?cs] keys by blast
qed

lemma children_represent_append:
  assumes rep: "children_represent cs H" and new: "tok_key t \<notin> set (map node_key cs)"
    and f: "node_key (Node f below') = tok_key t" "noted f [t]"
    and b: "children_represent below' [ts]"
  shows "children_represent (cs @ [Node f below']) (H @ [t # ts])"
proof -
  have old: "heads H (tok_key t) = []" "below H (tok_key t) = []"
    using rep new by (auto simp: children_represent.simps [of cs H] heads_def below_def filter_empty_conv)
  have "noted (nd_fields c) (heads (H @ [t # ts]) (node_key c)) \<and>
      children_represent (nd_children c) (below (H @ [t # ts]) (node_key c))" if "c \<in> set (cs @ [Node f below'])" for c
  proof (cases "c \<in> set cs")
    case True
    then have "tok_key t \<noteq> node_key c" using new by auto
    then show ?thesis using children_representD [OF rep True] by simp
  next
    case False
    then show ?thesis using that f b old by simp
  qed
  then show ?thesis
    using rep new f(1) unfolding children_represent.simps [of "cs @ [Node f below']"] children_represent.simps [of cs H]
    by auto
qed

lemma insert_represents:
  "children_represent cs H \<Longrightarrow> length H < UINT32_MAX \<Longrightarrow> insert_children serves 1 d cs ts = (e, cs') \<Longrightarrow>
   (e = ST_OK \<and> children_represent cs' (H @ [ts])) \<or> e = ST_ERR_MEMORY \<and> (\<exists>i. \<not> serves i)"
proof (induction ts arbitrary: cs H d e cs')
  case Nil
  then show ?case by (simp add: children_represent_done)
next
  case (Cons t ts)
  show ?case
  proof (cases "node_find_child cs (tk_text t) (tk_type t)")
    case None
    then have new: "tok_key t \<notin> set (map node_key cs)"
      by (auto simp: node_find_child_None node_answers_key)
    let ?n = "node_new (if tk_type t = ST_TYPE_LITERAL then tk_text t else st_type_symbol (tk_type t)) (tk_type t)"
    obtain e2 bl where bl: "insert_children serves 1 (d + 1) [] ts = (e2, bl)" by fastforce
    obtain f where f: "note_token 1 t (nd_fields (count_up 1 ?n)) = Some f" "noted f [t]" "\<And>cs. node_key (Node f cs) = tok_key t"
      using note_token_first [OF refl, of t] by blast
    have IH: "(e2 = ST_OK \<and> children_represent bl [ts]) \<or> e2 = ST_ERR_MEMORY \<and> (\<exists>i. \<not> serves i)"
      using Cons.IH [OF children_represent_Nil _ bl] by (simp add: UINT32_MAX_def)
    show ?thesis
      using Cons.prems(3) None f(1) bl IH children_represent_append [OF Cons.prems(1) new f(3,2)]
      by (auto simp: Let_def split: if_splits)
  next
    case (Some k)
    note k = node_find_child_Some [OF Some, unfolded node_answers_key]
    note R = children_representD [OF Cons.prems(1), of "cs ! k"]
    have type: "nf_type (nd_fields (cs ! k)) = tk_type t" using k by (simp add: node_key_def tok_key_def)
    have len: "length (heads H (tok_key t)) < UINT32_MAX" "length (below H (tok_key t)) < UINT32_MAX"
      using length_heads [of H "tok_key t"] Cons.prems(2) by simp_all
    obtain f where f: "note_token 1 t (nd_fields (count_up 1 (cs ! k))) = Some f" "noted f (heads H (tok_key t) @ [t])"
      using note_token_again [of "nd_fields (cs ! k)" "heads H (tok_key t)" t] R k len type by (auto simp: count_up_def)
    have key: "node_key (Node f x) = tok_key t" for x
      using note_token_kept [OF f(1)] k by (auto simp: node_key_def tok_key_def count_up_def split: if_splits)
    obtain e2 bl where bl: "insert_children serves 1 (d + 1) (nd_children (cs ! k)) ts = (e2, bl)" by fastforce
    have IH: "(e2 = ST_OK \<and> children_represent bl (below H (tok_key t) @ [ts])) \<or> e2 = ST_ERR_MEMORY \<and> (\<exists>i. \<not> serves i)"
      using Cons.IH [OF _ len(2) bl] R(2) k by simp
    show ?thesis
      using Cons.prems(3) Some f(1) bl IH children_represent_update [OF Cons.prems(1) _ _ key f(2)] k
      by (auto simp: Let_def split: if_splits)
  qed
qed


text \<open>No counter on the path overflows unless the one of the root does.\<close>

lemma represents_counts_fit:
  "children_represent cs H \<Longrightarrow> length H < UINT32_MAX \<Longrightarrow> counts_fit 1 cs ts"
proof (induction ts arbitrary: cs H)
  case (Cons t ts)
  show ?case
  proof (cases "node_find_child cs (tk_text t) (tk_type t)")
    case (Some k)
    note k = node_find_child_Some [OF Some, unfolded node_answers_key]
    have "noted (nd_fields (cs ! k)) (heads H (tok_key t))"
      "children_represent (nd_children (cs ! k)) (below H (tok_key t))"
      using children_representD [OF Cons.prems(1), of "cs ! k"] k by simp_all
    moreover have "length (heads H (tok_key t)) < UINT32_MAX" "length (below H (tok_key t)) < UINT32_MAX"
      using length_heads [of H "tok_key t"] Cons.prems(2) by simp_all
    ultimately show ?thesis using Some Cons.IH by (simp add: noted_def)
  qed simp
qed simp

lemma trie_insert_represents:
  assumes "represents n H" "length H < UINT32_MAX" "trie_insert_with_count serves n ts 1 = (e, n')"
  shows "e = ST_OK \<and> represents n' (H @ [ts]) \<or> e = ST_ERR_MEMORY \<and> n' = n \<and> (\<exists>i. \<not> serves i)"
proof -
  obtain e2 cs where ins: "insert_children serves 1 0 (nd_children n) ts = (e2, cs)" by fastforce
  have fit: "counts_fit 1 (nd_children n) ts" "1 \<le> UINT32_MAX - nf_count (nd_fields n)"
    using represents_counts_fit assms(1,2) by (auto simp: represents_def)
  have "e = e2" "e2 = ST_OK \<longrightarrow> n' = Node (nd_fields (count_up 1 n)) cs"
    using assms(3) fit ins by (auto simp: trie_insert_with_count_def Let_def split: if_splits)
  moreover have "e2 = ST_OK \<and> children_represent cs (H @ [ts]) \<or> e2 = ST_ERR_MEMORY \<and> (\<exists>i. \<not> serves i)"
    using insert_represents [OF _ assms(2) ins] assms(1) by (simp add: represents_def)
  ultimately show ?thesis
    using assms(1) insert_trie_failed [OF assms(3)] by (auto simp: represents_def count_up_def)
qed

section \<open>Reading the counts\<close>

text \<open>The count of the node that a sequence of keys leads to; no node counts nothing.\<close>

fun count_at :: "st_node \<Rightarrow> (st_token_type \<times> bytes) list \<Rightarrow> nat" where
  "count_at n [] = nf_count (nd_fields n)"
| "count_at n (k # ks) =
     (case List.find (\<lambda>c. node_key c = k) (nd_children n) of None \<Rightarrow> 0 | Some c \<Rightarrow> count_at c ks)"

definition going_on :: "st_token list list \<Rightarrow> (st_token_type \<times> bytes) list \<Rightarrow> nat" where
  "going_on H ks = length (filter (\<lambda>h. take (length ks) (map tok_key h) = ks) H)"

lemma going_on_Cons: "going_on H (k # ks) = going_on (below H k) ks"
proof -
  have "take (length (k # ks)) (map tok_key h) = k # ks \<longleftrightarrow>
      (h \<noteq> [] \<and> tok_key (hd h) = k) \<and> take (length ks) (map tok_key (tl h)) = ks" for h
    by (cases h) auto
  then show ?thesis by (simp add: going_on_def below_def filter_map o_def) 
qed

lemma count_at_children:
  "children_represent (nd_children n) H \<Longrightarrow> nf_count (nd_fields n) = length H \<Longrightarrow> count_at n ks = going_on H ks"
proof (induction ks arbitrary: n H)
  case Nil
  then show ?case by (simp add: going_on_def)
next
  case (Cons k ks)
  show ?case
  proof (cases "List.find (\<lambda>c. node_key c = k) (nd_children n)")
    case None
    then have "k \<notin> set (map node_key (nd_children n))" by (auto simp: find_None_iff)
    then have "below H k = []"
      using Cons.prems(1) by (auto simp: children_represent.simps [of "nd_children n" H] below_def filter_empty_conv)
    then show ?thesis using None by (simp add: going_on_Cons) (simp add: going_on_def)
  next
    case (Some c)
    then have c: "c \<in> set (nd_children n)" "node_key c = k" using find_Some_mem by fastforce+
    then show ?thesis
      using Cons.IH [of c "below H k"] children_representD [OF Cons.prems(1) c(1)] Some
      by (simp add: going_on_Cons noted_def length_heads)
  qed
qed

lemma children_counts_sum:
  assumes "children_represent cs H"
  shows "sum_list (map (\<lambda>c. nf_count (nd_fields c)) cs) = length (filter (\<lambda>h. h \<noteq> []) H)"
proof -
  have split: "length (filter (\<lambda>h. h \<noteq> [] \<and> tok_key (hd h) \<in> set (map node_key cs)) H) =
      (\<Sum>c\<leftarrow>cs. length (filter (\<lambda>h. h \<noteq> [] \<and> tok_key (hd h) = node_key c) H))"
    if "distinct (map node_key cs)" for cs :: "st_node list"
    using that
  proof (induction cs)
    case (Cons c cs)
    have "length (filter (\<lambda>h. P h \<or> Q h) xs) = length (filter P xs) + length (filter Q xs)"
      if "\<And>h. \<not> (P h \<and> Q h)" for P Q and xs :: "st_token list list"
      using that by (induction xs) auto
    from this [of "\<lambda>h. h \<noteq> [] \<and> tok_key (hd h) = node_key c" "\<lambda>h. h \<noteq> [] \<and> tok_key (hd h) \<in> set (map node_key cs)" H]
    have "length (filter (\<lambda>h. h \<noteq> [] \<and> tok_key (hd h) \<in> set (map node_key (c # cs))) H) =
        length (filter (\<lambda>h. h \<noteq> [] \<and> tok_key (hd h) = node_key c) H) +
        length (filter (\<lambda>h. h \<noteq> [] \<and> tok_key (hd h) \<in> set (map node_key cs)) H)"
      using Cons.prems by (auto simp: conj_disj_distribL)
    then show ?case using Cons by simp
  qed simp
  have dist: "distinct (map node_key cs)"
    and all: "filter (\<lambda>h. h \<noteq> [] \<and> tok_key (hd h) \<in> set (map node_key cs)) H = filter (\<lambda>h. h \<noteq> []) H"
    using assms by (auto simp: children_represent.simps [of cs H] intro: filter_cong)
  have "nf_count (nd_fields c) = length (filter (\<lambda>h. h \<noteq> [] \<and> tok_key (hd h) = node_key c) H)" if "c \<in> set cs" for c
    using children_representD(1) [OF assms that] by (simp add: noted_def heads_def)
  then show ?thesis using split [OF dist, unfolded all] by (simp cong: map_cong)
qed

end
