(* ===== verification/Learner_Files_Spec.thy ===== *)
theory Learner_Files_Spec imports Learner_Files Learner_Spec Files_Spec begin

text \<open>
  Saving a trie and loading it again. The file of a trie lists its nodes in preorder, each with the
  number of its parent; the loader grafts every node below its parent and so rebuilds the trie, up
  to the common metadata of nodes whose values have none in common.
\<close>

section \<open>Tries that can be stored\<close>

definition fields_ok :: "node_fields \<Rightarrow> bool" where
  "fields_ok f \<longleftrightarrow> 0 < nf_count f \<and> nf_count f \<le> UINT32_MAX \<and>
     (if nf_type f = ST_TYPE_LITERAL
      then length (nf_token f) < ST_MAX_TOKEN_LEN \<and> nf_observed f = 0 \<and> nf_observations f = 0 \<and>
        nf_common f = ST_META_NONE \<and> \<not> nf_mixed f
      else nf_token f = st_type_symbol (nf_type f) \<and> nf_observed f = type_bit (nf_type f) \<and>
        nf_observations f = nf_count f \<and>
        (nf_mixed f \<or> nf_type f \<noteq> ST_TYPE_SEMVER \<and>
          (\<exists>m\<in>set st_metadata_entries. me_type m = nf_type f \<and> me_id m = nf_common f)))"

fun storable :: "nat \<Rightarrow> st_node \<Rightarrow> bool" where
  "storable d (Node f cs) \<longleftrightarrow> d \<le> ST_MAX_CMD_TOKENS \<and> fields_ok f \<and> distinct (map node_key cs) \<and>
     list_all (storable (d + 1)) cs \<and> sum_list (map (\<lambda>c. nf_count (nd_fields c)) cs) \<le> nf_count f"

fun node_total :: "st_node \<Rightarrow> nat" where
  "node_total (Node f cs) = Suc (sum_list (map node_total cs))"

abbreviation nodes_total :: "st_node list \<Rightarrow> nat" where
  "nodes_total cs \<equiv> sum_list (map node_total cs)"

text \<open>The nodes in preorder: number, number of the parent, fields.\<close>

fun node_rows :: "nat \<Rightarrow> nat \<Rightarrow> st_node \<Rightarrow> (nat \<times> nat \<times> node_fields) list"
  and child_rows :: "nat \<Rightarrow> nat \<Rightarrow> st_node list \<Rightarrow> (nat \<times> nat \<times> node_fields) list" where
  "node_rows parent i (Node f cs) = (i, parent, f) # child_rows i (i + 1) cs"
| "child_rows parent i [] = []"
| "child_rows parent i (c # cs) = node_rows parent i c @ child_rows parent (i + node_total c) cs"

lemma length_rows [simp]:
  "length (node_rows parent i n) = node_total n" "length (child_rows parent i cs) = nodes_total cs"
  by (induction parent i n and parent i cs rule: node_rows_child_rows.induct) simp_all

definition row_fields :: "nat \<times> nat \<times> node_fields \<Rightarrow> bytes list" where
  "row_fields = (\<lambda>(i, parent, f). saved_fields i parent f (the (saved_metadata f)))"

definition row_record :: "nat \<times> nat \<times> node_fields \<Rightarrow> bytes" where
  "row_record r = concat (map netstring (row_fields r))"

definition row_frame :: "nat \<times> nat \<times> node_fields \<Rightarrow> bytes" where
  "row_frame r = netstring (row_record r) @ [CHR 0x0A]"

definition row_frames :: "(nat \<times> nat \<times> node_fields) list \<Rightarrow> bytes" where
  "row_frames rs = concat (map row_frame rs)"

lemma row_frames_simps [simp]:
  "row_frames [] = []" "row_frames (r # rs) = row_frame r @ row_frames rs"
  "row_frames (rs @ rs') = row_frames rs @ row_frames rs'"
  by (simp_all add: row_frames_def)

section \<open>The fields of a record\<close>

lemma metadata_names_short: "list_all (\<lambda>m. length (me_name m) < 10 \<and> me_name m \<noteq> ''-'' \<and> me_name m \<noteq> ''!'' \<and>
    me_id m \<noteq> ST_META_NONE) st_metadata_entries"
  by (simp add: st_metadata_entries_def meta_entry_def)

lemma metadata_name_short:
  assumes "m \<in> set st_metadata_entries"
  shows "length (me_name m) < 10" "me_name m \<noteq> ''-''" "me_name m \<noteq> ''!''" "me_id m \<noteq> ST_META_NONE"
  using metadata_names_short assms by (auto simp: list_all_iff)

lemma metadata_by_id_entry: "m \<in> set st_metadata_entries \<Longrightarrow> metadata_by_id (me_id m) = Some m"
proof -
  assume m: "m \<in> set st_metadata_entries"
  then obtain e where "metadata_by_id (me_id m) = Some e"
    unfolding metadata_by_id_def by (cases "List.find (\<lambda>e. me_id e = me_id m) st_metadata_entries") (auto simp: find_None_iff)
  moreover from this have "e \<in> set st_metadata_entries" "me_id e = me_id m"
    using find_Some_mem unfolding metadata_by_id_def by fastforce+
  ultimately show ?thesis using metadata_entry_id_inject [OF _ m] by blast
qed

lemma metadata_lookup_entry: "m \<in> set st_metadata_entries \<Longrightarrow> st_metadata_lookup (me_type m) (me_name m) = Some m"
  by (simp add: st_metadata_lookup_def metadata_lookup_name metadata_name_plain(1))

lemma fields_ok_metadata:
  assumes "fields_ok f"
  obtains (mixed) "nf_mixed f" "nf_type f \<noteq> ST_TYPE_LITERAL" "saved_metadata f = Some ''!''"
  | (named) m where "m \<in> set st_metadata_entries" "me_type m = nf_type f" "me_id m = nf_common f" "\<not> nf_mixed f"
      "nf_type f \<noteq> ST_TYPE_LITERAL" "nf_type f \<noteq> ST_TYPE_SEMVER" "saved_metadata f = Some (me_name m)"
  | (none) "nf_type f = ST_TYPE_LITERAL" "nf_common f = ST_META_NONE" "\<not> nf_mixed f" "saved_metadata f = Some ''-''"
proof (cases "nf_type f = ST_TYPE_LITERAL")
  case True
  then show ?thesis using assms none by (simp add: fields_ok_def saved_metadata_def)
next
  case False
  show ?thesis
  proof (cases "nf_mixed f")
    case True
    then show ?thesis using False mixed by (simp add: saved_metadata_def)
  next
    case unmixed: False
    then obtain m where m: "m \<in> set st_metadata_entries" "me_type m = nf_type f" "me_id m = nf_common f"
      "nf_type f \<noteq> ST_TYPE_SEMVER"
      using assms False by (auto simp: fields_ok_def)
    then have "nf_common f \<noteq> ST_META_NONE" "metadata_by_id (nf_common f) = Some m"
      using metadata_name_short(4) [OF m(1)] metadata_by_id_entry [OF m(1)] by auto
    then show ?thesis using named [OF m(1-3) unmixed False m(4)] m(2) unmixed by (simp add: saved_metadata_def)
  qed
qed

lemma digits_u32: "n \<le> UINT32_MAX \<Longrightarrow> decimal_digits n \<le> 10"
  by (rule decimal_digits_le) (simp_all add: UINT32_MAX_def)

lemma netstring_small: "length p \<le> n \<Longrightarrow> n < 10 ^ k \<Longrightarrow> 0 < k \<Longrightarrow> length (netstring p) \<le> k + n + 2"
  using decimal_digits_le [of "length p" k] by (simp add: length_netstring)

lemma type_index_bound: "type_index t < 100"
  by (cases t) simp_all

lemma type_index_nth: "type_index t < length all_token_types" "all_token_types ! type_index t = t"
  by (cases t; simp add: all_token_types_def)+

lemma row_record_small:
  assumes f: "fields_ok f" and i: "i \<le> UINT32_MAX" "parent \<le> UINT32_MAX"
  shows "length (row_record (i, parent, f)) < 400"
proof -
  have num: "length (netstring (decimal n)) \<le> 14" if "n \<le> UINT32_MAX" for n
    using netstring_small [of "decimal n" 10 2] digits_u32 [OF that] by (simp add: length_decimal)
  have type: "length (netstring (decimal (type_index (nf_type f)))) \<le> 14"
    by (rule num) (use type_index_bound [of "nf_type f"] in \<open>simp add: UINT32_MAX_def\<close>)
  have cnt: "nf_count f \<le> UINT32_MAX" "nf_observations f \<le> UINT32_MAX" using f by (auto simp: fields_ok_def split: if_splits)
  have kind: "length (netstring (if nf_type f = ST_TYPE_LITERAL then ''L'' else ''T'')) \<le> 4"
    by (simp add: length_netstring decimal_digits.simps)
  have "length (the (saved_metadata f)) \<le> 10"
    using f by (cases rule: fields_ok_metadata) (use metadata_name_short(1) in \<open>fastforce+\<close>)
  then have meta: "length (netstring (the (saved_metadata f))) \<le> 14"
    using netstring_small [of "the (saved_metadata f)" 10 2] by simp
  have "length (if nf_type f = ST_TYPE_LITERAL then nf_token f else []) \<le> 255"
    using f by (auto simp: fields_ok_def ST_MAX_TOKEN_LEN_def)
  then have token: "length (netstring (if nf_type f = ST_TYPE_LITERAL then nf_token f else [])) \<le> 260"
    using netstring_small [of _ 255 3] by simp
  show ?thesis
    using num [OF i(1)] num [OF i(2)] num [OF cnt(1)] num [OF cnt(2)] type kind meta token
    unfolding row_record_def row_fields_def saved_fields_def prod.case list.map concat.simps length_append list.size
    by linarith
qed

lemma append_fields:
  "used + length (concat (map netstring fs)) \<le> length rec \<Longrightarrow> length rec \<le> SIZE_MAX \<Longrightarrow>
   append_netstring_fields fs rec used =
     Some (take used rec @ concat (map netstring fs) @ drop (used + length (concat (map netstring fs))) rec,
       used + length (concat (map netstring fs)))"
proof (induction fs arbitrary: rec used)
  case (Cons v fs)
  let ?rec = "take used rec @ netstring v @ drop (used + length (netstring v)) rec"
  have "append_netstring_field rec used v = Some (?rec, used + length (netstring v))"
    using Cons.prems by (simp add: append_netstring_field_def ns_write_ok add.commute [of used])
  moreover have "take (used + length (netstring v)) ?rec = take used rec @ netstring v"
    using Cons.prems by simp
  moreover have "drop (used + length (netstring v) + k) ?rec = drop (used + length (netstring v) + k) rec" for k
    using Cons.prems by (simp add: ac_simps)
  ultimately show ?case
    using Cons.prems Cons.IH [of "used + length (netstring v)" ?rec] by (simp add: add.assoc)
qed simp

section \<open>What the walk writes\<close>

lemma save_node_record_effect:
  assumes f: "fields_ok f" and i: "i \<le> UINT32_MAX" "parent \<le> UINT32_MAX" and ok: "lw_error ctx = ST_OK"
  shows "let ctx' = save_node_record sys i parent f ctx in lw_next_id ctx' = lw_next_id ctx \<and>
    (lw_error ctx' = ST_ERR_IO \<and> (\<exists>k. \<not> sys_ok sys (Write_stream k)) \<or>
     lw_error ctx' = ST_OK \<and> out_bytes (lw_stream ctx') = out_bytes (lw_stream ctx) @ row_frame (i, parent, f) \<and>
     lw_crc ctx' = st_crc32_update (row_frame (i, parent, f)) (lw_crc ctx))"
proof -
  let ?r = "row_record (i, parent, f)" and ?n = "ST_MAX_TOKEN_LEN + 256"
  have small: "length ?r < 400" using row_record_small [OF f i] .
  obtain m where m: "saved_metadata f = Some m" using f by (cases rule: fields_ok_metadata) auto
  have rec: "append_netstring_fields (saved_fields i parent f m) (replicate ?n NUL) 0 =
      Some (?r @ drop (length ?r) (replicate ?n NUL), length ?r)"
    using append_fields [of 0 "saved_fields i parent f m" "replicate ?n NUL"] small m
    by (simp add: row_record_def row_fields_def ST_MAX_TOKEN_LEN_def SIZE_MAX_def)
  have d: "decimal_digits (length ?r) \<le> 3" using decimal_digits_le [of "length ?r" 3] small by simp
  then have prefix: "shell_netstring_write_prefix (replicate 31 NUL) (length ?r) =
      Inr (decimal (length ?r) @ CHR '':'' # replicate (30 - decimal_digits (length ?r)) NUL, decimal_digits (length ?r) + 1)"
    by (simp add: write_prefix_eq)
  obtain ok f' where put: "put_all sys [decimal (length ?r) @ [CHR '':''], ?r, [CHR '','', CHR 0x0A]] (lw_stream ctx) = (ok, f')"
    by fastforce
  have frame: "row_frame (i, parent, f) = (decimal (length ?r) @ [CHR '':'']) @ ?r @ [CHR '','', CHR 0x0A]"
    by (simp add: row_frame_def netstring_def)
  have "\<not> ok \<Longrightarrow> \<exists>k. \<not> sys_ok sys (Write_stream k)"
    using put by (auto simp: put_stream_def split: if_splits)
  then show ?thesis
    using ok m rec prefix put put_all_ok [of sys _ "lw_stream ctx" f'] frame
    by (cases ok) (simp_all add: save_node_record_def Let_def length_decimal [symmetric] crc_append del: put_all.simps)
qed

definition walk_wrote :: "sys \<Rightarrow> (nat \<times> nat \<times> node_fields) list \<Rightarrow> learner_save_ctx \<Rightarrow> learner_save_ctx \<Rightarrow> bool" where
  "walk_wrote sys rs ctx ctx' \<longleftrightarrow>
     lw_error ctx' \<noteq> ST_OK \<and>
       ((\<exists>k. \<not> sys_ok sys (Write_stream k)) \<or> lw_next_id ctx + length rs > UINT32_MAX) \<or>
     lw_error ctx' = ST_OK \<and> out_bytes (lw_stream ctx') = out_bytes (lw_stream ctx) @ row_frames rs \<and>
     lw_crc ctx' = st_crc32_update (row_frames rs) (lw_crc ctx) \<and>
     lw_next_id ctx' = lw_next_id ctx + length rs \<and> lw_next_id ctx' \<le> UINT32_MAX"

lemma dfs_save_stop: "lw_error ctx \<noteq> ST_OK \<Longrightarrow> dfs_save_v4 sys parent d n ctx = ctx"
  by (cases n) simp

lemma dfs_saves_stop: "lw_error ctx \<noteq> ST_OK \<Longrightarrow> foldl (\<lambda>ctx c. dfs_save_v4 sys parent d c ctx) ctx cs = ctx"
  by (induction cs) (simp_all add: dfs_save_stop)

lemma walk_wrote_append:
  assumes "walk_wrote sys rs ctx ctx1" "lw_error ctx1 = ST_OK \<Longrightarrow> walk_wrote sys rs' ctx1 ctx2"
    and "lw_error ctx1 \<noteq> ST_OK \<Longrightarrow> ctx2 = ctx1"
  shows "walk_wrote sys (rs @ rs') ctx ctx2"
  using assms by (cases "lw_error ctx1 = ST_OK") (auto simp: walk_wrote_def crc_append)

lemma dfs_save_effect:
  "i = lw_next_id ctx \<Longrightarrow> storable d n \<Longrightarrow> lw_error ctx = ST_OK \<Longrightarrow> i \<le> UINT32_MAX \<Longrightarrow> parent \<le> UINT32_MAX \<Longrightarrow>
   walk_wrote sys (node_rows parent i n) ctx (dfs_save_v4 sys parent d n ctx)"
  "i = lw_next_id ctx \<Longrightarrow> list_all (storable d) cs \<Longrightarrow> lw_error ctx = ST_OK \<Longrightarrow> i \<le> UINT32_MAX \<Longrightarrow> parent \<le> UINT32_MAX \<Longrightarrow>
   walk_wrote sys (child_rows parent i cs) ctx (foldl (\<lambda>ctx c. dfs_save_v4 sys parent d c ctx) ctx cs)"
proof (induction parent i n and parent i cs arbitrary: d ctx and d ctx rule: node_rows_child_rows.induct)
  case (1 parent i f cs)
  define ctx1 where "ctx1 = save_node_record sys i parent f (ctx\<lparr>lw_next_id := i + 1\<rparr>)"
  show ?case
  proof (cases "i = UINT32_MAX")
    case True
    then show ?thesis using "1.prems" by (simp add: walk_wrote_def)
  next
    case False
    then have i: "i + 1 \<le> UINT32_MAX" using "1.prems"(4) by simp
    have first: "walk_wrote sys [(i, parent, f)] ctx ctx1 \<and> lw_next_id ctx1 = i + 1"
      using save_node_record_effect [of f i parent "ctx\<lparr>lw_next_id := i + 1\<rparr>" sys] "1.prems" i
      by (auto simp: walk_wrote_def Let_def ctx1_def)
    have step: "dfs_save_v4 sys parent d (Node f cs) ctx =
        (if lw_error ctx1 \<noteq> ST_OK then ctx1 else foldl (\<lambda>ctx c. dfs_save_v4 sys i (d + 1) c ctx) ctx1 cs)"
      using "1.prems" False by (simp add: ctx1_def Let_def)
    have "walk_wrote sys ([(i, parent, f)] @ child_rows i (i + 1) cs) ctx (dfs_save_v4 sys parent d (Node f cs) ctx)"
    proof (rule walk_wrote_append)
      show "walk_wrote sys [(i, parent, f)] ctx ctx1" using first by simp
      show "walk_wrote sys (child_rows i (i + 1) cs) ctx1 (dfs_save_v4 sys parent d (Node f cs) ctx)"
        if "lw_error ctx1 = ST_OK"
        using "1.IH" [of ctx1 "d + 1"] that first "1.prems" i unfolding step by simp
    qed (simp only: step if_True simp_thms)
    then show ?thesis by simp
  qed
next
  case (2 parent i)
  then show ?case by (simp add: walk_wrote_def)
next
  case (3 parent i c cs)
  define ctx1 where "ctx1 = dfs_save_v4 sys parent d c ctx"
  have first: "walk_wrote sys (node_rows parent i c) ctx ctx1"
    using "3.IH"(1) "3.prems" by (simp add: ctx1_def)
  show ?case
    unfolding child_rows.simps
  proof (rule walk_wrote_append [OF first])
    show "walk_wrote sys (child_rows parent (i + node_total c) cs) ctx1
        (foldl (\<lambda>ctx c. dfs_save_v4 sys parent d c ctx) ctx (c # cs))" if "lw_error ctx1 = ST_OK"
      using "3.IH"(2) [of ctx1 d] "3.prems" first that by (simp add: walk_wrote_def ctx1_def)
  qed (simp add: ctx1_def dfs_saves_stop)
qed

section \<open>Counting the nodes\<close>

definition count_step :: "nat \<times> bool \<Rightarrow> st_node \<Rightarrow> nat \<times> bool" where
  "count_step acc c = (case count_saved_nodes c (snd acc) of (n, overflow) \<Rightarrow> (fst acc + n, overflow))"

lemma count_loop:
  assumes "\<And>c. c \<in> set cs \<Longrightarrow> count_saved_nodes c False = (x c, UINT32_MAX < node_total c) \<and>
      (\<not> UINT32_MAX < node_total c \<longrightarrow> x c = node_total c)"
  shows "\<exists>y. foldl count_step (a, ov) cs = (y, ov \<or> \<not> list_all (\<lambda>c. node_total c \<le> UINT32_MAX) cs) \<and>
      (\<not> ov \<and> list_all (\<lambda>c. node_total c \<le> UINT32_MAX) cs \<longrightarrow> y = a + nodes_total cs)"
  using assms
proof (induction cs arbitrary: a ov)
  case (Cons c cs)
  have "count_saved_nodes c True = (0, True)" by (cases c) simp
  then have "count_step (a, ov) c = (if ov then (a, True) else (a + x c, UINT32_MAX < node_total c))"
    using Cons.prems [of c] by (simp add: count_step_def)
  then show ?case
    using Cons.IH [of a True] Cons.IH [of "a + x c" "UINT32_MAX < node_total c"] Cons.prems
    by (cases ov) (auto simp: not_less)
qed simp

lemma nodes_total_member: "c \<in> set cs \<Longrightarrow> node_total c \<le> nodes_total cs"
  by (simp add: member_le_sum_list)

lemma count_saved_nodes_eq:
  "\<exists>y. count_saved_nodes n False = (y, UINT32_MAX < node_total n) \<and> (\<not> UINT32_MAX < node_total n \<longrightarrow> y = node_total n)"
proof (induction n)
  case (Node f cs)
  then obtain x where x: "\<And>c. c \<in> set cs \<Longrightarrow> count_saved_nodes c False = (x c, UINT32_MAX < node_total c) \<and>
      (\<not> UINT32_MAX < node_total c \<longrightarrow> x c = node_total c)"
    by metis
  have big: "UINT32_MAX < Suc (nodes_total cs)" if "\<not> list_all (\<lambda>c. node_total c \<le> UINT32_MAX) cs"
    using that nodes_total_member [of _ cs] by (fastforce simp: list_all_iff)
  obtain y where "foldl count_step (1, False) cs = (y, \<not> list_all (\<lambda>c. node_total c \<le> UINT32_MAX) cs)"
      "list_all (\<lambda>c. node_total c \<le> UINT32_MAX) cs \<longrightarrow> y = 1 + nodes_total cs"
    using count_loop [of cs x 1 False, OF x] by auto
  then show ?case
    using big by (auto simp: count_step_def [abs_def])
qed

lemma count_saved_forest:
  obtains y where "foldl count_step (0, False) cs = (y, \<not> list_all (\<lambda>c. node_total c \<le> UINT32_MAX) cs)"
    "list_all (\<lambda>c. node_total c \<le> UINT32_MAX) cs \<longrightarrow> y = nodes_total cs"
proof -
  obtain x where "\<And>c. c \<in> set cs \<Longrightarrow> count_saved_nodes c False = (x c, UINT32_MAX < node_total c) \<and>
      (\<not> UINT32_MAX < node_total c \<longrightarrow> x c = node_total c)"
    using count_saved_nodes_eq by metis
  from count_loop [of cs x 0 False, OF this] show ?thesis using that by auto
qed

section \<open>The file\<close>

definition learner_file :: "st_node \<Rightarrow> nat \<Rightarrow> bytes" where
  "learner_file n commands =
     (let frames = row_frames (child_rows 0 1 (nd_children n)) in
      learner_header @ CHR 0x0A # total_prefix @ decimal commands @ CHR 0x0A # nodes_prefix @
      decimal (nodes_total (nd_children n)) @ CHR 0x0A # frames @
      learner_crc_prefix @ print_hex8 (st_crc32_update frames 0) @ [CHR 0x0A])"

definition system_serves :: "sys \<Rightarrow> bool" where
  "system_serves sys \<longleftrightarrow> (\<forall>k. sys_ok sys (Write_stream k))"

text \<open>The destination is replaced by the complete file of the learner, or it stays.\<close>

lemma learner_save_effect:
  assumes st: "list_all (storable 1) (nd_children (ln_root l))"
    and save: "st_learner_save sys disk l file_path = (e, disk')"
  shows "confined disk file_path disk' \<and>
    (e \<noteq> ST_OK \<and> disk' file_path = disk file_path \<or>
     nodes_total (nd_children (ln_root l)) < UINT32_MAX \<and>
     disk' = disk(file_path \<mapsto> Regular (learner_file (ln_root l) (ln_total l)) (kept_mode disk file_path)))"
proof -
  let ?cs = "nd_children (ln_root l)"
  obtain r begun disk1 where start: "st_atomic_output_begin sys disk file_path = (r, begun, disk1)" by (metis prod_cases3)
  show ?thesis
  proof (cases begun)
    case None
    then show ?thesis
      using save start output_begin_None [of sys disk file_path r disk1]
      by (auto simp: st_learner_save_def split: if_splits)
  next
    case (Some out)
    note B = start [unfolded Some]
    note dropped = output_discard [OF B]
    obtain y where y: "foldl count_step (0, False) ?cs = (y, \<not> list_all (\<lambda>c. node_total c \<le> UINT32_MAX) ?cs)"
      "list_all (\<lambda>c. node_total c \<le> UINT32_MAX) ?cs \<longrightarrow> y = nodes_total ?cs"
      using count_saved_forest .
    show ?thesis
    proof (cases "\<not> list_all (\<lambda>c. node_total c \<le> UINT32_MAX) ?cs \<or> UINT32_MAX < y")
      case True
      then have "e = ST_ERR_LIMIT" "disk' = st_atomic_output_discard sys disk1 out"
        using save B y by (auto simp: st_learner_save_def count_step_def [abs_def])
      then show ?thesis using dropped by simp
    next
      case False
      then have nodes: "y = nodes_total ?cs" using y by simp
      obtain wrote f where f: "put_stream sys (learner_header @ CHR 0x0A # total_prefix @ decimal (ln_total l) @
          CHR 0x0A # nodes_prefix @ decimal y @ [CHR 0x0A]) (ao_stream out) = (wrote, f)" by fastforce
      define ctx where "ctx = foldl (\<lambda>ctx c. dfs_save_v4 sys 0 1 c ctx)
          \<lparr>lw_stream = f, lw_error = ST_OK, lw_next_id = 1, lw_crc = 0\<rparr> ?cs"
      have walk: "walk_wrote sys (child_rows 0 1 ?cs) \<lparr>lw_stream = f, lw_error = ST_OK, lw_next_id = 1, lw_crc = 0\<rparr> ctx"
        unfolding ctx_def by (rule dfs_save_effect) (use st in \<open>simp_all add: UINT32_MAX_def\<close>)
      obtain closed g where g: "put_stream sys (learner_crc_prefix @ print_hex8 (lw_crc ctx) @ [CHR 0x0A]) (lw_stream ctx) = (closed, g)"
        by fastforce
      obtain ok disk2 where commit: "st_atomic_output_commit sys disk1 (out\<lparr>ao_stream := g\<rparr>) = (ok, disk2)" by fastforce
      have good: "lw_error ctx = ST_OK \<Longrightarrow> lw_next_id ctx - 1 = y" using walk by (auto simp: walk_wrote_def nodes)
      have form: "st_learner_save sys disk l file_path =
          (if wrote \<and> lw_error ctx = ST_OK \<and> closed then (if ok then ST_OK else ST_ERR_IO, disk2)
           else (if wrote \<and> lw_error ctx \<noteq> ST_OK then lw_error ctx else ST_ERR_IO, st_atomic_output_discard sys disk1 out))"
        unfolding st_learner_save_def B prod.case option.case count_step_def [abs_def, symmetric] y(1)
        using False g commit good by (simp add: f ctx_def [symmetric] Let_def del: One_nat_def split: bool.splits)
      show ?thesis
      proof (cases "wrote \<and> lw_error ctx = ST_OK \<and> closed")
        case False
        then show ?thesis using save dropped unfolding form by (auto split: if_splits)
      next
        case True
        have "out_bytes f = learner_header @ CHR 0x0A # total_prefix @ decimal (ln_total l) @
            CHR 0x0A # nodes_prefix @ decimal y @ [CHR 0x0A]"
          using f True output_begin_Some [OF B] by (auto simp: put_stream_def split: if_splits)
        moreover have "out_bytes g = out_bytes (lw_stream ctx) @ learner_crc_prefix @ print_hex8 (lw_crc ctx) @ [CHR 0x0A]"
          using g True by (auto simp: put_stream_def split: if_splits)
        ultimately have "out_bytes g = learner_file (ln_root l) (ln_total l)"
          using walk True by (simp add: walk_wrote_def learner_file_def nodes Let_def)
        moreover have "nodes_total ?cs < UINT32_MAX" using walk True by (auto simp: walk_wrote_def)
        ultimately show ?thesis
          using output_commit [OF B commit] save True unfolding form by auto
      qed
    qed
  qed
qed

section \<open>Reading a record\<close>

lemma parse_u32_decimal:
  assumes "n \<le> UINT32_MAX"
  shows "parse_u32_view (decimal n) = Some n"
proof -
  let ?step = "\<lambda>parsed c. case parsed of None \<Rightarrow> None | Some v \<Rightarrow>
     (if \<not> shell_ascii_digit c then None
      else if v > (UINT32_MAX - digit_value c) div 10 then None else Some (v * 10 + digit_value c))"
  have "list_all shell_ascii_digit s \<Longrightarrow> decimal_value v s \<le> UINT32_MAX \<Longrightarrow>
      foldl ?step (Some v) s = Some (decimal_value v s)" for s v
  proof (induction s arbitrary: v)
    case (Cons c s)
    have c: "v * 10 + digit_value c \<le> UINT32_MAX"
      using decimal_value_mono [of "v * 10 + digit_value c" s] Cons.prems by simp
    then have "\<not> v > (UINT32_MAX - digit_value c) div 10" by linarith
    then show ?case using Cons by simp
  qed simp
  moreover have "list_all shell_ascii_digit (decimal n)" using decimal_all_digits by (simp add: list_all_iff)
  moreover have "length (decimal n) < 16" using digits_u32 [OF assms] by (simp add: length_decimal)
  ultimately show ?thesis using assms by (simp add: parse_u32_view_def)
qed

lemma take_fields:
  "list_all (\<lambda>f. length f \<le> SIZE_MAX) fs \<Longrightarrow> offset \<le> length rec \<Longrightarrow> drop offset rec = concat (map netstring fs) \<Longrightarrow>
   take_netstring_fields (length fs) rec offset = Some fs"
proof (induction fs arbitrary: offset)
  case (Cons f fs)
  have parse: "ns_parse (drop offset rec) = Inr (f, concat (map netstring fs))"
    using Cons.prems ns_parse_netstring [of f] by simp
  have len: "length rec = offset + length (netstring f @ concat (map netstring fs))"
    using Cons.prems(2,3) by (metis concat.simps(2) length_drop le_add_diff_inverse list.simps(9))
  have next_off: "length rec - length (concat (map netstring fs)) = offset + length (netstring f)"
    using len by simp
  have "drop (offset + length (netstring f)) rec = drop (length (netstring f)) (drop offset rec)"
    by (simp add: add.commute)
  also have "\<dots> = concat (map netstring fs)" using Cons.prems(3) by simp
  finally have "take_netstring_fields (length fs) rec (offset + length (netstring f)) = Some fs"
    using Cons.IH Cons.prems(1) len by simp
  then show ?case
    using Cons.prems(2) parse next_off by (simp add: take_netstring_field_def)
qed simp

lemma row_frame_read:
  assumes f: "fields_ok f" and i: "i \<le> UINT32_MAX" "parent \<le> UINT32_MAX"
    and bytes: "st_bytes s = row_frame (i, parent, f) @ r"
  shows "read_outer_record s crc =
    Inr (row_record (i, parent, f), st_crc32_update (row_frame (i, parent, f)) crc, s\<lparr>st_bytes := r\<rparr>)"
proof -
  let ?p = "row_record (i, parent, f)" and ?s = "s\<lparr>st_bytes := CHR 0x0A # r\<rparr>"
  have small: "length ?p < 400" using row_record_small [OF f i] .
  then have len: "length (netstring ?p) \<le> ST_MAX_TOKEN_LEN + 288" "length (netstring ?p) < SIZE_MAX" "length ?p \<le> SIZE_MAX"
    using netstring_small [of ?p 400 3] by (simp_all add: ST_MAX_TOKEN_LEN_def SIZE_MAX_def)
  have "shell_netstring_read_stream s (ST_MAX_TOKEN_LEN + 288) = (Inr (netstring ?p), ?s)"
    unfolding ns_read_stream_iff using bytes len by (auto simp: row_frame_def)
  moreover have "ns_parse (netstring ?p) = Inr (?p, [])"
    using ns_parse_netstring [of ?p "[]"] len by simp
  moreover have "?p \<noteq> []" by (simp add: row_record_def row_fields_def saved_fields_def)
  moreover have "take (length (netstring ?p) - length ?p - 1) (netstring ?p) = decimal (length ?p) @ [CHR '':'']"
    by (simp add: netstring_def)
  moreover have "row_frame (i, parent, f) = (decimal (length ?p) @ [CHR '':'']) @ ?p @ [CHR '','', CHR 0x0A]"
    by (simp add: row_frame_def netstring_def)
  ultimately show ?thesis
    using small by (simp add: read_outer_record_def fgetc_def crc_append ST_MAX_TOKEN_LEN_def)
qed

section \<open>Rebuilding a node\<close>

definition forget :: "node_fields \<Rightarrow> node_fields" where
  "forget f = (if nf_mixed f then f\<lparr>nf_common := ST_META_NONE\<rparr> else f)"

fun forget_node :: "st_node \<Rightarrow> st_node" where
  "forget_node (Node f cs) = Node (forget f) (map forget_node cs)"

lemma forget_simps [simp]:
  "nf_token (forget f) = nf_token f" "nf_type (forget f) = nf_type f" "nf_count (forget f) = nf_count f"
  "nf_observed (forget f) = nf_observed f" "nf_observations (forget f) = nf_observations f"
  "nf_mixed (forget f) = nf_mixed f"
  by (simp_all add: forget_def)

lemma forget_node_simps [simp]:
  "nd_fields (forget_node n) = forget (nd_fields n)" "nd_children (forget_node n) = map forget_node (nd_children n)"
  "node_key (forget_node n) = node_key n"
  by (cases n; simp add: node_key_def)+

lemma loaded_saved_fields:
  assumes f: "fields_ok f"
  shows "loaded_fields (row_fields (i, parent, f)) (type_index (nf_type f)) (nf_count f) (nf_observations f) = Some (forget f)"
  using f
proof (cases rule: fields_ok_metadata)
  case mixed
  then show ?thesis
    using f by (simp add: loaded_fields_def row_fields_def saved_fields_def type_index_nth not_le Let_def fields_ok_def forget_def)
next
  case (named m)
  have "length (me_name m) < ST_MAX_TOKEN_LEN" using metadata_name_short(1) [OF named(1)] by (simp add: ST_MAX_TOKEN_LEN_def)
  then show ?thesis
    using f named metadata_name_short [OF named(1)] metadata_lookup_entry [OF named(1), unfolded named(2)]
    by (simp add: loaded_fields_def row_fields_def saved_fields_def type_index_nth not_le Let_def fields_ok_def forget_def)
next
  case none
  then show ?thesis
    using f type_index_nth [of ST_TYPE_LITERAL] by (simp add: loaded_fields_def row_fields_def saved_fields_def type_index_nth not_le Let_def fields_ok_def forget_def)
qed

lemma fields_node_key: "node_answers (nf_token f) (nf_type f) c \<longleftrightarrow> node_key c = node_key (Node f cs)"
  by (auto simp: node_answers_def node_key_def Let_def)

lemma node_key_leaf: "node_key (Node f cs) = node_key (Node f [])"
  by (simp add: node_key_def)

lemma load_node_saved:
  assumes f: "fields_ok f" and i: "i \<le> UINT32_MAX" "parent < i"
    and p: "length (paths ! parent) < ST_MAX_CMD_TOKENS"
    and new: "node_key (Node f []) \<notin> set (map node_key (nd_children (node_at (paths ! parent) trunk)))"
  shows "load_node i (row_fields (i, parent, f)) trunk paths =
    Some (add_child_at (paths ! parent) (Node (forget f) []) trunk,
      paths @ [paths ! parent @ [length (nd_children (node_at (paths ! parent) trunk))]])"
proof -
  have fields: "row_fields (i, parent, f) ! 0 = decimal i" "row_fields (i, parent, f) ! 1 = decimal parent"
    "row_fields (i, parent, f) ! 3 = decimal (type_index (nf_type f))" "row_fields (i, parent, f) ! 4 = decimal (nf_count f)"
    "row_fields (i, parent, f) ! 6 = decimal (nf_observations f)"
    by (simp_all add: row_fields_def saved_fields_def)
  have "parent \<le> UINT32_MAX" "type_index (nf_type f) \<le> UINT32_MAX" "nf_count f \<le> UINT32_MAX" "nf_observations f \<le> UINT32_MAX"
    using i f type_index_bound [of "nf_type f"] by (auto simp: fields_ok_def UINT32_MAX_def split: if_splits)
  moreover have "node_find_child (nd_children (node_at (paths ! parent) trunk)) (nf_token (forget f)) (nf_type (forget f)) = None"
    using new unfolding node_find_child_None forget_simps fields_node_key [of f _ "[]"]
    by (metis image_eqI list.set_map)
  ultimately show ?thesis
    using i p by (simp add: load_node_def fields parse_u32_decimal loaded_saved_fields [OF f] Let_def del: One_nat_def)
qed

section \<open>Rebuilding the trie\<close>

fun valid_path :: "nat list \<Rightarrow> st_node \<Rightarrow> bool" where
  "valid_path [] n \<longleftrightarrow> True"
| "valid_path (k # ks) n \<longleftrightarrow> k < length (nd_children n) \<and> valid_path ks (nd_children n ! k)"

fun graft :: "nat list \<Rightarrow> st_node list \<Rightarrow> st_node \<Rightarrow> st_node" where
  "graft [] cs n = Node (nd_fields n) (nd_children n @ cs)"
| "graft (k # ks) cs n = Node (nd_fields n) ((nd_children n)[k := graft ks cs (nd_children n ! k)])"

lemma add_child_graft: "add_child_at p c n = graft p [c] n"
  by (induction p c n rule: add_child_at.induct) simp_all

lemma graft_none: "valid_path p n \<Longrightarrow> graft p [] n = n"
  by (induction p arbitrary: n) simp_all

lemma graft_graft: "valid_path p n \<Longrightarrow> graft p ds (graft p cs n) = graft p (cs @ ds) n"
  by (induction p arbitrary: n) simp_all

lemma graft_valid: "valid_path p n \<Longrightarrow> valid_path p (graft p cs n)"
  by (induction p arbitrary: n) simp_all

lemma graft_valid_new: "valid_path p n \<Longrightarrow> valid_path (p @ [length (nd_children (node_at p n))]) (graft p (c # cs) n)"
  by (induction p arbitrary: n) simp_all

lemma node_at_graft: "valid_path p n \<Longrightarrow> node_at p (graft p cs n) = Node (nd_fields (node_at p n)) (nd_children (node_at p n) @ cs)"
  by (induction p arbitrary: n) simp_all

lemma node_at_graft_new:
  "valid_path p n \<Longrightarrow> node_at (p @ [length (nd_children (node_at p n))]) (graft p [c] n) = c"
  by (induction p arbitrary: n) simp_all

lemma graft_below:
  "valid_path p n \<Longrightarrow> graft (p @ [length (nd_children (node_at p n))]) cs (graft p [Node f []] n) = graft p [Node f cs] n"
  by (induction p arbitrary: n) (simp_all add: list_update_append)

definition loads :: "(nat \<times> nat \<times> node_fields) list \<Rightarrow> nat \<Rightarrow> nat list \<Rightarrow> st_node list \<Rightarrow> nat \<Rightarrow> st_node \<Rightarrow> nat list list \<Rightarrow> bool" where
  "loads rs i p cs k trunk paths \<longleftrightarrow> (\<forall>m crc s r. st_bytes s = row_frames rs @ r \<longrightarrow>
     (\<exists>more. length more = k \<and>
       load_nodes (k + m) i crc trunk paths s =
         load_nodes m (i + k) (st_crc32_update (row_frames rs) crc) (graft p cs trunk) (paths @ more) (s\<lparr>st_bytes := r\<rparr>)))"

lemma loadsE:
  assumes "loads rs i p cs k trunk paths" "st_bytes s = row_frames rs @ r"
  obtains more where "length more = k"
    "load_nodes (k + m) i crc trunk paths s =
      load_nodes m (i + k) (st_crc32_update (row_frames rs) crc) (graft p cs trunk) (paths @ more) (s\<lparr>st_bytes := r\<rparr>)"
  using assms unfolding loads_def by meson

lemma load_one:
  assumes f: "fields_ok f" and i: "i \<le> UINT32_MAX" "parent < i"
    and p: "p = paths ! parent" "length p < ST_MAX_CMD_TOKENS"
    and new: "node_key (Node f []) \<notin> set (map node_key (nd_children (node_at p trunk)))"
    and s: "st_bytes s = row_frame (i, parent, f) @ r"
  shows "load_nodes (Suc m) i crc trunk paths s =
    load_nodes m (i + 1) (st_crc32_update (row_frame (i, parent, f)) crc) (graft p [Node (forget f) []] trunk)
      (paths @ [p @ [length (nd_children (node_at p trunk))]]) (s\<lparr>st_bytes := r\<rparr>)"
proof -
  have small: "length (row_record (i, parent, f)) < 400" using row_record_small [OF f i(1), of parent] i by simp
  have "list_all (\<lambda>x. length x \<le> SIZE_MAX) (row_fields (i, parent, f))"
  proof (unfold list_all_iff, rule ballI)
    fix x assume "x \<in> set (row_fields (i, parent, f))"
    then have "length (netstring x) \<le> length (row_record (i, parent, f))"
      unfolding row_record_def by (induction "row_fields (i, parent, f)") (auto simp: length_concat member_le_sum_list)
    then show "length x \<le> SIZE_MAX" using small by (simp add: length_netstring SIZE_MAX_def)
  qed
  moreover have "length (row_fields (i, parent, f)) = 8" by (simp add: row_fields_def saved_fields_def)
  ultimately have "take_netstring_fields 8 (row_record (i, parent, f)) 0 = Some (row_fields (i, parent, f))"
    using take_fields [of "row_fields (i, parent, f)" 0 "row_record (i, parent, f)"] by (simp add: row_record_def)
  then show ?thesis
    using row_frame_read [OF f i(1) order.trans [OF less_imp_le [OF i(2)] i(1)] s] load_node_saved [OF f i, of paths trunk] p new i(2)
    by (simp add: add_child_graft)
qed

lemma nth_append_old: "j < length xs \<Longrightarrow> (xs @ ys) ! j = xs ! j"
  by (simp add: nth_append)

lemma load_rows:
  "storable d n \<Longrightarrow> i + node_total n \<le> Suc UINT32_MAX \<Longrightarrow> length paths = i \<Longrightarrow> parent < i \<Longrightarrow>
   d = Suc (length (paths ! parent)) \<Longrightarrow> valid_path (paths ! parent) trunk \<Longrightarrow>
   node_key n \<notin> set (map node_key (nd_children (node_at (paths ! parent) trunk))) \<Longrightarrow>
   loads (node_rows parent i n) i (paths ! parent) [forget_node n] (node_total n) trunk paths"
  "list_all (storable d) cs \<Longrightarrow> distinct (map node_key cs) \<Longrightarrow> i + nodes_total cs \<le> Suc UINT32_MAX \<Longrightarrow>
   length paths = i \<Longrightarrow> parent < i \<Longrightarrow>
   d = Suc (length (paths ! parent)) \<Longrightarrow> valid_path (paths ! parent) trunk \<Longrightarrow>
   set (map node_key cs) \<inter> set (map node_key (nd_children (node_at (paths ! parent) trunk))) = {} \<Longrightarrow>
   loads (child_rows parent i cs) i (paths ! parent) (map forget_node cs) (nodes_total cs) trunk paths"
proof (induction parent i n and parent i cs arbitrary: d paths trunk and d paths trunk rule: node_rows_child_rows.induct)
  case (1 parent i f cs)
  let ?p = "paths ! parent" and ?r = "(i, parent, f)"
  let ?new = "?p @ [length (nd_children (node_at ?p trunk))]"
  define paths1 where "paths1 = paths @ [?new]"
  define trunk1 where "trunk1 = graft ?p [Node (forget f) []] trunk"
  have f: "fields_ok f" "list_all (storable (d + 1)) cs" "distinct (map node_key cs)" "d \<le> ST_MAX_CMD_TOKENS"
    using "1.prems"(1) by simp_all
  have key: "node_key (Node f []) \<notin> set (map node_key (nd_children (node_at ?p trunk)))"
    using "1.prems"(7) unfolding node_key_leaf [of f cs] .
  have at: "paths1 ! i = ?new" using "1.prems"(3) by (simp add: paths1_def nth_append)
  have kids: "loads (child_rows i (i + 1) cs) (i + 1) ?new (map forget_node cs) (nodes_total cs) trunk1 paths1"
    using "1.IH" [of "d + 1" paths1 trunk1, unfolded at] f(2,3) "1.prems"
    by (simp add: paths1_def trunk1_def graft_valid_new node_at_graft_new)
  show ?case
    unfolding loads_def
  proof (intro allI impI)
    fix m crc r and s :: c_stream
    assume s: "st_bytes s = row_frames (node_rows parent i (Node f cs)) @ r"
    let ?s = "s\<lparr>st_bytes := row_frames (child_rows i (i + 1) cs) @ r\<rparr>"
    have one: "load_nodes (Suc (nodes_total cs + m)) i crc trunk paths s =
        load_nodes (nodes_total cs + m) (i + 1) (st_crc32_update (row_frame ?r) crc) trunk1 paths1 ?s"
      unfolding trunk1_def paths1_def
      by (rule load_one) (use f "1.prems" s key in simp_all)
    obtain more where more: "length more = nodes_total cs"
      "load_nodes (nodes_total cs + m) (i + 1) (st_crc32_update (row_frame ?r) crc) trunk1 paths1 ?s =
       load_nodes m (i + 1 + nodes_total cs) (st_crc32_update (row_frames (child_rows i (i + 1) cs)) (st_crc32_update (row_frame ?r) crc))
         (graft ?new (map forget_node cs) trunk1) (paths1 @ more) (?s\<lparr>st_bytes := r\<rparr>)"
      by (rule loadsE [OF kids, of ?s r m "st_crc32_update (row_frame ?r) crc"]) simp_all
    have "graft ?new (map forget_node cs) trunk1 = graft ?p [forget_node (Node f cs)] trunk"
      using "1.prems"(6) by (simp add: trunk1_def graft_below)
    then show "\<exists>more. length more = node_total (Node f cs) \<and>
        load_nodes (node_total (Node f cs) + m) i crc trunk paths s =
        load_nodes m (i + node_total (Node f cs)) (st_crc32_update (row_frames (node_rows parent i (Node f cs))) crc)
          (graft ?p [forget_node (Node f cs)] trunk) (paths @ more) (s\<lparr>st_bytes := r\<rparr>)"
      using one more by (intro exI [of _ "?new # more"]) (simp add: paths1_def crc_append)
  qed
next
  case (2 parent i)
  then show ?case by (simp add: loads_def graft_none)
next
  case (3 parent i c cs)
  let ?p = "paths ! parent"
  define trunk1 where "trunk1 = graft ?p [forget_node c] trunk"
  have first: "loads (node_rows parent i c) i ?p [forget_node c] (node_total c) trunk paths"
    using "3.IH"(1) [of d paths trunk] "3.prems" by simp
  have rest: "loads (child_rows parent (i + node_total c) cs) (i + node_total c) ?p (map forget_node cs) (nodes_total cs) trunk1
      (paths @ more)" if "length more = node_total c" for more
    using "3.IH"(2) [of d "paths @ more" trunk1] "3.prems" that
    by (auto simp: nth_append_old trunk1_def graft_valid node_at_graft)
  show ?case
    unfolding loads_def
  proof (intro allI impI)
    fix m crc r and s :: c_stream
    let ?rest = "row_frames (child_rows parent (i + node_total c) cs)"
    assume s: "st_bytes s = row_frames (child_rows parent i (c # cs)) @ r"
    obtain more where more: "length more = node_total c"
      "load_nodes (node_total c + (nodes_total cs + m)) i crc trunk paths s =
       load_nodes (nodes_total cs + m) (i + node_total c) (st_crc32_update (row_frames (node_rows parent i c)) crc)
         trunk1 (paths @ more) (s\<lparr>st_bytes := ?rest @ r\<rparr>)"
      by (rule loadsE [OF first, of s "?rest @ r" "nodes_total cs + m" crc]) (simp_all add: trunk1_def s)
    obtain more' where more': "length more' = nodes_total cs"
      "load_nodes (nodes_total cs + m) (i + node_total c) (st_crc32_update (row_frames (node_rows parent i c)) crc)
         trunk1 (paths @ more) (s\<lparr>st_bytes := ?rest @ r\<rparr>) =
       load_nodes m (i + node_total c + nodes_total cs) (st_crc32_update ?rest (st_crc32_update (row_frames (node_rows parent i c)) crc))
         (graft ?p (map forget_node cs) trunk1) ((paths @ more) @ more') (s\<lparr>st_bytes := ?rest @ r\<rparr>\<lparr>st_bytes := r\<rparr>)"
      by (rule loadsE [OF rest [OF more(1)], of "s\<lparr>st_bytes := ?rest @ r\<rparr>" r m
            "st_crc32_update (row_frames (node_rows parent i c)) crc"]) simp_all
    show "\<exists>more. length more = nodes_total (c # cs) \<and>
        load_nodes (nodes_total (c # cs) + m) i crc trunk paths s =
        load_nodes m (i + nodes_total (c # cs)) (st_crc32_update (row_frames (child_rows parent i (c # cs))) crc)
          (graft ?p (map forget_node (c # cs)) trunk) (paths @ more) (s\<lparr>st_bytes := r\<rparr>)"
      using more more' "3.prems"(7)
      by (intro exI [of _ "more @ more'"]) (simp add: crc_append trunk1_def graft_graft add.assoc)
  qed
qed

section \<open>Reading the whole file\<close>

lemma line_text_Nil [simp]: "line_text []"
  by (simp add: line_text_def)

lemma load_checked_text:
  assumes "line_text s" "length s < 127" "st_bytes f = s @ CHR 0x0A # r" "check (s @ [CHR 0x0A]) = Some x"
  shows "load_checked_line check f = Inr (x, f\<lparr>st_bytes := r\<rparr>)"
  using read_line_text [of s "[]" 128 f r] assms by (simp add: load_checked_line_def st_read_line_def)

lemma c_digits_stop:
  "list_all shell_ascii_digit s \<Longrightarrow> c_digits 10 v (s @ [CHR 0x0A]) = (decimal_value v s, [CHR 0x0A])"
proof (induction s arbitrary: v)
  case Nil
  then show ?case by (simp add: c_digit_def less_eq_char_def)
next
  case (Cons c s)
  then show ?case by (simp add: digit_c_digit)
qed

lemma number_line_decimal:
  assumes "n \<le> UINT32_MAX"
  shows "number_line prefix (prefix @ decimal n @ [CHR 0x0A]) = Some n"
proof -
  have all: "list_all shell_ascii_digit (decimal n)" using decimal_all_digits by (simp add: list_all_iff)
  obtain c s where c: "decimal n = c # s" by (cases "decimal n") auto
  then have "shell_ascii_digit c" using all by simp
  note P = digit_plain [OF this] digit_c_digit [OF this] this
  have "n \<le> SIZE_MAX" using assms by (simp add: UINT32_MAX_def SIZE_MAX_def)
  then have "strtoul 10 (decimal n @ [CHR 0x0A]) = (n, [CHR 0x0A])"
    using P c_digits_stop [OF all, of 0] decimal_value_decimal [of n] by (simp add: strtoul_def c c_hex_prefix_def Let_def)
  then show ?thesis
    using P assms by (simp add: number_line_def parse_u32_field_def c line_ends_here_def)
qed

lemma footer_digit_hex: "d < 16 \<Longrightarrow> footer_digit (hex_digit_char d) = Some d"
proof -
  have "list_all (\<lambda>d. footer_digit (hex_digit_char d) = Some d) [0..<16]" by code_simp
  then show "d < 16 \<Longrightarrow> footer_digit (hex_digit_char d) = Some d" by (simp add: list_all_iff)
qed

lemma parse_crc_footer_hex8: "parse_crc_footer (learner_crc_prefix @ print_hex8 w @ [CHR 0x0A]) = Some w"
proof -
  let ?step = "\<lambda>(crc :: 32 word option) c. case crc of None \<Rightarrow> None | Some v \<Rightarrow> map_option (\<lambda>digit. v * 16 + of_nat digit) (footer_digit c)"
  have "foldl ?step (Some v) (map (\<lambda>i. hex_digit_char (unat w div 16 ^ i mod 16)) is) =
      Some (foldl (\<lambda>v i. v * 16 + of_nat (unat w div 16 ^ i mod 16)) v is)" for v "is"
    by (induction "is" arbitrary: v) (simp_all add: footer_digit_hex)
  moreover have "foldl (\<lambda>v i. v * 16 + of_nat (unat w div 16 ^ i mod 16)) (of_nat a) is =
      (of_nat (foldl (\<lambda>v i. v * 16 + unat w div 16 ^ i mod 16) a is) :: 32 word)" for a "is"
  proof (induction "is" arbitrary: a)
    case (Cons i "is")
    then show ?case using Cons [of "a * 16 + unat w div 16 ^ i mod 16"] by simp
  qed simp
  moreover have "unat w < 16 ^ 8" using unsigned_less [of w] by simp
  moreover from calculation(2) [of 0 "rev [0..<8]"] this
  have "foldl (\<lambda>v i. v * 16 + of_nat (unat w div 16 ^ i mod 16)) 0 (rev [0..<8]) = w"
    using hex_value [of "unat w" 0 8] by simp
  ultimately have crc: "foldl ?step (Some 0) (print_hex8 w) = Some w"
    by (simp add: print_hex8_def nibble)
  have "takeWhile (\<lambda>c. c \<noteq> CHR 0x0D \<and> c \<noteq> CHR 0x0A) (s @ [CHR 0x0A]) = s" if "line_text s" for s
    using that by (induction s) (auto simp: line_text_def)
  from this [of "learner_crc_prefix @ print_hex8 w"]
  have "takeWhile (\<lambda>c. c \<noteq> CHR 0x0D \<and> c \<noteq> CHR 0x0A) (learner_crc_prefix @ print_hex8 w @ [CHR 0x0A]) =
      learner_crc_prefix @ print_hex8 w"
    by (simp add: learner_crc_prefix_def)
  then show ?thesis
    using crc by (simp add: parse_crc_footer_def learner_crc_prefix_def line_ends_here_def)
qed

lemma storable_member:
  assumes "list_all (storable d) cs" "c \<in> set cs"
  shows "storable d c" "nf_count (nd_fields c) \<noteq> 0"
    "nf_count (nd_fields c) \<le> sum_list (map (\<lambda>c. nf_count (nd_fields c)) cs)"
proof -
  show st: "storable d c" using assms by (auto simp: list_all_iff)
  then show "nf_count (nd_fields c) \<noteq> 0" by (cases c) (simp add: fields_ok_def)
  show "nf_count (nd_fields c) \<le> sum_list (map (\<lambda>c. nf_count (nd_fields c)) cs)"
    using assms(2) by (simp add: member_le_sum_list)
qed

lemma storable_counts: "storable d n \<Longrightarrow> node_counts_valid (forget_node n)"
proof (induction n arbitrary: d)
  case (Node f cs)
  then have "nf_count (nd_fields c) \<le> nf_count f \<and> nf_count (nd_fields c) \<noteq> 0 \<and> node_counts_valid (forget_node c)"
    if c: "c \<in> set cs" for c
    using storable_member [of "d + 1" cs c] c by auto
  then show ?case using Node.prems by (auto simp: list_all_iff o_def)
qed

lemma sum_forget: "sum_list (map (\<lambda>c. nf_count (nd_fields c)) (map forget_node cs)) = sum_list (map (\<lambda>c. nf_count (nd_fields c)) cs)"
  by (simp add: o_def)

text \<open>The trie of a learner: its root is the one of a new learner but for the count, and every
  command has at least one token.\<close>

definition learner_trie :: "st_node \<Rightarrow> nat \<Rightarrow> bool" where
  "learner_trie n commands \<longleftrightarrow> nd_fields n = (nd_fields (node_new [] ST_TYPE_LITERAL))\<lparr>nf_count := commands\<rparr> \<and>
     commands \<le> UINT32_MAX \<and> list_all (storable 1) (nd_children n) \<and> distinct (map node_key (nd_children n)) \<and>
     sum_list (map (\<lambda>c. nf_count (nd_fields c)) (nd_children n)) = commands"

lemma read_learner_file:
  assumes trie: "learner_trie n commands" and small: "nodes_total (nd_children n) < UINT32_MAX"
  shows "read_learner \<lparr>st_bytes = learner_file n commands, st_ferror = False\<rparr> = Inr (forget_node n, commands)"
proof -
  let ?cs = "nd_children n" and ?f = "\<lambda>s. \<lparr>st_bytes = s, st_ferror = False\<rparr>"
  let ?n = "nodes_total ?cs" and ?recs = "row_frames (child_rows 0 1 ?cs)"
  let ?crc = "st_crc32_update ?recs 0"
  have T: "commands \<le> UINT32_MAX" "list_all (storable 1) ?cs" "distinct (map node_key ?cs)"
    "sum_list (map (\<lambda>c. nf_count (nd_fields c)) ?cs) = commands"
    "nd_fields n = (nd_fields (node_new [] ST_TYPE_LITERAL))\<lparr>nf_count := commands\<rparr>"
    using trie by (simp_all add: learner_trie_def)
  define footer where "footer = (learner_crc_prefix @ print_hex8 ?crc) @ CHR 0x0A # []"
  define body where "body = ?recs @ footer"
  define nodes_line where "nodes_line = nodes_prefix @ decimal ?n"
  define total_line where "total_line = total_prefix @ decimal commands"
  have contents: "learner_file n commands = learner_header @ CHR 0x0A # total_line @ CHR 0x0A # nodes_line @ CHR 0x0A # body"
    by (simp add: learner_file_def Let_def total_line_def nodes_line_def body_def footer_def)
  have texts: "line_text learner_header" "line_text total_line" "line_text nodes_line" "line_text (learner_crc_prefix @ print_hex8 ?crc)"
    unfolding total_line_def nodes_line_def line_text_append
    by (simp_all add: learner_header_def total_prefix_def nodes_prefix_def learner_crc_prefix_def)
  have lens: "length learner_header < 127" "length total_line < 127" "length nodes_line < 127"
    "length (learner_crc_prefix @ print_hex8 ?crc) < 127"
    using digits_u32 [of commands] digits_u32 [of ?n] T(1) small
    by (simp_all add: total_line_def nodes_line_def length_decimal learner_header_def total_prefix_def nodes_prefix_def learner_crc_prefix_def)
  have header: "load_checked_line (\<lambda>line. if line_equals line learner_header then Some () else None)
      (?f (learner_header @ CHR 0x0A # s)) = Inr ((), ?f s)" for s
    using load_checked_text [OF texts(1) lens(1), of "?f (learner_header @ CHR 0x0A # s)" s
        "\<lambda>line. if line_equals line learner_header then Some () else None" "()"]
    by (simp add: line_equals_def line_ends_here_def)
  have totals: "load_checked_line (number_line total_prefix) (?f (total_line @ CHR 0x0A # s)) = Inr (commands, ?f s)" for s
    using load_checked_text [OF texts(2) lens(2), of "?f (total_line @ CHR 0x0A # s)" s "number_line total_prefix" commands] number_line_decimal [OF T(1)]
    by (simp add: total_line_def)
  have nodes: "load_checked_line (number_line nodes_prefix) (?f (nodes_line @ CHR 0x0A # s)) = Inr (?n, ?f s)" for s
    using load_checked_text [OF texts(3) lens(3), of "?f (nodes_line @ CHR 0x0A # s)" s "number_line nodes_prefix" ?n] number_line_decimal [of ?n] small
    by (simp add: nodes_line_def)
  have foot: "load_checked_line parse_crc_footer (?f footer) = Inr (?crc, ?f [])"
    using load_checked_text [OF texts(4) lens(4), of "?f footer" "[]" parse_crc_footer ?crc] parse_crc_footer_hex8 [of ?crc]
    by (simp add: footer_def)
  let ?start = "node_new [] ST_TYPE_LITERAL"
  have "loads (child_rows 0 1 ?cs) 1 ([[]] ! 0) (map forget_node ?cs) ?n ?start [[]]"
    by (rule load_rows(2)) (use T small in \<open>simp_all add: node_new_def\<close>)
  then obtain more where "load_nodes (?n + 0) 1 0 ?start [[]] (?f body) =
      load_nodes 0 (1 + ?n) ?crc (graft ([[]] ! 0) (map forget_node ?cs) ?start) ([[]] @ more) (?f body\<lparr>st_bytes := footer\<rparr>)"
    by (rule loadsE [of _ _ _ _ _ _ _ "?f body" footer 0 0]) (simp_all add: body_def)
  then have recs: "load_nodes ?n 1 0 ?start [[]] (?f body) =
      Inr (Node (nd_fields ?start) (map forget_node ?cs), ?crc, ?f footer)"
    by (simp add: node_new_def)
  have root: "Node ((nd_fields ?start)\<lparr>nf_count := commands\<rparr>) (map forget_node ?cs) = forget_node n"
    using T(5) by (cases n) (simp add: node_new_def forget_def)
  have "nf_count (nd_fields c) \<le> commands \<and> nf_count (nd_fields c) \<noteq> 0 \<and> node_counts_valid (forget_node c)"
    if c: "c \<in> set ?cs" for c
    using storable_member [OF T(2) c] T(4) storable_counts by auto
  then have valid: "node_counts_valid (forget_node n)"
    using T(4,5) by (cases n) (auto simp: list_all_iff o_def node_new_def)
  have "sum_list (map (\<lambda>c. nf_count (nd_fields c)) (nd_children (forget_node n))) = commands"
    using T(4) by (simp add: o_def)
  moreover have "st_read_line (?f []) 128 = (ST_LINE_EOF, [], ?f [])"
    by (simp add: st_read_line_def read_line_end)
  ultimately show ?thesis
    using small valid root
    by (simp add: read_learner_def contents header totals nodes recs foot Let_def
        del: node_counts_valid.simps One_nat_def bind_result_Inr)
qed

end
