(* ===== verification/Learner_History.thy ===== *)
theory Learner_History imports Learner_Files_Spec begin

text \<open>
  Every trie a learner can hold, whether it was fed or read from a file, is the trie of a list of
  commands: what a loader accepts is exactly what feeding could have built. The histories of a
  learner therefore take loads of arbitrary files, and the counts of every reachable learner are
  numbers of commands.
\<close>

section \<open>The trie of valid commands can be stored\<close>

definition fixed_metadata :: "(st_token_type \<times> st_metadata_id) list" where
  "fixed_metadata =
     [(ST_TYPE_UUID, ST_META_UUID_V4), (ST_TYPE_UUID, ST_META_UUID_V5),
      (ST_TYPE_TIMESTAMP, ST_META_TIMESTAMP_DATE), (ST_TYPE_TIMESTAMP, ST_META_TIMESTAMP_TIME),
      (ST_TYPE_TIMESTAMP, ST_META_TIMESTAMP_DATETIME), (ST_TYPE_SHA, ST_META_SHA_SHORT),
      (ST_TYPE_SHA, ST_META_SHA_40), (ST_TYPE_SHA, ST_META_SHA_64),
      (ST_TYPE_FINGERPRINT, ST_META_FINGERPRINT_SHA256), (ST_TYPE_FINGERPRINT, ST_META_FINGERPRINT_MD5),
      (ST_TYPE_RANGE, ST_META_RANGE_STEP), (ST_TYPE_PERM_OCTAL, ST_META_PERM_BITS)]"

lemma fixed_metadata_entries:
  "list_all (\<lambda>(t, i). t \<noteq> ST_TYPE_SEMVER \<and> list_ex (\<lambda>m. me_type m = t \<and> me_id m = i) st_metadata_entries) fixed_metadata"
  by (simp add: fixed_metadata_def st_metadata_entries_def meta_entry_def)

lemma value_id_cases:
  assumes "st_metadata_value_id t s \<noteq> ST_META_NONE"
  obtains m x where "t = ST_TYPE_SIZE \<or> t = ST_TYPE_DURATION" "st_metadata_lookup_span t x = Some m"
      "st_metadata_value_id t s = me_id m"
  | "(t, st_metadata_value_id t s) \<in> set fixed_metadata"
proof (cases "t = ST_TYPE_SIZE \<or> t = ST_TYPE_DURATION")
  case True
  then show ?thesis
    using assms that(1) by (simp add: st_metadata_value_id.simps [of t s] Let_def split: if_splits option.splits)
next
  case False
  then have "(t, st_metadata_value_id t s) \<in> set fixed_metadata"
    using assms by (simp add: st_metadata_value_id.simps [of t s] fixed_metadata_def split: if_splits)
  then show ?thesis by (rule that(2))
qed

lemma value_id_entry:
  assumes "st_metadata_value_id t s \<noteq> ST_META_NONE"
  shows "t \<noteq> ST_TYPE_SEMVER \<and> (\<exists>m\<in>set st_metadata_entries. me_type m = t \<and> me_id m = st_metadata_value_id t s)"
  using assms
proof (cases rule: value_id_cases)
  case (1 m x)
  then show ?thesis using lookup_span_entry [OF 1(2)] by auto
next
  case 2
  then show ?thesis using fixed_metadata_entries by (auto simp: list_all_iff list_ex_iff)
qed

definition command_ok :: "nat \<Rightarrow> st_token list \<Rightarrow> bool" where
  "command_ok k h \<longleftrightarrow> length h \<le> k \<and> list_all (\<lambda>t. length (tk_text t) < ST_MAX_TOKEN_LEN) h"

lemma below_command_ok: "list_all (command_ok k) H \<Longrightarrow> list_all (command_ok (k - 1)) (below H x)"
  by (auto simp: list_all_iff below_def command_ok_def dest: list.set_sel(2))

lemma heads_command_ok: "list_all (command_ok k) H \<Longrightarrow> t \<in> set (heads H x) \<Longrightarrow>
  tok_key t = x \<and> length (tk_text t) < ST_MAX_TOKEN_LEN \<and> 0 < k"
proof -
  assume H: "list_all (command_ok k) H" and "t \<in> set (heads H x)"
  then obtain h where h: "h \<in> set H" "h \<noteq> []" "tok_key (hd h) = x" "t = hd h" by (auto simp: heads_def)
  then have "command_ok k h" using H by (simp add: list_all_iff)
  then show ?thesis using h by (cases h) (auto simp: command_ok_def)
qed

lemma noted_fields_ok:
  assumes f: "noted f ts" "length ts \<le> UINT32_MAX"
    and ts: "\<And>t. t \<in> set ts \<Longrightarrow> tok_key t = node_key (Node f cs) \<and> length (tk_text t) < ST_MAX_TOKEN_LEN"
  shows "fields_ok f"
proof -
  have hd: "hd ts \<in> set ts" "ts \<noteq> []" using f(1) by (simp_all add: noted_def)
  note key = ts [OF hd(1)]
  show ?thesis
  proof (cases "nf_type f = ST_TYPE_LITERAL")
    case True
    then have "nf_token f = tk_text (hd ts)" using key by (simp add: node_key_def tok_key_def split: if_splits)
    then show ?thesis using f key True by (auto simp: fields_ok_def noted_def)
  next
    case False
    have "tk_type (hd ts) = nf_type f" using key by (simp add: node_key_def tok_key_def)
    moreover have "uniform ts \<Longrightarrow> token_metadata (hd ts) \<noteq> ST_META_NONE"
      using hd(1) unfolding uniform_def list_all_iff by blast
    ultimately have "uniform ts \<Longrightarrow> nf_type f \<noteq> ST_TYPE_SEMVER \<and>
        (\<exists>m\<in>set st_metadata_entries. me_type m = nf_type f \<and> me_id m = nf_common f)"
      using value_id_entry [of "nf_type f" "tk_text (hd ts)"] f(1) False by (simp add: noted_def)
    then show ?thesis using f False hd(2) by (auto simp: fields_ok_def noted_def)
  qed
qed

lemma represents_storable:
  "children_represent cs H \<Longrightarrow> list_all (command_ok k) H \<Longrightarrow> length H \<le> UINT32_MAX \<Longrightarrow> d + k \<le> ST_MAX_CMD_TOKENS + 1 \<Longrightarrow>
   list_all (storable d) cs"
proof (induction cs H arbitrary: k d rule: children_represent.induct)
  case (1 cs H)
  have "storable d c" if c: "c \<in> set cs" for c
  proof -
    let ?x = "node_key c"
    note R = children_representD [OF "1.prems"(1) c]
    have len: "length (heads H ?x) \<le> UINT32_MAX" "length (below H ?x) \<le> UINT32_MAX"
      using length_heads [of H ?x] "1.prems"(3) by simp_all
    have ok: "tok_key t = ?x \<and> length (tk_text t) < ST_MAX_TOKEN_LEN \<and> 0 < k" if "t \<in> set (heads H ?x)" for t
      using heads_command_ok [OF "1.prems"(2) that] .
    have "heads H ?x \<noteq> []" using R(1) by (simp add: noted_def)
    then have "0 < k" using ok by (metis list.set_sel(1))
    then have "list_all (storable (d + 1)) (nd_children c)"
      using "1.IH" [OF c R(2) below_command_ok [OF "1.prems"(2)] len(2), of "d + 1"] "1.prems"(4) by simp
    moreover have "fields_ok (nd_fields c)"
      using noted_fields_ok [OF R(1) len(1), of "nd_children c"] ok by simp
    moreover have "distinct (map node_key (nd_children c))"
      using R(2) by (simp add: children_represent.simps [of "nd_children c"])
    moreover have "sum_list (map (\<lambda>c. nf_count (nd_fields c)) (nd_children c)) \<le> nf_count (nd_fields c)"
      using children_counts_sum [OF R(2)] R(1) length_filter_le [of "\<lambda>h. h \<noteq> []" "below H ?x"]
      by (simp add: noted_def length_heads)
    moreover have "d \<le> ST_MAX_CMD_TOKENS" using \<open>0 < k\<close> "1.prems"(4) by simp
    ultimately show ?thesis by (cases c) simp
  qed
  then show ?case by (simp add: list_all_iff)
qed

text \<open>The state of a learner that took the commands \<open>H\<close>.\<close>

definition stands_for :: "st_node \<Rightarrow> st_token list list \<Rightarrow> bool" where
  "stands_for n H \<longleftrightarrow> represents n H \<and> length H \<le> UINT32_MAX \<and> list_all (\<lambda>h. learner_tokens_valid (Some h)) H"

lemma stands_for_trie: "stands_for n H \<Longrightarrow> learner_trie n (length H)"
proof -
  assume R: "stands_for n H"
  then have H: "list_all (command_ok ST_MAX_CMD_TOKENS) H" "\<forall>h\<in>set H. h \<noteq> []"
    by (auto simp: stands_for_def learner_tokens_valid_def command_ok_def list_all_iff)
  have rep: "children_represent (nd_children n) H" using R by (simp add: stands_for_def represents_def)
  have "filter (\<lambda>h. h \<noteq> []) H = H" using H(2) by (simp add: filter_id_conv)
  then show ?thesis
    using R represents_storable [OF rep H(1), of 1] children_counts_sum [OF rep]
    by (simp add: learner_trie_def stands_for_def represents_def children_represent.simps [of "nd_children n"])
qed

section \<open>Every stored trie has a history\<close>

definition sample_text :: "st_metadata_entry \<Rightarrow> bytes" where
  "sample_text m =
     (let i = me_id m; n = (\<lambda>k. replicate k (CHR ''0'')) in
      if me_type m = ST_TYPE_SIZE \<or> me_type m = ST_TYPE_DURATION then CHR ''1'' # me_name m
      else if i = ST_META_UUID_V4 then n 14 @ ''4'' else if i = ST_META_UUID_V5 then n 14 @ ''5''
      else if i = ST_META_TIMESTAMP_DATE then n 10 else if i = ST_META_TIMESTAMP_TIME then n 8
      else if i = ST_META_SHA_SHORT then n 7 else if i = ST_META_SHA_40 then n 40
      else if i = ST_META_SHA_64 then n 64 else if i = ST_META_FINGERPRINT_SHA256 then n 50 else [])"

lemma sample_texts:
  "list_all (\<lambda>m. me_type m \<noteq> ST_TYPE_SEMVER \<longrightarrow> st_metadata_value_id (me_type m) (sample_text m) = me_id m \<and>
     length (sample_text m) < ST_MAX_TOKEN_LEN) st_metadata_entries"
  by (simp add: st_metadata_entries_def meta_entry_def sample_text_def st_metadata_value_id.simps
      st_metadata_lookup_span_def metadata_number_char_def shell_ascii_digit_def fold_upper char_of_def
      nth_append less_eq_char_def ST_MAX_TOKEN_LEN_def)

definition sample_token :: "node_fields \<Rightarrow> st_token" where
  "sample_token f = plain_token
     (if nf_type f = ST_TYPE_LITERAL then nf_token f
      else if nf_mixed f then [NUL]
      else case metadata_by_id (nf_common f) of None \<Rightarrow> [] | Some m \<Rightarrow> sample_text m) (nf_type f)"

lemma sample_token_facts:
  assumes "fields_ok f"
  shows "tok_key (sample_token f) = node_key (Node f cs)" "length (tk_text (sample_token f)) < ST_MAX_TOKEN_LEN"
    "n = nf_count f \<Longrightarrow> noted f (replicate n (sample_token f))"
proof -
  show "tok_key (sample_token f) = node_key (Node f cs)"
    by (simp add: tok_key_def node_key_def sample_token_def plain_token_def)
  have uni: "0 < k \<Longrightarrow> uniform (replicate k t) \<longleftrightarrow> token_metadata t \<noteq> ST_META_NONE" for k t
    by (cases k) (auto simp: uniform_def list_all_iff)
  have pos: "0 < nf_count f" using assms by (simp add: fields_ok_def)
  have "length (tk_text (sample_token f)) < ST_MAX_TOKEN_LEN \<and>
      (n = nf_count f \<longrightarrow> noted f (replicate n (sample_token f)))"
    using assms
  proof (cases rule: fields_ok_metadata)
    case mixed
    then show ?thesis
      using assms pos uni [OF pos, of "plain_token [NUL] (nf_type f)"]
      by (simp add: sample_token_def plain_token_def fields_ok_def noted_def st_metadata_value_id.simps ST_MAX_TOKEN_LEN_def)
  next
    case (named m)
    have entry: "metadata_by_id (nf_common f) = Some m" using metadata_by_id_entry [OF named(1)] named(3) by simp
    have "st_metadata_value_id (nf_type f) (sample_text m) = nf_common f" "length (sample_text m) < ST_MAX_TOKEN_LEN"
      using sample_texts named(1,2,3,6) by (auto simp: list_all_iff)
    moreover have "nf_common f \<noteq> ST_META_NONE" using metadata_name_short(4) [OF named(1)] named(3) by simp
    ultimately show ?thesis
      using assms named pos uni [OF pos, of "plain_token (sample_text m) (nf_type f)"] entry
      by (simp add: sample_token_def plain_token_def fields_ok_def noted_def)
  next
    case none
    then show ?thesis
      using assms pos by (simp add: sample_token_def plain_token_def fields_ok_def noted_def)
  qed
  then show "length (tk_text (sample_token f)) < ST_MAX_TOKEN_LEN"
    "n = nf_count f \<Longrightarrow> noted f (replicate n (sample_token f))" by simp_all
qed

text \<open>Commands below the children of a node, and then as often as the count says the end.\<close>

fun history_of :: "st_node \<Rightarrow> st_token list list" where
  "history_of (Node f cs) = map ((#) (sample_token f))
     (concat (map history_of cs) @
      replicate (nf_count f - sum_list (map (\<lambda>c. nf_count (nd_fields c)) cs)) [])"

definition rests_of :: "st_node \<Rightarrow> st_token list list" where
  "rests_of n = concat (map history_of (nd_children n)) @
     replicate (nf_count (nd_fields n) - sum_list (map (\<lambda>c. nf_count (nd_fields c)) (nd_children n))) []"

lemma history_of_rests: "history_of n = map ((#) (sample_token (nd_fields n))) (rests_of n)"
  by (cases n) (simp add: rests_of_def)

lemma length_concat_eq: "(\<And>c. c \<in> set cs \<Longrightarrow> length (f c) = g c) \<Longrightarrow> length (concat (map f cs)) = sum_list (map g cs)"
  by (induction cs) simp_all

lemma length_history: "storable d n \<Longrightarrow> length (history_of n) = nf_count (nd_fields n)"
proof (induction n arbitrary: d)
  case (Node f cs)
  then have "length (concat (map history_of cs)) = sum_list (map (\<lambda>c. nf_count (nd_fields c)) cs)"
    by (intro length_concat_eq) (auto simp: list_all_iff)
  then show ?case using Node.prems by simp
qed

lemma storable_fields: "storable d n \<Longrightarrow> fields_ok (nd_fields n)"
  by (cases n) simp

lemma sample_key: "storable d n \<Longrightarrow> tok_key (sample_token (nd_fields n)) = node_key n"
  using sample_token_facts(1) [OF storable_fields, of d n "nd_children n"] by simp

lemma find_absent: "x \<notin> node_key ` set cs \<Longrightarrow> List.find (\<lambda>c. node_key c = x) cs = None"
  by (auto simp: find_None_iff)

lemma history_parts:
  assumes st: "list_all (storable d) cs" and dist: "distinct (map node_key cs)"
  shows "below (concat (map history_of cs) @ replicate m []) x =
      (case List.find (\<lambda>c. node_key c = x) cs of None \<Rightarrow> [] | Some c \<Rightarrow> rests_of c)"
    "heads (concat (map history_of cs) @ replicate m []) x =
      (case List.find (\<lambda>c. node_key c = x) cs of None \<Rightarrow> []
       | Some c \<Rightarrow> replicate (length (rests_of c)) (sample_token (nd_fields c)))"
proof -
  have key: "tok_key (sample_token (nd_fields c)) = node_key c" if "storable d c" for c
    using sample_key [OF that] .
  have "below (history_of c) x = (if node_key c = x then rests_of c else [])"
    "heads (history_of c) x = (if node_key c = x then replicate (length (rests_of c)) (sample_token (nd_fields c)) else [])"
    if "storable d c" for c
    using key [OF that] by (simp_all add: history_of_rests below_def heads_def filter_map o_def map_replicate_const)
  note one = this
  have app: "below (A @ B) x = below A x @ below B x" "heads (A @ B) x = heads A x @ heads B x" for A B
    by (simp_all add: below_def heads_def)
  have none: "below (replicate m []) x = []" "heads (replicate m []) x = []"
    by (simp_all add: below_def heads_def)
  have gone: "below (concat (map history_of ds)) x = []" "heads (concat (map history_of ds)) x = []"
    if "list_all (storable d) ds" "x \<notin> set (map node_key ds)" for ds
    using that by (induction ds) (auto simp: app one)
  show "below (concat (map history_of cs) @ replicate m []) x =
      (case List.find (\<lambda>c. node_key c = x) cs of None \<Rightarrow> [] | Some c \<Rightarrow> rests_of c)"
    using st dist by (induction cs) (auto simp: app none one gone find_absent)
  show "heads (concat (map history_of cs) @ replicate m []) x =
      (case List.find (\<lambda>c. node_key c = x) cs of None \<Rightarrow> []
       | Some c \<Rightarrow> replicate (length (rests_of c)) (sample_token (nd_fields c)))"
    using st dist by (induction cs) (auto simp: app none one gone find_absent)
qed

lemma find_distinct: "distinct (map node_key cs) \<Longrightarrow> c \<in> set cs \<Longrightarrow> List.find (\<lambda>d. node_key d = node_key c) cs = Some c"
  by (induction cs) auto

lemma history_represented:
  "list_all (storable d) cs \<Longrightarrow> distinct (map node_key cs) \<Longrightarrow>
   children_represent cs (concat (map history_of cs) @ replicate m [])"
proof (induction "size_list size cs" arbitrary: cs d m rule: less_induct)
  case less
  let ?H = "concat (map history_of cs) @ replicate m []"
  have key: "tok_key (sample_token (nd_fields c)) = node_key c" if "c \<in> set cs" for c
    using sample_key less.prems(1) that by (auto simp: list_all_iff)
  have "tok_key (hd h) \<in> set (map node_key cs)" if "h \<in> set ?H" "h \<noteq> []" for h
    using that key by (fastforce simp: history_of_rests)
  moreover have "noted (nd_fields c) (heads ?H (node_key c)) \<and> children_represent (nd_children c) (below ?H (node_key c))"
    if c: "c \<in> set cs" for c
  proof -
    have st: "storable d c" using less.prems(1) c by (simp add: list_all_iff)
    then have kids: "list_all (storable (d + 1)) (nd_children c)" "distinct (map node_key (nd_children c))" by (cases c; simp)+
    have "length (rests_of c) = nf_count (nd_fields c)" using length_history [OF st] by (simp add: history_of_rests)
    then have "noted (nd_fields c) (heads ?H (node_key c))"
      using sample_token_facts(3) [OF storable_fields [OF st]] history_parts(2) [OF less.prems] find_distinct [OF less.prems(2) c] by simp
    moreover have "children_represent (nd_children c) (rests_of c)"
      unfolding rests_of_def using less.hyps [OF size_children [OF c] kids] .
    ultimately show ?thesis
      using history_parts(1) [OF less.prems] find_distinct [OF less.prems(2) c] by simp
  qed
  ultimately show ?case using less.prems(2) by (subst children_represent.simps) blast
qed

lemma history_commands:
  "storable d n \<Longrightarrow> h \<in> set (history_of n) \<Longrightarrow>
   h \<noteq> [] \<and> length h + d \<le> ST_MAX_CMD_TOKENS + 1 \<and> list_all (\<lambda>t. length (tk_text t) < ST_MAX_TOKEN_LEN) h"
proof (induction n arbitrary: d h)
  case (Node f cs)
  then have tok: "length (tk_text (sample_token f)) < ST_MAX_TOKEN_LEN" "d \<le> ST_MAX_CMD_TOKENS"
    using sample_token_facts(2) by simp_all
  consider "h = [sample_token f]" | c h' where "c \<in> set cs" "h' \<in> set (history_of c)" "h = sample_token f # h'"
    using Node.prems(2) by auto
  then show ?case
  proof cases
    case 2
    then show ?thesis using Node.IH [of c "d + 1" h'] Node.prems(1) tok by (auto simp: list_all_iff)
  qed (use tok in simp)
qed

lemma trie_stands_for:
  assumes "learner_trie n commands"
  shows "\<exists>H. stands_for n H \<and> length H = commands"
proof -
  let ?cs = "nd_children n" and ?H = "concat (map history_of (nd_children n))"
  have T: "list_all (storable 1) ?cs" "distinct (map node_key ?cs)" "commands \<le> UINT32_MAX"
    "sum_list (map (\<lambda>c. nf_count (nd_fields c)) ?cs) = commands"
    "nd_fields n = (nd_fields (node_new [] ST_TYPE_LITERAL))\<lparr>nf_count := commands\<rparr>"
    using assms by (simp_all add: learner_trie_def)
  have "length ?H = sum_list (map (\<lambda>c. nf_count (nd_fields c)) ?cs)"
    using T(1) length_history by (intro length_concat_eq) (auto simp: list_all_iff)
  then have len: "length ?H = commands" using T(4) by simp
  have "h \<noteq> [] \<and> length h \<le> ST_MAX_CMD_TOKENS \<and> list_all (\<lambda>t. length (tk_text t) < ST_MAX_TOKEN_LEN) h" if "h \<in> set ?H" for h
    using that history_commands [of 1 _ h] T(1) by (fastforce simp: list_all_iff)
  then have "list_all (\<lambda>h. learner_tokens_valid (Some h)) ?H"
    by (simp add: list_all_iff learner_tokens_valid_def)
  moreover have "represents n ?H"
    using history_represented [OF T(1,2), of 0] T(5) len by (simp add: represents_def)
  ultimately have "stands_for n ?H \<and> length ?H = commands" using T(3) len by (simp add: stands_for_def)
  then show ?thesis by blast
qed

section \<open>What the loader accepts\<close>

text \<open>The shape of a trie under construction, without the sums of the counts.\<close>

fun shaped :: "nat \<Rightarrow> st_node \<Rightarrow> bool" where
  "shaped d (Node f cs) \<longleftrightarrow> d \<le> ST_MAX_CMD_TOKENS \<and> distinct (map node_key cs) \<and>
     list_all (\<lambda>c. fields_ok (nd_fields c) \<and> shaped (d + 1) c) cs"

lemma shaped_storable: "shaped d n \<Longrightarrow> fields_ok (nd_fields n) \<Longrightarrow> node_counts_valid n \<Longrightarrow> storable d n"
  by (induction n arbitrary: d) (auto simp: list_all_iff)

lemma graft_fields [simp]: "nd_fields (graft p cs n) = nd_fields n"
  by (cases p) simp_all

lemma node_key_fields: "nd_fields a = nd_fields b \<Longrightarrow> node_key a = node_key b"
  by (simp add: node_key_def)

lemma shaped_graft:
  "shaped d n \<Longrightarrow> valid_path p n \<Longrightarrow> d + length p < ST_MAX_CMD_TOKENS \<Longrightarrow> fields_ok f \<Longrightarrow>
   node_key (Node f []) \<notin> set (map node_key (nd_children (node_at p n))) \<Longrightarrow> shaped d (graft p [Node f []] n)"
proof (induction p arbitrary: d n)
  case Nil
  then show ?case by (cases n) auto
next
  case (Cons k p)
  obtain g cs where n: "n = Node g cs" by (cases n)
  have k: "k < length cs" "valid_path p (cs ! k)" using Cons.prems(2) n by simp_all
  then have old: "fields_ok (nd_fields (cs ! k))" "shaped (d + 1) (cs ! k)" "distinct (map node_key cs)"
    using Cons.prems(1) n by (auto simp: list_all_iff)
  let ?c = "graft p [Node f []] (cs ! k)"
  have "shaped (d + 1) ?c" using Cons.IH [OF old(2) k(2)] Cons.prems n by simp
  moreover have "map node_key (cs[k := ?c]) = map node_key cs"
    using k(1) node_key_fields [of ?c "cs ! k"] by (simp add: map_update list_update_same_conv)
  moreover have "set (cs[k := ?c]) \<subseteq> insert ?c (set cs)" by (rule set_update_subset_insert)
  ultimately show ?case using Cons.prems(1) n old by (auto simp: list_all_iff)
qed

lemma valid_path_graft: "valid_path q n \<Longrightarrow> valid_path p n \<Longrightarrow> valid_path q (graft p cs n)"
proof (induction q arbitrary: p n)
  case (Cons k q)
  then show ?case by (cases p) (auto simp: nth_append nth_list_update)
qed simp

lemma parse_u32_bound:
  assumes "parse_u32_view s = Some n"
  shows "n \<le> UINT32_MAX"
proof -
  define step where "step = (\<lambda>parsed c. case parsed of None \<Rightarrow> None | Some v \<Rightarrow>
     (if \<not> shell_ascii_digit c then None
      else if v > (UINT32_MAX - digit_value c) div 10 then None else Some (v * 10 + digit_value c)))"
  have "\<forall>v. r = Some v \<longrightarrow> v \<le> UINT32_MAX \<Longrightarrow> foldl step r s = Some n \<Longrightarrow> n \<le> UINT32_MAX" for r
  proof (induction s arbitrary: r)
    case (Cons c s)
    have "\<forall>v. step r c = Some v \<longrightarrow> v \<le> UINT32_MAX"
    proof (intro allI impI)
      fix w assume "step r c = Some w"
      then obtain v where "shell_ascii_digit c" "v \<le> (UINT32_MAX - digit_value c) div 10" "w = v * 10 + digit_value c"
        by (auto simp: step_def not_less split: option.splits if_splits)
      moreover from this(1) have "digit_value c < 10" by simp
      ultimately show "w \<le> UINT32_MAX" unfolding UINT32_MAX_def by linarith
    qed
    then show ?case using Cons by simp
  qed simp
  then show ?thesis using assms by (auto simp: parse_u32_view_def step_def split: if_splits)
qed

lemma lookup_entry: "st_metadata_lookup t x = Some m \<Longrightarrow> m \<in> set st_metadata_entries \<and> me_type m = t"
  using lookup_span_entry by (auto simp: st_metadata_lookup_def)

lemma loaded_fields_ok: "loaded_fields fs tv c obs = Some f \<Longrightarrow> c \<le> UINT32_MAX \<Longrightarrow> fields_ok f"
  by (auto simp: loaded_fields_def Let_def fields_ok_def dest: lookup_entry split: if_splits option.splits)

definition loading :: "st_node \<Rightarrow> nat list list \<Rightarrow> bool" where
  "loading trunk paths \<longleftrightarrow> shaped 0 trunk \<and> nd_fields trunk = nd_fields (node_new [] ST_TYPE_LITERAL) \<and>
     list_all (\<lambda>p. valid_path p trunk) paths"

lemma load_node_loading:
  assumes "loading trunk paths" "length paths = i" "load_node i fs trunk paths = Some (trunk', paths')"
  shows "loading trunk' paths' \<and> length paths' = i + 1"
proof -
  obtain parent tv c obs f where L: "parent < i" "parse_u32_view (fs ! 4) = Some c"
    "length (paths ! parent) < ST_MAX_CMD_TOKENS" "loaded_fields fs tv c obs = Some f"
    "node_find_child (nd_children (node_at (paths ! parent) trunk)) (nf_token f) (nf_type f) = None"
    "trunk' = graft (paths ! parent) [Node f []] trunk"
    "paths' = paths @ [paths ! parent @ [length (nd_children (node_at (paths ! parent) trunk))]]"
    using assms(3) by (auto simp: load_node_def Let_def add_child_graft not_le split: option.splits if_splits)
  let ?p = "paths ! parent"
  have p: "valid_path ?p trunk" using assms(1,2) L(1) by (simp add: loading_def list_all_length)
  have key: "node_key (Node f []) \<notin> set (map node_key (nd_children (node_at ?p trunk)))"
    using L(5) by (auto simp: node_find_child_None fields_node_key [of f _ "[]"])
  have "fields_ok f" using loaded_fields_ok [OF L(4) parse_u32_bound [OF L(2)]] .
  then have "shaped 0 trunk'"
    using shaped_graft [of 0 trunk ?p f] assms(1) p L(3) key unfolding L(6) by (simp add: loading_def)
  then show ?thesis
    using assms(1,2) p valid_path_graft graft_valid_new unfolding loading_def L(6,7) by (auto simp: list_all_iff)
qed

lemma load_nodes_Suc:
  assumes "load_nodes (Suc n) i crc trunk paths f = Inr r"
  shows "\<exists>fs trunk1 paths1 crc1 f1. load_node i fs trunk paths = Some (trunk1, paths1) \<and>
    load_nodes n (i + 1) crc1 trunk1 paths1 f1 = Inr r"
proof (cases "read_outer_record f crc")
  case (Inr b)
  obtain s crc1 f1 where b: "b = (s, crc1, f1)" by (cases b)
  obtain fs where fs: "take_netstring_fields 8 s 0 = Some fs"
    using assms Inr b by (cases "take_netstring_fields 8 s 0") simp_all
  obtain trunk1 paths1 where "load_node i fs trunk paths = Some (trunk1, paths1)"
    using assms Inr b fs by (cases "load_node i fs trunk paths") auto
  moreover from this have "load_nodes n (i + 1) crc1 trunk1 paths1 f1 = Inr r" using assms Inr b fs by simp
  ultimately show ?thesis by blast
qed (use assms in simp)

lemma load_nodes_loading:
  "loading trunk paths \<Longrightarrow> length paths = i \<Longrightarrow> load_nodes n i crc trunk paths f = Inr (trunk', crc', f') \<Longrightarrow>
   shaped 0 trunk' \<and> nd_fields trunk' = nd_fields (node_new [] ST_TYPE_LITERAL)"
proof (induction n arbitrary: i crc trunk paths f)
  case (Suc n)
  show ?case using load_nodes_Suc [OF Suc.prems(3)] Suc.IH load_node_loading [OF Suc.prems(1,2)] by blast
qed (simp add: loading_def)

lemma number_line_bound: "number_line prefix line = Some n \<Longrightarrow> n \<le> UINT32_MAX"
  by (auto simp: number_line_def parse_u32_field_def split: if_splits option.splits prod.splits)

lemma load_checked_Inr: "load_checked_line check f = Inr (x, f') \<Longrightarrow> \<exists>line. check line = Some x"
  by (auto simp: load_checked_line_def split: prod.splits if_splits option.splits)

lemma read_learner_trie:
  assumes "read_learner f = Inr (n, commands)"
  shows "learner_trie n commands"
proof -
  let ?start = "node_new [] ST_TYPE_LITERAL"
  obtain f1 f2 f3 k trunk crc where L: "load_checked_line (number_line total_prefix) f1 = Inr (commands, f2)"
    "load_nodes k 1 0 ?start [[]] f3 = Inr (trunk, crc)"
    "n = Node ((nd_fields trunk)\<lparr>nf_count := commands\<rparr>) (nd_children trunk)" "node_counts_valid n"
    "sum_list (map (\<lambda>c. nf_count (nd_fields c)) (nd_children trunk)) = commands"
    using assms by (auto simp: read_learner_def Let_def simp del: bind_result_Inr
        simp add: bind_result_def split: if_splits prod.splits sum.splits)
  have "loading ?start [[]]" by (simp add: loading_def node_new_def)
  then have S: "shaped 0 trunk" "nd_fields trunk = nd_fields ?start"
    using load_nodes_loading [of ?start "[[]]" 1 k 0 f3 trunk] L(2) by (cases crc; simp)+
  have "commands \<le> UINT32_MAX" using load_checked_Inr [OF L(1)] number_line_bound by blast
  moreover have "list_all (storable 1) (nd_children n)"
    using S(1) L(3,4) shaped_storable by (cases trunk) (auto simp: list_all_iff)
  moreover have "distinct (map node_key (nd_children n))" using S(1) L(3) by (cases trunk) simp
  ultimately show ?thesis using L(3,5) S(2) by (simp add: learner_trie_def)
qed

lemma read_learner_error: "read_learner f = Inl e \<Longrightarrow> e \<noteq> ST_OK"
proof -
  have line: "load_checked_line c g = Inl e \<Longrightarrow> e \<noteq> ST_OK" for c :: "bytes \<Rightarrow> 'a option" and g e
    by (auto simp: load_checked_line_def split: prod.splits if_splits option.splits)
  have line1: "load_checked_line c g = Inl e \<Longrightarrow> e \<noteq> ST_OK" for c :: "bytes \<Rightarrow> unit option" and g e
    by (auto simp: load_checked_line_def split: prod.splits if_splits option.splits)
  have line2: "load_checked_line c g = Inl e \<Longrightarrow> e \<noteq> ST_OK" for c :: "bytes \<Rightarrow> nat option" and g e
    by (auto simp: load_checked_line_def split: prod.splits if_splits option.splits)
  have line3: "load_checked_line c g = Inl e \<Longrightarrow> e \<noteq> ST_OK" for c :: "bytes \<Rightarrow> 32 word option" and g e
    by (auto simp: load_checked_line_def split: prod.splits if_splits option.splits)
  have rec: "read_outer_record g crc = Inl e \<Longrightarrow> e \<noteq> ST_OK" for g crc e
    by (auto simp: read_outer_record_def split: prod.splits sum.splits if_splits)
  have "load_nodes n i crc trunk paths g = Inl e \<Longrightarrow> e \<noteq> ST_OK" for n i crc trunk paths g e
  proof (induction n arbitrary: i crc trunk paths g)
    case (Suc n)
    then show ?case using rec by (auto simp: bind_result_def split: sum.splits option.splits prod.splits)
  qed simp
  then show "read_learner f = Inl e \<Longrightarrow> ?thesis"
    using line1 line2 line3 by (auto simp: read_learner_def bind_result_def Let_def split: sum.splits if_splits prod.splits)
qed

lemma load_effect_learner:
  assumes "st_learner_load l opened fclosed = (e, l')"
  shows "if e = ST_OK then learner_trie (ln_root l') (ln_total l') \<and> ln_config l' = ln_config l \<and> ln_blacklist l' = ln_blacklist l
    else l' = l"
  using assms read_learner_trie read_learner_error
  by (auto simp: st_learner_load_def split: option.splits sum.splits if_splits)

section \<open>Histories\<close>

text \<open>A learner together with the commands it took, in order.\<close>

inductive learner_history :: "st_learner \<Rightarrow> st_token list list \<Rightarrow> bool" where
  created: "st_learner_new config = Some l \<Longrightarrow> learner_history l []"
| fed_argv: "learner_history l H \<Longrightarrow> st_learner_feed_netargv_view serves l netargv = (e, l') \<Longrightarrow>
    learner_history l' (case st_netargv_classify_scratch_view netargv of
      Inl _ \<Rightarrow> H | Inr ts \<Rightarrow> if e = ST_OK then H @ [ts] else H)"
| fed_tokens: "learner_history l H \<Longrightarrow> st_learner_feed_tokens serves l (Some ts) = (e, l') \<Longrightarrow>
    learner_history l' (if e = ST_OK then H @ [ts] else H)"
| configured: "learner_history l H \<Longrightarrow> st_learner_set_config l config = (e, l') \<Longrightarrow> learner_history l' H"
| loaded: "learner_history l H \<Longrightarrow> st_learner_load l opened fclosed = (e, l') \<Longrightarrow>
    (if e = ST_OK then stands_for (ln_root l') H' \<and> length H' = ln_total l' else H' = H) \<Longrightarrow>
    learner_history l' H'"
| blacklisted: "learner_history l H \<Longrightarrow> st_learner_blacklist_add_netpattern l pattern = (e, l') \<Longrightarrow>
    learner_history l' H"

definition learner_holds :: "st_learner \<Rightarrow> st_token list list \<Rightarrow> bool" where
  "learner_holds l H \<longleftrightarrow> stands_for (ln_root l) H \<and> ln_total l = length H \<and> learner_config_valid (ln_config l)"

lemma insert_atomic_holds:
  assumes "learner_holds l H" "learner_tokens_valid (Some ts)" "learner_insert_atomic serves l ts = (e, l')"
  shows "learner_holds l' (if e = ST_OK then H @ [ts] else H) \<and> (e \<noteq> ST_OK \<longrightarrow> l' = l) \<and>
    (e = ST_OK \<or> e = ST_ERR_LIMIT \<and> length H = UINT32_MAX \<or> e = ST_ERR_MEMORY \<and> (\<exists>i. \<not> serves i))"
proof (cases "ln_total l = UINT32_MAX")
  case True
  then show ?thesis using assms by (simp add: learner_insert_atomic_def learner_holds_def)
next
  case False
  obtain e2 n where ins: "trie_insert_with_count serves (ln_root l) ts 1 = (e2, n)" by fastforce
  have n: "length H < UINT32_MAX" "represents (ln_root l) H" using assms(1) False by (auto simp: learner_holds_def stands_for_def)
  have l': "e = e2" "l' = l\<lparr>ln_root := n, ln_total := (if e = ST_OK then ln_total l + 1 else ln_total l)\<rparr>"
    using assms(3) False ins by (auto simp: learner_insert_atomic_def)
  show ?thesis
    using trie_insert_represents [OF n(2,1) ins] assms(1,2) n(1) unfolding l' by (auto simp: learner_holds_def stands_for_def)
qed

lemma feed_tokens_holds:
  assumes "learner_holds l H" "st_learner_feed_tokens serves l (Some ts) = (e, l')"
  shows "learner_holds l' (if e = ST_OK then H @ [ts] else H) \<and> (e \<noteq> ST_OK \<longrightarrow> l' = l)"
  using assms insert_atomic_holds by (cases "learner_tokens_valid (Some ts)") (auto simp: st_learner_feed_tokens_def)

lemma classify_scratch_error: "st_netargv_classify_scratch_view netargv = Inl e \<Longrightarrow> e \<noteq> ST_OK"
proof -
  have "scratch_loop c cx tks s = Inl e \<Longrightarrow> e \<noteq> ST_OK" for c cx tks s
    by (induction c cx tks s rule: scratch_loop.induct)
      (subst (asm) scratch_loop.simps, auto split: sum.splits if_splits prod.splits)
  then show "st_netargv_classify_scratch_view netargv = Inl e \<Longrightarrow> ?thesis"
    by (auto simp: st_netargv_classify_scratch_view_def split: sum.splits)
qed

lemma feed_netargv_holds:
  assumes "learner_holds l H" "st_learner_feed_netargv_view serves l netargv = (e, l')"
  shows "learner_holds l' (case st_netargv_classify_scratch_view netargv of
      Inl _ \<Rightarrow> H | Inr ts \<Rightarrow> if e = ST_OK then H @ [ts] else H) \<and> (e \<noteq> ST_OK \<longrightarrow> l' = l)"
proof (cases "st_netargv_classify_scratch_view netargv")
  case (Inl x)
  then show ?thesis
    using assms classify_scratch_error [OF Inl] by (auto simp: st_learner_feed_netargv_view_def split: if_splits)
next
  case (Inr ts)
  then have "e = ST_ERR_INVALID \<and> l' = l \<or> learner_tokens_valid (Some ts) \<and> learner_insert_atomic serves l ts = (e, l')"
    using assms(2) by (auto simp: st_learner_feed_netargv_view_def split: if_splits)
  then show ?thesis using Inr assms(1) insert_atomic_holds [of l H ts serves e l'] by auto
qed

lemma history_holds: "learner_history l H \<Longrightarrow> learner_holds l H"
proof (induction rule: learner_history.induct)
  case (created config l)
  then show ?case
    by (auto simp: st_learner_new_def learner_holds_def stands_for_def represents_def node_new_def Let_def
        st_learner_config_default_def learner_config_valid_def split: if_splits option.splits)
next
  case (fed_argv l H serves netargv e l')
  then show ?case using feed_netargv_holds by blast
next
  case (fed_tokens l H serves ts e l')
  then show ?case using feed_tokens_holds by blast
next
  case (configured l H config e l')
  then show ?case by (auto simp: st_learner_set_config_def learner_holds_def split: if_splits)
next
  case (loaded l H opened fclosed e l' H')
  then show ?case
    using load_effect_learner [OF loaded.hyps(2)] by (cases "e = ST_OK") (auto simp: learner_holds_def)
next
  case (blacklisted l H pattern e l')
  then show ?case
    by (auto simp: st_learner_blacklist_add_netpattern_def learner_holds_def split: if_splits sum.splits)
qed

end
