(* ===== verification/Suggest_Count.thy ===== *)
theory Suggest_Count imports Suggest_Walk Learner_History begin

text \<open>
  What the walk counts: where it is certain, the commands of the history that follow the tokens of a
  prefix. A child it leaves out stands for no command that does, and a child it takes without doubt
  for such commands only.
\<close>

unbundle bit_operations_syntax

section \<open>Single tokens\<close>

text \<open>Every token has the type that its text has after the text before it.\<close>

definition in_context :: "st_token list \<Rightarrow> bool" where
  "in_context h \<longleftrightarrow> (\<forall>i<length h. tk_type (h ! i) = st_token_classify_context (tk_text (h ! i))
     (if i = 0 then ST_ARG_CONTEXT_NONE else st_arg_context_after (tk_text (h ! (i - 1)))))"

lemma classified_in_context: "in_context (classify_argv args)"
proof -
  have len: "length (classify_argv args) = length args" by (simp add: classify_argv_def)
  show ?thesis
    unfolding in_context_def len
    by (auto simp: classify_argv_def classify_args_nth plain_token_def)
qed

lemma option_name:
  assumes "p = n @ [CHR ''='']" "CHR ''='' \<notin> set n"
  shows "take (length p) s = p \<longleftrightarrow> (\<exists>k. span_find s CHR ''='' = Some k \<and> p = take (k + 1) s)"
proof
  assume "take (length p) s = p"
  then have s: "s = n @ CHR ''='' # drop (length p) s" using assms(1) append_take_drop_id [of "length p" s] by simp
  have "span_find (n @ CHR ''='' # r) CHR ''='' = Some (length n)" for r
    using assms(2) by (induction n) auto
  then have "span_find s CHR ''='' = Some (length n)" using s by metis
  moreover have "p = take (length n + 1) s" using assms(1) \<open>take (length p) s = p\<close> by simp
  ultimately show "\<exists>k. span_find s CHR ''='' = Some k \<and> p = take (k + 1) s" by blast
next
  assume "\<exists>k. span_find s CHR ''='' = Some k \<and> p = take (k + 1) s"
  then obtain k where k: "span_find s CHR ''='' = Some k" "p = take (k + 1) s" by blast
  then have "k < length s" using span_find_Some [OF k(1)] by simp
  then show "take (length p) s = p" using k(2) by simp
qed

lemma compound_follows:
  assumes "rule_token k" "tk_compound k"
  shows "token_accepts k s ty \<longleftrightarrow>
    (case span_find s CHR ''='' of None \<Rightarrow> False | Some j \<Rightarrow> tk_prefix k = take (j + 1) s) \<and>
    st_pattern_wildcard_matches (drop (length (tk_prefix k)) s) (st_token_classify (drop (length (tk_prefix k)) s))
      (tk_capture k) (tk_capture_type k)"
proof -
  obtain n where n: "tk_prefix k = n @ [CHR ''='']" "CHR ''='' \<notin> set n" and suf: "tk_suffix k = []"
    using assms by (auto simp: rule_token_def)
  have "take (length (tk_prefix k)) s = tk_prefix k \<longleftrightarrow>
      (case span_find s CHR ''='' of None \<Rightarrow> False | Some j \<Rightarrow> tk_prefix k = take (j + 1) s)"
    unfolding option_name [OF n] by (cases "span_find s CHR ''=''") (simp_all del: span_find_None_iff)
  moreover have "take (length (tk_prefix k)) s = tk_prefix k \<Longrightarrow> \<not> length s < length (tk_prefix k)"
    by (metis length_take min.cobounded1 not_le)
  ultimately show ?thesis
    using assms(2) suf by (auto simp: token_accepts_def st_pattern_capture_span_def)
qed

lemma literal_type_seen:
  assumes h: "in_context h" "i < length h" and ts: "i < length ts" and lit: "tk_text (h ! i) = tk_text (ts ! i)"
    and before: "0 < i \<Longrightarrow> follows_token (ts ! (i - 1)) (h ! (i - 1))"
  shows "st_pattern_literal_types (take (i + 1) ts) i AND type_bit (tk_type (h ! i)) \<noteq> 0"
proof -
  let ?c = "if i = 0 then ST_ARG_CONTEXT_NONE else st_arg_context_after (tk_text (h ! (i - 1)))"
  have type: "tk_type (h ! i) = st_token_classify_context (tk_text (ts ! i)) ?c"
    using h lit by (simp add: in_context_def)
  have "?c \<in> set (literal_contexts ts i)"
  proof (cases "i = 0 \<or> tk_compound (ts ! (i - 1)) \<or> tk_type (ts ! (i - 1)) \<noteq> ST_TYPE_LITERAL")
    case True
    then show ?thesis by (auto simp: literal_contexts_def)
  next
    case False
    then have "tk_text (h ! (i - 1)) = tk_text (ts ! (i - 1))"
      using before by (simp add: follows_token_def token_accepts_def)
    then show ?thesis using False by (simp add: literal_contexts_def)
  qed
  then have "bit (st_pattern_literal_types ts i) (type_index (tk_type (h ! i)))"
    unfolding literal_types_mem type by blast
  moreover have "st_pattern_literal_types (take (i + 1) ts) i = st_pattern_literal_types ts i"
    by (rule literal_types_take) simp
  ultimately show ?thesis using type_mask_mem by metis
qed

text \<open>A node that stands for the tokens \<open>ks\<close> of a position.\<close>

lemma match_sound:
  assumes ts: "i < length ts" "rule_token (ts ! i)"
    and node: "noted (nd_fields c) ks" "\<And>t. t \<in> set ks \<Longrightarrow> tok_key t = node_key c"
    and h: "in_context h" "i < length h" "h ! i \<in> set ks"
    and before: "0 < i \<Longrightarrow> follows_token (ts ! (i - 1)) (h ! (i - 1))"
  shows "token_match (take (i + 1) ts) c = SUPPORT_NO \<Longrightarrow> \<not> follows_token (ts ! i) (h ! i)"
    and "token_match (take (i + 1) ts) c = SUPPORT_YES \<Longrightarrow> follows_token (ts ! i) (h ! i)"
proof -
  let ?k = "ts ! i" and ?t = "h ! i" and ?f = "nd_fields c"
  define us where "us = take (i + 1) ts"
  have last: "last us = ?k" using ts(1) by (simp add: us_def take_Suc_conv_app_nth)
  have pos: "length us - 1 = i" using ts(1) by (simp add: us_def)
  have nth: "us ! i = ?k" by (simp add: us_def)
  have key: "tk_type ?t = nf_type ?f" "nf_type ?f = ST_TYPE_LITERAL \<Longrightarrow> tk_text ?t = nf_token ?f"
    using node(2) [OF h(3)] by (auto simp: tok_key_def node_key_def split: if_splits)
  have wf: "wf_token ?k" using ts(2) by (simp add: rule_token_def)
  note M = token_match_def [of us c, unfolded Let_def last pos] support_prefix_match_def new_prefix_def
  have "(token_match us c = SUPPORT_NO \<longrightarrow> \<not> follows_token ?k ?t) \<and> (token_match us c = SUPPORT_YES \<longrightarrow> follows_token ?k ?t)"
  proof (cases "tk_compound ?k")
    case True
    show ?thesis
    proof (cases "nf_type ?f = ST_TYPE_LITERAL")
      case lit: True
      show ?thesis
        using True lit key(2) [OF lit] compound_follows [OF ts(2) True, of "tk_text ?t" "tk_type ?t"]
        by (cases "span_find (tk_text ?t) CHR ''=''") (auto simp: M nth follows_token_def Let_def simp del: span_find_None_iff)
    next
      case False
      then show ?thesis using True by (simp add: M nth Let_def)
    qed
  next
    case plain: False
    show ?thesis
    proof (cases "tk_type ?k = ST_TYPE_LITERAL")
      case True
      have acc: "follows_token ?k ?t \<longleftrightarrow> tk_text ?t = tk_text ?k"
        using plain True by (simp add: follows_token_def token_accepts_def)
      have lt: "is_literal_token ?k" using plain True by (simp add: is_literal_token_def)
      show ?thesis
      proof (cases "nf_type ?f = ST_TYPE_LITERAL")
        case lit: True
        then show ?thesis using plain True key acc by (simp add: M nth Let_def)
      next
        case False
        have "tk_text ?t = tk_text ?k \<Longrightarrow> st_pattern_literal_types us i AND type_bit (nf_type ?f) \<noteq> 0"
          using literal_type_seen [OF h(1,2) ts(1) _ before] key(1) unfolding us_def by simp
        then show ?thesis using plain True False acc lt by (auto simp: M nth Let_def)
      qed
    next
      case False
      have can: "canonical_spelling (tk_type ?k) (tk_text ?k)" using wf_wild_canonical [OF wf False] .
      let ?m = "st_wildcard_metadata_span (tk_text ?k) (tk_type ?k)"
      have acc: "follows_token ?k ?t \<longleftrightarrow> st_runtime_type_matches (nf_type ?f) (tk_type ?k) \<and>
          closed_metadata_matches (tk_text ?t) (nf_type ?f) (tk_type ?k) ?m"
        using plain False key(1) span_metadata_eq [OF can]
        by (simp add: follows_token_def token_accepts_def param_matches_def)
      have nl: "\<not> is_literal_token ?k" using False by (simp add: is_literal_token_def)
      have match: "token_match us c =
          (if \<not> st_runtime_type_matches (nf_type ?f) (tk_type ?k) then SUPPORT_NO
           else case ?m of None \<Rightarrow> SUPPORT_YES
           | Some m \<Rightarrow> if nf_type ?f \<noteq> tk_type ?k then SUPPORT_NO
               else if \<not> st_metadata_requires_value m then SUPPORT_YES
               else if nf_mixed ?f then SUPPORT_UNKNOWN
               else if nf_common ?f = me_id m then SUPPORT_YES else SUPPORT_NO)"
        using plain False nl by (simp add: M nth Let_def)
      show ?thesis
      proof (cases ?m)
        case None
        then show ?thesis unfolding match acc by (simp add: closed_metadata_matches_def)
      next
        case (Some m)
        have "token_metadata ?t = nf_common ?f"
          if "nf_type ?f = tk_type ?k" "\<not> nf_mixed ?f"
        proof -
          have u: "uniform ks" "nf_common ?f = token_metadata (hd ks)" using node(1) that False by (auto simp: noted_def)
          then show ?thesis using h(3) unfolding uniform_def list_all_iff by metis
        qed
        then show ?thesis unfolding match acc using Some key(1) by (auto simp: closed_metadata_matches_def)
      qed
    qed
  qed
  then show "token_match (take (i + 1) ts) c = SUPPORT_NO \<Longrightarrow> \<not> follows_token ?k ?t"
    "token_match (take (i + 1) ts) c = SUPPORT_YES \<Longrightarrow> follows_token ?k ?t"
    unfolding us_def by blast+
qed

section \<open>Commands through a node\<close>

text \<open>\<open>G\<close> are the commands that lead to the node, at depth \<open>i\<close>.\<close>

definition through :: "st_node \<Rightarrow> nat \<Rightarrow> st_token list list \<Rightarrow> bool" where
  "through n i G \<longleftrightarrow> children_represent (nd_children n) (map (drop i) G) \<and> nf_count (nd_fields n) = length G \<and>
     (\<forall>h\<in>set G. in_context h \<and> i \<le> length h)"

definition onward :: "st_token list list \<Rightarrow> nat \<Rightarrow> st_node \<Rightarrow> st_token list list" where
  "onward G i c = filter (\<lambda>h. i < length h \<and> tok_key (h ! i) = node_key c) G"

lemma onward_below:
  "below (map (drop i) G) (node_key c) = map (drop (i + 1)) (onward G i c)"
  "heads (map (drop i) G) (node_key c) = map (\<lambda>h. h ! i) (onward G i c)"
proof -
  have parts: "drop i h \<noteq> [] \<and> tok_key (hd (drop i h)) = node_key c \<longleftrightarrow> i < length h \<and> tok_key (h ! i) = node_key c" for h
    by (auto simp: hd_drop_conv_nth)
  show "below (map (drop i) G) (node_key c) = map (drop (i + 1)) (onward G i c)"
    by (simp add: below_def onward_def filter_map o_def parts drop_Suc tl_drop del: drop_eq_Nil)
  show "heads (map (drop i) G) (node_key c) = map (\<lambda>h. h ! i) (onward G i c)"
    by (simp add: heads_def onward_def filter_map o_def parts hd_drop_conv_nth del: drop_eq_Nil cong: map_cong)
qed

lemma through_child:
  assumes "through n i G" "c \<in> set (nd_children n)"
  shows "through c (i + 1) (onward G i c)" "noted (nd_fields c) (map (\<lambda>h. h ! i) (onward G i c))"
proof -
  have rep: "children_represent (nd_children n) (map (drop i) G)" and G: "\<forall>h\<in>set G. in_context h \<and> i \<le> length h"
    using assms(1) by (simp_all add: through_def)
  note R = children_representD [OF rep assms(2), unfolded onward_below]
  show "noted (nd_fields c) (map (\<lambda>h. h ! i) (onward G i c))" by (rule R(1))
  show "through c (i + 1) (onward G i c)"
    using R G unfolding through_def noted_def by (auto simp: onward_def)
qed

lemma one_of_keys:
  "distinct (map key cs) \<Longrightarrow> (\<Sum>c\<leftarrow>cs. if x = key c then 1 else (0 :: nat)) = (if x \<in> set (map key cs) then 1 else 0)"
proof (induction cs)
  case (Cons c cs)
  then show ?case by (cases "x = key c") auto
qed simp

lemma filter_by_key:
  assumes "distinct (map key cs)" "\<forall>h\<in>set G. Q h \<longrightarrow> f h \<in> set (map key cs)"
  shows "length (filter (\<lambda>h. P h \<and> Q h) G) = (\<Sum>c\<leftarrow>cs. length (filter (\<lambda>h. P h \<and> Q h \<and> f h = key c) G))"
  using assms(2)
proof (induction G)
  case (Cons h G)
  have "(\<Sum>c\<leftarrow>cs. length (filter (\<lambda>h. P h \<and> Q h \<and> f h = key c) (h # G))) =
      (\<Sum>c\<leftarrow>cs. (if P h \<and> Q h then if f h = key c then 1 else 0 else 0) + length (filter (\<lambda>h. P h \<and> Q h \<and> f h = key c) G))"
    by (rule arg_cong [where f = sum_list], rule map_cong) auto
  also have "\<dots> = (if P h \<and> Q h then 1 else 0) + (\<Sum>c\<leftarrow>cs. length (filter (\<lambda>h. P h \<and> Q h \<and> f h = key c) G))"
    using one_of_keys [OF assms(1), of "f h"] Cons.prems by (simp add: sum_list_addf)
  finally show ?case using Cons by simp
qed simp

lemma through_split:
  assumes "through n i G"
  shows "length (filter P G) = length (filter (\<lambda>h. P h \<and> length h = i) G) +
    (\<Sum>c\<leftarrow>nd_children n. length (filter P (onward G i c)))"
proof -
  let ?cs = "nd_children n"
  have rep: "children_represent ?cs (map (drop i) G)" and G: "\<forall>h\<in>set G. i \<le> length h"
    using assms by (simp_all add: through_def)
  have keys: "distinct (map node_key ?cs)" "\<forall>h\<in>set G. i < length h \<longrightarrow> tok_key (h ! i) \<in> set (map node_key ?cs)"
    using rep by (auto simp: children_represent.simps [of ?cs] hd_drop_conv_nth)
  have "length (filter P G) = length (filter (\<lambda>h. P h \<and> length h = i) G) + length (filter (\<lambda>h. P h \<and> i < length h) G)"
    using G by (induction G) auto
  moreover have "length (filter (\<lambda>h. P h \<and> i < length h) G) = (\<Sum>c\<leftarrow>?cs. length (filter P (onward G i c)))"
    unfolding filter_by_key [OF keys(1), of G "\<lambda>h. i < length h" "\<lambda>h. tok_key (h ! i)" P, OF keys(2)] onward_def
    by (simp add: conj_ac)
  ultimately show ?thesis by simp
qed

lemma through_terminal:
  assumes "through n i G"
  shows "node_terminal_count n = length (filter (\<lambda>h. length h = i) G)"
proof -
  have rep: "children_represent (nd_children n) (map (drop i) G)" and G: "\<forall>h\<in>set G. i \<le> length h"
    and count: "nf_count (nd_fields n) = length G"
    using assms by (simp_all add: through_def)
  have "sum_list (map (\<lambda>c. nf_count (nd_fields c)) (nd_children n)) = length (filter (\<lambda>h. i < length h) G)"
    unfolding children_counts_sum [OF rep] by (simp add: filter_map o_def not_le)
  moreover have "length G = length (filter (\<lambda>h. length h = i) G) + length (filter (\<lambda>h. i < length h) G)"
    using G by (induction G) auto
  ultimately show ?thesis by (simp add: node_terminal_count_def count)
qed

section \<open>Visits and commands\<close>

definition taken :: "st_token list \<Rightarrow> bool \<Rightarrow> st_token list \<Rightarrow> bool" where
  "taken ts ending h \<longleftrightarrow> path_accepts ts h \<and> (ending \<longrightarrow> length h = length ts)"

definition weight :: "bool \<Rightarrow> st_node \<Rightarrow> nat" where
  "weight ending n = (if ending then node_terminal_count n else nf_count (nd_fields n))"

lemma path_accepts_take:
  assumes "path_accepts ts h" "i < length ts"
  shows "i < length h" "follows_token (ts ! i) (h ! i)"
  using assms by (auto simp: path_accepts_def list_all2_conv_all_nth)

lemma visits_unknown: "v \<in> set (visits ts i n True) \<Longrightarrow> snd v"
proof (induction ts i n True arbitrary: v rule: visits.induct)
  case (1 ts i f cs)
  show ?case
  proof (cases "length ts \<le> i")
    case False
    then obtain c where c: "c \<in> set cs"
      "v \<in> set (case outcome (token_match (take (i + 1) ts) c) True of None \<Rightarrow> [] | Some u \<Rightarrow> visits ts (i + 1) c u)"
      using "1.prems" by auto
    show ?thesis
    proof (cases "outcome (token_match (take (i + 1) ts) c) True")
      case (Some u)
      then have u: "u = True" by (auto simp: outcome_def split: support_match.splits)
      show ?thesis by (rule "1.hyps" [OF False c(1) Some [unfolded u] c(2) [unfolded Some u option.case]])
    qed (use c in simp)
  qed (use 1 in auto)
qed

lemma not_taken_onward:
  assumes th: "through n i G" and c: "c \<in> set (nd_children n)" and ts: "list_all rule_token ts" "i < length ts"
    and no: "token_match (take (i + 1) ts) c = SUPPORT_NO"
  shows "filter (taken ts ending) (onward G i c) = []"
proof -
  have "\<not> taken ts ending h" if h: "h \<in> set (onward G i c)" for h
  proof
    assume "taken ts ending h"
    then have acc: "path_accepts ts h" by (simp add: taken_def)
    have H: "in_context h" "i < length h" "h ! i \<in> set (map (\<lambda>h. h ! i) (onward G i c))"
      using th h by (auto simp: onward_def through_def)
    have rule: "rule_token (ts ! i)" using ts by (simp add: list_all_length)
    have keys: "tok_key t = node_key c" if "t \<in> set (map (\<lambda>h. h ! i) (onward G i c))" for t
      using that by (auto simp: onward_def)
    have prev: "0 < i \<Longrightarrow> follows_token (ts ! (i - 1)) (h ! (i - 1))"
      using path_accepts_take(2) [OF acc, of "i - 1"] ts(2) by simp
    have "\<not> follows_token (ts ! i) (h ! i)"
      by (rule match_sound(1) [OF ts(2) rule through_child(2) [OF th c] keys H prev no])
    then show False using path_accepts_take(2) [OF acc ts(2)] by blast
  qed
  then show ?thesis by (simp add: filter_empty_conv)
qed

lemma sum_concat: "(\<Sum>v\<leftarrow>concat (map g cs). w v) = (\<Sum>c\<leftarrow>cs. \<Sum>v\<leftarrow>g c. (w v :: nat))"
  by (induction cs) simp_all

lemma visits_bound:
  "through n i G \<Longrightarrow> list_all rule_token ts \<Longrightarrow> i \<le> length ts \<Longrightarrow>
   length (filter (taken ts ending) G) \<le> (\<Sum>v\<leftarrow>visits ts i n unknown. weight ending (fst v))"
proof (induction n arbitrary: i G unknown)
  case (Node f cs)
  note th = Node.prems(1)
  show ?case
  proof (cases "i = length ts")
    case True
    have "length (filter (taken ts ending) G) \<le> weight ending (Node f cs)"
    proof (cases ending)
      case fin: True
      have "filter (taken ts ending) G = filter (taken ts ending) (filter (\<lambda>h. length h = i) G)"
        using fin True by (auto simp: taken_def intro!: filter_cong)
      then show ?thesis
        using fin through_terminal [OF th] length_filter_le [of "taken ts ending" "filter (\<lambda>h. length h = i) G"]
        by (simp add: weight_def)
    next
      case False
      then show ?thesis using th length_filter_le [of "taken ts ending" G] by (simp add: weight_def through_def)
    qed
    then show ?thesis using True by simp
  next
    case False
    then have i: "i < length ts" using Node.prems(3) by simp
    let ?v = "\<lambda>c. case outcome (token_match (take (i + 1) ts) c) unknown of None \<Rightarrow> [] | Some u \<Rightarrow> visits ts (i + 1) c u"
    have child: "length (filter (taken ts ending) (onward G i c)) \<le> (\<Sum>v\<leftarrow>?v c. weight ending (fst v))" if c: "c \<in> set cs" for c
    proof (cases "outcome (token_match (take (i + 1) ts) c) unknown")
      case None
      then have "token_match (take (i + 1) ts) c = SUPPORT_NO" by (auto simp: outcome_def split: support_match.splits)
      then show ?thesis using not_taken_onward [OF th _ Node.prems(2) i, of c ending] c by simp
    next
      case (Some u)
      then show ?thesis using Node.IH [OF c through_child(1) [OF th, of c]] Node.prems(2) i c by simp
    qed
    have "filter (\<lambda>h. taken ts ending h \<and> length h = i) G = []"
      using i by (auto simp: filter_empty_conv taken_def path_accepts_def)
    then have "length (filter (taken ts ending) G) = (\<Sum>c\<leftarrow>cs. length (filter (taken ts ending) (onward G i c)))"
      using through_split [OF th, of "taken ts ending"] by simp
    also have "\<dots> \<le> (\<Sum>c\<leftarrow>cs. \<Sum>v\<leftarrow>?v c. weight ending (fst v))" by (rule sum_list_mono) (rule child)
    also have "\<dots> = (\<Sum>v\<leftarrow>concat (map ?v cs). weight ending (fst v))"
      by (simp only: sum_concat)
    finally show ?thesis using i by simp
  qed
qed

lemma visits_exact:
  "through n i G \<Longrightarrow> list_all rule_token ts \<Longrightarrow> i \<le> length ts \<Longrightarrow> \<forall>h\<in>set G. path_accepts (take i ts) h \<Longrightarrow>
   \<forall>v\<in>set (visits ts i n False). snd v \<longrightarrow> weight ending (fst v) = 0 \<Longrightarrow>
   length (filter (taken ts ending) G) = (\<Sum>v\<leftarrow>visits ts i n False. weight ending (fst v))"
proof (induction n arbitrary: i G)
  case (Node f cs)
  note th = Node.prems(1)
  show ?case
  proof (cases "i = length ts")
    case True
    then have "filter (taken ts ending) G = filter (\<lambda>h. ending \<longrightarrow> length h = i) G"
      using Node.prems(4) by (auto simp: taken_def intro!: filter_cong)
    then show ?thesis
      using True through_terminal [OF th] th by (cases ending) (simp_all add: weight_def through_def)
  next
    case False
    then have i: "i < length ts" using Node.prems(3) by simp
    let ?v = "\<lambda>c. case outcome (token_match (take (i + 1) ts) c) False of None \<Rightarrow> [] | Some u \<Rightarrow> visits ts (i + 1) c u"
    have visits: "visits ts i (Node f cs) False = concat (map ?v cs)" using i by simp
    have child: "length (filter (taken ts ending) (onward G i c)) = (\<Sum>v\<leftarrow>?v c. weight ending (fst v))" if c: "c \<in> set cs" for c
    proof (cases "token_match (take (i + 1) ts) c")
      case SUPPORT_NO
      then show ?thesis using not_taken_onward [OF th _ Node.prems(2) i SUPPORT_NO] c by (simp add: outcome_def)
    next
      case SUPPORT_UNKNOWN
      have "snd v \<and> v \<in> set (visits ts i (Node f cs) False)" if "v \<in> set (visits ts (i + 1) c True)" for v
        using that visits_unknown [OF that] c SUPPORT_UNKNOWN unfolding visits by (auto simp: outcome_def intro!: bexI [of _ c])
      then have zero: "(\<Sum>v\<leftarrow>visits ts (i + 1) c True. weight ending (fst v)) = 0"
        using Node.prems(5) by (simp add: sum_list_eq_0_iff)
      have "length (filter (taken ts ending) (onward G i c)) \<le> (\<Sum>v\<leftarrow>visits ts (i + 1) c True. weight ending (fst v))"
        using visits_bound [OF through_child(1) [OF th, of c] Node.prems(2)] c i by simp
      then show ?thesis unfolding SUPPORT_UNKNOWN outcome_def support_match.case option.case zero by simp
    next
      case SUPPORT_YES
      have "path_accepts (take (i + 1) ts) h" if h: "h \<in> set (onward G i c)" for h
      proof -
        have G: "h \<in> set G" "i < length h" "in_context h" using h th by (auto simp: onward_def through_def)
        have acc: "path_accepts (take i ts) h" using Node.prems(4) G(1) by blast
        have rule: "rule_token (ts ! i)" using Node.prems(2) i by (simp add: list_all_length)
        have keys: "tok_key t = node_key c" if "t \<in> set (map (\<lambda>h. h ! i) (onward G i c))" for t
          using that by (auto simp: onward_def)
        have mem: "h ! i \<in> set (map (\<lambda>h. h ! i) (onward G i c))" using h by simp
        have noted: "noted (nd_fields c) (map (\<lambda>h. h ! i) (onward G i c))" using through_child(2) [OF th] c by simp
        have prev: "0 < i \<Longrightarrow> follows_token (ts ! (i - 1)) (h ! (i - 1))"
          using path_accepts_take(2) [OF acc, of "i - 1"] i by simp
        have "follows_token (ts ! i) (h ! i)"
          by (rule match_sound(2) [OF i rule noted keys G(3,2) mem prev SUPPORT_YES])
        then show ?thesis using acc G(2) i by (simp add: take_Suc_conv_app_nth path_accepts_snoc)
      qed
      moreover have "v \<in> set (visits ts i (Node f cs) False)" if "v \<in> set (visits ts (i + 1) c False)" for v
        using that c SUPPORT_YES unfolding visits by (auto simp: outcome_def intro!: bexI [of _ c])
      then have "\<forall>v\<in>set (visits ts (i + 1) c False). snd v \<longrightarrow> weight ending (fst v) = 0"
        using Node.prems(5) by blast
      ultimately have "length (filter (taken ts ending) (onward G i c)) = (\<Sum>v\<leftarrow>visits ts (i + 1) c False. weight ending (fst v))"
        using Node.IH [OF c through_child(1) [OF th, of c] Node.prems(2)] c i by simp
      then show ?thesis using SUPPORT_YES by (simp add: outcome_def)
    qed
    have "filter (\<lambda>h. taken ts ending h \<and> length h = i) G = []"
      using i by (auto simp: filter_empty_conv taken_def path_accepts_def)
    then have "length (filter (taken ts ending) G) = (\<Sum>c\<leftarrow>cs. length (filter (taken ts ending) (onward G i c)))"
      using through_split [OF th, of "taken ts ending"] by simp
    also have "\<dots> = (\<Sum>c\<leftarrow>cs. \<Sum>v\<leftarrow>?v c. weight ending (fst v))"
      by (rule arg_cong [where f = sum_list], rule map_cong) (simp_all only: child)
    also have "\<dots> = (\<Sum>v\<leftarrow>concat (map ?v cs). weight ending (fst v))"
      by (simp only: sum_concat)
    finally show ?thesis unfolding visits .
  qed
qed

end
