(* ===== verification/Suggest_Collect.thy ===== *)
theory Suggest_Collect imports Suggest_Index Learner_History begin

text \<open>
  Collecting never fails on a trie the learner can hold, and what it collects are canonical patterns
  of tokens that the index can place; so are the fallbacks.
\<close>

section \<open>Canonical proposals\<close>

text \<open>The candidate's pattern is the encoding of the tokens.\<close>

definition spells :: "st_candidate \<Rightarrow> st_token list \<Rightarrow> bool" where
  "spells c ts \<longleftrightarrow> ca_pattern c = concat (map record_of ts) \<and> list_all rule_token ts \<and>
     ca_depth c \<le> length ts \<and> length (ca_pattern c) < ST_MAX_NETPATTERN_LEN"

definition spelled :: "nat \<Rightarrow> st_candidate list \<Rightarrow> bool" where
  "spelled k cs \<longleftrightarrow> list_all (\<lambda>c. \<exists>ts. spells c ts \<and> length ts \<le> k) cs"

lemma spelled_simps [simp]:
  "spelled k []" "spelled k (c # cs) \<longleftrightarrow> (\<exists>ts. spells c ts \<and> length ts \<le> k) \<and> spelled k cs"
  "spelled k (cs @ ds) \<longleftrightarrow> spelled k cs \<and> spelled k ds"
  by (simp_all add: spelled_def)

lemma record_small: "wf_token t \<Longrightarrow> length (record_of t) < ST_MAX_NETPATTERN_LEN"
  using record_value_small [of t] length_tagged_small [of "snd (record_tag_value t)" "fst (record_tag_value t)"]
  by (simp add: record_of_def tagged_enc_def ST_MAX_NETPATTERN_LEN_def split: prod.splits)

lemma encode_one:
  assumes "encode_token typed = Inr (record_of t)" "wf_token t"
  shows "st_netpattern_encode_owned (Some [typed]) = Inr (record_of t)"
  using assms record_small [OF assms(2)] join_records_eq [of 0 "[record_of t]"]
  by (simp add: st_netpattern_encode_owned_def ST_MAX_CMD_TOKENS_def ST_MAX_NETPATTERN_LEN_def SIZE_MAX_def)

lemma append_encoded_spelled:
  assumes enc: "encode_token typed = Inr (record_of t)" and t: "rule_token t"
    and ts: "spells (bc_suffix b) ts" "length ts \<le> k" "depth \<le> length ts + 1" and cs: "spelled (k + 1) cs"
  shows "\<exists>cs'. append_encoded cs b typed confidence depth = Some cs' \<and> spelled (k + 1) cs'"
proof -
  have wf: "wf_token t" using t by (simp add: rule_token_def)
  let ?s = "ca_pattern (bc_suffix b)"
  show ?thesis
  proof (cases "length (record_of t) \<ge> ST_MAX_NETPATTERN_LEN \<or> length ?s \<ge> ST_MAX_NETPATTERN_LEN - length (record_of t)")
    case True
    then show ?thesis using cs by (simp add: append_encoded_def encode_one [OF enc wf])
  next
    case False
    let ?c = "\<lparr>ca_pattern = record_of t @ ?s, ca_count = ca_count (bc_suffix b), ca_confidence = confidence, ca_depth = depth\<rparr>"
    have "spells ?c (t # ts)" using ts t False by (auto simp: spells_def)
    then have "\<exists>us. spells ?c us \<and> length us \<le> k + 1" using ts(2) by (intro exI [of _ "t # ts"]) simp
    moreover have "append_encoded cs b typed confidence depth = Some (cs @ [?c])"
      using False by (simp add: append_encoded_def encode_one [OF enc wf] Let_def)
    ultimately show ?thesis using cs by simp
  qed
qed

lemma plain_rule_token: "\<not> tk_compound t \<Longrightarrow> rule_token t \<longleftrightarrow> wf_token t"
  by (simp add: rule_token_def)

lemma append_prefixed_spelled:
  assumes wf: "wf_token (plain_token token t)" and ts: "spells (bc_suffix b) ts" "length ts \<le> k" "spelled (k + 1) cs"
  shows "\<exists>cs'. append_prefixed cs b token t confidence here = Some cs' \<and> spelled (k + 1) cs'"
proof -
  let ?t = "plain_token token t"
  have "encode_token \<lparr>arg_text = Some token, arg_text_length = length token, arg_type = t, arg_compound = False,
        arg_prefix = None, arg_prefix_length = 0, arg_capture = None, arg_capture_length = 0,
        arg_suffix = None, arg_suffix_length = 0, arg_capture_type = ST_TYPE_LITERAL\<rparr> = encode_token (token_arg ?t)"
    by (simp add: encode_token_def token_arg_def plain_token_def Let_def split: option.splits prod.splits)
  then show ?thesis
    unfolding append_prefixed_def using ts wf encode_token_wf [OF wf]
    by (intro append_encoded_spelled [of _ ?t]) (auto simp: plain_rule_token plain_token_def spells_def)
qed

lemma plain_literal_wf: "length token < ST_MAX_TOKEN_LEN \<Longrightarrow> wf_token (plain_token token ST_TYPE_LITERAL)"
  by (simp add: wf_token_def plain_token_def)

lemma plain_typed_wf: "canonical_spelling t token \<Longrightarrow> wf_token (plain_token token t)"
  using canonical_spelling_props(2) [of t token] by (simp add: wf_token_def plain_token_def)

lemma append_compound_spelled:
  assumes p: "prefix = n @ [CHR ''='']" "CHR ''='' \<notin> set n" "length prefix < ST_MAX_TOKEN_LEN" and t: "t \<noteq> ST_TYPE_LITERAL"
    and ts: "spells (bc_suffix b) ts" "length ts \<le> k" "spelled (k + 1) cs"
  shows "\<exists>cs'. append_compound_prefixed cs b prefix t confidence = Some cs' \<and> spelled (k + 1) cs'"
proof -
  let ?t = "compound_token prefix (st_type_symbol t) [] t"
  have can: "canonical_spelling t (st_type_symbol t)" using t by (simp add: canonical_spelling_def)
  have wf: "wf_token ?t" using can p by (simp add: wf_token_def ST_MAX_TOKEN_LEN_def)
  have rule: "rule_token ?t" using wf p by (simp add: rule_token_def)
  have "component_bytes (Some (st_type_symbol t)) 0 = st_type_symbol t"
    using type_symbols_plain(2) [of t] by (simp add: component_bytes_def component_length_def)
  then have "encode_token \<lparr>arg_text = Some prefix, arg_text_length = 0, arg_type = ST_TYPE_LITERAL, arg_compound = True,
        arg_prefix = Some prefix, arg_prefix_length = length prefix,
        arg_capture = Some (st_type_symbol t), arg_capture_length = 0,
        arg_suffix = Some [], arg_suffix_length = 0, arg_capture_type = t\<rparr> = encode_token (token_arg ?t)"
    by (simp add: encode_token_def token_arg_def component_bytes_def [of "Some []"] Let_def split: option.splits prod.splits)
  then show ?thesis
    unfolding append_compound_prefixed_def using encode_token_wf [OF wf] rule ts
    by (intro append_encoded_spelled [of _ ?t]) (auto simp: spells_def)
qed

lemma suggestion_token_spelling:
  assumes "t \<noteq> ST_TYPE_LITERAL"
  shows "canonical_spelling t (node_suggestion_token node t)"
proof -
  have short: "list_all (\<lambda>m. length (st_type_symbol (me_type m)) + length (me_name m) + 1 \<le> 31) st_metadata_entries"
    by (simp add: st_metadata_entries_def meta_entry_def)
  have sym: "take 31 (st_type_symbol t) = st_type_symbol t" using type_symbols_plain(3) [of t] by simp
  have plain: "canonical_spelling t (st_type_symbol t)" using assms by (simp add: canonical_spelling_def)
  have "canonical_spelling t (take 31 (st_type_symbol t @ CHR ''.'' # me_name m))"
    if "List.find (\<lambda>m. me_id m = i) st_metadata_entries = Some m" "me_type m = t" for m i
  proof -
    have m: "m \<in> set st_metadata_entries" using that(1) by (auto simp: find_Some_iff)
    then have "take 31 (st_type_symbol t @ CHR ''.'' # me_name m) = st_type_symbol t @ CHR ''.'' # me_name m"
      using short that(2) by (auto simp: list_all_iff)
    then show ?thesis using m that(2) assms unfolding canonical_spelling_def by auto
  qed
  then show ?thesis
    using plain unfolding node_suggestion_token_def Let_def sym by (auto split: option.splits)
qed

section \<open>Groups\<close>

text \<open>A continuation with its child.\<close>

definition branch_ok :: "nat \<Rightarrow> branch_candidate \<Rightarrow> bool" where
  "branch_ok k b \<longleftrightarrow> (\<exists>ts. spells (bc_suffix b) ts \<and> length ts \<le> k) \<and> fields_ok (nd_fields (bc_child b))"

lemma branch_okE:
  assumes "branch_ok k b"
  obtains ts where "spells (bc_suffix b) ts" "length ts \<le> k" "fields_ok (nd_fields (bc_child b))"
  using assms by (auto simp: branch_ok_def)

lemma literal_branch_short:
  "branch_ok k b \<Longrightarrow> is_literal_branch b \<Longrightarrow> length (nf_token (nd_fields (bc_child b))) < ST_MAX_TOKEN_LEN"
  by (auto simp: branch_ok_def is_literal_branch_def fields_ok_def)

lemma append_literals_spelled:
  "list_all (branch_ok k) bs \<Longrightarrow> spelled (k + 1) cs \<Longrightarrow> \<exists>cs'. append_literals m cs bs = Some cs' \<and> spelled (k + 1) cs'"
proof (induction bs arbitrary: cs)
  case (Cons b bs)
  show ?case
  proof (cases "is_literal_branch b")
    case True
    have b: "branch_ok k b" using Cons.prems by simp
    then obtain ts where "spells (bc_suffix b) ts" "length ts \<le> k" by (rule branch_okE)
    then obtain cs' where "append_prefixed cs b (nf_token (nd_fields (bc_child b))) ST_TYPE_LITERAL (local_share m b)
        (ca_pattern (bc_suffix b) = []) = Some cs'" "spelled (k + 1) cs'"
      using append_prefixed_spelled [OF plain_literal_wf [OF literal_branch_short [OF b True]]] Cons.prems(2) by blast
    then show ?thesis using Cons True by simp
  qed (use Cons in simp)
qed simp

lemma dominant_mem: "dominant_branch bs = Some d \<Longrightarrow> d \<in> set bs"
proof -
  have "foldl (\<lambda>dominant b. case dominant of None \<Rightarrow> Some b
      | Some d \<Rightarrow> if P b d then Some b else Some d) o0 bs = Some d \<Longrightarrow> o0 = Some d \<or> d \<in> set bs" for P o0
  proof (induction bs arbitrary: o0)
    case (Cons b bs)
    show ?case
    proof (cases o0)
      case (Some e)
      then show ?thesis using Cons.IH [of "if P b e then Some b else Some e"] Cons.prems by (auto split: if_splits)
    qed (use Cons in auto)
  qed simp
  then show "dominant_branch bs = Some d \<Longrightarrow> d \<in> set bs" by (fastforce simp: dominant_branch_def)
qed

lemma join_not_literal: "b \<noteq> ST_TYPE_LITERAL \<Longrightarrow> st_join a b \<noteq> ST_TYPE_LITERAL"
  using type_lattice.sup_ge2 [of b a] type_lattice.le_bot [of b] by auto

lemma joined_not_literal:
  assumes "bs \<noteq> []" "\<forall>b\<in>set bs. \<not> is_literal_branch b"
  shows "\<exists>t. joined_type bs = Some t \<and> t \<noteq> ST_TYPE_LITERAL"
proof -
  have "o0 \<noteq> Some ST_TYPE_LITERAL \<Longrightarrow> (o0 \<noteq> None \<or> bs \<noteq> []) \<Longrightarrow> \<exists>t. foldl (\<lambda>joined b. let t = nf_type (nd_fields (bc_child b)) in
      case joined of None \<Rightarrow> Some t | Some j \<Rightarrow> Some (st_join j t)) o0 bs = Some t \<and> t \<noteq> ST_TYPE_LITERAL" for o0
    using assms(2)
  proof (induction bs arbitrary: o0)
    case (Cons b bs)
    let ?t = "nf_type (nd_fields (bc_child b))"
    have t: "?t \<noteq> ST_TYPE_LITERAL" using Cons.prems(3) by (simp add: is_literal_branch_def)
    show ?case
    proof (cases o0)
      case None
      then show ?thesis using Cons.IH [of "Some ?t"] Cons.prems(3) t by (simp add: Let_def)
    next
      case (Some j)
      then show ?thesis
        using Cons.IH [of "Some (st_join j ?t)"] Cons.prems(3) join_not_literal [OF t, of j] by (simp add: Let_def)
    qed
  qed auto
  from this [of None] show ?thesis using assms(1) by (simp add: joined_type_def)
qed

lemma aggregate_spells:
  "spells (bc_suffix (hd bs)) ts \<Longrightarrow> spells (bc_suffix (aggregate_branch m bs support child)) ts"
  by (auto simp: spells_def aggregate_branch_def)

lemma append_typed_spelled:
  assumes bs: "list_all (branch_ok k) bs" and cs: "spelled (k + 1) cs"
  shows "\<exists>cs'. append_typed m cs bs = Some cs' \<and> spelled (k + 1) cs'"
proof -
  let ?typed = "filter (\<lambda>b. \<not> is_literal_branch b) bs"
  show ?thesis
  proof (cases "dominant_branch ?typed")
    case None
    then show ?thesis using cs by (simp add: append_typed_def Let_def)
  next
    case (Some d)
    then have d: "d \<in> set bs" "\<not> is_literal_branch d" using dominant_mem [OF Some] by auto
    let ?t = "nf_type (nd_fields (bc_child d))"
    have t: "?t \<noteq> ST_TYPE_LITERAL" using d(2) by (simp add: is_literal_branch_def)
    obtain ts where ts: "spells (bc_suffix d) ts" "length ts \<le> k" using bs d(1) by (auto simp: list_all_iff elim!: branch_okE)
    have "branch_ok k (hd bs)" using bs d(1) by (cases bs) auto
    then obtain us where us: "spells (bc_suffix (hd bs)) us" "length us \<le> k" by (rule branch_okE)
    have "d \<in> set ?typed" "\<forall>b\<in>set ?typed. \<not> is_literal_branch b" using d by simp_all
    then obtain j where j: "joined_type ?typed = Some j" "j \<noteq> ST_TYPE_LITERAL"
      using joined_not_literal [of ?typed] by (metis empty_iff list.set(1))
    note T = append_prefixed_spelled [OF plain_typed_wf [OF suggestion_token_spelling]]
    let ?total = "group_total ?typed"
    consider "length ?typed = 1" | "length ?typed \<noteq> 1" "\<not> ?total \<le> UINT32_MAX"
      | "length ?typed \<noteq> 1" "?total \<le> UINT32_MAX" "ca_count (bc_suffix d) * 10 \<ge> ?total * 7"
      | "length ?typed \<noteq> 1" "?total \<le> UINT32_MAX" "\<not> ca_count (bc_suffix d) * 10 \<ge> ?total * 7" by blast
    then show ?thesis
    proof cases
      case 1
      then show ?thesis unfolding append_typed_def Let_def Some option.case if_P [OF 1] by (intro T [OF t ts cs])
    next
      case 2
      show ?thesis
        unfolding append_typed_def Let_def Some option.case if_not_P [OF 2(1)] if_not_P [OF 2(2)] using cs by blast
    next
      case 3
      show ?thesis
        unfolding append_typed_def Let_def Some option.case if_not_P [OF 3(1)] if_P [OF 3(2)] if_P [OF 3(3)]
        by (rule T [OF t aggregate_spells [OF us(1)] us(2) cs])
    next
      case 4
      show ?thesis
        unfolding append_typed_def Let_def Some option.case if_not_P [OF 4(1)] if_P [OF 4(2)] if_not_P [OF 4(3)] j(1) option.sel
        by (rule T [OF j(2) aggregate_spells [OF us(1)] us(2) cs])
    qed
  qed
qed

lemma option_capture_name:
  assumes "option_capture token = Some (p, t)"
  shows "\<exists>n. p = n @ [CHR ''=''] \<and> CHR ''='' \<notin> set n" "length p \<le> length token"
proof -
  from assms obtain k where k: "span_find (drop 2 token) CHR ''='' = Some k" "p = take (k + 3) token"
      "length token \<ge> 4" "token ! 0 = CHR ''-''" "token ! 1 = CHR ''-''"
    by (auto simp: option_capture_def Let_def split: if_splits option.splits)
  note F = span_find_Some [OF k(1)]
  have "token = take 2 token @ drop 2 token" by simp
  obtain a b r where "token = a # b # r" using k(3) by (cases token; cases "tl token") auto
  then have two: "take 2 token = [CHR ''-'', CHR ''-'']" using k(4,5) by simp
  have "take (k + 3) token = take (k + 2) token @ [token ! (k + 2)]"
    using F k(3) by (subst take_Suc_conv_app_nth [symmetric]) (auto simp: numeral_3_eq_3)
  moreover have "token ! (k + 2) = CHR ''=''" using F k(3) by (simp add: add.commute)
  moreover have "take (k + 2) token = take 2 token @ take k (drop 2 token)"
    by (metis add.commute take_add)
  ultimately show "\<exists>n. p = n @ [CHR ''=''] \<and> CHR ''='' \<notin> set n" using k(2) F two by auto
  show "length p \<le> length token" using k(2) by simp
qed

lemma compound_options_name:
  "list_all (branch_ok k) bs \<Longrightarrow> compound_options found bs = Some (p, t) \<Longrightarrow> found = None \<and> bs \<noteq> [] \<or> (\<exists>t0. found = Some (p, t0)) \<Longrightarrow>
   (\<exists>t0. found = Some (p, t0)) \<or> (\<exists>n. p = n @ [CHR ''=''] \<and> CHR ''='' \<notin> set n) \<and> length p < ST_MAX_TOKEN_LEN"
proof (induction found bs rule: compound_options.induct)
  case (2 found b bs)
  let ?f = "nd_fields (bc_child b)"
  have lit: "nf_type ?f = ST_TYPE_LITERAL" using "2.prems"(2) by (simp add: Let_def split: if_splits)
  then have short: "length (nf_token ?f) < ST_MAX_TOKEN_LEN"
    using "2.prems"(1) literal_branch_short [of k b] by (simp add: is_literal_branch_def)
  obtain q u where q: "option_capture (nf_token ?f) = Some (q, u)"
    using "2.prems"(2) lit by (auto simp: Let_def split: option.splits)
  show ?case
  proof (cases found)
    case None
    have "compound_options (Some (q, u)) bs = Some (p, t)" using "2.prems"(2) lit q None by (simp add: Let_def)
    moreover from this have "q = p"
    proof (induction bs arbitrary: u)
      case (Cons b bs)
      then show ?case by (auto simp: Let_def split: if_splits option.splits)
    qed simp
    ultimately show ?thesis using option_capture_name [OF q] short by auto
  qed (use "2.prems" in auto)
qed simp

lemma append_group_spelled:
  assumes bs: "list_all (branch_ok k) bs" "bs \<noteq> []" and cs: "spelled (k + 1) cs"
  shows "\<exists>cs'. append_group m cp cs bs = Some cs' \<and> spelled (k + 1) cs'"
proof -
  let ?generalise = "length (filter is_literal_branch bs) \<ge> 2 \<and> \<not> cp" and ?fits = "group_total bs \<le> UINT32_MAX"
  let ?agg = "aggregate_branch m bs (group_total bs) (bc_child (hd bs))"
  define compound where "compound = (if ?generalise \<and> length (filter is_literal_branch bs) = length bs \<and> ?fits
      then case compound_options None bs of None \<Rightarrow> None | Some (prefix, t) \<Rightarrow> if t = ST_TYPE_LITERAL then None else Some (prefix, t)
      else None)"
  define appended where "appended = (case compound of
      Some (prefix, t) \<Rightarrow> append_compound_prefixed cs ?agg prefix t (ca_confidence (bc_suffix ?agg))
    | None \<Rightarrow>
        (if ?generalise \<and> ?fits then append_prefixed cs ?agg ''*'' ST_TYPE_ANY (ca_confidence (bc_suffix ?agg)) True
         else append_literals m cs bs))"
  have "branch_ok k (hd bs)" using bs by (cases bs) auto
  then obtain ts where ts: "spells (bc_suffix (hd bs)) ts" "length ts \<le> k" by (rule branch_okE)
  note agg = aggregate_spells [OF ts(1)]
  have star: "canonical_spelling ST_TYPE_ANY ''*''" by (simp add: canonical_spelling_def)
  have "\<exists>cs'. appended = Some cs' \<and> spelled (k + 1) cs'"
  proof (cases compound)
    case None
    then show ?thesis
      using append_prefixed_spelled [OF plain_typed_wf [OF star] agg ts(2) cs] append_literals_spelled [OF bs(1) cs]
      unfolding appended_def None option.case by (cases "?generalise \<and> ?fits") (simp_all only: if_True if_False simp_thms)
  next
    case (Some pt)
    obtain p t where pt: "pt = (p, t)" by fastforce
    have o: "compound_options None bs = Some (p, t)" "t \<noteq> ST_TYPE_LITERAL"
      using Some unfolding compound_def pt by (auto split: if_splits option.splits)
    then obtain n where "p = n @ [CHR ''='']" "CHR ''='' \<notin> set n" "length p < ST_MAX_TOKEN_LEN"
      using compound_options_name [OF bs(1) o(1)] bs(2) by auto
    then show ?thesis
      unfolding appended_def Some pt option.case prod.case by (intro append_compound_spelled [OF _ _ _ o(2) agg ts(2) cs])
  qed
  then obtain cs' where cs': "appended = Some cs'" "spelled (k + 1) cs'" by blast
  have "append_group m cp cs bs = (case appended of None \<Rightarrow> None | Some cs \<Rightarrow> if ?generalise then Some cs else append_typed m cs bs)"
    unfolding append_group_def Let_def appended_def compound_def by (rule refl)
  then show ?thesis using append_typed_spelled [OF bs(1) cs'(2)] cs' by (auto split: if_splits)
qed

lemma append_groups_spelled:
  "list_all (\<lambda>g. list_all (branch_ok k) g \<and> g \<noteq> []) gs \<Longrightarrow> spelled (k + 1) cs \<Longrightarrow>
   \<exists>cs'. append_groups m cp cs gs = Some cs' \<and> spelled (k + 1) cs'"
proof (induction gs arbitrary: cs)
  case (Cons g gs)
  then obtain cs' where "append_group m cp cs g = Some cs'" "spelled (k + 1) cs'"
    using append_group_spelled [of k g cs m cp] by auto
  then show ?case using Cons.IH [of cs'] Cons.prems(1) by simp
qed simp

lemma suffix_groups_parts:
  "concat (suffix_groups bs) = bs" "list_all (\<lambda>g. g \<noteq> []) (suffix_groups bs)"
  by (induction bs rule: suffix_groups.induct) simp_all

section \<open>Collecting\<close>

lemma those_some: "list_all (\<lambda>x. f x \<noteq> None) xs \<Longrightarrow> those (map f xs) = Some (map (\<lambda>x. the (f x)) xs)"
  by (induction xs) auto

lemma collect_spelled:
  "list_all (storable (d + 1)) cs \<Longrightarrow> d \<le> ST_MAX_CMD_TOKENS \<Longrightarrow>
   \<exists>out. collect_complete_continuations (Node f cs) cp = Some out \<and> spelled (ST_MAX_CMD_TOKENS - d) out"
proof (induction cs arbitrary: f d cp rule: measure_induct_rule [where f = "size_list size"])
  case (less cs)
  let ?k = "ST_MAX_CMD_TOKENS - (d + 1)"
  have child: "\<exists>out. collect_complete_continuations c False = Some out \<and> spelled ?k out" "d < ST_MAX_CMD_TOKENS"
    if c: "c \<in> set cs" for c
  proof -
    have st: "storable (d + 1) c" using less.prems(1) c by (simp add: list_all_iff)
    obtain f' cs' where node: "c = Node f' cs'" by (cases c)
    have "list_all (storable (d + 1 + 1)) cs'" "d + 1 \<le> ST_MAX_CMD_TOKENS" using st node by simp_all
    moreover have "size_list size cs' < size_list size cs" using size_children [OF c] node by simp
    ultimately show "\<exists>out. collect_complete_continuations c False = Some out \<and> spelled ?k out"
      unfolding node by (intro less.IH)
    show "d < ST_MAX_CMD_TOKENS" using st node by simp
  qed
  let ?out = "\<lambda>c. the (collect_complete_continuations c False)"
  let ?bs = "concat (map (\<lambda>c. map (\<lambda>s. \<lparr>bc_suffix = s, bc_child = c\<rparr>) (?out c)) cs)"
  have some: "list_all (\<lambda>c. map_option (map (\<lambda>s. \<lparr>bc_suffix = s, bc_child = c\<rparr>)) (collect_complete_continuations c False) \<noteq> None) cs"
    using child(1) by (fastforce simp: list_all_iff)
  have the: "the (map_option (map (\<lambda>s. \<lparr>bc_suffix = s, bc_child = c\<rparr>)) (collect_complete_continuations c False)) =
      map (\<lambda>s. \<lparr>bc_suffix = s, bc_child = c\<rparr>) (?out c)" if "c \<in> set cs" for c
    using child(1) [OF that] by auto
  have ok: "list_all (branch_ok ?k) ?bs"
  proof -
    have "branch_ok ?k \<lparr>bc_suffix = s, bc_child = c\<rparr>" if "c \<in> set cs" "s \<in> set (?out c)" for c s
      using child(1) [OF that(1)] that less.prems(1) storable_fields [of "d + 1" c]
      by (auto simp: branch_ok_def spelled_def list_all_iff)
    then show ?thesis by (auto simp: list_all_iff)
  qed
  let ?start = "if node_terminal_count (Node f cs) \<noteq> 0
    then [\<lparr>ca_pattern = [], ca_count = node_terminal_count (Node f cs), ca_confidence = 1, ca_depth = 0\<rparr>] else []"
  have start: "spelled k ?start" for k
    by (auto simp: spells_def ST_MAX_NETPATTERN_LEN_def intro!: exI [of _ "[]"])
  let ?gs = "suffix_groups (qsort_by compare_branch_candidates ?bs)"
  have "collect_complete_continuations (Node f cs) cp = append_groups (nf_count f) cp ?start ?gs"
    using the by (simp add: those_some [OF some] Let_def cong: map_cong)
  moreover have "list_all (\<lambda>g. list_all (branch_ok ?k) g \<and> g \<noteq> []) ?gs"
  proof -
    have "set (concat ?gs) = set ?bs" by (simp only: suffix_groups_parts(1) qsort_by_facts(1))
    then have "list_all (branch_ok ?k) (concat ?gs)" using ok by (simp only: list_all_iff)
    then show ?thesis using suffix_groups_parts(2) [of "qsort_by compare_branch_candidates ?bs"] by (auto simp: list_all_iff)
  qed
  ultimately show ?case
  proof (cases "cs = []")
    case True
    then have "collect_complete_continuations (Node f cs) cp = Some ?start" by (simp add: Let_def)
    then show ?thesis using start [of "ST_MAX_CMD_TOKENS - d"] by blast
  next
    case False
    then have "?k + 1 = ST_MAX_CMD_TOKENS - d" using child(2) [of "hd cs"] by simp
    then show ?thesis
      using append_groups_spelled [of ?k ?gs ?start "nf_count f" cp] start [of "?k + 1"]
        \<open>list_all (\<lambda>g. list_all (branch_ok ?k) g \<and> g \<noteq> []) ?gs\<close>
        \<open>collect_complete_continuations (Node f cs) cp = append_groups (nf_count f) cp ?start ?gs\<close> by metis
  qed
qed

section \<open>Fallbacks and rules\<close>

definition without_parameter :: "st_token \<Rightarrow> st_token" where
  "without_parameter t =
     (if \<not> support_parameterized t then t
      else if tk_compound t then compound_token (tk_prefix t) (st_type_symbol (tk_capture_type t)) (tk_suffix t) (tk_capture_type t)
      else plain_token (st_type_symbol (tk_type t)) (tk_type t))"

lemma decimal_digits_mono: "a \<le> b \<Longrightarrow> decimal_digits a \<le> decimal_digits b"
proof (induction b arbitrary: a rule: less_induct)
  case (less b)
  show ?case
  proof (cases "a < 10")
    case True
    then show ?thesis by (subst (1 2) decimal_digits.simps) simp
  next
    case False
    then have "decimal_digits (a div 10) \<le> decimal_digits (b div 10)" using less.IH [of "b div 10" "a div 10"] less.prems by (simp add: div_le_mono)
    then show ?thesis using False less.prems by (subst (1 2) decimal_digits.simps) simp
  qed
qed

lemma tagged_mono:
  assumes "length v \<le> length w"
  shows "length (tagged a v) \<le> length (tagged b w)"
proof -
  have "length (tagged_payload a v) \<le> length (tagged_payload b w)"
    using assms decimal_digits_mono [OF assms] by (simp add: length_tagged_payload)
  then show ?thesis using decimal_digits_mono by (simp add: length_tagged add_mono)
qed

lemma symbol_shorter: "canonical_spelling t w \<Longrightarrow> length (st_type_symbol t) \<le> length w"
  by (auto simp: canonical_spelling_def)

lemma without_parameter_facts:
  assumes "rule_token t"
  shows "rule_token (without_parameter t)" "length (record_of (without_parameter t)) \<le> length (record_of t)"
    "encode_token (token_arg (support_plain t)) = Inr (record_of (without_parameter t))"
proof -
  have wf: "wf_token t" using assms by (simp add: rule_token_def)
  have "rule_token (without_parameter t) \<and> length (record_of (without_parameter t)) \<le> length (record_of t) \<and>
    encode_token (token_arg (support_plain t)) = Inr (record_of (without_parameter t))"
  proof (cases "support_parameterized t")
    case False
    then have "support_plain t = t" by (auto simp: support_plain_def support_parameterized_def Let_def split: option.splits)
    then show ?thesis using False assms encode_token_wf [OF wf] by (simp add: without_parameter_def)
  next
    case par: True
    show ?thesis
    proof (cases "tk_compound t")
      case True
      let ?u = "compound_token (tk_prefix t) (st_type_symbol (tk_capture_type t)) (tk_suffix t) (tk_capture_type t)"
      have can: "canonical_spelling (tk_capture_type t) (tk_capture t)" using wf_compound_canonical [OF wf True] .
      have u: "without_parameter t = ?u" using par True by (simp add: without_parameter_def)
      have plain: "support_plain t = t\<lparr>tk_capture := st_type_symbol (tk_capture_type t)\<rparr>"
        using par True by (auto simp: support_plain_def support_parameterized_def Let_def split: option.splits)
      have wfu: "wf_token ?u"
        using wf True can by (simp add: wf_token_def canonical_spelling_def)
      have "encode_token (token_arg (support_plain t)) = encode_token (token_arg ?u)"
        using True by (simp add: plain encode_token_def token_arg_def Let_def split: option.splits prod.splits)
      moreover have "length (record_of ?u) \<le> length (record_of t)"
      proof -
        have "length (tagged CHR ''T'' (st_type_symbol (tk_capture_type t))) \<le> length (tagged CHR ''T'' (tk_capture t))"
          by (rule tagged_mono [OF symbol_shorter [OF can]])
        then show ?thesis
          using True by (simp add: record_of_def record_tag_value_def tagged_enc_def nested_parts_def tagged_mono)
      qed
      moreover have "rule_token ?u" using wfu assms True by (simp add: rule_token_def)
      ultimately show ?thesis using encode_token_wf [OF wfu] u by simp
    next
      case False
      let ?u = "plain_token (st_type_symbol (tk_type t)) (tk_type t)"
      have lit: "tk_type t \<noteq> ST_TYPE_LITERAL" using par False by (simp add: support_parameterized_def Let_def)
      have can: "canonical_spelling (tk_type t) (tk_text t)" using wf_wild_canonical [OF wf lit] .
      have u: "without_parameter t = ?u" using par False by (simp add: without_parameter_def)
      have plain: "support_plain t = t\<lparr>tk_text := st_type_symbol (tk_type t)\<rparr>"
        using par False by (auto simp: support_plain_def support_parameterized_def Let_def split: option.splits)
      have wfu: "wf_token ?u" using lit by (intro plain_typed_wf) (simp add: canonical_spelling_def)
      have "encode_token (token_arg (support_plain t)) = encode_token (token_arg ?u)"
        using False by (simp add: plain encode_token_def token_arg_def plain_token_def Let_def split: option.splits prod.splits)
      moreover have "length (record_of ?u) \<le> length (record_of t)"
        using False lit tagged_mono [OF symbol_shorter [OF can]]
        by (simp add: record_of_def record_tag_value_def tagged_enc_def plain_token_def)
      moreover have "rule_token ?u" using wfu by (simp add: rule_token_def plain_token_def)
      ultimately show ?thesis using encode_token_wf [OF wfu] u by simp
    qed
  qed
  then show "rule_token (without_parameter t)" "length (record_of (without_parameter t)) \<le> length (record_of t)"
    "encode_token (token_arg (support_plain t)) = Inr (record_of (without_parameter t))" by blast+
qed

lemma fallback_spelled:
  assumes ts: "ts \<noteq> []" "length ts \<le> ST_MAX_CMD_TOKENS" "list_all rule_token ts"
    and len: "length (concat (map record_of ts)) < ST_MAX_NETPATTERN_LEN"
  shows "support_fallback ts = Some None \<or>
    (\<exists>pattern. support_fallback ts = Some (Some pattern) \<and>
      st_netpattern_decode_view (np_view pattern) = Inr (map without_parameter ts))"
proof (cases "list_ex support_parameterized ts")
  case True
  let ?us = "map without_parameter ts"
  have "length (concat (map record_of ?us)) \<le> length (concat (map record_of ts))"
    using ts(3) by (induction ts) (auto intro!: add_mono without_parameter_facts(2))
  then have small: "length (concat (map record_of ?us)) < ST_MAX_NETPATTERN_LEN" using len by simp
  have "map_result encode_token (map token_arg (map support_plain ts)) = Inr (map record_of ?us)"
    using ts(3) by (induction ts) (auto simp: without_parameter_facts(3))
  moreover have "join_records 0 (map record_of ?us) = Inr (concat (map record_of ?us))"
    using small by (intro join_records_eq) (simp add: ST_MAX_NETPATTERN_LEN_def SIZE_MAX_def)
  ultimately have "support_fallback ts = Some (Some (concat (map record_of ?us)))"
    using True ts small by (simp add: support_fallback_def st_netpattern_encode_owned_def)
  moreover have "list_all wf_token ?us"
    using ts(3) without_parameter_facts(1) by (auto simp: list_all_iff rule_token_def)
  then have "st_netpattern_decode_view (np_view (concat (map record_of ?us))) = Inr ?us"
    using ts(1,2) small by (simp add: decode_view_Inr_iff)
  ultimately show ?thesis by blast
qed (simp add: support_fallback_def)

lemma spells_decodes:
  "spells c ts \<Longrightarrow> length ts \<le> ST_MAX_CMD_TOKENS \<Longrightarrow> ca_pattern c \<noteq> [] \<Longrightarrow>
   st_netpattern_decode_view (np_view (ca_pattern c)) = Inr ts"
  by (auto simp: spells_def decode_view_Inr_iff list_all_iff rule_token_def)

lemma rules_decode:
  "spelled ST_MAX_CMD_TOKENS cs \<Longrightarrow> \<exists>rules. support_rules k cs = Some rules \<and> list_all rule_decodes rules"
proof (induction k cs rule: support_rules.induct)
  case (2 k c cs)
  show ?case
  proof (cases "ca_pattern c = []")
    case True
    then show ?thesis using 2 by simp
  next
    case False
    obtain ts where ts: "spells c ts" "length ts \<le> ST_MAX_CMD_TOKENS" using "2.prems" by auto
    note dec = spells_decodes [OF ts False]
    have S: "list_all rule_token ts" "ca_depth c \<le> length ts" "length (concat (map record_of ts)) < ST_MAX_NETPATTERN_LEN"
      using ts(1) by (auto simp: spells_def)
    have rest: "spelled ST_MAX_CMD_TOKENS cs" using "2.prems" by simp
    let ?r = "\<lparr>sr_candidate = c, sr_tokens = ts, sr_terminal = 0, sr_scope = 0, sr_original = k, sr_fallback = False\<rparr>"
    have r: "rule_decodes ?r" using dec S by (simp add: rule_decodes_def)
    have ne: "ts \<noteq> []" using dec by (simp add: decode_view_Inr_iff)
    show ?thesis
    proof (cases "tk_type (ts ! 0) = ST_TYPE_ANY")
      case True
      then show ?thesis using "2.IH"(2) [OF False dec True rest] False dec by simp
    next
      case no_any: False
      consider "support_fallback ts = Some None"
        | pattern where "support_fallback ts = Some (Some pattern)" "st_netpattern_decode_view (np_view pattern) = Inr (map without_parameter ts)"
        using fallback_spelled [OF ne ts(2) S(1,3)] by blast
      then show ?thesis
      proof cases
        case 1
        obtain rules where "support_rules (k + 1) cs = Some rules" "list_all rule_decodes rules"
          using "2.IH"(3) [OF False dec no_any refl 1 refl rest] by blast
        then show ?thesis using False dec no_any 1 r by simp
      next
        case (2 pattern)
        let ?f = "\<lparr>sr_candidate = \<lparr>ca_pattern = pattern, ca_count = 0, ca_confidence = 0, ca_depth = ca_depth c\<rparr>,
          sr_tokens = map without_parameter ts, sr_terminal = 0, sr_scope = 0, sr_original = k, sr_fallback = True\<rparr>"
        have "list_all rule_token (map without_parameter ts)"
          using S(1) without_parameter_facts(1) by (auto simp: list_all_iff)
        then have f: "rule_decodes ?f" using 2 S(2) by (simp add: rule_decodes_def)
        obtain rules where "support_rules (k + 2) cs = Some rules" "list_all rule_decodes rules"
          using "2.IH"(4) [OF False dec no_any refl 2(1) refl 2(2) refl rest] by blast
        then show ?thesis using False dec no_any 2 r f by simp
      qed
    qed
  qed
qed simp

end
