(* ===== verification/Learner_Claims.thy ===== *)
theory Learner_Claims imports Learner_History begin

text \<open>
  The properties of the learner's trie: counts, failures, saving and loading.
\<close>

section \<open>Saving and loading a learner\<close>

lemma noted_forget: "noted f ts \<Longrightarrow> noted (forget f) ts"
  by (auto simp: noted_def forget_def)

lemma children_represent_forget:
  "children_represent cs H \<Longrightarrow> children_represent (map forget_node cs) H"
proof (induction cs H rule: children_represent.induct)
  case (1 cs H)
  have keys: "map node_key (map forget_node cs) = map node_key cs" by simp
  have "noted (nd_fields c) (heads H (node_key c)) \<and> children_represent (nd_children c) (below H (node_key c))"
    if c: "c \<in> set (map forget_node cs)" for c
  proof -
    obtain n where n: "n \<in> set cs" "c = forget_node n" using c by auto
    then show ?thesis
      using children_representD [OF "1.prems" n(1)] "1.IH" [OF n(1)] noted_forget by simp
  qed
  then show ?case
    using "1.prems" unfolding children_represent.simps [of "map forget_node cs"] keys children_represent.simps [of cs]
    by blast
qed

lemma stands_for_forget: "stands_for n H \<Longrightarrow> stands_for (forget_node n) H"
  by (auto simp: stands_for_def represents_def children_represent_forget forget_def node_new_def)

lemma learner_save_when_served:
  assumes st: "learner_trie (ln_root l) (ln_total l)" "nodes_total (nd_children (ln_root l)) < UINT32_MAX"
    and sys: "\<And>c. sys_ok sys c" "sys_random sys = Some random"
    and path: "directory @ destination = file_path" "length file_path < PATH_MAX" "CHR ''/'' \<notin> set destination"
      "directory = [] \<or> last directory = CHR ''/''" "destination \<noteq> []"
    and free: "temp_name random 0 \<noteq> destination" "disk (directory @ temp_name random 0) = None"
    and entry: "disk file_path \<noteq> Some Other_entry"
  shows "fst (st_learner_save sys disk l file_path) = ST_OK"
proof -
  let ?cs = "nd_children (ln_root l)"
  obtain out disk1 where start: "st_atomic_output_begin sys disk file_path = (ST_ATOMIC_OUTPUT_OK, Some out, disk1)"
      "ao_destination out = destination"
    using output_begin_succeeds [OF sys path free entry] .
  obtain y where y: "foldl count_step (0, False) ?cs = (y, \<not> list_all (\<lambda>c. node_total c \<le> UINT32_MAX) ?cs)"
    "list_all (\<lambda>c. node_total c \<le> UINT32_MAX) ?cs \<longrightarrow> y = nodes_total ?cs"
    using count_saved_forest .
  have "list_all (\<lambda>c. node_total c \<le> UINT32_MAX) ?cs"
    using st(2) nodes_total_member [of _ ?cs] by (fastforce simp: list_all_iff)
  then have nodes: "y = nodes_total ?cs" "foldl count_step (0, False) ?cs = (y, False)" using y by simp_all
  obtain f where f: "put_stream sys (learner_header @ CHR 0x0A # total_prefix @ decimal (ln_total l) @
      CHR 0x0A # nodes_prefix @ decimal y @ [CHR 0x0A]) (ao_stream out) = (True, f)"
    using sys by (simp add: put_stream_def)
  define ctx where "ctx = foldl (\<lambda>ctx c. dfs_save_v4 sys 0 1 c ctx)
      \<lparr>lw_stream = f, lw_error = ST_OK, lw_next_id = 1, lw_crc = 0\<rparr> ?cs"
  have "walk_wrote sys (child_rows 0 1 ?cs) \<lparr>lw_stream = f, lw_error = ST_OK, lw_next_id = 1, lw_crc = 0\<rparr> ctx"
    unfolding ctx_def by (rule dfs_save_effect) (use st in \<open>simp_all add: UINT32_MAX_def learner_trie_def\<close>)
  then have ctx: "lw_error ctx = ST_OK" "lw_next_id ctx - 1 = y"
    using sys st(2) nodes(1) by (auto simp: walk_wrote_def)
  obtain g where g: "put_stream sys (learner_crc_prefix @ print_hex8 (lw_crc ctx) @ [CHR 0x0A]) (lw_stream ctx) = (True, g)"
    using sys by (simp add: put_stream_def)
  obtain disk2 where "st_atomic_output_commit sys disk1 (out\<lparr>ao_stream := g\<rparr>) = (True, disk2)"
    using output_commit_succeeds [OF sys(1)] path(5) start(2) by blast
  then show ?thesis
    unfolding st_learner_save_def start(1) prod.case option.case count_step_def [abs_def, symmetric] nodes(2)
    using ctx g nodes(1) st(2) by (simp add: f [unfolded nodes(1)] ctx_def [symmetric] Let_def del: One_nat_def)
qed

lemma history_trie: "learner_history l H \<Longrightarrow> learner_trie (ln_root l) (ln_total l)"
  using history_holds stands_for_trie unfolding learner_holds_def by metis

section \<open>Properties\<close>

text \<open>C29: Every count is a number of commands. In a learner reached by any history of calls, failed
  ones and loads of arbitrary files included, the node that a sequence of token keys leads to (type
  and, for literals, text) counts exactly the commands taken so far that begin with them, and no
  node stands for none.\<close>

theorem learner_counts_commands:
  assumes "learner_history l H"
  shows "count_at (ln_root l) ks = length (filter (\<lambda>h. take (length ks) (map tok_key h) = ks) H) \<and>
    ln_total l = length H"
proof -
  have "learner_holds l H" using history_holds [OF assms] .
  then have R: "represents (ln_root l) H" "ln_total l = length H" by (simp_all add: learner_holds_def stands_for_def)
  then have "nf_count (nd_fields (ln_root l)) = length H" by (simp add: represents_def)
  then show ?thesis
    using count_at_children [of "ln_root l" H ks] R by (simp add: represents_def going_on_def)
qed

text \<open>C30: Well-formedness. In every reachable learner siblings differ in type or text, counts fit in 32
  bits and exceed the sum of the counts below, no path is longer than a command may be, literals are
  shorter than the limit, typed nodes hold their type's symbol and, unless their values are mixed,
  the identifier of a metadata entry of that type, and the configuration is valid.\<close>

theorem learner_well_formed:
  assumes "learner_history l H"
  shows "learner_trie (ln_root l) (ln_total l) \<and> learner_config_valid (ln_config l)"
  using history_trie [OF assms] history_holds [OF assms] by (simp add: learner_holds_def)

text \<open>C31: Feeding a command to a reachable learner either succeeds or leaves every part of the learner as
  it was, wherever in the insertion it fails. It can only fail for invalid tokens, when 2^32 - 1
  commands were taken, or when a request for memory is refused.\<close>

theorem learner_feed_atomic:
  assumes "learner_history l H" "st_learner_feed_tokens serves l typed = (e, l')"
  shows "e = ST_OK \<and> learner_history l' (H @ [the typed]) \<and> learner_tokens_valid typed \<or>
    l' = l \<and> (e = ST_ERR_INVALID \<and> \<not> learner_tokens_valid typed \<or>
      e = ST_ERR_LIMIT \<and> length H = UINT32_MAX \<or> e = ST_ERR_MEMORY \<and> (\<exists>i. \<not> serves i))"
proof (cases "learner_tokens_valid typed")
  case True
  then obtain ts where ts: "typed = Some ts" by (cases typed) (simp_all add: learner_tokens_valid_def)
  have step: "learner_insert_atomic serves l ts = (e, l')"
    using assms(2) True ts by (simp add: st_learner_feed_tokens_def)
  have "learner_history l' (if e = ST_OK then H @ [ts] else H)"
    using fed_tokens [OF assms(1)] assms(2) ts by blast
  then show ?thesis
    using insert_atomic_holds [OF history_holds [OF assms(1)] _ step] True ts by auto
qed (use assms(2) in \<open>simp add: st_learner_feed_tokens_def\<close>)

text \<open>C33: Loading any file is all or nothing. Either it reports an error and the learner is as before, or
  it passed every check and the trie is one that feeding commands could have built; configuration
  and blacklist stay.\<close>

theorem learner_load_atomic:
  assumes "st_learner_load l opened fclosed = (e, l')"
  shows "if e = ST_OK
    then (\<exists>H. stands_for (ln_root l') H \<and> ln_total l' = length H) \<and> ln_config l' = ln_config l \<and> ln_blacklist l' = ln_blacklist l
    else l' = l"
proof (cases "e = ST_OK")
  case True
  then show ?thesis using load_effect_learner [OF assms] trie_stands_for by fastforce
qed (use load_effect_learner [OF assms] in simp)

text \<open>C32: Whatever requests to the system fail, saving a reachable learner leaves at the destination what
  was there or the complete file, the latter whenever it reports success; and loading the complete
  file into any learner succeeds and makes it stand for the commands of the saved one.\<close>

theorem learner_save_then_load:
  assumes "learner_history l H" "st_learner_save sys disk l file_path = (e, disk')"
  shows "e \<noteq> ST_OK \<and> disk' file_path = disk file_path \<or>
    (\<exists>contents mode l2'. disk' file_path = Some (Regular contents mode) \<and>
       st_learner_load l2 (Some \<lparr>st_bytes = contents, st_ferror = False\<rparr>) True = (ST_OK, l2') \<and>
       stands_for (ln_root l2') H \<and> ln_total l2' = ln_total l \<and> (learner_history l2 H2 \<longrightarrow> learner_history l2' H))"
proof -
  have S: "stands_for (ln_root l) H" "ln_total l = length H"
    using history_holds [OF assms(1)] by (simp_all add: learner_holds_def)
  then have T: "learner_trie (ln_root l) (ln_total l)" using stands_for_trie by simp
  then have st: "list_all (storable 1) (nd_children (ln_root l))" by (simp add: learner_trie_def)
  consider "e \<noteq> ST_OK \<and> disk' file_path = disk file_path"
    | (saved) "nodes_total (nd_children (ln_root l)) < UINT32_MAX"
      "disk' file_path = Some (Regular (learner_file (ln_root l) (ln_total l)) (kept_mode disk file_path))"
    using learner_save_effect [OF st assms(2)] by auto
  then show ?thesis
  proof cases
    case saved
    define l2' where "l2' = l2\<lparr>ln_root := forget_node (ln_root l), ln_total := ln_total l\<rparr>"
    have load: "st_learner_load l2 (Some \<lparr>st_bytes = learner_file (ln_root l) (ln_total l), st_ferror = False\<rparr>) True = (ST_OK, l2')"
      using read_learner_file [OF T saved(1)] by (simp add: st_learner_load_def l2'_def)
    have stands: "stands_for (ln_root l2') H" "ln_total l2' = length H"
      using stands_for_forget [OF S(1)] S(2) by (simp_all add: l2'_def)
    then have "learner_history l2 H2 \<longrightarrow> learner_history l2' H"
      using loaded [OF _ load, of H2 H] by auto
    then show ?thesis using saved(2) load stands S(2) by metis
  qed simp
qed

text \<open>Saving a reachable learner of fewer than 2^32 - 1 nodes succeeds when every request to the
  system does and the first candidate for the temporary name is free.\<close>

theorem learner_save_succeeds:
  assumes "learner_history l H" "nodes_total (nd_children (ln_root l)) < UINT32_MAX"
    and "\<And>c. sys_ok sys c" "sys_random sys = Some random"
    and "directory @ destination = file_path" "length file_path < PATH_MAX" "CHR ''/'' \<notin> set destination"
      "directory = [] \<or> last directory = CHR ''/''" "destination \<noteq> []"
    and "temp_name random 0 \<noteq> destination" "disk (directory @ temp_name random 0) = None"
    and "disk file_path \<noteq> Some Other_entry"
  shows "fst (st_learner_save sys disk l file_path) = ST_OK"
proof -
  have "learner_trie (ln_root l) (ln_total l)"
    using history_trie [OF assms(1)] .
  then show ?thesis using learner_save_when_served assms(2-) by blast
qed

section \<open>Witnesses\<close>

definition fresh_learner :: st_learner where
  "fresh_learner = \<lparr>ln_root = node_new [] ST_TYPE_LITERAL, ln_total = 0, ln_config = st_learner_config_default, ln_blacklist = []\<rparr>"

definition list_size :: "st_token list" where
  "list_size = [plain_token ''ls'' ST_TYPE_LITERAL, plain_token ''1K'' ST_TYPE_SIZE]"

definition fed_learner :: st_learner where
  "fed_learner = snd (st_learner_feed_tokens (\<lambda>_. True) fresh_learner (Some list_size))"

lemma fresh_history: "learner_history fresh_learner []"
  by (rule created [of None])
    (simp add: st_learner_new_def fresh_learner_def learner_config_valid_def st_learner_config_default_def)

lemma fed_feed: "st_learner_feed_tokens (\<lambda>_. True) fresh_learner (Some list_size) = (ST_OK, fed_learner)"
proof -
  obtain e l where feed: "st_learner_feed_tokens (\<lambda>_. True) fresh_learner (Some list_size) = (e, l)" by fastforce
  have "learner_tokens_valid (Some list_size)"
    by (simp add: learner_tokens_valid_def list_size_def plain_token_def ST_MAX_CMD_TOKENS_def ST_MAX_TOKEN_LEN_def)
  then have "e = ST_OK"
    using insert_atomic_holds [OF history_holds [OF fresh_history], of list_size "\<lambda>_. True" e l] feed
    by (auto simp: st_learner_feed_tokens_def UINT32_MAX_def)
  then show ?thesis using feed by (simp add: fed_learner_def)
qed

lemma fed_history: "learner_history fed_learner [list_size]"
  using fed_tokens [OF fresh_history fed_feed] by simp

theorem learner_counts_commands_witness:
  "count_at (ln_root fed_learner) [(ST_TYPE_LITERAL, ''ls'')] = 1 \<and> count_at (ln_root fed_learner) [(ST_TYPE_LITERAL, ''cp'')] = 0"
  using learner_counts_commands [OF fed_history, of "[(ST_TYPE_LITERAL, ''ls'')]"]
    learner_counts_commands [OF fed_history, of "[(ST_TYPE_LITERAL, ''cp'')]"]
  by (simp add: list_size_def plain_token_def tok_key_def)

theorem learner_well_formed_witness: "learner_trie (ln_root fed_learner) (ln_total fed_learner)"
  using learner_well_formed [OF fed_history] by simp

theorem learner_feed_atomic_witness: "learner_history fed_learner [list_size]"
  using learner_feed_atomic [OF fresh_history fed_feed] by (simp add: UINT32_MAX_def)

lemma fed_small: "nodes_total (nd_children (ln_root fed_learner)) < UINT32_MAX"
  by (simp add: fed_learner_def st_learner_feed_tokens_def learner_tokens_valid_def list_size_def plain_token_def
      ST_MAX_CMD_TOKENS_def ST_MAX_TOKEN_LEN_def learner_insert_atomic_def fresh_learner_def UINT32_MAX_def
      trie_insert_with_count_def node_new_def count_up_def note_token_def Let_def)

lemma fed_saved: "st_learner_save good_sys Map.empty fed_learner ''counts'' =
   (ST_OK, snd (st_learner_save good_sys Map.empty fed_learner ''counts''))"
proof -
  have "learner_trie (ln_root fed_learner) (ln_total fed_learner)"
    using history_trie [OF fed_history] .
  then have "fst (st_learner_save good_sys Map.empty fed_learner ''counts'') = ST_OK"
    using fed_small
    by (rule learner_save_when_served [of _ good_sys "replicate 192 NUL" "[]" "''counts''"])
      (simp_all add: good_sys_def PATH_MAX_def good_name)
  then show ?thesis by (simp add: prod_eq_iff)
qed

theorem learner_save_then_load_witness:
  "\<exists>contents l'. st_learner_load fresh_learner (Some \<lparr>st_bytes = contents, st_ferror = False\<rparr>) True = (ST_OK, l') \<and>
     learner_history l' [list_size]"
  using learner_save_then_load [OF fed_history fed_saved, of fresh_learner "[]"] fresh_history by blast

theorem learner_load_atomic_witness:
  "snd (st_learner_load fed_learner (Some \<lparr>st_bytes = ''# shelltype-learner v4'', st_ferror = False\<rparr>) True) = fed_learner"
proof -
  let ?s = "\<lparr>st_bytes = ''# shelltype-learner v4'', st_ferror = False\<rparr>"
  obtain e l' where run: "st_learner_load fed_learner (Some ?s) True = (e, l')" by fastforce
  have "st_read_line ?s 128 = (ST_LINE_OK, ''# shelltype-learner v4'', ?s\<lparr>st_bytes := []\<rparr>)"
    by (simp add: st_read_line_def read_line_step read_line_end Let_def)
  then have "e = ST_ERR_FORMAT"
    using run by (auto simp: st_learner_load_def read_learner_def load_checked_line_def line_equals_def learner_header_def)
  then show ?thesis using learner_load_atomic [OF run] run by simp
qed

theorem learner_save_succeeds_witness: "fst (st_learner_save good_sys Map.empty fed_learner ''counts'') = ST_OK"
  using fed_small
  by (rule learner_save_succeeds [OF fed_history, of good_sys "replicate 192 NUL" "[]" "''counts''"])
    (simp_all add: good_sys_def PATH_MAX_def good_name)

end
