(* ===== verification/Suggest_Claims.thy ===== *)
theory Suggest_Claims imports Suggest_Count Suggest_Collect Learner_Claims Decisions begin

text \<open>
  The properties of the learner's suggestions: they never fail but for memory, their counts and
  confidences are numbers of commands, and they are the best ones in order.
\<close>

section \<open>Counting from zero\<close>

definition untouched :: "support_prefix \<Rightarrow> bool" where
  "untouched p \<longleftrightarrow> sx_support p = 0 \<and> sx_scope p = 0 \<and> \<not> sx_support_unknown p \<and> \<not> sx_scope_unknown p"

lemma add_prefix_untouched:
  assumes "list_all untouched (fst acc)" "snd acc ! pos < length (fst acc)"
  shows "list_all untouched (fst (add_prefix ts acc pos))"
  using assms by (auto simp: add_prefix_def Let_def list_all_length nth_append nth_list_update untouched_def adopt_def new_prefix_def)

lemma index_untouched: "list_all untouched (sn_prefixes (support_index_of rules))"
proof -
  have add: "list_all untouched (fst (add_prefix ts acc pos))" if "list_all untouched (fst acc)" for ts acc pos
  proof (cases "snd acc ! pos < length (fst acc)")
    case False
    then show ?thesis using that by (simp add: add_prefix_def Let_def untouched_def new_prefix_def list_update_beyond)
  qed (use add_prefix_untouched that in blast)
  have adds: "list_all untouched (fst (foldl (add_prefix ts) acc ks))" if "list_all untouched (fst acc)" for ts acc ks
    using that by (induction ks arbitrary: acc) (simp_all add: add)
  have place: "list_all untouched (sn_prefixes (place_rule s i))" if "list_all untouched (sn_prefixes s)" for s i
    using adds [of "(sn_prefixes s, sn_path s)"] that by (auto simp: place_rule_def Let_def split: prod.splits) (metis fst_conv)
  have "list_all untouched (sn_prefixes (foldl place_rule s ks))" if "list_all untouched (sn_prefixes s)" for s ks
    using that by (induction ks arbitrary: s) (auto intro: place)
  then show ?thesis by (simp add: support_index_of_def untouched_def empty_prefix_def)
qed

lemma tally_sums:
  "untouched p \<Longrightarrow>
   sx_scope (foldl (\<lambda>p v. support_tally (fst v) (snd v) p) p vs) = (\<Sum>v\<leftarrow>vs. weight False (fst v)) mod 4294967296 \<and>
   sx_support (foldl (\<lambda>p v. support_tally (fst v) (snd v) p) p vs) = (\<Sum>v\<leftarrow>vs. weight True (fst v)) mod 4294967296 \<and>
   (sx_scope_unknown (foldl (\<lambda>p v. support_tally (fst v) (snd v) p) p vs) \<longleftrightarrow> (\<exists>v\<in>set vs. snd v \<and> weight False (fst v) \<noteq> 0)) \<and>
   (sx_support_unknown (foldl (\<lambda>p v. support_tally (fst v) (snd v) p) p vs) \<longleftrightarrow> (\<exists>v\<in>set vs. snd v \<and> weight True (fst v) \<noteq> 0))"
proof (induction vs rule: rev_induct)
  case (snoc v vs)
  then show ?case by (auto simp: support_tally_def u32_add_def weight_def Let_def mod_simps)
qed (simp add: untouched_def)

text \<open>A prefix without doubt has the numbers of the commands that follow it.\<close>

lemma certain_numbers:
  assumes trunk: "stands_for trunk H" "\<forall>h\<in>set H. in_context h" and idx: "indexed ps qs" "list_all untouched ps"
    and j: "j < length ps" "qs ! j = ts" "list_all rule_token ts"
  shows "\<not> sx_scope_unknown (support_walk (support_slots ps) ps trunk 0 False ! j) \<Longrightarrow>
      sx_scope (support_walk (support_slots ps) ps trunk 0 False ! j) = length (filter (taken ts False) H)"
    and "\<not> sx_support_unknown (support_walk (support_slots ps) ps trunk 0 False ! j) \<Longrightarrow>
      sx_support (support_walk (support_slots ps) ps trunk 0 False ! j) = length (filter (taken ts True) H)"
proof -
  let ?vs = "visits ts 0 trunk False"
  have small: "length (filter P H) mod 4294967296 = length (filter P H)" for P
  proof -
    have "length H \<le> 4294967295" using trunk(1) by (simp add: stands_for_def UINT32_MAX_def)
    then have "length (filter P H) < 4294967296" using length_filter_le [of P H] by linarith
    then show ?thesis by simp
  qed
  have th: "through trunk 0 H" using trunk by (simp add: stands_for_def represents_def through_def)
  have none: "\<forall>h\<in>set H. path_accepts (take 0 ts) h" by (simp add: path_accepts_def)
  note exact = visits_exact [OF th j(3) _ none]
  have "untouched (ps ! j)" using idx(2) j(1) by (simp add: list_all_length)
  note S = tally_sums [OF this, of ?vs]
  note R = walk_result [OF idx(1) j(1), of trunk, unfolded j(2)]
  show "sx_scope (support_walk (support_slots ps) ps trunk 0 False ! j) = length (filter (taken ts False) H)"
    if u: "\<not> sx_scope_unknown (support_walk (support_slots ps) ps trunk 0 False ! j)"
  proof -
    have "length (filter (taken ts False) H) = (\<Sum>v\<leftarrow>?vs. weight False (fst v))"
      using u S unfolding R by (intro exact) auto
    then show ?thesis using S small [of "taken ts False"] unfolding R by simp
  qed
  show "sx_support (support_walk (support_slots ps) ps trunk 0 False ! j) = length (filter (taken ts True) H)"
    if u: "\<not> sx_support_unknown (support_walk (support_slots ps) ps trunk 0 False ! j)"
  proof -
    have "length (filter (taken ts True) H) = (\<Sum>v\<leftarrow>?vs. weight True (fst v))"
      using u S unfolding R by (intro exact) auto
    then show ?thesis using S small [of "taken ts True"] unfolding R by simp
  qed
qed

section \<open>What is accounted\<close>

definition counted_in :: "st_token list list \<Rightarrow> st_candidate \<Rightarrow> bool" where
  "counted_in H c \<longleftrightarrow> (\<exists>ts. st_netpattern_decode_view (np_view (ca_pattern c)) = Inr ts \<and> ca_depth c \<le> length ts \<and>
     ca_count c = length (filter (taken ts True) H) \<and>
     0 < length (filter (taken (take (ca_depth c) ts) False) H) \<and>
     ca_confidence c = of_nat (ca_count c) / of_nat (length (filter (taken (take (ca_depth c) ts) False) H)))"

lemma accounted:
  assumes trunk: "stands_for trunk H" "\<forall>h\<in>set H. in_context h" and cs: "spelled ST_MAX_CMD_TOKENS cs"
  shows "\<exists>out. account_candidate_support trunk cs = Some out \<and> (\<forall>c\<in>set out. counted_in H c)"
proof (cases "cs = []")
  case False
  obtain rules where rules: "support_rules 0 cs = Some rules" "list_all rule_decodes rules"
    using rules_decode [OF cs] by blast
  let ?n = "support_index_of rules"
  let ?ps = "sn_prefixes ?n"
  let ?walk = "support_walk (support_slots ?ps) ?ps trunk 0 False"
  obtain qs where qs: "indexed ?ps qs" "length (sn_rules ?n) = length rules"
    "\<And>i. i < length rules \<Longrightarrow> same_rule (rules ! i) (sn_rules ?n ! i) \<and> settled qs (sn_rules ?n ! i)"
    using index_of_rules [OF rules(2)] by blast
  have len: "length qs = length ?ps" using qs(1) by (simp add: indexed_def)
  have "counted_in H c" if c: "c \<in> set (publish_rule ?walk (sn_rules ?n) r)" and r: "r \<in> set (sn_rules ?n)" for c r
  proof -
    obtain i where i: "i < length rules" "r = sn_rules ?n ! i" using r qs(2) by (auto simp: in_set_conv_nth)
    let ?ts = "sr_tokens r" and ?d = "ca_depth (sr_candidate r)"
    have dec: "st_netpattern_decode_view (np_view (ca_pattern (sr_candidate r))) = Inr ?ts" "list_all rule_token ?ts" "?d \<le> length ?ts"
      using rules(2) qs(3) [OF i(1)] i by (simp_all add: list_all_length rule_decodes_def same_rule_def)
    have at: "sr_terminal r < length ?ps" "qs ! sr_terminal r = ?ts" "sr_scope r < length ?ps" "qs ! sr_scope r = take ?d ?ts"
      using qs(3) [OF i(1)] i(2) len by (simp_all add: settled_def)
    have shorter: "list_all rule_token (take ?d ?ts)" using dec(2) by (auto simp: list_all_iff dest: in_set_takeD)
    have pub: "\<not> sx_support_unknown (?walk ! sr_terminal r)" "\<not> sx_scope_unknown (?walk ! sr_scope r)" "sx_scope (?walk ! sr_scope r) \<noteq> 0"
      "c = (sr_candidate r)\<lparr>ca_count := sx_support (?walk ! sr_terminal r),
        ca_confidence := of_nat (sx_support (?walk ! sr_terminal r)) / of_nat (sx_scope (?walk ! sr_scope r))\<rparr>"
      using c by (auto simp: publish_rule_def Let_def split: if_splits)
    have "sx_support (?walk ! sr_terminal r) = length (filter (taken ?ts True) H)"
      by (rule certain_numbers(2) [OF trunk qs(1) index_untouched at(1,2) dec(2) pub(1)])
    moreover have "sx_scope (?walk ! sr_scope r) = length (filter (taken (take ?d ?ts) False) H)"
      by (rule certain_numbers(1) [OF trunk qs(1) index_untouched at(3,4) shorter pub(2)])
    ultimately show ?thesis using dec pub(3,4) by (simp add: counted_in_def)
  qed
  then show ?thesis using False rules(1) by (auto simp: account_candidate_support_def Let_def)
qed (simp add: account_candidate_support_def)

section \<open>Ranking\<close>

definition readable :: "st_candidate \<Rightarrow> bool" where
  "readable c \<longleftrightarrow> (\<exists>ts. st_netpattern_decode_view (np_view (ca_pattern c)) = Inr ts)"

definition pattern_order :: "st_candidate \<Rightarrow> st_candidate \<Rightarrow> int" where
  "pattern_order a b = st_netpattern_compare_view (np_view (ca_pattern a)) (np_view (ca_pattern b))"

lemma readable_order:
  assumes "readable a" "readable b"
  shows "pattern_order b a = - pattern_order a b" "pattern_order a b = 0 \<longleftrightarrow> ca_pattern a = ca_pattern b"
proof -
  obtain ts us where d: "st_netpattern_decode_view (np_view (ca_pattern a)) = Inr ts" "st_netpattern_decode_view (np_view (ca_pattern b)) = Inr us"
    using assms unfolding readable_def by blast
  note keys = compare_view_canonical [OF d] compare_view_canonical [OF d(2,1)]
  show "pattern_order b a = - pattern_order a b" unfolding pattern_order_def keys by (rule compare_keys_antisym)
  have wf: "list_all wf_token ts" "list_all wf_token us" "ca_pattern a = concat (map record_of ts)" "ca_pattern b = concat (map record_of us)"
    using d unfolding decode_view_Inr_iff by blast+
  have "ca_pattern a = ca_pattern b \<longleftrightarrow> ts = us" using wf(3,4) d by (metis sum.inject(2))
  then show "pattern_order a b = 0 \<longleftrightarrow> ca_pattern a = ca_pattern b"
    unfolding pattern_order_def keys compare_keys_zero using map_token_key_inject [OF wf(1,2)] by simp
qed

lemma readable_order_trans:
  "readable a \<Longrightarrow> readable b \<Longrightarrow> readable c \<Longrightarrow> pattern_order a b \<le> 0 \<Longrightarrow> pattern_order b c \<le> 0 \<Longrightarrow> pattern_order a c \<le> 0"
  unfolding readable_def pattern_order_def by (auto simp: compare_view_canonical intro: compare_keys_le_trans)

lemma compare_candidates_cases:
  "compare_candidates a b \<le> 0 \<longleftrightarrow> ca_confidence a > ca_confidence b \<or>
     ca_confidence a = ca_confidence b \<and> (ca_count a > ca_count b \<or> ca_count a = ca_count b \<and> pattern_order a b \<le> 0)"
  by (auto simp: compare_candidates_def pattern_order_def)

interpretation rank: comparator compare_candidates readable
proof
  fix a b c
  show "compare_candidates a b \<le> 0 \<or> compare_candidates b a \<le> 0" if "readable a" "readable b"
    using readable_order(1) [OF that] unfolding compare_candidates_cases by linarith
  show "compare_candidates a c \<le> 0"
    if "readable a" "readable b" "readable c" "compare_candidates a b \<le> 0" "compare_candidates b c \<le> 0"
    using that(4,5) readable_order_trans [OF that(1-3)] unfolding compare_candidates_cases by auto
qed

lemma compare_patterns_cases:
  "compare_candidate_patterns a b \<le> 0 \<longleftrightarrow> pattern_order a b < 0 \<or> pattern_order a b = 0 \<and> compare_candidates a b \<le> 0"
  by (auto simp: compare_candidate_patterns_def pattern_order_def Let_def)

interpretation pattern_rank: comparator compare_candidate_patterns readable
proof
  fix a b c
  show "compare_candidate_patterns a b \<le> 0 \<or> compare_candidate_patterns b a \<le> 0" if "readable a" "readable b"
    using readable_order(1) [OF that] rank.total_order [OF that] unfolding compare_patterns_cases by linarith
  show "compare_candidate_patterns a c \<le> 0"
    if R: "readable a" "readable b" "readable c" and le: "compare_candidate_patterns a b \<le> 0" "compare_candidate_patterns b c \<le> 0"
  proof (cases "pattern_order a c < 0")
    case False
    have "pattern_order a b \<le> 0" "pattern_order b c \<le> 0" using le unfolding compare_patterns_cases by linarith+
    then have "pattern_order a c = 0" using False readable_order_trans [OF R] by linarith
    then have eq: "ca_pattern a = ca_pattern c" using readable_order(2) [OF R(1,3)] by simp
    then have "pattern_order b c = - pattern_order a b" using readable_order(1) [OF R(1,2)] by (simp add: pattern_order_def)
    then have "pattern_order a b = 0" "pattern_order b c = 0" using \<open>pattern_order a b \<le> 0\<close> \<open>pattern_order b c \<le> 0\<close> by linarith+
    then show ?thesis
      using le rank.transitive [OF R] \<open>pattern_order a c = 0\<close> unfolding compare_patterns_cases by auto
  qed (simp add: compare_patterns_cases)
qed

text \<open>Deduplication keeps the best candidate of every pattern.\<close>

definition best_of :: "st_candidate list \<Rightarrow> st_candidate list \<Rightarrow> bool" where
  "best_of cs ds \<longleftrightarrow> set ds \<subseteq> set cs \<and> distinct (map ca_pattern ds) \<and>
     (\<forall>c\<in>set cs. \<exists>d\<in>set ds. ca_pattern d = ca_pattern c \<and> compare_candidates d c \<le> 0)"

lemma deduplicate_after_best:
  "sorted_wrt (\<lambda>a b. compare_candidate_patterns a b \<le> 0) (c # cs) \<Longrightarrow> \<forall>x\<in>set (c # cs). readable x \<Longrightarrow>
   best_of (c # cs) (c # deduplicate_after c cs)"
proof (induction c cs rule: deduplicate_after.induct)
  case (1 kept)
  have "pattern_order kept kept = 0" using readable_order(2) [of kept kept] "1.prems" by simp
  then show ?case using compare_candidates_cases [of kept kept] by (simp add: best_of_def)
next
  case (2 kept c cs)
  have R: "readable kept" "readable c" "\<forall>x\<in>set cs. readable x" using "2.prems" by simp_all
  have le: "compare_candidate_patterns kept c \<le> 0" using "2.prems"(1) by simp
  show ?case
  proof (cases "pattern_order c kept = 0")
    case True
    then have eq: "ca_pattern kept = ca_pattern c" using readable_order(2) [OF R(2,1)] by simp
    have "pattern_order kept c = 0" using True readable_order(1) [OF R(2,1)] by simp
    then have better: "compare_candidates kept c \<le> 0" using le by (simp add: compare_patterns_cases)
    have IH: "best_of (kept # cs) (kept # deduplicate_after kept cs)"
      using "2.IH"(2) True "2.prems" by (simp add: pattern_order_def)
    then show ?thesis
      using True eq better by (auto simp: best_of_def pattern_order_def)
  next
    case False
    then have IH: "best_of (c # cs) (c # deduplicate_after c cs)"
      using "2.IH"(1) "2.prems" by (simp add: pattern_order_def)
    have "pattern_order kept kept = 0" using readable_order(2) [OF R(1,1)] by simp
    then have self: "compare_candidates kept kept \<le> 0" by (simp add: compare_candidates_cases)
    have "ca_pattern x \<noteq> ca_pattern kept" if x: "x \<in> set (c # cs)" for x
    proof
      assume eq: "ca_pattern x = ca_pattern kept"
      have "readable x" "compare_candidate_patterns c x \<le> 0 \<or> x = c" using x "2.prems" by auto
      then have "pattern_order c x \<le> 0" using readable_order(2) [OF R(2,2)] by (auto simp: compare_patterns_cases)
      then have "pattern_order c kept \<le> 0" using eq by (simp add: pattern_order_def)
      moreover have "pattern_order kept c \<le> 0" using le unfolding compare_patterns_cases by linarith
      ultimately show False using False readable_order(1) [OF R(2,1)] by linarith
    qed
    then have "ca_pattern kept \<notin> ca_pattern ` set (c # deduplicate_after c cs)"
      using IH unfolding best_of_def by (metis image_iff subsetD)
    then show ?thesis
      using IH False self unfolding best_of_def by (auto simp: pattern_order_def)
  qed
qed

lemma deduplicate_best:
  assumes "\<forall>c\<in>set cs. readable c"
  shows "best_of cs (deduplicate (qsort_by compare_candidate_patterns cs))"
proof -
  have sorted: "sorted_wrt (\<lambda>a b. compare_candidate_patterns a b \<le> 0) (qsort_by compare_candidate_patterns cs)"
    by (rule pattern_rank.qsort_sorted [OF assms])
  have "best_of (qsort_by compare_candidate_patterns cs) (deduplicate (qsort_by compare_candidate_patterns cs))"
  proof (cases "qsort_by compare_candidate_patterns cs")
    case Nil
    then show ?thesis by (simp add: deduplicate_def best_of_def)
  next
    case (Cons d ds)
    have "\<forall>x\<in>set (d # ds). readable x" using assms Cons by (metis qsort_by_facts(1))
    then show ?thesis using deduplicate_after_best [of d ds] sorted by (simp add: Cons deduplicate_def)
  qed
  then show ?thesis by (simp add: best_of_def)
qed

section \<open>A learner's suggestions\<close>

lemma rules_candidates:
  assumes "list_all rule_decodes rules" "r \<in> set (sn_rules (support_index_of rules))"
  shows "readable (sr_candidate r)"
proof -
  obtain qs where qs: "length (sn_rules (support_index_of rules)) = length rules"
    "\<And>i. i < length rules \<Longrightarrow> same_rule (rules ! i) (sn_rules (support_index_of rules) ! i) \<and> settled qs (sn_rules (support_index_of rules) ! i)"
    using index_of_rules [OF assms(1)] by blast
  then obtain i where i: "i < length rules" "r = sn_rules (support_index_of rules) ! i" using assms(2) by (auto simp: in_set_conv_nth)
  then have "same_rule (rules ! i) r" "rule_decodes (rules ! i)" using qs(2) assms(1) by (auto simp: list_all_length)
  then show ?thesis by (auto simp: readable_def same_rule_def rule_decodes_def)
qed

lemma account_readable:
  assumes "spelled ST_MAX_CMD_TOKENS cs"
  shows "\<exists>out. account_candidate_support trunk cs = Some out \<and> (\<forall>c\<in>set out. readable c)"
proof (cases "cs = []")
  case False
  obtain rules where rules: "support_rules 0 cs = Some rules" "list_all rule_decodes rules"
    using rules_decode [OF assms] by blast
  have "readable c" if "c \<in> set (publish_rule ps (sn_rules (support_index_of rules)) r)" "r \<in> set (sn_rules (support_index_of rules))" for c r ps
    using that rules_candidates [OF rules(2) that(2)] by (auto simp: publish_rule_def Let_def readable_def split: if_splits)
  then show ?thesis using False rules(1) by (auto simp: account_candidate_support_def Let_def)
qed (simp add: account_candidate_support_def)

lemma learner_proposals:
  assumes "learner_history l H"
  obtains proposals where "collect_complete_continuations (ln_root l) True = Some proposals" "spelled ST_MAX_CMD_TOKENS proposals"
proof -
  obtain f cs where root: "ln_root l = Node f cs" by (cases "ln_root l")
  have "list_all (storable (0 + 1)) cs" using history_trie [OF assms] root by (simp add: learner_trie_def)
  from collect_spelled [OF this, of f True] that show ?thesis by (auto simp: root)
qed

text \<open>What a suggestion must meet to be made.\<close>

definition publishable :: "st_learner \<Rightarrow> st_learner_suggestion \<Rightarrow> bool" where
  "publishable l s \<longleftrightarrow> cf_min_support (ln_config l) \<le> lg_count s \<and> cf_min_confidence (ln_config l) \<le> lg_confidence s \<and>
     \<not> st_learner_is_netpattern_blacklisted l (np_view (lg_pattern s))"

definition published :: "st_candidate \<Rightarrow> st_learner_suggestion" where
  "published c = \<lparr>lg_pattern = ca_pattern c, lg_count = ca_count c, lg_confidence = ca_confidence c\<rparr>"

text \<open>More confidence, then more support, then the smaller pattern.\<close>

definition ranks :: "st_learner_suggestion \<Rightarrow> st_learner_suggestion \<Rightarrow> bool" where
  "ranks a b \<longleftrightarrow> lg_confidence a > lg_confidence b \<or> lg_confidence a = lg_confidence b \<and> (lg_count a > lg_count b \<or>
     lg_count a = lg_count b \<and> st_netpattern_compare_view (np_view (lg_pattern a)) (np_view (lg_pattern b)) \<le> 0)"

lemma ranks_published: "ranks (published a) (published b) \<longleftrightarrow> compare_candidates a b \<le> 0"
  by (auto simp: ranks_def published_def compare_candidates_cases pattern_order_def)

lemma learner_collects:
  assumes "learner_history l H"
  obtains cs where "collect_suggestions l = Some cs" "\<forall>c\<in>set cs. readable c \<and> publishable l (published c)"
proof -
  obtain proposals where P: "collect_complete_continuations (ln_root l) True = Some proposals" "spelled ST_MAX_CMD_TOKENS proposals"
    using learner_proposals [OF assms] .
  obtain out where "account_candidate_support (ln_root l) proposals = Some out" "\<forall>c\<in>set out. readable c"
    using account_readable [OF P(2)] by blast
  then show ?thesis
    using P(1) that by (simp add: collect_suggestions_def publishable_def published_def not_less)
qed

text \<open>What is suggested of the collected candidates.\<close>

definition shortlist :: "nat \<Rightarrow> st_candidate list \<Rightarrow> st_candidate list" where
  "shortlist n cs = take n (qsort_by compare_candidates (deduplicate (qsort_by compare_candidate_patterns cs)))"

lemma suggest_shortlist:
  "collect_suggestions l = Some cs \<Longrightarrow> st_learner_suggest l = map published (shortlist (cf_max_suggestions (ln_config l)) cs)"
  by (simp add: st_learner_suggest_def shortlist_def published_def)

lemma shortlist_best:
  assumes R: "\<forall>c\<in>set cs. readable c"
  shows "set (shortlist n cs) \<subseteq> set cs" "length (shortlist n cs) \<le> n" "distinct (map ca_pattern (shortlist n cs))"
    "sorted_wrt (\<lambda>a b. compare_candidates a b \<le> 0) (shortlist n cs)"
    "c \<in> set cs \<Longrightarrow> (\<exists>d\<in>set (shortlist n cs). ca_pattern d = ca_pattern c \<and> compare_candidates d c \<le> 0) \<or>
       length (shortlist n cs) = n \<and> (\<forall>d\<in>set (shortlist n cs). compare_candidates d c \<le> 0)"
proof -
  define ds where "ds = deduplicate (qsort_by compare_candidate_patterns cs)"
  define es where "es = qsort_by compare_candidates ds"
  have sl: "shortlist n cs = take n es" by (simp add: shortlist_def es_def ds_def)
  have best: "best_of cs ds" unfolding ds_def by (rule deduplicate_best [OF R])
  then have ds: "set ds \<subseteq> set cs" "distinct (map ca_pattern ds)" by (simp_all add: best_of_def)
  have set_es: "set es = set ds" by (simp add: es_def)
  have inj: "inj_on ca_pattern (set es)" "distinct es"
    using ds(2) by (simp_all add: set_es distinct_map) (simp add: es_def)
  have sorted: "sorted_wrt (\<lambda>a b. compare_candidates a b \<le> 0) es"
    unfolding es_def using R ds(1) by (intro rank.qsort_sorted) auto
  show "set (shortlist n cs) \<subseteq> set cs" using ds(1) set_es unfolding sl by (metis set_take_subset subset_trans)
  show "length (shortlist n cs) \<le> n" by (simp add: sl)
  show "distinct (map ca_pattern (shortlist n cs))"
    using inj unfolding sl by (auto simp: distinct_map intro: inj_on_subset dest: in_set_takeD)
  show "sorted_wrt (\<lambda>a b. compare_candidates a b \<le> 0) (shortlist n cs)"
    using sorted unfolding sl by (rule sorted_wrt_take)
  show "(\<exists>d\<in>set (shortlist n cs). ca_pattern d = ca_pattern c \<and> compare_candidates d c \<le> 0) \<or>
      length (shortlist n cs) = n \<and> (\<forall>d\<in>set (shortlist n cs). compare_candidates d c \<le> 0)" if c: "c \<in> set cs"
  proof -
    obtain d where d: "d \<in> set es" "ca_pattern d = ca_pattern c" "compare_candidates d c \<le> 0"
      using best c set_es unfolding best_of_def by metis
    show ?thesis
    proof (cases "d \<in> set (take n es)")
      case True
      then show ?thesis using d(2,3) unfolding sl by blast
    next
      case False
      then have drop: "d \<in> set (drop n es)" using d(1) by (metis Un_iff append_take_drop_id set_append)
      have "sorted_wrt (\<lambda>a b. compare_candidates a b \<le> 0) (take n es @ drop n es)" using sorted by simp
      then have "compare_candidates x d \<le> 0" if "x \<in> set (take n es)" for x
        using that drop unfolding sorted_wrt_append by blast
      moreover have "readable x" if "x \<in> set es" for x using that R ds(1) set_es by auto
      ultimately have "compare_candidates x c \<le> 0" if "x \<in> set (take n es)" for x
        using rank.transitive [of x d c] that d R c by (meson in_set_takeD)
      moreover have "n \<le> length es" using drop by (metis drop_all empty_iff linorder_linear list.set(1))
      ultimately show ?thesis unfolding sl by simp
    qed
  qed
qed

section \<open>Properties\<close>

lemma taken_argv: "taken ts True (classify_argv args) \<longleftrightarrow> pattern_accepts ts args"
  by (auto simp: taken_def pattern_accepts_path classify_argv_def)

lemma suggested_counted:
  assumes hist: "learner_history l (map classify_argv argvs)" and s: "s \<in> set (st_learner_suggest l)"
  shows "\<exists>c. s = published c \<and> counted_in (map classify_argv argvs) c"
proof -
  obtain proposals where P: "collect_complete_continuations (ln_root l) True = Some proposals" "spelled ST_MAX_CMD_TOKENS proposals"
    using learner_proposals [OF hist] .
  have "stands_for (ln_root l) (map classify_argv argvs)" using history_holds [OF hist] by (simp add: learner_holds_def)
  then obtain out where out: "account_candidate_support (ln_root l) proposals = Some out" "\<forall>c\<in>set out. counted_in (map classify_argv argvs) c"
    using accounted [OF _ _ P(2)] classified_in_context by fastforce
  obtain cs where cs: "collect_suggestions l = Some cs" "\<forall>c\<in>set cs. readable c \<and> publishable l (published c)"
    using learner_collects [OF hist] .
  have "set cs \<subseteq> set out" using cs(1) P(1) out(1) by (auto simp: collect_suggestions_def)
  moreover have "set (shortlist (cf_max_suggestions (ln_config l)) cs) \<subseteq> set cs" using cs(2) by (intro shortlist_best(1)) simp
  ultimately show ?thesis using s out(2) unfolding suggest_shortlist [OF cs(1)] by auto
qed

text \<open>C34: The numbers of a suggestion are true. When a reachable learner took the classified commands of
  a list, every suggestion decodes to a pattern, its count is the number of those commands that the
  policy engine's matching says the pattern accepts, and its confidence is the share of that count among the commands
  whose beginning the first tokens of the pattern, up to some depth, accept.\<close>

theorem learner_suggestions_counted:
  assumes "learner_history l (map classify_argv argvs)" and "s \<in> set (st_learner_suggest l)"
  shows "\<exists>ts depth. st_netpattern_decode_view (np_view (lg_pattern s)) = Inr ts \<and> depth \<le> length ts \<and>
    lg_count s = length (filter (pattern_accepts ts) argvs) \<and>
    0 < length (filter (\<lambda>args. path_accepts (take depth ts) (classify_argv args)) argvs) \<and>
    lg_confidence s = of_nat (lg_count s) /
      of_nat (length (filter (\<lambda>args. path_accepts (take depth ts) (classify_argv args)) argvs))"
proof -
  obtain c where c: "s = published c" "counted_in (map classify_argv argvs) c" using suggested_counted [OF assms] by blast
  have count: "length (filter (taken ts e) (map classify_argv argvs)) = length (filter (\<lambda>a. taken ts e (classify_argv a)) argvs)" for ts e
    by (simp add: filter_map o_def)
  have open_scope: "(\<lambda>a. taken ts False (classify_argv a)) = (\<lambda>a. path_accepts ts (classify_argv a))" for ts
    by (simp add: taken_def)
  show ?thesis using c unfolding counted_in_def count taken_argv open_scope by (auto simp: published_def)
qed

text \<open>C35: Suggestions are the best of what qualifies, in order. Those of a reachable learner are not more
  than configured, have different patterns, reach the configured support and confidence, are not
  blacklisted, and come by falling confidence, then falling count, then growing pattern; and every
  collected candidate either has its pattern among them, with a rank at least as good, or the list
  is full of suggestions that rank at least as high.\<close>

theorem learner_suggestions_ranked:
  assumes "learner_history l H"
  shows "\<exists>cs. collect_suggestions l = Some cs \<and>
    set (st_learner_suggest l) \<subseteq> published ` set cs \<and>
    length (st_learner_suggest l) \<le> cf_max_suggestions (ln_config l) \<and>
    distinct (map lg_pattern (st_learner_suggest l)) \<and> sorted_wrt ranks (st_learner_suggest l) \<and>
    (\<forall>s\<in>set (st_learner_suggest l). publishable l s) \<and>
    (\<forall>c\<in>set cs. (\<exists>s\<in>set (st_learner_suggest l). lg_pattern s = ca_pattern c \<and> ranks s (published c)) \<or>
       length (st_learner_suggest l) = cf_max_suggestions (ln_config l) \<and>
       (\<forall>s\<in>set (st_learner_suggest l). ranks s (published c)))"
proof -
  obtain cs where cs: "collect_suggestions l = Some cs" "\<forall>c\<in>set cs. readable c \<and> publishable l (published c)"
    using learner_collects [OF assms] .
  then have R: "\<forall>c\<in>set cs. readable c" by simp
  note best = shortlist_best [OF R, where n = "cf_max_suggestions (ln_config l)"]
  have pats: "map lg_pattern (map published ds) = map ca_pattern ds" for ds by (simp add: published_def)
  have pat: "lg_pattern (published c) = ca_pattern c" for c by (simp add: published_def)
  have order: "sorted_wrt ranks (map published ds) \<longleftrightarrow> sorted_wrt (\<lambda>a b. compare_candidates a b \<le> 0) ds" for ds
    by (simp add: sorted_wrt_map ranks_published)
  let ?S = "shortlist (cf_max_suggestions (ln_config l)) cs"
  have members: "set (map published ?S) \<subseteq> published ` set cs" "\<forall>s\<in>set (map published ?S). publishable l s"
    using best(1) cs(2) by auto
  have covered: "(\<exists>s\<in>set (map published ?S). lg_pattern s = ca_pattern c \<and> ranks s (published c)) \<or>
      length (map published ?S) = cf_max_suggestions (ln_config l) \<and> (\<forall>s\<in>set (map published ?S). ranks s (published c))"
    if "c \<in> set cs" for c
    using best(5) [OF that] by (simp add: ranks_published pat)
  show ?thesis
    unfolding suggest_shortlist [OF cs(1)] pats order
    using cs(1) best(2-4) members covered by (intro exI [of _ cs]) auto
qed

text \<open>C36: Collecting never fails. On every reachable learner, whatever it took and loaded, the steps that can
  report a failure other than of memory (encoding a proposal, decoding it, encoding and decoding its
  fallback) all succeed; and no suggestion comes back only when none was collected or none is
  configured.\<close>

theorem learner_suggest_never_fails:
  assumes "learner_history l H"
  shows "collect_suggestions l \<noteq> None \<and>
    (st_learner_suggest l = [] \<longleftrightarrow> collect_suggestions l = Some [] \<or> cf_max_suggestions (ln_config l) = 0)"
proof -
  obtain cs where cs: "collect_suggestions l = Some cs" "\<forall>c\<in>set cs. readable c \<and> publishable l (published c)"
    using learner_collects [OF assms] .
  then have R: "\<forall>c\<in>set cs. readable c" by simp
  note best = shortlist_best [OF R, where n = "cf_max_suggestions (ln_config l)"]
  have "shortlist (cf_max_suggestions (ln_config l)) cs = [] \<longleftrightarrow> cs = [] \<or> cf_max_suggestions (ln_config l) = 0"
  proof
    assume empty: "shortlist (cf_max_suggestions (ln_config l)) cs = []"
    show "cs = [] \<or> cf_max_suggestions (ln_config l) = 0"
    proof (cases cs)
      case (Cons c ds)
      then show ?thesis using best(5) [where c = c] empty by auto
    qed simp
  qed (auto simp: shortlist_def deduplicate_def)
  then show ?thesis using cs(1) suggest_shortlist [OF cs(1)] by simp
qed

section \<open>Witnesses\<close>

definition eager_learner :: st_learner where
  "eager_learner = fresh_learner\<lparr>ln_config := \<lparr>cf_min_support = 1, cf_min_confidence = 0, cf_max_suggestions = 3\<rparr>\<rparr>"

definition ls_learner :: st_learner where
  "ls_learner = snd (st_learner_feed_tokens (\<lambda>_. True) eager_learner (Some ls_pattern))"

definition ls_suggestion :: st_learner_suggestion where
  "ls_suggestion = \<lparr>lg_pattern = pattern_code ls_pattern, lg_count = 1, lg_confidence = 1\<rparr>"

lemmas learner_eval = eager_learner_def st_learner_feed_tokens_def learner_tokens_valid_def ls_pattern_def plain_token_def
  ST_MAX_CMD_TOKENS_def ST_MAX_TOKEN_LEN_def learner_insert_atomic_def fresh_learner_def UINT32_MAX_def
  trie_insert_with_count_def node_new_def count_up_def note_token_def

lemma eager_history: "learner_history eager_learner []"
  by (rule created [of "Some \<lparr>cf_min_support = 1, cf_min_confidence = 0, cf_max_suggestions = 3\<rparr>"])
    (simp add: st_learner_new_def eager_learner_def fresh_learner_def learner_config_valid_def)

lemma ls_fed:
  "st_learner_feed_tokens (\<lambda>_. True) eager_learner (Some ls_pattern) = (ST_OK, ls_learner)"
  "\<exists>f g. ln_root ls_learner = Node f [Node g []] \<and> nf_count f = 1 \<and> nf_count g = 1 \<and> nf_token g = ''ls'' \<and> nf_type g = ST_TYPE_LITERAL"
  "ln_config ls_learner = ln_config eager_learner" "ln_blacklist ls_learner = []"
  by (simp_all add: ls_learner_def learner_eval Let_def)

lemma ls_history: "learner_history ls_learner [classify_argv [''ls'']]"
  using fed_tokens [OF eager_history ls_fed(1)] by (simp add: ls_class)

lemma ls_decodes: "st_netpattern_decode_view (np_view (pattern_code ls_pattern)) = Inr ls_pattern" "pattern_code ls_pattern \<noteq> []"
   "pattern_code ls_pattern = record_of (plain_token ''ls'' ST_TYPE_LITERAL)"
  using ls_pattern_ok by (auto simp: pattern_ok_def pattern_code_def decode_view_Inr_iff ls_pattern_def record_of_def tagged_enc_def)

lemma ls_encodes: "st_netpattern_encode_owned (Some
       [\<lparr>arg_text = Some ''ls'', arg_text_length = Suc (Suc 0), arg_type = ST_TYPE_LITERAL, arg_compound = False,
        arg_prefix = None, arg_prefix_length = 0, arg_capture = None, arg_capture_length = 0,
        arg_suffix = None, arg_suffix_length = 0, arg_capture_type = ST_TYPE_LITERAL\<rparr>]) = Inr (pattern_code ls_pattern)"
proof -
  have wf: "wf_token (plain_token ''ls'' ST_TYPE_LITERAL)"
    using ls_pattern_ok by (simp add: pattern_ok_def ls_pattern_def)
  have "encode_token \<lparr>arg_text = Some ''ls'', arg_text_length = Suc (Suc 0), arg_type = ST_TYPE_LITERAL, arg_compound = False,
        arg_prefix = None, arg_prefix_length = 0, arg_capture = None, arg_capture_length = 0,
        arg_suffix = None, arg_suffix_length = 0, arg_capture_type = ST_TYPE_LITERAL\<rparr> =
      encode_token (token_arg (plain_token ''ls'' ST_TYPE_LITERAL))"
    by (simp add: encode_token_def token_arg_def plain_token_def Let_def split: option.splits prod.splits)
  then show ?thesis unfolding ls_decodes(3) using encode_token_wf [OF wf] by (intro encode_one [OF _ wf]) simp
qed

lemma ls_collects:
  assumes "ln_root l = Node f [Node g []]" "nf_count f = 1" "nf_count g = 1" "nf_token g = ''ls''" "nf_type g = ST_TYPE_LITERAL"
  shows "collect_complete_continuations (ln_root l) True = Some [\<lparr>ca_pattern = pattern_code ls_pattern, ca_count = 1, ca_confidence = 1, ca_depth = 0\<rparr>]"
proof -
  have len: "length (pattern_code ls_pattern) < ST_MAX_NETPATTERN_LEN" using ls_pattern_ok by (simp add: pattern_ok_def)
  show ?thesis
  using assms len ls_encodes by (simp add: node_terminal_count_def append_group_def is_literal_branch_def group_total_def append_prefixed_def
    append_encoded_def append_typed_def dominant_branch_def local_share_def Let_def ST_MAX_NETPATTERN_LEN_def)
qed

lemma ls_accounts:
  assumes "ln_root l = Node f [Node g []]" "nf_count f = 1" "nf_count g = 1" "nf_token g = ''ls''" "nf_type g = ST_TYPE_LITERAL"
  shows "account_candidate_support (ln_root l) [\<lparr>ca_pattern = pattern_code ls_pattern, ca_count = 1, ca_confidence = 1, ca_depth = 0\<rparr>] = 
    Some [\<lparr>ca_pattern = pattern_code ls_pattern, ca_count = 1, ca_confidence = 1, ca_depth = 0\<rparr>]"
proof -
  let ?r = "\<lparr>sr_candidate = \<lparr>ca_pattern = pattern_code ls_pattern, ca_count = 1, ca_confidence = 1, ca_depth = 0\<rparr>, sr_tokens = ls_pattern,
    sr_terminal = 0, sr_scope = 0, sr_original = 0, sr_fallback = False\<rparr>"
  have rules: "support_rules 0 [\<lparr>ca_pattern = pattern_code ls_pattern, ca_count = 1, ca_confidence = 1, ca_depth = 0\<rparr>] = Some [?r]"
    using ls_decodes(1,2) by (simp add: support_fallback_def support_parameterized_def ls_pattern_def plain_token_def)
  have idx: "sn_rules (support_index_of [?r]) = [?r\<lparr>sr_terminal := 1\<rparr>]"
    "sn_prefixes (support_index_of [?r]) = [empty_prefix\<lparr>sx_literal_count := 1, sx_child_count := 1\<rparr>, new_prefix ls_pattern 0 0]"
    by (simp_all add: support_index_of_def place_rule_def ls_pattern_def plain_token_def add_prefix_def adopt_def Let_def
      is_literal_token_def empty_prefix_def ST_MAX_CMD_TOKENS_def numeral_eq_Suc)
  let ?ps = "[empty_prefix\<lparr>sx_literal_count := 1, sx_child_count := 1\<rparr>, new_prefix ls_pattern 0 0]"
  have new: "sx_token (new_prefix ls_pattern 0 0) = Some (plain_token ''ls'' ST_TYPE_LITERAL)" "sx_parent (new_prefix ls_pattern 0 0) = 0"
    "untouched (new_prefix ls_pattern 0 0)" "untouched (empty_prefix\<lparr>sx_literal_count := 1, sx_child_count := 1\<rparr>)"
    by (simp_all add: new_prefix_def ls_pattern_def Let_def untouched_def empty_prefix_def)
  have slots: "support_slots ?ps 0 = [1]" using new by (simp add: support_slots_def is_literal_token_def plain_token_def)
  have walk: "support_walk (support_slots ?ps) ?ps (ln_root l) 0 False =
     [support_tally (ln_root l) False (?ps ! 0), support_tally (Node g []) False (?ps ! 1)]"
    using assms new slots by (simp add: support_steps_def Let_def support_literal_child.simps [of _ _ _ 0 "Suc 0"] plain_token_def
     support_onward_def support_tally_def empty_prefix_def)
  show ?thesis
    unfolding account_candidate_support_def rules option.case Let_def idx walk
    using assms new by (simp add: publish_rule_def support_tally_def node_terminal_count_def untouched_def u32_add_def Let_def)
qed

lemma ls_suggested: "st_learner_suggest ls_learner = [ls_suggestion]"
proof -
  obtain f g where n: "ln_root ls_learner = Node f [Node g []]" "nf_count f = 1" "nf_count g = 1" "nf_token g = ''ls''" "nf_type g = ST_TYPE_LITERAL"
    using ls_fed(2) by blast
  have b: "\<not> st_learner_is_netpattern_blacklisted ls_learner (np_view (pattern_code ls_pattern))"
    using ls_fed(4) unfolding st_learner_is_netpattern_blacklisted_def by (auto split: option.splits)
  show ?thesis
    using b ls_fed(3) by (simp add: st_learner_suggest_def collect_suggestions_def ls_collects [OF n, simplified] ls_accounts [OF n, simplified] eager_learner_def
      deduplicate_def ls_suggestion_def)
qed

theorem learner_suggestions_counted_witness:
  "\<exists>ts depth. st_netpattern_decode_view (np_view (lg_pattern ls_suggestion)) = Inr ts \<and> depth \<le> length ts \<and>
    lg_count ls_suggestion = length (filter (pattern_accepts ts) [[''ls'']]) \<and> lg_count ls_suggestion = 1"
proof -
  have history: "learner_history ls_learner (map classify_argv [[''ls'']])" using ls_history by simp
  have suggested: "ls_suggestion \<in> set (st_learner_suggest ls_learner)" by (simp add: ls_suggested)
  have one: "lg_count ls_suggestion = 1" by (simp add: ls_suggestion_def)
  show ?thesis using learner_suggestions_counted [OF history suggested] one by blast
qed

theorem learner_suggestions_ranked_witness:
  "length (st_learner_suggest ls_learner) = 1 \<and> length (st_learner_suggest ls_learner) \<le> 3 \<and>
    list_all (publishable ls_learner) (st_learner_suggest ls_learner)"
  using learner_suggestions_ranked [OF ls_history] ls_suggested ls_fed(3) by (auto simp: eager_learner_def)

theorem learner_suggest_never_fails_witness: "collect_suggestions ls_learner \<noteq> None \<and> collect_suggestions ls_learner \<noteq> Some []"
  using learner_suggest_never_fails [OF ls_history] ls_suggested by auto

end
