(* ===== verification/Variants.thy ===== *)
theory Variants imports Policy Learner begin

text \<open>
  Token variants for editing a pattern, from \<^verbatim>\<open>shelltype/src/trie_variants.c\<close>:
  the widening choices of a decoded token, the alternatives that a learner observed at its position,
  and the change of a type at a position. A token's text is the bytes it spans.
\<close>

unbundle bit_operations_syntax

record st_token_variant =
  tv_type :: st_token_type
  tv_symbol :: bytes

definition variant_of :: "st_token_type \<Rightarrow> st_token_variant" where
  "variant_of t = \<lparr>tv_type = t, tv_symbol = st_type_symbol t\<rparr>"

definition ST_MAX_TOKEN_VARIANTS :: nat where "ST_MAX_TOKEN_VARIANTS = 8"

section \<open>Widening choices\<close>

text \<open>The types from the first after \<^verbatim>\<open>ST_TYPE_LITERAL\<close> on.\<close>

definition proper_types :: "st_token_type list" where
  "proper_types = tl all_token_types"

text \<open>The type from which a token is widened. For a literal it is the join of the types it can be
  classified as, or no type when it is never classified.\<close>

definition variant_start :: "st_token list \<Rightarrow> nat \<Rightarrow> st_token_type" where
  "variant_start pattern edit_pos =
     (let token = pattern ! edit_pos; start_type = st_token_edit_type token in
      if tk_compound token \<or> start_type \<noteq> ST_TYPE_LITERAL then start_type
      else let types = st_pattern_literal_types pattern edit_pos in
        if types AND type_bit ST_TYPE_LITERAL \<noteq> 0
        then (if types = type_bit ST_TYPE_LITERAL then ST_TYPE_LITERAL else ST_TYPE_ANY)
        else foldl (\<lambda>start t. if types AND type_bit t \<noteq> 0 then st_join start t else start) start_type proper_types)"

text \<open>The next wider type: the least join of the current type with another.\<close>

definition next_wider :: "st_token_type \<Rightarrow> (st_token_type \<Rightarrow> bool) \<Rightarrow> st_token_type" where
  "next_wider current seen =
     foldl (\<lambda>next_wide t.
         if t = current \<or> seen t then next_wide
         else let joined = st_join current t in
           if joined \<noteq> current \<and> \<not> seen joined \<and> (next_wide = ST_TYPE_ANY \<or> st_is_compatible joined next_wide)
           then joined else next_wide) ST_TYPE_ANY proper_types"

text \<open>One new type is seen in every round, so 45 rounds are enough; the number of choices bounds them
  too.\<close>

fun widen_variants :: "nat \<Rightarrow> nat \<Rightarrow> st_token_type \<Rightarrow> st_token_type list \<Rightarrow> st_token_variant list \<Rightarrow> st_token_type list \<times> st_token_variant list" where
  "widen_variants 0 room current seen out = (seen, out)"
| "widen_variants (Suc rounds) room current seen out =
     (if current = ST_TYPE_LITERAL \<or> current = ST_TYPE_ANY \<or> length out \<ge> room then (seen, out)
      else let next_wide = next_wider current (\<lambda>t. t \<in> set seen) in
        if next_wide = ST_TYPE_ANY \<or> next_wide = current then (seen, out)
        else widen_variants rounds room next_wide (next_wide # seen) (out @ [variant_of next_wide]))"

definition st_token_variants_at :: "st_token list \<Rightarrow> nat \<Rightarrow> nat \<Rightarrow> st_token_variant list" where
  "st_token_variants_at pattern edit_pos max_variants =
     (if max_variants = 0 \<or> edit_pos \<ge> length pattern then []
      else if \<not> st_pattern_token_type_allowed (pattern ! 0) 0 (tk_type (pattern ! 0)) then []
      else let token = pattern ! edit_pos in
        if \<not> st_pattern_token_type_allowed token edit_pos (st_token_edit_type token) then []
        else let start_type = variant_start pattern edit_pos;
                 allow_any = st_pattern_token_type_allowed token edit_pos ST_TYPE_ANY;
                 out = (if \<not> tk_compound token then [variant_of ST_TYPE_LITERAL] else []);
                 out = (if length out < max_variants \<and> start_type \<noteq> ST_TYPE_LITERAL \<and>
                           (start_type \<noteq> ST_TYPE_ANY \<or> allow_any)
                        then out @ [variant_of start_type] else out);
                 seen = (if start_type \<noteq> ST_TYPE_LITERAL then [start_type] else []) in
          (case widen_variants ST_TYPE_COUNT max_variants start_type seen out of
             (seen, out) \<Rightarrow>
               if allow_any \<and> length out < max_variants \<and> ST_TYPE_ANY \<notin> set seen
               then out @ [variant_of ST_TYPE_ANY] else out))"

section \<open>Observed alternatives\<close>

record variant_prefix =
  vp_literal_types :: type_mask
  vp_metadata :: "st_metadata_entry option"

definition variant_prefix_of :: "st_token list \<Rightarrow> nat \<Rightarrow> variant_prefix" where
  "variant_prefix_of pattern pos =
     (let token = pattern ! pos in
      if tk_compound token then \<lparr>vp_literal_types = 0, vp_metadata = None\<rparr>
      else if tk_type token = ST_TYPE_LITERAL
      then \<lparr>vp_literal_types = st_pattern_literal_types pattern pos, vp_metadata = None\<rparr>
      else \<lparr>vp_literal_types = 0, vp_metadata = st_wildcard_metadata_span (tk_text token) (tk_type token)\<rparr>)"

definition variant_prefix_matches :: "st_node \<Rightarrow> st_token \<Rightarrow> variant_prefix \<Rightarrow> bool" where
  "variant_prefix_matches child token prefix =
     (let f = nd_fields child in
      if tk_compound token then
        (if nf_type f \<noteq> ST_TYPE_LITERAL then False
         else case st_pattern_capture_span (nf_token f) (tk_prefix token) (tk_suffix token) of
           None \<Rightarrow> False
         | Some capture \<Rightarrow>
             st_pattern_wildcard_matches capture (st_token_classify capture) (tk_capture token) (tk_capture_type token))
      else if tk_type token = ST_TYPE_LITERAL then
        (if nf_type f \<noteq> ST_TYPE_LITERAL then vp_literal_types prefix AND type_bit (nf_type f) \<noteq> 0
         else nf_token f = tk_text token)
      else if \<not> st_runtime_type_matches (nf_type f) (tk_type token) then False
      else case vp_metadata prefix of
        None \<Rightarrow> True
      | Some m \<Rightarrow> \<not> st_metadata_requires_value m \<or>
          nf_observations f \<noteq> 0 \<and> \<not> nf_mixed f \<and> nf_common f = me_id m)"

text \<open>What a child at the edited position adds.\<close>

definition variant_seen :: "st_token \<Rightarrow> st_node \<Rightarrow> type_mask" where
  "variant_seen token child =
     (let f = nd_fields child in
      if tk_compound token then
        (if nf_type f \<noteq> ST_TYPE_LITERAL then 0
         else case st_pattern_capture_span (nf_token f) (tk_prefix token) (tk_suffix token) of
           None \<Rightarrow> 0 | Some capture \<Rightarrow> type_bit (st_token_classify capture))
      else nf_observed f AND NOT (type_bit ST_TYPE_ANY))"

fun collect_variants_at ::
    "st_token list \<Rightarrow> variant_prefix list \<Rightarrow> nat \<Rightarrow> nat \<Rightarrow> st_node \<Rightarrow> type_mask \<Rightarrow> type_mask" where
  "collect_variants_at tokens prefixes target_pos depth (Node f cs) observed =
     (if depth = target_pos
      then foldl (\<lambda>observed child. observed OR variant_seen (tokens ! depth) child) observed cs
      else foldl (\<lambda>observed child.
          if variant_prefix_matches child (tokens ! depth) (prefixes ! depth)
          then collect_variants_at tokens prefixes target_pos (depth + 1) child observed
          else observed) observed cs)"

text \<open>The types strictly between \<^verbatim>\<open>ST_TYPE_LITERAL\<close> and
  \<^verbatim>\<open>ST_TYPE_ANY\<close>; \<open>None\<close> is \<^verbatim>\<open>ST_TYPE_COUNT\<close>.\<close>

definition inner_types :: "st_token_type list" where
  "inner_types = butlast proper_types"

definition most_specific_remaining :: "type_mask \<Rightarrow> st_token_type option" where
  "most_specific_remaining remaining =
     List.find (\<lambda>candidate. remaining AND type_bit candidate \<noteq> 0 \<and>
         \<not> list_ex (\<lambda>other. other \<noteq> candidate \<and> remaining AND type_bit other \<noteq> 0 \<and>
             st_is_compatible other candidate \<and> \<not> st_is_compatible candidate other) inner_types)
       inner_types"

text \<open>Every round removes a type, and the room for variants bounds the rounds.\<close>

fun add_remaining :: "nat \<Rightarrow> type_mask \<Rightarrow> st_token_variant list \<Rightarrow> st_token_variant list" where
  "add_remaining 0 observed out = out"
| "add_remaining (Suc rounds) observed out =
     (if observed = 0 then out
      else case most_specific_remaining observed of
        None \<Rightarrow> out
      | Some selected \<Rightarrow>
          add_remaining rounds (observed AND NOT (type_bit selected)) (out @ [variant_of selected]))"

definition has_variant :: "st_token_type \<Rightarrow> st_token_variant list \<Rightarrow> bool" where
  "has_variant t out = list_ex (\<lambda>v. tv_type v = t) out"

definition st_learner_suggest_token_variants :: "st_learner \<Rightarrow> st_token list \<Rightarrow> nat \<Rightarrow> st_token_variant list" where
  "st_learner_suggest_token_variants l pattern edit_pos =
     (if edit_pos \<ge> length pattern then []
      else if \<not> st_pattern_token_type_allowed (pattern ! 0) 0 (tk_type (pattern ! 0)) then []
      else let token = pattern ! edit_pos; current_type = st_token_edit_type token in
        if \<not> st_pattern_token_type_allowed token edit_pos current_type then []
        else let prefixes = map (variant_prefix_of pattern) [0..<edit_pos];
                 observed = collect_variants_at pattern prefixes edit_pos 0 (ln_root l) 0;
                 observed = (if observed \<noteq> 0 then observed
                   else if current_type \<noteq> ST_TYPE_LITERAL \<and> current_type \<noteq> ST_TYPE_ANY then type_bit current_type
                   else if current_type = ST_TYPE_LITERAL then type_bit ST_TYPE_VALUE else 0);
                 first = current_type \<noteq> ST_TYPE_ANY \<and> observed AND type_bit current_type \<noteq> 0;
                 out = (if first then [variant_of current_type] else []);
                 observed = (if first then observed AND NOT (type_bit current_type) else observed);
                 out = add_remaining (ST_MAX_TOKEN_VARIANTS - 1 - length out) observed out;
                 room = length out < ST_MAX_TOKEN_VARIANTS - 1;
                 out = (if room \<and> (current_type = ST_TYPE_ABS_PATH \<or> current_type = ST_TYPE_REL_PATH) \<and>
                           \<not> has_variant ST_TYPE_PATH out
                        then out @ [variant_of ST_TYPE_PATH] else out);
                 out = (if room \<and> (current_type = ST_TYPE_HEXHASH \<or> current_type = ST_TYPE_SHA) \<and>
                           \<not> has_variant ST_TYPE_VALUE out
                        then out @ [variant_of ST_TYPE_VALUE] else out) in
          if st_pattern_token_type_allowed token edit_pos ST_TYPE_ANY \<and> length out < ST_MAX_TOKEN_VARIANTS
          then out @ [variant_of ST_TYPE_ANY] else out)"

section \<open>Changing a type\<close>

definition retyped :: "st_token \<Rightarrow> st_token_type \<Rightarrow> st_token" where
  "retyped token new_type =
     (if tk_compound token then token\<lparr>tk_capture := st_type_symbol new_type, tk_capture_type := new_type\<rparr>
      else token\<lparr>tk_text := st_type_symbol new_type, tk_type := new_type\<rparr>)"

definition st_netpattern_apply_type_at_owned ::
    "st_netpattern_view \<Rightarrow> nat \<Rightarrow> st_token_type \<Rightarrow> bytes result" where
  "st_netpattern_apply_type_at_owned netpattern edit_pos new_type =
     (if np_data netpattern = None \<or> np_length netpattern = 0 \<or> new_type = ST_TYPE_LITERAL then Inl ST_ERR_INVALID
      else case st_netpattern_decode_view netpattern of
        Inl e \<Rightarrow> Inl e
      | Inr decoded \<Rightarrow>
          (if edit_pos \<ge> length decoded then Inl ST_ERR_INVALID
           else if \<not> st_pattern_token_type_allowed (decoded ! 0) 0
                    (if edit_pos = 0 then new_type else tk_type (decoded ! 0)) then Inl ST_ERR_INVALID
           else st_netpattern_encode_owned
                  (Some (map token_arg (decoded[edit_pos := retyped (decoded ! edit_pos) new_type])))))"

end
