(* ===== verification/Variants_Spec.thy ===== *)
theory Variants_Spec imports Variants Suggest_Count Suggest_Collect begin

text \<open>
  What the variants are: the widening choices of a token are the chain of its supertypes, and each,
  applied, gives a pattern that covers the edited one; the observed alternatives are the types that
  commands have at the position.
\<close>

unbundle bit_operations_syntax

section \<open>The chain of supertypes\<close>

text \<open>The supertypes of a type below the top, the type itself included.\<close>

definition inner_ancestors :: "st_token_type \<Rightarrow> st_token_type list" where
  "inner_ancestors t = filter (\<lambda>u. u \<noteq> ST_TYPE_ANY) (ancestors t)"

lemma proper_types_iff [simp]: "t \<in> set proper_types \<longleftrightarrow> t \<noteq> ST_TYPE_LITERAL"
  by (cases t) (simp_all add: proper_types_def all_token_types_def)

lemma ancestors_parent:
  assumes "t \<noteq> ST_TYPE_LITERAL" "t \<noteq> ST_TYPE_ANY"
  obtains p where "ancestors t = t # ancestors p" "p \<noteq> ST_TYPE_LITERAL" "p \<noteq> t"
proof -
  obtain rest where rest: "ancestors t = t # rest" by (metis ancestors_nonempty hd_ancestors list.collapse)
  have "ST_TYPE_ANY \<in> set rest" using ancestors_any [OF assms(1)] assms(2) rest by simp
  then obtain p rest' where p: "rest = p # rest'" by (cases rest) auto
  then have "ancestors p = p # rest'" using ancestors_split [of t "[t]" p rest'] rest by simp
  moreover have "p \<noteq> ST_TYPE_LITERAL" using rest p literal_not_ancestor [of t] assms(1) by auto
  moreover have "p \<noteq> t" using distinct_ancestors [of t] rest p by auto
  ultimately show thesis using that [of p] rest p by simp
qed

lemma join_same: "st_join t t = t"
  by (simp add: type_lattice.sup.idem)

lemma above_parent:
  assumes "ancestors t = t # ancestors p" "t \<noteq> ST_TYPE_LITERAL" "st_is_compatible t u" "u \<noteq> t"
  shows "st_is_compatible p u"
  using assms by (auto simp: st_is_compatible_eq lattice_le_def)

lemma next_wider_parent:
  assumes p: "ancestors t = t # ancestors p" "p \<noteq> ST_TYPE_LITERAL" "p \<noteq> t" and t: "t \<noteq> ST_TYPE_LITERAL"
    and seen: "\<And>u. seen u \<Longrightarrow> st_is_compatible u t"
  shows "next_wider t seen = p"
proof -
  let ?step = "\<lambda>next_wide u.
     if u = t \<or> seen u then next_wide
     else let joined = st_join t u in
       if joined \<noteq> t \<and> \<not> seen joined \<and> (next_wide = ST_TYPE_ANY \<or> st_is_compatible joined next_wide)
       then joined else next_wide"
  have le: "st_is_compatible t p" "st_is_compatible p ST_TYPE_ANY"
    using p ancestors_any [OF p(2)] by (auto simp: st_is_compatible_eq lattice_le_def)
  have fresh: "\<not> seen u" if "st_is_compatible t u" "u \<noteq> t" for u
    using seen [of u] that type_lattice.order.antisym by blast
  have step: "st_is_compatible p (?step w u) \<and> (p \<in> {w, u} \<longrightarrow> ?step w u = p)" if w: "st_is_compatible p w" for w u
  proof (cases "u = t \<or> seen u \<or> st_join t u = t")
    case True
    then have "u \<noteq> p" using p(3) fresh [of p] le(1) type_lattice.sup.absorb2 by metis
    then show ?thesis using True w by (auto simp: Let_def)
  next
    case False
    define j where "j = st_join t u"
    have up: "st_is_compatible t j" by (simp add: j_def)
    have ne: "u \<noteq> t" "\<not> seen u" "j \<noteq> t" using False by (simp_all add: j_def)
    have j: "st_is_compatible p j" "\<not> seen j"
      using above_parent [OF p(1) t up] fresh [OF up] ne by simp_all
    have step: "?step w u = (if w = ST_TYPE_ANY \<or> st_is_compatible j w then j else w)"
      using ne j(2) by (simp add: Let_def flip: j_def)
    have "u = p \<Longrightarrow> j = p" using le(1) by (simp add: j_def type_lattice.sup.absorb2)
    moreover have "w = p \<Longrightarrow> st_is_compatible j w \<Longrightarrow> j = p"
      using j(1) type_lattice.order.antisym by blast
    moreover have "w = p \<Longrightarrow> w = ST_TYPE_ANY \<Longrightarrow> j = p"
      using j(1) by (simp add: st_is_compatible_eq lattice_le_def)
    moreover have "j = p \<Longrightarrow> st_is_compatible j w" using w by simp
    ultimately show ?thesis unfolding step using j w by auto
  qed
  have fold: "st_is_compatible p (foldl ?step w us) \<and> (p \<in> insert w (set us) \<longrightarrow> foldl ?step w us = p)"
    if "st_is_compatible p w" for w us
    using that
  proof (induction us arbitrary: w)
    case (Cons u us)
    have "st_is_compatible p (?step w u)" using step [OF Cons.prems] by blast
    note IH = Cons.IH [OF this]
    show ?case
    proof (cases "p = w \<or> p = u")
      case True
      then have "?step w u = p" using step [OF Cons.prems, of u] by blast
      then show ?thesis using IH by (simp only: foldl_Cons insert_iff) blast
    next
      case False
      then show ?thesis using IH by (simp only: foldl_Cons insert_iff list.set) blast
    qed
  qed simp
  show ?thesis unfolding next_wider_def using fold [OF le(2), of proper_types] p(2) by simp
qed

lemma widen_variants_chain:
  "t \<noteq> ST_TYPE_LITERAL \<Longrightarrow> \<forall>u\<in>set seen. st_is_compatible u t \<Longrightarrow> length (ancestors t) \<le> n \<Longrightarrow>
   \<exists>seen'. widen_variants n room t seen out =
       (seen', out @ take (room - length out) (map variant_of (tl (inner_ancestors t)))) \<and>
     (ST_TYPE_ANY \<in> set seen' \<longleftrightarrow> ST_TYPE_ANY \<in> set seen)"
proof (induction n arbitrary: t seen out)
  case 0
  then show ?case by simp
next
  case (Suc n)
  show ?case
  proof (cases "t = ST_TYPE_ANY \<or> length out \<ge> room")
    case True
    then show ?thesis by (auto simp: inner_ancestors_def)
  next
    case False
    then obtain p where p: "ancestors t = t # ancestors p" "p \<noteq> ST_TYPE_LITERAL" "p \<noteq> t"
      using ancestors_parent Suc.prems(1) by blast
    have next_wide: "next_wider t (\<lambda>u. u \<in> set seen) = p"
      by (rule next_wider_parent [OF p Suc.prems(1)]) (use Suc.prems(2) in blast)
    have inner: "tl (inner_ancestors t) = inner_ancestors p" using p(1) False by (simp add: inner_ancestors_def)
    show ?thesis
    proof (cases "p = ST_TYPE_ANY")
      case True
      then show ?thesis
        using False Suc.prems(1) next_wide p(1) by (simp add: inner_ancestors_def)
    next
      case no_any: False
      have up: "st_is_compatible t p" using p(1) by (simp add: st_is_compatible_eq lattice_le_def)
      have "\<forall>u\<in>set (p # seen). st_is_compatible u p"
        using Suc.prems(2) up type_lattice.order.trans by auto
      from Suc.IH [OF p(2) this, of "out @ [variant_of p]"] Suc.prems(3) p(1)
      obtain seen' where IH: "widen_variants n room p (p # seen) (out @ [variant_of p]) =
          (seen', (out @ [variant_of p]) @ take (room - length (out @ [variant_of p])) (map variant_of (tl (inner_ancestors p))))"
        "ST_TYPE_ANY \<in> set seen' \<longleftrightarrow> ST_TYPE_ANY \<in> set (p # seen)" by auto
      have "inner_ancestors p = p # tl (inner_ancestors p)"
        using no_any hd_ancestors [of p] by (cases "ancestors p") (auto simp: inner_ancestors_def)
      then have "take (room - length out) (map variant_of (inner_ancestors p)) =
          variant_of p # take (room - length (out @ [variant_of p])) (map variant_of (tl (inner_ancestors p)))"
        using False by (metis Suc_diff_Suc length_append_singleton list.simps(9) not_le take_Suc_Cons)
      moreover have "widen_variants (Suc n) room t seen out = widen_variants n room p (p # seen) (out @ [variant_of p])"
        using False Suc.prems(1) next_wide no_any p(3) by simp
      ultimately show ?thesis using IH no_any by (intro exI [of _ seen']) (simp add: inner)
    qed
  qed
qed

text \<open>The choices without a limit.\<close>

definition variant_choices :: "st_token list \<Rightarrow> nat \<Rightarrow> st_token_type list" where
  "variant_choices ts pos =
     (let t = ts ! pos; start = variant_start ts pos in
      (if tk_compound t then [] else [ST_TYPE_LITERAL]) @
      (if start = ST_TYPE_LITERAL then [] else inner_ancestors start) @
      (if st_pattern_token_type_allowed t pos ST_TYPE_ANY then [ST_TYPE_ANY] else []))"

lemma length_ancestors: "length (ancestors t) \<le> 4"
  by (cases t) simp_all

lemma variants_chain:
  "st_token_variants_at ts pos limit =
     (if pos < length ts \<and> st_pattern_token_type_allowed (ts ! 0) 0 (tk_type (ts ! 0)) \<and>
         st_pattern_token_type_allowed (ts ! pos) pos (st_token_edit_type (ts ! pos))
      then take limit (map variant_of (variant_choices ts pos)) else [])"
proof (cases "limit = 0 \<or> \<not> (pos < length ts \<and> st_pattern_token_type_allowed (ts ! 0) 0 (tk_type (ts ! 0)) \<and>
    st_pattern_token_type_allowed (ts ! pos) pos (st_token_edit_type (ts ! pos)))")
  case True
  then show ?thesis by (auto simp: st_token_variants_at_def)
next
  case False
  define t start lits any where "t = ts ! pos" and "start = variant_start ts pos"
    and "lits = (if \<not> tk_compound t then [variant_of ST_TYPE_LITERAL] else [])"
    and "any = st_pattern_token_type_allowed t pos ST_TYPE_ANY"
  have lits: "length lits \<le> 1" "length lits \<le> limit" using False by (auto simp: lits_def)
  let ?out = "if length lits < limit \<and> start \<noteq> ST_TYPE_LITERAL \<and> (start \<noteq> ST_TYPE_ANY \<or> any) then lits @ [variant_of start] else lits"
  let ?seen = "if start \<noteq> ST_TYPE_LITERAL then [start] else []"
  have run: "st_token_variants_at ts pos limit =
      (case widen_variants ST_TYPE_COUNT limit start ?seen ?out of
         (seen, out) \<Rightarrow> if any \<and> length out < limit \<and> ST_TYPE_ANY \<notin> set seen then out @ [variant_of ST_TYPE_ANY] else out)"
  proof -
    have G: "(limit = 0 \<or> pos \<ge> length ts) = False" "(\<not> st_pattern_token_type_allowed (ts ! 0) 0 (tk_type (ts ! 0))) = False"
      "(\<not> st_pattern_token_type_allowed (ts ! pos) pos (st_token_edit_type (ts ! pos))) = False" using False by auto
    show ?thesis unfolding st_token_variants_at_def Let_def G if_False t_def start_def lits_def any_def by (rule refl)
  qed
  have choices: "map variant_of (variant_choices ts pos) = lits @
      map variant_of (if start = ST_TYPE_LITERAL then [] else inner_ancestors start) @ (if any then [variant_of ST_TYPE_ANY] else [])"
    by (simp add: variant_choices_def Let_def t_def start_def lits_def any_def)
  have "st_token_variants_at ts pos limit = take limit (map variant_of (variant_choices ts pos))"
  proof (cases "start = ST_TYPE_LITERAL")
    case True
    have "widen_variants ST_TYPE_COUNT limit ST_TYPE_LITERAL [] lits = ([], lits)"
      by (simp add: ST_TYPE_COUNT_def numeral_eq_Suc)
    then show ?thesis unfolding run choices using True lits by auto
  next
    case proper: False
    have "length (ancestors start) \<le> ST_TYPE_COUNT" using length_ancestors [of start] by (simp add: ST_TYPE_COUNT_def)
    then obtain seen' where W: "widen_variants ST_TYPE_COUNT limit start [start] ?out =
        (seen', ?out @ take (limit - length ?out) (map variant_of (tl (inner_ancestors start))))"
      "ST_TYPE_ANY \<in> set seen' \<longleftrightarrow> ST_TYPE_ANY = start"
      using widen_variants_chain [of start "[start]" ST_TYPE_COUNT limit ?out] proper by auto
    show ?thesis
    proof (cases "start = ST_TYPE_ANY")
      case True
      then have "inner_ancestors start = []" by (simp add: inner_ancestors_def)
      then show ?thesis unfolding run choices using proper W lits True by auto
    next
      case no_any: False
      then have inner: "inner_ancestors start = start # tl (inner_ancestors start)"
        using hd_ancestors [of start] by (cases "ancestors start") (auto simp: inner_ancestors_def)
      have out: "?out @ take (limit - length ?out) (map variant_of (tl (inner_ancestors start))) =
          take limit (lits @ map variant_of (inner_ancestors start))"
        using lits proper no_any by (subst (2) inner) (auto simp: take_Cons' not_less)
      have seen: "?seen = [start]" using proper by simp
      show ?thesis
        unfolding run seen W(1) out prod.case choices
        using W(2) no_any proper by (cases "length lits + length (inner_ancestors start) < limit") auto
    qed
  qed
  then show ?thesis using False by simp
qed

section \<open>Applying a choice\<close>

text \<open>The canonical token after the change.\<close>

definition retyped_token :: "st_token \<Rightarrow> st_token_type \<Rightarrow> st_token" where
  "retyped_token t ty =
     (if tk_compound t then compound_token (tk_prefix t) (st_type_symbol ty) (tk_suffix t) ty
      else plain_token (st_type_symbol ty) ty)"

lemma type_symbol_canonical: "ty \<noteq> ST_TYPE_LITERAL \<Longrightarrow> canonical_spelling ty (st_type_symbol ty)"
  by (simp add: canonical_spelling_def)

lemma symbol_no_param:
  assumes "ty \<noteq> ST_TYPE_LITERAL"
  shows "st_wildcard_metadata (Some (st_type_symbol ty)) ty = None" "wildcard_param (Some (st_type_symbol ty)) ty = None"
  using type_symbol_canonical [OF assms] by (cases rule: canonical_metadata_cases; simp)+

lemma retyped_wf:
  assumes "wf_token t" "ty \<noteq> ST_TYPE_LITERAL"
  shows "wf_token (retyped_token t ty)"
proof (cases "tk_compound t")
  case True
  then show ?thesis
    using assms type_symbol_canonical [OF assms(2)] unfolding wf_token_def [of t] by (simp add: wf_token_def retyped_token_def)
next
  case False
  then show ?thesis
    using canonical_spelling_props(2) [OF type_symbol_canonical [OF assms(2)]] type_symbol_canonical [OF assms(2)]
    by (simp add: wf_token_def retyped_token_def plain_token_def)
qed

lemma retyped_encodes: "encode_token (token_arg (retyped t ty)) = encode_token (token_arg (retyped_token t ty))"
  by (simp add: encode_token_def token_arg_def retyped_def retyped_token_def plain_token_def Let_def
      split: option.splits prod.splits)

lemma map_result_same: "list_all2 (\<lambda>a b. f a = f b) as bs \<Longrightarrow> map_result f as = map_result f bs"
  by (induction rule: list_all2_induct) simp_all

lemma records_bounded:
  assumes "list_all wf_token us" "length us \<le> ST_MAX_CMD_TOKENS"
  shows "length (concat (map record_of us)) \<le> SIZE_MAX"
proof -
  have "length (concat (map record_of us)) \<le> length us * ST_MAX_NETPATTERN_LEN"
    using assms(1) record_small by (induction us) (auto intro: add_mono less_imp_le)
  also have "\<dots> \<le> ST_MAX_CMD_TOKENS * ST_MAX_NETPATTERN_LEN" using assms(2) by simp
  finally show ?thesis by (simp add: ST_MAX_CMD_TOKENS_def ST_MAX_NETPATTERN_LEN_def SIZE_MAX_def)
qed

lemma apply_type_effect:
  assumes dec: "st_netpattern_decode_view (np_view s) = Inr ts" and ty: "ty \<noteq> ST_TYPE_LITERAL" and pos: "pos < length ts"
    and head: "st_pattern_token_type_allowed (ts ! 0) 0 (if pos = 0 then ty else tk_type (ts ! 0))"
  defines "us \<equiv> ts[pos := retyped_token (ts ! pos) ty]"
  shows "list_all wf_token us"
    "st_netpattern_apply_type_at_owned (np_view s) pos ty =
      (if length (concat (map record_of us)) < ST_MAX_NETPATTERN_LEN then Inr (concat (map record_of us)) else Inl ST_ERR_LIMIT)"
    "length (concat (map record_of us)) < ST_MAX_NETPATTERN_LEN \<Longrightarrow>
      st_netpattern_decode_view (np_view (concat (map record_of us))) = Inr us"
proof -
  have ts: "ts \<noteq> []" "length ts \<le> ST_MAX_CMD_TOKENS" "list_all wf_token ts" "s = concat (map record_of ts)"
    using dec by (simp_all add: decode_view_Inr_iff)
  show wf: "list_all wf_token us"
    using ts(3) retyped_wf [OF _ ty] pos by (auto simp: us_def list_all_length nth_list_update)
  show "length (concat (map record_of us)) < ST_MAX_NETPATTERN_LEN \<Longrightarrow>
      st_netpattern_decode_view (np_view (concat (map record_of us))) = Inr us"
    using ts wf by (simp add: decode_view_Inr_iff us_def)
  have len: "length us = length ts" by (simp add: us_def)
  then have ne: "us \<noteq> []" using ts(1) by auto
  have enc: "map_result encode_token (map token_arg (ts[pos := retyped (ts ! pos) ty])) = map_result encode_token (map token_arg us)"
    by (rule map_result_same) (auto simp: us_def list_all2_conv_all_nth nth_list_update retyped_encodes pos)
  have "st_netpattern_encode_owned (Some (map token_arg (ts[pos := retyped (ts ! pos) ty]))) = st_netpattern_encode_owned (Some (map token_arg us))"
    unfolding st_netpattern_encode_owned_def option.case enc using len ts(1) ne by simp
  moreover have "map_result encode_token (map token_arg us) = Inr (map record_of us)"
    using wf by (induction us) (auto simp: encode_token_wf)
  moreover have "join_records 0 (map record_of us) = Inr (concat (map record_of us))"
    using records_bounded [OF wf] ts(2) len by (intro join_records_eq) simp
  moreover have "length us \<le> ST_MAX_CMD_TOKENS" using ts(2) len by simp
  moreover have "s \<noteq> []" using ts by (cases ts) (auto simp: record_of_def tagged_enc_def)
  ultimately show "st_netpattern_apply_type_at_owned (np_view s) pos ty =
      (if length (concat (map record_of us)) < ST_MAX_NETPATTERN_LEN then Inr (concat (map record_of us)) else Inl ST_ERR_LIMIT)"
    using dec ty pos head ne unfolding st_netpattern_apply_type_at_owned_def
    by (simp add: np_view_def st_netpattern_encode_owned_def not_le)
qed

section \<open>A choice covers what it replaces\<close>

lemma runtime_matches_self: "t \<noteq> ST_TYPE_LITERAL \<Longrightarrow> st_runtime_type_matches t t"
  by (cases t) (simp_all add: runtime_type_matches_bit del: type_index.simps)

lemma fold_join_upper:
  "st_is_compatible w (foldl (\<lambda>start t. if P t then st_join start t else start) w ts) \<and>
   (\<forall>t\<in>set ts. P t \<longrightarrow> st_is_compatible t (foldl (\<lambda>start t. if P t then st_join start t else start) w ts))"
proof (induction ts arbitrary: w)
  case (Cons t ts)
  let ?fold = "foldl (\<lambda>start t. if P t then st_join start t else start)"
  show ?case
  proof (cases "P t")
    case True
    note IH = Cons.IH [of "st_join w t"]
    have "st_is_compatible w (st_join w t)" "st_is_compatible t (st_join w t)" by simp_all
    then have "st_is_compatible w (?fold (st_join w t) ts)" "st_is_compatible t (?fold (st_join w t) ts)"
      using IH type_lattice.order.trans by blast+
    then show ?thesis using IH True by (simp del: type_lattice.sup.bounded_iff)
  next
    case False
    then show ?thesis using Cons.IH [of w] by simp
  qed
qed simp

lemma choice_above:
  assumes "ty \<in> set (variant_choices ts pos)" "ty \<noteq> ST_TYPE_LITERAL"
  shows "ty = ST_TYPE_ANY \<or> variant_start ts pos \<noteq> ST_TYPE_LITERAL \<and> st_is_compatible (variant_start ts pos) ty"
  using assms by (auto simp: variant_choices_def Let_def inner_ancestors_def st_is_compatible_eq lattice_le_def split: if_splits)

lemma choice_covers:
  assumes wf: "list_all wf_token ts" and pos: "pos < length ts"
    and ty: "ty \<in> set (variant_choices ts pos)" "ty \<noteq> ST_TYPE_LITERAL"
  shows "pattern_subsumes (ts[pos := retyped_token (ts ! pos) ty]) ts"
proof -
  let ?us = "ts[pos := retyped_token (ts ! pos) ty]" and ?t = "ts ! pos"
  have t: "wf_token ?t" using wf pos by (simp add: list_all_length)
  have u: "wf_token (?us ! pos)" using retyped_wf [OF t ty(2)] pos by simp
  have par: "params_compatible (wildcard_param (Some (st_type_symbol ty)) ty) q" for q
    by (simp add: symbol_no_param(2) [OF ty(2)] params_compatible_def)
  have any: "st_is_compatible v ST_TYPE_ANY" for v by (cases v) (simp_all add: st_is_compatible_eq lattice_le_def)
  have above: "st_is_compatible (variant_start ts pos) ty \<or> ty = ST_TYPE_ANY" using choice_above [OF ty] by blast
  have "subsumes_at ?us ts pos"
  proof (cases "tk_compound ?t")
    case True
    then have "st_is_compatible (tk_capture_type ?t) ty"
      using above any by (auto simp: variant_start_def Let_def st_token_edit_type_def)
    then show ?thesis
      unfolding subsumes_at_iff [OF u t] using True par pos by (simp add: retyped_token_def wild_le_def)
  next
    case plain: False
    show ?thesis
    proof (cases "tk_type ?t = ST_TYPE_LITERAL")
      case lit: True
      have "st_runtime_type_matches (st_token_classify_context (tk_text ?t) c) ty"
        if c: "c \<in> set (literal_contexts ts pos)" for c
      proof (cases "ty = ST_TYPE_ANY")
        case False
        let ?v = "st_token_classify_context (tk_text ?t) c" and ?types = "st_pattern_literal_types ts pos"
        have start: "variant_start ts pos \<noteq> ST_TYPE_LITERAL" "st_is_compatible (variant_start ts pos) ty"
          using choice_above [OF ty] False by simp_all
        have v: "bit ?types (type_index ?v)" using c literal_types_mem by blast
        have no_lit: "\<not> bit ?types (type_index ST_TYPE_LITERAL)"
        proof
          assume "bit ?types (type_index ST_TYPE_LITERAL)"
          then have "variant_start ts pos = ST_TYPE_ANY"
            using start(1) plain lit by (auto simp: variant_start_def Let_def st_token_edit_type_def split: if_splits)
          then show False using start(2) False by (simp add: st_is_compatible_eq lattice_le_def)
        qed
        then have proper: "?v \<noteq> ST_TYPE_LITERAL" using v by metis
        have "variant_start ts pos = foldl (\<lambda>start t. if bit ?types (type_index t) then st_join start t else start) ST_TYPE_LITERAL proper_types"
          using no_lit plain lit by (simp add: variant_start_def Let_def st_token_edit_type_def)
        then have "st_is_compatible ?v (variant_start ts pos)"
          using fold_join_upper [of ST_TYPE_LITERAL "\<lambda>t. bit ?types (type_index t)" proper_types] v proper by simp
        then have "st_is_compatible ?v ty" using start(2) type_lattice.order.trans by blast
        then show ?thesis using runtime_matches_mono [OF runtime_matches_self [OF proper]] proper by simp
      qed simp
      then show ?thesis
        unfolding subsumes_at_iff [OF u t] using plain lit ty(2) pos symbol_no_param(1) [OF ty(2)]
        by (simp add: retyped_token_def plain_token_def wild_accepts_def closed_metadata_matches_def)
    next
      case wild: False
      then have "st_is_compatible (tk_type ?t) ty"
        using above any plain by (auto simp: variant_start_def Let_def st_token_edit_type_def)
      then show ?thesis
        unfolding subsumes_at_iff [OF u t] using plain wild par pos ty(2)
        by (simp add: retyped_token_def plain_token_def wild_le_def)
    qed
  qed
  moreover have "subsumes_at ?us ts i" if "i < length ts" "i \<noteq> pos" for i
  proof -
    have "subsumes_at ts ts i" using subsumes_refl [OF wf] that(1) by (simp add: pattern_subsumes_def list_all_iff)
    then show ?thesis using that(2) by (simp add: subsumes_at_def)
  qed
  ultimately have "subsumes_at ?us ts i" if "i < length ts" for i using that by (cases "i = pos") simp_all
  then show ?thesis by (simp add: pattern_subsumes_def list_all_iff)
qed

section \<open>Observed alternatives\<close>

text \<open>A literal of the prefix is also taken to follow a typed token of a type it can have.\<close>

definition loosely_follows :: "st_token list \<Rightarrow> nat \<Rightarrow> st_token \<Rightarrow> bool" where
  "loosely_follows ts i t \<longleftrightarrow> follows_token (ts ! i) t \<or>
     \<not> tk_compound (ts ! i) \<and> tk_type (ts ! i) = ST_TYPE_LITERAL \<and> tk_type t \<noteq> ST_TYPE_LITERAL \<and>
     bit (st_pattern_literal_types ts i) (type_index (tk_type t))"

text \<open>Whole words without a parameter that depends on the value.\<close>

definition plain_prefix :: "st_token list \<Rightarrow> nat \<Rightarrow> bool" where
  "plain_prefix ts pos \<longleftrightarrow> (\<forall>i<pos. \<not> tk_compound (ts ! i) \<and>
     (tk_type (ts ! i) \<noteq> ST_TYPE_LITERAL \<longrightarrow>
      (\<forall>m. st_wildcard_metadata_span (tk_text (ts ! i)) (tk_type (ts ! i)) = Some m \<longrightarrow> \<not> st_metadata_requires_value m)))"

text \<open>The type that the token of a command shows at the edited position.\<close>

definition offers :: "st_token \<Rightarrow> st_token \<Rightarrow> st_token_type \<Rightarrow> bool" where
  "offers token t ty \<longleftrightarrow>
     (if tk_compound token
      then tk_type t = ST_TYPE_LITERAL \<and>
        (\<exists>capture. st_pattern_capture_span (tk_text t) (tk_prefix token) (tk_suffix token) = Some capture \<and>
           ty = st_token_classify capture)
      else tk_type t \<noteq> ST_TYPE_LITERAL \<and> ty = tk_type t \<and> ty \<noteq> ST_TYPE_ANY)"

lemma metadata_types_runtime:
  "t \<in> set metadata_types \<Longrightarrow> st_runtime_type_matches u t \<Longrightarrow> u = t"
  by (cases u) (auto simp: metadata_types_def runtime_type_matches_bit simp del: type_index.simps)

lemma parameter_type:
  assumes "wf_token k" "tk_type k \<noteq> ST_TYPE_LITERAL" "st_wildcard_metadata_span (tk_text k) (tk_type k) = Some m"
    "st_runtime_type_matches u (tk_type k)"
  shows "u = tk_type k"
  using wf_wild_canonical [OF assms(1,2)]
proof (cases rule: canonical_metadata_cases)
  case (param n)
  then have "tk_type k \<in> set metadata_types" using metadata_entries_types by (auto simp: list_all_iff)
  then show ?thesis using metadata_types_runtime assms(4) by blast
qed (use assms(3) in simp)

lemma prefix_match_node:
  assumes ts: "i < length ts" "wf_token (ts ! i)"
    and node: "noted (nd_fields c) ks" "\<And>t. t \<in> set ks \<Longrightarrow> tok_key t = node_key c"
    and h: "in_context h" "i < length h" "h ! i \<in> set ks"
  shows "variant_prefix_matches c (ts ! i) (variant_prefix_of ts i) \<Longrightarrow> loosely_follows ts i (h ! i)"
    and "\<lbrakk>0 < i \<Longrightarrow> follows_token (ts ! (i - 1)) (h ! (i - 1)); plain_prefix ts (Suc i); follows_token (ts ! i) (h ! i)\<rbrakk> \<Longrightarrow>
      variant_prefix_matches c (ts ! i) (variant_prefix_of ts i)"
proof -
  let ?k = "ts ! i" and ?t = "h ! i" and ?f = "nd_fields c"
  let ?match = "variant_prefix_matches c ?k (variant_prefix_of ts i)"
  have key: "tk_type ?t = nf_type ?f" "nf_type ?f = ST_TYPE_LITERAL \<Longrightarrow> tk_text ?t = nf_token ?f"
    using node(2) [OF h(3)] by (auto simp: tok_key_def node_key_def split: if_splits)
  have "(?match \<longrightarrow> loosely_follows ts i ?t) \<and>
      ((0 < i \<longrightarrow> follows_token (ts ! (i - 1)) (h ! (i - 1))) \<and> plain_prefix ts (Suc i) \<and> follows_token ?k ?t \<longrightarrow> ?match)"
  proof (cases "tk_compound ?k")
    case True
    have "?match \<Longrightarrow> follows_token ?k ?t"
      using True key by (auto simp: variant_prefix_matches_def Let_def follows_token_def token_accepts_def split: if_splits option.splits)
    then show ?thesis using True by (auto simp: loosely_follows_def plain_prefix_def)
  next
    case plain: False
    show ?thesis
    proof (cases "tk_type ?k = ST_TYPE_LITERAL")
      case lit: True
      have "bit (st_pattern_literal_types ts i) (type_index (tk_type ?t))"
        if "0 < i \<longrightarrow> follows_token (ts ! (i - 1)) (h ! (i - 1))" "tk_text ?t = tk_text ?k"
        using literal_type_seen [OF h(1,2) ts(1) that(2)] that(1) literal_types_take [of i "i + 1" ts]
        by (simp add: type_mask_mem)
      then show ?thesis
        using plain lit key by (auto simp: variant_prefix_matches_def variant_prefix_of_def Let_def loosely_follows_def
            follows_token_def token_accepts_def)
    next
      case wild: False
      have can: "canonical_spelling (tk_type ?k) (tk_text ?k)" using wf_wild_canonical [OF ts(2) wild] .
      let ?m = "st_wildcard_metadata_span (tk_text ?k) (tk_type ?k)"
      have acc: "follows_token ?k ?t \<longleftrightarrow> st_runtime_type_matches (nf_type ?f) (tk_type ?k) \<and>
          closed_metadata_matches (tk_text ?t) (nf_type ?f) (tk_type ?k) ?m"
        using plain wild key(1) span_metadata_eq [OF can]
        by (simp add: follows_token_def token_accepts_def param_matches_def)
      have match: "?match \<longleftrightarrow> st_runtime_type_matches (nf_type ?f) (tk_type ?k) \<and>
          (case ?m of None \<Rightarrow> True | Some m \<Rightarrow> \<not> st_metadata_requires_value m \<or>
             nf_observations ?f \<noteq> 0 \<and> \<not> nf_mixed ?f \<and> nf_common ?f = me_id m)"
        using plain wild by (auto simp: variant_prefix_matches_def variant_prefix_of_def Let_def split: option.splits)
      show ?thesis
      proof (cases ?m)
        case None
        then show ?thesis unfolding match acc loosely_follows_def by (simp add: closed_metadata_matches_def)
      next
        case (Some m)
        have same: "st_runtime_type_matches (nf_type ?f) (tk_type ?k) \<Longrightarrow> nf_type ?f = tk_type ?k"
          using parameter_type [OF ts(2) wild Some] by blast
        have common: "token_metadata ?t = nf_common ?f" if "nf_type ?f = tk_type ?k" "\<not> nf_mixed ?f"
        proof -
          have u: "uniform ks" "nf_common ?f = token_metadata (hd ks)" using node(1) that wild by (auto simp: noted_def)
          then show ?thesis using h(3) unfolding uniform_def list_all_iff by metis
        qed
        have "plain_prefix ts (Suc i) \<Longrightarrow> \<not> st_metadata_requires_value m"
          using Some wild by (auto simp: plain_prefix_def)
        then show ?thesis
          unfolding match acc loosely_follows_def using Some same common key(1) by (auto simp: closed_metadata_matches_def)
      qed
    qed
  qed
  then show "?match \<Longrightarrow> loosely_follows ts i ?t"
    "\<lbrakk>0 < i \<Longrightarrow> follows_token (ts ! (i - 1)) (h ! (i - 1)); plain_prefix ts (Suc i); follows_token ?k ?t\<rbrakk> \<Longrightarrow> ?match"
    by blast+
qed

lemma seen_node:
  assumes node: "noted (nd_fields c) ks" "\<And>t. t \<in> set ks \<Longrightarrow> tok_key t = node_key c" and t: "t \<in> set ks"
  shows "bit (variant_seen token c) (type_index ty) \<longleftrightarrow> offers token t ty"
proof -
  have key: "tk_type t = nf_type (nd_fields c)" "nf_type (nd_fields c) = ST_TYPE_LITERAL \<Longrightarrow> tk_text t = nf_token (nd_fields c)"
    using node(2) [OF t] by (auto simp: tok_key_def node_key_def split: if_splits)
  show ?thesis
    using key node(1) by (auto simp: variant_seen_def offers_def Let_def noted_def bit_and_iff bit_not_iff type_index_lt_64 split: option.splits)
qed

lemma foldl_or:
  fixes f :: "type_mask \<Rightarrow> 'a \<Rightarrow> type_mask"
  assumes "\<And>w c. c \<in> set cs \<Longrightarrow> f w c = w OR f 0 c"
  shows "bit (foldl f w cs) b \<longleftrightarrow> bit w b \<or> (\<exists>c\<in>set cs. bit (f 0 c) b)"
  using assms
proof (induction cs arbitrary: w)
  case (Cons c cs)
  have "bit (foldl f (f w c) cs) b \<longleftrightarrow> bit (f w c) b \<or> (\<exists>c\<in>set cs. bit (f 0 c) b)"
    by (rule Cons.IH) (rule Cons.prems, simp)
  moreover have "bit (f w c) b \<longleftrightarrow> bit w b \<or> bit (f 0 c) b"
    using arg_cong [OF Cons.prems [of c w], of "\<lambda>x. bit x b"] by (simp add: bit_or_iff)
  ultimately show ?case by simp
qed simp

lemma collect_or: "collect_variants_at ts ps pos d n w = w OR collect_variants_at ts ps pos d n 0"
proof (induction n arbitrary: d w)
  case (Node f cs)
  show ?case
  proof (rule bit_eqI)
    fix b
    show "bit (collect_variants_at ts ps pos d (Node f cs) w) b = bit (w OR collect_variants_at ts ps pos d (Node f cs) 0) b"
    proof (cases "d = pos")
      case True
      have split: "bit (foldl (\<lambda>w c. w OR variant_seen (ts ! pos) c) w cs) b \<longleftrightarrow>
          bit w b \<or> (\<exists>c\<in>set cs. bit (0 OR variant_seen (ts ! pos) c) b)" for w
        by (rule foldl_or) simp
      show ?thesis using split [of w] split [of 0] True by (simp add: bit_or_iff)
    next
      case False
      let ?g = "\<lambda>w c. if variant_prefix_matches c (ts ! d) (ps ! d) then collect_variants_at ts ps pos (d + 1) c w else w"
      have split: "bit (foldl ?g w cs) b \<longleftrightarrow> bit w b \<or> (\<exists>c\<in>set cs. bit (?g 0 c) b)" for w
      proof (rule foldl_or)
        fix w c
        assume "c \<in> set cs"
        from Node.IH [OF this, of "d + 1" w] show "?g w c = w OR ?g 0 c" by simp
      qed
      have "collect_variants_at ts ps pos d (Node f cs) w = foldl ?g w cs" for w using False by simp
      then show ?thesis using split [of w] split [of 0] by (simp only: bit_or_iff) simp
    qed
  qed
qed

lemma collect_bit:
  "bit (collect_variants_at ts ps pos d n 0) b \<longleftrightarrow>
     (\<exists>c\<in>set (nd_children n). if d = pos then bit (variant_seen (ts ! pos) c) b
        else variant_prefix_matches c (ts ! d) (ps ! d) \<and> bit (collect_variants_at ts ps pos (d + 1) c 0) b)"
proof (cases n)
  case (Node f cs)
  show ?thesis
  proof (cases "d = pos")
    case True
    have "bit (foldl (\<lambda>w c. w OR variant_seen (ts ! pos) c) 0 cs) b \<longleftrightarrow>
        bit (0 :: type_mask) b \<or> (\<exists>c\<in>set cs. bit (0 OR variant_seen (ts ! pos) c) b)"
      by (rule foldl_or) simp
    then show ?thesis using True Node by simp
  next
    case False
    let ?g = "\<lambda>w c. if variant_prefix_matches c (ts ! d) (ps ! d) then collect_variants_at ts ps pos (d + 1) c w else w"
    have g: "?g w c = w OR ?g 0 c" for w c using collect_or [of ts ps pos "d + 1" c w] by simp
    have "bit (foldl ?g 0 cs) b \<longleftrightarrow> bit (0 :: type_mask) b \<or> (\<exists>c\<in>set cs. bit (?g 0 c) b)"
      by (rule foldl_or) (rule g)
    then show ?thesis using False Node by auto
  qed
qed

lemma onward_node:
  assumes "through n d G" "c \<in> set (nd_children n)"
  obtains h where "h \<in> set (onward G d c)"
  using through_child(2) [OF assms] by (cases "onward G d c") (auto simp: noted_def)

lemma onward_member:
  "h \<in> set (onward G d c) \<longleftrightarrow> h \<in> set G \<and> d < length h \<and> tok_key (h ! d) = node_key c"
  by (auto simp: onward_def)

lemma seen_child:
  assumes "through n d G" "c \<in> set (nd_children n)" "h \<in> set (onward G d c)"
  shows "bit (variant_seen token c) (type_index ty) \<longleftrightarrow> offers token (h ! d) ty"
  by (rule seen_node [OF through_child(2) [OF assms(1,2)]]) (use assms(3) in \<open>auto simp: onward_member\<close>)

lemma collected_sound:
  assumes ts: "list_all wf_token ts" "pos < length ts"
  shows "through n d G \<Longrightarrow> d \<le> pos \<Longrightarrow>
    bit (collect_variants_at ts (map (variant_prefix_of ts) [0..<pos]) pos d n 0) (type_index ty) \<Longrightarrow>
    \<exists>h\<in>set G. pos < length h \<and> offers (ts ! pos) (h ! pos) ty \<and> (\<forall>i. d \<le> i \<and> i < pos \<longrightarrow> loosely_follows ts i (h ! i))"
proof (induction "pos - d" arbitrary: d n G)
  case 0
  then have d: "d = pos" by simp
  obtain c where c: "c \<in> set (nd_children n)" "bit (variant_seen (ts ! pos) c) (type_index ty)"
    using "0.prems"(3) unfolding collect_bit [of ts _ pos d n] by (auto simp: d)
  obtain h where h: "h \<in> set (onward G d c)" using onward_node [OF "0.prems"(1) c(1)] .
  have "offers (ts ! pos) (h ! d) ty"
    using c(2) seen_child [OF "0.prems"(1) c(1) h] by simp
  then show ?case using h d by (auto simp: onward_member)
next
  case (Suc k)
  then have d: "d < pos" "k = pos - (d + 1)" "d + 1 \<le> pos" by simp_all
  obtain c where c: "c \<in> set (nd_children n)" "variant_prefix_matches c (ts ! d) (variant_prefix_of ts d)"
      "bit (collect_variants_at ts (map (variant_prefix_of ts) [0..<pos]) pos (d + 1) c 0) (type_index ty)"
    using Suc.prems(3) d(1) unfolding collect_bit [of ts _ pos d n] by auto
  note child = through_child [OF Suc.prems(1) c(1)]
  obtain h where h: "h \<in> set (onward G d c)" "pos < length h" "offers (ts ! pos) (h ! pos) ty"
      "\<forall>i. d + 1 \<le> i \<and> i < pos \<longrightarrow> loosely_follows ts i (h ! i)"
    using Suc.hyps(1) [OF d(2) child(1) d(3) c(3)] by blast
  have "loosely_follows ts d (h ! d)"
    by (rule prefix_match_node(1) [OF _ _ child(2)])
      (use ts d h(1,2) c(2) Suc.prems(1) in \<open>auto simp: onward_member list_all_length through_def\<close>)
  then have "loosely_follows ts i (h ! i)" if "d \<le> i" "i < pos" for i
    by (cases "i = d") (use h(4) that in simp_all)
  then show ?case using h(1-3) by (auto simp: onward_member)
qed

lemma collected_complete:
  assumes ts: "list_all wf_token ts" "pos < length ts" "plain_prefix ts pos" and ty: "offers (ts ! pos) (h ! pos) ty"
    and h: "pos < length h" "\<forall>i<pos. follows_token (ts ! i) (h ! i)"
  shows "through n d G \<Longrightarrow> d \<le> pos \<Longrightarrow> h \<in> set G \<Longrightarrow>
    bit (collect_variants_at ts (map (variant_prefix_of ts) [0..<pos]) pos d n 0) (type_index ty)"
proof (induction "pos - d" arbitrary: d n G)
  case 0
  then have d: "d = pos" by simp
  have "tok_key (h ! d) \<in> set (map node_key (nd_children n))"
    using "0.prems" h(1) d unfolding through_def children_represent.simps [of "nd_children n"]
    by (auto simp: hd_drop_conv_nth)
  then obtain c where c: "c \<in> set (nd_children n)" "tok_key (h ! d) = node_key c" by auto
  then have "h \<in> set (onward G d c)" using "0.prems"(3) h(1) d by (simp add: onward_member)
  then have "bit (variant_seen (ts ! pos) c) (type_index ty)"
    using seen_child [OF "0.prems"(1) c(1)] ty d by simp
  then show ?case unfolding collect_bit [of ts _ pos d n] using c(1) d by auto
next
  case (Suc k)
  then have d: "d < pos" by simp
  have "tok_key (h ! d) \<in> set (map node_key (nd_children n))"
    using Suc.prems h(1) d unfolding through_def children_represent.simps [of "nd_children n"]
    by (auto simp: hd_drop_conv_nth)
  then obtain c where c: "c \<in> set (nd_children n)" "tok_key (h ! d) = node_key c" by auto
  then have on: "h \<in> set (onward G d c)" using Suc.prems(3) h(1) d by (simp add: onward_member)
  note child = through_child [OF Suc.prems(1) c(1)]
  have "plain_prefix ts (Suc d)" using ts(3) d unfolding plain_prefix_def by (meson less_trans_Suc not_less_eq order.strict_trans)
  then have "variant_prefix_matches c (ts ! d) (variant_prefix_of ts d)"
    by (intro prefix_match_node(2) [OF _ _ child(2), where h = h])
      (use ts d h on Suc.prems(1,3) in \<open>auto simp: onward_member list_all_length through_def\<close>)
  moreover have "bit (collect_variants_at ts (map (variant_prefix_of ts) [0..<pos]) pos (d + 1) c 0) (type_index ty)"
    using Suc.hyps(1) [OF _ child(1) _ on] Suc.hyps(2) d by simp
  ultimately show ?case unfolding collect_bit [of ts _ pos d n] using c(1) d by auto
qed

section \<open>Listing\<close>

lemma inner_types_iff [simp]: "t \<in> set inner_types \<longleftrightarrow> t \<noteq> ST_TYPE_LITERAL \<and> t \<noteq> ST_TYPE_ANY"
  by (cases t) (simp_all add: inner_types_def proper_types_def all_token_types_def)

abbreviation in_mask :: "st_token_type \<Rightarrow> type_mask \<Rightarrow> bool" where
  "in_mask t w \<equiv> bit w (type_index t)"

lemma mask_remove: "in_mask t (w AND NOT (type_bit u)) \<longleftrightarrow> in_mask t w \<and> t \<noteq> u"
  by (auto simp: bit_and_iff bit_not_iff type_index_lt_64)

lemma most_specific_Some:
  assumes "most_specific_remaining w = Some t"
  shows "in_mask t w" "t \<in> set inner_types" "u \<in> set inner_types \<Longrightarrow> in_mask u w \<Longrightarrow> st_is_compatible u t \<Longrightarrow> u = t"
  using find_Some_mem [OF assms [unfolded most_specific_remaining_def]] type_lattice.order.antisym [of u t]
  by (auto simp: list_ex_iff)

lemma distinct_inner: "distinct inner_types"
  by (simp add: inner_types_def proper_types_def all_token_types_def)

lemma most_specific_None:
  assumes "most_specific_remaining w = None"
  shows "t \<in> set inner_types \<Longrightarrow> \<not> in_mask t w"
proof (induction "length (filter (\<lambda>u. st_is_compatible u t) inner_types)" arbitrary: t rule: less_induct)
  case less
  show ?case
  proof
    assume t: "in_mask t w"
    then obtain u where u: "u \<in> set inner_types" "u \<noteq> t" "in_mask u w" "st_is_compatible u t" "\<not> st_is_compatible t u"
      using assms less.prems unfolding most_specific_remaining_def by (auto simp: find_None_iff list_ex_iff)
    let ?below = "\<lambda>v. filter (\<lambda>u. st_is_compatible u v) inner_types"
    have sub: "set (?below u) \<subseteq> set (?below t)"
      using u(4) type_lattice.order.trans by (auto simp del: inner_types_iff)
    moreover have "t \<in> set (?below t)" "t \<notin> set (?below u)" using u(5) less.prems by simp_all
    ultimately have psub: "set (?below u) \<subset> set (?below t)" by blast
    have dist: "distinct (?below v)" for v by (rule distinct_filter [OF distinct_inner])
    have "length (?below u) < length (?below t)"
      using psubset_card_mono [OF List.finite_set psub] unfolding distinct_card [OF dist] .
    from less.hyps [OF this u(1)] u(3) show False by simp
  qed
qed

lemma add_remaining_lists:
  "\<exists>mid. add_remaining n w out = out @ map variant_of mid \<and> length mid \<le> n \<and> distinct mid \<and>
     (\<forall>t\<in>set mid. in_mask t w \<and> t \<in> set inner_types) \<and> sorted_wrt (\<lambda>t u. \<not> st_is_compatible u t) mid \<and>
     (length mid = n \<or> (\<forall>t\<in>set inner_types. in_mask t w \<longrightarrow> t \<in> set mid))"
proof (induction n arbitrary: w out)
  case (Suc n)
  show ?case
  proof (cases "w = 0 \<or> most_specific_remaining w = None")
    case True
    then have "\<forall>t\<in>set inner_types. \<not> in_mask t w" using most_specific_None by auto
    then show ?thesis using True by (intro exI [of _ "[]"]) (auto simp del: inner_types_iff)
  next
    case False
    then obtain t where t: "most_specific_remaining w = Some t" by auto
    note T = most_specific_Some [OF t]
    let ?w = "w AND NOT (type_bit t)"
    obtain mid where mid: "add_remaining n ?w (out @ [variant_of t]) = (out @ [variant_of t]) @ map variant_of mid" "length mid \<le> n"
      "distinct mid" "\<forall>u\<in>set mid. in_mask u ?w \<and> u \<in> set inner_types" "sorted_wrt (\<lambda>t u. \<not> st_is_compatible u t) mid"
      "length mid = n \<or> (\<forall>u\<in>set inner_types. in_mask u ?w \<longrightarrow> u \<in> set mid)"
      using Suc.IH [of ?w "out @ [variant_of t]"] by blast
    have "u \<noteq> t \<and> in_mask u w \<and> \<not> st_is_compatible u t" if "u \<in> set mid" for u
      using mid(4) that T(3) [of u] by (auto simp: mask_remove)
    then have "sorted_wrt (\<lambda>t u. \<not> st_is_compatible u t) (t # mid)" "distinct (t # mid)" using mid(3,5) by auto
    moreover have "\<forall>u\<in>set (t # mid). in_mask u w \<and> u \<in> set inner_types" using mid(4) T(1,2) by (auto simp: mask_remove)
    moreover have "length (t # mid) = Suc n \<or> (\<forall>u\<in>set inner_types. in_mask u w \<longrightarrow> u \<in> set (t # mid))"
      using mid(6) by (auto simp: mask_remove)
    moreover have "add_remaining (Suc n) w out = out @ map variant_of (t # mid)" using False t mid(1) by simp
    ultimately show ?thesis using mid(2) by (intro exI [of _ "t # mid"]) (auto simp del: inner_types_iff)
  qed
qed (auto intro: exI [of _ "[]"])

end
