(* ===== verification/Variants_Claims.thy ===== *)
theory Variants_Claims imports Variants_Spec Suggest_Claims begin

text \<open>
  The properties of the token variants: what is offered, where it was observed, and what applying
  an offer does to a pattern.
\<close>

unbundle bit_operations_syntax

text \<open>What a learner observed at a position of a pattern, and what is offered when that is
  nothing.\<close>

definition observed_types :: "st_learner \<Rightarrow> st_token list \<Rightarrow> nat \<Rightarrow> type_mask" where
  "observed_types l ts pos = collect_variants_at ts (map (variant_prefix_of ts) [0..<pos]) pos 0 (ln_root l) 0"

definition offered_types :: "st_learner \<Rightarrow> st_token list \<Rightarrow> nat \<Rightarrow> type_mask" where
  "offered_types l ts pos =
     (let w = observed_types l ts pos; current_type = st_token_edit_type (ts ! pos) in
      if w \<noteq> 0 then w
      else if current_type \<noteq> ST_TYPE_LITERAL \<and> current_type \<noteq> ST_TYPE_ANY then type_bit current_type
      else if current_type = ST_TYPE_LITERAL then type_bit ST_TYPE_VALUE else 0)"

text \<open>The general category offered next to a common type.\<close>

definition general_category :: "st_token_type \<Rightarrow> st_token_type list" where
  "general_category t =
     (if t = ST_TYPE_ABS_PATH \<or> t = ST_TYPE_REL_PATH then [ST_TYPE_PATH]
      else if t = ST_TYPE_HEXHASH \<or> t = ST_TYPE_SHA then [ST_TYPE_VALUE] else [])"

lemma history_through:
  assumes "learner_history l (map classify_argv argvs)"
  shows "through (ln_root l) 0 (map classify_argv argvs)"
proof -
  have "stands_for (ln_root l) (map classify_argv argvs)"
    using history_holds [OF assms] by (simp add: learner_holds_def)
  then show ?thesis
    using classified_in_context by (auto simp: stands_for_def represents_def through_def)
qed

lemma has_variant_types [simp]: "has_variant t (map variant_of ts) \<longleftrightarrow> t \<in> set ts"
  by (induction ts) (auto simp: has_variant_def variant_of_def)

lemma has_variant_append [simp]: "has_variant t (xs @ ys) \<longleftrightarrow> has_variant t xs \<or> has_variant t ys"
  by (simp add: has_variant_def)

lemma variants_listed:
  fixes l :: st_learner and ts :: "st_token list"
  assumes pos: "pos < length ts" "st_pattern_token_type_allowed (ts ! 0) 0 (tk_type (ts ! 0))"
    "st_pattern_token_type_allowed (ts ! pos) pos (st_token_edit_type (ts ! pos))"
  defines "current \<equiv> st_token_edit_type (ts ! pos)" and "w \<equiv> offered_types l ts pos"
  defines "first \<equiv> if current \<noteq> ST_TYPE_ANY \<and> in_mask current w then [current] else []"
    and "widest \<equiv> if st_pattern_token_type_allowed (ts ! pos) pos ST_TYPE_ANY then [ST_TYPE_ANY] else []"
  shows "\<exists>rest general. st_learner_suggest_token_variants l ts pos = map variant_of (first @ rest @ general @ widest) \<and>
    distinct (first @ rest @ general @ widest) \<and> length (first @ rest @ general) \<le> 7 \<and>
    (\<forall>t\<in>set rest. in_mask t w) \<and> sorted_wrt (\<lambda>t u. \<not> st_is_compatible u t) rest \<and>
    (length (first @ rest) = 7 \<or> (\<forall>t\<in>set inner_types. in_mask t w \<longrightarrow> t \<in> set (first @ rest))) \<and>
    set general \<subseteq> set (general_category current) \<and>
    (length (first @ rest) = 7 \<or> set (general_category current) \<subseteq> set (first @ rest @ general))"
proof -
  let ?w = "if first \<noteq> [] then w AND NOT (type_bit current) else w"
  have firsts: "length first \<le> 1" "set first \<subseteq> {current}" "current = ST_TYPE_ANY \<Longrightarrow> first = []"
    by (auto simp: first_def)
  obtain rest where rest: "add_remaining (7 - length first) ?w (map variant_of first) = map variant_of first @ map variant_of rest"
      "length rest \<le> 7 - length first" "distinct rest" "\<forall>t\<in>set rest. in_mask t ?w \<and> t \<in> set inner_types"
      "sorted_wrt (\<lambda>t u. \<not> st_is_compatible u t) rest"
      "length rest = 7 - length first \<or> (\<forall>t\<in>set inner_types. in_mask t ?w \<longrightarrow> t \<in> set rest)"
    using add_remaining_lists [of "7 - length first" ?w "map variant_of first"] by blast
  define listed where "listed = first @ rest"
  let ?room = "length listed < 7"
  define paths where "paths = (if ?room \<and> (current = ST_TYPE_ABS_PATH \<or> current = ST_TYPE_REL_PATH) \<and> ST_TYPE_PATH \<notin> set listed then [ST_TYPE_PATH] else [])"
  define vals where "vals = (if ?room \<and> (current = ST_TYPE_HEXHASH \<or> current = ST_TYPE_SHA) \<and> ST_TYPE_VALUE \<notin> set (listed @ paths) then [ST_TYPE_VALUE] else [])"
  define general where "general = paths @ vals"
  have len: "length listed \<le> 7" "length (listed @ general) \<le> 7"
    using rest(2) firsts(1) by (auto simp: listed_def general_def paths_def vals_def)
  have "distinct listed" "ST_TYPE_ANY \<notin> set listed"
    using rest(3,4) firsts by (auto simp: listed_def first_def mask_remove split: if_splits)
  then have dist: "distinct (listed @ general @ widest)"
    by (auto simp: general_def paths_def vals_def widest_def)
  have all: "length listed = 7 \<or> (\<forall>t\<in>set inner_types. in_mask t w \<longrightarrow> t \<in> set listed)"
    using rest(6) rest(2) firsts(1) by (auto simp: listed_def first_def mask_remove)
  have "st_learner_suggest_token_variants l ts pos = map variant_of (listed @ general @ widest)"
  proof -
    have "map variant_of first = (if current \<noteq> ST_TYPE_ANY \<and> w AND type_bit current \<noteq> 0 then [variant_of current] else [])"
      "?w = (if current \<noteq> ST_TYPE_ANY \<and> w AND type_bit current \<noteq> 0 then w AND NOT (type_bit current) else w)"
      by (simp_all add: first_def)
    note F = this [symmetric]
    have M: "map variant_of first @ map variant_of rest = map variant_of listed" by (simp add: listed_def)
    have P: "(if length (map variant_of listed) < 8 - 1 \<and> (current = ST_TYPE_ABS_PATH \<or> current = ST_TYPE_REL_PATH) \<and>
          \<not> has_variant ST_TYPE_PATH (map variant_of listed) then map variant_of listed @ [variant_of ST_TYPE_PATH] else map variant_of listed)
        = map variant_of (listed @ paths)" by (simp add: paths_def)
    have V: "(if length (map variant_of listed) < 8 - 1 \<and> (current = ST_TYPE_HEXHASH \<or> current = ST_TYPE_SHA) \<and>
          \<not> has_variant ST_TYPE_VALUE (map variant_of (listed @ paths)) then map variant_of (listed @ paths) @ [variant_of ST_TYPE_VALUE]
          else map variant_of (listed @ paths))
        = map variant_of (listed @ general)" by (simp add: vals_def general_def)
    have G: "(edit_pos \<ge> length ts) = False" if "edit_pos = pos" for edit_pos using pos(1) that by simp
    have H: "(\<not> st_pattern_token_type_allowed (ts ! 0) 0 (tk_type (ts ! 0))) = False"
      "(\<not> st_pattern_token_type_allowed (ts ! pos) pos (st_token_edit_type (ts ! pos))) = False"
      using pos(2,3) by simp_all
    have seven: "8 - 1 - length (map variant_of first) = 7 - length first" by simp
    have A: "add_remaining (8 - 1 - length (map variant_of first)) ?w (map variant_of first) = map variant_of listed"
      unfolding seven rest(1) M ..
    have fin: "length (map variant_of (listed @ general)) < 8" using len(2) by simp
    show ?thesis
      unfolding st_learner_suggest_token_variants_def
      unfolding G [OF refl] H if_False Let_def ST_MAX_TOKEN_VARIANTS_def
      unfolding observed_types_def [symmetric]
      unfolding offered_types_def [unfolded Let_def, symmetric]
      unfolding w_def [symmetric] current_def [symmetric]
      unfolding F
      unfolding A
      unfolding P
      unfolding V
      using fin by (simp add: widest_def)
  qed
  moreover have "\<forall>t\<in>set rest. in_mask t w"
    using rest(4) by (simp add: mask_remove split: if_splits)
  moreover have "set general \<subseteq> set (general_category current)"
    by (auto simp: general_def paths_def vals_def general_category_def)
  moreover have "length listed = 7 \<or> set (general_category current) \<subseteq> set (listed @ general)"
    using len(1) by (auto simp: general_def paths_def vals_def general_category_def)
  ultimately show ?thesis
    using dist len(2) rest(5) all
    unfolding listed_def append_assoc by blast
qed

section \<open>Properties\<close>

text \<open>C38: The widening choices of a token are the literal itself for a whole word, then the chain of the
  supertypes of its starting type in the lattice, nearest first, each once, and last the wildcard where
  the position allows one; a limit cuts the list off and changes nothing else. The starting type is the
  type of the token or, for a literal, the least type above every type the word can be classified as.
  A position outside the pattern and a head that a policy does not take offer nothing.\<close>

theorem variants_are_the_supertypes:
  "st_token_variants_at ts pos limit =
     (if pos < length ts \<and> st_pattern_token_type_allowed (ts ! 0) 0 (tk_type (ts ! 0)) \<and>
         st_pattern_token_type_allowed (ts ! pos) pos (st_token_edit_type (ts ! pos))
      then take limit (map variant_of
        ((if tk_compound (ts ! pos) then [] else [ST_TYPE_LITERAL]) @
         (if variant_start ts pos = ST_TYPE_LITERAL then []
          else filter (\<lambda>u. u \<noteq> ST_TYPE_ANY) (ancestors (variant_start ts pos))) @
         (if st_pattern_token_type_allowed (ts ! pos) pos ST_TYPE_ANY then [ST_TYPE_ANY] else [])))
      else [])"
  unfolding variants_chain variant_choices_def inner_ancestors_def Let_def ..

text \<open>C37: A widening choice is safe to apply. Every choice offered for a position of a canonical pattern, other
  than leaving a literal alone, can be applied there: the result is the canonical encoding of the
  pattern with that one token widened, and it accepts every command that the edited pattern accepts.
  Applying it fails only when the new encoding would be too long.\<close>

theorem variant_covers:
  assumes "st_netpattern_decode_view (np_view s) = Inr ts"
    and "v \<in> set (st_token_variants_at ts pos limit)" "tv_type v \<noteq> ST_TYPE_LITERAL"
  shows "case st_netpattern_apply_type_at_owned (np_view s) pos (tv_type v) of
      Inl e \<Rightarrow> e = ST_ERR_LIMIT \<and>
        ST_MAX_NETPATTERN_LEN \<le> length (concat (map record_of (ts[pos := retyped_token (ts ! pos) (tv_type v)])))
    | Inr out \<Rightarrow> \<exists>us. st_netpattern_decode_view (np_view out) = Inr us \<and>
        us = ts[pos := retyped_token (ts ! pos) (tv_type v)] \<and> pattern_subsumes us ts \<and>
        (\<forall>args. pattern_accepts ts args \<longrightarrow> pattern_accepts us args)"
proof -
  let ?us = "ts[pos := retyped_token (ts ! pos) (tv_type v)]"
  have wf: "list_all wf_token ts" using assms(1) by (simp add: decode_view_Inr_iff)
  have guards: "pos < length ts" "st_pattern_token_type_allowed (ts ! 0) 0 (tk_type (ts ! 0))"
      "st_pattern_token_type_allowed (ts ! pos) pos (st_token_edit_type (ts ! pos))"
      "tv_type v \<in> set (variant_choices ts pos)"
    using assms(2) by (auto simp: variants_chain variant_of_def split: if_splits dest!: in_set_takeD)
  have head: "st_pattern_token_type_allowed (ts ! 0) 0 (if pos = 0 then tv_type v else tk_type (ts ! 0))"
    using guards by (auto simp: st_pattern_token_type_allowed_def variant_choices_def Let_def inner_ancestors_def split: if_splits)
  note E = apply_type_effect [OF assms(1,3) guards(1) head]
  have sub: "pattern_subsumes ?us ts" using choice_covers [OF wf guards(1,4) assms(3)] .
  then have "pattern_accepts ?us args" if "pattern_accepts ts args" for args
    using subsumes_sound [OF E(1) wf _ that] by blast
  then show ?thesis using E sub by (cases "length (concat (map record_of ?us)) < ST_MAX_NETPATTERN_LEN") auto
qed

text \<open>C39: What a learner reports as observed was observed. For every reachable learner, whatever it was fed
  or loaded, a type is collected at a position only when one of the commands has an argument of that
  type there (for a compound, an argument with the affixes whose middle has the type) and its earlier
  arguments follow the pattern, where a literal may also stand for a typed argument it could be; and
  when the earlier tokens are whole words without a parameter, every such command is found.\<close>

theorem learner_variants_observed:
  assumes "learner_history l (map classify_argv argvs)"
    and "st_netpattern_decode_view (np_view s) = Inr ts" "pos < length ts"
  defines "observed \<equiv> collect_variants_at ts (map (variant_prefix_of ts) [0..<pos]) pos 0 (ln_root l) 0"
  shows "(in_mask ty observed \<longrightarrow>
      (\<exists>h\<in>set (map classify_argv argvs). pos < length h \<and> offers (ts ! pos) (h ! pos) ty \<and>
         (\<forall>i<pos. loosely_follows ts i (h ! i)))) \<and>
    (plain_prefix ts pos \<and>
      (\<exists>h\<in>set (map classify_argv argvs). pos < length h \<and> offers (ts ! pos) (h ! pos) ty \<and>
         (\<forall>i<pos. follows_token (ts ! i) (h ! i))) \<longrightarrow> in_mask ty observed)"
proof -
  have wf: "list_all wf_token ts" using assms(2) by (simp add: decode_view_Inr_iff)
  note G = history_through [OF assms(1)]
  have sound: "\<exists>h\<in>set (map classify_argv argvs). pos < length h \<and> offers (ts ! pos) (h ! pos) ty \<and>
      (\<forall>i<pos. loosely_follows ts i (h ! i))" if "in_mask ty observed"
    using collected_sound [OF wf assms(3) G, of ty] that by (simp add: observed_def)
  have complete_: "in_mask ty observed" if "plain_prefix ts pos" "h \<in> set (map classify_argv argvs)" "pos < length h"
      "offers (ts ! pos) (h ! pos) ty" "\<forall>i<pos. follows_token (ts ! i) (h ! i)" for h
    using collected_complete [OF wf assms(3) that(1,4,3,5) G _ that(2)] by (simp add: observed_def)
  show ?thesis using sound complete_ by blast
qed

text \<open>C40: The list of alternatives. For a supported position, the current type comes first when it was observed
  (what is observed defaults to the current type, and to a plain value for a literal); then every
  observed type, never a type after one of its supertypes; then the general category of a path or a
  hash; the wildcard last, where the position allows one. Nothing is listed twice, and observed types are left out
  only when seven others are listed.\<close>

theorem learner_variants_listed:
  fixes l :: st_learner and ts :: "st_token list"
  assumes "pos < length ts" "st_pattern_token_type_allowed (ts ! 0) 0 (tk_type (ts ! 0))"
    "st_pattern_token_type_allowed (ts ! pos) pos (st_token_edit_type (ts ! pos))"
  defines "current \<equiv> st_token_edit_type (ts ! pos)" and "w \<equiv> offered_types l ts pos"
  defines "first \<equiv> if current \<noteq> ST_TYPE_ANY \<and> in_mask current w then [current] else []"
    and "widest \<equiv> if st_pattern_token_type_allowed (ts ! pos) pos ST_TYPE_ANY then [ST_TYPE_ANY] else []"
  shows "\<exists>rest general. st_learner_suggest_token_variants l ts pos = map variant_of (first @ rest @ general @ widest) \<and>
    distinct (first @ rest @ general @ widest) \<and> length (first @ rest @ general) \<le> 7 \<and>
    (\<forall>t\<in>set rest. in_mask t w) \<and> sorted_wrt (\<lambda>t u. \<not> st_is_compatible u t) rest \<and>
    (length (first @ rest) = 7 \<or> (\<forall>t\<in>set inner_types. in_mask t w \<longrightarrow> t \<in> set (first @ rest))) \<and>
    set general \<subseteq> set (general_category current) \<and>
    (length (first @ rest) = 7 \<or> set (general_category current) \<subseteq> set (first @ rest @ general))"
  unfolding current_def w_def first_def widest_def by (rule variants_listed [OF assms(1-3)])

section \<open>Witnesses\<close>

text \<open>Widening a number to a value, as an argument and as a command word, and a learner that took the
  command \<open>7\<close>.\<close>

definition head_n :: "st_token list" where
  "head_n = [plain_token ''ls'' ST_TYPE_LITERAL, plain_token ''#n'' ST_TYPE_NUMBER]"

definition only_n :: "st_token list" where
  "only_n = [plain_token ''#n'' ST_TYPE_NUMBER]"

definition seven :: "st_token list" where
  "seven = [plain_token ''7'' ST_TYPE_NUMBER]"

definition seven_learner :: st_learner where
  "seven_learner = snd (st_learner_feed_tokens (\<lambda>_. True) eager_learner (Some seven))"

lemma number_wf: "wf_token (plain_token ''#n'' ST_TYPE_NUMBER)" "wf_token (plain_token ''ls'' ST_TYPE_LITERAL)"
  using ls_pattern_ok type_symbol_canonical [of ST_TYPE_NUMBER]
  by (simp_all add: wf_token_def plain_token_def ST_MAX_TOKEN_LEN_def pattern_ok_def ls_pattern_def)

lemma short_records:
  "length (record_of (plain_token ''ls'' ST_TYPE_LITERAL)) \<le> 16" "length (record_of (plain_token ''#n'' ST_TYPE_NUMBER)) \<le> 16"
  "length (record_of (plain_token ''#val'' ST_TYPE_VALUE)) \<le> 18"
  using length_tagged_small [of "''ls''" "CHR ''L''"] length_tagged_small [of "''#n''" "CHR ''T''"] length_tagged_small [of "''#val''" "CHR ''T''"]
  by (simp_all add: record_of_def record_tag_value_def tagged_enc_def)

lemma head_n_decodes: "st_netpattern_decode_view (np_view (concat (map record_of head_n))) = Inr head_n"
    "st_netpattern_decode_view (np_view (concat (map record_of only_n))) = Inr only_n"
  using number_wf short_records by (simp_all add: decode_view_Inr_iff head_n_def only_n_def ST_MAX_CMD_TOKENS_def ST_MAX_NETPATTERN_LEN_def)

lemma seven_fed: "st_learner_feed_tokens (\<lambda>_. True) eager_learner (Some seven) = (ST_OK, seven_learner)"
  by (simp add: seven_learner_def learner_eval seven_def Let_def)

lemma seven_class: "classify_argv [''7''] = seven"
proof -
  have "st_token_classify_context ''7'' ST_ARG_CONTEXT_NONE = ST_TYPE_NUMBER" by code_simp
  then show ?thesis by (simp add: classify_argv_def seven_def)
qed

lemma seven_history: "learner_history seven_learner (map classify_argv [[''7'']])"
  using fed_tokens [OF eager_history seven_fed] by (simp add: seven_class)

theorem variant_covers_witness:
  "\<exists>out. st_netpattern_apply_type_at_owned (np_view (concat (map record_of head_n))) 1 ST_TYPE_VALUE = Inr out \<and>
     st_netpattern_decode_view (np_view out) = Inr [plain_token ''ls'' ST_TYPE_LITERAL, plain_token ''#val'' ST_TYPE_VALUE]"
proof -
  have "variant_of ST_TYPE_VALUE \<in> set (st_token_variants_at head_n 1 8)"
    by (simp add: variants_chain variant_choices_def head_n_def plain_token_def inner_ancestors_def variant_start_def
        st_token_edit_type_def st_pattern_token_type_allowed_def)
  note C = variant_covers [OF head_n_decodes(1) this]
  have us: "head_n[1 := retyped_token (head_n ! 1) ST_TYPE_VALUE] = [plain_token ''ls'' ST_TYPE_LITERAL, plain_token ''#val'' ST_TYPE_VALUE]"
    by (simp add: head_n_def retyped_token_def plain_token_def)
  have "length (concat (map record_of (head_n[1 := retyped_token (head_n ! 1) ST_TYPE_VALUE]))) < ST_MAX_NETPATTERN_LEN"
    unfolding us using short_records by (simp add: ST_MAX_NETPATTERN_LEN_def)
  then show ?thesis using C unfolding us variant_of_def st_token_variant.simps by (auto split: sum.splits)
qed

theorem learner_variants_observed_witness:
  "in_mask ST_TYPE_NUMBER (collect_variants_at only_n [] 0 0 (ln_root seven_learner) 0)"
proof -
  have "plain_prefix only_n 0" "offers (only_n ! 0) (seven ! 0) ST_TYPE_NUMBER"
    by (simp_all add: plain_prefix_def offers_def only_n_def seven_def plain_token_def)
  then show ?thesis
    using learner_variants_observed [OF seven_history head_n_decodes(2), where pos = 0 and ty = ST_TYPE_NUMBER]
    by (simp add: seven_class only_n_def seven_def)
qed

lemma seven_observed: "in_mask ty (observed_types seven_learner only_n 0) \<longleftrightarrow> ty = ST_TYPE_NUMBER"
proof -
  have wf: "list_all wf_token only_n" using number_wf by (simp add: only_n_def)
  note G = history_through [OF seven_history]
  have offer: "offers (only_n ! 0) (seven ! 0) ty \<longleftrightarrow> ty = ST_TYPE_NUMBER" for ty
    by (auto simp: offers_def only_n_def seven_def plain_token_def)
  have len: "0 < length only_n" "length seven = 1" "seven \<in> set (map classify_argv [[''7'']])"
    by (simp_all add: only_n_def seven_def seven_class)
  show ?thesis
  proof
    assume "in_mask ty (observed_types seven_learner only_n 0)"
    then show "ty = ST_TYPE_NUMBER"
      using collected_sound [OF wf len(1) G, of ty] offer by (auto simp: observed_types_def seven_class)
  next
    assume "ty = ST_TYPE_NUMBER"
    then show "in_mask ty (observed_types seven_learner only_n 0)"
      using collected_complete [OF wf len(1) _ _ _ _ G _ len(3), of ty] offer len(2)
      by (simp add: observed_types_def plain_prefix_def)
  qed
qed

theorem learner_variants_listed_witness:
  "st_learner_suggest_token_variants seven_learner only_n 0 = [variant_of ST_TYPE_NUMBER]"
proof -
  have "observed_types seven_learner only_n 0 \<noteq> 0" using seven_observed [of ST_TYPE_NUMBER] by auto
  then have w: "in_mask ty (offered_types seven_learner only_n 0) \<longleftrightarrow> ty = ST_TYPE_NUMBER" for ty
    using seven_observed by (simp add: offered_types_def)
  have n: "0 < length only_n" "tk_type (only_n ! 0) = ST_TYPE_NUMBER" "\<not> tk_compound (only_n ! 0)"
    "st_token_edit_type (only_n ! 0) = ST_TYPE_NUMBER"
    by (simp_all add: only_n_def plain_token_def st_token_edit_type_def)
  have guards: "st_pattern_token_type_allowed (only_n ! 0) 0 (tk_type (only_n ! 0))"
    "st_pattern_token_type_allowed (only_n ! 0) 0 (st_token_edit_type (only_n ! 0))"
    "\<not> st_pattern_token_type_allowed (only_n ! 0) 0 ST_TYPE_ANY"
    using n by (simp_all add: st_pattern_token_type_allowed_def)
  obtain rest general where list: "st_learner_suggest_token_variants seven_learner only_n 0 =
      map variant_of ([ST_TYPE_NUMBER] @ rest @ general @ [])" "distinct ([ST_TYPE_NUMBER] @ rest @ general @ [])"
      "\<forall>t\<in>set rest. t = ST_TYPE_NUMBER" "set general \<subseteq> set (general_category ST_TYPE_NUMBER)"
    using learner_variants_listed [where l = seven_learner and ts = only_n and pos = 0, OF n(1) guards(1,2), unfolded w n(4)] guards(3)
    unfolding if_not_P [OF guards(3)] by auto
  then show ?thesis by (cases rest) (auto simp: general_category_def)
qed

end
