(* ===== verification/Spec2Isabelle.thy ===== *)
theory Spec2Isabelle
  imports Recognisers Histories Cpl_Roundtrip Cpl_Grammar Interning_Spec Reload Suggest_Claims Variants_Claims
begin

text \<open>
  Verification of the policy core of shellclave.

  \<^bold>\<open>The program.\<close> shellclave decides whether a shell command may run. The library
  \<^verbatim>\<open>shelltype\<close> keeps a policy, a set of command patterns, in a trie. A command
  arrives as a netargv, a sequence of netstrings; every argument is classified into one of the types
  of a lattice (\<^verbatim>\<open>normalize.c\<close>); a pattern is a sequence of tokens, each a
  literal, a typed wildcard or a compound of a prefix, a wildcard and a suffix, encoded canonically
  as a netpattern (\<^verbatim>\<open>netpattern.c\<close>); the policy (\<^verbatim>\<open>policy.c\<close>)
  adds, removes, merges and compacts patterns, matches commands against them behind per-position
  membership filters, and suggests patterns for commands it does not accept.

  \<^bold>\<open>The theories\<close>, each importing those before it that it uses:

  \<^item> \<open>Prelude\<close>: the types of bytes, results and limits, and the lemmas on lists, words and
    options that several theories share.
  \<^item> \<open>Ascii\<close>: the character predicates of \<^verbatim>\<open>common/shell_ascii.h\<close>.
  \<^item> \<open>Lattice\<close>: the token types of \<^verbatim>\<open>shelltype.h\<close>, both tables of
    \<^verbatim>\<open>normalize.c\<close> entry by entry and the acceptance masks of
    \<^verbatim>\<open>policy.c\<close>. The tables are the order and the join of one lattice.
  \<^item> \<open>Netstring\<close>: \<^verbatim>\<open>shell_netstring.c\<close>, the iterator, validation,
    the writer and the stream reader, against an inductive grammar of netstrings.
  \<^item> \<open>Metadata\<close>: the closed vocabulary of wildcard parameters in
    \<^verbatim>\<open>metadata.h\<close>.
  \<^item> \<open>Classify\<close>, \<open>Argv\<close>: the recognisers of \<^verbatim>\<open>normalize.c\<close>, their
    priority chain, the argument contexts and the three readers of a netargv.
  \<^item> \<open>Netpattern\<close>: encoding, decoding and comparison of canonical patterns. Decoding accepts
    exactly the encodings.
  \<^item> \<open>Cpl\<close>, \<open>Cpl_Roundtrip\<close>, \<open>Cpl_Grammar\<close>: the textual pattern language, its
    parser and printer in \<^verbatim>\<open>netpattern.c\<close>; printing and parsing is the identity on
    canonical patterns, and the parser reads exactly the language of a grammar stated without it:
    words, quoted parts, captures, escapes, UTF-8 and surrogate pairs.
  \<^item> \<open>Subsume\<close>, \<open>Recognisers\<close>: what one token accepts, when a pattern subsumes
    another, and what the recognisers accept against independent specifications.
  \<^item> \<open>Paths\<close>, \<open>Trie\<close>, \<open>Trie_Updates\<close>: the nodes of the trie, the locale
    \<open>edge_map\<close> of tree-shaped edge maps, and the effect of insertion and pruning on the
    paths.
  \<^item> \<open>Policy\<close>, \<open>Registry\<close>, \<open>Policy_Updates\<close>, \<open>Policy_Spec\<close>: the policy object
    and its updates, the invariant, and the effect of each update on the set of patterns.
  \<^item> \<open>Eval\<close>, \<open>Queues\<close>, \<open>Matching\<close>, \<open>Filters\<close>, \<open>Suggestions\<close>,
    \<open>Eval_Spec\<close>, \<open>Decisions\<close>: evaluation. The locale \<open>queue_order\<close> is the contract of the
    breadth-first loops, interpreted on the matching walk and on the rebuild of the filters.
  \<^item> \<open>Simulation\<close>, \<open>Histories\<close>: compaction, and the policy object over histories of
    calls, an instance of the locale \<open>simulation\<close>.
  \<^item> \<open>Files\<close>, \<open>Files_Spec\<close>, \<open>Persistence\<close>, \<open>Persistence_Spec\<close>, \<open>Reload\<close>:
    files of policies. \<open>Files\<close> has the checksum, the line reader, number parsing and the
    replacement of a file (\<^verbatim>\<open>crc32.c\<close>, \<^verbatim>\<open>read_line.h\<close>,
    \<^verbatim>\<open>io.h\<close>, \<^verbatim>\<open>shell_file_internal.h\<close>) over a directory that
    is a map and a system that grants or refuses each request; \<open>Persistence\<close> has
    \<^verbatim>\<open>st_policy_save\<close> and \<^verbatim>\<open>st_policy_load\<close>. A save
    replaces the destination completely or not at all, and what it wrote loads again.
  \<^item> \<open>Arena\<close>, \<open>Interning\<close>, \<open>Interning_Spec\<close>: the memory behind a
    policy, \<^verbatim>\<open>arena.c\<close> and the string pool of \<^verbatim>\<open>policy_ctx.c\<close>,
    down to offsets and cells. Blocks do not overlap and keep what their clients store in them when the
    arena moves; over worlds of contexts that intern, are referenced, reset and exchange their storage,
    an interned pointer keeps its string, and a string gets its pointer again unless its hash is the mark
    of a vacant position.

  \<^item> \<open>Learner\<close>, \<open>Learner_Spec\<close>, \<open>Learner_Files\<close>, \<open>Learner_Files_Spec\<close>,
    \<open>Learner_History\<close>, \<open>Learner_Claims\<close>: the learner of \<^verbatim>\<open>trie.c\<close>, a
    counting trie of the commands it was fed, with the rollback of failed insertions and its file
    format. A trie represents a list of commands; insertion adds one, a file holds the nodes in
    preorder, and every file the loader accepts is the trie of some list of commands, so the counts
    of every reachable learner are numbers of commands.
  \<^item> \<open>Qsort\<close>, \<open>Learner_Suggest\<close>, \<open>Suggest_Index\<close>,
    \<open>Suggest_Walk\<close>, \<open>Suggest_Count\<close>, \<open>Suggest_Collect\<close>,
    \<open>Suggest_Claims\<close>: what the learner suggests. \<open>Learner_Suggest\<close> has the collection
    of proposals, the index of their prefixes, the walk that counts them and the ranking;
    \<open>Suggest_Index\<close> shows that the index has every prefix once, \<open>Suggest_Walk\<close> that the
    walk with its binary searches meets exactly the matching pairs of node and prefix,
    \<open>Suggest_Count\<close> that the visits add up to the commands a pattern accepts,
    \<open>Suggest_Collect\<close> that proposals decode. The locale \<open>comparator\<close> is the contract
    of \<^verbatim>\<open>qsort\<close>, interpreted on every comparison function of the code.
  \<^item> \<open>Variants\<close>, \<open>Variants_Spec\<close>, \<open>Variants_Claims\<close>: the choices for
    editing one token of a pattern, from \<^verbatim>\<open>trie_variants.c\<close>. The widening choices are
    the supertypes in the lattice and each gives a pattern that covers the edited one; the
    alternatives of a learner are the types its commands have at the position.

  \<^bold>\<open>State and operations.\<close> The record \<open>st_policy\<close> has the fields of the C
  structure: trie states, pattern entries, epoch, filters with their masks and compound flags and
  built epochs, length buckets, counters. A node keeps its literal and its wildcard children in the
  order of the children array. Arrays are lists, indices are natural numbers, a null pointer is
  \<open>None\<close>, and an operation returns its status together with the policy it leaves on every
  path, so a failed operation shows what it changed. Masks and hashes are 64-bit words; counters of
  patterns and children keep the limits of the code as explicit tests. \<open>policy_inv\<close> says that
  the trie is a tree whose nodes are sorted and hold canonical children, that the registry names
  exactly the ends of the paths of the active patterns, that the buckets list each active pattern
  of their length once, that no filter level misses a key of the trie at its depth, and that no
  pattern subsumes another. Every operation keeps it.

  \<^bold>\<open>What the lemmas show.\<close> The codecs are canonical in both directions; the tables form a
  lattice; subsumption is a partial order and sound for acceptance; the trie update lemmas reduce
  each operation to its effect on a finite map of paths; the policy lemmas reduce it to the set of
  patterns; matching decides acceptance by that set, the first pattern in the canonical order is
  reported, and each suggestion accepts the command and can be added. A filter level rejects
  nothing that a pattern accepts in any state that satisfies the invariant, also when its epoch is
  stale, so the window in which \<^verbatim>\<open>policy_eval\<close> releases the lock between
  rebuilding and reading cannot cause a false rejection.

  \<^bold>\<open>Bounds and fuel.\<close> Loops recurse on their data or on a measure. The matching walk and
  the rebuild terminate by a multiset order on the tokens or levels left in the queue. The descent
  to the nearest pattern takes the number of states as fuel, and \<open>nearest_descent_ends\<close> shows that more changes nothing; so
  does the walk that saves a policy, which meets every node of the trie once.
  The queue of the rebuild is bounded by the number of states as in the code, and
  \<open>rebuild_never_overflows\<close> shows that the bound is never met.

  \<^bold>\<open>Parameters.\<close> The membership filter \<^verbatim>\<open>vacuum_filter\<close> is a library
  outside the repository. It is the argument \<open>filter_ops\<close>; the one documented property used,
  \<open>no_false_negatives\<close>, is met by \<open>list_filters\<close>.

  \<^bold>\<open>Assumptions.\<close> Allocations succeed (in the theories about memory and in the
  insertion of the learner each may fail, as an argument says), node indices stay below the 32-bit limit, each
  public operation is one atomic step (the code takes a reader-writer lock), pattern strings carry
  their lengths, confidence is an exact rational.

  \<^bold>\<open>Not modelled\<close>: releasing storage, the clock behind \<^verbatim>\<open>filter_rebuild_us\<close>,
  NFA and DOT output; the operations of the policy that only report: the comparison of two policies,
  the dry run of an addition, its own widening suggestions, the statistics and the accessors; the
  shell grammar of
  \<^verbatim>\<open>shellsplit\<close> and the gate of \<^verbatim>\<open>shellgate\<close>, which call the policy
  through the operations modelled here.
\<close>

end
